(* ===== verification/Prelude.thy ===== *)
theory Prelude
  imports Main "HOL-Library.Word" "HOL-Library.Multiset"
begin

text \<open>
  Shared ground of the development: the machine integers of the C sources, big-endian
  reads and writes of 16-bit and 32-bit fields in byte buffers, the scan loops that the
  tables of the sources have in common (find the first match, sweep with swap-with-last
  removal), and the lemma collections the component theories draw on.

  A C buffer with its length is a \<open>u8 list\<close>; \<open>size_t\<close> is \<open>nat\<close>; \<open>int\<close> counters and
  codes are \<open>int\<close> or \<open>nat\<close>; \<open>uint8_t\<close> to \<open>uint64_t\<close> keep their width.
\<close>

unbundle bit_operations_syntax

type_synonym u8 = "8 word"
type_synonym u16 = "16 word"
type_synonym u32 = "32 word"
type_synonym u64 = "64 word"

named_theorems bytes_simps \<open>conversions between words and their big-endian bytes\<close>
named_theorems sweep_simps \<open>facts on the swap-with-last sweep of a table\<close>

section \<open>Big-endian fields\<close>

definition be16 :: "u8 \<Rightarrow> u8 \<Rightarrow> u16" where
  "be16 h l = push_bit 8 (ucast h) OR ucast l"

definition hi8 :: "u16 \<Rightarrow> u8" where
  "hi8 x = ucast (drop_bit 8 x)"

definition lo8 :: "u16 \<Rightarrow> u8" where
  "lo8 x = ucast x"

definition be32 :: "u8 \<Rightarrow> u8 \<Rightarrow> u8 \<Rightarrow> u8 \<Rightarrow> u32" where
  "be32 a b c d = push_bit 24 (ucast a) OR push_bit 16 (ucast b) OR push_bit 8 (ucast c) OR ucast d"

definition byte3 :: "u32 \<Rightarrow> u8" where "byte3 x = ucast (drop_bit 24 x)"
definition byte2 :: "u32 \<Rightarrow> u8" where "byte2 x = ucast (drop_bit 16 x)"
definition byte1 :: "u32 \<Rightarrow> u8" where "byte1 x = ucast (drop_bit 8 x)"
definition byte0 :: "u32 \<Rightarrow> u8" where "byte0 x = ucast x"

definition put16 :: "u16 \<Rightarrow> u8 list" where
  "put16 x = [hi8 x, lo8 x]"

definition put32 :: "u32 \<Rightarrow> u8 list" where
  "put32 x = [byte3 x, byte2 x, byte1 x, byte0 x]"

definition get16 :: "u8 list \<Rightarrow> nat \<Rightarrow> u16" where
  "get16 bs i = be16 (bs ! i) (bs ! (i + 1))"

definition get32 :: "u8 list \<Rightarrow> nat \<Rightarrow> u32" where
  "get32 bs i = be32 (bs ! i) (bs ! (i + 1)) (bs ! (i + 2)) (bs ! (i + 3))"

text \<open>
  \<^verbatim>\<open>ntohs\<close> and \<^verbatim>\<open>htons\<close> on a little-endian host, and the bytes such a host keeps of a 16-bit
  integer: the two compose to the big-endian bytes of the wire.
\<close>

definition ntohs :: "u16 \<Rightarrow> u16" where
  "ntohs x = be16 (lo8 x) (hi8 x)"

definition mem16 :: "u16 \<Rightarrow> u8 list" where
  "mem16 x = [lo8 x, hi8 x]"

definition read_mem16 :: "u8 list \<Rightarrow> nat \<Rightarrow> u16" where
  "read_mem16 bs i = be16 (bs ! (i + 1)) (bs ! i)"

lemma be16_hi_lo [simp, bytes_simps]: "be16 (hi8 x) (lo8 x) = x"
  unfolding be16_def hi8_def lo8_def
  by (rule bit_word_eqI) (auto simp: bit_simps)

lemma hi8_be16 [simp, bytes_simps]: "hi8 (be16 h l) = h"
  unfolding be16_def hi8_def
  by (rule bit_word_eqI) (auto simp: bit_simps dest: bit_imp_le_length)

lemma lo8_be16 [simp, bytes_simps]: "lo8 (be16 h l) = l"
  unfolding be16_def lo8_def
  by (rule bit_word_eqI) (auto simp: bit_simps dest: bit_imp_le_length)

lemma ntohs_ntohs [simp, bytes_simps]: "ntohs (ntohs x) = x"
  by (simp add: ntohs_def)

lemma mem16_ntohs [simp, bytes_simps]: "mem16 (ntohs x) = put16 x"
  by (simp add: mem16_def ntohs_def put16_def)

lemma ntohs_read_mem16 [simp, bytes_simps]: "ntohs (read_mem16 bs i) = get16 bs i"
  by (simp add: ntohs_def read_mem16_def get16_def)

lemma be32_bytes [simp, bytes_simps]: "be32 (byte3 x) (byte2 x) (byte1 x) (byte0 x) = x"
  unfolding be32_def byte3_def byte2_def byte1_def byte0_def
proof (rule bit_word_eqI)
  fix n
  assume "n < LENGTH(32)"
  then consider "n < 8" | "8 \<le> n" "n < 16" | "16 \<le> n" "n < 24" | "24 \<le> n" "n < 32"
    by fastforce
  then show "bit (push_bit 24 (ucast (ucast (drop_bit 24 x) :: u8) :: u32) OR
        push_bit 16 (ucast (ucast (drop_bit 16 x) :: u8)) OR
        push_bit 8 (ucast (ucast (drop_bit 8 x) :: u8)) OR ucast (ucast x :: u8)) n = bit x n"
    by cases (auto simp: bit_simps)
qed

lemma bytes_be32 [simp, bytes_simps]:
  "byte3 (be32 a b c d) = a" "byte2 (be32 a b c d) = b"
  "byte1 (be32 a b c d) = c" "byte0 (be32 a b c d) = d"
  unfolding be32_def byte3_def byte2_def byte1_def byte0_def
  by (rule bit_word_eqI, auto simp: bit_simps dest: bit_imp_le_length)+

lemma length_put16 [simp, bytes_simps]: "length (put16 x) = 2"
  by (simp add: put16_def)

lemma length_put32 [simp, bytes_simps]: "length (put32 x) = 4"
  by (simp add: put32_def)

lemma get16_append_put16 [bytes_simps]:
  "i = length pre \<Longrightarrow> get16 (pre @ put16 x @ post) i = x"
  by (simp add: get16_def put16_def nth_append)

lemma get32_append_put32 [bytes_simps]:
  "i = length pre \<Longrightarrow> get32 (pre @ put32 x @ post) i = x"
  by (simp add: get32_def put32_def nth_append numeral_eq_Suc)

text \<open>Reading past a prefix of known length.\<close>

lemma get_past:
  "length xs \<le> n \<Longrightarrow> get16 (xs @ ys) n = get16 ys (n - length xs)"
  "length xs \<le> n \<Longrightarrow> get32 (xs @ ys) n = get32 ys (n - length xs)"
  "0 < n \<Longrightarrow> get16 (b # ys) n = get16 ys (n - 1)"
  "0 < n \<Longrightarrow> get32 (b # ys) n = get32 ys (n - 1)"
  "get16 (put16 x @ ys) 0 = x" "get16 (put16 x) 0 = x"
  "get32 (put32 y @ ys) 0 = y" "get32 (put32 y) 0 = y"
  by (simp_all add: get16_def get32_def nth_append put16_def put32_def Suc_diff_le numeral_eq_Suc)

lemma unat_u8_less: "unat (x :: u8) < 256"
  using unsigned_less [of x, where ?'a = nat] by simp

lemma unat_u16_less: "unat (x :: u16) < 65536"
  using unsigned_less [of x, where ?'a = nat] by simp

lemma unat_u32_less: "unat (x :: u32) < 4294967296"
  using unsigned_less [of x, where ?'a = nat] by simp

lemma unat_of_nat_u8: "n < 256 \<Longrightarrow> unat (of_nat n :: u8) = n"
  by (simp add: unat_of_nat)

lemma unat_of_nat_u16: "n < 65536 \<Longrightarrow> unat (of_nat n :: u16) = n"
  by (simp add: unat_of_nat)

lemma unat_of_nat_u32: "n < 4294967296 \<Longrightarrow> unat (of_nat n :: u32) = n"
  by (simp add: unat_of_nat)

lemma unat_ucast_up [simp, bytes_simps]:
  "unat (ucast (x :: u8) :: u16) = unat x"
  "unat (ucast (x :: u8) :: u32) = unat x"
  "unat (ucast (y :: u16) :: u32) = unat y"
  using unat_u8_less [of x] unat_u16_less [of y]
  by (simp_all add: unsigned_ucast_eq take_bit_nat_eq_self_iff)

lemma unat_be16 [bytes_simps]: "unat (be16 h l) = 256 * unat h + unat l"
proof -
  have d: "push_bit 8 (ucast h :: u16) AND ucast l = 0"
    by (rule bit_word_eqI) (auto simp: bit_simps dest: bit_imp_le_length)
  have e: "be16 h l = push_bit 8 (ucast h :: u16) + ucast l"
    unfolding be16_def using d by (simp add: disjunctive_add_eq_or)
  note unat_u8_less [of h] unat_u8_less [of l]
  then have "(unat h * 256 + unat l) mod 65536 = 256 * unat h + unat l" by simp
  then show ?thesis
    unfolding e by (simp add: push_bit_eq_mult unat_word_ariths)
qed

text \<open>A word below a power of two has no bit from there on.\<close>

lemma bit_less_exp:
  fixes x :: "'a :: len word"
  assumes "bit x n" and "unat x < 2 ^ k"
  shows "n < k"
proof -
  have "take_bit k x = x"
    using assms(2) by (simp add: word_unat_eq_iff unsigned_take_bit_eq take_bit_nat_eq_self_iff)
  then show ?thesis using assms(1) by (metis bit_take_bit_iff)
qed

section \<open>First match in a table\<close>

text \<open>
  The loop \<^verbatim>\<open>for (i = 0; i < count; i++) if (P(e[i])) return i;\<close> of the tables.
\<close>

fun find_idx :: "('a \<Rightarrow> bool) \<Rightarrow> 'a list \<Rightarrow> nat option" where
  "find_idx P [] = None"
| "find_idx P (x # xs) = (if P x then Some 0 else map_option Suc (find_idx P xs))"

lemma find_idx_None_iff: "find_idx P xs = None \<longleftrightarrow> (\<forall>x \<in> set xs. \<not> P x)"
  by (induction xs) auto

lemma find_idx_SomeD:
  "find_idx P xs = Some i \<Longrightarrow> i < length xs \<and> P (xs ! i) \<and> (\<forall>j < i. \<not> P (xs ! j))"
proof (induction xs arbitrary: i)
  case (Cons x xs)
  show ?case
  proof (cases "P x")
    case False
    with Cons.prems obtain k where "find_idx P xs = Some k" "i = Suc k" by auto
    with Cons.IH [of k] False show ?thesis by (auto simp: less_Suc_eq_0_disj)
  qed (use Cons.prems in auto)
qed simp

lemma find_idx_Some_find: "find_idx P xs = Some i \<Longrightarrow> List.find P xs = Some (xs ! i)"
  by (induction xs arbitrary: i) (auto split: if_splits)

lemma find_conv_find_idx: "List.find P xs = map_option ((!) xs) (find_idx P xs)"
  by (induction xs) (auto simp: option.map_comp o_def)

lemma find_SomeD: "List.find P xs = Some x \<Longrightarrow> x \<in> set xs \<and> P x"
  by (induction xs) (auto split: if_splits)

text \<open>In a table whose keys are distinct, the first match for a key is the only one.\<close>

lemma find_key_iff:
  assumes "distinct (map key xs)"
  shows "List.find (\<lambda>x. key x = k) xs = Some x \<longleftrightarrow> x \<in> set xs \<and> key x = k"
  using assms by (induction xs) (auto simp: image_iff)

lemma find_key_update:
  assumes "i < length xs" and "key y = key (xs ! i)" and "distinct (map key xs)"
  shows "List.find (\<lambda>x. key x = k) (xs[i := y]) =
    (if k = key y then Some y else List.find (\<lambda>x. key x = k) xs)"
  using assms
proof (induction xs arbitrary: i)
  case (Cons x xs)
  then show ?case
    by (cases i) (auto simp: find_None_iff image_iff dest: nth_mem [of _ xs])
qed simp

lemma set_key_update:
  assumes "i < length xs" and "key y = key (xs ! i)" and "distinct (map key xs)"
  shows "set (xs[i := y]) = insert y {x \<in> set xs. key x \<noteq> key y}"
  using assms
proof (induction xs arbitrary: i)
  case (Cons x xs)
  show ?case
  proof (cases i)
    case 0
    with Cons.prems show ?thesis by (auto simp: image_iff)
  next
    case (Suc k)
    then have "key x \<noteq> key y" using Cons.prems by (auto simp: image_iff)
    with Suc Cons show ?thesis by auto
  qed
qed simp

lemma find_append: "List.find P (xs @ ys) =
    (case List.find P xs of None \<Rightarrow> List.find P ys | Some x \<Rightarrow> Some x)"
  by (induction xs) auto

lemma map_key_update:
  "i < length xs \<Longrightarrow> key y = key (xs ! i) \<Longrightarrow> map key (xs[i := y]) = map key xs"
  by (simp add: list_update_same_conv map_update)

section \<open>Swap-with-last removal and the sweep loop\<close>

text \<open>
  \<^verbatim>\<open>e[i] = e[count - 1]; count--;\<close> on the live prefix of a table.
\<close>

definition swap_remove :: "nat \<Rightarrow> 'a list \<Rightarrow> 'a list" where
  "swap_remove i xs = butlast (xs[i := last xs])"

lemma length_swap_remove [simp]: "length (swap_remove i xs) = length xs - 1"
  by (simp add: swap_remove_def)

lemma mset_swap_remove:
  assumes "i < length xs"
  shows "mset (swap_remove i xs) = mset xs - {#xs ! i#}"
proof -
  obtain ys y where xs: "xs = ys @ [y]"
    using assms by (cases xs rule: rev_cases) auto
  show ?thesis
  proof (cases "i < length ys")
    case True
    then have "swap_remove i xs = ys[i := y]"
      by (simp add: swap_remove_def xs list_update_append)
    with True show ?thesis
      by (simp add: xs mset_update nth_append)
  next
    case False
    with assms xs have "i = length ys" by simp
    then show ?thesis by (simp add: swap_remove_def xs)
  qed
qed

lemma set_swap_remove_subset: "i < length xs \<Longrightarrow> set (swap_remove i xs) \<subseteq> set xs"
  by (metis diff_subset_eq_self mset_subset_eqD mset_swap_remove set_mset_mset subsetI)

lemma take_swap_remove: "i < length xs \<Longrightarrow> take i (swap_remove i xs) = take i xs"
  by (simp add: swap_remove_def take_butlast)

lemma distinct_map_swap_remove:
  assumes "distinct (map key xs)" and "i < length xs"
  shows "distinct (map key (swap_remove i xs))"
    and "set (swap_remove i xs) = {x \<in> set xs. key x \<noteq> key (xs ! i)}"
proof -
  have m: "mset xs = add_mset (xs ! i) (mset (swap_remove i xs))"
    using assms(2) by (simp add: mset_swap_remove)
  then have "mset (map key xs) = mset (map key (xs ! i # swap_remove i xs))"
    by (simp only: mset_map mset.simps)
  then have d: "distinct (map key (xs ! i # swap_remove i xs))"
    using assms(1) mset_eq_imp_distinct_iff by blast
  then show "distinct (map key (swap_remove i xs))" by simp
  have "set xs = insert (xs ! i) (set (swap_remove i xs))"
    using m by (metis set_mset_add_mset_insert set_mset_mset)
  with d show "set (swap_remove i xs) = {x \<in> set xs. key x \<noteq> key (xs ! i)}"
    by (auto simp: image_iff)
qed

text \<open>
  The aging loops of the tables visit every entry once and keep it, change it in place or
  drop it by moving the last entry into its slot (and visit that one next).
\<close>

datatype 'a verdict = Keep | Change 'a | Drop

function sweep :: "('a \<Rightarrow> 'a verdict) \<Rightarrow> nat \<Rightarrow> 'a list \<Rightarrow> nat \<Rightarrow> 'a list \<times> nat" where
  "sweep f i es n =
     (if i < length es then
        (case f (es ! i) of
           Keep \<Rightarrow> sweep f (Suc i) es n
         | Change e \<Rightarrow> sweep f (Suc i) (es[i := e]) (Suc n)
         | Drop \<Rightarrow> sweep f i (swap_remove i es) (Suc n))
      else (es, n))"
  by pat_completeness auto
termination
  by (relation "measure (\<lambda>(f, i, es, n). length es - i)") auto

declare sweep.simps [simp del]

fun verdict_result :: "'a \<Rightarrow> 'a verdict \<Rightarrow> 'a option" where
  "verdict_result e Keep = Some e"
| "verdict_result e (Change e') = Some e'"
| "verdict_result e Drop = None"

lemma drop_nth_Cons: "i < length xs \<Longrightarrow> drop i xs = xs ! i # drop (Suc i) xs"
  by (simp add: Cons_nth_drop_Suc)

lemma mset_drop_swap_remove:
  assumes "i < length xs"
  shows "mset (drop i (swap_remove i xs)) = mset (drop (Suc i) xs)"
proof -
  have "mset (take i xs) + mset (drop i (swap_remove i xs)) = mset (swap_remove i xs)"
    using assms by (metis append_take_drop_id mset_append take_swap_remove)
  also have "\<dots> = mset (take i xs) + mset (drop (Suc i) xs)"
    using assms by (metis (no_types) add_mset_remove_trivial append_take_drop_id drop_nth_Cons
        mset.simps(2) mset_append mset_swap_remove union_mset_add_mset_right)
  finally show ?thesis by simp
qed

text \<open>The sweep treats every entry exactly once, whatever the order of the moves.\<close>

lemma sweep_mset [sweep_simps]:
  "mset (fst (sweep f i es n)) =
     mset (take i es) + mset (List.map_filter (\<lambda>e. verdict_result e (f e)) (drop i es))"
proof (induction f i es n rule: sweep.induct)
  case (1 f i es n)
  show ?case
  proof (cases "i < length es")
    case True
    have *: "mset (List.map_filter g xs) = mset (List.map_filter g ys)"
      if "mset xs = mset ys" for g :: "'a \<Rightarrow> 'a option" and xs ys
      using that by (simp add: List.map_filter_def mset_map mset_filter)
    show ?thesis
      using True 1 * [OF mset_drop_swap_remove [OF True]]
      by (subst sweep.simps)
        (auto simp: drop_nth_Cons [OF True] take_Suc_conv_app_nth take_swap_remove
          List.map_filter_simps split: verdict.splits)
  next
    case False
    then show ?thesis by (subst sweep.simps) (simp add: List.map_filter_simps)
  qed
qed

lemma sweep_count [sweep_simps]:
  "snd (sweep f i es n) = n + length (filter (\<lambda>e. f e \<noteq> Keep) (drop i es))"
proof (induction f i es n rule: sweep.induct)
  case (1 f i es n)
  show ?case
  proof (cases "i < length es")
    case True
    have "length (filter P (drop i (swap_remove i es))) = length (filter P (drop (Suc i) es))" for P
      by (metis mset_drop_swap_remove [OF True] mset_filter size_mset)
    then show ?thesis
      using True 1
      by (subst sweep.simps) (auto simp: drop_nth_Cons [OF True] split: verdict.splits)
  next
    case False
    then show ?thesis by (subst sweep.simps) simp
  qed
qed

end
