(* ===== verification/Interfaces.thy ===== *)
theory Interfaces
  imports Prelude
begin

text \<open>
  The contracts the components of the sources share, each as a locale: a machine that keeps
  an invariant under its operations, a machine that refines a simpler one, a bounded table
  keyed by an address or a flow, an encoder with its decoder, the Internet checksum stored
  in a field of the buffer it covers, and a scan for the best matching entry.
  A component theory interprets them on its own definitions; what is proved here once
  is then a fact about each of those.
\<close>

section \<open>Machines\<close>

text \<open>
  \<open>guarded step ok s es\<close>: every event of \<open>es\<close> is acceptable in the state it meets.
\<close>

fun guarded :: "('s \<Rightarrow> 'e \<Rightarrow> 's) \<Rightarrow> ('s \<Rightarrow> 'e \<Rightarrow> bool) \<Rightarrow> 's \<Rightarrow> 'e list \<Rightarrow> bool" where
  "guarded step ok s [] = True"
| "guarded step ok s (e # es) = (ok s e \<and> guarded step ok (step s e) es)"

lemma guarded_append:
  "guarded step ok s (es @ fs) \<longleftrightarrow>
     guarded step ok s es \<and> guarded step ok (foldl step s es) fs"
  by (induction es arbitrary: s) auto

lemma guarded_True [simp]: "guarded step (\<lambda>s e. True) s es"
  by (induction es arbitrary: s) auto

locale machine =
  fixes step :: "'s \<Rightarrow> 'e \<Rightarrow> 's"
    and ok :: "'s \<Rightarrow> 'e \<Rightarrow> bool"
    and inv :: "'s \<Rightarrow> bool"
  assumes step_inv: "inv s \<Longrightarrow> ok s e \<Longrightarrow> inv (step s e)"
begin

lemma run_inv: "inv s \<Longrightarrow> guarded step ok s es \<Longrightarrow> inv (foldl step s es)"
  by (induction es arbitrary: s) (auto intro: step_inv)

end

locale simulation = machine step ok inv
  for step :: "'s \<Rightarrow> 'e \<Rightarrow> 's" and ok :: "'s \<Rightarrow> 'e \<Rightarrow> bool" and inv :: "'s \<Rightarrow> bool" +
  fixes abs :: "'s \<Rightarrow> 'a"
    and astep :: "'a \<Rightarrow> 'e \<Rightarrow> 'a"
  assumes step_abs: "inv s \<Longrightarrow> ok s e \<Longrightarrow> abs (step s e) = astep (abs s) e"
begin

lemma run_abs:
  "inv s \<Longrightarrow> guarded step ok s es \<Longrightarrow> abs (foldl step s es) = foldl astep (abs s) es"
proof (induction es arbitrary: s)
  case (Cons e es)
  then have "inv (step s e)" by (simp add: step_inv)
  with Cons show ?case by (simp add: step_abs)
qed simp

end

section \<open>Bounded keyed tables\<close>

text \<open>
  \<open>insert t k v\<close> is the table with \<open>k\<close> bound to \<open>v\<close>, or \<open>None\<close> where the code
  returns its error because the table is full.
\<close>

fun insert_all :: "('t \<Rightarrow> 'k \<Rightarrow> 'v \<Rightarrow> 't option) \<Rightarrow> 't \<Rightarrow> ('k \<times> 'v) list \<Rightarrow> 't option" where
  "insert_all ins t [] = Some t"
| "insert_all ins t ((k, v) # kvs) =
     (case ins t k v of None \<Rightarrow> None | Some t' \<Rightarrow> insert_all ins t' kvs)"

locale keyed_table =
  fixes lookup :: "'t \<Rightarrow> 'k \<Rightarrow> 'v option"
    and ins :: "'t \<Rightarrow> 'k \<Rightarrow> 'v \<Rightarrow> 't option"
    and used :: "'t \<Rightarrow> nat"
    and cap :: "'t \<Rightarrow> nat"
    and inv :: "'t \<Rightarrow> bool"
  assumes ins_lookup: "inv t \<Longrightarrow> ins t k v = Some t' \<Longrightarrow> lookup t' = (lookup t)(k \<mapsto> v)"
    and ins_inv: "inv t \<Longrightarrow> ins t k v = Some t' \<Longrightarrow> inv t'"
    and ins_full: "inv t \<Longrightarrow> ins t k v = None \<longleftrightarrow> lookup t k = None \<and> used t = cap t"
    and ins_used: "inv t \<Longrightarrow> ins t k v = Some t' \<Longrightarrow>
      cap t' = cap t \<and> used t' = (if lookup t k = None then Suc (used t) else used t)"
    and used_cap: "inv t \<Longrightarrow> used t \<le> cap t"
begin

lemma insert_all_inv: "inv t \<Longrightarrow> insert_all ins t kvs = Some t' \<Longrightarrow> inv t'"
proof (induction kvs arbitrary: t)
  case (Cons kv kvs)
  obtain k v where kv: "kv = (k, v)" by (cases kv)
  with Cons.prems obtain u where "ins t k v = Some u" and "insert_all ins u kvs = Some t'"
    by (auto split: option.splits)
  with Cons show ?case using ins_inv by blast
qed simp

lemma insert_all_lookup:
  "inv t \<Longrightarrow> insert_all ins t kvs = Some t' \<Longrightarrow> lookup t' = lookup t ++ map_of (rev kvs)"
proof (induction kvs arbitrary: t)
  case (Cons kv kvs)
  obtain k v where kv: "kv = (k, v)" by (cases kv)
  with Cons.prems obtain u where u: "ins t k v = Some u" and r: "insert_all ins u kvs = Some t'"
    by (auto split: option.splits)
  have "inv u" using Cons.prems(1) u by (rule ins_inv)
  then have "lookup t' = lookup u ++ map_of (rev kvs)" using r by (rule Cons.IH)
  then show ?case
    using ins_lookup [OF Cons.prems(1) u] by (simp add: kv map_add_assoc [symmetric] map_add_upd)
qed simp

lemma insert_all_room:
  "inv t \<Longrightarrow> used t + length kvs \<le> cap t \<Longrightarrow> \<exists>t'. insert_all ins t kvs = Some t'"
proof (induction kvs arbitrary: t)
  case (Cons kv kvs)
  obtain k v where kv: "kv = (k, v)" by (cases kv)
  have "ins t k v \<noteq> None"
    using Cons.prems ins_full [of t k v] by auto
  then obtain u where u: "ins t k v = Some u" by auto
  have "used u + length kvs \<le> cap u"
    using ins_used [OF Cons.prems(1) u] Cons.prems(2) by (auto split: if_splits)
  then obtain t' where "insert_all ins u kvs = Some t'"
    using Cons.IH ins_inv [OF Cons.prems(1) u] by blast
  then show ?case by (simp add: kv u)
qed simp

lemma insert_all_last_wins:
  assumes "inv t" and "insert_all ins t (kvs @ [(k, v)]) = Some t'"
  shows "lookup t' k = Some v"
  using insert_all_lookup [OF assms] by (simp add: map_add_Some_iff)

end

section \<open>Encoders and decoders\<close>

locale codec =
  fixes enc :: "'a \<Rightarrow> 'b"
    and dec :: "'b \<Rightarrow> 'a option"
    and valid :: "'a \<Rightarrow> bool"
  assumes dec_enc: "valid x \<Longrightarrow> dec (enc x) = Some x"
begin

lemma enc_inj: "valid x \<Longrightarrow> valid y \<Longrightarrow> enc x = enc y \<Longrightarrow> x = y"
  by (metis dec_enc option.inject)

lemma dec_enc_iff: "valid x \<Longrightarrow> dec (enc x) = Some y \<longleftrightarrow> y = x"
  by (auto simp: dec_enc)

end

text \<open>
  A codec whose output never contains a given symbol: frames can be sent back to back with
  that symbol between them, and a receiver that cuts the stream there recovers every message.
\<close>

fun cut_at :: "'c \<Rightarrow> 'c list \<Rightarrow> 'c list \<Rightarrow> 'c list list" where
  "cut_at d acc [] = (if acc = [] then [] else [rev acc])"
| "cut_at d acc (x # xs) = (if x = d then rev acc # cut_at d [] xs else cut_at d (x # acc) xs)"

lemma cut_at_prefix: "d \<notin> set ys \<Longrightarrow> cut_at d acc (ys @ d # zs) = (rev acc @ ys) # cut_at d [] zs"
  by (induction ys arbitrary: acc) auto

locale delimited_codec = codec enc dec valid
  for enc :: "'a \<Rightarrow> 'c list" and dec :: "'c list \<Rightarrow> 'a option" and valid :: "'a \<Rightarrow> bool" +
  fixes delim :: 'c
  assumes enc_no_delim: "valid x \<Longrightarrow> delim \<notin> set (enc x)"
begin

lemma stream_decodes:
  "list_all valid ms \<Longrightarrow>
     map dec (cut_at delim [] (concat (map (\<lambda>m. enc m @ [delim]) ms))) = map Some ms"
  by (induction ms) (auto simp: cut_at_prefix enc_no_delim dec_enc)

end

text \<open>
  Encodings that tell where they end: the decoder returns the value and the number of symbols it
  took, whatever follows. Values laid one after the other are read back in order.
\<close>

fun read_items :: "('c list \<Rightarrow> ('a \<times> nat) option) \<Rightarrow> nat \<Rightarrow> 'c list \<Rightarrow> ('a list \<times> 'c list) option" where
  "read_items dec 0 cs = Some ([], cs)"
| "read_items dec (Suc n) cs =
     (case dec cs of
        None \<Rightarrow> None
      | Some (x, k) \<Rightarrow> map_option (\<lambda>(xs, rest). (x # xs, rest)) (read_items dec n (drop k cs)))"

locale self_delimiting =
  fixes enc :: "'a \<Rightarrow> 'c list"
    and dec :: "'c list \<Rightarrow> ('a \<times> nat) option"
    and valid :: "'a \<Rightarrow> bool"
  assumes dec_enc_rest: "valid x \<Longrightarrow> dec (enc x @ rest) = Some (x, length (enc x))"
begin

lemma prefix_free:
  assumes "valid x" and "valid y" and "enc x @ r = enc y @ s"
  shows "x = y \<and> r = s"
proof -
  have "dec (enc x @ r) = Some (x, length (enc x))" "dec (enc y @ s) = Some (y, length (enc y))"
    using assms(1,2) by (simp_all add: dec_enc_rest)
  then show ?thesis using assms(3) by simp
qed

lemma read_items_concat:
  "list_all valid xs \<Longrightarrow> read_items dec (length xs) (concat (map enc xs) @ rest) = Some (xs, rest)"
  by (induction xs) (simp_all add: dec_enc_rest)

end

sublocale self_delimiting \<subseteq> codec enc "\<lambda>cs. map_option fst (dec cs)" valid
  by unfold_locales (use dec_enc_rest [of _ "[]"] in simp)

text \<open>
  Items read at a position of a whole message, which the reader may have to look at elsewhere too:
  the reader returns what it makes of the item and how far it extends. Items laid one after
  the other are read by moving on by that much each time.
\<close>

fun read_at :: "('c list \<Rightarrow> nat \<Rightarrow> ('b \<times> nat) option) \<Rightarrow> nat \<Rightarrow> 'c list \<Rightarrow> nat \<Rightarrow> ('b list \<times> nat) option" where
  "read_at dec 0 msg pos = Some ([], pos)"
| "read_at dec (Suc n) msg pos =
     (case dec msg pos of
        None \<Rightarrow> None
      | Some (x, k) \<Rightarrow> map_option (\<lambda>(xs, q). (x # xs, q)) (read_at dec n msg (pos + k)))"

locale located_codec =
  fixes enc :: "'a \<Rightarrow> 'c list"
    and dec :: "'c list \<Rightarrow> nat \<Rightarrow> ('b \<times> nat) option"
    and view :: "'a \<Rightarrow> 'b"
    and valid :: "'a \<Rightarrow> bool"
  assumes dec_enc_at: "valid x \<Longrightarrow> dec (pre @ enc x @ rest) (length pre) = Some (view x, length (enc x))"
begin

lemma read_at_concat:
  "list_all valid xs \<Longrightarrow>
     read_at dec (length xs) (pre @ concat (map enc xs) @ rest) (length pre) =
       Some (map view xs, length pre + length (concat (map enc xs)))"
proof (induction xs arbitrary: pre)
  case (Cons x xs)
  then have "dec (pre @ enc x @ concat (map enc xs) @ rest) (length pre) = Some (view x, length (enc x))"
    by (simp add: dec_enc_at)
  then show ?case using Cons.IH [of "pre @ enc x"] Cons.prems by simp
qed simp

end

section \<open>A checksum stored in the buffer it covers\<close>

definition set16 :: "u8 list \<Rightarrow> nat \<Rightarrow> u16 \<Rightarrow> u8 list" where
  "set16 bs i x = bs[i := hi8 x, i + 1 := lo8 x]"

lemma length_set16 [simp]: "length (set16 bs i x) = length bs"
  by (simp add: set16_def)

lemma set16_nth_other: "j \<noteq> i \<Longrightarrow> j \<noteq> i + 1 \<Longrightarrow> set16 bs i x ! j = bs ! j"
  by (simp add: set16_def)

lemma get16_set16 [simp]: "i + 1 < length bs \<Longrightarrow> get16 (set16 bs i x) i = x"
  by (simp add: get16_def set16_def)

lemma get16_set16_other: "j + 1 < i \<or> i + 1 < j \<Longrightarrow> get16 (set16 bs i x) j = get16 bs j"
  by (auto simp: get16_def set16_def)

lemma set16_swap: "j + 1 < i \<or> i + 1 < j \<Longrightarrow> set16 (set16 bs i x) j y = set16 (set16 bs j y) i x"
  by (auto simp: set16_def list_update_swap)

lemma set16_set16 [simp]: "set16 (set16 bs i x) i y = set16 bs i y"
  by (simp add: set16_def list_update_swap)

lemma set16_same: "get16 bs i = x \<Longrightarrow> set16 bs i x = bs"
  by (auto simp: set16_def get16_def)

locale checksum_field =
  fixes csum :: "u8 list \<Rightarrow> u16"
    and limit :: nat
  assumes stored_verifies:
    "even i \<Longrightarrow> i + 1 < length bs \<Longrightarrow> length bs \<le> limit \<Longrightarrow>
       csum (set16 bs i (csum (set16 bs i 0))) = 0"
begin

lemma refresh_verifies:
  assumes "even i" and "i + 1 < length bs" and "length bs \<le> limit" and "get16 bs i = 0"
  shows "csum (set16 bs i (csum bs)) = 0"
  using stored_verifies [OF assms(1-3)] set16_same [OF assms(4)] by simp

end

section \<open>Scanning for the best match\<close>

locale best_match =
  fixes matches :: "'r \<Rightarrow> 'd \<Rightarrow> bool"
    and better :: "'r \<Rightarrow> 'r \<Rightarrow> bool"
    and lookup :: "'r list \<Rightarrow> 'd \<Rightarrow> 'r option"
  assumes lookup_Nil: "lookup [] d = None"
    and lookup_snoc: "lookup (rs @ [r]) d =
      (if matches r d then
         (case lookup rs d of None \<Rightarrow> Some r | Some b \<Rightarrow> if better r b then Some r else Some b)
       else lookup rs d)"
    and better_irrefl: "\<not> better r r"
    and better_trans: "better a b \<Longrightarrow> better b c \<Longrightarrow> better a c"
    and better_neg_trans: "\<not> better a b \<Longrightarrow> \<not> better b c \<Longrightarrow> \<not> better a c"
begin

lemma lookup_None_iff: "lookup rs d = None \<longleftrightarrow> (\<forall>r \<in> set rs. \<not> matches r d)"
  by (induction rs rule: rev_induct) (auto simp: lookup_Nil lookup_snoc split: option.splits)

lemma lookup_best:
  "lookup rs d = Some b \<Longrightarrow>
     b \<in> set rs \<and> matches b d \<and> (\<forall>r \<in> set rs. matches r d \<longrightarrow> \<not> better r b)"
proof (induction rs arbitrary: b rule: rev_induct)
  case (snoc r rs)
  show ?case
  proof (cases "matches r d")
    case False
    then show ?thesis using snoc by (auto simp: lookup_snoc)
  next
    case True
    show ?thesis
    proof (cases "lookup rs d")
      case None
      then have "\<forall>r \<in> set rs. \<not> matches r d" by (simp add: lookup_None_iff)
      with None True snoc.prems show ?thesis by (auto simp: lookup_snoc better_irrefl)
    next
      case (Some c)
      note c = snoc.IH [OF Some]
      show ?thesis
      proof (cases "better r c")
        case True
        with \<open>matches r d\<close> Some snoc.prems have "b = r" by (simp add: lookup_snoc)
        with True c \<open>matches r d\<close> show ?thesis
          using better_irrefl better_trans by auto
      next
        case False
        with \<open>matches r d\<close> Some snoc.prems have "b = c" by (simp add: lookup_snoc)
        with False c show ?thesis by auto
      qed
    qed
  qed
qed (simp add: lookup_Nil)

text \<open>The order of the table does not matter beyond ties.\<close>

lemma lookup_order:
  assumes "set rs = set rs'" and "lookup rs d = Some b"
  shows "\<exists>b'. lookup rs' d = Some b' \<and> \<not> better b' b \<and> \<not> better b b'"
proof -
  from assms(2) have b: "b \<in> set rs" "matches b d" and best: "\<forall>r \<in> set rs. matches r d \<longrightarrow> \<not> better r b"
    using lookup_best by auto
  then have "lookup rs' d \<noteq> None" using assms(1) by (auto simp: lookup_None_iff)
  then obtain b' where b': "lookup rs' d = Some b'" by auto
  with lookup_best [OF b'] b best assms(1) show ?thesis by auto
qed

end

end
