(* ===== verification/Checksum.thy ===== *)
theory Checksum
  imports Interfaces
begin

text \<open>
  The RFC 1071 Internet checksum of \<^verbatim>\<open>common/c/checksum.c\<close> and the RFC 1624 incremental
  update of \<^verbatim>\<open>phases/03-network-layer/02-internet-checksum/incremental.c\<close>.
  The accumulator is a \<open>u32\<close> and wraps as in C; the lemmas relate it to the exact sum of
  the 16-bit words, which is below \<open>2 ^ 32\<close> for buffers of at most 131072 bytes.
\<close>

section \<open>Definitions\<close>

fun internet_checksum_partial :: "u8 list \<Rightarrow> u32 \<Rightarrow> u32" where
  "internet_checksum_partial (a # b # p) s =
     internet_checksum_partial p (s + (push_bit 8 (ucast a) OR ucast b))"
| "internet_checksum_partial [a] s = s + push_bit 8 (ucast a)"
| "internet_checksum_partial [] s = s"

function fold_carries :: "u32 \<Rightarrow> u32" where
  "fold_carries p =
     (if drop_bit 16 p \<noteq> 0 then fold_carries ((p AND 0xFFFF) + drop_bit 16 p) else p)"
  by pat_completeness auto

lemma unat_low16: "unat ((p :: u32) AND 0xFFFF) = unat p mod 65536"
proof -
  have "p AND 0xFFFF = take_bit 16 p"
    by (simp add: take_bit_eq_mask mask_eq_exp_minus_1)
  then have "unat (p AND 0xFFFF) = take_bit 16 (unat p)"
    by (simp only: unsigned_take_bit_eq)
  then show ?thesis by (simp add: take_bit_eq_mod)
qed

lemma unat_high16: "unat (drop_bit 16 (p :: u32)) = unat p div 65536"
  unfolding unat_drop_bit_eq by (simp add: drop_bit_eq_div)

lemma high16_zero_iff: "drop_bit 16 (p :: u32) = 0 \<longleftrightarrow> unat p < 65536"
proof -
  have "drop_bit 16 p = 0 \<longleftrightarrow> unat (drop_bit 16 p) = 0"
    by (simp add: unat_eq_0)
  then show ?thesis by (simp only: unat_high16 div_eq_0_iff) simp
qed

lemma unat_fold_step:
  "unat (((p :: u32) AND 0xFFFF) + drop_bit 16 p) = unat p mod 65536 + unat p div 65536"
proof -
  have "unat p < 4294967296" by (rule unat_u32_less)
  then have "unat p mod 65536 + unat p div 65536 < 4294967296"
    by linarith
  then show ?thesis
    by (simp only: unat_word_ariths unat_low16 unat_high16) simp
qed

lemma carry_fold_less:
  assumes "65536 \<le> (n :: nat)"
  shows "n mod 65536 + n div 65536 < n"
proof -
  have "n = 65536 * (n div 65536) + n mod 65536" by simp
  moreover have "0 < n div 65536" using assms by (simp add: div_greater_zero_iff)
  ultimately show ?thesis by linarith
qed

termination fold_carries
proof (relation "measure unat")
  fix p :: u32
  assume "drop_bit 16 p \<noteq> 0"
  then have "65536 \<le> unat p" by (simp add: high16_zero_iff)
  then have "unat p mod 65536 + unat p div 65536 < unat p" by (rule carry_fold_less)
  then show "((p AND 0xFFFF) + drop_bit 16 p, p) \<in> measure unat"
    by (simp add: unat_fold_step)
qed simp

declare fold_carries.simps [simp del]

definition internet_checksum_fold :: "u32 \<Rightarrow> u16" where
  "internet_checksum_fold partial = ucast (NOT (fold_carries partial))"

definition internet_checksum :: "u8 list \<Rightarrow> u16" where
  "internet_checksum data = internet_checksum_fold (internet_checksum_partial data 0)"

definition internet_checksum_update :: "u16 \<Rightarrow> u16 \<Rightarrow> u16 \<Rightarrow> u16" where
  "internet_checksum_update old_check old_word new_word =
     ucast (NOT (fold_carries (ucast (NOT old_check) + ucast (NOT old_word) + ucast new_word)))"

fun update_n_sum :: "u32 \<Rightarrow> u8 list \<Rightarrow> u8 list \<Rightarrow> u32" where
  "update_n_sum s (oa # ob # os) (na # nb # ns) =
     update_n_sum (s + ucast (NOT (be16 oa ob)) + ucast (be16 na nb)) os ns"
| "update_n_sum s os ns = s"

definition internet_checksum_update_n :: "u16 \<Rightarrow> u8 list \<Rightarrow> u8 list \<Rightarrow> u16" where
  "internet_checksum_update_n old_check old_data new_data =
     ucast (NOT (fold_carries (update_n_sum (ucast (NOT old_check)) old_data new_data)))"

section \<open>The exact word sum and its one's-complement residue\<close>

fun wsum :: "u8 list \<Rightarrow> nat" where
  "wsum (a # b # p) = 256 * unat a + unat b + wsum p"
| "wsum [a] = 256 * unat a"
| "wsum [] = 0"

text \<open>The representative of \<open>n\<close> modulo 65535 in \<open>1..65535\<close>, and 0 for 0 only.\<close>

definition ones_residue :: "nat \<Rightarrow> nat" where
  "ones_residue n = (if n = 0 then 0 else (n - 1) mod 65535 + 1)"

lemma ones_residue_le: "ones_residue n \<le> 65535"
proof -
  have "(n - 1) mod 65535 < (65535 :: nat)" by (rule mod_less_divisor) simp
  then have "(n - 1) mod 65535 + 1 \<le> (65535 :: nat)" by linarith
  then show ?thesis
    unfolding ones_residue_def by (cases "n = 0") (simp_all only: if_True if_False simp_thms le0)
qed

lemma ones_residue_0_iff [simp]: "ones_residue n = 0 \<longleftrightarrow> n = 0"
  by (simp add: ones_residue_def)

lemma ones_residue_mod: "ones_residue n mod 65535 = n mod 65535"
  by (cases n) (simp_all add: ones_residue_def mod_Suc_eq)

lemma ones_residue_unique:
  assumes "r \<le> 65535" and "r mod 65535 = n mod 65535" and "r = 0 \<longleftrightarrow> n = 0"
  shows "ones_residue n = r"
proof (cases "n = 0")
  case False
  have "ones_residue n mod 65535 = r mod 65535" by (simp add: ones_residue_mod assms(2))
  moreover have "1 \<le> ones_residue n" "ones_residue n \<le> 65535" "1 \<le> r"
    using False assms(3) ones_residue_le [of n] ones_residue_0_iff [of n] by linarith+
  ultimately show ?thesis
    using assms(1) False by (cases "ones_residue n = 65535"; cases "r = 65535") auto
qed (use assms in simp)

lemma ones_residue_cong:
  "m mod 65535 = n mod 65535 \<Longrightarrow> (m = 0 \<longleftrightarrow> n = 0) \<Longrightarrow> ones_residue m = ones_residue n"
  by (metis ones_residue_0_iff ones_residue_le ones_residue_mod ones_residue_unique)

lemma unat_fold_carries: "unat (fold_carries p) = ones_residue (unat p)"
proof (induction p rule: fold_carries.induct)
  case (1 p)
  show ?case
  proof (cases "drop_bit 16 p = 0")
    case True
    then have "unat p < 65536" by (simp add: high16_zero_iff)
    then have "ones_residue (unat p) = unat p"
      by (intro ones_residue_unique) auto
    with True show ?thesis by (simp add: fold_carries.simps [of p])
  next
    case False
    let ?n = "unat p" and ?q = "unat p mod 65536 + unat p div 65536"
    have "?n = 65536 * (?n div 65536) + ?n mod 65536" by simp
    then have "?n = 65535 * (?n div 65536) + ?q" by linarith
    then have "?q mod 65535 = ?n mod 65535"
      by (metis mod_mult_self4)
    moreover have "?q = 0 \<longleftrightarrow> ?n = 0"
      using \<open>?n = 65536 * (?n div 65536) + ?n mod 65536\<close> by linarith
    ultimately have "ones_residue ?q = ones_residue ?n" by (rule ones_residue_cong)
    with 1 False show ?thesis
      by (simp add: fold_carries.simps [of p] unat_fold_step)
  qed
qed

lemma unat_not_u16: "unat (NOT (x :: u16)) = 65535 - unat x"
proof -
  have "NOT x = - x - 1" by (simp add: not_eq_complement)
  moreover have "NOT x = 0xFFFF - x"
    by (simp add: not_eq_complement)
  moreover have "x \<le> 0xFFFF" using unat_u16_less [of x] by (simp add: word_le_nat_alt)
  ultimately show ?thesis by (simp add: unat_sub)
qed

lemma unat_complement_fold:
  "unat (ucast (NOT (fold_carries p)) :: u16) = 65535 - ones_residue (unat p)"
proof -
  have "(ucast (NOT (fold_carries p)) :: u16) = NOT (ucast (fold_carries p))"
    by (rule bit_word_eqI) (auto simp: bit_simps)
  moreover have "unat (ucast (fold_carries p) :: u16) = ones_residue (unat p)"
    using ones_residue_le [of "unat p"]
    by (simp add: unsigned_ucast_eq take_bit_eq_mod unat_fold_carries)
  ultimately show ?thesis by (simp add: unat_not_u16)
qed

section \<open>The checksum of a buffer\<close>

lemma unat_word_of_bytes:
  "unat (push_bit 8 (ucast (a :: u8) :: u32) OR ucast (b :: u8)) = 256 * unat a + unat b"
proof -
  have d: "push_bit 8 (ucast a :: u32) AND ucast b = 0"
    by (rule bit_word_eqI) (auto simp: bit_simps dest: bit_imp_le_length)
  note unat_u8_less [of a] unat_u8_less [of b]
  then have "(unat a * 256 + unat b) mod 4294967296 = 256 * unat a + unat b" by simp
  then show ?thesis
    using d by (simp add: disjunctive_add_eq_or [symmetric] push_bit_eq_mult unat_word_ariths)
qed

lemma unat_high_byte: "unat (push_bit 8 (ucast (a :: u8) :: u32)) = 256 * unat a"
  using unat_word_of_bytes [of a 0] by simp

lemma unat_partial:
  "unat (internet_checksum_partial bs s) = (unat s + wsum bs) mod 4294967296"
proof (induction bs s rule: internet_checksum_partial.induct)
  case (1 a b p s)
  have "unat (s + (push_bit 8 (ucast a) OR ucast b)) =
      (unat s + (256 * unat a + unat b)) mod 4294967296"
    by (simp only: unat_word_ariths unat_word_of_bytes) simp
  then show ?case by (simp only: internet_checksum_partial.simps 1 wsum.simps mod_add_left_eq add.assoc)
next
  case (2 a s)
  then show ?case by (simp only: internet_checksum_partial.simps wsum.simps unat_word_ariths unat_high_byte) simp
next
  case (3 s)
  show ?case using unat_u32_less [of s] by simp
qed

lemma wsum_append: "even (length xs) \<Longrightarrow> wsum (xs @ ys) = wsum xs + wsum ys"
  by (induction xs rule: wsum.induct) auto

lemma wsum_bound: "wsum bs \<le> 65535 * ((length bs + 1) div 2)"
proof (induction bs rule: wsum.induct)
  case (1 a b p)
  then show ?case using unat_u8_less [of a] unat_u8_less [of b] by simp
next
  case (2 a)
  then show ?case using unat_u8_less [of a] by simp
qed simp

lemma wsum_small: "length bs \<le> 131072 \<Longrightarrow> wsum bs < 4294967296"
proof -
  assume "length bs \<le> 131072"
  then have "(length bs + 1) div 2 \<le> 65536" by linarith
  then have "65535 * ((length bs + 1) div 2) \<le> 65535 * 65536" by (rule mult_le_mono2)
  with wsum_bound [of bs] show ?thesis by linarith
qed

text \<open>The value the code computes, in terms of the exact sum of the words.\<close>

lemma unat_internet_checksum:
  assumes "length bs \<le> 131072"
  shows "unat (internet_checksum bs) = 65535 - ones_residue (wsum bs)"
  using wsum_small [OF assms]
  by (simp add: internet_checksum_def internet_checksum_fold_def unat_complement_fold unat_partial)

lemma internet_checksum_eqI:
  assumes "length bs \<le> 131072" and "length cs \<le> 131072"
    and "ones_residue (wsum bs) = ones_residue (wsum cs)"
  shows "internet_checksum bs = internet_checksum cs"
  using assms by (intro word_unat_eq_iff [THEN iffD2]) (simp add: unat_internet_checksum)

lemma wsum_set16:
  assumes "even i" and "i + 1 < length bs"
  shows "wsum (set16 bs i x) + unat (get16 bs i) = wsum bs + unat x"
proof -
  obtain pre a b post where bs: "bs = pre @ a # b # post" and i: "i = length pre"
  proof
    show "bs = take i bs @ bs ! i # bs ! (i + 1) # drop (i + 2) bs"
      using assms(2) by (metis Cons_nth_drop_Suc Suc_eq_plus1 add_2_eq_Suc' add_lessD1 append_take_drop_id)
    show "i = length (take i bs)" using assms(2) by simp
  qed
  have "set16 bs i x = pre @ put16 x @ post"
    by (simp add: set16_def bs i list_update_append put16_def)
  then show ?thesis
    using assms(1) i
    by (simp add: bs wsum_append put16_def get16_def nth_append unat_be16 [symmetric])
qed

lemma even_split_set16:
  assumes "even i" and "i + 1 < length bs"
  shows "wsum (set16 bs i x) = wsum (set16 bs i 0) + unat x"
  using wsum_set16 [OF assms, of x] wsum_set16 [OF assms, of 0] by simp

lemma residue_complement: "ones_residue (n + (65535 - ones_residue n)) = 65535"
proof (rule ones_residue_unique)
  have "(n + (65535 - ones_residue n)) mod 65535 =
      (n mod 65535 + (65535 - ones_residue n)) mod 65535"
    by (simp add: mod_add_left_eq)
  also have "\<dots> = (ones_residue n + (65535 - ones_residue n)) mod 65535"
    by (metis mod_add_left_eq ones_residue_mod)
  also have "ones_residue n + (65535 - ones_residue n) = 65535"
    using ones_residue_le [of n] by simp
  finally show "65535 mod 65535 = (n + (65535 - ones_residue n)) mod 65535" by simp
  show "(65535 :: nat) = 0 \<longleftrightarrow> n + (65535 - ones_residue n) = 0"
    by (cases "n = 0") (simp_all add: ones_residue_def)
qed simp

text \<open>The contract the header builders and parsers rely on.\<close>

interpretation rfc1071: checksum_field internet_checksum 131072
proof
  fix i and bs :: "u8 list"
  assume i: "even i" "i + 1 < length bs" and len: "length bs \<le> 131072"
  let ?z = "set16 bs i 0"
  have "unat (internet_checksum ?z) = 65535 - ones_residue (wsum ?z)"
    using len by (simp add: unat_internet_checksum)
  then have "ones_residue (wsum (set16 bs i (internet_checksum ?z))) = 65535"
    using residue_complement [of "wsum ?z"] by (simp add: even_split_set16 [OF i, of "internet_checksum ?z"])
  then have "unat (internet_checksum (set16 bs i (internet_checksum ?z))) = 0"
    using len by (simp add: unat_internet_checksum)
  then show "internet_checksum (set16 bs i (internet_checksum ?z)) = 0"
    by (simp add: unat_eq_0)
qed

section \<open>Incremental update\<close>

lemma unat_update_n_sum:
  assumes "length os = length ns" and "even (length os)"
  shows "\<exists>t. unat (update_n_sum s os ns) = t mod 4294967296 \<and>
      t + wsum os = unat s + 65535 * (length os div 2) + wsum ns"
  using assms
proof (induction s os ns rule: update_n_sum.induct, goal_cases)
  case (1 s oa ob os na nb ns)
  let ?s = "s + ucast (NOT (be16 oa ob)) + ucast (be16 na nb)"
  have o: "unat (be16 oa ob) \<le> 65535" using unat_u16_less [of "be16 oa ob"] by simp
  have s: "unat ?s = (unat s + (65535 - unat (be16 oa ob)) + unat (be16 na nb)) mod 4294967296"
    by (simp add: unat_word_ariths unat_not_u16 mod_simps)
  obtain t where t: "unat (update_n_sum ?s os ns) = t mod 4294967296"
      "t + wsum os = unat ?s + 65535 * (length os div 2) + wsum ns"
    using 1 by auto
  let ?k = "unat s + (65535 - unat (be16 oa ob)) + unat (be16 na nb)"
  let ?t = "t + (?k - unat ?s)"
  have le: "unat ?s \<le> ?k" by (simp add: s)
  have "?t mod 4294967296 = t mod 4294967296"
    by (simp add: s minus_mod_eq_mult_div)
  moreover have "?t + wsum os = ?k + 65535 * (length os div 2) + wsum ns"
    using t(2) le by linarith
  ultimately show ?case
    using t(1) o by (intro exI [of _ ?t]) (simp add: unat_be16 [symmetric])
next
  case (2 s ns)
  then show ?case using unat_u32_less [of s] by (intro exI [of _ "unat s"]) auto
next
  case (3 s v ns)
  then have "even (length [v])" by blast
  then show ?case by simp
next
  case (4 s os)
  then show ?case using unat_u32_less [of s] by (intro exI [of _ "unat s"]) auto
next
  case (5 s os v)
  then have "length ns = 1" by simp
  with 5 show ?case by simp
qed

text \<open>
  Replacing words of a buffer: the updated checksum is the checksum of the new buffer, but
  for the one case where the new buffer is all zero, where it is the other zero.
\<close>

lemma mod_add_rcancel:
  assumes "(a + c) mod 65535 = (b + c) mod (65535 :: nat)"
  shows "a mod 65535 = b mod 65535"
proof -
  have *: "(x + c + 65534 * c) mod 65535 = x mod 65535" for x
  proof -
    have "x + c + 65534 * c = x + 65535 * c" by simp
    then show ?thesis by simp
  qed
  from assms have "(a + c + 65534 * c) mod 65535 = (b + c + 65534 * c) mod 65535"
    by (rule mod_add_cong) simp
  then show ?thesis by (simp only: *)
qed

lemma ones_residue_replace:
  assumes "r = ones_residue w" and t: "t + old = r + 65535 * k + new"
    and "old \<le> w" and "old \<le> 65535 * k" and "0 < k"
  shows "ones_residue t = (if w - old + new = 0 then 65535 else ones_residue (w - old + new))"
proof -
  have "(t + old) mod 65535 = (r + new + 65535 * k) mod 65535"
    using t by (simp only: ac_simps)
  also have "\<dots> = (r + new) mod 65535" by (rule mod_mult_self2)
  also have "\<dots> = (w + new) mod 65535"
    using assms(1) by (metis mod_add_left_eq ones_residue_mod)
  also have "w + new = (w - old + new) + old"
    using assms(3) by simp
  finally have m: "t mod 65535 = (w - old + new) mod 65535"
    by (rule mod_add_rcancel)
  have t0: "0 < t"
  proof (rule ccontr)
    assume "\<not> 0 < t"
    with t assms(4) have "r = 0" "old = 65535 * k" by simp_all
    with assms(1,3,5) show False by simp
  qed
  show ?thesis
  proof (cases "w - old + new = 0")
    case True
    with m t0 show ?thesis by (simp add: ones_residue_unique)
  next
    case False
    with m t0 have "ones_residue t = ones_residue (w - old + new)"
      by (intro ones_residue_cong) auto
    then show ?thesis by (simp only: if_not_P [OF False])
  qed
qed

lemma wsum_le_even: "even (length bs) \<Longrightarrow> wsum bs \<le> 65535 * (length bs div 2)"
  using wsum_bound [of bs] by (simp add: even_iff_mod_2_eq_zero)

text \<open>
  C8. RFC 1624 (eqn. 3) over a run of words: replacing the bytes \<open>old\<close> of a checksummed buffer
  by \<open>new\<close> and updating the checksum incrementally gives what recomputing it over the new
  buffer gives. The one exception is a new buffer of zeros only: the incremental
  code then yields 0 where recomputing yields 0xFFFF.
\<close>
theorem internet_checksum_update_n_correct:
  assumes "even (length pre)" and "even (length old)" and "length new = length old" and "old \<noteq> []"
    and "length (pre @ old @ post) \<le> 131072" and "length old \<le> 65534"
  shows "internet_checksum_update_n (internet_checksum (pre @ old @ post)) old new =
    (if wsum (pre @ new @ post) = 0 then 0 else internet_checksum (pre @ new @ post))"
proof -
  let ?bs = "pre @ old @ post" and ?cs = "pre @ new @ post"
  let ?s = "ucast (NOT (internet_checksum ?bs)) :: u32"
  have s: "unat ?s = ones_residue (wsum ?bs)"
    using ones_residue_le [of "wsum ?bs"]
    by (simp add: unat_not_u16 unat_internet_checksum [OF assms(5)])
  obtain t where t: "unat (update_n_sum ?s old new) = t mod 4294967296"
      "t + wsum old = unat ?s + 65535 * (length old div 2) + wsum new"
    using unat_update_n_sum [of old new ?s] assms(2,3) by auto
  have bounds: "wsum old \<le> 65535 * (length old div 2)" "wsum new \<le> 65535 * (length old div 2)"
    using wsum_le_even assms(2,3) by metis+
  have "65535 * (length old div 2) \<le> 65535 * 32767"
    using assms(6) by (intro mult_le_mono2) linarith
  then have "t < 4294967296"
    using t(2) s bounds ones_residue_le [of "wsum ?bs"] by linarith
  then have u: "unat (update_n_sum ?s old new) = t" using t(1) by simp
  have "ones_residue t = (if wsum ?bs - wsum old + wsum new = 0 then 65535
      else ones_residue (wsum ?bs - wsum old + wsum new))"
  proof (rule ones_residue_replace)
    show "t + wsum old = ones_residue (wsum ?bs) + 65535 * (length old div 2) + wsum new"
      using t(2) s by simp
    show "wsum old \<le> wsum ?bs" using assms(1,2) by (simp add: wsum_append)
    show "0 < length old div 2" using assms(2,4) by (cases old) (auto elim: oddE)
  qed (use bounds in simp_all)
  also have "wsum ?bs - wsum old + wsum new = wsum ?cs"
    using assms(1-3) by (simp add: wsum_append)
  finally have r: "ones_residue t = (if wsum ?cs = 0 then 65535 else ones_residue (wsum ?cs))" .
  have "length ?cs \<le> 131072" using assms(3,5) by simp
  note c = unat_internet_checksum [OF this]
  have "unat (internet_checksum_update_n (internet_checksum ?bs) old new) = 65535 - ones_residue t"
    by (simp add: internet_checksum_update_n_def unat_complement_fold u)
  with r c show ?thesis by (auto simp: word_unat_eq_iff)
qed

lemma update_is_update_n:
  "internet_checksum_update c (be16 a b) (be16 a' b') =
     internet_checksum_update_n c [a, b] [a', b']"
  by (simp add: internet_checksum_update_def internet_checksum_update_n_def)

lemma wsum_update_byte:
  "j < length bs \<Longrightarrow>
     wsum (bs[j := x]) + (if even j then 256 else 1) * unat (bs ! j) =
     wsum bs + (if even j then 256 else 1) * unat x"
proof (induction bs arbitrary: j rule: wsum.induct)
  case (1 a b p)
  consider "j = 0" | "j = 1" | k where "j = Suc (Suc k)"
    by (metis One_nat_def not0_implies_Suc)
  then show ?case
  proof cases
    case 3
    then show ?thesis using "1.IH" [of k] "1.prems" by (auto split: if_splits)
  qed auto
qed auto

lemma checksum_zero_iff:
  assumes "length bs \<le> 131072"
  shows "internet_checksum bs = 0 \<longleftrightarrow> 0 < wsum bs \<and> wsum bs mod 65535 = 0"
proof -
  have "internet_checksum bs = 0 \<longleftrightarrow> ones_residue (wsum bs) = 65535"
    using unat_internet_checksum [OF assms] ones_residue_le [of "wsum bs"]
    by (auto simp: unat_eq_0 [symmetric])
  also have "\<dots> \<longleftrightarrow> 0 < wsum bs \<and> wsum bs mod 65535 = 0"
  proof
    assume "ones_residue (wsum bs) = 65535"
    then show "0 < wsum bs \<and> wsum bs mod 65535 = 0"
      using ones_residue_mod [of "wsum bs"] ones_residue_0_iff [of "wsum bs"] by auto
  next
    assume "0 < wsum bs \<and> wsum bs mod 65535 = 0"
    then show "ones_residue (wsum bs) = 65535" by (intro ones_residue_unique) auto
  qed
  finally show ?thesis .
qed

lemma mod_shift_neq:
  assumes "a + c = b + d" and "a mod 65535 = (0 :: nat)" and "b mod 65535 = 0"
    and "c < 65535" and "d < 65535"
  shows "c = d"
proof -
  have "(a + c) mod 65535 = c mod 65535" using assms(2) by (simp add: mod_add_eq [symmetric])
  moreover have "(b + d) mod 65535 = d mod 65535" using assms(3) by (simp add: mod_add_eq [symmetric])
  ultimately show ?thesis using assms(1,4,5) by simp
qed

lemma internet_checksum_update_n_correct_witness:
  "internet_checksum_update_n (internet_checksum [10, 0, 0, 1, 0x12, 0x34]) [10, 0, 0, 1] [192, 168, 0, 1] =
   internet_checksum [192, 168, 0, 1, 0x12, 0x34]"
  using internet_checksum_update_n_correct [of "[]" "[10, 0, 0, 1]" "[192, 168, 0, 1]" "[0x12, 0x34]"]
  by simp

text \<open>
  A sender that zeroes the checksum field, computes the checksum of the buffer and stores
  it there produces a buffer that the receiver's check (the checksum over everything is 0)
  accepts, for every 16-bit aligned field of a buffer of at most 131072 bytes.
\<close>
theorem internet_checksum_stored_verifies:
  assumes "even i" and "i + 1 < length bs" and "length bs \<le> 131072"
  shows "internet_checksum (set16 bs i (internet_checksum (set16 bs i 0))) = 0"
  using assms by (rule rfc1071.stored_verifies)

lemma internet_checksum_stored_verifies_witness:
  "internet_checksum (set16 [0x45, 0, 1, 2, 3] 2 (internet_checksum (set16 [0x45, 0, 1, 2, 3] 2 0))) = 0"
  using internet_checksum_stored_verifies [of 2 "[0x45, 0, 1, 2, 3]"] by simp

lemma single_byte_change:
  assumes "length bs \<le> 131072" and "internet_checksum bs = 0"
    and "j < length bs" and "x \<noteq> bs ! j"
  shows "internet_checksum (bs[j := x]) \<noteq> 0"
proof
  define w where "w = (if even j then 256 else 1 :: nat)"
  assume "internet_checksum (bs[j := x]) = 0"
  then have m1: "wsum (bs[j := x]) mod 65535 = 0" using assms(1) by (simp add: checksum_zero_iff)
  have m2: "wsum bs mod 65535 = 0" using assms(1,2) by (simp add: checksum_zero_iff)
  have "w * unat (bs ! j) < 65535" "w * unat x < 65535"
    using unat_u8_less [of "bs ! j"] unat_u8_less [of x] by (auto simp: w_def)
  with mod_shift_neq [OF wsum_update_byte [OF assms(3), folded w_def] m1 m2]
  have "w * unat (bs ! j) = w * unat x" by blast
  then have "unat (bs ! j) = unat x" by (simp add: w_def split: if_splits)
  then show False using assms(4) by (simp add: word_unat_eq_iff)
qed

text \<open>
  Error detection: in a buffer that verifies, no change of a single byte goes unnoticed.
\<close>
theorem single_byte_change_detected:
  assumes "length bs \<le> 131072" and "internet_checksum bs = 0"
    and "j < length bs" and "x \<noteq> bs ! j"
  shows "internet_checksum (bs[j := x]) \<noteq> 0"
  using assms by (rule single_byte_change)

lemma single_byte_change_detected_witness:
  "internet_checksum [0, 1, 0xff, 0xfe] = 0 \<and> internet_checksum ([0, 1, 0xff, 0xfe] [2 := 0]) \<noteq> 0"
proof
  show "internet_checksum [0, 1, 0xff, 0xfe] = 0"
    by (simp add: internet_checksum_def internet_checksum_fold_def fold_carries.simps)
  then show "internet_checksum ([0, 1, 0xff, 0xfe] [2 := 0]) \<noteq> 0"
    using single_byte_change_detected [of "[0, 1, 0xff, 0xfe]" 2 0] by simp
qed

text \<open>Sample values of the tests of the lesson (RFC 1071, section 3).\<close>

lemma internet_checksum_rfc1071_sample:
  "internet_checksum [0x00, 0x01, 0xf2, 0x03, 0xf4, 0xf5, 0xf6, 0xf7] = 0x220d"
  by (simp add: internet_checksum_def internet_checksum_fold_def fold_carries.simps)

end
