(* ===== verification/Ipv4.thy ===== *)
theory Ipv4
  imports Checksum
begin

text \<open>
  The IPv4 header codec of \<^verbatim>\<open>phases/03-network-layer/01-the-ipv4-header-rfc-791/ipv4.c\<close>.
  A header is a record in host order, a wire image a byte list. An error return of the
  parser is a value of \<open>ipv4_error\<close>; what the C code leaves in \<open>*out\<close> on an error return
  is not modelled. \<open>nfs_ipv4_build\<close> returning 0 is \<open>None\<close>.
\<close>

section \<open>Definitions\<close>

record nfs_ipv4_hdr =
  ip_version :: u8
  ip_ihl :: u8
  ip_dscp :: u8
  ip_ecn :: u8
  ip_total_length :: u16
  ip_identification :: u16
  ip_flags :: u8
  ip_frag_offset :: u16
  ip_ttl :: u8
  ip_protocol :: u8
  ip_checksum :: u16
  ip_src_addr :: u32
  ip_dst_addr :: u32

datatype ipv4_error = IPV4_ERR_SHORT | IPV4_ERR_VERSION | IPV4_ERR_IHL | IPV4_ERR_CHECKSUM

definition nfs_ipv4_parse :: "u8 list \<Rightarrow> ipv4_error + nfs_ipv4_hdr" where
  "nfs_ipv4_parse buf =
     (if length buf < 20 then Inl IPV4_ERR_SHORT
      else
        let version = drop_bit 4 (buf ! 0) AND 0x0F;
            ihl = buf ! 0 AND 0x0F
        in
        if version \<noteq> 4 then Inl IPV4_ERR_VERSION
        else if ihl < 5 then Inl IPV4_ERR_IHL
        else
          let hdr_len = unat ihl * 4 in
          if length buf < hdr_len then Inl IPV4_ERR_SHORT
          else
            let flags_frag = get16 buf 6;
                out = \<lparr> ip_version = version, ip_ihl = ihl,
                        ip_dscp = drop_bit 2 (buf ! 1) AND 0x3F, ip_ecn = buf ! 1 AND 0x03,
                        ip_total_length = get16 buf 2, ip_identification = get16 buf 4,
                        ip_flags = ucast (drop_bit 13 flags_frag AND 0x07),
                        ip_frag_offset = flags_frag AND 0x1FFF,
                        ip_ttl = buf ! 8, ip_protocol = buf ! 9, ip_checksum = get16 buf 10,
                        ip_src_addr = get32 buf 12, ip_dst_addr = get32 buf 16 \<rparr>
            in if internet_checksum (take hdr_len buf) \<noteq> 0 then Inl IPV4_ERR_CHECKSUM
               else Inr out)"

definition nfs_ipv4_build :: "nfs_ipv4_hdr \<Rightarrow> nat \<Rightarrow> u8 list option" where
  "nfs_ipv4_build hdr len =
     (let hdr_len = unat (ip_ihl hdr) * 4 in
      if hdr_len < 20 \<or> len < hdr_len then None
      else
        let flags_frag = push_bit 13 (ucast (ip_flags hdr)) OR (ip_frag_offset hdr AND 0x1FFF);
            buf = [push_bit 4 (ip_version hdr) OR (ip_ihl hdr AND 0x0F),
                   push_bit 2 (ip_dscp hdr) OR (ip_ecn hdr AND 0x03)]
                  @ put16 (ip_total_length hdr) @ put16 (ip_identification hdr)
                  @ put16 flags_frag @ [ip_ttl hdr, ip_protocol hdr] @ [0, 0]
                  @ put32 (ip_src_addr hdr) @ put32 (ip_dst_addr hdr)
                  @ replicate (hdr_len - 20) 0
        in Some (set16 buf 10 (internet_checksum buf)))"

text \<open>The fields fit their widths: what a caller of the builder has to respect.\<close>

definition ipv4_hdr_valid :: "nfs_ipv4_hdr \<Rightarrow> bool" where
  "ipv4_hdr_valid h \<longleftrightarrow> ip_version h = 4 \<and> 5 \<le> ip_ihl h \<and> ip_ihl h \<le> 15 \<and>
     ip_dscp h < 64 \<and> ip_ecn h < 4 \<and> ip_flags h < 8 \<and> ip_frag_offset h < 8192"

section \<open>Round trip\<close>

lemma mask_literals:
  "(0x03 :: u8) = mask 2" "(0x0F :: u8) = mask 4" "(0x3F :: u8) = mask 6"
  "(0x07 :: u16) = mask 3" "(0x1FFF :: u16) = mask 13"
  by (simp_all add: mask_eq_exp_minus_1)

lemma first_byte_fields:
  assumes "v < 16" and "l < 16"
  shows "drop_bit 4 (push_bit 4 v OR (l AND 0x0F)) AND 0x0F = (v :: u8)"
    and "(push_bit 4 v OR (l AND 0x0F)) AND 0x0F = (l :: u8)"
proof -
  have n: "\<And>n. bit v n \<Longrightarrow> n < 4" "\<And>n. bit l n \<Longrightarrow> n < 4"
    using assms bit_less_exp [of v _ 4] bit_less_exp [of l _ 4] by (simp_all add: word_less_nat_alt)
  show "drop_bit 4 (push_bit 4 v OR (l AND 0x0F)) AND 0x0F = v"
    unfolding mask_literals by (rule bit_word_eqI) (auto simp: bit_simps dest: n)
  show "(push_bit 4 v OR (l AND 0x0F)) AND 0x0F = l"
    unfolding mask_literals by (rule bit_word_eqI) (auto simp: bit_simps dest: n)
qed

lemma second_byte_fields:
  assumes "d < 64" and "e < 4"
  shows "drop_bit 2 (push_bit 2 d OR (e AND 0x03)) AND 0x3F = (d :: u8)"
    and "(push_bit 2 d OR (e AND 0x03)) AND 0x03 = (e :: u8)"
proof -
  have n: "\<And>n. bit d n \<Longrightarrow> n < 6" "\<And>n. bit e n \<Longrightarrow> n < 2"
    using assms bit_less_exp [of d _ 6] bit_less_exp [of e _ 2] by (simp_all add: word_less_nat_alt)
  show "drop_bit 2 (push_bit 2 d OR (e AND 0x03)) AND 0x3F = d"
    unfolding mask_literals by (rule bit_word_eqI) (auto simp: bit_simps dest: n)
  show "(push_bit 2 d OR (e AND 0x03)) AND 0x03 = e"
    unfolding mask_literals by (rule bit_word_eqI) (auto simp: bit_simps dest: n)
qed

lemma flags_frag_fields:
  assumes "f < 8" and "g < 8192"
  shows "ucast (drop_bit 13 (push_bit 13 (ucast f) OR (g AND 0x1FFF)) AND (0x07 :: u16)) = (f :: u8)"
    and "(push_bit 13 (ucast f) OR (g AND 0x1FFF)) AND 0x1FFF = (g :: u16)"
proof -
  have n: "\<And>n. bit f n \<Longrightarrow> n < 3" "\<And>n. bit g n \<Longrightarrow> n < 13"
    using assms bit_less_exp [of f _ 3] bit_less_exp [of g _ 13] by (simp_all add: word_less_nat_alt)
  show "ucast (drop_bit 13 (push_bit 13 (ucast f) OR (g AND 0x1FFF)) AND (0x07 :: u16)) = f"
    unfolding mask_literals by (rule bit_word_eqI) (auto simp: bit_simps dest: n)
  show "(push_bit 13 (ucast f) OR (g AND 0x1FFF)) AND 0x1FFF = g"
    unfolding mask_literals by (rule bit_word_eqI) (auto simp: bit_simps dest: n)
qed

text \<open>What the builder writes, before and after the checksum is stored.\<close>

definition ipv4_image :: "nfs_ipv4_hdr \<Rightarrow> u8 list" where
  "ipv4_image h =
     [push_bit 4 (ip_version h) OR (ip_ihl h AND 0x0F), push_bit 2 (ip_dscp h) OR (ip_ecn h AND 0x03)]
     @ put16 (ip_total_length h) @ put16 (ip_identification h)
     @ put16 (push_bit 13 (ucast (ip_flags h)) OR (ip_frag_offset h AND 0x1FFF))
     @ [ip_ttl h, ip_protocol h] @ [0, 0] @ put32 (ip_src_addr h) @ put32 (ip_dst_addr h)
     @ replicate (unat (ip_ihl h) * 4 - 20) 0"

lemma build_image:
  "nfs_ipv4_build h len =
     (if unat (ip_ihl h) * 4 < 20 \<or> len < unat (ip_ihl h) * 4 then None
      else Some (set16 (ipv4_image h) 10 (internet_checksum (ipv4_image h))))"
  by (simp add: nfs_ipv4_build_def ipv4_image_def Let_def)

lemma length_ipv4_image: "5 \<le> unat (ip_ihl h) \<Longrightarrow> length (ipv4_image h) = unat (ip_ihl h) * 4"
  by (simp add: ipv4_image_def)

lemma ipv4_valid_ihl: "ipv4_hdr_valid h \<Longrightarrow> 5 \<le> unat (ip_ihl h) \<and> unat (ip_ihl h) \<le> 15"
  by (simp add: ipv4_hdr_valid_def word_le_nat_alt)

lemma built_verifies:
  assumes "nfs_ipv4_build h len = Some buf" and "unat (ip_ihl h) \<le> 15"
  shows "internet_checksum buf = 0" and "length buf = unat (ip_ihl h) * 4" and "20 \<le> length buf"
proof -
  have b: "buf = set16 (ipv4_image h) 10 (internet_checksum (ipv4_image h))" and ge: "20 \<le> unat (ip_ihl h) * 4"
    using assms(1) by (auto simp: build_image split: if_splits)
  have len: "length (ipv4_image h) = unat (ip_ihl h) * 4"
    using ge by (intro length_ipv4_image) simp
  then show "length buf = unat (ip_ihl h) * 4" "20 \<le> length buf" using b ge by simp_all
  have "get16 (ipv4_image h) 10 = 0"
    by (simp add: ipv4_image_def get16_def put16_def be16_def)
  then show "internet_checksum buf = 0"
    unfolding b using len ge assms(2) by (intro rfc1071.refresh_verifies) simp_all
qed

lemma ipv4_image_fields:
  "get16 (ipv4_image h) 2 = ip_total_length h" "get16 (ipv4_image h) 4 = ip_identification h"
  "get16 (ipv4_image h) 6 = push_bit 13 (ucast (ip_flags h)) OR (ip_frag_offset h AND 0x1FFF)"
  "ipv4_image h ! 8 = ip_ttl h" "ipv4_image h ! 9 = ip_protocol h"
  "get32 (ipv4_image h) 12 = ip_src_addr h" "get32 (ipv4_image h) 16 = ip_dst_addr h"
  "ipv4_image h ! 0 = push_bit 4 (ip_version h) OR (ip_ihl h AND 0x0F)"
  "ipv4_image h ! 1 = push_bit 2 (ip_dscp h) OR (ip_ecn h AND 0x03)"
  by (simp_all add: ipv4_image_def get16_def get32_def put16_def put32_def)

lemma nth_built:
  assumes "buf = set16 img 10 c" and "j < length img" and "j \<noteq> 10" and "j \<noteq> 11"
  shows "(buf @ pay) ! j = img ! j"
  using assms by (simp add: nth_append set16_def)

text \<open>
  Building a header and parsing the packet that starts with it gives the header back, with
  the computed checksum in its checksum field, for every header whose fields fit their
  widths, with or without options, and whatever follows it.
\<close>
theorem ipv4_parse_build:
  assumes "ipv4_hdr_valid h" and "nfs_ipv4_build h len = Some buf"
  shows "nfs_ipv4_parse (buf @ payload) = Inr (h\<lparr>ip_checksum := get16 buf 10\<rparr>)"
proof -
  note ihl = ipv4_valid_ihl [OF assms(1)]
  note built = built_verifies [OF assms(2)]
  have b: "buf = set16 (ipv4_image h) 10 (internet_checksum (ipv4_image h))"
    using assms(2) by (auto simp: build_image split: if_splits)
  have len: "length (ipv4_image h) = unat (ip_ihl h) * 4" using ihl by (simp add: length_ipv4_image)
  have n: "\<And>j. j < 20 \<Longrightarrow> j \<noteq> 10 \<Longrightarrow> j \<noteq> 11 \<Longrightarrow> (buf @ payload) ! j = ipv4_image h ! j"
    using nth_built [OF b] len ihl by simp
  have f: "get16 (buf @ payload) 2 = ip_total_length h" "get16 (buf @ payload) 4 = ip_identification h"
    "get16 (buf @ payload) 6 = push_bit 13 (ucast (ip_flags h)) OR (ip_frag_offset h AND 0x1FFF)"
    "get32 (buf @ payload) 12 = ip_src_addr h" "get32 (buf @ payload) 16 = ip_dst_addr h"
    unfolding ipv4_image_fields [symmetric, of h] by (simp_all add: get16_def get32_def n)
  have c: "get16 (buf @ payload) 10 = get16 buf 10"
    using built ihl by (simp add: get16_def nth_append)
  have b4: "drop_bit 4 (ipv4_image h ! 0) AND 0x0F = ip_version h" "ipv4_image h ! 0 AND 0x0F = ip_ihl h"
    using assms(1) first_byte_fields [of "ip_version h" "ip_ihl h"] ihl
    by (simp_all add: ipv4_image_fields ipv4_hdr_valid_def word_less_nat_alt)
  have b1: "drop_bit 2 (ipv4_image h ! Suc 0) AND 0x3F = ip_dscp h" "ipv4_image h ! Suc 0 AND 0x03 = ip_ecn h"
    using assms(1) second_byte_fields [of "ip_dscp h" "ip_ecn h"] ipv4_image_fields(9) [of h]
    by (simp_all only: ipv4_hdr_valid_def One_nat_def)
  have ff: "ucast (drop_bit 13 (get16 (buf @ payload) 6) AND 0x07) = ip_flags h"
    "get16 (buf @ payload) 6 AND 0x1FFF = ip_frag_offset h"
    using assms(1) flags_frag_fields [of "ip_flags h" "ip_frag_offset h"]
    by (simp_all only: f ipv4_hdr_valid_def)
  show ?thesis
    using assms(1) ihl built
    by (simp add: nfs_ipv4_parse_def Let_def n f(1,2,4,5) ff c b4 b1 ipv4_image_fields(4,5)
        ipv4_hdr_valid_def word_less_nat_alt)
qed

lemma ipv4_parse_build_witness:
  "\<exists>buf. nfs_ipv4_build \<lparr> ip_version = 4, ip_ihl = 5, ip_dscp = 0, ip_ecn = 1, ip_total_length = 23,
      ip_identification = 7, ip_flags = 2, ip_frag_offset = 0, ip_ttl = 64, ip_protocol = 17,
      ip_checksum = 0, ip_src_addr = 0xC0A80001, ip_dst_addr = 0x0A000001 \<rparr> 64 = Some buf \<and>
    nfs_ipv4_parse (buf @ [1, 2, 3]) = Inr (\<lparr> ip_version = 4, ip_ihl = 5, ip_dscp = 0, ip_ecn = 1,
      ip_total_length = 23, ip_identification = 7, ip_flags = 2, ip_frag_offset = 0, ip_ttl = 64,
      ip_protocol = 17, ip_checksum = get16 buf 10, ip_src_addr = 0xC0A80001, ip_dst_addr = 0x0A000001 \<rparr>)"
  (is "\<exists>buf. nfs_ipv4_build ?h 64 = Some buf \<and> _")
proof -
  have v: "ipv4_hdr_valid ?h" by (simp add: ipv4_hdr_valid_def)
  have "nfs_ipv4_build ?h 64 = Some (set16 (ipv4_image ?h) 10 (internet_checksum (ipv4_image ?h)))"
    by (simp add: build_image)
  then show ?thesis using ipv4_parse_build [OF v, of 64 _ "[1, 2, 3]"] by simp
qed

section \<open>What the parser accepts\<close>
lemma ipv4_parse_Inr_iff:
  "(\<exists>h. nfs_ipv4_parse buf = Inr h) \<longleftrightarrow>
     20 \<le> length buf \<and> drop_bit 4 (buf ! 0) AND 0x0F = 4 \<and> 5 \<le> unat (buf ! 0 AND 0x0F) \<and>
     unat (buf ! 0 AND 0x0F) * 4 \<le> length buf \<and>
     internet_checksum (take (unat (buf ! 0 AND 0x0F) * 4) buf) = 0"
  by (auto simp: nfs_ipv4_parse_def Let_def word_less_nat_alt)

lemma unat_ihl_le: "unat ((b :: u8) AND 0x0F) \<le> 15"
  using word_and_le1 [of b "0x0F"] by (simp add: word_le_nat_alt)

text \<open>
  The parser rejects every packet obtained from an accepted one by changing one byte of its
  header other than the first (which holds the length the checksum runs over), and
  says so with the checksum error.
\<close>
theorem ipv4_parse_detects_corruption:
  assumes "nfs_ipv4_parse buf = Inr h" and "0 < j" and "j < unat (ip_ihl h) * 4" and "x \<noteq> buf ! j"
  shows "nfs_ipv4_parse (buf[j := x]) = Inl IPV4_ERR_CHECKSUM"
proof -
  let ?n = "unat (buf ! 0 AND 0x0F) * 4"
  have acc: "20 \<le> length buf" "drop_bit 4 (buf ! 0) AND 0x0F = 4" "5 \<le> unat (buf ! 0 AND 0x0F)"
    "?n \<le> length buf" "internet_checksum (take ?n buf) = 0"
    using assms(1) ipv4_parse_Inr_iff [of buf] by auto
  have "ip_ihl h = buf ! 0 AND 0x0F"
    using assms(1) by (auto simp: nfs_ipv4_parse_def Let_def split: if_splits)
  with assms(3) have j: "j < ?n" by simp
  have "internet_checksum ((take ?n buf)[j := x]) \<noteq> 0"
    using acc unat_ihl_le [of "buf ! 0"] assms(4) j by (intro single_byte_change) auto
  then have "internet_checksum (take ?n (buf[j := x])) \<noteq> 0" by (simp add: take_update_swap)
  with acc assms(2) show ?thesis
    by (simp add: nfs_ipv4_parse_def Let_def word_less_nat_alt)
qed

lemma ipv4_parse_detects_corruption_witness:
  "nfs_ipv4_parse ([0x45, 0, 0, 0x73, 0, 0, 0x40, 0, 0x40, 0x11, 0xb8, 0x61, 0xc0, 0xa8, 0, 1,
     0xc0, 0xa8, 0, 0xc7] [8 := 0x3f]) = Inl IPV4_ERR_CHECKSUM"
  (is "nfs_ipv4_parse (?buf [8 := _]) = _")
proof -
  have "internet_checksum ?buf = 0"
    by (simp add: internet_checksum_def internet_checksum_fold_def fold_carries.simps)
  then obtain h where "nfs_ipv4_parse ?buf = Inr h" and "ip_ihl h = 5"
    by (simp add: nfs_ipv4_parse_def Let_def)
  then show ?thesis using ipv4_parse_detects_corruption [of ?buf h 8 "0x3f"] by simp
qed

end
