(* ===== verification/SeqNum.thy ===== *)
theory SeqNum
  imports Prelude
begin

text \<open>
  TCP sequence numbers (\<^verbatim>\<open>phases/04-transport/12-sequence-number-arithmetic-mod-2/seqnum.c\<close>):
  32-bit words compared through the sign of their difference. The lemmas relate the
  comparisons to the order of positions in the unbounded byte stream of a connection:
  position \<open>d\<close> of a stream with initial number \<open>w\<close> has the sequence number \<open>w + of_nat d\<close>.
\<close>

type_synonym nfs_seq_t = u32

section \<open>Definitions\<close>

definition nfs_seq_lt :: "nfs_seq_t \<Rightarrow> nfs_seq_t \<Rightarrow> bool" where
  "nfs_seq_lt a b \<longleftrightarrow> sint (a - b) < 0"

definition nfs_seq_le :: "nfs_seq_t \<Rightarrow> nfs_seq_t \<Rightarrow> bool" where
  "nfs_seq_le a b \<longleftrightarrow> sint (a - b) \<le> 0"

definition nfs_seq_gt :: "nfs_seq_t \<Rightarrow> nfs_seq_t \<Rightarrow> bool" where
  "nfs_seq_gt a b \<longleftrightarrow> 0 < sint (a - b)"

definition nfs_seq_ge :: "nfs_seq_t \<Rightarrow> nfs_seq_t \<Rightarrow> bool" where
  "nfs_seq_ge a b \<longleftrightarrow> 0 \<le> sint (a - b)"

definition nfs_seq_between :: "nfs_seq_t \<Rightarrow> nfs_seq_t \<Rightarrow> nfs_seq_t \<Rightarrow> bool" where
  "nfs_seq_between s lo hi \<longleftrightarrow> nfs_seq_ge s lo \<and> nfs_seq_le s hi"

definition nfs_seq_add :: "nfs_seq_t \<Rightarrow> u32 \<Rightarrow> nfs_seq_t" where
  "nfs_seq_add s delta = s + delta"

definition nfs_seq_diff :: "nfs_seq_t \<Rightarrow> nfs_seq_t \<Rightarrow> int" where
  "nfs_seq_diff a b = sint (a - b)"

definition nfs_seq_in_window :: "nfs_seq_t \<Rightarrow> nfs_seq_t \<Rightarrow> u32 \<Rightarrow> bool" where
  "nfs_seq_in_window s win_start win_size \<longleftrightarrow>
     (if win_size = 0 then False else s - win_start < win_size)"

section \<open>Stream positions\<close>

lemma sint_of_int_small:
  assumes "- 2147483648 \<le> z" and "z < 2147483648"
  shows "sint (word_of_int z :: u32) = z"
proof -
  have "signed_take_bit 31 z = z"
    using assms by (simp add: signed_take_bit_int_eq_self_iff)
  then show ?thesis by (simp add: signed_of_int)
qed

lemma sint_position_diff:
  fixes w :: u32
  assumes "\<bar>int d - int e\<bar> < 2147483648"
  shows "sint ((w + of_nat d) - (w + of_nat e)) = int d - int e"
proof -
  have "(w + of_nat d) - (w + of_nat e) = word_of_int (int d - int e)"
    by simp
  moreover have "- 2147483648 \<le> int d - int e" "int d - int e < 2147483648" using assms by arith+
  ultimately show ?thesis by (simp only: sint_of_int_small)
qed

lemma sint_pos_unat: "0 < sint (x :: u32) \<Longrightarrow> unat x < 2147483648"
proof (rule ccontr)
  assume pos: "0 < sint x" and "\<not> unat x < 2147483648"
  then have z: "- 2147483648 \<le> int (unat x) - 4294967296" "int (unat x) - 4294967296 < 0"
    using unat_u32_less [of x] by linarith+
  have "x = word_of_int (int (unat x) - 4294967296)" by simp
  then have "sint x = int (unat x) - 4294967296"
    using sint_of_int_small [OF z(1)] z(2) by (metis order_less_trans zero_less_numeral)
  with pos z(2) show False by simp
qed

lemma sint_small: "unat (x :: u32) < 2147483648 \<Longrightarrow> sint x = int (unat x)"
proof -
  assume "unat x < 2147483648"
  then have "sint (word_of_int (int (unat x)) :: u32) = int (unat x)"
    by (intro sint_of_int_small) linarith+
  then show ?thesis by simp
qed

lemma sint_zero_iff: "sint (x :: u32) = 0 \<longleftrightarrow> x = 0"
  by (fact signed_eq_0_iff)

lemma word_position: "b = a + of_nat (unat (b - a))" for a b :: u32
  by simp

lemma seq_compare:
  assumes "\<bar>int d - int e\<bar> < 2147483648"
  shows "nfs_seq_lt (w + of_nat d) (w + of_nat e) \<longleftrightarrow> d < e"
    and "nfs_seq_le (w + of_nat d) (w + of_nat e) \<longleftrightarrow> d \<le> e"
    and "nfs_seq_gt (w + of_nat d) (w + of_nat e) \<longleftrightarrow> e < d"
    and "nfs_seq_ge (w + of_nat d) (w + of_nat e) \<longleftrightarrow> e \<le> d"
    and "nfs_seq_diff (w + of_nat d) (w + of_nat e) = int d - int e"
  unfolding nfs_seq_lt_def nfs_seq_le_def nfs_seq_gt_def nfs_seq_ge_def nfs_seq_diff_def
    sint_position_diff [OF assms] by auto

lemma seq_between_positions:
  assumes "lo \<le> hi" and "hi < lo + 2147483648" and "lo \<le> d + 2147483647" and "d < lo + 2147483648"
    and "hi \<le> d + 2147483647"
  shows "nfs_seq_between (w + of_nat d) (w + of_nat lo) (w + of_nat hi) \<longleftrightarrow> lo \<le> d \<and> d \<le> hi"
  using assms unfolding nfs_seq_between_def by (subst seq_compare) (auto simp: seq_compare)

lemma seq_in_window_iff:
  "nfs_seq_in_window s a n \<longleftrightarrow> (\<exists>k < unat n. s = a + of_nat k)"
proof
  assume "nfs_seq_in_window s a n"
  then show "\<exists>k < unat n. s = a + of_nat k"
    by (intro exI [of _ "unat (s - a)"]) (simp add: nfs_seq_in_window_def word_less_nat_alt split: if_splits)
next
  assume "\<exists>k < unat n. s = a + of_nat k"
  then obtain k where k: "k < unat n" "s = a + of_nat k" by auto
  then have "k < 4294967296" using unat_u32_less [of n] by simp
  with k show "nfs_seq_in_window s a n"
    by (auto simp: nfs_seq_in_window_def word_less_nat_alt unat_of_nat_u32)
qed

text \<open>
  Serial-number order is stream order: for positions of one stream less than 2^31 apart, each
  of the four comparisons of the sequence numbers, and their signed difference, is that of
  the positions, wherever the 32-bit number wraps.
\<close>
theorem seq_order_is_stream_order:
  assumes "\<bar>int d - int e\<bar> < 2147483648"
  shows "(nfs_seq_lt (nfs_seq_add w (of_nat d)) (nfs_seq_add w (of_nat e)) \<longleftrightarrow> d < e) \<and>
    (nfs_seq_le (nfs_seq_add w (of_nat d)) (nfs_seq_add w (of_nat e)) \<longleftrightarrow> d \<le> e) \<and>
    (nfs_seq_gt (nfs_seq_add w (of_nat d)) (nfs_seq_add w (of_nat e)) \<longleftrightarrow> e < d) \<and>
    (nfs_seq_ge (nfs_seq_add w (of_nat d)) (nfs_seq_add w (of_nat e)) \<longleftrightarrow> e \<le> d) \<and>
    nfs_seq_diff (nfs_seq_add w (of_nat d)) (nfs_seq_add w (of_nat e)) = int d - int e"
  unfolding nfs_seq_add_def using seq_compare [OF assms] by blast

lemma seq_order_is_stream_order_witness:
  "nfs_seq_lt (nfs_seq_add 0xFFFFFFF0 (of_nat 0)) (nfs_seq_add 0xFFFFFFF0 (of_nat 32)) \<and>
   nfs_seq_add 0xFFFFFFF0 (of_nat 32) = 0x10"
  using seq_order_is_stream_order [of 0 32 "0xFFFFFFF0"] by (simp add: nfs_seq_add_def)

text \<open>
  The receive-window test accepts exactly the sequence numbers of the \<open>win_size\<close> stream
  positions that start at \<open>win_start\<close>, for windows of any size and across the wrap, and a
  position of the stream is in the window exactly when its distance is.
\<close>
theorem seq_in_window_correct:
  "(nfs_seq_in_window s win_start win_size \<longleftrightarrow>
     s \<in> (\<lambda>k. nfs_seq_add win_start (of_nat k)) ` {..<unat win_size}) \<and>
   nfs_seq_in_window (nfs_seq_add win_start delta) win_start win_size = (delta < win_size)"
  by (simp add: seq_in_window_iff [of s] nfs_seq_add_def image_iff Bex_def)
    (simp add: nfs_seq_in_window_def)

text \<open>
  At the antipode the comparison is not an order: each of two numbers 2^31 apart is before
  the other, which is why the hypothesis above is needed.
\<close>

lemma seq_antipode:
  "nfs_seq_lt a (a + 0x80000000) \<and> nfs_seq_lt (a + 0x80000000) a"
  by (simp add: nfs_seq_lt_def)

lemma seq_le_refl [simp]: "nfs_seq_le a a" "nfs_seq_ge a a"
  by (simp_all add: nfs_seq_le_def nfs_seq_ge_def)

lemma seq_gt_iff_not_le: "nfs_seq_gt a b \<longleftrightarrow> \<not> nfs_seq_le a b"
  by (auto simp: nfs_seq_gt_def nfs_seq_le_def)

lemma seq_lt_iff_not_ge: "nfs_seq_lt a b \<longleftrightarrow> \<not> nfs_seq_ge a b"
  by (auto simp: nfs_seq_lt_def nfs_seq_ge_def)

end
