(* ===== verification/Tcb.thy ===== *)
theory Tcb
  imports Interfaces SeqNum
begin

text \<open>
  The transmission control block (\<^verbatim>\<open>phases/04-transport/11-tcb-transmission-control-block/tcb.c\<close>):
  the sequence variables of a connection and the operations that advance them.
\<close>

section \<open>Definitions\<close>

datatype nfs_tcb_state =
    NFS_TCB_CLOSED | NFS_TCB_LISTEN | NFS_TCB_SYN_SENT | NFS_TCB_SYN_RECEIVED | NFS_TCB_ESTABLISHED
  | NFS_TCB_FIN_WAIT_1 | NFS_TCB_FIN_WAIT_2 | NFS_TCB_CLOSE_WAIT | NFS_TCB_CLOSING
  | NFS_TCB_LAST_ACK | NFS_TCB_TIME_WAIT

record nfs_tcb =
  tcb_state :: nfs_tcb_state
  snd_una :: u32
  snd_nxt :: u32
  snd_wnd :: u32
  rcv_nxt :: u32
  rcv_wnd :: u32
  tcb_iss :: u32
  tcb_irs :: u32
  local_port :: u16
  remote_port :: u16
  local_addr :: u32
  remote_addr :: u32

definition nfs_tcb_init :: "u16 \<Rightarrow> u16 \<Rightarrow> u32 \<Rightarrow> u32 \<Rightarrow> nfs_tcb" where
  "nfs_tcb_init lport rport laddr raddr =
     \<lparr> tcb_state = NFS_TCB_CLOSED, snd_una = 0, snd_nxt = 0, snd_wnd = 65535, rcv_nxt = 0,
       rcv_wnd = 65535, tcb_iss = 0, tcb_irs = 0, local_port = lport, remote_port = rport,
       local_addr = laddr, remote_addr = raddr \<rparr>"

definition nfs_tcb_set_iss :: "nfs_tcb \<Rightarrow> u32 \<Rightarrow> nfs_tcb" where
  "nfs_tcb_set_iss t iss = t\<lparr> tcb_iss := iss, snd_una := iss, snd_nxt := iss + 1 \<rparr>"

definition nfs_tcb_set_irs :: "nfs_tcb \<Rightarrow> u32 \<Rightarrow> nfs_tcb" where
  "nfs_tcb_set_irs t irs = t\<lparr> tcb_irs := irs, rcv_nxt := irs + 1 \<rparr>"

definition nfs_tcb_snd_available :: "nfs_tcb \<Rightarrow> int" where
  "nfs_tcb_snd_available t =
     (let in_flight = snd_nxt t - snd_una t in
      if in_flight \<ge> snd_wnd t then 0 else sint (snd_wnd t - in_flight))"

definition nfs_tcb_advance_snd :: "nfs_tcb \<Rightarrow> u32 \<Rightarrow> nfs_tcb" where
  "nfs_tcb_advance_snd t nbytes = t\<lparr> snd_nxt := snd_nxt t + nbytes \<rparr>"

definition nfs_tcb_ack_received :: "nfs_tcb \<Rightarrow> u32 \<Rightarrow> nfs_tcb" where
  "nfs_tcb_ack_received t ack_num =
     (if 0 < sint (ack_num - snd_una t) then t\<lparr> snd_una := ack_num \<rparr> else t)"

definition nfs_tcb_data_received :: "nfs_tcb \<Rightarrow> u32 \<Rightarrow> nfs_tcb" where
  "nfs_tcb_data_received t nbytes = t\<lparr> rcv_nxt := rcv_nxt t + nbytes \<rparr>"

definition nfs_tcb_matches :: "nfs_tcb \<Rightarrow> u32 \<Rightarrow> u16 \<Rightarrow> u32 \<Rightarrow> u16 \<Rightarrow> bool" where
  "nfs_tcb_matches t src_addr src_port dst_addr dst_port \<longleftrightarrow>
     remote_addr t = src_addr \<and> remote_port t = src_port \<and>
     local_addr t = dst_addr \<and> local_port t = dst_port"

section \<open>The send side never overruns the window\<close>

datatype tcb_event = TcbSend u32 | TcbAck u32 | TcbData u32

fun tcb_step :: "nfs_tcb \<Rightarrow> tcb_event \<Rightarrow> nfs_tcb" where
  "tcb_step t (TcbSend n) = nfs_tcb_advance_snd t n"
| "tcb_step t (TcbAck a) = nfs_tcb_ack_received t a"
| "tcb_step t (TcbData n) = nfs_tcb_data_received t n"

text \<open>
  What the caller has to respect: it sends no more than is available, and it hands on only
  acknowledgments of data that has been sent (\<^verbatim>\<open>SEG.ACK =< SND.NXT\<close>), which
  \<open>nfs_tcb_ack_received\<close> does not check. Old acknowledgments may arrive at any time.
\<close>

fun tcb_ok :: "nfs_tcb \<Rightarrow> tcb_event \<Rightarrow> bool" where
  "tcb_ok t (TcbSend n) = (int (unat n) \<le> nfs_tcb_snd_available t)"
| "tcb_ok t (TcbAck a) = nfs_seq_le a (snd_nxt t)"
| "tcb_ok t (TcbData n) = True"

definition tcb_in_flight :: "nfs_tcb \<Rightarrow> nat" where
  "tcb_in_flight t = unat (snd_nxt t - snd_una t)"

definition tcb_inv :: "nfs_tcb \<Rightarrow> bool" where
  "tcb_inv t \<longleftrightarrow> tcb_in_flight t \<le> unat (snd_wnd t) \<and> unat (snd_wnd t) < 1073741824"

lemma snd_available_eq:
  assumes "unat (snd_wnd t) < 2147483648"
  shows "nfs_tcb_snd_available t =
    (if unat (snd_wnd t) \<le> tcb_in_flight t then 0 else int (unat (snd_wnd t)) - int (tcb_in_flight t))"
proof (cases "snd_wnd t \<le> snd_nxt t - snd_una t")
  case True
  then show ?thesis
    by (simp add: nfs_tcb_snd_available_def tcb_in_flight_def word_le_nat_alt Let_def)
next
  case False
  let ?f = "snd_nxt t - snd_una t"
  have "snd_wnd t - ?f = word_of_int (int (unat (snd_wnd t)) - int (unat ?f))" by simp
  then have "sint (snd_wnd t - ?f) = int (unat (snd_wnd t)) - int (unat ?f)"
    using assms False by (simp only: word_le_nat_alt) (rule sint_of_int_small, linarith+)
  then show ?thesis
    using False by (simp add: nfs_tcb_snd_available_def tcb_in_flight_def word_le_nat_alt Let_def)
qed

text \<open>A new acknowledgment that is not beyond \<open>snd_nxt\<close> lies at a position of the data in flight.\<close>

lemma acceptable_ack:
  assumes "tcb_in_flight t < 1073741824" and "0 < sint (a - snd_una t)" and "nfs_seq_le a (snd_nxt t)"
  shows "unat (a - snd_una t) \<le> tcb_in_flight t"
    and "tcb_in_flight (t\<lparr> snd_una := a \<rparr>) = tcb_in_flight t - unat (a - snd_una t)"
proof -
  let ?k = "unat (a - snd_una t)" and ?f = "tcb_in_flight t"
  have p: "a = snd_una t + of_nat ?k" "snd_nxt t = snd_una t + of_nat ?f"
    unfolding tcb_in_flight_def by (rule word_position)+
  have k: "?k < 2147483648" using assms(2) by (rule sint_pos_unat)
  have "nfs_seq_le (snd_una t + of_nat ?k) (snd_una t + of_nat ?f)"
    using assms(3) p by metis
  then show le: "?k \<le> ?f"
    using k assms(1) by (subst (asm) seq_compare) linarith+
  have "snd_nxt t - a = of_nat (?f - ?k)"
    using le by (subst p(1), subst p(2)) (simp add: of_nat_diff)
  then show "tcb_in_flight (t\<lparr> snd_una := a \<rparr>) = ?f - ?k"
    using assms(1) by (simp add: tcb_in_flight_def unat_of_nat_u32)
qed

lemma tcb_inv_wnd: "tcb_inv t \<Longrightarrow> unat (snd_wnd t) < 2147483648"
  by (simp add: tcb_inv_def)

lemma ack_received_in_flight:
  assumes "tcb_inv t" and "nfs_seq_le a (snd_nxt t)"
  shows "tcb_in_flight (nfs_tcb_ack_received t a) \<le> tcb_in_flight t"
  using assms acceptable_ack [of t a]
  by (auto simp: nfs_tcb_ack_received_def tcb_inv_def)

lemma advance_snd_in_flight:
  assumes "tcb_inv t" and "int (unat n) \<le> nfs_tcb_snd_available t"
  shows "tcb_in_flight (nfs_tcb_advance_snd t n) = tcb_in_flight t + unat n"
    and "tcb_in_flight t + unat n \<le> unat (snd_wnd t)"
proof -
  show le: "tcb_in_flight t + unat n \<le> unat (snd_wnd t)"
    using assms(1) assms(2) [unfolded snd_available_eq [OF tcb_inv_wnd [OF assms(1)]]]
    unfolding tcb_inv_def by (simp only: split: if_splits; linarith)
  have "snd_nxt t + n - snd_una t = of_nat (tcb_in_flight t + unat n)"
    by (simp add: tcb_in_flight_def)
  moreover have "tcb_in_flight t + unat n < 4294967296"
    using le assms(1) by (simp add: tcb_inv_def)
  ultimately show "tcb_in_flight (nfs_tcb_advance_snd t n) = tcb_in_flight t + unat n"
    unfolding tcb_in_flight_def [of "nfs_tcb_advance_snd t n"]
    by (simp add: nfs_tcb_advance_snd_def unat_of_nat_u32 del: of_nat_add)
qed

lemma tcb_step_inv: "tcb_inv t \<Longrightarrow> tcb_ok t e \<Longrightarrow> tcb_inv (tcb_step t e)"
proof (induction t e rule: tcb_step.induct)
  case (1 t n)
  then show ?case using advance_snd_in_flight [of t n]
    by (simp add: tcb_inv_def nfs_tcb_advance_snd_def)
next
  case (2 t a)
  then have "snd_wnd (nfs_tcb_ack_received t a) = snd_wnd t"
    by (simp add: nfs_tcb_ack_received_def)
  with 2 ack_received_in_flight [of t a] show ?case by (simp add: tcb_inv_def)
next
  case (3 t n)
  then show ?case by (simp add: tcb_inv_def tcb_in_flight_def nfs_tcb_data_received_def)
qed

interpretation tcb: machine tcb_step tcb_ok tcb_inv
  by unfold_locales (rule tcb_step_inv)

definition tcb_open :: "u16 \<Rightarrow> u16 \<Rightarrow> u32 \<Rightarrow> u32 \<Rightarrow> u32 \<Rightarrow> u32 \<Rightarrow> nfs_tcb" where
  "tcb_open lport rport laddr raddr iss irs =
     nfs_tcb_set_irs (nfs_tcb_set_iss (nfs_tcb_init lport rport laddr raddr) iss) irs"

lemma tcb_open_inv: "tcb_inv (tcb_open lport rport laddr raddr iss irs)"
  by (simp add: tcb_inv_def tcb_in_flight_def tcb_open_def nfs_tcb_set_irs_def nfs_tcb_set_iss_def
      nfs_tcb_init_def)

lemma tcb_run_wnd: "snd_wnd (foldl tcb_step t es) = snd_wnd t"
proof (induction es arbitrary: t)
  case (Cons e es)
  then show ?case
    by (cases e) (simp_all add: nfs_tcb_advance_snd_def nfs_tcb_ack_received_def nfs_tcb_data_received_def)
qed simp

fun tcb_sent :: "tcb_event list \<Rightarrow> u32" where
  "tcb_sent [] = 0"
| "tcb_sent (TcbSend n # es) = n + tcb_sent es"
| "tcb_sent (e # es) = tcb_sent es"

fun tcb_received :: "tcb_event list \<Rightarrow> u32" where
  "tcb_received [] = 0"
| "tcb_received (TcbData n # es) = n + tcb_received es"
| "tcb_received (e # es) = tcb_received es"

lemma tcb_run_nxt:
  "snd_nxt (foldl tcb_step t es) = snd_nxt t + tcb_sent es"
  "rcv_nxt (foldl tcb_step t es) = rcv_nxt t + tcb_received es"
proof (induction es arbitrary: t)
  case (Cons e es)
  {
    case 1
    show ?case using Cons(1)
      by (cases e) (simp_all add: nfs_tcb_advance_snd_def nfs_tcb_ack_received_def nfs_tcb_data_received_def)
  next
    case 2
    show ?case using Cons(2)
      by (cases e) (simp_all add: nfs_tcb_advance_snd_def nfs_tcb_ack_received_def nfs_tcb_data_received_def)
  }
qed simp_all

text \<open>
  C14. A caller that asks \<^verbatim>\<open>nfs_tcb_snd_available\<close> before it sends, and whose peer acknowledges nothing
  that was not sent, never overruns the window: from an opened connection, whatever the initial
  numbers and however such sends, acknowledgments (old, duplicate or new) and received data interleave,
  the bytes in flight never exceed the default send window of 65535, and the two next-sequence
  variables count every byte sent and received, from the initial numbers plus the one the SYN
  takes. (The operations check neither condition themselves: \<open>tcb_ack_beyond_nxt\<close>.)
\<close>
theorem tcb_never_overruns_window:
  assumes "guarded tcb_step tcb_ok (tcb_open lport rport laddr raddr iss irs) es"
  shows "let t = foldl tcb_step (tcb_open lport rport laddr raddr iss irs) es in
    tcb_in_flight t \<le> 65535 \<and> snd_nxt t = iss + 1 + tcb_sent es \<and> rcv_nxt t = irs + 1 + tcb_received es"
proof -
  let ?t0 = "tcb_open lport rport laddr raddr iss irs"
  have "tcb_inv (foldl tcb_step ?t0 es)"
    using tcb_open_inv assms by (rule tcb.run_inv)
  moreover have "snd_wnd ?t0 = 65535" "snd_nxt ?t0 = iss + 1" "rcv_nxt ?t0 = irs + 1"
    by (simp_all add: tcb_open_def nfs_tcb_set_irs_def nfs_tcb_set_iss_def nfs_tcb_init_def)
  ultimately show ?thesis
    by (simp add: Let_def tcb_inv_def tcb_run_wnd tcb_run_nxt)
qed

lemma tcb_never_overruns_window_witness:
  "let t = foldl tcb_step (tcb_open 80 5000 1 2 0xFFFFFF00 7)
      [TcbSend 1000, TcbAck 0xFFFFFF01, TcbData 10, TcbAck 0x100, TcbAck 0xFFFFFF80] in
    tcb_in_flight t \<le> 65535 \<and> snd_nxt t = 0xFFFFFF00 + 1 + 1000 \<and> rcv_nxt t = 18"
proof -
  have "guarded tcb_step tcb_ok (tcb_open 80 5000 1 2 0xFFFFFF00 7)
      [TcbSend 1000, TcbAck 0xFFFFFF01, TcbData 10, TcbAck 0x100, TcbAck 0xFFFFFF80]"
    by (simp add: tcb_open_def nfs_tcb_set_irs_def nfs_tcb_set_iss_def nfs_tcb_init_def
        nfs_tcb_advance_snd_def nfs_tcb_ack_received_def nfs_tcb_data_received_def
        nfs_tcb_snd_available_def nfs_seq_le_def word_le_nat_alt)
  from tcb_never_overruns_window [OF this] show ?thesis by (simp add: Let_def)
qed

text \<open>
  Acknowledgments only move forward: \<open>nfs_tcb_ack_received\<close> sets \<open>snd_una\<close> exactly when the
  number is ahead of it in sequence space, an old or duplicate one changes nothing, and
  an acceptable one takes exactly the newly acknowledged bytes out of flight.
\<close>
theorem tcb_ack_received_correct:
  assumes "tcb_in_flight t < 1073741824" and "nfs_seq_le a (snd_nxt t)"
  shows "nfs_tcb_ack_received t a = (if nfs_seq_gt a (snd_una t) then t\<lparr> snd_una := a \<rparr> else t) \<and>
    tcb_in_flight (nfs_tcb_ack_received t a) =
      tcb_in_flight t - (if nfs_seq_gt a (snd_una t) then unat (a - snd_una t) else 0) \<and>
    nfs_seq_ge (snd_una (nfs_tcb_ack_received t a)) (snd_una t)"
  using acceptable_ack [OF assms(1) _ assms(2)]
  by (auto simp: nfs_tcb_ack_received_def nfs_seq_gt_def nfs_seq_ge_def)

lemma tcb_ack_received_correct_witness:
  "tcb_in_flight (nfs_tcb_ack_received ((nfs_tcb_init 1 2 3 4)\<lparr> snd_una := 0xFFFFFFFE, snd_nxt := 5 \<rparr>) 3) = 2"
  using tcb_ack_received_correct [of "(nfs_tcb_init 1 2 3 4)\<lparr> snd_una := 0xFFFFFFFE, snd_nxt := 5 \<rparr>" 3]
  by (simp add: tcb_in_flight_def nfs_tcb_init_def nfs_seq_le_def nfs_seq_gt_def)

text \<open>
  An acknowledgment beyond \<open>snd_nxt\<close>, which RFC 9293 has the receiver of the segment discard,
  is taken over by \<open>nfs_tcb_ack_received\<close>: the count of bytes in flight wraps.
\<close>

lemma tcb_ack_beyond_nxt:
  "tcb_in_flight (nfs_tcb_ack_received (tcb_open 1 2 3 4 100 0) 200) = 4294967197"
  by (simp add: tcb_open_def nfs_tcb_set_irs_def nfs_tcb_set_iss_def nfs_tcb_init_def
      nfs_tcb_ack_received_def tcb_in_flight_def)

text \<open>A packet of the reverse direction, and only that, belongs to the connection.\<close>

lemma tcb_matches_init:
  "nfs_tcb_matches (nfs_tcb_init lport rport laddr raddr) src sport dst dport \<longleftrightarrow>
     (src, sport, dst, dport) = (raddr, rport, laddr, lport)"
  by (auto simp: nfs_tcb_matches_def nfs_tcb_init_def)

end
