(* ===== verification/SlidingWindow.thy ===== *)
theory SlidingWindow
  imports Interfaces
begin

text \<open>
  The send window (\<^verbatim>\<open>phases/04-transport/13-sliding-window-basics/sliding_window.c\<close>): a circular
  buffer of the bytes in flight, indexed by sequence number modulo its capacity. It refines
  a bounded queue of bytes: sending appends, a cumulative acknowledgment drops a prefix.
\<close>

section \<open>Definitions\<close>

record nfs_send_window =
  sw_base :: u32
  sw_next_seq :: u32
  sw_window_size :: u32
  sw_buffer :: "u8 list"
  sw_buf_cap :: nat
  sw_acked :: "int list"

definition nfs_send_window_init :: "u32 \<Rightarrow> u32 \<Rightarrow> nat \<Rightarrow> nfs_send_window" where
  "nfs_send_window_init isn win_size buf_cap =
     \<lparr> sw_base = isn, sw_next_seq = isn, sw_window_size = win_size,
       sw_buffer = replicate buf_cap 0, sw_buf_cap = buf_cap, sw_acked = replicate buf_cap 0 \<rparr>"

definition nfs_send_window_in_flight :: "nfs_send_window \<Rightarrow> u32" where
  "nfs_send_window_in_flight w = sw_next_seq w - sw_base w"

definition nfs_send_window_available :: "nfs_send_window \<Rightarrow> u32" where
  "nfs_send_window_available w = sw_window_size w - nfs_send_window_in_flight w"

definition nfs_send_window_can_send :: "nfs_send_window \<Rightarrow> bool" where
  "nfs_send_window_can_send w \<longleftrightarrow> nfs_send_window_in_flight w < sw_window_size w"

definition nfs_send_window_send :: "nfs_send_window \<Rightarrow> u8 \<Rightarrow> nfs_send_window option" where
  "nfs_send_window_send w byte =
     (if \<not> nfs_send_window_can_send w then None
      else
        let idx = unat (sw_next_seq w) mod sw_buf_cap w in
        Some (w\<lparr> sw_buffer := (sw_buffer w)[idx := byte],
                sw_acked := (sw_acked w)[idx := 0],
                sw_next_seq := sw_next_seq w + 1 \<rparr>))"

function ack_marks :: "nat \<Rightarrow> u32 \<Rightarrow> int list \<Rightarrow> u32 \<Rightarrow> int list" where
  "ack_marks cap ack_num acked s =
     (if s < ack_num then ack_marks cap ack_num (acked[unat s mod cap := 1]) (s + 1) else acked)"
  by pat_completeness auto
termination
proof (relation "measure (\<lambda>(cap, ack_num, acked, s). unat ack_num - unat s)")
  fix cap and ack_num s :: u32 and acked :: "int list"
  assume "s < ack_num"
  then have lt: "unat s < unat ack_num" by (simp add: word_less_nat_alt)
  then have "unat (s + 1) = unat s + 1"
    using unat_u32_less [of ack_num] by (simp add: unat_word_ariths)
  with lt show "((cap, ack_num, acked[unat s mod cap := 1], s + 1), cap, ack_num, acked, s)
      \<in> measure (\<lambda>(cap, ack_num, acked, s). unat ack_num - unat s)"
    by simp
qed simp

declare ack_marks.simps [simp del]

definition nfs_send_window_ack :: "nfs_send_window \<Rightarrow> u32 \<Rightarrow> (int \<times> nfs_send_window) option" where
  "nfs_send_window_ack w ack_num =
     (if ack_num < sw_base w \<or> ack_num > sw_next_seq w then None
      else
        let newly_acked = ack_num - sw_base w;
            acked = ack_marks (sw_buf_cap w) ack_num (sw_acked w) (sw_base w)
        in Some (sint newly_acked, w\<lparr> sw_acked := acked, sw_base := ack_num \<rparr>))"

text \<open>The pointer into the buffer and the length stored through \<open>len\<close>.\<close>

definition nfs_send_window_get_data :: "nfs_send_window \<Rightarrow> u32 \<Rightarrow> (nat \<times> nat) option" where
  "nfs_send_window_get_data w s =
     (if s < sw_base w \<or> s \<ge> sw_next_seq w then None
      else
        let idx = unat s mod sw_buf_cap w;
            to_end_of_buf = sw_buf_cap w - idx;
            to_end_of_flight = unat (sw_next_seq w - s)
        in Some (idx, if to_end_of_buf < to_end_of_flight then to_end_of_buf else to_end_of_flight))"

section \<open>The queue it implements\<close>

definition sw_len :: "nfs_send_window \<Rightarrow> nat" where
  "sw_len w = unat (sw_next_seq w) - unat (sw_base w)"

definition sw_data :: "nfs_send_window \<Rightarrow> u8 list" where
  "sw_data w = map (\<lambda>i. sw_buffer w ! ((unat (sw_base w) + i) mod sw_buf_cap w)) [0..<sw_len w]"

text \<open>
  The numbers have not wrapped, which the plain comparisons of the code need; the window
  fits the buffer; no byte in flight is marked as acknowledged.
\<close>

definition sw_inv :: "nfs_send_window \<Rightarrow> bool" where
  "sw_inv w \<longleftrightarrow> unat (sw_base w) \<le> unat (sw_next_seq w) \<and> sw_len w \<le> unat (sw_window_size w) \<and>
     unat (sw_window_size w) \<le> sw_buf_cap w \<and> 0 < sw_buf_cap w \<and>
     length (sw_buffer w) = sw_buf_cap w \<and> length (sw_acked w) = sw_buf_cap w \<and>
     (\<forall>i < sw_len w. sw_acked w ! ((unat (sw_base w) + i) mod sw_buf_cap w) = 0)"

lemma length_sw_data [simp]: "length (sw_data w) = sw_len w"
  by (simp add: sw_data_def)

lemma sw_data_nth: "i < sw_len w \<Longrightarrow> sw_data w ! i = sw_buffer w ! ((unat (sw_base w) + i) mod sw_buf_cap w)"
  by (simp add: sw_data_def)

lemma unat_in_flight: "sw_inv w \<Longrightarrow> unat (nfs_send_window_in_flight w) = sw_len w"
  by (simp add: sw_inv_def sw_len_def nfs_send_window_in_flight_def unat_sub word_le_nat_alt)

lemma can_send_iff: "sw_inv w \<Longrightarrow> nfs_send_window_can_send w \<longleftrightarrow> sw_len w < unat (sw_window_size w)"
  by (simp add: nfs_send_window_can_send_def word_less_nat_alt unat_in_flight)

text \<open>Positions less than the capacity apart have different slots.\<close>

lemma slot_neq: "i < j \<Longrightarrow> j < i + c \<Longrightarrow> i mod c \<noteq> j mod (c :: nat)"
proof
  assume "i < j" "j < i + c" "i mod c = j mod c"
  then have "c dvd j - i" by (metis mod_eq_dvd_iff_nat less_imp_le)
  then have "c \<le> j - i" using \<open>i < j\<close> by (intro dvd_imp_le) simp_all
  with \<open>j < i + c\<close> \<open>i < j\<close> show False by simp
qed

lemma send_data:
  assumes "sw_inv w" and "nfs_send_window_send w x = Some w'" and "unat (sw_next_seq w) < 4294967295"
  shows "sw_data w' = sw_data w @ [x]" and "sw_len w' = Suc (sw_len w)" and "sw_inv w'"
proof -
  let ?c = "sw_buf_cap w" and ?n = "unat (sw_next_seq w)" and ?b = "unat (sw_base w)"
  have w': "w' = w\<lparr> sw_buffer := (sw_buffer w)[?n mod ?c := x], sw_acked := (sw_acked w)[?n mod ?c := 0],
      sw_next_seq := sw_next_seq w + 1 \<rparr>" and room: "sw_len w < unat (sw_window_size w)"
    using assms(2) can_send_iff [OF assms(1)]
    by (auto simp: nfs_send_window_send_def Let_def split: if_splits)
  have inc: "unat (sw_next_seq w + 1) = ?n + 1"
    using assms(3) by (simp add: unat_word_ariths)
  have inv: "?b \<le> ?n" "unat (sw_window_size w) \<le> ?c" "0 < ?c" "length (sw_buffer w) = ?c"
    "length (sw_acked w) = ?c" "\<forall>i < sw_len w. sw_acked w ! ((?b + i) mod ?c) = 0"
    using assms(1) by (simp_all add: sw_inv_def)
  show len: "sw_len w' = Suc (sw_len w)"
    using inv(1) by (simp add: sw_len_def w' inc)
  have n: "?b + sw_len w = ?n" using inv(1) by (simp add: sw_len_def)
  have other: "(?b + i) mod ?c \<noteq> ?n mod ?c" if "i < sw_len w" for i
    using that room inv(2) n by (intro slot_neq) simp_all
  show "sw_data w' = sw_data w @ [x]"
  proof (rule nth_equalityI)
    fix i
    assume "i < length (sw_data w')"
    then consider "i < sw_len w" | "i = sw_len w" using len by fastforce
    then show "sw_data w' ! i = (sw_data w @ [x]) ! i"
    proof cases
      case 1
      then show ?thesis
        using other [OF 1] len by (simp add: sw_data_nth nth_append) (simp add: w')
    next
      case 2
      then show ?thesis
        using len n inv(3,4) by (simp add: sw_data_nth nth_append) (simp add: w')
    qed
  qed (simp add: len)
  have "sw_acked w' ! ((unat (sw_base w') + i) mod ?c) = 0" if "i < sw_len w'" for i
  proof (cases "i < sw_len w")
    case True
    then show ?thesis using other [OF True] inv(6) by (simp add: w')
  next
    case False
    with that len have "i = sw_len w" by simp
    then show ?thesis using n inv(3,5) by (simp add: w')
  qed
  then show "sw_inv w'"
    using inv room len by (simp add: sw_inv_def) (simp add: w' inc)
qed

lemma ack_marks_length [simp]: "length (ack_marks cap a acked s) = length acked"
  by (induction cap a acked s rule: ack_marks.induct) (subst ack_marks.simps, simp)

lemma ack_marks_other:
  "(\<And>k. unat s \<le> k \<Longrightarrow> k < unat a \<Longrightarrow> k mod cap \<noteq> j) \<Longrightarrow> ack_marks cap a acked s ! j = acked ! j"
proof (induction cap a acked s rule: ack_marks.induct)
  case (1 cap a acked s)
  show ?case
  proof (cases "s < a")
    case True
    then have "unat (s + 1) = unat s + 1"
      using unat_u32_less [of a] by (simp add: unat_word_ariths word_less_nat_alt)
    then have "ack_marks cap a (acked[unat s mod cap := 1]) (s + 1) ! j = acked[unat s mod cap := 1] ! j"
      using 1 True by simp
    moreover have "unat s mod cap \<noteq> j" using 1(2) [of "unat s"] True by (simp add: word_less_nat_alt)
    ultimately show ?thesis using True by (subst ack_marks.simps) simp
  qed (simp add: ack_marks.simps)
qed

lemma ack_data:
  assumes "sw_inv w" and "nfs_send_window_ack w a = Some (n, w')"
  shows "unat (sw_base w) \<le> unat a" and "unat a \<le> unat (sw_next_seq w)"
    and "sw_data w' = drop (unat a - unat (sw_base w)) (sw_data w)"
    and "sw_len w' = sw_len w - (unat a - unat (sw_base w))" and "sw_inv w'"
proof -
  let ?c = "sw_buf_cap w" and ?b = "unat (sw_base w)" and ?a = "unat a"
  have w': "w' = w\<lparr> sw_acked := ack_marks ?c a (sw_acked w) (sw_base w), sw_base := a \<rparr>"
    and le: "?b \<le> ?a" "?a \<le> unat (sw_next_seq w)"
    using assms(2) by (auto simp: nfs_send_window_ack_def Let_def not_less word_le_nat_alt split: if_splits)
  then show "?b \<le> ?a" "?a \<le> unat (sw_next_seq w)" by simp_all
  show len: "sw_len w' = sw_len w - (?a - ?b)"
    using le by (simp add: w' sw_len_def)
  show "sw_data w' = drop (?a - ?b) (sw_data w)"
  proof (rule nth_equalityI)
    fix i
    assume "i < length (sw_data w')"
    then have "i < sw_len w'" "?a - ?b + i < sw_len w" using len by simp_all
    then show "sw_data w' ! i = drop (?a - ?b) (sw_data w) ! i"
      using le by (simp add: sw_data_nth) (simp add: w')
  qed (simp add: len)
  have "sw_acked w' ! ((?a + i) mod ?c) = 0" if "i < sw_len w'" for i
  proof -
    have i: "?a - ?b + i < sw_len w" using that len by simp
    have "ack_marks ?c a (sw_acked w) (sw_base w) ! ((?a + i) mod ?c) = sw_acked w ! ((?a + i) mod ?c)"
    proof (rule ack_marks_other)
      fix k
      assume "?b \<le> k" "k < ?a"
      then show "k mod ?c \<noteq> (?a + i) mod ?c"
        using i assms(1) le unfolding sw_inv_def by (intro slot_neq) linarith+
    qed
    moreover have "(?a + i) mod ?c = (?b + (?a - ?b + i)) mod ?c" using le by simp
    ultimately show ?thesis using assms(1) i by (simp add: w' sw_inv_def)
  qed
  then show "sw_inv w'"
    using assms(1) le len by (simp add: sw_inv_def) (simp add: w' le_diff_conv)
qed

datatype sw_event = SwSend u8 | SwAck u32

fun sw_step :: "nfs_send_window \<Rightarrow> sw_event \<Rightarrow> nfs_send_window" where
  "sw_step w (SwSend x) = (case nfs_send_window_send w x of None \<Rightarrow> w | Some w' \<Rightarrow> w')"
| "sw_step w (SwAck a) = (case nfs_send_window_ack w a of None \<Rightarrow> w | Some (n, w') \<Rightarrow> w')"

fun sw_ok :: "nfs_send_window \<Rightarrow> sw_event \<Rightarrow> bool" where
  "sw_ok w (SwSend x) = (unat (sw_next_seq w) < 4294967295)"
| "sw_ok w (SwAck a) = True"

text \<open>The queue: position of its first byte, bound on its length, bytes.\<close>

type_synonym byte_queue = "nat \<times> nat \<times> u8 list"

fun queue_step :: "byte_queue \<Rightarrow> sw_event \<Rightarrow> byte_queue" where
  "queue_step (b, n, xs) (SwSend x) = (b, n, if length xs < n then xs @ [x] else xs)"
| "queue_step (b, n, xs) (SwAck a) =
     (if b \<le> unat a \<and> unat a \<le> b + length xs then (unat a, n, drop (unat a - b) xs) else (b, n, xs))"

definition sw_queue :: "nfs_send_window \<Rightarrow> byte_queue" where
  "sw_queue w = (unat (sw_base w), unat (sw_window_size w), sw_data w)"

lemma sw_step_simulates:
  assumes "sw_inv w" and "sw_ok w e"
  shows "sw_inv (sw_step w e)" and "sw_queue (sw_step w e) = queue_step (sw_queue w) e"
proof -
  have "sw_inv (sw_step w e) \<and> sw_queue (sw_step w e) = queue_step (sw_queue w) e"
  proof (cases e)
    case (SwSend x)
    show ?thesis
    proof (cases "nfs_send_window_send w x")
      case None
      then have "\<not> sw_len w < unat (sw_window_size w)"
        using can_send_iff [OF assms(1)] by (auto simp: nfs_send_window_send_def Let_def split: if_splits)
      with None SwSend assms(1) show ?thesis by (simp add: sw_queue_def)
    next
      case (Some w')
      then have "sw_len w < unat (sw_window_size w)" "sw_base w' = sw_base w"
          "sw_window_size w' = sw_window_size w"
        using can_send_iff [OF assms(1)] by (auto simp: nfs_send_window_send_def Let_def split: if_splits)
      with Some SwSend send_data [OF assms(1) Some] assms(2) show ?thesis
        by (simp add: sw_queue_def)
    qed
  next
    case (SwAck a)
    show ?thesis
    proof (cases "nfs_send_window_ack w a")
      case None
      then have "\<not> (unat (sw_base w) \<le> unat a \<and> unat a \<le> unat (sw_base w) + sw_len w)"
        using assms(1) by (auto simp: nfs_send_window_ack_def Let_def sw_inv_def sw_len_def
            word_less_nat_alt split: if_splits)
      then have "queue_step (sw_queue w) (SwAck a) = sw_queue w"
        by (auto simp: sw_queue_def)
      with None SwAck assms(1) show ?thesis by simp
    next
      case (Some r)
      then obtain n w' where r: "nfs_send_window_ack w a = Some (n, w')" by (cases r) auto
      then have "sw_base w' = a" "sw_window_size w' = sw_window_size w"
        by (auto simp: nfs_send_window_ack_def Let_def split: if_splits)
      with r SwAck ack_data [OF assms(1) r] assms(1) show ?thesis
        by (auto simp: sw_queue_def sw_len_def)
    qed
  qed
  then show "sw_inv (sw_step w e)" "sw_queue (sw_step w e) = queue_step (sw_queue w) e" by simp_all
qed

interpretation send_window: simulation sw_step sw_ok sw_inv sw_queue queue_step
  by unfold_locales (fact sw_step_simulates)+

lemma sw_init_inv:
  "unat win \<le> cap \<Longrightarrow> 0 < cap \<Longrightarrow> sw_inv (nfs_send_window_init isn win cap)"
  by (simp add: sw_inv_def sw_len_def nfs_send_window_init_def)

lemma sw_init_queue: "sw_queue (nfs_send_window_init isn win cap) = (unat isn, unat win, [])"
  by (simp add: sw_queue_def sw_data_def sw_len_def nfs_send_window_init_def)

text \<open>
  C3. Below the wrap-around of the sequence number the circular buffer refines a bounded byte queue: after
  any interleaving of sends and acknowledgments (also refused ones) in which no send takes the
  sequence number past \<open>2 ^ 32 - 1\<close>, the bytes it holds are those the queue holds, and they never
  exceed the advertised window. (Across the wrap the code refuses acknowledgments that a queue
  would take: \<open>wrapped_ack_refused\<close>.)
\<close>
theorem send_window_refines_queue:
  assumes "unat win \<le> cap" and "0 < cap"
    and "guarded sw_step sw_ok (nfs_send_window_init isn win cap) es"
  shows "let w = foldl sw_step (nfs_send_window_init isn win cap) es in
    sw_queue w = foldl queue_step (unat isn, unat win, []) es \<and>
    unat (nfs_send_window_in_flight w) \<le> unat (sw_window_size w)"
proof -
  note inv0 = sw_init_inv [OF assms(1,2), of isn]
  define w where "w = foldl sw_step (nfs_send_window_init isn win cap) es"
  have "sw_inv w" unfolding w_def using inv0 assms(3) by (rule send_window.run_inv)
  then have "unat (nfs_send_window_in_flight w) \<le> unat (sw_window_size w)"
    by (simp only: unat_in_flight) (simp add: sw_inv_def)
  moreover have "sw_queue w = foldl queue_step (unat isn, unat win, []) es"
    unfolding w_def using send_window.run_abs [OF inv0 assms(3)] by (simp only: sw_init_queue)
  ultimately show ?thesis unfolding w_def by (simp only: Let_def)
qed

lemma send_window_refines_queue_witness:
  "sw_queue (foldl sw_step (nfs_send_window_init 7 1 1) [SwSend 1, SwSend 2, SwAck 8]) = (8, 1, [])"
proof -
  have "guarded sw_step sw_ok (nfs_send_window_init 7 1 1) [SwSend 1, SwSend 2, SwAck 8]"
    by (simp add: nfs_send_window_send_def nfs_send_window_can_send_def
      nfs_send_window_in_flight_def nfs_send_window_init_def)
  from send_window_refines_queue [OF _ _ this] show ?thesis by (simp add: Let_def)
qed

text \<open>
  For retransmission, \<open>nfs_send_window_get_data\<close> answers for exactly the sequence numbers in
  flight, and the buffer range it returns is not empty, lies within the buffer and holds
  the bytes of the queue from that sequence number on.
\<close>
theorem send_window_get_data_correct:
  assumes "sw_inv w"
  shows "(nfs_send_window_get_data w s = None \<longleftrightarrow>
      \<not> (unat (sw_base w) \<le> unat s \<and> unat s < unat (sw_base w) + length (sw_data w))) \<and>
    (\<forall>idx len. nfs_send_window_get_data w s = Some (idx, len) \<longrightarrow>
      0 < len \<and> idx + len \<le> sw_buf_cap w \<and>
      take len (drop idx (sw_buffer w)) = take len (drop (unat s - unat (sw_base w)) (sw_data w)))"
proof -
  let ?c = "sw_buf_cap w" and ?b = "unat (sw_base w)" and ?s = "unat s"
  have inv: "?b + sw_len w = unat (sw_next_seq w)" "0 < ?c" "length (sw_buffer w) = ?c"
    using assms by (simp_all add: sw_inv_def sw_len_def)
  have none: "nfs_send_window_get_data w s = None \<longleftrightarrow> \<not> (?b \<le> ?s \<and> ?s < ?b + sw_len w)"
    by (auto simp: nfs_send_window_get_data_def Let_def inv(1) word_less_nat_alt word_le_nat_alt)
  have "0 < len \<and> idx + len \<le> ?c \<and>
      take len (drop idx (sw_buffer w)) = take len (drop (?s - ?b) (sw_data w))"
    if r: "nfs_send_window_get_data w s = Some (idx, len)" for idx len
  proof -
    have s: "?b \<le> ?s" "?s < ?b + sw_len w" using r none by auto
    have "unat (sw_next_seq w - s) = unat (sw_next_seq w) - ?s"
      using s inv(1) by (intro unat_sub) (simp add: word_le_nat_alt)
    then have idx: "idx = ?s mod ?c" and len: "len = min (?c - idx) (?b + sw_len w - ?s)"
      using r inv(1) by (auto simp: nfs_send_window_get_data_def Let_def split: if_splits)
    have lt: "idx < ?c" using inv(2) by (simp add: idx)
    have "take len (drop idx (sw_buffer w)) = take len (drop (?s - ?b) (sw_data w))"
    proof (rule nth_equalityI)
      fix i
      assume "i < length (take len (drop idx (sw_buffer w)))"
      then have i: "i < len" by simp
      have "(?s + i) mod ?c = (idx + i) mod ?c" by (simp add: idx mod_add_left_eq)
      also have "\<dots> = idx + i" using i len lt by (intro mod_less) linarith
      finally have slot: "(?s + i) mod ?c = idx + i" .
      have "i < ?b + sw_len w - ?s" using i len by simp
      then have "sw_data w ! (?s - ?b + i) = sw_buffer w ! ((?b + (?s - ?b + i)) mod ?c)"
        using s by (intro sw_data_nth) linarith
      then have data: "sw_data w ! (?s + i - ?b) = sw_buffer w ! (idx + i)"
        using s(1) slot by simp
      then show "take len (drop idx (sw_buffer w)) ! i = take len (drop (?s - ?b) (sw_data w)) ! i"
        using i s lt len inv(3) data by simp
    qed (use len s lt inv(3) in simp)
    with s lt show ?thesis by (simp add: len)
  qed
  with none show ?thesis by simp
qed

lemma send_window_get_data_correct_witness:
  "nfs_send_window_get_data \<lparr> sw_base = 7, sw_next_seq = 10, sw_window_size = 3, sw_buffer = [12, 30, 11, 10],
       sw_buf_cap = 4, sw_acked = [0, 0, 0, 0] \<rparr> 8 = Some (0, 2)"
  (is "nfs_send_window_get_data ?w 8 = _")
proof -
  have "sw_inv ?w"
    by (simp add: sw_inv_def sw_len_def) (simp add: numeral_3_eq_3 All_less_Suc)
  note * = send_window_get_data_correct [OF this, of 8]
  have "sw_data ?w = [10, 12, 30]"
    by (simp add: sw_data_def sw_len_def upt_conv_Cons)
  with * show ?thesis by (auto simp: nfs_send_window_get_data_def)
qed

text \<open>
  The comparisons are those of plain numbers: with two bytes in flight across the end of the
  sequence space, the acknowledgment of both is refused.
\<close>

lemma wrapped_ack_refused:
  "nfs_send_window_in_flight \<lparr> sw_base = 0xFFFFFFFF, sw_next_seq = 1, sw_window_size = 4, sw_buffer = [2, 0, 0, 1],
       sw_buf_cap = 4, sw_acked = [0, 0, 0, 0] \<rparr> = 2 \<and>
   nfs_send_window_ack \<lparr> sw_base = 0xFFFFFFFF, sw_next_seq = 1, sw_window_size = 4, sw_buffer = [2, 0, 0, 1],
       sw_buf_cap = 4, sw_acked = [0, 0, 0, 0] \<rparr> 1 = None"
  by (simp add: nfs_send_window_in_flight_def nfs_send_window_ack_def)

end
