(* ===== verification/Sack.thy ===== *)
theory Sack
  imports Interfaces
begin

text \<open>
  The SACK scoreboard (\<^verbatim>\<open>phases/04-transport/19-selective-acknowledgment-sack/sack.c\<close>): at most
  four blocks \<open>[left, right)\<close>, the most recent first. \<open>sack_covered\<close> is the set of
  sequence numbers the blocks stand for; the operations are specified on it. As in the
  code, sequence numbers are compared as plain unsigned numbers.
\<close>

section \<open>Definitions\<close>

record nfs_sack_block =
  left :: u32
  right :: u32

definition NFS_SACK_MAX_BLOCKS :: nat where "NFS_SACK_MAX_BLOCKS = 4"

text \<open>The live prefix of the block array is the list; its length is \<^verbatim>\<open>nblocks\<close>.\<close>

record nfs_sack_scoreboard =
  blocks :: "nfs_sack_block list"
  cum_ack :: u32

definition nfs_sack_init :: "u32 \<Rightarrow> nfs_sack_scoreboard" where
  "nfs_sack_init initial_ack = \<lparr> blocks = [], cum_ack = initial_ack \<rparr>"

text \<open>
  The inner loop of the insertion sort walks down from the end of the sorted prefix: the
  prefix is kept reversed here.
\<close>

fun shift_in :: "nfs_sack_block \<Rightarrow> nfs_sack_block list \<Rightarrow> nfs_sack_block list" where
  "shift_in tmp [] = [tmp]"
| "shift_in tmp (b # prefix) = (if left b > left tmp then b # shift_in tmp prefix else tmp # b # prefix)"

definition sort_blocks :: "nfs_sack_block list \<Rightarrow> nfs_sack_block list" where
  "sort_blocks bs = rev (fold shift_in bs [])"

text \<open>\<open>merge_run cur bs\<close> is the merge loop with \<^verbatim>\<open>blocks[out]\<close> in \<open>cur\<close> and the blocks still to visit.\<close>

fun merge_run :: "nfs_sack_block \<Rightarrow> nfs_sack_block list \<Rightarrow> nfs_sack_block list" where
  "merge_run cur [] = [cur]"
| "merge_run cur (b # bs) =
     (if left b \<le> right cur
      then merge_run (if right b > right cur then cur\<lparr> right := right b \<rparr> else cur) bs
      else cur # merge_run b bs)"

definition merge_blocks :: "nfs_sack_block list \<Rightarrow> nfs_sack_block list" where
  "merge_blocks bs =
     (if length bs \<le> 1 then bs
      else case sort_blocks bs of [] \<Rightarrow> [] | b # rest \<Rightarrow> merge_run b rest)"

definition nfs_sack_add_block :: "nfs_sack_scoreboard \<Rightarrow> u32 \<Rightarrow> u32 \<Rightarrow> nat \<times> nfs_sack_scoreboard" where
  "nfs_sack_add_block sb l r =
     (let new = \<lparr> left = l, right = r \<rparr>;
          bs = (if length (blocks sb) < NFS_SACK_MAX_BLOCKS then blocks sb @ [new]
                else (blocks sb)[NFS_SACK_MAX_BLOCKS - 1 := new]);
          merged = merge_blocks bs;
          recent_idx = (case find_idx (\<lambda>b. left b \<le> l \<and> right b \<ge> r) merged of
                          None \<Rightarrow> 0 | Some i \<Rightarrow> i);
          moved = (if recent_idx \<noteq> 0
                   then merged ! recent_idx # take recent_idx merged @ drop (recent_idx + 1) merged
                   else merged)
      in (length moved, sb\<lparr> blocks := moved \<rparr>))"

definition nfs_sack_is_sacked :: "nfs_sack_scoreboard \<Rightarrow> u32 \<Rightarrow> bool" where
  "nfs_sack_is_sacked sb s \<longleftrightarrow> list_ex (\<lambda>b. s \<ge> left b \<and> s < right b) (blocks sb)"

definition trim_block :: "u32 \<Rightarrow> nfs_sack_block \<Rightarrow> nfs_sack_block option" where
  "trim_block new_ack b =
     (if right b > new_ack then Some (if left b < new_ack then b\<lparr> left := new_ack \<rparr> else b) else None)"

definition nfs_sack_advance_cumack :: "nfs_sack_scoreboard \<Rightarrow> u32 \<Rightarrow> nfs_sack_scoreboard" where
  "nfs_sack_advance_cumack sb new_ack =
     (if new_ack \<le> cum_ack sb then sb
      else \<lparr> blocks = List.map_filter (trim_block new_ack) (blocks sb), cum_ack = new_ack \<rparr>)"

definition nfs_sack_build_option :: "nfs_sack_scoreboard \<Rightarrow> nat \<Rightarrow> u8 list option" where
  "nfs_sack_build_option sb out_sz =
     (if blocks sb = [] then Some []
      else
        let needed = 2 + 8 * length (blocks sb) in
        if out_sz < needed then None
        else Some ([5, of_nat needed] @ concat (map (\<lambda>b. put32 (left b) @ put32 (right b)) (blocks sb))))"

definition nfs_sack_parse_option :: "u8 list \<Rightarrow> nat \<Rightarrow> nfs_sack_block list option" where
  "nfs_sack_parse_option data max_blocks =
     (if length data < 2 then None
      else if data ! 0 \<noteq> 5 then None
      else
        let opt_len = unat (data ! 1) in
        if opt_len < 2 \<or> opt_len > length data then None
        else
          let block_bytes = opt_len - 2 in
          if block_bytes mod 8 \<noteq> 0 then None
          else
            let nblocks = min (block_bytes div 8) max_blocks in
            Some (map (\<lambda>i. \<lparr> left = get32 data (2 + i * 8), right = get32 data (2 + i * 8 + 4) \<rparr>)
                    [0..<nblocks]))"

fun holes_run :: "nat \<Rightarrow> u32 \<Rightarrow> nfs_sack_block list \<Rightarrow> nfs_sack_block list" where
  "holes_run room cursor [] = []"
| "holes_run room cursor (b # bs) =
     (if room = 0 then []
      else
        let next_cursor = (if right b > cursor then right b else cursor) in
        if left b > cursor
        then \<lparr> left = cursor, right = left b \<rparr> # holes_run (room - 1) next_cursor bs
        else holes_run room next_cursor bs)"

definition nfs_sack_holes :: "nfs_sack_scoreboard \<Rightarrow> nat \<Rightarrow> nfs_sack_block list" where
  "nfs_sack_holes sb max_holes =
     (if blocks sb = [] then [] else holes_run max_holes (cum_ack sb) (sort_blocks (blocks sb)))"

section \<open>Sorting and merging\<close>

definition sack_range :: "nfs_sack_block \<Rightarrow> u32 set" where
  "sack_range b = {s. left b \<le> s \<and> s < right b}"

definition sack_covered :: "nfs_sack_block list \<Rightarrow> u32 set" where
  "sack_covered bs = (\<Union>b \<in> set bs. sack_range b)"

lemma sack_covered_simps [simp]:
  "sack_covered [] = {}" "sack_covered (b # bs) = sack_range b \<union> sack_covered bs"
  "sack_covered (bs @ cs) = sack_covered bs \<union> sack_covered cs"
  by (auto simp: sack_covered_def)

lemma sack_covered_cong: "set bs = set cs \<Longrightarrow> sack_covered bs = sack_covered cs"
  by (simp add: sack_covered_def)

lemma mset_shift_in: "mset (shift_in t bs) = add_mset t (mset bs)"
  by (induction bs) auto

lemma sorted_shift_in:
  "sorted_wrt (\<lambda>a b. left b \<le> left a) bs \<Longrightarrow> sorted_wrt (\<lambda>a b. left b \<le> left a) (shift_in t bs)"
proof (induction bs)
  case (Cons b bs)
  have "set (shift_in t bs) = insert t (set bs)"
    by (metis mset_shift_in set_mset_add_mset_insert set_mset_mset)
  with Cons show ?case by auto
qed simp

lemma fold_shift_in:
  "sorted_wrt (\<lambda>a b. left b \<le> left a) acc \<Longrightarrow>
     sorted_wrt (\<lambda>a b. left b \<le> left a) (fold shift_in bs acc) \<and>
     mset (fold shift_in bs acc) = mset bs + mset acc"
  by (induction bs arbitrary: acc) (auto simp: sorted_shift_in mset_shift_in)

lemma mset_sort_blocks [simp]: "mset (sort_blocks bs) = mset bs"
  using fold_shift_in [of "[]" bs] by (simp add: sort_blocks_def)

lemma set_sort_blocks [simp]: "set (sort_blocks bs) = set bs"
  by (metis mset_sort_blocks set_mset_mset)

lemma length_sort_blocks [simp]: "length (sort_blocks bs) = length bs"
  by (metis mset_sort_blocks size_mset)

lemma sorted_sort_blocks: "sorted_wrt (\<lambda>a b. left a \<le> left b) (sort_blocks bs)"
  using fold_shift_in [of "[]" bs] by (simp add: sort_blocks_def sorted_wrt_rev)

text \<open>Separated blocks: in order, not even adjacent.\<close>

abbreviation sack_apart :: "nfs_sack_block \<Rightarrow> nfs_sack_block \<Rightarrow> bool" where
  "sack_apart a b \<equiv> right a < left b"

lemma merge_run_covered:
  "sorted_wrt (\<lambda>a b. left a \<le> left b) (cur # bs) \<Longrightarrow>
     sack_covered (merge_run cur bs) = sack_range cur \<union> sack_covered bs"
proof (induction cur bs rule: merge_run.induct)
  case (2 cur b bs)
  show ?case
  proof (cases "left b \<le> right cur")
    case True
    let ?m = "if right b > right cur then cur\<lparr> right := right b \<rparr> else cur"
    have "sack_range ?m = sack_range cur \<union> sack_range b"
      using True 2(3) by (auto simp: sack_range_def)
    moreover have "sack_covered (merge_run ?m bs) = sack_range ?m \<union> sack_covered bs"
      using True 2(1,3) by simp
    ultimately show ?thesis using True by (auto simp del: split_paired_All)
  qed (use 2 in auto)
qed simp

lemma merge_run_left: "b \<in> set (merge_run cur bs) \<Longrightarrow> left b \<in> left ` set (cur # bs)"
  by (induction cur bs rule: merge_run.induct) (auto split: if_splits)

lemma merge_run_right_ge:
  "\<exists>b \<in> set (merge_run cur bs). left b \<le> left cur \<and> right cur \<le> right b"
proof (induction cur bs rule: merge_run.induct)
  case (2 cur b bs)
  show ?case
  proof (cases "left b \<le> right cur")
    case True
    let ?m = "if right b > right cur then cur\<lparr> right := right b \<rparr> else cur"
    obtain c where "c \<in> set (merge_run ?m bs)" "left c \<le> left ?m" "right ?m \<le> right c"
      using 2(1) True by blast
    then show ?thesis using True by (intro bexI [of _ c]) (auto split: if_splits)
  qed simp
qed auto

text \<open>Every block of the input lies in a block of the output.\<close>

lemma merge_run_absorbs:
  "sorted_wrt (\<lambda>a b. left a \<le> left b) (cur # bs) \<Longrightarrow> c \<in> set (cur # bs) \<Longrightarrow>
     \<exists>b \<in> set (merge_run cur bs). left b \<le> left c \<and> right c \<le> right b"
proof (induction cur bs arbitrary: c rule: merge_run.induct)
  case (2 cur b bs)
  show ?case
  proof (cases "left b \<le> right cur")
    case True
    let ?m = "if right b > right cur then cur\<lparr> right := right b \<rparr> else cur"
    have ih: "\<exists>d \<in> set (merge_run ?m bs). left d \<le> left c' \<and> right c' \<le> right d"
      if "c' \<in> set (?m # bs)" for c'
      using 2(1,3) True that by simp
    show ?thesis
    proof (cases "c \<in> set bs")
      case True
      then show ?thesis using ih [of c] \<open>left b \<le> right cur\<close> by simp
    next
      case False
      then have "left ?m \<le> left c \<and> right c \<le> right ?m"
        using 2(3,4) by auto
      then show ?thesis using ih [of ?m] \<open>left b \<le> right cur\<close> by (auto intro: order_trans)
    qed
  next
    case False
    then show ?thesis using 2(2,3,4) by auto
  qed
qed auto

lemma merge_run_apart:
  "sorted_wrt (\<lambda>a b. left a \<le> left b) (cur # bs) \<Longrightarrow> sorted_wrt (\<lambda>a b. right a < left b) (merge_run cur bs)"
proof (induction cur bs rule: merge_run.induct)
  case (2 cur b bs)
  show ?case
  proof (cases "left b \<le> right cur")
    case True
    then show ?thesis using 2(1,3) by simp
  next
    case False
    have "right cur < left d" if "d \<in> set (merge_run b bs)" for d
    proof -
      have "left b \<le> left d" using merge_run_left [OF that] 2(3) by auto
      then show ?thesis using False by simp
    qed
    then show ?thesis using False 2(2,3) by simp
  qed
qed simp

lemma merge_run_length: "length (merge_run cur bs) \<le> Suc (length bs)"
  by (induction cur bs rule: merge_run.induct) auto

lemma merge_blocks_spec:
  "sack_covered (merge_blocks bs) = sack_covered bs"
  "sorted_wrt sack_apart (merge_blocks bs)"
  "length (merge_blocks bs) \<le> length bs"
  "c \<in> set bs \<Longrightarrow> \<exists>b \<in> set (merge_blocks bs). left b \<le> left c \<and> right c \<le> right b"
proof -
  have "sack_covered (merge_blocks bs) = sack_covered bs \<and> sorted_wrt sack_apart (merge_blocks bs) \<and>
    length (merge_blocks bs) \<le> length bs \<and>
    (c \<in> set bs \<longrightarrow> (\<exists>b \<in> set (merge_blocks bs). left b \<le> left c \<and> right c \<le> right b))"
  proof (cases "length bs \<le> 1")
    case True
    then show ?thesis by (cases bs) (auto simp: merge_blocks_def)
  next
    case False
    then obtain b rest where s: "sort_blocks bs = b # rest"
      by (cases "sort_blocks bs") (use length_sort_blocks [of bs] in auto)
    have sorted: "sorted_wrt (\<lambda>a b. left a \<le> left b) (b # rest)"
      using sorted_sort_blocks [of bs] by (simp only: s)
    have set: "set (b # rest) = set bs" using set_sort_blocks [of bs] by (simp only: s)
    have m: "merge_blocks bs = merge_run b rest" using False by (simp add: merge_blocks_def s)
    have "sack_covered (b # rest) = sack_covered bs" using set by (rule sack_covered_cong)
    moreover have "length bs = Suc (length rest)" using length_sort_blocks [of bs] by (simp add: s)
    ultimately show ?thesis
      using merge_run_covered [OF sorted] merge_run_apart [OF sorted] merge_run_absorbs [OF sorted, of c]
        merge_run_length [of b rest]
      unfolding m set by simp
  qed
  then show "sack_covered (merge_blocks bs) = sack_covered bs" "sorted_wrt sack_apart (merge_blocks bs)"
    "length (merge_blocks bs) \<le> length bs"
    "c \<in> set bs \<Longrightarrow> \<exists>b \<in> set (merge_blocks bs). left b \<le> left c \<and> right c \<le> right b" by simp_all
qed

section \<open>Adding a block\<close>

definition sack_inv :: "nfs_sack_scoreboard \<Rightarrow> bool" where
  "sack_inv sb \<longleftrightarrow> length (blocks sb) \<le> NFS_SACK_MAX_BLOCKS"

definition move_front :: "nat \<Rightarrow> 'a list \<Rightarrow> 'a list" where
  "move_front i xs = (if i \<noteq> 0 then xs ! i # take i xs @ drop (i + 1) xs else xs)"

lemma mset_move_front: "i < length xs \<Longrightarrow> mset (move_front i xs) = mset xs"
  by (simp add: move_front_def) (metis add_mset_add_single append_take_drop_id drop_nth_Cons mset.simps(2)
      mset_append union_mset_add_mset_right)

lemma add_block_blocks:
  defines "old sb \<equiv> (if length (blocks sb) < 4 then blocks sb else take 3 (blocks sb))"
  assumes "sack_inv sb" and "nfs_sack_add_block sb l r = (n, sb')"
  shows "mset (blocks sb') = mset (merge_blocks (old sb @ [\<lparr> left = l, right = r \<rparr>]))"
    and "cum_ack sb' = cum_ack sb" and "n = length (blocks sb')"
    and "\<exists>b bs. blocks sb' = b # bs \<and> left b \<le> l \<and> r \<le> right b"
proof -
  let ?new = "\<lparr> left = l, right = r \<rparr>" and ?P = "\<lambda>b. left b \<le> l \<and> right b \<ge> r"
  let ?m = "merge_blocks (old sb @ [?new])"
  have "(if length (blocks sb) < NFS_SACK_MAX_BLOCKS then blocks sb @ [?new]
      else (blocks sb)[NFS_SACK_MAX_BLOCKS - 1 := ?new]) = old sb @ [?new]"
    using assms(2) by (auto simp: old_def sack_inv_def NFS_SACK_MAX_BLOCKS_def upd_conv_take_nth_drop)
  note eq = assms(3) [unfolded nfs_sack_add_block_def Let_def this]
  have "\<exists>b \<in> set ?m. ?P b" using merge_blocks_spec(4) [of ?new "old sb @ [?new]"] by simp
  then obtain i where i: "find_idx ?P ?m = Some i" by (metis find_idx_None_iff not_None_eq)
  have at: "i < length ?m" "?P (?m ! i)" using find_idx_SomeD [OF i] by simp_all
  have b: "blocks sb' = move_front i ?m" "cum_ack sb' = cum_ack sb" "n = length (blocks sb')"
    using eq i by (auto simp: move_front_def)
  then show "mset (blocks sb') = mset ?m" using at(1) by (simp add: mset_move_front)
  show "cum_ack sb' = cum_ack sb" "n = length (blocks sb')" using b by simp_all
  show "\<exists>b bs. blocks sb' = b # bs \<and> left b \<le> l \<and> r \<le> right b"
    using at b(1) by (cases ?m) (auto simp: move_front_def)
qed

lemma is_sacked_iff: "nfs_sack_is_sacked sb s \<longleftrightarrow> s \<in> sack_covered (blocks sb)"
  by (auto simp: nfs_sack_is_sacked_def sack_covered_def sack_range_def list_ex_iff)

text \<open>
  Adding a block: the sequence numbers reported as received are the earlier ones and those of
  \<open>[l, r)\<close>. When four blocks are held, the fourth is given up first. The blocks
  stay within four, pairwise separated (not even adjacent), and the block that holds the
  new range is first, as RFC 2018 asks.
\<close>
theorem sack_add_block_correct:
  assumes "sack_inv sb"
  shows "let sb' = snd (nfs_sack_add_block sb l r);
      kept = (if length (blocks sb) < 4 then sb else sb\<lparr> blocks := take 3 (blocks sb) \<rparr>) in
    (\<forall>s. nfs_sack_is_sacked sb' s \<longleftrightarrow> nfs_sack_is_sacked kept s \<or> (l \<le> s \<and> s < r)) \<and>
    sack_inv sb' \<and> cum_ack sb' = cum_ack sb \<and> fst (nfs_sack_add_block sb l r) = length (blocks sb') \<and>
    (\<exists>bs. mset bs = mset (blocks sb') \<and> sorted_wrt sack_apart bs) \<and>
    blocks sb' \<noteq> [] \<and> left (hd (blocks sb')) \<le> l \<and> r \<le> right (hd (blocks sb'))"
proof -
  obtain n sb' where add: "nfs_sack_add_block sb l r = (n, sb')" by fastforce
  let ?new = "\<lparr> left = l, right = r \<rparr>"
  let ?old = "if length (blocks sb) < 4 then blocks sb else take 3 (blocks sb)"
  note b = add_block_blocks [OF assms add]
  have "set (blocks sb') = set (merge_blocks (?old @ [?new]))" using b(1) by (metis set_mset_mset)
  then have cov: "sack_covered (blocks sb') = sack_covered ?old \<union> sack_range ?new"
    using merge_blocks_spec(1) [of "?old @ [?new]"] sack_covered_cong by (metis sack_covered_simps Un_empty_right)
  have "length (blocks sb') = length (merge_blocks (?old @ [?new]))" using b(1) by (metis size_mset)
  also have "\<dots> \<le> length (?old @ [?new])" by (rule merge_blocks_spec(3))
  finally have "length (blocks sb') \<le> 4" using assms by (auto simp: sack_inv_def split: if_splits)
  moreover have "\<exists>bs. mset bs = mset (blocks sb') \<and> sorted_wrt sack_apart bs"
    using b(1) merge_blocks_spec(2) by metis
  ultimately show ?thesis
    using b(2,3,4) cov
    by (auto simp: add Let_def is_sacked_iff sack_inv_def NFS_SACK_MAX_BLOCKS_def sack_range_def)
qed

lemma sack_add_block_correct_witness:
  "sack_inv \<lparr> blocks = [\<lparr> left = 10, right = 20 \<rparr>, \<lparr> left = 30, right = 40 \<rparr>], cum_ack = 5 \<rparr> \<and>
   nfs_sack_is_sacked (snd (nfs_sack_add_block
     \<lparr> blocks = [\<lparr> left = 10, right = 20 \<rparr>, \<lparr> left = 30, right = 40 \<rparr>], cum_ack = 5 \<rparr> 20 30)) 25"
  (is "sack_inv ?sb \<and> _")
proof -
  have inv: "sack_inv ?sb" by (simp add: sack_inv_def NFS_SACK_MAX_BLOCKS_def)
  with sack_add_block_correct [OF inv, of 20 30] show ?thesis by (simp add: Let_def)
qed

section \<open>Advancing the cumulative acknowledgment\<close>
lemma trim_block_range:
  "(case trim_block a b of None \<Rightarrow> {} | Some c \<Rightarrow> sack_range c) = {s \<in> sack_range b. a \<le> s}"
  by (auto simp: trim_block_def sack_range_def)

lemma sack_covered_map_filter:
  "sack_covered (List.map_filter f bs) = (\<Union>b \<in> set bs. case f b of None \<Rightarrow> {} | Some c \<Rightarrow> sack_range c)"
  by (induction bs) (auto simp: List.map_filter_simps split: option.splits)

text \<open>
  Advancing the cumulative acknowledgment forgets exactly the sequence numbers below it,
  and an acknowledgment that is not new changes nothing.
\<close>
theorem sack_advance_cumack_correct:
  "(new_ack \<le> cum_ack sb \<longrightarrow> nfs_sack_advance_cumack sb new_ack = sb) \<and>
   (cum_ack sb < new_ack \<longrightarrow>
     cum_ack (nfs_sack_advance_cumack sb new_ack) = new_ack \<and>
     (\<forall>s. nfs_sack_is_sacked (nfs_sack_advance_cumack sb new_ack) s \<longleftrightarrow>
       nfs_sack_is_sacked sb s \<and> new_ack \<le> s) \<and>
     length (blocks (nfs_sack_advance_cumack sb new_ack)) \<le> length (blocks sb))"
proof -
  have "sack_covered (List.map_filter (trim_block new_ack) bs) = {s \<in> sack_covered bs. new_ack \<le> s}" for bs
    by (auto simp: sack_covered_map_filter trim_block_range) (auto simp: sack_covered_def)
  moreover have "length (List.map_filter f bs) \<le> length bs" for f :: "nfs_sack_block \<Rightarrow> nfs_sack_block option" and bs
    by (simp add: List.map_filter_def)
  ultimately show ?thesis
    by (auto simp: nfs_sack_advance_cumack_def is_sacked_iff not_le [symmetric])
qed

lemma sack_advance_cumack_correct_witness:
  "nfs_sack_is_sacked (nfs_sack_advance_cumack
     \<lparr> blocks = [\<lparr> left = 10, right = 20 \<rparr>], cum_ack = 5 \<rparr> 15) 17"
  using sack_advance_cumack_correct [of 15 "\<lparr> blocks = [\<lparr> left = 10, right = 20 \<rparr>], cum_ack = 5 \<rparr>"]
  by (simp add: nfs_sack_is_sacked_def)

section \<open>Holes\<close>

lemma holes_run_correct:
  "sorted_wrt (\<lambda>a b. left a \<le> left b) bs \<Longrightarrow> length bs \<le> room \<Longrightarrow>
     s \<in> sack_covered (holes_run room cursor bs) \<longleftrightarrow>
       cursor \<le> s \<and> s \<notin> sack_covered bs \<and> (\<exists>b \<in> set bs. s < left b)"
proof (induction room cursor bs rule: holes_run.induct)
  case (2 room cursor b bs)
  let ?next = "if right b > cursor then right b else cursor"
  have sorted: "sorted_wrt (\<lambda>a b. left a \<le> left b) bs" and ge: "\<And>c. c \<in> set bs \<Longrightarrow> left b \<le> left c"
    using 2(3) by simp_all
  have ih: "s \<in> sack_covered (holes_run (if left b > cursor then room - 1 else room) ?next bs) \<longleftrightarrow>
      ?next \<le> s \<and> s \<notin> sack_covered bs \<and> (\<exists>c \<in> set bs. s < left c)"
  proof (cases "left b > cursor")
    case True
    moreover have "length bs \<le> room - 1" "room \<noteq> 0" using 2(4) by auto
    ultimately show ?thesis using 2(1) [OF _ refl _ sorted] by simp
  next
    case False
    moreover have "length bs \<le> room" "room \<noteq> 0" using 2(4) by auto
    ultimately show ?thesis using 2(2) [OF _ refl _ sorted] by simp
  qed
  have before: "s \<notin> sack_covered bs" if "s < left b"
  proof
    assume "s \<in> sack_covered bs"
    then obtain c where "c \<in> set bs" "left c \<le> s" by (auto simp: sack_covered_def sack_range_def)
    then show False using ge [of c] that by auto
  qed
  have room: "room \<noteq> 0" using 2(4) by auto
  show ?case
  proof (cases "left b > cursor")
    case True
    then have eq: "sack_covered (holes_run room cursor (b # bs)) = {x. cursor \<le> x \<and> x < left b} \<union>
        sack_covered (holes_run (room - 1) ?next bs)"
      using room by (auto simp: Let_def sack_range_def)
    have ih': "s \<in> sack_covered (holes_run (room - 1) ?next bs) \<longleftrightarrow>
      ?next \<le> s \<and> s \<notin> sack_covered bs \<and> (\<exists>c \<in> set bs. s < left c)" using ih True by simp
    show ?thesis
      unfolding eq Un_iff ih' using before True ge
      by (auto simp: sack_range_def not_less split: if_splits)
  next
    case False
    then have eq: "holes_run room cursor (b # bs) = holes_run room ?next bs"
      using room by (simp add: Let_def)
    have ih': "s \<in> sack_covered (holes_run room ?next bs) \<longleftrightarrow>
      ?next \<le> s \<and> s \<notin> sack_covered bs \<and> (\<exists>c \<in> set bs. s < left c)" using ih False by simp
    show ?thesis
      unfolding eq ih' using before False ge
      by (auto simp: sack_range_def not_less split: if_splits)
  qed
qed simp

text \<open>
  The holes are exactly what has to be sent again: a sequence number lies in a hole when it is
  not below the cumulative acknowledgment, is not covered by a block and some block starts
  beyond it (given room for as many holes as there are blocks).
\<close>
theorem sack_holes_correct:
  assumes "length (blocks sb) \<le> max_holes"
  shows "s \<in> sack_covered (nfs_sack_holes sb max_holes) \<longleftrightarrow>
    cum_ack sb \<le> s \<and> \<not> nfs_sack_is_sacked sb s \<and> list_ex (\<lambda>b. s < left b) (blocks sb)"
  using holes_run_correct [OF sorted_sort_blocks, of "blocks sb" max_holes s "cum_ack sb"] assms
    sack_covered_cong [OF set_sort_blocks, of "blocks sb"]
  by (simp add: nfs_sack_holes_def is_sacked_iff list_ex_iff)

lemma sack_holes_correct_witness:
  "25 \<in> sack_covered (nfs_sack_holes
     \<lparr> blocks = [\<lparr> left = 30, right = 40 \<rparr>, \<lparr> left = 10, right = 20 \<rparr>], cum_ack = 5 \<rparr> 4)"
  using sack_holes_correct [of "\<lparr> blocks = [\<lparr> left = 30, right = 40 \<rparr>, \<lparr> left = 10, right = 20 \<rparr>], cum_ack = 5 \<rparr>" 4 25]
  by (simp add: nfs_sack_is_sacked_def)

section \<open>The option on the wire\<close>

lemma nth_concat_put:
  "i < length bs \<Longrightarrow> pre = length hdr \<Longrightarrow>
     get32 (hdr @ concat (map (\<lambda>b. put32 (left b) @ put32 (right b)) bs) @ rest) (pre + i * 8) = left (bs ! i) \<and>
     get32 (hdr @ concat (map (\<lambda>b. put32 (left b) @ put32 (right b)) bs) @ rest) (pre + i * 8 + 4) = right (bs ! i)"
proof (induction bs arbitrary: i hdr pre)
  case (Cons b bs)
  show ?case
  proof (cases i)
    case 0
    have "get32 (hdr @ put32 (left b) @ put32 (right b) @ xs) pre = left b"
      "get32 ((hdr @ put32 (left b)) @ put32 (right b) @ xs) (pre + 4) = right b" for xs
      using Cons.prems by (intro get32_append_put32; simp)+
    then show ?thesis using 0 by simp
  next
    case (Suc k)
    then show ?thesis
      using Cons.IH [of k "pre + 8" "hdr @ put32 (left b) @ put32 (right b)"] Cons.prems
      by (simp add: add.assoc)
  qed
qed simp

lemma parse_build:
  assumes "nfs_sack_build_option sb out_sz = Some opt" and "blocks sb \<noteq> []" and "length (blocks sb) \<le> 31"
  shows "nfs_sack_parse_option (opt @ rest) max_blocks = Some (take max_blocks (blocks sb))"
proof -
  let ?bs = "blocks sb"
  let ?data = "concat (map (\<lambda>b. put32 (left b) @ put32 (right b)) ?bs)"
  have opt: "opt = [5, of_nat (2 + 8 * length ?bs)] @ ?data"
    using assms(1,2) by (auto simp: nfs_sack_build_option_def Let_def split: if_splits)
  have "length (concat (map (\<lambda>b. put32 (left b) @ put32 (right b)) bs)) = 8 * length bs" for bs
    by (induction bs) auto
  then have len: "length ?data = 8 * length ?bs" .
  have n: "unat (of_nat (2 + 8 * length ?bs) :: u8) = 2 + 8 * length ?bs"
    using assms(3) by (intro unat_of_nat_u8) simp
  have get: "get32 (opt @ rest) (2 + i * 8) = left (?bs ! i)" "get32 (opt @ rest) (2 + i * 8 + 4) = right (?bs ! i)"
    if "i < length ?bs" for i
    using nth_concat_put [OF that, of 2 "[5, of_nat (2 + 8 * length ?bs)]" rest] by (simp_all add: opt)
  have "map (\<lambda>i. \<lparr> left = get32 (opt @ rest) (2 + i * 8), right = get32 (opt @ rest) (2 + i * 8 + 4) \<rparr>)
      [0..<min (length ?bs) max_blocks] = take max_blocks ?bs"
    by (rule nth_equalityI) (auto simp: get [simplified])
  moreover have "(opt @ rest) ! 1 = of_nat (2 + 8 * length ?bs)" "(opt @ rest) ! 0 = 5"
    "length (opt @ rest) = 2 + 8 * length ?bs + length rest" by (simp_all add: opt len)
  ultimately show ?thesis
    unfolding nfs_sack_parse_option_def Let_def using n by simp
qed

text \<open>
  The SACK option round-trips: parsing the option built from a scoreboard, whatever follows it
  in the segment, gives the blocks of the scoreboard in their order, cut to the room the
  caller has; and building fails only for lack of room.
\<close>
theorem sack_option_roundtrip:
  assumes "sack_inv sb" and "blocks sb \<noteq> []"
  shows "(nfs_sack_build_option sb out_sz = None \<longleftrightarrow> out_sz < 2 + 8 * length (blocks sb)) \<and>
    (\<forall>opt. nfs_sack_build_option sb out_sz = Some opt \<longrightarrow>
      nfs_sack_parse_option (opt @ rest) max_blocks = Some (take max_blocks (blocks sb)))"
proof -
  have "length (blocks sb) \<le> 31" using assms(1) by (simp add: sack_inv_def NFS_SACK_MAX_BLOCKS_def)
  with assms(2) show ?thesis
    by (auto simp: parse_build) (auto simp: nfs_sack_build_option_def Let_def split: if_splits)
qed

lemma sack_option_roundtrip_witness:
  "nfs_sack_parse_option ([5, 10, 0, 0, 0, 10, 0, 0, 1, 0] @ [1]) 4 = Some [\<lparr> left = 10, right = 256 \<rparr>]"
proof -
  have "nfs_sack_build_option \<lparr> blocks = [\<lparr> left = 10, right = 256 \<rparr>], cum_ack = 5 \<rparr> 40 =
      Some [5, 10, 0, 0, 0, 10, 0, 0, 1, 0]"
    by (simp add: nfs_sack_build_option_def put32_def byte3_def byte2_def byte1_def byte0_def)
  with sack_option_roundtrip [of "\<lparr> blocks = [\<lparr> left = 10, right = 256 \<rparr>], cum_ack = 5 \<rparr>" 40 "[1]" 4]
  show ?thesis by (simp add: sack_inv_def NFS_SACK_MAX_BLOCKS_def)
qed

end
