(* ===== verification/Rdt.thy ===== *)
theory Rdt
  imports Interfaces
begin

text \<open>
  Go-Back-N reliable data transfer (\<^verbatim>\<open>phases/04-transport/16-reliable-data-transfer/rdt.c\<close>) and the
  system it forms with a network that loses, duplicates and reorders segments and
  acknowledgments. The sender's array prefix is the list \<open>segments\<close>, so \<^verbatim>\<open>count\<close> is its
  length; \<^verbatim>\<open>data\<close> with \<^verbatim>\<open>data_len\<close> is a byte list. \<^verbatim>\<open>count\<close> and \<^verbatim>\<open>base\<close> stay at most 256 and
  are natural numbers; sequence numbers, the window and its end are 32-bit words.
\<close>

section \<open>Definitions\<close>

definition NFS_RDT_MAX_DATA :: nat where "NFS_RDT_MAX_DATA = 1024"
definition NFS_RDT_MAX_SEGS :: nat where "NFS_RDT_MAX_SEGS = 256"
definition NFS_RDT_RECV_BUF :: nat where "NFS_RDT_RECV_BUF = 65536"

record nfs_rdt_segment =
  seg_seq :: u32
  seg_data :: "u8 list"
  seg_acked :: bool

record nfs_rdt_sender =
  segments :: "nfs_rdt_segment list"
  rdt_base :: nat
  next_seq :: u32
  window_size :: u32
  retransmit_count :: u32

record nfs_rdt_receiver =
  expected_seq :: u32
  recv_buf :: "u8 list"

definition nfs_rdt_sender_init :: "u32 \<Rightarrow> nfs_rdt_sender" where
  "nfs_rdt_sender_init w =
     \<lparr> segments = [], rdt_base = 0, next_seq = 0, window_size = (if w > 0 then w else 1),
       retransmit_count = 0 \<rparr>"

definition nfs_rdt_send :: "nfs_rdt_sender \<Rightarrow> u8 list \<Rightarrow> (u32 \<times> nfs_rdt_sender) option" where
  "nfs_rdt_send s data =
     (if length data = 0 \<or> length data > NFS_RDT_MAX_DATA then None
      else
        let in_flight = length (segments s) - rdt_base s in
        if of_nat in_flight \<ge> window_size s then None
        else if length (segments s) \<ge> NFS_RDT_MAX_SEGS then None
        else
          let seg = \<lparr> seg_seq = next_seq s, seg_data = data, seg_acked = False \<rparr> in
          Some (next_seq s, s\<lparr> segments := segments s @ [seg], next_seq := next_seq s + 1 \<rparr>))"

function rdt_ack_loop :: "u32 \<Rightarrow> nat \<Rightarrow> nfs_rdt_sender \<Rightarrow> nat \<times> nfs_rdt_sender" where
  "rdt_ack_loop ack_num newly s =
     (if rdt_base s < length (segments s) then
        let seg = segments s ! rdt_base s in
        if seg_seq seg < ack_num then
          rdt_ack_loop ack_num (if \<not> seg_acked seg then newly + 1 else newly)
            (s\<lparr> segments := (segments s)[rdt_base s := seg\<lparr> seg_acked := True \<rparr>],
               rdt_base := rdt_base s + 1 \<rparr>)
        else (newly, s)
      else (newly, s))"
  by pat_completeness auto
termination
  by (relation "measure (\<lambda>(a, n, s). length (segments s) - rdt_base s)") auto

declare rdt_ack_loop.simps [simp del]

definition nfs_rdt_ack :: "nfs_rdt_sender \<Rightarrow> u32 \<Rightarrow> nat \<times> nfs_rdt_sender" where
  "nfs_rdt_ack s ack_num = rdt_ack_loop ack_num 0 s"

text \<open>The end of the window, as the loop of the timeout handler computes it.\<close>

definition rdt_window_end :: "nfs_rdt_sender \<Rightarrow> nat" where
  "rdt_window_end s =
     (let e = of_nat (rdt_base s) + window_size s in
      if e > of_nat (length (segments s)) then length (segments s) else unat e)"

definition rdt_unacked :: "nfs_rdt_sender \<Rightarrow> nfs_rdt_segment list" where
  "rdt_unacked s =
     filter (\<lambda>g. \<not> seg_acked g) (map ((!) (segments s)) [rdt_base s..<rdt_window_end s])"

definition nfs_rdt_timeout :: "nfs_rdt_sender \<Rightarrow> nat \<times> nfs_rdt_sender" where
  "nfs_rdt_timeout s =
     (let retransmitted = length (rdt_unacked s) in
      (retransmitted, s\<lparr> retransmit_count := retransmit_count s + of_nat retransmitted \<rparr>))"

definition nfs_rdt_in_flight :: "nfs_rdt_sender \<Rightarrow> nat" where
  "nfs_rdt_in_flight s = length (segments s) - rdt_base s"

definition nfs_rdt_receiver_init :: nfs_rdt_receiver where
  "nfs_rdt_receiver_init = \<lparr> expected_seq = 0, recv_buf = [] \<rparr>"

text \<open>Accepted or not, the acknowledgment stored through \<^verbatim>\<open>ack_out\<close>, the receiver.\<close>

definition nfs_rdt_receive :: "nfs_rdt_receiver \<Rightarrow> nfs_rdt_segment \<Rightarrow> bool \<times> u32 \<times> nfs_rdt_receiver" where
  "nfs_rdt_receive r seg =
     (if seg_seq seg = expected_seq r then
        let space = NFS_RDT_RECV_BUF - length (recv_buf r);
            to_copy = (if length (seg_data seg) < space then length (seg_data seg) else space);
            r' = r\<lparr> recv_buf := recv_buf r @ take to_copy (seg_data seg), expected_seq := expected_seq r + 1 \<rparr>
        in (True, expected_seq r', r')
      else (False, expected_seq r, r))"

text \<open>A receiver whose buffer is full acknowledges what it drops.\<close>

lemma full_buffer_acknowledges:
  assumes "length (recv_buf r) = NFS_RDT_RECV_BUF" and "seg_seq seg = expected_seq r"
  shows "nfs_rdt_receive r seg = (True, expected_seq r + 1, r\<lparr> expected_seq := expected_seq r + 1 \<rparr>)"
  using assms by (simp add: nfs_rdt_receive_def)

section \<open>The system with its network\<close>

text \<open>
  \<open>seg_net\<close> and \<open>ack_net\<close> hold what may still arrive, in any order and any number of times,
  until it is lost.
\<close>

record rdt_system =
  sender :: nfs_rdt_sender
  receiver :: nfs_rdt_receiver
  seg_net :: "nfs_rdt_segment set"
  ack_net :: "u32 set"

definition rdt_start :: "u32 \<Rightarrow> rdt_system" where
  "rdt_start w = \<lparr> sender = nfs_rdt_sender_init w, receiver = nfs_rdt_receiver_init,
     seg_net = {}, ack_net = {} \<rparr>"

inductive rdt_step :: "rdt_system \<Rightarrow> rdt_system \<Rightarrow> bool" where
  Send: "nfs_rdt_send (sender s) data = Some (n, snd') \<Longrightarrow>
    rdt_step s (s\<lparr> sender := snd', seg_net := insert (last (segments snd')) (seg_net s) \<rparr>)"
| Timeout: "nfs_rdt_timeout (sender s) = (n, snd') \<Longrightarrow>
    rdt_step s (s\<lparr> sender := snd', seg_net := set (rdt_unacked (sender s)) \<union> seg_net s \<rparr>)"
| Deliver: "seg \<in> seg_net s \<Longrightarrow> nfs_rdt_receive (receiver s) seg = (acc, ack, rcv') \<Longrightarrow>
    rdt_step s (s\<lparr> receiver := rcv', ack_net := insert ack (ack_net s) \<rparr>)"
| Ack: "ack \<in> ack_net s \<Longrightarrow> nfs_rdt_ack (sender s) ack = (n, snd') \<Longrightarrow>
    rdt_step s (s\<lparr> sender := snd' \<rparr>)"
| Lose: "segs \<subseteq> seg_net s \<Longrightarrow> acks \<subseteq> ack_net s \<Longrightarrow>
    rdt_step s (s\<lparr> seg_net := segs, ack_net := acks \<rparr>)"

inductive_cases rdt_step_cases: "rdt_step s s'"

inductive rdt_reach :: "rdt_system \<Rightarrow> rdt_system \<Rightarrow> bool" where
  here: "rdt_reach s s"
| onward: "rdt_reach s t \<Longrightarrow> rdt_step t u \<Longrightarrow> rdt_reach s u"

lemma rdt_reach_trans: "rdt_reach s t \<Longrightarrow> rdt_reach t u \<Longrightarrow> rdt_reach s u"
  by (rotate_tac, induction rule: rdt_reach.induct) (auto intro: rdt_reach.intros)

section \<open>The sender\<close>

definition sender_inv :: "nfs_rdt_sender \<Rightarrow> bool" where
  "sender_inv s \<longleftrightarrow> rdt_base s \<le> length (segments s) \<and> length (segments s) \<le> NFS_RDT_MAX_SEGS \<and>
     next_seq s = of_nat (length (segments s)) \<and> 0 < window_size s \<and>
     nfs_rdt_in_flight s \<le> unat (window_size s) \<and>
     (\<forall>i < length (segments s). seg_seq (segments s ! i) = of_nat i \<and> (seg_acked (segments s ! i) \<longleftrightarrow> i < rdt_base s))"

definition sender_data :: "nfs_rdt_sender \<Rightarrow> u8 list list" where
  "sender_data s = map seg_data (segments s)"

lemma seq_less_iff: "i \<le> 256 \<Longrightarrow> j \<le> 256 \<Longrightarrow> (of_nat i :: u32) < of_nat j \<longleftrightarrow> i < j"
  by (simp add: word_less_nat_alt unat_of_nat_u32)

lemma seq_eq_iff: "i \<le> 256 \<Longrightarrow> j \<le> 256 \<Longrightarrow> (of_nat i :: u32) = of_nat j \<longleftrightarrow> i = j"
  by (simp add: word_unat_eq_iff unat_of_nat_u32)

lemma sender_init_inv: "sender_inv (nfs_rdt_sender_init w)"
  by (simp add: sender_inv_def nfs_rdt_sender_init_def nfs_rdt_in_flight_def)

lemma send_inv:
  assumes "sender_inv s" and "nfs_rdt_send s data = Some (n, s')"
  shows "sender_inv s'" and "sender_data s' = sender_data s @ [data]" and "rdt_base s' = rdt_base s"
    and "window_size s' = window_size s"
    and "segments s' = segments s @ [\<lparr> seg_seq = of_nat (length (segments s)), seg_data = data, seg_acked = False \<rparr>]"
proof -
  let ?seg = "\<lparr> seg_seq = of_nat (length (segments s)), seg_data = data, seg_acked = False \<rparr>"
  have s': "s' = s\<lparr> segments := segments s @ [?seg], next_seq := next_seq s + 1 \<rparr>"
    and room: "of_nat (nfs_rdt_in_flight s) < window_size s" "length (segments s) < 256"
    using assms by (auto simp: nfs_rdt_send_def sender_inv_def Let_def nfs_rdt_in_flight_def
        NFS_RDT_MAX_SEGS_def split: if_splits)
  have "nfs_rdt_in_flight s < unat (window_size s)"
    using room assms(1) by (simp add: word_less_nat_alt unat_of_nat_u32 nfs_rdt_in_flight_def)
  then show "sender_inv s'"
    using assms(1) room(2) unfolding sender_inv_def s'
    by (auto simp: nth_append nfs_rdt_in_flight_def NFS_RDT_MAX_SEGS_def less_Suc_eq)
  show "sender_data s' = sender_data s @ [data]" "rdt_base s' = rdt_base s" "window_size s' = window_size s"
    "segments s' = segments s @ [?seg]"
    by (simp_all add: s' sender_data_def)
qed

lemma ack_loop_inv:
  assumes "sender_inv s" and "a \<le> length (segments s)"
  shows "let (n, s') = rdt_ack_loop (of_nat a) m s in
    sender_inv s' \<and> sender_data s' = sender_data s \<and> rdt_base s' = max (rdt_base s) a \<and>
    window_size s' = window_size s \<and> n = m + (a - rdt_base s)"
  using assms
proof (induction "of_nat a :: u32" m s rule: rdt_ack_loop.induct)
  case (1 m s)
  have small: "length (segments s) \<le> 256" using 1(2) by (simp add: sender_inv_def NFS_RDT_MAX_SEGS_def)
  show ?case
  proof (cases "rdt_base s < length (segments s) \<and> rdt_base s < a")
    case True
    let ?seg = "segments s ! rdt_base s"
    let ?s = "s\<lparr> segments := (segments s)[rdt_base s := ?seg\<lparr> seg_acked := True \<rparr>], rdt_base := rdt_base s + 1 \<rparr>"
    have seq: "seg_seq ?seg < of_nat a" "\<not> seg_acked ?seg"
      using True 1(2,3) small by (auto simp: sender_inv_def seq_less_iff)
    have "sender_inv ?s"
      using 1(2) True by (auto simp: sender_inv_def nfs_rdt_in_flight_def nth_list_update)
    then have "let (n, s') = rdt_ack_loop (of_nat a) (m + 1) ?s in
        sender_inv s' \<and> sender_data s' = sender_data ?s \<and> rdt_base s' = max (rdt_base ?s) a \<and>
        window_size s' = window_size ?s \<and> n = m + 1 + (a - rdt_base ?s)"
      using 1(1) [OF _ refl] 1(3) True seq by simp
    moreover have "sender_data ?s = sender_data s"
      using True by (simp add: sender_data_def map_update) (metis list_update_id nth_map)
    ultimately show ?thesis
      using True seq by (subst rdt_ack_loop.simps) (auto simp: Let_def)
  next
    case False
    then have "\<not> seg_seq (segments s ! rdt_base s) < of_nat a" if "rdt_base s < length (segments s)"
      using that 1(2,3) small by (auto simp: sender_inv_def seq_less_iff)
    then have "rdt_ack_loop (of_nat a) m s = (m, s)" by (subst rdt_ack_loop.simps) (simp add: Let_def)
    moreover have "a \<le> rdt_base s" using False 1(2,3) by (auto simp: sender_inv_def)
    ultimately show ?thesis using 1(2) by simp
  qed
qed

lemma window_end:
  assumes "sender_inv s" and "unat (window_size s) < 4294966784"
  shows "rdt_window_end s = length (segments s)"
    and "rdt_unacked s = drop (rdt_base s) (segments s)"
proof -
  have le: "rdt_base s \<le> length (segments s)" "length (segments s) \<le> 256"
    "length (segments s) \<le> rdt_base s + unat (window_size s)"
    using assms(1) by (auto simp: sender_inv_def NFS_RDT_MAX_SEGS_def nfs_rdt_in_flight_def)
  have "unat (of_nat (rdt_base s) + window_size s) = rdt_base s + unat (window_size s)"
    using le assms(2) by (simp add: unat_word_ariths unat_of_nat_u32)
  then show e: "rdt_window_end s = length (segments s)"
    using le by (simp add: rdt_window_end_def Let_def word_less_nat_alt unat_of_nat_u32)
  have "map ((!) (segments s)) [rdt_base s..<length (segments s)] = drop (rdt_base s) (segments s)"
    by (rule nth_equalityI) simp_all
  moreover have "\<forall>g \<in> set (drop (rdt_base s) (segments s)). \<not> seg_acked g"
    using assms(1) by (auto simp: sender_inv_def in_set_conv_nth)
  ultimately show "rdt_unacked s = drop (rdt_base s) (segments s)"
    by (simp add: rdt_unacked_def e)
qed

section \<open>The invariant of the system\<close>

text \<open>
  What the receiver has is a prefix of what was sent, what may still arrive are copies of
  sent segments, and nothing is acknowledged that the receiver does not have.
\<close>

definition rdt_inv :: "rdt_system \<Rightarrow> bool" where
  "rdt_inv s \<longleftrightarrow> sender_inv (sender s) \<and>
     (\<exists>e. expected_seq (receiver s) = of_nat e \<and> e \<le> length (segments (sender s)) \<and>
        rdt_base (sender s) \<le> e \<and>
        recv_buf (receiver s) = take NFS_RDT_RECV_BUF (concat (take e (sender_data (sender s)))) \<and>
        (\<forall>a \<in> ack_net s. \<exists>k \<le> e. a = of_nat k)) \<and>
     (\<forall>g \<in> seg_net s. \<exists>i < length (segments (sender s)).
        seg_seq g = of_nat i \<and> seg_data g = sender_data (sender s) ! i)"

lemma rdt_invI:
  assumes "sender_inv (sender s)" and "expected_seq (receiver s) = of_nat e"
    and "e \<le> length (segments (sender s))" and "rdt_base (sender s) \<le> e"
    and "recv_buf (receiver s) = take NFS_RDT_RECV_BUF (concat (take e (sender_data (sender s))))"
    and "\<And>a. a \<in> ack_net s \<Longrightarrow> \<exists>k \<le> e. a = of_nat k"
    and "\<And>g. g \<in> seg_net s \<Longrightarrow> \<exists>i < length (segments (sender s)).
        seg_seq g = of_nat i \<and> seg_data g = sender_data (sender s) ! i"
  shows "rdt_inv s"
  using assms unfolding rdt_inv_def by blast

lemma rdt_start_inv: "rdt_inv (rdt_start w)"
  by (rule rdt_invI [of _ 0])
    (simp_all add: rdt_start_def sender_init_inv nfs_rdt_receiver_init_def, simp add: nfs_rdt_sender_init_def)

lemma length_sender_data [simp]: "length (sender_data s) = length (segments s)"
  by (simp add: sender_data_def)

lemma receive_in_order:
  assumes "recv_buf r = take NFS_RDT_RECV_BUF (concat (take e ds))" and "e < length ds"
    and "seg_seq g = expected_seq r" and "seg_data g = ds ! e"
  shows "nfs_rdt_receive r g = (True, expected_seq r + 1,
    \<lparr> expected_seq = expected_seq r + 1, recv_buf = take NFS_RDT_RECV_BUF (concat (take (Suc e) ds)) \<rparr>)"
proof -
  have "recv_buf r @ take (NFS_RDT_RECV_BUF - length (recv_buf r)) (seg_data g) =
      take NFS_RDT_RECV_BUF (concat (take (Suc e) ds))"
    using assms by (simp add: take_Suc_conv_app_nth min_def)
  moreover have "take (if length xs < n then length xs else n) xs = take n xs" for n and xs :: "u8 list"
    by simp
  ultimately show ?thesis
    using assms(3) by (simp add: nfs_rdt_receive_def Let_def)
qed

lemma rdt_step_inv:
  assumes "rdt_step s s'" and "rdt_inv s"
  shows "rdt_inv s'"
proof -
  obtain e where inv: "sender_inv (sender s)" "expected_seq (receiver s) = of_nat e"
      "e \<le> length (segments (sender s))" "rdt_base (sender s) \<le> e"
      "recv_buf (receiver s) = take NFS_RDT_RECV_BUF (concat (take e (sender_data (sender s))))"
      "\<And>a. a \<in> ack_net s \<Longrightarrow> \<exists>k \<le> e. a = of_nat k"
      "\<And>g. g \<in> seg_net s \<Longrightarrow> \<exists>i < length (segments (sender s)).
        seg_seq g = of_nat i \<and> seg_data g = sender_data (sender s) ! i"
    using assms(2) unfolding rdt_inv_def by blast
  have small: "length (segments (sender s)) \<le> 256"
    using inv(1) by (simp add: sender_inv_def NFS_RDT_MAX_SEGS_def)
  show ?thesis
    using assms(1)
  proof cases
    case (Send data n snd')
    note snd' = send_inv [OF inv(1) Send(2)]
    have net: "\<exists>i < length (segments snd'). seg_seq g = of_nat i \<and> seg_data g = sender_data snd' ! i"
      if "g \<in> insert (last (segments snd')) (seg_net s)" for g
    proof (cases "g \<in> seg_net s")
      case True
      then show ?thesis using inv(7) [OF True] snd'(2,5) by (auto simp: nth_append)
    next
      case False
      then have "g = last (segments snd')" using that by simp
      then show ?thesis using snd'(2,5)
        by (intro exI [of _ "length (segments (sender s))"]) (simp add: nth_append)
    qed
    show ?thesis
      using inv snd' net unfolding Send(1) by (intro rdt_invI [of _ e]) simp_all
  next
    case (Timeout n snd')
    then have "snd' = (sender s)\<lparr> retransmit_count := retransmit_count (sender s) + of_nat n \<rparr>"
      by (auto simp: nfs_rdt_timeout_def Let_def)
    then have snd': "sender_inv snd'" "segments snd' = segments (sender s)" "rdt_base snd' = rdt_base (sender s)"
        "sender_data snd' = sender_data (sender s)"
      using inv(1) by (simp_all add: sender_inv_def nfs_rdt_in_flight_def sender_data_def)
    have net: "\<exists>i < length (segments (sender s)). seg_seq g = of_nat i \<and> seg_data g = sender_data (sender s) ! i"
      if g: "g \<in> set (rdt_unacked (sender s)) \<union> seg_net s" for g
    proof (cases "g \<in> seg_net s")
      case False
      have "rdt_window_end (sender s) \<le> length (segments (sender s))"
        using small by (auto simp: rdt_window_end_def Let_def word_less_nat_alt unat_of_nat_u32)
      moreover obtain i where "i < rdt_window_end (sender s)" "g = segments (sender s) ! i"
        using False g by (auto simp: rdt_unacked_def)
      ultimately have "i < length (segments (sender s))" "g = segments (sender s) ! i" by simp_all
      then show ?thesis using inv(1) by (auto simp: sender_inv_def sender_data_def)
    qed (use inv(7) in blast)
    show ?thesis
      using inv snd' net unfolding Timeout(1) by (intro rdt_invI [of _ e]) simp_all
  next
    case (Deliver g acc ack rcv')
    obtain i where i: "i < length (segments (sender s))" "seg_seq g = of_nat i"
        "seg_data g = sender_data (sender s) ! i"
      using inv(7) [OF Deliver(2)] by blast
    show ?thesis
    proof (cases "seg_seq g = expected_seq (receiver s)")
      case True
      then have e: "i = e" using i inv(2,3) small by (simp add: seq_eq_iff)
      have r: "nfs_rdt_receive (receiver s) g = (True, of_nat (Suc e), \<lparr> expected_seq = of_nat (Suc e),
          recv_buf = take NFS_RDT_RECV_BUF (concat (take (Suc e) (sender_data (sender s)))) \<rparr>)"
        using receive_in_order [OF inv(5)] i True inv(2) unfolding e by simp
      have acks: "\<exists>k \<le> Suc e. a = of_nat k" if "a \<in> insert ack (ack_net s)" for a
        using that inv(6) [of a] r Deliver(3) by (metis Pair_inject insert_iff le_SucI order_refl)
      show ?thesis
        using inv(1,3,4,7) i(1) e r Deliver(3) acks unfolding Deliver(1)
        by (intro rdt_invI [of _ "Suc e"]) auto
    next
      case False
      then have "rcv' = receiver s" "ack = of_nat e"
        using Deliver(3) inv(2) by (simp_all add: nfs_rdt_receive_def)
      then show ?thesis
        using inv unfolding Deliver(1) by (intro rdt_invI [of _ e]) auto
    qed
  next
    case (Ack ack n snd')
    obtain k where k: "k \<le> e" "ack = of_nat k" using inv(6) [OF Ack(2)] by blast
    have "sender_inv snd' \<and> sender_data snd' = sender_data (sender s) \<and> rdt_base snd' = max (rdt_base (sender s)) k"
      using ack_loop_inv [OF inv(1), of k 0] k inv(3) Ack(3) by (simp add: nfs_rdt_ack_def)
    moreover have "length (segments snd') = length (segments (sender s))"
      using calculation length_sender_data by metis
    ultimately show ?thesis
      using inv k unfolding Ack(1) by (intro rdt_invI [of _ e]) simp_all
  next
    case (Lose segs acks)
    then show ?thesis
      using inv by (intro rdt_invI [of _ e]) auto
  qed
qed

lemma rdt_reach_inv: "rdt_reach s t \<Longrightarrow> rdt_inv s \<Longrightarrow> rdt_inv t"
  by (induction rule: rdt_reach.induct) (auto intro: rdt_step_inv)

text \<open>
  C1. Safety of Go-Back-N end to end: whatever the network loses, duplicates or reorders, the
  receiver's buffer always holds the data of the first segments the sender accepted, in order,
  each exactly once and with nothing else (up to the size of the buffer), the sender
  never considers a segment acknowledged that the receiver has not taken, and no more
  segments than the window are in flight.
\<close>
theorem rdt_delivers_prefix:
  assumes "rdt_reach (rdt_start w) s"
  shows "\<exists>e. rdt_base (sender s) \<le> e \<and> e \<le> length (segments (sender s)) \<and>
    expected_seq (receiver s) = of_nat e \<and>
    recv_buf (receiver s) = take NFS_RDT_RECV_BUF (concat (take e (map seg_data (segments (sender s))))) \<and>
    nfs_rdt_in_flight (sender s) \<le> unat (window_size (sender s))"
proof -
  have "rdt_inv s" using assms rdt_start_inv by (rule rdt_reach_inv)
  then show ?thesis unfolding rdt_inv_def sender_inv_def sender_data_def by blast
qed

lemma rdt_delivers_prefix_witness:
  "\<exists>s. rdt_reach (rdt_start 1) s \<and> segments (sender s) \<noteq> [] \<and>
    (\<exists>e. recv_buf (receiver s) = take NFS_RDT_RECV_BUF (concat (take e (map seg_data (segments (sender s))))))"
proof -
  let ?s = "rdt_start 1"
  obtain n snd' where s: "nfs_rdt_send (sender ?s) [7] = Some (n, snd')"
    by (simp add: rdt_start_def nfs_rdt_sender_init_def nfs_rdt_send_def NFS_RDT_MAX_DATA_def
        NFS_RDT_MAX_SEGS_def Let_def)
  then have "segments snd' \<noteq> []" by (auto simp: nfs_rdt_send_def Let_def split: if_splits)
  moreover from s have "rdt_reach ?s (?s\<lparr> sender := snd', seg_net := insert (last (segments snd')) (seg_net ?s) \<rparr>)"
    by (blast intro: rdt_reach.intros rdt_step.intros)
  ultimately show ?thesis
    using rdt_delivers_prefix [of 1] by fastforce
qed

section \<open>No state is a dead end\<close>

text \<open>
  After a timeout all unacknowledged segments are on the way again; delivering them in order
  brings the receiver up to date.
\<close>

lemma deliver_all:
  assumes "rdt_inv s" and "expected_seq (receiver s) = of_nat e"
    and "k = length (segments (sender s)) - e" and "e \<le> length (segments (sender s))"
    and "set (drop e (segments (sender s))) \<subseteq> seg_net s"
  shows "\<exists>t. rdt_reach s t \<and> sender t = sender s \<and>
    expected_seq (receiver t) = of_nat (length (segments (sender s))) \<and> seg_net t = seg_net s"
  using assms
proof (induction k arbitrary: s e)
  case 0
  then show ?case by (intro exI [of _ s]) (auto intro: rdt_reach.intros)
next
  case (Suc k)
  let ?g = "segments (sender s) ! e"
  have e: "e < length (segments (sender s))" using Suc.prems(3) by simp
  have seq: "seg_seq ?g = of_nat e" using Suc.prems(1) e by (simp add: rdt_inv_def sender_inv_def)
  have "?g \<in> set (drop e (segments (sender s)))"
    using e by (metis drop_nth_Cons list.set_intros(1))
  then have net: "?g \<in> seg_net s" using Suc.prems(5) by blast
  obtain rcv where r: "nfs_rdt_receive (receiver s) ?g = (True, of_nat (Suc e), rcv)" "expected_seq rcv = of_nat (Suc e)"
    using seq Suc.prems(2) by (simp add: nfs_rdt_receive_def Let_def)
  let ?u = "s\<lparr> receiver := rcv, ack_net := insert (of_nat (Suc e)) (ack_net s) \<rparr>"
  have step: "rdt_step s ?u" using net r(1) by (rule rdt_step.Deliver)
  have u: "rdt_inv ?u" using step Suc.prems(1) by (rule rdt_step_inv)
  have sub: "set (drop (Suc e) (segments (sender ?u))) \<subseteq> seg_net ?u"
    using Suc.prems(5) set_drop_subset_set_drop [of e "Suc e" "segments (sender s)"] by auto
  have rest: "k = length (segments (sender ?u)) - Suc e" "Suc e \<le> length (segments (sender ?u))"
    using Suc.prems(3) e by simp_all
  obtain t where t: "rdt_reach ?u t" "sender t = sender s"
      "expected_seq (receiver t) = of_nat (length (segments (sender s)))"
      "seg_net t = seg_net s"
    using Suc.IH [OF u _ rest sub] r(2) by auto
  have su: "rdt_reach s t"
    using rdt_reach_trans [OF rdt_reach.onward [OF rdt_reach.here step] t(1)] .
  with t show ?case by blast
qed

lemma rdt_complete_buffer:
  assumes "rdt_inv s" and "expected_seq (receiver s) = of_nat (length (sender_data (sender s)))"
  shows "recv_buf (receiver s) = take NFS_RDT_RECV_BUF (concat (sender_data (sender s)))"
proof -
  obtain e where e: "expected_seq (receiver s) = of_nat e" "e \<le> length (segments (sender s))"
      "recv_buf (receiver s) = take NFS_RDT_RECV_BUF (concat (take e (sender_data (sender s))))"
      "length (segments (sender s)) \<le> 256"
    using assms(1) unfolding rdt_inv_def sender_inv_def NFS_RDT_MAX_SEGS_def by blast
  then have "e = length (segments (sender s))"
    using assms(2) seq_eq_iff [of e "length (segments (sender s))"] by simp
  with e(3) show ?thesis by simp
qed

text \<open>
  C13. Progress of Go-Back-N: from every reachable state the network can behave so that the sender has
  nothing outstanding any more (one timeout, the retransmitted segments delivered in order, the last
  acknowledgment returned), and then the receiver holds what the sender accepted, as far as its
  buffer of 65536 bytes reaches: segments that no longer fit are acknowledged all the same, and
  their bytes are lost. The window must be below \<open>2 ^ 32 - 512\<close>, so that \<^verbatim>\<open>base + window_size\<close> does
  not wrap.
\<close>
theorem rdt_can_complete:
  assumes "rdt_reach (rdt_start w) s" and "unat (window_size (sender s)) < 4294966784"
  shows "\<exists>t. rdt_reach s t \<and> map seg_data (segments (sender t)) = map seg_data (segments (sender s)) \<and>
    nfs_rdt_in_flight (sender t) = 0 \<and>
    recv_buf (receiver t) = take NFS_RDT_RECV_BUF (concat (map seg_data (segments (sender s))))"
proof -
  have inv: "rdt_inv s" using assms(1) rdt_start_inv by (rule rdt_reach_inv)
  then obtain e where e: "sender_inv (sender s)" "expected_seq (receiver s) = of_nat e"
      "e \<le> length (segments (sender s))" "rdt_base (sender s) \<le> e"
    unfolding rdt_inv_def by blast
  let ?n = "length (segments (sender s))"
  obtain m snd' where to: "nfs_rdt_timeout (sender s) = (m, snd')" by fastforce
  let ?u = "s\<lparr> sender := snd', seg_net := set (rdt_unacked (sender s)) \<union> seg_net s \<rparr>"
  have step: "rdt_step s ?u" using to by (rule rdt_step.Timeout)
  have segs: "segments snd' = segments (sender s)" "rdt_base snd' = rdt_base (sender s)"
    using to by (auto simp: nfs_rdt_timeout_def Let_def)
  have inv_u: "rdt_inv ?u" using step inv by (rule rdt_step_inv)
  have sub: "set (drop e (segments (sender ?u))) \<subseteq> seg_net ?u"
    using window_end(2) [OF e(1) assms(2)] set_drop_subset_set_drop [OF e(4), of "segments (sender s)"] segs by auto
  obtain t where t: "rdt_reach ?u t" "sender t = snd'" "expected_seq (receiver t) = of_nat ?n"
      "seg_net t = seg_net ?u"
    using deliver_all [OF inv_u, of e] e(2,3) sub segs(1) by auto
  have su: "rdt_reach s t"
    using rdt_reach_trans [OF rdt_reach.onward [OF rdt_reach.here step] t(1)] .
  have inv_t: "rdt_inv t" using su inv by (rule rdt_reach_inv)
  have buf: "recv_buf (receiver v) = take NFS_RDT_RECV_BUF (concat (map seg_data (segments (sender s))))"
    if v: "rdt_inv v" "sender_data (sender v) = sender_data (sender s)" "expected_seq (receiver v) = of_nat ?n" for v
    using v rdt_complete_buffer [OF v(1)] by (metis length_sender_data sender_data_def)
  show ?thesis
  proof (cases "rdt_base (sender s) = ?n")
    case True
    then show ?thesis
      using su t(2,3) segs buf [OF inv_t] by (intro exI [of _ t]) (simp add: nfs_rdt_in_flight_def sender_data_def)
  next
    case False
    then have base: "rdt_base (sender s) < ?n" using e(3,4) by simp
    let ?g = "segments (sender s) ! (?n - 1)"
    have seq: "seg_seq ?g = of_nat (?n - 1)" using base e(1) by (simp add: sender_inv_def)
    have small: "?n \<le> 256" using e(1) by (simp add: sender_inv_def NFS_RDT_MAX_SEGS_def)
    have "?g \<in> set (drop (rdt_base (sender s)) (segments (sender s)))"
      using base by (auto simp: in_set_conv_nth intro!: exI [of _ "?n - 1 - rdt_base (sender s)"])
    then have net: "?g \<in> seg_net t"
      using t(4) window_end(2) [OF e(1) assms(2)] by auto
    have "nfs_rdt_receive (receiver t) ?g = (False, of_nat ?n, receiver t)"
      using seq t(3) base small seq_eq_iff [of "?n - 1" ?n] by (simp add: nfs_rdt_receive_def)
    then have s1: "rdt_step t (t\<lparr> receiver := receiver t, ack_net := insert (of_nat ?n) (ack_net t) \<rparr>)"
      using net by (intro rdt_step.Deliver)
    let ?v = "t\<lparr> receiver := receiver t, ack_net := insert (of_nat ?n) (ack_net t) \<rparr>"
    obtain k snd2 where a: "nfs_rdt_ack snd' (of_nat ?n) = (k, snd2)" by fastforce
    have s2: "rdt_step ?v (?v\<lparr> sender := snd2 \<rparr>)"
      using a t(2) by (intro rdt_step.Ack) auto
    let ?w = "?v\<lparr> sender := snd2 \<rparr>"
    have sw: "rdt_reach s ?w" using su s1 s2 by (blast intro: rdt_reach.onward)
    then have inv_w: "rdt_inv ?w" using inv by (rule rdt_reach_inv)
    have "sender_inv snd'" using inv_u by (simp add: rdt_inv_def)
    then have snd2: "sender_data snd2 = sender_data (sender s)" "rdt_base snd2 = max (rdt_base (sender s)) ?n"
      using ack_loop_inv [of snd' ?n 0] a segs by (simp_all add: nfs_rdt_ack_def sender_data_def)
    then have "length (segments snd2) = ?n" by (metis length_sender_data)
    then show ?thesis
      using sw snd2 base buf [OF inv_w] t(3)
      by (intro exI [of _ ?w]) (simp add: nfs_rdt_in_flight_def sender_data_def)
  qed
qed

lemma rdt_can_complete_witness:
  "\<exists>s t. rdt_reach (rdt_start 1) s \<and> segments (sender s) \<noteq> [] \<and> rdt_reach s t \<and>
    nfs_rdt_in_flight (sender t) = 0 \<and>
    recv_buf (receiver t) = take NFS_RDT_RECV_BUF (concat (map seg_data (segments (sender s))))"
proof -
  let ?s = "rdt_start 1"
  obtain n snd' where s: "nfs_rdt_send (sender ?s) [7] = Some (n, snd')"
    by (simp add: rdt_start_def nfs_rdt_sender_init_def nfs_rdt_send_def NFS_RDT_MAX_DATA_def
        NFS_RDT_MAX_SEGS_def Let_def)
  then have snd': "segments snd' \<noteq> []" "window_size snd' = 1"
    by (auto simp: nfs_rdt_send_def rdt_start_def nfs_rdt_sender_init_def Let_def split: if_splits)
  let ?u = "?s\<lparr> sender := snd', seg_net := insert (last (segments snd')) (seg_net ?s) \<rparr>"
  have r: "rdt_reach ?s ?u" using s by (blast intro: rdt_reach.intros rdt_step.intros)
  then have "\<exists>t. rdt_reach ?u t \<and> nfs_rdt_in_flight (sender t) = 0 \<and>
      recv_buf (receiver t) = take NFS_RDT_RECV_BUF (concat (map seg_data (segments (sender ?u))))"
    using rdt_can_complete [OF r] snd' by auto
  then obtain t where "rdt_reach ?u t" "nfs_rdt_in_flight (sender t) = 0"
      "recv_buf (receiver t) = take NFS_RDT_RECV_BUF (concat (map seg_data (segments (sender ?u))))" by blast
  with r snd' show ?thesis by (intro exI [of _ ?u] exI [of _ t]) simp
qed

end
