(* ===== verification/RetxQueue.thy ===== *)
theory RetxQueue
  imports Interfaces Complex_Main
begin

text \<open>
  The retransmission queue (\<^verbatim>\<open>phases/04-transport/18-retransmission-queue/retx_queue.c\<close>). The live
  prefix of the segment array is a list. Times are C doubles in the code and real numbers
  here, so rounding is not modelled. The NULL checks have no counterpart.
\<close>

section \<open>Definitions\<close>

definition NFS_RETX_MSS :: nat where "NFS_RETX_MSS = 1460"

record nfs_retx_seg =
  retx_seq :: u32
  retx_data :: "u8 list"
  send_time :: real
  retx_count :: int

record nfs_retx_queue =
  retx_segments :: "nfs_retx_seg list"
  retx_capacity :: nat

definition nfs_retx_queue_init :: "nat \<Rightarrow> nfs_retx_queue" where
  "nfs_retx_queue_init cap = \<lparr> retx_segments = [], retx_capacity = cap \<rparr>"

definition nfs_retx_queue_push :: "nfs_retx_queue \<Rightarrow> u32 \<Rightarrow> u8 list \<Rightarrow> real \<Rightarrow> nfs_retx_queue option" where
  "nfs_retx_queue_push q s data now =
     (if length (retx_segments q) \<ge> retx_capacity q then None
      else if length data > NFS_RETX_MSS then None
      else Some (q\<lparr> retx_segments := retx_segments q @
             [\<lparr> retx_seq = s, retx_data = data, send_time = now, retx_count = 0 \<rparr>] \<rparr>))"

text \<open>
  The compaction loop of the acknowledgment: \<open>rd\<close> and \<open>wr\<close> are the indices \<^verbatim>\<open>read\<close> and
  \<^verbatim>\<open>write\<close> into the array, and the result is the array, the new count and the number removed.
\<close>

function compact :: "u32 \<Rightarrow> nfs_retx_seg list \<Rightarrow> nat \<Rightarrow> nat \<Rightarrow> nat \<Rightarrow> nfs_retx_seg list \<times> nat \<times> nat" where
  "compact ack_num segs rd wr removed =
     (if rd < length segs then
        if retx_seq (segs ! rd) < ack_num then compact ack_num segs (rd + 1) wr (removed + 1)
        else compact ack_num (if wr \<noteq> rd then segs[wr := segs ! rd] else segs) (rd + 1) (wr + 1) removed
      else (segs, wr, removed))"
  by pat_completeness auto
termination
  by (relation "measure (\<lambda>(a, segs, rd, wr, n). length segs - rd)") auto

declare compact.simps [simp del]

definition nfs_retx_queue_ack :: "nfs_retx_queue \<Rightarrow> u32 \<Rightarrow> nat \<times> nfs_retx_queue" where
  "nfs_retx_queue_ack q ack_num =
     (let (segs, wr, removed) = compact ack_num (retx_segments q) 0 0 0
      in (removed, q\<lparr> retx_segments := take wr segs \<rparr>))"

definition nfs_retx_queue_find :: "nfs_retx_queue \<Rightarrow> u32 \<Rightarrow> nfs_retx_seg option" where
  "nfs_retx_queue_find q s = List.find (\<lambda>g. retx_seq g = s) (retx_segments q)"

fun timeout_run :: "real \<Rightarrow> real \<Rightarrow> nfs_retx_seg list \<Rightarrow> nat \<times> nfs_retx_seg list" where
  "timeout_run now rto [] = (0, [])"
| "timeout_run now rto (g # gs) =
     (let (n, gs') = timeout_run now rto gs in
      if now - send_time g \<ge> rto
      then (n + 1, g\<lparr> retx_count := retx_count g + 1, send_time := now \<rparr> # gs')
      else (n, g # gs'))"

definition nfs_retx_queue_timeout :: "nfs_retx_queue \<Rightarrow> real \<Rightarrow> real \<Rightarrow> nat \<times> nfs_retx_queue" where
  "nfs_retx_queue_timeout q now rto =
     (let (n, gs) = timeout_run now rto (retx_segments q) in (n, q\<lparr> retx_segments := gs \<rparr>))"

definition nfs_retx_queue_size :: "nfs_retx_queue \<Rightarrow> nat" where
  "nfs_retx_queue_size q = length (retx_segments q)"

definition nfs_retx_queue_empty :: "nfs_retx_queue \<Rightarrow> bool" where
  "nfs_retx_queue_empty q \<longleftrightarrow> length (retx_segments q) = 0"

section \<open>Compaction is filtering\<close>

abbreviation retx_keep :: "u32 \<Rightarrow> nfs_retx_seg \<Rightarrow> bool" where
  "retx_keep a g \<equiv> \<not> retx_seq g < a"

lemma compact_correct:
  assumes "wr \<le> rd" and "rd \<le> length segs"
  shows "compact a segs rd wr n = (segs', wr', n') \<Longrightarrow>
    take wr' segs' = take wr segs @ filter (retx_keep a) (drop rd segs) \<and>
    wr' = wr + length (filter (retx_keep a) (drop rd segs)) \<and>
    n' + length (filter (retx_keep a) (drop rd segs)) = n + (length segs - rd) \<and> length segs' = length segs"
  using assms
proof (induction a segs rd wr n arbitrary: segs' wr' n' rule: compact.induct)
  case (1 a segs rd wr n)
  show ?case
  proof (cases "rd < length segs")
    case False
    with 1(3-5) show ?thesis by (simp add: compact.simps)
  next
    case True
    note d = drop_nth_Cons [OF True]
    show ?thesis
    proof (cases "retx_seq (segs ! rd) < a")
      case rm: True
      have "compact a segs (rd + 1) wr (n + 1) = (segs', wr', n')"
        using 1(3) True rm by (subst (asm) compact.simps) simp
      from 1(1) [OF True rm this] show ?thesis using 1(4) True rm by (auto simp: d)
    next
      case keep: False
      define segs2 where "segs2 = (if wr \<noteq> rd then segs[wr := segs ! rd] else segs)"
      have c: "compact a segs2 (rd + 1) (wr + 1) n = (segs', wr', n')"
        using 1(3) True keep unfolding segs2_def by (subst (asm) compact.simps) simp
      have len: "length segs2 = length segs" by (simp add: segs2_def)
      then have pre: "wr + 1 \<le> rd + 1" "rd + 1 \<le> length segs2" using 1(4) True by simp_all
      note * = 1(2) [OF True keep, folded segs2_def, OF c pre]
      have "take (wr + 1) segs2 = take wr segs @ [segs ! rd]"
        using 1(4) True by (simp add: segs2_def take_Suc_conv_app_nth)
      moreover have "drop (rd + 1) segs2 = drop (Suc rd) segs" using 1(4) by (simp add: segs2_def)
      ultimately show ?thesis using * len True keep by (auto simp: d)
    qed
  qed
qed

lemma ack_filter:
  "nfs_retx_queue_ack q a =
     (length (filter (\<lambda>g. retx_seq g < a) (retx_segments q)),
      q\<lparr> retx_segments := filter (retx_keep a) (retx_segments q) \<rparr>)"
proof -
  obtain segs wr n where c: "compact a (retx_segments q) 0 0 0 = (segs, wr, n)"
    by (metis prod_cases3)
  have "n + length (filter (retx_keep a) (retx_segments q)) = length (retx_segments q)"
    using compact_correct [OF _ _ c] by simp
  then have "n = length (filter (\<lambda>g. retx_seq g < a) (retx_segments q))"
    using sum_length_filter_compl [of "\<lambda>g. retx_seq g < a" "retx_segments q"] by linarith
  then show ?thesis
    using compact_correct [OF _ _ c] by (auto simp: nfs_retx_queue_ack_def c)
qed

text \<open>
  A cumulative acknowledgment: the in-place compaction removes exactly the segments that start
  before the acknowledged number, keeps the others in their order with their counters, and
  returns how many it removed.
\<close>
theorem retx_queue_ack_correct:
  "let (removed, q') = nfs_retx_queue_ack q ack_num in
    retx_segments q' = filter (\<lambda>g. ack_num \<le> retx_seq g) (retx_segments q) \<and>
    removed + nfs_retx_queue_size q' = nfs_retx_queue_size q \<and> retx_capacity q' = retx_capacity q"
  using sum_length_filter_compl [of "\<lambda>g. retx_seq g < ack_num" "retx_segments q"]
  by (simp add: ack_filter nfs_retx_queue_size_def not_less)

section \<open>Timeouts\<close>

text \<open>
  A timeout scan restarts exactly the segments that have waited at least \<open>rto\<close> and counts
  each once: their retransmission count grows by one, their send time becomes \<open>now\<close>, data
  and order are untouched; scanning again at the same time finds none if \<open>rto\<close> is positive.
\<close>
theorem retx_queue_timeout_correct:
  "let (n, q') = nfs_retx_queue_timeout q now rto in
    retx_segments q' = map (\<lambda>g. if now - send_time g \<ge> rto
        then g\<lparr> retx_count := retx_count g + 1, send_time := now \<rparr> else g) (retx_segments q) \<and>
    n = length (filter (\<lambda>g. now - send_time g \<ge> rto) (retx_segments q)) \<and>
    (0 < rto \<longrightarrow> nfs_retx_queue_timeout q' now rto = (0, q'))"
proof -
  have run: "timeout_run now rto gs = (length (filter (\<lambda>g. now - send_time g \<ge> rto) gs),
      map (\<lambda>g. if now - send_time g \<ge> rto
        then g\<lparr> retx_count := retx_count g + 1, send_time := now \<rparr> else g) gs)" for gs
    by (induction gs) (auto simp: Let_def)
  let ?f = "\<lambda>g. if now - send_time g \<ge> rto
        then g\<lparr> retx_count := retx_count g + 1, send_time := now \<rparr> else g"
  have none: "timeout_run now rto (map ?f gs) = (0, map ?f gs)" if "0 < rto" for gs
    using that by (induction gs) (auto simp: Let_def)
  show ?thesis
    by (simp add: nfs_retx_queue_timeout_def run [of "retx_segments q"] none Let_def)
qed

lemma retx_queue_timeout_correct_witness:
  "nfs_retx_queue_timeout
     \<lparr> retx_segments = [\<lparr> retx_seq = 1, retx_data = [], send_time = 5, retx_count = 1 \<rparr>], retx_capacity = 4 \<rparr> 5 1 =
     (0, \<lparr> retx_segments = [\<lparr> retx_seq = 1, retx_data = [], send_time = 5, retx_count = 1 \<rparr>], retx_capacity = 4 \<rparr>)"
  using retx_queue_timeout_correct [of
    "\<lparr> retx_segments = [\<lparr> retx_seq = 1, retx_data = [], send_time = 3, retx_count = 0 \<rparr>], retx_capacity = 4 \<rparr>" 5 1]
  by (simp add: nfs_retx_queue_timeout_def)

section \<open>Bounds\<close>

definition retx_inv :: "nfs_retx_queue \<Rightarrow> bool" where
  "retx_inv q \<longleftrightarrow> nfs_retx_queue_size q \<le> retx_capacity q \<and>
     (\<forall>g \<in> set (retx_segments q). length (retx_data g) \<le> NFS_RETX_MSS)"

datatype retx_event = RetxPush u32 "u8 list" real | RetxAck u32 | RetxTimeout real real

fun retx_step :: "nfs_retx_queue \<Rightarrow> retx_event \<Rightarrow> nfs_retx_queue" where
  "retx_step q (RetxPush s d t) = (case nfs_retx_queue_push q s d t of None \<Rightarrow> q | Some q' \<Rightarrow> q')"
| "retx_step q (RetxAck a) = snd (nfs_retx_queue_ack q a)"
| "retx_step q (RetxTimeout now rto) = snd (nfs_retx_queue_timeout q now rto)"

lemma timeout_run_bounds:
  "timeout_run now rto gs = (n, gs') \<Longrightarrow> map retx_data gs' = map retx_data gs"
  by (induction gs arbitrary: n gs') (auto simp: Let_def split: prod.splits if_splits)

interpretation retx: machine retx_step "\<lambda>q e. True" retx_inv
proof
  fix q e
  assume inv: "retx_inv q"
  show "retx_inv (retx_step q e)"
  proof (cases e)
    case (RetxPush s d t)
    then show ?thesis
      using inv by (auto simp: retx_inv_def nfs_retx_queue_push_def nfs_retx_queue_size_def)
  next
    case (RetxAck a)
    then show ?thesis
      using inv by (auto simp: retx_inv_def ack_filter nfs_retx_queue_size_def intro: order_trans [OF length_filter_le])
  next
    case (RetxTimeout now rto)
    obtain n gs where r: "timeout_run now rto (retx_segments q) = (n, gs)" by fastforce
    have m: "map retx_data gs = map retx_data (retx_segments q)" using r by (rule timeout_run_bounds)
    then have "length gs = length (retx_segments q)" by (metis length_map)
    moreover have "retx_data ` set gs = retx_data ` set (retx_segments q)" using m by (metis set_map)
    ultimately have "length gs \<le> retx_capacity q" "\<forall>d \<in> retx_data ` set gs. length d \<le> NFS_RETX_MSS"
      using inv by (simp_all add: retx_inv_def nfs_retx_queue_size_def)
    then show ?thesis
      by (simp add: RetxTimeout retx_inv_def nfs_retx_queue_timeout_def r nfs_retx_queue_size_def)
  qed
qed

lemma retx_bounded: "retx_inv (foldl retx_step (nfs_retx_queue_init cap) es)"
  by (rule retx.run_inv) (simp_all add: retx_inv_def nfs_retx_queue_init_def nfs_retx_queue_size_def)

text \<open>
  The test looks at the start of a segment only: an acknowledgment of its first byte removes a
  whole segment, although the rest of its data is not acknowledged.
\<close>

lemma partly_acked_segment_removed:
  "nfs_retx_queue_ack \<lparr> retx_segments = [\<lparr> retx_seq = 100, retx_data = [1, 2, 3], send_time = 0, retx_count = 0 \<rparr>],
       retx_capacity = 4 \<rparr> 101 = (1, \<lparr> retx_segments = [], retx_capacity = 4 \<rparr>)"
  by (simp add: ack_filter)

end
