(* ===== verification/TcpFsm.thy ===== *)
theory TcpFsm
  imports Interfaces
begin

text \<open>
  The TCP state machine (\<^verbatim>\<open>phases/04-transport/10-the-tcp-state-machine-11-states/tcp_fsm.c\<close>):
  its transition table, the handler that runs it, and two such machines that talk to each
  other. States, events and actions are datatypes with the constants of the code, so the range
  checks of the handler and of the name functions have no counterpart.
\<close>

section \<open>Definitions\<close>

datatype nfs_tcp_state =
    NFS_TCP_CLOSED
  | NFS_TCP_LISTEN
  | NFS_TCP_SYN_SENT
  | NFS_TCP_SYN_RCVD
  | NFS_TCP_ESTABLISHED
  | NFS_TCP_FIN_WAIT_1
  | NFS_TCP_FIN_WAIT_2
  | NFS_TCP_CLOSE_WAIT
  | NFS_TCP_CLOSING
  | NFS_TCP_LAST_ACK
  | NFS_TCP_TIME_WAIT

datatype nfs_tcp_event =
    NFS_TCP_EV_OPEN_PASSIVE
  | NFS_TCP_EV_OPEN_ACTIVE
  | NFS_TCP_EV_CLOSE
  | NFS_TCP_EV_RECV_SYN
  | NFS_TCP_EV_RECV_SYNACK
  | NFS_TCP_EV_RECV_ACK
  | NFS_TCP_EV_RECV_FIN
  | NFS_TCP_EV_RECV_FINACK
  | NFS_TCP_EV_TIMEOUT

datatype nfs_tcp_action =
    NFS_TCP_ACT_NONE
  | NFS_TCP_ACT_SEND_SYN
  | NFS_TCP_ACT_SEND_SYNACK
  | NFS_TCP_ACT_SEND_ACK
  | NFS_TCP_ACT_SEND_FIN
  | NFS_TCP_ACT_SEND_FINACK
  | NFS_TCP_ACT_DELETE_TCB

text \<open>\<open>None\<close> is the \<^verbatim>\<open>INVALID\<close> entry.\<close>

definition fsm_table :: "nfs_tcp_state \<Rightarrow> nfs_tcp_event \<Rightarrow> (nfs_tcp_state \<times> nfs_tcp_action) option" where
  "fsm_table state event =
     (case state of
       NFS_TCP_CLOSED \<Rightarrow>
         (case event of
            NFS_TCP_EV_OPEN_PASSIVE \<Rightarrow> Some (NFS_TCP_LISTEN, NFS_TCP_ACT_NONE)
          | NFS_TCP_EV_OPEN_ACTIVE \<Rightarrow> Some (NFS_TCP_SYN_SENT, NFS_TCP_ACT_SEND_SYN)
          | _ \<Rightarrow> None)
     | NFS_TCP_LISTEN \<Rightarrow>
         (case event of
            NFS_TCP_EV_CLOSE \<Rightarrow> Some (NFS_TCP_CLOSED, NFS_TCP_ACT_DELETE_TCB)
          | NFS_TCP_EV_RECV_SYN \<Rightarrow> Some (NFS_TCP_SYN_RCVD, NFS_TCP_ACT_SEND_SYNACK)
          | _ \<Rightarrow> None)
     | NFS_TCP_SYN_SENT \<Rightarrow>
         (case event of
            NFS_TCP_EV_CLOSE \<Rightarrow> Some (NFS_TCP_CLOSED, NFS_TCP_ACT_DELETE_TCB)
          | NFS_TCP_EV_RECV_SYN \<Rightarrow> Some (NFS_TCP_SYN_RCVD, NFS_TCP_ACT_SEND_SYNACK)
          | NFS_TCP_EV_RECV_SYNACK \<Rightarrow> Some (NFS_TCP_ESTABLISHED, NFS_TCP_ACT_SEND_ACK)
          | _ \<Rightarrow> None)
     | NFS_TCP_SYN_RCVD \<Rightarrow>
         (case event of
            NFS_TCP_EV_CLOSE \<Rightarrow> Some (NFS_TCP_FIN_WAIT_1, NFS_TCP_ACT_SEND_FIN)
          | NFS_TCP_EV_RECV_ACK \<Rightarrow> Some (NFS_TCP_ESTABLISHED, NFS_TCP_ACT_NONE)
          | _ \<Rightarrow> None)
     | NFS_TCP_ESTABLISHED \<Rightarrow>
         (case event of
            NFS_TCP_EV_CLOSE \<Rightarrow> Some (NFS_TCP_FIN_WAIT_1, NFS_TCP_ACT_SEND_FIN)
          | NFS_TCP_EV_RECV_FIN \<Rightarrow> Some (NFS_TCP_CLOSE_WAIT, NFS_TCP_ACT_SEND_ACK)
          | _ \<Rightarrow> None)
     | NFS_TCP_FIN_WAIT_1 \<Rightarrow>
         (case event of
            NFS_TCP_EV_RECV_ACK \<Rightarrow> Some (NFS_TCP_FIN_WAIT_2, NFS_TCP_ACT_NONE)
          | NFS_TCP_EV_RECV_FIN \<Rightarrow> Some (NFS_TCP_CLOSING, NFS_TCP_ACT_SEND_ACK)
          | NFS_TCP_EV_RECV_FINACK \<Rightarrow> Some (NFS_TCP_TIME_WAIT, NFS_TCP_ACT_SEND_ACK)
          | _ \<Rightarrow> None)
     | NFS_TCP_FIN_WAIT_2 \<Rightarrow>
         (case event of
            NFS_TCP_EV_RECV_FIN \<Rightarrow> Some (NFS_TCP_TIME_WAIT, NFS_TCP_ACT_SEND_ACK)
          | _ \<Rightarrow> None)
     | NFS_TCP_CLOSE_WAIT \<Rightarrow>
         (case event of
            NFS_TCP_EV_CLOSE \<Rightarrow> Some (NFS_TCP_LAST_ACK, NFS_TCP_ACT_SEND_FIN)
          | _ \<Rightarrow> None)
     | NFS_TCP_CLOSING \<Rightarrow>
         (case event of
            NFS_TCP_EV_RECV_ACK \<Rightarrow> Some (NFS_TCP_TIME_WAIT, NFS_TCP_ACT_NONE)
          | _ \<Rightarrow> None)
     | NFS_TCP_LAST_ACK \<Rightarrow>
         (case event of
            NFS_TCP_EV_RECV_ACK \<Rightarrow> Some (NFS_TCP_CLOSED, NFS_TCP_ACT_DELETE_TCB)
          | _ \<Rightarrow> None)
     | NFS_TCP_TIME_WAIT \<Rightarrow>
         (case event of
            NFS_TCP_EV_TIMEOUT \<Rightarrow> Some (NFS_TCP_CLOSED, NFS_TCP_ACT_DELETE_TCB)
          | _ \<Rightarrow> None))"

record nfs_tcp_fsm =
  fsm_state :: nfs_tcp_state

definition nfs_tcp_fsm_init :: nfs_tcp_fsm where
  "nfs_tcp_fsm_init = \<lparr> fsm_state = NFS_TCP_CLOSED \<rparr>"

text \<open>The returned state (\<open>None\<close> for -1), the action and the machine.\<close>

definition nfs_tcp_fsm_handle ::
  "nfs_tcp_fsm \<Rightarrow> nfs_tcp_event \<Rightarrow> nfs_tcp_state option \<times> nfs_tcp_action \<times> nfs_tcp_fsm" where
  "nfs_tcp_fsm_handle fsm event =
     (case fsm_table (fsm_state fsm) event of
        None \<Rightarrow> (None, NFS_TCP_ACT_NONE, fsm)
      | Some (next_state, action) \<Rightarrow>
          (Some next_state, action, fsm\<lparr> fsm_state := next_state \<rparr>))"

fun nfs_tcp_state_name :: "nfs_tcp_state \<Rightarrow> string" where
  "nfs_tcp_state_name NFS_TCP_CLOSED = ''CLOSED''"
| "nfs_tcp_state_name NFS_TCP_LISTEN = ''LISTEN''"
| "nfs_tcp_state_name NFS_TCP_SYN_SENT = ''SYN_SENT''"
| "nfs_tcp_state_name NFS_TCP_SYN_RCVD = ''SYN_RCVD''"
| "nfs_tcp_state_name NFS_TCP_ESTABLISHED = ''ESTABLISHED''"
| "nfs_tcp_state_name NFS_TCP_FIN_WAIT_1 = ''FIN_WAIT_1''"
| "nfs_tcp_state_name NFS_TCP_FIN_WAIT_2 = ''FIN_WAIT_2''"
| "nfs_tcp_state_name NFS_TCP_CLOSE_WAIT = ''CLOSE_WAIT''"
| "nfs_tcp_state_name NFS_TCP_CLOSING = ''CLOSING''"
| "nfs_tcp_state_name NFS_TCP_LAST_ACK = ''LAST_ACK''"
| "nfs_tcp_state_name NFS_TCP_TIME_WAIT = ''TIME_WAIT''"

fun nfs_tcp_event_name :: "nfs_tcp_event \<Rightarrow> string" where
  "nfs_tcp_event_name NFS_TCP_EV_OPEN_PASSIVE = ''OPEN_PASSIVE''"
| "nfs_tcp_event_name NFS_TCP_EV_OPEN_ACTIVE = ''OPEN_ACTIVE''"
| "nfs_tcp_event_name NFS_TCP_EV_CLOSE = ''CLOSE''"
| "nfs_tcp_event_name NFS_TCP_EV_RECV_SYN = ''RECV_SYN''"
| "nfs_tcp_event_name NFS_TCP_EV_RECV_SYNACK = ''RECV_SYNACK''"
| "nfs_tcp_event_name NFS_TCP_EV_RECV_ACK = ''RECV_ACK''"
| "nfs_tcp_event_name NFS_TCP_EV_RECV_FIN = ''RECV_FIN''"
| "nfs_tcp_event_name NFS_TCP_EV_RECV_FINACK = ''RECV_FINACK''"
| "nfs_tcp_event_name NFS_TCP_EV_TIMEOUT = ''TIMEOUT''"

fun nfs_tcp_action_name :: "nfs_tcp_action \<Rightarrow> string" where
  "nfs_tcp_action_name NFS_TCP_ACT_NONE = ''NONE''"
| "nfs_tcp_action_name NFS_TCP_ACT_SEND_SYN = ''SEND_SYN''"
| "nfs_tcp_action_name NFS_TCP_ACT_SEND_SYNACK = ''SEND_SYNACK''"
| "nfs_tcp_action_name NFS_TCP_ACT_SEND_ACK = ''SEND_ACK''"
| "nfs_tcp_action_name NFS_TCP_ACT_SEND_FIN = ''SEND_FIN''"
| "nfs_tcp_action_name NFS_TCP_ACT_SEND_FINACK = ''SEND_FINACK''"
| "nfs_tcp_action_name NFS_TCP_ACT_DELETE_TCB = ''DELETE_TCB''"

section \<open>What the table guarantees\<close>

definition fsm_next :: "nfs_tcp_fsm \<Rightarrow> nfs_tcp_event \<Rightarrow> nfs_tcp_fsm" where
  "fsm_next fsm event = snd (snd (nfs_tcp_fsm_handle fsm event))"

lemma fsm_next_state:
  "fsm_state (fsm_next fsm event) =
     (case fsm_table (fsm_state fsm) event of None \<Rightarrow> fsm_state fsm | Some (n, a) \<Rightarrow> n)"
  by (simp add: fsm_next_def nfs_tcp_fsm_handle_def split: option.splits prod.splits)

text \<open>The segments an endpoint has exchanged, as flags kept beside the machine.\<close>

record fsm_history =
  syn_sent :: bool
  syn_rcvd :: bool
  fin_sent :: bool
  fin_rcvd :: bool

definition fresh :: fsm_history where
  "fresh = \<lparr> syn_sent = False, syn_rcvd = False, fin_sent = False, fin_rcvd = False \<rparr>"

text \<open>An event that the machine refuses leaves no trace; deleting the TCB starts afresh.\<close>

definition observe :: "fsm_history \<Rightarrow> nfs_tcp_event \<Rightarrow> nfs_tcp_action \<Rightarrow> fsm_history" where
  "observe h event action =
     (if action = NFS_TCP_ACT_DELETE_TCB then fresh
      else
        \<lparr> syn_sent = (syn_sent h \<or> action \<in> {NFS_TCP_ACT_SEND_SYN, NFS_TCP_ACT_SEND_SYNACK}),
          syn_rcvd = (syn_rcvd h \<or> event \<in> {NFS_TCP_EV_RECV_SYN, NFS_TCP_EV_RECV_SYNACK}),
          fin_sent = (fin_sent h \<or> action \<in> {NFS_TCP_ACT_SEND_FIN, NFS_TCP_ACT_SEND_FINACK}),
          fin_rcvd = (fin_rcvd h \<or> event \<in> {NFS_TCP_EV_RECV_FIN, NFS_TCP_EV_RECV_FINACK}) \<rparr>)"

definition observed_step :: "nfs_tcp_fsm \<times> fsm_history \<Rightarrow> nfs_tcp_event \<Rightarrow> nfs_tcp_fsm \<times> fsm_history" where
  "observed_step s event =
     (case nfs_tcp_fsm_handle (fst s) event of
        (None, _, fsm) \<Rightarrow> (fsm, snd s)
      | (Some _, action, fsm) \<Rightarrow> (fsm, observe (snd s) event action))"

text \<open>Which exchanges each state stands for.\<close>

definition state_meaning :: "nfs_tcp_state \<Rightarrow> fsm_history \<Rightarrow> bool" where
  "state_meaning st h \<longleftrightarrow>
     (st = NFS_TCP_CLOSED \<or> st = NFS_TCP_LISTEN \<longrightarrow> h = fresh) \<and>
     (syn_sent h \<longleftrightarrow> st \<notin> {NFS_TCP_CLOSED, NFS_TCP_LISTEN}) \<and>
     (syn_rcvd h \<longleftrightarrow> st \<notin> {NFS_TCP_CLOSED, NFS_TCP_LISTEN, NFS_TCP_SYN_SENT}) \<and>
     (fin_sent h \<longleftrightarrow> st \<in> {NFS_TCP_FIN_WAIT_1, NFS_TCP_FIN_WAIT_2, NFS_TCP_CLOSING, NFS_TCP_LAST_ACK, NFS_TCP_TIME_WAIT}) \<and>
     (fin_rcvd h \<longleftrightarrow> st \<in> {NFS_TCP_CLOSE_WAIT, NFS_TCP_CLOSING, NFS_TCP_LAST_ACK, NFS_TCP_TIME_WAIT})"

definition observed_inv :: "nfs_tcp_fsm \<times> fsm_history \<Rightarrow> bool" where
  "observed_inv s \<longleftrightarrow> state_meaning (fsm_state (fst s)) (snd s)"

lemma observed_step_inv: "observed_inv s \<Longrightarrow> observed_inv (observed_step s event)"
  by (cases "fsm_state (fst s)"; cases event)
    (simp_all add: observed_inv_def observed_step_def nfs_tcp_fsm_handle_def fsm_table_def state_meaning_def
      observe_def fresh_def)

interpretation tcp_fsm: machine observed_step "\<lambda>s e. True" observed_inv
  by unfold_locales (rule observed_step_inv)

text \<open>
  After any sequence of events from CLOSED, also refused ones, the state tells what has been
  exchanged on the wire: data can flow (ESTABLISHED and later) only when a SYN was sent and one
  received, TIME_WAIT means that both FINs were exchanged, and back in CLOSED or in LISTEN
  nothing of an earlier connection is left.
\<close>
theorem fsm_states_mean_exchanges:
  "let (fsm, h) = foldl observed_step (nfs_tcp_fsm_init, fresh) events in state_meaning (fsm_state fsm) h"
proof -
  have "observed_inv (foldl observed_step (nfs_tcp_fsm_init, fresh) events)"
    by (rule tcp_fsm.run_inv)
      (simp_all add: observed_inv_def state_meaning_def nfs_tcp_fsm_init_def fresh_def)
  then show ?thesis by (auto simp: observed_inv_def split: prod.splits)
qed

text \<open>
  An event that the table does not allow is refused: the handler returns -1, reports no action
  and leaves the state; and the TCB is deleted exactly by the transitions into CLOSED.
\<close>
theorem fsm_handle_correct:
  "case nfs_tcp_fsm_handle fsm event of (r, action, fsm') \<Rightarrow>
    (r = None \<longleftrightarrow> fsm_table (fsm_state fsm) event = None) \<and>
    (r = None \<longrightarrow> fsm' = fsm \<and> action = NFS_TCP_ACT_NONE) \<and>
    (\<forall>n. r = Some n \<longrightarrow> fsm_state fsm' = n \<and> (action = NFS_TCP_ACT_DELETE_TCB \<longleftrightarrow> n = NFS_TCP_CLOSED))"
  by (cases "fsm_state fsm"; cases event) (simp_all add: nfs_tcp_fsm_handle_def fsm_table_def)

lemma fsm_handle_correct_witness:
  "nfs_tcp_fsm_handle \<lparr> fsm_state = NFS_TCP_LAST_ACK \<rparr> NFS_TCP_EV_RECV_ACK =
    (Some NFS_TCP_CLOSED, NFS_TCP_ACT_DELETE_TCB, \<lparr> fsm_state = NFS_TCP_CLOSED \<rparr>)"
  using fsm_handle_correct [of "\<lparr> fsm_state = NFS_TCP_LAST_ACK \<rparr>" NFS_TCP_EV_RECV_ACK]
  by (simp add: nfs_tcp_fsm_handle_def fsm_table_def)

text \<open>The way home: the events that close a connection from each state.\<close>

fun closing_events :: "nfs_tcp_state \<Rightarrow> nfs_tcp_event list" where
  "closing_events NFS_TCP_CLOSED = []"
| "closing_events NFS_TCP_LISTEN = [NFS_TCP_EV_CLOSE]"
| "closing_events NFS_TCP_SYN_SENT = [NFS_TCP_EV_CLOSE]"
| "closing_events NFS_TCP_SYN_RCVD = [NFS_TCP_EV_CLOSE, NFS_TCP_EV_RECV_ACK, NFS_TCP_EV_RECV_FIN, NFS_TCP_EV_TIMEOUT]"
| "closing_events NFS_TCP_ESTABLISHED = [NFS_TCP_EV_CLOSE, NFS_TCP_EV_RECV_ACK, NFS_TCP_EV_RECV_FIN, NFS_TCP_EV_TIMEOUT]"
| "closing_events NFS_TCP_FIN_WAIT_1 = [NFS_TCP_EV_RECV_ACK, NFS_TCP_EV_RECV_FIN, NFS_TCP_EV_TIMEOUT]"
| "closing_events NFS_TCP_FIN_WAIT_2 = [NFS_TCP_EV_RECV_FIN, NFS_TCP_EV_TIMEOUT]"
| "closing_events NFS_TCP_CLOSE_WAIT = [NFS_TCP_EV_CLOSE, NFS_TCP_EV_RECV_ACK]"
| "closing_events NFS_TCP_CLOSING = [NFS_TCP_EV_RECV_ACK, NFS_TCP_EV_TIMEOUT]"
| "closing_events NFS_TCP_LAST_ACK = [NFS_TCP_EV_RECV_ACK]"
| "closing_events NFS_TCP_TIME_WAIT = [NFS_TCP_EV_TIMEOUT]"

lemma fsm_can_close: "fsm_state (foldl fsm_next fsm (closing_events (fsm_state fsm))) = NFS_TCP_CLOSED"
  by (cases "fsm_state fsm") (simp_all add: fsm_next_state fsm_table_def)

section \<open>Two endpoints closing a connection\<close>

text \<open>
  Two machines joined by two reliable FIFO channels that carry what the actions send. The
  list holds what is on its way, the next to arrive first.
\<close>

datatype wire_msg = MsgAck | MsgFin

record wire =
  end_a :: nfs_tcp_state
  end_b :: nfs_tcp_state
  to_b :: "wire_msg list"
  to_a :: "wire_msg list"

fun sends :: "nfs_tcp_action \<Rightarrow> wire_msg list" where
  "sends NFS_TCP_ACT_SEND_ACK = [MsgAck]"
| "sends NFS_TCP_ACT_SEND_FIN = [MsgFin]"
| "sends _ = []"

fun arrives :: "wire_msg \<Rightarrow> nfs_tcp_event" where
  "arrives MsgAck = NFS_TCP_EV_RECV_ACK"
| "arrives MsgFin = NFS_TCP_EV_RECV_FIN"

definition handle_at :: "nfs_tcp_state \<Rightarrow> nfs_tcp_event \<Rightarrow> nfs_tcp_state \<times> wire_msg list" where
  "handle_at st event =
     (case nfs_tcp_fsm_handle \<lparr> fsm_state = st \<rparr> event of (_, action, fsm) \<Rightarrow> (fsm_state fsm, sends action))"

text \<open>Either user closes, either time-wait timer fires, or a message arrives.\<close>

definition local_events :: "nfs_tcp_event list" where
  "local_events = [NFS_TCP_EV_CLOSE, NFS_TCP_EV_TIMEOUT]"

definition wire_succs :: "wire \<Rightarrow> wire list" where
  "wire_succs w =
     map (\<lambda>e. let (st, ms) = handle_at (end_a w) e in w\<lparr> end_a := st, to_b := to_b w @ ms \<rparr>) local_events @
     map (\<lambda>e. let (st, ms) = handle_at (end_b w) e in w\<lparr> end_b := st, to_a := to_a w @ ms \<rparr>) local_events @
     (case to_a w of [] \<Rightarrow> []
      | m # rest \<Rightarrow> let (st, ms) = handle_at (end_a w) (arrives m) in
          [w\<lparr> end_a := st, to_a := rest, to_b := to_b w @ ms \<rparr>]) @
     (case to_b w of [] \<Rightarrow> []
      | m # rest \<Rightarrow> let (st, ms) = handle_at (end_b w) (arrives m) in
          [w\<lparr> end_b := st, to_b := rest, to_a := to_a w @ ms \<rparr>])"

definition wire_start :: wire where
  "wire_start = \<lparr> end_a = NFS_TCP_ESTABLISHED, end_b = NFS_TCP_ESTABLISHED, to_b = [], to_a = [] \<rparr>"

inductive wire_reach :: "wire \<Rightarrow> bool" where
  wire_reach_start: "wire_reach wire_start"
| wire_reach_step: "wire_reach w \<Longrightarrow> w' \<in> set (wire_succs w) \<Longrightarrow> wire_reach w'"

text \<open>The reachable states are these.\<close>

definition wire_of :: "nfs_tcp_state \<Rightarrow> nfs_tcp_state \<Rightarrow> wire_msg list \<Rightarrow> wire_msg list \<Rightarrow> wire" where
  "wire_of a b tb ta = \<lparr> end_a = a, end_b = b, to_b = tb, to_a = ta \<rparr>"

definition wire_states :: "wire list" where
  "wire_states =
     [wire_of NFS_TCP_ESTABLISHED NFS_TCP_ESTABLISHED [] [],
      wire_of NFS_TCP_FIN_WAIT_1 NFS_TCP_ESTABLISHED [MsgFin] [],
      wire_of NFS_TCP_ESTABLISHED NFS_TCP_FIN_WAIT_1 [] [MsgFin],
      wire_of NFS_TCP_FIN_WAIT_1 NFS_TCP_FIN_WAIT_1 [MsgFin] [MsgFin],
      wire_of NFS_TCP_FIN_WAIT_1 NFS_TCP_CLOSE_WAIT [] [MsgAck],
      wire_of NFS_TCP_CLOSE_WAIT NFS_TCP_FIN_WAIT_1 [MsgAck] [],
      wire_of NFS_TCP_CLOSING NFS_TCP_FIN_WAIT_1 [MsgFin, MsgAck] [],
      wire_of NFS_TCP_FIN_WAIT_1 NFS_TCP_CLOSING [] [MsgFin, MsgAck],
      wire_of NFS_TCP_FIN_WAIT_1 NFS_TCP_LAST_ACK [] [MsgAck, MsgFin],
      wire_of NFS_TCP_FIN_WAIT_2 NFS_TCP_CLOSE_WAIT [] [],
      wire_of NFS_TCP_LAST_ACK NFS_TCP_FIN_WAIT_1 [MsgAck, MsgFin] [],
      wire_of NFS_TCP_CLOSE_WAIT NFS_TCP_FIN_WAIT_2 [] [],
      wire_of NFS_TCP_CLOSING NFS_TCP_CLOSING [MsgAck] [MsgAck],
      wire_of NFS_TCP_FIN_WAIT_2 NFS_TCP_LAST_ACK [] [MsgFin],
      wire_of NFS_TCP_LAST_ACK NFS_TCP_FIN_WAIT_2 [MsgFin] [],
      wire_of NFS_TCP_TIME_WAIT NFS_TCP_CLOSING [MsgAck] [],
      wire_of NFS_TCP_CLOSING NFS_TCP_TIME_WAIT [] [MsgAck],
      wire_of NFS_TCP_TIME_WAIT NFS_TCP_LAST_ACK [MsgAck] [],
      wire_of NFS_TCP_LAST_ACK NFS_TCP_TIME_WAIT [] [MsgAck],
      wire_of NFS_TCP_CLOSED NFS_TCP_CLOSING [MsgAck] [],
      wire_of NFS_TCP_TIME_WAIT NFS_TCP_TIME_WAIT [] [],
      wire_of NFS_TCP_CLOSING NFS_TCP_CLOSED [] [MsgAck],
      wire_of NFS_TCP_CLOSED NFS_TCP_LAST_ACK [MsgAck] [],
      wire_of NFS_TCP_TIME_WAIT NFS_TCP_CLOSED [] [],
      wire_of NFS_TCP_LAST_ACK NFS_TCP_CLOSED [] [MsgAck],
      wire_of NFS_TCP_CLOSED NFS_TCP_TIME_WAIT [] [],
      wire_of NFS_TCP_CLOSED NFS_TCP_CLOSED [] []]"

lemma wire_states_closed: "list_all (\<lambda>w. list_all (\<lambda>w'. w' \<in> set wire_states) (wire_succs w)) wire_states"
  by code_simp

lemma wire_reach_states: "wire_reach w \<Longrightarrow> w \<in> set wire_states"
proof (induction rule: wire_reach.induct)
  case wire_reach_start
  show ?case by (simp add: wire_states_def wire_of_def wire_start_def)
next
  case (wire_reach_step w w')
  then show ?case using wire_states_closed unfolding list_all_iff by blast
qed

fun msg_refused :: "nfs_tcp_state \<Rightarrow> wire_msg list \<Rightarrow> bool" where
  "msg_refused st [] = False"
| "msg_refused st (m # ms) = (fst (nfs_tcp_fsm_handle \<lparr> fsm_state = st \<rparr> (arrives m)) = None)"

definition user_closed :: "nfs_tcp_state \<Rightarrow> bool" where
  "user_closed st \<longleftrightarrow> st \<notin> {NFS_TCP_ESTABLISHED, NFS_TCP_CLOSE_WAIT}"

definition fully_closed :: "nfs_tcp_state \<Rightarrow> bool" where
  "fully_closed st \<longleftrightarrow> st = NFS_TCP_TIME_WAIT \<or> st = NFS_TCP_CLOSED"

definition wire_good :: "wire \<Rightarrow> bool" where
  "wire_good w \<longleftrightarrow>
     \<not> msg_refused (end_a w) (to_a w) \<and> \<not> msg_refused (end_b w) (to_b w) \<and>
     length (to_a w) \<le> 2 \<and> length (to_b w) \<le> 2 \<and>
     \<not> (to_a w = [] \<and> to_b w = [] \<and> user_closed (end_a w) \<and> user_closed (end_b w) \<and>
        \<not> (fully_closed (end_a w) \<and> fully_closed (end_b w))) \<and>
     \<not> (end_a w = NFS_TCP_CLOSED \<and> \<not> user_closed (end_b w)) \<and>
     \<not> (end_b w = NFS_TCP_CLOSED \<and> \<not> user_closed (end_a w))"

lemma wire_states_good: "list_all wire_good wire_states"
  by code_simp

text \<open>
  C2. Two connected endpoints close cleanly in every interleaving: whoever closes first, also both
  at once, no FIN or ACK that arrives is refused, at most two messages are on their way in
  a direction, an endpoint is CLOSED only after both users have closed, and once both users
  have closed and nothing is on its way both ends are in TIME_WAIT or CLOSED.
\<close>
theorem two_endpoints_close_cleanly:
  assumes "wire_reach w"
  shows "\<not> msg_refused (end_a w) (to_a w) \<and> \<not> msg_refused (end_b w) (to_b w) \<and>
    length (to_a w) \<le> 2 \<and> length (to_b w) \<le> 2 \<and>
    (end_a w = NFS_TCP_CLOSED \<or> end_b w = NFS_TCP_CLOSED \<longrightarrow> user_closed (end_a w) \<and> user_closed (end_b w)) \<and>
    (to_a w = [] \<and> to_b w = [] \<and> user_closed (end_a w) \<and> user_closed (end_b w) \<longrightarrow>
      fully_closed (end_a w) \<and> fully_closed (end_b w))"
proof -
  have "wire_good w"
    using wire_states_good wire_reach_states [OF assms] unfolding list_all_iff by blast
  then show ?thesis unfolding wire_good_def by (auto simp: user_closed_def)
qed

lemma two_endpoints_close_cleanly_witness:
  "\<exists>w. wire_reach w \<and> to_b w = [MsgFin] \<and> \<not> msg_refused (end_b w) (to_b w)"
proof -
  let ?w = "\<lparr> end_a = NFS_TCP_FIN_WAIT_1, end_b = NFS_TCP_ESTABLISHED, to_b = [MsgFin], to_a = [] \<rparr>"
  have "?w \<in> set (wire_succs wire_start)"
    by (simp add: wire_succs_def wire_start_def local_events_def handle_at_def nfs_tcp_fsm_handle_def fsm_table_def)
  then have "wire_reach ?w" by (rule wire_reach_step [OF wire_reach_start])
  then show ?thesis using two_endpoints_close_cleanly [of ?w] by (intro exI [of _ ?w]) simp
qed

end
