(* ===== verification/Teardown.thy ===== *)
theory Teardown
  imports TcpFsm Complex_Main
begin

text \<open>
  The teardown machine (\<^verbatim>\<open>phases/04-transport/22-connection-teardown-and-time-wait/teardown.c\<close>),
  which keeps sequence numbers and the time-wait clock beside the state. It is shown to
  implement the closing half of the TCP state table. Times are real numbers for C doubles.
\<close>

section \<open>Definitions\<close>

datatype nfs_tcp_teardown_state =
    NFS_TCP_ST_ESTABLISHED | NFS_TCP_ST_FIN_WAIT_1 | NFS_TCP_ST_FIN_WAIT_2 | NFS_TCP_ST_CLOSING
  | NFS_TCP_ST_TIME_WAIT | NFS_TCP_ST_CLOSE_WAIT | NFS_TCP_ST_LAST_ACK | NFS_TCP_ST_CLOSED

record nfs_tcp_conn =
  conn_state :: nfs_tcp_teardown_state
  local_seq :: u32
  remote_seq :: u32
  time_wait_start :: real
  msl :: real

definition nfs_conn_init :: "u32 \<Rightarrow> u32 \<Rightarrow> real \<Rightarrow> nfs_tcp_conn" where
  "nfs_conn_init lseq rseq m =
     \<lparr> conn_state = NFS_TCP_ST_ESTABLISHED, local_seq = lseq, remote_seq = rseq,
       time_wait_start = 0, msl = m \<rparr>"

text \<open>\<open>None\<close> is the return value -1, which leaves the connection as it is.\<close>

definition nfs_conn_close :: "nfs_tcp_conn \<Rightarrow> nfs_tcp_conn option" where
  "nfs_conn_close c =
     (case conn_state c of
        NFS_TCP_ST_ESTABLISHED \<Rightarrow> Some (c\<lparr> conn_state := NFS_TCP_ST_FIN_WAIT_1, local_seq := local_seq c + 1 \<rparr>)
      | NFS_TCP_ST_CLOSE_WAIT \<Rightarrow> Some (c\<lparr> conn_state := NFS_TCP_ST_LAST_ACK, local_seq := local_seq c + 1 \<rparr>)
      | _ \<Rightarrow> None)"

definition nfs_conn_recv_fin :: "nfs_tcp_conn \<Rightarrow> nfs_tcp_conn option" where
  "nfs_conn_recv_fin c =
     (case conn_state c of
        NFS_TCP_ST_ESTABLISHED \<Rightarrow> Some (c\<lparr> conn_state := NFS_TCP_ST_CLOSE_WAIT, remote_seq := remote_seq c + 1 \<rparr>)
      | NFS_TCP_ST_FIN_WAIT_1 \<Rightarrow> Some (c\<lparr> conn_state := NFS_TCP_ST_CLOSING, remote_seq := remote_seq c + 1 \<rparr>)
      | NFS_TCP_ST_FIN_WAIT_2 \<Rightarrow>
          Some (c\<lparr> conn_state := NFS_TCP_ST_TIME_WAIT, remote_seq := remote_seq c + 1, time_wait_start := 0 \<rparr>)
      | _ \<Rightarrow> None)"

definition nfs_conn_recv_ack :: "nfs_tcp_conn \<Rightarrow> nfs_tcp_conn option" where
  "nfs_conn_recv_ack c =
     (case conn_state c of
        NFS_TCP_ST_FIN_WAIT_1 \<Rightarrow> Some (c\<lparr> conn_state := NFS_TCP_ST_FIN_WAIT_2 \<rparr>)
      | NFS_TCP_ST_CLOSING \<Rightarrow> Some (c\<lparr> conn_state := NFS_TCP_ST_TIME_WAIT, time_wait_start := 0 \<rparr>)
      | NFS_TCP_ST_LAST_ACK \<Rightarrow> Some (c\<lparr> conn_state := NFS_TCP_ST_CLOSED \<rparr>)
      | _ \<Rightarrow> None)"

text \<open>The result is 1 or 0 as a boolean.\<close>

definition nfs_conn_time_wait_expired :: "nfs_tcp_conn \<Rightarrow> real \<Rightarrow> (bool \<times> nfs_tcp_conn) option" where
  "nfs_conn_time_wait_expired c now =
     (if conn_state c \<noteq> NFS_TCP_ST_TIME_WAIT then None
      else
        let elapsed = now - time_wait_start c;
            timeout = 2 * msl c
        in if elapsed \<ge> timeout then Some (True, c\<lparr> conn_state := NFS_TCP_ST_CLOSED \<rparr>)
           else Some (False, c))"

fun nfs_conn_state_name :: "nfs_tcp_teardown_state \<Rightarrow> string" where
  "nfs_conn_state_name NFS_TCP_ST_ESTABLISHED = ''ESTABLISHED''"
| "nfs_conn_state_name NFS_TCP_ST_FIN_WAIT_1 = ''FIN_WAIT_1''"
| "nfs_conn_state_name NFS_TCP_ST_FIN_WAIT_2 = ''FIN_WAIT_2''"
| "nfs_conn_state_name NFS_TCP_ST_CLOSING = ''CLOSING''"
| "nfs_conn_state_name NFS_TCP_ST_TIME_WAIT = ''TIME_WAIT''"
| "nfs_conn_state_name NFS_TCP_ST_CLOSE_WAIT = ''CLOSE_WAIT''"
| "nfs_conn_state_name NFS_TCP_ST_LAST_ACK = ''LAST_ACK''"
| "nfs_conn_state_name NFS_TCP_ST_CLOSED = ''CLOSED''"

section \<open>It implements the state table\<close>

text \<open>The caller that owns the clock may set the start of TIME_WAIT at any time.\<close>

datatype conn_event = ConnClose | ConnFin | ConnAck | ConnClock real | ConnSetStart real

definition conn_step :: "nfs_tcp_conn \<Rightarrow> conn_event \<Rightarrow> nfs_tcp_conn" where
  "conn_step c e =
     (case e of
        ConnClose \<Rightarrow> (case nfs_conn_close c of None \<Rightarrow> c | Some c' \<Rightarrow> c')
      | ConnFin \<Rightarrow> (case nfs_conn_recv_fin c of None \<Rightarrow> c | Some c' \<Rightarrow> c')
      | ConnAck \<Rightarrow> (case nfs_conn_recv_ack c of None \<Rightarrow> c | Some c' \<Rightarrow> c')
      | ConnClock now \<Rightarrow> (case nfs_conn_time_wait_expired c now of None \<Rightarrow> c | Some (_, c') \<Rightarrow> c')
      | ConnSetStart t \<Rightarrow> c\<lparr> time_wait_start := t \<rparr>)"

fun fsm_of :: "nfs_tcp_teardown_state \<Rightarrow> nfs_tcp_state" where
  "fsm_of NFS_TCP_ST_ESTABLISHED = NFS_TCP_ESTABLISHED"
| "fsm_of NFS_TCP_ST_FIN_WAIT_1 = NFS_TCP_FIN_WAIT_1"
| "fsm_of NFS_TCP_ST_FIN_WAIT_2 = NFS_TCP_FIN_WAIT_2"
| "fsm_of NFS_TCP_ST_CLOSING = NFS_TCP_CLOSING"
| "fsm_of NFS_TCP_ST_TIME_WAIT = NFS_TCP_TIME_WAIT"
| "fsm_of NFS_TCP_ST_CLOSE_WAIT = NFS_TCP_CLOSE_WAIT"
| "fsm_of NFS_TCP_ST_LAST_ACK = NFS_TCP_LAST_ACK"
| "fsm_of NFS_TCP_ST_CLOSED = NFS_TCP_CLOSED"

definition conn_fsm :: "nfs_tcp_conn \<Rightarrow> nfs_tcp_fsm" where
  "conn_fsm c = \<lparr> fsm_state = fsm_of (conn_state c) \<rparr>"

lemma close_table:
  "map_option conn_fsm (nfs_conn_close c) =
     map_option (\<lambda>(n, a). \<lparr> fsm_state = n \<rparr>) (fsm_table (fsm_state (conn_fsm c)) NFS_TCP_EV_CLOSE)"
  by (cases "conn_state c") (simp_all add: conn_fsm_def nfs_conn_close_def fsm_table_def)

lemma recv_fin_table:
  "map_option conn_fsm (nfs_conn_recv_fin c) =
     map_option (\<lambda>(n, a). \<lparr> fsm_state = n \<rparr>) (fsm_table (fsm_state (conn_fsm c)) NFS_TCP_EV_RECV_FIN)"
  by (cases "conn_state c") (simp_all add: conn_fsm_def nfs_conn_recv_fin_def fsm_table_def)

lemma recv_ack_table:
  "map_option conn_fsm (nfs_conn_recv_ack c) =
     map_option (\<lambda>(n, a). \<lparr> fsm_state = n \<rparr>) (fsm_table (fsm_state (conn_fsm c)) NFS_TCP_EV_RECV_ACK)"
  by (cases "conn_state c") (simp_all add: conn_fsm_def nfs_conn_recv_ack_def fsm_table_def)

text \<open>
  The teardown operations agree with the TCP state table: from every state they move to the
  state the table names for a close, a received FIN or a received ACK, and they fail exactly
  where the table has no entry; the time-wait check closes the connection exactly in
  TIME_WAIT, which has the table's one timeout entry, once two segment lifetimes have passed.
\<close>
theorem teardown_follows_table:
  "map_option conn_fsm (nfs_conn_close c) =
     map_option (\<lambda>(n, a). \<lparr> fsm_state = n \<rparr>) (fsm_table (fsm_state (conn_fsm c)) NFS_TCP_EV_CLOSE) \<and>
   map_option conn_fsm (nfs_conn_recv_fin c) =
     map_option (\<lambda>(n, a). \<lparr> fsm_state = n \<rparr>) (fsm_table (fsm_state (conn_fsm c)) NFS_TCP_EV_RECV_FIN) \<and>
   map_option conn_fsm (nfs_conn_recv_ack c) =
     map_option (\<lambda>(n, a). \<lparr> fsm_state = n \<rparr>) (fsm_table (fsm_state (conn_fsm c)) NFS_TCP_EV_RECV_ACK) \<and>
   (nfs_conn_time_wait_expired c now = None \<longleftrightarrow> fsm_table (fsm_state (conn_fsm c)) NFS_TCP_EV_TIMEOUT = None) \<and>
   (\<forall>expired c'. nfs_conn_time_wait_expired c now = Some (expired, c') \<longrightarrow>
     (expired \<longleftrightarrow> time_wait_start c + 2 * msl c \<le> now) \<and>
     conn_fsm c' = (if expired then fsm_next (conn_fsm c) NFS_TCP_EV_TIMEOUT else conn_fsm c))"
proof (intro conjI close_table recv_fin_table recv_ack_table)
  show "nfs_conn_time_wait_expired c now = None \<longleftrightarrow> fsm_table (fsm_state (conn_fsm c)) NFS_TCP_EV_TIMEOUT = None"
    by (cases "conn_state c") (auto simp: conn_fsm_def nfs_conn_time_wait_expired_def fsm_table_def Let_def)
  show "\<forall>expired c'. nfs_conn_time_wait_expired c now = Some (expired, c') \<longrightarrow>
     (expired \<longleftrightarrow> time_wait_start c + 2 * msl c \<le> now) \<and>
     conn_fsm c' = (if expired then fsm_next (conn_fsm c) NFS_TCP_EV_TIMEOUT else conn_fsm c)"
    by (auto simp: conn_fsm_def nfs_conn_time_wait_expired_def fsm_table_def Let_def fsm_next_def
        nfs_tcp_fsm_handle_def algebra_simps split: if_splits)
qed

lemma teardown_follows_table_witness:
  "nfs_conn_time_wait_expired \<lparr> conn_state = NFS_TCP_ST_TIME_WAIT, local_seq = 1, remote_seq = 2,
     time_wait_start = 10, msl = 30 \<rparr> 70 =
   Some (True, \<lparr> conn_state = NFS_TCP_ST_CLOSED, local_seq = 1, remote_seq = 2, time_wait_start = 10, msl = 30 \<rparr>)"
  using teardown_follows_table [of "\<lparr> conn_state = NFS_TCP_ST_TIME_WAIT, local_seq = 1, remote_seq = 2,
     time_wait_start = 10, msl = 30 \<rparr>" 70]
  by (simp add: nfs_conn_time_wait_expired_def)

section \<open>Runs\<close>

text \<open>
  The abstract machine: the state table with a time-wait clock. Entering TIME_WAIT resets
  the clock; an expired clock is the timeout event.
\<close>

type_synonym clocked_fsm = "nfs_tcp_fsm \<times> real \<times> real"

definition clocked :: "nfs_tcp_fsm \<Rightarrow> nfs_tcp_event \<Rightarrow> real \<Rightarrow> nfs_tcp_fsm \<times> real" where
  "clocked fsm event start =
     (let fsm' = fsm_next fsm event in
      (fsm', if fsm_state fsm' = NFS_TCP_TIME_WAIT \<and> fsm_state fsm \<noteq> NFS_TCP_TIME_WAIT then 0 else start))"

fun clocked_step :: "clocked_fsm \<Rightarrow> conn_event \<Rightarrow> clocked_fsm" where
  "clocked_step (fsm, start, m) ConnClose =
     (let (fsm', start') = clocked fsm NFS_TCP_EV_CLOSE start in (fsm', start', m))"
| "clocked_step (fsm, start, m) ConnFin =
     (let (fsm', start') = clocked fsm NFS_TCP_EV_RECV_FIN start in (fsm', start', m))"
| "clocked_step (fsm, start, m) ConnAck =
     (let (fsm', start') = clocked fsm NFS_TCP_EV_RECV_ACK start in (fsm', start', m))"
| "clocked_step (fsm, start, m) (ConnClock now) =
     (if now - start \<ge> 2 * m then (fsm_next fsm NFS_TCP_EV_TIMEOUT, start, m) else (fsm, start, m))"
| "clocked_step (fsm, start, m) (ConnSetStart t) = (fsm, t, m)"

definition conn_clocked :: "nfs_tcp_conn \<Rightarrow> clocked_fsm" where
  "conn_clocked c = (conn_fsm c, time_wait_start c, msl c)"

text \<open>Each FIN takes one sequence number, and CLOSED is entered after both.\<close>

definition own_fin :: "nfs_tcp_teardown_state \<Rightarrow> u32" where
  "own_fin st = (if st \<in> {NFS_TCP_ST_ESTABLISHED, NFS_TCP_ST_CLOSE_WAIT} then 0 else 1)"

definition peer_fin :: "nfs_tcp_teardown_state \<Rightarrow> u32" where
  "peer_fin st = (if st \<in> {NFS_TCP_ST_ESTABLISHED, NFS_TCP_ST_FIN_WAIT_1, NFS_TCP_ST_FIN_WAIT_2} then 0 else 1)"

definition conn_inv :: "u32 \<Rightarrow> u32 \<Rightarrow> nfs_tcp_conn \<Rightarrow> bool" where
  "conn_inv lseq rseq c \<longleftrightarrow>
     local_seq c = lseq + own_fin (conn_state c) \<and> remote_seq c = rseq + peer_fin (conn_state c)"

lemma conn_step_inv: "conn_inv lseq rseq c \<Longrightarrow> conn_inv lseq rseq (conn_step c e)"
  by (cases "conn_state c"; cases e)
    (simp_all add: conn_inv_def conn_step_def nfs_conn_close_def nfs_conn_recv_fin_def nfs_conn_recv_ack_def
      nfs_conn_time_wait_expired_def own_fin_def peer_fin_def Let_def)

lemma conn_step_clocked: "conn_clocked (conn_step c e) = clocked_step (conn_clocked c) e"
  by (cases "conn_state c"; cases e)
    (simp_all add: conn_clocked_def conn_fsm_def conn_step_def nfs_conn_close_def nfs_conn_recv_fin_def
      nfs_conn_recv_ack_def nfs_conn_time_wait_expired_def clocked_def fsm_next_def nfs_tcp_fsm_handle_def
      fsm_table_def Let_def)

interpretation teardown: simulation conn_step "\<lambda>c e. True" "conn_inv lseq rseq" conn_clocked clocked_step
  for lseq rseq
  by unfold_locales (auto intro: conn_step_inv simp: conn_step_clocked)

text \<open>
  C15. Over whole runs from an established connection (user closes, FINs and ACKs in any order,
  clock checks, the caller setting the clock) the connection goes through the states of the
  table with a time-wait clock, each FIN advances its side's sequence number by exactly one, and a
  connection that is CLOSED has exchanged both FINs.
\<close>
theorem teardown_runs_refine_table:
  "let c = foldl conn_step (nfs_conn_init lseq rseq m) es in
    conn_clocked c = foldl clocked_step (\<lparr> fsm_state = NFS_TCP_ESTABLISHED \<rparr>, 0, m) es \<and>
    local_seq c = lseq + own_fin (conn_state c) \<and> remote_seq c = rseq + peer_fin (conn_state c)"
proof -
  let ?c = "nfs_conn_init lseq rseq m"
  have inv: "conn_inv lseq rseq ?c"
    by (simp add: conn_inv_def nfs_conn_init_def own_fin_def peer_fin_def)
  have "conn_clocked ?c = (\<lparr> fsm_state = NFS_TCP_ESTABLISHED \<rparr>, 0, m)"
    by (simp add: conn_clocked_def conn_fsm_def nfs_conn_init_def)
  then show ?thesis
    using teardown.run_abs [OF inv, of es] teardown.run_inv [OF inv, of es]
    by (simp add: Let_def conn_inv_def)
qed

end
