(* ===== verification/Congestion.thy ===== *)
theory Congestion
  imports Interfaces
begin

text \<open>
  Three congestion controllers: slow start with congestion avoidance
  (\<^verbatim>\<open>phases/04-transport/24-slow-start-and-congestion-avoidance/congestion.c\<close>), fast retransmit
  with fast recovery (\<^verbatim>\<open>25-fast-retransmit-and-fast-recovery/fast_recovery.c\<close>) and TCP Reno
  (\<^verbatim>\<open>26-tcp-reno/tcp_reno.c\<close>). Windows are 32-bit words that wrap; the counters of duplicate
  acknowledgments are natural numbers.
\<close>

section \<open>Definitions\<close>

definition max_u32 :: "u32 \<Rightarrow> u32 \<Rightarrow> u32" where
  "max_u32 a b = (if a > b then a else b)"

subsection \<open>Slow start and congestion avoidance\<close>

datatype cong_phase = NFS_CONG_SLOW_START | NFS_CONG_AVOIDANCE

record nfs_cong_state =
  cg_cwnd :: u32
  cg_ssthresh :: u32
  cg_mss :: u32
  cg_phase :: cong_phase

definition nfs_cong_init :: "u32 \<Rightarrow> nfs_cong_state" where
  "nfs_cong_init mss =
     \<lparr> cg_cwnd = mss, cg_ssthresh = 65535, cg_mss = mss, cg_phase = NFS_CONG_SLOW_START \<rparr>"

definition nfs_cong_on_ack :: "nfs_cong_state \<Rightarrow> nfs_cong_state" where
  "nfs_cong_on_ack c =
     (if cg_phase c = NFS_CONG_SLOW_START then
        let c' = c\<lparr> cg_cwnd := cg_cwnd c + cg_mss c \<rparr> in
        if cg_cwnd c' \<ge> cg_ssthresh c' then c'\<lparr> cg_phase := NFS_CONG_AVOIDANCE \<rparr> else c'
      else
        let inc = (cg_mss c * cg_mss c) div cg_cwnd c;
            inc' = (if inc = 0 then 1 else inc)
        in c\<lparr> cg_cwnd := cg_cwnd c + inc' \<rparr>)"

definition nfs_cong_on_loss :: "nfs_cong_state \<Rightarrow> nfs_cong_state" where
  "nfs_cong_on_loss c =
     c\<lparr> cg_ssthresh := max_u32 (cg_cwnd c div 2) (2 * cg_mss c), cg_cwnd := cg_mss c,
        cg_phase := NFS_CONG_SLOW_START \<rparr>"

definition nfs_cong_on_triple_dup_ack :: "nfs_cong_state \<Rightarrow> nfs_cong_state" where
  "nfs_cong_on_triple_dup_ack c =
     (let ssthresh = max_u32 (cg_cwnd c div 2) (2 * cg_mss c) in
      c\<lparr> cg_ssthresh := ssthresh, cg_cwnd := ssthresh + 3 * cg_mss c \<rparr>)"

definition nfs_cong_window :: "nfs_cong_state \<Rightarrow> u32" where
  "nfs_cong_window c = cg_cwnd c"

fun nfs_cong_phase_str :: "cong_phase \<Rightarrow> string" where
  "nfs_cong_phase_str NFS_CONG_SLOW_START = ''slow_start''"
| "nfs_cong_phase_str NFS_CONG_AVOIDANCE = ''congestion_avoidance''"

subsection \<open>Fast retransmit and fast recovery\<close>

datatype fr_signal = NFS_FR_NORMAL | NFS_FR_FAST_RETRANSMIT | NFS_FR_RECOVERY_EXIT

record nfs_fr_state =
  fr_cwnd :: u32
  fr_ssthresh :: u32
  fr_mss :: u32
  fr_dup_ack_count :: nat
  fr_last_ack :: u32
  fr_in_recovery :: bool
  fr_recovery_point :: u32

definition nfs_fr_init :: "u32 \<Rightarrow> u32 \<Rightarrow> nfs_fr_state" where
  "nfs_fr_init mss initial_cwnd =
     \<lparr> fr_cwnd = initial_cwnd, fr_ssthresh = 65535, fr_mss = mss, fr_dup_ack_count = 0,
       fr_last_ack = 0, fr_in_recovery = False, fr_recovery_point = 0 \<rparr>"

definition nfs_fr_on_ack :: "nfs_fr_state \<Rightarrow> u32 \<Rightarrow> fr_signal \<times> nfs_fr_state" where
  "nfs_fr_on_ack s ack_num =
     (if ack_num > fr_last_ack s then
        let s1 = s\<lparr> fr_last_ack := ack_num, fr_dup_ack_count := 0 \<rparr> in
        if fr_in_recovery s1 \<and> ack_num \<ge> fr_recovery_point s1
        then (NFS_FR_RECOVERY_EXIT, s1\<lparr> fr_cwnd := fr_ssthresh s1, fr_in_recovery := False \<rparr>)
        else (NFS_FR_NORMAL, s1)
      else if ack_num = fr_last_ack s then
        let s1 = s\<lparr> fr_dup_ack_count := fr_dup_ack_count s + 1 \<rparr> in
        if \<not> fr_in_recovery s1 \<and> fr_dup_ack_count s1 = 3 then
          let half = fr_cwnd s1 div 2;
              ssthresh = (if half < 2 * fr_mss s1 then 2 * fr_mss s1 else half)
          in (NFS_FR_FAST_RETRANSMIT,
              s1\<lparr> fr_ssthresh := ssthresh, fr_cwnd := ssthresh + 3 * fr_mss s1,
                  fr_in_recovery := True, fr_recovery_point := fr_last_ack s1 \<rparr>)
        else if fr_in_recovery s1
        then (NFS_FR_NORMAL, s1\<lparr> fr_cwnd := fr_cwnd s1 + fr_mss s1 \<rparr>)
        else (NFS_FR_NORMAL, s1)
      else (NFS_FR_NORMAL, s))"

definition nfs_fr_in_recovery :: "nfs_fr_state \<Rightarrow> bool" where
  "nfs_fr_in_recovery s = fr_in_recovery s"

definition nfs_fr_cwnd :: "nfs_fr_state \<Rightarrow> u32" where
  "nfs_fr_cwnd s = fr_cwnd s"

subsection \<open>Reno\<close>

record nfs_reno =
  rn_cwnd :: u32
  rn_ssthresh :: u32
  rn_mss :: u32
  rn_dup_ack_count :: nat
  rn_in_recovery :: bool
  rn_recover_seq :: u32

definition nfs_reno_init :: "u32 \<Rightarrow> nfs_reno" where
  "nfs_reno_init mss =
     \<lparr> rn_cwnd = mss, rn_ssthresh = 65535, rn_mss = mss, rn_dup_ack_count = 0,
       rn_in_recovery = False, rn_recover_seq = 0 \<rparr>"

definition nfs_reno_exit_recovery :: "nfs_reno \<Rightarrow> nfs_reno" where
  "nfs_reno_exit_recovery r =
     r\<lparr> rn_cwnd := rn_ssthresh r, rn_dup_ack_count := 0, rn_in_recovery := False \<rparr>"

text \<open>The product is computed in 64 bits. The argument \<^verbatim>\<open>bytes_acked\<close> is not used by the code.\<close>

definition nfs_reno_on_ack :: "nfs_reno \<Rightarrow> u32 \<Rightarrow> nfs_reno" where
  "nfs_reno_on_ack r bytes_acked =
     (if rn_in_recovery r then nfs_reno_exit_recovery r
      else
        let r1 = r\<lparr> rn_dup_ack_count := 0 \<rparr> in
        if rn_cwnd r1 < rn_ssthresh r1 then r1\<lparr> rn_cwnd := rn_cwnd r1 + rn_mss r1 \<rparr>
        else
          let inc = ucast ((ucast (rn_mss r1) * ucast (rn_mss r1) :: u64) div ucast (rn_cwnd r1)) :: u32;
              inc' = (if inc = 0 then 1 else inc)
          in r1\<lparr> rn_cwnd := rn_cwnd r1 + inc' \<rparr>)"

definition nfs_reno_on_dup_ack :: "nfs_reno \<Rightarrow> bool \<times> nfs_reno" where
  "nfs_reno_on_dup_ack r =
     (let r1 = r\<lparr> rn_dup_ack_count := rn_dup_ack_count r + 1 \<rparr> in
      if rn_dup_ack_count r1 = 3 \<and> \<not> rn_in_recovery r1 then
        let ssthresh = max_u32 (rn_cwnd r1 div 2) (2 * rn_mss r1) in
        (True, r1\<lparr> rn_ssthresh := ssthresh, rn_cwnd := ssthresh + 3 * rn_mss r1, rn_in_recovery := True \<rparr>)
      else if rn_dup_ack_count r1 > 3 \<and> rn_in_recovery r1
      then (False, r1\<lparr> rn_cwnd := rn_cwnd r1 + rn_mss r1 \<rparr>)
      else (False, r1))"

definition nfs_reno_on_timeout :: "nfs_reno \<Rightarrow> nfs_reno" where
  "nfs_reno_on_timeout r =
     r\<lparr> rn_ssthresh := max_u32 (rn_cwnd r div 2) (2 * rn_mss r), rn_cwnd := rn_mss r,
        rn_dup_ack_count := 0, rn_in_recovery := False \<rparr>"

definition nfs_reno_cwnd :: "nfs_reno \<Rightarrow> u32" where
  "nfs_reno_cwnd r = rn_cwnd r"

definition nfs_reno_phase :: "nfs_reno \<Rightarrow> string" where
  "nfs_reno_phase r =
     (if rn_in_recovery r then ''fast_recovery''
      else if rn_cwnd r < rn_ssthresh r then ''slow_start''
      else ''congestion_avoidance'')"

section \<open>The shape of the window\<close>

lemma unat_max_u32: "unat (max_u32 a b) = max (unat a) (unat b)"
  by (simp add: max_u32_def word_less_nat_alt)

lemma unat_add_small: "unat (a :: u32) + unat b < 4294967296 \<Longrightarrow> unat (a + b) = unat a + unat b"
  by (simp add: unat_word_ariths)

lemma unat_mult_small: "unat (a :: u32) * unat b < 4294967296 \<Longrightarrow> unat (a * b) = unat a * unat b"
  by (simp add: unat_word_ariths)

lemma unat_two_three_mss:
  "unat (m :: u32) \<le> 65535 \<Longrightarrow> unat (2 * m) = 2 * unat m" "unat (m :: u32) \<le> 65535 \<Longrightarrow> unat (3 * m) = 3 * unat m"
  by (simp_all add: unat_word_ariths)

lemma square_mss: "n \<le> 65535 \<Longrightarrow> n * n < (4294967296 :: nat)"
  by (rule le_less_trans [OF mult_le_mono [of n 65535 n 65535]]) simp_all

text \<open>The halved window of a loss, at least two segments.\<close>

definition halved :: "nat \<Rightarrow> nat \<Rightarrow> nat" where
  "halved w m = max (w div 2) (2 * m)"

lemma unat_halved: "unat (m :: u32) \<le> 65535 \<Longrightarrow> unat (max_u32 (w div 2) (2 * m)) = halved (unat w) (unat m)"
  by (simp add: unat_max_u32 unat_two_three_mss halved_def unat_div_distrib)

lemma unat_halved_plus:
  "unat (m :: u32) \<le> 65535 \<Longrightarrow>
     unat (max_u32 (w div 2) (2 * m) + 3 * m) = halved (unat w) (unat m) + 3 * unat m"
  using unat_u32_less [of w]
  by (subst unat_add_small) (simp_all add: unat_halved unat_two_three_mss, simp add: halved_def)

text \<open>The additive increase of one acknowledgment.\<close>

definition increase :: "nat \<Rightarrow> nat \<Rightarrow> nat" where
  "increase m w = max 1 (m * m div w)"

lemma increase_le: "0 < m \<Longrightarrow> m \<le> w \<Longrightarrow> increase m w \<le> m"
  unfolding increase_def by (metis Suc_leI One_nat_def div_le_mono2 div_mult_self_is_m max.bounded_iff)

lemma unat_increase:
  assumes "unat (m :: u32) \<le> 65535"
  shows "unat (if (m * m) div w = 0 then 1 else (m * m) div w) = increase (unat m) (unat w)"
proof -
  have "unat ((m * m) div w) = unat m * unat m div unat w"
    using square_mss [OF assms] by (simp add: unat_div_distrib unat_mult_small)
  then show ?thesis by (auto simp: increase_def unat_eq_0 [symmetric] max_def)
qed

datatype cong_event = CongAck | CongLoss | CongTripleDup

fun cong_step :: "nfs_cong_state \<Rightarrow> cong_event \<Rightarrow> nfs_cong_state" where
  "cong_step c CongAck = nfs_cong_on_ack c"
| "cong_step c CongLoss = nfs_cong_on_loss c"
| "cong_step c CongTripleDup = nfs_cong_on_triple_dup_ack c"

text \<open>The window has room to grow by a segment: the code does not guard its addition.\<close>

fun cong_ok :: "nfs_cong_state \<Rightarrow> cong_event \<Rightarrow> bool" where
  "cong_ok c e = (unat (cg_cwnd c) + unat (cg_mss c) < 4294967296)"

definition cong_inv :: "u32 \<Rightarrow> nfs_cong_state \<Rightarrow> bool" where
  "cong_inv m c \<longleftrightarrow> cg_mss c = m \<and> 0 < unat m \<and> unat m \<le> 65535 \<and> unat m \<le> unat (cg_cwnd c) \<and>
     min 65535 (2 * unat m) \<le> unat (cg_ssthresh c) \<and>
     (cg_phase c = NFS_CONG_AVOIDANCE \<longrightarrow> unat (cg_ssthresh c) \<le> unat (cg_cwnd c))"

lemma on_ack_cwnd:
  assumes "cong_inv m c" and "unat (cg_cwnd c) + unat m < 4294967296"
  shows "unat (cg_cwnd (nfs_cong_on_ack c)) = unat (cg_cwnd c) +
      (if cg_phase c = NFS_CONG_SLOW_START then unat m else increase (unat m) (unat (cg_cwnd c)))"
proof -
  have i: "increase (unat m) (unat (cg_cwnd c)) \<le> unat m"
    using assms(1) by (intro increase_le) (simp_all add: cong_inv_def)
  have u: "unat (if (m * m) div cg_cwnd c = 0 then 1 else (m * m) div cg_cwnd c) =
      increase (unat m) (unat (cg_cwnd c))"
    using assms(1) by (intro unat_increase) (simp add: cong_inv_def)
  then have "unat (cg_cwnd c) + unat (if (m * m) div cg_cwnd c = 0 then 1 else (m * m) div cg_cwnd c) < 4294967296"
    using i assms(2) by linarith
  from unat_add_small [OF this]
  have "unat (cg_cwnd c + (if (m * m) div cg_cwnd c = 0 then 1 else (m * m) div cg_cwnd c)) =
      unat (cg_cwnd c) + increase (unat m) (unat (cg_cwnd c))"
    by (simp only: u)
  then show ?thesis
    using assms by (auto simp: nfs_cong_on_ack_def Let_def cong_inv_def unat_add_small)
qed

lemma cong_step_inv:
  assumes "cong_inv m c" and "cong_ok c e"
  shows "cong_inv m (cong_step c e)"
proof (cases e)
  case CongAck
  have "unat (cg_cwnd (nfs_cong_on_ack c)) \<ge> unat (cg_cwnd c)"
    using assms on_ack_cwnd [OF assms(1)] by (simp add: cong_inv_def)
  moreover have "cg_phase (nfs_cong_on_ack c) = NFS_CONG_AVOIDANCE \<longleftrightarrow>
      cg_phase c \<noteq> NFS_CONG_SLOW_START \<or> unat (cg_ssthresh c) \<le> unat (cg_cwnd (nfs_cong_on_ack c))"
    if "cg_phase c = NFS_CONG_SLOW_START"
    using that by (auto simp: nfs_cong_on_ack_def Let_def word_le_nat_alt)
  moreover have "cg_ssthresh (nfs_cong_on_ack c) = cg_ssthresh c" "cg_mss (nfs_cong_on_ack c) = cg_mss c"
    by (auto simp: nfs_cong_on_ack_def Let_def)
  moreover have "cg_phase c = NFS_CONG_SLOW_START \<or> cg_phase c = NFS_CONG_AVOIDANCE"
    by (cases "cg_phase c") auto
  ultimately show ?thesis using assms(1) CongAck by (auto simp: cong_inv_def)
next
  case CongLoss
  then show ?thesis
    using assms(1) by (auto simp: cong_inv_def nfs_cong_on_loss_def unat_halved halved_def)
next
  case CongTripleDup
  then show ?thesis
    using assms(1)
    by (auto simp: cong_inv_def nfs_cong_on_triple_dup_ack_def Let_def unat_halved unat_halved_plus)
      (auto simp: halved_def)
qed

interpretation congestion: machine cong_step cong_ok "cong_inv m" for m
  by unfold_locales (rule cong_step_inv)

lemma cong_init_inv: "0 < unat m \<Longrightarrow> unat m \<le> 65535 \<Longrightarrow> cong_inv m (nfs_cong_init m)"
  by (simp add: cong_inv_def nfs_cong_init_def)

text \<open>
  For a segment size of at most 65535 bytes, and as long as the window does not reach 2^32, every
  run of acknowledgments, timeouts and triple duplicates keeps the window at one segment or more,
  the threshold at two segments (or its initial value) or more, and congestion avoidance
  only runs with the window at or above the threshold.
\<close>
theorem congestion_window_invariant:
  assumes "0 < unat mss" and "unat mss \<le> 65535"
    and "guarded cong_step cong_ok (nfs_cong_init mss) es"
  shows "let c = foldl cong_step (nfs_cong_init mss) es in
    cg_mss c = mss \<and> mss \<le> nfs_cong_window c \<and> min 65535 (2 * unat mss) \<le> unat (cg_ssthresh c) \<and>
    (cg_phase c = NFS_CONG_AVOIDANCE \<longrightarrow> cg_ssthresh c \<le> nfs_cong_window c)"
  using congestion.run_inv [OF cong_init_inv [OF assms(1,2)] assms(3)]
  by (simp add: Let_def cong_inv_def nfs_cong_window_def word_le_nat_alt)

lemma congestion_window_invariant_witness:
  "1000 \<le> nfs_cong_window (foldl cong_step (nfs_cong_init 1000) [CongAck, CongLoss, CongAck])"
proof -
  have "guarded cong_step cong_ok (nfs_cong_init 1000) [CongAck, CongLoss, CongAck]"
    by (simp add: nfs_cong_init_def nfs_cong_on_ack_def nfs_cong_on_loss_def max_u32_def Let_def)
  from congestion_window_invariant [OF _ _ this] show ?thesis by (simp add: Let_def)
qed

text \<open>
  Multiplicative decrease: a timeout sets the threshold to half the window but at least two
  segments and restarts from one segment; a triple duplicate acknowledgment keeps three segments
  above the halved window. No arithmetic wraps for segments of at most 65535 bytes.
\<close>
theorem congestion_decrease_correct:
  assumes "unat (cg_mss c) \<le> 65535"
  shows "unat (cg_ssthresh (nfs_cong_on_loss c)) = max (unat (cg_cwnd c) div 2) (2 * unat (cg_mss c)) \<and>
    cg_cwnd (nfs_cong_on_loss c) = cg_mss c \<and> cg_phase (nfs_cong_on_loss c) = NFS_CONG_SLOW_START \<and>
    cg_ssthresh (nfs_cong_on_triple_dup_ack c) = cg_ssthresh (nfs_cong_on_loss c) \<and>
    unat (cg_cwnd (nfs_cong_on_triple_dup_ack c)) =
      max (unat (cg_cwnd c) div 2) (2 * unat (cg_mss c)) + 3 * unat (cg_mss c)"
  using assms
  by (simp add: nfs_cong_on_loss_def nfs_cong_on_triple_dup_ack_def Let_def unat_halved unat_halved_plus halved_def)

lemma congestion_decrease_correct_witness:
  "unat (cg_cwnd (nfs_cong_on_triple_dup_ack
     \<lparr> cg_cwnd = 20000, cg_ssthresh = 65535, cg_mss = 1000, cg_phase = NFS_CONG_AVOIDANCE \<rparr>)) = 13000"
  using congestion_decrease_correct [of
    "\<lparr> cg_cwnd = 20000, cg_ssthresh = 65535, cg_mss = 1000, cg_phase = NFS_CONG_AVOIDANCE \<rparr>"] by simp

section \<open>Growth per round trip\<close>

lemma increase_mono: "w \<le> v \<Longrightarrow> 0 < w \<Longrightarrow> increase m v \<le> increase m w"
  unfolding increase_def by (intro max.mono div_le_mono2) simp_all

lemma increase_window: "0 < w \<Longrightarrow> k * m \<le> w \<Longrightarrow> k * increase m w \<le> max m k"
proof (cases "m * m div w = 0")
  case False
  assume "0 < w" "k * m \<le> w"
  have "k * (m * m div w) * w = k * (m * m div w * w)" by (simp only: mult.assoc)
  also have "\<dots> \<le> k * (m * m)" by (intro mult_le_mono2 div_times_less_eq_dividend)
  finally have "k * (m * m div w) \<le> k * (m * m) div w"
    using \<open>0 < w\<close> by (simp only: less_eq_div_iff_mult_less_eq)
  also have "\<dots> = (k * m) * m div w" by (simp add: mult.assoc)
  also have "\<dots> \<le> (w * m) div w" using \<open>k * m \<le> w\<close> by (intro div_le_mono mult_le_mono1)
  also have "\<dots> = m" using \<open>0 < w\<close> by simp
  finally have "k * (m * m div w) \<le> max m k" by simp
  moreover have "increase m w = m * m div w" using False by (simp add: increase_def)
  ultimately show ?thesis by simp
qed (simp add: increase_def)

lemma avoidance_run:
  assumes "cong_inv m c" and "cg_phase c = NFS_CONG_AVOIDANCE"
    and "unat (cg_cwnd c) + (k + 1) * unat m < 4294967296"
  shows "cong_inv m ((nfs_cong_on_ack ^^ k) c) \<and> cg_phase ((nfs_cong_on_ack ^^ k) c) = NFS_CONG_AVOIDANCE \<and>
    unat (cg_cwnd c) + k \<le> unat (cg_cwnd ((nfs_cong_on_ack ^^ k) c)) \<and>
    unat (cg_cwnd ((nfs_cong_on_ack ^^ k) c)) \<le> unat (cg_cwnd c) + k * increase (unat m) (unat (cg_cwnd c))"
  using assms(3)
proof (induction k)
  case 0
  then show ?case using assms by simp
next
  case (Suc k)
  let ?d = "(nfs_cong_on_ack ^^ k) c" and ?i = "increase (unat m) (unat (cg_cwnd c))"
  have ih: "cong_inv m ?d" "cg_phase ?d = NFS_CONG_AVOIDANCE" "unat (cg_cwnd c) + k \<le> unat (cg_cwnd ?d)"
    "unat (cg_cwnd ?d) \<le> unat (cg_cwnd c) + k * ?i"
    using Suc by simp_all
  have m: "0 < unat m" "unat m \<le> unat (cg_cwnd c)" using assms(1) by (simp_all add: cong_inv_def)
  then have "?i \<le> unat m" by (rule increase_le)
  then have "k * ?i \<le> k * unat m" by (rule mult_le_mono2)
  moreover have "(Suc k + 1) * unat m = k * unat m + 2 * unat m" by simp
  ultimately have ok: "unat (cg_cwnd ?d) + unat m < 4294967296" using Suc.prems ih(4) by linarith
  have cw: "unat (cg_cwnd (nfs_cong_on_ack ?d)) = unat (cg_cwnd ?d) + increase (unat m) (unat (cg_cwnd ?d))"
    using on_ack_cwnd [OF ih(1) ok] ih(2) by simp
  have "increase (unat m) (unat (cg_cwnd ?d)) \<le> ?i"
    using ih(3) m by (intro increase_mono) linarith+
  moreover have "1 \<le> increase (unat m) (unat (cg_cwnd ?d))" by (simp add: increase_def)
  moreover have "cong_inv m (nfs_cong_on_ack ?d)"
    using cong_step_inv [OF ih(1), of CongAck] ok ih(1) by (simp add: cong_inv_def)
  moreover have "cg_phase (nfs_cong_on_ack ?d) = NFS_CONG_AVOIDANCE"
    using ih(2) by (simp add: nfs_cong_on_ack_def Let_def)
  ultimately show ?case using cw ih(3,4) by simp
qed

text \<open>
  Additive increase: in congestion avoidance, a window's worth of acknowledgments (one round
  trip) grows the window by at least one byte per acknowledgment and in total by at most one segment
  (or, for windows above mss^2, where the code forces an increase of one, one byte per acknowledgment).
\<close>
theorem congestion_avoidance_linear:
  assumes "cong_inv m c" and "cg_phase c = NFS_CONG_AVOIDANCE"
    and "k * unat m \<le> unat (cg_cwnd c)" and "unat (cg_cwnd c) + (k + 1) * unat m < 4294967296"
  shows "unat (cg_cwnd c) + k \<le> unat (cg_cwnd ((nfs_cong_on_ack ^^ k) c)) \<and>
    unat (cg_cwnd ((nfs_cong_on_ack ^^ k) c)) \<le> unat (cg_cwnd c) + max (unat m) k"
proof -
  have "k * increase (unat m) (unat (cg_cwnd c)) \<le> max (unat m) k"
    using assms(1,3) by (intro increase_window) (simp_all add: cong_inv_def)
  with avoidance_run [OF assms(1,2,4)] show ?thesis by simp
qed

lemma congestion_avoidance_linear_witness:
  "unat (cg_cwnd ((nfs_cong_on_ack ^^ 10)
     \<lparr> cg_cwnd = 10000, cg_ssthresh = 8000, cg_mss = 1000, cg_phase = NFS_CONG_AVOIDANCE \<rparr>)) \<le> 11000"
  using congestion_avoidance_linear [of 1000
    "\<lparr> cg_cwnd = 10000, cg_ssthresh = 8000, cg_mss = 1000, cg_phase = NFS_CONG_AVOIDANCE \<rparr>" 10]
  by (simp add: cong_inv_def)

text \<open>
  Exponential growth: while slow start lasts, \<open>k\<close> acknowledgments add \<open>k\<close> segments, so that a
  window's worth of them doubles the window.
\<close>
theorem slow_start_doubles:
  assumes "cg_phase c = NFS_CONG_SLOW_START"
    and "unat (cg_cwnd c) + k * unat (cg_mss c) < unat (cg_ssthresh c)"
  shows "unat (cg_cwnd ((nfs_cong_on_ack ^^ k) c)) = unat (cg_cwnd c) + k * unat (cg_mss c) \<and>
    cg_phase ((nfs_cong_on_ack ^^ k) c) = NFS_CONG_SLOW_START \<and>
    (k * unat (cg_mss c) = unat (cg_cwnd c) \<longrightarrow> unat (cg_cwnd ((nfs_cong_on_ack ^^ k) c)) = 2 * unat (cg_cwnd c))"
proof -
  have "unat (cg_cwnd ((nfs_cong_on_ack ^^ j) c)) = unat (cg_cwnd c) + j * unat (cg_mss c) \<and>
      cg_phase ((nfs_cong_on_ack ^^ j) c) = NFS_CONG_SLOW_START \<and>
      cg_mss ((nfs_cong_on_ack ^^ j) c) = cg_mss c \<and> cg_ssthresh ((nfs_cong_on_ack ^^ j) c) = cg_ssthresh c"
    if "j \<le> k" for j
    using that
  proof (induction j)
    case (Suc j)
    let ?d = "(nfs_cong_on_ack ^^ j) c"
    have "Suc j * unat (cg_mss c) \<le> k * unat (cg_mss c)" using Suc.prems by (rule mult_le_mono1)
    then have lt: "unat (cg_cwnd ?d) + unat (cg_mss ?d) < unat (cg_ssthresh c)" using Suc assms(2) by simp
    then have "unat (cg_cwnd ?d + cg_mss ?d) = unat (cg_cwnd ?d) + unat (cg_mss ?d)"
      using unat_u32_less [of "cg_ssthresh c"] by (intro unat_add_small) simp
    with Suc lt show ?case by (simp add: nfs_cong_on_ack_def [of ?d] Let_def word_le_nat_alt)
  qed (use assms(1) in simp)
  then show ?thesis by simp
qed

lemma slow_start_doubles_witness:
  "unat (cg_cwnd ((nfs_cong_on_ack ^^ 4)
     \<lparr> cg_cwnd = 4000, cg_ssthresh = 65535, cg_mss = 1000, cg_phase = NFS_CONG_SLOW_START \<rparr>)) = 8000"
  using slow_start_doubles [of
    "\<lparr> cg_cwnd = 4000, cg_ssthresh = 65535, cg_mss = 1000, cg_phase = NFS_CONG_SLOW_START \<rparr>" 4] by simp

section \<open>Fast recovery\<close>

fun fr_signals :: "nfs_fr_state \<Rightarrow> u32 list \<Rightarrow> fr_signal list" where
  "fr_signals s [] = []"
| "fr_signals s (a # as) = (case nfs_fr_on_ack s a of (sig, s') \<Rightarrow> sig # fr_signals s' as)"

text \<open>\<open>alternate b sigs\<close>: retransmissions and recovery exits take turns, \<open>b\<close> telling that an exit is next.\<close>

fun alternate :: "bool \<Rightarrow> fr_signal list \<Rightarrow> bool" where
  "alternate b [] = True"
| "alternate b (NFS_FR_NORMAL # sigs) = alternate b sigs"
| "alternate b (NFS_FR_FAST_RETRANSMIT # sigs) = (\<not> b \<and> alternate True sigs)"
| "alternate b (NFS_FR_RECOVERY_EXIT # sigs) = (b \<and> alternate False sigs)"

lemma fr_signal_effect:
  assumes "nfs_fr_on_ack s a = (sig, s')"
  shows "case sig of
      NFS_FR_NORMAL \<Rightarrow> fr_in_recovery s' = fr_in_recovery s
    | NFS_FR_FAST_RETRANSMIT \<Rightarrow> \<not> fr_in_recovery s \<and> fr_in_recovery s' \<and> fr_dup_ack_count s' = 3 \<and>
        fr_cwnd s' = fr_ssthresh s' + 3 * fr_mss s' \<and> a = fr_last_ack s
    | NFS_FR_RECOVERY_EXIT \<Rightarrow> fr_in_recovery s \<and> \<not> fr_in_recovery s' \<and> fr_cwnd s' = fr_ssthresh s \<and>
        fr_last_ack s < a"
  using assms by (auto simp: nfs_fr_on_ack_def Let_def split: if_splits)

text \<open>
  One retransmission per loss: whatever acknowledgments arrive, fast retransmissions and recovery
  exits are signalled in turn, a retransmission first; recovery is entered on the third
  duplicate with the halved window plus three segments and left with the window at the threshold.
\<close>
theorem fast_recovery_alternates:
  "alternate False (fr_signals (nfs_fr_init mss cwnd) acks) \<and>
   (\<forall>s a s'. nfs_fr_on_ack s a = (NFS_FR_FAST_RETRANSMIT, s') \<longrightarrow>
     fr_dup_ack_count s' = 3 \<and> a = fr_last_ack s \<and> fr_cwnd s' = fr_ssthresh s' + 3 * fr_mss s') \<and>
   (\<forall>s a s'. nfs_fr_on_ack s a = (NFS_FR_RECOVERY_EXIT, s') \<longrightarrow>
     fr_last_ack s < a \<and> nfs_fr_cwnd s' = fr_ssthresh s \<and> \<not> nfs_fr_in_recovery s')"
proof -
  have "alternate (fr_in_recovery s) (fr_signals s acks)" for s
  proof (induction acks arbitrary: s)
    case (Cons a acks)
    obtain sig s' where r: "nfs_fr_on_ack s a = (sig, s')" by fastforce
    have "alternate (fr_in_recovery s') (fr_signals s' acks)" by (rule Cons.IH)
    then show ?case using fr_signal_effect [OF r] r by (cases sig) auto
  qed simp
  from this [of "nfs_fr_init mss cwnd"] have "alternate False (fr_signals (nfs_fr_init mss cwnd) acks)"
    by (simp add: nfs_fr_init_def)
  then show ?thesis
    using fr_signal_effect by (fastforce simp: nfs_fr_cwnd_def nfs_fr_in_recovery_def)
qed

lemma fast_recovery_alternates_witness:
  "\<exists>s'. nfs_fr_on_ack \<lparr> fr_cwnd = 10000, fr_ssthresh = 65535, fr_mss = 1000, fr_dup_ack_count = 2,
      fr_last_ack = 7, fr_in_recovery = False, fr_recovery_point = 0 \<rparr> 7 = (NFS_FR_FAST_RETRANSMIT, s') \<and>
    fr_cwnd s' = fr_ssthresh s' + 3 * fr_mss s'"
proof -
  let ?s = "\<lparr> fr_cwnd = 10000, fr_ssthresh = 65535, fr_mss = 1000, fr_dup_ack_count = 2,
      fr_last_ack = 7, fr_in_recovery = False, fr_recovery_point = 0 \<rparr> :: nfs_fr_state"
  have "\<exists>s'. nfs_fr_on_ack ?s 7 = (NFS_FR_FAST_RETRANSMIT, s')"
    by (simp add: nfs_fr_on_ack_def Let_def)
  then show ?thesis using fast_recovery_alternates by blast
qed

section \<open>Reno is slow start with congestion avoidance\<close>

text \<open>
  Away from fast recovery Reno keeps no phase: it compares the window with the threshold.
  \<open>reno_cong\<close> reads the state of the first controller off it.
\<close>

datatype reno_event = RenoAck u32 | RenoTimeout

fun reno_step :: "nfs_reno \<Rightarrow> reno_event \<Rightarrow> nfs_reno" where
  "reno_step r (RenoAck n) = nfs_reno_on_ack r n"
| "reno_step r RenoTimeout = nfs_reno_on_timeout r"

fun reno_ok :: "nfs_reno \<Rightarrow> reno_event \<Rightarrow> bool" where
  "reno_ok r e = (unat (rn_cwnd r) + unat (rn_mss r) < 4294967296)"

definition reno_cong :: "nfs_reno \<Rightarrow> nfs_cong_state" where
  "reno_cong r = \<lparr> cg_cwnd = rn_cwnd r, cg_ssthresh = rn_ssthresh r, cg_mss = rn_mss r,
     cg_phase = (if rn_cwnd r < rn_ssthresh r then NFS_CONG_SLOW_START else NFS_CONG_AVOIDANCE) \<rparr>"

fun reno_spec :: "nfs_cong_state \<Rightarrow> reno_event \<Rightarrow> nfs_cong_state" where
  "reno_spec c (RenoAck n) = nfs_cong_on_ack c"
| "reno_spec c RenoTimeout = nfs_cong_on_loss c"

definition reno_inv :: "u32 \<Rightarrow> nfs_reno \<Rightarrow> bool" where
  "reno_inv m r \<longleftrightarrow> \<not> rn_in_recovery r \<and> rn_dup_ack_count r = 0 \<and> cong_inv m (reno_cong r)"

lemma increase_64:
  assumes "unat (m :: u32) \<le> 65535"
  shows "(ucast ((ucast m * ucast m :: u64) div ucast w) :: u32) = (m * m) div w"
proof -
  have up: "unat (ucast x :: u64) = unat x" for x :: u32
    using unat_u32_less [of x] by (simp add: unsigned_ucast_eq take_bit_nat_eq_self_iff)
  have sq: "unat m * unat m < 4294967296" using assms by (rule square_mss)
  then have q: "unat m * unat m div unat w < 4294967296" by (rule le_less_trans [OF div_le_dividend])
  have "unat (ucast m * ucast m :: u64) = unat m * unat m"
    using sq by (simp add: unat_word_ariths up)
  then have "unat ((ucast m * ucast m :: u64) div ucast w) = unat m * unat m div unat w"
    by (simp add: unat_div_distrib up)
  then have "unat (ucast ((ucast m * ucast m :: u64) div ucast w) :: u32) = unat m * unat m div unat w"
    using q by (simp add: unsigned_ucast_eq take_bit_nat_eq_self_iff)
  moreover have "unat ((m * m) div w) = unat m * unat m div unat w"
    using sq by (simp add: unat_div_distrib unat_mult_small)
  ultimately show ?thesis by (simp add: word_unat_eq_iff)
qed

lemma reno_step_simulates:
  assumes "reno_inv m r" and "reno_ok r e"
  shows "reno_cong (reno_step r e) = reno_spec (reno_cong r) e" and "reno_inv m (reno_step r e)"
proof -
  have m: "rn_mss r = m" "0 < unat m" "unat m \<le> 65535" "unat m \<le> unat (rn_cwnd r)" "\<not> rn_in_recovery r"
    "min 65535 (2 * unat m) \<le> unat (rn_ssthresh r)"
    using assms(1) by (simp_all add: reno_inv_def reno_cong_def cong_inv_def)
  have ok: "unat (rn_cwnd r) + unat m < 4294967296" using assms(2) m(1) by (cases e) simp_all
  show eq: "reno_cong (reno_step r e) = reno_spec (reno_cong r) e"
  proof (cases e)
    case (RenoAck n)
    show ?thesis
    proof (cases "rn_cwnd r < rn_ssthresh r")
      case True
      then show ?thesis
        using RenoAck m by (auto simp: nfs_reno_on_ack_def reno_cong_def nfs_cong_on_ack_def Let_def not_less)
    next
      case False
      let ?inc = "if (m * m) div rn_cwnd r = 0 then 1 else (m * m) div rn_cwnd r"
      have "unat ?inc \<le> unat m"
        by (subst unat_increase [OF m(3)]) (rule increase_le [OF m(2,4)])
      then have "unat (rn_cwnd r + ?inc) = unat (rn_cwnd r) + unat ?inc"
        using ok by (intro unat_add_small) linarith
      then have "\<not> rn_cwnd r + ?inc < rn_ssthresh r"
        using False by (simp add: word_less_nat_alt)
      then show ?thesis
        using RenoAck m(1,5) False increase_64 [OF m(3), of "rn_cwnd r"]
        by (simp add: nfs_reno_on_ack_def reno_cong_def nfs_cong_on_ack_def Let_def)
    qed
  next
    case RenoTimeout
    have "m < max_u32 (rn_cwnd r div 2) (2 * m)"
      using m(2,3) by (simp add: word_less_nat_alt unat_halved halved_def)
    then show ?thesis
      using RenoTimeout m(1) by (simp add: nfs_reno_on_timeout_def reno_cong_def nfs_cong_on_loss_def)
  qed
  have "cong_ok (reno_cong r) CongAck" using ok m(1) by (simp add: reno_cong_def)
  then have "cong_inv m (reno_spec (reno_cong r) e)"
    using assms(1) cong_step_inv [of m "reno_cong r" CongAck] cong_step_inv [of m "reno_cong r" CongLoss]
    by (cases e) (simp_all add: reno_inv_def)
  moreover have "\<not> rn_in_recovery (reno_step r e) \<and> rn_dup_ack_count (reno_step r e) = 0"
    using m(5) by (cases e) (auto simp: nfs_reno_on_ack_def nfs_reno_on_timeout_def Let_def)
  ultimately show "reno_inv m (reno_step r e)" using eq by (simp add: reno_inv_def)
qed

interpretation reno: simulation reno_step reno_ok "reno_inv m" reno_cong reno_spec for m
  by unfold_locales (fact reno_step_simulates)+

text \<open>
  Reno agrees with the controller of the earlier lesson: over every run of acknowledgments and
  timeouts (segments below 65535 bytes, the window below 2^32) both have the same window and
  threshold, although Reno keeps no phase and computes its increase in 64 bits. Of three
  duplicates that follow, only the third signals a retransmission, and its cut of the
  window is the one the earlier controller makes.
\<close>
theorem reno_agrees_with_congestion:
  assumes "0 < unat mss" and "unat mss < 65535" and "guarded reno_step reno_ok (nfs_reno_init mss) es"
  shows "let r = foldl reno_step (nfs_reno_init mss) es; c = foldl reno_spec (nfs_cong_init mss) es;
      (s1, r1) = nfs_reno_on_dup_ack r; (s2, r2) = nfs_reno_on_dup_ack r1; (s3, r3) = nfs_reno_on_dup_ack r2 in
    nfs_reno_cwnd r = nfs_cong_window c \<and> rn_ssthresh r = cg_ssthresh c \<and>
    \<not> s1 \<and> \<not> s2 \<and> s3 \<and> nfs_reno_cwnd r3 = nfs_cong_window (nfs_cong_on_triple_dup_ack c) \<and>
    nfs_reno_phase r3 = ''fast_recovery''"
proof -
  let ?r = "foldl reno_step (nfs_reno_init mss) es"
  have init: "reno_cong (nfs_reno_init mss) = nfs_cong_init mss"
    using assms(2) by (simp add: reno_cong_def nfs_reno_init_def nfs_cong_init_def word_less_nat_alt)
  have inv: "reno_inv mss (nfs_reno_init mss)"
    using assms(1,2) cong_init_inv [of mss] by (simp add: reno_inv_def init) (simp add: nfs_reno_init_def)
  have "reno_cong ?r = foldl reno_spec (nfs_cong_init mss) es"
    using reno.run_abs [OF inv assms(3)] by (simp only: init)
  moreover have r: "\<not> rn_in_recovery ?r" "rn_mss ?r = mss" "rn_dup_ack_count ?r = 0"
    using reno.run_inv [OF inv assms(3)] by (simp_all add: reno_inv_def cong_inv_def reno_cong_def)
  ultimately have "cg_cwnd (foldl reno_spec (nfs_cong_init mss) es) = rn_cwnd ?r"
    "cg_ssthresh (foldl reno_spec (nfs_cong_init mss) es) = rn_ssthresh ?r"
    "cg_mss (foldl reno_spec (nfs_cong_init mss) es) = mss"
    by (metis reno_cong_def nfs_cong_state.select_convs(1,2,3))+
  with r show ?thesis
    by (simp add: Let_def nfs_reno_cwnd_def nfs_cong_window_def nfs_reno_on_dup_ack_def
        nfs_cong_on_triple_dup_ack_def nfs_reno_phase_def)
qed

lemma reno_agrees_with_congestion_witness:
  "nfs_reno_cwnd (foldl reno_step (nfs_reno_init 1000) [RenoAck 1000, RenoTimeout, RenoAck 500]) =
   nfs_cong_window (foldl reno_spec (nfs_cong_init 1000) [RenoAck 1000, RenoTimeout, RenoAck 500])"
proof -
  have "guarded reno_step reno_ok (nfs_reno_init 1000) [RenoAck 1000, RenoTimeout, RenoAck 500]"
    by (simp add: nfs_reno_init_def nfs_reno_on_ack_def nfs_reno_on_timeout_def max_u32_def Let_def)
  moreover have "0 < unat (1000 :: u32)" "unat (1000 :: u32) < 65535" by simp_all
  ultimately show ?thesis
    using reno_agrees_with_congestion [of 1000] by (auto simp only: Let_def split: prod.splits)
qed

end
