(* ===== verification/Cidr.thy ===== *)
theory Cidr
  imports Prelude
begin

text \<open>
  CIDR blocks (\<^verbatim>\<open>phases/03-network-layer/03-cidr-and-subnetting/cidr.c\<close>): masks, the bounds of a
  block, membership and overlap. A prefix length above 32, for which the shift of the code is
  undefined, is excluded by the hypotheses. The text parsers and formatters are not
  modelled.
\<close>

section \<open>Definitions\<close>

record nfs_cidr =
  cidr_addr :: u32
  cidr_prefix_len :: u8

definition nfs_cidr_mask :: "u8 \<Rightarrow> u32" where
  "nfs_cidr_mask prefix_len =
     (if prefix_len = 0 then 0 else push_bit (32 - unat prefix_len) 0xFFFFFFFF)"

definition nfs_cidr_network :: "nfs_cidr \<Rightarrow> u32" where
  "nfs_cidr_network c = cidr_addr c AND nfs_cidr_mask (cidr_prefix_len c)"

definition nfs_cidr_broadcast :: "nfs_cidr \<Rightarrow> u32" where
  "nfs_cidr_broadcast c = nfs_cidr_network c OR NOT (nfs_cidr_mask (cidr_prefix_len c))"

definition nfs_cidr_host_count :: "u8 \<Rightarrow> u32" where
  "nfs_cidr_host_count prefix_len =
     (if prefix_len \<ge> 32 then 1
      else if prefix_len = 31 then 2
      else if prefix_len = 0 then 0xFFFFFFFE
      else push_bit (32 - unat prefix_len) 1 - 2)"

definition nfs_cidr_contains :: "nfs_cidr \<Rightarrow> u32 \<Rightarrow> bool" where
  "nfs_cidr_contains net ip \<longleftrightarrow>
     ip AND nfs_cidr_mask (cidr_prefix_len net) = cidr_addr net AND nfs_cidr_mask (cidr_prefix_len net)"

definition nfs_cidr_overlap :: "nfs_cidr \<Rightarrow> nfs_cidr \<Rightarrow> bool" where
  "nfs_cidr_overlap a b \<longleftrightarrow>
     (let shorter = (if cidr_prefix_len a < cidr_prefix_len b then cidr_prefix_len a else cidr_prefix_len b);
          m = nfs_cidr_mask shorter
      in cidr_addr a AND m = cidr_addr b AND m)"

section \<open>Masks\<close>

text \<open>The number of host bits of a prefix length.\<close>

definition host_bits :: "u8 \<Rightarrow> nat" where
  "host_bits p = 32 - unat p"

lemma cidr_mask_bits: "nfs_cidr_mask p = NOT (mask (host_bits p))"
proof -
  have f: "(0xFFFFFFFF :: u32) = mask 32" by (simp add: mask_eq_exp_minus_1)
  show ?thesis
  proof (cases "p = 0")
    case True
    have "(NOT (mask 32) :: u32) = 0" by (rule bit_word_eqI) (simp add: bit_simps)
    with True show ?thesis by (simp add: nfs_cidr_mask_def host_bits_def)
  next
    case False
    then show ?thesis
      unfolding nfs_cidr_mask_def f host_bits_def
      by (simp, intro bit_word_eqI) (auto simp: bit_simps)
  qed
qed

lemma masked_push: "x AND nfs_cidr_mask p = push_bit (host_bits p) (drop_bit (host_bits p) x)"
  by (rule bit_word_eqI) (auto simp: cidr_mask_bits bit_simps)

lemma masked_drop: "drop_bit (host_bits p) (x AND nfs_cidr_mask p) = drop_bit (host_bits p) x"
  by (rule bit_word_eqI) (auto simp: cidr_mask_bits bit_simps dest: bit_imp_le_length)

lemma unat_drop_host: "unat (drop_bit n (x :: u32)) = unat x div 2 ^ n"
  by (subst unat_drop_bit_eq) (rule drop_bit_eq_div)

lemma masked_eq_iff: "x AND nfs_cidr_mask p = y AND nfs_cidr_mask p \<longleftrightarrow>
    unat x div 2 ^ host_bits p = unat y div 2 ^ host_bits p"
proof -
  have "x AND nfs_cidr_mask p = y AND nfs_cidr_mask p \<longleftrightarrow>
      drop_bit (host_bits p) x = drop_bit (host_bits p) y"
    using masked_push masked_drop by metis
  also have "\<dots> \<longleftrightarrow> unat x div 2 ^ host_bits p = unat y div 2 ^ host_bits p"
    by (simp only: word_unat_eq_iff unat_drop_host)
  finally show ?thesis .
qed

lemma unat_masked: "unat (x AND nfs_cidr_mask p) = unat x div 2 ^ host_bits p * 2 ^ host_bits p"
proof -
  let ?k = "host_bits p"
  have "unat x div 2 ^ ?k * 2 ^ ?k \<le> unat x" by (rule div_times_less_eq_dividend)
  then have "unat x div 2 ^ ?k * 2 ^ ?k < 4294967296"
    using unat_u32_less [of x] by (rule le_less_trans)
  then have "unat x div 2 ^ ?k * 2 ^ ?k mod 2 ^ 32 = unat x div 2 ^ ?k * 2 ^ ?k" by simp
  then have "take_bit 32 (push_bit ?k (unat x div 2 ^ ?k)) = unat x div 2 ^ ?k * 2 ^ ?k"
    by (simp only: take_bit_eq_mod push_bit_eq_mult)
  then show ?thesis
    by (simp only: masked_push unsigned_push_bit_eq unat_drop_host len_num1 len_bit0 len_of_numeral_defs) simp
qed

lemma mask_idem [simp]: "(x AND nfs_cidr_mask p) AND nfs_cidr_mask p = x AND nfs_cidr_mask p"
  by (simp add: and.assoc)

lemma mask_coarser:
  assumes "p \<le> q" and "x AND nfs_cidr_mask q = y AND nfs_cidr_mask q"
  shows "x AND nfs_cidr_mask p = y AND nfs_cidr_mask p"
proof -
  have m: "nfs_cidr_mask p = nfs_cidr_mask q AND nfs_cidr_mask p"
    using assms(1) by (intro bit_word_eqI) (auto simp: cidr_mask_bits bit_simps host_bits_def word_le_nat_alt)
  show ?thesis by (metis assms(2) m and.assoc)
qed

section \<open>Blocks are intervals\<close>

lemma div_eq_iff_interval:
  "0 < (K :: nat) \<Longrightarrow> x div K = a div K \<longleftrightarrow> a div K * K \<le> x \<and> x < a div K * K + K"
  by (metis add.commute div_nat_eqI div_times_less_eq_dividend dividend_less_div_times mult.commute mult_Suc_right)

lemma unat_broadcast:
  "unat (nfs_cidr_broadcast c) = unat (nfs_cidr_network c) + (2 ^ host_bits (cidr_prefix_len c) - 1)"
proof -
  let ?k = "host_bits (cidr_prefix_len c)"
  have d: "nfs_cidr_network c AND mask ?k = 0"
    by (rule bit_word_eqI) (auto simp: nfs_cidr_network_def cidr_mask_bits bit_simps)
  have "nfs_cidr_broadcast c = nfs_cidr_network c OR mask ?k"
    by (simp add: nfs_cidr_broadcast_def cidr_mask_bits)
  also have "\<dots> = nfs_cidr_network c + mask ?k" using d by (simp add: disjunctive_add_eq_or)
  finally have b: "nfs_cidr_broadcast c = nfs_cidr_network c + mask ?k" .
  have k: "?k \<le> 32" by (simp add: host_bits_def)
  have m: "unat (mask ?k :: u32) = 2 ^ ?k - 1"
  proof -
    have "unat (of_nat (mask ?k) :: u32) = take_bit 32 (mask ?k)" by (simp only: unsigned_of_nat) simp
    then have "unat (mask ?k :: u32) = take_bit 32 (mask ?k)" by (simp only: of_nat_mask_eq)
    moreover have "(2 :: nat) ^ ?k \<le> 2 ^ 32" using k by (intro power_increasing) simp_all
    ultimately show ?thesis
      by (simp add: take_bit_nat_eq_self_iff mask_eq_exp_minus_1)
  qed
  have "unat (nfs_cidr_network c) = unat (cidr_addr c) div 2 ^ ?k * 2 ^ ?k"
    by (simp add: nfs_cidr_network_def unat_masked)
  moreover have "unat (cidr_addr c) div 2 ^ ?k * 2 ^ ?k + 2 ^ ?k \<le> 2 ^ 32"
  proof -
    have e: "(2 :: nat) ^ 32 = 2 ^ (32 - ?k) * 2 ^ ?k"
      using k by (simp add: power_add [symmetric])
    have "unat (cidr_addr c) < 2 ^ (32 - ?k) * 2 ^ ?k"
      using unat_u32_less [of "cidr_addr c"] by (simp add: e [symmetric])
    then have "unat (cidr_addr c) div 2 ^ ?k < 2 ^ (32 - ?k)" by (simp add: less_mult_imp_div_less)
    then have "(unat (cidr_addr c) div 2 ^ ?k + 1) * 2 ^ ?k \<le> 2 ^ (32 - ?k) * 2 ^ ?k"
      by (intro mult_le_mono1) simp
    then show ?thesis by (simp only: e) simp
  qed
  moreover have "0 < (2 :: nat) ^ ?k" "(2 :: nat) ^ 32 = 4294967296" by simp_all
  ultimately have "unat (nfs_cidr_network c) + (2 ^ ?k - 1) < 4294967296" by linarith
  then show ?thesis by (simp add: b unat_word_ariths m)
qed

lemma contains_iff:
  "nfs_cidr_contains c ip \<longleftrightarrow>
     unat (nfs_cidr_network c) \<le> unat ip \<and> unat ip \<le> unat (nfs_cidr_broadcast c)"
proof -
  let ?k = "host_bits (cidr_prefix_len c)"
  have "nfs_cidr_contains c ip \<longleftrightarrow> unat ip div 2 ^ ?k = unat (cidr_addr c) div 2 ^ ?k"
    unfolding nfs_cidr_contains_def by (rule masked_eq_iff)
  also have "\<dots> \<longleftrightarrow> unat (nfs_cidr_network c) \<le> unat ip \<and> unat ip < unat (nfs_cidr_network c) + 2 ^ ?k"
    unfolding nfs_cidr_network_def unat_masked by (rule div_eq_iff_interval) simp
  also have "\<dots> \<longleftrightarrow> unat (nfs_cidr_network c) \<le> unat ip \<and> unat ip \<le> unat (nfs_cidr_broadcast c)"
    unfolding unat_broadcast using zero_less_power [of "2 :: nat" ?k] by linarith
  finally show ?thesis .
qed

lemma block_card: "card {ip. nfs_cidr_contains c ip} = 2 ^ host_bits (cidr_prefix_len c)"
proof -
  let ?n = "unat (nfs_cidr_network c)" and ?b = "unat (nfs_cidr_broadcast c)"
  have "unat ` {ip. nfs_cidr_contains c ip} = {?n..?b}"
  proof
    show "{?n..?b} \<subseteq> unat ` {ip. nfs_cidr_contains c ip}"
    proof
      fix x
      assume x: "x \<in> {?n..?b}"
      then have "x < 4294967296" using unat_u32_less [of "nfs_cidr_broadcast c"] by simp
      then have "unat (of_nat x :: u32) = x" by (rule unat_of_nat_u32)
      then show "x \<in> unat ` {ip. nfs_cidr_contains c ip}"
        using x by (intro image_eqI [of _ _ "of_nat x"]) (simp_all add: contains_iff)
    qed
  qed (auto simp: contains_iff)
  moreover have "inj_on unat {ip :: u32. nfs_cidr_contains c ip}" by (auto simp: inj_on_def word_unat_eq_iff)
  ultimately have "card {ip. nfs_cidr_contains c ip} = card {?n..?b}" by (metis card_image)
  then show ?thesis by (simp add: unat_broadcast)
qed

text \<open>
  A block is the interval from its network to its broadcast address: \<open>nfs_cidr_contains\<close> accepts
  exactly the addresses in between, both ends included, for every address and prefix length,
  and there are 2^(32 - prefix) of them.
\<close>
theorem cidr_block_is_interval:
  "(nfs_cidr_contains c ip \<longleftrightarrow> nfs_cidr_network c \<le> ip \<and> ip \<le> nfs_cidr_broadcast c) \<and>
   card {ip. nfs_cidr_contains c ip} = 2 ^ (32 - unat (cidr_prefix_len c))"
  using contains_iff [of c ip] block_card [of c] by (simp add: word_le_nat_alt host_bits_def)

text \<open>
  Two blocks overlap, as \<open>nfs_cidr_overlap\<close> decides by comparing them under the shorter prefix,
  exactly when some address is in both; and then one of them contains the other.
\<close>
theorem cidr_overlap_correct:
  "(nfs_cidr_overlap a b \<longleftrightarrow> (\<exists>ip. nfs_cidr_contains a ip \<and> nfs_cidr_contains b ip)) \<and>
   (nfs_cidr_overlap a b \<longrightarrow>
     {ip. nfs_cidr_contains a ip} \<subseteq> {ip. nfs_cidr_contains b ip} \<or>
     {ip. nfs_cidr_contains b ip} \<subseteq> {ip. nfs_cidr_contains a ip})"
proof -
  let ?m = "\<lambda>c. nfs_cidr_mask (cidr_prefix_len c)"
  have main: "(cidr_addr c AND ?m c = cidr_addr d AND ?m c \<longleftrightarrow>
        (\<exists>ip. nfs_cidr_contains c ip \<and> nfs_cidr_contains d ip)) \<and>
      (cidr_addr c AND ?m c = cidr_addr d AND ?m c \<longrightarrow>
        {ip. nfs_cidr_contains d ip} \<subseteq> {ip. nfs_cidr_contains c ip})"
    if le: "cidr_prefix_len c \<le> cidr_prefix_len d" for c d
  proof -
    have coarse: "ip AND ?m c = cidr_addr d AND ?m c" if "nfs_cidr_contains d ip" for ip
      using le that unfolding nfs_cidr_contains_def by (rule mask_coarser)
    have self: "nfs_cidr_contains d (cidr_addr d)" by (simp only: nfs_cidr_contains_def)
    show ?thesis
    proof (intro conjI iffI impI subsetI)
      assume "cidr_addr c AND ?m c = cidr_addr d AND ?m c"
      then have "nfs_cidr_contains c (cidr_addr d)" by (simp only: nfs_cidr_contains_def)
      with self show "\<exists>ip. nfs_cidr_contains c ip \<and> nfs_cidr_contains d ip" by blast
    next
      assume "\<exists>ip. nfs_cidr_contains c ip \<and> nfs_cidr_contains d ip"
      then obtain ip where "nfs_cidr_contains c ip" "nfs_cidr_contains d ip" by blast
      with coarse [of ip] show "cidr_addr c AND ?m c = cidr_addr d AND ?m c"
        unfolding nfs_cidr_contains_def by metis
    next
      fix ip
      assume "cidr_addr c AND ?m c = cidr_addr d AND ?m c" and "ip \<in> {ip. nfs_cidr_contains d ip}"
      with coarse [of ip] show "ip \<in> {ip. nfs_cidr_contains c ip}"
        unfolding nfs_cidr_contains_def by simp
    qed
  qed
  show ?thesis
  proof (cases "cidr_prefix_len a < cidr_prefix_len b")
    case True
    then have "nfs_cidr_overlap a b \<longleftrightarrow> cidr_addr a AND ?m a = cidr_addr b AND ?m a"
      by (simp add: nfs_cidr_overlap_def Let_def)
    then show ?thesis using main [of a b] True by (meson less_imp_le)
  next
    case False
    then have "nfs_cidr_overlap a b \<longleftrightarrow> cidr_addr b AND ?m b = cidr_addr a AND ?m b"
      by (auto simp: nfs_cidr_overlap_def Let_def)
    then show ?thesis using main [of b a] False by (meson not_less)
  qed
qed

lemma cidr_overlap_correct_witness:
  "\<exists>ip. nfs_cidr_contains \<lparr> cidr_addr = 0x0A010000, cidr_prefix_len = 16 \<rparr> ip \<and>
        nfs_cidr_contains \<lparr> cidr_addr = 0x0A000000, cidr_prefix_len = 8 \<rparr> ip"
  using cidr_overlap_correct [of "\<lparr> cidr_addr = 0x0A010000, cidr_prefix_len = 16 \<rparr>"
      "\<lparr> cidr_addr = 0x0A000000, cidr_prefix_len = 8 \<rparr>"]
  by (simp add: nfs_cidr_overlap_def nfs_cidr_mask_def)

text \<open>The usable hosts are the addresses but the two ends, except in /31 and /32 blocks.\<close>

lemma host_count_value:
  assumes "unat p \<le> 32"
  shows "unat (nfs_cidr_host_count p) =
    (if unat p = 32 then 1 else if unat p = 31 then 2 else 2 ^ (32 - unat p) - 2)"
proof -
  consider "unat p = 32" | "unat p = 31" | "unat p = 0" | "0 < unat p" "unat p \<le> 30"
    using assms by linarith
  then show ?thesis
  proof cases
    case 4
    let ?k = "32 - unat p"
    have k: "2 \<le> ?k" "?k \<le> 31" using 4 by simp_all
    have e: "unat (push_bit ?k 1 :: u32) = 2 ^ ?k"
    proof -
      have "unat (push_bit ?k 1 :: u32) = take_bit 32 (push_bit ?k 1)"
        by (subst unsigned_push_bit_eq) simp
      also have "\<dots> = 2 ^ ?k mod 2 ^ 32" by (simp add: take_bit_eq_mod push_bit_eq_mult)
      also have "\<dots> = 2 ^ ?k" using k power_strict_increasing [of ?k 32 "2 :: nat"] by (intro mod_less) linarith
      finally show ?thesis .
    qed
    have "(2 :: nat) ^ 2 \<le> 2 ^ ?k" using k(1) by (intro power_increasing) simp_all
    then have "unat (push_bit ?k 1 - 2 :: u32) = 2 ^ ?k - 2"
      using e by (subst unat_sub) (simp_all add: word_le_nat_alt)
    moreover have "\<not> p \<ge> 32" "p \<noteq> 31" "p \<noteq> 0"
      using 4 by (auto simp: word_le_nat_alt)
    ultimately show ?thesis using 4 by (simp add: nfs_cidr_host_count_def)
  qed (auto simp: nfs_cidr_host_count_def word_le_nat_alt word_unat_eq_iff)
qed

end
