(* ===== verification/Lpm.thy ===== *)
theory Lpm
  imports Cidr Interfaces
begin

text \<open>
  The longest-prefix-match table
  (\<^verbatim>\<open>phases/03-network-layer/04-longest-prefix-match-routing/lpm.c\<close>). The live prefix of the
  array is the list of routes. \<open>nfs_route_table_free\<close> and the formatter are not modelled.
\<close>

section \<open>Definitions\<close>

record nfs_route =
  rt_prefix :: u32
  rt_prefix_len :: u8
  rt_next_hop :: u32
  rt_interface_id :: int

record nfs_route_table =
  routes :: "nfs_route list"
  rt_capacity :: nat

definition prefix_mask :: "u8 \<Rightarrow> u32" where
  "prefix_mask prefix_len =
     (if prefix_len = 0 then 0 else push_bit (32 - unat prefix_len) 0xFFFFFFFF)"

definition nfs_route_table_init :: "nat \<Rightarrow> nfs_route_table" where
  "nfs_route_table_init cap = \<lparr> routes = [], rt_capacity = cap \<rparr>"

text \<open>The test of the scan loops of \<open>nfs_route_add\<close> and \<open>nfs_route_remove\<close>.\<close>

definition same_route :: "u32 \<Rightarrow> u8 \<Rightarrow> nfs_route \<Rightarrow> bool" where
  "same_route prefix prefix_len r \<longleftrightarrow>
     rt_prefix_len r = prefix_len \<and>
     rt_prefix r AND prefix_mask prefix_len = prefix AND prefix_mask prefix_len"

definition nfs_route_add ::
  "nfs_route_table \<Rightarrow> u32 \<Rightarrow> u8 \<Rightarrow> u32 \<Rightarrow> int \<Rightarrow> nfs_route_table option" where
  "nfs_route_add t prefix prefix_len next_hop iface =
     (if prefix_len > 32 then None
      else
        let m = prefix_mask prefix_len in
        case find_idx (same_route prefix prefix_len) (routes t) of
          Some i \<Rightarrow>
            Some (t\<lparr> routes := (routes t)[i := (routes t ! i)\<lparr> rt_prefix := prefix AND m,
                      rt_next_hop := next_hop, rt_interface_id := iface \<rparr>] \<rparr>)
        | None \<Rightarrow>
            if length (routes t) \<ge> rt_capacity t then None
            else Some (t\<lparr> routes := routes t @
                   [\<lparr> rt_prefix = prefix AND m, rt_prefix_len = prefix_len,
                      rt_next_hop = next_hop, rt_interface_id = iface \<rparr>] \<rparr>))"

definition nfs_route_remove :: "nfs_route_table \<Rightarrow> u32 \<Rightarrow> u8 \<Rightarrow> nfs_route_table option" where
  "nfs_route_remove t prefix prefix_len =
     (if prefix_len > 32 then None
      else case find_idx (same_route prefix prefix_len) (routes t) of
          None \<Rightarrow> None
        | Some i \<Rightarrow> Some (t\<lparr> routes := swap_remove i (routes t) \<rparr>))"

text \<open>The scan keeps the best route and its length, -1 while there is none.\<close>

definition route_scan :: "u32 \<Rightarrow> nfs_route option \<times> int \<Rightarrow> nfs_route \<Rightarrow> nfs_route option \<times> int" where
  "route_scan dst acc r =
     (let m = prefix_mask (rt_prefix_len r) in
      if dst AND m = rt_prefix r AND m then
        if int (unat (rt_prefix_len r)) > snd acc then (Some r, int (unat (rt_prefix_len r))) else acc
      else acc)"

definition nfs_route_lookup :: "nfs_route_table \<Rightarrow> u32 \<Rightarrow> nfs_route option" where
  "nfs_route_lookup t dst = fst (foldl (route_scan dst) (None, -1) (routes t))"

section \<open>The scan finds the longest match\<close>

definition route_matches :: "nfs_route \<Rightarrow> u32 \<Rightarrow> bool" where
  "route_matches r dst \<longleftrightarrow>
     nfs_cidr_contains \<lparr> cidr_addr = rt_prefix r, cidr_prefix_len = rt_prefix_len r \<rparr> dst"

lemma prefix_mask_cidr: "prefix_mask = nfs_cidr_mask"
  by (rule ext) (simp add: prefix_mask_def nfs_cidr_mask_def)

lemma route_scan_snd:
  "snd (foldl (route_scan dst) (None, -1) rs) =
     (case fst (foldl (route_scan dst) (None, -1) rs) of None \<Rightarrow> -1 | Some b \<Rightarrow> int (unat (rt_prefix_len b)))"
  by (induction rs rule: rev_induct) (auto simp: route_scan_def Let_def split: option.splits)

interpretation lpm: best_match route_matches "\<lambda>a b. unat (rt_prefix_len b) < unat (rt_prefix_len a)"
  "\<lambda>rs dst. fst (foldl (route_scan dst) (None, -1) rs)"
proof
  fix rs r d
  show "fst (foldl (route_scan d) (None, -1) (rs @ [r])) =
    (if route_matches r d then
       (case fst (foldl (route_scan d) (None, -1) rs) of None \<Rightarrow> Some r
        | Some b \<Rightarrow> if unat (rt_prefix_len b) < unat (rt_prefix_len r) then Some r else Some b)
     else fst (foldl (route_scan d) (None, -1) rs))"
  proof -
    have "- 1 < uint x" "uint x < uint y \<longleftrightarrow> unat x < unat y" for x y :: u8
      by (simp_all add: order_less_le_trans [of _ 0] word_less_nat_alt [symmetric] word_less_def [symmetric])
    then show ?thesis
      using route_scan_snd [of d rs]
      by (auto simp: route_scan_def Let_def route_matches_def nfs_cidr_contains_def prefix_mask_cidr
          split: option.splits)
  qed
qed auto

text \<open>
  No two routes have the same prefix and length; stored prefixes are masked; lengths are in
  range; the table is within its capacity.
\<close>

definition route_key :: "nfs_route \<Rightarrow> u32 \<times> u8" where
  "route_key r = (rt_prefix r, rt_prefix_len r)"

definition lpm_inv :: "nfs_route_table \<Rightarrow> bool" where
  "lpm_inv t \<longleftrightarrow> distinct (map route_key (routes t)) \<and> length (routes t) \<le> rt_capacity t \<and>
     (\<forall>r \<in> set (routes t). rt_prefix_len r \<le> 32 \<and>
        rt_prefix r AND nfs_cidr_mask (rt_prefix_len r) = rt_prefix r)"

lemma same_route_key:
  assumes "lpm_inv t" and "r \<in> set (routes t)"
  shows "same_route p l r \<longleftrightarrow> route_key r = (p AND nfs_cidr_mask l, l)"
  using assms by (auto simp: same_route_def lpm_inv_def route_key_def prefix_mask_cidr)

lemma route_match_unique:
  assumes "lpm_inv t" and "r \<in> set (routes t)" and "s \<in> set (routes t)"
    and "route_matches r d" and "route_matches s d" and "rt_prefix_len r = rt_prefix_len s"
  shows "r = s"
proof -
  have "route_key r = route_key s"
    using assms by (auto simp: route_matches_def nfs_cidr_contains_def lpm_inv_def route_key_def)
  then show ?thesis
    using assms(1-3) by (auto simp: lpm_inv_def distinct_map dest: inj_onD)
qed

lemma route_lookup_iff:
  assumes "lpm_inv t"
  shows "nfs_route_lookup t d = Some b \<longleftrightarrow>
    b \<in> set (routes t) \<and> route_matches b d \<and>
    (\<forall>r \<in> set (routes t). route_matches r d \<longrightarrow> rt_prefix_len r \<le> rt_prefix_len b)"
proof
  assume "nfs_route_lookup t d = Some b"
  then show "b \<in> set (routes t) \<and> route_matches b d \<and>
    (\<forall>r \<in> set (routes t). route_matches r d \<longrightarrow> rt_prefix_len r \<le> rt_prefix_len b)"
    using lpm.lookup_best [of d "routes t" b] by (auto simp: nfs_route_lookup_def word_le_nat_alt)
next
  assume b: "b \<in> set (routes t) \<and> route_matches b d \<and>
    (\<forall>r \<in> set (routes t). route_matches r d \<longrightarrow> rt_prefix_len r \<le> rt_prefix_len b)"
  then have "nfs_route_lookup t d \<noteq> None"
    using lpm.lookup_None_iff [of d "routes t"] by (auto simp: nfs_route_lookup_def)
  then obtain c where c: "nfs_route_lookup t d = Some c" by auto
  then have *: "c \<in> set (routes t)" "route_matches c d" "\<not> unat (rt_prefix_len c) < unat (rt_prefix_len b)"
    using lpm.lookup_best [of d "routes t" c] b by (auto simp: nfs_route_lookup_def)
  then have "rt_prefix_len c = rt_prefix_len b"
    using b by (auto simp: word_le_nat_alt word_unat_eq_iff intro: le_antisym)
  then have "c = b" using route_match_unique [OF assms] * b by blast
  with c show "nfs_route_lookup t d = Some b" by simp
qed

text \<open>
  C9. Lookup is longest-prefix match: in every table built by the operations it returns the route
  that contains the destination and is at least as long as any other that does, which is
  unique, and it finds none only when no route contains the destination.
\<close>
theorem lpm_lookup_correct:
  assumes "lpm_inv t"
  shows "(nfs_route_lookup t dst = None \<longleftrightarrow> (\<forall>r \<in> set (routes t). \<not> route_matches r dst)) \<and>
    (nfs_route_lookup t dst = Some b \<longleftrightarrow>
      b \<in> set (routes t) \<and> route_matches b dst \<and>
      (\<forall>r \<in> set (routes t). route_matches r dst \<and> r \<noteq> b \<longrightarrow> rt_prefix_len r < rt_prefix_len b))"
proof -
  have "(\<forall>r \<in> set (routes t). route_matches r dst \<longrightarrow> rt_prefix_len r \<le> rt_prefix_len b) \<longleftrightarrow>
      (\<forall>r \<in> set (routes t). route_matches r dst \<and> r \<noteq> b \<longrightarrow> rt_prefix_len r < rt_prefix_len b)"
    if "b \<in> set (routes t)" "route_matches b dst"
    using route_match_unique [OF assms _ that(1) _ that(2)] by (auto simp: less_le)
  then show ?thesis
    using route_lookup_iff [OF assms, of dst b] lpm.lookup_None_iff [of dst "routes t"]
    by (auto simp: nfs_route_lookup_def)
qed

section \<open>Adding and removing\<close>

definition new_route :: "u32 \<Rightarrow> u8 \<Rightarrow> u32 \<Rightarrow> int \<Rightarrow> nfs_route" where
  "new_route p l hop iface =
     \<lparr> rt_prefix = p AND nfs_cidr_mask l, rt_prefix_len = l, rt_next_hop = hop, rt_interface_id = iface \<rparr>"

lemma find_same_route:
  assumes "lpm_inv t"
  shows "find_idx (same_route p l) (routes t) = None \<longleftrightarrow> (\<forall>r \<in> set (routes t). route_key r \<noteq> (p AND nfs_cidr_mask l, l))"
    and "find_idx (same_route p l) (routes t) = Some i \<Longrightarrow>
      i < length (routes t) \<and> route_key (routes t ! i) = (p AND nfs_cidr_mask l, l)"
  using same_route_key [OF assms] find_idx_SomeD [of "same_route p l" "routes t" i]
  by (auto simp: find_idx_None_iff)

lemma route_add_table:
  assumes "lpm_inv t" and "nfs_route_add t p l hop iface = Some t'"
  shows "set (routes t') = insert (new_route p l hop iface)
      {r \<in> set (routes t). route_key r \<noteq> (p AND nfs_cidr_mask l, l)}" and "lpm_inv t'"
proof -
  let ?k = "(p AND nfs_cidr_mask l, l)" and ?new = "new_route p l hop iface"
  have l: "l \<le> 32" using assms(2) by (auto simp: nfs_route_add_def split: if_splits)
  have key: "route_key ?new = ?k" by (simp add: new_route_def route_key_def)
  have d: "distinct (map route_key (routes t))" using assms(1) by (simp add: lpm_inv_def)
  have "set (routes t') = insert ?new {r \<in> set (routes t). route_key r \<noteq> ?k} \<and>
      distinct (map route_key (routes t')) \<and> length (routes t') \<le> rt_capacity t'"
  proof (cases "find_idx (same_route p l) (routes t)")
    case None
    then have t': "t' = t\<lparr> routes := routes t @ [?new] \<rparr>" "length (routes t) < rt_capacity t"
      using assms(2) l by (auto simp: nfs_route_add_def Let_def new_route_def prefix_mask_cidr not_less [symmetric] split: if_splits)
    have "\<forall>r \<in> set (routes t). route_key r \<noteq> ?k" using None find_same_route(1) [OF assms(1)] by blast
    then show ?thesis using t' d key by auto
  next
    case (Some i)
    note i = find_same_route(2) [OF assms(1) Some]
    have "(routes t ! i)\<lparr> rt_prefix := p AND prefix_mask l, rt_next_hop := hop, rt_interface_id := iface \<rparr> = ?new"
      using i by (simp add: new_route_def route_key_def prefix_mask_cidr)
    then have t': "t' = t\<lparr> routes := (routes t)[i := ?new] \<rparr>"
      using assms(2) l Some by (simp add: nfs_route_add_def Let_def not_less [symmetric])
    show ?thesis
      using set_key_update [of i "routes t" route_key ?new] map_key_update [of i "routes t" route_key ?new]
        i d key assms(1) by (simp add: t' lpm_inv_def)
  qed
  moreover have "rt_prefix_len ?new \<le> 32" "rt_prefix ?new AND nfs_cidr_mask (rt_prefix_len ?new) = rt_prefix ?new"
    using l by (simp_all add: new_route_def)
  ultimately show "set (routes t') = insert ?new {r \<in> set (routes t). route_key r \<noteq> ?k}" "lpm_inv t'"
    using assms(1) by (simp_all add: lpm_inv_def)
qed

lemma route_add_fails:
  assumes "lpm_inv t"
  shows "nfs_route_add t p l hop iface = None \<longleftrightarrow>
    32 < l \<or> (\<forall>r \<in> set (routes t). route_key r \<noteq> (p AND nfs_cidr_mask l, l)) \<and> length (routes t) = rt_capacity t"
  using find_same_route(1) [OF assms, of p l] assms
  by (auto simp: nfs_route_add_def Let_def lpm_inv_def split: option.splits)

lemma key_match:
  "route_key r = (p AND nfs_cidr_mask l, l) \<Longrightarrow> route_matches r d \<longleftrightarrow> route_matches (new_route p l hop iface) d"
  by (auto simp: route_key_def route_matches_def nfs_cidr_contains_def new_route_def)

text \<open>
  Adding a route changes lookups exactly as it should: destinations in the new prefix whose best
  route so far was no longer get the new route (which replaces an earlier one for the same
  prefix), all others are routed as before; and adding fails only for a bad length or a full table.
\<close>
theorem lpm_add_correct:
  assumes "lpm_inv t"
  shows "(nfs_route_add t p l hop iface = None \<longleftrightarrow> 32 < l \<or>
      (\<forall>r \<in> set (routes t). route_key r \<noteq> (p AND nfs_cidr_mask l, l)) \<and> length (routes t) = rt_capacity t) \<and>
    (\<forall>t'. nfs_route_add t p l hop iface = Some t' \<longrightarrow> lpm_inv t' \<and>
      nfs_route_lookup t' dst =
        (if nfs_cidr_contains \<lparr> cidr_addr = p, cidr_prefix_len = l \<rparr> dst \<and>
            (\<forall>b. nfs_route_lookup t dst = Some b \<longrightarrow> rt_prefix_len b \<le> l)
         then Some (new_route p l hop iface) else nfs_route_lookup t dst))"
proof (intro conjI allI impI)
  show "nfs_route_add t p l hop iface = None \<longleftrightarrow> 32 < l \<or>
      (\<forall>r \<in> set (routes t). route_key r \<noteq> (p AND nfs_cidr_mask l, l)) \<and> length (routes t) = rt_capacity t"
    using assms by (rule route_add_fails)
next
  fix t'
  assume add: "nfs_route_add t p l hop iface = Some t'"
  let ?new = "new_route p l hop iface" and ?k = "(p AND nfs_cidr_mask l, l)"
  note t' = route_add_table [OF assms add]
  from t'(2) show "lpm_inv t'" .
  note old = route_lookup_iff [OF assms, of dst] and new = route_lookup_iff [OF t'(2), of dst]
  have m: "nfs_cidr_contains \<lparr> cidr_addr = p, cidr_prefix_len = l \<rparr> dst \<longleftrightarrow> route_matches ?new dst"
    by (simp add: route_matches_def nfs_cidr_contains_def new_route_def)
  have len: "rt_prefix_len ?new = l" by (simp add: new_route_def)
  have none: "route_matches r dst \<Longrightarrow> r \<in> set (routes t) \<Longrightarrow> nfs_route_lookup t dst \<noteq> None" for r
    using lpm.lookup_None_iff [of dst "routes t"] by (auto simp: nfs_route_lookup_def)
  show "nfs_route_lookup t' dst =
        (if nfs_cidr_contains \<lparr> cidr_addr = p, cidr_prefix_len = l \<rparr> dst \<and>
            (\<forall>b. nfs_route_lookup t dst = Some b \<longrightarrow> rt_prefix_len b \<le> l)
         then Some ?new else nfs_route_lookup t dst)"
  proof (cases "route_matches ?new dst \<and> (\<forall>b. nfs_route_lookup t dst = Some b \<longrightarrow> rt_prefix_len b \<le> l)")
    case True
    have "rt_prefix_len r \<le> l" if r: "r \<in> set (routes t)" "route_matches r dst" for r
    proof -
      obtain b where b: "nfs_route_lookup t dst = Some b" using none [OF r(2,1)] by auto
      then show ?thesis using old [of b] r True by (meson order_trans)
    qed
    then have "nfs_route_lookup t' dst = Some ?new"
      using True len by (subst new) (auto simp: t'(1))
    with True m show ?thesis by simp
  next
    case False
    show ?thesis
    proof (cases "nfs_route_lookup t dst")
      case None
      then have "nfs_route_lookup t' dst = None"
        using False none lpm.lookup_None_iff [of dst "routes t'"] by (auto simp: nfs_route_lookup_def [of t'] t'(1))
      with False None m show ?thesis by auto
    next
      case (Some b)
      then have b: "b \<in> set (routes t)" "route_matches b dst" using old [of b] by auto
      have "route_key b \<noteq> ?k"
      proof
        assume k: "route_key b = ?k"
        then have "route_matches ?new dst" using b(2) key_match by blast
        moreover have "rt_prefix_len b = l" using k by (simp add: route_key_def)
        ultimately show False using False Some by simp
      qed
      then have "nfs_route_lookup t' dst = Some b"
        using b Some False old [of b] len by (subst new) (auto simp: t'(1) not_le)
      with False Some m show ?thesis by auto
    qed
  qed
qed

lemma lpm_inv_init: "lpm_inv (nfs_route_table_init cap)"
  by (simp add: lpm_inv_def nfs_route_table_init_def)

text \<open>
  Removing a route removes that one only: it fails exactly when there is no such route, the
  others stay, whatever order the swap leaves them in, and every destination whose best route was
  another one is routed as before.
\<close>
theorem lpm_remove_correct:
  assumes "lpm_inv t"
  shows "(nfs_route_remove t p l = None \<longleftrightarrow>
      32 < l \<or> (\<forall>r \<in> set (routes t). route_key r \<noteq> (p AND nfs_cidr_mask l, l))) \<and>
    (\<forall>t'. nfs_route_remove t p l = Some t' \<longrightarrow> lpm_inv t' \<and>
      set (routes t') = {r \<in> set (routes t). route_key r \<noteq> (p AND nfs_cidr_mask l, l)} \<and>
      (\<forall>dst b. nfs_route_lookup t dst = Some b \<and> route_key b \<noteq> (p AND nfs_cidr_mask l, l) \<longrightarrow>
        nfs_route_lookup t' dst = Some b))"
proof (intro conjI allI impI)
  show "nfs_route_remove t p l = None \<longleftrightarrow>
      32 < l \<or> (\<forall>r \<in> set (routes t). route_key r \<noteq> (p AND nfs_cidr_mask l, l))"
    using find_same_route(1) [OF assms, of p l] by (auto simp: nfs_route_remove_def split: option.splits)
next
  fix t'
  assume "nfs_route_remove t p l = Some t'"
  then obtain i where i: "find_idx (same_route p l) (routes t) = Some i"
      and t': "t' = t\<lparr> routes := swap_remove i (routes t) \<rparr>"
    by (auto simp: nfs_route_remove_def split: if_splits option.splits)
  note at = find_same_route(2) [OF assms i]
  have d: "distinct (map route_key (routes t))" using assms by (simp add: lpm_inv_def)
  have dr: "distinct (map route_key (routes t'))"
    and set: "set (routes t') = {r \<in> set (routes t). route_key r \<noteq> (p AND nfs_cidr_mask l, l)}"
    using distinct_map_swap_remove [OF d, of i] at by (simp_all add: t')
  have inv: "lpm_inv t'"
    using assms dr set unfolding lpm_inv_def by (auto simp: t')
  from inv show "lpm_inv t'" .
  from set show "set (routes t') = {r \<in> set (routes t). route_key r \<noteq> (p AND nfs_cidr_mask l, l)}" .
  fix dst b
  assume "nfs_route_lookup t dst = Some b \<and> route_key b \<noteq> (p AND nfs_cidr_mask l, l)"
  then show "nfs_route_lookup t' dst = Some b"
    using route_lookup_iff [OF assms] route_lookup_iff [OF inv] set by auto
qed

section \<open>Sample table\<close>

definition lpm_sample :: nfs_route_table where
  "lpm_sample = \<lparr> routes =
     [\<lparr> rt_prefix = 0x0A000000, rt_prefix_len = 8, rt_next_hop = 1, rt_interface_id = 0 \<rparr>,
      \<lparr> rt_prefix = 0x0A010000, rt_prefix_len = 16, rt_next_hop = 2, rt_interface_id = 1 \<rparr>],
     rt_capacity = 2 \<rparr>"

lemma lpm_sample_inv: "lpm_inv lpm_sample"
  by (simp add: lpm_inv_def lpm_sample_def route_key_def nfs_cidr_mask_def)

lemma lpm_lookup_correct_witness:
  "nfs_route_lookup lpm_sample 0x0A010203 =
     Some \<lparr> rt_prefix = 0x0A010000, rt_prefix_len = 16, rt_next_hop = 2, rt_interface_id = 1 \<rparr>"
  using lpm_lookup_correct [OF lpm_sample_inv, of "0x0A010203"
      "\<lparr> rt_prefix = 0x0A010000, rt_prefix_len = 16, rt_next_hop = 2, rt_interface_id = 1 \<rparr>"]
  by (simp add: lpm_sample_def route_matches_def nfs_cidr_contains_def nfs_cidr_mask_def)

lemma lpm_add_correct_witness:
  "nfs_route_add lpm_sample 0 0 9 9 = None \<and>
   (\<exists>t'. nfs_route_add lpm_sample 0x0A020304 8 7 3 = Some t' \<and>
     nfs_route_lookup t' 0x0A050505 = Some (new_route 0x0A020304 8 7 3))"
proof -
  obtain t' where t': "nfs_route_add lpm_sample 0x0A020304 8 7 3 = Some t'"
    by (simp add: nfs_route_add_def lpm_sample_def same_route_def prefix_mask_def Let_def)
  have "nfs_route_lookup lpm_sample 0x0A050505 =
      Some \<lparr> rt_prefix = 0x0A000000, rt_prefix_len = 8, rt_next_hop = 1, rt_interface_id = 0 \<rparr>"
    by (simp add: nfs_route_lookup_def lpm_sample_def route_scan_def prefix_mask_def)
  then have "nfs_route_lookup t' 0x0A050505 = Some (new_route 0x0A020304 8 7 3)"
    using lpm_add_correct [OF lpm_sample_inv, of "0x0A020304" 8 7 3 "0x0A050505"] t'
    by (simp add: nfs_cidr_contains_def nfs_cidr_mask_def)
  moreover have "nfs_route_add lpm_sample 0 0 9 9 = None"
    using lpm_add_correct [OF lpm_sample_inv, of 0 0 9 9] by (simp add: lpm_sample_def route_key_def)
  ultimately show ?thesis using t' by blast
qed

lemma lpm_remove_correct_witness:
  "\<exists>t'. nfs_route_remove lpm_sample 0x0A010000 16 = Some t' \<and>
     nfs_route_lookup t' 0x0A050505 =
       Some \<lparr> rt_prefix = 0x0A000000, rt_prefix_len = 8, rt_next_hop = 1, rt_interface_id = 0 \<rparr>"
proof -
  obtain t' where t': "nfs_route_remove lpm_sample 0x0A010000 16 = Some t'"
    by (simp add: nfs_route_remove_def lpm_sample_def same_route_def prefix_mask_def)
  have "nfs_route_lookup lpm_sample 0x0A050505 =
      Some \<lparr> rt_prefix = 0x0A000000, rt_prefix_len = 8, rt_next_hop = 1, rt_interface_id = 0 \<rparr>"
    by (simp add: nfs_route_lookup_def lpm_sample_def route_scan_def prefix_mask_def)
  then show ?thesis
    using lpm_remove_correct [OF lpm_sample_inv, of "0x0A010000" 16] t' by (simp add: route_key_def)
qed

end
