(* ===== verification/Rtable.thy ===== *)
theory Rtable
  imports Cidr Interfaces
begin

text \<open>
  The routing table with metrics and flags
  (\<^verbatim>\<open>phases/03-network-layer/05-the-routing-table/rtable.c\<close> and \<^verbatim>\<open>rtable.h\<close>). Routes may repeat; a
  lookup prefers the longer prefix, then the lower metric, then the earlier entry. The flag
  word is a \<open>u32\<close>. The formatter is not modelled.
\<close>

section \<open>Definitions\<close>

definition NFS_RTF_UP :: u32 where "NFS_RTF_UP = 0x01"
definition NFS_RTF_GATEWAY :: u32 where "NFS_RTF_GATEWAY = 0x02"
definition NFS_RTF_HOST :: u32 where "NFS_RTF_HOST = 0x04"

record nfs_rt_entry =
  rte_dest :: u32
  rte_prefix_len :: u8
  rte_gateway :: u32
  rte_iface :: int
  rte_metric :: u32
  rte_flags :: u32

record nfs_rtable =
  rt_entries :: "nfs_rt_entry list"
  rtable_capacity :: nat

definition nfs_ip4 :: "u8 \<Rightarrow> u8 \<Rightarrow> u8 \<Rightarrow> u8 \<Rightarrow> u32" where
  "nfs_ip4 a b c d = push_bit 24 (ucast a) OR push_bit 16 (ucast b) OR push_bit 8 (ucast c) OR ucast d"

definition nfs_prefix_mask :: "u8 \<Rightarrow> u32" where
  "nfs_prefix_mask len = (if len = 0 then 0 else push_bit (32 - unat len) (NOT 0))"

definition nfs_rtable_init :: "nat \<Rightarrow> nfs_rtable" where
  "nfs_rtable_init cap = \<lparr> rt_entries = [], rtable_capacity = cap \<rparr>"

definition nfs_rtable_add ::
  "nfs_rtable \<Rightarrow> u32 \<Rightarrow> u8 \<Rightarrow> u32 \<Rightarrow> int \<Rightarrow> u32 \<Rightarrow> u32 \<Rightarrow> nfs_rtable option" where
  "nfs_rtable_add t dest prefix gw iface metric flags =
     (if length (rt_entries t) \<ge> rtable_capacity t then None
      else
        let m = nfs_prefix_mask prefix;
            e = \<lparr> rte_dest = dest AND m, rte_prefix_len = prefix, rte_gateway = gw, rte_iface = iface,
                  rte_metric = metric, rte_flags = flags \<rparr>
        in Some (t\<lparr> rt_entries := rt_entries t @ [e] \<rparr>))"

definition rtable_scan :: "u32 \<Rightarrow> nfs_rt_entry option \<Rightarrow> nfs_rt_entry \<Rightarrow> nfs_rt_entry option" where
  "rtable_scan dst best e =
     (if rte_flags e AND NFS_RTF_UP = 0 then best
      else if dst AND nfs_prefix_mask (rte_prefix_len e) \<noteq> rte_dest e then best
      else case best of
          None \<Rightarrow> Some e
        | Some b \<Rightarrow>
            if rte_prefix_len e > rte_prefix_len b then Some e
            else if rte_prefix_len e = rte_prefix_len b \<and> rte_metric e < rte_metric b then Some e
            else best)"

definition nfs_rtable_lookup :: "nfs_rtable \<Rightarrow> u32 \<Rightarrow> nfs_rt_entry option" where
  "nfs_rtable_lookup t dst = foldl (rtable_scan dst) None (rt_entries t)"

definition nfs_rtable_remove :: "nfs_rtable \<Rightarrow> u32 \<Rightarrow> u8 \<Rightarrow> nfs_rtable option" where
  "nfs_rtable_remove t dest prefix =
     (let m = nfs_prefix_mask prefix;
          masked_dest = dest AND m
      in case find_idx (\<lambda>e. rte_dest e = masked_dest \<and> rte_prefix_len e = prefix) (rt_entries t) of
           None \<Rightarrow> None
         | Some i \<Rightarrow> Some (t\<lparr> rt_entries := swap_remove i (rt_entries t) \<rparr>))"

section \<open>Lookup\<close>

text \<open>A route that is up and whose network contains the destination; the order of preference.\<close>

definition rte_matches :: "nfs_rt_entry \<Rightarrow> u32 \<Rightarrow> bool" where
  "rte_matches e dst \<longleftrightarrow> rte_flags e AND NFS_RTF_UP \<noteq> 0 \<and> dst AND nfs_prefix_mask (rte_prefix_len e) = rte_dest e"

definition rte_better :: "nfs_rt_entry \<Rightarrow> nfs_rt_entry \<Rightarrow> bool" where
  "rte_better a b \<longleftrightarrow> rte_prefix_len b < rte_prefix_len a \<or>
     rte_prefix_len a = rte_prefix_len b \<and> rte_metric a < rte_metric b"

interpretation rtable: best_match rte_matches rte_better "\<lambda>es dst. foldl (rtable_scan dst) None es"
proof
  fix rs r d
  show "foldl (rtable_scan d) None (rs @ [r]) =
    (if rte_matches r d then
       (case foldl (rtable_scan d) None rs of None \<Rightarrow> Some r
        | Some b \<Rightarrow> if rte_better r b then Some r else Some b)
     else foldl (rtable_scan d) None rs)"
    by (auto simp: rtable_scan_def rte_matches_def rte_better_def split: option.splits)
qed (auto simp: rte_better_def)

lemma prefix_mask_same: "nfs_prefix_mask = nfs_cidr_mask"
proof -
  have "(NOT 0 :: u32) = 0xFFFFFFFF" by simp
  then show ?thesis by (intro ext) (simp only: nfs_prefix_mask_def nfs_cidr_mask_def)
qed

text \<open>Networks are stored masked, so that a match is membership in the network.\<close>

definition rtable_inv :: "nfs_rtable \<Rightarrow> bool" where
  "rtable_inv t \<longleftrightarrow> length (rt_entries t) \<le> rtable_capacity t \<and>
     (\<forall>e \<in> set (rt_entries t). rte_dest e AND nfs_cidr_mask (rte_prefix_len e) = rte_dest e)"

lemma rte_matches_contains:
  "rte_dest e AND nfs_cidr_mask (rte_prefix_len e) = rte_dest e \<Longrightarrow>
     rte_matches e dst \<longleftrightarrow> rte_flags e AND NFS_RTF_UP \<noteq> 0 \<and>
       nfs_cidr_contains \<lparr> cidr_addr = rte_dest e, cidr_prefix_len = rte_prefix_len e \<rparr> dst"
  by (simp add: rte_matches_def nfs_cidr_contains_def prefix_mask_same)

datatype rtable_event = RtAdd u32 u8 u32 int u32 u32 | RtRemove u32 u8

fun rtable_step :: "nfs_rtable \<Rightarrow> rtable_event \<Rightarrow> nfs_rtable" where
  "rtable_step t (RtAdd d p g i m f) = (case nfs_rtable_add t d p g i m f of None \<Rightarrow> t | Some t' \<Rightarrow> t')"
| "rtable_step t (RtRemove d p) = (case nfs_rtable_remove t d p of None \<Rightarrow> t | Some t' \<Rightarrow> t')"

lemma rtable_step_inv: "rtable_inv t \<Longrightarrow> rtable_inv (rtable_step t e)"
proof (cases e)
  case (RtAdd d p g i m f)
  assume "rtable_inv t"
  with RtAdd show ?thesis
    by (auto simp: rtable_inv_def nfs_rtable_add_def Let_def prefix_mask_same)
next
  case (RtRemove d p)
  assume inv: "rtable_inv t"
  show ?thesis
  proof (cases "nfs_rtable_remove t d p")
    case (Some t')
    then obtain i where i: "find_idx (\<lambda>e. rte_dest e = d AND nfs_prefix_mask p \<and> rte_prefix_len e = p) (rt_entries t) = Some i"
        and t': "t' = t\<lparr> rt_entries := swap_remove i (rt_entries t) \<rparr>"
      by (auto simp: nfs_rtable_remove_def Let_def split: option.splits)
    then have "set (rt_entries t') \<subseteq> set (rt_entries t)"
      using set_swap_remove_subset find_idx_SomeD [OF i] by auto
    then show ?thesis using Some RtRemove inv t' by (auto simp: rtable_inv_def)
  qed (use inv RtRemove in simp)
qed

interpretation rtable_run: machine rtable_step "\<lambda>t e. True" rtable_inv
  by unfold_locales (rule rtable_step_inv)

text \<open>
  In every table that adds and removes can build, a lookup finds no route only when no route that
  is up contains the destination; otherwise it returns one that does, such that no other has
  a longer prefix, or the same length and a lower metric, whatever order earlier
  removals left the entries in.
\<close>
theorem rtable_lookup_correct:
  "let t = foldl rtable_step (nfs_rtable_init cap) es;
       eligible = (\<lambda>e. e \<in> set (rt_entries t) \<and> rte_flags e AND NFS_RTF_UP \<noteq> 0 \<and>
         nfs_cidr_contains \<lparr> cidr_addr = rte_dest e, cidr_prefix_len = rte_prefix_len e \<rparr> dst)
   in length (rt_entries t) \<le> cap \<and>
     (case nfs_rtable_lookup t dst of
        None \<Rightarrow> \<nexists>e. eligible e
      | Some b \<Rightarrow> eligible b \<and> (\<nexists>e. eligible e \<and> rte_better e b))"
proof -
  define t where "t = foldl rtable_step (nfs_rtable_init cap) es"
  have "rtable_inv t"
    unfolding t_def by (rule rtable_run.run_inv) (simp_all add: rtable_inv_def nfs_rtable_init_def)
  then have m: "\<And>e. e \<in> set (rt_entries t) \<Longrightarrow> rte_matches e dst \<longleftrightarrow> rte_flags e AND NFS_RTF_UP \<noteq> 0 \<and>
       nfs_cidr_contains \<lparr> cidr_addr = rte_dest e, cidr_prefix_len = rte_prefix_len e \<rparr> dst"
    and "length (rt_entries t) \<le> rtable_capacity t"
    by (simp_all add: rtable_inv_def rte_matches_contains)
  moreover have "rtable_capacity (foldl rtable_step t0 es) = rtable_capacity t0" for t0
  proof (induction es arbitrary: t0)
    case (Cons e es)
    have "rtable_capacity (rtable_step t0 e) = rtable_capacity t0"
      by (cases e) (auto simp: nfs_rtable_add_def nfs_rtable_remove_def Let_def split: option.splits)
    with Cons show ?case by simp
  qed simp
  ultimately have "length (rt_entries t) \<le> cap" by (simp add: t_def nfs_rtable_init_def)
  then show ?thesis
    using m rtable.lookup_None_iff [of dst "rt_entries t"] rtable.lookup_best [of dst "rt_entries t"]
    unfolding t_def [symmetric] Let_def nfs_rtable_lookup_def
    by (auto split: option.splits)
qed

end
