(* ===== verification/Tables.thy ===== *)
theory Tables
  imports Interfaces
begin

text \<open>
  The two table layouts of the sources, with the facts their components share: a live
  prefix of distinct keys (update in place or append, remove by moving the last entry,
  sweep), and an array of slots with a validity flag (update in place or fill a free slot,
  invalidate).
\<close>

section \<open>Live prefix with distinct keys\<close>

definition find_key :: "('e \<Rightarrow> 'k) \<Rightarrow> 'k \<Rightarrow> 'e list \<Rightarrow> 'e option" where
  "find_key key k es = List.find (\<lambda>e. key e = k) es"

lemma find_key_Some_iff:
  "distinct (map key es) \<Longrightarrow> find_key key k es = Some e \<longleftrightarrow> e \<in> set es \<and> key e = k"
  unfolding find_key_def by (rule find_key_iff)

lemma find_key_None_iff: "find_key key k es = None \<longleftrightarrow> (\<forall>e \<in> set es. key e \<noteq> k)"
  by (auto simp: find_key_def find_None_iff)

lemma find_key_SomeD: "find_key key k es = Some e \<Longrightarrow> e \<in> set es \<and> key e = k"
  unfolding find_key_def by (rule find_SomeD)

lemma find_key_set_eq:
  assumes "distinct (map key es)" and "distinct (map key fs)" and "set es = set fs"
  shows "find_key key k es = find_key key k fs"
proof (cases "find_key key k es")
  case None
  then have "find_key key k fs = None" using assms(3) by (simp add: find_key_None_iff)
  with None show ?thesis by simp
next
  case (Some e)
  then have "e \<in> set fs" "key e = k" using assms(3) find_key_SomeD [OF Some] by simp_all
  then have "find_key key k fs = Some e" using assms(2) by (simp add: find_key_Some_iff)
  with Some show ?thesis by simp
qed

text \<open>Look for the key; update the entry found, or append a new one if there is room.\<close>

definition upsert :: "('e \<Rightarrow> 'k) \<Rightarrow> nat \<Rightarrow> 'k \<Rightarrow> ('e \<Rightarrow> 'e) \<Rightarrow> 'e \<Rightarrow> 'e list \<Rightarrow> 'e list option" where
  "upsert key cap k upd new es =
     (case find_idx (\<lambda>e. key e = k) es of
        Some i \<Rightarrow> Some (es[i := upd (es ! i)])
      | None \<Rightarrow> if length es \<ge> cap then None else Some (es @ [new]))"

lemma find_key_idx: "find_key key k es = map_option ((!) es) (find_idx (\<lambda>e. key e = k) es)"
  unfolding find_key_def by (rule find_conv_find_idx)

lemma upsert_None_iff: "upsert key cap k upd new es = None \<longleftrightarrow> find_key key k es = None \<and> cap \<le> length es"
  by (auto simp: upsert_def find_key_idx split: option.splits)

lemma upsert_Some:
  assumes "distinct (map key es)" and "upsert key cap k upd new es = Some es'"
    and "key new = k" and "\<And>e. key e = k \<Longrightarrow> key (upd e) = k"
  shows "distinct (map key es')"
    and "find_key key j es' = (if j = k then Some (case find_key key k es of None \<Rightarrow> new | Some e \<Rightarrow> upd e)
      else find_key key j es)"
    and "length es' = (if find_key key k es = None then Suc (length es) else length es)"
    and "length es \<le> cap \<Longrightarrow> length es' \<le> cap"
proof -
  have "distinct (map key es') \<and>
    find_key key j es' = (if j = k then Some (case find_key key k es of None \<Rightarrow> new | Some e \<Rightarrow> upd e)
      else find_key key j es) \<and>
    length es' = (if find_key key k es = None then Suc (length es) else length es) \<and>
    (length es \<le> cap \<longrightarrow> length es' \<le> cap)"
  proof (cases "find_idx (\<lambda>e. key e = k) es")
    case None
    then have n: "find_key key k es = None" by (simp add: find_key_idx)
    have es': "es' = es @ [new]" "length es < cap"
      using assms(2) None by (auto simp: upsert_def split: if_splits)
    show ?thesis
      using n assms(1,3) es'
      by (auto simp: find_key_None_iff find_key_def find_append image_iff split: option.splits)
        (auto simp: find_None_iff)
  next
    case (Some i)
    note i = find_idx_SomeD [OF Some]
    have es': "es' = es[i := upd (es ! i)]" using assms(2) Some by (simp add: upsert_def)
    have k: "key (upd (es ! i)) = key (es ! i)" using i assms(4) by simp
    have "map key es' = map key es" using i k unfolding es' by (intro map_key_update) simp_all
    moreover have "find_key key j es' = (if j = k then Some (upd (es ! i)) else find_key key j es)"
      using find_key_update [of i es key "upd (es ! i)" j] i k assms(1)
      by (simp add: es' find_key_def)
    moreover have "find_key key k es = Some (es ! i)" using Some by (simp add: find_key_idx)
    ultimately show ?thesis using assms(1) es' by simp
  qed
  then show "distinct (map key es')"
    "find_key key j es' = (if j = k then Some (case find_key key k es of None \<Rightarrow> new | Some e \<Rightarrow> upd e)
      else find_key key j es)"
    "length es' = (if find_key key k es = None then Suc (length es) else length es)"
    "length es \<le> cap \<Longrightarrow> length es' \<le> cap" by simp_all
qed

lemma remove_key:
  assumes "distinct (map key es)" and "find_idx (\<lambda>e. key e = k) es = Some i"
  shows "distinct (map key (swap_remove i es))"
    and "find_key key j (swap_remove i es) = (if j = k then None else find_key key j es)"
    and "length (swap_remove i es) = length es - 1" and "length es \<noteq> 0"
proof -
  have i: "i < length es" "key (es ! i) = k" using find_idx_SomeD [OF assms(2)] by simp_all
  then show "length (swap_remove i es) = length es - 1" "length es \<noteq> 0" by auto
  note r = distinct_map_swap_remove [OF assms(1) i(1)]
  show "distinct (map key (swap_remove i es))" by (rule r(1))
  show "find_key key j (swap_remove i es) = (if j = k then None else find_key key j es)"
  proof (cases "j = k")
    case True
    then show ?thesis using r(2) i(2) by (auto simp: find_key_None_iff)
  next
    case False
    show ?thesis
    proof (cases "find_key key j es")
      case None
      then have "find_key key j (swap_remove i es) = None" using r(2) by (simp add: find_key_None_iff)
      with None show ?thesis by simp
    next
      case (Some e)
      then have "find_key key j (swap_remove i es) = Some e"
        using False r i(2) assms(1) by (auto simp: find_key_Some_iff)
      with Some False show ?thesis by simp
    qed
  qed
qed

lemma sweep_set: "set (fst (sweep f 0 es n)) = set (List.map_filter (\<lambda>e. verdict_result e (f e)) es)"
  by (rule mset_eq_setD) (simp add: sweep_mset)

lemma sweep_drop_subset: "set (fst (sweep (\<lambda>e. if P e then Drop else Keep) 0 es n)) \<subseteq> set es"
  by (auto simp: sweep_set List.map_filter_def split: if_splits)

text \<open>The aging sweep acts on every key by itself.\<close>

lemma sweep_keys:
  fixes n :: nat
  assumes "distinct (map key es)" and "\<And>e e'. f e = Change e' \<Longrightarrow> key e' = key e"
  defines "res \<equiv> fst (sweep f 0 es n)"
  shows "distinct (map key res)" and "length res \<le> length es"
    and "find_key key k res = Option.bind (find_key key k es) (\<lambda>e. verdict_result e (f e))"
proof -
  let ?g = "\<lambda>e. verdict_result e (f e)"
  have key: "?g e = Some e' \<Longrightarrow> key e' = key e" for e e'
    using assms(2) by (cases "f e") auto
  have m: "mset res = mset (List.map_filter ?g es)"
    unfolding res_def by (simp add: sweep_mset)
  have d: "distinct (map key (List.map_filter ?g es)) \<and> length (List.map_filter ?g es) \<le> length es"
    using assms(1) key
  proof (induction es)
    case (Cons e es)
    have "key ` set (List.map_filter ?g es) \<subseteq> key ` set es"
      using Cons.prems(2) by (force simp: List.map_filter_def)
    with Cons show ?case
      by (auto simp: List.map_filter_simps split: option.splits)
  qed (simp add: List.map_filter_simps)
  have "mset (map key res) = mset (map key (List.map_filter ?g es))" using m by simp
  with d show dr: "distinct (map key res)" using mset_eq_imp_distinct_iff by blast
  show "length res \<le> length es" using m d by (metis size_mset)
  have s: "set res = set (List.map_filter ?g es)" using m by (metis set_mset_mset)
  then have "find_key key k res = find_key key k (List.map_filter ?g es)"
    using dr d by (intro find_key_set_eq) simp_all
  also have "\<dots> = Option.bind (find_key key k es) ?g"
    using assms(1)
  proof (induction es)
    case (Cons e es)
    have none: "key e = k \<Longrightarrow> find_key key k es = None"
      using Cons.prems by (auto simp: find_key_None_iff image_iff)
    show ?case
      using Cons none key [of e]
      by (cases "?g e") (auto simp: List.map_filter_simps find_key_def)
  qed (simp add: find_key_def List.map_filter_simps)
  finally show "find_key key k res = Option.bind (find_key key k es) ?g" .
qed

lemma distinct_map_finer:
  assumes "distinct (map f es)" and "\<And>e. g (key e) = f e"
  shows "distinct (map key es)"
  using assms by (auto simp: distinct_map inj_on_def) (metis)

section \<open>Slots with a validity flag\<close>

definition find_slot :: "('e \<Rightarrow> bool) \<Rightarrow> ('e \<Rightarrow> 'k) \<Rightarrow> 'k \<Rightarrow> 'e list \<Rightarrow> 'e option" where
  "find_slot valid key k es = List.find (\<lambda>e. valid e \<and> key e = k) es"

definition slot_put ::
  "('e \<Rightarrow> bool) \<Rightarrow> ('e \<Rightarrow> 'k) \<Rightarrow> 'k \<Rightarrow> ('e \<Rightarrow> 'e) \<Rightarrow> ('e \<Rightarrow> 'e) \<Rightarrow> 'e list \<Rightarrow> 'e list option" where
  "slot_put valid key k upd fill es =
     (case find_idx (\<lambda>e. valid e \<and> key e = k) es of
        Some i \<Rightarrow> Some (es[i := upd (es ! i)])
      | None \<Rightarrow>
          (case find_idx (\<lambda>e. \<not> valid e) es of
             None \<Rightarrow> None
           | Some i \<Rightarrow> Some (es[i := fill (es ! i)])))"

lemma find_slot_filter: "find_slot valid key k es = find_key key k (filter valid es)"
  by (induction es) (auto simp: find_slot_def find_key_def)

lemma mset_filter_update:
  "i < length es \<Longrightarrow> valid y \<Longrightarrow>
     mset (filter valid (es[i := y])) =
       add_mset y (mset (filter valid es) - (if valid (es ! i) then {#es ! i#} else {#}))"
proof (induction es arbitrary: i)
  case (Cons e es)
  show ?case
  proof (cases i)
    case (Suc j)
    have "valid (es ! j) \<Longrightarrow> es ! j \<in># mset (filter valid es)"
      using Suc Cons.prems by simp
    with Suc Cons show ?thesis by (auto simp: add_mset_commute)
  qed (use Cons.prems in simp)
qed simp

lemma slot_put_None_iff:
  "slot_put valid key k upd fill es = None \<longleftrightarrow>
     find_slot valid key k es = None \<and> length (filter valid es) = length es"
proof -
  have "length (filter valid es) = length es \<longleftrightarrow> (\<forall>e \<in> set es. valid e)"
    by (metis filter_id_conv length_filter_less less_irrefl)
  moreover have "(\<forall>e \<in> set es. valid e) \<longleftrightarrow> find_idx (\<lambda>e. \<not> valid e) es = None"
    by (simp add: find_idx_None_iff)
  ultimately show ?thesis
    by (auto simp: slot_put_def find_slot_def find_conv_find_idx split: option.splits)
qed

lemma slot_put_Some:
  assumes "distinct (map key (filter valid es))" and "slot_put valid key k upd fill es = Some es'"
    and "\<And>e. valid e \<Longrightarrow> key e = k \<Longrightarrow> valid (upd e) \<and> key (upd e) = k"
    and "\<And>e. valid (fill e) \<and> key (fill e) = k"
  shows "distinct (map key (filter valid es'))" and "length es' = length es"
    and "length (filter valid es') =
      (if find_slot valid key k es = None then Suc (length (filter valid es)) else length (filter valid es))"
    and "j \<noteq> k \<Longrightarrow> find_slot valid key j es' = find_slot valid key j es"
    and "\<exists>i < length es. find_slot valid key k es' = Some (es' ! i) \<and>
      (case find_slot valid key k es of
         None \<Rightarrow> \<not> valid (es ! i) \<and> es' ! i = fill (es ! i)
       | Some e \<Rightarrow> e = es ! i \<and> es' ! i = upd e)"
proof -
  obtain i y where i: "i < length es" "es' = es[i := y]" "valid y" "key y = k"
    and cases: "(case find_slot valid key k es of
         None \<Rightarrow> \<not> valid (es ! i) \<and> y = fill (es ! i)
       | Some e \<Rightarrow> valid e \<and> key e = k \<and> e = es ! i \<and> y = upd e)"
  proof (cases "find_idx (\<lambda>e. valid e \<and> key e = k) es")
    case (Some i)
    then show thesis
      using that [of i "upd (es ! i)"] find_idx_SomeD [OF Some] assms(2,3) find_idx_Some_find [OF Some]
      by (simp add: slot_put_def find_slot_def)
  next
    case None
    then obtain i where i: "find_idx (\<lambda>e. \<not> valid e) es = Some i" "es' = es[i := fill (es ! i)]"
      using assms(2) by (auto simp: slot_put_def split: option.splits)
    with None show thesis
      using that [of i "fill (es ! i)"] find_idx_SomeD [OF i(1)] assms(4)
      by (simp add: find_slot_def find_conv_find_idx)
  qed
  let ?es = "filter valid es" and ?es' = "filter valid es'"
  show "length es' = length es" by (simp add: i(2))
  have m: "mset ?es' = add_mset y (mset ?es - (if valid (es ! i) then {#es ! i#} else {#}))"
    unfolding i(2) using i(1,3) by (rule mset_filter_update)
  have none: "find_slot valid key k es = None \<Longrightarrow> \<forall>e \<in> set ?es. key e \<noteq> k"
    by (auto simp: find_slot_filter find_key_None_iff)
  have some: "find_slot valid key k es = Some e \<Longrightarrow> es ! i \<in># mset ?es" for e
    using cases i(1) by auto
  have keys: "mset (map key ?es') = (if find_slot valid key k es = None then add_mset k (mset (map key ?es)) else mset (map key ?es))"
  proof (cases "find_slot valid key k es")
    case None
    then show ?thesis using m cases i(4) by simp
  next
    case (Some e)
    then have v: "valid (es ! i)" "key (es ! i) = k" using cases by auto
    have "mset ?es' = add_mset y (mset ?es - {#es ! i#})" using m v(1) by simp
    moreover have "image_mset key (mset ?es - {#es ! i#}) = image_mset key (mset ?es) - {#k#}"
      using some [OF Some] v(2) by (simp add: image_mset_Diff)
    moreover have "k \<in># image_mset key (mset ?es)" using some [OF Some] v(2) by force
    ultimately show ?thesis using Some i(4) by simp
  qed
  have "find_slot valid key k es = None \<Longrightarrow> distinct (k # map key ?es)"
    using none assms(1) by auto
  then show d: "distinct (map key ?es')"
    using assms(1) keys mset_eq_imp_distinct_iff [of "map key ?es'" "map key ?es"]
      mset_eq_imp_distinct_iff [of "map key ?es'" "k # map key ?es"]
    by (cases "find_slot valid key k es = None") simp_all
  show "length ?es' = (if find_slot valid key k es = None then Suc (length ?es) else length ?es)"
  proof (cases "find_slot valid key k es")
    case None
    with keys have "mset (map key ?es') = mset (k # map key ?es)" by simp
    from mset_eq_length [OF this] None show ?thesis by simp
  next
    case (Some e)
    with keys have "mset (map key ?es') = mset (map key ?es)" by simp
    from mset_eq_length [OF this] Some show ?thesis by simp
  qed
  have in': "y \<in> set ?es'" using i by (simp add: set_update_memI)
  show "\<exists>i < length es. find_slot valid key k es' = Some (es' ! i) \<and>
      (case find_slot valid key k es of
         None \<Rightarrow> \<not> valid (es ! i) \<and> es' ! i = fill (es ! i)
       | Some e \<Rightarrow> e = es ! i \<and> es' ! i = upd e)"
    using i cases in' d
    by (intro exI [of _ i]) (auto simp: find_slot_filter find_key_Some_iff split: option.splits)
  assume "j \<noteq> k"
  have sub: "e \<in> set ?es' \<longleftrightarrow> e \<in> set ?es" if "key e = j" for e
  proof -
    have "e \<noteq> y" using that i(4) \<open>j \<noteq> k\<close> by auto
    moreover have "valid (es ! i) \<Longrightarrow> e \<noteq> es ! i"
      using that \<open>j \<noteq> k\<close> cases by (auto split: option.splits)
    ultimately have "count (mset ?es') e = count (mset ?es) e" using m by auto
    then show ?thesis by (metis count_eq_zero_iff set_mset_mset)
  qed
  show "find_slot valid key j es' = find_slot valid key j es"
  proof (cases "find_slot valid key j es")
    case None
    then have "find_slot valid key j es' = None" using sub by (auto simp: find_slot_filter find_key_None_iff)
    with None show ?thesis by simp
  next
    case (Some e)
    then have "find_slot valid key j es' = Some e"
      using sub [of e] d assms(1) by (simp add: find_slot_filter find_key_Some_iff)
    with Some show ?thesis by simp
  qed
qed

lemma slot_put_elem:
  assumes "slot_put valid key k upd fill es = Some es'" and "x \<in> set es'"
  shows "x \<in> set es \<or> (\<exists>e \<in> set es. x = upd e \<or> x = fill e)"
proof -
  obtain i where "i < length es" "es' = es[i := upd (es ! i)] \<or> es' = es[i := fill (es ! i)]"
    using assms(1) by (auto simp: slot_put_def dest!: find_idx_SomeD split: option.splits)
  then have "es ! i \<in> set es \<and> (x = upd (es ! i) \<or> x = fill (es ! i) \<or> x \<in> set es)"
    using assms(2) set_update_subset_insert [of es i] by fastforce
  then show ?thesis by blast
qed

lemma find_key_middle:
  assumes "distinct (map key (xs @ e # ys))"
  shows "find_key key k (xs @ e # ys) = (if k = key e then Some e else find_key key k (xs @ ys))"
proof -
  have "find_key key (key e) (xs @ e # ys) = Some e" using assms by (simp add: find_key_Some_iff)
  moreover have "k \<noteq> key e \<Longrightarrow> find_key key k (xs @ e # ys) = find_key key k (xs @ ys)"
    by (auto simp: find_key_def find_append split: option.split)
  ultimately show ?thesis by simp
qed

lemma slot_clear:
  assumes "distinct (map key (filter valid es))" and "i < length es" and "valid (es ! i)" and "\<not> valid y"
  shows "distinct (map key (filter valid (es[i := y])))"
    and "find_slot valid key j (es[i := y]) = (if j = key (es ! i) then None else find_slot valid key j es)"
    and "length (filter valid es) = Suc (length (filter valid (es[i := y])))"
proof -
  let ?A = "filter valid (take i es)" and ?B = "filter valid (drop (Suc i) es)"
  have es: "filter valid es = ?A @ es ! i # ?B"
    using assms(2,3) by (subst id_take_nth_drop [OF assms(2)]) (simp del: append_take_drop_id)
  have es': "filter valid (es[i := y]) = ?A @ ?B"
    using assms(2,4) by (simp add: upd_conv_take_nth_drop)
  have d: "distinct (map key (?A @ es ! i # ?B))" using assms(1) unfolding es .
  then show "distinct (map key (filter valid (es[i := y])))" unfolding es' by simp
  have "find_key key j (?A @ ?B) = (if j = key (es ! i) then None else find_key key j (?A @ es ! i # ?B))"
  proof (cases "j = key (es ! i)")
    case True
    then show ?thesis using d by (auto simp: find_key_None_iff image_iff)
  next
    case False
    then show ?thesis using find_key_middle [OF d, of j] by simp
  qed
  then show "find_slot valid key j (es[i := y]) = (if j = key (es ! i) then None else find_slot valid key j es)"
    unfolding find_slot_filter es es' .
  show "length (filter valid es) = Suc (length (filter valid (es[i := y])))" unfolding es es' by simp
qed

text \<open>Invalidating slots forgets exactly the entries that meet the condition.\<close>

lemma invalidate_slots:
  assumes "distinct (map key (filter valid es))"
    and "\<And>e. valid (g e) \<longleftrightarrow> valid e \<and> \<not> old e" and "\<And>e. valid e \<Longrightarrow> \<not> old e \<Longrightarrow> g e = e"
  shows "filter valid (map g es) = filter (\<lambda>e. \<not> old e) (filter valid es)"
    and "distinct (map key (filter valid (map g es)))"
    and "find_slot valid key k (map g es) =
      (case find_slot valid key k es of None \<Rightarrow> None | Some e \<Rightarrow> if old e then None else Some e)"
proof -
  show f: "filter valid (map g es) = filter (\<lambda>e. \<not> old e) (filter valid es)"
    using assms(2,3) by (induction es) auto
  show d: "distinct (map key (filter valid (map g es)))"
    using assms(1) by (simp add: f distinct_map_filter del: filter_filter)
  show "find_slot valid key k (map g es) =
      (case find_slot valid key k es of None \<Rightarrow> None | Some e \<Rightarrow> if old e then None else Some e)"
  proof (cases "find_slot valid key k es")
    case None
    then have "find_slot valid key k (map g es) = None" by (simp add: find_slot_filter f find_key_None_iff)
    with None show ?thesis by simp
  next
    case (Some e)
    then have e: "e \<in> set es" "valid e" "key e = k" by (auto simp: find_slot_filter dest: find_key_SomeD)
    show ?thesis
    proof (cases "old e")
      case True
      have "\<forall>x \<in> set (filter valid es). key x = k \<longrightarrow> x = e"
        using assms(1) e by (auto simp: distinct_map dest: inj_onD)
      then have "find_slot valid key k (map g es) = None"
        using True by (auto simp: find_slot_filter f find_key_None_iff)
      with True Some show ?thesis by simp
    next
      case False
      then have "find_slot valid key k (map g es) = Some e"
        using d e by (simp add: find_slot_filter find_key_Some_iff f)
      with False Some show ?thesis by simp
    qed
  qed
qed

end
