(* ===== verification/MacTable.thy ===== *)
theory MacTable
  imports Tables
begin

text \<open>
  The forwarding database of a learning switch
  (\<^verbatim>\<open>phases/02-link-layer/10-switching-tables-and-mac-learning/mac_table.c\<close>). An address is its
  list of bytes; \<^verbatim>\<open>time(NULL)\<close> is the argument \<open>now\<close>; ports are integers. The formatter and
  \<open>nfs_fdb_free\<close> are not modelled.
\<close>

section \<open>Definitions\<close>

type_synonym mac = "u8 list"

definition mac_is_broadcast :: "mac \<Rightarrow> bool" where
  "mac_is_broadcast m \<longleftrightarrow> m = [0xFF, 0xFF, 0xFF, 0xFF, 0xFF, 0xFF]"

definition mac_is_multicast :: "mac \<Rightarrow> bool" where
  "mac_is_multicast m \<longleftrightarrow> m ! 0 AND 0x01 \<noteq> 0"

record nfs_fdb_entry =
  fdb_mac :: mac
  fdb_port :: int
  fdb_last_seen :: int

record nfs_fdb =
  fdb_entries :: "nfs_fdb_entry list"
  fdb_capacity :: nat

definition nfs_fdb_init :: "nat \<Rightarrow> nfs_fdb" where
  "nfs_fdb_init cap = \<lparr> fdb_entries = [], fdb_capacity = cap \<rparr>"

definition nfs_fdb_learn :: "nfs_fdb \<Rightarrow> mac \<Rightarrow> int \<Rightarrow> int \<Rightarrow> nfs_fdb option" where
  "nfs_fdb_learn fdb m port now =
     (if mac_is_broadcast m \<or> mac_is_multicast m then Some fdb
      else
        case find_idx (\<lambda>e. fdb_mac e = m) (fdb_entries fdb) of
          Some i \<Rightarrow>
            Some (fdb\<lparr> fdb_entries := (fdb_entries fdb)
              [i := (fdb_entries fdb ! i)\<lparr> fdb_port := port, fdb_last_seen := now \<rparr>] \<rparr>)
        | None \<Rightarrow>
            if length (fdb_entries fdb) \<ge> fdb_capacity fdb then None
            else Some (fdb\<lparr> fdb_entries := fdb_entries fdb @
              [\<lparr> fdb_mac = m, fdb_port = port, fdb_last_seen = now \<rparr>] \<rparr>))"

definition nfs_fdb_lookup :: "nfs_fdb \<Rightarrow> mac \<Rightarrow> int" where
  "nfs_fdb_lookup fdb m =
     (case List.find (\<lambda>e. fdb_mac e = m) (fdb_entries fdb) of None \<Rightarrow> -1 | Some e \<Rightarrow> fdb_port e)"

definition nfs_fdb_age :: "nfs_fdb \<Rightarrow> int \<Rightarrow> int \<Rightarrow> nat \<times> nfs_fdb" where
  "nfs_fdb_age fdb max_age_sec now =
     (let (es, removed) =
        sweep (\<lambda>e. if now - fdb_last_seen e > max_age_sec then Drop else Keep) 0 (fdb_entries fdb) 0
      in (removed, fdb\<lparr> fdb_entries := es \<rparr>))"

text \<open>The ports written to \<^verbatim>\<open>out_ports\<close>.\<close>

definition flood_ports :: "int \<Rightarrow> nat \<Rightarrow> int list" where
  "flood_ports src_port num_ports = filter (\<lambda>p. p \<noteq> src_port) (map int [0..<num_ports])"

definition nfs_fdb_forward :: "nfs_fdb \<Rightarrow> mac \<Rightarrow> int \<Rightarrow> nat \<Rightarrow> int list" where
  "nfs_fdb_forward fdb dst_mac src_port num_ports =
     (if mac_is_broadcast dst_mac \<or> mac_is_multicast dst_mac then flood_ports src_port num_ports
      else
        let dst_port = nfs_fdb_lookup fdb dst_mac in
        if dst_port \<ge> 0 then if dst_port = src_port then [] else [dst_port]
        else flood_ports src_port num_ports)"

section \<open>The database is a bounded map\<close>

definition fdb_inv :: "nfs_fdb \<Rightarrow> bool" where
  "fdb_inv fdb \<longleftrightarrow> distinct (map fdb_mac (fdb_entries fdb)) \<and> length (fdb_entries fdb) \<le> fdb_capacity fdb"

text \<open>What is known of an address: its port and when it was last seen.\<close>

definition fdb_known :: "nfs_fdb \<Rightarrow> mac \<Rightarrow> (int \<times> int) option" where
  "fdb_known fdb m =
     map_option (\<lambda>e. (fdb_port e, fdb_last_seen e)) (find_key fdb_mac m (fdb_entries fdb))"

definition fdb_unicast :: "mac \<Rightarrow> bool" where
  "fdb_unicast m \<longleftrightarrow> \<not> mac_is_broadcast m \<and> \<not> mac_is_multicast m"

lemma fdb_lookup_known:
  "nfs_fdb_lookup fdb m = (case fdb_known fdb m of None \<Rightarrow> -1 | Some (port, seen) \<Rightarrow> port)"
  by (simp add: nfs_fdb_lookup_def fdb_known_def find_key_def split: option.splits)

text \<open>Learning a unicast address, as an insertion of the pair.\<close>

definition fdb_put :: "nfs_fdb \<Rightarrow> mac \<Rightarrow> int \<times> int \<Rightarrow> nfs_fdb option" where
  "fdb_put fdb m v = map_option (\<lambda>es. fdb\<lparr> fdb_entries := es \<rparr>)
     (upsert fdb_mac (fdb_capacity fdb) m (\<lambda>e. e\<lparr> fdb_port := fst v, fdb_last_seen := snd v \<rparr>)
       \<lparr> fdb_mac = m, fdb_port = fst v, fdb_last_seen = snd v \<rparr> (fdb_entries fdb))"

lemma fdb_learn_put:
  "nfs_fdb_learn fdb m port now = (if fdb_unicast m then fdb_put fdb m (port, now) else Some fdb)"
  by (simp add: nfs_fdb_learn_def fdb_put_def upsert_def fdb_unicast_def split: option.splits)

interpretation fdb: keyed_table fdb_known fdb_put "\<lambda>t. length (fdb_entries t)" fdb_capacity fdb_inv
proof
  fix t k and v :: "int \<times> int" and t'
  assume inv: "fdb_inv t" and put: "fdb_put t k v = Some t'"
  let ?upd = "\<lambda>e. e\<lparr> fdb_port := fst v, fdb_last_seen := snd v \<rparr>"
    and ?new = "\<lparr> fdb_mac = k, fdb_port = fst v, fdb_last_seen = snd v \<rparr>"
  obtain es where es: "upsert fdb_mac (fdb_capacity t) k ?upd ?new (fdb_entries t) = Some es"
      and t': "t' = t\<lparr> fdb_entries := es \<rparr>"
    using put by (auto simp: fdb_put_def)
  have d: "distinct (map fdb_mac (fdb_entries t))" using inv by (simp add: fdb_inv_def)
  note u = upsert_Some [OF d es]
  show "fdb_known t' = (fdb_known t)(k \<mapsto> v)"
    using u(2) by (intro ext) (auto simp: fdb_known_def t' split: option.splits)
  show "fdb_inv t'" using u(1,4) inv by (simp add: fdb_inv_def t')
  show "fdb_capacity t' = fdb_capacity t \<and>
      length (fdb_entries t') = (if fdb_known t k = None then Suc (length (fdb_entries t)) else length (fdb_entries t))"
    using u(3) by (simp add: t' fdb_known_def)
next
  fix t k and v :: "int \<times> int"
  assume "fdb_inv t"
  then show "fdb_put t k v = None \<longleftrightarrow> fdb_known t k = None \<and> length (fdb_entries t) = fdb_capacity t"
    by (auto simp: fdb_put_def upsert_None_iff fdb_known_def fdb_inv_def)
qed (simp add: fdb_inv_def)

section \<open>Aging\<close>

lemma fdb_age_known:
  assumes "fdb_inv fdb" and "nfs_fdb_age fdb max_age now = (n, fdb')"
  shows "fdb_inv fdb'"
    and "fdb_known fdb' m = (case fdb_known fdb m of None \<Rightarrow> None
      | Some (port, seen) \<Rightarrow> if max_age < now - seen then None else Some (port, seen))"
proof -
  let ?f = "\<lambda>e. if now - fdb_last_seen e > max_age then Drop else Keep"
  have es: "fdb' = fdb\<lparr> fdb_entries := fst (sweep ?f 0 (fdb_entries fdb) 0) \<rparr>"
    using assms(2) by (simp add: nfs_fdb_age_def split: prod.splits)
  have d: "distinct (map fdb_mac (fdb_entries fdb))" using assms(1) by (simp add: fdb_inv_def)
  have k: "?f e = Change e' \<Longrightarrow> fdb_mac e' = fdb_mac e" for e e' by (simp split: if_splits)
  note sw = sweep_keys [OF d, where f = ?f and n = 0, OF k]
  show "fdb_inv fdb'"
    using sw(1,2) assms(1) by (simp add: fdb_inv_def es)
  show "fdb_known fdb' m = (case fdb_known fdb m of None \<Rightarrow> None
      | Some (port, seen) \<Rightarrow> if max_age < now - seen then None else Some (port, seen))"
    using sw(3) [of m] by (auto simp: fdb_known_def es split: option.splits if_splits)
qed

datatype fdb_event = FdbLearn mac int int | FdbAge int int

fun fdb_step :: "nfs_fdb \<Rightarrow> fdb_event \<Rightarrow> nfs_fdb" where
  "fdb_step fdb (FdbLearn m port now) = (case nfs_fdb_learn fdb m port now of None \<Rightarrow> fdb | Some f \<Rightarrow> f)"
| "fdb_step fdb (FdbAge max_age now) = snd (nfs_fdb_age fdb max_age now)"

interpretation fdb_run: machine fdb_step "\<lambda>f e. True" fdb_inv
proof
  fix f e
  assume inv: "fdb_inv f"
  show "fdb_inv (fdb_step f e)"
  proof (cases e)
    case (FdbLearn m port now)
    then show ?thesis
      using inv fdb.ins_inv [OF inv, of m "(port, now)"] by (simp add: fdb_learn_put split: option.split)
  next
    case (FdbAge max_age now)
    obtain n f' where "nfs_fdb_age f max_age now = (n, f')" by fastforce
    then show ?thesis using FdbAge fdb_age_known(1) [OF inv] by simp
  qed
qed

text \<open>
  Learn, then forward: after any history of frames and aging, once a unicast source address is
  learned on a port, frames to it go to that port alone (nowhere if they come from there), frames to
  other known or unknown addresses go where they went before, and learning fails
  only when the address is new and the database full.
\<close>
theorem fdb_learn_then_forward:
  assumes "fdb_unicast m" and "0 \<le> port"
  shows "let fdb = foldl fdb_step (nfs_fdb_init cap) es in
    (case nfs_fdb_learn fdb m port now of
       None \<Rightarrow> nfs_fdb_forward fdb m src n = flood_ports src n \<and>
         m \<notin> fdb_mac ` set (fdb_entries fdb) \<and> length (fdb_entries fdb) = fdb_capacity fdb
     | Some fdb' \<Rightarrow>
         nfs_fdb_forward fdb' m src n = (if port = src then [] else [port]) \<and>
         (\<forall>d. d \<noteq> m \<longrightarrow> nfs_fdb_forward fdb' d src n = nfs_fdb_forward fdb d src n)) \<and>
    length (fdb_entries fdb) \<le> fdb_capacity fdb"
proof -
  define fdb where "fdb = foldl fdb_step (nfs_fdb_init cap) es"
  have inv: "fdb_inv fdb"
    unfolding fdb_def by (rule fdb_run.run_inv) (simp_all add: fdb_inv_def nfs_fdb_init_def)
  show ?thesis
  proof (cases "nfs_fdb_learn fdb m port now")
    case None
    then have full: "fdb_known fdb m = None" "length (fdb_entries fdb) = fdb_capacity fdb"
      using fdb.ins_full [OF inv] assms(1) by (auto simp: fdb_learn_put)
    then have "m \<notin> fdb_mac ` set (fdb_entries fdb)" by (auto simp: fdb_known_def find_key_None_iff)
    then show ?thesis
      unfolding fdb_def [symmetric] Let_def using None assms(1) full
      by (simp add: nfs_fdb_forward_def fdb_unicast_def fdb_lookup_known)
  next
    case (Some fdb')
    then have "fdb_known fdb' = (fdb_known fdb)(m \<mapsto> (port, now))"
      using fdb.ins_lookup [OF inv] assms(1) by (simp add: fdb_learn_put)
    then show ?thesis
      unfolding fdb_def [symmetric] Let_def using Some assms inv
      by (simp add: nfs_fdb_forward_def fdb_unicast_def fdb_lookup_known fdb_inv_def)
  qed
qed

lemma fdb_learn_then_forward_witness:
  "nfs_fdb_forward (the (nfs_fdb_learn (nfs_fdb_init 4) [2, 0, 0, 0, 0, 1] 3 100)) [2, 0, 0, 0, 0, 1] 1 8 = [3]"
proof -
  have "fdb_unicast [2, 0, 0, 0, 0, 1]"
    by (simp add: fdb_unicast_def mac_is_broadcast_def mac_is_multicast_def)
  from fdb_learn_then_forward [OF this, where port = 3 and cap = 4 and es = "[]" and now = 100 and src = 1 and n = 8] show ?thesis
    by (simp add: nfs_fdb_learn_def nfs_fdb_init_def mac_is_broadcast_def mac_is_multicast_def)
qed

text \<open>
  Aging forgets exactly the addresses not seen for longer than the limit; the others keep
  their port and time, whatever order the swapped removals leave them in.
\<close>
theorem fdb_age_correct:
  "let fdb = foldl fdb_step (nfs_fdb_init cap) es; (removed, fdb') = nfs_fdb_age fdb max_age now in
    (\<forall>m. fdb_known fdb' m =
      (case fdb_known fdb m of None \<Rightarrow> None
       | Some (port, seen) \<Rightarrow> if max_age < now - seen then None else Some (port, seen))) \<and>
    removed = length (filter (\<lambda>e. max_age < now - fdb_last_seen e) (fdb_entries fdb))"
proof -
  define fdb where "fdb = foldl fdb_step (nfs_fdb_init cap) es"
  have inv: "fdb_inv fdb"
    unfolding fdb_def by (rule fdb_run.run_inv) (simp_all add: fdb_inv_def nfs_fdb_init_def)
  let ?f = "\<lambda>e. if now - fdb_last_seen e > max_age then Drop else Keep"
  have "fst (nfs_fdb_age fdb max_age now) = snd (sweep ?f 0 (fdb_entries fdb) 0)"
    by (simp add: nfs_fdb_age_def split: prod.split)
  also have "\<dots> = length (filter (\<lambda>e. ?f e \<noteq> Keep) (fdb_entries fdb))"
    by (simp add: sweep_count)
  also have "(\<lambda>e. ?f e \<noteq> Keep) = (\<lambda>e. max_age < now - fdb_last_seen e)" by auto
  finally have c: "fst (nfs_fdb_age fdb max_age now) =
      length (filter (\<lambda>e. max_age < now - fdb_last_seen e) (fdb_entries fdb))" .
  obtain n fdb' where a: "nfs_fdb_age fdb max_age now = (n, fdb')" by fastforce
  show ?thesis
    unfolding fdb_def [symmetric] Let_def a
    using c fdb_age_known(2) [OF inv a] by (simp add: a)
qed

end
