(* ===== verification/ArpCache.thy ===== *)
theory ArpCache
  imports Tables
begin

text \<open>
  The ARP cache (\<^verbatim>\<open>phases/02-link-layer/07-the-arp-cache/arp_cache.c\<close>): addresses of neighbours with
  a state that ages from REACHABLE to STALE to absent. \<^verbatim>\<open>time(NULL)\<close> is the argument \<open>now\<close>, and
  \<^verbatim>\<open>difftime\<close> of two times is their difference in seconds. The formatter and
  \<open>nfs_arp_cache_free\<close> are not modelled.
\<close>

section \<open>Definitions\<close>

datatype arp_state = NFS_ARP_INCOMPLETE | NFS_ARP_REACHABLE | NFS_ARP_STALE | NFS_ARP_FAILED

record nfs_arp_entry =
  arp_ip :: u32
  arp_mac :: "u8 list"
  arp_state :: arp_state
  arp_timestamp :: int

record nfs_arp_cache =
  arp_entries :: "nfs_arp_entry list"
  arp_capacity :: nat

definition nfs_arp_cache_init :: "nat \<Rightarrow> nfs_arp_cache" where
  "nfs_arp_cache_init cap = \<lparr> arp_entries = [], arp_capacity = cap \<rparr>"

definition find_index :: "nfs_arp_cache \<Rightarrow> u32 \<Rightarrow> nat option" where
  "find_index c ip = find_idx (\<lambda>e. arp_ip e = ip) (arp_entries c)"

definition nfs_arp_cache_insert ::
  "nfs_arp_cache \<Rightarrow> u32 \<Rightarrow> u8 list \<Rightarrow> arp_state \<Rightarrow> int \<Rightarrow> nfs_arp_cache option" where
  "nfs_arp_cache_insert c ip m state now =
     (case find_index c ip of
        Some idx \<Rightarrow>
          Some (c\<lparr> arp_entries := (arp_entries c)
            [idx := (arp_entries c ! idx)\<lparr> arp_mac := m, arp_state := state, arp_timestamp := now \<rparr>] \<rparr>)
      | None \<Rightarrow>
          if length (arp_entries c) \<ge> arp_capacity c then None
          else Some (c\<lparr> arp_entries := arp_entries c @
            [\<lparr> arp_ip = ip, arp_mac = m, arp_state = state, arp_timestamp = now \<rparr>] \<rparr>))"

definition nfs_arp_cache_lookup :: "nfs_arp_cache \<Rightarrow> u32 \<Rightarrow> nfs_arp_entry option" where
  "nfs_arp_cache_lookup c ip = map_option (\<lambda>idx. arp_entries c ! idx) (find_index c ip)"

definition nfs_arp_cache_remove :: "nfs_arp_cache \<Rightarrow> u32 \<Rightarrow> nfs_arp_cache option" where
  "nfs_arp_cache_remove c ip =
     (case find_index c ip of
        None \<Rightarrow> None
      | Some idx \<Rightarrow> Some (c\<lparr> arp_entries := swap_remove idx (arp_entries c) \<rparr>))"

definition arp_verdict :: "int \<Rightarrow> int \<Rightarrow> nfs_arp_entry \<Rightarrow> nfs_arp_entry verdict" where
  "arp_verdict timeout_sec now e =
     (let age = now - arp_timestamp e in
      if arp_state e = NFS_ARP_REACHABLE \<and> age \<ge> timeout_sec
      then Change (e\<lparr> arp_state := NFS_ARP_STALE, arp_timestamp := now \<rparr>)
      else if arp_state e = NFS_ARP_STALE \<and> age \<ge> timeout_sec then Drop
      else Keep)"

definition nfs_arp_cache_age :: "nfs_arp_cache \<Rightarrow> int \<Rightarrow> int \<Rightarrow> nat \<times> nfs_arp_cache" where
  "nfs_arp_cache_age c timeout_sec now =
     (let (es, changed) = sweep (arp_verdict timeout_sec now) 0 (arp_entries c) 0
      in (changed, c\<lparr> arp_entries := es \<rparr>))"

fun nfs_arp_state_name :: "arp_state \<Rightarrow> string" where
  "nfs_arp_state_name NFS_ARP_INCOMPLETE = ''INCOMPLETE''"
| "nfs_arp_state_name NFS_ARP_REACHABLE = ''REACHABLE''"
| "nfs_arp_state_name NFS_ARP_STALE = ''STALE''"
| "nfs_arp_state_name NFS_ARP_FAILED = ''FAILED''"

section \<open>The cache is a bounded map\<close>

definition arp_inv :: "nfs_arp_cache \<Rightarrow> bool" where
  "arp_inv c \<longleftrightarrow> distinct (map arp_ip (arp_entries c)) \<and> length (arp_entries c) \<le> arp_capacity c"

lemma arp_lookup_key: "nfs_arp_cache_lookup c ip = find_key arp_ip ip (arp_entries c)"
  by (simp add: nfs_arp_cache_lookup_def find_index_def find_key_idx)

text \<open>The address, state and time known for a neighbour.\<close>

definition arp_info :: "nfs_arp_entry \<Rightarrow> u8 list \<times> arp_state \<times> int" where
  "arp_info e = (arp_mac e, arp_state e, arp_timestamp e)"

definition arp_known :: "nfs_arp_cache \<Rightarrow> u32 \<Rightarrow> (u8 list \<times> arp_state \<times> int) option" where
  "arp_known c ip = map_option arp_info (nfs_arp_cache_lookup c ip)"

fun arp_put :: "nfs_arp_cache \<Rightarrow> u32 \<Rightarrow> u8 list \<times> arp_state \<times> int \<Rightarrow> nfs_arp_cache option" where
  "arp_put c ip (m, state, now) = nfs_arp_cache_insert c ip m state now"

lemma arp_insert_upsert:
  "nfs_arp_cache_insert c ip m state now = map_option (\<lambda>es. c\<lparr> arp_entries := es \<rparr>)
     (upsert arp_ip (arp_capacity c) ip (\<lambda>e. e\<lparr> arp_mac := m, arp_state := state, arp_timestamp := now \<rparr>)
       \<lparr> arp_ip = ip, arp_mac = m, arp_state = state, arp_timestamp = now \<rparr> (arp_entries c))"
  by (simp add: nfs_arp_cache_insert_def upsert_def find_index_def split: option.splits)

interpretation arp: keyed_table arp_known arp_put "\<lambda>t. length (arp_entries t)" arp_capacity arp_inv
proof
  fix t k v t'
  assume inv: "arp_inv t" and put: "arp_put t k v = Some t'"
  obtain m state now where v: "v = (m, state, now)" by (cases v)
  let ?upd = "\<lambda>e. e\<lparr> arp_mac := m, arp_state := state, arp_timestamp := now \<rparr>"
    and ?new = "\<lparr> arp_ip = k, arp_mac = m, arp_state = state, arp_timestamp = now \<rparr>"
  obtain es where es: "upsert arp_ip (arp_capacity t) k ?upd ?new (arp_entries t) = Some es"
      and t': "t' = t\<lparr> arp_entries := es \<rparr>"
    using put by (auto simp: v arp_insert_upsert)
  have d: "distinct (map arp_ip (arp_entries t))" using inv by (simp add: arp_inv_def)
  note u = upsert_Some [OF d es]
  show "arp_known t' = (arp_known t)(k \<mapsto> v)"
    using u(2) by (intro ext) (auto simp: arp_known_def arp_lookup_key t' v arp_info_def split: option.splits)
  show "arp_inv t'" using u(1,4) inv by (simp add: arp_inv_def t')
  show "arp_capacity t' = arp_capacity t \<and>
      length (arp_entries t') = (if arp_known t k = None then Suc (length (arp_entries t)) else length (arp_entries t))"
    using u(3) by (simp add: t' arp_known_def arp_lookup_key)
next
  fix t k v
  assume "arp_inv t"
  then show "arp_put t k v = None \<longleftrightarrow> arp_known t k = None \<and> length (arp_entries t) = arp_capacity t"
    by (cases v) (auto simp: arp_insert_upsert upsert_None_iff arp_known_def arp_lookup_key arp_inv_def)
qed (simp add: arp_inv_def)

lemma arp_remove_known:
  assumes "arp_inv c" and "nfs_arp_cache_remove c ip = Some c'"
  shows "arp_inv c'" and "arp_known c' = (arp_known c)(ip := None)" and "arp_known c ip \<noteq> None"
proof -
  obtain i where i: "find_idx (\<lambda>e. arp_ip e = ip) (arp_entries c) = Some i"
      and c': "c' = c\<lparr> arp_entries := swap_remove i (arp_entries c) \<rparr>"
    using assms(2) by (auto simp: nfs_arp_cache_remove_def find_index_def split: option.splits)
  have d: "distinct (map arp_ip (arp_entries c))" using assms(1) by (simp add: arp_inv_def)
  note r = remove_key [OF d i]
  have "length (swap_remove i (arp_entries c)) \<le> arp_capacity c"
    using r(3) assms(1) unfolding arp_inv_def by linarith
  then show "arp_inv c'" using r(1) by (simp add: arp_inv_def c')
  show "arp_known c' = (arp_known c)(ip := None)"
    using r(2) by (intro ext) (auto simp: arp_known_def arp_lookup_key c')
  show "arp_known c ip \<noteq> None"
    using i by (simp add: arp_known_def arp_lookup_key find_key_idx)
qed

lemma arp_age_known:
  assumes "arp_inv c" and "nfs_arp_cache_age c timeout_sec now = (n, c')"
  shows "arp_inv c'"
    and "nfs_arp_cache_lookup c' ip =
      Option.bind (nfs_arp_cache_lookup c ip) (\<lambda>e. verdict_result e (arp_verdict timeout_sec now e))"
proof -
  have es: "c' = c\<lparr> arp_entries := fst (sweep (arp_verdict timeout_sec now) 0 (arp_entries c) 0) \<rparr>"
    using assms(2) by (simp add: nfs_arp_cache_age_def split: prod.splits)
  have d: "distinct (map arp_ip (arp_entries c))" using assms(1) by (simp add: arp_inv_def)
  have k: "arp_verdict timeout_sec now e = Change e' \<Longrightarrow> arp_ip e' = arp_ip e" for e e'
    by (auto simp: arp_verdict_def Let_def split: if_splits)
  note sw = sweep_keys [OF d, where f = "arp_verdict timeout_sec now" and n = 0, OF k]
  show "arp_inv c'" using sw(1,2) assms(1) by (simp add: arp_inv_def es)
  show "nfs_arp_cache_lookup c' ip =
      Option.bind (nfs_arp_cache_lookup c ip) (\<lambda>e. verdict_result e (arp_verdict timeout_sec now e))"
    using sw(3) [of ip] by (simp add: arp_lookup_key es)
qed

datatype arp_event = ArpInsert u32 "u8 list" arp_state int | ArpRemove u32 | ArpAge int int

fun arp_step :: "nfs_arp_cache \<Rightarrow> arp_event \<Rightarrow> nfs_arp_cache" where
  "arp_step c (ArpInsert ip m st now) = (case nfs_arp_cache_insert c ip m st now of None \<Rightarrow> c | Some c' \<Rightarrow> c')"
| "arp_step c (ArpRemove ip) = (case nfs_arp_cache_remove c ip of None \<Rightarrow> c | Some c' \<Rightarrow> c')"
| "arp_step c (ArpAge timeout now) = snd (nfs_arp_cache_age c timeout now)"

interpretation arp_run: machine arp_step "\<lambda>c e. True" arp_inv
proof
  fix c e
  assume inv: "arp_inv c"
  show "arp_inv (arp_step c e)"
  proof (cases e)
    case (ArpInsert ip m st now)
    then show ?thesis
      using inv arp.ins_inv [OF inv, of ip "(m, st, now)"] by (simp split: option.split)
  next
    case (ArpRemove ip)
    then show ?thesis using inv arp_remove_known(1) [OF inv, of ip] by (simp split: option.split)
  next
    case (ArpAge timeout now)
    obtain n c' where "nfs_arp_cache_age c timeout now = (n, c')" by fastforce
    then show ?thesis using ArpAge arp_age_known(1) [OF inv] by simp
  qed
qed

lemma arp_run_inv: "arp_inv (foldl arp_step (nfs_arp_cache_init cap) es)"
  by (rule arp_run.run_inv) (simp_all add: arp_inv_def nfs_arp_cache_init_def)

text \<open>
  The ARP cache is a map: after any history of inserts, removals and aging, inserting binds the
  address and no other, removing unbinds it and no other, each fails only when it must (a new
  address in a full cache, an address that is not there), and the count stays within capacity.
\<close>
theorem arp_cache_is_map:
  "let c = foldl arp_step (nfs_arp_cache_init cap) es in
    (case nfs_arp_cache_insert c ip m st now of
       None \<Rightarrow> nfs_arp_cache_lookup c ip = None \<and> length (arp_entries c) = arp_capacity c
     | Some c' \<Rightarrow> arp_known c' = (arp_known c)(ip \<mapsto> (m, st, now))) \<and>
    (case nfs_arp_cache_remove c ip of
       None \<Rightarrow> nfs_arp_cache_lookup c ip = None
     | Some c' \<Rightarrow> arp_known c' = (arp_known c)(ip := None)) \<and>
    length (arp_entries c) \<le> arp_capacity c"
proof -
  define c where "c = foldl arp_step (nfs_arp_cache_init cap) es"
  have inv: "arp_inv c" unfolding c_def by (rule arp_run_inv)
  have "nfs_arp_cache_remove c ip = None \<Longrightarrow> nfs_arp_cache_lookup c ip = None"
    by (auto simp: nfs_arp_cache_remove_def nfs_arp_cache_lookup_def split: option.splits)
  moreover have "nfs_arp_cache_lookup c ip = None \<longleftrightarrow> arp_known c ip = None"
    by (simp add: arp_known_def)
  ultimately show ?thesis
    unfolding c_def [symmetric] Let_def
    using arp.ins_lookup [OF inv, of ip "(m, st, now)"] arp.ins_full [OF inv, of ip "(m, st, now)"]
      arp_remove_known(2) [OF inv, of ip] arp.used_cap [OF inv]
    by (simp split: option.split)
qed

text \<open>
  Aging an entry takes two steps: one that is REACHABLE for the timeout turns STALE at the current
  time with its address kept, one that is STALE for the timeout is dropped, and every
  other entry is left alone; the result counts the entries that changed.
\<close>
theorem arp_cache_age_correct:
  "let c = foldl arp_step (nfs_arp_cache_init cap) es; (changed, c') = nfs_arp_cache_age c timeout_sec now in
    (\<forall>ip. nfs_arp_cache_lookup c' ip =
      (case nfs_arp_cache_lookup c ip of
         None \<Rightarrow> None
       | Some e \<Rightarrow>
           if now - arp_timestamp e < timeout_sec then Some e
           else if arp_state e = NFS_ARP_REACHABLE
           then Some (e\<lparr> arp_state := NFS_ARP_STALE, arp_timestamp := now \<rparr>)
           else if arp_state e = NFS_ARP_STALE then None
           else Some e)) \<and>
    changed = length (filter (\<lambda>e. timeout_sec \<le> now - arp_timestamp e \<and>
      arp_state e \<in> {NFS_ARP_REACHABLE, NFS_ARP_STALE}) (arp_entries c))"
proof -
  define c where "c = foldl arp_step (nfs_arp_cache_init cap) es"
  have inv: "arp_inv c" unfolding c_def by (rule arp_run_inv)
  obtain n c' where a: "nfs_arp_cache_age c timeout_sec now = (n, c')" by fastforce
  have "n = snd (sweep (arp_verdict timeout_sec now) 0 (arp_entries c) 0)"
    using a by (simp add: nfs_arp_cache_age_def split: prod.splits)
  also have "\<dots> = length (filter (\<lambda>e. arp_verdict timeout_sec now e \<noteq> Keep) (arp_entries c))"
    by (simp add: sweep_count)
  also have "(\<lambda>e. arp_verdict timeout_sec now e \<noteq> Keep) = (\<lambda>e. timeout_sec \<le> now - arp_timestamp e \<and>
      arp_state e \<in> {NFS_ARP_REACHABLE, NFS_ARP_STALE})"
    by (auto simp: arp_verdict_def Let_def)
  finally have n: "n = length (filter (\<lambda>e. timeout_sec \<le> now - arp_timestamp e \<and>
      arp_state e \<in> {NFS_ARP_REACHABLE, NFS_ARP_STALE}) (arp_entries c))" .
  have "verdict_result e (arp_verdict timeout_sec now e) =
      (if now - arp_timestamp e < timeout_sec then Some e
       else if arp_state e = NFS_ARP_REACHABLE
       then Some (e\<lparr> arp_state := NFS_ARP_STALE, arp_timestamp := now \<rparr>)
       else if arp_state e = NFS_ARP_STALE then None else Some e)" for e
    by (auto simp: arp_verdict_def Let_def)
  then show ?thesis
    unfolding c_def [symmetric] Let_def a prod.case
    using n arp_age_known(2) [OF inv a] by (auto split: option.split)
qed

end
