(* ===== verification/L2Switch.thy ===== *)
theory L2Switch
  imports Tables
begin

text \<open>
  The learning switch with VLANs
  (\<^verbatim>\<open>phases/02-link-layer/18-capstone-a-tiny-l2-switch/l2switch.c\<close>): ports, a table of addresses
  per VLAN, a VLAN table, and the handling of a received frame with its counters. The tables are
  arrays of slots with a validity flag. A frame is its list of bytes; an operation that returns
  -1 is \<open>None\<close>. The clock \<^verbatim>\<open>tick\<close> is set by the caller.
\<close>

section \<open>Data\<close>

definition NFS_SW_MAX_PORTS :: nat where "NFS_SW_MAX_PORTS = 32"
definition NFS_SW_MAX_VLANS :: nat where "NFS_SW_MAX_VLANS = 64"
definition NFS_SW_MAC_TABLE :: nat where "NFS_SW_MAC_TABLE = 1024"

datatype sw_port_mode = NFS_SW_PORT_ACCESS | NFS_SW_PORT_TRUNK
datatype sw_action = NFS_SW_FORWARD | NFS_SW_FLOOD | NFS_SW_DROP

record nfs_sw_port =
  sp_id :: int
  sp_active :: bool
  sp_mode :: sw_port_mode
  sp_pvid :: u16
  sp_allowed_vlans :: u64
  sp_rx_frames :: u64
  sp_tx_frames :: u64
  sp_mirror_dst :: int

record nfs_sw_mac_entry =
  sm_mac :: "u8 list"
  sm_port_id :: int
  sm_vlan_id :: u16
  sm_last_seen :: u32
  sm_valid :: bool

record nfs_sw_vlan =
  sv_vlan_id :: u16
  sv_active :: bool
  sv_name :: string

record nfs_sw_result =
  sr_action :: sw_action
  sr_dst_port :: int
  sr_vlan_id :: u16

record nfs_l2switch =
  sw_num_ports :: nat
  sw_ports :: "nfs_sw_port list"
  sw_mac_table :: "nfs_sw_mac_entry list"
  sw_vlans :: "nfs_sw_vlan list"
  sw_mac_aging :: u32
  sw_tick :: u32
  sw_total_rx :: u64
  sw_total_tx :: u64
  sw_total_flooded :: u64
  sw_total_dropped :: u64
  sw_total_forwarded :: u64

definition is_broadcast :: "u8 list \<Rightarrow> bool" where
  "is_broadcast m \<longleftrightarrow> m = [0xFF, 0xFF, 0xFF, 0xFF, 0xFF, 0xFF]"

definition is_multicast :: "u8 list \<Rightarrow> bool" where
  "is_multicast m \<longleftrightarrow> m ! 0 AND 0x01 \<noteq> 0"

definition vlan_in_bitmask :: "u64 \<Rightarrow> u16 \<Rightarrow> bool" where
  "vlan_in_bitmask m vlan_id \<longleftrightarrow>
     (if vlan_id \<ge> 64 then False else m AND push_bit (unat vlan_id) 1 \<noteq> 0)"

section \<open>Ports and VLANs\<close>

definition nfs_sw_init :: nfs_l2switch where
  "nfs_sw_init =
     \<lparr> sw_num_ports = 0,
       sw_ports = replicate NFS_SW_MAX_PORTS \<lparr> sp_id = 0, sp_active = False, sp_mode = NFS_SW_PORT_ACCESS,
         sp_pvid = 0, sp_allowed_vlans = 0, sp_rx_frames = 0, sp_tx_frames = 0, sp_mirror_dst = -1 \<rparr>,
       sw_mac_table = replicate NFS_SW_MAC_TABLE \<lparr> sm_mac = replicate 6 0, sm_port_id = 0, sm_vlan_id = 0,
         sm_last_seen = 0, sm_valid = False \<rparr>,
       sw_vlans = (replicate NFS_SW_MAX_VLANS \<lparr> sv_vlan_id = 0, sv_active = False, sv_name = '''' \<rparr>)
         [0 := \<lparr> sv_vlan_id = 1, sv_active = True, sv_name = ''default'' \<rparr>],
       sw_mac_aging = 300, sw_tick = 0,
       sw_total_rx = 0, sw_total_tx = 0, sw_total_flooded = 0, sw_total_dropped = 0,
       sw_total_forwarded = 0 \<rparr>"

definition pvid_mask :: "u16 \<Rightarrow> u64" where
  "pvid_mask pvid = (if pvid < 64 then push_bit (unat pvid) 1 else 0)"

definition nfs_sw_add_port :: "nfs_l2switch \<Rightarrow> sw_port_mode \<Rightarrow> u16 \<Rightarrow> (nat \<times> nfs_l2switch) option" where
  "nfs_sw_add_port sw mode pvid =
     (if sw_num_ports sw \<ge> NFS_SW_MAX_PORTS then None
      else
        let id = sw_num_ports sw;
            p = (sw_ports sw ! id)\<lparr> sp_id := int id, sp_active := True, sp_mode := mode, sp_pvid := pvid,
              sp_rx_frames := 0, sp_tx_frames := 0, sp_mirror_dst := -1,
              sp_allowed_vlans := pvid_mask pvid \<rparr>
        in Some (id, sw\<lparr> sw_ports := (sw_ports sw)[id := p], sw_num_ports := sw_num_ports sw + 1 \<rparr>))"

definition nfs_sw_set_port_mode ::
  "nfs_l2switch \<Rightarrow> int \<Rightarrow> sw_port_mode \<Rightarrow> u16 \<Rightarrow> nfs_l2switch option" where
  "nfs_sw_set_port_mode sw port_id mode pvid =
     (if port_id < 0 \<or> port_id \<ge> int (sw_num_ports sw) then None
      else
        let i = nat port_id;
            p = (sw_ports sw ! i)\<lparr> sp_mode := mode, sp_pvid := pvid, sp_allowed_vlans := pvid_mask pvid \<rparr>
        in Some (sw\<lparr> sw_ports := (sw_ports sw)[i := p] \<rparr>))"

definition nfs_sw_vlan_create :: "nfs_l2switch \<Rightarrow> u16 \<Rightarrow> string option \<Rightarrow> nfs_l2switch option" where
  "nfs_sw_vlan_create sw vlan_id name =
     (if vlan_id = 0 then None
      else if list_ex (\<lambda>v. sv_active v \<and> sv_vlan_id v = vlan_id) (sw_vlans sw) then None
      else
        case find_idx (\<lambda>v. \<not> sv_active v) (sw_vlans sw) of
          None \<Rightarrow> None
        | Some i \<Rightarrow>
            Some (sw\<lparr> sw_vlans := (sw_vlans sw)[i := \<lparr> sv_vlan_id = vlan_id, sv_active = True,
              sv_name = (case name of None \<Rightarrow> '''' | Some s \<Rightarrow> take 31 s) \<rparr>] \<rparr>))"

definition nfs_sw_vlan_delete :: "nfs_l2switch \<Rightarrow> u16 \<Rightarrow> nfs_l2switch option" where
  "nfs_sw_vlan_delete sw vlan_id =
     (case find_idx (\<lambda>v. sv_active v \<and> sv_vlan_id v = vlan_id) (sw_vlans sw) of
        None \<Rightarrow> None
      | Some i \<Rightarrow>
          Some (sw\<lparr> sw_vlans := (sw_vlans sw)
            [i := \<lparr> sv_vlan_id = 0, sv_active = False, sv_name = '''' \<rparr>] \<rparr>))"

definition nfs_sw_port_allow_vlan :: "nfs_l2switch \<Rightarrow> int \<Rightarrow> u16 \<Rightarrow> nfs_l2switch option" where
  "nfs_sw_port_allow_vlan sw port_id vlan_id =
     (if port_id < 0 \<or> port_id \<ge> int (sw_num_ports sw) then None
      else if vlan_id \<ge> 64 then None
      else
        let i = nat port_id; p = sw_ports sw ! i
        in Some (sw\<lparr> sw_ports := (sw_ports sw)
          [i := p\<lparr> sp_allowed_vlans := sp_allowed_vlans p OR push_bit (unat vlan_id) 1 \<rparr>] \<rparr>))"

section \<open>The address table\<close>

definition nfs_sw_mac_learn :: "nfs_l2switch \<Rightarrow> u8 list \<Rightarrow> int \<Rightarrow> u16 \<Rightarrow> nfs_l2switch option" where
  "nfs_sw_mac_learn sw m port_id vlan_id =
     (case find_idx (\<lambda>e. sm_valid e \<and> sm_mac e = m \<and> sm_vlan_id e = vlan_id) (sw_mac_table sw) of
        Some i \<Rightarrow>
          Some (sw\<lparr> sw_mac_table := (sw_mac_table sw)
            [i := (sw_mac_table sw ! i)\<lparr> sm_port_id := port_id, sm_last_seen := sw_tick sw \<rparr>] \<rparr>)
      | None \<Rightarrow>
          case find_idx (\<lambda>e. \<not> sm_valid e) (sw_mac_table sw) of
            None \<Rightarrow> None
          | Some i \<Rightarrow>
              Some (sw\<lparr> sw_mac_table := (sw_mac_table sw)
                [i := (sw_mac_table sw ! i)\<lparr> sm_mac := m, sm_port_id := port_id, sm_vlan_id := vlan_id,
                  sm_last_seen := sw_tick sw, sm_valid := True \<rparr>] \<rparr>))"

definition nfs_sw_mac_lookup :: "nfs_l2switch \<Rightarrow> u8 list \<Rightarrow> u16 \<Rightarrow> int" where
  "nfs_sw_mac_lookup sw m vlan_id =
     (case List.find (\<lambda>e. sm_valid e \<and> sm_mac e = m \<and> sm_vlan_id e = vlan_id) (sw_mac_table sw) of
        None \<Rightarrow> -1
      | Some e \<Rightarrow> sm_port_id e)"

definition nfs_sw_mac_flush :: "nfs_l2switch \<Rightarrow> nfs_l2switch" where
  "nfs_sw_mac_flush sw = sw\<lparr> sw_mac_table := map (\<lambda>e. e\<lparr> sm_valid := False \<rparr>) (sw_mac_table sw) \<rparr>"

definition nfs_sw_mac_age :: "nfs_l2switch \<Rightarrow> nfs_l2switch" where
  "nfs_sw_mac_age sw =
     sw\<lparr> sw_mac_table :=
       map (\<lambda>e. if sm_valid e then
                  if sw_tick sw - sm_last_seen e \<ge> sw_mac_aging sw then e\<lparr> sm_valid := False \<rparr> else e
                else e) (sw_mac_table sw) \<rparr>"

definition nfs_sw_mac_count :: "nfs_l2switch \<Rightarrow> nat" where
  "nfs_sw_mac_count sw = length (filter sm_valid (sw_mac_table sw))"

section \<open>Switching a frame\<close>

text \<open>Step 1 of the frame handling: the VLAN of the frame, or \<open>None\<close> for a truncated tag.\<close>

definition frame_vlan :: "nfs_sw_port \<Rightarrow> u8 list \<Rightarrow> u16 option" where
  "frame_vlan in_port frame =
     (if sp_mode in_port = NFS_SW_PORT_TRUNK \<and> get16 frame 12 = 0x8100 then
        if length frame < 18 then None else Some (get16 frame 14 AND 0x0FFF)
      else Some (sp_pvid in_port))"

definition nfs_sw_process_frame ::
  "nfs_l2switch \<Rightarrow> int \<Rightarrow> u8 list \<Rightarrow> (nfs_sw_result \<times> nfs_l2switch) option" where
  "nfs_sw_process_frame sw ingress_port frame =
     (if length frame < 14 then None
      else if ingress_port < 0 \<or> ingress_port \<ge> int (sw_num_ports sw) then None
      else if \<not> sp_active (sw_ports sw ! nat ingress_port) then None
      else
        let i = nat ingress_port;
            in_port = sw_ports sw ! i;
            dst_mac = take 6 frame;
            src_mac = take 6 (drop 6 frame)
        in
        case frame_vlan in_port frame of None \<Rightarrow> None | Some vlan_id \<Rightarrow>
          let counted = sw\<lparr> sw_total_rx := sw_total_rx sw + 1,
                sw_ports := (sw_ports sw)[i := in_port\<lparr> sp_rx_frames := sp_rx_frames in_port + 1 \<rparr>] \<rparr>
          in
          if \<not> vlan_in_bitmask (sp_allowed_vlans in_port) vlan_id then
            Some (\<lparr> sr_action = NFS_SW_DROP, sr_dst_port = -1, sr_vlan_id = vlan_id \<rparr>,
              counted\<lparr> sw_total_dropped := sw_total_dropped sw + 1 \<rparr>)
          else
            let sw1 = (if \<not> is_multicast src_mac
                       then case nfs_sw_mac_learn counted src_mac ingress_port vlan_id of
                              None \<Rightarrow> counted | Some s \<Rightarrow> s
                       else counted)
            in
            if is_broadcast dst_mac \<or> is_multicast dst_mac then
              Some (\<lparr> sr_action = NFS_SW_FLOOD, sr_dst_port = -1, sr_vlan_id = vlan_id \<rparr>,
                sw1\<lparr> sw_total_flooded := sw_total_flooded sw1 + 1 \<rparr>)
            else
              let dst = nfs_sw_mac_lookup sw1 dst_mac vlan_id in
              if dst < 0 then
                Some (\<lparr> sr_action = NFS_SW_FLOOD, sr_dst_port = -1, sr_vlan_id = vlan_id \<rparr>,
                  sw1\<lparr> sw_total_flooded := sw_total_flooded sw1 + 1 \<rparr>)
              else if dst = ingress_port then
                Some (\<lparr> sr_action = NFS_SW_DROP, sr_dst_port = -1, sr_vlan_id = vlan_id \<rparr>,
                  sw1\<lparr> sw_total_dropped := sw_total_dropped sw1 + 1 \<rparr>)
              else
                Some (\<lparr> sr_action = NFS_SW_FORWARD, sr_dst_port = dst, sr_vlan_id = vlan_id \<rparr>,
                  sw1\<lparr> sw_total_forwarded := sw_total_forwarded sw1 + 1, sw_total_tx := sw_total_tx sw1 + 1,
                    sw_ports := (sw_ports sw1)[nat dst :=
                      (sw_ports sw1 ! nat dst)\<lparr> sp_tx_frames := sp_tx_frames (sw_ports sw1 ! nat dst) + 1 \<rparr>] \<rparr>))"

definition nfs_sw_build_frame :: "u8 list \<Rightarrow> u8 list \<Rightarrow> u16 \<Rightarrow> u8 list \<Rightarrow> nat \<Rightarrow> u8 list option" where
  "nfs_sw_build_frame dst src ethertype payload out_sz =
     (let payload_len = (if length payload < 46 then 46 else length payload);
          total = 14 + payload_len
      in if total > out_sz then None
         else Some (dst @ src @ put16 ethertype @ payload @ replicate (payload_len - length payload) 0))"

section \<open>The address table is a bounded map\<close>

definition l2_key :: "nfs_sw_mac_entry \<Rightarrow> u8 list \<times> u16" where
  "l2_key e = (sm_mac e, sm_vlan_id e)"

definition l2_known :: "nfs_l2switch \<Rightarrow> u8 list \<times> u16 \<Rightarrow> int option" where
  "l2_known sw k = map_option sm_port_id (find_slot sm_valid l2_key k (sw_mac_table sw))"

definition l2_keys_distinct :: "nfs_l2switch \<Rightarrow> bool" where
  "l2_keys_distinct sw \<longleftrightarrow> distinct (map l2_key (filter sm_valid (sw_mac_table sw)))"

fun l2_put :: "nfs_l2switch \<Rightarrow> u8 list \<times> u16 \<Rightarrow> int \<Rightarrow> nfs_l2switch option" where
  "l2_put sw (m, vlan_id) port_id = nfs_sw_mac_learn sw m port_id vlan_id"

abbreviation l2_refresh :: "nfs_l2switch \<Rightarrow> int \<Rightarrow> nfs_sw_mac_entry \<Rightarrow> nfs_sw_mac_entry" where
  "l2_refresh sw port_id e \<equiv> e\<lparr> sm_port_id := port_id, sm_last_seen := sw_tick sw \<rparr>"

abbreviation l2_fill :: "nfs_l2switch \<Rightarrow> u8 list \<Rightarrow> int \<Rightarrow> u16 \<Rightarrow> nfs_sw_mac_entry \<Rightarrow> nfs_sw_mac_entry" where
  "l2_fill sw m port_id vlan_id e \<equiv> e\<lparr> sm_mac := m, sm_port_id := port_id, sm_vlan_id := vlan_id,
     sm_last_seen := sw_tick sw, sm_valid := True \<rparr>"

lemma learn_slot_put:
  "nfs_sw_mac_learn sw m port_id vlan_id = map_option (\<lambda>t. sw\<lparr> sw_mac_table := t \<rparr>)
     (slot_put sm_valid l2_key (m, vlan_id) (l2_refresh sw port_id) (l2_fill sw m port_id vlan_id) (sw_mac_table sw))"
  by (simp add: nfs_sw_mac_learn_def slot_put_def l2_key_def split: option.split)

lemma l2_lookup_known: "nfs_sw_mac_lookup sw m v = (case l2_known sw (m, v) of None \<Rightarrow> -1 | Some p \<Rightarrow> p)"
  by (simp add: nfs_sw_mac_lookup_def l2_known_def find_slot_def l2_key_def split: option.split)

interpretation l2: keyed_table l2_known l2_put nfs_sw_mac_count "\<lambda>sw. length (sw_mac_table sw)" l2_keys_distinct
proof
  fix t k v t'
  assume inv: "l2_keys_distinct t" and put: "l2_put t k v = Some t'"
  obtain m vl where k: "k = (m, vl)" by (cases k)
  obtain es where es: "slot_put sm_valid l2_key (m, vl) (l2_refresh t v) (l2_fill t m v vl) (sw_mac_table t) = Some es"
      and t': "t' = t\<lparr> sw_mac_table := es \<rparr>"
    using put by (auto simp: k learn_slot_put)
  have d: "distinct (map l2_key (filter sm_valid (sw_mac_table t)))" using inv by (simp add: l2_keys_distinct_def)
  note p = slot_put_Some [OF d es]
  have other: "l2_known t' j = l2_known t j" if "j \<noteq> k" for j
    using p(4) that by (simp add: l2_known_def t' k l2_key_def)
  have "\<exists>i. find_slot sm_valid l2_key (m, vl) es = Some (es ! i) \<and> sm_port_id (es ! i) = v"
    using p(5) by (auto simp: l2_key_def split: option.splits)
  then have "l2_known t' k = Some v" by (auto simp: l2_known_def t' k)
  with other show "l2_known t' = (l2_known t)(k \<mapsto> v)" by (intro ext) simp
  show "l2_keys_distinct t'" using p(1) by (simp add: l2_keys_distinct_def t' l2_key_def)
  show "length (sw_mac_table t') = length (sw_mac_table t) \<and>
      nfs_sw_mac_count t' = (if l2_known t k = None then Suc (nfs_sw_mac_count t) else nfs_sw_mac_count t)"
    using p(2,3) by (simp add: nfs_sw_mac_count_def t' l2_known_def k l2_key_def)
next
  fix t k v
  show "l2_put t k v = None \<longleftrightarrow> l2_known t k = None \<and> nfs_sw_mac_count t = length (sw_mac_table t)"
    by (cases k) (simp add: learn_slot_put slot_put_None_iff l2_known_def nfs_sw_mac_count_def)
qed (simp add: nfs_sw_mac_count_def)

section \<open>The stages of the frame handling\<close>

text \<open>
  What the handler does to the switch, stage by stage: count the frame on its port, learn the
  source, and account for the verdict on the destination.
\<close>

definition l2_admitted :: "nfs_l2switch \<Rightarrow> int \<Rightarrow> u8 list \<Rightarrow> u16 option" where
  "l2_admitted sw p frame =
     (if 14 \<le> length frame \<and> 0 \<le> p \<and> p < int (sw_num_ports sw) \<and> sp_active (sw_ports sw ! nat p)
      then frame_vlan (sw_ports sw ! nat p) frame else None)"

definition l2_count :: "nfs_l2switch \<Rightarrow> int \<Rightarrow> nfs_l2switch" where
  "l2_count sw p = sw\<lparr> sw_total_rx := sw_total_rx sw + 1,
     sw_ports := (sw_ports sw)[nat p := (sw_ports sw ! nat p)\<lparr> sp_rx_frames := sp_rx_frames (sw_ports sw ! nat p) + 1 \<rparr>] \<rparr>"

definition l2_learn :: "nfs_l2switch \<Rightarrow> u8 list \<Rightarrow> int \<Rightarrow> u16 \<Rightarrow> nfs_l2switch" where
  "l2_learn sw src p v =
     (if is_multicast src then sw else case nfs_sw_mac_learn sw src p v of None \<Rightarrow> sw | Some s \<Rightarrow> s)"

definition l2_verdict :: "nfs_l2switch \<Rightarrow> int \<Rightarrow> u8 list \<Rightarrow> u16 \<Rightarrow> nfs_sw_result" where
  "l2_verdict sw p dst v =
     (if is_broadcast dst \<or> is_multicast dst \<or> nfs_sw_mac_lookup sw dst v < 0
      then \<lparr> sr_action = NFS_SW_FLOOD, sr_dst_port = -1, sr_vlan_id = v \<rparr>
      else if nfs_sw_mac_lookup sw dst v = p
      then \<lparr> sr_action = NFS_SW_DROP, sr_dst_port = -1, sr_vlan_id = v \<rparr>
      else \<lparr> sr_action = NFS_SW_FORWARD, sr_dst_port = nfs_sw_mac_lookup sw dst v, sr_vlan_id = v \<rparr>)"

fun l2_account :: "sw_action \<Rightarrow> nat \<Rightarrow> nfs_l2switch \<Rightarrow> nfs_l2switch" where
  "l2_account NFS_SW_FLOOD q sw = sw\<lparr> sw_total_flooded := sw_total_flooded sw + 1 \<rparr>"
| "l2_account NFS_SW_DROP q sw = sw\<lparr> sw_total_dropped := sw_total_dropped sw + 1 \<rparr>"
| "l2_account NFS_SW_FORWARD q sw =
     sw\<lparr> sw_total_forwarded := sw_total_forwarded sw + 1, sw_total_tx := sw_total_tx sw + 1,
       sw_ports := (sw_ports sw)[q := (sw_ports sw ! q)\<lparr> sp_tx_frames := sp_tx_frames (sw_ports sw ! q) + 1 \<rparr>] \<rparr>"

definition l2_frame :: "nfs_l2switch \<Rightarrow> int \<Rightarrow> u8 list \<Rightarrow> u16 \<Rightarrow> nfs_sw_result \<times> nfs_l2switch" where
  "l2_frame sw p frame v =
     (if \<not> vlan_in_bitmask (sp_allowed_vlans (sw_ports sw ! nat p)) v
      then (\<lparr> sr_action = NFS_SW_DROP, sr_dst_port = -1, sr_vlan_id = v \<rparr>,
        l2_account NFS_SW_DROP 0 (l2_count sw p))
      else
        let sw1 = l2_learn (l2_count sw p) (take 6 (drop 6 frame)) p v;
            r = l2_verdict sw1 p (take 6 frame) v
        in (r, l2_account (sr_action r) (nat (sr_dst_port r)) sw1))"

lemma process_frame_stages:
  "nfs_sw_process_frame sw p frame = map_option (l2_frame sw p frame) (l2_admitted sw p frame)"
proof (cases "l2_admitted sw p frame")
  case None
  then show ?thesis
    by (auto simp: nfs_sw_process_frame_def l2_admitted_def Let_def split: if_splits)
next
  case (Some v)
  then have a: "14 \<le> length frame" "0 \<le> p" "p < int (sw_num_ports sw)" "sp_active (sw_ports sw ! nat p)"
    "frame_vlan (sw_ports sw ! nat p) frame = Some v"
    by (auto simp: l2_admitted_def split: if_splits)
  define counted where "counted = l2_count sw p"
  define src where "src = take 6 (drop 6 frame)"
  define sw1 where "sw1 = l2_learn counted src p v"
  have c: "sw\<lparr> sw_total_rx := sw_total_rx sw + 1, sw_ports := (sw_ports sw)[nat p :=
      (sw_ports sw ! nat p)\<lparr> sp_rx_frames := sp_rx_frames (sw_ports sw ! nat p) + 1 \<rparr>] \<rparr> = counted"
    by (simp add: counted_def l2_count_def)
  have l: "(if \<not> is_multicast src then case nfs_sw_mac_learn counted src p v of None \<Rightarrow> counted | Some s \<Rightarrow> s
      else counted) = sw1"
    by (simp add: sw1_def l2_learn_def)
  have f: "l2_frame sw p frame v =
     (if \<not> vlan_in_bitmask (sp_allowed_vlans (sw_ports sw ! nat p)) v
      then (\<lparr> sr_action = NFS_SW_DROP, sr_dst_port = -1, sr_vlan_id = v \<rparr>, l2_account NFS_SW_DROP 0 counted)
      else (l2_verdict sw1 p (take 6 frame) v, l2_account (sr_action (l2_verdict sw1 p (take 6 frame) v))
        (nat (sr_dst_port (l2_verdict sw1 p (take 6 frame) v))) sw1))"
    by (simp only: l2_frame_def Let_def counted_def sw1_def src_def)
  have nc: "sw_total_dropped counted = sw_total_dropped sw" by (simp add: counted_def l2_count_def)
  have "nfs_sw_process_frame sw p frame = Some (l2_frame sw p frame v)"
    unfolding nfs_sw_process_frame_def Let_def f l2_verdict_def a(5) option.case
    unfolding src_def [symmetric]
    unfolding c
    unfolding l
    using a nc by simp
  then show ?thesis by (simp add: Some)
qed

section \<open>The invariant\<close>

definition l2_ports_ok :: "nfs_l2switch \<Rightarrow> bool" where
  "l2_ports_ok sw \<longleftrightarrow> length (sw_ports sw) = NFS_SW_MAX_PORTS \<and> sw_num_ports sw \<le> NFS_SW_MAX_PORTS \<and>
     (\<forall>i < NFS_SW_MAX_PORTS. if i < sw_num_ports sw then sp_active (sw_ports sw ! i)
        else sp_rx_frames (sw_ports sw ! i) = 0 \<and> sp_tx_frames (sw_ports sw ! i) = 0)"

definition l2_table_ok :: "nfs_l2switch \<Rightarrow> bool" where
  "l2_table_ok sw \<longleftrightarrow> length (sw_mac_table sw) = NFS_SW_MAC_TABLE \<and> l2_keys_distinct sw \<and>
     (\<forall>e \<in> set (sw_mac_table sw). sm_valid e \<longrightarrow> 0 \<le> sm_port_id e \<and> sm_port_id e < int (sw_num_ports sw))"

definition l2_vlans_ok :: "nfs_l2switch \<Rightarrow> bool" where
  "l2_vlans_ok sw \<longleftrightarrow> length (sw_vlans sw) = NFS_SW_MAX_VLANS \<and>
     distinct (map sv_vlan_id (filter sv_active (sw_vlans sw)))"

text \<open>\<open>k\<close> frames are counted as received and not yet accounted for.\<close>

definition l2_balanced :: "u64 \<Rightarrow> nfs_l2switch \<Rightarrow> bool" where
  "l2_balanced k sw \<longleftrightarrow>
     sw_total_rx sw = sw_total_flooded sw + sw_total_dropped sw + sw_total_forwarded sw + k \<and>
     sw_total_tx sw = sw_total_forwarded sw \<and>
     sum_list (map sp_rx_frames (sw_ports sw)) = sw_total_rx sw \<and>
     sum_list (map sp_tx_frames (sw_ports sw)) = sw_total_tx sw"

definition l2_inv :: "nfs_l2switch \<Rightarrow> bool" where
  "l2_inv sw \<longleftrightarrow> l2_ports_ok sw \<and> l2_table_ok sw \<and> l2_vlans_ok sw \<and> l2_balanced 0 sw"

lemma sum_map_update:
  fixes f :: "'a \<Rightarrow> u64"
  shows "i < length xs \<Longrightarrow> sum_list (map f (xs[i := y])) = sum_list (map f xs) - f (xs ! i) + f y"
proof (induction xs arbitrary: i)
  case (Cons x xs)
  then show ?case by (cases i) (simp_all add: algebra_simps)
qed simp

lemma count_ok:
  assumes "l2_ports_ok sw" and "l2_balanced k sw" and "0 \<le> p" and "p < int (sw_num_ports sw)"
  shows "l2_ports_ok (l2_count sw p)" and "l2_balanced (k + 1) (l2_count sw p)"
    and "l2_table_ok (l2_count sw p) = l2_table_ok sw" and "l2_vlans_ok (l2_count sw p) = l2_vlans_ok sw"
proof -
  have lt: "nat p < sw_num_ports sw" using assms(3,4) by linarith
  then have p: "nat p < length (sw_ports sw)" using assms(1) by (auto simp: l2_ports_ok_def)
  show "l2_ports_ok (l2_count sw p)"
    using assms(1) lt by (auto simp: l2_ports_ok_def l2_count_def nth_list_update)
  show "l2_balanced (k + 1) (l2_count sw p)"
    using assms(2) p by (auto simp: l2_balanced_def l2_count_def sum_map_update algebra_simps)
qed (simp_all add: l2_count_def l2_table_ok_def l2_keys_distinct_def l2_vlans_ok_def)

lemma learn_fields:
  assumes "nfs_sw_mac_learn sw src p v = Some sw'"
  shows "\<exists>t. sw' = sw\<lparr> sw_mac_table := t \<rparr>"
  using assms by (auto simp: learn_slot_put)

lemma learn_ok:
  assumes "l2_table_ok sw" and "nfs_sw_mac_learn sw src p v = Some sw'"
    and "0 \<le> p" and "p < int (sw_num_ports sw)"
  shows "l2_table_ok sw'"
proof -
  have d: "l2_keys_distinct sw" using assms(1) by (simp add: l2_table_ok_def)
  obtain t where t: "slot_put sm_valid l2_key (src, v) (l2_refresh sw p) (l2_fill sw src p v) (sw_mac_table sw) = Some t"
      and sw': "sw' = sw\<lparr> sw_mac_table := t \<rparr>"
    using assms(2) by (auto simp: learn_slot_put)
  have put: "l2_put sw (src, v) p = Some sw'" using assms(2) by simp
  have "length t = NFS_SW_MAC_TABLE"
    using l2.ins_used [OF d put] assms(1) by (simp add: sw' l2_table_ok_def)
  moreover have "l2_keys_distinct sw'" using l2.ins_inv [OF d put] .
  moreover have "0 \<le> sm_port_id e \<and> sm_port_id e < int (sw_num_ports sw)" if "e \<in> set t" "sm_valid e" for e
    using slot_put_elem [OF t that(1)] that(2) assms(1,3,4) by (auto simp: l2_table_ok_def)
  ultimately show ?thesis by (simp add: l2_table_ok_def sw')
qed

lemma l2_learn_table: "\<exists>t. l2_learn sw src p v = sw\<lparr> sw_mac_table := t \<rparr>"
proof -
  have "\<exists>t. sw = sw\<lparr> sw_mac_table := t \<rparr>" by (rule exI [of _ "sw_mac_table sw"]) simp
  then show ?thesis by (auto simp: l2_learn_def dest: learn_fields split: option.splits)
qed

lemma l2_learn_ok:
  assumes "0 \<le> p" and "p < int (sw_num_ports sw)"
  shows "l2_ports_ok (l2_learn sw src p v) = l2_ports_ok sw" and "l2_balanced k (l2_learn sw src p v) = l2_balanced k sw"
    and "l2_vlans_ok (l2_learn sw src p v) = l2_vlans_ok sw"
    and "sw_num_ports (l2_learn sw src p v) = sw_num_ports sw" and "sw_ports (l2_learn sw src p v) = sw_ports sw"
    and "l2_table_ok sw \<Longrightarrow> l2_table_ok (l2_learn sw src p v)"
proof -
  obtain t where t: "l2_learn sw src p v = sw\<lparr> sw_mac_table := t \<rparr>" using l2_learn_table by blast
  show "l2_ports_ok (l2_learn sw src p v) = l2_ports_ok sw" "l2_balanced k (l2_learn sw src p v) = l2_balanced k sw"
    "l2_vlans_ok (l2_learn sw src p v) = l2_vlans_ok sw"
    "sw_num_ports (l2_learn sw src p v) = sw_num_ports sw" "sw_ports (l2_learn sw src p v) = sw_ports sw"
    by (simp_all add: t l2_ports_ok_def l2_balanced_def l2_vlans_ok_def)
  show "l2_table_ok sw \<Longrightarrow> l2_table_ok (l2_learn sw src p v)"
    using assms by (auto simp: l2_learn_def intro: learn_ok split: option.split)
qed

lemma account_ok:
  assumes "l2_ports_ok sw" and "l2_balanced (k + 1) sw"
    and "a = NFS_SW_FORWARD \<Longrightarrow> q < sw_num_ports sw"
  shows "l2_ports_ok (l2_account a q sw)" and "l2_balanced k (l2_account a q sw)"
    and "l2_table_ok (l2_account a q sw) = l2_table_ok sw" and "l2_vlans_ok (l2_account a q sw) = l2_vlans_ok sw"
proof -
  have q: "q < length (sw_ports sw)" if "a = NFS_SW_FORWARD"
    using assms(1,3) that by (auto simp: l2_ports_ok_def)
  show "l2_ports_ok (l2_account a q sw)"
    using assms(1,3) by (cases a) (auto simp: l2_ports_ok_def nth_list_update)
  show "l2_balanced k (l2_account a q sw)"
    using assms(2) q by (cases a) (auto simp: l2_balanced_def sum_map_update algebra_simps)
qed (cases a; simp add: l2_table_ok_def l2_keys_distinct_def l2_vlans_ok_def)+

lemma verdict_port:
  assumes "l2_table_ok sw" and "sr_action (l2_verdict sw p dst v) = NFS_SW_FORWARD"
  shows "sr_dst_port (l2_verdict sw p dst v) \<noteq> p" and "0 \<le> sr_dst_port (l2_verdict sw p dst v)"
    and "sr_dst_port (l2_verdict sw p dst v) < int (sw_num_ports sw)"
proof -
  let ?q = "nfs_sw_mac_lookup sw dst v"
  have q: "sr_dst_port (l2_verdict sw p dst v) = ?q" "?q \<noteq> p" "0 \<le> ?q"
    using assms(2) by (auto simp: l2_verdict_def split: if_splits)
  then obtain e where "e \<in> set (sw_mac_table sw)" "sm_valid e" "sm_port_id e = ?q"
    by (auto simp: nfs_sw_mac_lookup_def dest!: find_SomeD split: option.splits)
  with q assms(1) show "sr_dst_port (l2_verdict sw p dst v) \<noteq> p" "0 \<le> sr_dst_port (l2_verdict sw p dst v)"
    "sr_dst_port (l2_verdict sw p dst v) < int (sw_num_ports sw)"
    by (auto simp: l2_table_ok_def)
qed

lemma frame_inv:
  assumes inv: "l2_inv sw" and f: "nfs_sw_process_frame sw p frame = Some (r, sw')"
  shows "l2_inv sw'" and "sr_action r = NFS_SW_FORWARD \<Longrightarrow>
      0 \<le> sr_dst_port r \<and> sr_dst_port r < int (sw_num_ports sw) \<and> sr_dst_port r \<noteq> p"
proof -
  obtain v where a: "l2_admitted sw p frame = Some v" and r: "l2_frame sw p frame v = (r, sw')"
    using f by (auto simp: process_frame_stages)
  have p: "0 \<le> p" "p < int (sw_num_ports sw)" using a by (auto simp: l2_admitted_def split: if_splits)
  have i: "l2_ports_ok sw" "l2_balanced 0 sw" "l2_table_ok sw" "l2_vlans_ok sw"
    using inv by (simp_all add: l2_inv_def)
  define c where "c = l2_count sw p"
  note count = count_ok [OF i(1,2) p, folded c_def]
  have n: "sw_num_ports c = sw_num_ports sw" by (simp add: c_def l2_count_def)
  have pc: "p < int (sw_num_ports c)" using p(2) n by simp
  define s where "s = l2_learn c (take 6 (drop 6 frame)) p v"
  note learn = l2_learn_ok [OF p(1) pc, where src = "take 6 (drop 6 frame)" and v = v, folded s_def]
  have s: "l2_ports_ok s" "l2_balanced (0 + 1) s" "l2_table_ok s" "l2_vlans_ok s" "sw_num_ports s = sw_num_ports sw"
    using count learn i(3,4) n by simp_all
  have "l2_inv sw' \<and> (sr_action r = NFS_SW_FORWARD \<longrightarrow>
      0 \<le> sr_dst_port r \<and> sr_dst_port r < int (sw_num_ports sw) \<and> sr_dst_port r \<noteq> p)"
  proof (cases "vlan_in_bitmask (sp_allowed_vlans (sw_ports sw ! nat p)) v")
    case False
    then have e: "sw' = l2_account NFS_SW_DROP 0 c" "sr_action r = NFS_SW_DROP"
      using r by (auto simp: l2_frame_def c_def)
    have "l2_inv sw'"
      unfolding l2_inv_def e(1) using account_ok [OF count(1,2), of NFS_SW_DROP 0] count(3,4) i(3,4) by simp
    then show ?thesis using e(2) by simp
  next
    case True
    then have e: "r = l2_verdict s p (take 6 frame) v" "sw' = l2_account (sr_action r) (nat (sr_dst_port r)) s"
      using r by (auto simp: l2_frame_def Let_def s_def c_def)
    have fwd: "sr_action r = NFS_SW_FORWARD \<Longrightarrow>
        0 \<le> sr_dst_port r \<and> sr_dst_port r < int (sw_num_ports sw) \<and> sr_dst_port r \<noteq> p"
      using verdict_port [OF s(3)] s(5) by (auto simp: e(1))
    then have "sr_action r = NFS_SW_FORWARD \<Longrightarrow> nat (sr_dst_port r) < sw_num_ports s" using s(5) by auto
    from account_ok [OF s(1,2) this] s(3,4) have "l2_inv sw'" by (simp add: l2_inv_def e(2))
    with fwd show ?thesis by blast
  qed
  then show "l2_inv sw'" and "sr_action r = NFS_SW_FORWARD \<Longrightarrow>
      0 \<le> sr_dst_port r \<and> sr_dst_port r < int (sw_num_ports sw) \<and> sr_dst_port r \<noteq> p" by blast+
qed

section \<open>Runs of the switch\<close>

datatype l2_event =
    L2AddPort sw_port_mode u16 | L2SetMode int sw_port_mode u16 | L2VlanCreate u16 "string option"
  | L2VlanDelete u16 | L2AllowVlan int u16 | L2Learn "u8 list" int u16 | L2Flush | L2Age | L2Tick u32
  | L2Frame int "u8 list"

definition l2_or :: "nfs_l2switch \<Rightarrow> nfs_l2switch option \<Rightarrow> nfs_l2switch" where
  "l2_or sw r = (case r of None \<Rightarrow> sw | Some sw' \<Rightarrow> sw')"

fun l2_step :: "nfs_l2switch \<Rightarrow> l2_event \<Rightarrow> nfs_l2switch" where
  "l2_step sw (L2AddPort mode pvid) = l2_or sw (map_option snd (nfs_sw_add_port sw mode pvid))"
| "l2_step sw (L2SetMode p mode pvid) = l2_or sw (nfs_sw_set_port_mode sw p mode pvid)"
| "l2_step sw (L2VlanCreate v name) = l2_or sw (nfs_sw_vlan_create sw v name)"
| "l2_step sw (L2VlanDelete v) = l2_or sw (nfs_sw_vlan_delete sw v)"
| "l2_step sw (L2AllowVlan p v) = l2_or sw (nfs_sw_port_allow_vlan sw p v)"
| "l2_step sw (L2Learn m p v) = l2_or sw (nfs_sw_mac_learn sw m p v)"
| "l2_step sw L2Flush = nfs_sw_mac_flush sw"
| "l2_step sw L2Age = nfs_sw_mac_age sw"
| "l2_step sw (L2Tick t) = sw\<lparr> sw_tick := t \<rparr>"
| "l2_step sw (L2Frame p frame) = l2_or sw (map_option snd (nfs_sw_process_frame sw p frame))"

text \<open>The caller learns addresses by hand only on ports there are.\<close>

fun l2_ok :: "nfs_l2switch \<Rightarrow> l2_event \<Rightarrow> bool" where
  "l2_ok sw (L2Learn m p v) = (0 \<le> p \<and> p < int (sw_num_ports sw))"
| "l2_ok sw e = True"

lemma l2_orI: "P sw \<Longrightarrow> (\<And>sw'. r = Some sw' \<Longrightarrow> P sw') \<Longrightarrow> P (l2_or sw r)"
  by (auto simp: l2_or_def split: option.split)

lemma update_keeps_sum:
  fixes f :: "'a \<Rightarrow> u64"
  shows "f y = f (xs ! i) \<Longrightarrow> sum_list (map f (xs[i := y])) = sum_list (map f xs)"
  by (cases "i < length xs") (simp_all add: sum_map_update list_update_beyond)

lemma port_update_inv:
  assumes inv: "l2_inv sw" and p: "sp_active p" "sp_rx_frames p = sp_rx_frames (sw_ports sw ! i)"
      "sp_tx_frames p = sp_tx_frames (sw_ports sw ! i)"
    and n: "i < sw_num_ports sw \<and> n = sw_num_ports sw \<or> i = sw_num_ports sw \<and> n = i + 1 \<and> i < NFS_SW_MAX_PORTS"
  shows "l2_inv (sw\<lparr> sw_ports := (sw_ports sw)[i := p], sw_num_ports := n \<rparr>)"
proof -
  let ?sw = "sw\<lparr> sw_ports := (sw_ports sw)[i := p], sw_num_ports := n \<rparr>"
  have "l2_ports_ok ?sw"
    using inv p(1) n by (auto simp: l2_inv_def l2_ports_ok_def nth_list_update)
  moreover have "l2_table_ok ?sw"
    using inv n by (force simp: l2_inv_def l2_table_ok_def l2_keys_distinct_def)
  moreover have "l2_balanced 0 ?sw"
    using inv by (simp add: l2_inv_def l2_balanced_def update_keeps_sum p(2,3))
  ultimately show ?thesis using inv by (simp add: l2_inv_def l2_vlans_ok_def)
qed

lemma add_port_inv:
  assumes inv: "l2_inv sw" and "nfs_sw_add_port sw mode pvid = Some (i, sw')"
  shows "l2_inv sw'"
proof -
  let ?n = "sw_num_ports sw"
  let ?p = "(sw_ports sw ! ?n)\<lparr> sp_id := int ?n, sp_active := True, sp_mode := mode, sp_pvid := pvid,
    sp_rx_frames := 0, sp_tx_frames := 0, sp_mirror_dst := -1, sp_allowed_vlans := pvid_mask pvid \<rparr>"
  have n: "?n < NFS_SW_MAX_PORTS" and sw': "sw' = sw\<lparr> sw_ports := (sw_ports sw)[?n := ?p], sw_num_ports := ?n + 1 \<rparr>"
    using assms(2) by (auto simp: nfs_sw_add_port_def Let_def split: if_splits)
  have "sp_rx_frames (sw_ports sw ! ?n) = 0" "sp_tx_frames (sw_ports sw ! ?n) = 0"
    using inv n by (auto simp: l2_inv_def l2_ports_ok_def)
  then show ?thesis unfolding sw' using n by (intro port_update_inv [OF inv]) simp_all
qed

lemma port_change_inv:
  assumes inv: "l2_inv sw" and "0 \<le> q" and "q < int (sw_num_ports sw)"
    and p: "sp_active p = sp_active (sw_ports sw ! nat q)" "sp_rx_frames p = sp_rx_frames (sw_ports sw ! nat q)"
      "sp_tx_frames p = sp_tx_frames (sw_ports sw ! nat q)"
  shows "l2_inv (sw\<lparr> sw_ports := (sw_ports sw)[nat q := p] \<rparr>)"
proof -
  have q: "nat q < sw_num_ports sw" using assms(2,3) by linarith
  then have "sp_active (sw_ports sw ! nat q)" using inv by (auto simp: l2_inv_def l2_ports_ok_def)
  then have "l2_inv (sw\<lparr> sw_ports := (sw_ports sw)[nat q := p], sw_num_ports := sw_num_ports sw \<rparr>)"
    using p q by (intro port_update_inv [OF inv]) simp_all
  then show ?thesis by simp
qed

lemma set_port_mode_inv: "l2_inv sw \<Longrightarrow> nfs_sw_set_port_mode sw p mode pvid = Some sw' \<Longrightarrow> l2_inv sw'"
  by (auto simp: nfs_sw_set_port_mode_def Let_def intro!: port_change_inv split: if_splits)

lemma allow_vlan_inv: "l2_inv sw \<Longrightarrow> nfs_sw_port_allow_vlan sw p v = Some sw' \<Longrightarrow> l2_inv sw'"
  by (auto simp: nfs_sw_port_allow_vlan_def Let_def intro!: port_change_inv split: if_splits)

lemma vlans_inv:
  "l2_inv sw \<Longrightarrow> l2_vlans_ok (sw\<lparr> sw_vlans := vs \<rparr>) \<Longrightarrow> l2_inv (sw\<lparr> sw_vlans := vs \<rparr>)"
  by (simp add: l2_inv_def l2_ports_ok_def l2_table_ok_def l2_keys_distinct_def l2_balanced_def)

lemma table_inv:
  "l2_inv sw \<Longrightarrow> l2_table_ok (sw\<lparr> sw_mac_table := t \<rparr>) \<Longrightarrow> l2_inv (sw\<lparr> sw_mac_table := t \<rparr>)"
  by (simp add: l2_inv_def l2_ports_ok_def l2_vlans_ok_def l2_balanced_def)

lemma vlan_create_inv:
  assumes "l2_inv sw" and "nfs_sw_vlan_create sw v name = Some sw'"
  shows "l2_inv sw'"
proof -
  define y where "y = \<lparr> sv_vlan_id = v, sv_active = True,
    sv_name = (case name of None \<Rightarrow> '''' | Some s \<Rightarrow> take 31 s) \<rparr>"
  obtain i where i: "find_idx (\<lambda>v. \<not> sv_active v) (sw_vlans sw) = Some i"
      and sw': "sw' = sw\<lparr> sw_vlans := (sw_vlans sw)[i := y] \<rparr>"
      and new: "\<forall>x \<in> set (sw_vlans sw). sv_active x \<longrightarrow> sv_vlan_id x \<noteq> v"
    using assms(2) unfolding nfs_sw_vlan_create_def y_def [symmetric]
    by (auto simp: list_ex_iff split: if_splits option.splits)
  have y: "sv_active y" "sv_vlan_id y = v" by (simp_all add: y_def)
  have d: "distinct (map sv_vlan_id (filter sv_active (sw_vlans sw)))" and l: "length (sw_vlans sw) = NFS_SW_MAX_VLANS"
    using assms(1) by (simp_all add: l2_inv_def l2_vlans_ok_def)
  note f = find_idx_SomeD [OF i]
  have "mset (filter sv_active ((sw_vlans sw)[i := y])) = add_mset y (mset (filter sv_active (sw_vlans sw)))"
    using mset_filter_update [of i "sw_vlans sw" sv_active y] f y(1) by simp
  then have "mset (map sv_vlan_id (filter sv_active ((sw_vlans sw)[i := y]))) =
      mset (map sv_vlan_id (y # filter sv_active (sw_vlans sw)))"
    by simp
  moreover have "distinct (map sv_vlan_id (y # filter sv_active (sw_vlans sw)))"
    using d new y(2) by auto
  ultimately have "distinct (map sv_vlan_id (filter sv_active ((sw_vlans sw)[i := y])))"
    using mset_eq_imp_distinct_iff by blast
  then show ?thesis
    unfolding sw' using assms(1) l by (intro vlans_inv) (simp_all add: l2_vlans_ok_def)
qed

lemma distinct_map_filter_drop:
  assumes "distinct (map f (filter P xs))" and "\<not> P y"
  shows "distinct (map f (filter P (xs[i := y])))"
  using assms
proof (induction xs arbitrary: i)
  case (Cons x xs)
  have "set (filter P (xs[j := y])) \<subseteq> set (filter P xs)" for j
    using set_update_subset_insert [of xs j y] Cons.prems(2) by auto
  with Cons show ?case by (cases i) (auto split: if_splits)
qed simp

lemma vlan_delete_inv:
  assumes "l2_inv sw" and "nfs_sw_vlan_delete sw v = Some sw'"
  shows "l2_inv sw'"
proof -
  obtain i where sw': "sw' = sw\<lparr> sw_vlans := (sw_vlans sw)
      [i := \<lparr> sv_vlan_id = 0, sv_active = False, sv_name = '''' \<rparr>] \<rparr>"
    using assms(2) by (auto simp: nfs_sw_vlan_delete_def split: option.splits)
  show ?thesis
    unfolding sw' using assms(1)
    by (intro vlans_inv) (simp_all add: l2_vlans_ok_def l2_inv_def distinct_map_filter_drop)
qed

lemma invalidate_inv:
  assumes "l2_inv sw"
    and "\<And>e. sm_valid (g e) \<longleftrightarrow> sm_valid e \<and> \<not> old e" and "\<And>e. sm_valid e \<Longrightarrow> \<not> old e \<Longrightarrow> g e = e"
  shows "l2_inv (sw\<lparr> sw_mac_table := map g (sw_mac_table sw) \<rparr>)"
proof (rule table_inv [OF assms(1)])
  have t: "l2_table_ok sw" using assms(1) by (simp add: l2_inv_def)
  then have d: "distinct (map l2_key (filter sm_valid (sw_mac_table sw)))"
    by (simp add: l2_table_ok_def l2_keys_distinct_def)
  have e: "sm_valid (g e) \<Longrightarrow> sm_valid e \<and> g e = e" for e using assms(2,3) by blast
  have range: "0 \<le> sm_port_id (g e) \<and> sm_port_id (g e) < int (sw_num_ports sw)"
    if "e \<in> set (sw_mac_table sw)" "sm_valid (g e)" for e
    using e [OF that(2)] that(1) t by (simp add: l2_table_ok_def)
  show "l2_table_ok (sw\<lparr> sw_mac_table := map g (sw_mac_table sw) \<rparr>)"
    using invalidate_slots(2) [where g = g and old = old, OF d assms(2,3)] t range
    by (auto simp: l2_table_ok_def l2_keys_distinct_def)
qed

lemma flush_inv: "l2_inv sw \<Longrightarrow> l2_inv (nfs_sw_mac_flush sw)"
  unfolding nfs_sw_mac_flush_def by (rule invalidate_inv [where old = "\<lambda>e. True"]) simp_all

lemma age_inv: "l2_inv sw \<Longrightarrow> l2_inv (nfs_sw_mac_age sw)"
  unfolding nfs_sw_mac_age_def
  by (rule invalidate_inv [where old = "\<lambda>e. sw_mac_aging sw \<le> sw_tick sw - sm_last_seen e"]) simp_all

lemma learn_inv:
  assumes "l2_inv sw" and "nfs_sw_mac_learn sw m p v = Some sw'" and "0 \<le> p" and "p < int (sw_num_ports sw)"
  shows "l2_inv sw'"
proof -
  obtain t where t: "sw' = sw\<lparr> sw_mac_table := t \<rparr>" using learn_fields [OF assms(2)] by blast
  have "l2_table_ok sw'" using learn_ok [OF _ assms(2-4)] assms(1) by (simp add: l2_inv_def)
  then show ?thesis unfolding t using table_inv [OF assms(1)] by simp
qed

lemma l2_init_inv: "l2_inv nfs_sw_init"
proof -
  have "filter P (replicate n x) = (if P x then replicate n x else [])" for P n and x :: 'a
    by (induction n) auto
  moreover have "sum_list (replicate n (0 :: u64)) = 0" for n by (induction n) auto
  moreover have "replicate NFS_SW_MAX_VLANS x = x # replicate 63 x" for x :: nfs_sw_vlan
    using replicate_Suc [of 63 x] by (simp add: NFS_SW_MAX_VLANS_def)
  ultimately show ?thesis
    by (simp add: l2_inv_def nfs_sw_init_def l2_ports_ok_def l2_table_ok_def l2_keys_distinct_def l2_vlans_ok_def
        l2_balanced_def NFS_SW_MAX_PORTS_def filter_replicate sum_list_replicate)
      (simp add: NFS_SW_MAX_VLANS_def)
qed

lemma l2_step_inv:
  assumes inv: "l2_inv sw" and ok: "l2_ok sw e"
  shows "l2_inv (l2_step sw e)"
proof (cases e)
  case (L2AddPort mode pvid)
  show ?thesis unfolding L2AddPort l2_step.simps
    by (rule l2_orI [where P = l2_inv, OF inv]) (auto intro: add_port_inv [OF inv])
next
  case (L2SetMode p mode pvid)
  show ?thesis unfolding L2SetMode l2_step.simps by (rule l2_orI [where P = l2_inv, OF inv]) (rule set_port_mode_inv [OF inv])
next
  case (L2VlanCreate v name)
  show ?thesis unfolding L2VlanCreate l2_step.simps by (rule l2_orI [where P = l2_inv, OF inv]) (rule vlan_create_inv [OF inv])
next
  case (L2VlanDelete v)
  show ?thesis unfolding L2VlanDelete l2_step.simps by (rule l2_orI [where P = l2_inv, OF inv]) (rule vlan_delete_inv [OF inv])
next
  case (L2AllowVlan p v)
  show ?thesis unfolding L2AllowVlan l2_step.simps by (rule l2_orI [where P = l2_inv, OF inv]) (rule allow_vlan_inv [OF inv])
next
  case (L2Learn m p v)
  then have "0 \<le> p" "p < int (sw_num_ports sw)" using ok by simp_all
  then show ?thesis unfolding L2Learn l2_step.simps by (intro l2_orI [where P = l2_inv, OF inv]) (rule learn_inv [OF inv])
next
  case (L2Tick t)
  then show ?thesis using inv
    by (simp add: l2_inv_def l2_ports_ok_def l2_table_ok_def l2_keys_distinct_def l2_vlans_ok_def l2_balanced_def)
next
  case (L2Frame p frame)
  show ?thesis unfolding L2Frame l2_step.simps
    by (rule l2_orI [where P = l2_inv, OF inv]) (auto intro: frame_inv(1) [OF inv])
qed (simp_all add: flush_inv [OF inv] age_inv [OF inv])

interpretation l2_run: machine l2_step l2_ok l2_inv
  by unfold_locales (rule l2_step_inv)

section \<open>The counters\<close>

text \<open>What became of the frames of a run, with the ports they came in on; frames refused with -1 are not among them.\<close>

definition l2_result :: "nfs_l2switch \<Rightarrow> l2_event \<Rightarrow> (int \<times> nfs_sw_result) list" where
  "l2_result sw e =
     (case e of
        L2Frame p frame \<Rightarrow> (case nfs_sw_process_frame sw p frame of None \<Rightarrow> [] | Some (r, sw') \<Rightarrow> [(p, r)])
      | _ \<Rightarrow> [])"

fun l2_results :: "nfs_l2switch \<Rightarrow> l2_event list \<Rightarrow> (int \<times> nfs_sw_result) list" where
  "l2_results sw [] = []"
| "l2_results sw (e # es) = l2_result sw e @ l2_results (l2_step sw e) es"

definition n_with :: "sw_action \<Rightarrow> (int \<times> nfs_sw_result) list \<Rightarrow> u64" where
  "n_with a rs = of_nat (length (filter (\<lambda>(p, r). sr_action r = a) rs))"

definition n_in :: "nat \<Rightarrow> (int \<times> nfs_sw_result) list \<Rightarrow> u64" where
  "n_in i rs = of_nat (length (filter (\<lambda>(p, r). p = int i) rs))"

definition n_out :: "nat \<Rightarrow> (int \<times> nfs_sw_result) list \<Rightarrow> u64" where
  "n_out i rs = of_nat (length (filter (\<lambda>(p, r). sr_action r = NFS_SW_FORWARD \<and> sr_dst_port r = int i) rs))"

definition l2_tallied :: "nfs_l2switch \<Rightarrow> nfs_l2switch \<Rightarrow> (int \<times> nfs_sw_result) list \<Rightarrow> bool" where
  "l2_tallied sw sw' rs \<longleftrightarrow>
     sw_total_rx sw' = sw_total_rx sw + of_nat (length rs) \<and>
     sw_total_flooded sw' = sw_total_flooded sw + n_with NFS_SW_FLOOD rs \<and>
     sw_total_dropped sw' = sw_total_dropped sw + n_with NFS_SW_DROP rs \<and>
     sw_total_forwarded sw' = sw_total_forwarded sw + n_with NFS_SW_FORWARD rs \<and>
     sw_total_tx sw' = sw_total_tx sw + n_with NFS_SW_FORWARD rs \<and>
     (\<forall>i < NFS_SW_MAX_PORTS.
        sp_rx_frames (sw_ports sw' ! i) = sp_rx_frames (sw_ports sw ! i) + n_in i rs \<and>
        sp_tx_frames (sw_ports sw' ! i) = sp_tx_frames (sw_ports sw ! i) + n_out i rs)"

lemmas n_defs = n_with_def n_in_def n_out_def

lemma l2_tallied_trans: "l2_tallied a b rs \<Longrightarrow> l2_tallied b c qs \<Longrightarrow> l2_tallied a c (rs @ qs)"
  by (simp add: l2_tallied_def n_defs add.assoc)

lemma l2_tallied_same:
  "sw_total_rx sw' = sw_total_rx sw \<Longrightarrow> sw_total_flooded sw' = sw_total_flooded sw \<Longrightarrow>
   sw_total_dropped sw' = sw_total_dropped sw \<Longrightarrow> sw_total_forwarded sw' = sw_total_forwarded sw \<Longrightarrow>
   sw_total_tx sw' = sw_total_tx sw \<Longrightarrow>
   (\<And>i. i < NFS_SW_MAX_PORTS \<Longrightarrow> sp_rx_frames (sw_ports sw' ! i) = sp_rx_frames (sw_ports sw ! i) \<and>
      sp_tx_frames (sw_ports sw' ! i) = sp_tx_frames (sw_ports sw ! i)) \<Longrightarrow> l2_tallied sw sw' []"
  by (simp add: l2_tallied_def n_defs)

lemma frame_tallied:
  assumes inv: "l2_inv sw" and f: "nfs_sw_process_frame sw p frame = Some (r, sw')"
  shows "l2_tallied sw sw' [(p, r)]"
proof -
  obtain v where a: "l2_admitted sw p frame = Some v" and r: "l2_frame sw p frame v = (r, sw')"
    using f by (auto simp: process_frame_stages)
  have p: "0 \<le> p" "nat p < length (sw_ports sw)" "length (sw_ports sw) = NFS_SW_MAX_PORTS"
    using a inv by (auto simp: l2_admitted_def l2_inv_def l2_ports_ok_def split: if_splits)
  obtain t where t: "l2_learn (l2_count sw p) (take 6 (drop 6 frame)) p v = l2_count sw p\<lparr> sw_mac_table := t \<rparr>"
    using l2_learn_table by blast
  define s where "s = (if vlan_in_bitmask (sp_allowed_vlans (sw_ports sw ! nat p)) v
    then l2_count sw p\<lparr> sw_mac_table := t \<rparr> else l2_count sw p)"
  have sw': "sw' = l2_account (sr_action r) (nat (sr_dst_port r)) s \<or> sr_action r = NFS_SW_DROP \<and> sw' = l2_account NFS_SW_DROP 0 s"
    using r by (auto simp: l2_frame_def Let_def t s_def split: if_splits)
  have s: "sw_total_rx s = sw_total_rx sw + 1" "sw_total_flooded s = sw_total_flooded sw"
      "sw_total_dropped s = sw_total_dropped sw" "sw_total_forwarded s = sw_total_forwarded sw" "sw_total_tx s = sw_total_tx sw"
      "sw_ports s = (sw_ports sw)[nat p := (sw_ports sw ! nat p)\<lparr> sp_rx_frames := sp_rx_frames (sw_ports sw ! nat p) + 1 \<rparr>]"
    by (simp_all add: s_def l2_count_def)
  have dst: "sr_action r = NFS_SW_FORWARD \<Longrightarrow> 0 \<le> sr_dst_port r \<and> sr_dst_port r < int NFS_SW_MAX_PORTS"
    using frame_inv(2) [OF inv f] inv by (auto simp: l2_inv_def l2_ports_ok_def)
  show ?thesis
    using sw' p dst
    by (cases "sr_action r") (auto simp: l2_tallied_def n_defs s nth_list_update)
qed

lemma nth_update_cases: "xs[i := y] ! j = (if i = j \<and> i < length xs then y else xs ! j)"
  by (cases "i < length xs") (simp_all add: nth_list_update list_update_beyond)

lemma step_tallied:
  assumes inv: "l2_inv sw"
  shows "l2_tallied sw (l2_step sw e) (l2_result sw e)"
proof -
  have len: "length (sw_ports sw) = NFS_SW_MAX_PORTS" using inv by (simp add: l2_inv_def l2_ports_ok_def)
  have new: "sp_rx_frames (sw_ports sw ! sw_num_ports sw) = 0 \<and> sp_tx_frames (sw_ports sw ! sw_num_ports sw) = 0"
    if "sw_num_ports sw < NFS_SW_MAX_PORTS"
    using inv that by (auto simp: l2_inv_def l2_ports_ok_def)
  show ?thesis
  proof (cases e)
    case (L2AddPort mode pvid)
    then show ?thesis using len new
      by (auto simp: l2_or_def nfs_sw_add_port_def l2_result_def Let_def nth_list_update intro!: l2_tallied_same)
  next
    case (L2SetMode p mode pvid)
    then show ?thesis using len
      by (auto simp: l2_or_def nfs_sw_set_port_mode_def l2_result_def Let_def nth_update_cases intro!: l2_tallied_same)
  next
    case (L2AllowVlan p v)
    then show ?thesis using len
      by (auto simp: l2_or_def nfs_sw_port_allow_vlan_def l2_result_def Let_def nth_update_cases intro!: l2_tallied_same)
  next
    case (L2VlanCreate v name)
    then show ?thesis
      by (auto simp: l2_or_def nfs_sw_vlan_create_def l2_result_def intro!: l2_tallied_same split: option.split)
  next
    case (L2VlanDelete v)
    then show ?thesis
      by (auto simp: l2_or_def nfs_sw_vlan_delete_def l2_result_def intro!: l2_tallied_same split: option.split)
  next
    case (L2Learn m p v)
    then show ?thesis
      by (auto simp: l2_or_def l2_result_def intro!: l2_tallied_same dest: learn_fields split: option.split)
  next
    case (L2Frame p frame)
    show ?thesis
    proof (cases "nfs_sw_process_frame sw p frame")
      case None
      then show ?thesis by (auto simp: L2Frame l2_or_def l2_result_def intro!: l2_tallied_same)
    next
      case (Some x)
      then show ?thesis
        using frame_tallied [OF inv, of p frame "fst x" "snd x"]
        by (simp add: L2Frame l2_or_def l2_result_def split_def)
    qed
  qed (auto simp: l2_result_def nfs_sw_mac_flush_def nfs_sw_mac_age_def intro!: l2_tallied_same)
qed

lemma run_tallied:
  "l2_inv sw \<Longrightarrow> guarded l2_step l2_ok sw es \<Longrightarrow> l2_tallied sw (foldl l2_step sw es) (l2_results sw es)"
proof (induction es arbitrary: sw)
  case Nil
  show ?case by (auto intro: l2_tallied_same)
next
  case (Cons e es)
  then have "l2_inv (l2_step sw e)" by (auto intro: l2_step_inv)
  with Cons have "l2_tallied (l2_step sw e) (foldl l2_step (l2_step sw e) es) (l2_results (l2_step sw e) es)" by simp
  then show ?case using l2_tallied_trans [OF step_tallied [OF Cons.prems(1)]] by simp
qed

text \<open>
  C16. Safety of the switch: after any run of port and VLAN changes, learning (by hand only on ports that exist),
  aging, flushing and frames, the counters count exactly: each frame the switch took (which are those of
  at least 14 bytes, with a whole tag if they have one, from an active port) once as received, in total and on its
  port, and once as flooded, dropped or forwarded, in total and, if forwarded, on the port it went to. No address
  is known twice in a VLAN and no VLAN is listed twice; and a frame is only ever forwarded to another,
  existing and active port.
\<close>
theorem l2switch_run_safe:
  assumes "guarded l2_step l2_ok nfs_sw_init es"
  shows "let sw = foldl l2_step nfs_sw_init es; rs = l2_results nfs_sw_init es in
    sw_total_rx sw = of_nat (length rs) \<and>
    sw_total_flooded sw = n_with NFS_SW_FLOOD rs \<and> sw_total_dropped sw = n_with NFS_SW_DROP rs \<and>
    sw_total_forwarded sw = n_with NFS_SW_FORWARD rs \<and> sw_total_tx sw = n_with NFS_SW_FORWARD rs \<and>
    (\<forall>i < NFS_SW_MAX_PORTS. sp_rx_frames (sw_ports sw ! i) = n_in i rs \<and> sp_tx_frames (sw_ports sw ! i) = n_out i rs) \<and>
    (\<forall>p frame. nfs_sw_process_frame sw p frame = None \<longleftrightarrow>
       \<not> (14 \<le> length frame \<and> 0 \<le> p \<and> p < int (sw_num_ports sw) \<and> sp_active (sw_ports sw ! nat p)) \<or>
       sp_mode (sw_ports sw ! nat p) = NFS_SW_PORT_TRUNK \<and> get16 frame 12 = 0x8100 \<and> length frame < 18) \<and>
    distinct (map (\<lambda>e. (sm_mac e, sm_vlan_id e)) (filter sm_valid (sw_mac_table sw))) \<and>
    nfs_sw_mac_count sw \<le> NFS_SW_MAC_TABLE \<and>
    distinct (map sv_vlan_id (filter sv_active (sw_vlans sw))) \<and>
    (\<forall>p frame r sw'. nfs_sw_process_frame sw p frame = Some (r, sw') \<and> sr_action r = NFS_SW_FORWARD \<longrightarrow>
      0 \<le> sr_dst_port r \<and> sr_dst_port r < int (sw_num_ports sw) \<and> sr_dst_port r \<noteq> p \<and>
      sp_active (sw_ports sw ! nat (sr_dst_port r)))"
proof -
  define sw rs where "sw = foldl l2_step nfs_sw_init es" and "rs = l2_results nfs_sw_init es"
  have inv: "l2_inv sw" unfolding sw_def by (rule l2_run.run_inv [OF l2_init_inv assms])
  have active: "sp_active (sw_ports sw ! nat q)" if "0 \<le> q" "q < int (sw_num_ports sw)" for q
  proof -
    have "nat q < sw_num_ports sw" using that by linarith
    then show ?thesis using inv by (auto simp: l2_inv_def l2_ports_ok_def)
  qed
  have count: "nfs_sw_mac_count sw \<le> NFS_SW_MAC_TABLE"
    using inv length_filter_le [of sm_valid "sw_mac_table sw"]
    by (simp add: nfs_sw_mac_count_def l2_inv_def l2_table_ok_def)
  have key: "l2_key = (\<lambda>e. (sm_mac e, sm_vlan_id e))" by (rule ext) (simp add: l2_key_def)
  have "l2_tallied nfs_sw_init sw rs" unfolding sw_def rs_def by (rule run_tallied [OF l2_init_inv assms])
  then have tally: "sw_total_rx sw = of_nat (length rs)" "sw_total_flooded sw = n_with NFS_SW_FLOOD rs"
      "sw_total_dropped sw = n_with NFS_SW_DROP rs" "sw_total_forwarded sw = n_with NFS_SW_FORWARD rs"
      "sw_total_tx sw = n_with NFS_SW_FORWARD rs"
      "\<forall>i < NFS_SW_MAX_PORTS. sp_rx_frames (sw_ports sw ! i) = n_in i rs \<and> sp_tx_frames (sw_ports sw ! i) = n_out i rs"
    by (simp_all add: l2_tallied_def nfs_sw_init_def)
  have taken: "nfs_sw_process_frame sw p frame = None \<longleftrightarrow>
       \<not> (14 \<le> length frame \<and> 0 \<le> p \<and> p < int (sw_num_ports sw) \<and> sp_active (sw_ports sw ! nat p)) \<or>
       sp_mode (sw_ports sw ! nat p) = NFS_SW_PORT_TRUNK \<and> get16 frame 12 = 0x8100 \<and> length frame < 18" for p frame
    by (auto simp: process_frame_stages l2_admitted_def frame_vlan_def)
  have forward: "\<forall>p frame r sw'. nfs_sw_process_frame sw p frame = Some (r, sw') \<and> sr_action r = NFS_SW_FORWARD \<longrightarrow>
      0 \<le> sr_dst_port r \<and> sr_dst_port r < int (sw_num_ports sw) \<and> sr_dst_port r \<noteq> p \<and>
      sp_active (sw_ports sw ! nat (sr_dst_port r))"
    using frame_inv(2) [OF inv] active by blast
  show ?thesis
    unfolding sw_def [symmetric] rs_def [symmetric] Let_def
    using inv forward count key tally taken
    by (simp add: l2_inv_def l2_table_ok_def l2_keys_distinct_def l2_vlans_ok_def)
qed

lemma l2switch_run_safe_witness:
  "sw_total_rx (foldl l2_step nfs_sw_init [L2AddPort NFS_SW_PORT_ACCESS 1, L2Frame 0 (replicate 60 0)]) =
     of_nat (length (l2_results nfs_sw_init [L2AddPort NFS_SW_PORT_ACCESS 1, L2Frame 0 (replicate 60 0)]))"
  using l2switch_run_safe [of "[L2AddPort NFS_SW_PORT_ACCESS 1, L2Frame 0 (replicate 60 0)]"]
  unfolding Let_def by simp

section \<open>What a frame teaches the switch\<close>
lemma verdict_known:
  "l2_known s (dst, v) = l2_known t (dst, v) \<Longrightarrow> l2_verdict s p dst v = l2_verdict t p dst v"
  by (simp add: l2_verdict_def l2_lookup_known)

lemma verdict_vlan [simp]: "sr_vlan_id (l2_verdict s p dst v) = v"
  by (simp add: l2_verdict_def)

lemma l2_learn_other:
  assumes "l2_keys_distinct sw" and "j \<noteq> (src, v)"
  shows "l2_known (l2_learn sw src p v) j = l2_known sw j"
proof (cases "nfs_sw_mac_learn sw src p v")
  case (Some s)
  then have "l2_known s = (l2_known sw)((src, v) \<mapsto> p)" by (intro l2.ins_lookup [OF assms(1)]) simp
  with Some assms(2) show ?thesis by (simp add: l2_learn_def)
qed (simp add: l2_learn_def)

lemma l2_learn_source:
  assumes "l2_keys_distinct sw" and "\<not> is_multicast src"
    and "l2_known sw (src, v) \<noteq> None \<or> nfs_sw_mac_count sw < length (sw_mac_table sw)"
  shows "l2_known (l2_learn sw src p v) (src, v) = Some p"
proof -
  have "l2_put sw (src, v) p \<noteq> None" using l2.ins_full [OF assms(1), of "(src, v)" p] assms(3) by auto
  then obtain s where s: "l2_put sw (src, v) p = Some s" by blast
  then have "l2_learn sw src p v = s" using assms(2) by (simp add: l2_learn_def)
  then show ?thesis using l2.ins_lookup [OF assms(1) s] by simp
qed

text \<open>The table and the configuration of the ports after a frame that was admitted.\<close>

definition port_config :: "nfs_l2switch \<Rightarrow> nat \<Rightarrow> bool \<times> sw_port_mode \<times> u16 \<times> u64" where
  "port_config sw i = (sp_active (sw_ports sw ! i), sp_mode (sw_ports sw ! i), sp_pvid (sw_ports sw ! i),
     sp_allowed_vlans (sw_ports sw ! i))"

lemma l2_account_keeps:
  "l2_known (l2_account a q sw) = l2_known sw" "sw_num_ports (l2_account a q sw) = sw_num_ports sw"
  "port_config (l2_account a q sw) = port_config sw" "l2_keys_distinct (l2_account a q sw) = l2_keys_distinct sw"
  by (cases a; auto simp: l2_known_def port_config_def nth_update_cases l2_keys_distinct_def fun_eq_iff)+

lemma l2_count_keeps:
  "l2_known (l2_count sw p) = l2_known sw" "sw_num_ports (l2_count sw p) = sw_num_ports sw"
  "port_config (l2_count sw p) = port_config sw" "l2_keys_distinct (l2_count sw p) = l2_keys_distinct sw"
  "nfs_sw_mac_count (l2_count sw p) = nfs_sw_mac_count sw" "sw_mac_table (l2_count sw p) = sw_mac_table sw"
  by (auto simp: l2_count_def l2_known_def port_config_def nth_update_cases l2_keys_distinct_def
      nfs_sw_mac_count_def fun_eq_iff)

lemma l2_learn_keeps: "sw_num_ports (l2_learn sw src p v) = sw_num_ports sw"
    "port_config (l2_learn sw src p v) = port_config sw"
  using l2_learn_table [of sw src p v] by (auto simp: port_config_def fun_eq_iff)

lemma admitted_config:
  assumes "sw_num_ports s = sw_num_ports t" and "port_config s = port_config t"
  shows "l2_admitted s p frame = l2_admitted t p frame"
proof -
  have "port_config s (nat p) = port_config t (nat p)" using assms(2) by simp
  then show ?thesis using assms(1) by (simp add: l2_admitted_def frame_vlan_def port_config_def)
qed

lemma frame_effect:
  assumes inv: "l2_inv sw" and f: "nfs_sw_process_frame sw p frame = Some (r, sw')"
    and allowed: "vlan_in_bitmask (sp_allowed_vlans (sw_ports sw ! nat p)) (sr_vlan_id r)"
  defines "src \<equiv> take 6 (drop 6 frame)"
  shows "l2_admitted sw p frame = Some (sr_vlan_id r)"
    and "r = l2_verdict (l2_learn (l2_count sw p) src p (sr_vlan_id r)) p (take 6 frame) (sr_vlan_id r)"
    and "l2_known sw' = l2_known (l2_learn (l2_count sw p) src p (sr_vlan_id r))"
    and "sw_num_ports sw' = sw_num_ports sw" and "port_config sw' = port_config sw"
proof -
  obtain v where a: "l2_admitted sw p frame = Some v" and r: "l2_frame sw p frame v = (r, sw')"
    using f by (auto simp: process_frame_stages)
  have v: "sr_vlan_id r = v"
    using r by (auto simp: l2_frame_def Let_def split: if_splits)
  define s where "s = l2_learn (l2_count sw p) src p v"
  have e: "r = l2_verdict s p (take 6 frame) v" "sw' = l2_account (sr_action r) (nat (sr_dst_port r)) s"
    using r allowed by (auto simp: l2_frame_def Let_def s_def v src_def)
  have "sw_num_ports s = sw_num_ports sw" "port_config s = port_config sw"
    by (simp_all add: s_def l2_learn_keeps l2_count_keeps)
  with a e show "l2_admitted sw p frame = Some (sr_vlan_id r)"
    "r = l2_verdict (l2_learn (l2_count sw p) src p (sr_vlan_id r)) p (take 6 frame) (sr_vlan_id r)"
    "l2_known sw' = l2_known (l2_learn (l2_count sw p) src p (sr_vlan_id r))"
    "sw_num_ports sw' = sw_num_ports sw" "port_config sw' = port_config sw"
    unfolding v s_def [symmetric] by (simp_all only: l2_account_keeps)
qed

lemma broadcast_is_multicast: "is_broadcast m \<Longrightarrow> is_multicast m"
  by (simp add: is_broadcast_def is_multicast_def)

text \<open>
  The events that leave the entry of a station on its port alone: those that do not flush it, age it out, or teach the
  switch its address in its VLAN on another port.
\<close>

definition l2_fresh :: "nfs_l2switch \<Rightarrow> u8 list \<times> u16 \<Rightarrow> bool" where
  "l2_fresh sw k \<longleftrightarrow> (\<forall>e \<in> set (sw_mac_table sw). sm_valid e \<and> l2_key e = k \<longrightarrow>
     sw_tick sw - sm_last_seen e < sw_mac_aging sw)"

fun l2_leaves :: "u8 list \<Rightarrow> u16 \<Rightarrow> int \<Rightarrow> nfs_l2switch \<Rightarrow> l2_event \<Rightarrow> bool" where
  "l2_leaves m v p sw L2Flush = False"
| "l2_leaves m v p sw L2Age = l2_fresh sw (m, v)"
| "l2_leaves m v p sw (L2Learn m' q v') = (m' = m \<and> v' = v \<longrightarrow> q = p)"
| "l2_leaves m v p sw (L2Frame q frame) =
     (take 6 (drop 6 frame) = m \<and> l2_admitted sw q frame = Some v \<longrightarrow> q = p)"
| "l2_leaves m v p sw e = True"

lemma find_slot_map:
  assumes "\<And>e. P (g e) \<Longrightarrow> P e \<and> g e = e"
  shows "\<forall>e \<in> set xs. P e \<and> key e = k \<longrightarrow> g e = e \<Longrightarrow> find_slot P key k (map g xs) = find_slot P key k xs"
proof (induction xs)
  case (Cons x xs)
  have "P (g x) \<and> key (g x) = k \<longleftrightarrow> P x \<and> key x = k" "P x \<and> key x = k \<Longrightarrow> g x = x"
    using assms [of x] Cons.prems by auto
  with Cons show ?case by (simp add: find_slot_def)
qed simp

lemma age_known: "l2_fresh sw k \<Longrightarrow> l2_known (nfs_sw_mac_age sw) k = l2_known sw k"
  unfolding l2_known_def nfs_sw_mac_age_def
  by (simp, subst find_slot_map) (auto simp: l2_fresh_def split: if_splits)

lemma learn_known:
  assumes "l2_keys_distinct sw" and "l2_known sw (m, v) = Some p" and "m' = m \<and> v' = v \<longrightarrow> q = p"
  shows "l2_known (l2_or sw (nfs_sw_mac_learn sw m' q v')) (m, v) = Some p"
proof (cases "nfs_sw_mac_learn sw m' q v'")
  case (Some s)
  then have "l2_known s = (l2_known sw)((m', v') \<mapsto> q)" by (intro l2.ins_lookup [OF assms(1)]) simp
  with Some assms(2,3) show ?thesis by (auto simp: l2_or_def)
qed (simp add: l2_or_def assms(2))

lemma l2_learn_or: "l2_learn sw m p v = (if is_multicast m then sw else l2_or sw (nfs_sw_mac_learn sw m p v))"
  by (simp add: l2_learn_def l2_or_def)

lemma leaves_known:
  assumes inv: "l2_inv sw" and known: "l2_known sw (m, v) = Some p" and e: "l2_leaves m v p sw e"
  shows "l2_known (l2_step sw e) (m, v) = Some p"
proof -
  have d: "l2_keys_distinct sw" using inv by (simp add: l2_inv_def l2_table_ok_def)
  have same: "sw_mac_table s = sw_mac_table sw \<Longrightarrow> l2_known s (m, v) = Some p" for s
    using known by (simp add: l2_known_def)
  show ?thesis
  proof (cases e)
    case (L2Frame q frame)
    show ?thesis
    proof (cases "nfs_sw_process_frame sw q frame")
      case None
      then show ?thesis using known by (simp add: L2Frame l2_or_def)
    next
      case (Some x)
      obtain r s where x: "x = (r, s)" by (cases x)
      obtain w where a: "l2_admitted sw q frame = Some w" and f: "l2_frame sw q frame w = (r, s)"
        using Some by (auto simp: process_frame_stages x)
      have "l2_known s (m, v) = Some p"
      proof (cases "vlan_in_bitmask (sp_allowed_vlans (sw_ports sw ! nat q)) w")
        case False
        then show ?thesis using f known by (auto simp: l2_frame_def l2_account_keeps l2_count_keeps simp del: l2_account.simps)
      next
        case True
        have "take 6 (drop 6 frame) = m \<and> w = v \<longrightarrow> q = p" using e a by (auto simp: L2Frame)
        then have "l2_known (l2_learn (l2_count sw q) (take 6 (drop 6 frame)) q w) (m, v) = Some p"
          using learn_known [of "l2_count sw q" m v p] d known by (simp add: l2_learn_or l2_count_keeps)
        then show ?thesis using f True by (auto simp: l2_frame_def Let_def l2_account_keeps simp del: l2_account.simps)
      qed
      then show ?thesis by (simp add: L2Frame Some x l2_or_def)
    qed
  next
    case (L2Learn m' q v')
    then show ?thesis using learn_known [OF d known] e by simp
  next
    case L2Age
    then show ?thesis using age_known e known by simp
  next
    case L2Flush
    then show ?thesis using e by simp
  qed (auto simp: l2_or_def nfs_sw_add_port_def nfs_sw_set_port_mode_def nfs_sw_vlan_create_def nfs_sw_vlan_delete_def
      nfs_sw_port_allow_vlan_def Let_def intro!: same split: option.split)
qed

lemma run_leaves_known:
  "l2_inv sw \<Longrightarrow> l2_known sw (m, v) = Some p \<Longrightarrow> guarded l2_step (\<lambda>s e. l2_ok s e \<and> l2_leaves m v p s e) sw es \<Longrightarrow>
   l2_inv (foldl l2_step sw es) \<and> l2_known (foldl l2_step sw es) (m, v) = Some p"
  by (induction es arbitrary: sw) (auto intro: leaves_known l2_step_inv)

text \<open>
  C17. A station is reachable once heard, and VLANs are isolated: after any run, when a frame of a unicast source
  came in on port \<open>p\<close> and there was room to learn it, then after any further events that do not
  flush the entry, age it out or teach the switch the address on another port, a frame from
  another station to that one in the same VLAN goes to \<open>p\<close> alone (or is dropped if it comes from there); and a
  frame to that address in another VLAN that comes right after fares as if the first had never come.
\<close>
theorem l2switch_station_reachable:
  assumes "guarded l2_step l2_ok nfs_sw_init es" and "sw = foldl l2_step nfs_sw_init es"
    and "nfs_sw_process_frame sw p f1 = Some (r1, sw1)"
    and "vlan_in_bitmask (sp_allowed_vlans (sw_ports sw ! nat p)) (sr_vlan_id r1)"
    and "src = take 6 (drop 6 f1)" and "\<not> is_multicast src"
    and "nfs_sw_mac_lookup sw src (sr_vlan_id r1) \<ge> 0 \<or> nfs_sw_mac_count sw < NFS_SW_MAC_TABLE"
    and "guarded l2_step (\<lambda>s e. l2_ok s e \<and> l2_leaves src (sr_vlan_id r1) p s e) sw1 later"
    and "sw2 = foldl l2_step sw1 later"
    and "nfs_sw_process_frame sw2 q f2 = Some (r2, sw3)"
    and "vlan_in_bitmask (sp_allowed_vlans (sw_ports sw2 ! nat q)) (sr_vlan_id r2)"
    and "take 6 f2 = src" and "take 6 (drop 6 f2) \<noteq> src"
  shows "(sr_vlan_id r2 = sr_vlan_id r1 \<longrightarrow>
      (if q = p then sr_action r2 = NFS_SW_DROP else sr_action r2 = NFS_SW_FORWARD \<and> sr_dst_port r2 = p)) \<and>
    (sr_vlan_id r2 \<noteq> sr_vlan_id r1 \<and> later = [] \<longrightarrow> map_option fst (nfs_sw_process_frame sw q f2) = Some r2)"
proof -
  define v w src2 where "v = sr_vlan_id r1" and "w = sr_vlan_id r2" and "src2 = take 6 (drop 6 f2)"
  have inv: "l2_inv sw" unfolding assms(2) by (rule l2_run.run_inv [OF l2_init_inv assms(1)])
  have inv1: "l2_inv sw1" using frame_inv(1) [OF inv assms(3)] .
  note e1 = frame_effect [OF inv assms(3,4), folded assms(5) v_def]
  have d: "l2_keys_distinct (l2_count sw p)" "l2_keys_distinct (l2_count sw q)"
    and len: "length (sw_mac_table sw) = NFS_SW_MAC_TABLE"
    using inv by (simp_all add: l2_inv_def l2_table_ok_def l2_count_keeps)
  have p: "0 \<le> p" using e1(1) by (auto simp: l2_admitted_def split: if_splits)
  have src2: "(src, x) \<noteq> (src2, y)" for x y using assms(13) by (simp add: src2_def)
  have "l2_known (l2_count sw p) (src, v) \<noteq> None \<or>
      nfs_sw_mac_count (l2_count sw p) < length (sw_mac_table (l2_count sw p))"
    using assms(7) by (auto simp: l2_lookup_known l2_count_keeps len v_def [symmetric] split: option.splits)
  then have "l2_known sw1 (src, v) = Some p" using l2_learn_source [OF d(1) assms(6)] by (simp add: e1(3))
  then have k2: "l2_inv sw2" "l2_known sw2 (src, v) = Some p"
    using run_leaves_known [OF inv1 _ assms(8)] by (simp_all add: v_def assms(9))
  have d2: "l2_keys_distinct (l2_count sw2 q)" using k2(1) by (simp add: l2_inv_def l2_table_ok_def l2_count_keeps)
  note e2 = frame_effect [OF k2(1) assms(10,11), folded src2_def w_def]
  have r2: "r2 = l2_verdict (l2_learn (l2_count sw2 q) src2 q w) q src w" using e2(2) assms(12) by simp
  have known2: "l2_known (l2_learn (l2_count sw2 q) src2 q w) (src, x) = l2_known sw2 (src, x)" for x
    using l2_learn_other [OF d2 src2] by (simp add: l2_count_keeps)
  have "if q = p then sr_action r2 = NFS_SW_DROP else sr_action r2 = NFS_SW_FORWARD \<and> sr_dst_port r2 = p" if "w = v"
  proof -
    have "nfs_sw_mac_lookup (l2_learn (l2_count sw2 q) src2 q w) src w = p"
      using that known2 [of w] k2(2) by (simp add: l2_lookup_known)
    then show ?thesis using p assms(6) broadcast_is_multicast [of src] by (auto simp: r2 l2_verdict_def)
  qed
  moreover have "map_option fst (nfs_sw_process_frame sw q f2) = Some r2" if "w \<noteq> v" "later = []"
  proof -
    have sw2: "sw2 = sw1" using that(2) assms(9) by simp
    have "l2_known sw1 (src, w) = l2_known sw (src, w)"
      using l2_learn_other [OF d(1), of "(src, w)"] that(1) by (simp add: e1(3) l2_count_keeps)
    moreover have "l2_known (l2_learn (l2_count sw q) src2 q w) (src, w) = l2_known sw (src, w)"
      using l2_learn_other [OF d(2) src2] by (simp add: l2_count_keeps)
    ultimately have same: "l2_verdict (l2_learn (l2_count sw q) src2 q w) q src w = r2"
      unfolding r2 sw2 by (intro verdict_known) (simp only: known2 [unfolded sw2])
    have "l2_admitted sw q f2 = Some w"
      using e2(1) admitted_config [OF e1(4,5)] by (simp add: sw2)
    moreover have "vlan_in_bitmask (sp_allowed_vlans (sw_ports sw ! nat q)) w"
      using assms(11) fun_cong [OF e1(5), of "nat q"] by (simp add: port_config_def w_def [symmetric] sw2)
    ultimately show ?thesis
      using same assms(12) by (simp add: process_frame_stages l2_frame_def Let_def src2_def)
  qed
  ultimately show ?thesis by (simp add: v_def w_def)
qed

text \<open>Two access ports of VLAN 1, a broadcast from the first, and an answer from the second.\<close>

definition sample_hello :: "u8 list" where
  "sample_hello = [0xFF, 0xFF, 0xFF, 0xFF, 0xFF, 0xFF, 2, 0, 0, 0, 0, 1, 8, 0]"

definition sample_answer :: "u8 list" where
  "sample_answer = [2, 0, 0, 0, 0, 1, 2, 0, 0, 0, 0, 2, 8, 0]"

definition sample_ports :: "l2_event list" where
  "sample_ports = [L2AddPort NFS_SW_PORT_ACCESS 1, L2AddPort NFS_SW_PORT_ACCESS 1]"

definition sample_switch :: nfs_l2switch where
  "sample_switch = foldl l2_step nfs_sw_init sample_ports"

lemma sample_switch_fields:
  "sw_num_ports sample_switch = 2" "sw_mac_table sample_switch = sw_mac_table nfs_sw_init"
  "i < 2 \<Longrightarrow> port_config sample_switch i = (True, NFS_SW_PORT_ACCESS, 1, 2)"
proof -
  have "NFS_SW_MAX_PORTS = Suc (Suc 30)" by (simp add: NFS_SW_MAX_PORTS_def)
  then show "sw_num_ports sample_switch = 2" "sw_mac_table sample_switch = sw_mac_table nfs_sw_init"
    "i < 2 \<Longrightarrow> port_config sample_switch i = (True, NFS_SW_PORT_ACCESS, 1, 2)"
    by (auto simp: sample_switch_def sample_ports_def l2_or_def nfs_sw_add_port_def nfs_sw_init_def
        port_config_def pvid_mask_def less_2_cases_iff)
qed

lemma sample_admitted:
  assumes "0 \<le> p" "p < 2" "port_config s = port_config sample_switch" "sw_num_ports s = 2"
    and "14 \<le> length frame"
  shows "l2_admitted s p frame = Some 1" and "vlan_in_bitmask (sp_allowed_vlans (sw_ports s ! nat p)) 1"
proof -
  have "nat p < 2" using assms(2) by linarith
  then have "port_config s (nat p) = (True, NFS_SW_PORT_ACCESS, 1, 2)"
    using assms(3) sample_switch_fields(3) by simp
  then have "sp_active (sw_ports s ! nat p)" "sp_mode (sw_ports s ! nat p) = NFS_SW_PORT_ACCESS"
    "sp_pvid (sw_ports s ! nat p) = 1" "sp_allowed_vlans (sw_ports s ! nat p) = 2"
    by (simp_all add: port_config_def)
  then show "l2_admitted s p frame = Some 1" "vlan_in_bitmask (sp_allowed_vlans (sw_ports s ! nat p)) 1"
    using assms(1,2,4,5)
    by (simp_all add: l2_admitted_def frame_vlan_def vlan_in_bitmask_def word_le_nat_alt)
qed

lemma sample_frame:
  assumes "0 \<le> p" "p < 2" "port_config s = port_config sample_switch" "sw_num_ports s = 2"
    and "14 \<le> length frame"
  obtains r s' where "nfs_sw_process_frame s p frame = Some (r, s')" and "sr_vlan_id r = 1"
proof -
  note a = sample_admitted [OF assms]
  obtain r s' where f: "l2_frame s p frame 1 = (r, s')" by fastforce
  moreover have "sr_vlan_id r = 1" using f by (auto simp: l2_frame_def Let_def split: if_splits)
  ultimately show thesis using that a(1) by (simp add: process_frame_stages)
qed

lemma l2switch_station_reachable_witness:
  "\<exists>r1 sw1 r2 sw3. nfs_sw_process_frame sample_switch 0 sample_hello = Some (r1, sw1) \<and>
    nfs_sw_process_frame (sw1\<lparr> sw_tick := 9 \<rparr>) 1 sample_answer = Some (r2, sw3) \<and>
    sr_action r2 = NFS_SW_FORWARD \<and> sr_dst_port r2 = 0"
proof -
  have ok: "guarded l2_step l2_ok nfs_sw_init sample_ports" by (simp add: sample_ports_def)
  have inv: "l2_inv sample_switch"
    unfolding sample_switch_def by (rule l2_run.run_inv [OF l2_init_inv ok])
  obtain r1 sw1 where f1: "nfs_sw_process_frame sample_switch 0 sample_hello = Some (r1, sw1)" "sr_vlan_id r1 = 1"
    by (rule sample_frame [of 0 sample_switch sample_hello]) (simp_all add: sample_switch_fields sample_hello_def)
  have a1: "vlan_in_bitmask (sp_allowed_vlans (sw_ports sample_switch ! nat 0)) (sr_vlan_id r1)"
    using sample_admitted(2) [of 0 sample_switch sample_hello] f1(2)
    by (simp add: sample_switch_fields sample_hello_def)
  note e1 = frame_effect [OF inv f1(1) a1]
  let ?sw2 = "sw1\<lparr> sw_tick := 9 \<rparr>"
  have c: "port_config ?sw2 = port_config sample_switch" "sw_num_ports ?sw2 = 2"
    using e1(4,5) by (simp_all add: sample_switch_fields port_config_def fun_eq_iff)
  obtain r2 sw3 where f2: "nfs_sw_process_frame ?sw2 1 sample_answer = Some (r2, sw3)" "sr_vlan_id r2 = 1"
    by (rule sample_frame [of 1 ?sw2 sample_answer]) (simp_all only: c, simp_all add: sample_answer_def)
  have a2: "vlan_in_bitmask (sp_allowed_vlans (sw_ports ?sw2 ! nat 1)) (sr_vlan_id r2)"
    using sample_admitted(2) [OF _ _ c, of 1 sample_answer] f2(2) by (simp add: sample_answer_def)
  have room: "nfs_sw_mac_lookup sample_switch [2, 0, 0, 0, 0, 1] (sr_vlan_id r1) \<ge> 0 \<or>
      nfs_sw_mac_count sample_switch < NFS_SW_MAC_TABLE"
    by (simp add: nfs_sw_mac_count_def sample_switch_fields nfs_sw_init_def filter_replicate NFS_SW_MAC_TABLE_def)
  have src: "[2, 0, 0, 0, 0, 1] = take 6 (drop 6 sample_hello)" "\<not> is_multicast [2, 0, 0, 0, 0, 1]"
    "take 6 sample_answer = [2, 0, 0, 0, 0, 1]" "take 6 (drop 6 sample_answer) \<noteq> [2, 0, 0, 0, 0, 1]"
    by (simp_all add: sample_hello_def sample_answer_def is_multicast_def)
  have later: "guarded l2_step (\<lambda>s e. l2_ok s e \<and> l2_leaves [2, 0, 0, 0, 0, 1] (sr_vlan_id r1) 0 s e) sw1 [L2Tick 9]"
    "?sw2 = foldl l2_step sw1 [L2Tick 9]"
    by simp_all
  have "sr_action r2 = NFS_SW_FORWARD \<and> sr_dst_port r2 = 0"
    using l2switch_station_reachable [OF ok sample_switch_def f1(1) a1 src(1,2) room later f2(1) a2 src(3,4)] f1(2) f2(2)
    by simp
  with f1(1) f2(1) show ?thesis by blast
qed

end
