(* ===== verification/NatTable.thy ===== *)
theory NatTable
  imports Complex_Main Tables
begin

text \<open>
  Network address and port translation
  (\<^verbatim>\<open>phases/03-network-layer/17-nat-what-really-happens/nat.c\<close>). The results written through
  pointers are returned; -1 is \<open>None\<close>; times (\<^verbatim>\<open>double\<close>) are reals. The formatter and
  \<open>nfs_nat_free\<close> are not modelled.
\<close>

section \<open>Definitions\<close>

record nfs_nat_entry =
  nat_internal_ip :: u32
  nat_internal_port :: u16
  nat_external_ip :: u32
  nat_external_port :: u16
  nat_remote_ip :: u32
  nat_remote_port :: u16
  nat_protocol :: u8
  nat_last_used :: real

record nfs_nat_table =
  nat_entries :: "nfs_nat_entry list"
  nat_capacity :: nat
  nat_table_external_ip :: u32
  nat_next_port :: u16

definition nfs_nat_init :: "nat \<Rightarrow> u32 \<Rightarrow> u16 \<Rightarrow> nfs_nat_table" where
  "nfs_nat_init cap external_ip port_start =
     \<lparr> nat_entries = [], nat_capacity = cap, nat_table_external_ip = external_ip, nat_next_port = port_start \<rparr>"

definition nat_find_entry ::
  "nfs_nat_table \<Rightarrow> u32 \<Rightarrow> u16 \<Rightarrow> u32 \<Rightarrow> u16 \<Rightarrow> u8 \<Rightarrow> nfs_nat_entry option" where
  "nat_find_entry t src_ip src_port dst_ip dst_port proto =
     List.find (\<lambda>e. nat_internal_ip e = src_ip \<and> nat_internal_port e = src_port \<and> nat_remote_ip e = dst_ip \<and>
       nat_remote_port e = dst_port \<and> nat_protocol e = proto) (nat_entries t)"

definition nfs_nat_outbound ::
  "nfs_nat_table \<Rightarrow> u32 \<Rightarrow> u16 \<Rightarrow> u32 \<Rightarrow> u16 \<Rightarrow> u8 \<Rightarrow> (u32 \<times> u16 \<times> nfs_nat_table) option" where
  "nfs_nat_outbound t src_ip src_port dst_ip dst_port proto =
     (case nat_find_entry t src_ip src_port dst_ip dst_port proto of
        Some e \<Rightarrow> Some (nat_external_ip e, nat_external_port e, t)
      | None \<Rightarrow>
          if length (nat_entries t) \<ge> nat_capacity t then None
          else
            let e = \<lparr> nat_internal_ip = src_ip, nat_internal_port = src_port,
                      nat_external_ip = nat_table_external_ip t, nat_external_port = nat_next_port t,
                      nat_remote_ip = dst_ip, nat_remote_port = dst_port, nat_protocol = proto,
                      nat_last_used = 0 \<rparr>
            in Some (nat_external_ip e, nat_external_port e,
                 t\<lparr> nat_entries := nat_entries t @ [e], nat_next_port := nat_next_port t + 1 \<rparr>))"

definition nfs_nat_inbound :: "nfs_nat_table \<Rightarrow> u32 \<Rightarrow> u16 \<Rightarrow> u16 \<Rightarrow> u8 \<Rightarrow> (u32 \<times> u16) option" where
  "nfs_nat_inbound t src_ip src_port dst_port proto =
     map_option (\<lambda>e. (nat_internal_ip e, nat_internal_port e))
       (List.find (\<lambda>e. nat_external_port e = dst_port \<and> nat_remote_ip e = src_ip \<and>
          nat_remote_port e = src_port \<and> nat_protocol e = proto) (nat_entries t))"

definition nfs_nat_expire :: "nfs_nat_table \<Rightarrow> real \<Rightarrow> real \<Rightarrow> nat \<times> nfs_nat_table" where
  "nfs_nat_expire t now timeout =
     (let (es, removed) = sweep (\<lambda>e. if now - nat_last_used e \<ge> timeout then Drop else Keep) 0 (nat_entries t) 0
      in (removed, t\<lparr> nat_entries := es \<rparr>))"

section \<open>The invariant\<close>

definition nat_flow :: "nfs_nat_entry \<Rightarrow> u32 \<times> u16 \<times> u32 \<times> u16 \<times> u8" where
  "nat_flow e = (nat_internal_ip e, nat_internal_port e, nat_remote_ip e, nat_remote_port e, nat_protocol e)"

definition nat_reply :: "nfs_nat_entry \<Rightarrow> u16 \<times> u32 \<times> u16 \<times> u8" where
  "nat_reply e = (nat_external_port e, nat_remote_ip e, nat_remote_port e, nat_protocol e)"

text \<open>Flows and external ports are unique; the external address is the table's; no entry was ever touched.\<close>

definition nat_inv :: "u32 \<Rightarrow> nfs_nat_table \<Rightarrow> bool" where
  "nat_inv ext t \<longleftrightarrow> distinct (map nat_flow (nat_entries t)) \<and> distinct (map nat_external_port (nat_entries t)) \<and>
     length (nat_entries t) \<le> nat_capacity t \<and> nat_table_external_ip t = ext \<and>
     (\<forall>e \<in> set (nat_entries t). nat_external_ip e = ext \<and> nat_last_used e = 0)"

definition nat_fresh :: "nfs_nat_table \<Rightarrow> bool" where
  "nat_fresh t \<longleftrightarrow> nat_next_port t \<notin> nat_external_port ` set (nat_entries t)"

lemma find_entry_flow:
  "nat_find_entry t si sp di dp pr = find_key nat_flow (si, sp, di, dp, pr) (nat_entries t)"
  by (simp add: nat_find_entry_def find_key_def nat_flow_def)

lemma inbound_reply:
  "nfs_nat_inbound t si sp dp pr =
     map_option (\<lambda>e. (nat_internal_ip e, nat_internal_port e)) (find_key nat_reply (dp, si, sp, pr) (nat_entries t))"
  by (simp add: nfs_nat_inbound_def find_key_def nat_reply_def)

lemma distinct_reply: "distinct (map nat_external_port es) \<Longrightarrow> distinct (map nat_reply es)"
  by (rule distinct_map_finer [where g = fst]) (simp_all add: nat_reply_def comp_def)

lemma find_key_snoc:
  "find_key key k (es @ [e]) =
     (case find_key key k es of Some x \<Rightarrow> Some x | None \<Rightarrow> if key e = k then Some e else None)"
  by (simp add: find_key_def find_append split: option.split)

text \<open>The entry an outbound packet of an unknown flow creates.\<close>

definition new_mapping :: "nfs_nat_table \<Rightarrow> u32 \<times> u16 \<times> u32 \<times> u16 \<times> u8 \<Rightarrow> nfs_nat_entry" where
  "new_mapping t f = (case f of (si, sp, di, dp, pr) \<Rightarrow>
     \<lparr> nat_internal_ip = si, nat_internal_port = sp, nat_external_ip = nat_table_external_ip t,
       nat_external_port = nat_next_port t, nat_remote_ip = di, nat_remote_port = dp, nat_protocol = pr,
       nat_last_used = 0 \<rparr>)"

lemma outbound_cases:
  "nfs_nat_outbound t si sp di dp pr =
     (case find_key nat_flow (si, sp, di, dp, pr) (nat_entries t) of
        Some e \<Rightarrow> Some (nat_external_ip e, nat_external_port e, t)
      | None \<Rightarrow> if length (nat_entries t) \<ge> nat_capacity t then None
          else Some (nat_table_external_ip t, nat_next_port t,
            t\<lparr> nat_entries := nat_entries t @ [new_mapping t (si, sp, di, dp, pr)], nat_next_port := nat_next_port t + 1 \<rparr>))"
  by (simp add: nfs_nat_outbound_def find_entry_flow new_mapping_def split: option.split)

lemma new_mapping_fields [simp]:
  "nat_flow (new_mapping t f) = f" "nat_external_port (new_mapping t f) = nat_next_port t"
  "nat_external_ip (new_mapping t f) = nat_table_external_ip t" "nat_last_used (new_mapping t f) = 0"
  "nat_reply (new_mapping t (si, sp, di, dp, pr)) = (nat_next_port t, di, dp, pr)"
  "nat_internal_ip (new_mapping t (si, sp, di, dp, pr)) = si" "nat_internal_port (new_mapping t (si, sp, di, dp, pr)) = sp"
  by (simp_all add: new_mapping_def nat_flow_def nat_reply_def split: prod.splits)

lemma outbound_inv:
  assumes inv: "nat_inv ext t" and fresh: "nat_fresh t"
    and out: "nfs_nat_outbound t si sp di dp pr = Some (ip, port, t')"
  shows "nat_inv ext t'"
proof (cases "find_key nat_flow (si, sp, di, dp, pr) (nat_entries t)")
  case None
  then have t': "length (nat_entries t) < nat_capacity t"
    "t' = t\<lparr> nat_entries := nat_entries t @ [new_mapping t (si, sp, di, dp, pr)], nat_next_port := nat_next_port t + 1 \<rparr>"
    using out by (auto simp: outbound_cases split: if_splits)
  have "(si, sp, di, dp, pr) \<notin> nat_flow ` set (nat_entries t)"
    using None by (auto simp: find_key_None_iff)
  then show ?thesis using inv fresh t'(1) unfolding t'(2) by (simp add: nat_inv_def nat_fresh_def)
next
  case (Some e)
  then show ?thesis using inv out by (simp add: outbound_cases)
qed

lemma expire_inv:
  assumes inv: "nat_inv ext t" and ex: "nfs_nat_expire t now timeout = (n, t')"
  shows "nat_inv ext t'" and "t' = t\<lparr> nat_entries := nat_entries t' \<rparr>"
    and "set (nat_entries t') \<subseteq> set (nat_entries t)"
proof -
  let ?f = "\<lambda>e. if now - nat_last_used e \<ge> timeout then Drop else Keep"
  let ?es = "fst (sweep ?f 0 (nat_entries t) 0)"
  have t': "t' = t\<lparr> nat_entries := ?es \<rparr>" using ex by (simp add: nfs_nat_expire_def split: prod.splits)
  then show "t' = t\<lparr> nat_entries := nat_entries t' \<rparr>" by simp
  have k: "?f e = Change e' \<Longrightarrow> key e' = key e" for key :: "nfs_nat_entry \<Rightarrow> 'k" and e e'
    by (simp split: if_splits)
  have d: "distinct (map nat_flow (nat_entries t))" "distinct (map nat_external_port (nat_entries t))"
    using inv by (simp_all add: nat_inv_def)
  note flow = sweep_keys [OF d(1), where f = ?f and n = 0, OF k]
  note port = sweep_keys [OF d(2), where f = ?f and n = 0, OF k]
  have sub: "set ?es \<subseteq> set (nat_entries t)" by (rule sweep_drop_subset)
  then show "set (nat_entries t') \<subseteq> set (nat_entries t)" by (simp add: t')
  show "nat_inv ext t'"
    using inv flow(1,2) port(1) sub unfolding nat_inv_def t' by (auto intro: order_trans)
qed

section \<open>Runs\<close>

datatype nat_event = NatOut u32 u16 u32 u16 u8 | NatExpire real real

fun nat_step :: "nfs_nat_table \<Rightarrow> nat_event \<Rightarrow> nfs_nat_table" where
  "nat_step t (NatOut si sp di dp pr) =
     (case nfs_nat_outbound t si sp di dp pr of None \<Rightarrow> t | Some (ip, port, t') \<Rightarrow> t')"
| "nat_step t (NatExpire now timeout) = snd (nfs_nat_expire t now timeout)"

fun nat_ok :: "nfs_nat_table \<Rightarrow> nat_event \<Rightarrow> bool" where
  "nat_ok t (NatOut si sp di dp pr) = nat_fresh t"
| "nat_ok t (NatExpire now timeout) = True"

interpretation nat_run: machine nat_step nat_ok "nat_inv ext"
proof
  fix t e
  assume inv: "nat_inv ext t" and ok: "nat_ok t e"
  show "nat_inv ext (nat_step t e)"
  proof (cases e)
    case (NatOut si sp di dp pr)
    then show ?thesis using outbound_inv [OF inv] ok inv by (auto split: option.split)
  next
    case (NatExpire now timeout)
    obtain n t' where "nfs_nat_expire t now timeout = (n, t')" by fastforce
    then show ?thesis using NatExpire expire_inv(1) [OF inv] by simp
  qed
qed

text \<open>
  The external port wraps after 65536 new mappings. An event makes one if it is a packet of an unknown flow
  that finds room; in a run that makes fewer than 65536 every allocation is fresh.
\<close>

fun nat_makes :: "nfs_nat_table \<Rightarrow> nat_event \<Rightarrow> nat" where
  "nat_makes t (NatOut si sp di dp pr) =
     (if nat_find_entry t si sp di dp pr = None \<and> length (nat_entries t) < nat_capacity t then 1 else 0)"
| "nat_makes t (NatExpire now timeout) = 0"

fun mappings_made :: "nfs_nat_table \<Rightarrow> nat_event list \<Rightarrow> nat" where
  "mappings_made t [] = 0"
| "mappings_made t (e # es) = nat_makes t e + mappings_made (nat_step t e) es"

definition nat_young :: "u16 \<Rightarrow> nat \<Rightarrow> nfs_nat_table \<Rightarrow> bool" where
  "nat_young start k t \<longleftrightarrow> (\<exists>n \<le> k. nat_next_port t = start + of_nat n \<and>
     (\<forall>e \<in> set (nat_entries t). \<exists>j < n. nat_external_port e = start + of_nat j))"

lemma nat_young_fresh:
  assumes "nat_young start k t" and "k < 65536"
  shows "nat_fresh t"
proof -
  obtain n where n: "n \<le> k" "nat_next_port t = start + of_nat n"
      "\<forall>e \<in> set (nat_entries t). \<exists>j < n. nat_external_port e = start + of_nat j"
    using assms(1) by (auto simp: nat_young_def)
  have "(of_nat j :: u16) \<noteq> of_nat n" if "j < n" for j
  proof
    assume "(of_nat j :: u16) = of_nat n"
    then have "unat (of_nat j :: u16) = unat (of_nat n :: u16)" by simp
    then show False using that n(1) assms(2) by (simp add: unat_of_nat_u16)
  qed
  then show ?thesis using n by (force simp: nat_fresh_def)
qed

lemma nat_young_step: "nat_young start k t \<Longrightarrow> nat_young start (k + nat_makes t e) (nat_step t e)"
proof (cases e)
  case (NatOut si sp di dp pr)
  assume y: "nat_young start k t"
  then obtain n where n: "n \<le> k" "nat_next_port t = start + of_nat n"
      "\<forall>e \<in> set (nat_entries t). \<exists>j < n. nat_external_port e = start + of_nat j"
    by (auto simp: nat_young_def)
  have new: "nat_young start (Suc k) (t\<lparr> nat_entries := nat_entries t @ [new_mapping t f], nat_next_port := nat_next_port t + 1 \<rparr>)" for f
    unfolding nat_young_def using n
    by (intro exI [of _ "Suc n"]) (auto simp: less_Suc_eq)
  show ?thesis using y new by (simp add: NatOut outbound_cases find_entry_flow split: option.split)
next
  case (NatExpire now timeout)
  assume y: "nat_young start k t"
  have "set (fst (sweep (\<lambda>e. if now - nat_last_used e \<ge> timeout then Drop else Keep) 0 (nat_entries t) 0))
      \<subseteq> set (nat_entries t)"
    by (rule sweep_drop_subset)
  moreover obtain n where n: "n \<le> k" "nat_next_port t = start + of_nat n"
      "\<forall>e \<in> set (nat_entries t). \<exists>j < n. nat_external_port e = start + of_nat j"
    using y by (auto simp: nat_young_def)
  ultimately show ?thesis
    unfolding nat_young_def NatExpire
    by (intro exI [of _ n]) (auto simp: nfs_nat_expire_def split: prod.split)
qed

lemma nat_short_runs_ok:
  "nat_young start k t \<Longrightarrow> k + mappings_made t es < 65536 \<Longrightarrow> guarded nat_step nat_ok t es"
proof (induction es arbitrary: t k)
  case (Cons e es)
  have "nat_ok t e" using nat_young_fresh [OF Cons.prems(1)] Cons.prems(2) by (cases e) simp_all
  moreover have "guarded nat_step nat_ok (nat_step t e) es"
    using Cons.IH [OF nat_young_step [OF Cons.prems(1)]] Cons.prems(2) by (simp add: add.assoc)
  ultimately show ?case by simp
qed simp

lemma nat_init_young: "nat_young start 0 (nfs_nat_init cap ext start)"
  by (simp add: nat_young_def nfs_nat_init_def)

lemma nat_init_inv: "nat_inv ext (nfs_nat_init cap ext start)"
  by (simp add: nat_inv_def nfs_nat_init_def)

lemma nat_young_run: "nat_young start k t \<Longrightarrow> nat_young start (k + mappings_made t es) (foldl nat_step t es)"
proof (induction es arbitrary: t k)
  case (Cons e es)
  show ?case using Cons.IH [OF nat_young_step [OF Cons.prems]] by (simp add: add.assoc)
qed simp

section \<open>Translation\<close>

text \<open>
  C18. A reply finds its sender: after any run of outbound packets and expirations in which fewer than 65536 mappings
  were made (so that the external port has not wrapped onto a live one), an outbound packet leaves from the external address; the reply to the port it was given reaches the host and port that
  sent it; no other inbound packet is affected; a flow that is already mapped keeps its
  port; and translation fails only for a new flow in a full table.
\<close>
theorem nat_reply_reaches_sender:
  assumes "mappings_made (nfs_nat_init cap ext start) es < 65536"
  shows "let t = foldl nat_step (nfs_nat_init cap ext start) es in
    (case nfs_nat_outbound t si sp di dp pr of
       None \<Rightarrow> nat_find_entry t si sp di dp pr = None \<and> length (nat_entries t) = cap
     | Some (ip, port, t') \<Rightarrow>
         ip = ext \<and> nfs_nat_inbound t' di dp port pr = Some (si, sp) \<and>
         (\<forall>ri rp p q. (ri, rp, p, q) \<noteq> (di, dp, port, pr) \<longrightarrow>
            nfs_nat_inbound t' ri rp p q = nfs_nat_inbound t ri rp p q) \<and>
         nfs_nat_outbound t' si sp di dp pr = Some (ip, port, t'))"
proof -
  define t where "t = foldl nat_step (nfs_nat_init cap ext start) es"
  have ok: "guarded nat_step nat_ok (nfs_nat_init cap ext start) es"
    using nat_short_runs_ok [OF nat_init_young] assms by simp
  have inv: "nat_inv ext t" unfolding t_def by (rule nat_run.run_inv [OF nat_init_inv ok])
  have fresh: "nat_fresh t"
    using nat_young_fresh [OF nat_young_run [OF nat_init_young]] assms unfolding t_def by simp
  have cap: "nat_capacity t = cap"
  proof -
    have "nat_capacity (nat_step u e) = nat_capacity u" for u e
      by (cases e) (auto simp: outbound_cases nfs_nat_expire_def split: option.split prod.split)
    then have "nat_capacity (foldl nat_step u es) = nat_capacity u" for u
      by (induction es arbitrary: u) auto
    then show ?thesis by (simp add: t_def nfs_nat_init_def)
  qed
  have d: "distinct (map nat_reply (nat_entries t))"
    using inv by (intro distinct_reply) (simp add: nat_inv_def)
  show ?thesis
    unfolding t_def [symmetric] Let_def
  proof (cases "find_key nat_flow (si, sp, di, dp, pr) (nat_entries t)")
    case (Some e)
    then have e: "e \<in> set (nat_entries t)" "nat_flow e = (si, sp, di, dp, pr)" by (auto dest: find_key_SomeD)
    then have "find_key nat_reply (nat_external_port e, di, dp, pr) (nat_entries t) = Some e"
      using d by (simp add: find_key_Some_iff nat_reply_def nat_flow_def)
    then have "nfs_nat_inbound t di dp (nat_external_port e) pr = Some (si, sp)"
      using e(2) by (simp add: inbound_reply nat_flow_def)
    then show "case nfs_nat_outbound t si sp di dp pr of None \<Rightarrow> nat_find_entry t si sp di dp pr = None \<and> length (nat_entries t) = cap
      | Some (ip, port, t') \<Rightarrow> ip = ext \<and> nfs_nat_inbound t' di dp port pr = Some (si, sp) \<and>
         (\<forall>ri rp p q. (ri, rp, p, q) \<noteq> (di, dp, port, pr) \<longrightarrow>
            nfs_nat_inbound t' ri rp p q = nfs_nat_inbound t ri rp p q) \<and>
         nfs_nat_outbound t' si sp di dp pr = Some (ip, port, t')"
      using Some inv e(1) by (simp add: outbound_cases nat_inv_def)
  next
    case None
    show "case nfs_nat_outbound t si sp di dp pr of None \<Rightarrow> nat_find_entry t si sp di dp pr = None \<and> length (nat_entries t) = cap
      | Some (ip, port, t') \<Rightarrow> ip = ext \<and> nfs_nat_inbound t' di dp port pr = Some (si, sp) \<and>
         (\<forall>ri rp p q. (ri, rp, p, q) \<noteq> (di, dp, port, pr) \<longrightarrow>
            nfs_nat_inbound t' ri rp p q = nfs_nat_inbound t ri rp p q) \<and>
         nfs_nat_outbound t' si sp di dp pr = Some (ip, port, t')"
    proof (cases "length (nat_entries t) < nat_capacity t")
      case False
      then show ?thesis using None inv cap by (simp add: outbound_cases find_entry_flow nat_inv_def)
    next
      case True
      have "find_key nat_reply (nat_next_port t, di, dp, pr) (nat_entries t) = None"
        using fresh by (auto simp: find_key_None_iff nat_reply_def nat_fresh_def image_iff)
      then show ?thesis
        using None True inv by (auto simp: outbound_cases inbound_reply find_key_snoc nat_inv_def split: option.split)
    qed
  qed
qed

lemma nat_reply_reaches_sender_witness:
  "nfs_nat_inbound (nat_step (nfs_nat_init 8 0xCB007101 40000) (NatOut 0x0A000005 5000 0x5DB8D822 80 6))
     0x5DB8D822 80 40000 6 = Some (0x0A000005, 5000)"
  using nat_reply_reaches_sender [where es = "[]" and cap = 8 and ext = "0xCB007101" and start = 40000 and
      si = "0x0A000005" and sp = 5000 and di = "0x5DB8D822" and dp = 80 and pr = 6]
  unfolding Let_def by (simp add: nfs_nat_init_def outbound_cases find_key_def)

text \<open>
  Entries are stamped once, with time 0, and never touched again: an expiration keeps all
  entries or removes all, however busy their flows are.
\<close>

lemma nat_expire_all_or_none:
  assumes "nat_inv ext t"
  shows "nat_entries (snd (nfs_nat_expire t now timeout)) = (if timeout \<le> now then [] else nat_entries t)"
proof -
  let ?f = "\<lambda>e. if now - nat_last_used e \<ge> timeout then Drop else Keep"
  obtain n t' where e: "nfs_nat_expire t now timeout = (n, t')" by fastforce
  have es: "nat_entries t' = fst (sweep ?f 0 (nat_entries t) 0)"
    using e by (auto simp: nfs_nat_expire_def split: prod.splits)
  have touched: "x \<in> set (nat_entries t) \<Longrightarrow> nat_last_used x = 0" for x using assms by (simp add: nat_inv_def)
  show ?thesis
  proof (cases "timeout \<le> now")
    case True
    then have "set (nat_entries t') = {}"
      unfolding es sweep_set using touched by (auto simp: List.map_filter_def)
    with True show ?thesis by (simp add: e)
  next
    case False
    have keep: "sweep ?f i xs n = (xs, n)" if "\<forall>x \<in> set xs. nat_last_used x = 0" for i xs n
      using that
    proof (induction "length xs - i" arbitrary: i)
      case 0
      then show ?case by (subst sweep.simps) simp
    next
      case (Suc m)
      then have "nat_last_used (xs ! i) = 0" by (simp add: nth_mem)
      then show ?case using Suc False by (subst sweep.simps) simp
    qed
    have "sweep ?f 0 (nat_entries t) 0 = (nat_entries t, 0)" by (rule keep) (use touched in blast)
    with False show ?thesis by (simp add: e es)
  qed
qed

end
