(* ===== verification/Conntrack.thy ===== *)
theory Conntrack
  imports Tables
begin

text \<open>
  Connection tracking
  (\<^verbatim>\<open>phases/04-transport/33-connection-tracking-from-outside/conntrack.c\<close>): 256 slots, one per
  connection, matched in both directions. \<^verbatim>\<open>time_t\<close> values are integers.
\<close>

section \<open>Definitions\<close>

datatype nfs_ct_state = NFS_CT_NEW | NFS_CT_ESTABLISHED | NFS_CT_RELATED | NFS_CT_INVALID

definition NFS_CT_TCP_SYN :: u8 where "NFS_CT_TCP_SYN = 0x02"
definition NFS_CT_TCP_ACK :: u8 where "NFS_CT_TCP_ACK = 0x10"
definition NFS_CT_TCP_RST :: u8 where "NFS_CT_TCP_RST = 0x04"
definition NFS_CT_MAX_ENTRIES :: nat where "NFS_CT_MAX_ENTRIES = 256"

record nfs_ct_tuple =
  tp_src_ip :: u32
  tp_dst_ip :: u32
  tp_src_port :: u16
  tp_dst_port :: u16
  tp_protocol :: u8

record nfs_ct_entry =
  ct_tuple :: nfs_ct_tuple
  ct_state :: nfs_ct_state
  ct_last_seen :: int
  ct_packets :: u64
  ct_bytes :: u64
  ct_active :: bool

record nfs_ct_packet =
  pk_src_ip :: u32
  pk_dst_ip :: u32
  pk_src_port :: u16
  pk_dst_port :: u16
  pk_protocol :: u8
  pk_tcp_flags :: u8
  pk_length :: u16

record nfs_conntrack =
  ct_entries :: "nfs_ct_entry list"
  ct_count :: int
  ct_timeout :: int

definition ct_zero_entry :: nfs_ct_entry where
  "ct_zero_entry = \<lparr> ct_tuple = \<lparr> tp_src_ip = 0, tp_dst_ip = 0, tp_src_port = 0, tp_dst_port = 0, tp_protocol = 0 \<rparr>,
     ct_state = NFS_CT_NEW, ct_last_seen = 0, ct_packets = 0, ct_bytes = 0, ct_active = False \<rparr>"

definition nfs_conntrack_init :: "int \<Rightarrow> nfs_conntrack" where
  "nfs_conntrack_init timeout =
     \<lparr> ct_entries = replicate NFS_CT_MAX_ENTRIES ct_zero_entry, ct_count = 0,
       ct_timeout = (if timeout > 0 then timeout else 300) \<rparr>"

definition tuple_match :: "nfs_ct_tuple \<Rightarrow> nfs_ct_tuple \<Rightarrow> bool" where
  "tuple_match a b \<longleftrightarrow>
     (if tp_protocol a = tp_protocol b \<and> tp_src_ip a = tp_src_ip b \<and> tp_dst_ip a = tp_dst_ip b \<and>
         tp_src_port a = tp_src_port b \<and> tp_dst_port a = tp_dst_port b then True
      else if tp_protocol a = tp_protocol b \<and> tp_src_ip a = tp_dst_ip b \<and> tp_dst_ip a = tp_src_ip b \<and>
         tp_src_port a = tp_dst_port b \<and> tp_dst_port a = tp_src_port b then True
      else False)"

text \<open>\<open>ct_find_entry\<close> and \<open>ct_find_free\<close> return the index of the slot.\<close>

definition ct_find_entry :: "nfs_conntrack \<Rightarrow> nfs_ct_tuple \<Rightarrow> nat option" where
  "ct_find_entry ct tuple = find_idx (\<lambda>e. ct_active e \<and> tuple_match (ct_tuple e) tuple) (ct_entries ct)"

definition ct_find_free :: "nfs_conntrack \<Rightarrow> nat option" where
  "ct_find_free ct = find_idx (\<lambda>e. \<not> ct_active e) (ct_entries ct)"

definition pkt_tuple :: "nfs_ct_packet \<Rightarrow> nfs_ct_tuple" where
  "pkt_tuple pkt = \<lparr> tp_src_ip = pk_src_ip pkt, tp_dst_ip = pk_dst_ip pkt, tp_src_port = pk_src_port pkt,
     tp_dst_port = pk_dst_port pkt, tp_protocol = pk_protocol pkt \<rparr>"

definition nfs_conntrack_process ::
  "nfs_conntrack \<Rightarrow> nfs_ct_packet \<Rightarrow> int \<Rightarrow> nfs_ct_state \<times> nfs_conntrack" where
  "nfs_conntrack_process ct pkt now =
     (let flags = pk_tcp_flags pkt in
      case ct_find_entry ct (pkt_tuple pkt) of
        Some i \<Rightarrow>
          let old = ct_entries ct ! i;
              entry = old\<lparr> ct_last_seen := now, ct_packets := ct_packets old + 1,
                           ct_bytes := ct_bytes old + ucast (pk_length pkt) \<rparr>;
              store = (\<lambda>e. ct\<lparr> ct_entries := (ct_entries ct)[i := e] \<rparr>)
          in
          if pk_protocol pkt = 6 then
            if flags AND NFS_CT_TCP_RST \<noteq> 0 then
              (NFS_CT_INVALID, (store (entry\<lparr> ct_active := False \<rparr>))\<lparr> ct_count := ct_count ct - 1 \<rparr>)
            else if ct_state entry = NFS_CT_ESTABLISHED \<and> flags AND NFS_CT_TCP_SYN \<noteq> 0 \<and>
                \<not> flags AND NFS_CT_TCP_ACK \<noteq> 0 then
              (NFS_CT_INVALID, store entry)
            else if ct_state entry = NFS_CT_NEW \<and> flags AND NFS_CT_TCP_ACK \<noteq> 0 then
              (NFS_CT_ESTABLISHED, store (entry\<lparr> ct_state := NFS_CT_ESTABLISHED \<rparr>))
            else (ct_state entry, store entry)
          else
            if ct_state entry = NFS_CT_NEW then
              if pk_src_ip pkt = tp_dst_ip (ct_tuple entry) \<and> pk_dst_ip pkt = tp_src_ip (ct_tuple entry) then
                (NFS_CT_ESTABLISHED, store (entry\<lparr> ct_state := NFS_CT_ESTABLISHED \<rparr>))
              else (ct_state entry, store entry)
            else (ct_state entry, store entry)
      | None \<Rightarrow>
          if pk_protocol pkt = 6 \<and> (\<not> flags AND NFS_CT_TCP_SYN \<noteq> 0 \<or> flags AND NFS_CT_TCP_ACK \<noteq> 0) then
            (NFS_CT_INVALID, ct)
          else
            case ct_find_free ct of
              None \<Rightarrow> (NFS_CT_INVALID, ct)
            | Some i \<Rightarrow>
                (NFS_CT_NEW,
                 ct\<lparr> ct_entries := (ct_entries ct)[i := \<lparr> ct_tuple = pkt_tuple pkt, ct_state = NFS_CT_NEW,
                       ct_last_seen = now, ct_packets = 1, ct_bytes = ucast (pk_length pkt), ct_active = True \<rparr>],
                     ct_count := ct_count ct + 1 \<rparr>))"

definition nfs_conntrack_lookup :: "nfs_conntrack \<Rightarrow> nfs_ct_tuple \<Rightarrow> nfs_ct_entry option" where
  "nfs_conntrack_lookup ct tuple =
     List.find (\<lambda>e. ct_active e \<and> tuple_match (ct_tuple e) tuple) (ct_entries ct)"

text \<open>The scan over the slots, with the two counters it keeps.\<close>

fun expire_run :: "int \<Rightarrow> int \<Rightarrow> nfs_ct_entry list \<Rightarrow> int \<times> nat \<Rightarrow> nfs_ct_entry list \<times> int \<times> nat" where
  "expire_run now timeout [] (cnt, expired) = ([], cnt, expired)"
| "expire_run now timeout (e # es) (cnt, expired) =
     (if ct_active e \<and> now - ct_last_seen e \<ge> timeout then
        let (es', r) = expire_run now timeout es (cnt - 1, expired + 1) in (e\<lparr> ct_active := False \<rparr> # es', r)
      else let (es', r) = expire_run now timeout es (cnt, expired) in (e # es', r))"

definition nfs_conntrack_expire :: "nfs_conntrack \<Rightarrow> int \<Rightarrow> nat \<times> nfs_conntrack" where
  "nfs_conntrack_expire ct now =
     (case expire_run now (ct_timeout ct) (ct_entries ct) (ct_count ct, 0) of
        (es, cnt, expired) \<Rightarrow> (expired, ct\<lparr> ct_entries := es, ct_count := cnt \<rparr>))"

definition nfs_conntrack_count :: "nfs_conntrack \<Rightarrow> int" where
  "nfs_conntrack_count ct = ct_count ct"

fun nfs_ct_state_name :: "nfs_ct_state \<Rightarrow> string" where
  "nfs_ct_state_name NFS_CT_NEW = ''NEW''"
| "nfs_ct_state_name NFS_CT_ESTABLISHED = ''ESTABLISHED''"
| "nfs_ct_state_name NFS_CT_RELATED = ''RELATED''"
| "nfs_ct_state_name NFS_CT_INVALID = ''INVALID''"

section \<open>One automaton per connection\<close>

text \<open>A connection is a tuple and its reverse.\<close>

definition ct_reverse :: "nfs_ct_tuple \<Rightarrow> nfs_ct_tuple" where
  "ct_reverse t = \<lparr> tp_src_ip = tp_dst_ip t, tp_dst_ip = tp_src_ip t, tp_src_port = tp_dst_port t,
     tp_dst_port = tp_src_port t, tp_protocol = tp_protocol t \<rparr>"

definition ct_conn :: "nfs_ct_tuple \<Rightarrow> nfs_ct_tuple set" where
  "ct_conn t = {t, ct_reverse t}"

lemma reverse_reverse [simp]: "ct_reverse (ct_reverse t) = t"
  by (simp add: ct_reverse_def)

lemma tuple_match_iff: "tuple_match a b \<longleftrightarrow> ct_conn a = ct_conn b"
proof -
  have "ct_conn a = ct_conn b \<longleftrightarrow> a = b \<or> a = ct_reverse b"
    unfolding ct_conn_def by (metis doubleton_eq_iff reverse_reverse)
  moreover have "tuple_match a b \<longleftrightarrow> a = b \<or> a = ct_reverse b"
    by (cases a; cases b) (auto simp: tuple_match_def ct_reverse_def)
  ultimately show ?thesis by simp
qed

definition ct_key :: "nfs_ct_entry \<Rightarrow> nfs_ct_tuple set" where
  "ct_key e = ct_conn (ct_tuple e)"

definition ct_known :: "nfs_conntrack \<Rightarrow> nfs_ct_tuple set \<Rightarrow> nfs_ct_entry option" where
  "ct_known ct c = find_slot ct_active ct_key c (ct_entries ct)"

lemma lookup_known: "nfs_conntrack_lookup ct t = ct_known ct (ct_conn t)"
  by (simp add: nfs_conntrack_lookup_def ct_known_def find_slot_def ct_key_def tuple_match_iff)

text \<open>What one connection does with a packet, on its own.\<close>

definition ct_touch :: "nfs_ct_entry \<Rightarrow> nfs_ct_packet \<Rightarrow> int \<Rightarrow> nfs_ct_entry" where
  "ct_touch e pkt now = e\<lparr> ct_last_seen := now, ct_packets := ct_packets e + 1,
     ct_bytes := ct_bytes e + ucast (pk_length pkt) \<rparr>"

abbreviation has_flag :: "nfs_ct_packet \<Rightarrow> u8 \<Rightarrow> bool" where
  "has_flag pkt f \<equiv> pk_tcp_flags pkt AND f \<noteq> 0"

definition pure_syn :: "nfs_ct_packet \<Rightarrow> bool" where
  "pure_syn pkt \<longleftrightarrow> has_flag pkt NFS_CT_TCP_SYN \<and> \<not> has_flag pkt NFS_CT_TCP_ACK"

definition fresh_entry :: "nfs_ct_packet \<Rightarrow> int \<Rightarrow> nfs_ct_entry" where
  "fresh_entry pkt now = \<lparr> ct_tuple = pkt_tuple pkt, ct_state = NFS_CT_NEW, ct_last_seen = now, ct_packets = 1,
     ct_bytes = ucast (pk_length pkt), ct_active = True \<rparr>"

fun ct_automaton :: "nfs_ct_entry option \<Rightarrow> nfs_ct_packet \<Rightarrow> int \<Rightarrow> nfs_ct_state \<times> nfs_ct_entry option" where
  "ct_automaton None pkt now =
     (if pk_protocol pkt = 6 \<and> \<not> pure_syn pkt then (NFS_CT_INVALID, None)
      else (NFS_CT_NEW, Some (fresh_entry pkt now)))"
| "ct_automaton (Some e) pkt now =
     (let e' = ct_touch e pkt now; est = Some (e'\<lparr> ct_state := NFS_CT_ESTABLISHED \<rparr>) in
      if pk_protocol pkt = 6 \<and> has_flag pkt NFS_CT_TCP_RST then (NFS_CT_INVALID, None)
      else if pk_protocol pkt = 6 \<and> ct_state e = NFS_CT_ESTABLISHED \<and> pure_syn pkt then (NFS_CT_INVALID, Some e')
      else if ct_state e = NFS_CT_NEW \<and>
        (if pk_protocol pkt = 6 then has_flag pkt NFS_CT_TCP_ACK
         else pk_src_ip pkt = tp_dst_ip (ct_tuple e) \<and> pk_dst_ip pkt = tp_src_ip (ct_tuple e))
      then (NFS_CT_ESTABLISHED, est)
      else (ct_state e, Some e'))"

definition ct_inv :: "int \<Rightarrow> nfs_conntrack \<Rightarrow> bool" where
  "ct_inv timeout ct \<longleftrightarrow> length (ct_entries ct) = NFS_CT_MAX_ENTRIES \<and>
     distinct (map ct_key (filter ct_active (ct_entries ct))) \<and>
     ct_count ct = int (length (filter ct_active (ct_entries ct))) \<and> ct_timeout ct = timeout"

text \<open>The table has a slot for the connection of the packet.\<close>

definition ct_room :: "nfs_conntrack \<Rightarrow> nfs_ct_packet \<Rightarrow> bool" where
  "ct_room ct pkt \<longleftrightarrow> ct_known ct (ct_conn (pkt_tuple pkt)) \<noteq> None \<or> ct_count ct < int NFS_CT_MAX_ENTRIES"

lemma ct_touch_fields [simp]:
  "ct_key (ct_touch e pkt now) = ct_key e" "ct_active (ct_touch e pkt now) = ct_active e"
  "ct_state (ct_touch e pkt now) = ct_state e" "ct_tuple (ct_touch e pkt now) = ct_tuple e"
  by (simp_all add: ct_touch_def ct_key_def)

text \<open>Storing an entry back into its slot, or clearing the slot.\<close>

lemma ct_store:
  assumes inv: "ct_inv T ct" and i: "ct_find_entry ct t = Some i" and e: "ct_key e = ct_conn t" "ct_active e"
  shows "ct_inv T (ct\<lparr> ct_entries := (ct_entries ct)[i := e] \<rparr>)"
    and "ct_known (ct\<lparr> ct_entries := (ct_entries ct)[i := e] \<rparr>) = (ct_known ct)(ct_conn t \<mapsto> e)"
proof -
  let ?es = "ct_entries ct"
  have f: "find_idx (\<lambda>x. ct_active x \<and> ct_key x = ct_conn t) ?es = Some i"
    using i by (simp add: ct_find_entry_def tuple_match_iff ct_key_def)
  have put: "slot_put ct_active ct_key (ct_conn t) (\<lambda>_. e) (\<lambda>_. e) ?es = Some (?es[i := e])"
    by (simp add: slot_put_def f)
  have d: "distinct (map ct_key (filter ct_active ?es))" using inv by (simp add: ct_inv_def)
  note p = slot_put_Some [OF d put]
  have known: "find_slot ct_active ct_key (ct_conn t) ?es = Some (?es ! i)"
    using find_idx_Some_find [OF f] by (simp add: find_slot_def)
  show "ct_inv T (ct\<lparr> ct_entries := ?es[i := e] \<rparr>)"
    using p(1,2,3) e inv known by (simp add: ct_inv_def)
  have "find_slot ct_active ct_key (ct_conn t) (?es[i := e]) = Some e"
    using p(5) known e by auto
  then show "ct_known (ct\<lparr> ct_entries := ?es[i := e] \<rparr>) = (ct_known ct)(ct_conn t \<mapsto> e)"
    using p(4) e by (intro ext) (auto simp: ct_known_def)
qed

lemma ct_clear:
  assumes inv: "ct_inv T ct" and i: "ct_find_entry ct t = Some i" and e: "\<not> ct_active e"
  shows "ct_inv T (ct\<lparr> ct_entries := (ct_entries ct)[i := e], ct_count := ct_count ct - 1 \<rparr>)"
    and "ct_known (ct\<lparr> ct_entries := (ct_entries ct)[i := e], ct_count := ct_count ct - 1 \<rparr>) =
      (ct_known ct)(ct_conn t := None)"
proof -
  let ?es = "ct_entries ct"
  have s: "i < length ?es" "ct_active (?es ! i)" "ct_key (?es ! i) = ct_conn t"
    using find_idx_SomeD [OF i [unfolded ct_find_entry_def]] by (simp_all add: tuple_match_iff ct_key_def)
  have d: "distinct (map ct_key (filter ct_active ?es))" using inv by (simp add: ct_inv_def)
  note c = slot_clear [OF d s(1,2) e]
  show "ct_inv T (ct\<lparr> ct_entries := ?es[i := e], ct_count := ct_count ct - 1 \<rparr>)"
    using c(1,3) inv by (simp add: ct_inv_def)
  show "ct_known (ct\<lparr> ct_entries := ?es[i := e], ct_count := ct_count ct - 1 \<rparr>) = (ct_known ct)(ct_conn t := None)"
    using c(2) s(3) by (intro ext) (simp add: ct_known_def)
qed

lemma ct_fill:
  assumes inv: "ct_inv T ct" and none: "ct_find_entry ct t = None" and i: "ct_find_free ct = Some i"
    and e: "ct_key e = ct_conn t" "ct_active e"
  shows "ct_inv T (ct\<lparr> ct_entries := (ct_entries ct)[i := e], ct_count := ct_count ct + 1 \<rparr>)"
    and "ct_known (ct\<lparr> ct_entries := (ct_entries ct)[i := e], ct_count := ct_count ct + 1 \<rparr>) =
      (ct_known ct)(ct_conn t \<mapsto> e)"
proof -
  let ?es = "ct_entries ct"
  have n: "find_idx (\<lambda>x. ct_active x \<and> ct_key x = ct_conn t) ?es = None"
    using none by (simp add: ct_find_entry_def tuple_match_iff ct_key_def)
  have put: "slot_put ct_active ct_key (ct_conn t) (\<lambda>_. e) (\<lambda>_. e) ?es = Some (?es[i := e])"
    using i by (simp add: slot_put_def n ct_find_free_def)
  have d: "distinct (map ct_key (filter ct_active ?es))" using inv by (simp add: ct_inv_def)
  note p = slot_put_Some [OF d put]
  have known: "find_slot ct_active ct_key (ct_conn t) ?es = None"
    using n by (simp add: find_slot_def find_conv_find_idx)
  show "ct_inv T (ct\<lparr> ct_entries := ?es[i := e], ct_count := ct_count ct + 1 \<rparr>)"
    using p(1,2,3) e inv known by (simp add: ct_inv_def)
  have "i < length ?es" using find_idx_SomeD [OF i [unfolded ct_find_free_def]] by simp
  then have "find_slot ct_active ct_key (ct_conn t) (?es[i := e]) = Some e"
    using p(5) known e by (auto split: option.splits)
  then show "ct_known (ct\<lparr> ct_entries := ?es[i := e], ct_count := ct_count ct + 1 \<rparr>) = (ct_known ct)(ct_conn t \<mapsto> e)"
    using p(4) e by (intro ext) (auto simp: ct_known_def)
qed

lemma find_entry_known:
  assumes "ct_find_entry ct t = Some i"
  shows "ct_known ct (ct_conn t) = Some (ct_entries ct ! i)" and "ct_key (ct_entries ct ! i) = ct_conn t"
    and "ct_active (ct_entries ct ! i)" and "i < length (ct_entries ct)"
proof -
  have f: "find_idx (\<lambda>x. ct_active x \<and> ct_key x = ct_conn t) (ct_entries ct) = Some i"
    using assms by (simp add: ct_find_entry_def tuple_match_iff ct_key_def)
  show "ct_known ct (ct_conn t) = Some (ct_entries ct ! i)"
    using find_idx_Some_find [OF f] by (simp add: ct_known_def find_slot_def)
  show "ct_key (ct_entries ct ! i) = ct_conn t" "ct_active (ct_entries ct ! i)" "i < length (ct_entries ct)"
    using find_idx_SomeD [OF f] by simp_all
qed

lemma find_entry_None: "ct_find_entry ct t = None \<longleftrightarrow> ct_known ct (ct_conn t) = None"
  by (simp add: ct_find_entry_def tuple_match_iff ct_key_def [symmetric] ct_known_def find_slot_def find_conv_find_idx)

lemma process_tracked:
  assumes inv: "ct_inv T ct" and i: "ct_find_entry ct (pkt_tuple pkt) = Some i"
    and p: "nfs_conntrack_process ct pkt now = (v, ct')"
  shows "ct_inv T ct'" and "v = fst (ct_automaton (ct_known ct (ct_conn (pkt_tuple pkt))) pkt now)"
    and "ct_known ct' = (ct_known ct)(ct_conn (pkt_tuple pkt) :=
      snd (ct_automaton (ct_known ct (ct_conn (pkt_tuple pkt))) pkt now))"
proof -
  define e where "e = ct_touch (ct_entries ct ! i) pkt now"
  note k = find_entry_known [OF i]
  have e: "ct_key e = ct_conn (pkt_tuple pkt)" "ct_active e" "ct_state e = ct_state (ct_entries ct ! i)"
    "ct_tuple e = ct_tuple (ct_entries ct ! i)"
    using k(2,3) by (simp_all add: e_def)
  have est: "ct_key (e\<lparr> ct_state := NFS_CT_ESTABLISHED \<rparr>) = ct_conn (pkt_tuple pkt)"
    using e(1) by (simp add: ct_key_def)
  note store = ct_store [OF inv i e(1,2)] ct_store [OF inv i est]
    ct_clear [OF inv i, of "e\<lparr> ct_active := False \<rparr>"]
  have fold_e: "(ct_entries ct ! i)\<lparr> ct_last_seen := now, ct_packets := ct_packets (ct_entries ct ! i) + 1,
      ct_bytes := ct_bytes (ct_entries ct ! i) + ucast (pk_length pkt) \<rparr> = e"
    by (simp add: e_def ct_touch_def)
  have p': "nfs_conntrack_process ct pkt now =
     (if pk_protocol pkt = 6 \<and> has_flag pkt NFS_CT_TCP_RST
      then (NFS_CT_INVALID, ct\<lparr> ct_entries := (ct_entries ct)[i := e\<lparr> ct_active := False \<rparr>], ct_count := ct_count ct - 1 \<rparr>)
      else if pk_protocol pkt = 6 \<and> ct_state e = NFS_CT_ESTABLISHED \<and> pure_syn pkt
      then (NFS_CT_INVALID, ct\<lparr> ct_entries := (ct_entries ct)[i := e] \<rparr>)
      else if ct_state e = NFS_CT_NEW \<and>
        (if pk_protocol pkt = 6 then has_flag pkt NFS_CT_TCP_ACK
         else pk_src_ip pkt = tp_dst_ip (ct_tuple e) \<and> pk_dst_ip pkt = tp_src_ip (ct_tuple e))
      then (NFS_CT_ESTABLISHED, ct\<lparr> ct_entries := (ct_entries ct)[i := e\<lparr> ct_state := NFS_CT_ESTABLISHED \<rparr>] \<rparr>)
      else (ct_state e, ct\<lparr> ct_entries := (ct_entries ct)[i := e] \<rparr>))"
    unfolding nfs_conntrack_process_def Let_def i option.case fold_e pure_syn_def
    by simp
  have a: "ct_automaton (ct_known ct (ct_conn (pkt_tuple pkt))) pkt now =
     (if pk_protocol pkt = 6 \<and> has_flag pkt NFS_CT_TCP_RST then (NFS_CT_INVALID, None)
      else if pk_protocol pkt = 6 \<and> ct_state e = NFS_CT_ESTABLISHED \<and> pure_syn pkt then (NFS_CT_INVALID, Some e)
      else if ct_state e = NFS_CT_NEW \<and>
        (if pk_protocol pkt = 6 then has_flag pkt NFS_CT_TCP_ACK
         else pk_src_ip pkt = tp_dst_ip (ct_tuple e) \<and> pk_dst_ip pkt = tp_src_ip (ct_tuple e))
      then (NFS_CT_ESTABLISHED, Some (e\<lparr> ct_state := NFS_CT_ESTABLISHED \<rparr>))
      else (ct_state e, Some e))"
    unfolding k(1) ct_automaton.simps Let_def e_def [symmetric] e(3,4) ..
  have "ct_inv T ct' \<and> v = fst (ct_automaton (ct_known ct (ct_conn (pkt_tuple pkt))) pkt now) \<and>
    ct_known ct' = (ct_known ct)(ct_conn (pkt_tuple pkt) :=
      snd (ct_automaton (ct_known ct (ct_conn (pkt_tuple pkt))) pkt now))"
    using p store e(2) unfolding p' a by (simp split: if_splits)
  then show "ct_inv T ct'" "v = fst (ct_automaton (ct_known ct (ct_conn (pkt_tuple pkt))) pkt now)"
    "ct_known ct' = (ct_known ct)(ct_conn (pkt_tuple pkt) :=
      snd (ct_automaton (ct_known ct (ct_conn (pkt_tuple pkt))) pkt now))" by simp_all
qed

lemma process_untracked:
  assumes inv: "ct_inv T ct" and n: "ct_find_entry ct (pkt_tuple pkt) = None"
    and p: "nfs_conntrack_process ct pkt now = (v, ct')"
  shows "ct_inv T ct'"
    and "ct_room ct pkt \<Longrightarrow> v = fst (ct_automaton None pkt now) \<and>
      ct_known ct' = (ct_known ct)(ct_conn (pkt_tuple pkt) := snd (ct_automaton None pkt now))"
    and "\<not> ct_room ct pkt \<Longrightarrow> v = NFS_CT_INVALID \<and> ct' = ct"
proof -
  have known: "ct_known ct (ct_conn (pkt_tuple pkt)) = None" using n by (simp add: find_entry_None)
  have full: "ct_find_free ct = None \<longleftrightarrow> \<not> ct_room ct pkt"
  proof -
    have "(\<forall>e \<in> set (ct_entries ct). ct_active e) \<longleftrightarrow> \<not> length (filter ct_active (ct_entries ct)) < length (ct_entries ct)"
      by (metis filter_id_conv length_filter_less less_irrefl)
    then show ?thesis
      using inv known by (auto simp: ct_find_free_def ct_room_def find_idx_None_iff ct_inv_def)
  qed
  have f: "ct_key (fresh_entry pkt now) = ct_conn (pkt_tuple pkt)" "ct_active (fresh_entry pkt now)"
    by (simp_all add: fresh_entry_def ct_key_def)
  have p': "nfs_conntrack_process ct pkt now =
    (if pk_protocol pkt = 6 \<and> \<not> pure_syn pkt then (NFS_CT_INVALID, ct)
     else case ct_find_free ct of None \<Rightarrow> (NFS_CT_INVALID, ct)
       | Some i \<Rightarrow> (NFS_CT_NEW, ct\<lparr> ct_entries := (ct_entries ct)[i := fresh_entry pkt now], ct_count := ct_count ct + 1 \<rparr>))"
    unfolding nfs_conntrack_process_def Let_def n option.case pure_syn_def fresh_entry_def
    by (auto split: option.split)
  note fill = ct_fill [OF inv n _ f]
  show "ct_inv T ct'" using p fill(1) inv unfolding p' by (auto split: if_splits option.splits)
  show "v = fst (ct_automaton None pkt now) \<and>
      ct_known ct' = (ct_known ct)(ct_conn (pkt_tuple pkt) := snd (ct_automaton None pkt now))" if room: "ct_room ct pkt"
  proof -
    obtain i where i: "ct_find_free ct = Some i" using full room by auto
    have "(ct_known ct)(ct_conn (pkt_tuple pkt) := None) = ct_known ct" using known by (simp add: fun_upd_idem)
    then show ?thesis using p fill(2) [OF i] unfolding p' by (auto simp: i split: if_splits)
  qed
  show "v = NFS_CT_INVALID \<and> ct' = ct" if "\<not> ct_room ct pkt"
    using p full that unfolding p' by (auto split: if_splits)
qed

section \<open>Expiration\<close>

lemma expire_run_eq:
  "expire_run now T es (cnt, expired) =
     (map (\<lambda>e. if ct_active e \<and> now - ct_last_seen e \<ge> T then e\<lparr> ct_active := False \<rparr> else e) es,
      cnt - int (length (filter (\<lambda>e. ct_active e \<and> now - ct_last_seen e \<ge> T) es)),
      expired + length (filter (\<lambda>e. ct_active e \<and> now - ct_last_seen e \<ge> T) es))"
  by (induction es arbitrary: cnt expired) auto

definition ct_expired :: "int \<Rightarrow> int \<Rightarrow> nfs_ct_entry \<Rightarrow> bool" where
  "ct_expired T now e \<longleftrightarrow> now - ct_last_seen e \<ge> T"

lemma expire_known:
  assumes inv: "ct_inv T ct" and ex: "nfs_conntrack_expire ct now = (n, ct')"
  shows "ct_inv T ct'"
    and "ct_known ct' c = (case ct_known ct c of None \<Rightarrow> None | Some e \<Rightarrow> if ct_expired T now e then None else Some e)"
    and "n = length (filter (ct_expired T now) (filter ct_active (ct_entries ct)))"
proof -
  let ?es = "ct_entries ct" and ?g = "\<lambda>e. if ct_active e \<and> ct_expired T now e then e\<lparr> ct_active := False \<rparr> else e"
  let ?k = "length (filter (\<lambda>e. ct_active e \<and> ct_expired T now e) ?es)"
  have T: "ct_timeout ct = T" and d: "distinct (map ct_key (filter ct_active ?es))"
    using inv by (simp_all add: ct_inv_def)
  have e: "ct' = ct\<lparr> ct_entries := map ?g ?es, ct_count := ct_count ct - int ?k \<rparr>" "n = ?k"
    using ex by (auto simp: nfs_conntrack_expire_def expire_run_eq T ct_expired_def)
  have g: "ct_active (?g x) \<longleftrightarrow> ct_active x \<and> \<not> ct_expired T now x"
    "ct_active x \<Longrightarrow> \<not> ct_expired T now x \<Longrightarrow> ?g x = x" for x by auto
  note i = invalidate_slots [where g = ?g and old = "ct_expired T now", OF d g]
  have k: "filter (\<lambda>e. ct_active e \<and> ct_expired T now e) ?es = filter (ct_expired T now) (filter ct_active ?es)"
    by (simp add: conj_commute)
  show "n = length (filter (ct_expired T now) (filter ct_active ?es))" unfolding e(2) k ..
  have "length (filter ct_active (map ?g ?es)) + ?k = length (filter ct_active ?es)"
  proof -
    have "length (filter ct_active (map ?g ?es)) = length (filter (\<lambda>e. \<not> ct_expired T now e) (filter ct_active ?es))"
      by (rule arg_cong [OF i(1)])
    then show ?thesis
      unfolding k using sum_length_filter_compl [of "ct_expired T now" "filter ct_active ?es"] by linarith
  qed
  then show "ct_inv T ct'" using i(2) inv unfolding ct_inv_def e(1) by (simp del: length_map filter_filter) auto
  show "ct_known ct' c = (case ct_known ct c of None \<Rightarrow> None | Some e \<Rightarrow> if ct_expired T now e then None else Some e)"
    unfolding ct_known_def e(1) by (simp add: i(3))
qed

section \<open>Runs\<close>

datatype ct_event = CtPacket nfs_ct_packet int | CtExpire int

fun ct_step :: "nfs_conntrack \<Rightarrow> ct_event \<Rightarrow> nfs_conntrack" where
  "ct_step ct (CtPacket pkt now) = snd (nfs_conntrack_process ct pkt now)"
| "ct_step ct (CtExpire now) = snd (nfs_conntrack_expire ct now)"

fun ct_ok :: "nfs_conntrack \<Rightarrow> ct_event \<Rightarrow> bool" where
  "ct_ok ct (CtPacket pkt now) = ct_room ct pkt"
| "ct_ok ct (CtExpire now) = True"

text \<open>The same event as one connection sees it.\<close>

fun conn_event :: "int \<Rightarrow> nfs_ct_tuple set \<Rightarrow> nfs_ct_entry option \<Rightarrow> ct_event \<Rightarrow> nfs_ct_entry option" where
  "conn_event T c st (CtPacket pkt now) =
     (if ct_conn (pkt_tuple pkt) = c then snd (ct_automaton st pkt now) else st)"
| "conn_event T c st (CtExpire now) =
     (case st of None \<Rightarrow> None | Some e \<Rightarrow> if ct_expired T now e then None else Some e)"

lemma process_inv:
  assumes "ct_inv T ct" and "nfs_conntrack_process ct pkt now = (v, ct')"
  shows "ct_inv T ct'"
  using process_tracked(1) [OF assms(1) _ assms(2)] process_untracked(1) [OF assms(1) _ assms(2)]
  by (cases "ct_find_entry ct (pkt_tuple pkt)") simp_all

lemma process_refines:
  assumes "ct_inv T ct" and "ct_room ct pkt" and "nfs_conntrack_process ct pkt now = (v, ct')"
  defines "c \<equiv> ct_conn (pkt_tuple pkt)"
  shows "v = fst (ct_automaton (ct_known ct c) pkt now)"
    and "ct_known ct' = (ct_known ct)(c := snd (ct_automaton (ct_known ct c) pkt now))"
proof -
  have "v = fst (ct_automaton (ct_known ct c) pkt now) \<and>
      ct_known ct' = (ct_known ct)(c := snd (ct_automaton (ct_known ct c) pkt now))"
  proof (cases "ct_find_entry ct (pkt_tuple pkt)")
    case None
    then have "ct_known ct c = None" by (simp add: c_def find_entry_None)
    then show ?thesis using process_untracked(2) [OF assms(1) None assms(3,2)] by (simp add: c_def)
  next
    case (Some i)
    then show ?thesis unfolding c_def using process_tracked(2,3) [OF assms(1) Some assms(3)] by blast
  qed
  then show "v = fst (ct_automaton (ct_known ct c) pkt now)"
    "ct_known ct' = (ct_known ct)(c := snd (ct_automaton (ct_known ct c) pkt now))" by simp_all
qed

interpretation ct_sim: simulation ct_step ct_ok "ct_inv T" ct_known "\<lambda>m e c. conn_event T c (m c) e"
proof
  fix ct e
  assume inv: "ct_inv T ct"
  show "ct_inv T (ct_step ct e)"
  proof (cases e)
    case (CtPacket pkt now)
    obtain v ct' where "nfs_conntrack_process ct pkt now = (v, ct')" by fastforce
    then show ?thesis using process_inv [OF inv] CtPacket by simp
  next
    case (CtExpire now)
    obtain n ct' where "nfs_conntrack_expire ct now = (n, ct')" by fastforce
    then show ?thesis using expire_known(1) [OF inv] CtExpire by simp
  qed
next
  fix ct e
  assume inv: "ct_inv T ct" and ok: "ct_ok ct e"
  show "ct_known (ct_step ct e) = (\<lambda>c. conn_event T c (ct_known ct c) e)"
  proof (cases e)
    case (CtPacket pkt now)
    obtain v ct' where p: "nfs_conntrack_process ct pkt now = (v, ct')" by fastforce
    have "ct_room ct pkt" using ok CtPacket by simp
    from process_refines(2) [OF inv this p] show ?thesis
      by (intro ext) (simp add: CtPacket p)
  next
    case (CtExpire now)
    obtain n ct' where p: "nfs_conntrack_expire ct now = (n, ct')" by fastforce
    show ?thesis using expire_known(2) [OF inv p] by (intro ext) (simp add: CtExpire p)
  qed
qed

lemma ct_init_inv: "ct_inv (ct_timeout (nfs_conntrack_init t)) (nfs_conntrack_init t)"
  by (simp add: ct_inv_def nfs_conntrack_init_def filter_replicate ct_zero_entry_def)

lemma init_known: "ct_known (nfs_conntrack_init t) c = None"
  by (simp add: ct_known_def nfs_conntrack_init_def find_slot_def find_None_iff ct_zero_entry_def)

lemma foldl_pointwise: "foldl (\<lambda>m e c. f c (m c) e) m es c = foldl (f c) (m c) es"
  by (induction es arbitrary: m) simp_all

text \<open>
  C19. The table is a set of independent connections: as long as it is not asked to open a 257th
  one, what is known of a connection after any run is what its own automaton makes of its own
  packets and the expirations, whatever other traffic there is; each packet gets that automaton's
  verdict; and the count is the number of active entries.
\<close>
theorem conntrack_connections_independent:
  assumes "guarded ct_step ct_ok (nfs_conntrack_init t) es"
  shows "let ct = foldl ct_step (nfs_conntrack_init t) es; T = (if t > 0 then t else 300) in
    ct_known ct c = foldl (conn_event T c) None es \<and>
    (ct_room ct pkt \<longrightarrow> fst (nfs_conntrack_process ct pkt now) =
      fst (ct_automaton (foldl (conn_event T (ct_conn (pkt_tuple pkt))) None es) pkt now)) \<and>
    nfs_conntrack_count ct = int (length (filter ct_active (ct_entries ct)))"
proof -
  define T where "T = (if t > 0 then t else 300)"
  define ct where "ct = foldl ct_step (nfs_conntrack_init t) es"
  have i: "ct_inv T (nfs_conntrack_init t)"
    using ct_init_inv [of t] by (simp add: T_def nfs_conntrack_init_def)
  have inv: "ct_inv T ct" unfolding ct_def by (rule ct_sim.run_inv [OF i assms])
  have known: "ct_known ct d = foldl (conn_event T d) None es" for d
    using ct_sim.run_abs [OF i assms] by (simp add: ct_def foldl_pointwise init_known)
  obtain v ct' where p: "nfs_conntrack_process ct pkt now = (v, ct')" by fastforce
  show ?thesis
    unfolding ct_def [symmetric] T_def [symmetric] Let_def
    using process_refines(1) [OF inv _ p] inv by (simp add: known p nfs_conntrack_count_def ct_inv_def)
qed

text \<open>A handshake and a reset.\<close>

definition sample_packet :: "bool \<Rightarrow> u8 \<Rightarrow> nfs_ct_packet" where
  "sample_packet reply flags =
     (if reply
      then \<lparr> pk_src_ip = 2, pk_dst_ip = 1, pk_src_port = 80, pk_dst_port = 5000, pk_protocol = 6,
             pk_tcp_flags = flags, pk_length = 40 \<rparr>
      else \<lparr> pk_src_ip = 1, pk_dst_ip = 2, pk_src_port = 5000, pk_dst_port = 80, pk_protocol = 6,
             pk_tcp_flags = flags, pk_length = 40 \<rparr>)"

lemma sample_room: "ct_room (nfs_conntrack_init 60) (sample_packet False 2)"
  by (simp add: ct_room_def nfs_conntrack_init_def NFS_CT_MAX_ENTRIES_def)

lemma sample_new: "fst (nfs_conntrack_process (nfs_conntrack_init 60) (sample_packet False 2) 0) = NFS_CT_NEW"
proof -
  obtain v ct' where p: "nfs_conntrack_process (nfs_conntrack_init 60) (sample_packet False 2) 0 = (v, ct')"
    by fastforce
  have "v = NFS_CT_NEW"
    using process_refines(1) [OF ct_init_inv sample_room p]
    by (simp add: init_known sample_packet_def pure_syn_def NFS_CT_TCP_SYN_def NFS_CT_TCP_ACK_def)
  then show ?thesis using p by simp
qed

lemma conntrack_connections_independent_witness:
  "fst (nfs_conntrack_process (nfs_conntrack_init 60) (sample_packet False 2) 0) = NFS_CT_NEW"
proof -
  note room = sample_room
  have "guarded ct_step ct_ok (nfs_conntrack_init 60) []" by simp
  from conntrack_connections_independent [OF this, where pkt = "sample_packet False 2" and now = 0]
  show ?thesis
    using room unfolding Let_def
    by (simp add: sample_packet_def pure_syn_def NFS_CT_TCP_SYN_def NFS_CT_TCP_ACK_def)
qed

section \<open>Only an opening SYN opens a TCP connection\<close>

definition saw_syn :: "ct_event list \<Rightarrow> nfs_ct_tuple set \<Rightarrow> bool" where
  "saw_syn es c \<longleftrightarrow> (\<exists>pkt now. CtPacket pkt now \<in> set es \<and> pk_protocol pkt = 6 \<and>
     ct_conn (pkt_tuple pkt) = c \<and> pure_syn pkt)"

definition saw_ack :: "ct_event list \<Rightarrow> nfs_ct_tuple set \<Rightarrow> bool" where
  "saw_ack es c \<longleftrightarrow> (\<exists>pkt now. CtPacket pkt now \<in> set es \<and> pk_protocol pkt = 6 \<and>
     ct_conn (pkt_tuple pkt) = c \<and> has_flag pkt NFS_CT_TCP_ACK)"

definition ct_justified :: "ct_event list \<Rightarrow> nfs_conntrack \<Rightarrow> bool" where
  "ct_justified es ct \<longleftrightarrow> (\<forall>c e. ct_known ct c = Some e \<longrightarrow>
     ct_key e = c \<and> (ct_state e = NFS_CT_NEW \<or> ct_state e = NFS_CT_ESTABLISHED) \<and>
     (tp_protocol (ct_tuple e) = 6 \<longrightarrow>
       saw_syn es c \<and> (ct_state e = NFS_CT_ESTABLISHED \<longrightarrow> saw_ack es c)))"

lemma saw_more: "saw_syn es c \<Longrightarrow> saw_syn (es @ fs) c" "saw_ack es c \<Longrightarrow> saw_ack (es @ fs) c"
  by (auto simp: saw_syn_def saw_ack_def)

lemma conn_protocol: "ct_conn s = ct_conn t \<Longrightarrow> tp_protocol s = tp_protocol t"
  by (auto simp: ct_conn_def ct_reverse_def doubleton_eq_iff)

text \<open>One packet: what the automaton keeps and says is justified by the history with that packet.\<close>

lemma automaton_justified:
  fixes now :: int
  assumes st: "\<And>e. st = Some e \<Longrightarrow> ct_key e = c \<and> (ct_state e = NFS_CT_NEW \<or> ct_state e = NFS_CT_ESTABLISHED) \<and>
      (tp_protocol (ct_tuple e) = 6 \<longrightarrow> saw_syn es c \<and> (ct_state e = NFS_CT_ESTABLISHED \<longrightarrow> saw_ack es c))"
    and c: "ct_conn (pkt_tuple pkt) = c"
  defines "hist \<equiv> es @ [CtPacket pkt now]"
  shows "snd (ct_automaton st pkt now) = Some e \<Longrightarrow>
      ct_key e = c \<and> (ct_state e = NFS_CT_NEW \<or> ct_state e = NFS_CT_ESTABLISHED) \<and>
      (tp_protocol (ct_tuple e) = 6 \<longrightarrow> saw_syn hist c \<and> (ct_state e = NFS_CT_ESTABLISHED \<longrightarrow> saw_ack hist c))"
    and "pk_protocol pkt = 6 \<Longrightarrow> fst (ct_automaton st pkt now) \<noteq> NFS_CT_INVALID \<Longrightarrow>
      saw_syn hist c \<and> (fst (ct_automaton st pkt now) = NFS_CT_ESTABLISHED \<longrightarrow> saw_ack hist c)"
proof -
  have proto: "tp_protocol (pkt_tuple pkt) = pk_protocol pkt" by (simp add: pkt_tuple_def)
  have syn: "pk_protocol pkt = 6 \<Longrightarrow> pure_syn pkt \<Longrightarrow> saw_syn hist c"
    using c by (auto simp: saw_syn_def hist_def)
  have ack: "pk_protocol pkt = 6 \<Longrightarrow> has_flag pkt NFS_CT_TCP_ACK \<Longrightarrow> saw_ack hist c"
    using c by (auto simp: saw_ack_def hist_def)
  have more: "saw_syn es c \<Longrightarrow> saw_syn hist c" "saw_ack es c \<Longrightarrow> saw_ack hist c"
    unfolding hist_def by (rule saw_more, assumption)+
  have key: "ct_key (x\<lparr> ct_state := s \<rparr>) = ct_key x" for x s by (simp add: ct_key_def)
  have "(snd (ct_automaton st pkt now) = Some e \<longrightarrow>
      ct_key e = c \<and> (ct_state e = NFS_CT_NEW \<or> ct_state e = NFS_CT_ESTABLISHED) \<and>
      (tp_protocol (ct_tuple e) = 6 \<longrightarrow> saw_syn hist c \<and> (ct_state e = NFS_CT_ESTABLISHED \<longrightarrow> saw_ack hist c))) \<and>
    (pk_protocol pkt = 6 \<longrightarrow> fst (ct_automaton st pkt now) \<noteq> NFS_CT_INVALID \<longrightarrow>
      saw_syn hist c \<and> (fst (ct_automaton st pkt now) = NFS_CT_ESTABLISHED \<longrightarrow> saw_ack hist c))"
  proof (cases st)
    case None
    then show ?thesis
      using c syn proto by (auto simp: fresh_entry_def ct_key_def split: if_splits)
  next
    case (Some x)
    have x: "ct_key x = c" "ct_state x = NFS_CT_NEW \<or> ct_state x = NFS_CT_ESTABLISHED"
      "tp_protocol (ct_tuple x) = 6 \<Longrightarrow> saw_syn hist c"
      "tp_protocol (ct_tuple x) = 6 \<Longrightarrow> ct_state x = NFS_CT_ESTABLISHED \<Longrightarrow> saw_ack hist c"
      using st [OF Some] more by auto
    have p: "tp_protocol (ct_tuple x) = pk_protocol pkt"
      using conn_protocol [of "ct_tuple x" "pkt_tuple pkt"] x(1) c proto by (simp add: ct_key_def)
    show ?thesis using x [unfolded p] ack unfolding Some by (auto simp: Let_def key p split: if_splits)
  qed
  then show "snd (ct_automaton st pkt now) = Some e \<Longrightarrow>
      ct_key e = c \<and> (ct_state e = NFS_CT_NEW \<or> ct_state e = NFS_CT_ESTABLISHED) \<and>
      (tp_protocol (ct_tuple e) = 6 \<longrightarrow> saw_syn hist c \<and> (ct_state e = NFS_CT_ESTABLISHED \<longrightarrow> saw_ack hist c))"
    and "pk_protocol pkt = 6 \<Longrightarrow> fst (ct_automaton st pkt now) \<noteq> NFS_CT_INVALID \<Longrightarrow>
      saw_syn hist c \<and> (fst (ct_automaton st pkt now) = NFS_CT_ESTABLISHED \<longrightarrow> saw_ack hist c)" by simp_all
qed

lemma known_key: "ct_known ct c = Some e \<Longrightarrow> ct_key e = c"
  by (auto simp: ct_known_def find_slot_filter dest: find_key_SomeD)

lemma justified_more: "ct_justified es ct \<Longrightarrow> ct_justified (es @ fs) ct"
  using saw_more unfolding ct_justified_def by blast

lemma process_justified:
  assumes inv: "ct_inv T ct" and j: "ct_justified es ct"
    and p: "nfs_conntrack_process ct pkt now = (v, ct')"
  defines "hist \<equiv> es @ [CtPacket pkt now]" and "c \<equiv> ct_conn (pkt_tuple pkt)"
  shows "ct_justified hist ct'"
    and "pk_protocol pkt = 6 \<Longrightarrow> v \<noteq> NFS_CT_INVALID \<Longrightarrow>
      saw_syn hist c \<and> (v = NFS_CT_ESTABLISHED \<longrightarrow> saw_ack hist c)"
proof -
  have st: "ct_known ct c = Some e \<Longrightarrow> ct_key e = c \<and> (ct_state e = NFS_CT_NEW \<or> ct_state e = NFS_CT_ESTABLISHED) \<and>
      (tp_protocol (ct_tuple e) = 6 \<longrightarrow> saw_syn es c \<and> (ct_state e = NFS_CT_ESTABLISHED \<longrightarrow> saw_ack es c))" for e
    using j by (simp add: ct_justified_def)
  have c: "ct_conn (pkt_tuple pkt) = c" by (simp add: c_def)
  note a = automaton_justified [where st = "ct_known ct c" and now = now, OF st c, folded hist_def]
  have old: "ct_justified hist ct" unfolding hist_def using j by (rule justified_more)
  have "ct_justified hist ct' \<and> (pk_protocol pkt = 6 \<longrightarrow> v \<noteq> NFS_CT_INVALID \<longrightarrow>
      saw_syn hist c \<and> (v = NFS_CT_ESTABLISHED \<longrightarrow> saw_ack hist c))"
  proof (cases "ct_room ct pkt")
    case False
    then have "ct_find_entry ct (pkt_tuple pkt) = None" by (simp add: ct_room_def find_entry_None)
    from process_untracked(3) [OF inv this p False] old show ?thesis by simp
  next
    case True
    note r = process_refines [OF inv True p, folded c_def]
    have "ct_justified hist ct'"
      unfolding ct_justified_def r(2) using old a(1) by (auto simp: ct_justified_def)
    then show ?thesis using a(2) unfolding r(1) by simp
  qed
  then show "ct_justified hist ct'"
    and "pk_protocol pkt = 6 \<Longrightarrow> v \<noteq> NFS_CT_INVALID \<Longrightarrow>
      saw_syn hist c \<and> (v = NFS_CT_ESTABLISHED \<longrightarrow> saw_ack hist c)" by simp_all
qed

lemma expire_justified:
  assumes inv: "ct_inv T ct" and j: "ct_justified es ct" and p: "nfs_conntrack_expire ct now = (n, ct')"
  shows "ct_justified (es @ [CtExpire now]) ct'"
  using justified_more [OF j] expire_known(2) [OF inv p]
  unfolding ct_justified_def by (simp split: option.splits if_splits)

lemma run_justified:
  "ct_inv (if t > 0 then t else 300) (foldl ct_step (nfs_conntrack_init t) es) \<and>
   ct_justified es (foldl ct_step (nfs_conntrack_init t) es)"
proof (induction es rule: rev_induct)
  case Nil
  have "ct_justified [] (nfs_conntrack_init t)" by (simp add: ct_justified_def init_known)
  then show ?case using ct_init_inv [of t] by (simp add: nfs_conntrack_init_def)
next
  case (snoc e es)
  let ?ct = "foldl ct_step (nfs_conntrack_init t) es"
  show ?case
  proof (cases e)
    case (CtPacket pkt now)
    obtain v ct' where p: "nfs_conntrack_process ?ct pkt now = (v, ct')" by fastforce
    then show ?thesis
      using process_inv [OF conjunct1 [OF snoc] p] process_justified(1) [OF conjunct1 [OF snoc] conjunct2 [OF snoc] p]
      by (simp add: CtPacket)
  next
    case (CtExpire now)
    obtain n ct' where p: "nfs_conntrack_expire ?ct now = (n, ct')" by fastforce
    then show ?thesis
      using expire_known(1) [OF conjunct1 [OF snoc] p] expire_justified [OF conjunct1 [OF snoc] conjunct2 [OF snoc] p]
      by (simp add: CtExpire)
  qed
qed

text \<open>
  Firewall safety, with a full table too: after any run, a TCP packet that is not classified
  INVALID belongs to a connection, in one direction or the other, for which a SYN without ACK
  was seen (this packet or an earlier one), and one classified ESTABLISHED to a connection for
  which also a segment with ACK was seen.
\<close>
theorem conntrack_only_opened_connections:
  assumes "fst (nfs_conntrack_process (foldl ct_step (nfs_conntrack_init t) es) pkt now) = v"
    and "pk_protocol pkt = 6" and "v \<noteq> NFS_CT_INVALID"
  shows "saw_syn (es @ [CtPacket pkt now]) (ct_conn (pkt_tuple pkt)) \<and>
    (v = NFS_CT_ESTABLISHED \<longrightarrow> saw_ack (es @ [CtPacket pkt now]) (ct_conn (pkt_tuple pkt)))"
proof -
  obtain ct' where p: "nfs_conntrack_process (foldl ct_step (nfs_conntrack_init t) es) pkt now = (v, ct')"
    using assms(1) by (cases "nfs_conntrack_process (foldl ct_step (nfs_conntrack_init t) es) pkt now") simp
  show ?thesis
    using process_justified(2) [OF conjunct1 [OF run_justified] conjunct2 [OF run_justified] p assms(2,3)] .
qed

lemma conntrack_only_opened_connections_witness:
  "saw_syn [CtPacket (sample_packet False 2) 0] (ct_conn (pkt_tuple (sample_packet False 2)))"
proof -
  have "fst (nfs_conntrack_process (foldl ct_step (nfs_conntrack_init 60) []) (sample_packet False 2) 0) = NFS_CT_NEW"
    by (simp add: sample_new)
  from conntrack_only_opened_connections [OF this] show ?thesis by (simp add: sample_packet_def)
qed

text \<open>
  The state of a TCP entry does not depend on the direction of the acknowledgment: a SYN and an
  ACK of one and the same host make a connection ESTABLISHED, the other side silent.
\<close>

lemma originator_alone_establishes:
  "fst (nfs_conntrack_process (snd (nfs_conntrack_process (nfs_conntrack_init 60) (sample_packet False 2) 0))
     (sample_packet False 0x10) 1) = NFS_CT_ESTABLISHED"
proof -
  obtain v ct w ct' where p: "nfs_conntrack_process (nfs_conntrack_init 60) (sample_packet False 2) 0 = (v, ct)"
    and q: "nfs_conntrack_process ct (sample_packet False 0x10) 1 = (w, ct')" by (metis surj_pair)
  note flags = sample_packet_def pure_syn_def NFS_CT_TCP_SYN_def NFS_CT_TCP_ACK_def NFS_CT_TCP_RST_def
    pkt_tuple_def fresh_entry_def
  note inv = process_inv [OF ct_init_inv p] and known = process_refines(2) [OF ct_init_inv sample_room p]
  have "ct_room ct (sample_packet False 0x10)"
    using known by (simp add: ct_room_def init_known flags)
  from process_refines(1) [OF inv this q] show ?thesis
    using p q known by (simp add: init_known flags)
qed

end
