(* ===== verification/Framing.thy ===== *)
theory Framing
  imports Interfaces
begin

text \<open>
  Framing (\<^verbatim>\<open>phases/01-bits-and-wires/10-framing-byte-stuffing-bit-stuffing/framing.c\<close>): PPP byte
  stuffing, HDLC bit stuffing and COBS. An output buffer of \<open>out_sz\<close> bytes is the list of the
  bytes written so far, or, where bits are set in it, the list of all its bytes; -1 is \<open>None\<close>.
\<close>

section \<open>PPP byte stuffing\<close>

definition NFS_PPP_FLAG :: u8 where "NFS_PPP_FLAG = 0x7E"
definition NFS_PPP_ESCAPE :: u8 where "NFS_PPP_ESCAPE = 0x7D"
definition NFS_PPP_XOR :: u8 where "NFS_PPP_XOR = 0x20"

text \<open>The loop over the payload, with the bytes written so far.\<close>

fun stuff_run :: "nat \<Rightarrow> u8 list \<Rightarrow> u8 list \<Rightarrow> u8 list option" where
  "stuff_run out_sz [] out = Some out"
| "stuff_run out_sz (d # ds) out =
     (if d = NFS_PPP_FLAG \<or> d = NFS_PPP_ESCAPE then
        if length out + 2 > out_sz then None
        else stuff_run out_sz ds (out @ [NFS_PPP_ESCAPE, d XOR NFS_PPP_XOR])
      else if length out + 1 > out_sz then None
      else stuff_run out_sz ds (out @ [d]))"

definition nfs_byte_stuff :: "u8 list \<Rightarrow> nat \<Rightarrow> u8 list option" where
  "nfs_byte_stuff data out_sz =
     (if 0 \<ge> out_sz then None
      else case stuff_run out_sz data [NFS_PPP_FLAG] of
             None \<Rightarrow> None
           | Some out \<Rightarrow> if length out \<ge> out_sz then None else Some (out @ [NFS_PPP_FLAG]))"

text \<open>The loop over the bytes between the two flags.\<close>

fun unstuff_run :: "nat \<Rightarrow> u8 list \<Rightarrow> u8 list \<Rightarrow> u8 list option" where
  "unstuff_run out_sz [] out = Some out"
| "unstuff_run out_sz (f # fs) out =
     (if f = NFS_PPP_FLAG then None
      else if f = NFS_PPP_ESCAPE then
        (case fs of
           [] \<Rightarrow> None
         | g # gs \<Rightarrow> if length out \<ge> out_sz then None else unstuff_run out_sz gs (out @ [g XOR NFS_PPP_XOR]))
      else if length out \<ge> out_sz then None
      else unstuff_run out_sz fs (out @ [f]))"

definition nfs_byte_unstuff :: "u8 list \<Rightarrow> nat \<Rightarrow> u8 list option" where
  "nfs_byte_unstuff frame out_sz =
     (if length frame < 2 then None
      else if frame ! 0 \<noteq> NFS_PPP_FLAG \<or> frame ! (length frame - 1) \<noteq> NFS_PPP_FLAG then None
      else unstuff_run out_sz (take (length frame - 2) (drop 1 frame)) [])"

section \<open>HDLC bit stuffing\<close>

definition get_bit :: "u8 list \<Rightarrow> nat \<Rightarrow> bool" where
  "get_bit data n \<longleftrightarrow> drop_bit (7 - n mod 8) (data ! (n div 8)) AND 1 = 1"

definition put_bit :: "u8 list \<Rightarrow> nat \<Rightarrow> bool \<Rightarrow> u8 list" where
  "put_bit data n v =
     (let byte_idx = n div 8; bit_idx = 7 - n mod 8 in
      if v then data[byte_idx := data ! byte_idx OR push_bit bit_idx 1]
      else data[byte_idx := data ! byte_idx AND NOT (push_bit bit_idx 1)])"

text \<open>
  The loop from bit \<open>i\<close> on, over the \<open>k\<close> bits left, with the buffer, the number of bits written and
  the run of ones.
\<close>

fun bit_stuff_run :: "u8 list \<Rightarrow> nat \<Rightarrow> nat \<Rightarrow> u8 list \<Rightarrow> nat \<Rightarrow> nat \<Rightarrow> u8 list \<times> nat" where
  "bit_stuff_run data i 0 out out_idx ones = (out, out_idx)"
| "bit_stuff_run data i (Suc k) out out_idx ones =
     (let b = get_bit data i; out1 = put_bit out out_idx b in
      if b then
        if ones + 1 = 5 then bit_stuff_run data (i + 1) k (put_bit out1 (out_idx + 1) False) (out_idx + 2) 0
        else bit_stuff_run data (i + 1) k out1 (out_idx + 1) (ones + 1)
      else bit_stuff_run data (i + 1) k out1 (out_idx + 1) 0)"

definition nfs_bit_stuff :: "u8 list \<Rightarrow> nat \<Rightarrow> nat \<Rightarrow> (nat \<times> u8 list) option" where
  "nfs_bit_stuff data nbits out_sz =
     (let max_out_bits = nbits + nbits div 5 + 1 in
      if out_sz < (max_out_bits + 7) div 8 then None
      else let (out, out_idx) = bit_stuff_run data 0 nbits (replicate out_sz 0) 0 0 in Some (out_idx, out))"

fun bit_unstuff_run :: "u8 list \<Rightarrow> nat \<Rightarrow> nat \<Rightarrow> nat \<Rightarrow> u8 list \<Rightarrow> nat \<Rightarrow> nat \<Rightarrow> (nat \<times> u8 list) option" where
  "bit_unstuff_run data i 0 out_sz out out_idx ones = Some (out_idx, out)"
| "bit_unstuff_run data i (Suc k) out_sz out out_idx ones =
     (let b = get_bit data i in
      if ones = 5 then
        if b then None else bit_unstuff_run data (i + 1) k out_sz out out_idx 0
      else if (out_idx + 7) div 8 \<ge> out_sz \<and> out_idx div 8 \<ge> out_sz then None
      else bit_unstuff_run data (i + 1) k out_sz (put_bit out out_idx b) (out_idx + 1) (if b then ones + 1 else 0))"

definition nfs_bit_unstuff :: "u8 list \<Rightarrow> nat \<Rightarrow> nat \<Rightarrow> (nat \<times> u8 list) option" where
  "nfs_bit_unstuff data nbits out_sz = bit_unstuff_run data 0 nbits out_sz (replicate out_sz 0) 0 0"

section \<open>COBS\<close>

text \<open>
  The loop of the encoder. The buffer holds the finished blocks \<open>sofar\<close>, the byte reserved for the distance
  (at \<^verbatim>\<open>code_idx\<close>, the length of \<open>sofar\<close>) and the open block (up to \<^verbatim>\<open>write_idx\<close>).
\<close>

fun cobs_run :: "nat \<Rightarrow> u8 list \<Rightarrow> u8 list \<Rightarrow> u8 list \<Rightarrow> u8 \<Rightarrow> u8 list option" where
  "cobs_run out_sz [] sofar block code = (if length sofar \<ge> out_sz then None else Some (sofar @ code # block))"
| "cobs_run out_sz (d # ds) sofar block code =
     (let code_idx = length sofar; write_idx = length sofar + 1 + length block in
      if d = 0x00 then
        if code_idx \<ge> out_sz \<or> write_idx > out_sz then None
        else cobs_run out_sz ds (sofar @ code # block) [] 1
      else if write_idx \<ge> out_sz then None
      else if code + 1 = 0xFF then cobs_run out_sz ds (sofar @ (code + 1) # block @ [d]) [] 1
      else cobs_run out_sz ds sofar (block @ [d]) (code + 1))"

definition nfs_cobs_encode :: "u8 list \<Rightarrow> nat \<Rightarrow> u8 list option" where
  "nfs_cobs_encode data out_sz = (if out_sz < length data + 1 then None else cobs_run out_sz data [] [] 1)"

text \<open>The inner loop of the decoder: copy \<open>k\<close> bytes.\<close>

fun cobs_copy :: "nat \<Rightarrow> nat \<Rightarrow> u8 list \<Rightarrow> u8 list \<Rightarrow> (u8 list \<times> u8 list) option" where
  "cobs_copy out_sz 0 data out = Some (data, out)"
| "cobs_copy out_sz (Suc k) [] out = None"
| "cobs_copy out_sz (Suc k) (d # ds) out =
     (if length out \<ge> out_sz then None else if d = 0x00 then None else cobs_copy out_sz k ds (out @ [d]))"

lemma cobs_copy_length: "cobs_copy n k data out = Some (rest, out') \<Longrightarrow> length rest \<le> length data"
  by (induction n k data out rule: cobs_copy.induct) (auto split: if_splits)

function cobs_decode_run :: "nat \<Rightarrow> u8 list \<Rightarrow> u8 list \<Rightarrow> u8 list option" where
  "cobs_decode_run out_sz [] out = Some out"
| "cobs_decode_run out_sz (code # data) out =
     (if code = 0 then None
      else case cobs_copy out_sz (unat code - 1) data out of
             None \<Rightarrow> None
           | Some (rest, out1) \<Rightarrow>
               if code < 0xFF \<and> rest \<noteq> [] then
                 if length out1 \<ge> out_sz then None else cobs_decode_run out_sz rest (out1 @ [0x00])
               else cobs_decode_run out_sz rest out1)"
  by pat_completeness auto
termination cobs_decode_run
  by (relation "measure (\<lambda>(n, data, out). length data)") (auto dest: cobs_copy_length simp: less_Suc_eq_le)

definition nfs_cobs_decode :: "u8 list \<Rightarrow> nat \<Rightarrow> u8 list option" where
  "nfs_cobs_decode data out_sz = (if data = [] then Some [] else cobs_decode_run out_sz data [])"

section \<open>Byte stuffing is transparent\<close>

text \<open>The escaped payload, without a bound on the buffer.\<close>

fun escaped :: "u8 list \<Rightarrow> u8 list" where
  "escaped [] = []"
| "escaped (d # ds) =
     (if d = NFS_PPP_FLAG \<or> d = NFS_PPP_ESCAPE then NFS_PPP_ESCAPE # (d XOR NFS_PPP_XOR) # escaped ds else d # escaped ds)"

lemma stuff_run_escaped:
  "stuff_run n ds out = (if length out + length (escaped ds) \<le> n \<or> ds = [] then Some (out @ escaped ds) else None)"
proof (induction ds arbitrary: out)
  case (Cons d ds)
  have "escaped ds = [] \<longleftrightarrow> ds = []" by (cases ds) auto
  then show ?case using Cons by auto
qed simp

lemma byte_stuff_eq:
  "nfs_byte_stuff ds n = (if length (escaped ds) + 2 \<le> n then Some (NFS_PPP_FLAG # escaped ds @ [NFS_PPP_FLAG]) else None)"
  by (auto simp: nfs_byte_stuff_def stuff_run_escaped)

lemma escape_neq: "NFS_PPP_ESCAPE \<noteq> NFS_PPP_FLAG" "NFS_PPP_FLAG XOR NFS_PPP_XOR \<noteq> NFS_PPP_FLAG"
  "NFS_PPP_ESCAPE XOR NFS_PPP_XOR \<noteq> NFS_PPP_FLAG"
  by (simp_all add: NFS_PPP_ESCAPE_def NFS_PPP_FLAG_def NFS_PPP_XOR_def)

lemma escaped_no_flag: "NFS_PPP_FLAG \<notin> set (escaped ds)"
  using escape_neq by (induction ds) auto

lemma xor_xor_cancel: "(d XOR x) XOR x = (d :: u8)"
  by (simp add: xor.assoc)

lemma unstuff_run_escaped:
  "unstuff_run n (escaped ds) out = (if length out + length ds \<le> n \<or> ds = [] then Some (out @ ds) else None)"
proof (induction ds arbitrary: out)
  case (Cons d ds)
  then show ?case
    using escape_neq by (cases "d = NFS_PPP_FLAG \<or> d = NFS_PPP_ESCAPE") (auto simp: xor_xor_cancel)
qed simp

lemma byte_unstuff_frame:
  "nfs_byte_unstuff (NFS_PPP_FLAG # body @ [NFS_PPP_FLAG]) n = unstuff_run n body []"
  by (simp add: nfs_byte_unstuff_def nth_append)

text \<open>
  PPP framing is transparent: whatever the payload, a frame has a flag byte at its two ends
  and nowhere else, building it fails only for lack of room (a byte per payload byte, one more
  per escaped one, and the flags), and unstuffing it gives the payload back, or the
  error when the caller's buffer is too small for it.
\<close>
theorem byte_stuff_transparent:
  "(nfs_byte_stuff ds n = None \<longleftrightarrow>
      n < length ds + length (filter (\<lambda>d. d = NFS_PPP_FLAG \<or> d = NFS_PPP_ESCAPE) ds) + 2) \<and>
   (\<forall>frame. nfs_byte_stuff ds n = Some frame \<longrightarrow>
      (\<exists>body. frame = NFS_PPP_FLAG # body @ [NFS_PPP_FLAG] \<and> NFS_PPP_FLAG \<notin> set body) \<and>
      nfs_byte_unstuff frame m = (if length ds \<le> m then Some ds else None))"
proof -
  have "length (escaped ds) = length ds + length (filter (\<lambda>d. d = NFS_PPP_FLAG \<or> d = NFS_PPP_ESCAPE) ds)"
    by (induction ds) auto
  then show ?thesis
    using escaped_no_flag [of ds] by (auto simp: byte_stuff_eq byte_unstuff_frame unstuff_run_escaped)
qed

lemma byte_stuff_transparent_witness:
  "nfs_byte_unstuff (the (nfs_byte_stuff [0x7E, 1, 0x7D] 16)) 3 = Some [0x7E, 1, 0x7D]"
  using byte_stuff_transparent [of "[0x7E, 1, 0x7D]" 16 3]
  by (auto simp: NFS_PPP_FLAG_def NFS_PPP_ESCAPE_def)

section \<open>COBS\<close>

lemma cobs_copy_block:
  "0 \<notin> set bl \<Longrightarrow> length acc + length bl \<le> m \<Longrightarrow> cobs_copy m (length bl) (bl @ rest) acc = Some (rest, acc @ bl)"
  by (induction bl arbitrary: acc) auto

text \<open>
  From any point of the encoder: what it still writes contains no zero and decodes to the
  open block followed by the data to come.
\<close>

lemma cobs_run_decodes:
  assumes "cobs_run n ds sofar block code = Some out"
    and "0 \<notin> set block" and "length block < 254" and "unat code = Suc (length block)"
  shows "\<exists>t. out = sofar @ t \<and> t \<noteq> [] \<and> 0 \<notin> set t \<and>
    (\<forall>m acc. length acc + length block + length ds \<le> m \<longrightarrow>
      cobs_decode_run m t acc = Some (acc @ block @ ds))"
  using assms
proof (induction ds arbitrary: sofar block code)
  case Nil
  have c: "code \<noteq> 0" "unat code - 1 = length block" using Nil.prems(4) by auto
  show ?case
    using Nil.prems(1,2) c cobs_copy_block [OF Nil.prems(2), where rest = "[]"]
    by (intro exI [of _ "code # block"]) (auto split: if_splits)
next
  case (Cons d ds)
  have code: "code \<noteq> 0" "unat code - 1 = length block" "code < 0xFF"
    using Cons.prems(3,4) by (auto simp: word_less_nat_alt)
  have next_code: "unat (code + 1) = Suc (unat code)" "code + 1 = 0xFF \<longleftrightarrow> length block = 253"
  proof -
    show u: "unat (code + 1) = Suc (unat code)" using Cons.prems(3,4) by (simp add: unat_word_ariths)
    show "code + 1 = 0xFF \<longleftrightarrow> length block = 253"
      unfolding word_unat_eq_iff u using Cons.prems(4) by simp
  qed
  consider (zero) "d = 0" | (full) "d \<noteq> 0" "length block = 253" | (more) "d \<noteq> 0" "length block \<noteq> 253" by blast
  then show ?case
  proof cases
    case zero
    then have "cobs_run n ds (sofar @ code # block) [] 1 = Some out"
      using Cons.prems(1) by (auto simp: Let_def split: if_splits)
    from Cons.IH [OF this] obtain t where t: "out = (sofar @ code # block) @ t" "t \<noteq> []" "0 \<notin> set t"
        "\<And>m acc. length acc + length ds \<le> m \<Longrightarrow> cobs_decode_run m t acc = Some (acc @ ds)"
      by auto
    show ?thesis
      using t zero code cobs_copy_block [OF Cons.prems(2), where rest = t] Cons.prems(2)
      by (intro exI [of _ "code # block @ t"]) auto
  next
    case full
    then have "cobs_run n ds (sofar @ (code + 1) # block @ [d]) [] 1 = Some out"
      using Cons.prems(1) next_code by (auto simp: Let_def split: if_splits)
    from Cons.IH [OF this] obtain t where t: "out = (sofar @ (code + 1) # block @ [d]) @ t" "t \<noteq> []" "0 \<notin> set t"
        "\<And>m acc. length acc + length ds \<le> m \<Longrightarrow> cobs_decode_run m t acc = Some (acc @ ds)"
      by auto
    have c: "code + 1 = 0xFF" using next_code(2) full by simp
    have "0 \<notin> set (block @ [d])" "length (block @ [d]) = 254" using Cons.prems(2) full by auto
    from cobs_copy_block [OF this(1), where rest = t] this(2) show ?thesis
      using t full Cons.prems(2) unfolding c
      by (intro exI [of _ "0xFF # block @ d # t"]) auto
  next
    case more
    then have "cobs_run n ds sofar (block @ [d]) (code + 1) = Some out"
      using Cons.prems(1) next_code by (auto simp: Let_def split: if_splits)
    from Cons.IH [OF this] show ?thesis
      using more Cons.prems next_code by auto
  qed
qed

lemma cobs_run_room:
  assumes "length sofar + 1 + length block + length ds + (length block + length ds) div 254 \<le> n"
    and "length block < 254" and "unat code = Suc (length block)"
  shows "\<exists>out. cobs_run n ds sofar block code = Some out"
  using assms
proof (induction ds arbitrary: sofar block code)
  case (Cons d ds)
  have next_code: "unat (code + 1) = Suc (unat code)" "code + 1 = 0xFF \<longleftrightarrow> length block = 253"
  proof -
    show u: "unat (code + 1) = Suc (unat code)" using Cons.prems(2,3) by (simp add: unat_word_ariths)
    show "code + 1 = 0xFF \<longleftrightarrow> length block = 253"
      unfolding word_unat_eq_iff u using Cons.prems(3) by simp
  qed
  consider (zero) "d = 0" | (full) "d \<noteq> 0" "length block = 253" | (more) "d \<noteq> 0" "length block \<noteq> 253" by blast
  then show ?case
  proof cases
    case zero
    have "length ds div 254 \<le> (length block + length (d # ds)) div 254" by (rule div_le_mono) simp
    then have "\<exists>out. cobs_run n ds (sofar @ code # block) [] 1 = Some out"
      using Cons.prems by (intro Cons.IH) simp_all
    then show ?thesis using Cons.prems(1) zero by (simp add: Let_def)
  next
    case full
    have "(length block + length (d # ds)) div 254 = Suc (length ds div 254)" using full by simp
    then have "\<exists>out. cobs_run n ds (sofar @ (code + 1) # block @ [d]) [] 1 = Some out"
      using Cons.prems full by (intro Cons.IH) simp_all
    then show ?thesis using Cons.prems(1) full next_code by (simp add: Let_def)
  next
    case more
    then have "\<exists>out. cobs_run n ds sofar (block @ [d]) (code + 1) = Some out"
      using Cons.prems next_code by (intro Cons.IH) simp_all
    then show ?thesis using Cons.prems(1) more next_code by (simp add: Let_def)
  qed
qed simp

lemma cobs_encode_decodes:
  assumes "nfs_cobs_encode ds n = Some out"
  shows "0 \<notin> set out" and "length ds \<le> m \<Longrightarrow> nfs_cobs_decode out m = Some ds"
proof -
  have "cobs_run n ds [] [] 1 = Some out" using assms by (simp add: nfs_cobs_encode_def split: if_splits)
  from cobs_run_decodes [OF this] have o: "out \<noteq> []" "0 \<notin> set out"
      "\<And>m. length ds \<le> m \<Longrightarrow> cobs_decode_run m out [] = Some ds"
    by auto
  then show "0 \<notin> set out" "length ds \<le> m \<Longrightarrow> nfs_cobs_decode out m = Some ds"
    by (simp_all add: nfs_cobs_decode_def)
qed

lemma cobs_run_length:
  "cobs_run n ds sofar block code = Some out \<Longrightarrow> length sofar + 1 + length block + length ds \<le> length out"
proof (induction ds arbitrary: sofar block code)
  case (Cons d ds)
  then show ?case by (auto simp: Let_def split: if_splits dest: Cons.IH)
qed (auto split: if_splits)

text \<open>The buffer size that suffices for every message of that length.\<close>

definition cobs_size :: "u8 list \<Rightarrow> nat" where
  "cobs_size ds = length ds + length ds div 254 + 1"

lemma cobs_encode_room: "\<exists>out. nfs_cobs_encode ds (cobs_size ds) = Some out"
  using cobs_run_room [of "[]" "[]" ds "cobs_size ds" 1] by (simp add: nfs_cobs_encode_def cobs_size_def)

interpretation cobs: delimited_codec "\<lambda>ds. the (nfs_cobs_encode ds (cobs_size ds))"
  "\<lambda>f. nfs_cobs_decode f (length f)" "\<lambda>ds. True" "0 :: u8"
proof
  fix ds :: "u8 list"
  obtain out where out: "nfs_cobs_encode ds (cobs_size ds) = Some out" using cobs_encode_room by blast
  then have "length ds \<le> length out"
    by (auto simp: nfs_cobs_encode_def dest!: cobs_run_length split: if_splits)
  then show "nfs_cobs_decode (the (nfs_cobs_encode ds (cobs_size ds))) (length (the (nfs_cobs_encode ds (cobs_size ds)))) = Some ds"
    using cobs_encode_decodes(2) [OF out] out by simp
  show "0 \<notin> set (the (nfs_cobs_encode ds (cobs_size ds)))"
    using cobs_encode_decodes(1) [OF out] out by simp
qed

text \<open>
  COBS delimits streams: messages that are encoded one by one and sent with a zero byte after
  each are recovered, all and in order, by cutting the stream at the zeros and decoding; and
  a buffer of one byte more than the message, plus one per 254 bytes of it, always suffices.
\<close>
theorem cobs_stream_roundtrip:
  "map (\<lambda>f. nfs_cobs_decode f (length f))
     (cut_at 0 [] (concat (map (\<lambda>m. the (nfs_cobs_encode m (length m + length m div 254 + 1)) @ [0]) ms))) =
     map Some ms \<and>
   nfs_cobs_encode m (length m + length m div 254 + 1) \<noteq> None"
  using cobs.stream_decodes [of ms] cobs_encode_room [of m] by (simp add: list_all_iff cobs_size_def)

section \<open>Bit stuffing\<close>

lemma get_bit_iff: "get_bit data n \<longleftrightarrow> bit (data ! (n div 8)) (7 - n mod 8)"
  by (simp add: get_bit_def bit_iff_odd_drop_bit and_one_eq odd_iff_mod_2_eq_one)

lemma length_put_bit [simp]: "length (put_bit data n v) = length data"
  by (simp add: put_bit_def Let_def)

lemma get_put_bit:
  assumes "n < 8 * length data"
  shows "get_bit (put_bit data n v) m = (if m = n then v else get_bit data m)"
proof -
  have n: "n div 8 < length data" using assms by auto
  have eq: "m = n" if "m div 8 = n div 8" "7 - n mod 8 = 7 - m mod 8"
  proof -
    have "n mod 8 < 8" "m mod 8 < 8" by simp_all
    then have "n mod 8 = m mod 8" using that(2) by linarith
    with that(1) show "m = n" by (metis div_mult_mod_eq)
  qed
  have b: "bit ((2 :: u8) ^ (7 - n mod 8)) j \<longleftrightarrow> j = 7 - n mod 8" for j
    by (auto simp: bit_exp_iff possible_bit_word)
  show ?thesis
    using n eq
    by (cases "m div 8 = n div 8")
      (auto simp: get_bit_iff put_bit_def Let_def bit_or_iff bit_and_iff bit_not_iff b)
qed

abbreviation first_bits :: "u8 list \<Rightarrow> nat \<Rightarrow> bool list" where
  "first_bits data n \<equiv> map (get_bit data) [0..<n]"

lemma first_bits_put: "n < 8 * length data \<Longrightarrow> first_bits (put_bit data n v) (Suc n) = first_bits data n @ [v]"
  by (simp add: get_put_bit)

text \<open>The two loops on lists of bits.\<close>

fun stuff_bits :: "nat \<Rightarrow> bool list \<Rightarrow> bool list" where
  "stuff_bits ones [] = []"
| "stuff_bits ones (b # bs) =
     (if b then if ones + 1 = 5 then True # False # stuff_bits 0 bs else True # stuff_bits (ones + 1) bs
      else False # stuff_bits 0 bs)"

fun unstuff_bits :: "nat \<Rightarrow> bool list \<Rightarrow> bool list option" where
  "unstuff_bits ones [] = Some []"
| "unstuff_bits ones (b # bs) =
     (if ones = 5 then if b then None else unstuff_bits 0 bs
      else map_option (Cons b) (unstuff_bits (if b then ones + 1 else 0) bs))"

lemma unstuff_stuff_bits: "ones < 5 \<Longrightarrow> unstuff_bits ones (stuff_bits ones bs) = Some bs"
  by (induction ones bs rule: stuff_bits.induct) auto

lemma length_stuff_bits: "ones < 5 \<Longrightarrow> length (stuff_bits ones bs) \<le> length bs + (ones + length bs) div 5"
proof (induction ones bs rule: stuff_bits.induct)
  case (2 ones b bs)
  have "(0 + length bs) div 5 \<le> (ones + length (b # bs)) div 5" by (rule div_le_mono) simp
  moreover have "ones + 1 = 5 \<Longrightarrow> (ones + length (b # bs)) div 5 = Suc (length bs div 5)" by simp
  moreover have "(ones + 1 + length bs) div 5 = (ones + length (b # bs)) div 5" by simp
  ultimately show ?case using 2 by (auto simp del: div_le_mono)
qed simp

text \<open>No run of six ones, so that the flag 01111110 cannot appear.\<close>

fun ones_ok :: "nat \<Rightarrow> bool list \<Rightarrow> bool" where
  "ones_ok c [] = True"
| "ones_ok c (b # bs) = (if b then c < 5 \<and> ones_ok (c + 1) bs else ones_ok 0 bs)"

lemma stuff_bits_ok: "ones < 5 \<Longrightarrow> ones_ok ones (stuff_bits ones bs)"
  by (induction ones bs rule: stuff_bits.induct) auto

lemma ones_ok_no_six: "ones_ok c bs \<Longrightarrow> bs \<noteq> pre @ replicate 6 True @ post"
proof (induction pre arbitrary: c bs)
  case Nil
  have "replicate 6 True = [True, True, True, True, True, True]" by (simp add: numeral_eq_Suc)
  then show ?case using Nil by auto
next
  case (Cons b pre)
  show ?case
  proof
    assume bs: "bs = (b # pre) @ replicate 6 True @ post"
    then have "\<exists>c'. ones_ok c' (pre @ replicate 6 True @ post)" using Cons.prems by (auto split: if_splits)
    with Cons.IH show False by blast
  qed
qed

lemma bit_stuff_run_eq:
  assumes "idx + length (stuff_bits ones (map (get_bit data) [i..<i + k])) \<le> 8 * length out"
    and "bit_stuff_run data i k out idx ones = (out', idx')"
  shows "length out' = length out \<and>
    first_bits out' idx' = first_bits out idx @ stuff_bits ones (map (get_bit data) [i..<i + k])"
  using assms
proof (induction data i k out idx ones rule: bit_stuff_run.induct)
  case (2 data i k out idx ones)
  let ?b = "get_bit data i"
  have u: "map (get_bit data) [i..<i + Suc k] = ?b # map (get_bit data) [i + 1..<i + 1 + k]"
    by (simp add: upt_rec)
  have put: "idx < 8 * length out" using 2(4) unfolding u by (auto split: if_splits)
  note fb = first_bits_put [OF put]
  show ?case
  proof (cases ?b)
    case False
    then show ?thesis using 2(3,4,5) fb [of False] unfolding u by (simp add: Let_def)
  next
    case True
    show ?thesis
    proof (cases "ones + 1 = 5")
      case five: True
      have "Suc idx < 8 * length (put_bit out idx True)" using 2(4) True five unfolding u by simp
      from first_bits_put [OF this, of False] show ?thesis
        using 2(1,4,5) fb [of True] True five unfolding u by (simp add: Let_def)
    next
      case False
      then show ?thesis using 2(2,4,5) fb [of True] True unfolding u by (simp add: Let_def)
    qed
  qed
qed simp

lemma bits_Cons: "map f [i..<i + Suc k] = f i # map f [i + 1..<i + 1 + k]"
  by (simp add: upt_rec)

lemma bit_unstuff_run_Some:
  assumes "unstuff_bits ones (map (get_bit data) [i..<i + k]) = Some r"
    and "r = [] \<or> idx + length r \<le> 8 * length out"
  shows "\<exists>out'. bit_unstuff_run data i k (length out) out idx ones = Some (idx + length r, out') \<and>
    first_bits out' (idx + length r) = first_bits out idx @ r"
  using assms
proof (induction k arbitrary: i out idx ones r)
  case (Suc k)
  show ?case
  proof (cases "ones = 5")
    case True
    then have "unstuff_bits 0 (map (get_bit data) [i + 1..<i + 1 + k]) = Some r" "\<not> get_bit data i"
      using Suc.prems(1) unfolding bits_Cons by (auto split: if_splits)
    with Suc.IH [OF this(1) Suc.prems(2)] True show ?thesis by simp
  next
    case False
    then obtain r' where r': "unstuff_bits (if get_bit data i then ones + 1 else 0) (map (get_bit data) [i + 1..<i + 1 + k]) = Some r'"
        "r = get_bit data i # r'"
      using Suc.prems(1) unfolding bits_Cons by auto
    have put: "idx < 8 * length out" using Suc.prems(2) r'(2) by simp
    then have c: "\<not> ((idx + 7) div 8 \<ge> length out \<and> idx div 8 \<ge> length out)" by auto
    let ?out = "put_bit out idx (get_bit data i)"
    have "r' = [] \<or> (idx + 1) + length r' \<le> 8 * length ?out" using Suc.prems(2) r'(2) by simp
    from Suc.IH [OF r'(1) this] obtain out' where
      o: "bit_unstuff_run data (i + 1) k (length out) ?out (idx + 1) (if get_bit data i then ones + 1 else 0) =
          Some (idx + length r, out')" "first_bits out' (idx + length r) = first_bits ?out (Suc idx) @ r'"
      by (auto simp: r'(2))
    have "bit_unstuff_run data i (Suc k) (length out) out idx ones = Some (idx + length r, out')"
      unfolding bit_unstuff_run.simps Let_def using False c o(1) by simp
    moreover have "first_bits out' (idx + length r) = first_bits out idx @ r"
      unfolding o(2) first_bits_put [OF put] by (simp add: r'(2))
    ultimately show ?thesis by blast
  qed
qed simp

lemma bit_unstuff_run_None:
  assumes "unstuff_bits ones (map (get_bit data) [i..<i + k]) = Some r"
    and "r \<noteq> []" and "8 * length out < idx + length r"
  shows "bit_unstuff_run data i k (length out) out idx ones = None"
  using assms
proof (induction k arbitrary: i out idx ones r)
  case (Suc k)
  show ?case
  proof (cases "ones = 5")
    case True
    then have "unstuff_bits 0 (map (get_bit data) [i + 1..<i + 1 + k]) = Some r" "\<not> get_bit data i"
      using Suc.prems(1) unfolding bits_Cons by (auto split: if_splits)
    with Suc.IH [OF this(1) Suc.prems(2,3)] True show ?thesis by simp
  next
    case False
    then obtain r' where r': "unstuff_bits (if get_bit data i then ones + 1 else 0) (map (get_bit data) [i + 1..<i + 1 + k]) = Some r'"
        "r = get_bit data i # r'"
      using Suc.prems(1) unfolding bits_Cons by auto
    let ?out = "put_bit out idx (get_bit data i)"
    show ?thesis
    proof (cases "idx < 8 * length out")
      case True
      then have "r' \<noteq> []" "8 * length ?out < (idx + 1) + length r'" using Suc.prems(3) r'(2) by auto
      from Suc.IH [OF r'(1) this] show ?thesis using False by (simp add: Let_def)
    next
      case full: False
      then have "(idx + 7) div 8 \<ge> length out \<and> idx div 8 \<ge> length out" by auto
      then show ?thesis using False by (simp add: Let_def)
    qed
  qed
qed simp

text \<open>
  HDLC bit stuffing is transparent: whatever the bits, the output never has six ones in a row
  (so no flag appears in it), unstuffing it gives the bits back if the caller's buffer can
  hold them and the error otherwise, and stuffing fails only when the buffer is
  smaller than the worst case.
\<close>
theorem bit_stuff_transparent:
  "(nfs_bit_stuff data nbits n = None \<longleftrightarrow> 8 * n < nbits + nbits div 5 + 1) \<and>
   (\<forall>m out. nfs_bit_stuff data nbits n = Some (m, out) \<longrightarrow>
      (\<forall>pre post. map (get_bit out) [0..<m] \<noteq> pre @ replicate 6 True @ post) \<and>
      (case nfs_bit_unstuff out m k of
         None \<Rightarrow> 8 * k < nbits
       | Some (r, out2) \<Rightarrow> r = nbits \<and> (\<forall>i < nbits. get_bit out2 i = get_bit data i)))"
proof -
  have iff: "nfs_bit_stuff data nbits n = None \<longleftrightarrow> 8 * n < nbits + nbits div 5 + 1"
    unfolding nfs_bit_stuff_def Let_def by (simp split: prod.split) linarith
  moreover have "(\<forall>pre post. map (get_bit out) [0..<m] \<noteq> pre @ replicate 6 True @ post) \<and>
      (case nfs_bit_unstuff out m k of
         None \<Rightarrow> 8 * k < nbits
       | Some (r, out2) \<Rightarrow> r = nbits \<and> (\<forall>i < nbits. get_bit out2 i = get_bit data i))"
    if s: "nfs_bit_stuff data nbits n = Some (m, out)" for m out
  proof -
    let ?st = "stuff_bits 0 (first_bits data nbits)"
    have "nbits + nbits div 5 + 1 \<le> 8 * n" using iff s by auto
    then have room: "0 + length (stuff_bits 0 (map (get_bit data) [0..<0 + nbits])) \<le> 8 * length (replicate n (0 :: u8))"
      using length_stuff_bits [of 0 "first_bits data nbits"] by simp
    have "bit_stuff_run data 0 nbits (replicate n 0) 0 0 = (out, m)"
      using s by (simp add: nfs_bit_stuff_def Let_def split: if_splits prod.splits)
    from bit_stuff_run_eq [OF room this] have st: "first_bits out m = ?st" by simp
    have six: "\<forall>pre post. first_bits out m \<noteq> pre @ replicate 6 True @ post"
      unfolding st using ones_ok_no_six [OF stuff_bits_ok] by simp
    have un: "unstuff_bits 0 (map (get_bit out) [0..<0 + m]) = Some (first_bits data nbits)"
      using unstuff_stuff_bits [of 0 "first_bits data nbits"] st by simp
    have "case nfs_bit_unstuff out m k of
         None \<Rightarrow> 8 * k < nbits
       | Some (r, out2) \<Rightarrow> r = nbits \<and> (\<forall>i < nbits. get_bit out2 i = get_bit data i)"
    proof (cases "nbits = 0 \<or> nbits \<le> 8 * k")
      case True
      then have "first_bits data nbits = [] \<or> 0 + length (first_bits data nbits) \<le> 8 * length (replicate k (0 :: u8))"
        by auto
      from bit_unstuff_run_Some [OF un this] obtain out2 where
        "nfs_bit_unstuff out m k = Some (nbits, out2)" "first_bits out2 nbits = first_bits data nbits"
        by (auto simp: nfs_bit_unstuff_def)
      then show ?thesis by (auto simp: list_eq_iff_nth_eq)
    next
      case False
      then have "first_bits data nbits \<noteq> []" "8 * length (replicate k (0 :: u8)) < 0 + length (first_bits data nbits)"
        by auto
      from bit_unstuff_run_None [OF un this] show ?thesis using False by (simp add: nfs_bit_unstuff_def)
    qed
    with six show ?thesis by blast
  qed
  ultimately show ?thesis by blast
qed

lemma bit_stuff_transparent_witness:
  "\<exists>m out. nfs_bit_stuff [0xFF, 0xFE] 16 3 = Some (m, out) \<and>
    (\<forall>pre post. map (get_bit out) [0..<m] \<noteq> pre @ replicate 6 True @ post)"
proof -
  note t = bit_stuff_transparent [of "[0xFF, 0xFE]" 16 3 2]
  then obtain m out where "nfs_bit_stuff [0xFF, 0xFE] 16 3 = Some (m, out)" by auto
  with t show ?thesis by blast
qed

end
