(* ===== verification/Crc.thy ===== *)
theory Crc
  imports Prelude
begin

text \<open>
  CRC-8, CRC-16/CCITT and CRC-32, driven by tables of 256 entries
  (\<^verbatim>\<open>phases/01-bits-and-wires/08-errors-and-crcs-crc-81632/crc.c\<close>). The tables are the lists the
  \<open>init_table\<close> functions compute; the flags that compute them once are not modelled. The
  theory relates them to shift registers fed bit by bit, and shows which errors they detect.
\<close>

section \<open>Definitions\<close>

definition NFS_CRC8_POLY :: u8 where "NFS_CRC8_POLY = 0x07"
definition NFS_CRC16_POLY :: u16 where "NFS_CRC16_POLY = 0x1021"
definition NFS_CRC32_POLY_REFLECTED :: u32 where "NFS_CRC32_POLY_REFLECTED = 0xEDB88320"

text \<open>The body of the loop over the bits of an entry.\<close>

definition crc8_bit :: "u8 \<Rightarrow> u8" where
  "crc8_bit crc = (if crc AND 0x80 \<noteq> 0 then push_bit 1 crc XOR NFS_CRC8_POLY else push_bit 1 crc)"

definition crc16_bit :: "u16 \<Rightarrow> u16" where
  "crc16_bit crc = (if crc AND 0x8000 \<noteq> 0 then push_bit 1 crc XOR NFS_CRC16_POLY else push_bit 1 crc)"

definition crc32_bit :: "u32 \<Rightarrow> u32" where
  "crc32_bit crc = (if crc AND 1 \<noteq> 0 then drop_bit 1 crc XOR NFS_CRC32_POLY_REFLECTED else drop_bit 1 crc)"

definition nfs_crc8_init_table :: "u8 list" where
  "nfs_crc8_init_table = map (\<lambda>i. (crc8_bit ^^ 8) (of_nat i)) [0..<256]"

definition nfs_crc16_init_table :: "u16 list" where
  "nfs_crc16_init_table = map (\<lambda>i. (crc16_bit ^^ 8) (push_bit 8 (of_nat i))) [0..<256]"

definition nfs_crc32_init_table :: "u32 list" where
  "nfs_crc32_init_table = map (\<lambda>i. (crc32_bit ^^ 8) (of_nat i)) [0..<256]"

definition nfs_crc8 :: "u8 list \<Rightarrow> u8" where
  "nfs_crc8 data = foldl (\<lambda>crc d. nfs_crc8_init_table ! unat (crc XOR d)) 0 data"

definition nfs_crc16 :: "u8 list \<Rightarrow> u16" where
  "nfs_crc16 data =
     foldl (\<lambda>crc d. let idx = (ucast (drop_bit 8 crc XOR ucast d) :: u8)
                    in push_bit 8 crc XOR nfs_crc16_init_table ! unat idx) 0xFFFF data"

definition nfs_crc32 :: "u8 list \<Rightarrow> u32" where
  "nfs_crc32 data =
     foldl (\<lambda>crc d. let idx = (ucast ((crc XOR ucast d) AND 0xFF) :: u8)
                    in drop_bit 8 crc XOR nfs_crc32_init_table ! unat idx) 0xFFFFFFFF data XOR 0xFFFFFFFF"

section \<open>Shift registers\<close>

text \<open>
  A register that shifts by one and adds the polynomial when the bit that leaves it is set;
  \<open>serial\<close> is the register that takes in a message bit at each shift.
\<close>

locale lfsr =
  fixes step :: "'a::len word \<Rightarrow> 'a word" and leaves :: "'a word \<Rightarrow> bool"
    and shift :: "'a word \<Rightarrow> 'a word" and poly :: "'a word"
    and serial :: "'a word \<Rightarrow> bool \<Rightarrow> 'a word"
  assumes step: "step s = (if leaves s then shift s XOR poly else shift s)"
    and serial: "serial s c = (if leaves s \<noteq> c then shift s XOR poly else shift s)"
    and shift_xor: "shift (a XOR b) = shift a XOR shift b"
    and leaves_xor: "leaves (a XOR b) \<longleftrightarrow> leaves a \<noteq> leaves b"
    and no_loss: "step s = 0 \<Longrightarrow> s = 0"
begin

lemma step_xor: "step (a XOR b) = step a XOR step b"
proof -
  have "p XOR (q XOR p) = q" "p XOR (p XOR q) = q" for p q :: "'a word"
    by (rule bit_word_eqI; auto simp: bit_xor_iff)+
  then show ?thesis by (simp add: step shift_xor leaves_xor ac_simps)
qed

lemma steps_xor: "(step ^^ n) (a XOR b) = (step ^^ n) a XOR (step ^^ n) b"
  by (induction n) (simp_all add: step_xor)

lemma steps_0: "(step ^^ n) s = 0 \<Longrightarrow> s = 0"
  by (induction n) (auto dest: no_loss)

lemma steps_inj: "(step ^^ n) a = (step ^^ n) b \<Longrightarrow> a = b"
proof -
  assume "(step ^^ n) a = (step ^^ n) b"
  then have "a XOR b = 0" using steps_0 [of n "a XOR b"] by (simp add: steps_xor)
  then have "bit (a XOR b) j = False" for j by simp
  then show "a = b" by (intro bit_word_eqI) (auto simp: bit_xor_iff)
qed

text \<open>Loading the message bits at once, or one at each shift.\<close>

lemma feed:
  "(step ^^ n) (s XOR x) =
     foldl serial s (map (\<lambda>j. leaves ((shift ^^ j) x)) [0..<n]) XOR (shift ^^ n) x"
proof (induction n arbitrary: s x)
  case (Suc n)
  have one: "step (s XOR x) = serial s (leaves x) XOR shift x"
    by (simp add: step serial shift_xor leaves_xor ac_simps)
  have "(step ^^ Suc n) (s XOR x) = (step ^^ n) (serial s (leaves x) XOR shift x)"
    by (simp add: funpow_Suc_right one del: funpow.simps)
  also have "\<dots> = foldl serial (serial s (leaves x)) (map (\<lambda>j. leaves ((shift ^^ j) (shift x))) [0..<n])
      XOR (shift ^^ n) (shift x)"
    by (rule Suc.IH)
  also have "map (\<lambda>j. leaves ((shift ^^ j) (shift x))) [0..<n] = map (\<lambda>j. leaves ((shift ^^ j) x)) [1..<Suc n]"
    by (simp add: map_Suc_upt [symmetric] funpow_Suc_right comp_def del: funpow.simps upt_Suc)
  also have "foldl serial (serial s (leaves x)) (map (\<lambda>j. leaves ((shift ^^ j) x)) [1..<Suc n]) =
      foldl serial s (map (\<lambda>j. leaves ((shift ^^ j) x)) [0..<Suc n])"
    by (simp add: upt_conv_Cons del: upt_Suc)
  finally show ?case by (simp add: funpow_Suc_right del: funpow.simps upt_Suc)
qed simp

lemma serial_zeros: "foldl serial 0 (replicate n False) = 0"
proof -
  have "shift 0 = 0" using shift_xor [of 0 0] by simp
  moreover have "\<not> leaves 0" using leaves_xor [of 0 0] by simp
  ultimately have "serial 0 False = 0" by (simp add: serial)
  then show ?thesis by (induction n) simp_all
qed

lemma steps_shift: "\<forall>j < n. \<not> leaves ((shift ^^ j) x) \<Longrightarrow> (step ^^ n) x = (shift ^^ n) x"
proof -
  assume "\<forall>j < n. \<not> leaves ((shift ^^ j) x)"
  then have "map (\<lambda>j. leaves ((shift ^^ j) x)) [0..<n] = replicate n False"
    by (simp add: list_eq_iff_nth_eq)
  then show "(step ^^ n) x = (shift ^^ n) x" using feed [of n 0 x] serial_zeros by simp
qed

end

text \<open>The reference: the register takes in the bits of the message one by one.\<close>

definition serial8 :: "u8 \<Rightarrow> bool \<Rightarrow> u8" where
  "serial8 s c = (if bit s 7 \<noteq> c then push_bit 1 s XOR NFS_CRC8_POLY else push_bit 1 s)"

definition serial16 :: "u16 \<Rightarrow> bool \<Rightarrow> u16" where
  "serial16 s c = (if bit s 15 \<noteq> c then push_bit 1 s XOR NFS_CRC16_POLY else push_bit 1 s)"

definition serial32 :: "u32 \<Rightarrow> bool \<Rightarrow> u32" where
  "serial32 s c = (if bit s 0 \<noteq> c then drop_bit 1 s XOR NFS_CRC32_POLY_REFLECTED else drop_bit 1 s)"

definition bits_msb_first :: "u8 \<Rightarrow> bool list" where
  "bits_msb_first b = map (\<lambda>j. bit b (7 - j)) [0..<8]"

definition bits_lsb_first :: "u8 \<Rightarrow> bool list" where
  "bits_lsb_first b = map (bit b) [0..<8]"

lemma crc8_top: "crc AND 0x80 \<noteq> 0 \<longleftrightarrow> bit (crc :: u8) 7"
  using and_exp_eq_0_iff_not_bit [of crc 7] by simp

lemma crc16_top: "crc AND 0x8000 \<noteq> 0 \<longleftrightarrow> bit (crc :: u16) 15"
  using and_exp_eq_0_iff_not_bit [of crc 15] by simp

lemma crc32_low: "crc AND 1 \<noteq> 0 \<longleftrightarrow> bit (crc :: u32) 0"
  using and_exp_eq_0_iff_not_bit [of crc 0] by simp

lemma funpow_push_bit: "(push_bit 1 ^^ j) x = push_bit j (x :: 'a::len word)"
proof (induction j)
  case (Suc j)
  show ?case unfolding funpow.simps comp_apply Suc push_bit_push_bit by simp
qed simp

lemma funpow_drop_bit: "(drop_bit 1 ^^ j) x = drop_bit j (x :: 'a::len word)"
proof (induction j)
  case (Suc j)
  show ?case unfolding funpow.simps comp_apply Suc drop_bit_drop_bit by simp
qed simp

lemma bit_push_1: "bit (push_bit 1 s) n \<longleftrightarrow> 0 < n \<and> n < LENGTH('a) \<and> bit (s :: 'a::len word) (n - 1)"
  by (auto simp only: bit_push_bit_iff possible_bit_word)

lemma bit_drop_1: "bit (drop_bit 1 s) n \<longleftrightarrow> bit (s :: 'a::len word) (Suc n)"
  by (simp only: bit_drop_bit_eq comp_apply) simp

text \<open>A polynomial that sets the bit the shift has emptied lets no two registers collide.\<close>

lemma left_no_loss:
  fixes s :: "'a::len word"
  assumes "(if bit s (LENGTH('a) - 1) then push_bit 1 s XOR poly else push_bit 1 s) = 0" and "bit poly 0"
  shows "s = 0"
proof -
  let ?t = "if bit s (LENGTH('a) - 1) then push_bit 1 s XOR poly else push_bit 1 s"
  have "bit ?t 0 \<longleftrightarrow> bit s (LENGTH('a) - 1)" using assms(2) by (simp only: bit_xor_iff bit_push_1 split: if_split) simp
  then have top: "\<not> bit s (LENGTH('a) - 1)" unfolding assms(1) by simp
  then have z: "push_bit 1 s = 0" using assms(1) by (simp only: if_False)
  show "s = 0"
  proof (rule bit_word_eqI)
    fix n assume n: "n < LENGTH('a)"
    have "\<not> bit (push_bit 1 s) (Suc n)" unfolding z by simp
    then show "bit s n \<longleftrightarrow> bit (0 :: 'a word) n"
      using n top unfolding bit_push_1 by (cases "n = LENGTH('a) - 1") auto
  qed
qed

lemma right_no_loss:
  fixes s :: "'a::len word"
  assumes "(if bit s 0 then drop_bit 1 s XOR poly else drop_bit 1 s) = 0" and "bit poly (LENGTH('a) - 1)"
  shows "s = 0"
proof -
  let ?t = "if bit s 0 then drop_bit 1 s XOR poly else drop_bit 1 s"
  have over: "\<not> bit s (LENGTH('a))" by (simp add: bit_word.rep_eq)
  then have "bit ?t (LENGTH('a) - 1) \<longleftrightarrow> bit s 0" using assms(2) by (simp only: bit_xor_iff bit_drop_1 split: if_split) simp
  then have low: "\<not> bit s 0" unfolding assms(1) by simp
  then have z: "drop_bit 1 s = 0" using assms(1) by (simp only: if_False)
  show "s = 0"
  proof (rule bit_word_eqI)
    fix n
    show "bit s n \<longleftrightarrow> bit (0 :: 'a word) n"
    proof (cases n)
      case (Suc m)
      have "\<not> bit (drop_bit 1 s) m" unfolding z by simp
      then show ?thesis unfolding bit_drop_1 Suc by simp
    qed (use low in simp)
  qed
qed

interpretation crc8: lfsr crc8_bit "\<lambda>s. bit s 7" "push_bit 1" NFS_CRC8_POLY serial8
proof
  fix s :: u8
  show b: "crc8_bit s = (if bit s 7 then push_bit 1 s XOR NFS_CRC8_POLY else push_bit 1 s)"
    by (simp only: crc8_bit_def crc8_top)
  have "bit NFS_CRC8_POLY 0" by (simp add: NFS_CRC8_POLY_def)
  then show "crc8_bit s = 0 \<Longrightarrow> s = 0" unfolding b using left_no_loss [of s NFS_CRC8_POLY] by simp
qed (simp_all only: serial8_def bit_xor_iff push_bit_xor)

interpretation crc16: lfsr crc16_bit "\<lambda>s. bit s 15" "push_bit 1" NFS_CRC16_POLY serial16
proof
  fix s :: u16
  show b: "crc16_bit s = (if bit s 15 then push_bit 1 s XOR NFS_CRC16_POLY else push_bit 1 s)"
    by (simp only: crc16_bit_def crc16_top)
  have "bit NFS_CRC16_POLY 0" by (simp add: NFS_CRC16_POLY_def)
  then show "crc16_bit s = 0 \<Longrightarrow> s = 0" unfolding b using left_no_loss [of s NFS_CRC16_POLY] by simp
qed (simp_all only: serial16_def bit_xor_iff push_bit_xor)

interpretation crc32: lfsr crc32_bit "\<lambda>s. bit s 0" "drop_bit 1" NFS_CRC32_POLY_REFLECTED serial32
proof
  fix s :: u32
  show b: "crc32_bit s = (if bit s 0 then drop_bit 1 s XOR NFS_CRC32_POLY_REFLECTED else drop_bit 1 s)"
    by (simp only: crc32_bit_def crc32_low)
  have "bit NFS_CRC32_POLY_REFLECTED 31" by (simp add: NFS_CRC32_POLY_REFLECTED_def)
  then show "crc32_bit s = 0 \<Longrightarrow> s = 0" unfolding b using right_no_loss [of s NFS_CRC32_POLY_REFLECTED] by simp
qed (simp_all only: serial32_def bit_xor_iff drop_bit_xor)

section \<open>The tables do what the registers do\<close>

lemma table_nth:
  "nfs_crc8_init_table ! unat i = (crc8_bit ^^ 8) i"
  "nfs_crc16_init_table ! unat i = (crc16_bit ^^ 8) (push_bit 8 (ucast i))"
  "nfs_crc32_init_table ! unat i = (crc32_bit ^^ 8) (ucast i)"
proof -
  have "unat i < 256" using unat_u8_less [of i] by simp
  moreover have "of_nat (unat i) = (ucast i :: 'a::len word)" by (simp add: unsigned_def)
  ultimately show "nfs_crc8_init_table ! unat i = (crc8_bit ^^ 8) i"
    "nfs_crc16_init_table ! unat i = (crc16_bit ^^ 8) (push_bit 8 (ucast i))"
    "nfs_crc32_init_table ! unat i = (crc32_bit ^^ 8) (ucast i)"
    by (simp_all add: nfs_crc8_init_table_def nfs_crc16_init_table_def nfs_crc32_init_table_def)
qed

definition crc8_byte :: "u8 \<Rightarrow> u8 \<Rightarrow> u8" where "crc8_byte s b = (crc8_bit ^^ 8) (s XOR b)"
definition crc16_byte :: "u16 \<Rightarrow> u8 \<Rightarrow> u16" where "crc16_byte s b = (crc16_bit ^^ 8) (s XOR push_bit 8 (ucast b))"
definition crc32_byte :: "u32 \<Rightarrow> u8 \<Rightarrow> u32" where "crc32_byte s b = (crc32_bit ^^ 8) (s XOR ucast b)"

lemma crc16_shift: "(\<And>j. 8 \<le> j \<Longrightarrow> \<not> bit x j) \<Longrightarrow> (crc16_bit ^^ 8) x = push_bit 8 (x :: u16)"
  by (rule crc16.steps_shift [unfolded funpow_push_bit]) (auto simp: bit_push_bit_iff)

lemma crc32_shift: "(\<And>j. j < 8 \<Longrightarrow> \<not> bit x j) \<Longrightarrow> (crc32_bit ^^ 8) x = drop_bit 8 (x :: u32)"
  by (rule crc32.steps_shift [unfolded funpow_drop_bit]) (auto simp: bit_drop_bit_eq)

lemma crc8_eq: "nfs_crc8 data = foldl crc8_byte 0 data"
  by (simp add: nfs_crc8_def table_nth crc8_byte_def [abs_def])

lemma crc16_table_step:
  "push_bit 8 s XOR nfs_crc16_init_table ! unat (ucast (drop_bit 8 s XOR ucast d) :: u8) = crc16_byte s d"
proof -
  let ?lo = "take_bit 8 s" and ?hi = "push_bit 8 (ucast (ucast (drop_bit 8 s XOR ucast d) :: u8)) :: u16"
  have split: "s XOR push_bit 8 (ucast d) = ?lo XOR ?hi"
    by (rule bit_word_eqI) (auto simp: bit_xor_iff bit_take_bit_iff bit_push_bit_iff bit_ucast_iff bit_drop_bit_eq possible_bit_word)
  have "(crc16_bit ^^ 8) ?lo = push_bit 8 ?lo" by (rule crc16_shift) (simp add: bit_take_bit_iff)
  also have "\<dots> = push_bit 8 s"
    by (rule bit_word_eqI) (auto simp: bit_take_bit_iff bit_push_bit_iff possible_bit_word)
  finally show ?thesis by (simp only: crc16_byte_def split crc16.steps_xor table_nth)
qed

lemma low_byte: "ucast (x AND 0xFF) = (ucast x :: u8)" for x :: u32
proof (rule bit_word_eqI)
  fix n assume n: "n < LENGTH(8)"
  have "bit (0xFF :: u32) n" using n bit_mask_iff [of 8 n, where 'a = "32 word"] by (simp add: mask_eq_exp_minus_1)
  then show "bit (ucast (x AND 0xFF) :: u8) n \<longleftrightarrow> bit (ucast x :: u8) n" using n by (simp add: bit_ucast_iff bit_and_iff)
qed

lemma crc32_table_step:
  "drop_bit 8 s XOR nfs_crc32_init_table ! unat (ucast ((s XOR ucast d) AND 0xFF) :: u8) = crc32_byte s d"
proof -
  let ?hi = "push_bit 8 (drop_bit 8 s)" and ?lo = "ucast (ucast (s XOR ucast d) :: u8) :: u32"
  have split: "s XOR ucast d = ?hi XOR ?lo"
  proof (rule bit_word_eqI)
    fix n assume n: "n < LENGTH(32)"
    have "\<not> bit d n" if "8 \<le> n" using that bit_imp_le_length [of d n] by auto
    then show "bit (s XOR ucast d) n \<longleftrightarrow> bit (?hi XOR ?lo) n"
      using n by (cases "n < 8") (auto simp: bit_xor_iff bit_ucast_iff bit_push_bit_iff bit_drop_bit_eq)
  qed
  have "(crc32_bit ^^ 8) ?hi = drop_bit 8 ?hi" by (rule crc32_shift) (simp add: bit_push_bit_iff)
  also have "\<dots> = drop_bit 8 s"
  proof (rule bit_word_eqI)
    fix n assume "n < LENGTH(32)"
    show "bit (drop_bit 8 ?hi) n \<longleftrightarrow> bit (drop_bit 8 s) n"
      using bit_imp_le_length [of s "8 + n"] by (auto simp: bit_drop_bit_eq bit_push_bit_iff)
  qed
  finally have "drop_bit 8 s XOR nfs_crc32_init_table ! unat (ucast (s XOR ucast d) :: u8) = (crc32_bit ^^ 8) (?hi XOR ?lo)"
    by (simp only: crc32.steps_xor table_nth)
  then show ?thesis by (simp only: crc32_byte_def low_byte split [symmetric])
qed

lemma crc16_eq: "nfs_crc16 data = foldl crc16_byte 0xFFFF data"
  by (simp add: nfs_crc16_def Let_def crc16_table_step)

lemma crc32_eq: "nfs_crc32 data = foldl crc32_byte 0xFFFFFFFF data XOR 0xFFFFFFFF"
  by (simp add: nfs_crc32_def Let_def crc32_table_step)

lemma crc8_byte_serial: "crc8_byte s b = foldl serial8 s (bits_msb_first b)"
proof -
  have "push_bit 8 b = 0" by (rule bit_word_eqI) (simp add: bit_push_bit_iff possible_bit_word)
  moreover have "map (\<lambda>j. bit (push_bit j b) 7) [0..<8] = bits_msb_first b"
    unfolding bits_msb_first_def by (rule map_cong) (auto simp: bit_push_bit_iff possible_bit_word)
  ultimately show ?thesis
    using crc8.feed [of 8 s b, unfolded funpow_push_bit] by (simp add: crc8_byte_def)
qed

lemma crc16_byte_serial: "crc16_byte s b = foldl serial16 s (bits_msb_first b)"
proof -
  let ?x = "push_bit 8 (ucast b) :: u16"
  have "push_bit 8 ?x = 0"
    by (rule bit_word_eqI) (auto simp: bit_push_bit_iff possible_bit_word)
  moreover have "map (\<lambda>j. bit (push_bit j ?x) 15) [0..<8] = bits_msb_first b"
    unfolding bits_msb_first_def by (rule map_cong) (auto simp: bit_push_bit_iff possible_bit_word bit_ucast_iff)
  ultimately show ?thesis
    using crc16.feed [of 8 s ?x, unfolded funpow_push_bit] by (simp add: crc16_byte_def)
qed

lemma crc32_byte_serial: "crc32_byte s b = foldl serial32 s (bits_lsb_first b)"
proof -
  let ?x = "ucast b :: u32"
  have "drop_bit 8 ?x = 0"
    by (rule bit_word_eqI) (auto simp: bit_drop_bit_eq bit_ucast_iff dest: bit_imp_le_length)
  moreover have "map (\<lambda>j. bit (drop_bit j ?x) 0) [0..<8] = bits_lsb_first b"
    unfolding bits_lsb_first_def by (rule map_cong) (auto simp: bit_drop_bit_eq bit_ucast_iff)
  ultimately show ?thesis
    using crc32.feed [of 8 s ?x, unfolded funpow_drop_bit] by (simp add: crc32_byte_def)
qed

lemma foldl_bytes:
  "(\<And>s b. byte s b = foldl serial s (bits b)) \<Longrightarrow> foldl byte s bs = foldl serial s (concat (map bits bs))"
  by (induction bs arbitrary: s) simp_all

text \<open>
  The table-driven loops compute the CRCs: over every message, each gives what the shift register
  with its polynomial holds after taking in the message bit by bit (most significant bit first
  for CRC-8 and CRC-16, least significant first for CRC-32), from its initial value and with
  the final complement of CRC-32.
\<close>
theorem crc_tables_match_bit_serial:
  "nfs_crc8 data = foldl serial8 0 (concat (map bits_msb_first data)) \<and>
   nfs_crc16 data = foldl serial16 0xFFFF (concat (map bits_msb_first data)) \<and>
   nfs_crc32 data = NOT (foldl serial32 0xFFFFFFFF (concat (map bits_lsb_first data)))"
proof -
  have "x XOR 0xFFFFFFFF = NOT x" for x :: u32
  proof -
    have "(0xFFFFFFFF :: u32) = -1" by simp
    then show ?thesis by (simp only:) (rule bit_word_eqI, simp add: bit_xor_iff bit_not_iff)
  qed
  then show ?thesis
    by (simp add: crc8_eq crc16_eq crc32_eq foldl_bytes [of crc8_byte serial8, OF crc8_byte_serial]
        foldl_bytes [of crc16_byte serial16, OF crc16_byte_serial] foldl_bytes [of crc32_byte serial32, OF crc32_byte_serial])
qed


section \<open>Bursts are detected\<close>

text \<open>
  A register fed byte by byte: \<open>load\<close> gathers the bytes that reach it before the first has been
  shifted out, \<open>k\<close> at most.
\<close>

locale byte_register =
  fixes byte :: "'a::len word \<Rightarrow> u8 \<Rightarrow> 'a word" and step8 :: "'a word \<Rightarrow> 'a word"
    and place :: "u8 \<Rightarrow> 'a word" and carry :: "'a word \<Rightarrow> 'a word" and load :: "u8 list \<Rightarrow> 'a word" and k :: nat
  assumes byte: "byte s b = step8 (s XOR place b)"
    and step8_xor: "step8 (s XOR t) = step8 s XOR step8 t"
    and step8_inj: "step8 s = step8 t \<Longrightarrow> s = t"
    and load_Nil: "load [] = 0" and load_Cons: "load (b # bs) = place b XOR carry (load bs)"
    and carry: "length bs < k \<Longrightarrow> step8 (carry (load bs)) = load bs"
    and load_inj: "length bs = length cs \<Longrightarrow> length bs \<le> k \<Longrightarrow> load bs = load cs \<Longrightarrow> bs = cs"
begin

lemma foldl_load: "length bs \<le> k \<Longrightarrow> foldl byte s bs = (step8 ^^ length bs) (s XOR load bs)"
proof (induction bs arbitrary: s)
  case (Cons b bs)
  have "foldl byte s (b # bs) = foldl byte (step8 (s XOR place b)) bs" by (simp only: foldl.simps byte)
  also have "\<dots> = (step8 ^^ length bs) (step8 (s XOR place b) XOR load bs)"
    using Cons.IH Cons.prems by simp
  also have "load bs = step8 (carry (load bs))" using Cons.prems carry [of bs] by simp
  also have "step8 (s XOR place b) XOR step8 (carry (load bs)) = step8 (s XOR load (b # bs))"
    by (simp add: step8_xor [symmetric] load_Cons ac_simps)
  finally show ?case by (simp add: funpow_Suc_right del: funpow.simps)
qed (simp add: load_Nil)

lemma steps8_inj: "(step8 ^^ n) a = (step8 ^^ n) b \<Longrightarrow> a = b"
  by (induction n) (auto dest: step8_inj)

lemma xor_cancel_left: "s XOR a = s XOR b \<Longrightarrow> a = (b :: 'a word)"
proof -
  assume "s XOR a = s XOR b"
  then have "bit (s XOR a) n = bit (s XOR b) n" for n by simp
  then show "a = b" by (intro bit_word_eqI) (auto simp: bit_xor_iff)
qed

lemma foldl_tail_inj: "foldl byte s bs = foldl byte t bs \<Longrightarrow> s = t"
proof (induction bs arbitrary: s t)
  case (Cons b bs)
  then have "step8 (s XOR place b) = step8 (t XOR place b)" by (simp add: byte)
  then have "place b XOR s = place b XOR t" by (simp add: ac_simps step8_inj)
  then show ?case by (rule xor_cancel_left)
qed simp

lemma burst_detected:
  assumes "length mid = length mid'" and "length mid \<le> k" and "mid \<noteq> mid'"
  shows "foldl byte s (pre @ mid @ post) \<noteq> foldl byte s (pre @ mid' @ post)"
proof
  assume "foldl byte s (pre @ mid @ post) = foldl byte s (pre @ mid' @ post)"
  then have "foldl byte (foldl byte s pre) mid = foldl byte (foldl byte s pre) mid'"
    by (simp add: foldl_tail_inj)
  then have "(step8 ^^ length mid) (foldl byte s pre XOR load mid) = (step8 ^^ length mid) (foldl byte s pre XOR load mid')"
    using foldl_load [of mid "foldl byte s pre"] foldl_load [of mid' "foldl byte s pre"] assms(1,2) by simp
  then have "load mid = load mid'" by (rule xor_cancel_left [OF steps8_inj])
  then show False using load_inj [OF assms(1,2)] assms(3) by blast
qed

end

definition gather :: "(u8 \<Rightarrow> 'a::len word) \<Rightarrow> ('a word \<Rightarrow> 'a word) \<Rightarrow> u8 list \<Rightarrow> 'a word" where
  "gather place carry bs = foldr (\<lambda>b x. place b XOR carry x) bs 0"

lemma gather_simps [simp]:
  "gather place carry [] = 0"
  "gather place carry (b # bs) = place b XOR carry (gather place carry bs)"
  by (simp_all add: gather_def)

lemma bit_u8_high: "8 \<le> n \<Longrightarrow> \<not> bit (b :: u8) n"
  using bit_imp_le_length [of b n] by auto

lemma u8_eqI: "(\<And>n. n < 8 \<Longrightarrow> bit a n \<longleftrightarrow> bit b n) \<Longrightarrow> a = (b :: u8)"
  by (rule bit_word_eqI) simp

text \<open>
  A register fed bit by bit: at most as many bits as it is wide can be loaded into it at once, and
  the shifts push them all out again.
\<close>

locale bit_register = lfsr step leaves shift poly serial
  for step :: "'a::len word \<Rightarrow> 'a word" and leaves shift poly serial +
  fixes load :: "bool list \<Rightarrow> 'a word"
  assumes load_leaves: "length cs \<le> LENGTH('a) \<Longrightarrow> j < length cs \<Longrightarrow> leaves ((shift ^^ j) (load cs)) = cs ! j"
    and load_out: "length cs \<le> LENGTH('a) \<Longrightarrow> (shift ^^ length cs) (load cs) = 0"
begin

lemma serial_load: "length cs \<le> LENGTH('a) \<Longrightarrow> foldl serial s cs = (step ^^ length cs) (s XOR load cs)"
proof -
  assume le: "length cs \<le> LENGTH('a)"
  then have "map (\<lambda>j. leaves ((shift ^^ j) (load cs))) [0..<length cs] = cs"
    by (intro nth_equalityI) (simp_all add: load_leaves)
  then show ?thesis using feed [of "length cs" s "load cs"] load_out [OF le] by simp
qed

lemma xor_left_cancel: "s XOR a = s XOR b \<Longrightarrow> a = (b :: 'a word)"
proof -
  assume "s XOR a = s XOR b"
  then have "bit (s XOR a) n = bit (s XOR b) n" for n by simp
  then show "a = b" by (intro bit_word_eqI) (auto simp: bit_xor_iff)
qed

lemma serial_inj: "foldl serial s cs = foldl serial t cs \<Longrightarrow> s = t"
proof (induction cs arbitrary: s t)
  case (Cons c cs)
  have "foldl serial s [c] = foldl serial t [c]" using Cons.IH Cons.prems by simp
  then have "(step ^^ 1) (s XOR load [c]) = (step ^^ 1) (t XOR load [c])"
    using serial_load [of "[c]"] by (simp add: Suc_le_eq)
  then have "load [c] XOR s = load [c] XOR t" by (metis steps_inj xor.commute)
  then show ?case by (rule xor_left_cancel)
qed simp

lemma bit_burst_detected:
  assumes "length mid = length mid'" and "length mid \<le> LENGTH('a)" and "mid \<noteq> mid'"
  shows "foldl serial s (pre @ mid @ post) \<noteq> foldl serial s (pre @ mid' @ post)"
proof
  let ?s = "foldl serial s pre"
  assume "foldl serial s (pre @ mid @ post) = foldl serial s (pre @ mid' @ post)"
  then have "foldl serial ?s mid = foldl serial ?s mid'" by (simp add: serial_inj)
  then have "(step ^^ length mid) (?s XOR load mid) = (step ^^ length mid) (?s XOR load mid')"
    using serial_load assms(1,2) by simp
  then have "load mid = load mid'" by (rule xor_left_cancel [OF steps_inj])
  moreover have "mid ! j = mid' ! j" if "j < length mid" for j
    using load_leaves [of mid j] load_leaves [of mid' j] that assms(1,2) calculation by simp
  ultimately show False using assms(1,3) nth_equalityI by blast
qed

end

text \<open>The first bit goes where the shift takes it from: to the top, or to the bottom.\<close>

definition load_top :: "bool list \<Rightarrow> 'a::len word" where
  "load_top cs = push_bit (LENGTH('a) - length cs) (horner_sum of_bool 2 (rev cs))"

definition load_low :: "bool list \<Rightarrow> 'a::len word" where
  "load_low cs = horner_sum of_bool 2 cs"

lemma load_top_bits:
  assumes "length cs \<le> LENGTH('a)"
  shows "j < length cs \<Longrightarrow> bit (push_bit j (load_top cs :: 'a::len word)) (LENGTH('a) - 1) = cs ! j"
    and "push_bit (length cs) (load_top cs :: 'a::len word) = 0"
proof -
  have top: "bit (load_top cs :: 'a word) n \<longleftrightarrow> n < LENGTH('a) \<and> LENGTH('a) - length cs \<le> n \<and> cs ! (LENGTH('a) - 1 - n)" for n
    using assms
    by (auto simp: load_top_def bit_push_bit_iff bit_horner_sum_bit_word_iff rev_nth possible_bit_word not_le
        intro!: arg_cong [of _ _ "nth cs"])
  show "bit (push_bit j (load_top cs :: 'a word)) (LENGTH('a) - 1) = cs ! j" if "j < length cs"
    using that assms by (simp add: bit_push_bit_iff possible_bit_word top Suc_le_eq diff_le_mono2)
  show "push_bit (length cs) (load_top cs :: 'a word) = 0"
    by (rule bit_word_eqI) (auto simp: bit_push_bit_iff top)
qed

lemma load_low_bits:
  assumes "length cs \<le> LENGTH('a)"
  shows "j < length cs \<Longrightarrow> bit (drop_bit j (load_low cs :: 'a::len word)) 0 = cs ! j"
    and "drop_bit (length cs) (load_low cs :: 'a::len word) = 0"
proof -
  show "bit (drop_bit j (load_low cs :: 'a word)) 0 = cs ! j" if "j < length cs"
    using that assms by (simp add: load_low_def bit_drop_bit_eq bit_horner_sum_bit_word_iff)
  show "drop_bit (length cs) (load_low cs :: 'a word) = 0"
    by (rule bit_word_eqI) (simp add: load_low_def bit_drop_bit_eq bit_horner_sum_bit_word_iff)
qed

interpretation bits8: bit_register crc8_bit "\<lambda>s. bit s 7" "push_bit 1" NFS_CRC8_POLY serial8 load_top
  by unfold_locales (use load_top_bits [where 'a = 8] in \<open>simp_all add: funpow_push_bit del: One_nat_def\<close>)

interpretation bits16: bit_register crc16_bit "\<lambda>s. bit s 15" "push_bit 1" NFS_CRC16_POLY serial16 load_top
  by unfold_locales (use load_top_bits [where 'a = 16] in \<open>simp_all add: funpow_push_bit del: One_nat_def\<close>)

interpretation bits32: bit_register crc32_bit "\<lambda>s. bit s 0" "drop_bit 1" NFS_CRC32_POLY_REFLECTED serial32 load_low
  by unfold_locales (use load_low_bits [where 'a = 32] in \<open>simp_all add: funpow_drop_bit del: One_nat_def\<close>)

text \<open>
  C40. Every error burst no longer than the CRC is detected: two messages whose bits, in the order the
  CRC takes them, differ only within one stretch of at most 8 bits (CRC-8), 16 bits (CRC-16) or
  32 bits (CRC-32) never have the same CRC, wherever the stretch begins, inside a byte or at its
  edge, and whatever surrounds it.
\<close>
theorem crc_detects_bursts:
  assumes "length mid = length mid'" and "mid \<noteq> mid'"
  shows "(concat (map bits_msb_first data) = pre @ mid @ post \<and> concat (map bits_msb_first data') = pre @ mid' @ post \<longrightarrow>
      (length mid \<le> 8 \<longrightarrow> nfs_crc8 data \<noteq> nfs_crc8 data') \<and> (length mid \<le> 16 \<longrightarrow> nfs_crc16 data \<noteq> nfs_crc16 data')) \<and>
    (concat (map bits_lsb_first data) = pre @ mid @ post \<and> concat (map bits_lsb_first data') = pre @ mid' @ post \<longrightarrow>
      length mid \<le> 32 \<longrightarrow> nfs_crc32 data \<noteq> nfs_crc32 data')"
proof -
  note regs = crc_tables_match_bit_serial [THEN conjunct1] crc_tables_match_bit_serial [THEN conjunct2, THEN conjunct1]
    crc_tables_match_bit_serial [THEN conjunct2, THEN conjunct2]
  note found = bits8.bit_burst_detected [OF assms(1) _ assms(2)] bits16.bit_burst_detected [OF assms(1) _ assms(2)]
    bits32.bit_burst_detected [OF assms(1) _ assms(2)]
  show ?thesis
    by (intro conjI impI; elim conjE; simp only: regs bit.compl_eq_compl_iff; rule found; simp)
qed

lemma crc_detects_bursts_witness:
  "nfs_crc8 [0x12, 0x34, 0x56] \<noteq> nfs_crc8 [0x12, 0x3B, 0xA6]"
proof -
  have b: "concat (map bits_msb_first [0x12, 0x34, 0x56]) =
      (bits_msb_first 0x12 @ [False, False, True, True]) @
      [False, True, False, False, False, True, False, True] @ [False, True, True, False]"
    "concat (map bits_msb_first [0x12, 0x3B, 0xA6]) =
      (bits_msb_first 0x12 @ [False, False, True, True]) @
      [True, False, True, True, True, False, True, False] @ [False, True, True, False]"
    by (simp_all add: bits_msb_first_def upt_conv_Cons bit_iff_odd_drop_bit)
  show ?thesis
    using crc_detects_bursts [of "[False, True, False, False, False, True, False, True]"
        "[True, False, True, True, True, False, True, False]" "[0x12, 0x34, 0x56]"
        "bits_msb_first 0x12 @ [False, False, True, True]" "[False, True, True, False]" "[0x12, 0x3B, 0xA6]",
        OF _ _, THEN conjunct1, THEN mp, OF _ _ conjI, OF _ _ b, THEN conjunct1]
    by (simp only: list.size list.inject) simp
qed

end
