(* ===== verification/Stp.thy ===== *)
theory Stp
  imports Interfaces "HOL-Library.List_Lexorder" "HOL-Library.Product_Lexorder"
begin

text \<open>
  The spanning tree protocol
  (\<^verbatim>\<open>phases/02-link-layer/09-spanning-tree-stp-intuition/stp.c\<close>): bridge identifiers and
  their order, building and parsing of BPDUs, and what a bridge does with a BPDU it receives.
  The theory shows that the comparisons are lexicographic orders, that parsing inverts
  building, what a bridge knows after any run of BPDUs, and that bridges which send each
  other what they know elect one root.
\<close>

section \<open>Definitions\<close>

definition NFS_BPDU_CONFIG_SIZE :: nat where "NFS_BPDU_CONFIG_SIZE = 35"
definition NFS_BPDU_TCN_SIZE :: nat where "NFS_BPDU_TCN_SIZE = 4"
definition NFS_STP_MAX_PORTS :: nat where "NFS_STP_MAX_PORTS = 16"

record nfs_bridge_id =
  br_priority :: u16
  br_mac :: "u8 list"

record nfs_bpdu =
  bp_proto_id :: u16
  bp_version :: u8
  bp_type :: u8
  bp_flags :: u8
  bp_root_id :: nfs_bridge_id
  bp_root_path_cost :: u32
  bp_sender_id :: nfs_bridge_id
  bp_port_id :: u16
  bp_message_age :: u16
  bp_max_age :: u16
  bp_hello_time :: u16
  bp_forward_delay :: u16

datatype stp_state = NFS_STP_DISABLED | NFS_STP_BLOCKING | NFS_STP_LISTENING | NFS_STP_LEARNING | NFS_STP_FORWARDING
datatype stp_role = NFS_STP_ROOT_PORT | NFS_STP_DESIGNATED_PORT | NFS_STP_ALTERNATE_PORT

record nfs_stp_port =
  st_port_id :: u16
  st_state :: stp_state
  st_role :: stp_role
  st_path_cost :: u32
  st_best_bpdu :: nfs_bpdu

record nfs_stp_bridge =
  sb_id :: nfs_bridge_id
  sb_root_id :: nfs_bridge_id
  sb_root_path_cost :: u32
  sb_root_port :: int
  sb_num_ports :: nat
  sb_ports :: "nfs_stp_port list"

text \<open>The sign of \<open>memcmp\<close> over two arrays of the same length.\<close>

fun memcmp :: "u8 list \<Rightarrow> u8 list \<Rightarrow> int" where
  "memcmp (x # xs) (y # ys) = (if x = y then memcmp xs ys else if x < y then -1 else 1)"
| "memcmp _ _ = 0"

definition nfs_bridge_id_cmp :: "nfs_bridge_id \<Rightarrow> nfs_bridge_id \<Rightarrow> int" where
  "nfs_bridge_id_cmp a b =
     (if br_priority a \<noteq> br_priority b then (if br_priority a < br_priority b then -1 else 1)
      else memcmp (br_mac a) (br_mac b))"

definition nfs_bridge_id_pack :: "nfs_bridge_id \<Rightarrow> u8 list" where
  "nfs_bridge_id_pack i = put16 (br_priority i) @ br_mac i"

definition nfs_bridge_id_unpack :: "u8 list \<Rightarrow> nfs_bridge_id" where
  "nfs_bridge_id_unpack data = \<lparr> br_priority = get16 data 0, br_mac = take 6 (drop 2 data) \<rparr>"

definition nfs_bpdu_build :: "nfs_bpdu \<Rightarrow> nat \<Rightarrow> u8 list option" where
  "nfs_bpdu_build b out_sz =
     (if bp_type b = 0x80 then
        (if out_sz < NFS_BPDU_TCN_SIZE then None
         else Some (put16 (bp_proto_id b) @ [bp_version b, bp_type b]))
      else if bp_type b \<noteq> 0x00 then None
      else if out_sz < NFS_BPDU_CONFIG_SIZE then None
      else Some (put16 (bp_proto_id b) @ [bp_version b] @ [bp_type b] @ [bp_flags b]
        @ nfs_bridge_id_pack (bp_root_id b) @ put32 (bp_root_path_cost b)
        @ nfs_bridge_id_pack (bp_sender_id b) @ put16 (bp_port_id b) @ put16 (bp_message_age b)
        @ put16 (bp_max_age b) @ put16 (bp_hello_time b) @ put16 (bp_forward_delay b)))"

definition zero_id :: nfs_bridge_id where
  "zero_id = \<lparr> br_priority = 0, br_mac = replicate 6 0 \<rparr>"

definition nfs_bpdu_parse :: "u8 list \<Rightarrow> nfs_bpdu option" where
  "nfs_bpdu_parse data =
     (if length data < 4 then None
      else if get16 data 0 \<noteq> 0 then None
      else if data ! 2 \<noteq> 0 \<and> data ! 2 \<noteq> 2 then None
      else if data ! 3 \<noteq> 0x00 \<and> data ! 3 \<noteq> 0x80 then None
      else if data ! 3 = 0x80 then
        Some \<lparr> bp_proto_id = get16 data 0, bp_version = data ! 2, bp_type = data ! 3, bp_flags = 0,
          bp_root_id = zero_id, bp_root_path_cost = 0, bp_sender_id = zero_id, bp_port_id = 0,
          bp_message_age = 0, bp_max_age = 0, bp_hello_time = 0, bp_forward_delay = 0 \<rparr>
      else if length data < NFS_BPDU_CONFIG_SIZE then None
      else
        Some \<lparr> bp_proto_id = get16 data 0, bp_version = data ! 2, bp_type = data ! 3, bp_flags = data ! 4,
          bp_root_id = nfs_bridge_id_unpack (drop 5 data), bp_root_path_cost = get32 data 13,
          bp_sender_id = nfs_bridge_id_unpack (drop 17 data), bp_port_id = get16 data 25,
          bp_message_age = get16 data 27, bp_max_age = get16 data 29, bp_hello_time = get16 data 31,
          bp_forward_delay = get16 data 33 \<rparr>)"

definition nfs_bpdu_superior :: "nfs_bpdu \<Rightarrow> nfs_bpdu \<Rightarrow> bool" where
  "nfs_bpdu_superior a b =
     (let cmp = nfs_bridge_id_cmp (bp_root_id a) (bp_root_id b) in
      if cmp < 0 then True
      else if cmp > 0 then False
      else if bp_root_path_cost a < bp_root_path_cost b then True
      else if bp_root_path_cost a > bp_root_path_cost b then False
      else
        let cmp = nfs_bridge_id_cmp (bp_sender_id a) (bp_sender_id b) in
        if cmp < 0 then True
        else if cmp > 0 then False
        else if bp_port_id a < bp_port_id b then True
        else if bp_port_id a > bp_port_id b then False
        else False)"

definition zero_bpdu :: nfs_bpdu where
  "zero_bpdu = \<lparr> bp_proto_id = 0, bp_version = 0, bp_type = 0, bp_flags = 0, bp_root_id = zero_id,
     bp_root_path_cost = 0, bp_sender_id = zero_id, bp_port_id = 0, bp_message_age = 0, bp_max_age = 0,
     bp_hello_time = 0, bp_forward_delay = 0 \<rparr>"

definition nfs_stp_port_init :: "u16 \<Rightarrow> u32 \<Rightarrow> nfs_stp_port" where
  "nfs_stp_port_init port_id path_cost =
     \<lparr> st_port_id = port_id, st_state = NFS_STP_BLOCKING, st_role = NFS_STP_DESIGNATED_PORT,
       st_path_cost = path_cost, st_best_bpdu = zero_bpdu \<rparr>"

definition nfs_stp_path_cost :: "int \<Rightarrow> u32" where
  "nfs_stp_path_cost speed_mbps =
     (if speed_mbps = 10 then 100 else if speed_mbps = 100 then 19
      else if speed_mbps = 1000 then 4 else if speed_mbps = 10000 then 2 else 0)"

definition nfs_stp_bridge_init :: "u16 \<Rightarrow> u8 list \<Rightarrow> nfs_stp_bridge" where
  "nfs_stp_bridge_init priority mac =
     \<lparr> sb_id = \<lparr> br_priority = priority, br_mac = mac \<rparr>, sb_root_id = \<lparr> br_priority = priority, br_mac = mac \<rparr>,
       sb_root_path_cost = 0, sb_root_port = -1, sb_num_ports = 0,
       sb_ports = replicate NFS_STP_MAX_PORTS
         \<lparr> st_port_id = 0, st_state = NFS_STP_DISABLED, st_role = NFS_STP_ROOT_PORT, st_path_cost = 0,
           st_best_bpdu = zero_bpdu \<rparr> \<rparr>"

abbreviation set_port :: "nat \<Rightarrow> (nfs_stp_port \<Rightarrow> nfs_stp_port) \<Rightarrow> nfs_stp_bridge \<Rightarrow> nfs_stp_bridge" where
  "set_port i f br \<equiv> br\<lparr> sb_ports := (sb_ports br)[i := f (sb_ports br ! i)] \<rparr>"

text \<open>The loop that makes every other port designated.\<close>

definition designate_others :: "nat \<Rightarrow> nat \<Rightarrow> nfs_stp_port list \<Rightarrow> nfs_stp_port list" where
  "designate_others n k ps =
     map (\<lambda>(i, p). if i < n \<and> i \<noteq> k then p\<lparr> st_role := NFS_STP_DESIGNATED_PORT \<rparr> else p)
       (enumerate 0 ps)"

definition nfs_stp_process_bpdu :: "nfs_stp_bridge \<Rightarrow> int \<Rightarrow> nfs_bpdu \<Rightarrow> nfs_stp_bridge" where
  "nfs_stp_process_bpdu br port_idx bpdu =
     (if port_idx < 0 \<or> port_idx \<ge> int (sb_num_ports br) then br
      else
        let k = nat port_idx;
            cmp = nfs_bridge_id_cmp (bp_root_id bpdu) (sb_root_id br);
            new_cost = bp_root_path_cost bpdu + st_path_cost (sb_ports br ! k)
        in if cmp < 0 then
             let br = br\<lparr> sb_root_id := bp_root_id bpdu, sb_root_path_cost := new_cost, sb_root_port := port_idx \<rparr>;
                 br = set_port k (\<lambda>p. p\<lparr> st_role := NFS_STP_ROOT_PORT, st_best_bpdu := bpdu \<rparr>) br
             in br\<lparr> sb_ports := designate_others (sb_num_ports br) k (sb_ports br) \<rparr>
           else if cmp = 0 \<and> sb_root_port br = port_idx then
             set_port k (\<lambda>p. p\<lparr> st_best_bpdu := bpdu \<rparr>) (br\<lparr> sb_root_path_cost := new_cost \<rparr>)
           else if cmp = 0 \<and> sb_root_port br \<noteq> -1 then
             (if new_cost < sb_root_path_cost br then
                let br = br\<lparr> sb_root_path_cost := new_cost \<rparr>;
                    br = set_port (nat (sb_root_port br)) (\<lambda>p. p\<lparr> st_role := NFS_STP_DESIGNATED_PORT \<rparr>) br;
                    br = br\<lparr> sb_root_port := port_idx \<rparr>
                in set_port k (\<lambda>p. p\<lparr> st_role := NFS_STP_ROOT_PORT, st_best_bpdu := bpdu \<rparr>) br
              else set_port k (\<lambda>p. p\<lparr> st_role := NFS_STP_ALTERNATE_PORT, st_best_bpdu := bpdu \<rparr>) br)
           else br)"

section \<open>The order of identifiers and BPDUs\<close>

definition bid_ok :: "nfs_bridge_id \<Rightarrow> bool" where
  "bid_ok i \<longleftrightarrow> length (br_mac i) = 6"

definition bid_key :: "nfs_bridge_id \<Rightarrow> u16 \<times> u8 list" where
  "bid_key i = (br_priority i, br_mac i)"

definition bpdu_ok :: "nfs_bpdu \<Rightarrow> bool" where
  "bpdu_ok b \<longleftrightarrow> bid_ok (bp_root_id b) \<and> bid_ok (bp_sender_id b)"

definition bpdu_key :: "nfs_bpdu \<Rightarrow> (u16 \<times> u8 list) \<times> u32 \<times> (u16 \<times> u8 list) \<times> u16" where
  "bpdu_key b = (bid_key (bp_root_id b), bp_root_path_cost b, bid_key (bp_sender_id b), bp_port_id b)"

lemma bid_key_inj: "bid_key a = bid_key b \<longleftrightarrow> a = b"
  by (auto simp: bid_key_def)

lemma memcmp_lex:
  "length xs = length ys \<Longrightarrow> memcmp xs ys = (if xs < ys then -1 else if xs = ys then 0 else 1)"
proof (induction xs ys rule: memcmp.induct)
  case (1 x xs y ys)
  then show ?case by (auto simp: Cons_less_Cons)
qed auto

lemma bridge_id_cmp_key:
  "bid_ok a \<Longrightarrow> bid_ok b \<Longrightarrow>
     nfs_bridge_id_cmp a b = (if bid_key a < bid_key b then -1 else if a = b then 0 else 1)"
  by (auto simp: nfs_bridge_id_cmp_def bid_key_def bid_ok_def memcmp_lex less_prod_def)

lemma bid_key_cases: "bid_key a < bid_key b \<or> a = b \<or> bid_key b < bid_key a"
  using linorder_less_linear [of "bid_key a" "bid_key b"] by (auto simp: bid_key_inj)

lemma bpdu_superior_lex:
  assumes "bpdu_ok a" and "bpdu_ok b"
  shows "nfs_bpdu_superior a b \<longleftrightarrow> bpdu_key a < bpdu_key b"
proof -
  note ok = assms [unfolded bpdu_ok_def]
  have k: "bpdu_key a < bpdu_key b \<longleftrightarrow> bid_key (bp_root_id a) < bid_key (bp_root_id b) \<or>
    bp_root_id a = bp_root_id b \<and> (bp_root_path_cost a < bp_root_path_cost b \<or>
      bp_root_path_cost a = bp_root_path_cost b \<and> (bid_key (bp_sender_id a) < bid_key (bp_sender_id b) \<or>
        bp_sender_id a = bp_sender_id b \<and> bp_port_id a < bp_port_id b))"
    unfolding bpdu_key_def less_prod_simp le_less bid_key_inj by blast
  have r: "nfs_bridge_id_cmp (bp_root_id a) (bp_root_id b) =
      (if bid_key (bp_root_id a) < bid_key (bp_root_id b) then -1 else if bp_root_id a = bp_root_id b then 0 else 1)"
    and s: "nfs_bridge_id_cmp (bp_sender_id a) (bp_sender_id b) =
      (if bid_key (bp_sender_id a) < bid_key (bp_sender_id b) then -1 else if bp_sender_id a = bp_sender_id b then 0 else 1)"
    using ok by (simp_all add: bridge_id_cmp_key)
  show ?thesis
    unfolding nfs_bpdu_superior_def Let_def r s k
    using less_linear [of "bp_root_path_cost a" "bp_root_path_cost b"] less_linear [of "bp_port_id a" "bp_port_id b"]
    by (simp split: if_splits) (metis order_less_irrefl order_less_asym)
qed


section \<open>BPDUs on the wire\<close>

lemma unpack_pack: "bid_ok i \<Longrightarrow> nfs_bridge_id_unpack (nfs_bridge_id_pack i @ rest) = i"
  by (simp add: nfs_bridge_id_unpack_def nfs_bridge_id_pack_def bid_ok_def put16_def get16_def)

lemma length_pack: "bid_ok i \<Longrightarrow> length (nfs_bridge_id_pack i) = 8"
  by (simp add: nfs_bridge_id_pack_def bid_ok_def)

definition bpdu_valid :: "nfs_bpdu \<Rightarrow> bool" where
  "bpdu_valid b \<longleftrightarrow> bpdu_ok b \<and> bp_proto_id b = 0 \<and> (bp_version b = 0 \<or> bp_version b = 2)"

lemma parse_built:
  assumes v: "bpdu_valid b" and b: "nfs_bpdu_build b n = Some bytes"
  shows "nfs_bpdu_parse (bytes @ rest) =
    Some (if bp_type b = 0x80 then zero_bpdu\<lparr> bp_version := bp_version b, bp_type := 0x80 \<rparr> else b)"
proof (cases "bp_type b = 0x80")
  case True
  then have "bytes = put16 0 @ [bp_version b, 0x80]"
    using assms by (simp add: nfs_bpdu_build_def bpdu_valid_def split: if_splits)
  then show ?thesis
    using v True by (auto simp: nfs_bpdu_parse_def bpdu_valid_def zero_bpdu_def nth_append put16_def get16_def)
next
  case False
  then have t: "bp_type b = 0" using b by (simp add: nfs_bpdu_build_def split: if_splits)
  let ?r = "nfs_bridge_id_pack (bp_root_id b)" and ?s = "nfs_bridge_id_pack (bp_sender_id b)"
  have len: "length ?r = 8" "length ?s = 8"
    using v by (simp_all add: length_pack bpdu_valid_def bpdu_ok_def)
  have ids: "nfs_bridge_id_unpack (?r @ y) = bp_root_id b" "nfs_bridge_id_unpack (?s @ y) = bp_sender_id b" for y
    using v by (simp_all add: unpack_pack bpdu_valid_def bpdu_ok_def)
  have bytes: "bytes = put16 0 @ [bp_version b] @ [0] @ [bp_flags b] @ ?r @ put32 (bp_root_path_cost b)
      @ ?s @ put16 (bp_port_id b) @ put16 (bp_message_age b)
      @ put16 (bp_max_age b) @ put16 (bp_hello_time b) @ put16 (bp_forward_delay b)"
    using v b t by (simp add: nfs_bpdu_build_def bpdu_valid_def split: if_splits)
  let ?d = "bytes @ rest"
  have head: "get16 ?d 0 = 0" "?d ! 2 = bp_version b" "?d ! 3 = 0" "?d ! 4 = bp_flags b" "35 \<le> length ?d"
    unfolding bytes by (simp_all add: get_past nth_append put16_def len get16_def be16_def hi8_def lo8_def)
  have root: "nfs_bridge_id_unpack (drop 5 ?d) = bp_root_id b"
    unfolding bytes by (simp add: put16_def ids)
  have sender: "nfs_bridge_id_unpack (drop 17 ?d) = bp_sender_id b"
    unfolding bytes by (simp add: put16_def put32_def len ids)
  have rest: "get32 ?d 13 = bp_root_path_cost b" "get16 ?d 25 = bp_port_id b" "get16 ?d 27 = bp_message_age b"
    "get16 ?d 29 = bp_max_age b" "get16 ?d 31 = bp_hello_time b" "get16 ?d 33 = bp_forward_delay b"
    unfolding bytes by (simp_all add: get_past len)
  show ?thesis
    using v t head unfolding bpdu_valid_def
    by (auto simp: nfs_bpdu_parse_def NFS_BPDU_CONFIG_SIZE_def root sender rest simp del: drop_append intro!: nfs_bpdu.equality)
qed

lemma build_None_iff:
  "nfs_bpdu_build b n = None \<longleftrightarrow>
     (if bp_type b = 0x80 then n < 4 else bp_type b \<noteq> 0 \<or> n < 35)"
  by (simp add: nfs_bpdu_build_def NFS_BPDU_TCN_SIZE_def NFS_BPDU_CONFIG_SIZE_def)

text \<open>
  Building a BPDU and parsing it, whatever follows it in the buffer, gives it back: a
  configuration BPDU with every field, a topology change notification with the fields it
  does not carry cleared. Building fails exactly for another type or a buffer of fewer than 35
  (or 4) bytes.
\<close>
theorem bpdu_build_parse:
  assumes "bpdu_valid b"
  shows "case nfs_bpdu_build b n of
      None \<Rightarrow> (if bp_type b = 0x80 then n < 4 else bp_type b \<noteq> 0 \<or> n < 35)
    | Some bytes \<Rightarrow> nfs_bpdu_parse (bytes @ rest) =
        Some (if bp_type b = 0x80 then zero_bpdu\<lparr> bp_version := bp_version b, bp_type := 0x80 \<rparr> else b)"
  using parse_built [OF assms] build_None_iff [of b n] by (auto split: option.split)

definition sample_bpdu :: nfs_bpdu where
  "sample_bpdu = zero_bpdu\<lparr> bp_version := 2, bp_flags := 1,
     bp_root_id := \<lparr> br_priority = 0x8000, br_mac = [0, 0x11, 0x22, 0x33, 0x44, 0x55] \<rparr>,
     bp_root_path_cost := 42, bp_port_id := 7 \<rparr>"

lemma bpdu_build_parse_witness: "nfs_bpdu_parse (the (nfs_bpdu_build sample_bpdu 64) @ [9]) = Some sample_bpdu"
proof -
  have "bpdu_valid sample_bpdu" "bp_type sample_bpdu = 0" "nfs_bpdu_build sample_bpdu 64 \<noteq> None"
    by (simp_all add: build_None_iff sample_bpdu_def zero_bpdu_def zero_id_def bpdu_valid_def bpdu_ok_def bid_ok_def)
  then show ?thesis using bpdu_build_parse [of sample_bpdu 64 "[9]"] by auto
qed

section \<open>One bridge\<close>

definition bridge_ok :: "nfs_stp_bridge \<Rightarrow> bool" where
  "bridge_ok br \<longleftrightarrow> bid_ok (sb_id br) \<and> bid_ok (sb_root_id br) \<and> sb_num_ports br \<le> length (sb_ports br) \<and>
     -1 \<le> sb_root_port br \<and> sb_root_port br < int (sb_num_ports br) \<and>
     (if sb_root_port br = -1 then sb_root_id br = sb_id br \<and> sb_root_path_cost br = 0
      else bid_key (sb_root_id br) < bid_key (sb_id br))"

text \<open>The root port is the one port with that role, and holds the BPDU the root was learned from.\<close>

definition root_port_ok :: "nfs_stp_bridge \<Rightarrow> bool" where
  "root_port_ok br \<longleftrightarrow> (\<forall>i < sb_num_ports br. let p = sb_ports br ! i in
     (st_role p = NFS_STP_ROOT_PORT \<longleftrightarrow> int i = sb_root_port br) \<and>
     (int i = sb_root_port br \<longrightarrow> bp_root_id (st_best_bpdu p) = sb_root_id br \<and>
        sb_root_path_cost br = bp_root_path_cost (st_best_bpdu p) + st_path_cost p))"

definition fresh_bridge :: "nfs_stp_bridge \<Rightarrow> bool" where
  "fresh_bridge br \<longleftrightarrow> bid_ok (sb_id br) \<and> sb_root_id br = sb_id br \<and> sb_root_path_cost br = 0 \<and>
     sb_root_port br = -1 \<and> sb_num_ports br \<le> length (sb_ports br) \<and>
     (\<forall>i < sb_num_ports br. st_role (sb_ports br ! i) \<noteq> NFS_STP_ROOT_PORT)"

lemma designate_others_nth:
  "i < length ps \<Longrightarrow> designate_others n k ps ! i =
     (if i < n \<and> i \<noteq> k then (ps ! i)\<lparr> st_role := NFS_STP_DESIGNATED_PORT \<rparr> else ps ! i)"
  by (simp add: designate_others_def nth_enumerate_eq)

lemma length_designate_others [simp]: "length (designate_others n k ps) = length ps"
  by (simp add: designate_others_def)

lemma process_root:
  assumes "bid_ok (bp_root_id b)" and "bid_ok (sb_root_id br)"
  shows "sb_root_id (nfs_stp_process_bpdu br p b) =
    (if 0 \<le> p \<and> p < int (sb_num_ports br) \<and> bid_key (bp_root_id b) < bid_key (sb_root_id br)
     then bp_root_id b else sb_root_id br)"
  by (auto simp: nfs_stp_process_bpdu_def Let_def bridge_id_cmp_key [OF assms])

lemma process_same [simp]:
  "sb_id (nfs_stp_process_bpdu br p b) = sb_id br"
  "sb_num_ports (nfs_stp_process_bpdu br p b) = sb_num_ports br"
  "length (sb_ports (nfs_stp_process_bpdu br p b)) = length (sb_ports br)"
  by (simp_all add: nfs_stp_process_bpdu_def Let_def)

text \<open>What a BPDU changes, by the order of the roots.\<close>

lemma process_eq:
  assumes "bid_ok (bp_root_id b)" and "bid_ok (sb_root_id br)" and "k < sb_num_ports br"
  shows "nfs_stp_process_bpdu br (int k) b =
    (let q = sb_ports br ! k; c = bp_root_path_cost b + st_path_cost q in
     if bid_key (bp_root_id b) < bid_key (sb_root_id br) then
       br\<lparr> sb_root_id := bp_root_id b, sb_root_path_cost := c, sb_root_port := int k,
         sb_ports := designate_others (sb_num_ports br) k
           ((sb_ports br)[k := q\<lparr> st_role := NFS_STP_ROOT_PORT, st_best_bpdu := b \<rparr>]) \<rparr>
     else if bp_root_id b \<noteq> sb_root_id br \<or> sb_root_port br = -1 then br
     else if sb_root_port br = int k then
       br\<lparr> sb_root_path_cost := c, sb_ports := (sb_ports br)[k := q\<lparr> st_best_bpdu := b \<rparr>] \<rparr>
     else if c < sb_root_path_cost br then
       br\<lparr> sb_root_path_cost := c, sb_root_port := int k,
         sb_ports := (let ps = (sb_ports br)[nat (sb_root_port br) :=
             (sb_ports br ! nat (sb_root_port br))\<lparr> st_role := NFS_STP_DESIGNATED_PORT \<rparr>]
           in ps[k := (ps ! k)\<lparr> st_role := NFS_STP_ROOT_PORT, st_best_bpdu := b \<rparr>]) \<rparr>
     else br\<lparr> sb_ports := (sb_ports br)[k := q\<lparr> st_role := NFS_STP_ALTERNATE_PORT, st_best_bpdu := b \<rparr>] \<rparr>)"
proof -
  let ?c = "nfs_bridge_id_cmp (bp_root_id b) (sb_root_id br)"
  consider "?c = -1" "bid_key (bp_root_id b) < bid_key (sb_root_id br)"
    | "?c = 0" "bp_root_id b = sb_root_id br"
    | "?c = 1" "\<not> bid_key (bp_root_id b) < bid_key (sb_root_id br)" "bp_root_id b \<noteq> sb_root_id br"
    using bridge_id_cmp_key [OF assms(1,2)] by (cases "bid_key (bp_root_id b) < bid_key (sb_root_id br)"; cases "bp_root_id b = sb_root_id br") simp_all
  then show ?thesis
    using assms(3) by cases (simp_all add: nfs_stp_process_bpdu_def Let_def)
qed

lemma process_out: "p < 0 \<or> int (sb_num_ports br) \<le> p \<Longrightarrow> nfs_stp_process_bpdu br p b = br"
  by (simp only: nfs_stp_process_bpdu_def if_P)

lemma port_cases:
  fixes p :: int
  obtains "p < 0 \<or> int n \<le> p" | k where "p = int k" "k < n"
proof (cases "p < 0 \<or> int n \<le> p")
  case False
  then have "p = int (nat p)" "nat p < n" by auto
  then show ?thesis using that(2) by blast
qed (rule that(1))

lemma process_cases:
  fixes br b p
  defines "new \<equiv> nfs_stp_process_bpdu br p b"
  assumes "bridge_ok br" and "bid_ok (bp_root_id b)"
  obtains (ignored) "new = br"
    | (better) k q where "p = int k" "k < sb_num_ports br" "q = sb_ports br ! k"
      "bid_key (bp_root_id b) < bid_key (sb_root_id br)"
      "new = br\<lparr> sb_root_id := bp_root_id b, sb_root_path_cost := bp_root_path_cost b + st_path_cost q, sb_root_port := p,
         sb_ports := designate_others (sb_num_ports br) k
           ((sb_ports br)[k := q\<lparr> st_role := NFS_STP_ROOT_PORT, st_best_bpdu := b \<rparr>]) \<rparr>"
    | (refresh) k q where "p = int k" "k < sb_num_ports br" "q = sb_ports br ! k"
      "bp_root_id b = sb_root_id br" "sb_root_port br = p"
      "new = br\<lparr> sb_root_path_cost := bp_root_path_cost b + st_path_cost q, sb_ports := (sb_ports br)[k := q\<lparr> st_best_bpdu := b \<rparr>] \<rparr>"
    | (closer) k r q where "p = int k" "k < sb_num_ports br" "q = sb_ports br ! k"
      "bp_root_id b = sb_root_id br" "sb_root_port br = int r" "r < sb_num_ports br" "r \<noteq> k"
      "bp_root_path_cost b + st_path_cost q < sb_root_path_cost br"
      "new = br\<lparr> sb_root_path_cost := bp_root_path_cost b + st_path_cost q, sb_root_port := p,
         sb_ports := (sb_ports br)[r := (sb_ports br ! r)\<lparr> st_role := NFS_STP_DESIGNATED_PORT \<rparr>,
           k := q\<lparr> st_role := NFS_STP_ROOT_PORT, st_best_bpdu := b \<rparr>] \<rparr>"
    | (farther) k q where "p = int k" "k < sb_num_ports br" "q = sb_ports br ! k"
      "bp_root_id b = sb_root_id br" "sb_root_port br \<noteq> -1" "sb_root_port br \<noteq> p"
      "\<not> bp_root_path_cost b + st_path_cost q < sb_root_path_cost br"
      "new = br\<lparr> sb_ports := (sb_ports br)[k := q\<lparr> st_role := NFS_STP_ALTERNATE_PORT, st_best_bpdu := b \<rparr>] \<rparr>"
proof (cases rule: port_cases [where p = p and n = "sb_num_ports br"])
  case 1
  then show ?thesis using ignored by (simp add: new_def process_out)
next
  case (2 k)
  have ok: "bid_ok (sb_root_id br)" "-1 \<le> sb_root_port br" "sb_root_port br < int (sb_num_ports br)"
    using assms(2) by (simp_all add: bridge_ok_def)
  note eq = process_eq [OF assms(3) ok(1) 2(2), folded 2(1), folded new_def, unfolded Let_def]
  show ?thesis
  proof (cases "bid_key (bp_root_id b) < bid_key (sb_root_id br)")
    case True
    then show ?thesis using eq by (intro better [OF 2 refl]) simp_all
  next
    case worse: False
    show ?thesis
    proof (cases "bp_root_id b \<noteq> sb_root_id br \<or> sb_root_port br = -1")
      case True
      then show ?thesis using eq worse ignored by simp
    next
      case same: False
      then obtain r where r: "sb_root_port br = int r" "r < sb_num_ports br"
        using ok by (cases rule: port_cases [where p = "sb_root_port br" and n = "sb_num_ports br"]) auto
      show ?thesis
      proof (cases "r = k")
        case True
        then show ?thesis using eq worse same r 2 by (intro refresh [OF 2 refl]) simp_all
      next
        case False
        show ?thesis
        proof (cases "bp_root_path_cost b + st_path_cost (sb_ports br ! k) < sb_root_path_cost br")
          case True
          then show ?thesis using eq worse same r 2 False by (intro closer [OF 2 refl _ r False]) simp_all
        next
          case far: False
          then show ?thesis using eq worse same r 2 False by (intro farther [OF 2 refl]) simp_all
        qed
      qed
    qed
  qed
qed

lemma process_ok:
  assumes "bridge_ok br" and "bid_ok (bp_root_id b)"
  shows "bridge_ok (nfs_stp_process_bpdu br p b)"
proof -
  note ok = assms(1) [unfolded bridge_ok_def]
  have low: "bid_key (sb_root_id br) \<le> bid_key (sb_id br)" using ok by (auto split: if_splits)
  show ?thesis
    by (cases rule: process_cases [OF assms, of p]) (use ok assms(2) low in \<open>auto simp: bridge_ok_def split: if_splits\<close>)
qed

lemma process_root_port_ok:
  assumes "bridge_ok br" and "root_port_ok br" and "bid_ok (bp_root_id b)"
  shows "root_port_ok (nfs_stp_process_bpdu br p b)"
proof -
  have len: "sb_num_ports br \<le> length (sb_ports br)" using assms(1) by (simp add: bridge_ok_def)
  note rp = assms(2) [unfolded root_port_ok_def Let_def]
  show ?thesis
  proof (cases rule: process_cases [OF assms(1,3), where p = p, case_names ignored better refresh closer farther])
    case ignored
    then show ?thesis using assms(2) by simp
  next
    case (better k q)
    then show ?thesis
      using len unfolding root_port_ok_def better(5) Let_def
      by (auto simp: designate_others_nth nth_list_update)
  next
    case (refresh k q)
    then show ?thesis
      using rp len unfolding root_port_ok_def refresh(6) Let_def by (auto simp: nth_list_update)
  next
    case (closer k r q)
    then show ?thesis
      using rp len unfolding root_port_ok_def closer(9) Let_def by (auto simp: nth_list_update)
  next
    case (farther k q)
    then show ?thesis
      using rp len unfolding root_port_ok_def farther(8) Let_def by (auto simp: nth_list_update)
  qed
qed

text \<open>A bridge fed with the frames that arrive at its ports: what does not parse is dropped.\<close>

definition stp_receive :: "nfs_stp_bridge \<Rightarrow> int \<times> u8 list \<Rightarrow> nfs_stp_bridge" where
  "stp_receive br f = (case nfs_bpdu_parse (snd f) of None \<Rightarrow> br | Some b \<Rightarrow> nfs_stp_process_bpdu br (fst f) b)"

lemma parse_bpdu_ok: "nfs_bpdu_parse data = Some b \<Longrightarrow> bpdu_ok b"
  by (auto simp: nfs_bpdu_parse_def bpdu_ok_def bid_ok_def zero_id_def nfs_bridge_id_unpack_def NFS_BPDU_CONFIG_SIZE_def
      split: if_splits)

definition bridge_inv :: "nfs_stp_bridge \<Rightarrow> bool" where
  "bridge_inv br \<longleftrightarrow> bridge_ok br \<and> root_port_ok br"

lemma fresh_inv: "fresh_bridge br \<Longrightarrow> bridge_inv br"
  by (auto simp: fresh_bridge_def bridge_inv_def bridge_ok_def root_port_ok_def Let_def)

lemma receive_same [simp]:
  "sb_id (stp_receive br f) = sb_id br" "sb_num_ports (stp_receive br f) = sb_num_ports br"
  by (simp_all add: stp_receive_def split: option.split)

interpretation stp: machine stp_receive "\<lambda>_ _. True" bridge_inv
proof
  fix br f
  assume "bridge_inv br"
  then show "bridge_inv (stp_receive br f)"
    using parse_bpdu_ok [of "snd f"]
    by (auto simp: stp_receive_def bridge_inv_def bpdu_ok_def process_ok process_root_port_ok split: option.split)
qed

text \<open>The roots a bridge has heard of on its ports.\<close>

definition heard :: "nat \<Rightarrow> int \<times> u8 list \<Rightarrow> nfs_bridge_id list" where
  "heard n f = (case nfs_bpdu_parse (snd f) of None \<Rightarrow> []
     | Some b \<Rightarrow> if 0 \<le> fst f \<and> fst f < int n then [bp_root_id b] else [])"

lemma receive_root:
  assumes "bridge_inv br"
  shows "sb_root_id (stp_receive br f) = (case heard (sb_num_ports br) f of [] \<Rightarrow> sb_root_id br
    | i # _ \<Rightarrow> if bid_key i < bid_key (sb_root_id br) then i else sb_root_id br)"
proof -
  have "bid_ok (sb_root_id br)" using assms by (simp add: bridge_inv_def bridge_ok_def)
  then show ?thesis
    using parse_bpdu_ok [of "snd f"]
    by (auto simp: stp_receive_def heard_def process_root bpdu_ok_def split: option.split)
qed

lemma run_same [simp]:
  "sb_id (foldl stp_receive br fs) = sb_id br" "sb_num_ports (foldl stp_receive br fs) = sb_num_ports br"
  by (induction fs arbitrary: br) simp_all

lemma run_root:
  assumes "bridge_inv br"
  shows "sb_root_id (foldl stp_receive br fs) \<in> insert (sb_root_id br) (set (concat (map (heard (sb_num_ports br)) fs))) \<and>
    (\<forall>i \<in> insert (sb_root_id br) (set (concat (map (heard (sb_num_ports br)) fs))).
       bid_key (sb_root_id (foldl stp_receive br fs)) \<le> bid_key i)"
proof (induction fs rule: rev_induct)
  case (snoc f fs)
  define s where "s = foldl stp_receive br fs"
  have "bridge_inv s" unfolding s_def by (rule stp.run_inv [OF assms]) simp
  note r = receive_root [OF this, of f]
  have n: "sb_num_ports s = sb_num_ports br" by (simp add: s_def)
  define K h where "K = insert (sb_root_id br) (set (concat (map (heard (sb_num_ports br)) fs)))"
    and "h = heard (sb_num_ports br) f"
  have K: "sb_root_id s \<in> K" "\<And>i. i \<in> K \<Longrightarrow> bid_key (sb_root_id s) \<le> bid_key i"
    using snoc unfolding K_def s_def by blast+
  have new: "insert (sb_root_id br) (set (concat (map (heard (sb_num_ports br)) (fs @ [f])))) = K \<union> set h"
    by (auto simp: K_def h_def)
  have res: "sb_root_id (foldl stp_receive br (fs @ [f])) =
      (case h of [] \<Rightarrow> sb_root_id s | i # _ \<Rightarrow> if bid_key i < bid_key (sb_root_id s) then i else sb_root_id s)"
    using r by (simp add: n h_def s_def)
  have "h = [] \<or> (\<exists>i. h = [i])" by (simp add: h_def heard_def split: option.split)
  then show ?case
  proof
    assume "\<exists>i. h = [i]"
    then obtain i where i: "h = [i]" ..
    show ?thesis
    proof (cases "bid_key i < bid_key (sb_root_id s)")
      case True
      then show ?thesis using K unfolding new res i by (auto intro: order_trans less_imp_le)
    next
      case False
      then show ?thesis using K unfolding new res i by (auto simp: not_less)
    qed
  next
    assume "h = []"
    then show ?thesis using K unfolding new res by simp
  qed
qed simp

text \<open>
  Whatever frames arrive, a bridge knows the best root it has heard of: after any sequence of
  frames at any ports, its root is its own identifier or one received in a BPDU at one of its
  ports, and none of these is better; it has no root port exactly when it is the root itself;
  and otherwise the root port is the one port with that role, holds the BPDU that names the
  root, and the path cost is the cost in that BPDU plus the port's own.
\<close>
theorem stp_bridge_knows_best_root:
  assumes "fresh_bridge br" and "br' = foldl stp_receive br fs"
    and "known = insert (sb_id br) (set (concat (map (heard (sb_num_ports br)) fs)))"
  shows "sb_root_id br' \<in> known \<and> (\<forall>i \<in> known. bid_key (sb_root_id br') \<le> bid_key i) \<and>
    (sb_root_port br' = -1 \<longleftrightarrow> sb_root_id br' = sb_id br) \<and> sb_root_port br' < int (sb_num_ports br) \<and>
    (\<forall>i < sb_num_ports br.
       (st_role (sb_ports br' ! i) = NFS_STP_ROOT_PORT \<longleftrightarrow> int i = sb_root_port br') \<and>
       (int i = sb_root_port br' \<longrightarrow> bp_root_id (st_best_bpdu (sb_ports br' ! i)) = sb_root_id br' \<and>
          sb_root_path_cost br' =
            bp_root_path_cost (st_best_bpdu (sb_ports br' ! i)) + st_path_cost (sb_ports br' ! i)))"
proof -
  have inv: "bridge_inv br" by (rule fresh_inv [OF assms(1)])
  have root: "sb_root_id br = sb_id br" using assms(1) by (simp add: fresh_bridge_def)
  have "bridge_inv br'" unfolding assms(2) by (rule stp.run_inv [OF inv]) simp
  moreover have "sb_id br' = sb_id br" "sb_num_ports br' = sb_num_ports br" by (simp_all add: assms(2))
  ultimately have ok: "sb_root_port br' = -1 \<longleftrightarrow> sb_root_id br' = sb_id br" "sb_root_port br' < int (sb_num_ports br)"
    and rp: "root_port_ok br'"
    by (auto simp: bridge_inv_def bridge_ok_def split: if_splits)
  have "sb_root_id br' \<in> known \<and> (\<forall>i \<in> known. bid_key (sb_root_id br') \<le> bid_key i)"
    using run_root [OF inv, of fs] unfolding assms(2,3) root .
  then show ?thesis
    using ok rp \<open>sb_num_ports br' = sb_num_ports br\<close> by (simp add: root_port_ok_def Let_def)
qed

definition sample_bridge :: "u8 \<Rightarrow> nfs_stp_bridge" where
  "sample_bridge x = (nfs_stp_bridge_init 0x8000 [0, 0x11, 0x22, 0x33, 0x44, x])
     \<lparr> sb_num_ports := 2, sb_ports := [nfs_stp_port_init 1 19, nfs_stp_port_init 2 (nfs_stp_path_cost 100)] \<rparr>"

lemma sample_fresh: "fresh_bridge (sample_bridge x)"
  by (simp add: fresh_bridge_def sample_bridge_def nfs_stp_bridge_init_def nfs_stp_port_init_def bid_ok_def
      less_Suc_eq numeral_eq_Suc)

lemma stp_bridge_knows_best_root_witness:
  "bid_key (sb_root_id (stp_receive (sample_bridge 0x66) (0, the (nfs_bpdu_build sample_bpdu 35)))) \<le>
     bid_key (bp_root_id sample_bpdu)"
proof -
  have "bpdu_valid sample_bpdu" "bp_type sample_bpdu = 0" "nfs_bpdu_build sample_bpdu 35 \<noteq> None"
    by (simp_all add: build_None_iff sample_bpdu_def zero_bpdu_def zero_id_def bpdu_valid_def bpdu_ok_def bid_ok_def)
  then have "nfs_bpdu_parse (the (nfs_bpdu_build sample_bpdu 35)) = Some sample_bpdu"
    using parse_built [of sample_bpdu 35 _ "[]"] by auto
  then have "heard 2 (0, the (nfs_bpdu_build sample_bpdu 35)) = [bp_root_id sample_bpdu]" by (simp add: heard_def)
  moreover have "sb_num_ports (sample_bridge 0x66) = 2" by (simp add: sample_bridge_def)
  ultimately show ?thesis
    using stp_bridge_knows_best_root [OF sample_fresh refl refl, of "0x66" "[(0, the (nfs_bpdu_build sample_bpdu 35))]"]
    by simp
qed

text \<open>
  A topology change notification has no root, and its parsed form names the all-zero
  identifier; processing does not look at the type, so one such frame makes a bridge believe
  in a root that does not exist.
\<close>

lemma notification_taken_for_root:
  assumes "bridge_inv br" and "0 \<le> p" and "p < int (sb_num_ports br)" and "bid_key zero_id < bid_key (sb_root_id br)"
  shows "sb_root_id (stp_receive br (p, [0, 0, 0, 0x80])) = zero_id"
proof -
  have "nfs_bpdu_parse [0, 0, 0, 0x80] = Some (zero_bpdu\<lparr> bp_type := 0x80 \<rparr>)"
    by (simp add: nfs_bpdu_parse_def zero_bpdu_def get16_def be16_def)
  then have "heard (sb_num_ports br) (p, [0, 0, 0, 0x80]) = [zero_id]"
    using assms(2,3) by (simp add: heard_def zero_bpdu_def)
  then show ?thesis using receive_root [OF assms(1)] assms(4) by simp
qed

text \<open>
  A bridge that hears the same root from a bridge farther from it gives up its port, although it
  is the one that has to forward for that segment.
\<close>

lemma nearer_bridge_blocks_its_port:
  assumes "bridge_ok br" and "bid_ok (bp_root_id b)" and "p = int k" and "k < sb_num_ports br"
    and "bp_root_id b = sb_root_id br" and "sb_root_port br \<noteq> -1" and "sb_root_port br \<noteq> p"
    and "sb_root_path_cost br \<le> bp_root_path_cost b + st_path_cost (sb_ports br ! k)"
  shows "st_role (sb_ports (nfs_stp_process_bpdu br p b) ! k) = NFS_STP_ALTERNATE_PORT"
proof -
  have "k < length (sb_ports br)" using assms(1,4) by (simp add: bridge_ok_def)
  then show ?thesis
    using assms unfolding assms(3) by (simp add: process_eq bridge_ok_def Let_def not_less)
qed

section \<open>Electing the root\<close>

text \<open>
  A network of bridges; a message \<open>(i, p, j, q)\<close> carries what bridge \<open>i\<close> knows out of its port
  \<open>p\<close> and into port \<open>q\<close> of bridge \<open>j\<close>, as bytes. The fields are those of the demonstration
  program's BPDU, the root and the cost being the sender's.
\<close>

type_synonym stp_message = "nat \<times> nat \<times> nat \<times> nat"

definition stp_hello :: "nfs_stp_bridge \<Rightarrow> nat \<Rightarrow> nfs_bpdu" where
  "stp_hello br p = zero_bpdu\<lparr> bp_root_id := sb_root_id br, bp_root_path_cost := sb_root_path_cost br,
     bp_sender_id := sb_id br, bp_port_id := st_port_id (sb_ports br ! p),
     bp_max_age := 5120, bp_hello_time := 512, bp_forward_delay := 3840 \<rparr>"

fun stp_exchange :: "nfs_stp_bridge list \<Rightarrow> stp_message \<Rightarrow> nfs_stp_bridge list" where
  "stp_exchange net (i, p, j, q) =
     net[j := stp_receive (net ! j) (int q, the (nfs_bpdu_build (stp_hello (net ! i) p) 35))]"

fun stp_link_ok :: "nfs_stp_bridge list \<Rightarrow> stp_message \<Rightarrow> bool" where
  "stp_link_ok net (i, p, j, q) \<longleftrightarrow> i < length net \<and> j < length net \<and> q < sb_num_ports (net ! j)"

definition hears :: "stp_message list \<Rightarrow> (nat \<times> nat) set" where
  "hears ms = {(i, j). \<exists>p q. (i, p, j, q) \<in> set ms}"

lemma heard_hello:
  assumes "bridge_inv s" and "q < n"
  shows "heard n (int q, the (nfs_bpdu_build (stp_hello s p) 35)) = [sb_root_id s]"
proof -
  have "bpdu_valid (stp_hello s p)" "bp_type (stp_hello s p) = 0" "nfs_bpdu_build (stp_hello s p) 35 \<noteq> None"
    using assms(1) by (simp_all add: build_None_iff stp_hello_def zero_bpdu_def bpdu_valid_def bpdu_ok_def
        bridge_inv_def bridge_ok_def)
  then have "nfs_bpdu_parse (the (nfs_bpdu_build (stp_hello s p) 35)) = Some (stp_hello s p)"
    using parse_built [of "stp_hello s p" 35 _ "[]"] by auto
  then show ?thesis using assms(2) by (simp add: heard_def stp_hello_def)
qed

definition net_ok :: "nfs_bridge_id list \<Rightarrow> nat list \<Rightarrow> nfs_stp_bridge list \<Rightarrow> bool" where
  "net_ok ids ns net \<longleftrightarrow> list_all bridge_inv net \<and> map sb_id net = ids \<and> map sb_num_ports net = ns \<and>
     sb_root_id ` set net \<subseteq> set ids"

lemma link_ok_ports: "stp_link_ok net (i, p, j, q) \<longleftrightarrow>
    i < length net \<and> j < length (map sb_num_ports net) \<and> q < map sb_num_ports net ! j"
  by auto

lemma exchange_roots:
  assumes "net_ok ids ns net" and "stp_link_ok net (i, p, j, q)"
  shows "map sb_root_id (stp_exchange net (i, p, j, q)) = (map sb_root_id net)
    [j := (if bid_key (sb_root_id (net ! i)) < bid_key (sb_root_id (net ! j)) then sb_root_id (net ! i) else sb_root_id (net ! j))]"
    and "net_ok ids ns (stp_exchange net (i, p, j, q))"
proof -
  have l: "i < length net" "j < length net" "q < sb_num_ports (net ! j)" using assms(2) by simp_all
  have inv: "bridge_inv (net ! i)" "bridge_inv (net ! j)"
    using assms(1) l by (simp_all add: net_ok_def list_all_length)
  define new where "new = stp_receive (net ! j) (int q, the (nfs_bpdu_build (stp_hello (net ! i) p) 35))"
  have root: "sb_root_id new =
      (if bid_key (sb_root_id (net ! i)) < bid_key (sb_root_id (net ! j)) then sb_root_id (net ! i) else sb_root_id (net ! j))"
    unfolding new_def receive_root [OF inv(2)] heard_hello [OF inv(1) l(3)] by simp
  then show "map sb_root_id (stp_exchange net (i, p, j, q)) = (map sb_root_id net)
    [j := (if bid_key (sb_root_id (net ! i)) < bid_key (sb_root_id (net ! j)) then sb_root_id (net ! i) else sb_root_id (net ! j))]"
    by (simp add: map_update new_def [symmetric])
  have "bridge_inv new" unfolding new_def by (rule stp.step_inv [OF inv(2) TrueI])
  moreover have "sb_id new = sb_id (net ! j)" "sb_num_ports new = sb_num_ports (net ! j)" by (simp_all add: new_def)
  moreover have "sb_root_id new \<in> sb_root_id ` set net" unfolding root using l by auto
  ultimately show "net_ok ids ns (stp_exchange net (i, p, j, q))"
    using assms(1) l unfolding net_ok_def stp_exchange.simps new_def [symmetric]
    by (auto simp: list_all_length nth_list_update map_update list_update_same_conv dest!: set_update_subset_insert [THEN subsetD])
qed

text \<open>The bridges that know the best root, and how that spreads.\<close>

definition knowing :: "nfs_bridge_id \<Rightarrow> nfs_stp_bridge list \<Rightarrow> nat set" where
  "knowing m net = {j. j < length net \<and> sb_root_id (net ! j) = m}"

lemma net_ok_length: "net_ok ids ns net \<Longrightarrow> length net = length ids"
  by (auto simp: net_ok_def)

lemma exchange_knowing:
  assumes "net_ok ids ns net" and "stp_link_ok net (i, p, j, q)"
    and "\<And>x. x \<in> set ids \<Longrightarrow> bid_key m \<le> bid_key x"
  shows "knowing m net \<subseteq> knowing m (stp_exchange net (i, p, j, q))"
    and "i \<in> knowing m net \<Longrightarrow> j \<in> knowing m (stp_exchange net (i, p, j, q))"
proof -
  have l: "i < length net" "j < length net" using assms(2) by simp_all
  have best: "bid_key m \<le> bid_key (sb_root_id (net ! k))" if "k < length net" for k
  proof -
    have "sb_root_id (net ! k) \<in> set ids" using assms(1) that by (auto simp: net_ok_def)
    then show ?thesis by (rule assms(3))
  qed
  have r: "sb_root_id (stp_exchange net (i, p, j, q) ! k) =
      (if k = j \<and> bid_key (sb_root_id (net ! i)) < bid_key (sb_root_id (net ! j)) then sb_root_id (net ! i)
       else sb_root_id (net ! k))" if "k < length net" for k
  proof -
    have "sb_root_id (stp_exchange net (i, p, j, q) ! k) = map sb_root_id (stp_exchange net (i, p, j, q)) ! k"
      using that by (simp add: nth_map)
    also have "\<dots> = (if k = j \<and> bid_key (sb_root_id (net ! i)) < bid_key (sb_root_id (net ! j)) then sb_root_id (net ! i)
       else sb_root_id (net ! k))"
      unfolding exchange_roots(1) [OF assms(1,2)] using that l by (auto simp: nth_list_update)
    finally show ?thesis .
  qed
  show "knowing m net \<subseteq> knowing m (stp_exchange net (i, p, j, q))"
    using best [OF l(1)] r by (auto simp: knowing_def)
  assume "i \<in> knowing m net"
  then show "j \<in> knowing m (stp_exchange net (i, p, j, q))"
    using l r [OF l(2)] best [OF l(2)] by (auto simp: knowing_def bid_key_inj not_less dest: order_antisym)
qed

definition links_ok :: "nat list \<Rightarrow> stp_message list \<Rightarrow> bool" where
  "links_ok ns ms \<longleftrightarrow> (\<forall>(i, p, j, q) \<in> set ms. i < length ns \<and> j < length ns \<and> q < ns ! j)"

lemma link_ok_conv: "net_ok ids ns net \<Longrightarrow> stp_link_ok net (i, p, j, q) \<longleftrightarrow> i < length ns \<and> j < length ns \<and> q < ns ! j"
  by (auto simp: net_ok_def)

lemma messages_knowing:
  assumes "\<And>x. x \<in> set ids \<Longrightarrow> bid_key m \<le> bid_key x"
  shows "net_ok ids ns net \<Longrightarrow> links_ok ns ms \<Longrightarrow>
    net_ok ids ns (foldl stp_exchange net ms) \<and> knowing m net \<subseteq> knowing m (foldl stp_exchange net ms) \<and>
    hears ms `` knowing m net \<subseteq> knowing m (foldl stp_exchange net ms)"
proof (induction ms arbitrary: net)
  case (Cons e ms)
  obtain i p j q where e: "e = (i, p, j, q)" by (cases e)
  have "i < length ns \<and> j < length ns \<and> q < ns ! j" using Cons.prems(2) by (simp add: links_ok_def e)
  then have l: "stp_link_ok net (i, p, j, q)" by (simp only: link_ok_conv [OF Cons.prems(1)])
  define net' where "net' = stp_exchange net (i, p, j, q)"
  have ok: "net_ok ids ns net'" unfolding net'_def by (rule exchange_roots(2) [OF Cons.prems(1) l])
  have k: "knowing m net \<subseteq> knowing m net'" "i \<in> knowing m net \<Longrightarrow> j \<in> knowing m net'"
    unfolding net'_def by (rule exchange_knowing(1) [OF Cons.prems(1) l assms], assumption)
      (rule exchange_knowing(2) [OF Cons.prems(1) l assms])
  have IH: "net_ok ids ns (foldl stp_exchange net' ms)" "knowing m net' \<subseteq> knowing m (foldl stp_exchange net' ms)"
    "hears ms `` knowing m net' \<subseteq> knowing m (foldl stp_exchange net' ms)"
    using Cons.IH [OF ok] Cons.prems(2) by (simp_all add: links_ok_def)
  have h: "hears (e # ms) = insert (i, j) (hears ms)" by (auto simp: hears_def e)
  have "hears (e # ms) `` knowing m net \<subseteq> knowing m (foldl stp_exchange net' ms)"
    using IH(2,3) k unfolding h by blast
  then show ?case
    using IH(1) order_trans [OF k(1) IH(2)] by (simp only: foldl.simps e net'_def simp_thms)
qed (simp add: hears_def)

text \<open>After enough rounds, everything within that many links of the best bridge knows it.\<close>

lemma rounds_knowing:
  assumes best: "\<And>x. x \<in> set ids \<Longrightarrow> bid_key m \<le> bid_key x"
    and "net_ok ids ns net" and "list_all (links_ok ns) rounds" and "list_all (\<lambda>r. R \<subseteq> hears r) rounds"
    and "n \<le> length rounds" and "b \<in> knowing m net" and "(b, j) \<in> R ^^ n"
  shows "j \<in> knowing m (foldl stp_exchange net (concat rounds))"
  using assms(2-)
proof (induction rounds arbitrary: net n b)
  case Nil
  then show ?case by simp
next
  case (Cons r rs)
  define net' where "net' = foldl stp_exchange net r"
  have step: "net_ok ids ns net'" "knowing m net \<subseteq> knowing m net'" "hears r `` knowing m net \<subseteq> knowing m net'"
    using messages_knowing [of ids m ns net r, OF best] Cons.prems by (simp_all add: net'_def)
  obtain n' b' where "n' \<le> length rs" "b' \<in> knowing m net'" "(b', j) \<in> R ^^ n'"
  proof (cases n)
    case 0
    then show ?thesis using that [of 0 b] Cons.prems step by auto
  next
    case (Suc k)
    then obtain c where "(b, c) \<in> R" "(c, j) \<in> R ^^ k"
      using Cons.prems(6) relpow_Suc_D2 by metis
    moreover have "c \<in> knowing m net'" using calculation(1) Cons.prems step(3) by auto
    ultimately show ?thesis using that [of k c] Cons.prems Suc by auto
  qed
  then show ?case using Cons.IH [OF step(1)] Cons.prems by (simp add: net'_def)
qed

lemma fresh_net_ok:
  assumes "list_all fresh_bridge net"
  shows "net_ok (map sb_id net) (map sb_num_ports net) net"
  using assms fresh_inv by (auto simp: net_ok_def list_all_iff fresh_bridge_def)

text \<open>
  C38. Bridges that start afresh and tell each other what they know elect one root: when every link
  of a network is used at least once in each of as many rounds as there are links, in any
  order and with any further messages in between, every bridge that can hear of the best
  bridge over some path has it as its root, and only bridges with its identifier have no root
  port. Building, parsing and processing the BPDUs are the program's.
\<close>
theorem stp_elects_root:
  assumes "list_all fresh_bridge net" and "m < length net"
    and "\<forall>br \<in> set net. bid_key (sb_id (net ! m)) \<le> bid_key (sb_id br)"
    and "\<forall>ms \<in> set (links # rounds). links_ok (map sb_num_ports net) ms"
    and "\<forall>ms \<in> set rounds. hears links \<subseteq> hears ms" and "length links \<le> length rounds"
    and "net' = foldl stp_exchange net (concat rounds)"
    and "j < length net" and "(m, j) \<in> (hears links)\<^sup>*"
  shows "sb_root_id (net' ! j) = sb_id (net ! m) \<and>
    (sb_root_port (net' ! j) = -1 \<longleftrightarrow> sb_id (net ! j) = sb_id (net ! m))"
proof -
  let ?ids = "map sb_id net" and ?ns = "map sb_num_ports net" and ?m = "sb_id (net ! m)"
  have best: "bid_key ?m \<le> bid_key x" if "x \<in> set ?ids" for x using that assms(3) by auto
  have ok: "net_ok ?ids ?ns net" by (rule fresh_net_ok [OF assms(1)])
  have known: "m \<in> knowing ?m net"
    using assms(1,2) by (simp add: knowing_def list_all_length fresh_bridge_def)
  have fin: "finite (hears links)"
  proof (rule finite_subset)
    show "hears links \<subseteq> (\<lambda>(i, p, j, q). (i, j)) ` set links" by (force simp: hears_def)
  qed simp
  have card: "card (hears links) \<le> length links"
  proof -
    have "hears links = (\<lambda>(i, p, j, q). (i, j)) ` set links" by (force simp: hears_def)
    then show ?thesis by (metis card_image_le card_length finite_set order_trans)
  qed
  obtain n where n: "(m, j) \<in> hears links ^^ n" "n \<le> length links"
  proof (cases "m = j")
    case True
    then show ?thesis using that [of 0] by simp
  next
    case False
    then have "(m, j) \<in> (hears links)\<^sup>+" using assms(9) by (auto simp: rtrancl_eq_or_trancl)
    then obtain k where "(m, j) \<in> hears links ^^ k" "0 < k" by (auto simp: trancl_power)
    then show ?thesis using relpow_finite_bounded1 [OF fin, of k] card that by fastforce
  qed
  have "j \<in> knowing ?m net'"
    unfolding assms(7)
    by (rule rounds_knowing [OF best ok _ _ _ known n(1)]) (use assms(4-6) n(2) in \<open>auto simp: list_all_iff\<close>)
  then have root: "sb_root_id (net' ! j) = ?m" by (simp add: knowing_def)
  have "links_ok ?ns (concat rounds)" using assms(4) by (auto simp: links_ok_def)
  then have ok': "net_ok ?ids ?ns net'"
    unfolding assms(7) using messages_knowing [of ?ids ?m ?ns net, OF best ok] by blast
  then have "bridge_inv (net' ! j)" "sb_id (net' ! j) = sb_id (net ! j)"
    using assms(8) net_ok_length [OF ok'] by (auto simp: net_ok_def list_all_length dest: arg_cong [where f = "\<lambda>xs. xs ! j"])
  then show ?thesis using root by (auto simp: bridge_inv_def bridge_ok_def split: if_splits)
qed

lemma stp_elects_root_witness:
  "sb_root_id (stp_exchange [sample_bridge 0x55, sample_bridge 0x66] (0, 0, 1, 0) ! 1) = sb_id (sample_bridge 0x55)"
proof -
  let ?net = "[sample_bridge 0x55, sample_bridge 0x66]"
  have n: "sb_num_ports (sample_bridge x) = 2" for x by (simp add: sample_bridge_def)
  have k: "bid_key (sb_id (sample_bridge 0x55)) \<le> bid_key (sb_id (sample_bridge 0x66))"
    by (simp add: sample_bridge_def nfs_stp_bridge_init_def bid_key_def list_le_def)
  have h: "hears [(0, 0, 1, 0)] = {(0, 1)}" by (auto simp: hears_def)
  have "sb_root_id (foldl stp_exchange ?net (concat [[(0, 0, 1, 0)]]) ! 1) = sb_id (?net ! 0) \<and>
    (sb_root_port (foldl stp_exchange ?net (concat [[(0, 0, 1, 0)]]) ! 1) = -1 \<longleftrightarrow> sb_id (?net ! 1) = sb_id (?net ! 0))"
    by (rule stp_elects_root [where links = "[(0, 0, 1, 0)]" and rounds = "[[(0, 0, 1, 0)]]"])
      (simp_all add: sample_fresh k n h [simplified] links_ok_def r_into_rtrancl del: stp_exchange.simps)
  then show ?thesis by (simp del: stp_exchange.simps)
qed

end
