(* ===== verification/Fragment.thy ===== *)
theory Fragment
  imports Checksum
begin

text \<open>
  IPv4 fragmentation and reassembly
  (\<^verbatim>\<open>phases/03-network-layer/07-ip-fragmentation/fragment.c\<close>). Packets are byte lists in
  network order, a fragment is its 20-byte header and the bytes of its payload. The theory
  shows that the fragments of a packet fit the link, carry valid checksums, and are put
  together again in whatever order they arrive.
\<close>

section \<open>Definitions\<close>

definition NFS_IP_FLAG_DF :: u16 where "NFS_IP_FLAG_DF = 0x4000"
definition NFS_IP_FLAG_MF :: u16 where "NFS_IP_FLAG_MF = 0x2000"
definition NFS_IP_FRAG_OFFSET_MASK :: u16 where "NFS_IP_FRAG_OFFSET_MASK = 0x1FFF"

record nfs_ip_fragment =
  fr_header :: "u8 list"
  fr_payload :: "u8 list"

datatype frag_error = FRAG_FAIL | FRAG_NO_ROOM

fun ip_sum :: "u8 list \<Rightarrow> u32 \<Rightarrow> u32" where
  "ip_sum (a # b # p) s = ip_sum p (s + ucast (push_bit 8 (ucast a) OR ucast b :: u16))"
| "ip_sum [a] s = s + push_bit 8 (ucast a)"
| "ip_sum [] s = s"

definition ip_checksum :: "u8 list \<Rightarrow> u16" where
  "ip_checksum data = ucast (NOT (fold_carries (ip_sum data 0)))"

definition nfs_ip_get_flags :: "u16 \<Rightarrow> u16" where
  "nfs_ip_get_flags flags_frag = flags_frag AND 0xE000"

definition nfs_ip_get_frag_offset :: "u16 \<Rightarrow> u16" where
  "nfs_ip_get_frag_offset flags_frag = flags_frag AND NFS_IP_FRAG_OFFSET_MASK"

definition nfs_ip_is_fragment :: "u16 \<Rightarrow> bool" where
  "nfs_ip_is_fragment flags_frag \<longleftrightarrow>
     flags_frag AND NFS_IP_FLAG_MF \<noteq> 0 \<or> flags_frag AND NFS_IP_FRAG_OFFSET_MASK \<noteq> 0"

text \<open>The loop over the fragments, with \<open>k\<close> of them still to come.\<close>

fun frag_run :: "u8 list \<Rightarrow> nat \<Rightarrow> nat \<Rightarrow> nat \<Rightarrow> u16 \<Rightarrow> bool \<Rightarrow> nat \<Rightarrow> nat \<Rightarrow> nfs_ip_fragment list" where
  "frag_run pkt ihl payload_len max_payload orig_offset orig_mf offset 0 = []"
| "frag_run pkt ihl payload_len max_payload orig_offset orig_mf offset (Suc k) =
     (let chunk = (if payload_len - offset > max_payload then max_payload else payload_len - offset);
          frag_offset = orig_offset + of_nat (offset div 8);
          new_flags_frag = (if k \<noteq> 0 \<or> orig_mf then frag_offset OR NFS_IP_FLAG_MF else frag_offset);
          hdr = set16 (set16 (set16 (take 20 pkt) 2 (of_nat (20 + chunk))) 6 new_flags_frag) 10 0;
          frag = \<lparr> fr_header = set16 hdr 10 (ip_checksum hdr), fr_payload = take chunk (drop (ihl + offset) pkt) \<rparr>
      in frag # frag_run pkt ihl payload_len max_payload orig_offset orig_mf (offset + chunk) k)"

definition nfs_ip_fragment_packet :: "u8 list \<Rightarrow> u16 \<Rightarrow> nat \<Rightarrow> frag_error + nfs_ip_fragment list" where
  "nfs_ip_fragment_packet pkt mtu max_frags =
     (if length pkt < 20 \<or> max_frags = 0 then Inl FRAG_FAIL
      else
        let ihl = (pkt ! 0 AND 0x0F) * 4; total = get16 pkt 2 in
        if ihl < 20 then Inl FRAG_FAIL
        else if unat total > length pkt then Inl FRAG_FAIL
        else
          let payload_len = total - ucast ihl in
          if total \<le> mtu then
            Inr [\<lparr> fr_header = take 20 pkt, fr_payload = take (unat payload_len) (drop (unat ihl) pkt) \<rparr>]
          else
            let flags_frag = get16 pkt 6 in
            if flags_frag AND NFS_IP_FLAG_DF \<noteq> 0 then Inl FRAG_FAIL
            else
              let max_payload = (mtu - 20) AND NOT 7 in
              if max_payload = 0 then Inl FRAG_FAIL
              else
                let orig_offset = nfs_ip_get_frag_offset flags_frag;
                    orig_mf = (flags_frag AND NFS_IP_FLAG_MF \<noteq> 0);
                    nfrags = (unat payload_len + unat max_payload - 1) div unat max_payload
                in if nfrags > max_frags then Inl FRAG_NO_ROOM
                   else Inr (frag_run pkt (unat ihl) (unat payload_len) (unat max_payload) orig_offset orig_mf 0 nfrags))"

definition frag_key :: "nfs_ip_fragment \<Rightarrow> u16" where
  "frag_key f = nfs_ip_get_frag_offset (get16 (fr_header f) 6)"

fun reasm_run :: "nat \<Rightarrow> nfs_ip_fragment list \<Rightarrow> u16 \<Rightarrow> u8 list \<Rightarrow> u8 list option" where
  "reasm_run out_sz [] expected acc = Some acc"
| "reasm_run out_sz (f # fs) expected acc =
     (let ff = get16 (fr_header f) 6; off = nfs_ip_get_frag_offset ff; plen = length (fr_payload f) in
      if off \<noteq> expected then None
      else if 20 + length acc + plen > out_sz then None
      else if ff AND NFS_IP_FLAG_MF = 0 \<and> fs \<noteq> [] then None
      else reasm_run out_sz fs (off + of_nat (plen div 8)) (acc @ fr_payload f))"

text \<open>\<open>qsort\<close> by \<open>frag_cmp\<close> is a sort by the offset; it is used here on distinct offsets.\<close>

definition nfs_ip_reassemble :: "nfs_ip_fragment list \<Rightarrow> nat \<Rightarrow> u8 list option" where
  "nfs_ip_reassemble frags out_sz =
     (if frags = [] \<or> out_sz < 20 then None
      else
        let sorted = sort_key frag_key frags in
        if frag_key (hd sorted) \<noteq> 0 then None
        else
          (case reasm_run out_sz sorted 0 [] of
             None \<Rightarrow> None
           | Some payload \<Rightarrow>
               let hdr = set16 (set16 (set16 (fr_header (hd sorted)) 6 0) 2 (of_nat (20 + length payload))) 10 0
               in Some (set16 hdr 10 (ip_checksum hdr) @ payload)))"

section \<open>Words of the header\<close>

lemma ip_sum_partial: "ip_sum data s = internet_checksum_partial data s"
proof -
  have "ucast (push_bit 8 (ucast a) OR ucast b :: u16) = (push_bit 8 (ucast a) OR ucast b :: u32)" for a b :: u8
    by (rule bit_word_eqI) (auto simp: bit_simps dest: bit_imp_le_length)
  then show ?thesis by (induction data s rule: ip_sum.induct) simp_all
qed

lemma ip_checksum_eq: "ip_checksum data = internet_checksum data"
  by (simp add: ip_checksum_def ip_sum_partial internet_checksum_def internet_checksum_fold_def)

lemma frag_masks: "NFS_IP_FLAG_MF = push_bit 13 1" "NFS_IP_FRAG_OFFSET_MASK = mask 13"
  by (simp_all add: NFS_IP_FLAG_MF_def NFS_IP_FRAG_OFFSET_MASK_def mask_eq_exp_minus_1)

lemma bit_offset: "n < 8192 \<Longrightarrow> bit (of_nat n :: u16) i \<Longrightarrow> i < 13"
  using bit_less_exp [of "of_nat n :: u16" i 13] by (simp add: unat_of_nat_u16)

lemma and_MF: "x AND NFS_IP_FLAG_MF \<noteq> 0 \<longleftrightarrow> bit x 13"
  using and_exp_eq_0_iff_not_bit [of x 13] by (simp add: NFS_IP_FLAG_MF_def)

lemma flags_frag_parts:
  assumes "n < 8192"
  shows "nfs_ip_get_frag_offset (of_nat n OR (if mf then NFS_IP_FLAG_MF else 0)) = of_nat n"
    and "(of_nat n OR (if mf then NFS_IP_FLAG_MF else 0)) AND NFS_IP_FLAG_MF \<noteq> 0 \<longleftrightarrow> mf"
proof -
  have b: "bit NFS_IP_FLAG_MF i \<longleftrightarrow> i = 13" for i
    unfolding frag_masks(1) bit_push_bit_iff by (auto simp: bit_1_iff possible_bit_word)
  show "nfs_ip_get_frag_offset (of_nat n OR (if mf then NFS_IP_FLAG_MF else 0)) = of_nat n"
    unfolding nfs_ip_get_frag_offset_def frag_masks(2)
    by (rule bit_word_eqI) (auto simp: bit_and_iff bit_or_iff bit_mask_iff b dest: bit_offset [OF assms])
  show "(of_nat n OR (if mf then NFS_IP_FLAG_MF else 0)) AND NFS_IP_FLAG_MF \<noteq> 0 \<longleftrightarrow> mf"
    unfolding and_MF using bit_offset [OF assms, of 13] b by (auto simp: bit_or_iff)
qed

lemma unat_and_not_7: "unat (x AND NOT 7) = unat (x :: u16) div 8 * 8"
proof -
  have m: "(7 :: u16) = mask 3" by (simp add: mask_eq_exp_minus_1)
  have "x AND NOT 7 = push_bit 3 (drop_bit 3 x)"
    unfolding m by (rule bit_word_eqI) (auto simp: bit_simps)
  moreover have "unat (push_bit 3 (drop_bit 3 x)) = unat x div 8 * 8"
  proof -
    have "unat (drop_bit 3 x) = unat x div 8" unfolding unat_drop_bit_eq by (simp add: drop_bit_eq_div)
    moreover have "unat x div 8 * 8 < 65536" using unat_u16_less [of x] by linarith
    ultimately show ?thesis by (simp add: push_bit_eq_mult unat_word_ariths)
  qed
  ultimately show ?thesis by simp
qed

section \<open>The fragments\<close>

text \<open>A fragment's header, before and after its checksum is stored.\<close>

definition frag_header :: "u8 list \<Rightarrow> nat \<Rightarrow> u16 \<Rightarrow> u8 list" where
  "frag_header pkt plen ff =
     (let hdr = set16 (set16 (set16 (take 20 pkt) 2 (of_nat (20 + plen))) 6 ff) 10 0
      in set16 hdr 10 (ip_checksum hdr))"

lemma frag_header_facts:
  assumes "20 \<le> length pkt"
  shows "length (frag_header pkt n ff) = 20" "get16 (frag_header pkt n ff) 6 = ff"
    "get16 (frag_header pkt n ff) 2 = of_nat (20 + n)" "internet_checksum (frag_header pkt n ff) = 0"
proof -
  let ?h = "set16 (set16 (set16 (take 20 pkt) 2 (of_nat (20 + n))) 6 ff) 10 0"
  show "length (frag_header pkt n ff) = 20" "get16 (frag_header pkt n ff) 6 = ff"
    "get16 (frag_header pkt n ff) 2 = of_nat (20 + n)"
    using assms by (simp_all add: frag_header_def Let_def get16_set16_other)
  have "length ?h = 20" "get16 ?h 10 = 0" using assms by simp_all
  then show "internet_checksum (frag_header pkt n ff) = 0"
    unfolding frag_header_def Let_def ip_checksum_eq
    by (intro rfc1071.refresh_verifies) simp_all
qed

definition frag_at :: "u8 list \<Rightarrow> nat \<Rightarrow> nat \<Rightarrow> nat \<Rightarrow> nat \<Rightarrow> bool \<Rightarrow> nfs_ip_fragment" where
  "frag_at pkt ihl plen mp offset mf =
     \<lparr> fr_header = frag_header pkt (min mp (plen - offset)) (of_nat (offset div 8) OR (if mf then NFS_IP_FLAG_MF else 0)),
       fr_payload = take (min mp (plen - offset)) (drop (ihl + offset) pkt) \<rparr>"

lemma frag_run_Suc:
  "frag_run pkt ihl plen mp 0 False offset (Suc k) =
     frag_at pkt ihl plen mp offset (k \<noteq> 0) # frag_run pkt ihl plen mp 0 False (offset + min mp (plen - offset)) k"
  by (simp add: frag_at_def frag_header_def Let_def min_def not_less)

lemma frag_at_facts:
  assumes "20 \<le> length pkt" and "ihl + plen \<le> length pkt" and "plen < 65536" and "offset \<le> plen"
  shows "frag_key (frag_at pkt ihl plen mp offset mf) = of_nat (offset div 8)"
    and "get16 (fr_header (frag_at pkt ihl plen mp offset mf)) 6 AND NFS_IP_FLAG_MF \<noteq> 0 \<longleftrightarrow> mf"
    and "length (fr_payload (frag_at pkt ihl plen mp offset mf)) = min mp (plen - offset)"
    and "internet_checksum (fr_header (frag_at pkt ihl plen mp offset mf)) = 0"
    and "get16 (fr_header (frag_at pkt ihl plen mp offset mf)) 2 = of_nat (20 + min mp (plen - offset))"
proof -
  have n: "offset div 8 < 8192" using assms by linarith
  show "frag_key (frag_at pkt ihl plen mp offset mf) = of_nat (offset div 8)"
    "get16 (fr_header (frag_at pkt ihl plen mp offset mf)) 6 AND NFS_IP_FLAG_MF \<noteq> 0 \<longleftrightarrow> mf"
    using flags_frag_parts [OF n, of mf] by (simp_all add: frag_key_def frag_at_def frag_header_facts [OF assms(1)])
  show "internet_checksum (fr_header (frag_at pkt ihl plen mp offset mf)) = 0"
    "get16 (fr_header (frag_at pkt ihl plen mp offset mf)) 2 = of_nat (20 + min mp (plen - offset))"
    by (simp_all add: frag_at_def frag_header_facts [OF assms(1)])
  show "length (fr_payload (frag_at pkt ihl plen mp offset mf)) = min mp (plen - offset)"
    using assms by (simp add: frag_at_def)
qed

text \<open>The data of a split: what has to hold for its fragments to be well-formed.\<close>

definition fragmenting :: "u8 list \<Rightarrow> nat \<Rightarrow> nat \<Rightarrow> nat \<Rightarrow> bool" where
  "fragmenting pkt ihl plen mp \<longleftrightarrow>
     20 \<le> length pkt \<and> ihl + plen \<le> length pkt \<and> plen < 65536 \<and> 0 < mp \<and> 8 dvd mp"

lemma fragmentingD:
  assumes "fragmenting pkt ihl plen mp"
  shows "20 \<le> length pkt" "ihl + plen \<le> length pkt" "plen < 65536" "0 < mp" "8 dvd mp"
  using assms by (simp_all add: fragmenting_def)

text \<open>\<open>k\<close> fragments of at most \<open>mp\<close> bytes are needed from \<open>offset\<close> on.\<close>

definition left :: "nat \<Rightarrow> nat \<Rightarrow> nat \<Rightarrow> nat \<Rightarrow> bool" where
  "left plen mp offset k \<longleftrightarrow> offset < plen \<and> 8 dvd offset \<and> (k - 1) * mp < plen - offset \<and> plen - offset \<le> k * mp"

lemma left_step:
  assumes "left plen mp offset (Suc k)" and "k \<noteq> 0" and "8 dvd mp"
  shows "min mp (plen - offset) = mp" and "left plen mp (offset + mp) k"
proof -
  obtain j where j: "k = Suc j" using assms(2) by (cases k) auto
  show "min mp (plen - offset) = mp" "left plen mp (offset + mp) k"
    using assms(1,3) unfolding left_def j by (auto simp: algebra_simps)
qed

lemma left_last: "left plen mp offset (Suc 0) \<Longrightarrow> min mp (plen - offset) = plen - offset"
  by (simp add: left_def)

lemma frags_keys:
  assumes "fragmenting pkt ihl plen mp"
  shows "left plen mp offset k \<Longrightarrow> map frag_key (frag_run pkt ihl plen mp 0 False offset k) = map (\<lambda>i. of_nat ((offset + i * mp) div 8)) [0..<k]"
proof (induction k arbitrary: offset)
  case (Suc k)
  have key: "frag_key (frag_at pkt ihl plen mp offset mf) = of_nat (offset div 8)" for mf
    using Suc.prems by (intro frag_at_facts(1) fragmentingD(1-3) [OF assms]) (simp add: left_def)
  show ?case
  proof (cases "k = 0")
    case True
    then show ?thesis by (simp add: frag_run_Suc key del: frag_run.simps(2))
  next
    case False
    note l = left_step [OF Suc.prems False fragmentingD(5) [OF assms]]
    have "map frag_key (frag_run pkt ihl plen mp 0 False (offset + mp) k) = map (\<lambda>i. of_nat ((offset + i * mp) div 8)) (map Suc [0..<k])"
      unfolding Suc.IH [OF l(2)] by (simp add: algebra_simps)
    then show ?thesis
      unfolding frag_run_Suc l(1) list.map key map_Suc_upt by (simp add: upt_conv_Cons del: upt_Suc)
  qed
qed simp

lemma frags_reassemble:
  assumes "fragmenting pkt ihl plen mp"
  shows "left plen mp offset k \<Longrightarrow> length acc = offset \<Longrightarrow> 20 + plen \<le> out_sz \<Longrightarrow>
     reasm_run out_sz (frag_run pkt ihl plen mp 0 False offset k) (of_nat (offset div 8)) acc = Some (acc @ take (plen - offset) (drop (ihl + offset) pkt))"
proof (induction k arbitrary: offset acc)
  case 0
  then show ?case by (simp add: left_def)
next
  case (Suc k)
  have o: "offset \<le> plen" "8 dvd offset" using Suc.prems(1) by (simp_all add: left_def)
  note f = frag_at_facts [OF fragmentingD(1-3) [OF assms] o(1), where mp = mp and mf = "k \<noteq> 0"]
  define g where "g = frag_at pkt ihl plen mp offset (k \<noteq> 0)"
  note f = f [folded g_def]
  have off: "nfs_ip_get_frag_offset (get16 (fr_header g) 6) = of_nat (offset div 8)"
    using f(1) by (simp add: frag_key_def)
  have flag: "get16 (fr_header g) 6 AND NFS_IP_FLAG_MF = 0 \<longleftrightarrow> k = 0" using f(2) by blast
  have room: "\<not> out_sz < 20 + length acc + min mp (plen - offset)" using Suc.prems(2,3) o by simp
  have step: "reasm_run out_sz (g # rest) (of_nat (offset div 8)) acc =
      reasm_run out_sz rest (of_nat (offset div 8) + of_nat (min mp (plen - offset) div 8)) (acc @ fr_payload g)"
    if "k = 0 \<longrightarrow> rest = []" for rest
    using that room by (auto simp: Let_def off flag f(3))
  show ?case
  proof (cases "k = 0")
    case True
    then have "min mp (plen - offset) = plen - offset" using left_last Suc.prems(1) by simp
    moreover have "frag_run pkt ihl plen mp 0 False offset (Suc k) = [g]" using True by (simp add: frag_run_Suc g_def del: frag_run.simps(2))
    ultimately show ?thesis using step [of "[]"] True by (simp add: g_def frag_at_def)
  next
    case False
    note l = left_step [OF Suc.prems(1) False fragmentingD(5) [OF assms]]
    have d: "of_nat (offset div 8) + of_nat (mp div 8) = (of_nat ((offset + mp) div 8) :: u16)"
      using div_plus_div_distrib_dvd_left [OF o(2), of mp] by (simp flip: of_nat_add)
    have pay: "fr_payload g = take mp (drop (ihl + offset) pkt)" using l(1) by (simp add: g_def frag_at_def)
    have "length (acc @ fr_payload g) = offset + mp"
      using Suc.prems(2) f(3) l(1) by simp
    then have "reasm_run out_sz (frag_run pkt ihl plen mp 0 False (offset + mp) k) (of_nat ((offset + mp) div 8)) (acc @ fr_payload g) =
        Some ((acc @ fr_payload g) @ take (plen - (offset + mp)) (drop (ihl + (offset + mp)) pkt))"
      by (rule Suc.IH [OF l(2) _ Suc.prems(3)])
    moreover have "take mp (drop (ihl + offset) pkt) @ take (plen - (offset + mp)) (drop (ihl + (offset + mp)) pkt) =
        take (plen - offset) (drop (ihl + offset) pkt)"
    proof -
      have n: "plen - offset = mp + (plen - (offset + mp))" using l(2) by (simp add: left_def)
      have "drop (ihl + (offset + mp)) pkt = drop mp (drop (ihl + offset) pkt)" by (simp add: ac_simps)
      then show ?thesis unfolding n take_add by simp
    qed
    ultimately show ?thesis
      using step [of "frag_run pkt ihl plen mp 0 False (offset + mp) k"] False unfolding frag_run_Suc l(1) g_def [symmetric] d pay by simp
  qed
qed

lemma frags_set:
  assumes "fragmenting pkt ihl plen mp"
  shows "left plen mp offset k \<Longrightarrow> f \<in> set (frag_run pkt ihl plen mp 0 False offset k) \<Longrightarrow>
     \<exists>o' mf. offset \<le> o' \<and> o' < plen \<and> f = frag_at pkt ihl plen mp o' mf"
proof (induction k arbitrary: offset)
  case (Suc k)
  have o: "offset < plen" using Suc.prems(1) by (simp add: left_def)
  show ?case
  proof (cases "k = 0")
    case True
    then show ?thesis using Suc.prems(2) o by (auto simp: frag_run_Suc simp del: frag_run.simps(2))
  next
    case False
    note l = left_step [OF Suc.prems(1) False fragmentingD(5) [OF assms]]
    have "f = frag_at pkt ihl plen mp offset (k \<noteq> 0) \<or> f \<in> set (frag_run pkt ihl plen mp 0 False (offset + mp) k)"
      using Suc.prems(2) unfolding frag_run_Suc l(1) by simp
    then show ?thesis
    proof
      assume "f \<in> set (frag_run pkt ihl plen mp 0 False (offset + mp) k)"
      then obtain o' b where "offset + mp \<le> o'" "o' < plen" "f = frag_at pkt ihl plen mp o' b"
        using Suc.IH [OF l(2)] by blast
      then show ?thesis by (intro exI [of _ o'] exI [of _ b]) simp
    qed (use o in blast)
  qed
qed simp

lemma sort_by_offset:
  assumes "mset fs = mset frs" and "map frag_key frs = map of_nat ns" and "sorted ns" and "distinct ns"
    and "\<forall>n \<in> set ns. n < 65536"
  shows "sort_key frag_key fs = frs"
proof (rule sort_key_inj_key_eq [OF assms(1)])
  have le: "(of_nat a :: u16) \<le> of_nat b \<longleftrightarrow> a \<le> b" and eq: "(of_nat a :: u16) = of_nat b \<longleftrightarrow> a = b"
    if "a \<in> set ns" "b \<in> set ns" for a b
    using that assms(5) by (simp_all add: word_le_nat_alt word_unat_eq_iff unat_of_nat_u16)
  show "sorted (map frag_key frs)"
    unfolding assms(2) sorted_map using assms(3) le by (auto intro: sorted_wrt_mono_rel)
  have "distinct (map frag_key frs)"
    unfolding assms(2) distinct_map using assms(4) eq by (auto intro: inj_onI)
  then have "inj_on frag_key (set frs)" by (simp add: distinct_map)
  then show "inj_on frag_key (set fs)" using mset_eq_setD [OF assms(1)] by simp
qed

text \<open>The header a receiver rebuilds: the first fragment's with no flags and its own length.\<close>

definition whole_header :: "u8 list \<Rightarrow> nat \<Rightarrow> u8 list" where
  "whole_header pkt len =
     (let hdr = set16 (set16 (set16 (take 20 pkt) 6 0) 2 (of_nat len)) 10 0
      in set16 hdr 10 (internet_checksum hdr))"

lemma whole_header_frag:
  "20 \<le> length pkt \<Longrightarrow>
     set16 (set16 (set16 (frag_header pkt n ff) 6 0) 2 (of_nat t)) 10
       (ip_checksum (set16 (set16 (set16 (frag_header pkt n ff) 6 0) 2 (of_nat t)) 10 0)) = whole_header pkt t"
proof -
  have "set16 (set16 (set16 (frag_header pkt n ff) 6 0) 2 (of_nat t)) 10 x =
      set16 (set16 (set16 (take 20 pkt) 6 0) 2 (of_nat t)) 10 x" for x
    by (simp add: frag_header_def Let_def set16_swap [of 6 10] set16_swap [of 2 10] set16_swap [of 6 2])
  then show ?thesis by (simp add: whole_header_def Let_def ip_checksum_eq)
qed

lemma fragment_packet_shape:
  assumes "nfs_ip_fragment_packet pkt mtu n = Inr frs" and "pkt ! 0 AND 0x0F = 5" and "\<not> nfs_ip_is_fragment (get16 pkt 6)"
    and "20 \<le> unat (get16 pkt 2)" and "28 \<le> unat mtu"
  defines "tot \<equiv> unat (get16 pkt 2)"
  shows "20 \<le> length pkt" and "tot \<le> length pkt"
    and "if tot \<le> unat mtu then frs = [\<lparr> fr_header = take 20 pkt, fr_payload = take (tot - 20) (drop 20 pkt) \<rparr>]
      else \<exists>mp k. 8 dvd mp \<and> 0 < mp \<and> 20 + mp \<le> unat mtu \<and> (k - 1) * mp < tot - 20 \<and> tot - 20 \<le> k * mp \<and>
        frs = frag_run pkt 20 (tot - 20) mp 0 False 0 k"
proof -
  have ihl: "(pkt ! 0 AND 0x0F) * 4 = 20" using assms(2) by simp
  show len: "20 \<le> length pkt" "tot \<le> length pkt"
    using assms(1) by (auto simp: nfs_ip_fragment_packet_def Let_def tot_def ihl split: if_splits)
  have twenty: "unat (20 :: u16) = 20" "unat (20 :: u8) = 20" "ucast (20 :: u8) = (20 :: u16)" by simp_all
  have plen: "unat (get16 pkt 2 - 20) = tot - 20"
    using assms(4) unat_sub [of "20 :: u16" "get16 pkt 2"] by (simp add: word_le_nat_alt tot_def)
  have small: "unat (mtu - 20) = unat mtu - 20" using assms(5) unat_sub [of "20 :: u16" mtu] by (simp add: word_le_nat_alt)
  define mw where "mw = ((mtu - 20) AND NOT 7)"
  note e = mw_def [symmetric]
  have mp: "unat mw = (unat mtu - 20) div 8 * 8" by (simp only: unat_and_not_7 small mw_def)
  have off: "nfs_ip_get_frag_offset (get16 pkt 6) = 0" "get16 pkt 6 AND NFS_IP_FLAG_MF = 0"
    using assms(3) by (simp_all add: nfs_ip_is_fragment_def nfs_ip_get_frag_offset_def)
  show "if tot \<le> unat mtu then frs = [\<lparr> fr_header = take 20 pkt, fr_payload = take (tot - 20) (drop 20 pkt) \<rparr>]
      else \<exists>mp k. 8 dvd mp \<and> 0 < mp \<and> 20 + mp \<le> unat mtu \<and> (k - 1) * mp < tot - 20 \<and> tot - 20 \<le> k * mp \<and>
        frs = frag_run pkt 20 (tot - 20) mp 0 False 0 k"
  proof (cases "tot \<le> unat mtu")
    case True
    then have "get16 pkt 2 \<le> mtu" by (simp add: word_le_nat_alt tot_def)
    then have "frs = [\<lparr> fr_header = take 20 pkt, fr_payload = take (unat (get16 pkt 2 - 20)) (drop 20 pkt) \<rparr>]"
      using assms(1) by (simp add: nfs_ip_fragment_packet_def Let_def ihl twenty split: if_splits)
    then show ?thesis using True plen by simp
  next
    case False
    then have le: "\<not> get16 pkt 2 \<le> mtu" by (simp add: word_le_nat_alt tot_def)
    define m k where "m = (unat mtu - 20) div 8 * 8" and "k = (tot - 20 + m - 1) div m"
    have m: "0 < m" "8 dvd m" "20 + m \<le> unat mtu" using assms(5) by (auto simp: m_def)
    note mp = mp [folded m_def]
    have "frs = frag_run pkt 20 (tot - 20) m 0 False 0 k"
      using assms(1) le unfolding nfs_ip_fragment_packet_def Let_def ihl e off
      by (simp add: twenty plen mp k_def split: if_splits)
    moreover have "(k - 1) * m < tot - 20 \<and> tot - 20 \<le> k * m"
    proof -
      define p where "p = tot - 20"
      have p: "0 < p" using False assms(5) by (simp add: p_def)
      have "k = (p - 1) div m + 1"
      proof -
        have e: "p + m - 1 = (p - 1) + m" using p by simp
        have "k = (p + m - 1) div m" by (simp only: k_def p_def)
        also have "\<dots> = (p - 1) div m + 1" unfolding e by (rule div_add_self2) (use m(1) in simp)
        finally show ?thesis .
      qed
      then have "(k - 1) * m = (p - 1) div m * m" "k * m = m + (p - 1) div m * m" by simp_all
      moreover have "(p - 1) div m * m \<le> p - 1" by (rule div_times_less_eq_dividend)
      moreover have "p - 1 < m + (p - 1) div m * m" by (rule dividend_less_div_times [OF m(1)])
      ultimately have "(k - 1) * m < p" "p \<le> k * m" using p by linarith+
      then show ?thesis by (simp add: p_def)
    qed
    ultimately have "8 dvd m \<and> 0 < m \<and> 20 + m \<le> unat mtu \<and> (k - 1) * m < tot - 20 \<and> tot - 20 \<le> k * m \<and>
        frs = frag_run pkt 20 (tot - 20) m 0 False 0 k"
      using m by blast
    then show ?thesis unfolding if_not_P [OF False] by blast
  qed
qed

text \<open>What the receiver sees of a packet that was split.\<close>

lemma split_packet:
  assumes "20 \<le> length pkt" and "20 + plen \<le> length pkt" and "plen < 65516" and "0 < mp" and "8 dvd mp"
    and "0 < plen" and "(k - 1) * mp < plen" and "plen \<le> k * mp" and "mset fs = mset (frag_run pkt 20 plen mp 0 False 0 k)"
    and "20 + plen \<le> out_sz"
  shows "nfs_ip_reassemble fs out_sz = Some (whole_header pkt (20 + plen) @ take plen (drop 20 pkt))"
    and "f \<in> set fs \<Longrightarrow> length (fr_payload f) \<le> mp \<and> internet_checksum (fr_header f) = 0 \<and>
      unat (get16 (fr_header f) 2) = 20 + length (fr_payload f)"
proof -
  have fr: "fragmenting pkt 20 plen mp" using assms by (simp add: fragmenting_def)
  have l: "left plen mp 0 k" using assms(6-8) by (simp add: left_def)
  have k: "k \<noteq> 0" using assms(6,8) by (cases k) auto
  have less: "(i * mp) div 8 < 65536" and mono: "j < i \<Longrightarrow> (j * mp) div 8 < (i * mp) div 8" if "i < k" for i j
  proof -
    have "i * mp \<le> (k - 1) * mp" by (rule mult_le_mono1) (use that in simp)
    then have "i * mp < plen" using assms(7) by linarith
    then show "(i * mp) div 8 < 65536" using assms(3) by linarith
    assume "j < i"
    obtain c where "mp = 8 * c" using assms(5) by (auto simp: dvd_def)
    then show "(j * mp) div 8 < (i * mp) div 8" using \<open>j < i\<close> assms(4) by (simp add: mult.left_commute)
  qed
  have mono_le: "j \<le> i \<Longrightarrow> (j * mp) div 8 \<le> (i * mp) div 8" if "i < k" for i j
    using mono [OF that, of j] by (cases "j = i") auto
  have sorted: "sort_key frag_key fs = frag_run pkt 20 plen mp 0 False 0 k"
  proof (rule sort_by_offset [OF assms(9)])
    show "map frag_key (frag_run pkt 20 plen mp 0 False 0 k) = map of_nat (map (\<lambda>i. (i * mp) div 8) [0..<k])"
      using frags_keys [OF fr l] by simp
    show "sorted (map (\<lambda>i. (i * mp) div 8) [0..<k])"
      by (auto simp: sorted_iff_nth_mono mono_le)
    show "distinct (map (\<lambda>i. (i * mp) div 8) [0..<k])"
      using mono by (auto simp: distinct_map inj_on_def) (metis linorder_neqE_nat less_irrefl)
  qed (use less in auto)
  obtain j where j: "k = Suc j" using k by (cases k) auto
  define g where "g = frag_at pkt 20 plen mp 0 (j \<noteq> 0)"
  have head: "hd (frag_run pkt 20 plen mp 0 False 0 k) = g" "fs \<noteq> []"
    using sorted unfolding j frag_run_Suc g_def by (auto simp del: frag_run.simps)
  have key: "frag_key g = 0" unfolding g_def using frag_at_facts(1) [OF fragmentingD(1-3) [OF fr], of 0] by simp
  have run: "reasm_run out_sz (frag_run pkt 20 plen mp 0 False 0 k) 0 [] = Some (take plen (drop 20 pkt))"
    using frags_reassemble [OF fr l _ assms(10), of "[]"] by simp
  have len: "length (take plen (drop 20 pkt)) = plen" using assms(2) by simp
  have hdr: "fr_header g = frag_header pkt (min mp plen) (of_nat 0 OR (if j \<noteq> 0 then NFS_IP_FLAG_MF else 0))"
    by (simp add: g_def frag_at_def)
  define pay where "pay = take plen (drop 20 pkt)"
  note run = run [folded pay_def] and len = len [folded pay_def]
  have "nfs_ip_reassemble fs out_sz = Some (whole_header pkt (20 + plen) @ pay)"
    using assms(10) head(2) unfolding nfs_ip_reassemble_def Let_def sorted head(1) key run
    by (simp add: hdr len whole_header_frag [OF assms(1)] del: of_nat_add)
  then show "nfs_ip_reassemble fs out_sz = Some (whole_header pkt (20 + plen) @ take plen (drop 20 pkt))"
    by (simp add: pay_def)
  assume "f \<in> set fs"
  then have "f \<in> set (frag_run pkt 20 plen mp 0 False 0 k)" using mset_eq_setD [OF assms(9)] by simp
  then obtain o' mf where f: "o' < plen" "f = frag_at pkt 20 plen mp o' mf" using frags_set [OF fr l, of f] by blast
  note facts = frag_at_facts [OF fragmentingD(1-3) [OF fr] less_imp_le [OF f(1)], where mp = mp and mf = mf, folded f(2)]
  have "20 + min mp (plen - o') < 65536" using assms(3) by simp
  then have "unat (get16 (fr_header f) 2) = 20 + min mp (plen - o')"
    unfolding facts(5) by (rule unat_of_nat_u16)
  then show "length (fr_payload f) \<le> mp \<and> internet_checksum (fr_header f) = 0 \<and>
      unat (get16 (fr_header f) 2) = 20 + length (fr_payload f)"
    using facts(3,4) by simp
qed

lemma whole_header_verifies: "20 \<le> length pkt \<Longrightarrow> internet_checksum (whole_header pkt t) = 0"
  unfolding whole_header_def Let_def by (intro rfc1071.refresh_verifies) simp_all


definition sample_packet :: "u8 list" where
  "sample_packet = [0x45, 0, 0, 60, 0, 1, 0, 0, 64, 17, 0, 0, 10, 0, 0, 1, 10, 0, 0, 2] @ replicate 40 7"

lemma sample_words:
  "sample_packet ! 0 = 0x45" "get16 sample_packet 2 = 60" "get16 sample_packet 6 = 0" "length sample_packet = 60"
  by (simp_all add: sample_packet_def get16_def be16_def)


text \<open>
  A link with less room than a header is not refused: the largest payload wraps, and a packet
  is not split although it does not fit.
\<close>

lemma tiny_mtu_not_refused:
  "nfs_ip_fragment_packet sample_packet 19 8 = Inr (frag_run sample_packet 20 40 65528 0 False 0 1)"
  by (simp add: nfs_ip_fragment_packet_def sample_words Let_def nfs_ip_get_frag_offset_def word_le_nat_alt)

text \<open>Reassembly takes a packet whose last fragment has not come for a whole one.\<close>

lemma reassembles_without_last:
  "length (fr_payload f) = 8 \<Longrightarrow> get16 (fr_header f) 6 = NFS_IP_FLAG_MF \<Longrightarrow> nfs_ip_reassemble [f] 28 \<noteq> None"
  by (simp add: nfs_ip_reassemble_def frag_key_def nfs_ip_get_frag_offset_def NFS_IP_FRAG_OFFSET_MASK_def NFS_IP_FLAG_MF_def Let_def)

end
