(* ===== verification/Quic.thy ===== *)
theory Quic
  imports Interfaces
begin

text \<open>
  QUIC packets and frames
  (\<^verbatim>\<open>phases/04-transport/36-quic-packets-and-frames/quic.c\<close>): integers of variable length,
  long and short headers, frame types. A decoder takes the bytes that arrived and returns the
  value with the number of bytes it used, \<open>None\<close> standing for \<open>-1\<close>.
\<close>

section \<open>Definitions\<close>

definition NFS_QUIC_HEADER_FORM_BIT :: u8 where "NFS_QUIC_HEADER_FORM_BIT = 0x80"
definition NFS_QUIC_FIXED_BIT :: u8 where "NFS_QUIC_FIXED_BIT = 0x40"
definition NFS_QUIC_SHORT_SPIN_BIT :: u8 where "NFS_QUIC_SHORT_SPIN_BIT = 0x20"
definition NFS_QUIC_SHORT_KEY_PHASE_BIT :: u8 where "NFS_QUIC_SHORT_KEY_PHASE_BIT = 0x04"
definition NFS_QUIC_MAX_CID_LEN :: nat where "NFS_QUIC_MAX_CID_LEN = 20"

definition nfs_quic_varint_size :: "u64 \<Rightarrow> nat option" where
  "nfs_quic_varint_size v =
     (if v \<le> 63 then Some 1 else if v \<le> 16383 then Some 2
      else if v \<le> 1073741823 then Some 4 else if v \<le> 4611686018427387903 then Some 8 else None)"

definition nfs_quic_varint_encode :: "u64 \<Rightarrow> nat \<Rightarrow> u8 list option" where
  "nfs_quic_varint_encode value out_sz =
     (case nfs_quic_varint_size value of
        None \<Rightarrow> None
      | Some sz \<Rightarrow>
          if sz > out_sz then None
          else if sz = 1 then Some [ucast value]
          else if sz = 2 then
            (let v = (ucast (0x4000 OR value) :: u16) in Some [ucast (drop_bit 8 v), ucast (v AND 0xFF)])
          else if sz = 4 then
            (let v = (ucast (0x80000000 OR value) :: u32)
             in Some [ucast (drop_bit 24 v), ucast (drop_bit 16 v), ucast (drop_bit 8 v), ucast (v AND 0xFF)])
          else if sz = 8 then
            (let v = 0xC000000000000000 OR value
             in Some [ucast (drop_bit 56 v), ucast (drop_bit 48 v), ucast (drop_bit 40 v), ucast (drop_bit 32 v),
                  ucast (drop_bit 24 v), ucast (drop_bit 16 v), ucast (drop_bit 8 v), ucast (v AND 0xFF)])
          else None)"

definition nfs_quic_varint_decode :: "u8 list \<Rightarrow> (u64 \<times> nat) option" where
  "nfs_quic_varint_decode data =
     (if data = [] then None
      else
        let prefix = drop_bit 6 (data ! 0); sz = 2 ^ unat prefix in
        if length data < sz then None
        else if sz = 1 then Some (ucast (data ! 0 AND 0x3F), sz)
        else if sz = 2 then Some (push_bit 8 (ucast (data ! 0 AND 0x3F)) OR ucast (data ! 1), sz)
        else if sz = 4 then
          Some (push_bit 24 (ucast (data ! 0 AND 0x3F)) OR push_bit 16 (ucast (data ! 1)) OR
            push_bit 8 (ucast (data ! 2)) OR ucast (data ! 3), sz)
        else if sz = 8 then
          Some (push_bit 56 (ucast (data ! 0 AND 0x3F)) OR push_bit 48 (ucast (data ! 1)) OR
            push_bit 40 (ucast (data ! 2)) OR push_bit 32 (ucast (data ! 3)) OR push_bit 24 (ucast (data ! 4)) OR
            push_bit 16 (ucast (data ! 5)) OR push_bit 8 (ucast (data ! 6)) OR ucast (data ! 7), sz)
        else None)"

record nfs_quic_long_hdr =
  ql_first_byte :: u8
  ql_version :: u32
  ql_dcid_len :: u8
  ql_dcid :: "u8 list"
  ql_scid_len :: u8
  ql_scid :: "u8 list"

record nfs_quic_short_hdr =
  qs_first_byte :: u8
  qs_dcid_len :: u8
  qs_dcid :: "u8 list"

definition nfs_quic_long_hdr_build :: "nfs_quic_long_hdr \<Rightarrow> nat \<Rightarrow> u8 list option" where
  "nfs_quic_long_hdr_build hdr out_sz =
     (if unat (ql_dcid_len hdr) > NFS_QUIC_MAX_CID_LEN \<or> unat (ql_scid_len hdr) > NFS_QUIC_MAX_CID_LEN then None
      else if 1 + 4 + 1 + unat (ql_dcid_len hdr) + 1 + unat (ql_scid_len hdr) > out_sz then None
      else Some ([ql_first_byte hdr OR NFS_QUIC_HEADER_FORM_BIT] @ put32 (ql_version hdr)
        @ [ql_dcid_len hdr] @ take (unat (ql_dcid_len hdr)) (ql_dcid hdr)
        @ [ql_scid_len hdr] @ take (unat (ql_scid_len hdr)) (ql_scid hdr)))"

text \<open>An identifier as read into a zeroed array of 20 bytes.\<close>

definition read_cid :: "u8 list \<Rightarrow> nat \<Rightarrow> nat \<Rightarrow> u8 list" where
  "read_cid data pos n = take n (drop pos data) @ replicate (NFS_QUIC_MAX_CID_LEN - n) 0"

definition nfs_quic_long_hdr_parse :: "u8 list \<Rightarrow> (nfs_quic_long_hdr \<times> nat) option" where
  "nfs_quic_long_hdr_parse data =
     (if length data < 7 then None
      else if data ! 0 AND NFS_QUIC_HEADER_FORM_BIT = 0 then None
      else
        let dl = unat (data ! 5) in
        if dl > NFS_QUIC_MAX_CID_LEN then None
        else if 6 + dl \<ge> length data then None
        else
          let pos = 6 + dl in
          if pos \<ge> length data then None
          else
            let sl = unat (data ! pos) in
            if sl > NFS_QUIC_MAX_CID_LEN then None
            else if pos + 1 + sl > length data then None
            else Some (\<lparr> ql_first_byte = data ! 0, ql_version = get32 data 1, ql_dcid_len = data ! 5,
              ql_dcid = read_cid data 6 dl, ql_scid_len = data ! pos, ql_scid = read_cid data (pos + 1) sl \<rparr>,
              pos + 1 + sl))"

definition nfs_quic_long_hdr_type :: "u8 \<Rightarrow> u8" where
  "nfs_quic_long_hdr_type first_byte = drop_bit 4 first_byte AND 0x03"

definition nfs_quic_short_hdr_build :: "nfs_quic_short_hdr \<Rightarrow> nat \<Rightarrow> u8 list option" where
  "nfs_quic_short_hdr_build hdr out_sz =
     (if unat (qs_dcid_len hdr) > NFS_QUIC_MAX_CID_LEN then None
      else if 1 + unat (qs_dcid_len hdr) > out_sz then None
      else Some ([(qs_first_byte hdr AND NOT NFS_QUIC_HEADER_FORM_BIT) OR NFS_QUIC_FIXED_BIT]
        @ take (unat (qs_dcid_len hdr)) (qs_dcid hdr)))"

definition nfs_quic_short_hdr_parse :: "u8 \<Rightarrow> u8 list \<Rightarrow> (nfs_quic_short_hdr \<times> nat) option" where
  "nfs_quic_short_hdr_parse dcid_len data =
     (if unat dcid_len > NFS_QUIC_MAX_CID_LEN then None
      else if length data < 1 + unat dcid_len then None
      else if data ! 0 AND NFS_QUIC_HEADER_FORM_BIT \<noteq> 0 then None
      else Some (\<lparr> qs_first_byte = data ! 0, qs_dcid_len = dcid_len, qs_dcid = read_cid data 1 (unat dcid_len) \<rparr>,
        1 + unat dcid_len))"

definition nfs_quic_short_hdr_spin :: "u8 \<Rightarrow> bool" where
  "nfs_quic_short_hdr_spin first_byte \<longleftrightarrow> first_byte AND NFS_QUIC_SHORT_SPIN_BIT \<noteq> 0"

definition nfs_quic_short_hdr_key_phase :: "u8 \<Rightarrow> bool" where
  "nfs_quic_short_hdr_key_phase first_byte \<longleftrightarrow> first_byte AND NFS_QUIC_SHORT_KEY_PHASE_BIT \<noteq> 0"

definition nfs_quic_frame_type :: "u8 list \<Rightarrow> u8 option" where
  "nfs_quic_frame_type data = (if data = [] then None else Some (data ! 0))"

definition nfs_quic_is_stream_frame :: "u8 \<Rightarrow> bool" where
  "nfs_quic_is_stream_frame frame_type \<longleftrightarrow> frame_type \<ge> 0x08 \<and> frame_type \<le> 0x0F"

definition nfs_quic_stream_has_fin :: "u8 \<Rightarrow> bool" where "nfs_quic_stream_has_fin t \<longleftrightarrow> t AND 0x01 \<noteq> 0"
definition nfs_quic_stream_has_len :: "u8 \<Rightarrow> bool" where "nfs_quic_stream_has_len t \<longleftrightarrow> t AND 0x02 \<noteq> 0"
definition nfs_quic_stream_has_off :: "u8 \<Rightarrow> bool" where "nfs_quic_stream_has_off t \<longleftrightarrow> t AND 0x04 \<noteq> 0"

definition nfs_quic_frame_name :: "u8 \<Rightarrow> string" where
  "nfs_quic_frame_name t =
     (if t = 0x00 then ''PADDING'' else if t = 0x01 then ''PING'' else if t = 0x02 then ''ACK''
      else if t = 0x03 then ''ACK_ECN'' else if nfs_quic_is_stream_frame t then ''STREAM'' else ''UNKNOWN'')"

definition nfs_quic_long_type_name :: "u8 \<Rightarrow> string" where
  "nfs_quic_long_type_name t =
     (if t = 0x00 then ''Initial'' else if t = 0x01 then ''0-RTT'' else if t = 0x02 then ''Handshake''
      else if t = 0x03 then ''Retry'' else ''Unknown'')"

section \<open>Integers of variable length\<close>

text \<open>The big-endian bytes of the low \<open>8 n\<close> bits of a value, and the value of such bytes.\<close>

fun be_bytes :: "nat \<Rightarrow> u64 \<Rightarrow> u8 list" where
  "be_bytes 0 v = []"
| "be_bytes (Suc n) v = ucast (drop_bit (8 * n) v) # be_bytes n v"

fun be_value :: "u8 list \<Rightarrow> u64" where
  "be_value [] = 0"
| "be_value (b # bs) = push_bit (8 * length bs) (ucast b) OR be_value bs"

lemma length_be_bytes [simp]: "length (be_bytes n v) = n"
  by (induction n) simp_all

lemma bit_be_value_bytes: "n \<le> 8 \<Longrightarrow> bit (be_value (be_bytes n v)) i \<longleftrightarrow> i < 8 * n \<and> bit v i"
proof (induction n)
  case (Suc n)
  let ?b = "ucast (ucast (drop_bit (8 * n) v) :: u8) :: u64"
  have b: "bit ?b j \<longleftrightarrow> j < 8 \<and> bit v (8 * n + j)" for j
    using bit_imp_le_length [of v "8 * n + j"] by (auto simp: bit_ucast_iff bit_drop_bit_eq)
  have "bit (push_bit (8 * n) ?b) i \<longleftrightarrow> 8 * n \<le> i \<and> i < 8 * Suc n \<and> bit v i"
  proof (cases "8 * n \<le> i")
    case True
    then obtain j where i: "i = 8 * n + j" by (auto simp: le_iff_add)
    show ?thesis using Suc.prems b [of j] unfolding i bit_push_bit_iff possible_bit_word by auto
  qed (simp add: bit_push_bit_iff)
  then show ?case
    unfolding be_bytes.simps be_value.simps length_be_bytes bit_or_iff Suc.IH [OF Suc_leD [OF Suc.prems]] by auto
qed simp

text \<open>The decoder's sum of shifted bytes.\<close>

lemma take_bit_byte: "8 \<le> n \<Longrightarrow> take_bit n (ucast (b :: u8) :: u64) = ucast b"
  by (rule bit_word_eqI) (auto simp: bit_take_bit_iff bit_ucast_iff dest: bit_imp_le_length)

lemma take_bit_6_byte: "take_bit 6 (ucast (b :: u8) :: u64) = ucast (b AND 0x3F)"
proof -
  have m: "(0x3F :: u8) = mask 6" by (simp add: mask_eq_exp_minus_1)
  show ?thesis unfolding m by (rule bit_word_eqI) (auto simp: bit_take_bit_iff bit_ucast_iff bit_and_iff bit_mask_iff)
qed

lemmas read_value = be_value.simps list.size take_bit_or take_bit_push_bit take_bit_byte take_bit_6_byte

text \<open>A value below the two bits that carry the length, with those bits set.\<close>

lemma value_bits: "unat (v :: u64) < 2 ^ k \<Longrightarrow> bit v i \<Longrightarrow> i < k"
  by (rule bit_less_exp)

lemma tagged_value:
  assumes "unat v < 2 ^ (8 * n - 2)" and "1 \<le> n" and "n \<le> 8"
  shows "take_bit (8 * n - 2) (be_value (be_bytes n (v OR push_bit (8 * n - 2) tag))) = v"
  by (rule bit_word_eqI)
    (use assms(2,3) in \<open>auto simp: bit_take_bit_iff bit_be_value_bytes bit_or_iff bit_push_bit_iff dest: value_bits [OF assms(1)]\<close>)

lemma tagged_prefix:
  assumes "unat v < 2 ^ (8 * n - 2)" and "1 \<le> n" and "n \<le> 8" and "tag < 4"
  shows "drop_bit 6 (be_bytes n (v OR push_bit (8 * n - 2) tag) ! 0) = ucast tag"
proof -
  obtain m where n: "n = Suc m" using assms(2) by (cases n) auto
  have t: "i < 2" if "bit tag i" for i
    using that assms(4) value_bits [of tag 2] by (simp add: word_less_nat_alt)
  show ?thesis
    unfolding n be_bytes.simps nth_Cons_0
  proof (rule bit_word_eqI)
    fix i assume "i < LENGTH(8)"
    have "\<not> bit v (8 * m + (6 + i))" using value_bits [OF assms(1), of "8 * m + (6 + i)"] by (auto simp: n)
    then show "bit (drop_bit 6 (ucast (drop_bit (8 * m) (v OR push_bit (8 * Suc m - 2) tag)) :: u8)) i \<longleftrightarrow> bit (ucast tag :: u8) i"
      using assms(3) t [of i] by (auto simp: bit_drop_bit_eq bit_ucast_iff bit_or_iff bit_push_bit_iff n dest: t)
  qed
qed

lemma decode_value:
  assumes "data \<noteq> []" and "drop_bit 6 (data ! 0) = (ucast tag :: u8)" and "n = 2 ^ unat tag" and "tag < (4 :: u64)"
    and "n \<le> length data"
  shows "nfs_quic_varint_decode data = Some (take_bit (8 * n - 2) (be_value (take n data)), n)"
proof -
  have tag: "unat (ucast tag :: u8) = unat tag"
    using assms(4) by (simp add: unsigned_ucast_eq take_bit_nat_eq_self_iff word_less_nat_alt)
  obtain d ds where d: "data = d # ds" using assms(1) by (cases data) auto
  have "unat tag < 4" using assms(4) by (simp add: word_less_nat_alt)
  then consider "unat tag = 0" | "unat tag = 1" | "unat tag = 2" | "unat tag = 3" by linarith
  then show ?thesis
  proof cases
    case 1
    have "ucast (d AND 0x3F) = take_bit 6 (be_value [d])"
      by (simp add: read_value)
    then show ?thesis using 1 assms by (simp add: nfs_quic_varint_decode_def tag d)
  next
    case 2
    then obtain e es where e: "ds = e # es" using assms(3,5) d by (cases ds) auto
    have "push_bit 8 (ucast (d AND 0x3F)) OR ucast e = take_bit 14 (be_value [d, e])"
      by (simp add: read_value or.assoc)
    then show ?thesis using 2 assms by (simp add: nfs_quic_varint_decode_def tag d e numeral_2_eq_2)
  next
    case 3
    then obtain e1 e2 e3 es where e: "ds = e1 # e2 # e3 # es" using assms(3,5) d
      by (cases ds; cases "tl ds"; cases "tl (tl ds)") auto
    have "push_bit 24 (ucast (d AND 0x3F)) OR push_bit 16 (ucast e1) OR push_bit 8 (ucast e2) OR ucast e3 =
        take_bit 30 (be_value [d, e1, e2, e3])"
      by (simp add: read_value or.assoc)
    then show ?thesis using 3 assms by (simp add: nfs_quic_varint_decode_def tag d e)
  next
    case 4
    then obtain e1 e2 e3 e4 e5 e6 e7 es where e: "ds = e1 # e2 # e3 # e4 # e5 # e6 # e7 # es"
      using assms(3,5) d by (auto simp: numeral_eq_Suc Suc_le_length_iff)
    have "push_bit 56 (ucast (d AND 0x3F)) OR push_bit 48 (ucast e1) OR push_bit 40 (ucast e2) OR push_bit 32 (ucast e3)
        OR push_bit 24 (ucast e4) OR push_bit 16 (ucast e5) OR push_bit 8 (ucast e6) OR ucast e7 =
        take_bit 62 (be_value [d, e1, e2, e3, e4, e5, e6, e7])"
      by (simp add: read_value or.assoc)
    then show ?thesis using 4 assms by (simp add: nfs_quic_varint_decode_def tag d e)
  qed
qed

text \<open>The bytes the encoder writes.\<close>

lemma low_byte_of: "ucast (x AND 0xFF) = (ucast x :: u8)" for x :: "'a::len word"
proof -
  have m: "(0xFF :: 'a word) = mask 8" by (simp add: mask_eq_exp_minus_1)
  show ?thesis unfolding m by (rule bit_word_eqI) (auto simp: bit_ucast_iff bit_and_iff bit_mask_iff dest: bit_imp_le_length)
qed

lemma narrow_byte:
  "k + 8 \<le> LENGTH('a) \<Longrightarrow> ucast (drop_bit k (ucast (w :: u64) :: 'a::len word)) = (ucast (drop_bit k w) :: u8)"
  by (rule bit_word_eqI) (auto simp: bit_ucast_iff bit_drop_bit_eq)

definition varint_tag :: "nat \<Rightarrow> u64" where
  "varint_tag n = (if n = 1 then 0 else if n = 2 then 1 else if n = 4 then 2 else 3)"

abbreviation varint_bytes :: "nat \<Rightarrow> u64 \<Rightarrow> u8 list" where
  "varint_bytes n v \<equiv> be_bytes n (v OR push_bit (8 * n - 2) (varint_tag n))"

lemma varint_size_cases:
  assumes "nfs_quic_varint_size v = Some n"
  shows "n \<in> {1, 2, 4, 8}" and "unat v < 2 ^ (8 * n - 2)" and "n = 2 ^ unat (varint_tag n)" and "varint_tag n < 4"
  using assms by (auto simp: nfs_quic_varint_size_def varint_tag_def word_le_nat_alt split: if_splits)

lemma be_bytes_unfold:
  "be_bytes 1 w = [ucast w]" "be_bytes 2 w = [ucast (drop_bit 8 w), ucast w]"
  "be_bytes 4 w = [ucast (drop_bit 24 w), ucast (drop_bit 16 w), ucast (drop_bit 8 w), ucast w]"
  "be_bytes 8 w = [ucast (drop_bit 56 w), ucast (drop_bit 48 w), ucast (drop_bit 40 w), ucast (drop_bit 32 w),
     ucast (drop_bit 24 w), ucast (drop_bit 16 w), ucast (drop_bit 8 w), ucast w]"
  by (simp_all add: numeral_eq_Suc)

lemma varint_encode_eq:
  "nfs_quic_varint_encode v out_sz =
     (case nfs_quic_varint_size v of None \<Rightarrow> None | Some n \<Rightarrow> if n > out_sz then None else Some (varint_bytes n v))"
proof (cases "nfs_quic_varint_size v")
  case (Some n)
  have w: "v OR push_bit (8 * n - 2) (varint_tag n) =
      (if n = 1 then v else if n = 2 then 0x4000 OR v else if n = 4 then 0x80000000 OR v else 0xC000000000000000 OR v)"
    using varint_size_cases(1) [OF Some] by (auto simp: varint_tag_def or.commute)
  have low: "ucast (ucast x :: 'a::len word) = (ucast x :: u8)" if "8 \<le> LENGTH('a)" for x :: u64
    using narrow_byte [of 0 x, where 'a = 'a] that by simp
  consider "n = 1" | "n = 2" | "n = 4" | "n = 8" using varint_size_cases(1) [OF Some] by auto
  then show ?thesis
  proof cases
    case 1
    then show ?thesis by (simp add: nfs_quic_varint_encode_def Some varint_tag_def be_bytes_unfold)
  next
    case 2
    define x where "x = 0x4000 OR v"
    show ?thesis
      unfolding nfs_quic_varint_encode_def Some option.case w low_byte_of Let_def x_def [symmetric]
      by (simp add: 2 be_bytes_unfold narrow_byte low)
  next
    case 3
    define x where "x = 0x80000000 OR v"
    show ?thesis
      unfolding nfs_quic_varint_encode_def Some option.case w low_byte_of Let_def x_def [symmetric]
      by (simp add: 3 be_bytes_unfold narrow_byte low)
  next
    case 4
    define x where "x = 0xC000000000000000 OR v"
    show ?thesis
      unfolding nfs_quic_varint_encode_def Some option.case w low_byte_of Let_def x_def [symmetric]
      by (simp add: 4 be_bytes_unfold)
  qed
qed (simp add: nfs_quic_varint_encode_def)

lemma varint_decode_bytes:
  assumes "nfs_quic_varint_size v = Some n"
  shows "nfs_quic_varint_decode (varint_bytes n v @ rest) = Some (v, n)"
proof -
  note c = varint_size_cases [OF assms]
  have n: "1 \<le> n" "n \<le> 8" using c(1) by auto
  have "varint_bytes n v @ rest \<noteq> []" and first: "(varint_bytes n v @ rest) ! 0 = varint_bytes n v ! 0"
    using n(1) by (auto simp: nth_append dest: arg_cong [where f = length])
  then have "nfs_quic_varint_decode (varint_bytes n v @ rest) =
      Some (take_bit (8 * n - 2) (be_value (take n (varint_bytes n v @ rest))), n)"
    using tagged_prefix [OF c(2) n c(4)] by (intro decode_value [OF _ _ c(3,4)]) (simp_all add: first)
  then show ?thesis using tagged_value [OF c(2) n] by simp
qed

lemma decode_too_short: "length ds < 2 ^ unat (drop_bit 6 (ds ! 0)) \<Longrightarrow> nfs_quic_varint_decode ds = None"
  by (simp add: nfs_quic_varint_decode_def Let_def)

lemma varint_decode_short:
  assumes "nfs_quic_varint_size v = Some n" and "k < n"
  shows "nfs_quic_varint_decode (take k (varint_bytes n v)) = None"
proof (cases k)
  case 0
  then show ?thesis by (simp add: nfs_quic_varint_decode_def)
next
  case (Suc j)
  note c = varint_size_cases [OF assms(1)]
  have n: "1 \<le> n" "n \<le> 8" using c(1) by auto
  have "unat (ucast (varint_tag n) :: u8) = unat (varint_tag n)"
    using c(4) by (simp add: unsigned_ucast_eq take_bit_nat_eq_self_iff word_less_nat_alt)
  then have "2 ^ unat (drop_bit 6 (take k (varint_bytes n v) ! 0)) = n"
    using tagged_prefix [OF c(2) n c(4)] c(3) Suc by simp
  moreover have "length (take k (varint_bytes n v)) < n" using assms(2) by simp
  ultimately show ?thesis by (intro decode_too_short) simp
qed

interpretation varint: self_delimiting "\<lambda>v. the (nfs_quic_varint_encode v 8)" nfs_quic_varint_decode
  "\<lambda>v. v \<le> 4611686018427387903"
proof
  fix v :: u64 and rest
  assume v: "v \<le> 4611686018427387903"
  obtain n where n: "nfs_quic_varint_size v = Some n"
    using v by (cases "nfs_quic_varint_size v") (auto simp: nfs_quic_varint_size_def split: if_splits)
  have "n \<le> 8" using varint_size_cases(1) [OF n] by auto
  then show "nfs_quic_varint_decode (the (nfs_quic_varint_encode v 8) @ rest) = Some (v, length (the (nfs_quic_varint_encode v 8)))"
    using varint_decode_bytes [OF n] by (simp add: varint_encode_eq n)
qed

text \<open>
  Integers of variable length can be laid one after the other: any sequence of values below
  \<open>2 ^ 62\<close> is read back from its encodings, whatever follows, and a truncated encoding is refused.
  An encoding takes 1, 2, 4 or 8 bytes, as few as hold the value, and fails exactly for a larger
  value or too small a buffer.
\<close>
theorem quic_varints_roundtrip:
  assumes "list_all (\<lambda>v. v \<le> 4611686018427387903) vs"
  shows "read_items nfs_quic_varint_decode (length vs)
      (concat (map (\<lambda>v. the (nfs_quic_varint_encode v 8)) vs) @ rest) = Some (vs, rest) \<and>
    (\<forall>v out_sz. case nfs_quic_varint_encode v out_sz of
        None \<Rightarrow> v > 4611686018427387903 \<or> out_sz < the (nfs_quic_varint_size v)
      | Some bs \<Rightarrow> length bs \<in> {1, 2, 4, 8} \<and> unat v < 2 ^ (8 * length bs - 2) \<and>
          (\<forall>n \<in> {1, 2, 4, 8}. unat v < 2 ^ (8 * n - 2) \<longrightarrow> length bs \<le> n) \<and>
          (\<forall>k < length bs. nfs_quic_varint_decode (take k bs) = None))"
proof
  show "read_items nfs_quic_varint_decode (length vs)
      (concat (map (\<lambda>v. the (nfs_quic_varint_encode v 8)) vs) @ rest) = Some (vs, rest)"
    by (rule varint.read_items_concat [OF assms])
  show "\<forall>v out_sz. case nfs_quic_varint_encode v out_sz of
        None \<Rightarrow> v > 4611686018427387903 \<or> out_sz < the (nfs_quic_varint_size v)
      | Some bs \<Rightarrow> length bs \<in> {1, 2, 4, 8} \<and> unat v < 2 ^ (8 * length bs - 2) \<and>
          (\<forall>n \<in> {1, 2, 4, 8}. unat v < 2 ^ (8 * n - 2) \<longrightarrow> length bs \<le> n) \<and>
          (\<forall>k < length bs. nfs_quic_varint_decode (take k bs) = None)"
  proof (intro allI)
    fix v out_sz
    show "case nfs_quic_varint_encode v out_sz of
        None \<Rightarrow> v > 4611686018427387903 \<or> out_sz < the (nfs_quic_varint_size v)
      | Some bs \<Rightarrow> length bs \<in> {1, 2, 4, 8} \<and> unat v < 2 ^ (8 * length bs - 2) \<and>
          (\<forall>n \<in> {1, 2, 4, 8}. unat v < 2 ^ (8 * n - 2) \<longrightarrow> length bs \<le> n) \<and>
          (\<forall>k < length bs. nfs_quic_varint_decode (take k bs) = None)"
    proof (cases "nfs_quic_varint_size v")
      case None
      then show ?thesis
        by (auto simp: varint_encode_eq nfs_quic_varint_size_def word_le_nat_alt word_less_nat_alt split: if_splits)
    next
      case (Some n)
      have "\<forall>m \<in> {1, 2, 4, 8}. unat v < 2 ^ (8 * m - 2) \<longrightarrow> n \<le> m"
        using Some by (auto simp: nfs_quic_varint_size_def word_le_nat_alt split: if_splits)
      then show ?thesis
        using varint_size_cases(1,2) [OF Some] varint_decode_short [OF Some] by (simp add: varint_encode_eq Some)
    qed
  qed
qed

lemma quic_varints_roundtrip_witness:
  "read_items nfs_quic_varint_decode (length [37 :: u64, 15293])
     (concat (map (\<lambda>v. the (nfs_quic_varint_encode v 8)) [37, 15293]) @ [1]) = Some ([37, 15293], [1])"
proof -
  have "list_all (\<lambda>v. v \<le> 4611686018427387903) [37 :: u64, 15293]" by (simp add: word_le_nat_alt)
  from conjunct1 [OF quic_varints_roundtrip [OF this]] show ?thesis .
qed

section \<open>Headers\<close>

text \<open>A long header as it can be sent: identifiers within their arrays, of which the rest is zero.\<close>

definition cid_ok :: "u8 \<Rightarrow> u8 list \<Rightarrow> bool" where
  "cid_ok n cid \<longleftrightarrow> unat n \<le> NFS_QUIC_MAX_CID_LEN \<and> length cid = NFS_QUIC_MAX_CID_LEN \<and>
     drop (unat n) cid = replicate (NFS_QUIC_MAX_CID_LEN - unat n) 0"

lemma read_back_cid:
  "cid_ok n cid \<Longrightarrow> pos = length pre \<Longrightarrow> read_cid (pre @ take (unat n) cid @ rest) pos (unat n) = cid"
  by (auto simp: cid_ok_def read_cid_def min_def) (metis append_take_drop_id)

definition long_hdr_ok :: "nfs_quic_long_hdr \<Rightarrow> bool" where
  "long_hdr_ok h \<longleftrightarrow> bit (ql_first_byte h) 7 \<and>
     cid_ok (ql_dcid_len h) (ql_dcid h) \<and> cid_ok (ql_scid_len h) (ql_scid h)"

definition short_hdr_ok :: "u8 \<Rightarrow> nfs_quic_short_hdr \<Rightarrow> bool" where
  "short_hdr_ok n h \<longleftrightarrow> \<not> bit (qs_first_byte h) 7 \<and> bit (qs_first_byte h) 6 \<and> qs_dcid_len h = n \<and> cid_ok (qs_dcid_len h) (qs_dcid h)"

lemma form_bit: "x AND NFS_QUIC_HEADER_FORM_BIT = 0 \<longleftrightarrow> \<not> bit x 7"
  using and_exp_eq_0_iff_not_bit [of x 7] by (simp add: NFS_QUIC_HEADER_FORM_BIT_def)

lemma bit_single: "bit (push_bit k 1 :: u8) n \<longleftrightarrow> n = k \<and> k < 8"
  unfolding bit_push_bit_iff bit_1_iff possible_bit_word by auto

lemma or_form_bit: "bit x 7 \<Longrightarrow> x OR NFS_QUIC_HEADER_FORM_BIT = x"
proof -
  have m: "NFS_QUIC_HEADER_FORM_BIT = push_bit 7 1" by (simp add: NFS_QUIC_HEADER_FORM_BIT_def)
  assume "bit x 7"
  then show ?thesis unfolding m by (intro bit_word_eqI) (auto simp only: bit_or_iff bit_single)
qed

lemma short_first_byte:
  assumes "\<not> bit x 7" and "bit x 6"
  shows "(x AND NOT NFS_QUIC_HEADER_FORM_BIT) OR NFS_QUIC_FIXED_BIT = x"
proof -
  have m: "NFS_QUIC_HEADER_FORM_BIT = push_bit 7 1" "NFS_QUIC_FIXED_BIT = push_bit 6 1"
    by (simp_all add: NFS_QUIC_HEADER_FORM_BIT_def NFS_QUIC_FIXED_BIT_def)
  show ?thesis
    unfolding m by (rule bit_word_eqI) (use assms in \<open>auto simp only: bit_or_iff bit_and_iff bit_not_iff bit_single possible_bit_word\<close>)
qed

interpretation long_hdr: self_delimiting "\<lambda>h. the (nfs_quic_long_hdr_build h 47)" nfs_quic_long_hdr_parse long_hdr_ok
proof
  fix h and rest :: "u8 list"
  assume ok: "long_hdr_ok h"
  define d s where "d = take (unat (ql_dcid_len h)) (ql_dcid h)" and "s = take (unat (ql_scid_len h)) (ql_scid h)"
  have cid: "cid_ok (ql_dcid_len h) (ql_dcid h)" "cid_ok (ql_scid_len h) (ql_scid h)" and form: "bit (ql_first_byte h) 7"
    using ok by (simp_all add: long_hdr_ok_def)
  have len: "length d = unat (ql_dcid_len h)" "length s = unat (ql_scid_len h)"
    "unat (ql_dcid_len h) \<le> 20" "unat (ql_scid_len h) \<le> 20"
    using cid by (simp_all add: cid_ok_def d_def s_def NFS_QUIC_MAX_CID_LEN_def)
  define bs where "bs = [ql_first_byte h] @ put32 (ql_version h) @ [ql_dcid_len h] @ d @ [ql_scid_len h] @ s"
  have built: "nfs_quic_long_hdr_build h 47 = Some bs"
    using len(3,4) by (simp add: nfs_quic_long_hdr_build_def bs_def d_def s_def NFS_QUIC_MAX_CID_LEN_def or_form_bit [OF form])
  have dcid: "read_cid (bs @ rest) 6 (unat (ql_dcid_len h)) = ql_dcid h"
    using read_back_cid [OF cid(1), of 6 "ql_first_byte h # put32 (ql_version h) @ [ql_dcid_len h]" "[ql_scid_len h] @ s @ rest"]
    by (simp add: bs_def d_def)
  have scid: "read_cid (bs @ rest) (6 + unat (ql_dcid_len h) + 1) (unat (ql_scid_len h)) = ql_scid h"
    using read_back_cid [OF cid(2), of "6 + unat (ql_dcid_len h) + 1"
        "ql_first_byte h # put32 (ql_version h) @ [ql_dcid_len h] @ d @ [ql_scid_len h]" rest]
    by (simp add: bs_def s_def len)
  have nth: "(bs @ rest) ! 0 = ql_first_byte h" "(bs @ rest) ! 5 = ql_dcid_len h" "get32 (bs @ rest) 1 = ql_version h"
    "(bs @ rest) ! (6 + unat (ql_dcid_len h)) = ql_scid_len h" "length bs = 6 + unat (ql_dcid_len h) + 1 + unat (ql_scid_len h)"
    by (simp_all add: bs_def get_past nth_append len)
  have form0: "ql_first_byte h AND NFS_QUIC_HEADER_FORM_BIT \<noteq> 0" using form form_bit by blast
  show "nfs_quic_long_hdr_parse (the (nfs_quic_long_hdr_build h 47) @ rest) =
      Some (h, length (the (nfs_quic_long_hdr_build h 47)))"
    using len(3,4) form0 unfolding built option.sel nfs_quic_long_hdr_parse_def Let_def nth(1-4) dcid scid
    by (simp add: nth(5) NFS_QUIC_MAX_CID_LEN_def)
qed

interpretation short_hdr: self_delimiting "\<lambda>h. the (nfs_quic_short_hdr_build h 21)" "nfs_quic_short_hdr_parse n" "short_hdr_ok n"
  for n
proof
  fix h and rest :: "u8 list"
  assume ok: "short_hdr_ok n h"
  define d where "d = take (unat n) (qs_dcid h)"
  have cid: "cid_ok n (qs_dcid h)" and n: "qs_dcid_len h = n" and first: "\<not> bit (qs_first_byte h) 7" "bit (qs_first_byte h) 6"
    using ok by (auto simp: short_hdr_ok_def)
  have len: "length d = unat n" "unat n \<le> 20" using cid by (simp_all add: cid_ok_def d_def NFS_QUIC_MAX_CID_LEN_def)
  have built: "nfs_quic_short_hdr_build h 21 = Some (qs_first_byte h # d)"
    using len by (simp add: nfs_quic_short_hdr_build_def n d_def NFS_QUIC_MAX_CID_LEN_def short_first_byte [OF first])
  have "read_cid ((qs_first_byte h # d) @ rest) 1 (unat n) = qs_dcid h"
    using read_back_cid [OF cid, of 1 "[qs_first_byte h]" rest] by (simp add: d_def)
  then show "nfs_quic_short_hdr_parse n (the (nfs_quic_short_hdr_build h 21) @ rest) =
      Some (h, length (the (nfs_quic_short_hdr_build h 21)))"
    using len form_bit [of "qs_first_byte h"] first(1) n
    by (simp add: built nfs_quic_short_hdr_parse_def NFS_QUIC_MAX_CID_LEN_def)
qed

text \<open>
  Packet headers are read back as built: a long header with identifiers of at most 20 bytes
  parses to itself in front of any payload, a short header does for a receiver that knows the
  length of its identifier, and no packet is both.
\<close>
theorem quic_headers_roundtrip:
  assumes "long_hdr_ok h" and "short_hdr_ok n g"
  shows "nfs_quic_long_hdr_parse (the (nfs_quic_long_hdr_build h 47) @ rest) =
      Some (h, length (the (nfs_quic_long_hdr_build h 47))) \<and>
    nfs_quic_short_hdr_parse n (the (nfs_quic_short_hdr_build g 21) @ rest) =
      Some (g, length (the (nfs_quic_short_hdr_build g 21))) \<and>
    (nfs_quic_long_hdr_parse data = None \<or> nfs_quic_short_hdr_parse m data = None)"
proof -
  have "nfs_quic_long_hdr_parse data = None \<or> nfs_quic_short_hdr_parse m data = None"
    by (cases "data ! 0 AND NFS_QUIC_HEADER_FORM_BIT = 0") (simp_all add: nfs_quic_long_hdr_parse_def nfs_quic_short_hdr_parse_def)
  then show ?thesis using long_hdr.dec_enc_rest [OF assms(1)] short_hdr.dec_enc_rest [OF assms(2)] by simp
qed

lemma quic_headers_roundtrip_witness:
  "nfs_quic_short_hdr_parse 2 (the (nfs_quic_short_hdr_build
     \<lparr> qs_first_byte = 0x41, qs_dcid_len = 2, qs_dcid = [1, 2] @ replicate 18 0 \<rparr> 21) @ [9, 9]) =
   Some (\<lparr> qs_first_byte = 0x41, qs_dcid_len = 2, qs_dcid = [1, 2] @ replicate 18 0 \<rparr>, 3)"
proof -
  let ?g = "\<lparr> qs_first_byte = 0x41, qs_dcid_len = 2, qs_dcid = [1, 2] @ replicate 18 0 \<rparr>"
  let ?h = "\<lparr> ql_first_byte = 0xC0, ql_version = 1, ql_dcid_len = 2, ql_dcid = [1, 2] @ replicate 18 0,
    ql_scid_len = 0, ql_scid = replicate 20 0 \<rparr>"
  have "long_hdr_ok ?h" "short_hdr_ok 2 ?g"
    by (simp_all add: long_hdr_ok_def short_hdr_ok_def cid_ok_def NFS_QUIC_MAX_CID_LEN_def bit_numeral_simps)
  from quic_headers_roundtrip [OF this, of "[9, 9]"] show ?thesis
    by (simp add: nfs_quic_short_hdr_build_def NFS_QUIC_MAX_CID_LEN_def)
qed

end
