(* ===== verification/Coding.thy ===== *)
theory Coding
  imports Prelude
begin

text \<open>
  Codes on the wire: the Hamming(7,4) error-correcting code
  (\<^verbatim>\<open>phases/01-bits-and-wires/09-forward-error-correction-hamming-74/hamming.c\<close>) and the line
  codes Manchester, NRZI and 4B/5B
  (\<^verbatim>\<open>phases/01-bits-and-wires/05-manchester-nrz-4b5b-encodings/encoding.c\<close>). A single bit held in
  an \<open>int\<close> is a \<open>bool\<close>; a symbol on the wire is the byte 0 or 1 of the program.
\<close>

section \<open>Hamming(7,4)\<close>

definition get_pos :: "u8 \<Rightarrow> nat \<Rightarrow> bool" where
  "get_pos cw pos \<longleftrightarrow> drop_bit (pos - 1) cw AND 1 = 1"

definition set_pos :: "u8 \<Rightarrow> nat \<Rightarrow> bool \<Rightarrow> u8" where
  "set_pos cw pos val = (if val then cw OR push_bit (pos - 1) 1 else cw AND NOT (push_bit (pos - 1) 1))"

definition flip_pos :: "u8 \<Rightarrow> nat \<Rightarrow> u8" where
  "flip_pos cw pos = cw XOR push_bit (pos - 1) 1"

definition nfs_hamming74_encode :: "u8 \<Rightarrow> u8" where
  "nfs_hamming74_encode data =
     (let d1 = (drop_bit 3 data AND 1 = 1); d2 = (drop_bit 2 data AND 1 = 1);
          d3 = (drop_bit 1 data AND 1 = 1); d4 = (drop_bit 0 data AND 1 = 1);
          p1 = (d1 \<noteq> (d2 \<noteq> d4)); p2 = (d1 \<noteq> (d3 \<noteq> d4)); p3 = (d2 \<noteq> (d3 \<noteq> d4))
      in set_pos (set_pos (set_pos (set_pos (set_pos (set_pos (set_pos 0 1 p1) 2 p2) 3 d1) 4 p3) 5 d2) 6 d3) 7 d4)"

definition nfs_hamming74_syndrome :: "u8 \<Rightarrow> u8" where
  "nfs_hamming74_syndrome codeword =
     (let s1 = (get_pos codeword 1 \<noteq> (get_pos codeword 3 \<noteq> (get_pos codeword 5 \<noteq> get_pos codeword 7)));
          s2 = (get_pos codeword 2 \<noteq> (get_pos codeword 3 \<noteq> (get_pos codeword 6 \<noteq> get_pos codeword 7)));
          s3 = (get_pos codeword 4 \<noteq> (get_pos codeword 5 \<noteq> (get_pos codeword 6 \<noteq> get_pos codeword 7)))
      in push_bit 2 (of_bool s3) OR push_bit 1 (of_bool s2) OR of_bool s1)"

text \<open>The result is the data and whether a bit was corrected.\<close>

definition nfs_hamming74_decode :: "u8 \<Rightarrow> (u8 \<times> bool) option" where
  "nfs_hamming74_decode codeword =
     (let syndrome = nfs_hamming74_syndrome codeword in
      if syndrome > 7 then None
      else
        let codeword = (if syndrome \<noteq> 0 then flip_pos codeword (unat syndrome) else codeword);
            d1 = get_pos codeword 3; d2 = get_pos codeword 5; d3 = get_pos codeword 6; d4 = get_pos codeword 7
        in Some (push_bit 3 (of_bool d1) OR push_bit 2 (of_bool d2) OR push_bit 1 (of_bool d3) OR of_bool d4,
             syndrome \<noteq> 0))"

definition nfs_hamming_encode_buf :: "u8 list \<Rightarrow> nat \<Rightarrow> u8 list" where
  "nfs_hamming_encode_buf data out_sz =
     (if out_sz < length data * 2 then []
      else concat (map (\<lambda>d. [nfs_hamming74_encode (drop_bit 4 d AND 0x0F), nfs_hamming74_encode (d AND 0x0F)]) data))"

fun hamming_pairs :: "u8 list \<Rightarrow> u8 list option" where
  "hamming_pairs (c1 # c2 # cs) =
     (case nfs_hamming74_decode c1 of
        None \<Rightarrow> None
      | Some (hi, _) \<Rightarrow>
          (case nfs_hamming74_decode c2 of
             None \<Rightarrow> None
           | Some (lo, _) \<Rightarrow> map_option (\<lambda>out. (push_bit 4 hi OR lo) # out) (hamming_pairs cs)))"
| "hamming_pairs _ = Some []"

definition nfs_hamming_decode_buf :: "u8 list \<Rightarrow> nat \<Rightarrow> u8 list option" where
  "nfs_hamming_decode_buf codes out_sz =
     (if length codes mod 2 \<noteq> 0 then None
      else if out_sz < length codes div 2 then None
      else hamming_pairs codes)"

subsection \<open>Codewords bit by bit\<close>

lemma bit_one_byte: "bit (push_bit k 1 :: u8) n \<longleftrightarrow> n = k \<and> k < 8"
  unfolding bit_push_bit_iff bit_1_iff possible_bit_word by auto

lemma get_pos_bit: "get_pos cw pos \<longleftrightarrow> bit cw (pos - 1)"
  by (simp add: get_pos_def bit_iff_odd_drop_bit and_one_eq odd_iff_mod_2_eq_one)

lemma data_bit: "drop_bit k (d :: u8) AND 1 = 1 \<longleftrightarrow> bit d k"
  by (simp add: bit_iff_odd_drop_bit and_one_eq odd_iff_mod_2_eq_one)

lemma bit_set_pos: "bit (set_pos cw pos v) n \<longleftrightarrow> (if n = pos - 1 then v \<and> pos - 1 < 8 else bit cw n)"
proof -
  have n: "bit cw n \<Longrightarrow> n < 8" using bit_imp_le_length [of cw n] by simp
  show ?thesis
    unfolding set_pos_def
    by (cases v; simp only: if_True if_False bit_or_iff bit_and_iff bit_not_iff bit_one_byte possible_bit_word;
        use n in auto)
qed

lemma bit_flip_pos: "bit (flip_pos cw pos) n \<longleftrightarrow> (bit cw n \<noteq> (n = pos - 1 \<and> pos - 1 < 8))"
  by (auto simp only: flip_pos_def bit_xor_iff bit_one_byte)

lemma encode_bits:
  fixes d :: u8
  defines "cw \<equiv> nfs_hamming74_encode d"
  shows "bit cw 0 \<longleftrightarrow> (bit d 3 \<noteq> (bit d 2 \<noteq> bit d 0))" "bit cw (Suc 0) \<longleftrightarrow> (bit d 3 \<noteq> (bit d 1 \<noteq> bit d 0))"
    "bit cw 2 \<longleftrightarrow> bit d 3" "bit cw 3 \<longleftrightarrow> (bit d 2 \<noteq> (bit d 1 \<noteq> bit d 0))" "bit cw 4 \<longleftrightarrow> bit d 2"
    "bit cw 5 \<longleftrightarrow> bit d 1" "bit cw 6 \<longleftrightarrow> bit d 0" "\<not> bit cw 7"
  by (simp_all only: cw_def nfs_hamming74_encode_def Let_def data_bit bit_set_pos) simp_all

text \<open>Four bits as a nibble, three as a syndrome.\<close>

definition nibble :: "bool \<Rightarrow> bool \<Rightarrow> bool \<Rightarrow> bool \<Rightarrow> u8" where
  "nibble d1 d2 d3 d4 = push_bit 3 (of_bool d1) OR push_bit 2 (of_bool d2) OR push_bit 1 (of_bool d3) OR of_bool d4"

lemma bit_nibble: "bit (nibble d1 d2 d3 d4) n \<longleftrightarrow>
    (if n = 3 then d1 else if n = 2 then d2 else if n = 1 then d3 else n = 0 \<and> d4)"
proof -
  have "bit (push_bit k (of_bool b) :: u8) n \<longleftrightarrow> n = k \<and> k < 8 \<and> b" for k b
    by (cases b) (simp_all only: of_bool_eq bit_one_byte push_bit_of_0 bit_0_eq bot_apply bot_bool_def, simp_all)
  from this [of 3] this [of 2] this [of 1] this [of 0] show ?thesis
    unfolding nibble_def bit_or_iff by (auto simp: push_bit_0_id)
qed

lemma nibble_low: "nibble (bit d 3) (bit d 2) (bit d 1) (bit d 0) = d AND 0x0F"
proof -
  have m: "(0x0F :: u8) = mask 4" by (simp add: mask_eq_exp_minus_1)
  show ?thesis
    unfolding m by (rule bit_word_eqI) (auto simp: bit_nibble bit_and_iff bit_mask_iff less_Suc_eq numeral_eq_Suc)
qed

definition syndrome :: "bool \<Rightarrow> bool \<Rightarrow> bool \<Rightarrow> u8" where
  "syndrome s1 s2 s3 = push_bit 2 (of_bool s3) OR push_bit 1 (of_bool s2) OR of_bool s1"

lemma syndrome_number: "unat (syndrome s1 s2 s3) = 4 * of_bool s3 + 2 * of_bool s2 + of_bool s1"
  "syndrome s1 s2 s3 = 0 \<longleftrightarrow> \<not> s1 \<and> \<not> s2 \<and> \<not> s3" "\<not> syndrome s1 s2 s3 > 7"
  by (cases s1; cases s2; cases s3; simp add: syndrome_def)+

lemma decode_nibble:
  "nfs_hamming74_decode cw =
     (let s = nfs_hamming74_syndrome cw; cw' = (if s \<noteq> 0 then flip_pos cw (unat s) else cw) in
      if s > 7 then None
      else Some (nibble (get_pos cw' 3) (get_pos cw' 5) (get_pos cw' 6) (get_pos cw' 7), s \<noteq> 0))"
  by (simp only: nfs_hamming74_decode_def nibble_def Let_def)

lemma decode_bits:
  "nfs_hamming74_decode cw =
     (let s1 = (bit cw 0 \<noteq> (bit cw 2 \<noteq> (bit cw 4 \<noteq> bit cw 6)));
          s2 = (bit cw 1 \<noteq> (bit cw 2 \<noteq> (bit cw 5 \<noteq> bit cw 6)));
          s3 = (bit cw 3 \<noteq> (bit cw 4 \<noteq> (bit cw 5 \<noteq> bit cw 6)));
          p = 4 * of_bool s3 + 2 * of_bool s2 + of_bool s1 :: nat
      in Some (nibble (bit cw 2 \<noteq> (p = 3)) (bit cw 4 \<noteq> (p = 5)) (bit cw 5 \<noteq> (p = 6)) (bit cw 6 \<noteq> (p = 7)),
           s1 \<or> s2 \<or> s3))"
proof -
  define s1 s2 s3 where "s1 = (bit cw 0 \<noteq> (bit cw 2 \<noteq> (bit cw 4 \<noteq> bit cw 6)))"
    and "s2 = (bit cw 1 \<noteq> (bit cw 2 \<noteq> (bit cw 5 \<noteq> bit cw 6)))"
    and "s3 = (bit cw 3 \<noteq> (bit cw 4 \<noteq> (bit cw 5 \<noteq> bit cw 6)))"
  have "nfs_hamming74_syndrome cw = syndrome s1 s2 s3"
    by (simp add: nfs_hamming74_syndrome_def syndrome_def get_pos_bit s1_def s2_def s3_def)
  then show ?thesis
    unfolding decode_nibble Let_def s1_def [symmetric] s2_def [symmetric] s3_def [symmetric]
    by (cases s1; cases s2; cases s3)
      (simp_all add: syndrome_number get_pos_bit bit_flip_pos)
qed

subsection \<open>Single errors\<close>

text \<open>The errors a channel may add to a codeword: none, or one flipped bit.\<close>

definition one_flip :: "u8 \<Rightarrow> bool" where
  "one_flip e \<longleftrightarrow> e = 0 \<or> (\<exists>k < 8. e = push_bit k 1)"

lemma bit_one_flip: "one_flip e \<Longrightarrow> \<exists>k. \<forall>n < 8. bit e n \<longleftrightarrow> n = k"
proof -
  assume "one_flip e"
  then consider "e = 0" | k where "e = push_bit k 1" "k < 8" by (auto simp only: one_flip_def)
  then show ?thesis
  proof cases
    case 1
    then show ?thesis by (intro exI [of _ 8]) simp
  next
    case 2
    then show ?thesis by (intro exI [of _ k]) (simp only: bit_one_byte, auto)
  qed
qed

lemma decode_flipped:
  assumes "one_flip e"
  shows "nfs_hamming74_decode (nfs_hamming74_encode d XOR e) = Some (d AND 0x0F, take_bit 7 e \<noteq> 0)"
proof -
  obtain k where k: "\<And>n. n < 8 \<Longrightarrow> bit e n \<longleftrightarrow> n = k" using bit_one_flip [OF assms] by blast
  have e: "bit e 0 \<longleftrightarrow> k = 0" "bit e (Suc 0) \<longleftrightarrow> k = 1" "bit e 2 \<longleftrightarrow> k = 2" "bit e 3 \<longleftrightarrow> k = 3" "bit e 4 \<longleftrightarrow> k = 4"
    "bit e 5 \<longleftrightarrow> k = 5" "bit e 6 \<longleftrightarrow> k = 6"
    using k [of 0] k [of 1] k [of 2] k [of 3] k [of 4] k [of 5] k [of 6] by auto
  have t: "take_bit 7 e \<noteq> 0 \<longleftrightarrow> k < 7"
  proof
    assume "k < 7"
    then have "bit (take_bit 7 e) k" using k [of k] by (simp add: bit_take_bit_iff)
    then show "take_bit 7 e \<noteq> 0" by auto
  next
    assume "take_bit 7 e \<noteq> 0"
    then obtain n where "bit (take_bit 7 e) n" by (auto simp: bit_eq_iff)
    then have "n < 7" "bit e n" by (simp_all add: bit_take_bit_iff)
    then show "k < 7" using k [of n] by simp
  qed
  consider "k = 0" | "k = 1" | "k = 2" | "k = 3" | "k = 4" | "k = 5" | "k = 6" | "7 \<le> k" by linarith
  then show ?thesis
    unfolding nibble_low [symmetric] t
    by cases (simp_all add: decode_bits bit_xor_iff encode_bits e Let_def; auto)+
qed

lemma high_low: "push_bit 4 (drop_bit 4 d) AND 0xF0 OR d AND 0x0F = (d :: u8)"
proof -
  have m: "(0x0F :: u8) = mask 4" "(0xF0 :: u8) = push_bit 4 (mask 4)" by (simp_all add: mask_eq_exp_minus_1)
  show ?thesis
    unfolding m by (rule bit_word_eqI) (auto simp: bit_or_iff bit_and_iff bit_mask_iff bit_push_bit_iff bit_drop_bit_eq)
qed

lemma pairs_flipped:
  "list_all one_flip es \<Longrightarrow> length es = 2 * length data \<Longrightarrow>
     hamming_pairs (map2 (XOR)
       (concat (map (\<lambda>d. [nfs_hamming74_encode (drop_bit 4 d AND 0x0F), nfs_hamming74_encode (d AND 0x0F)]) data)) es) =
     Some data"
proof (induction data arbitrary: es)
  case (Cons d data)
  obtain e1 e2 rest where es: "es = e1 # e2 # rest" using Cons.prems(2) by (cases es; cases "tl es") auto
  show ?case
    using Cons by (simp add: es decode_flipped high_low)
qed simp

text \<open>
  One flipped bit in each codeword does no harm: decoding recovers every buffer from its
  encoding whatever single bit is flipped in any of its codewords, tells of each codeword whether
  it repaired one, and fails only for a buffer that is too small.
\<close>
theorem hamming_corrects_single_errors:
  assumes "list_all one_flip es" and "length es = 2 * length data" and "2 * length data \<le> n" and "one_flip e"
  shows "nfs_hamming_decode_buf (map2 (XOR) (nfs_hamming_encode_buf data n) es) m =
      (if m < length data then None else Some data) \<and>
    nfs_hamming74_decode (nfs_hamming74_encode d XOR e) = Some (d AND 0x0F, take_bit 7 e \<noteq> 0)"
proof -
  have len: "length (concat (map (\<lambda>d. [f d, g d]) data)) = 2 * length data" for f g :: "u8 \<Rightarrow> u8"
    by (induction data) simp_all
  have "length (map2 (XOR) (nfs_hamming_encode_buf data n) es) = 2 * length data"
    using assms(2,3) by (simp add: nfs_hamming_encode_buf_def len)
  then show ?thesis
    using pairs_flipped [OF assms(1,2)] decode_flipped [OF assms(4)] assms(3)
    by (simp add: nfs_hamming_decode_buf_def nfs_hamming_encode_buf_def mult.commute del: take_bit_eq_0_iff)
qed

lemma hamming_corrects_single_errors_witness:
  "nfs_hamming_decode_buf (map2 (XOR) (nfs_hamming_encode_buf [0xA7] 2) [push_bit 3 1, push_bit 6 1]) 1 = Some [0xA7]"
proof -
  have flip: "one_flip (push_bit k 1)" if "k < 8" for k using that unfolding one_flip_def by blast
  have "one_flip (push_bit 3 1)" "one_flip (push_bit 6 1)" by (rule flip, simp)+
  then show ?thesis
    using hamming_corrects_single_errors [of "[push_bit 3 1, push_bit 6 1]" "[0xA7]" 2 "push_bit 3 1" 1] by simp
qed

text \<open>Two flipped bits are taken for another error: any two data change, or a wrong one is repaired.\<close>

lemma double_error_miscorrected:
  "nfs_hamming74_decode (nfs_hamming74_encode 0 XOR 0x03) = Some (8, True)"
  by (simp add: decode_bits bit_xor_iff encode_bits Let_def bit_numeral_simps nibble_def)

section \<open>Line codes\<close>

text \<open>The bits of a byte, most significant first.\<close>

abbreviation byte_bits :: "u8 \<Rightarrow> bool list" where
  "byte_bits d \<equiv> map (\<lambda>k. drop_bit k d AND 1 = 1) (rev [0..<8])"

definition nfs_manchester_encode :: "u8 list \<Rightarrow> nat \<Rightarrow> u8 list" where
  "nfs_manchester_encode data out_sz =
     (if out_sz < length data * 16 then []
      else concat (map (\<lambda>d. concat (map (\<lambda>b. if b then [0, 1] else [1, 0]) (byte_bits d))) data))"

text \<open>The inner loop of the decoder, from bit \<open>k - 1\<close> down: the byte and the remaining symbols.\<close>

fun manchester_byte :: "nat \<Rightarrow> u8 list \<Rightarrow> u8 \<Rightarrow> (u8 \<times> u8 list) option" where
  "manchester_byte 0 ss byte = Some (byte, ss)"
| "manchester_byte (Suc k) (s0 # s1 # ss) byte =
     (if s0 = 0 \<and> s1 = 1 then manchester_byte k ss (byte OR push_bit k 1)
      else if s0 = 1 \<and> s1 = 0 then manchester_byte k ss byte
      else None)"
| "manchester_byte (Suc k) _ byte = None"

fun manchester_run :: "nat \<Rightarrow> u8 list \<Rightarrow> u8 list option" where
  "manchester_run 0 ss = Some []"
| "manchester_run (Suc n) ss =
     (case manchester_byte 8 ss 0 of
        None \<Rightarrow> None
      | Some (byte, ss) \<Rightarrow> map_option (\<lambda>out. byte # out) (manchester_run n ss))"

definition nfs_manchester_decode :: "u8 list \<Rightarrow> nat \<Rightarrow> u8 list option" where
  "nfs_manchester_decode symbols out_sz =
     (if length symbols mod 16 \<noteq> 0 then None
      else if out_sz < length symbols div 16 then None
      else manchester_run (length symbols div 16) symbols)"

fun nrzi_levels :: "u8 \<Rightarrow> bool list \<Rightarrow> u8 list" where
  "nrzi_levels level [] = []"
| "nrzi_levels level (b # bs) = (let level = (if b then level XOR 1 else level) in level # nrzi_levels level bs)"

definition nfs_nrzi_encode :: "u8 list \<Rightarrow> nat \<Rightarrow> u8 list" where
  "nfs_nrzi_encode data out_sz =
     (if out_sz < length data * 8 then [] else nrzi_levels 0 (concat (map byte_bits data)))"

fun nrzi_byte :: "nat \<Rightarrow> u8 \<Rightarrow> u8 list \<Rightarrow> u8 \<Rightarrow> u8 \<times> u8 \<times> u8 list" where
  "nrzi_byte (Suc k) prev (cur # ss) byte =
     nrzi_byte k cur ss (if cur \<noteq> prev then byte OR push_bit k 1 else byte)"
| "nrzi_byte _ prev ss byte = (byte, prev, ss)"

fun nrzi_run :: "nat \<Rightarrow> u8 \<Rightarrow> u8 list \<Rightarrow> u8 list" where
  "nrzi_run 0 prev ss = []"
| "nrzi_run (Suc n) prev ss = (case nrzi_byte 8 prev ss 0 of (byte, prev, ss) \<Rightarrow> byte # nrzi_run n prev ss)"

definition nfs_nrzi_decode :: "u8 list \<Rightarrow> nat \<Rightarrow> u8 list option" where
  "nfs_nrzi_decode symbols out_sz =
     (if length symbols mod 8 \<noteq> 0 then None
      else if out_sz < length symbols div 8 then None
      else Some (nrzi_run (length symbols div 8) 0 symbols))"

definition encode_4b5b :: "u8 list" where
  "encode_4b5b = [0x1E, 0x09, 0x14, 0x15, 0x0A, 0x0B, 0x0E, 0x0F, 0x12, 0x13, 0x16, 0x17, 0x1A, 0x1B, 0x1C, 0x1D]"

definition decode_4b5b :: "int list" where
  "decode_4b5b = [-1, -1, -1, -1, -1, -1, -1, -1, -1, 1, 4, 5, -1, -1, 6, 7,
     -1, -1, 8, 9, 2, 3, 0xA, 0xB, -1, -1, 0xC, 0xD, 0xE, 0xF, 0, -1]"

definition nfs_4b5b_encode :: "u8 \<Rightarrow> int" where
  "nfs_4b5b_encode nib = (if nib > 0x0F then -1 else uint (encode_4b5b ! unat nib))"

definition nfs_4b5b_decode :: "u8 \<Rightarrow> int" where
  "nfs_4b5b_decode code = (if code > 0x1F then -1 else decode_4b5b ! unat code)"

subsection \<open>Manchester\<close>

lemma manchester_byte_encoded:
  "k \<le> 8 \<Longrightarrow> manchester_byte k (concat (map (\<lambda>b. if b then [0, 1] else [1, 0]) (map (bit d) (rev [0..<k]))) @ rest) byte =
     Some (byte OR take_bit k d, rest)"
proof (induction k arbitrary: byte)
  case (Suc k)
  have t: "byte OR take_bit (Suc k) d = (if bit d k then byte OR push_bit k 1 else byte) OR take_bit k d"
  proof -
    have "bit (push_bit k 1 :: u8) n \<longleftrightarrow> n = k" for n using Suc.prems bit_one_byte [of k n] by auto
    then show ?thesis
      by (intro bit_word_eqI) (auto simp: bit_or_iff bit_take_bit_iff less_Suc_eq simp del: push_bit_of_1)
  qed
  show ?case using Suc.IH [of "if bit d k then byte OR push_bit k 1 else byte"] Suc.prems
    by (cases "bit d k") (simp_all add: t del: push_bit_of_1)
qed simp

lemma byte_bits_eq: "byte_bits d = map (bit d) (rev [0..<8])"
  by (simp only: data_bit)

abbreviation manchester_symbols :: "u8 list \<Rightarrow> u8 list" where
  "manchester_symbols data \<equiv> concat (map (\<lambda>d. concat (map (\<lambda>b. if b then [0, 1] else [1, 0]) (byte_bits d))) data)"

lemma length_pairs: "length (concat (map (\<lambda>b. if b then [0, 1 :: u8] else [1, 0]) bs)) = 2 * length bs"
  by (induction bs) auto

lemma length_manchester: "length (manchester_symbols data) = 16 * length data"
  by (induction data) (simp_all only: list.map concat.simps length_append length_pairs length_map length_rev length_upt list.size, simp_all)

lemma manchester_run_encoded: "manchester_run (length data) (manchester_symbols data) = Some data"
proof (induction data)
  case (Cons d data)
  have "take_bit 8 d = d" by (rule bit_word_eqI) (simp add: bit_take_bit_iff)
  then show ?case
    using Cons manchester_byte_encoded [of 8 d "manchester_symbols data" 0]
    by (simp only: list.map concat.simps list.size byte_bits_eq add_Suc_right add_0_right manchester_run.simps) simp
qed simp

text \<open>The runs of equal symbols on the wire.\<close>

fun runs_below :: "nat \<Rightarrow> nat \<Rightarrow> u8 option \<Rightarrow> u8 list \<Rightarrow> bool" where
  "runs_below m n p [] = True"
| "runs_below m n p (x # xs) = (let n' = (if p = Some x then Suc n else 1) in n' < m \<and> runs_below m n' (Some x) xs)"

lemma manchester_runs:
  "n \<le> 1 \<Longrightarrow> runs_below 3 n p (concat (map (\<lambda>b. if b then [0, 1] else [1, 0]) bs))"
  by (induction bs arbitrary: n p) (auto simp: Let_def)

subsection \<open>NRZI\<close>

abbreviation level_after :: "u8 \<Rightarrow> bool list \<Rightarrow> u8" where
  "level_after \<equiv> foldl (\<lambda>l b. if b then l XOR 1 else l)"

lemma toggled: "l XOR 1 \<noteq> (l :: u8)"
proof
  assume "l XOR 1 = l"
  then have "bit (l XOR 1) 0 = bit l 0" by simp
  then show False by (simp add: bit_xor_iff del: bit_0)
qed

lemma nrzi_byte_encoded:
  "k \<le> 8 \<Longrightarrow> nrzi_byte k l (nrzi_levels l (map (bit d) (rev [0..<k]) @ bs)) byte =
     (byte OR take_bit k d, level_after l (map (bit d) (rev [0..<k])),
      nrzi_levels (level_after l (map (bit d) (rev [0..<k]))) bs)"
proof (induction k arbitrary: l byte)
  case (Suc k)
  have t: "byte OR take_bit (Suc k) d = (if bit d k then byte OR push_bit k 1 else byte) OR take_bit k d"
  proof -
    have "bit (push_bit k 1 :: u8) n \<longleftrightarrow> n = k" for n using Suc.prems bit_one_byte [of k n] by auto
    then show ?thesis
      by (intro bit_word_eqI) (auto simp: bit_or_iff bit_take_bit_iff less_Suc_eq simp del: push_bit_of_1)
  qed
  show ?case
    using Suc.IH [of "level_after l [bit d k]" "if bit d k then byte OR push_bit k 1 else byte"] Suc.prems
    by (cases "bit d k") (simp_all add: t toggled Let_def del: push_bit_of_1)
qed simp

lemma nrzi_run_encoded: "nrzi_run (length data) l (nrzi_levels l (concat (map byte_bits data))) = data"
proof (induction data arbitrary: l)
  case (Cons d data)
  have "take_bit 8 d = d" by (rule bit_word_eqI) (simp add: bit_take_bit_iff)
  then show ?case
    using Cons nrzi_byte_encoded [of 8 l d "concat (map byte_bits data)" 0]
    by (simp only: list.map concat.simps list.size byte_bits_eq add_Suc_right add_0_right nrzi_run.simps) simp
qed simp

lemma length_nrzi [simp]: "length (nrzi_levels l bs) = length bs"
  by (induction bs arbitrary: l) (simp_all add: Let_def)

lemma length_all_bits: "length (concat (map byte_bits data)) = 8 * length data"
  by (induction data) simp_all

subsection \<open>4B/5B\<close>

text \<open>The five bits of a code, and runs of zeros among the bits on the wire.\<close>

abbreviation code_bits :: "int \<Rightarrow> bool list" where
  "code_bits c \<equiv> map (bit c) (rev [0..<5])"

fun zeros_below :: "nat \<Rightarrow> nat \<Rightarrow> bool list \<Rightarrow> bool" where
  "zeros_below m n [] = True"
| "zeros_below m n (b # bs) = (if b then zeros_below m 0 bs else Suc n < m \<and> zeros_below m (Suc n) bs)"

lemma nibble_cases:
  "nib \<le> 0x0F \<Longrightarrow> (nib :: u8) \<in> {0, 1, 2, 3, 4, 5, 6, 7, 8, 9, 10, 11, 12, 13, 14, 15}"
proof -
  assume "nib \<le> 0x0F"
  then have "unat nib \<le> 15" by (simp add: word_le_nat_alt)
  then have "unat nib \<in> {0, 1, 2, 3, 4, 5, 6, 7, 8, 9, 10, 11, 12, 13, 14, 15}"
    unfolding insert_iff empty_iff by presburger
  then show ?thesis by (auto simp: word_unat_eq_iff)
qed

lemma code_4b5b:
  assumes "nib \<le> 0x0F"
  shows "nfs_4b5b_decode (of_int (nfs_4b5b_encode nib)) = int (unat nib)"
    and "0 \<le> nfs_4b5b_encode nib" and "nfs_4b5b_encode nib < 32"
    and "n \<le> 2 \<Longrightarrow> \<exists>k \<le> 2. \<forall>bs. zeros_below 4 n (code_bits (nfs_4b5b_encode nib) @ bs) = zeros_below 4 k bs"
proof -
  have e: "nfs_4b5b_encode nib = uint (encode_4b5b ! unat nib)" unfolding nfs_4b5b_encode_def by (rule if_not_P [OF leD [OF assms]])
  have n: "n \<le> 2 \<Longrightarrow> n \<in> {0, 1, 2}" by auto
  note c = nibble_cases [OF assms]
  show "nfs_4b5b_decode (of_int (nfs_4b5b_encode nib)) = int (unat nib)"
    using c unfolding e by (auto simp: encode_4b5b_def nfs_4b5b_decode_def decode_4b5b_def)
  show "0 \<le> nfs_4b5b_encode nib" "nfs_4b5b_encode nib < 32"
    using c unfolding e by (auto simp: encode_4b5b_def)
  define v where "v = nfs_4b5b_encode nib"
  have bits: "code_bits x = [bit x 4, bit x 3, bit x 2, bit x (Suc 0), bit x 0]" for x
    by (simp add: upt_rec numeral_eq_Suc)
  have "v \<in> {0x1E, 0x09, 0x14, 0x15, 0x0A, 0x0B, 0x0E, 0x0F, 0x12, 0x13, 0x16, 0x17, 0x1A, 0x1B, 0x1C, 0x1D}"
    using c unfolding v_def e by (auto simp: encode_4b5b_def)
  then have "bit v 4 \<or> bit v 3" "bit v 2 \<or> bit v (Suc 0) \<or> bit v 0"
    by (auto simp: bit_numeral_rec bit_Suc)
  then have "zeros_below 4 n (code_bits v @ bs) = zeros_below 4 (if bit v 0 then 0 else if bit v (Suc 0) then 1 else 2) bs" if "n \<le> 2" for bs
    unfolding bits using that by (auto simp: numeral_2_eq_2)
  then show "\<exists>k \<le> 2. \<forall>bs. zeros_below 4 n (code_bits (nfs_4b5b_encode nib) @ bs) = zeros_below 4 k bs" if "n \<le> 2"
    using that unfolding v_def by (intro exI [of _ "if bit v 0 then 0 else if bit v (Suc 0) then 1 else 2"]) (auto simp: v_def)
qed

lemma stream_4b5b:
  "list_all (\<lambda>x. x \<le> 0x0F) xs \<Longrightarrow> n \<le> 2 \<Longrightarrow> zeros_below 4 n (concat (map (\<lambda>x. code_bits (nfs_4b5b_encode x)) xs))"
proof (induction xs arbitrary: n)
  case (Cons x xs)
  obtain k where "k \<le> 2" "\<And>bs. zeros_below 4 n (code_bits (nfs_4b5b_encode x) @ bs) = zeros_below 4 k bs"
    using code_4b5b(4) [of x n] Cons.prems by auto
  then show ?case using Cons by simp
qed simp

text \<open>
  The line codes lose nothing and keep the receiver's clock: decoding gives back what Manchester
  and NRZI encoded, failing only for a buffer that is too small, and 4B/5B gives every nibble
  back from its code; a Manchester signal never holds a level for three symbols, and no
  sequence of 4B/5B codes has four zeros in a row.
\<close>
theorem line_codes_transparent:
  assumes "16 * length data \<le> n" and "list_all (\<lambda>x. x \<le> 0x0F) nibbles"
  shows "nfs_manchester_decode (nfs_manchester_encode data n) m = (if m < length data then None else Some data) \<and>
    runs_below 3 0 None (nfs_manchester_encode data n) \<and>
    nfs_nrzi_decode (nfs_nrzi_encode data n) m = (if m < length data then None else Some data) \<and>
    map (nfs_4b5b_decode o of_int o nfs_4b5b_encode) nibbles = map (int o unat) nibbles \<and>
    zeros_below 4 0 (concat (map (\<lambda>x. code_bits (nfs_4b5b_encode x)) nibbles))"
proof (intro conjI)
  have me: "nfs_manchester_encode data n = manchester_symbols data"
    using assms(1) by (simp only: nfs_manchester_encode_def mult.commute [of "length data"] if_not_P not_less)
  show "nfs_manchester_decode (nfs_manchester_encode data n) m = (if m < length data then None else Some data)"
    unfolding me nfs_manchester_decode_def length_manchester using manchester_run_encoded [of data]
    by (simp del: upt_rec_numeral)
  have "manchester_symbols data = concat (map (\<lambda>b. if b then [0, 1] else [1, 0]) (concat (map byte_bits data)))"
    by (induction data) (simp_all only: list.map concat.simps map_append concat_append)
  then show "runs_below 3 0 None (nfs_manchester_encode data n)"
    unfolding me by (simp only: manchester_runs)
  have ne: "nfs_nrzi_encode data n = nrzi_levels 0 (concat (map byte_bits data))"
    using assms(1) by (simp add: nfs_nrzi_encode_def del: upt_rec_numeral)
  show "nfs_nrzi_decode (nfs_nrzi_encode data n) m = (if m < length data then None else Some data)"
    unfolding ne nfs_nrzi_decode_def length_nrzi length_all_bits using nrzi_run_encoded [of data]
    by (simp del: upt_rec_numeral)
  show "map (nfs_4b5b_decode o of_int o nfs_4b5b_encode) nibbles = map (int o unat) nibbles"
    using assms(2) code_4b5b(1) by (simp add: list_all_iff)
  show "zeros_below 4 0 (concat (map (\<lambda>x. code_bits (nfs_4b5b_encode x)) nibbles))"
    by (rule stream_4b5b [OF assms(2)]) simp
qed

lemma line_codes_transparent_witness:
  "nfs_manchester_decode (nfs_manchester_encode [0xCA, 0xFE] 32) 2 = Some [0xCA, 0xFE] \<and>
   nfs_nrzi_decode (nfs_nrzi_encode [0xCA, 0xFE] 32) 2 = Some [0xCA, 0xFE]"
  using line_codes_transparent [of "[0xCA, 0xFE]" 32 "[0, 0xF]" 2] by simp

end
