(* ===== verification/DnsName.thy ===== *)
theory DnsName
  imports Interfaces
begin

text \<open>
  Domain names on the wire: the encoder and the decoder with compression pointers of
  \<^verbatim>\<open>phases/06-application-protocols/02-a-dns-resolver-from-scratch/dns_resolver.c\<close> (the server of
  lesson 03, \<^verbatim>\<open>dns_auth.c\<close>, carries a copy of the same two functions). A C string is the list of
  its bytes without the terminating zero. What a name at a position of a message means is an
  inductive relation, and the decoder is proved equivalent to it.
\<close>

section \<open>Definitions\<close>

definition NFS_DNS_MAX_NAME :: nat where "NFS_DNS_MAX_NAME = 255"
definition NFS_DNS_MAX_LABEL :: nat where "NFS_DNS_MAX_LABEL = 63"

abbreviation dot :: u8 where "dot \<equiv> 46"

text \<open>The loop of the encoder; \<open>name\<close> is what is left to read, \<open>out\<close> what was written.\<close>

function encode_labels :: "u8 list \<Rightarrow> nat \<Rightarrow> u8 list \<Rightarrow> u8 list option" where
  "encode_labels name out_sz out =
     (if name = [] then (if length out \<ge> out_sz then None else Some (out @ [0]))
      else
        let label = takeWhile (\<lambda>c. c \<noteq> dot) name in
        if label = [] then encode_labels (tl name) out_sz out
        else if length label > NFS_DNS_MAX_LABEL then None
        else if length out + 1 + length label \<ge> out_sz then None
        else encode_labels (drop (length label + (if dot \<in> set name then 1 else 0)) name) out_sz
               (out @ of_nat (length label) # label))"
  by pat_completeness auto
termination
  by (relation "measure (\<lambda>(name, out_sz, out). length name)") (auto simp: takeWhile_eq_Nil_iff diff_less)

declare encode_labels.simps [simp del]

definition nfs_dns_name_encode :: "u8 list \<Rightarrow> nat \<Rightarrow> u8 list option" where
  "nfs_dns_name_encode name out_sz =
     (if name = [] \<or> name = [dot] then (if out_sz < 1 then None else Some [0])
      else encode_labels name out_sz [])"

text \<open>
  The variables of the decoder, and one pass of its loop: \<open>Inl None\<close> returns -1, \<open>Inl (Some s)\<close>
  leaves the loop, \<open>Inr s\<close> goes round again. The pass is given the memory that the message starts and
  the length of the message, as the code is; \<open>name_step\<close> is the pass with nothing behind the message.
\<close>

record name_state =
  ns_cur :: nat
  ns_out :: "u8 list"
  ns_jumped :: bool
  ns_consumed :: nat
  ns_jumps :: nat

definition name_step_in :: "u8 list \<Rightarrow> nat \<Rightarrow> nat \<Rightarrow> nat \<Rightarrow> name_state \<Rightarrow> name_state option + name_state" where
  "name_step_in data data_len offset out_sz s =
     (if ns_cur s \<ge> data_len then Inl (Some s)
      else
        let len = data ! ns_cur s in
        if len = 0 then
          Inl (Some (if ns_jumped s then s else s\<lparr> ns_consumed := ns_cur s - offset + 1 \<rparr>))
        else if len AND 0xC0 = 0xC0 then
          (if ns_cur s + 1 \<ge> data_len then Inl None
           else
             let consumed = (if ns_jumped s then ns_consumed s else ns_cur s - offset + 2);
                 ptr = unat (be16 (len AND 0x3F) (data ! (ns_cur s + 1)))
             in
             if ptr \<ge> data_len then Inl None
             else if ns_jumps s + 1 > 128 then Inl None
             else Inr (s\<lparr> ns_cur := ptr, ns_jumped := True, ns_consumed := consumed, ns_jumps := ns_jumps s + 1 \<rparr>))
        else if len AND 0xC0 \<noteq> 0 then Inl None
        else
          let cur = ns_cur s + 1 in
          if cur + unat len > data_len then Inl None
          else if length (ns_out s) > 0 \<and> length (ns_out s) \<ge> out_sz - 1 then Inl None
          else
            let out = (if length (ns_out s) > 0 then ns_out s @ [dot] else ns_out s) in
            if length out + unat len \<ge> out_sz then Inl None
            else Inr (s\<lparr> ns_cur := cur + unat len, ns_out := out @ take (unat len) (drop cur data) \<rparr>))"

definition name_step :: "u8 list \<Rightarrow> nat \<Rightarrow> nat \<Rightarrow> name_state \<Rightarrow> name_state option + name_state" where
  "name_step data = name_step_in data (length data)"

lemmas name_step_defs = name_step_def name_step_in_def

lemma name_step_progress:
  assumes "name_step data offset out_sz s = Inr s'"
  shows "ns_jumps s' = Suc (ns_jumps s) \<and> ns_jumps s < 128 \<and> ns_out s' = ns_out s \<or>
    ns_jumps s' = ns_jumps s \<and> ns_cur s < length data \<and> ns_cur s < ns_cur s' \<and>
      length (ns_out s) < length (ns_out s') \<and> length (ns_out s') < out_sz"
  using assms
  by (auto simp: name_step_defs Let_def word_unat_eq_iff not_le split: if_splits)

function name_run :: "u8 list \<Rightarrow> nat \<Rightarrow> nat \<Rightarrow> name_state \<Rightarrow> name_state option" where
  "name_run data offset out_sz s =
     (case name_step data offset out_sz s of Inl r \<Rightarrow> r | Inr s' \<Rightarrow> name_run data offset out_sz s')"
  by pat_completeness auto
termination name_run
  by (relation "measures [\<lambda>(data, offset, out_sz, s). 128 - ns_jumps s, \<lambda>(data, offset, out_sz, s). length data - ns_cur s]")
    (use name_step_progress in fastforce)+

declare name_run.simps [simp del]

definition nfs_dns_name_decode :: "u8 list \<Rightarrow> nat \<Rightarrow> nat \<Rightarrow> (u8 list \<times> nat) option" where
  "nfs_dns_name_decode data offset out_sz =
     (if out_sz = 0 then None
      else if offset \<ge> length data then None
      else
        case name_run data offset out_sz
          \<lparr> ns_cur = offset, ns_out = [], ns_jumped = False, ns_consumed = 0, ns_jumps = 0 \<rparr> of
          None \<Rightarrow> None
        | Some s \<Rightarrow>
            if length (ns_out s) \<ge> out_sz then None
            else if \<not> ns_jumped s \<and> ns_consumed s = 0 then None
            else Some (ns_out s, ns_consumed s))"

section \<open>Labels\<close>

definition dns_labels :: "u8 list \<Rightarrow> u8 list list" where
  "dns_labels name = filter (\<lambda>l. l \<noteq> []) (cut_at dot [] name)"

definition wire :: "u8 list list \<Rightarrow> u8 list" where
  "wire ls = concat (map (\<lambda>l. of_nat (length l) # l) ls)"

definition add_label :: "u8 list \<Rightarrow> u8 list \<Rightarrow> u8 list" where
  "add_label out l = (if out = [] then l else out @ dot # l)"

abbreviation dotted :: "u8 list list \<Rightarrow> u8 list" where
  "dotted \<equiv> foldl add_label []"

definition label_ok :: "u8 list \<Rightarrow> bool" where
  "label_ok l \<longleftrightarrow> l \<noteq> [] \<and> length l \<le> 63"

lemma wire_simps [simp]: "wire [] = []" "wire (l # ls) = of_nat (length l) # l @ wire ls"
  by (simp_all add: wire_def)

lemma cut_at_last: "d \<notin> set ys \<Longrightarrow> cut_at d acc ys = (if rev acc @ ys = [] then [] else [rev acc @ ys])"
  by (induction ys arbitrary: acc) auto

lemma dns_labels_step:
  assumes "name \<noteq> []"
  defines "label \<equiv> takeWhile (\<lambda>c. c \<noteq> dot) name"
  shows "label = [] \<Longrightarrow> dns_labels name = dns_labels (tl name)"
    and "label \<noteq> [] \<Longrightarrow> dns_labels name = label # dns_labels (drop (length label + (if dot \<in> set name then 1 else 0)) name)"
proof -
  have name: "name = label @ dropWhile (\<lambda>c. c \<noteq> dot) name" by (simp add: label_def)
  have nodot: "dot \<notin> set label" by (auto simp: label_def dest: set_takeWhileD)
  show "label = [] \<Longrightarrow> dns_labels name = dns_labels (tl name)"
    using assms by (cases name) (auto simp: dns_labels_def split: if_splits)
  show "dns_labels name = label # dns_labels (drop (length label + (if dot \<in> set name then 1 else 0)) name)"
    if "label \<noteq> []"
  proof (cases "dropWhile (\<lambda>c. c \<noteq> dot) name")
    case Nil
    then have "name = label" using name by (metis append_Nil2)
    then show ?thesis using nodot that by (simp add: dns_labels_def cut_at_last)
  next
    case (Cons d rest)
    then have "d = dot" using hd_dropWhile [of "\<lambda>c. c \<noteq> dot" name] by auto
    then have n: "name = label @ dot # rest" using name unfolding Cons by simp
    then have "drop (length label + 1) name = rest" by simp
    moreover have "dns_labels name = label # dns_labels rest"
      unfolding dns_labels_def n cut_at_prefix [OF nodot] using that by simp
    moreover have "dot \<in> set name" by (simp add: n)
    ultimately show ?thesis by simp
  qed
qed

lemma dns_labels_ne: "l \<in> set (dns_labels name) \<Longrightarrow> l \<noteq> []"
  by (simp add: dns_labels_def)

text \<open>What the encoder writes, and when it fails.\<close>

lemma encode_labels_eq:
  "encode_labels name out_sz out =
     (if list_all label_ok (dns_labels name) \<and> length out + length (wire (dns_labels name)) < out_sz
      then Some (out @ wire (dns_labels name) @ [0]) else None)"
proof (induction name out_sz out rule: encode_labels.induct)
  case (1 name out_sz out)
  show ?case
  proof (cases "name = []")
    case True
    then show ?thesis by (subst encode_labels.simps) (simp add: dns_labels_def)
  next
    case False
    define label where "label = takeWhile (\<lambda>c. c \<noteq> dot) name"
    note step = dns_labels_step [OF False, folded label_def]
    show ?thesis
    proof (cases "label = []")
      case True
      then show ?thesis
        using 1(1) [OF False] step(1)
        by (subst encode_labels.simps) (simp add: False label_def Let_def)
    next
      case ne: False
      then show ?thesis
        using 1(2) [OF False label_def] step(2)
        by (subst encode_labels.simps)
          (auto simp: False label_def [symmetric] Let_def label_ok_def [abs_def] NFS_DNS_MAX_LABEL_def simp del: One_nat_def)
    qed
  qed
qed

lemma name_encode_eq:
  "nfs_dns_name_encode name out_sz =
     (if list_all label_ok (dns_labels name) \<and> length (wire (dns_labels name)) < out_sz
      then Some (wire (dns_labels name) @ [0]) else None)"
  by (simp add: nfs_dns_name_encode_def encode_labels_eq) (auto simp: dns_labels_def)

section \<open>What a name in a message means\<close>

text \<open>
  \<open>name_at data p ls k c t\<close>: at position \<open>p\<close> of the message there is a name with the labels \<open>ls\<close>,
  spread over \<open>k\<close> compression pointers and taking \<open>c\<close> bytes at \<open>p\<close> itself; \<open>t\<close> tells whether it
  ends in a zero label, as RFC 1035 asks, or runs into the end of the message.
\<close>

inductive name_at :: "u8 list \<Rightarrow> nat \<Rightarrow> u8 list list \<Rightarrow> nat \<Rightarrow> nat \<Rightarrow> bool \<Rightarrow> bool"
  for data :: "u8 list" where
  name_end: "p < length data \<Longrightarrow> data ! p = 0 \<Longrightarrow> name_at data p [] 0 1 True"
| name_off: "length data \<le> p \<Longrightarrow> name_at data p [] 0 0 False"
| name_label: "p < length data \<Longrightarrow> data ! p = of_nat (length l) \<Longrightarrow> label_ok l \<Longrightarrow>
    p + 1 + length l \<le> length data \<Longrightarrow> take (length l) (drop (p + 1) data) = l \<Longrightarrow>
    name_at data (p + 1 + length l) ls k c t \<Longrightarrow> name_at data p (l # ls) k (if 0 < k \<or> t then 1 + length l + c else 0) t"
| name_pointer: "p + 1 < length data \<Longrightarrow> data ! p AND 0xC0 = 0xC0 \<Longrightarrow>
    q = unat (be16 (data ! p AND 0x3F) (data ! (p + 1))) \<Longrightarrow> q < length data \<Longrightarrow>
    name_at data q ls k c t \<Longrightarrow> name_at data p ls (Suc k) 2 t"

lemma length_byte:
  "label_ok l \<Longrightarrow> (of_nat (length l) :: u8) \<noteq> 0 \<and> (of_nat (length l) :: u8) AND 0xC0 = 0 \<and> unat (of_nat (length l) :: u8) = length l"
proof -
  assume l: "label_ok l"
  then have u: "unat (of_nat (length l) :: u8) = length l" by (simp add: unat_of_nat_u8 label_ok_def)
  then have "(of_nat (length l) :: u8) \<noteq> 0" using l by (auto simp: label_ok_def word_unat_eq_iff)
  moreover have "take_bit 6 (of_nat (length l) :: u8) = of_nat (length l)"
    using l u by (simp add: word_unat_eq_iff unsigned_take_bit_eq take_bit_nat_eq_self_iff label_ok_def)
  then have "bit (of_nat (length l) :: u8) i \<Longrightarrow> i < 6" for i
    by (metis bit_take_bit_iff)
  then have "(of_nat (length l) :: u8) AND 0xC0 = 0"
    by (intro bit_word_eqI) (auto simp: bit_and_iff less_Suc_eq numeral_eq_Suc)
  ultimately show ?thesis using u by simp
qed

lemma length_byte_conv:
  assumes "len \<noteq> 0" and "len AND 0xC0 = (0 :: u8)"
  shows "0 < unat len \<and> unat len \<le> 63"
proof -
  have "take_bit 6 len = len"
  proof (rule bit_word_eqI)
    fix i assume "i < LENGTH(8)"
    moreover have "\<not> bit (len AND 0xC0) i" using assms(2) by simp
    ultimately show "bit (take_bit 6 len) i = bit len i"
      by (auto simp: bit_take_bit_iff bit_and_iff less_Suc_eq numeral_eq_Suc)
  qed
  then have "unat len < 64"
    using unsigned_take_bit_eq [of 6 len, where ?'a = nat] by (simp add: take_bit_nat_def)
  then show ?thesis using assms(1) by (auto simp: word_unat_eq_iff)
qed

lemma dotted_length: "length out \<le> length (foldl add_label out ls)"
proof (induction ls arbitrary: out)
  case (Cons l ls)
  have "length out \<le> length (add_label out l)" by (simp add: add_label_def)
  also have "\<dots> \<le> length (foldl add_label (add_label out l) ls)" by (rule Cons.IH)
  finally show ?case by simp
qed simp

lemma dotted_mono: "length a \<le> length b \<Longrightarrow> length (foldl add_label a ls) \<le> length (foldl add_label b ls)"
proof (induction ls arbitrary: a b)
  case (Cons l ls)
  then have "length (add_label a l) \<le> length (add_label b l)" by (auto simp: add_label_def)
  then show ?case by (simp add: Cons.IH)
qed simp

lemma name_step_label:
  assumes "ns_cur s < length data" and "data ! ns_cur s = of_nat (length l)" and "label_ok l"
    and "ns_cur s + 1 + length l \<le> length data" and "take (length l) (drop (ns_cur s + 1) data) = l"
  shows "name_step data offset n s =
    (if length (add_label (ns_out s) l) < n
     then Inr (s\<lparr> ns_cur := ns_cur s + 1 + length l, ns_out := add_label (ns_out s) l \<rparr>) else Inl None)"
  using assms(1,2,4,5) length_byte [OF assms(3)]
  by (auto simp: name_step_defs add_label_def Let_def not_le)

text \<open>The decoder reads exactly such names.\<close>

lemma name_run_complete:
  assumes "name_at data p ls k c t" and "ns_cur s = p" and "ns_jumps s + k \<le> 128"
    and "ls = [] \<or> length (foldl add_label (ns_out s) ls) < n" and "\<not> ns_jumped s \<Longrightarrow> offset \<le> p"
  shows "\<exists>s'. name_run data offset n s = Some s' \<and> ns_out s' = foldl add_label (ns_out s) ls \<and>
    ns_jumped s' = (ns_jumped s \<or> 0 < k) \<and>
    ns_consumed s' = (if ns_jumped s then ns_consumed s else if 0 < k \<or> t then p - offset + c else ns_consumed s)"
  using assms
proof (induction arbitrary: s rule: name_at.induct)
  case (name_end p)
  then show ?case by (subst name_run.simps) (simp add: name_step_defs)
next
  case (name_off p)
  then show ?case by (subst name_run.simps) (simp add: name_step_defs)
next
  case (name_label p l ls k c t)
  let ?s = "s\<lparr> ns_cur := ns_cur s + 1 + length l, ns_out := add_label (ns_out s) l \<rparr>"
  have room: "length (foldl add_label (add_label (ns_out s) l) ls) < n" using name_label.prems(3) by simp
  then have "length (add_label (ns_out s) l) < n" using dotted_length le_less_trans by blast
  then have "name_step data offset n s = Inr ?s"
    using name_step_label [of s data l offset n] name_label by simp
  then have "name_run data offset n s = name_run data offset n ?s" by (subst name_run.simps) simp
  moreover note name_label.IH [of ?s]
  ultimately show ?case using name_label.prems room by (auto split: if_splits)
next
  case (name_pointer p q ls k c t)
  let ?s = "s\<lparr> ns_cur := q, ns_jumped := True, ns_jumps := Suc (ns_jumps s),
    ns_consumed := if ns_jumped s then ns_consumed s else p - offset + 2 \<rparr>"
  have "data ! p \<noteq> 0" using name_pointer.hyps(2) by auto
  then have "name_step data offset n s = Inr ?s"
    using name_pointer.hyps name_pointer.prems by (simp add: name_step_defs Let_def)
  then have "name_run data offset n s = name_run data offset n ?s" by (subst name_run.simps) simp
  moreover note name_pointer.IH [of ?s]
  ultimately show ?case using name_pointer.prems by auto
qed

lemma name_run_sound:
  assumes "name_run data offset n s = Some s'" and "\<not> ns_jumped s \<Longrightarrow> offset \<le> ns_cur s" and "ns_jumps s \<le> 128"
  shows "\<exists>ls k c t. name_at data (ns_cur s) ls k c t \<and> ns_jumps s + k \<le> 128 \<and>
    ns_out s' = foldl add_label (ns_out s) ls \<and> ns_jumped s' = (ns_jumped s \<or> 0 < k) \<and>
    ns_consumed s' = (if ns_jumped s then ns_consumed s else if 0 < k \<or> t then ns_cur s - offset + c else ns_consumed s)"
  using assms
proof (induction data offset n s rule: name_run.induct)
  case (1 data offset n s)
  show ?case
  proof (cases "ns_cur s < length data")
    case False
    then have "s' = s" using 1(2) by (subst (asm) name_run.simps) (simp add: name_step_defs)
    then show ?thesis
      using 1(4) False by (intro exI [of _ "[]"] exI [of _ 0] exI [of _ False]) (auto intro: name_off)
  next
    case lt: True
    let ?len = "data ! ns_cur s"
    consider (zero) "?len = 0" | (ptr) "?len \<noteq> 0" "?len AND 0xC0 = 0xC0" | (label) "?len \<noteq> 0" "?len AND 0xC0 = 0"
      | (bad) "?len AND 0xC0 \<noteq> 0xC0" "?len AND 0xC0 \<noteq> 0" by auto
    then show ?thesis
    proof cases
      case zero
      then have "s' = (if ns_jumped s then s else s\<lparr> ns_consumed := ns_cur s - offset + 1 \<rparr>)"
        using 1(2) lt by (subst (asm) name_run.simps) (simp add: name_step_defs)
      then show ?thesis
        using 1(4) name_end [OF lt zero] by (intro exI [of _ "[]"] exI [of _ 0] exI [of _ "1 :: nat"] exI [of _ True]) auto
    next
      case bad
      then have "?len \<noteq> 0" by auto
      then have "name_step data offset n s = Inl None" using bad lt by (simp add: name_step_defs Let_def)
      then show ?thesis using 1(2) by (subst (asm) name_run.simps) simp
    next
      case ptr
      define q where "q = unat (be16 (?len AND 0x3F) (data ! (ns_cur s + 1)))"
      let ?s = "s\<lparr> ns_cur := q, ns_jumped := True, ns_jumps := ns_jumps s + 1,
        ns_consumed := if ns_jumped s then ns_consumed s else ns_cur s - offset + 2 \<rparr>"
      have c: "ns_cur s + 1 < length data" "q < length data" "ns_jumps s + 1 \<le> 128"
          and step: "name_step data offset n s = Inr ?s"
        using 1(2) lt ptr
        by (subst (asm) name_run.simps; auto simp: name_step_defs Let_def q_def not_le split: if_splits)+
      have "name_run data offset n ?s = Some s'" using 1(2) step by (subst (asm) name_run.simps) simp
      from 1(1) [OF step this] obtain ls k c t where at: "name_at data q ls k c t"
        and "ns_jumps s + 1 + k \<le> 128" "ns_out s' = foldl add_label (ns_out s) ls" "ns_jumped s'"
          "ns_consumed s' = (if ns_jumped s then ns_consumed s else ns_cur s - offset + 2)"
        using c by auto
      then show ?thesis
        by (intro exI [of _ ls] exI [of _ "Suc k"] exI [of _ "2 :: nat"] exI [of _ t]) (auto intro: name_pointer [OF c(1) ptr(2) q_def c(2)])
    next
      case label
      define l where "l = take (unat ?len) (drop (ns_cur s + 1) data)"
      note b = length_byte_conv [OF label]
      have fit: "ns_cur s + 1 + unat ?len \<le> length data"
        using 1(2) lt label by (subst (asm) name_run.simps) (auto simp: name_step_defs Let_def split: if_splits)
      then have len: "length l = unat ?len" by (simp add: l_def)
      then have l: "?len = of_nat (length l)" "label_ok l" using b by (auto simp: label_ok_def)
      let ?s = "s\<lparr> ns_cur := ns_cur s + 1 + length l, ns_out := add_label (ns_out s) l \<rparr>"
      have at_l: "ns_cur s + 1 + length l \<le> length data" "take (length l) (drop (ns_cur s + 1) data) = l"
        using fit len by (simp_all add: l_def)
      note step = name_step_label [OF lt l at_l, of offset n]
      have room: "length (add_label (ns_out s) l) < n"
        using 1(2) step by (subst (asm) name_run.simps) (simp split: if_splits)
      then have step': "name_step data offset n s = Inr ?s" using step by simp
      have "name_run data offset n ?s = Some s'" using 1(2) step' by (subst (asm) name_run.simps) simp
      moreover have "\<not> ns_jumped ?s \<Longrightarrow> offset \<le> ns_cur ?s" "ns_jumps ?s \<le> 128" using 1(3,4) by auto
      ultimately obtain ls k c t where at: "name_at data (ns_cur ?s) ls k c t"
        and r: "ns_jumps ?s + k \<le> 128" "ns_out s' = foldl add_label (ns_out ?s) ls" "ns_jumped s' = (ns_jumped ?s \<or> 0 < k)"
          "ns_consumed s' = (if ns_jumped ?s then ns_consumed ?s else if 0 < k \<or> t then ns_cur ?s - offset + c else ns_consumed ?s)"
        using 1(1) [OF step'] by blast
      have at: "name_at data (ns_cur s + 1 + length l) ls k c t" using at by simp
      show ?thesis
        using r 1(3) name_label [OF lt l at_l at]
        by (intro exI [of _ "l # ls"] exI [of _ k] exI [of _ "if 0 < k \<or> t then 1 + length l + c else 0"] exI [of _ t]) auto
    qed
  qed
qed

lemma name_at_extent: "name_at data p ls k c t \<Longrightarrow> 0 < k \<or> t \<Longrightarrow> 0 < c \<and> p + c \<le> length data"
  by (induction rule: name_at.induct) auto

lemma name_decode_iff:
  "nfs_dns_name_decode data offset out_sz = Some (out, n) \<longleftrightarrow>
     offset < length data \<and>
     (\<exists>ls k t. name_at data offset ls k n t \<and> k \<le> 128 \<and> (0 < k \<or> t) \<and> out = dotted ls \<and> length out < out_sz)"
  (is "?L \<longleftrightarrow> ?R")
proof
  let ?s = "\<lparr> ns_cur = offset, ns_out = [], ns_jumped = False, ns_consumed = 0, ns_jumps = 0 \<rparr>"
  assume L: ?L
  then obtain s' where r: "name_run data offset out_sz ?s = Some s'"
    by (cases "name_run data offset out_sz ?s") (simp_all add: nfs_dns_name_decode_def split: if_splits)
  have lt: "offset < length data"
    and e: "length (ns_out s') < out_sz" "ns_jumped s' \<or> ns_consumed s' \<noteq> 0" "out = ns_out s'" "n = ns_consumed s'"
    using L by (simp_all add: nfs_dns_name_decode_def r not_le split: if_splits)
  obtain ls k c t where
    "name_at data offset ls k c t" "k \<le> 128" "ns_out s' = dotted ls" "ns_jumped s' = (0 < k)"
    "ns_consumed s' = (if 0 < k \<or> t then offset - offset + c else 0)"
    using name_run_sound [OF r, simplified, unfolded name_state.select_convs] by blast
  then show ?R using lt e by (cases "0 < k \<or> t") auto
next
  assume ?R
  then obtain ls k t where at: "name_at data offset ls k n t" "k \<le> 128" "0 < k \<or> t"
    and e: "out = dotted ls" "length out < out_sz" and lt: "offset < length data" by auto
  note name_at_extent [OF at(1,3)]
  moreover note name_run_complete [OF at(1), of "\<lparr> ns_cur = offset, ns_out = [], ns_jumped = False, ns_consumed = 0, ns_jumps = 0 \<rparr>" out_sz offset]
  ultimately show ?L using at e lt by (auto simp: nfs_dns_name_decode_def)
qed

text \<open>
  C35. The decoder reads a name exactly when the message holds one in the sense of \<open>name_at\<close>, with at most
  128 compression pointers and its text shorter than the buffer, and then it returns that text
  and the number of bytes the name takes at its own position. (A name that was reached through a
  pointer may also run off the end of the message in place of ending in a zero label.)
\<close>
theorem name_decode_correct:
  "nfs_dns_name_decode data offset out_sz = Some (out, n) \<longleftrightarrow>
     offset < length data \<and>
     (\<exists>ls k t. name_at data offset ls k n t \<and> k \<le> 128 \<and> (0 < k \<or> t) \<and> out = dotted ls \<and> length out < out_sz)"
  by (rule name_decode_iff)

text \<open>Passes of the loop, counted, over memory that may go on behind the message.\<close>

fun name_passes :: "nat \<Rightarrow> u8 list \<Rightarrow> nat \<Rightarrow> nat \<Rightarrow> nat \<Rightarrow> name_state \<Rightarrow> name_state option + name_state" where
  "name_passes 0 data data_len offset out_sz s = Inr s"
| "name_passes (Suc m) data data_len offset out_sz s =
     (case name_step_in data data_len offset out_sz s of
        Inl r \<Rightarrow> Inl r | Inr s' \<Rightarrow> name_passes m data data_len offset out_sz s')"

lemma name_step_reads_message: "name_step_in (data @ beyond) (length data) offset out_sz s = name_step data offset out_sz s"
  by (auto simp: name_step_defs Let_def nth_append not_le)

lemma name_step_stays:
  "name_step data offset out_sz s = Inr s' \<Longrightarrow> ns_cur s' \<le> length data \<and> length (ns_out s') \<le> max (length (ns_out s)) out_sz"
  by (auto simp: name_step_defs Let_def not_le split: if_splits)

lemma name_passes_stay:
  "name_passes m (data @ beyond) (length data) offset out_sz s = Inr s' \<Longrightarrow>
     ns_cur s' \<le> max (ns_cur s) (length data) \<and> length (ns_out s') \<le> max (length (ns_out s)) out_sz"
proof (induction m arbitrary: s)
  case (Suc m)
  then obtain s1 where "name_step data offset out_sz s = Inr s1"
    and "name_passes m (data @ beyond) (length data) offset out_sz s1 = Inr s'"
    by (auto simp: name_step_reads_message split: sum.splits)
  then show ?case using Suc.IH [of s1] name_step_stays by fastforce
qed simp

lemma name_passes_enough:
  "(128 - ns_jumps s) + (out_sz - length (ns_out s)) < m \<Longrightarrow>
     name_passes m (data @ beyond) (length data) offset out_sz s = Inl (name_run data offset out_sz s)"
proof (induction m arbitrary: s)
  case (Suc m)
  show ?case
  proof (cases "name_step data offset out_sz s")
    case (Inl r)
    then show ?thesis by (subst name_run.simps) (simp add: name_step_reads_message)
  next
    case (Inr s')
    then have "(128 - ns_jumps s') + (out_sz - length (ns_out s')) < m"
      using name_step_progress [OF Inr] Suc.prems by auto
    then show ?thesis using Suc.IH Inr by (subst name_run.simps) (simp add: name_step_reads_message)
  qed
qed simp

abbreviation name_start :: "nat \<Rightarrow> name_state" where
  "name_start offset \<equiv> \<lparr> ns_cur = offset, ns_out = [], ns_jumped = False, ns_consumed = 0, ns_jumps = 0 \<rparr>"

text \<open>
  C34. No message makes the decoder loop or leave its buffers: whatever the bytes and wherever their
  pointers lead, forwards, backwards or to themselves, the loop is left after at most
  \<open>129 + out_sz\<close> passes, and no byte behind the message has any say in the outcome; before every pass
  the position is at most the message's end (or the start it was given) and what was written fits
  the buffer; and what is returned fits it with its terminating zero and was read within the message.
\<close>
theorem name_decode_terminates:
  "name_passes (129 + out_sz) (data @ beyond) (length data) offset out_sz (name_start offset) =
     Inl (name_run data offset out_sz (name_start offset)) \<and>
   (case name_passes m (data @ beyond) (length data) offset out_sz (name_start offset) of
      Inl r \<Rightarrow> True | Inr s \<Rightarrow> ns_cur s \<le> max offset (length data) \<and> length (ns_out s) \<le> out_sz) \<and>
   (case nfs_dns_name_decode data offset out_sz of
      None \<Rightarrow> True | Some (out, n) \<Rightarrow> length out < out_sz \<and> 0 < n \<and> offset + n \<le> length data)"
proof (intro conjI)
  show "name_passes (129 + out_sz) (data @ beyond) (length data) offset out_sz (name_start offset) =
     Inl (name_run data offset out_sz (name_start offset))"
    by (rule name_passes_enough) simp
  show "case name_passes m (data @ beyond) (length data) offset out_sz (name_start offset) of
      Inl r \<Rightarrow> True | Inr s \<Rightarrow> ns_cur s \<le> max offset (length data) \<and> length (ns_out s) \<le> out_sz"
    by (auto dest: name_passes_stay split: sum.split)
  show "case nfs_dns_name_decode data offset out_sz of
      None \<Rightarrow> True | Some (out, n) \<Rightarrow> length out < out_sz \<and> 0 < n \<and> offset + n \<le> length data"
    by (auto simp: name_decode_iff dest: name_at_extent split: option.split)
qed

section \<open>Names written by the encoder\<close>
lemma name_at_wire:
  assumes "list_all label_ok ls" and "name_at data q ls' k c t" and "0 < k \<or> t"
    and "data = pre @ wire ls @ rest" and "q = length pre + length (wire ls)"
  shows "name_at data (length pre) (ls @ ls') k (length (wire ls) + c) t"
  using assms(1,4,5)
proof (induction ls arbitrary: pre)
  case (Cons l ls)
  let ?pre = "pre @ of_nat (length l) # l"
  have data: "data = ?pre @ wire ls @ rest" and l: "label_ok l" using Cons.prems by simp_all
  have "name_at data (length ?pre) (ls @ ls') k (length (wire ls) + c) t"
    using Cons.IH [of ?pre] Cons.prems by simp
  then have at: "name_at data (length pre + 1 + length l) (ls @ ls') k (length (wire ls) + c) t" by simp
  have "take (length l) (drop (length pre + 1) data) = l" by (simp add: data)
  moreover have "data ! length pre = of_nat (length l)" by (simp add: data nth_append)
  ultimately show ?case
    using name_label [OF _ _ l _ _ at] assms(3) by (simp add: data add_ac)
qed (use assms(2) in simp)

lemma name_at_zero: "data = pre @ 0 # rest \<Longrightarrow> name_at data (length pre) [] 0 1 True"
  by (rule name_end) (simp_all add: nth_append)

lemma name_at_encoded:
  assumes "list_all label_ok ls" and "data = pre @ wire ls @ 0 # rest"
  shows "name_at data (length pre) ls 0 (length (wire ls) + 1) True"
  using name_at_wire [OF assms(1) name_at_zero [of data "pre @ wire ls" rest] _ assms(2)] assms(2) by simp

text \<open>A compression pointer is the position with the two top bits set.\<close>

abbreviation pointer_to :: "nat \<Rightarrow> u8 list" where
  "pointer_to p \<equiv> put16 (0xC000 OR of_nat p)"

lemma pointer_bytes:
  assumes "p < 16384"
  shows "hi8 (0xC000 OR of_nat p) AND 0xC0 = 0xC0"
    and "unat (be16 (hi8 (0xC000 OR of_nat p) AND 0x3F) (lo8 (0xC000 OR of_nat p))) = p"
proof -
  have u: "unat (of_nat p :: u16) = p" using assms by (simp add: unat_of_nat_u16)
  have low: "bit (of_nat p :: u16) n \<Longrightarrow> n < 14" for n
    using bit_less_exp [of "of_nat p :: u16" n 14] u assms by simp
  have masks: "(0xC000 :: u16) = push_bit 14 (mask 2)" "(0xC0 :: u8) = push_bit 6 (mask 2)" "(0x3F :: u8) = mask 6"
    by (simp_all add: mask_eq_exp_minus_1 push_bit_eq_mult)
  show "hi8 (0xC000 OR of_nat p) AND 0xC0 = 0xC0"
    unfolding hi8_def masks
    by (rule bit_word_eqI) (auto simp: bit_or_iff bit_and_iff bit_push_bit_iff bit_mask_iff bit_ucast_iff bit_drop_bit_eq)
  have "be16 (hi8 (0xC000 OR of_nat p) AND 0x3F) (lo8 (0xC000 OR of_nat p)) = of_nat p"
    unfolding hi8_def lo8_def be16_def masks
    by (rule bit_word_eqI)
      (auto simp: bit_or_iff bit_and_iff bit_push_bit_iff bit_mask_iff bit_ucast_iff bit_drop_bit_eq
        simp del: bit_of_nat_iff_bit dest: low)
  then show "unat (be16 (hi8 (0xC000 OR of_nat p) AND 0x3F) (lo8 (0xC000 OR of_nat p))) = p"
    using u by simp
qed

lemma name_at_pointer:
  assumes "name_at data p ls k c t" and "p < length data" and "p < 16384" and "data = pre @ pointer_to p @ rest"
  shows "name_at data (length pre) ls (Suc k) 2 t"
proof (rule name_pointer [OF _ _ _ assms(2,1)])
  have "data ! length pre = hi8 (0xC000 OR of_nat p)" "data ! (length pre + 1) = lo8 (0xC000 OR of_nat p)"
    using assms(4) by (simp_all add: put16_def nth_append)
  then show "data ! length pre AND 0xC0 = 0xC0"
    "p = unat (be16 (data ! length pre AND 0x3F) (data ! (length pre + 1)))"
    using pointer_bytes [OF assms(3)] by simp_all
  show "length pre + 1 < length data" using assms(4) by simp
qed

lemma decode_encoded:
  assumes "nfs_dns_name_encode name m = Some w" and "length (dotted (dns_labels name)) < n"
  shows "nfs_dns_name_decode (pre @ w @ rest) (length pre) n = Some (dotted (dns_labels name), length w)"
proof -
  have w: "w = wire (dns_labels name) @ [0]" and ok: "list_all label_ok (dns_labels name)"
    using assms(1) by (simp_all add: name_encode_eq split: if_splits)
  have "name_at (pre @ w @ rest) (length pre) (dns_labels name) 0 (length w) True"
    using name_at_encoded [OF ok, of "pre @ w @ rest" pre rest] by (simp add: w)
  then show ?thesis
    using assms(2) unfolding name_decode_iff by (intro conjI exI [of _ "dns_labels name"] exI [of _ 0] exI [of _ True]) (simp_all add: w)
qed

text \<open>
  Names are read back as written, and compression saves bytes without changing them: an encoded
  name decodes to its text without empty labels, wherever it lies in a message, and labels followed by a
  pointer to it decode to those labels in front of that name.
\<close>
theorem dns_name_roundtrip:
  assumes "nfs_dns_name_encode name m = Some w" and "length pre < 16384" and "list_all label_ok ls"
    and "length (dotted (ls @ dns_labels name)) < n"
  shows "nfs_dns_name_decode (pre @ w @ rest) (length pre) n = Some (dotted (dns_labels name), length w) \<and>
    nfs_dns_name_decode (pre @ w @ mid @ wire ls @ pointer_to (length pre) @ rest) (length (pre @ w @ mid)) n =
      Some (dotted (ls @ dns_labels name), length (wire ls) + 2)"
proof
  have w: "w = wire (dns_labels name) @ [0]" and ok: "list_all label_ok (dns_labels name)"
    using assms(1) by (simp_all add: name_encode_eq split: if_splits)
  let ?data = "pre @ w @ mid @ wire ls @ pointer_to (length pre) @ rest"
  have "name_at ?data (length pre) (dns_labels name) 0 (length w) True"
    using name_at_encoded [OF ok, of ?data pre "mid @ wire ls @ pointer_to (length pre) @ rest"] by (simp add: w)
  then have "name_at ?data (length (pre @ w @ mid @ wire ls)) (dns_labels name) 1 2 True"
    using name_at_pointer [OF _ _ assms(2), of ?data "dns_labels name" 0 "length w" True "pre @ w @ mid @ wire ls" rest]
    by (simp add: w)
  then have "name_at ?data (length (pre @ w @ mid)) (ls @ dns_labels name) 1 (length (wire ls) + 2) True"
    by (rule name_at_wire [OF assms(3), where rest = "pointer_to (length pre) @ rest"]) simp_all
  then show "nfs_dns_name_decode ?data (length (pre @ w @ mid)) n = Some (dotted (ls @ dns_labels name), length (wire ls) + 2)"
    using assms(4) unfolding name_decode_iff
    by (intro conjI exI [of _ "ls @ dns_labels name"] exI [of _ 1] exI [of _ True]) (simp_all add: put16_def)
  have "length (dotted (dns_labels name)) < n"
    using assms(4) dotted_mono [of "[]" "dotted ls" "dns_labels name"] by simp
  then show "nfs_dns_name_decode (pre @ w @ rest) (length pre) n = Some (dotted (dns_labels name), length w)"
    by (rule decode_encoded [OF assms(1)])
qed

text \<open>
  An example: \<open>a.b\<close> at position 0, and \<open>c\<close> in front of a pointer to it. And a pointer to itself.
\<close>

lemma dns_name_roundtrip_witness:
  "nfs_dns_name_decode ([1, 97, 1, 98, 0] @ [] @ wire [[99]] @ pointer_to 0) (length [1, 97, 1, 98, 0 :: u8]) 255 =
    Some ([99, 46, 97, 46, 98], length (wire [[99]]) + 2)"
proof -
  have l: "dns_labels [97, 46, 98] = [[97], [98]]" by (simp add: dns_labels_def)
  have e: "nfs_dns_name_encode [97, 46, 98] 255 = Some [1, 97, 1, 98, 0]"
    by (simp add: name_encode_eq l label_ok_def)
  have ok: "list_all label_ok [[99 :: u8]]" by (simp add: label_ok_def)
  have "length (dotted ([[99]] @ dns_labels [97, 46, 98])) < 255" by (simp add: l add_label_def)
  from conjunct2 [OF dns_name_roundtrip [OF e _ ok this, of "[]" "[]" "[]"]]
  show ?thesis by (simp add: l add_label_def)
qed

lemma self_pointer_refused: "nfs_dns_name_decode [0xC0, 0] 0 255 = None"
proof -
  have "name_at [0xC0, 0] p ls k c t \<Longrightarrow> p = 0 \<Longrightarrow> k \<noteq> k" for p ls k c t
    by (induction rule: name_at.induct) (auto simp: be16_def dest!: length_byte)
  then show ?thesis
    by (metis name_decode_iff not_None_eq surj_pair)
qed

text \<open>A name may run off the end of the message if a pointer led there.\<close>

lemma unterminated_name_accepted: "nfs_dns_name_decode [0xC0, 2, 1, 97] 0 255 = Some ([97], 2)"
proof -
  let ?d = "[0xC0, 2, 1, 97] :: u8 list"
  have "name_at ?d 4 [] 0 0 False" by (rule name_off) simp
  then have "name_at ?d 2 [[97]] 0 0 False"
    using name_label [of 2 ?d "[97]" "[]" 0 0 False] by (simp add: label_ok_def)
  then have "name_at ?d 0 [[97]] 1 2 False"
    using name_pointer [of 0 ?d 2 "[[97]]" 0 0 False] by (simp add: be16_def)
  then show ?thesis
    unfolding name_decode_iff
    by (intro conjI exI [of _ "[[97]]"] exI [of _ "1 :: nat"] exI [of _ False]) (simp_all add: add_label_def)
qed

end
