(* ===== verification/Dns.thy ===== *)
theory Dns
  imports DnsName
begin

text \<open>
  A resolver and an authoritative server: the query builder and response parser of
  \<^verbatim>\<open>phases/06-application-protocols/02-a-dns-resolver-from-scratch/dns_resolver.c\<close> and the zone
  with its lookup and response builder of
  \<^verbatim>\<open>phases/06-application-protocols/03-authoritative-dns-server/dns_auth.c\<close>. The fields of a header
  are the numbers that \<^verbatim>\<open>ntohs\<close> gives; the length of a record's data is the length of the list.
  The lemmas show what each side reads of what the other wrote, and the theorem what a
  resolver learns of a zone through a query and its response.
\<close>

section \<open>Definitions\<close>

definition NFS_DNS_HEADER_SIZE :: nat where "NFS_DNS_HEADER_SIZE = 12"
definition NFS_DNS_CLASS_IN :: u16 where "NFS_DNS_CLASS_IN = 1"
definition NFS_DNS_TYPE_A :: u16 where "NFS_DNS_TYPE_A = 1"
definition NFS_DNS_TYPE_NS :: u16 where "NFS_DNS_TYPE_NS = 2"
definition NFS_DNS_TYPE_SOA :: u16 where "NFS_DNS_TYPE_SOA = 6"
definition NFS_DNS_RCODE_NOERROR :: u16 where "NFS_DNS_RCODE_NOERROR = 0"
definition NFS_DNS_RCODE_NXDOMAIN :: u16 where "NFS_DNS_RCODE_NXDOMAIN = 3"

text \<open>\<^verbatim>\<open>NFS_DNS_MAX_RR\<close> of the resolver and of the server.\<close>

definition resolver_max_rr :: nat where "resolver_max_rr = 32"
definition zone_max_rr :: nat where "zone_max_rr = 128"

record nfs_dns_header =
  dh_id :: u16
  dh_flags :: u16
  dh_qdcount :: u16
  dh_ancount :: u16
  dh_nscount :: u16
  dh_arcount :: u16

record nfs_dns_rr =
  rr_name :: "u8 list"
  rr_type :: u16
  rr_rclass :: u16
  rr_ttl :: u32
  rr_rdata :: "u8 list"

record nfs_dns_response =
  rp_header :: nfs_dns_header
  rp_qname :: "u8 list"
  rp_qtype :: u16
  rp_qclass :: u16
  rp_answers :: "nfs_dns_rr list"

definition put_header :: "nfs_dns_header \<Rightarrow> u8 list" where
  "put_header h = put16 (dh_id h) @ put16 (dh_flags h) @ put16 (dh_qdcount h) @ put16 (dh_ancount h) @
     put16 (dh_nscount h) @ put16 (dh_arcount h)"

definition get_header :: "u8 list \<Rightarrow> nfs_dns_header" where
  "get_header data =
     \<lparr> dh_id = get16 data 0, dh_flags = get16 data 2, dh_qdcount = get16 data 4, dh_ancount = get16 data 6,
       dh_nscount = get16 data 8, dh_arcount = get16 data 10 \<rparr>"

definition nfs_dns_is_response :: "nfs_dns_header \<Rightarrow> bool" where
  "nfs_dns_is_response h \<longleftrightarrow> drop_bit 15 (dh_flags h) AND 1 \<noteq> 0"

definition nfs_dns_is_query :: "nfs_dns_header \<Rightarrow> bool" where
  "nfs_dns_is_query h \<longleftrightarrow> \<not> nfs_dns_is_response h"

definition nfs_dns_rcode :: "nfs_dns_header \<Rightarrow> u8" where
  "nfs_dns_rcode h = ucast (dh_flags h AND 0x000F)"

definition nfs_dns_rcode_str :: "u8 \<Rightarrow> string" where
  "nfs_dns_rcode_str rcode =
     (if rcode = 0 then ''NOERROR'' else if rcode = 1 then ''FORMERR'' else if rcode = 2 then ''SERVFAIL''
      else if rcode = 3 then ''NXDOMAIN'' else if rcode = 4 then ''NOTIMP'' else if rcode = 5 then ''REFUSED''
      else ''UNKNOWN'')"

definition nfs_dns_type_str :: "u16 \<Rightarrow> string" where
  "nfs_dns_type_str t =
     (if t = 1 then ''A'' else if t = 2 then ''NS'' else if t = 5 then ''CNAME'' else if t = 6 then ''SOA''
      else if t = 12 then ''PTR'' else if t = 15 then ''MX'' else if t = 16 then ''TXT'' else if t = 28 then ''AAAA''
      else ''UNKNOWN'')"

definition nfs_dns_query_build :: "u8 list \<Rightarrow> u16 \<Rightarrow> u16 \<Rightarrow> nat \<Rightarrow> u8 list option" where
  "nfs_dns_query_build name qtype qid out_sz =
     (if out_sz < NFS_DNS_HEADER_SIZE then None
      else
        let hdr = \<lparr> dh_id = qid, dh_flags = 0x0100, dh_qdcount = 1, dh_ancount = 0, dh_nscount = 0, dh_arcount = 0 \<rparr> in
        case nfs_dns_name_encode name (out_sz - NFS_DNS_HEADER_SIZE) of
          None \<Rightarrow> None
        | Some w \<Rightarrow>
            if NFS_DNS_HEADER_SIZE + length w + 4 > out_sz then None
            else Some (put_header hdr @ w @ put16 qtype @ put16 NFS_DNS_CLASS_IN))"

text \<open>
  One pass of each loop of the parser: a question, and a record, at an offset, with the number of
  bytes the offset moves on. The name buffers hold \<^verbatim>\<open>NFS_DNS_MAX_NAME\<close> bytes, the data of a record 512.
\<close>

definition read_question :: "u8 list \<Rightarrow> nat \<Rightarrow> ((u8 list \<times> u16 \<times> u16) \<times> nat) option" where
  "read_question data offset =
     (case nfs_dns_name_decode data offset NFS_DNS_MAX_NAME of
        None \<Rightarrow> None
      | Some (qname, consumed) \<Rightarrow>
          if offset + consumed + 4 > length data then None
          else Some ((qname, get16 data (offset + consumed), get16 data (offset + consumed + 2)), consumed + 4))"

definition read_rr :: "u8 list \<Rightarrow> nat \<Rightarrow> (nfs_dns_rr \<times> nat) option" where
  "read_rr data offset =
     (case nfs_dns_name_decode data offset NFS_DNS_MAX_NAME of
        None \<Rightarrow> None
      | Some (name, consumed) \<Rightarrow>
          let p = offset + consumed in
          if p + 10 > length data then None
          else
            let rdlen = unat (get16 data (p + 8)) in
            if p + 10 + rdlen > length data then None
            else if rdlen > 512 then None
            else Some (\<lparr> rr_name = name, rr_type = get16 data p, rr_rclass = get16 data (p + 2),
                         rr_ttl = get32 data (p + 4), rr_rdata = take rdlen (drop (p + 10) data) \<rparr>,
                   consumed + 10 + rdlen))"

definition nfs_dns_response_parse :: "u8 list \<Rightarrow> nfs_dns_response option" where
  "nfs_dns_response_parse data =
     (if length data < NFS_DNS_HEADER_SIZE then None
      else
        let hdr = get_header data in
        if \<not> nfs_dns_is_response hdr then None
        else
          case read_at read_question (unat (dh_qdcount hdr)) data NFS_DNS_HEADER_SIZE of
            None \<Rightarrow> None
          | Some (questions, offset) \<Rightarrow>
              let ancount = (if unat (dh_ancount hdr) > resolver_max_rr then resolver_max_rr else unat (dh_ancount hdr)) in
              case read_at read_rr ancount data offset of
                None \<Rightarrow> None
              | Some (answers, _) \<Rightarrow>
                  Some (case questions of
                          [] \<Rightarrow> \<lparr> rp_header = hdr, rp_qname = [], rp_qtype = 0, rp_qclass = 0, rp_answers = answers \<rparr>
                        | (qname, qtype, qclass) # _ \<Rightarrow>
                            \<lparr> rp_header = hdr, rp_qname = qname, rp_qtype = qtype, rp_qclass = qclass, rp_answers = answers \<rparr>))"

subsection \<open>The zone\<close>

record nfs_dns_soa =
  soa_mname :: "u8 list"
  soa_rname :: "u8 list"
  soa_serial :: u32
  soa_refresh :: u32
  soa_retry :: u32
  soa_expire :: u32
  soa_minimum :: u32

record nfs_dns_zone =
  zn_origin :: "u8 list"
  zn_rrs :: "nfs_dns_rr list"

text \<open>\<^verbatim>\<open>strcasecmp\<close> compares the lower case of the letters A to Z.\<close>

definition to_lower :: "u8 \<Rightarrow> u8" where
  "to_lower c = (if 65 \<le> c \<and> c \<le> 90 then c + 32 else c)"

definition name_eq :: "u8 list \<Rightarrow> u8 list \<Rightarrow> bool" where
  "name_eq a b \<longleftrightarrow> map to_lower a = map to_lower b"

definition nfs_dns_zone_init :: "u8 list \<Rightarrow> nfs_dns_zone option" where
  "nfs_dns_zone_init origin =
     (if length origin \<ge> NFS_DNS_MAX_NAME then None else Some \<lparr> zn_origin = origin, zn_rrs = [] \<rparr>)"

definition nfs_dns_zone_add_rr ::
  "nfs_dns_zone \<Rightarrow> u8 list \<Rightarrow> u16 \<Rightarrow> u16 \<Rightarrow> u32 \<Rightarrow> u8 list \<Rightarrow> nfs_dns_zone option" where
  "nfs_dns_zone_add_rr zone name type rclass ttl rdata =
     (if length (zn_rrs zone) \<ge> zone_max_rr then None
      else if length rdata > 512 then None
      else if length name \<ge> NFS_DNS_MAX_NAME then None
      else Some (zone\<lparr> zn_rrs := zn_rrs zone @
             [\<lparr> rr_name = name, rr_type = type, rr_rclass = rclass, rr_ttl = ttl, rr_rdata = rdata \<rparr>] \<rparr>))"

definition nfs_dns_zone_add_a ::
  "nfs_dns_zone \<Rightarrow> u8 list \<Rightarrow> u32 \<Rightarrow> u8 \<Rightarrow> u8 \<Rightarrow> u8 \<Rightarrow> u8 \<Rightarrow> nfs_dns_zone option" where
  "nfs_dns_zone_add_a zone name ttl a b c d =
     nfs_dns_zone_add_rr zone name NFS_DNS_TYPE_A NFS_DNS_CLASS_IN ttl [a, b, c, d]"

definition nfs_dns_zone_add_ns ::
  "nfs_dns_zone \<Rightarrow> u8 list \<Rightarrow> u32 \<Rightarrow> u8 list \<Rightarrow> nfs_dns_zone option" where
  "nfs_dns_zone_add_ns zone name ttl nsname =
     (case nfs_dns_name_encode nsname NFS_DNS_MAX_NAME of
        None \<Rightarrow> None
      | Some encoded \<Rightarrow> nfs_dns_zone_add_rr zone name NFS_DNS_TYPE_NS NFS_DNS_CLASS_IN ttl encoded)"

definition nfs_dns_zone_add_soa ::
  "nfs_dns_zone \<Rightarrow> u8 list \<Rightarrow> u32 \<Rightarrow> nfs_dns_soa \<Rightarrow> nfs_dns_zone option" where
  "nfs_dns_zone_add_soa zone name ttl soa =
     (case nfs_dns_name_encode (soa_mname soa) 512 of
        None \<Rightarrow> None
      | Some m \<Rightarrow>
          (case nfs_dns_name_encode (soa_rname soa) (512 - length m) of
             None \<Rightarrow> None
           | Some r \<Rightarrow>
               if length m + length r + 20 > 512 then None
               else nfs_dns_zone_add_rr zone name NFS_DNS_TYPE_SOA NFS_DNS_CLASS_IN ttl
                      (m @ r @ put32 (soa_serial soa) @ put32 (soa_refresh soa) @ put32 (soa_retry soa) @
                       put32 (soa_expire soa) @ put32 (soa_minimum soa))))"

text \<open>The matches, in the order of the zone, up to the size of the result.\<close>

definition nfs_dns_zone_lookup :: "nfs_dns_zone \<Rightarrow> u8 list \<Rightarrow> u16 \<Rightarrow> nfs_dns_rr list" where
  "nfs_dns_zone_lookup zone qname qtype =
     take zone_max_rr (filter (\<lambda>rr. name_eq (rr_name rr) qname \<and> (qtype = 255 \<or> rr_type rr = qtype)) (zn_rrs zone))"

definition write_rr_wire :: "nfs_dns_rr \<Rightarrow> nat \<Rightarrow> u8 list option" where
  "write_rr_wire rr out_sz =
     (case nfs_dns_name_encode (rr_name rr) out_sz of
        None \<Rightarrow> None
      | Some w \<Rightarrow>
          if length w + 10 + length (rr_rdata rr) > out_sz then None
          else Some (w @ put16 (rr_type rr) @ put16 (rr_rclass rr) @ put32 (rr_ttl rr) @
                 put16 (of_nat (length (rr_rdata rr))) @ rr_rdata rr))"

text \<open>The loop that writes the answers and the one that writes the authority records.\<close>

fun write_rrs :: "nfs_dns_rr list \<Rightarrow> nat \<Rightarrow> u8 list \<Rightarrow> u8 list option" where
  "write_rrs [] out_sz out = Some out"
| "write_rrs (rr # rrs) out_sz out =
     (case write_rr_wire rr (out_sz - length out) of
        None \<Rightarrow> None
      | Some w \<Rightarrow> write_rrs rrs out_sz (out @ w))"

definition nfs_dns_zone_build_response :: "nfs_dns_zone \<Rightarrow> u8 list \<Rightarrow> nat \<Rightarrow> u8 list option" where
  "nfs_dns_zone_build_response zone query out_sz =
     (if length query < NFS_DNS_HEADER_SIZE then None
      else if out_sz < NFS_DNS_HEADER_SIZE then None
      else
        let qhdr = get_header query in
        if dh_qdcount qhdr = 0 then None
        else
        case nfs_dns_name_decode query NFS_DNS_HEADER_SIZE NFS_DNS_MAX_NAME of None \<Rightarrow> None
        | Some (qname, consumed) \<Rightarrow>
          let qoff = NFS_DNS_HEADER_SIZE + consumed in
          if qoff + 4 > length query then None
          else
          let qtype = get16 query qoff; qclass = get16 query (qoff + 2);
              answers = nfs_dns_zone_lookup zone qname qtype;
              authority = nfs_dns_zone_lookup zone (zn_origin zone) NFS_DNS_TYPE_NS;
              rcode = (if answers = [] \<and> nfs_dns_zone_lookup zone qname 255 = []
                       then NFS_DNS_RCODE_NXDOMAIN else NFS_DNS_RCODE_NOERROR);
              rflags = (if dh_flags qhdr AND 0x0100 \<noteq> 0 then 0x8400 OR 0x0100 else 0x8400) OR rcode;
              rhdr = \<lparr> dh_id = dh_id qhdr, dh_flags = rflags, dh_qdcount = 1, dh_ancount = of_nat (length answers),
                       dh_nscount = of_nat (length authority), dh_arcount = 0 \<rparr>
          in
          case nfs_dns_name_encode qname (out_sz - NFS_DNS_HEADER_SIZE) of None \<Rightarrow> None
          | Some w \<Rightarrow>
            if NFS_DNS_HEADER_SIZE + length w + 4 > out_sz then None
            else
            case write_rrs answers out_sz (put_header rhdr @ w @ put16 qtype @ put16 qclass) of None \<Rightarrow> None
            | Some out \<Rightarrow> write_rrs authority out_sz out)"

section \<open>What the other side reads\<close>

lemma length_put_header [simp]: "length (put_header h) = 12"
  by (simp add: put_header_def)

lemma get_put_header [simp]: "get_header (put_header h @ rest) = h"
  by (simp add: put_header_def get_header_def get_past)

text \<open>The text of a name as a reader sees it: without empty labels.\<close>

abbreviation canon :: "u8 list \<Rightarrow> u8 list" where
  "canon name \<equiv> dotted (dns_labels name)"

lemma labels_no_dot: "l \<in> set (dns_labels name) \<Longrightarrow> dot \<notin> set l"
proof -
  have "l \<in> set (cut_at dot acc name) \<Longrightarrow> dot \<notin> set acc \<Longrightarrow> dot \<notin> set l" for acc
  proof (induction name arbitrary: acc)
    case (Cons x name)
    show ?case
    proof (cases "x = dot")
      case True
      then have "l = rev acc \<or> l \<in> set (cut_at dot [] name)" using Cons.prems(1) by simp
      then show ?thesis using Cons.IH [of "[]"] Cons.prems(2) by fastforce
    next
      case False
      then show ?thesis using Cons.IH [of "x # acc"] Cons.prems by simp
    qed
  qed (auto split: if_splits)
  then show "l \<in> set (dns_labels name) \<Longrightarrow> dot \<notin> set l" by (force simp: dns_labels_def)
qed

lemma foldl_add_label: "out \<noteq> [] \<Longrightarrow> foldl add_label out ls = out @ concat (map (\<lambda>l. dot # l) ls)"
  by (induction ls arbitrary: out) (simp_all add: add_label_def)

lemma dotted_Cons: "l \<noteq> [] \<Longrightarrow> dotted (l # ls) = l @ concat (map (\<lambda>l. dot # l) ls)"
  by (simp add: foldl_add_label add_label_def)

lemma dns_labels_dotted:
  "list_all (\<lambda>l. l \<noteq> [] \<and> dot \<notin> set l) ls \<Longrightarrow> dns_labels (dotted ls) = ls"
proof (induction ls)
  case (Cons l ls)
  show ?case
  proof (cases ls)
    case Nil
    then show ?thesis using Cons.prems by (simp add: dns_labels_def cut_at_last add_label_def)
  next
    case (Cons k ks)
    have "dotted (l # ls) = l @ dot # dotted ls"
      using Cons.prems by (simp add: Cons dotted_Cons del: foldl_Cons)
    then have "dns_labels (dotted (l # ls)) = l # dns_labels (dotted ls)"
      unfolding dns_labels_def using Cons.prems by (simp add: cut_at_prefix del: foldl_Cons)
    then show ?thesis using Cons.IH Cons.prems by simp
  qed
qed (simp add: dns_labels_def)

lemma dns_labels_canon [simp]: "dns_labels (canon name) = dns_labels name"
  by (rule dns_labels_dotted) (auto simp: list_all_iff dest: labels_no_dot dns_labels_ne)

lemma length_dotted: "list_all (\<lambda>l. l \<noteq> []) ls \<Longrightarrow> length (dotted ls) = length (wire ls) - 1"
proof (cases ls)
  case (Cons l ks)
  have "length (concat (map (\<lambda>l. dot # l) ks)) = length (wire ks)" by (induction ks) simp_all
  moreover assume "list_all (\<lambda>l. l \<noteq> []) ls"
  ultimately show ?thesis by (simp add: Cons dotted_Cons del: foldl_Cons)
qed simp

lemma length_wire_labels: "length (wire (dns_labels name)) \<le> length name + 1"
proof (induction name rule: length_induct)
  case (1 name)
  show ?case
  proof (cases "name = []")
    case False
    define label where "label = takeWhile (\<lambda>c. c \<noteq> dot) name"
    note step = dns_labels_step [OF False, folded label_def]
    have len: "length label \<le> length name" by (simp add: label_def length_takeWhile_le)
    show ?thesis
    proof (cases "label = []")
      case True
      then have "length (wire (dns_labels (tl name))) \<le> length (tl name) + 1"
        using 1 [rule_format, of "tl name"] False by (cases name) simp_all
      then show ?thesis using step(1) True False by (cases name) simp_all
    next
      case ne: False
      show ?thesis
      proof (cases "dot \<in> set name")
        case True
        moreover have "dot \<notin> set label" by (auto simp: label_def dest: set_takeWhileD)
        ultimately have "name \<noteq> label" by auto
        then have "length label \<noteq> length name"
          by (metis append_take_drop_id label_def takeWhile_eq_take take_all_iff le_refl)
        then have "length label + 1 \<le> length name" using len by simp
        moreover have "length (wire (dns_labels (drop (length label + 1) name))) \<le> length (drop (length label + 1) name) + 1"
          using 1 [rule_format, of "drop (length label + 1) name"] False by simp
        ultimately show ?thesis using step(2) [OF ne] True by simp
      next
        case no: False
        then have "label = name" unfolding label_def by (simp add: takeWhile_eq_all_conv) blast
        then show ?thesis using step(2) [OF ne] no by (simp add: dns_labels_def)
      qed
    qed
  qed (simp add: dns_labels_def)
qed

lemma length_canon: "length (canon name) \<le> length name"
  using length_wire_labels [of name] length_dotted [of "dns_labels name"] dns_labels_ne
  by (simp add: list_all_iff)

text \<open>Questions and records as they are laid out, and that the readers read them.\<close>

definition question_bytes :: "u8 list \<times> u16 \<times> u16 \<Rightarrow> u8 list" where
  "question_bytes q = wire (dns_labels (fst q)) @ [0] @ put16 (fst (snd q)) @ put16 (snd (snd q))"

definition rr_bytes :: "nfs_dns_rr \<Rightarrow> u8 list" where
  "rr_bytes rr = wire (dns_labels (rr_name rr)) @ [0] @ put16 (rr_type rr) @ put16 (rr_rclass rr) @ put32 (rr_ttl rr) @
     put16 (of_nat (length (rr_rdata rr))) @ rr_rdata rr"

definition writable :: "u8 list \<Rightarrow> bool" where
  "writable name \<longleftrightarrow> list_all label_ok (dns_labels name) \<and> length name < NFS_DNS_MAX_NAME"

lemma decode_at:
  assumes "writable name"
  shows "nfs_dns_name_decode (pre @ wire (dns_labels name) @ 0 # rest) (length pre) NFS_DNS_MAX_NAME =
    Some (canon name, length (wire (dns_labels name)) + 1)"
proof -
  have "nfs_dns_name_encode name (length name + 2) = Some (wire (dns_labels name) @ [0])"
    using assms length_wire_labels [of name] by (simp add: name_encode_eq writable_def)
  moreover have "length (canon name) < NFS_DNS_MAX_NAME"
    using assms length_canon [of name] by (simp add: writable_def)
  ultimately show ?thesis using decode_encoded [of name "length name + 2" _ NFS_DNS_MAX_NAME pre rest] by simp
qed

interpretation question: located_codec question_bytes read_question
  "\<lambda>(name, t, c). (canon name, t, c)" "\<lambda>(name, t, c). writable name"
proof
  fix q :: "u8 list \<times> u16 \<times> u16" and pre rest
  assume "case q of (name, t, c) \<Rightarrow> writable name"
  then obtain name t c where q: "q = (name, t, c)" and w: "writable name" by (cases q) auto
  show "read_question (pre @ question_bytes q @ rest) (length pre) =
      Some (case q of (name, t, c) \<Rightarrow> (canon name, t, c), length (question_bytes q))"
    using decode_at [OF w, of pre "put16 t @ put16 c @ rest"]
    by (simp add: q read_question_def question_bytes_def get_past)
qed

interpretation rr: located_codec rr_bytes read_rr
  "\<lambda>rr. rr\<lparr> rr_name := canon (rr_name rr) \<rparr>" "\<lambda>rr. writable (rr_name rr) \<and> length (rr_rdata rr) \<le> 512"
proof
  fix rr :: nfs_dns_rr and pre rest
  assume v: "writable (rr_name rr) \<and> length (rr_rdata rr) \<le> 512"
  then have l: "unat (of_nat (length (rr_rdata rr)) :: u16) = length (rr_rdata rr)"
    by (simp add: unat_of_nat_u16)
  note d = decode_at [of "rr_name rr" pre "put16 (rr_type rr) @ put16 (rr_rclass rr) @ put32 (rr_ttl rr) @
     put16 (of_nat (length (rr_rdata rr))) @ rr_rdata rr @ rest"]
  show "read_rr (pre @ rr_bytes rr @ rest) (length pre) =
      Some (rr\<lparr> rr_name := canon (rr_name rr) \<rparr>, length (rr_bytes rr))"
    using v d l by (simp add: read_rr_def rr_bytes_def get_past Let_def)
qed

text \<open>What the writers write, and when they have room.\<close>

lemma write_rr_wire_eq:
  "writable (rr_name rr) \<Longrightarrow>
     write_rr_wire rr n = (if length (rr_bytes rr) \<le> n then Some (rr_bytes rr) else None)"
  by (auto simp: write_rr_wire_def name_encode_eq writable_def rr_bytes_def)

lemma write_rrs_eq:
  "list_all (\<lambda>rr. writable (rr_name rr)) rrs \<Longrightarrow> length out + length (concat (map rr_bytes rrs)) \<le> out_sz \<Longrightarrow>
     write_rrs rrs out_sz out = Some (out @ concat (map rr_bytes rrs))"
  by (induction rrs arbitrary: out) (simp_all add: write_rr_wire_eq)

lemma query_build_eq:
  "nfs_dns_query_build name qtype qid m = Some q \<Longrightarrow>
     q = put_header \<lparr> dh_id = qid, dh_flags = 0x0100, dh_qdcount = 1, dh_ancount = 0, dh_nscount = 0, dh_arcount = 0 \<rparr> @
       question_bytes (name, qtype, NFS_DNS_CLASS_IN) \<and> list_all label_ok (dns_labels name)"
  by (auto simp: nfs_dns_query_build_def name_encode_eq question_bytes_def Let_def split: if_splits)

section \<open>Zones\<close>

datatype zone_event =
    ZoneAddRr "u8 list" u16 u16 u32 "u8 list"
  | ZoneAddA "u8 list" u32 u8 u8 u8 u8
  | ZoneAddNs "u8 list" u32 "u8 list"
  | ZoneAddSoa "u8 list" u32 nfs_dns_soa

text \<open>A refused record leaves the zone as it is.\<close>

fun zone_step :: "nfs_dns_zone \<Rightarrow> zone_event \<Rightarrow> nfs_dns_zone" where
  "zone_step z (ZoneAddRr n t c ttl d) = case_option z id (nfs_dns_zone_add_rr z n t c ttl d)"
| "zone_step z (ZoneAddA n ttl a b c d) = case_option z id (nfs_dns_zone_add_a z n ttl a b c d)"
| "zone_step z (ZoneAddNs n ttl ns) = case_option z id (nfs_dns_zone_add_ns z n ttl ns)"
| "zone_step z (ZoneAddSoa n ttl soa) = case_option z id (nfs_dns_zone_add_soa z n ttl soa)"

definition zone_inv :: "nfs_dns_zone \<Rightarrow> bool" where
  "zone_inv z \<longleftrightarrow> length (zn_rrs z) \<le> zone_max_rr \<and>
     (\<forall>rr \<in> set (zn_rrs z). length (rr_name rr) < NFS_DNS_MAX_NAME \<and> length (rr_rdata rr) \<le> 512)"

lemma add_rr_inv: "zone_inv z \<Longrightarrow> nfs_dns_zone_add_rr z n t c ttl d = Some z' \<Longrightarrow> zone_inv z'"
  by (auto simp: zone_inv_def nfs_dns_zone_add_rr_def split: if_splits)

interpretation zone: machine zone_step "\<lambda>z e. True" zone_inv
proof
  fix z e
  assume "zone_inv z"
  then show "zone_inv (zone_step z e)"
    by (cases e) (auto intro: add_rr_inv simp: id_def nfs_dns_zone_add_a_def nfs_dns_zone_add_ns_def nfs_dns_zone_add_soa_def split: option.split)
qed

lemma zone_init_inv: "nfs_dns_zone_init origin = Some z \<Longrightarrow> zone_inv z"
  by (auto simp: nfs_dns_zone_init_def zone_inv_def split: if_splits)

definition zone_matches :: "nfs_dns_zone \<Rightarrow> u8 list \<Rightarrow> u16 \<Rightarrow> nfs_dns_rr list" where
  "zone_matches z qname qtype =
     filter (\<lambda>rr. name_eq (rr_name rr) qname \<and> (qtype = 255 \<or> rr_type rr = qtype)) (zn_rrs z)"

lemma zone_lookup_eq: "zone_inv z \<Longrightarrow> nfs_dns_zone_lookup z qname qtype = zone_matches z qname qtype"
proof -
  assume "zone_inv z"
  then have "length (zone_matches z qname qtype) \<le> zone_max_rr"
    unfolding zone_matches_def zone_inv_def by (meson length_filter_le le_trans)
  then show ?thesis by (simp add: nfs_dns_zone_lookup_def zone_matches_def)
qed

section \<open>A query and its answer\<close>

text \<open>The size of the response.\<close>

definition response_size :: "nfs_dns_zone \<Rightarrow> u8 list \<Rightarrow> u16 \<Rightarrow> nat" where
  "response_size z qname qtype = NFS_DNS_HEADER_SIZE + length (question_bytes (qname, qtype, NFS_DNS_CLASS_IN)) +
     length (concat (map rr_bytes (zone_matches z qname qtype @ zone_matches z (zn_origin z) NFS_DNS_TYPE_NS)))"

definition response_header :: "nfs_dns_zone \<Rightarrow> u8 list \<Rightarrow> u16 \<Rightarrow> u16 \<Rightarrow> nfs_dns_header" where
  "response_header z qname qtype qid =
     \<lparr> dh_id = qid,
       dh_flags = 0x8500 OR (if zone_matches z qname 255 = [] then NFS_DNS_RCODE_NXDOMAIN else NFS_DNS_RCODE_NOERROR),
       dh_qdcount = 1, dh_ancount = of_nat (length (zone_matches z qname qtype)),
       dh_nscount = of_nat (length (zone_matches z (zn_origin z) NFS_DNS_TYPE_NS)), dh_arcount = 0 \<rparr>"

lemma zone_response:
  assumes inv: "zone_inv z" and names: "\<forall>rr \<in> set (zn_rrs z). list_all label_ok (dns_labels (rr_name rr))"
    and query: "nfs_dns_query_build name qtype qid m = Some q" and name: "length name < NFS_DNS_MAX_NAME"
    and room: "response_size z (canon name) qtype \<le> out_sz"
  shows "nfs_dns_zone_build_response z q out_sz =
    Some (put_header (response_header z (canon name) qtype qid) @ question_bytes (canon name, qtype, NFS_DNS_CLASS_IN) @
      concat (map rr_bytes (zone_matches z (canon name) qtype @ zone_matches z (zn_origin z) NFS_DNS_TYPE_NS)))"
proof -
  let ?hdr = "\<lparr> dh_id = qid, dh_flags = 0x0100, dh_qdcount = 1, dh_ancount = 0, dh_nscount = 0, dh_arcount = 0 \<rparr>"
  let ?w = "wire (dns_labels name)"
  have q: "q = put_header ?hdr @ ?w @ 0 # put16 qtype @ put16 NFS_DNS_CLASS_IN"
    and ok: "list_all label_ok (dns_labels name)"
    using query_build_eq [OF query] by (simp_all add: question_bytes_def)
  have "writable name" using ok name by (simp add: writable_def)
  from decode_at [OF this, of "put_header ?hdr" "put16 qtype @ put16 NFS_DNS_CLASS_IN"]
  have dec: "nfs_dns_name_decode q NFS_DNS_HEADER_SIZE NFS_DNS_MAX_NAME = Some (canon name, length ?w + 1)"
    by (simp add: q NFS_DNS_HEADER_SIZE_def)
  have fields: "get_header q = ?hdr" "get16 q (NFS_DNS_HEADER_SIZE + (length ?w + 1)) = qtype"
    "get16 q (NFS_DNS_HEADER_SIZE + (length ?w + 1) + 2) = NFS_DNS_CLASS_IN" "length q = 12 + length ?w + 5"
    by (simp_all add: q get_past NFS_DNS_HEADER_SIZE_def)
  have ms: "list_all (\<lambda>rr. writable (rr_name rr)) (zone_matches z n t)" for n t
    using names inv by (auto simp: zone_matches_def writable_def zone_inv_def list_all_iff)
  let ?ans = "zone_matches z (canon name) qtype" and ?auth = "zone_matches z (zn_origin z) NFS_DNS_TYPE_NS"
  let ?out = "put_header (response_header z (canon name) qtype qid) @ question_bytes (canon name, qtype, NFS_DNS_CLASS_IN)"
  have room': "length ?out + length (concat (map rr_bytes ?ans)) + length (concat (map rr_bytes ?auth)) \<le> out_sz"
    using room by (simp add: response_size_def NFS_DNS_HEADER_SIZE_def)
  have "write_rrs ?ans out_sz ?out = Some (?out @ concat (map rr_bytes ?ans))"
    using room' by (intro write_rrs_eq ms) simp
  moreover have "write_rrs ?auth out_sz (?out @ concat (map rr_bytes ?ans)) =
      Some ((?out @ concat (map rr_bytes ?ans)) @ concat (map rr_bytes ?auth))"
    using room' by (intro write_rrs_eq ms) simp
  moreover have "nfs_dns_name_encode (canon name) (out_sz - NFS_DNS_HEADER_SIZE) = Some (?w @ [0])"
    using ok room' by (simp add: name_encode_eq question_bytes_def NFS_DNS_HEADER_SIZE_def)
  moreover have "?ans = [] \<and> zone_matches z (canon name) 255 = [] \<longleftrightarrow> zone_matches z (canon name) 255 = []"
    by (auto simp: zone_matches_def filter_empty_conv)
  ultimately show ?thesis
    using dec fields room'
    by (simp add: nfs_dns_zone_build_response_def Let_def zone_lookup_eq [OF inv] response_header_def
        question_bytes_def NFS_DNS_HEADER_SIZE_def)
qed

lemma response_parse:
  assumes "writable name" and "list_all (\<lambda>rr. writable (rr_name rr) \<and> length (rr_rdata rr) \<le> 512) rrs"
    and "nfs_dns_is_response h" and "dh_qdcount h = 1" and "unat (dh_ancount h) \<le> length rrs"
  shows "nfs_dns_response_parse (put_header h @ question_bytes (name, qtype, qclass) @ concat (map rr_bytes rrs)) =
    Some \<lparr> rp_header = h, rp_qname = canon name, rp_qtype = qtype, rp_qclass = qclass,
      rp_answers = map (\<lambda>rr. rr\<lparr> rr_name := canon (rr_name rr) \<rparr>) (take (min resolver_max_rr (unat (dh_ancount h))) rrs) \<rparr>"
proof -
  let ?n = "min resolver_max_rr (unat (dh_ancount h))"
  let ?q = "question_bytes (name, qtype, qclass)"
  let ?msg = "put_header h @ ?q @ concat (map rr_bytes rrs)"
  have "read_at read_question 1 ?msg 12 = Some ([(canon name, qtype, qclass)], 12 + length ?q)"
    using question.read_at_concat [of "[(name, qtype, qclass)]" "put_header h" "concat (map rr_bytes rrs)"] assms(1) by simp
  moreover have "list_all (\<lambda>rr. writable (rr_name rr) \<and> length (rr_rdata rr) \<le> 512) (take ?n rrs)"
    using assms(2) by (auto simp: list_all_iff dest: in_set_takeD)
  from rr.read_at_concat [OF this, of "put_header h @ ?q" "concat (map rr_bytes (drop ?n rrs))"]
  have "read_at read_rr (length (take ?n rrs)) ?msg (12 + length ?q) =
      Some (map (\<lambda>rr. rr\<lparr> rr_name := canon (rr_name rr) \<rparr>) (take ?n rrs), 12 + length ?q + length (concat (map rr_bytes (take ?n rrs))))"
    by (simp only: append_assoc concat_append [symmetric] map_append [symmetric] append_take_drop_id length_append length_put_header)
  moreover have "length (take ?n rrs) = ?n" using assms(5) by simp
  moreover have "(if unat (dh_ancount h) > resolver_max_rr then resolver_max_rr else unat (dh_ancount h)) = ?n" by simp
  ultimately show ?thesis
    using assms(3,4) by (simp add: nfs_dns_response_parse_def NFS_DNS_HEADER_SIZE_def Let_def min_def split del: if_split)
qed

text \<open>
  C26. A resolver learns from an authoritative server what its zone holds, up to its own 32 records: for
  every zone built from an origin by adding records (refused ones included) whose names have
  labels of at most 63 bytes, and every query for a name of less than 255 bytes that could be built,
  the server has a response when its buffer has room for it, and the resolver parses from it the query's
  identifier, name and type, the first 32 records of that name (letters compared without case) and
  type in the zone's order, the number of all of them, and NXDOMAIN exactly when the zone has no
  record of that name.
\<close>
theorem dns_query_answered:
  assumes "nfs_dns_zone_init origin = Some z0" and "z = foldl zone_step z0 es"
    and "\<forall>rr \<in> set (zn_rrs z). list_all label_ok (dns_labels (rr_name rr))"
    and "nfs_dns_query_build name qtype qid m = Some q" and "length name < NFS_DNS_MAX_NAME"
    and "response_size z (canon name) qtype \<le> out_sz"
  shows "\<exists>r resp. nfs_dns_zone_build_response z q out_sz = Some r \<and>
    length r = response_size z (canon name) qtype \<and> nfs_dns_response_parse r = Some resp \<and>
    dh_id (rp_header resp) = qid \<and> rp_qname resp = canon name \<and> rp_qtype resp = qtype \<and>
    rp_answers resp =
      map (\<lambda>rr. rr\<lparr> rr_name := canon (rr_name rr) \<rparr>) (take 32 (zone_matches z (canon name) qtype)) \<and>
    unat (dh_ancount (rp_header resp)) = length (zone_matches z (canon name) qtype) \<and>
    nfs_dns_rcode (rp_header resp) = (if zone_matches z (canon name) 255 = [] then 3 else 0)"
proof -
  have inv: "zone_inv z" unfolding assms(2) by (rule zone.run_inv [OF zone_init_inv [OF assms(1)]]) simp
  let ?h = "response_header z (canon name) qtype qid"
  let ?ans = "zone_matches z (canon name) qtype" and ?auth = "zone_matches z (zn_origin z) NFS_DNS_TYPE_NS"
  have "list_all label_ok (dns_labels (canon name))" "length (canon name) < NFS_DNS_MAX_NAME"
    using query_build_eq [OF assms(4)] assms(5) length_canon [of name] by simp_all
  then have w: "writable (canon name)" unfolding writable_def ..
  have ms: "list_all (\<lambda>rr. writable (rr_name rr) \<and> length (rr_rdata rr) \<le> 512) (?ans @ ?auth)"
    using assms(3) inv by (auto simp: zone_matches_def writable_def zone_inv_def list_all_iff)
  have "length ?ans \<le> 128" using inv length_filter_le [of _ "zn_rrs z"] le_trans
    unfolding zone_inv_def zone_matches_def zone_max_rr_def by blast
  then have n: "unat (dh_ancount ?h) = length ?ans" by (simp add: response_header_def unat_of_nat_u16)
  have resp: "nfs_dns_is_response ?h" "nfs_dns_rcode ?h = (if zone_matches z (canon name) 255 = [] then 3 else 0)"
    by (simp_all add: response_header_def nfs_dns_is_response_def nfs_dns_rcode_def NFS_DNS_RCODE_NXDOMAIN_def NFS_DNS_RCODE_NOERROR_def)
  define r where "r = put_header ?h @ question_bytes (canon name, qtype, NFS_DNS_CLASS_IN) @ concat (map rr_bytes (?ans @ ?auth))"
  define resp where "resp = \<lparr> rp_header = ?h, rp_qname = canon name, rp_qtype = qtype, rp_qclass = NFS_DNS_CLASS_IN,
    rp_answers = map (\<lambda>rr. rr\<lparr> rr_name := canon (rr_name rr) \<rparr>) (take 32 ?ans) \<rparr>"
  have "nfs_dns_zone_build_response z q out_sz = Some r"
    unfolding r_def by (rule zone_response [OF inv assms(3-6)])
  moreover have "length r = response_size z (canon name) qtype"
    by (simp add: r_def response_size_def NFS_DNS_HEADER_SIZE_def)
  moreover have "take (min resolver_max_rr (unat (dh_ancount ?h))) (?ans @ ?auth) = take 32 ?ans"
    by (simp add: n resolver_max_rr_def min_def)
  then have "nfs_dns_response_parse r = Some resp"
    using response_parse [OF w ms resp(1), of qtype NFS_DNS_CLASS_IN] n
    unfolding r_def resp_def by (simp add: response_header_def)
  ultimately show ?thesis
    using resp(2) n by (intro exI [of _ r] exI [of _ resp]) (simp add: resp_def, simp add: response_header_def)
qed

text \<open>A zone with one address, asked for in capitals with a final dot.\<close>

definition sample_zone :: nfs_dns_zone where
  "sample_zone = zone_step \<lparr> zn_origin = [97], zn_rrs = [] \<rparr> (ZoneAddA [119, 46, 97] 60 10 0 0 1)"

lemma sample_zone_rrs: "sample_zone = \<lparr> zn_origin = [97], zn_rrs =
    [\<lparr> rr_name = [119, 46, 97], rr_type = 1, rr_rclass = 1, rr_ttl = 60, rr_rdata = [10, 0, 0, 1] \<rparr>] \<rparr>"
  by (simp add: sample_zone_def nfs_dns_zone_add_a_def nfs_dns_zone_add_rr_def zone_max_rr_def NFS_DNS_MAX_NAME_def
      NFS_DNS_TYPE_A_def NFS_DNS_CLASS_IN_def)

lemma dns_query_answered_witness:
  "\<exists>q r resp. nfs_dns_query_build [87, 46, 65, 46] 1 7 512 = Some q \<and> nfs_dns_zone_build_response sample_zone q 512 = Some r \<and>
     nfs_dns_response_parse r = Some resp \<and> map rr_rdata (rp_answers resp) = [[10, 0, 0, 1]] \<and> nfs_dns_rcode (rp_header resp) = 0"
proof -
  have l: "dns_labels [87, 46, 65, 46] = [[87], [65]]" "dns_labels [119, 46, 97] = [[119], [97]]"
    by (simp_all add: dns_labels_def)
  have m: "zone_matches sample_zone [87, 46, 65] t = (if t \<in> {1, 255} then zn_rrs sample_zone else [])"
      "zone_matches sample_zone [97] t = []" "zn_origin sample_zone = [97]" for t
    by (auto simp: zone_matches_def sample_zone_rrs name_eq_def to_lower_def)
  have c: "canon [87, 46, 65, 46] = [87, 46, 65]" by (simp add: l add_label_def)
  obtain q where q: "nfs_dns_query_build [87, 46, 65, 46] 1 7 512 = Some q"
    by (simp add: nfs_dns_query_build_def name_encode_eq l label_ok_def NFS_DNS_HEADER_SIZE_def)
  have "nfs_dns_zone_init [97] = Some \<lparr> zn_origin = [97], zn_rrs = [] \<rparr>"
    by (simp add: nfs_dns_zone_init_def NFS_DNS_MAX_NAME_def)
  moreover have "sample_zone = foldl zone_step \<lparr> zn_origin = [97], zn_rrs = [] \<rparr> [ZoneAddA [119, 46, 97] 60 10 0 0 1]"
    by (simp add: sample_zone_def)
  moreover have "\<forall>rr \<in> set (zn_rrs sample_zone). list_all label_ok (dns_labels (rr_name rr))"
    by (simp add: sample_zone_rrs l label_ok_def)
  moreover have "length [87 :: u8, 46, 65, 46] < NFS_DNS_MAX_NAME" by (simp add: NFS_DNS_MAX_NAME_def)
  moreover have "response_size sample_zone (canon [87, 46, 65, 46]) 1 \<le> 512"
    unfolding c by (simp add: response_size_def m) (simp add: sample_zone_rrs rr_bytes_def question_bytes_def l dns_labels_def NFS_DNS_HEADER_SIZE_def)
  ultimately obtain r resp where
    "nfs_dns_zone_build_response sample_zone q 512 = Some r" "nfs_dns_response_parse r = Some resp"
    "rp_answers resp = map (\<lambda>rr. rr\<lparr> rr_name := canon (rr_name rr) \<rparr>) (take 32 (zone_matches sample_zone [87, 46, 65] 1))"
    "nfs_dns_rcode (rp_header resp) = (if zone_matches sample_zone [87, 46, 65] 255 = [] then 3 else 0)"
    using dns_query_answered [of "[97]" _ sample_zone _ "[87, 46, 65, 46]" 1 7 512 q 512] q unfolding c by blast
  then show ?thesis using q arg_cong [OF sample_zone_rrs, of zn_rrs] by (simp add: m)
qed

end
