(* ===== verification/Hpack.thy ===== *)
theory Hpack
  imports Interfaces
begin

text \<open>
  HPACK header compression of
  \<^verbatim>\<open>phases/06-application-protocols/13-hpack-header-compression/hpack.c\<close>: integers with a prefix, the
  static table, and the dynamic table as a ring buffer with eviction. Strings are character
  lists and \<^verbatim>\<open>size_t\<close> is \<open>nat\<close>. The loop that evicts entries can run forever: it is a partial
  function, \<open>None\<close> meaning that it does not return.
\<close>

section \<open>Definitions\<close>

subsection \<open>Integers\<close>

text \<open>The 7-bit groups; \<open>out\<close> is what was written.\<close>

function encode_more :: "u64 \<Rightarrow> nat \<Rightarrow> u8 list \<Rightarrow> u8 list option" where
  "encode_more v out_sz out =
     (if v \<ge> 128 then
        (if length out \<ge> out_sz then None
         else encode_more (drop_bit 7 v) out_sz (out @ [ucast ((v AND 0x7F) OR 0x80)]))
      else if length out \<ge> out_sz then None
      else Some (out @ [ucast (v AND 0x7F)]))"
  by pat_completeness auto

lemma unat_drop_7: "unat (drop_bit 7 (v :: u64)) = unat v div 128"
  by (simp add: drop_bit_eq_div unat_div)

termination encode_more
  by (relation "measure (\<lambda>(v, out_sz, out). unat v)") (simp_all add: unat_drop_7 unat_div word_le_nat_alt)

declare encode_more.simps [simp del]

definition max_prefix :: "nat \<Rightarrow> u8" where
  "max_prefix prefix_bits = ucast (push_bit prefix_bits (1 :: u32) - 1)"

definition nfs_hpack_encode_int :: "u64 \<Rightarrow> nat \<Rightarrow> nat \<Rightarrow> u8 list option" where
  "nfs_hpack_encode_int v prefix_bits out_sz =
     (if prefix_bits < 1 \<or> prefix_bits > 8 \<or> out_sz = 0 then None
      else if v < ucast (max_prefix prefix_bits) then Some [ucast (v AND ucast (max_prefix prefix_bits))]
      else encode_more (v - ucast (max_prefix prefix_bits)) out_sz [max_prefix prefix_bits])"

function decode_more :: "u8 list \<Rightarrow> nat \<Rightarrow> nat \<Rightarrow> u64 \<Rightarrow> (u64 \<times> nat) option" where
  "decode_more data pos m v =
     (if pos \<ge> length data then None
      else
        let b = data ! pos; v' = v + push_bit m (ucast (b AND 0x7F)) in
        if b AND 0x80 = 0 then Some (v', pos + 1)
        else if m + 7 > 63 then None
        else decode_more data (pos + 1) (m + 7) v')"
  by pat_completeness auto
termination
  by (relation "measure (\<lambda>(data, pos, m, v). length data - pos)") auto

declare decode_more.simps [simp del]

definition nfs_hpack_decode_int :: "u8 list \<Rightarrow> nat \<Rightarrow> (u64 \<times> nat) option" where
  "nfs_hpack_decode_int data prefix_bits =
     (if length data = 0 \<or> prefix_bits < 1 \<or> prefix_bits > 8 then None
      else
        let v = ucast (data ! 0 AND max_prefix prefix_bits) in
        if v < ucast (max_prefix prefix_bits) then Some (v, 1)
        else decode_more data 1 0 v)"

subsection \<open>The static table\<close>

text \<open>Entries 1 to 61; the unused entry 0 is left out.\<close>

definition hpack_static_table :: "(string \<times> string) list" where
  "hpack_static_table =
    [('':authority'', ''''),
     ('':method'', ''GET''),
     ('':method'', ''POST''),
     ('':path'', ''/''),
     ('':path'', ''/index.html''),
     ('':scheme'', ''http''),
     ('':scheme'', ''https''),
     ('':status'', ''200''),
     ('':status'', ''204''),
     ('':status'', ''206''),
     ('':status'', ''304''),
     ('':status'', ''400''),
     ('':status'', ''404''),
     ('':status'', ''500''),
     (''accept-charset'', ''''),
     (''accept-encoding'', ''gzip, deflate''),
     (''accept-language'', ''''),
     (''accept-ranges'', ''''),
     (''accept'', ''''),
     (''access-control-allow-origin'', ''''),
     (''age'', ''''),
     (''allow'', ''''),
     (''authorization'', ''''),
     (''cache-control'', ''''),
     (''content-disposition'', ''''),
     (''content-encoding'', ''''),
     (''content-language'', ''''),
     (''content-length'', ''''),
     (''content-location'', ''''),
     (''content-range'', ''''),
     (''content-type'', ''''),
     (''cookie'', ''''),
     (''date'', ''''),
     (''etag'', ''''),
     (''expect'', ''''),
     (''expires'', ''''),
     (''from'', ''''),
     (''host'', ''''),
     (''if-match'', ''''),
     (''if-modified-since'', ''''),
     (''if-none-match'', ''''),
     (''if-range'', ''''),
     (''if-unmodified-since'', ''''),
     (''last-modified'', ''''),
     (''link'', ''''),
     (''location'', ''''),
     (''max-forwards'', ''''),
     (''proxy-authenticate'', ''''),
     (''proxy-authorization'', ''''),
     (''range'', ''''),
     (''referer'', ''''),
     (''refresh'', ''''),
     (''retry-after'', ''''),
     (''server'', ''''),
     (''set-cookie'', ''''),
     (''strict-transport-security'', ''''),
     (''transfer-encoding'', ''''),
     (''user-agent'', ''''),
     (''vary'', ''''),
     (''via'', ''''),
     (''www-authenticate'', '''')]"

definition STATIC_TABLE_SIZE :: nat where "STATIC_TABLE_SIZE = 61"

definition nfs_hpack_static_lookup :: "int \<Rightarrow> (string \<times> string) option" where
  "nfs_hpack_static_lookup index =
     (if index < 1 \<or> index > int STATIC_TABLE_SIZE then None else Some (hpack_static_table ! (nat index - 1)))"

text \<open>The loop over the table from index \<open>i\<close>, with the first match of the name so far.\<close>

fun static_find_run :: "string \<Rightarrow> string option \<Rightarrow> (string \<times> string) list \<Rightarrow> nat \<Rightarrow> nat \<Rightarrow> nat" where
  "static_find_run name val [] i name_match = name_match"
| "static_find_run name val ((n, v) # es) i name_match =
     (if n = name then
        if val = Some v then i
        else static_find_run name val es (i + 1) (if name_match = 0 then i else name_match)
      else static_find_run name val es (i + 1) name_match)"

definition nfs_hpack_static_find :: "string \<Rightarrow> string option \<Rightarrow> nat" where
  "nfs_hpack_static_find name val = static_find_run name val hpack_static_table 1 0"

subsection \<open>The dynamic table\<close>

definition NFS_HPACK_MAX_NAME :: nat where "NFS_HPACK_MAX_NAME = 128"
definition NFS_HPACK_MAX_VALUE :: nat where "NFS_HPACK_MAX_VALUE = 4096"
definition NFS_HPACK_DYN_MAX_ENTRIES :: nat where "NFS_HPACK_DYN_MAX_ENTRIES = 128"

record nfs_hpack_header =
  hh_name :: string
  hh_value :: string

record nfs_hpack_dynamic_table =
  ht_entries :: "nfs_hpack_header list"
  ht_count :: nat
  ht_head :: nat
  ht_current_size :: nat
  ht_max_size :: nat

definition entry_size :: "string \<Rightarrow> string \<Rightarrow> nat" where
  "entry_size name val = length name + length val + 32"

text \<open>The entries of a new table are whatever memory held; they are given.\<close>

definition nfs_hpack_dyn_init :: "nfs_hpack_header list \<Rightarrow> nat \<Rightarrow> nfs_hpack_dynamic_table" where
  "nfs_hpack_dyn_init entries max_size =
     \<lparr> ht_entries = entries, ht_count = 0, ht_head = 0, ht_current_size = 0, ht_max_size = max_size \<rparr>"

definition evict_oldest :: "nfs_hpack_dynamic_table \<Rightarrow> nfs_hpack_dynamic_table" where
  "evict_oldest dt =
     (if ht_count dt = 0 then dt
      else
        let tail = (ht_head dt + 1 + NFS_HPACK_DYN_MAX_ENTRIES - ht_count dt) mod NFS_HPACK_DYN_MAX_ENTRIES;
            e = ht_entries dt ! tail
        in dt\<lparr> ht_current_size := ht_current_size dt - entry_size (hh_name e) (hh_value e),
               ht_count := ht_count dt - 1 \<rparr>)"

text \<open>The eviction loop. With the table empty and no room it goes on without end.\<close>

partial_function (option) evict_until :: "nat \<Rightarrow> nfs_hpack_dynamic_table \<Rightarrow> nfs_hpack_dynamic_table option" where
  "evict_until sz dt =
     (if ht_current_size dt + sz > ht_max_size dt then evict_until sz (evict_oldest dt) else Some dt)"

definition nfs_hpack_dyn_add ::
  "nfs_hpack_dynamic_table \<Rightarrow> string \<Rightarrow> string \<Rightarrow> nfs_hpack_dynamic_table option" where
  "nfs_hpack_dyn_add dt name val =
     (let sz = entry_size name val in
      if sz > ht_max_size dt then Some (dt\<lparr> ht_count := 0, ht_current_size := 0 \<rparr>)
      else
        case evict_until sz dt of
          None \<Rightarrow> None
        | Some dt \<Rightarrow>
            let dt = (if ht_count dt \<ge> NFS_HPACK_DYN_MAX_ENTRIES then evict_oldest dt else dt);
                dt = (if ht_count dt > 0 then dt\<lparr> ht_head := (ht_head dt + 1) mod NFS_HPACK_DYN_MAX_ENTRIES \<rparr> else dt);
                e = \<lparr> hh_name = take (NFS_HPACK_MAX_NAME - 1) name, hh_value = take (NFS_HPACK_MAX_VALUE - 1) val \<rparr>
            in Some (dt\<lparr> ht_entries := (ht_entries dt)[ht_head dt := e],
                         ht_count := ht_count dt + 1, ht_current_size := ht_current_size dt + sz \<rparr>))"

definition nfs_hpack_dyn_lookup :: "nfs_hpack_dynamic_table \<Rightarrow> int \<Rightarrow> (string \<times> string) option" where
  "nfs_hpack_dyn_lookup dt index =
     (if index < 0 \<or> index \<ge> int (ht_count dt) then None
      else
        let slot = (ht_head dt + NFS_HPACK_DYN_MAX_ENTRIES - nat index) mod NFS_HPACK_DYN_MAX_ENTRIES
        in Some (hh_name (ht_entries dt ! slot), hh_value (ht_entries dt ! slot)))"

definition nfs_hpack_dyn_count :: "nfs_hpack_dynamic_table \<Rightarrow> nat" where
  "nfs_hpack_dyn_count dt = ht_count dt"

section \<open>Integers are read back\<close>


text \<open>The bytes of the encoder, without the buffer.\<close>

function groups :: "u64 \<Rightarrow> u8 list" where
  "groups v = (if v \<ge> 128 then ucast ((v AND 0x7F) OR 0x80) # groups (drop_bit 7 v) else [ucast (v AND 0x7F)])"
  by pat_completeness auto
termination groups
  by (relation "measure unat") (simp_all add: unat_drop_7 word_le_nat_alt)

declare groups.simps [simp del]

lemma encode_more_groups:
  "encode_more v n out = (if length out + length (groups v) \<le> n then Some (out @ groups v) else None)"
proof (induction v n out rule: encode_more.induct)
  case (1 v n out)
  have "0 < length (groups (drop_bit 7 v))" by (subst groups.simps) simp
  show ?case
  proof (cases "v \<ge> 128")
    case True
    then have "groups v = ucast ((v AND 0x7F) OR 0x80) # groups (drop_bit 7 v)" by (subst groups.simps) simp
    then show ?thesis
      using 1(1) [OF True] \<open>0 < length (groups (drop_bit 7 v))\<close> True by (subst encode_more.simps) (auto simp: not_le)
  next
    case False
    then have "groups v = [ucast (v AND 0x7F)]" by (subst groups.simps) simp
    then show ?thesis using False by (subst encode_more.simps) simp
  qed
qed

lemma low_group: "ucast (ucast (v AND 0x7F) AND 0x7F :: u8) = (take_bit 7 v :: u64)"
  "ucast (ucast ((v AND 0x7F) OR 0x80) AND 0x7F :: u8) = (take_bit 7 v :: u64)"
  "(ucast (v AND 0x7F) :: u8) AND 0x80 = 0" "(ucast ((v AND 0x7F) OR 0x80) :: u8) AND 0x80 \<noteq> 0"
proof -
  have m: "(0x7F :: u64) = mask 7" "(0x7F :: u8) = mask 7" by (simp_all add: mask_eq_exp_minus_1)
  have "(0x80 :: u64) = push_bit 7 1" "(0x80 :: u8) = push_bit 7 1" by simp_all
  then have b: "bit (0x80 :: u64) n \<longleftrightarrow> n = 7" "bit (0x80 :: u8) n \<longleftrightarrow> n = 7" for n
    by (simp_all only: bit_push_bit_iff bit_1_iff possible_bit_word) auto
  note bits = bit_or_iff bit_and_iff b bit_mask_iff bit_ucast_iff bit_take_bit_iff
  show "ucast (ucast (v AND 0x7F) AND 0x7F :: u8) = (take_bit 7 v :: u64)"
    "ucast (ucast ((v AND 0x7F) OR 0x80) AND 0x7F :: u8) = (take_bit 7 v :: u64)"
    "(ucast (v AND 0x7F) :: u8) AND 0x80 = 0"
    unfolding m by (rule bit_word_eqI, simp only: bits, auto)+
  have "bit ((ucast ((v AND 0x7F) OR 0x80) :: u8) AND 0x80) 7"
    unfolding m by (simp only: bits) simp
  then show "(ucast ((v AND 0x7F) OR 0x80) :: u8) AND 0x80 \<noteq> 0" by auto
qed

lemma decode_more_groups:
  "m \<le> 63 \<Longrightarrow> unat v < 2 ^ (64 - m) \<Longrightarrow>
     decode_more (pre @ groups v @ rest) (length pre) m acc = Some (acc + push_bit m v, length pre + length (groups v))"
proof (induction v arbitrary: pre m acc rule: groups.induct)
  case (1 v)
  show ?case
  proof (cases "v \<ge> 128")
    case True
    define b :: u8 where "b = ucast ((v AND 0x7F) OR 0x80)"
    have g: "groups v = b # groups (drop_bit 7 v)" using True by (subst groups.simps) (simp add: b_def)
    have "(2 :: nat) ^ 7 \<le> unat v" using True by (simp add: word_le_nat_alt)
    then have "(2 :: nat) ^ 7 < 2 ^ (64 - m)" using 1(3) by linarith
    then have "7 < 64 - m" by (rule power_less_imp_less_exp [rotated]) simp
    then have m: "m + 7 \<le> 63" by simp
    have split: "(2 :: nat) ^ (64 - m) = 2 ^ (64 - (m + 7)) * 128"
      using m by (simp add: power_add [symmetric, of "2 :: nat" _ 7, simplified])
    have "unat (drop_bit 7 v) < 2 ^ (64 - (m + 7))"
      using 1(3) unfolding unat_drop_7 split by (simp add: div_less_iff_less_mult)
    from 1(1) [OF True m this, of "pre @ [b]" "acc + push_bit m (take_bit 7 v)"]
    have "decode_more (pre @ b # groups (drop_bit 7 v) @ rest) (length pre + 1) (m + 7) (acc + push_bit m (take_bit 7 v)) =
        Some (acc + push_bit m (take_bit 7 v) + push_bit (m + 7) (drop_bit 7 v), length pre + 1 + length (groups (drop_bit 7 v)))"
      by simp
    moreover have "push_bit m (take_bit 7 v) + push_bit (m + 7) (drop_bit 7 v) = push_bit m v"
    proof -
      have "push_bit m (take_bit 7 v) + push_bit (m + 7) (drop_bit 7 v) =
          push_bit m (push_bit 7 (drop_bit 7 v) + take_bit 7 v)"
        by (simp only: push_bit_add push_bit_push_bit add.commute)
      then show ?thesis by (simp only: bits_ident)
    qed
    ultimately show ?thesis
      using m low_group(2,4) [of v, folded b_def]
      by (subst decode_more.simps) (simp add: g add.assoc nth_append)
  next
    case False
    define b :: u8 where "b = ucast (v AND 0x7F)"
    have g: "groups v = [b]" using False by (subst groups.simps) (simp add: b_def)
    have "unat v < 2 ^ 7" using False by (simp add: word_le_nat_alt not_le)
    then have "take_bit 7 v = v" by (simp add: word_unat_eq_iff unsigned_take_bit_eq take_bit_nat_eq_self_iff)
    then show ?thesis
      using low_group(1,3) [of v, folded b_def] by (subst decode_more.simps) (simp add: g nth_append)
  qed
qed

text \<open>The prefix.\<close>

lemma prefix_cases:
  assumes "1 \<le> p" and "p \<le> 8"
  shows "unat (max_prefix p) = 2 ^ p - 1" and "max_prefix p = mask p"
proof -
  have "p \<in> {1, 2, 3, 4, 5, 6, 7, 8}" using assms by auto
  then show "unat (max_prefix p) = 2 ^ p - 1" "max_prefix p = mask p"
    by (auto simp: max_prefix_def mask_eq_exp_minus_1)
qed

lemma decode_encoded_int:
  assumes "1 \<le> p" and "p \<le> 8" and "nfs_hpack_encode_int v p n = Some bs"
  shows "nfs_hpack_decode_int (bs @ rest) p = Some (v, length bs)"
proof (cases "v < ucast (max_prefix p)")
  case True
  let ?b = "ucast (v AND ucast (max_prefix p)) :: u8"
  have bs: "bs = [?b]" using assms True by (auto simp: nfs_hpack_encode_int_def split: if_splits)
  have "unat (ucast (max_prefix p) :: u64) = unat (max_prefix p)"
    using unat_u8_less [of "max_prefix p"] by (simp add: unsigned_ucast_eq take_bit_nat_eq_self_iff)
  then have "take_bit p v = v"
    using True prefix_cases [OF assms(1,2)] by (simp add: word_less_nat_alt word_unat_eq_iff unsigned_take_bit_eq take_bit_nat_eq_self_iff)
  then have t: "take_bit p v = v" .
  then have "bit v i \<Longrightarrow> i < p" for i by (metis bit_take_bit_iff)
  then have "bit v i \<Longrightarrow> i < p \<and> i < 8" for i using assms(2) by fastforce
  then have "(ucast (?b AND max_prefix p) :: u64) = v"
    unfolding prefix_cases(2) [OF assms(1,2)] using assms(2)
    by (intro bit_word_eqI) (auto simp: bit_and_iff bit_mask_iff bit_ucast_iff bit_take_bit_iff dest: bit_imp_le_length) 
  then show ?thesis using True assms(1,2) by (simp add: bs nfs_hpack_decode_int_def)
next
  case False
  let ?m = "ucast (max_prefix p) :: u64"
  have bs: "bs = max_prefix p # groups (v - ?m)"
    using assms False by (auto simp: nfs_hpack_encode_int_def encode_more_groups split: if_splits)
  have "decode_more ([max_prefix p] @ groups (v - ?m) @ rest) (length [max_prefix p]) 0 ?m =
      Some (?m + push_bit 0 (v - ?m), length [max_prefix p] + length (groups (v - ?m)))"
    using unsigned_less [of "v - ?m", where ?'a = nat] by (intro decode_more_groups) simp_all
  then show ?thesis using assms(1,2) by (simp add: bs nfs_hpack_decode_int_def)
qed

lemma encode_int_fits:
  assumes "1 \<le> p" and "p \<le> 8" and "11 \<le> n"
  shows "nfs_hpack_encode_int v p n \<noteq> None"
proof -
  have "length (groups v) \<le> 1 + k" if "unat v < 2 ^ (7 * (k + 1))" for v :: u64 and k
    using that
  proof (induction k arbitrary: v)
    case 0
    then have "\<not> v \<ge> 128" by (simp add: word_le_nat_alt)
    then show ?case by (subst groups.simps) simp
  next
    case (Suc k)
    have "unat (drop_bit 7 v) < 2 ^ (7 * (k + 1))"
      unfolding unat_drop_7 using Suc.prems by (simp add: div_less_iff_less_mult power_add)
    then show ?case using Suc.IH [of "drop_bit 7 v"] by (subst groups.simps) simp
  qed
  from this [of _ 9] have "length (groups w) \<le> 10" for w
    using unsigned_less [of w, where ?'a = nat] by simp
  from this [of "v - ucast (max_prefix p)"] show ?thesis
    using assms by (simp add: nfs_hpack_encode_int_def encode_more_groups)
qed

text \<open>Indexed header fields, the representation of one byte or more with a prefix of 7 bits.\<close>

interpretation hpack_int: self_delimiting "\<lambda>v. the (nfs_hpack_encode_int v 7 11)" "\<lambda>bs. nfs_hpack_decode_int bs 7" "\<lambda>v. True"
proof
  fix v :: u64 and rest
  obtain bs where "nfs_hpack_encode_int v 7 11 = Some bs" using encode_int_fits [of 7 11 v] by auto
  then show "nfs_hpack_decode_int (the (nfs_hpack_encode_int v 7 11) @ rest) 7 =
      Some (v, length (the (nfs_hpack_encode_int v 7 11)))"
    using decode_encoded_int [of 7 v 11 bs rest] by simp
qed

text \<open>
  Every 64-bit integer survives HPACK's encoding with every prefix: eleven bytes are always
  room enough, decoding gives the integer and its length back whatever follows, and an integer
  below the largest prefix takes a single byte.
\<close>
theorem hpack_int_roundtrip:
  assumes "1 \<le> p" and "p \<le> 8" and "11 \<le> n"
  shows "\<exists>bs. nfs_hpack_encode_int v p n = Some bs \<and> nfs_hpack_decode_int (bs @ rest) p = Some (v, length bs) \<and>
    length bs \<le> 11 \<and> (length bs = 1 \<longleftrightarrow> unat v < 2 ^ p - 1)"
proof -
  obtain bs where bs: "nfs_hpack_encode_int v p n = Some bs" using encode_int_fits [OF assms] by auto
  obtain cs where cs: "nfs_hpack_encode_int v p 11 = Some cs" using encode_int_fits [OF assms(1,2), of 11] by auto
  have e: "unat (ucast (max_prefix p) :: u64) = 2 ^ p - 1"
    using unat_u8_less [of "max_prefix p"] prefix_cases [OF assms(1,2)] by (simp add: unsigned_ucast_eq take_bit_nat_eq_self_iff)
  have "0 < length (groups w)" for w by (subst groups.simps) simp
  then have "bs = cs \<and> length cs \<le> 11 \<and> (length cs = 1 \<longleftrightarrow> unat v < 2 ^ p - 1)"
    using bs cs assms e
    by (auto simp: nfs_hpack_encode_int_def encode_more_groups word_less_nat_alt split: if_splits)
  then show ?thesis using bs decode_encoded_int [OF assms(1,2) bs] by blast
qed

lemma hpack_int_roundtrip_witness: "\<exists>bs. nfs_hpack_encode_int 1337 5 20 = Some bs \<and> nfs_hpack_decode_int (bs @ [7]) 5 = Some (1337, length bs)"
  using hpack_int_roundtrip [of 5 20 1337 "[7]"] by auto

section \<open>The static table\<close>

lemma static_table_names: "list_all (\<lambda>(n, v). n \<noteq> []) hpack_static_table" "length hpack_static_table = 61"
  by (simp_all add: hpack_static_table_def)

lemma static_find_run_eq:
  assumes "0 < i"
  shows "static_find_run name val es i nm =
    (case find_idx (\<lambda>e. fst e = name \<and> val = Some (snd e)) es of
       Some k \<Rightarrow> i + k
     | None \<Rightarrow> if nm \<noteq> 0 then nm else (case find_idx (\<lambda>e. fst e = name) es of Some k \<Rightarrow> i + k | None \<Rightarrow> 0))"
  using assms
proof (induction es arbitrary: i nm)
  case (Cons e es)
  obtain n v where e: "e = (n, v)" by (cases e)
  show ?case
    using Cons.IH [of "i + 1"] Cons.prems
    by (auto simp: e split: option.splits dest: find_idx_SomeD)
qed simp

section \<open>The dynamic table as a queue\<close>

text \<open>
  What the table stands for: the entries from the newest to the oldest, and what adding one
  means: the oldest go until the new one fits.
\<close>

abbreviation header_size :: "nfs_hpack_header \<Rightarrow> nat" where
  "header_size e \<equiv> entry_size (hh_name e) (hh_value e)"

fun fit :: "nat \<Rightarrow> nfs_hpack_header list \<Rightarrow> nfs_hpack_header list" where
  "fit n [] = []"
| "fit n (e # es) = (if header_size e \<le> n then e # fit (n - header_size e) es else [])"

definition fifo_add :: "nat \<Rightarrow> nfs_hpack_header list \<Rightarrow> nfs_hpack_header \<Rightarrow> nfs_hpack_header list" where
  "fifo_add max_size es e =
     (if header_size e > max_size then [] else e # take 127 (fit (max_size - header_size e) es))"

definition dyn_entries :: "nfs_hpack_dynamic_table \<Rightarrow> nfs_hpack_header list" where
  "dyn_entries dt = map (\<lambda>i. ht_entries dt ! ((ht_head dt + 128 - i) mod 128)) [0..<ht_count dt]"

definition sizes :: "nfs_hpack_header list \<Rightarrow> nat" where
  "sizes es = sum_list (map header_size es)"

definition dyn_inv :: "nat \<Rightarrow> nfs_hpack_dynamic_table \<Rightarrow> bool" where
  "dyn_inv max_size dt \<longleftrightarrow> length (ht_entries dt) = 128 \<and> ht_head dt < 128 \<and> ht_count dt \<le> 128 \<and>
     ht_max_size dt = max_size \<and> ht_current_size dt = sizes (dyn_entries dt) \<and> ht_current_size dt \<le> max_size"

definition short_header :: "nfs_hpack_header \<Rightarrow> bool" where
  "short_header e \<longleftrightarrow> length (hh_name e) < NFS_HPACK_MAX_NAME \<and> length (hh_value e) < NFS_HPACK_MAX_VALUE"

lemma length_dyn_entries [simp]: "length (dyn_entries dt) = ht_count dt"
  by (simp add: dyn_entries_def)

lemma evict_oldest:
  assumes "dyn_inv m dt" and "0 < ht_count dt"
  shows "dyn_inv m (evict_oldest dt)" and "dyn_entries (evict_oldest dt) = butlast (dyn_entries dt)"
    and "ht_current_size dt = ht_current_size (evict_oldest dt) + header_size (last (dyn_entries dt))"
proof -
  obtain k where k: "ht_count dt = Suc k" using assms(2) by (cases "ht_count dt") auto
  have snoc: "dyn_entries dt = dyn_entries (evict_oldest dt) @ [ht_entries dt ! ((ht_head dt + 128 - k) mod 128)]"
    using k by (simp add: dyn_entries_def evict_oldest_def Let_def)
  then show "dyn_entries (evict_oldest dt) = butlast (dyn_entries dt)" by simp
  have "ht_head dt + 1 + 128 - Suc k = ht_head dt + 128 - k" using assms(1) k by (simp add: dyn_inv_def)
  then have "ht_current_size (evict_oldest dt) = ht_current_size dt - header_size (last (dyn_entries dt))"
    unfolding snoc using k by (simp add: evict_oldest_def Let_def NFS_HPACK_DYN_MAX_ENTRIES_def)
  moreover have size: "ht_current_size dt = sizes (dyn_entries (evict_oldest dt)) + header_size (last (dyn_entries dt))"
    using assms(1) unfolding snoc by (simp add: dyn_inv_def sizes_def snoc)
  ultimately show "ht_current_size dt = ht_current_size (evict_oldest dt) + header_size (last (dyn_entries dt))"
    by simp
  with size have "ht_current_size (evict_oldest dt) = sizes (dyn_entries (evict_oldest dt))"
    and "ht_current_size (evict_oldest dt) \<le> ht_current_size dt" by linarith+
  moreover have "ht_entries (evict_oldest dt) = ht_entries dt" "ht_head (evict_oldest dt) = ht_head dt"
    "ht_count (evict_oldest dt) \<le> ht_count dt" "ht_max_size (evict_oldest dt) = ht_max_size dt"
    by (simp_all add: evict_oldest_def Let_def)
  ultimately show "dyn_inv m (evict_oldest dt)"
    using assms(1) unfolding dyn_inv_def by (metis le_trans)
qed

lemma fit_all: "sizes es \<le> n \<Longrightarrow> fit n es = es"
  by (induction es arbitrary: n) (auto simp: sizes_def)

lemma fit_butlast: "n < sizes es \<Longrightarrow> fit n es = fit n (butlast es)"
proof (induction es arbitrary: n)
  case (Cons e es)
  show ?case
  proof (cases "es = []")
    case True
    then show ?thesis using Cons.prems by (simp add: sizes_def)
  next
    case False
    then show ?thesis using Cons by (auto simp: sizes_def less_diff_conv2)
  qed
qed (simp add: sizes_def)

text \<open>With short headers the sizes add up, and the eviction loop ends with what fits.\<close>

lemma evict_until_fits:
  "dyn_inv m dt \<Longrightarrow> sz \<le> m \<Longrightarrow> \<exists>dt'. evict_until sz dt = Some dt' \<and> dyn_inv m dt' \<and>
     dyn_entries dt' = fit (m - sz) (dyn_entries dt) \<and> ht_current_size dt' + sz \<le> m"
proof (induction "ht_count dt" arbitrary: dt)
  case (0 dt)
  then have "ht_current_size dt = 0" "dyn_entries dt = []" by (simp_all add: dyn_inv_def dyn_entries_def sizes_def)
  then show ?case using 0 by (subst evict_until.simps) (simp add: dyn_inv_def)
next
  case (Suc k dt)
  have m: "ht_max_size dt = m" "ht_current_size dt = sizes (dyn_entries dt)" using Suc.prems(1) by (simp_all add: dyn_inv_def)
  show ?case
  proof (cases "ht_current_size dt + sz > m")
    case False
    then show ?thesis
      using Suc.prems m fit_all [of "dyn_entries dt" "m - sz"] by (subst evict_until.simps) simp
  next
    case True
    have pos: "0 < ht_count dt" using Suc.hyps(2) by simp
    have "k = ht_count (evict_oldest dt)" using Suc.hyps(2) by (simp add: evict_oldest_def Let_def)
    from Suc.hyps(1) [OF this evict_oldest(1) [OF Suc.prems(1) pos] Suc.prems(2)]
    have "\<exists>dt'. evict_until sz (evict_oldest dt) = Some dt' \<and> dyn_inv m dt' \<and>
        dyn_entries dt' = fit (m - sz) (butlast (dyn_entries dt)) \<and> ht_current_size dt' + sz \<le> m"
      unfolding evict_oldest(2) [OF Suc.prems(1) pos] .
    moreover have "fit (m - sz) (butlast (dyn_entries dt)) = fit (m - sz) (dyn_entries dt)"
      using True m Suc.prems(2) by (intro fit_butlast [symmetric]) linarith
    ultimately show ?thesis using True m by (subst evict_until.simps) simp
  qed
qed

lemma slot_other:
  assumes "h < 128" and "i < c" and "c < (128 :: nat)"
  shows "(h + 1) mod 128 \<noteq> (h + 128 - i) mod 128"
    and "((h + 1) mod 128 + 128 - Suc i) mod 128 = (h + 128 - i) mod 128"
proof -
  show "(h + 1) mod 128 \<noteq> (h + 128 - i) mod 128"
  proof (cases "i \<le> h")
    case True
    then have "h + 128 - i = (h - i) + 128" by simp
    then have "(h + 128 - i) mod 128 = h - i" using assms(1) by (simp only: mod_add_self2) simp
    then show ?thesis using assms True by (cases "h = 127") auto
  next
    case False
    then have "(h + 128 - i) mod 128 = h + 128 - i" by simp
    then show ?thesis using assms False by (cases "h = 127") auto
  qed
  show "((h + 1) mod 128 + 128 - Suc i) mod 128 = (h + 128 - i) mod 128"
    using assms by (cases "h = 127") (auto simp: mod_if)
qed

definition store_newest :: "nfs_hpack_dynamic_table \<Rightarrow> nfs_hpack_header \<Rightarrow> nfs_hpack_dynamic_table" where
  "store_newest dt e =
     (let dt' = (if ht_count dt > 0 then dt\<lparr> ht_head := (ht_head dt + 1) mod 128 \<rparr> else dt) in
      dt'\<lparr> ht_entries := (ht_entries dt')[ht_head dt' := e], ht_count := ht_count dt' + 1,
           ht_current_size := ht_current_size dt' + header_size e \<rparr>)"

lemma dyn_store:
  assumes "dyn_inv m dt" and "ht_count dt < 128" and "ht_current_size dt + header_size e \<le> m"
  shows "dyn_inv m (store_newest dt e)" and "dyn_entries (store_newest dt e) = e # dyn_entries dt"
proof -
  define dt' where "dt' = (if ht_count dt > 0 then dt\<lparr> ht_head := (ht_head dt + 1) mod 128 \<rparr> else dt)"
  define dt'' where dt'': "dt'' = store_newest dt e"
  have dt''_def: "dt'' = dt'\<lparr> ht_entries := (ht_entries dt')[ht_head dt' := e], ht_count := ht_count dt' + 1,
    ht_current_size := ht_current_size dt' + header_size e \<rparr>"
    by (simp add: dt'' store_newest_def dt'_def Let_def)
  have h: "ht_head dt < 128" "length (ht_entries dt) = 128" using assms(1) by (simp_all add: dyn_inv_def)
  have h': "ht_head dt' < 128" "length (ht_entries dt') = 128" using h by (simp_all add: dt'_def)
  have "ht_entries dt'' ! ((ht_head dt'' + 128 - 0) mod 128) = e"
    using h' by (simp add: dt''_def)
  moreover have "ht_entries dt'' ! ((ht_head dt'' + 128 - Suc i) mod 128) = ht_entries dt ! ((ht_head dt + 128 - i) mod 128)"
    if "i < ht_count dt" for i
    using slot_other [OF h(1) that assms(2)] that by (simp add: dt''_def dt'_def)
  moreover have "ht_count dt'' = Suc (ht_count dt)" by (simp add: dt''_def dt'_def)
  ultimately have es: "dyn_entries dt'' = e # dyn_entries dt"
    by (simp add: dyn_entries_def map_upt_Suc del: upt_Suc)
  then show "dyn_entries (store_newest dt e) = e # dyn_entries dt" by (simp add: dt'')
  have "ht_current_size dt'' = ht_current_size dt + header_size e" "ht_max_size dt'' = ht_max_size dt"
    "ht_count dt'' = ht_count dt + 1" "ht_head dt'' = ht_head dt'" "length (ht_entries dt'') = 128"
    using h' by (simp_all add: dt''_def dt'_def)
  then show "dyn_inv m (store_newest dt e)"
    unfolding dt'' [symmetric] using assms(1-3) h' es by (simp add: dyn_inv_def sizes_def)
qed

lemma dyn_add_refines:
  assumes "dyn_inv m dt" and "short_header e"
  shows "\<exists>dt'. nfs_hpack_dyn_add dt (hh_name e) (hh_value e) = Some dt' \<and> dyn_inv m dt' \<and>
    dyn_entries dt' = fifo_add m (dyn_entries dt) e"
proof (cases "header_size e > m")
  case True
  then show ?thesis
    using assms(1) by (auto simp: nfs_hpack_dyn_add_def fifo_add_def dyn_inv_def dyn_entries_def sizes_def)
next
  case False
  then obtain dt1 where dt1: "evict_until (header_size e) dt = Some dt1" "dyn_inv m dt1"
    "dyn_entries dt1 = fit (m - header_size e) (dyn_entries dt)" "ht_current_size dt1 + header_size e \<le> m"
    using evict_until_fits [OF assms(1), of "header_size e"] by auto
  define dt2 where "dt2 = (if ht_count dt1 \<ge> 128 then evict_oldest dt1 else dt1)"
  have c1: "ht_count dt1 \<le> 128" using dt1(2) by (simp add: dyn_inv_def)
  have dt2: "dyn_inv m dt2 \<and> ht_count dt2 < 128 \<and> ht_current_size dt2 \<le> ht_current_size dt1 \<and>
      dyn_entries dt2 = take 127 (dyn_entries dt1)"
  proof (cases "ht_count dt1 \<ge> 128")
    case True
    then have c: "ht_count dt1 = 128" and pos: "0 < ht_count dt1" using c1 by simp_all
    note ev = evict_oldest [OF dt1(2) pos]
    have "ht_count (evict_oldest dt1) = 127" using c by (simp add: evict_oldest_def Let_def)
    moreover have "butlast (dyn_entries dt1) = take 127 (dyn_entries dt1)" using c by (simp add: butlast_conv_take)
    ultimately show ?thesis using ev True by (simp add: dt2_def)
  next
    case False
    then have "take 127 (dyn_entries dt1) = dyn_entries dt1" by simp
    then show ?thesis using dt1(2) False by (simp add: dt2_def)
  qed
  have e: "\<lparr> hh_name = take 127 (hh_name e), hh_value = take 4095 (hh_value e) \<rparr> = e"
    using assms(2) by (simp add: short_header_def NFS_HPACK_MAX_NAME_def NFS_HPACK_MAX_VALUE_def)
  have room: "ht_current_size dt2 + header_size e \<le> m" using dt2 dt1(4) by linarith
  note st = dyn_store [OF conjunct1 [OF dt2] conjunct1 [OF conjunct2 [OF dt2]] room]
  have "ht_max_size dt = m" using assms(1) by (simp add: dyn_inv_def)
  then have "nfs_hpack_dyn_add dt (hh_name e) (hh_value e) = Some (store_newest dt2 e)"
    using False dt1(1) e
    by (simp add: nfs_hpack_dyn_add_def store_newest_def NFS_HPACK_DYN_MAX_ENTRIES_def NFS_HPACK_MAX_NAME_def
        NFS_HPACK_MAX_VALUE_def dt2_def [symmetric] Let_def)
  then show ?thesis using False st dt1 dt2 by (simp add: fifo_add_def)
qed

abbreviation dyn_step :: "nfs_hpack_dynamic_table \<Rightarrow> nfs_hpack_header \<Rightarrow> nfs_hpack_dynamic_table" where
  "dyn_step dt e \<equiv> the (nfs_hpack_dyn_add dt (hh_name e) (hh_value e))"

interpretation dyn: simulation dyn_step "\<lambda>dt e. short_header e" "dyn_inv m" dyn_entries "fifo_add m"
proof
  fix dt e
  assume "dyn_inv m dt" "short_header e"
  then show "dyn_inv m (dyn_step dt e)" "dyn_entries (dyn_step dt e) = fifo_add m (dyn_entries dt) e"
    using dyn_add_refines [of m dt e] by auto
qed

text \<open>The whole run, \<open>None\<close> as soon as one addition does not return.\<close>

fun dyn_run :: "nfs_hpack_dynamic_table \<Rightarrow> nfs_hpack_header list \<Rightarrow> nfs_hpack_dynamic_table option" where
  "dyn_run dt [] = Some dt"
| "dyn_run dt (e # es) =
     (case nfs_hpack_dyn_add dt (hh_name e) (hh_value e) of None \<Rightarrow> None | Some dt' \<Rightarrow> dyn_run dt' es)"

lemma dyn_run_steps:
  assumes "dyn_inv m dt" and "list_all short_header es"
  shows "dyn_run dt es = Some (foldl dyn_step dt es) \<and> guarded dyn_step (\<lambda>dt e. short_header e) dt es"
  using assms
proof (induction es arbitrary: dt)
  case (Cons e es)
  then obtain dt' where "nfs_hpack_dyn_add dt (hh_name e) (hh_value e) = Some dt'" "dyn_inv m dt'"
    using dyn_add_refines [of m dt e] by auto
  then show ?case using Cons by simp
qed simp

text \<open>
  C36. The ring buffer is the dynamic table of RFC 7541: over every run of additions of headers that
  fit its slots, every addition returns, and afterwards indices 0 to the count give the entries
  from the newest to the oldest, where each addition evicts the oldest until the new one fits the
  size (or everything, for one that never fits) and at most 128 are kept; an index beyond is
  refused, and the size never exceeds the maximum.
\<close>
theorem hpack_table_refines_queue:
  assumes "list_all short_header es" and "length entries = 128"
  shows "\<exists>dt. dyn_run (nfs_hpack_dyn_init entries m) es = Some dt \<and>
    (let q = foldl (fifo_add m) [] es in
     nfs_hpack_dyn_count dt = length q \<and> sizes q \<le> m \<and>
     nfs_hpack_dyn_lookup dt i =
       (if 0 \<le> i \<and> i < int (length q) then Some (hh_name (q ! nat i), hh_value (q ! nat i)) else None))"
proof -
  let ?dt = "nfs_hpack_dyn_init entries m"
  have inv: "dyn_inv m ?dt" and emp: "dyn_entries ?dt = []"
    using assms(2) by (simp_all add: dyn_inv_def nfs_hpack_dyn_init_def dyn_entries_def sizes_def)
  note run = dyn_run_steps [OF inv assms(1)]
  define dt where "dt = foldl dyn_step ?dt es"
  have inv': "dyn_inv m dt" and q: "dyn_entries dt = foldl (fifo_add m) [] es"
    using dyn.run_inv [OF inv] dyn.run_abs [OF inv] run emp by (simp_all add: dt_def)
  have "nfs_hpack_dyn_lookup dt i =
      (if 0 \<le> i \<and> i < int (length (dyn_entries dt))
       then Some (hh_name (dyn_entries dt ! nat i), hh_value (dyn_entries dt ! nat i)) else None)"
    by (simp add: nfs_hpack_dyn_lookup_def dyn_entries_def NFS_HPACK_DYN_MAX_ENTRIES_def Let_def nat_less_iff)
  moreover have "sizes (dyn_entries dt) \<le> m" using inv' by (simp add: dyn_inv_def)
  ultimately show ?thesis
    using run unfolding q [symmetric] Let_def by (simp add: dt_def nfs_hpack_dyn_count_def)
qed

lemma hpack_table_refines_queue_witness:
  "\<exists>dt. dyn_run (nfs_hpack_dyn_init (replicate 128 \<lparr> hh_name = [], hh_value = [] \<rparr>) 70)
      [\<lparr> hh_name = ''a'', hh_value = ''1'' \<rparr>, \<lparr> hh_name = ''b'', hh_value = ''2'' \<rparr>, \<lparr> hh_name = ''c'', hh_value = ''3'' \<rparr>] = Some dt \<and>
    nfs_hpack_dyn_lookup dt 1 = Some (''b'', ''2'')"
proof -
  let ?es = "[\<lparr> hh_name = ''a'', hh_value = ''1'' \<rparr>, \<lparr> hh_name = ''b'', hh_value = ''2'' \<rparr>, \<lparr> hh_name = ''c'', hh_value = ''3'' \<rparr>]"
  have "list_all short_header ?es" by (simp add: short_header_def NFS_HPACK_MAX_NAME_def NFS_HPACK_MAX_VALUE_def)
  from hpack_table_refines_queue [OF this, of "replicate 128 \<lparr> hh_name = [], hh_value = [] \<rparr>" 70 1]
  show ?thesis by (auto simp: Let_def fifo_add_def entry_size_def)
qed

text \<open>
  Names are cut to 127 characters when they are stored, but the size counts all of them: evicting
  such an entry leaves a remainder behind, and when nothing is left to evict the loop does not end.
\<close>

lemma evict_until_empty:
  assumes "ht_count dt = 0" and "ht_current_size dt + sz > ht_max_size dt"
  shows "evict_until sz dt = None"
proof -
  have "ht_count dt = 0 \<longrightarrow> \<not> ht_current_size dt + sz > ht_max_size dt" if "evict_until sz dt = Some r" for r
    by (rule evict_until.raw_induct [OF _ that]) (auto simp: evict_oldest_def split: if_splits)
  then show ?thesis using assms by (cases "evict_until sz dt") auto
qed

lemma long_names_hang:
  assumes "length entries = 128"
  shows "dyn_run (nfs_hpack_dyn_init entries 300)
    [\<lparr> hh_name = replicate 200 CHR ''n'', hh_value = [] \<rparr>, \<lparr> hh_name = replicate 200 CHR ''n'', hh_value = [] \<rparr>] = None"
proof -
  let ?n = "replicate 200 CHR ''n''"
  let ?e = "\<lparr> hh_name = replicate 127 CHR ''n'', hh_value = [] \<rparr>"
  define dt where "dt = \<lparr> ht_entries = entries[0 := ?e], ht_count = 1, ht_head = 0, ht_current_size = 232, ht_max_size = 300 \<rparr>"
  have "evict_until 232 (nfs_hpack_dyn_init entries 300) = Some (nfs_hpack_dyn_init entries 300)"
    by (subst evict_until.simps) (simp add: nfs_hpack_dyn_init_def)
  then have one: "nfs_hpack_dyn_add (nfs_hpack_dyn_init entries 300) ?n [] = Some dt"
    by (simp add: nfs_hpack_dyn_add_def entry_size_def NFS_HPACK_DYN_MAX_ENTRIES_def NFS_HPACK_MAX_NAME_def
        NFS_HPACK_MAX_VALUE_def Let_def) (simp add: nfs_hpack_dyn_init_def dt_def)
  have "evict_until 232 (evict_oldest dt) = None"
    using assms by (intro evict_until_empty)
      (simp_all add: evict_oldest_def dt_def entry_size_def Let_def NFS_HPACK_DYN_MAX_ENTRIES_def)
  then have "evict_until 232 dt = None" by (subst evict_until.simps) (simp add: dt_def)
  then have "nfs_hpack_dyn_add dt ?n [] = None"
    by (simp add: nfs_hpack_dyn_add_def entry_size_def dt_def Let_def)
  with one show ?thesis by simp
qed

text \<open>
  The static table is searched as the standard asks: the index found is that of the first entry
  with the name and the value if there is one, else of the first entry with the name, else 0;
  and looking an index up gives exactly the entries 1 to 61.
\<close>
theorem hpack_static_find_correct:
  "(case find_idx (\<lambda>e. e = (name, val)) hpack_static_table of
      Some k \<Rightarrow> nfs_hpack_static_find name (Some val) = k + 1 \<and> nfs_hpack_static_lookup (int k + 1) = Some (name, val)
    | None \<Rightarrow> nfs_hpack_static_find name (Some val) = nfs_hpack_static_find name None) \<and>
   nfs_hpack_static_find name None =
     (case find_idx (\<lambda>e. fst e = name) hpack_static_table of Some k \<Rightarrow> k + 1 | None \<Rightarrow> 0) \<and>
   (nfs_hpack_static_lookup i = None \<longleftrightarrow> i < 1 \<or> 61 < i)"
proof -
  have none: "find_idx (\<lambda>e. False) es = None" for es :: "(string \<times> string) list"
    by (simp add: find_idx_None_iff)
  have "(\<lambda>e. fst e = name \<and> val = snd e) = (\<lambda>e. e = (name, val))" by auto
  then show ?thesis
    using static_table_names(2)
    by (auto simp: nfs_hpack_static_find_def static_find_run_eq none nfs_hpack_static_lookup_def STATIC_TABLE_SIZE_def nat_add_distrib
        split: option.split dest!: find_idx_SomeD)
qed

end
