(* ===== verification/Chunked.thy ===== *)
theory Chunked
  imports Interfaces
begin

text \<open>
  Chunked transfer encoding of
  \<^verbatim>\<open>phases/06-application-protocols/11-chunked-transfer-encoding/chunked.c\<close>: hexadecimal sizes, the
  encoder, the parser of one chunk and the decoder with trailers. \<^verbatim>\<open>size_t\<close> is \<open>nat\<close> with the
  wrap-around at \<open>2 ^ 64\<close> written out where a sum can reach it; the parser and the decoder return the
  bytes consumed as an \<^verbatim>\<open>int\<close>, which \<open>to_int\<close> truncates as the cast does. The decoder's main loop is
  a partial function, and reading past the input is an outcome of its own, \<open>CHUNK_OVERREAD\<close>. The
  encoder's lengths are also returned as \<^verbatim>\<open>int\<close>: it is modelled for buffers below \<open>2 ^ 31\<close> bytes, where
  that cast changes nothing.
\<close>

section \<open>Definitions\<close>

abbreviation CR :: u8 where "CR \<equiv> 13"
abbreviation LF :: u8 where "LF \<equiv> 10"

definition NFS_CHUNKED_MAX_TRAILERS :: nat where "NFS_CHUNKED_MAX_TRAILERS = 16"
definition NFS_CHUNKED_MAX_HDR_NAME :: nat where "NFS_CHUNKED_MAX_HDR_NAME = 128"
definition NFS_CHUNKED_MAX_HDR_VALUE :: nat where "NFS_CHUNKED_MAX_HDR_VALUE = 4096"

definition hex_value :: "u8 \<Rightarrow> nat option" where
  "hex_value c =
     (if 48 \<le> c \<and> c \<le> 57 then Some (unat c - 48)
      else if 97 \<le> c \<and> c \<le> 102 then Some (unat c - 97 + 10)
      else if 65 \<le> c \<and> c \<le> 70 then Some (unat c - 65 + 10)
      else None)"

fun hex_run :: "u8 list \<Rightarrow> nat \<Rightarrow> nat option" where
  "hex_run [] val = Some val"
| "hex_run (c # cs) val =
     (case hex_value c of
        None \<Rightarrow> None
      | Some digit \<Rightarrow> if val > (2 ^ 64 - 1) div 16 then None else hex_run cs (val * 16 + digit))"

text \<open>\<open>None\<close> is the value \<^verbatim>\<open>(size_t)-1\<close>, which the largest size cannot be told from.\<close>

definition nfs_chunked_parse_hex :: "u8 list \<Rightarrow> nat option" where
  "nfs_chunked_parse_hex hex =
     (if hex = [] then None
      else case hex_run hex 0 of None \<Rightarrow> None | Some v \<Rightarrow> if v = 2 ^ 64 - 1 then None else Some v)"

fun find_crlf :: "u8 list \<Rightarrow> nat option" where
  "find_crlf (x # y # r) = (if x = CR \<and> y = LF then Some 0 else map_option Suc (find_crlf (y # r)))"
| "find_crlf _ = None"

text \<open>The digits that \<^verbatim>\<open>%zx\<close> prints.\<close>

definition hex_digit :: "nat \<Rightarrow> u8" where
  "hex_digit d = (if d < 10 then of_nat (48 + d) else of_nat (97 + d - 10))"

fun hex_digits :: "nat \<Rightarrow> u8 list" where
  "hex_digits n = (if n < 16 then [hex_digit n] else hex_digits (n div 16) @ [hex_digit (n mod 16)])"

declare hex_digits.simps [simp del]

definition nfs_chunked_encode_chunk :: "u8 list \<Rightarrow> nat \<Rightarrow> u8 list option" where
  "nfs_chunked_encode_chunk data out_sz =
     (let size_line = hex_digits (length data) @ [CR, LF];
          total = length size_line + length data + 2
      in if total > out_sz then None else Some (size_line @ data @ [CR, LF]))"

definition nfs_chunked_encode_last :: "nat \<Rightarrow> u8 list option" where
  "nfs_chunked_encode_last out_sz = (if out_sz < 5 then None else Some [48, CR, LF, CR, LF])"

text \<open>The loop, with what is left of the data and what was written; the chunk size is \<open>k + 1\<close>.\<close>

function encode_chunks :: "nat \<Rightarrow> nat \<Rightarrow> u8 list \<Rightarrow> u8 list \<Rightarrow> u8 list option" where
  "encode_chunks k out_sz data out =
     (if data \<noteq> [] then
        (case nfs_chunked_encode_chunk (take (k + 1) data) (out_sz - length out) of
           None \<Rightarrow> None
         | Some w \<Rightarrow> encode_chunks k out_sz (drop (k + 1) data) (out @ w))
      else map_option (\<lambda>w. out @ w) (nfs_chunked_encode_last (out_sz - length out)))"
  by pat_completeness auto
termination
  by (relation "measure (\<lambda>(k, n, data, out). length data)") (auto simp: diff_less)

declare encode_chunks.simps [simp del]

definition nfs_chunked_encode :: "u8 list \<Rightarrow> nat \<Rightarrow> nat \<Rightarrow> u8 list option" where
  "nfs_chunked_encode data chunk_size out_sz =
     (if chunk_size = 0 then None else encode_chunks (chunk_size - 1) out_sz data [])"

datatype chunk_error = CHUNK_BAD | CHUNK_OVERREAD

text \<open>The cast \<^verbatim>\<open>(int)\<close> of a \<^verbatim>\<open>size_t\<close>.\<close>

definition to_int :: "nat \<Rightarrow> int" where
  "to_int n = sint (word_of_nat n :: 32 word)"

text \<open>The size of the chunk, the position of its data, and the bytes consumed as they are returned.\<close>

definition nfs_chunk_parse_next :: "u8 list \<Rightarrow> chunk_error + nat \<times> nat \<times> int" where
  "nfs_chunk_parse_next data =
     (if data = [] then Inl CHUNK_BAD
      else
        case find_crlf data of None \<Rightarrow> Inl CHUNK_BAD
        | Some size_line_len \<Rightarrow>
          if size_line_len = 0 then Inl CHUNK_BAD
          else
            let hex = takeWhile (\<lambda>c. c \<noteq> 59) (take size_line_len data) in
            case nfs_chunked_parse_hex hex of None \<Rightarrow> Inl CHUNK_BAD
            | Some chunk_size \<Rightarrow>
              let consumed = size_line_len + 2 in
              if chunk_size = 0 then Inr (0, 0, to_int consumed)
              else if (consumed + chunk_size + 2) mod 2 ^ 64 > length data then Inl CHUNK_BAD
              else
                let i = (consumed + chunk_size) mod 2 ^ 64; j = (consumed + chunk_size + 1) mod 2 ^ 64 in
                if i \<ge> length data then Inl CHUNK_OVERREAD
                else if data ! i \<noteq> CR then Inl CHUNK_BAD
                else if j \<ge> length data then Inl CHUNK_OVERREAD
                else if data ! j \<noteq> LF then Inl CHUNK_BAD
                else Inr (chunk_size, consumed, to_int (consumed + chunk_size + 2)))"

text \<open>A line of the trailer: name, colon, spaces, value. Lines that do not fit are skipped.\<close>

definition add_trailer :: "u8 list \<Rightarrow> (u8 list \<times> u8 list) list \<Rightarrow> (u8 list \<times> u8 list) list" where
  "add_trailer line ts =
     (if length ts < NFS_CHUNKED_MAX_TRAILERS \<and> 58 \<in> set line then
        let name = takeWhile (\<lambda>c. c \<noteq> 58) line; val = dropWhile (\<lambda>c. c = 32) (drop (length name + 1) line) in
        if length name < NFS_CHUNKED_MAX_HDR_NAME \<and> length val < NFS_CHUNKED_MAX_HDR_VALUE then ts @ [(name, val)] else ts
      else ts)"

text \<open>The trailer loop: the trailers and the position after them.\<close>

function trailer_run :: "u8 list \<Rightarrow> nat \<Rightarrow> (u8 list \<times> u8 list) list \<Rightarrow> (u8 list \<times> u8 list) list \<times> nat" where
  "trailer_run data pos ts =
     (if pos < length data then
        if pos + 1 < length data \<and> data ! pos = CR \<and> data ! (pos + 1) = LF then (ts, pos + 2)
        else
          case find_crlf (drop pos data) of None \<Rightarrow> (ts, pos)
          | Some line_len \<Rightarrow>
            if line_len = 0 then (ts, pos + 2)
            else trailer_run data (pos + line_len + 2) (add_trailer (take line_len (drop pos data)) ts)
      else (ts, pos))"
  by pat_completeness auto
termination
  by (relation "measure (\<lambda>(data, pos, ts). length data - pos)") auto

declare trailer_run.simps [simp del]

type_synonym nfs_chunked_decoded = "u8 list \<times> (u8 list \<times> u8 list) list \<times> int"

partial_function (option) decode_chunks :: "u8 list \<Rightarrow> nat \<Rightarrow> u8 list \<Rightarrow> (chunk_error + nfs_chunked_decoded) option" where
  "decode_chunks data pos out =
     (if pos < length data then
        (case nfs_chunk_parse_next (drop pos data) of
           Inl e \<Rightarrow> Some (Inl e)
         | Inr (chunk_size, off, consumed) \<Rightarrow>
             if consumed < 0 then Some (Inl CHUNK_BAD)
             else if chunk_size = 0 then
               (let (ts, p) = trailer_run data (pos + nat consumed) [] in Some (Inr (out, ts, to_int p)))
             else if pos + off + chunk_size > length data then Some (Inl CHUNK_OVERREAD)
             else decode_chunks data (pos + nat consumed) (out @ take chunk_size (drop (pos + off) data)))
      else Some (Inr (out, [], to_int pos)))"

text \<open>The data, the trailers and the position returned; the outer \<open>None\<close> is that it does not return.\<close>

definition nfs_chunked_decode :: "u8 list \<Rightarrow> (chunk_error + nfs_chunked_decoded) option" where
  "nfs_chunked_decode data = decode_chunks data 0 []"

section \<open>Sizes\<close>

lemma to_int_small: "n < 2 ^ 31 \<Longrightarrow> to_int n = int n"
  by (simp add: to_int_def signed_of_nat signed_take_bit_int_eq_self)

lemma to_int_cong: "n mod 2 ^ 32 = m mod 2 ^ 32 \<Longrightarrow> to_int n = to_int m"
proof -
  assume "n mod 2 ^ 32 = m mod 2 ^ 32"
  then have "(word_of_nat n :: 32 word) = word_of_nat m"
    by (simp add: word_unat_eq_iff unsigned_of_nat take_bit_nat_def)
  then show ?thesis by (simp add: to_int_def)
qed

lemma hex_value_digit: "d < 16 \<Longrightarrow> hex_value (hex_digit d) = Some d \<and> hex_digit d \<noteq> CR \<and> hex_digit d \<noteq> 59"
proof -
  assume "d < 16"
  then have "unat (of_nat (48 + d) :: u8) = 48 + d" "unat (of_nat (97 + d - 10) :: u8) = 97 + d - 10"
    by (simp_all only: unat_of_nat_u8)
  then show ?thesis
    using \<open>d < 16\<close> by (auto simp: hex_value_def hex_digit_def word_le_nat_alt word_unat_eq_iff simp del: of_nat_add of_nat_diff)
qed

lemma hex_run_append: "hex_run (xs @ ys) v = Option.bind (hex_run xs v) (hex_run ys)"
  by (induction xs arbitrary: v) (auto split: option.split)

lemma hex_run_digits: "n < 2 ^ 64 \<Longrightarrow> hex_run (hex_digits n) 0 = Some n"
proof (induction n rule: hex_digits.induct)
  case (1 n)
  show ?case
  proof (cases "n < 16")
    case True
    then show ?thesis by (subst hex_digits.simps) (simp add: hex_value_digit)
  next
    case False
    have "hex_run (hex_digits (n div 16)) 0 = Some (n div 16)" using 1 False by simp
    moreover have "n div 16 \<le> (2 ^ 64 - 1) div 16" using 1(2) by (intro div_le_mono) simp
    ultimately show ?thesis
      using False by (subst hex_digits.simps) (simp add: hex_run_append hex_value_digit)
  qed
qed

lemma hex_digits_plain: "c \<in> set (hex_digits n) \<Longrightarrow> c \<noteq> CR \<and> c \<noteq> 59"
proof (induction n rule: hex_digits.induct)
  case (1 n)
  have "hex_digits n = (if n < 16 then [hex_digit n] else hex_digits (n div 16) @ [hex_digit (n mod 16)])"
    by (subst hex_digits.simps) simp
  then show ?case using 1 by (auto simp: hex_value_digit split: if_splits)
qed

lemma hex_digits_ne [simp]: "hex_digits n \<noteq> []"
  by (subst hex_digits.simps) simp

lemma find_crlf_line: "CR \<notin> set line \<Longrightarrow> find_crlf (line @ CR # LF # rest) = Some (length line)"
proof (induction line)
  case (Cons x line)
  then show ?case by (cases line) auto
qed simp

section \<open>What was encoded is decoded\<close>

abbreviation chunk_bytes :: "u8 list \<Rightarrow> u8 list" where
  "chunk_bytes d \<equiv> hex_digits (length d) @ [CR, LF] @ d @ [CR, LF]"

abbreviation last_chunk :: "u8 list" where
  "last_chunk \<equiv> [48, CR, LF, CR, LF]"

lemma parse_chunk:
  assumes "d \<noteq> []" and "length (chunk_bytes d) < 2 ^ 63"
  shows "nfs_chunk_parse_next (chunk_bytes d @ rest) =
    Inr (length d, length (hex_digits (length d)) + 2, to_int (length (chunk_bytes d)))"
proof -
  let ?h = "hex_digits (length d)"
  have crlf: "find_crlf (chunk_bytes d @ rest) = Some (length ?h)"
    using find_crlf_line [of ?h "d @ [CR, LF] @ rest"] hex_digits_plain [of CR "length d"] by auto
  define data where "data = chunk_bytes d @ rest"
  have "takeWhile (\<lambda>c. c \<noteq> 59) (take (length ?h) data) = ?h"
    using hex_digits_plain by (auto simp: data_def takeWhile_eq_all_conv)
  moreover have "nfs_chunked_parse_hex ?h = Some (length d)"
    using assms hex_run_digits [of "length d"] by (simp add: nfs_chunked_parse_hex_def)
  ultimately have hex: "nfs_chunked_parse_hex (takeWhile (\<lambda>c. c \<noteq> 59) (take (length ?h) data)) = Some (length d)"
    by simp
  have m: "(length ?h + 2 + length d) mod 2 ^ 64 = length ?h + 2 + length d"
    "(length ?h + 2 + length d + 1) mod 2 ^ 64 = length ?h + 2 + length d + 1"
    "(length ?h + 2 + length d + 2) mod 2 ^ 64 = length ?h + 2 + length d + 2"
    using assms(2) by (intro mod_less; simp)+
  have nth: "data ! (length ?h + 2 + length d) = CR" "data ! (length ?h + 2 + length d + 1) = LF"
    and len: "length data \<ge> length ?h + 2 + length d + 2" and ne: "data \<noteq> []"
    by (simp_all add: data_def nth_append)
  have n: "\<not> length data < length ?h + 2 + length d + 2" "\<not> length data \<le> length ?h + 2 + length d"
    "\<not> length data \<le> length ?h + 2 + length d + 1" using len by linarith+
  show ?thesis
    unfolding data_def [symmetric] nfs_chunk_parse_next_def Let_def crlf [folded data_def] option.case hex m nth
    using n ne assms(1) by simp
qed

lemma parse_last: "nfs_chunk_parse_next (last_chunk @ rest) = Inr (0, 0, 3)"
  by (simp add: to_int_small nfs_chunk_parse_next_def nfs_chunked_parse_hex_def hex_value_def)

lemma trailers_none: "data = pre @ CR # LF # rest \<Longrightarrow> trailer_run data (length pre) ts = (ts, length pre + 2)"
  by (subst trailer_run.simps) (simp add: nth_append)

lemma decode_chunks_run:
  assumes "list_all (\<lambda>d. d \<noteq> []) ds" and "length pre + length (concat (map chunk_bytes ds)) + 5 < 2 ^ 31"
    and "data = pre @ concat (map chunk_bytes ds) @ last_chunk @ rest"
  shows "decode_chunks data (length pre) out =
    Some (Inr (out @ concat ds, [], int (length pre + length (concat (map chunk_bytes ds)) + 5)))"
  using assms
proof (induction ds arbitrary: pre out)
  case Nil
  then have "drop (length pre) data = last_chunk @ rest" and "length pre < length data" by simp_all
  moreover have "data = (pre @ [48, CR, LF]) @ CR # LF # rest" using Nil by simp
  note trailers_none [OF this, of "[]"]
  moreover have "length (pre @ [48, CR, LF]) = length pre + 3" by simp
  ultimately have "trailer_run data (length pre + 3) [] = ([], length pre + 3 + 2)"
    "drop (length pre) data = last_chunk @ rest" "length pre < length data" by argo+
  then show ?case using parse_last [of rest] Nil.prems(2) by (subst decode_chunks.simps) (simp add: to_int_small)
next
  case (Cons d ds)
  let ?rest = "concat (map chunk_bytes ds) @ last_chunk @ rest"
  have data: "drop (length pre) data = chunk_bytes d @ ?rest" "length pre < length data"
    "data = (pre @ chunk_bytes d) @ ?rest"
    using Cons.prems(3) by simp_all
  have "nfs_chunk_parse_next (chunk_bytes d @ ?rest) =
      Inr (length d, length (hex_digits (length d)) + 2, int (length (chunk_bytes d)))"
    using Cons.prems by (subst parse_chunk) (simp_all add: to_int_small)
  moreover have "take (length d) (drop (length pre + (length (hex_digits (length d)) + 2)) data) = d"
    "length pre + (length (hex_digits (length d)) + 2) + length d \<le> length data"
    unfolding data(3) by simp_all
  ultimately have "decode_chunks data (length pre) out =
      decode_chunks data (length pre + nat (int (length (chunk_bytes d)))) (out @ d)"
    using data(1,2) Cons.prems(1) by (subst decode_chunks.simps) (simp del: of_nat_add of_nat_Suc length_append list.size)
  also have "length pre + nat (int (length (chunk_bytes d))) = length (pre @ chunk_bytes d)"
    by (simp only: nat_int length_append)
  also have "decode_chunks data \<dots> (out @ d) =
      Some (Inr ((out @ d) @ concat ds, [], int (length (pre @ chunk_bytes d) + length (concat (map chunk_bytes ds)) + 5)))"
    using Cons.prems by (intro Cons.IH) simp_all
  finally show ?case by simp
qed

text \<open>The encoder cuts the data into chunks of the same size, the last one shorter.\<close>

function cut :: "nat \<Rightarrow> 'a list \<Rightarrow> 'a list list" where
  "cut k xs = (if xs = [] then [] else take (k + 1) xs # cut k (drop (k + 1) xs))"
  by pat_completeness auto
termination cut
  by (relation "measure (\<lambda>(k, xs). length xs)") (auto simp: diff_less)

declare cut.simps [simp del]

lemma cut_parts: "concat (cut k xs) = xs" "list_all (\<lambda>d. d \<noteq> [] \<and> length d \<le> k + 1) (cut k xs)"
proof (induction k xs rule: cut.induct)
  case (1 k xs)
  {
    case 1
    then show ?case using "1.IH" by (cases "xs = []"; subst cut.simps) simp_all
  next
    case 2
    then show ?case using "1.IH" by (cases "xs = []"; subst cut.simps) simp_all
  }
qed

lemma encode_chunks_eq:
  "encode_chunks k n data out =
     (let bs = concat (map chunk_bytes (cut k data)) @ last_chunk in
      if length out + length bs \<le> n then Some (out @ bs) else None)"
proof (induction k n data out rule: encode_chunks.induct)
  case (1 k n data out)
  show ?case
  proof (cases "data = []")
    case True
    have "cut k [] = ([] :: u8 list list)" by (subst cut.simps) simp
    then show ?thesis using True by (subst encode_chunks.simps) (auto simp: nfs_chunked_encode_last_def Let_def)
  next
    case False
    then have c: "cut k data = take (k + 1) data # cut k (drop (k + 1) data)" by (subst cut.simps) simp
    show ?thesis
    proof (cases "nfs_chunked_encode_chunk (take (k + 1) data) (n - length out)")
      case None
      then show ?thesis
        using False by (subst encode_chunks.simps) (auto simp: c nfs_chunked_encode_chunk_def Let_def split: if_splits)
    next
      case (Some w)
      then have "w = chunk_bytes (take (k + 1) data)" by (simp add: nfs_chunked_encode_chunk_def Let_def split: if_splits)
      then show ?thesis
        using 1 [OF False Some] False Some
        by (subst encode_chunks.simps) (simp add: c Let_def)
    qed
  qed
qed

text \<open>
  Chunking loses nothing: whatever the chunk size, the encoding of the data decodes to the data
  with no trailers, and the position after it is the encoding's length, whatever follows; the
  encoder fails only for chunk size 0 or too small a buffer.
\<close>
theorem chunked_roundtrip:
  assumes "0 < chunk_size" and "length (concat (map chunk_bytes (cut (chunk_size - 1) data))) + 5 \<le> out_sz"
    and "out_sz < 2 ^ 31"
  shows "\<exists>bs. nfs_chunked_encode data chunk_size out_sz = Some bs \<and>
    nfs_chunked_decode (bs @ rest) = Some (Inr (data, [], int (length bs))) \<and> length bs \<le> out_sz"
proof -
  let ?ds = "cut (chunk_size - 1) data"
  let ?bs = "concat (map chunk_bytes ?ds) @ last_chunk"
  have len: "length ?bs = length (concat (map chunk_bytes ?ds)) + 5" by simp
  have enc: "nfs_chunked_encode data chunk_size out_sz = Some ?bs"
    unfolding nfs_chunked_encode_def encode_chunks_eq Let_def using assms(1,2) len by simp
  have "list_all (\<lambda>d. d \<noteq> []) ?ds" using cut_parts(2) [of "chunk_size - 1" data] by (simp add: list_all_iff)
  moreover have "length ([] :: u8 list) + length (concat (map chunk_bytes ?ds)) + 5 < 2 ^ 31" using assms(2,3) unfolding list.size by linarith
  ultimately have "decode_chunks (?bs @ rest) (length ([] :: u8 list)) [] =
      Some (Inr ([] @ concat ?ds, [], int (length ([] :: u8 list) + length (concat (map chunk_bytes ?ds)) + 5)))"
    by (rule decode_chunks_run [where rest = rest]) simp
  then have "nfs_chunked_decode (?bs @ rest) = Some (Inr (data, [], int (length ?bs)))"
    unfolding nfs_chunked_decode_def cut_parts(1) len by simp
  then show ?thesis using enc assms(2) len by (intro exI [of _ ?bs]) linarith
qed

lemma chunked_roundtrip_witness:
  "\<exists>bs. nfs_chunked_encode [1, 2, 3] 2 20 = Some bs \<and> nfs_chunked_decode (bs @ [9]) = Some (Inr ([1, 2, 3], [], int (length bs)))"
proof -
  have c: "cut (2 - 1) [1, 2, 3 :: u8] = [[1, 2], [3]]" by (simp add: cut.simps)
  have "length (concat (map chunk_bytes (cut (2 - 1) [1, 2, 3 :: u8]))) + 5 \<le> 20"
    unfolding c by (simp add: hex_digits.simps [of "Suc 0"] hex_digits.simps [of "Suc (Suc 0)"])
  from chunked_roundtrip [OF _ this] show ?thesis by auto
qed

section \<open>The decoder returns\<close>
lemma find_crlf_bound: "find_crlf d = Some n \<Longrightarrow> n + 2 \<le> length d"
proof (induction d arbitrary: n rule: find_crlf.induct)
  case (1 x y r)
  then show ?case by (cases "find_crlf (y # r)") (auto split: if_splits)
qed simp_all

text \<open>A chunk at the start of the data announces this size.\<close>

definition announced :: "u8 list \<Rightarrow> nat \<Rightarrow> bool" where
  "announced d sz \<longleftrightarrow> (\<exists>n. find_crlf d = Some n \<and>
     nfs_chunked_parse_hex (takeWhile (\<lambda>c. c \<noteq> 59) (take n d)) = Some sz)"

lemma parse_next_bounds:
  assumes "nfs_chunk_parse_next d = Inr (sz, off, c)" and "length d < 2 ^ 31"
  shows "sz = 0 \<Longrightarrow> 0 < c \<and> nat c \<le> length d"
    and "sz \<noteq> 0 \<Longrightarrow> off + sz \<le> length d \<Longrightarrow> c = int (off + sz + 2) \<and> off + sz + 2 \<le> length d"
    and "length d < off + sz \<Longrightarrow> announced d sz \<and> 2 ^ 64 \<le> sz + length d + 2"
    and "0 \<le> c"
proof -
  obtain n where n: "find_crlf d = Some n"
    using assms(1) by (auto simp: nfs_chunk_parse_next_def split: if_splits option.splits)
  have hex: "nfs_chunked_parse_hex (takeWhile (\<lambda>c. c \<noteq> 59) (take n d)) = Some sz"
    using assms(1) n by (auto simp: nfs_chunk_parse_next_def Let_def split: if_splits option.splits)
  note nb = find_crlf_bound [OF n]
  have last: "c = int (n + 2)" "off = 0" if "sz = 0"
    using assms n nb that by (auto simp: nfs_chunk_parse_next_def Let_def to_int_small split: if_splits option.splits)
  have more: "c = to_int (off + sz + 2)" "off = n + 2" "(off + sz + 2) mod 2 ^ 64 \<le> length d" if "sz \<noteq> 0"
    using assms(1) n that by (auto simp: nfs_chunk_parse_next_def Let_def split: if_splits option.splits)
  have c: "c = int ((off + sz + 2) mod 2 ^ 64)" if "sz \<noteq> 0"
  proof -
    have "to_int (off + sz + 2) = to_int ((off + sz + 2) mod 2 ^ 64)"
      by (rule to_int_cong) (simp add: mod_mod_cancel)
    then show ?thesis using more [OF that] assms(2) by (simp add: to_int_small)
  qed
  show "0 < c \<and> nat c \<le> length d" if "sz = 0" using last(1) [OF that] nb by simp
  show "c = int (off + sz + 2) \<and> off + sz + 2 \<le> length d" if "sz \<noteq> 0" "off + sz \<le> length d"
    using c [OF that(1)] more(3) [OF that(1)] that(2) assms(2) by simp
  show "announced d sz \<and> 2 ^ 64 \<le> sz + length d + 2" if "length d < off + sz"
  proof -
    have "sz \<noteq> 0" using that last(2) by auto
    then have "2 ^ 64 \<le> off + sz + 2" using more(3) that by (cases "off + sz + 2 < 2 ^ 64") simp_all
    then show ?thesis using n hex nb more(2) [OF \<open>sz \<noteq> 0\<close>] by (auto simp: announced_def)
  qed
  show "0 \<le> c" using last(1) c by (cases "sz = 0") simp_all
qed

lemma parse_next_overread:
  assumes "nfs_chunk_parse_next d = Inl CHUNK_OVERREAD" and "length d < 2 ^ 31"
  shows "\<exists>sz. announced d sz \<and> 2 ^ 64 \<le> sz + length d + 2"
proof -
  obtain n sz where n: "find_crlf d = Some n" and hex: "nfs_chunked_parse_hex (takeWhile (\<lambda>c. c \<noteq> 59) (take n d)) = Some sz"
    and fit: "(n + 2 + sz + 2) mod 2 ^ 64 \<le> length d"
    and over: "length d \<le> (n + 2 + sz) mod 2 ^ 64 \<or> length d \<le> (n + 2 + sz + 1) mod 2 ^ 64"
    using assms(1) by (auto simp: nfs_chunk_parse_next_def Let_def not_less split: if_splits option.splits)
  have "2 ^ 64 \<le> n + 2 + sz + 2"
  proof (rule ccontr)
    assume "\<not> 2 ^ 64 \<le> n + 2 + sz + 2"
    then show False using fit over by (simp add: mod_less)
  qed
  then show ?thesis using n hex find_crlf_bound [OF n] by (intro exI [of _ sz]) (auto simp: announced_def)
qed

lemma trailer_run_bounds:
  "pos \<le> length data \<Longrightarrow> length ts \<le> 16 \<Longrightarrow> trailer_run data pos ts = (ts', p) \<Longrightarrow> pos \<le> p \<and> p \<le> length data \<and> length ts' \<le> 16"
proof (induction data pos ts rule: trailer_run.induct)
  case (1 data pos ts)
  show ?case
  proof (cases "pos < length data \<and> \<not> (pos + 1 < length data \<and> data ! pos = CR \<and> data ! (pos + 1) = LF)")
    case False
    then show ?thesis using 1(2-4) by (subst (asm) trailer_run.simps) (auto split: if_splits)
  next
    case True
    note lt = conjunct1 [OF True] and notend = conjunct2 [OF True]
    show ?thesis
    proof (cases "find_crlf (drop pos data)")
      case None
      then show ?thesis using 1(2-4) True by (subst (asm) trailer_run.simps) (auto split: if_splits)
    next
      case (Some n)
      note b = find_crlf_bound [OF Some]
      show ?thesis
      proof (cases "n = 0")
        case True
        then have "p = pos + 2" "ts' = ts" using 1(4) lt notend Some by (subst (asm) trailer_run.simps, simp split: if_splits)+
        then show ?thesis using b 1(3) by simp
      next
        case False
        have "length (add_trailer (take n (drop pos data)) ts) \<le> 16"
          using 1(3) by (auto simp: add_trailer_def Let_def NFS_CHUNKED_MAX_TRAILERS_def)
        moreover have "trailer_run data (pos + n + 2) (add_trailer (take n (drop pos data)) ts) = (ts', p)"
          using 1(4) lt notend Some False by (subst (asm) trailer_run.simps) (simp split: if_splits)
        moreover have "pos + n + 2 \<le> length data" using b lt by simp
        ultimately show ?thesis using 1(1) [OF lt notend Some False] by simp
      qed
    qed
  qed
qed

text \<open>What a result may be.\<close>

definition decode_fits :: "u8 list \<Rightarrow> chunk_error + nfs_chunked_decoded \<Rightarrow> bool" where
  "decode_fits data r =
     (case r of
        Inl e \<Rightarrow> e = CHUNK_OVERREAD \<longrightarrow> (\<exists>pos sz. announced (drop pos data) sz \<and> 2 ^ 64 \<le> sz + length data + 2)
      | Inr (out, ts, p) \<Rightarrow> int (length out) \<le> p \<and> p \<le> int (length data) \<and> length ts \<le> 16)"

lemma decode_fits_over:
  "announced (drop pos data) sz \<Longrightarrow> 2 ^ 64 \<le> sz + length (drop pos data) + 2 \<Longrightarrow> decode_fits data (Inl CHUNK_OVERREAD)"
  unfolding decode_fits_def sum.case by (intro impI exI [of _ pos] exI [of _ sz]) simp

lemma decode_chunks_returns:
  assumes "length data < 2 ^ 31" and "pos \<le> length data" and "length out \<le> pos"
  shows "\<exists>r. decode_chunks data pos out = Some r \<and> decode_fits data r"
  using assms(2,3)
proof (induction "length data - pos" arbitrary: pos out rule: less_induct)
  case less
  show ?case
  proof (cases "pos < length data")
    case False
    then show ?thesis using less.prems assms(1) by (subst decode_chunks.simps) (simp add: decode_fits_def to_int_small)
  next
    case lt: True
    let ?d = "drop pos data"
    have short: "length ?d < 2 ^ 31" using assms(1) by simp
    show ?thesis
    proof (cases "nfs_chunk_parse_next ?d")
      case (Inl e)
      have "decode_fits data (Inl e)"
      proof (cases e)
        case CHUNK_OVERREAD
        then show ?thesis using parse_next_overread [OF _ short] Inl decode_fits_over by blast
      qed (simp add: decode_fits_def)
      then show ?thesis using Inl lt by (subst decode_chunks.simps) simp
    next
      case (Inr a)
      obtain sz off c where a: "a = (sz, off, c)" by (cases a)
      note b = parse_next_bounds [OF Inr [unfolded a] short]
      consider (last) "sz = 0" | (over) "sz \<noteq> 0" "length ?d < off + sz" | (more) "sz \<noteq> 0" "off + sz \<le> length ?d"
        by linarith
      then show ?thesis
      proof cases
        case last
        obtain ts p where t: "trailer_run data (pos + nat c) [] = (ts, p)" by fastforce
        have "pos + nat c \<le> p \<and> p \<le> length data \<and> length ts \<le> 16"
          by (rule trailer_run_bounds [where ts = "[]", OF _ _ t]) (use b(1) [OF last] lt in \<open>(simp; linarith)+\<close>)
        then show ?thesis
          using lt Inr a b(4) last t less.prems assms(1) by (subst decode_chunks.simps) (simp add: decode_fits_def to_int_small)
      next
        case over
        moreover have "length data < pos + off + sz" using over(2) by simp
        moreover have "decode_fits data (Inl CHUNK_OVERREAD)" using b(3) [OF over(2)] decode_fits_over by blast
        ultimately show ?thesis using lt Inr a b(4) by (subst decode_chunks.simps) simp
      next
        case more
        then have c: "c = int (off + sz + 2)" "off + sz + 2 \<le> length ?d" using b(2) by blast+
        have "length (out @ take sz (drop (pos + off) data)) \<le> pos + nat c" "pos + nat c \<le> length data"
          "length data - (pos + nat c) < length data - pos" "\<not> length data < pos + off + sz"
          using less.prems c lt more(2) by simp_all
        from less.hyps [OF this(3,2,1)] this(4)
        show ?thesis using Inr a more(1) b(4) lt by (subst decode_chunks.simps) simp
      qed
    qed
  qed
qed

text \<open>
  C37. The decoder returns on every input below \<open>2 ^ 31\<close> bytes, the range of the \<^verbatim>\<open>int\<close> it counts in: no
  such sequence of bytes makes it loop. What it returns as decoded is no longer than the input it
  read, ends within it, and has at most 16 trailers; and it reads past the input only where the
  input announces a chunk whose size, with the input's length, reaches the wrap-around of \<^verbatim>\<open>size_t\<close>.
\<close>
theorem chunked_decode_returns:
  assumes "length data < 2 ^ 31"
  shows "\<exists>r. nfs_chunked_decode data = Some r \<and>
    (case r of
       Inl e \<Rightarrow> e = CHUNK_OVERREAD \<longrightarrow> (\<exists>pos sz. announced (drop pos data) sz \<and> 2 ^ 64 \<le> sz + length data + 2)
     | Inr (out, ts, p) \<Rightarrow> int (length out) \<le> p \<and> p \<le> int (length data) \<and> length ts \<le> 16)"
  using decode_chunks_returns [OF assms, of 0 "[]"] by (simp add: nfs_chunked_decode_def decode_fits_def)

lemma chunked_decode_returns_witness:
  "\<exists>r. nfs_chunked_decode [48, 13, 10, 13] = Some r"
  using chunked_decode_returns [of "[48, 13, 10, 13]"] by auto

text \<open>
  On longer inputs the cast of the bytes consumed matters: a chunk that takes \<open>2 ^ 32\<close> bytes counts as
  none, the position does not move, and the loop copies the same chunk for ever.
\<close>

lemma huge_chunk_never_returns:
  assumes "length (chunk_bytes d) = 2 ^ 32"
  shows "nfs_chunked_decode (chunk_bytes d @ rest) = None"
proof -
  let ?data = "chunk_bytes d @ rest"
  have "d \<noteq> []" using assms by (auto simp: hex_digits.simps)
  then have "nfs_chunk_parse_next ?data = Inr (length d, length (hex_digits (length d)) + 2, to_int (2 ^ 32))"
    using parse_chunk [of d rest] assms by simp
  moreover have "to_int (2 ^ 32) = 0" by (simp add: to_int_def)
  ultimately have p: "nfs_chunk_parse_next (drop 0 ?data) = Inr (length d, length (hex_digits (length d)) + 2, 0)"
    by (simp only: drop_0)
  have "\<not> (data = ?data \<and> pos = 0)" if "decode_chunks data pos out = Some y" for data pos out y
    using that
  proof (rule decode_chunks.raw_induct [where P = "\<lambda>data pos out y. \<not> (data = ?data \<and> pos = 0)", rotated], goal_cases)
    case (1 dec data pos out y)
    show ?case
    proof
      assume "data = ?data \<and> pos = 0"
      then have d: "data = ?data" "pos = 0" by simp_all
      have "dec ?data 0 (out @ d) = Some y" using 1(2) \<open>d \<noteq> []\<close> unfolding d p by (simp split: if_splits)
      then show False using 1(1) by blast
    qed
  qed
  then show ?thesis by (cases "decode_chunks ?data 0 []") (auto simp: nfs_chunked_decode_def)
qed

lemma huge_chunk_exists: "length (chunk_bytes (replicate (2 ^ 32 - 12) 0)) = 2 ^ 32"
proof -
  have "length (hex_digits (2 ^ 32 - 12)) = 8" by (simp add: hex_digits.simps)
  then show ?thesis by simp
qed

text \<open>
  The sum that is compared with the length of the input wraps around: a chunk of \<open>2 ^ 64 - 2\<close> bytes
  passes the test on an input of 18 bytes, and the copy reads past it.
\<close>

lemma huge_chunk_overreads: "nfs_chunked_decode [102, 102, 102, 102, 102, 102, 102, 102, 102, 102, 102, 102, 102, 102, 102, 101, CR, LF] = Some (Inl CHUNK_OVERREAD)"
proof -
  let ?hex = "[102, 102, 102, 102, 102, 102, 102, 102, 102, 102, 102, 102, 102, 102, 102, 101] :: u8 list" and ?d = "[102, 102, 102, 102, 102, 102, 102, 102, 102, 102, 102, 102, 102, 102, 102, 101, CR, LF] :: u8 list"
  have "length ?hex = 16" by simp
  then have "find_crlf ?d = Some 16" using find_crlf_line [of ?hex "[]"] by simp
  moreover have "nfs_chunked_parse_hex ?hex = Some (2 ^ 64 - 2)"
    by (simp add: nfs_chunked_parse_hex_def hex_value_def)
  moreover have "takeWhile (\<lambda>c. c \<noteq> 59) (take 16 ?d) = ?hex" by simp
  ultimately have "nfs_chunk_parse_next ?d = Inr (2 ^ 64 - 2, 18, 18)"
    unfolding nfs_chunk_parse_next_def Let_def by (simp add: to_int_def)
  then show ?thesis
    unfolding nfs_chunked_decode_def by (subst decode_chunks.simps) simp
qed

end
