(* ===== verification/Segment.thy ===== *)
theory Segment
  imports Ipv4
begin

text \<open>
  TCP and UDP headers and the checksums over the IPv4 pseudo-header:
  \<^verbatim>\<open>phases/04-transport/07-the-tcp-header/tcp_hdr.c\<close>, \<^verbatim>\<open>02-udp-header-rfc-768/udp.c\<close>,
  \<^verbatim>\<open>03-udp-checksum-with-ipv4-pseudo-header/udp_csum.c\<close> and \<^verbatim>\<open>08-tcp-checksum/tcp_csum.c\<close>.
  Lessons 03 and 08 lay their pseudo-header out as a packed struct whose address and length
  fields hold host integers in network order: the bytes are those of a little-endian host,
  for which the length is swapped by hand there. Addresses given by pointer are lists of bytes.
\<close>

section \<open>The TCP header\<close>

record nfs_tcp_hdr =
  th_src_port :: u16
  th_dst_port :: u16
  th_seq :: u32
  th_ack :: u32
  th_data_off_flags :: u16
  th_window :: u16
  th_checksum :: u16
  th_urgent :: u16

definition NFS_TCP_HDR_MIN_LEN :: nat where "NFS_TCP_HDR_MIN_LEN = 20"

definition nfs_tcp_data_offset :: "nfs_tcp_hdr \<Rightarrow> u8" where
  "nfs_tcp_data_offset h = ucast (drop_bit 12 (th_data_off_flags h) AND 0x0F)"

definition nfs_tcp_flags :: "nfs_tcp_hdr \<Rightarrow> u16" where
  "nfs_tcp_flags h = th_data_off_flags h AND 0x01FF"

definition nfs_tcp_has_flag :: "nfs_tcp_hdr \<Rightarrow> u16 \<Rightarrow> bool" where
  "nfs_tcp_has_flag h flag \<longleftrightarrow> nfs_tcp_flags h AND flag \<noteq> 0"

definition nfs_tcp_parse :: "u8 list \<Rightarrow> nfs_tcp_hdr option" where
  "nfs_tcp_parse data =
     (if length data < NFS_TCP_HDR_MIN_LEN then None
      else
        let hdr = \<lparr> th_src_port = get16 data 0, th_dst_port = get16 data 2,
                    th_seq = get32 data 4, th_ack = get32 data 8,
                    th_data_off_flags = get16 data 12, th_window = get16 data 14,
                    th_checksum = get16 data 16, th_urgent = get16 data 18 \<rparr>;
            doff = nfs_tcp_data_offset hdr
        in if doff < 5 then None
           else if length data < unat doff * 4 then None
           else Some hdr)"

definition nfs_tcp_build ::
  "u16 \<Rightarrow> u16 \<Rightarrow> u32 \<Rightarrow> u32 \<Rightarrow> u16 \<Rightarrow> u16 \<Rightarrow> nat \<Rightarrow> u8 list option" where
  "nfs_tcp_build src_port dst_port seq ack flags window out_sz =
     (if out_sz < NFS_TCP_HDR_MIN_LEN then None
      else Some (put16 src_port @ put16 dst_port @ put32 seq @ put32 ack
                 @ put16 (0x5000 OR (flags AND 0x01FF)) @ put16 window @ [0, 0] @ [0, 0]))"

text \<open>The flag names, in the order of the table; a name that does not fit is left out.\<close>

definition flag_table :: "(u16 \<times> string) list" where
  "flag_table = [(0x080, ''CWR''), (0x040, ''ECE''), (0x020, ''URG''), (0x010, ''ACK''),
                 (0x008, ''PSH''), (0x004, ''RST''), (0x002, ''SYN''), (0x001, ''FIN'')]"

fun flag_str_run :: "u16 \<Rightarrow> (u16 \<times> string) list \<Rightarrow> string \<Rightarrow> string" where
  "flag_str_run flags [] buf = buf"
| "flag_str_run flags ((m, name) # fs) buf =
     (if flags AND m \<noteq> 0 then
        let buf' = (if 0 < length buf then buf @ '','' else buf) in
        flag_str_run flags fs (if length buf' + length name < 63 then buf' @ name else buf')
      else flag_str_run flags fs buf)"

definition nfs_tcp_flag_str :: "u16 \<Rightarrow> string" where
  "nfs_tcp_flag_str flags = flag_str_run flags flag_table ''''"

section \<open>The UDP header\<close>

record nfs_udp_hdr =
  uh_src_port :: u16
  uh_dst_port :: u16
  uh_length :: u16
  uh_checksum :: u16

definition NFS_UDP_HDR_LEN :: nat where "NFS_UDP_HDR_LEN = 8"

definition nfs_udp_parse :: "u8 list \<Rightarrow> nfs_udp_hdr option" where
  "nfs_udp_parse buf =
     (if length buf < NFS_UDP_HDR_LEN then None
      else
        let out = \<lparr> uh_src_port = get16 buf 0, uh_dst_port = get16 buf 2,
                    uh_length = get16 buf 4, uh_checksum = get16 buf 6 \<rparr>
        in if unat (uh_length out) < NFS_UDP_HDR_LEN then None else Some out)"

definition nfs_udp_build :: "nfs_udp_hdr \<Rightarrow> u8 list \<Rightarrow> nat \<Rightarrow> u8 list option" where
  "nfs_udp_build hdr payload buf_len =
     (if buf_len < NFS_UDP_HDR_LEN + length payload then None
      else Some (put16 (uh_src_port hdr) @ put16 (uh_dst_port hdr) @ put16 (uh_length hdr)
                 @ put16 (uh_checksum hdr) @ payload))"

section \<open>Checksums over a pseudo-header\<close>

text \<open>Lessons 02 and 09 write the pseudo-header byte by byte.\<close>

definition pseudo_bytes :: "u8 list \<Rightarrow> u8 list \<Rightarrow> u8 \<Rightarrow> nat \<Rightarrow> u8 list" where
  "pseudo_bytes src_ip dst_ip proto n =
     take 4 src_ip @ take 4 dst_ip @ [0, proto, of_nat (drop_bit 8 n), of_nat (n AND 0xFF)]"

definition nfs_udp_checksum_ipv4 :: "u8 list \<Rightarrow> u8 list \<Rightarrow> u8 list \<Rightarrow> u16" where
  "nfs_udp_checksum_ipv4 src_ip dst_ip udp_buf =
     (let pseudo = pseudo_bytes src_ip dst_ip 17 (length udp_buf);
          s = internet_checksum_partial pseudo 0;
          s = internet_checksum_partial udp_buf s;
          cs = internet_checksum_fold s
      in if cs = 0 then 0xFFFF else cs)"

definition nfs_udp_validate :: "u8 list \<Rightarrow> u8 list \<Rightarrow> u8 list \<Rightarrow> bool" where
  "nfs_udp_validate src_ip dst_ip udp_buf \<longleftrightarrow>
     (if length udp_buf < NFS_UDP_HDR_LEN then False
      else if get16 udp_buf 6 = 0 then True
      else
        let pseudo = pseudo_bytes src_ip dst_ip 17 (length udp_buf);
            s = internet_checksum_partial pseudo 0;
            s = internet_checksum_partial udp_buf s
        in internet_checksum_fold s = 0)"

text \<open>Lessons 03 and 08 use a packed struct of host integers.\<close>

fun checksum_partial_internal :: "u8 list \<Rightarrow> u32 \<Rightarrow> u32" where
  "checksum_partial_internal (a # b # p) s =
     checksum_partial_internal p (s + (push_bit 8 (ucast a) OR ucast b))"
| "checksum_partial_internal [a] s = s + push_bit 8 (ucast a)"
| "checksum_partial_internal [] s = s"

definition checksum_fold_internal :: "u32 \<Rightarrow> u16" where
  "checksum_fold_internal partial = ucast (NOT (fold_carries partial))"

definition nfs_checksum_partial :: "u8 list \<Rightarrow> u32 \<Rightarrow> u16" where
  "nfs_checksum_partial data seed = ucast (checksum_partial_internal data seed)"

definition nfs_checksum_fold :: "u32 \<Rightarrow> u16" where
  "nfs_checksum_fold s = checksum_fold_internal s"

definition nfs_internet_checksum :: "u8 list \<Rightarrow> u16" where
  "nfs_internet_checksum data = checksum_fold_internal (checksum_partial_internal data 0)"

definition u32_mem :: "u32 \<Rightarrow> u8 list" where
  "u32_mem x = [byte0 x, byte1 x, byte2 x, byte3 x]"

definition u16_mem :: "u16 \<Rightarrow> u8 list" where
  "u16_mem x = [lo8 x, hi8 x]"

definition nfs_ipv4_pseudo_hdr :: "u32 \<Rightarrow> u32 \<Rightarrow> u8 \<Rightarrow> nat \<Rightarrow> u8 list" where
  "nfs_ipv4_pseudo_hdr src_ip dst_ip proto n =
     u32_mem src_ip @ u32_mem dst_ip @ [0, proto]
     @ u16_mem (of_nat (push_bit 8 (n AND 0xFF) OR (drop_bit 8 n AND 0xFF)))"

definition nfs_tcp_checksum :: "u32 \<Rightarrow> u32 \<Rightarrow> u8 list \<Rightarrow> u16" where
  "nfs_tcp_checksum src_ip dst_ip tcp_segment =
     (let pseudo = nfs_ipv4_pseudo_hdr src_ip dst_ip 6 (length tcp_segment);
          s = checksum_partial_internal pseudo 0;
          s = checksum_partial_internal tcp_segment s
      in checksum_fold_internal s)"

definition nfs_tcp_verify_checksum :: "u32 \<Rightarrow> u32 \<Rightarrow> u8 list \<Rightarrow> bool" where
  "nfs_tcp_verify_checksum src_ip dst_ip tcp_segment \<longleftrightarrow>
     (if length tcp_segment < 20 then False
      else
        let pseudo = nfs_ipv4_pseudo_hdr src_ip dst_ip 6 (length tcp_segment);
            s = checksum_partial_internal pseudo 0;
            s = checksum_partial_internal tcp_segment s
        in checksum_fold_internal s = 0)"

definition nfs_udp_checksum :: "u32 \<Rightarrow> u32 \<Rightarrow> u8 list \<Rightarrow> u16" where
  "nfs_udp_checksum src_ip dst_ip udp_segment =
     (let pseudo = nfs_ipv4_pseudo_hdr src_ip dst_ip 17 (length udp_segment);
          s = checksum_partial_internal pseudo 0;
          s = checksum_partial_internal udp_segment s;
          cs = checksum_fold_internal s
      in if cs = 0 then 0xFFFF else cs)"

definition nfs_udp_verify_checksum :: "u32 \<Rightarrow> u32 \<Rightarrow> u8 list \<Rightarrow> bool" where
  "nfs_udp_verify_checksum src_ip dst_ip udp_segment \<longleftrightarrow>
     (if length udp_segment < 8 then False
      else if get16 udp_segment 6 = 0 then True
      else
        let pseudo = nfs_ipv4_pseudo_hdr src_ip dst_ip 17 (length udp_segment);
            s = checksum_partial_internal pseudo 0;
            s = checksum_partial_internal udp_segment s
        in checksum_fold_internal s = 0)"

section \<open>The copies of the checksum agree\<close>

lemma partial_internal: "checksum_partial_internal bs s = internet_checksum_partial bs s"
  by (induction bs s rule: checksum_partial_internal.induct) simp_all

lemma fold_internal: "checksum_fold_internal s = internet_checksum_fold s"
  by (simp add: checksum_fold_internal_def internet_checksum_fold_def)

lemma partial_append:
  "even (length xs) \<Longrightarrow>
     internet_checksum_partial ys (internet_checksum_partial xs s) = internet_checksum_partial (xs @ ys) s"
  by (induction xs s rule: internet_checksum_partial.induct) simp_all

lemma length_pseudo [simp]:
  "length (pseudo_bytes src dst p n) = min 4 (length src) + min 4 (length dst) + 4"
  "length (nfs_ipv4_pseudo_hdr a b p n) = 12"
  by (simp_all add: pseudo_bytes_def nfs_ipv4_pseudo_hdr_def u32_mem_def u16_mem_def)

lemma swapped_length_bytes:
  fixes n :: nat
  defines "x \<equiv> of_nat (push_bit 8 (n AND 0xFF) OR (drop_bit 8 n AND 0xFF)) :: u16"
  shows "lo8 x = of_nat (drop_bit 8 n)" and "hi8 x = of_nat (n AND 0xFF)"
proof -
  have m: "(0xFF :: nat) = mask 8" by (simp add: mask_eq_exp_minus_1)
  show "lo8 x = of_nat (drop_bit 8 n)"
    unfolding x_def lo8_def m
    by (rule bit_word_eqI) (auto simp: bit_simps)
  show "hi8 x = of_nat (n AND 0xFF)"
    unfolding x_def hi8_def m
    by (rule bit_word_eqI) (auto simp: bit_simps)
qed

lemma pseudo_hdr_bytes:
  "nfs_ipv4_pseudo_hdr a b p n = pseudo_bytes (u32_mem a) (u32_mem b) p n"
  unfolding nfs_ipv4_pseudo_hdr_def pseudo_bytes_def u16_mem_def swapped_length_bytes
  by (simp add: u32_mem_def)

lemma nfs_internet_checksum_eq: "nfs_internet_checksum bs = internet_checksum bs"
  by (simp add: nfs_internet_checksum_def internet_checksum_def partial_internal fold_internal)

lemma tcp_checksum_whole:
  "nfs_tcp_checksum a b seg = internet_checksum (nfs_ipv4_pseudo_hdr a b 6 (length seg) @ seg)"
  by (simp add: nfs_tcp_checksum_def partial_internal fold_internal partial_append internet_checksum_def)

lemma tcp_verify_whole:
  "nfs_tcp_verify_checksum a b seg \<longleftrightarrow>
     20 \<le> length seg \<and> internet_checksum (nfs_ipv4_pseudo_hdr a b 6 (length seg) @ seg) = 0"
  by (auto simp: nfs_tcp_verify_checksum_def partial_internal fold_internal partial_append
      internet_checksum_def)

lemma set16_append: "set16 (p @ bs) (length p + i) x = p @ set16 bs i x"
  by (simp add: set16_def list_update_append)

lemma u32_mem_length [simp]: "length (u32_mem x) = 4"
  by (simp add: u32_mem_def)

section \<open>TCP segments\<close>

lemma length_tcp_build: "nfs_tcp_build sp dp sq ak fl wn sz = Some h \<Longrightarrow> length h = 20"
  by (auto simp: nfs_tcp_build_def split: if_splits)

lemma data_off_built: "ucast (drop_bit 12 (0x5000 OR (f AND 0x01FF)) AND 0x0F :: u16) = (5 :: u8)"
proof -
  have m: "(0x01FF :: u16) = mask 9" by (simp add: mask_eq_exp_minus_1)
  have d: "drop_bit 12 (f AND 0x01FF) = 0"
    unfolding m by (rule bit_word_eqI) (auto simp: bit_simps)
  show ?thesis by (simp add: drop_bit_or d)
qed

lemma tcp_parse_segment:
  assumes "nfs_tcp_build sp dp sq ak fl wn sz = Some h"
  shows "nfs_tcp_parse (set16 (h @ pay) 16 c) =
    Some \<lparr> th_src_port = sp, th_dst_port = dp, th_seq = sq, th_ack = ak,
           th_data_off_flags = 0x5000 OR (fl AND 0x01FF), th_window = wn,
           th_checksum = c, th_urgent = 0 \<rparr>"
proof -
  have h: "h = put16 sp @ put16 dp @ put32 sq @ put32 ak
      @ put16 (0x5000 OR (fl AND 0x01FF)) @ put16 wn @ [0, 0] @ [0, 0]"
    using assms by (simp add: nfs_tcp_build_def split: if_splits)
  have len: "length h = 20" using assms by (rule length_tcp_build)
  have f: "get16 (h @ pay) 0 = sp" "get16 (h @ pay) 2 = dp" "get32 (h @ pay) 4 = sq"
    "get32 (h @ pay) 8 = ak" "get16 (h @ pay) 12 = 0x5000 OR (fl AND 0x01FF)"
    "get16 (h @ pay) 14 = wn" "get16 (h @ pay) 18 = 0"
    unfolding h by (simp_all add: get_past) (simp add: get16_def be16_def)
  have o: "get32 (set16 (h @ pay) 16 c) 4 = get32 (h @ pay) 4"
    "get32 (set16 (h @ pay) 16 c) 8 = get32 (h @ pay) 8"
    by (simp_all add: get32_def set16_nth_other)
  show ?thesis
    by (simp add: nfs_tcp_parse_def Let_def len NFS_TCP_HDR_MIN_LEN_def get16_set16_other o f
        nfs_tcp_data_offset_def data_off_built)
qed

lemma tcp_stored_verifies:
  assumes "20 \<le> length seg" and "length seg \<le> 131060" and "get16 seg 16 = 0"
  shows "nfs_tcp_verify_checksum a b (set16 seg 16 (nfs_tcp_checksum a b seg))"
proof -
  let ?p = "nfs_ipv4_pseudo_hdr a b 6 (length seg)"
  have z: "get16 (?p @ seg) 28 = 0" using assms(3) by (simp add: get_past)
  have "internet_checksum (set16 (?p @ seg) 28 (internet_checksum (?p @ seg))) = 0"
    by (rule rfc1071.refresh_verifies) (use assms z in auto)
  then have "internet_checksum (?p @ set16 seg 16 (internet_checksum (?p @ seg))) = 0"
    using set16_append [of ?p seg 16] by simp
  then show ?thesis using assms(1) by (simp add: tcp_verify_whole tcp_checksum_whole)
qed

lemma tcp_change_detected:
  assumes "nfs_tcp_verify_checksum a b seg" and "length seg \<le> 131060"
    and "j < length seg" and "x \<noteq> seg ! j"
  shows "\<not> nfs_tcp_verify_checksum a b (seg[j := x])"
proof -
  let ?p = "nfs_ipv4_pseudo_hdr a b 6 (length seg)"
  have "internet_checksum ((?p @ seg)[12 + j := x]) \<noteq> 0"
    by (rule single_byte_change) (use assms in \<open>auto simp: tcp_verify_whole nth_append\<close>)
  then show ?thesis by (simp add: tcp_verify_whole list_update_append)
qed

lemma wsum_pseudo:
  "wsum (nfs_ipv4_pseudo_hdr a b p n @ seg) =
     wsum (u32_mem a) + wsum (u32_mem b) + wsum (drop 8 (nfs_ipv4_pseudo_hdr a b p n) @ seg)"
  by (simp add: nfs_ipv4_pseudo_hdr_def u32_mem_def u16_mem_def)

lemma tcp_readdressed:
  assumes "nfs_tcp_verify_checksum a b seg" and "length seg \<le> 131060"
  shows "nfs_tcp_verify_checksum a' b' seg \<longleftrightarrow>
    (wsum (u32_mem a') + wsum (u32_mem b')) mod 65535 = (wsum (u32_mem a) + wsum (u32_mem b)) mod 65535"
proof -
  let ?r = "\<lambda>a b. drop 8 (nfs_ipv4_pseudo_hdr a b 6 (length seg)) @ seg"
  have r: "?r a' b' = ?r a b"
    by (simp add: nfs_ipv4_pseudo_hdr_def u32_mem_def)
  have pos: "0 < wsum (?r a b)"
    by (simp add: nfs_ipv4_pseudo_hdr_def u32_mem_def)
  have v: "nfs_tcp_verify_checksum c d seg \<longleftrightarrow> (wsum (u32_mem c) + wsum (u32_mem d) + wsum (?r a b)) mod 65535 = 0"
    if "?r c d = ?r a b" for c d
    using assms pos that
    by (simp add: tcp_verify_whole checksum_zero_iff wsum_pseudo)
  define s s' t where st: "s = wsum (u32_mem a) + wsum (u32_mem b)"
    "s' = wsum (u32_mem a') + wsum (u32_mem b')" "t = wsum (?r a b)"
  have 0: "(s + t) mod 65535 = 0" using assms(1) v [of a b] by (simp add: st)
  have "nfs_tcp_verify_checksum a' b' seg \<longleftrightarrow> (s' + t) mod 65535 = (s + t) mod 65535"
    unfolding 0 using v [OF r] by (simp add: st)
  also have "\<dots> \<longleftrightarrow> s' mod 65535 = s mod 65535"
    using mod_add_rcancel mod_add_cong [OF _ refl] by blast
  finally show ?thesis by (simp add: st)
qed

text \<open>
  C5. A TCP segment, from the builder of the header through the checksum over the pseudo-header to
  the receiver: what is built and checksummed verifies and parses to the fields it was built
  from; no change of one of its bytes, header or payload, verifies; and sent to other
  addresses it verifies only if their 16-bit words have the same one's-complement sum.
\<close>
theorem tcp_segment_exchange:
  assumes "nfs_tcp_build sp dp sq ak fl wn sz = Some h" and "length payload \<le> 131040"
    and "seg = set16 (h @ payload) 16 (nfs_tcp_checksum src dst (h @ payload))"
  shows "nfs_tcp_verify_checksum src dst seg \<and>
    nfs_tcp_parse seg = Some \<lparr> th_src_port = sp, th_dst_port = dp, th_seq = sq, th_ack = ak,
      th_data_off_flags = 0x5000 OR (fl AND 0x01FF), th_window = wn,
      th_checksum = nfs_tcp_checksum src dst (h @ payload), th_urgent = 0 \<rparr> \<and>
    (\<forall>j x. j < length seg \<longrightarrow> x \<noteq> seg ! j \<longrightarrow> \<not> nfs_tcp_verify_checksum src dst (seg[j := x])) \<and>
    (\<forall>src' dst'. nfs_tcp_verify_checksum src' dst' seg \<longleftrightarrow>
       (wsum (u32_mem src') + wsum (u32_mem dst')) mod 65535 =
       (wsum (u32_mem src) + wsum (u32_mem dst)) mod 65535)"
proof -
  have len: "length h = 20" using assms(1) by (rule length_tcp_build)
  have "get16 (h @ payload) 16 = 0"
    using assms(1) by (auto simp: nfs_tcp_build_def get_past split: if_splits)
      (simp add: get16_def be16_def)
  then have v: "nfs_tcp_verify_checksum src dst seg"
    using tcp_stored_verifies [of "h @ payload" src dst] len assms(2,3) by simp
  moreover have "length seg \<le> 131060" using len assms(2,3) by simp
  moreover note tcp_parse_segment [OF assms(1), of payload "nfs_tcp_checksum src dst (h @ payload)"]
  ultimately show ?thesis
    using tcp_change_detected tcp_readdressed assms(3) by blast
qed

lemma tcp_segment_exchange_witness:
  "nfs_tcp_verify_checksum 0x0100000A 0x0200000A
     (set16 (the (nfs_tcp_build 1234 80 1 0 2 512 20) @ [1, 2, 3]) 16
        (nfs_tcp_checksum 0x0100000A 0x0200000A (the (nfs_tcp_build 1234 80 1 0 2 512 20) @ [1, 2, 3])))"
proof -
  obtain h where "nfs_tcp_build 1234 80 1 0 2 512 20 = Some h"
    by (simp add: nfs_tcp_build_def NFS_TCP_HDR_MIN_LEN_def)
  then show ?thesis
    using tcp_segment_exchange [of 1234 80 1 0 2 512 20 h "[1, 2, 3]", OF _ _ refl] by simp
qed

text \<open>Fields of a parsed header, and the names of its flags.\<close>

lemma tcp_flags_of_built:
  "nfs_tcp_flags \<lparr> th_src_port = sp, th_dst_port = dp, th_seq = sq, th_ack = ak,
      th_data_off_flags = 0x5000 OR (fl AND 0x01FF), th_window = wn, th_checksum = c, th_urgent = 0 \<rparr>
    = fl AND 0x01FF"
proof -
  have m: "(0x01FF :: u16) = mask 9" by (simp add: mask_eq_exp_minus_1)
  have "(0x5000 :: u16) AND 0x01FF = 0" by simp
  then show ?thesis
    by (simp add: nfs_tcp_flags_def bit.conj_disj_distrib2 and.assoc)
qed

lemma tcp_flag_str_fin_ack: "nfs_tcp_flag_str 0x11 = ''ACK,FIN''" "nfs_tcp_flag_str 0x12 = ''ACK,SYN''"
  by (simp_all add: nfs_tcp_flag_str_def flag_table_def)

section \<open>UDP datagrams\<close>

lemma udp_checksum_ipv4_whole:
  assumes "length src = 4" and "length dst = 4"
  shows "nfs_udp_checksum_ipv4 src dst d =
    (let c = internet_checksum (pseudo_bytes src dst 17 (length d) @ d) in if c = 0 then 0xFFFF else c)"
  using assms by (simp add: nfs_udp_checksum_ipv4_def partial_append internet_checksum_def Let_def)

lemma udp_validate_whole:
  assumes "length src = 4" and "length dst = 4"
  shows "nfs_udp_validate src dst d \<longleftrightarrow> 8 \<le> length d \<and>
    (get16 d 6 = 0 \<or> internet_checksum (pseudo_bytes src dst 17 (length d) @ d) = 0)"
  using assms
  by (auto simp: nfs_udp_validate_def partial_append internet_checksum_def Let_def NFS_UDP_HDR_LEN_def)

text \<open>
  The two UDP checksums of the lessons, one over a pseudo-header written byte by byte and one
  over a packed struct of host integers with the length swapped by hand, are the same
  function, and so are the two verifiers; likewise the checksum of lesson 08 is that of
  \<^verbatim>\<open>common/c\<close>.
\<close>
theorem transport_checksums_agree:
  "nfs_udp_checksum src dst d = nfs_udp_checksum_ipv4 (u32_mem src) (u32_mem dst) d \<and>
   nfs_udp_verify_checksum src dst d = nfs_udp_validate (u32_mem src) (u32_mem dst) d \<and>
   nfs_internet_checksum d = internet_checksum d"
  by (simp add: nfs_udp_checksum_def nfs_udp_checksum_ipv4_def nfs_udp_verify_checksum_def
      nfs_udp_validate_def pseudo_hdr_bytes partial_internal fold_internal nfs_internet_checksum_eq
      NFS_UDP_HDR_LEN_def)

lemma udp_built_image:
  "nfs_udp_build h pay sz = Some d \<Longrightarrow>
     d = put16 (uh_src_port h) @ put16 (uh_dst_port h) @ put16 (uh_length h) @ put16 (uh_checksum h) @ pay"
  by (simp add: nfs_udp_build_def split: if_splits)

lemma udp_parse_datagram:
  assumes "nfs_udp_build h pay sz = Some d" and "8 \<le> unat (uh_length h)"
  shows "nfs_udp_parse (set16 d 6 c) = Some (h\<lparr>uh_checksum := c\<rparr>)"
proof -
  note d = udp_built_image [OF assms(1)]
  have len: "length d = 8 + length pay" by (simp add: d)
  have "get16 d 0 = uh_src_port h" "get16 d 2 = uh_dst_port h" "get16 d 4 = uh_length h"
    unfolding d by (simp_all add: get_past)
  then show ?thesis
    using assms(2) by (simp add: nfs_udp_parse_def Let_def NFS_UDP_HDR_LEN_def len get16_set16_other)
qed

text \<open>Storing 0xFFFF for a computed 0 does not disturb the receiver's sum.\<close>

lemma udp_stored_verifies:
  assumes l: "length src = 4" "length dst = 4" and "8 \<le> length d" and "length d \<le> 131060"
    and "get16 d 6 = 0"
  shows "internet_checksum (pseudo_bytes src dst 17 (length d)
      @ set16 d 6 (nfs_udp_checksum_ipv4 src dst d)) = 0"
proof -
  let ?p = "pseudo_bytes src dst 17 (length d)"
  have lp: "length ?p = 12" using l by simp
  have z: "get16 (?p @ d) 18 = 0" using assms(5) lp by (simp add: get_past)
  have sp: "set16 (?p @ d) 18 x = ?p @ set16 d 6 x" for x
    using set16_append [of ?p d 6 x] lp by simp
  show ?thesis
  proof (cases "internet_checksum (?p @ d) = 0")
    case False
    have "internet_checksum (set16 (?p @ d) 18 (internet_checksum (?p @ d))) = 0"
      by (rule rfc1071.refresh_verifies) (use assms z lp in auto)
    then show ?thesis using False l sp by (simp add: udp_checksum_ipv4_whole Let_def)
  next
    case True
    have b: "length (?p @ d) \<le> 131072" "length (?p @ set16 d 6 0xFFFF) \<le> 131072"
      using assms(4) lp by simp_all
    have "wsum (set16 (?p @ d) 18 0xFFFF) + unat (get16 (?p @ d) 18) = wsum (?p @ d) + unat (0xFFFF :: u16)"
      by (rule wsum_set16) (use assms(3) lp in auto)
    then have "wsum (?p @ set16 d 6 0xFFFF) = wsum (?p @ d) + 65535"
      unfolding z sp by simp
    then have "internet_checksum (?p @ set16 d 6 0xFFFF) = 0"
      using True checksum_zero_iff [OF b(1)] checksum_zero_iff [OF b(2)] by simp
    then show ?thesis using True l by (simp add: udp_checksum_ipv4_whole Let_def)
  qed
qed

text \<open>
  A UDP datagram from the builder to the receiver: with the checksum stored it validates and
  parses to the header it was built from, and a change of one byte is refused unless it
  turns the checksum field into 0, which the receiver takes for a datagram sent without one.
\<close>
theorem udp_datagram_exchange:
  assumes "length src = 4" and "length dst = 4" and "8 \<le> unat (uh_length h)" and "uh_checksum h = 0"
    and "nfs_udp_build h payload sz = Some d" and "length payload \<le> 131052"
    and "dg = set16 d 6 (nfs_udp_checksum_ipv4 src dst d)"
  shows "nfs_udp_validate src dst dg \<and>
    nfs_udp_parse dg = Some (h\<lparr>uh_checksum := nfs_udp_checksum_ipv4 src dst d\<rparr>) \<and>
    (\<forall>j x. j < length dg \<longrightarrow> x \<noteq> dg ! j \<longrightarrow>
       (nfs_udp_validate src dst (dg[j := x]) \<longleftrightarrow> get16 (dg[j := x]) 6 = 0))"
proof -
  note d = udp_built_image [OF assms(5)]
  have len: "length d = 8 + length payload" by (simp add: d)
  have "get16 d 6 = 0" unfolding d assms(4) by (simp add: get_past)
  then have s: "internet_checksum (pseudo_bytes src dst 17 (length d) @ dg) = 0"
    unfolding assms(7) using len assms(6) by (intro udp_stored_verifies assms(1,2)) simp_all
  have "internet_checksum (pseudo_bytes src dst 17 (length d) @ dg[j := x]) \<noteq> 0"
    if "j < length dg" "x \<noteq> dg ! j" for j x
  proof -
    have "internet_checksum ((pseudo_bytes src dst 17 (length d) @ dg)[12 + j := x]) \<noteq> 0"
      by (rule single_byte_change) (use s that assms len in \<open>auto simp: nth_append\<close>)
    then show ?thesis using assms(1,2) by (simp add: list_update_append)
  qed
  then show ?thesis
    using s len assms(1,2,7) udp_parse_datagram [OF assms(5,3)] by (auto simp: udp_validate_whole)
qed

lemma udp_datagram_exchange_witness:
  "nfs_udp_validate [10, 0, 0, 1] [10, 0, 0, 2]
     (set16 (the (nfs_udp_build \<lparr> uh_src_port = 5, uh_dst_port = 53, uh_length = 10, uh_checksum = 0 \<rparr> [7, 8] 64))
        6 (nfs_udp_checksum_ipv4 [10, 0, 0, 1] [10, 0, 0, 2]
             (the (nfs_udp_build \<lparr> uh_src_port = 5, uh_dst_port = 53, uh_length = 10, uh_checksum = 0 \<rparr> [7, 8] 64))))"
proof -
  let ?h = "\<lparr> uh_src_port = 5, uh_dst_port = 53, uh_length = 10, uh_checksum = 0 \<rparr>"
  obtain d where "nfs_udp_build ?h [7, 8] 64 = Some d"
    by (simp add: nfs_udp_build_def NFS_UDP_HDR_LEN_def)
  then show ?thesis
    using udp_datagram_exchange [of "[10, 0, 0, 1]" "[10, 0, 0, 2]" ?h "[7, 8]" 64 d, OF _ _ _ _ _ _ refl]
    by simp
qed

section \<open>What the copies get wrong\<close>

text \<open>
  \<^verbatim>\<open>nfs_checksum_partial\<close> of lesson 08 returns 16 bits of the running sum: its carries are lost, and
  folding its result is not the checksum of the buffer.
\<close>

lemma partial_loses_carries:
  "nfs_checksum_fold (ucast (nfs_checksum_partial [0xFF, 0xFF, 0x00, 0x02] 0)) = 0xFFFE"
  "nfs_internet_checksum [0xFF, 0xFF, 0x00, 0x02] = 0xFFFD"
  by (simp_all add: nfs_checksum_fold_def nfs_checksum_partial_def nfs_internet_checksum_def
      checksum_fold_internal_def fold_carries.simps)

text \<open>
  The UDP parser checks the length field against the header only, not against the bytes received.
\<close>

lemma udp_length_unchecked:
  "nfs_udp_parse [0, 1, 0, 2, 0xFF, 0xFF, 0, 0] =
     Some \<lparr> uh_src_port = 1, uh_dst_port = 2, uh_length = 0xFFFF, uh_checksum = 0 \<rparr>"
  by (simp add: nfs_udp_parse_def NFS_UDP_HDR_LEN_def get16_def be16_def Let_def)

end
