(* ===== verification/Handshake.thy ===== *)
theory Handshake
  imports Segment TcpFsm
begin

text \<open>
  The three-way handshake of \<^verbatim>\<open>phases/04-transport/09-the-three-way-handshake/tcp.c\<close>: the builders
  of the three segments with the contexts they update, the parser, and two contexts that talk
  over a network which may lose, repeat, reorder and delay segments. The initial sequence
  number a builder draws is an argument; \<open>None\<close> is a builder that returns 0, which
  leaves the context as it was.
\<close>

section \<open>Definitions\<close>

record hs_hdr =
  hh_src_port :: u16
  hh_dst_port :: u16
  hh_seq_num :: u32
  hh_ack_num :: u32
  hh_data_off_rsv :: u8
  hh_flags :: u8
  hh_window :: u16
  hh_checksum :: u16
  hh_urgent_ptr :: u16

definition HS_SYN :: u8 where "HS_SYN = 0x02"
definition HS_ACK :: u8 where "HS_ACK = 0x10"

datatype hs_state = HS_CLOSED | HS_SYN_SENT | HS_SYN_RECEIVED | HS_ESTABLISHED

record nfs_tcp_handshake =
  hs_state :: hs_state
  hs_local_seq :: u32
  hs_remote_seq :: u32
  hs_local_port :: u16
  hs_remote_port :: u16

text \<open>The clock reading and the random number are arguments.\<close>

definition nfs_tcp_generate_isn :: "int \<Rightarrow> int \<Rightarrow> int \<Rightarrow> u32" where
  "nfs_tcp_generate_isn tv_sec tv_nsec rand =
     (let t = word_of_int (tv_nsec XOR (tv_sec * 1000000000)) :: u32;
          r = word_of_int rand :: u32
      in t XOR push_bit 16 r XOR drop_bit 16 r)"

definition nfs_tcp_handshake_init :: "u16 \<Rightarrow> u16 \<Rightarrow> nfs_tcp_handshake" where
  "nfs_tcp_handshake_init local_port remote_port =
     \<lparr> hs_state = HS_CLOSED, hs_local_seq = 0, hs_remote_seq = 0,
       hs_local_port = local_port, hs_remote_port = remote_port \<rparr>"

definition hs_parse :: "u8 list \<Rightarrow> hs_hdr option" where
  "hs_parse buf =
     (if length buf < 20 then None
      else
        let out = \<lparr> hh_src_port = get16 buf 0, hh_dst_port = get16 buf 2,
                    hh_seq_num = get32 buf 4, hh_ack_num = get32 buf 8,
                    hh_data_off_rsv = buf ! 12, hh_flags = buf ! 13, hh_window = get16 buf 14,
                    hh_checksum = get16 buf 16, hh_urgent_ptr = get16 buf 18 \<rparr>;
            data_off = drop_bit 4 (hh_data_off_rsv out) AND 0x0F
        in if data_off < 5 then None else Some out)"

definition serialize_hdr :: "hs_hdr \<Rightarrow> u8 list" where
  "serialize_hdr h =
     put16 (hh_src_port h) @ put16 (hh_dst_port h) @ put32 (hh_seq_num h) @ put32 (hh_ack_num h)
     @ [hh_data_off_rsv h, hh_flags h] @ put16 (hh_window h) @ put16 (hh_checksum h)
     @ put16 (hh_urgent_ptr h)"

text \<open>The header all three builders fill in.\<close>

definition hs_header :: "nfs_tcp_handshake \<Rightarrow> u32 \<Rightarrow> u32 \<Rightarrow> u8 \<Rightarrow> hs_hdr" where
  "hs_header ctx seq ack flags =
     \<lparr> hh_src_port = hs_local_port ctx, hh_dst_port = hs_remote_port ctx, hh_seq_num = seq,
       hh_ack_num = ack, hh_data_off_rsv = push_bit 4 5, hh_flags = flags, hh_window = 65535,
       hh_checksum = 0, hh_urgent_ptr = 0 \<rparr>"

definition nfs_tcp_build_syn ::
  "nfs_tcp_handshake \<Rightarrow> u32 \<Rightarrow> nat \<Rightarrow> (nfs_tcp_handshake \<times> u8 list) option" where
  "nfs_tcp_build_syn ctx isn len =
     (if len < 20 then None
      else
        let ctx = ctx\<lparr>hs_local_seq := isn\<rparr>;
            hdr = hs_header ctx (hs_local_seq ctx) 0 HS_SYN
        in Some (ctx\<lparr>hs_state := HS_SYN_SENT\<rparr>, serialize_hdr hdr))"

definition nfs_tcp_build_synack ::
  "nfs_tcp_handshake \<Rightarrow> hs_hdr \<Rightarrow> u32 \<Rightarrow> nat \<Rightarrow> (nfs_tcp_handshake \<times> u8 list) option" where
  "nfs_tcp_build_synack ctx syn_hdr isn len =
     (if len < 20 then None
      else if hh_flags syn_hdr AND HS_SYN = 0 then None
      else
        let ctx = ctx\<lparr>hs_remote_seq := hh_seq_num syn_hdr, hs_local_seq := isn\<rparr>;
            hdr = hs_header ctx (hs_local_seq ctx) (hs_remote_seq ctx + 1) (HS_SYN OR HS_ACK)
        in Some (ctx\<lparr>hs_state := HS_SYN_RECEIVED\<rparr>, serialize_hdr hdr))"

definition nfs_tcp_build_ack ::
  "nfs_tcp_handshake \<Rightarrow> hs_hdr \<Rightarrow> nat \<Rightarrow> (nfs_tcp_handshake \<times> u8 list) option" where
  "nfs_tcp_build_ack ctx synack_hdr len =
     (if len < 20 then None
      else if hh_flags synack_hdr AND (HS_SYN OR HS_ACK) \<noteq> HS_SYN OR HS_ACK then None
      else if hh_ack_num synack_hdr \<noteq> hs_local_seq ctx + 1 then None
      else
        let ctx = ctx\<lparr>hs_remote_seq := hh_seq_num synack_hdr\<rparr>;
            hdr = hs_header ctx (hs_local_seq ctx + 1) (hs_remote_seq ctx + 1) HS_ACK
        in Some (ctx\<lparr>hs_state := HS_ESTABLISHED\<rparr>, serialize_hdr hdr))"

definition nfs_tcp_checksum_pseudo :: "u8 list \<Rightarrow> u8 list \<Rightarrow> u8 list \<Rightarrow> u16" where
  "nfs_tcp_checksum_pseudo src_ip dst_ip tcp_buf =
     (let pseudo = pseudo_bytes src_ip dst_ip 6 (length tcp_buf);
          s = internet_checksum_partial pseudo 0;
          s = internet_checksum_partial tcp_buf s
      in internet_checksum_fold s)"

section \<open>Segments on the wire\<close>

lemma length_serialize [simp]: "length (serialize_hdr h) = 20"
  by (simp add: serialize_hdr_def)

lemma hs_parse_serialize:
  assumes "5 \<le> drop_bit 4 (hh_data_off_rsv h) AND 0x0F"
  shows "hs_parse (serialize_hdr h @ rest) = Some h"
proof -
  let ?b = "serialize_hdr h @ rest"
  have "get16 ?b 0 = hh_src_port h" "get16 ?b 2 = hh_dst_port h" "get32 ?b 4 = hh_seq_num h"
    "get32 ?b 8 = hh_ack_num h" "?b ! 12 = hh_data_off_rsv h" "?b ! 13 = hh_flags h"
    "get16 ?b 14 = hh_window h" "get16 ?b 16 = hh_checksum h" "get16 ?b 18 = hh_urgent_ptr h"
    unfolding serialize_hdr_def by (simp_all add: get_past nth_append)
  then show ?thesis using assms by (simp add: hs_parse_def Let_def not_less)
qed

lemma hs_parse_built [simp]: "hs_parse (serialize_hdr (hs_header c s a f)) = Some (hs_header c s a f)"
  using hs_parse_serialize [of "hs_header c s a f" "[]"] by (simp add: hs_header_def)

lemma hs_header_fields [simp]:
  "hh_seq_num (hs_header c s a f) = s" "hh_ack_num (hs_header c s a f) = a"
  "hh_flags (hs_header c s a f) = f"
  by (simp_all add: hs_header_def)

lemma hs_flag_bits [simp]:
  "HS_SYN AND HS_SYN = HS_SYN" "HS_SYN \<noteq> 0" "(HS_SYN OR HS_ACK) AND HS_SYN = HS_SYN"
  "HS_SYN AND (HS_SYN OR HS_ACK) \<noteq> HS_SYN OR HS_ACK" "HS_ACK AND HS_SYN = 0"
  "HS_ACK AND (HS_SYN OR HS_ACK) \<noteq> HS_SYN OR HS_ACK"
  by (simp_all add: HS_SYN_def HS_ACK_def)

text \<open>
  Two fresh contexts whose ports match: the three segments, each parsed by the other side,
  leave the initiator established, both sides with both initial sequence numbers, and the last
  segment acknowledges the responder's.
\<close>

lemma handshake_runs:
  assumes "20 \<le> len"
  shows "\<exists>c1 b1 h1 s1 b2 h2 c2 b3 h3.
    nfs_tcp_build_syn (nfs_tcp_handshake_init p q) x len = Some (c1, b1) \<and> hs_parse b1 = Some h1 \<and>
    nfs_tcp_build_synack (nfs_tcp_handshake_init q p) h1 y len = Some (s1, b2) \<and> hs_parse b2 = Some h2 \<and>
    nfs_tcp_build_ack c1 h2 len = Some (c2, b3) \<and> hs_parse b3 = Some h3 \<and>
    c2 = \<lparr> hs_state = HS_ESTABLISHED, hs_local_seq = x, hs_remote_seq = y,
           hs_local_port = p, hs_remote_port = q \<rparr> \<and>
    s1 = \<lparr> hs_state = HS_SYN_RECEIVED, hs_local_seq = y, hs_remote_seq = x,
           hs_local_port = q, hs_remote_port = p \<rparr> \<and>
    hh_flags h3 = HS_ACK \<and> hh_seq_num h3 = x + 1 \<and> hh_ack_num h3 = y + 1 \<and>
    hh_src_port h3 = p \<and> hh_dst_port h3 = q"
  using assms
  by (simp add: nfs_tcp_build_syn_def nfs_tcp_build_synack_def nfs_tcp_build_ack_def Let_def not_less
      nfs_tcp_handshake_init_def) (simp add: hs_header_def)

lemmas hs_builders = nfs_tcp_build_syn_def nfs_tcp_build_synack_def nfs_tcp_build_ack_def Let_def

text \<open>
  The handshake of two fresh contexts: SYN, SYN-ACK and ACK, each built by one side and parsed
  by the other, establish the connection with both initial sequence numbers on both sides,
  whatever numbers were drawn; the last segment carries the successors of both.
\<close>
theorem handshake_establishes:
  "\<exists>c1 b1 h1 s1 b2 h2 c2 b3 h3.
    nfs_tcp_build_syn (nfs_tcp_handshake_init p q) x 20 = Some (c1, b1) \<and> hs_parse b1 = Some h1 \<and>
    nfs_tcp_build_synack (nfs_tcp_handshake_init q p) h1 y 20 = Some (s1, b2) \<and> hs_parse b2 = Some h2 \<and>
    nfs_tcp_build_ack c1 h2 20 = Some (c2, b3) \<and> hs_parse b3 = Some h3 \<and>
    c2 = \<lparr> hs_state = HS_ESTABLISHED, hs_local_seq = x, hs_remote_seq = y,
           hs_local_port = p, hs_remote_port = q \<rparr> \<and>
    s1 = \<lparr> hs_state = HS_SYN_RECEIVED, hs_local_seq = y, hs_remote_seq = x,
           hs_local_port = q, hs_remote_port = p \<rparr> \<and>
    hh_flags h3 = HS_ACK \<and> hh_seq_num h3 = x + 1 \<and> hh_ack_num h3 = y + 1 \<and>
    hh_src_port h3 = p \<and> hh_dst_port h3 = q"
  by (rule handshake_runs) simp

section \<open>Two contexts over a network\<close>

text \<open>
  The initiator may start over with a new SYN at any time, the responder answers every SYN that
  arrives, and the network keeps every segment it was given: it may deliver it any number of
  times, in any order, or never. \<open>syns\<close> are the initial numbers the initiator drew, \<open>answers\<close>
  the pairs of the number in a SYN and the one the responder drew to answer it.
\<close>

record hs_world =
  initiator :: nfs_tcp_handshake
  responder :: nfs_tcp_handshake
  to_responder :: "u8 list set"
  to_initiator :: "u8 list set"
  syns :: "u32 set"
  answers :: "(u32 \<times> u32) set"

inductive hs_step :: "hs_world \<Rightarrow> hs_world \<Rightarrow> bool" where
  Connect: "nfs_tcp_build_syn (initiator w) x 20 = Some (c, b) \<Longrightarrow>
    hs_step w (w\<lparr> initiator := c, to_responder := insert b (to_responder w), syns := insert x (syns w) \<rparr>)"
| Answer: "b \<in> to_responder w \<Longrightarrow> hs_parse b = Some h \<Longrightarrow>
    nfs_tcp_build_synack (responder w) h y 20 = Some (c, b') \<Longrightarrow>
    hs_step w (w\<lparr> responder := c, to_initiator := insert b' (to_initiator w),
                  answers := insert (hh_seq_num h, y) (answers w) \<rparr>)"
| Confirm: "b \<in> to_initiator w \<Longrightarrow> hs_parse b = Some h \<Longrightarrow>
    nfs_tcp_build_ack (initiator w) h 20 = Some (c, b') \<Longrightarrow>
    hs_step w (w\<lparr> initiator := c, to_responder := insert b' (to_responder w) \<rparr>)"

definition hs_start :: "u16 \<Rightarrow> u16 \<Rightarrow> hs_world" where
  "hs_start p q = \<lparr> initiator = nfs_tcp_handshake_init p q, responder = nfs_tcp_handshake_init q p,
     to_responder = {}, to_initiator = {}, syns = {}, answers = {} \<rparr>"

inductive hs_reach :: "hs_world \<Rightarrow> hs_world \<Rightarrow> bool" where
  hs_here: "hs_reach w w"
| hs_onward: "hs_reach w v \<Longrightarrow> hs_step v u \<Longrightarrow> hs_reach w u"

text \<open>What every segment under way stands for, and what each side knows.\<close>

definition sent_by_initiator :: "hs_world \<Rightarrow> hs_hdr \<Rightarrow> bool" where
  "sent_by_initiator w h \<longleftrightarrow>
     (hh_flags h = HS_SYN \<and> hh_seq_num h \<in> syns w) \<or>
     (hh_flags h = HS_ACK \<and> (hh_seq_num h - 1, hh_ack_num h - 1) \<in> answers w)"

definition sent_by_responder :: "hs_world \<Rightarrow> hs_hdr \<Rightarrow> bool" where
  "sent_by_responder w h \<longleftrightarrow>
     hh_flags h = HS_SYN OR HS_ACK \<and> (hh_ack_num h - 1, hh_seq_num h) \<in> answers w"

definition hs_inv :: "hs_world \<Rightarrow> bool" where
  "hs_inv w \<longleftrightarrow>
     (\<forall>b \<in> to_responder w. \<exists>h. hs_parse b = Some h \<and> sent_by_initiator w h) \<and>
     (\<forall>b \<in> to_initiator w. \<exists>h. hs_parse b = Some h \<and> sent_by_responder w h) \<and>
     fst ` answers w \<subseteq> syns w \<and>
     (hs_state (initiator w) = HS_ESTABLISHED \<longrightarrow>
        (hs_local_seq (initiator w), hs_remote_seq (initiator w)) \<in> answers w) \<and>
     (hs_state (responder w) = HS_SYN_RECEIVED \<longrightarrow>
        (hs_remote_seq (responder w), hs_local_seq (responder w)) \<in> answers w)"

lemma hs_inv_start: "hs_inv (hs_start p q)"
  by (simp add: hs_inv_def hs_start_def nfs_tcp_handshake_init_def)

lemma hs_inv_connect:
  assumes "hs_inv w" and "nfs_tcp_build_syn (initiator w) x 20 = Some (c, b)"
  shows "hs_inv (w\<lparr> initiator := c, to_responder := insert b (to_responder w), syns := insert x (syns w) \<rparr>)"
  using assms
  by (auto simp: hs_inv_def hs_builders sent_by_initiator_def sent_by_responder_def)

lemma hs_inv_answer:
  assumes "hs_inv w" and "b \<in> to_responder w" and "hs_parse b = Some h"
    and "nfs_tcp_build_synack (responder w) h y 20 = Some (c, b')"
  shows "hs_inv (w\<lparr> responder := c, to_initiator := insert b' (to_initiator w),
                  answers := insert (hh_seq_num h, y) (answers w) \<rparr>)"
proof -
  have "hh_flags h AND HS_SYN \<noteq> 0" using assms(4) by (auto simp: hs_builders split: if_splits)
  moreover have "sent_by_initiator w h" using assms(1-3) by (auto simp: hs_inv_def)
  ultimately have "hh_seq_num h \<in> syns w" by (auto simp: sent_by_initiator_def)
  then show ?thesis using assms
    by (auto simp: hs_inv_def hs_builders sent_by_initiator_def sent_by_responder_def split: if_splits)
qed

lemma hs_inv_confirm:
  assumes "hs_inv w" and "b \<in> to_initiator w" and "hs_parse b = Some h"
    and "nfs_tcp_build_ack (initiator w) h 20 = Some (c, b')"
  shows "hs_inv (w\<lparr> initiator := c, to_responder := insert b' (to_responder w) \<rparr>)"
proof -
  have "sent_by_responder w h" using assms(1-3) by (auto simp: hs_inv_def)
  then show ?thesis using assms
    by (auto simp: hs_inv_def hs_builders sent_by_initiator_def sent_by_responder_def split: if_splits)
qed

lemma hs_inv_step: "hs_step w v \<Longrightarrow> hs_inv w \<Longrightarrow> hs_inv v"
  by (cases rule: hs_step.cases) (auto intro: hs_inv_connect hs_inv_answer hs_inv_confirm)

lemma hs_inv_reach: "hs_reach w v \<Longrightarrow> hs_inv w \<Longrightarrow> hs_inv v"
  by (induction rule: hs_reach.induct) (auto intro: hs_inv_step)

text \<open>
  C4. Over a network that may lose, repeat, reorder and delay segments, with the initiator starting
  over and the responder answering as often as they like: an initiator that is established has
  the initial sequence number the responder drew for exactly the SYN whose number the
  initiator holds; and, if the responder never drew a number twice, an ACK under way that
  acknowledges the number it holds now comes from the SYN it holds now.
\<close>
theorem handshake_agreement:
  assumes "hs_reach (hs_start p q) w"
  shows "(hs_state (initiator w) = HS_ESTABLISHED \<longrightarrow>
      hs_local_seq (initiator w) \<in> syns w \<and>
      (hs_local_seq (initiator w), hs_remote_seq (initiator w)) \<in> answers w) \<and>
    (\<forall>b \<in> to_responder w. \<forall>h. hs_parse b = Some h \<longrightarrow> hh_flags h = HS_ACK \<longrightarrow>
      hs_state (responder w) = HS_SYN_RECEIVED \<longrightarrow> inj_on snd (answers w) \<longrightarrow>
      hh_ack_num h = hs_local_seq (responder w) + 1 \<longrightarrow>
      hh_seq_num h = hs_remote_seq (responder w) + 1)"
proof -
  have inv: "hs_inv w" using assms hs_inv_start by (rule hs_inv_reach)
  have "hh_seq_num h = hs_remote_seq (responder w) + 1"
    if "b \<in> to_responder w" "hs_parse b = Some h" "hh_flags h = HS_ACK"
      "hs_state (responder w) = HS_SYN_RECEIVED" "inj_on snd (answers w)"
      "hh_ack_num h = hs_local_seq (responder w) + 1" for b h
  proof -
    have "sent_by_initiator w h" using inv that(1,2) by (auto simp: hs_inv_def)
    then have "(hh_seq_num h - 1, hs_local_seq (responder w)) \<in> answers w"
      using that(3,6) by (auto simp: sent_by_initiator_def HS_SYN_def HS_ACK_def)
    moreover have "(hs_remote_seq (responder w), hs_local_seq (responder w)) \<in> answers w"
      using inv that(4) by (simp add: hs_inv_def)
    ultimately have "hh_seq_num h - 1 = hs_remote_seq (responder w)"
      using that(5) unfolding inj_on_def by fastforce
    then show ?thesis by (simp add: diff_eq_eq)
  qed
  then show ?thesis using inv by (force simp: hs_inv_def)
qed

lemma handshake_agreement_witness:
  "\<exists>w. hs_reach (hs_start 1 2) w \<and> hs_state (initiator w) = HS_ESTABLISHED \<and> (7, 9) \<in> answers w"
proof -
  obtain c1 b1 h1 s1 b2 h2 c2 b3 h3 where
    b: "nfs_tcp_build_syn (nfs_tcp_handshake_init 1 2) 7 20 = Some (c1, b1)" "hs_parse b1 = Some h1"
      "nfs_tcp_build_synack (nfs_tcp_handshake_init 2 1) h1 9 20 = Some (s1, b2)" "hs_parse b2 = Some h2"
      "nfs_tcp_build_ack c1 h2 20 = Some (c2, b3)"
    and c2: "c2 = \<lparr> hs_state = HS_ESTABLISHED, hs_local_seq = 7, hs_remote_seq = 9,
           hs_local_port = 1, hs_remote_port = 2 \<rparr>"
    using handshake_runs [of 20 1 2 7 9] by auto
  define w1 where "w1 = (hs_start 1 2)\<lparr> initiator := c1, to_responder := {b1}, syns := {7} \<rparr>"
  define w2 where "w2 = w1\<lparr> responder := s1, to_initiator := {b2}, answers := {(hh_seq_num h1, 9)} \<rparr>"
  define w3 where "w3 = w2\<lparr> initiator := c2, to_responder := {b3, b1} \<rparr>"
  have "hs_step (hs_start 1 2) w1"
    using Connect [of "hs_start 1 2" 7 c1 b1] b by (simp add: w1_def hs_start_def)
  moreover have "hs_step w1 w2"
    using Answer [of b1 w1 h1 9 s1 b2] b by (simp add: w1_def w2_def hs_start_def)
  moreover have "hs_step w2 w3"
    using Confirm [of b2 w2 h2 c2 b3] b by (simp add: w1_def w2_def w3_def hs_start_def)
  ultimately have r: "hs_reach (hs_start 1 2) w3"
    by (blast intro: hs_reach.intros)
  have "hs_state (initiator w3) = HS_ESTABLISHED" by (simp add: w3_def c2)
  with handshake_agreement [OF r] have "(7, 9) \<in> answers w3"
    by (simp add: w3_def c2)
  with r \<open>hs_state (initiator w3) = HS_ESTABLISHED\<close> show ?thesis by blast
qed

section \<open>The handshake and the state machine\<close>

text \<open>
  Where the state machine of lesson 10 has the event, the builders move between the same states
  and send what its action says.
\<close>

fun fsm_of_hs :: "hs_state \<Rightarrow> nfs_tcp_state" where
  "fsm_of_hs HS_CLOSED = NFS_TCP_CLOSED"
| "fsm_of_hs HS_SYN_SENT = NFS_TCP_SYN_SENT"
| "fsm_of_hs HS_SYN_RECEIVED = NFS_TCP_SYN_RCVD"
| "fsm_of_hs HS_ESTABLISHED = NFS_TCP_ESTABLISHED"

lemma builders_follow_table:
  "nfs_tcp_build_syn c x len = Some (c', b) \<Longrightarrow> hs_state c = HS_CLOSED \<Longrightarrow>
     fsm_table (fsm_of_hs (hs_state c)) NFS_TCP_EV_OPEN_ACTIVE =
       Some (fsm_of_hs (hs_state c'), NFS_TCP_ACT_SEND_SYN)"
  "nfs_tcp_build_ack c h len = Some (c', b) \<Longrightarrow> hs_state c = HS_SYN_SENT \<Longrightarrow>
     fsm_table (fsm_of_hs (hs_state c)) NFS_TCP_EV_RECV_SYNACK =
       Some (fsm_of_hs (hs_state c'), NFS_TCP_ACT_SEND_ACK)"
  "nfs_tcp_build_synack c h x len = Some (c', b) \<Longrightarrow>
     fsm_table NFS_TCP_LISTEN NFS_TCP_EV_RECV_SYN =
       Some (fsm_of_hs (hs_state c'), NFS_TCP_ACT_SEND_SYNACK)"
  by (auto simp: hs_builders fsm_table_def split: if_splits)

section \<open>The checksum\<close>

lemma tcp_checksum_copies:
  "nfs_tcp_checksum_pseudo (u32_mem src) (u32_mem dst) seg = nfs_tcp_checksum src dst seg"
  by (simp add: nfs_tcp_checksum_pseudo_def nfs_tcp_checksum_def pseudo_hdr_bytes partial_internal
      fold_internal)

text \<open>The value is a number to be stored high byte first: it is in host order.\<close>

lemma hs_checksum_stored:
  "nfs_tcp_verify_checksum src dst
     (set16 (serialize_hdr (hs_header c s a f)) 16
        (nfs_tcp_checksum_pseudo (u32_mem src) (u32_mem dst) (serialize_hdr (hs_header c s a f))))"
proof -
  have "get16 (serialize_hdr (hs_header c s a f)) 16 = 0"
    by (simp add: serialize_hdr_def hs_header_def get_past)
  then show ?thesis unfolding tcp_checksum_copies by (intro tcp_stored_verifies) simp_all
qed

section \<open>What the builders do not check\<close>

text \<open>A SYN-ACK is answered as if it were a SYN.\<close>

lemma synack_to_synack:
  assumes "20 \<le> len" and "hh_flags h = HS_SYN OR HS_ACK"
  shows "nfs_tcp_build_synack c h x len \<noteq> None"
  using assms by (simp add: hs_builders)

text \<open>A context that never sent a SYN is established by a SYN-ACK that acknowledges 1.\<close>

lemma established_without_syn:
  assumes "20 \<le> len" and "hh_flags h = HS_SYN OR HS_ACK" and "hh_ack_num h = 1"
  shows "\<exists>c b. nfs_tcp_build_ack (nfs_tcp_handshake_init p q) h len = Some (c, b) \<and>
    hs_state c = HS_ESTABLISHED"
  using assms by (simp add: hs_builders nfs_tcp_handshake_init_def)

text \<open>
  An established context takes the number of a second SYN-ACK in place of the first one's.
\<close>

lemma established_overwritten:
  assumes "20 \<le> len" and "hh_flags h = HS_SYN OR HS_ACK" and "hh_ack_num h = hs_local_seq c + 1"
    and "hs_state c = HS_ESTABLISHED"
  shows "\<exists>c' b. nfs_tcp_build_ack c h len = Some (c', b) \<and> hs_remote_seq c' = hh_seq_num h"
  using assms by (simp add: hs_builders)

end
