(* ===== verification/TcpOpts.thy ===== *)
theory TcpOpts
  imports Sack
begin

text \<open>
  TCP options: the parser and the builders of
  \<^verbatim>\<open>phases/04-transport/15-tcp-options-encoderdecoder/tcp_opts.c\<close> and the window scaling of
  \<^verbatim>\<open>14-window-scaling-option-rfc-7323/wscale.c\<close>. \<open>tcp_opt\<close> is what an option says and
  \<open>enc_opt\<close> its bytes on the wire; the parser is specified by them, and the builders of lessons 14,
  15 and 19 are shown to write them. The member of the union the parser fills in is a value
  of \<open>opt_data\<close>, \<open>NoData\<close> where it fills in none.
\<close>

section \<open>The parser\<close>

definition NFS_TCPOPT_EOL :: u8 where "NFS_TCPOPT_EOL = 0"
definition NFS_TCPOPT_NOP :: u8 where "NFS_TCPOPT_NOP = 1"
definition NFS_TCPOPT_MSS :: u8 where "NFS_TCPOPT_MSS = 2"
definition NFS_TCPOPT_WSCALE :: u8 where "NFS_TCPOPT_WSCALE = 3"
definition NFS_TCPOPT_SACK_PERM :: u8 where "NFS_TCPOPT_SACK_PERM = 4"
definition NFS_TCPOPT_SACK :: u8 where "NFS_TCPOPT_SACK = 5"
definition NFS_TCPOPT_TIMESTAMPS :: u8 where "NFS_TCPOPT_TIMESTAMPS = 8"
definition NFS_TCPOPT_MAX_SACK_BLOCKS :: nat where "NFS_TCPOPT_MAX_SACK_BLOCKS = 4"

lemmas opt_kinds = NFS_TCPOPT_EOL_def NFS_TCPOPT_NOP_def NFS_TCPOPT_MSS_def NFS_TCPOPT_WSCALE_def
  NFS_TCPOPT_SACK_PERM_def NFS_TCPOPT_SACK_def NFS_TCPOPT_TIMESTAMPS_def

datatype opt_data =
    NoData
  | MssData u16
  | WscaleData u8
  | TimestampsData u32 u32
  | SackData "u32 list" nat

record nfs_tcp_option =
  opt_kind :: u8
  opt_length :: u8
  opt_data :: opt_data

text \<open>The loop over the blocks of a SACK option.\<close>

fun sack_blocks :: "u8 list \<Rightarrow> nat \<Rightarrow> nat \<Rightarrow> u32 list" where
  "sack_blocks data pos 0 = []"
| "sack_blocks data pos (Suc n) =
     sack_blocks data pos n @ [get32 data (pos + 2 + n * 8), get32 data (pos + 2 + n * 8 + 4)]"

text \<open>The \<^verbatim>\<open>switch\<close> on the kind.\<close>

definition opt_value :: "u8 list \<Rightarrow> nat \<Rightarrow> u8 \<Rightarrow> nat \<Rightarrow> opt_data option" where
  "opt_value data pos kind opt_len =
     (if kind = NFS_TCPOPT_MSS then
        (if opt_len \<noteq> 4 then None else Some (MssData (get16 data (pos + 2))))
      else if kind = NFS_TCPOPT_WSCALE then
        (if opt_len \<noteq> 3 then None else Some (WscaleData (data ! (pos + 2))))
      else if kind = NFS_TCPOPT_SACK_PERM then
        (if opt_len \<noteq> 2 then None else Some NoData)
      else if kind = NFS_TCPOPT_SACK then
        (let block_bytes = opt_len - 2 in
         if block_bytes mod 8 \<noteq> 0 then None
         else
           let nblocks = block_bytes div 8 in
           if nblocks > NFS_TCPOPT_MAX_SACK_BLOCKS then None
           else Some (SackData (sack_blocks data pos nblocks) nblocks))
      else if kind = NFS_TCPOPT_TIMESTAMPS then
        (if opt_len \<noteq> 10 then None
         else Some (TimestampsData (get32 data (pos + 2)) (get32 data (pos + 6))))
      else Some NoData)"

text \<open>The body of the loop after the test for the end of the list: the option and its extent.\<close>

definition parse_opt :: "u8 list \<Rightarrow> nat \<Rightarrow> (nfs_tcp_option \<times> nat) option" where
  "parse_opt data pos =
     (let kind = data ! pos in
      if kind = NFS_TCPOPT_NOP then
        Some (\<lparr> opt_kind = NFS_TCPOPT_NOP, opt_length = 1, opt_data = NoData \<rparr>, 1)
      else if length data \<le> pos + 1 then None
      else
        let opt_len = data ! (pos + 1) in
        if opt_len < 2 then None
        else if length data < pos + unat opt_len then None
        else
          (case opt_value data pos kind (unat opt_len) of
             None \<Rightarrow> None
           | Some v \<Rightarrow> Some (\<lparr> opt_kind = kind, opt_length = opt_len, opt_data = v \<rparr>, unat opt_len)))"

lemma parse_opt_extent: "parse_opt data pos = Some (opt, k) \<Longrightarrow> 0 < k"
  by (auto simp: parse_opt_def Let_def word_less_nat_alt split: if_splits option.splits)

function opts_run :: "u8 list \<Rightarrow> nat \<Rightarrow> nat \<Rightarrow> nfs_tcp_option list \<Rightarrow> nfs_tcp_option list option" where
  "opts_run data max_opts pos opts =
     (if pos < length data \<and> length opts < max_opts then
        if data ! pos = NFS_TCPOPT_EOL then Some opts
        else
          (case parse_opt data pos of
             None \<Rightarrow> None
           | Some (opt, k) \<Rightarrow> opts_run data max_opts (pos + k) (opts @ [opt]))
      else Some opts)"
  by pat_completeness auto
termination
  by (relation "measure (\<lambda>(data, max_opts, pos, opts). length data - pos)")
    (auto dest: parse_opt_extent)

declare opts_run.simps [simp del]

definition nfs_tcp_opts_parse :: "u8 list \<Rightarrow> nat \<Rightarrow> nfs_tcp_option list option" where
  "nfs_tcp_opts_parse data max_opts = opts_run data max_opts 0 []"

section \<open>The builders\<close>

definition nfs_tcp_opts_build_mss :: "u16 \<Rightarrow> nat \<Rightarrow> u8 list option" where
  "nfs_tcp_opts_build_mss mss out_sz =
     (if out_sz < 4 then None else Some ([NFS_TCPOPT_MSS, 4] @ put16 mss))"

definition nfs_tcp_opts_build_wscale :: "u8 \<Rightarrow> nat \<Rightarrow> u8 list option" where
  "nfs_tcp_opts_build_wscale shift out_sz =
     (if out_sz < 3 then None else Some [NFS_TCPOPT_WSCALE, 3, shift])"

definition nfs_tcp_opts_build_timestamps :: "u32 \<Rightarrow> u32 \<Rightarrow> nat \<Rightarrow> u8 list option" where
  "nfs_tcp_opts_build_timestamps ts_val ts_ecr out_sz =
     (if out_sz < 10 then None
      else Some ([NFS_TCPOPT_TIMESTAMPS, 10] @ put32 ts_val @ put32 ts_ecr))"

definition nfs_tcp_opts_build_sack_perm :: "nat \<Rightarrow> u8 list option" where
  "nfs_tcp_opts_build_sack_perm out_sz =
     (if out_sz < 2 then None else Some [NFS_TCPOPT_SACK_PERM, 2])"

text \<open>The options in the buffer followed by the padding the code writes after them.\<close>

definition nfs_tcp_opts_pad :: "u8 list \<Rightarrow> u8 list" where
  "nfs_tcp_opts_pad opts =
     (let aligned = push_bit 2 (drop_bit 2 (length opts + 3));
          pad = aligned - length opts
      in if pad = 0 then opts
         else opts @ NFS_TCPOPT_EOL # replicate (pad - 1) NFS_TCPOPT_NOP)"

section \<open>Window scaling\<close>

definition NFS_WSCALE_MAX :: u8 where "NFS_WSCALE_MAX = 14"
definition NFS_WSCALE_OPT_KIND :: u8 where "NFS_WSCALE_OPT_KIND = 3"
definition NFS_WSCALE_OPT_LEN :: u8 where "NFS_WSCALE_OPT_LEN = 3"

definition nfs_wscale_apply :: "u16 \<Rightarrow> u8 \<Rightarrow> u32" where
  "nfs_wscale_apply window shift =
     (let shift = (if shift > NFS_WSCALE_MAX then NFS_WSCALE_MAX else shift)
      in push_bit (unat shift) (ucast window))"

definition nfs_wscale_compress :: "u32 \<Rightarrow> u8 \<Rightarrow> u16" where
  "nfs_wscale_compress real_window shift =
     (let shift = (if shift > NFS_WSCALE_MAX then NFS_WSCALE_MAX else shift);
          val = drop_bit (unat shift) real_window
      in if val > 0xFFFF then 0xFFFF else ucast val)"

function wscale_run :: "u32 \<Rightarrow> u8 \<Rightarrow> u8" where
  "wscale_run w shift =
     (if w > 0xFFFF \<and> shift < NFS_WSCALE_MAX then wscale_run (drop_bit 1 w) (shift + 1) else shift)"
  by pat_completeness auto
termination
  by (relation "measure (\<lambda>(w, shift). 14 - unat shift)")
    (auto simp: NFS_WSCALE_MAX_def word_less_nat_alt unat_word_ariths)

declare wscale_run.simps [simp del]

definition nfs_wscale_compute :: "u32 \<Rightarrow> u8" where
  "nfs_wscale_compute desired_window =
     (if desired_window \<le> 0xFFFF then 0 else wscale_run desired_window 0)"

definition nfs_wscale_valid :: "u8 \<Rightarrow> bool" where
  "nfs_wscale_valid shift \<longleftrightarrow> shift \<le> NFS_WSCALE_MAX"

definition nfs_wscale_build_option :: "u8 \<Rightarrow> nat \<Rightarrow> u8 list option" where
  "nfs_wscale_build_option shift out_sz =
     (if out_sz < 3 then None
      else if shift > NFS_WSCALE_MAX then None
      else Some [NFS_WSCALE_OPT_KIND, NFS_WSCALE_OPT_LEN, shift])"

definition nfs_wscale_parse_option :: "u8 list \<Rightarrow> u8 option" where
  "nfs_wscale_parse_option data =
     (if length data < 3 then None
      else if data ! 0 \<noteq> NFS_WSCALE_OPT_KIND then None
      else if data ! 1 \<noteq> NFS_WSCALE_OPT_LEN then None
      else Some (data ! 2))"

section \<open>What an option says and how it is written\<close>

datatype tcp_opt =
    Nop
  | Mss u16
  | WScale u8
  | SackPermitted
  | SackRanges "u32 list"
  | Timestamps u32 u32
  | OtherOpt u8 "u8 list"

fun enc_opt :: "tcp_opt \<Rightarrow> u8 list" where
  "enc_opt Nop = [1]"
| "enc_opt (Mss m) = [2, 4] @ put16 m"
| "enc_opt (WScale s) = [3, 3, s]"
| "enc_opt SackPermitted = [4, 2]"
| "enc_opt (SackRanges ws) = [5, of_nat (2 + 4 * length ws)] @ concat (map put32 ws)"
| "enc_opt (Timestamps v e) = [8, 10] @ put32 v @ put32 e"
| "enc_opt (OtherOpt k body) = [k, of_nat (2 + length body)] @ body"

text \<open>At most four ranges of two numbers; other kinds are those without a meaning of their own.\<close>

fun valid_opt :: "tcp_opt \<Rightarrow> bool" where
  "valid_opt (SackRanges ws) \<longleftrightarrow> even (length ws) \<and> length ws \<le> 8"
| "valid_opt (OtherOpt k body) \<longleftrightarrow> k \<notin> {0, 1, 2, 3, 4, 5, 8} \<and> length body \<le> 253"
| "valid_opt _ \<longleftrightarrow> True"

fun view_opt :: "tcp_opt \<Rightarrow> nfs_tcp_option" where
  "view_opt Nop = \<lparr> opt_kind = 1, opt_length = 1, opt_data = NoData \<rparr>"
| "view_opt (Mss m) = \<lparr> opt_kind = 2, opt_length = 4, opt_data = MssData m \<rparr>"
| "view_opt (WScale s) = \<lparr> opt_kind = 3, opt_length = 3, opt_data = WscaleData s \<rparr>"
| "view_opt SackPermitted = \<lparr> opt_kind = 4, opt_length = 2, opt_data = NoData \<rparr>"
| "view_opt (SackRanges ws) =
     \<lparr> opt_kind = 5, opt_length = of_nat (2 + 4 * length ws), opt_data = SackData ws (length ws div 2) \<rparr>"
| "view_opt (Timestamps v e) = \<lparr> opt_kind = 8, opt_length = 10, opt_data = TimestampsData v e \<rparr>"
| "view_opt (OtherOpt k body) =
     \<lparr> opt_kind = k, opt_length = of_nat (2 + length body), opt_data = NoData \<rparr>"

subsection \<open>Runs of 32-bit words\<close>

definition words_at :: "u8 list \<Rightarrow> nat \<Rightarrow> nat \<Rightarrow> u32 list" where
  "words_at bs i n = map (\<lambda>k. get32 bs (i + 4 * k)) [0..<n]"

lemma sack_blocks_words: "sack_blocks bs pos n = words_at bs (pos + 2) (2 * n)"
  by (induction n) (simp_all add: words_at_def algebra_simps)

lemma length_put32s [simp]: "length (concat (map put32 ws)) = 4 * length ws"
  by (induction ws) simp_all

lemma words_at_Suc: "words_at bs i (Suc n) = get32 bs i # words_at bs (i + 4) n"
  by (rule nth_equalityI) (auto simp: words_at_def nth_Cons algebra_simps simp del: upt_Suc split: nat.split)

lemma words_at_put32s: "words_at (pre @ concat (map put32 ws) @ rest) (length pre) (length ws) = ws"
proof (induction ws arbitrary: pre)
  case (Cons w ws)
  show ?case
    using Cons.IH [of "pre @ put32 w"] get32_append_put32 [of "length pre" pre w]
    by (simp add: words_at_Suc)
qed (simp add: words_at_def)

lemma put32_get32:
  "i + 4 \<le> length bs \<Longrightarrow> put32 (get32 bs i) = take 4 (drop i bs)"
  by (simp add: get32_def put32_def drop_nth_Cons numeral_eq_Suc)

lemma put32s_words_at:
  "i + 4 * n \<le> length bs \<Longrightarrow> concat (map put32 (words_at bs i n)) = take (4 * n) (drop i bs)"
proof (induction n arbitrary: i)
  case (Suc n)
  have "take (4 * Suc n) (drop i bs) = take 4 (drop i bs) @ take (4 * n) (drop (i + 4) bs)"
    using take_add [of 4 "4 * n" "drop i bs"] by (simp add: add.commute)
  with Suc show ?case by (simp add: words_at_Suc put32_get32)
qed (simp add: words_at_def)

section \<open>One option\<close>

text \<open>Reading an option back where it was written.\<close>

lemma parse_opt_at:
  assumes "valid_opt t"
  shows "parse_opt (pre @ enc_opt t @ rest) (length pre) = Some (view_opt t, length (enc_opt t))"
proof -
  have g: "get16 (pre @ a # b # bs) (length pre + 2) = get16 bs 0"
    "get32 (pre @ a # b # bs) (length pre + 2) = get32 bs 0"
    "get32 (pre @ a # b # bs) (length pre + 6) = get32 bs 4" for a b bs
    by (simp_all add: get_past)
  show ?thesis
  proof (cases t)
    case (SackRanges ws)
    have n: "length ws \<le> 8" "even (length ws)" using assms SackRanges by simp_all
    have u: "unat (of_nat (2 + 4 * length ws) :: u8) = 2 + 4 * length ws"
      using n by (intro unat_of_nat_u8) simp
    have d: "(4 * length ws) div 8 = length ws div 2" "(4 * length ws) mod 8 = 0" "2 * (length ws div 2) = length ws"
      using n by presburger+
    have m: "\<not> 4 < length ws div 2" using n by presburger
    let ?b = "pre @ enc_opt t @ rest"
    have b: "?b = (pre @ [5, of_nat (2 + 4 * length ws)]) @ concat (map put32 ws) @ rest"
      using SackRanges by simp
    have "words_at ?b (length pre + 2) (length ws) = ws"
      unfolding b using words_at_put32s [of "pre @ [5, of_nat (2 + 4 * length ws)]" ws rest] by simp
    then have v: "opt_value ?b (length pre) 5 (2 + 4 * length ws) = Some (SackData ws (length ws div 2))"
      using n d m by (simp add: opt_value_def opt_kinds NFS_TCPOPT_MAX_SACK_BLOCKS_def sack_blocks_words Let_def)
    have k: "?b ! length pre = 5" "?b ! (length pre + 1) = of_nat (2 + 4 * length ws)"
      using SackRanges by (simp_all add: nth_append)
    show ?thesis
      unfolding parse_opt_def Let_def k u word_less_nat_alt
      using v SackRanges n by (simp add: opt_kinds)
  next
    case (OtherOpt k body)
    have n: "length body \<le> 253" "k \<notin> {0, 1, 2, 3, 4, 5, 8}" using assms OtherOpt by simp_all
    have u: "unat (of_nat (2 + length body) :: u8) = 2 + length body"
      using n by (intro unat_of_nat_u8) simp
    let ?b = "pre @ enc_opt t @ rest"
    have k: "?b ! length pre = k" "?b ! (length pre + 1) = of_nat (2 + length body)"
      using OtherOpt by (simp_all add: nth_append)
    show ?thesis
      unfolding parse_opt_def Let_def k u word_less_nat_alt
      using OtherOpt n by (simp add: opt_kinds opt_value_def)
  qed (simp_all add: parse_opt_def opt_value_def opt_kinds nth_append Let_def g get_past
      NFS_TCPOPT_MAX_SACK_BLOCKS_def)
qed

interpretation tcp_options: located_codec enc_opt parse_opt view_opt valid_opt
  by unfold_locales (rule parse_opt_at)

text \<open>And every option that is read was written so.\<close>

lemma parse_opt_suffix:
  assumes "pos < length data"
  shows "parse_opt data pos = parse_opt (drop pos data) 0"
proof -
  have v: "opt_value data pos k n = opt_value (drop pos data) 0 k n" if "pos + n \<le> length data" for k n
    using assms that
    by (auto simp: opt_value_def Let_def get16_def get32_def sack_blocks_words words_at_def ac_simps)
  have l: "length data \<le> pos + n \<longleftrightarrow> length (drop pos data) \<le> 0 + n"
    "length data < pos + n \<longleftrightarrow> length (drop pos data) < 0 + n" for n
    using assms by auto
  show ?thesis
    unfolding parse_opt_def Let_def l using assms v by (auto simp: not_less split: option.split)
qed

lemma put16_get16: "i + 2 \<le> length bs \<Longrightarrow> put16 (get16 bs i) = take 2 (drop i bs)"
  by (simp add: get16_def put16_def drop_nth_Cons numeral_eq_Suc)

lemma opt_value_sound:
  assumes "opt_value bs 0 k n = Some v" and "bs = k # of_nat n # r" and "2 \<le> n" and "n < 256"
    and "n \<le> length bs" and "k \<noteq> 0" and "k \<noteq> 1"
  shows "\<exists>t. valid_opt t \<and> view_opt t = \<lparr> opt_kind = k, opt_length = of_nat n, opt_data = v \<rparr> \<and>
    enc_opt t = take n bs"
proof -
  have tk: "take n bs = [k, of_nat n] @ take (n - 2) r"
    using assms(2,3) by (cases n; cases "n - 1") auto
  have lr: "n - 2 \<le> length r" using assms(2,5) by simp
  have g: "get32 bs 2 = get32 r 0" "get32 bs 6 = get32 r 4" "get16 bs 2 = get16 r 0" "bs ! 2 = r ! 0"
    using assms(2) by (simp_all add: get_past)
  note g = g g(1,3,4) [unfolded numeral_2_eq_2]
  consider "k = 2" | "k = 3" | "k = 4" | "k = 5" | "k = 8" | "k \<notin> {0, 1, 2, 3, 4, 5, 8}"
    using assms(6,7) by blast
  then show ?thesis
  proof cases
    case 1
    then have "n = 4" "v = MssData (get16 r 0)"
      using assms(1) by (auto simp: opt_value_def opt_kinds g split: if_splits)
    then show ?thesis using 1 tk lr put16_get16 [of 0 r] by (intro exI [of _ "Mss (get16 r 0)"]) simp
  next
    case 2
    then have "n = 3" "v = WscaleData (r ! 0)"
      using assms(1) by (auto simp: opt_value_def opt_kinds g split: if_splits)
    then show ?thesis using 2 tk lr drop_nth_Cons [of 0 r]
      by (intro exI [of _ "WScale (r ! 0)"]) (cases r; simp)
  next
    case 3
    then have "n = 2" "v = NoData"
      using assms(1) by (auto simp: opt_value_def opt_kinds split: if_splits)
    then show ?thesis using 3 tk by (intro exI [of _ SackPermitted]) simp
  next
    case 4
    define m where "m = (n - 2) div 8"
    have m: "n - 2 = 8 * m" "m \<le> 4" "v = SackData (sack_blocks bs 0 m) m"
      using 4 assms(1)
      by (auto simp: opt_value_def opt_kinds NFS_TCPOPT_MAX_SACK_BLOCKS_def Let_def m_def split: if_splits)
    define ws where "ws = words_at bs 2 (2 * m)"
    have ws: "length ws = 2 * m" "sack_blocks bs 0 m = ws"
      by (simp_all add: ws_def words_at_def sack_blocks_words)
    have "concat (map put32 ws) = take (8 * m) (drop 2 bs)"
      unfolding ws_def using assms(3,5) m(1) put32s_words_at [of 2 "2 * m" bs] by simp
    then have "concat (map put32 ws) = take (n - 2) r" using assms(2) m(1) by simp
    moreover have "n = 2 + 4 * length ws" using m(1) ws(1) assms(3) by simp
    ultimately show ?thesis using 4 tk m ws
      by (intro exI [of _ "SackRanges ws"]) simp
  next
    case 5
    then have n: "n = 10" and v: "v = TimestampsData (get32 r 0) (get32 r 4)"
      using assms(1) by (auto simp: opt_value_def opt_kinds g split: if_splits)
    have "take (n - 2) r = put32 (get32 r 0) @ put32 (get32 r 4)"
      using lr n take_add [of 4 4 r] by (simp add: put32_get32)
    then show ?thesis using 5 tk n v by (intro exI [of _ "Timestamps (get32 r 0) (get32 r 4)"]) simp
  next
    case 6
    then have "v = NoData" using assms(1) by (auto simp: opt_value_def opt_kinds split: if_splits)
    moreover have "length (take (n - 2) r) = n - 2" "n - 2 \<le> 253" using lr assms(4) by simp_all
    ultimately show ?thesis using 6 tk assms(3)
      by (intro exI [of _ "OtherOpt k (take (n - 2) r)"]) simp
  qed
qed

lemma parse_opt_sound_0:
  assumes "parse_opt bs 0 = Some (opt, n)" and "bs \<noteq> []" and "bs ! 0 \<noteq> 0"
  shows "\<exists>t. valid_opt t \<and> view_opt t = opt \<and> enc_opt t = take n bs \<and> n \<le> length bs"
proof (cases "bs ! 0 = 1")
  case True
  then obtain r where "bs = 1 # r" using assms(2) by (cases bs) auto
  with assms(1) show ?thesis by (intro exI [of _ Nop]) (auto simp: parse_opt_def opt_kinds Let_def)
next
  case False
  define k where "k = bs ! 0"
  from assms(1) False obtain v where len: "2 \<le> length bs" and n: "n = unat (bs ! 1)" "2 \<le> n" "n \<le> length bs"
    and v: "opt_value bs 0 k n = Some v" and opt: "opt = \<lparr> opt_kind = k, opt_length = bs ! 1, opt_data = v \<rparr>"
    by (auto simp: parse_opt_def opt_kinds Let_def word_less_nat_alt k_def split: if_splits option.splits)
  then obtain a b r where bs: "bs = a # b # r" by (cases bs; cases "tl bs") auto
  have b: "bs ! 1 = of_nat n" unfolding n(1) by simp
  have "bs = k # of_nat n # r" using bs b by (simp add: k_def)
  then show ?thesis
    using opt_value_sound [OF v _ n(2) _ n(3)] n unat_u8_less [of "bs ! 1"] assms(3) False b opt
    by (auto simp: k_def)
qed

lemma parse_opt_sound:
  assumes "parse_opt data pos = Some (opt, n)" and "pos < length data" and "data ! pos \<noteq> 0"
  shows "\<exists>t. valid_opt t \<and> view_opt t = opt \<and> drop pos data = enc_opt t @ drop (pos + n) data \<and>
    n = length (enc_opt t) \<and> pos + n \<le> length data"
proof -
  have "parse_opt (drop pos data) 0 = Some (opt, n)" "drop pos data \<noteq> []" "drop pos data ! 0 \<noteq> 0"
    using assms(2,3) by (simp_all only: parse_opt_suffix [OF assms(2), symmetric] assms(1)) simp_all
  then obtain t where t: "valid_opt t" "view_opt t = opt" "enc_opt t = take n (drop pos data)"
    "n \<le> length (drop pos data)"
    using parse_opt_sound_0 by blast
  then have "drop pos data = enc_opt t @ drop (pos + n) data"
    by (metis append_take_drop_id drop_drop add.commute)
  moreover have "n = length (enc_opt t)" "pos + n \<le> length data" using t(3,4) assms(2) by simp_all
  ultimately show ?thesis using t(1,2) by blast
qed

section \<open>The whole option field\<close>

text \<open>Where the parser stops: the room is used up, the field ends, or the list is ended.\<close>

definition stops :: "nat \<Rightarrow> nat \<Rightarrow> u8 list \<Rightarrow> bool" where
  "stops max_opts n rest \<longleftrightarrow> n = max_opts \<or> rest = [] \<or> hd rest = NFS_TCPOPT_EOL"

lemma enc_opt_hd: "valid_opt t \<Longrightarrow> \<exists>k r. enc_opt t = k # r \<and> k \<noteq> 0"
  by (cases t) auto

lemma opts_run_complete:
  "list_all valid_opt ts \<Longrightarrow> length acc + length ts \<le> m \<Longrightarrow>
     stops m (length acc + length ts) rest \<Longrightarrow>
     opts_run (pre @ concat (map enc_opt ts) @ rest) m (length pre) acc = Some (acc @ map view_opt ts)"
proof (induction ts arbitrary: pre acc)
  case Nil
  then show ?case
    by (subst opts_run.simps) (cases rest; auto simp: stops_def nth_append)
next
  case (Cons t ts)
  obtain k r where k: "enc_opt t = k # r" "k \<noteq> 0" using Cons.prems(1) enc_opt_hd [of t] by auto
  let ?d = "pre @ concat (map enc_opt (t # ts)) @ rest"
  have p: "parse_opt ?d (length pre) = Some (view_opt t, length (enc_opt t))"
    using Cons.prems(1) parse_opt_at [of t pre "concat (map enc_opt ts) @ rest"] by simp
  have "opts_run ?d m (length pre) acc = opts_run ?d m (length (pre @ enc_opt t)) (acc @ [view_opt t])"
    using Cons.prems(2) k p by (subst opts_run.simps) (simp add: nth_append opt_kinds)
  also have "\<dots> = Some (acc @ map view_opt (t # ts))"
    using Cons.IH [of "acc @ [view_opt t]" "pre @ enc_opt t"] Cons.prems by simp
  finally show ?case .
qed

lemma opts_run_sound:
  "opts_run data m pos acc = Some os \<Longrightarrow> pos \<le> length data \<Longrightarrow> length acc \<le> m \<Longrightarrow>
     \<exists>ts rest. list_all valid_opt ts \<and> drop pos data = concat (map enc_opt ts) @ rest \<and>
       os = acc @ map view_opt ts \<and> length acc + length ts \<le> m \<and> stops m (length acc + length ts) rest"
proof (induction data m pos acc rule: opts_run.induct)
  case (1 data m pos acc)
  show ?case
  proof (cases "pos < length data \<and> length acc < m \<and> data ! pos \<noteq> NFS_TCPOPT_EOL")
    case False
    then have "os = acc" "stops m (length acc) (drop pos data)"
      using 1 by (auto simp: opts_run.simps [of data] stops_def hd_drop_conv_nth split: if_splits)
    with 1 show ?thesis by (intro exI [of _ "[]"] exI [of _ "drop pos data"]) simp
  next
    case True
    with 1(2) obtain opt n where p: "parse_opt data pos = Some (opt, n)"
      and r: "opts_run data m (pos + n) (acc @ [opt]) = Some os"
      by (auto simp: opts_run.simps [of data] split: option.splits)
    obtain t where t: "valid_opt t" "view_opt t = opt" "drop pos data = enc_opt t @ drop (pos + n) data"
      "n = length (enc_opt t)" "pos + n \<le> length data"
      using parse_opt_sound [OF p] True by (auto simp: opt_kinds)
    then obtain ts rest where "list_all valid_opt ts"
      "drop (pos + n) data = concat (map enc_opt ts) @ rest" "os = (acc @ [opt]) @ map view_opt ts"
      "length (acc @ [opt]) + length ts \<le> m" "stops m (length (acc @ [opt]) + length ts) rest"
      using 1(1) [OF _ _ p refl r] True by auto
    then show ?thesis using t by (intro exI [of _ "t # ts"] exI [of _ rest]) simp
  qed
qed

text \<open>
  C6. What the option parser accepts, exactly: it succeeds if and only if the field starts with
  well-formed options laid one after the other, up to the end of the field, an end-of-list byte
  or the room of the caller, and it returns what these say; everything else is refused.
\<close>
theorem tcp_opts_parse_exact:
  "nfs_tcp_opts_parse data max_opts = Some opts \<longleftrightarrow>
     (\<exists>ts rest. list_all valid_opt ts \<and> data = concat (map enc_opt ts) @ rest \<and>
        opts = map view_opt ts \<and> length ts \<le> max_opts \<and> stops max_opts (length ts) rest)"
proof
  assume "nfs_tcp_opts_parse data max_opts = Some opts"
  then show "\<exists>ts rest. list_all valid_opt ts \<and> data = concat (map enc_opt ts) @ rest \<and>
        opts = map view_opt ts \<and> length ts \<le> max_opts \<and> stops max_opts (length ts) rest"
    using opts_run_sound [of data max_opts 0 "[]" opts] by (simp add: nfs_tcp_opts_parse_def)
next
  assume "\<exists>ts rest. list_all valid_opt ts \<and> data = concat (map enc_opt ts) @ rest \<and>
        opts = map view_opt ts \<and> length ts \<le> max_opts \<and> stops max_opts (length ts) rest"
  then show "nfs_tcp_opts_parse data max_opts = Some opts"
    using opts_run_complete [of _ "[]" max_opts _ "[]"] by (auto simp: nfs_tcp_opts_parse_def)
qed

section \<open>Built, padded and parsed\<close>

text \<open>The builders of lessons 15, 14 and 19 that write an option.\<close>

definition built_opt :: "u8 list \<Rightarrow> tcp_opt \<Rightarrow> bool" where
  "built_opt bs t \<longleftrightarrow>
     (case t of
        Mss m \<Rightarrow> \<exists>sz. nfs_tcp_opts_build_mss m sz = Some bs
      | WScale s \<Rightarrow> \<exists>sz. nfs_tcp_opts_build_wscale s sz = Some bs \<or> nfs_wscale_build_option s sz = Some bs
      | SackPermitted \<Rightarrow> \<exists>sz. nfs_tcp_opts_build_sack_perm sz = Some bs
      | Timestamps v e \<Rightarrow> \<exists>sz. nfs_tcp_opts_build_timestamps v e sz = Some bs
      | SackRanges ws \<Rightarrow> \<exists>sb sz. nfs_sack_build_option sb sz = Some bs \<and> blocks sb \<noteq> [] \<and>
          length (blocks sb) \<le> NFS_SACK_MAX_BLOCKS \<and> ws = concat (map (\<lambda>b. [left b, right b]) (blocks sb))
      | _ \<Rightarrow> False)"

lemma sack_built:
  assumes "nfs_sack_build_option sb sz = Some bs" and "blocks sb \<noteq> []" and "length (blocks sb) \<le> 4"
  shows "bs = enc_opt (SackRanges (concat (map (\<lambda>b. [left b, right b]) (blocks sb))))"
    and "valid_opt (SackRanges (concat (map (\<lambda>b. [left b, right b]) (blocks sb))))"
proof -
  have l: "length (concat (map (\<lambda>b. [left b, right b]) xs)) = 2 * length xs" for xs
    by (induction xs) simp_all
  have c: "concat (map put32 (concat (map (\<lambda>b. [left b, right b]) xs))) =
      concat (map (\<lambda>b. put32 (left b) @ put32 (right b)) xs)" for xs
    by (induction xs) simp_all
  have "bs = [5, of_nat (2 + 8 * length (blocks sb))]
      @ concat (map (\<lambda>b. put32 (left b) @ put32 (right b)) (blocks sb))"
    using assms(1,2) by (simp add: nfs_sack_build_option_def Let_def split: if_splits)
  then show "bs = enc_opt (SackRanges (concat (map (\<lambda>b. [left b, right b]) (blocks sb))))"
    unfolding enc_opt.simps l c by simp
  show "valid_opt (SackRanges (concat (map (\<lambda>b. [left b, right b]) (blocks sb))))"
    unfolding valid_opt.simps l using assms(3) by simp
qed

lemma built_enc: "built_opt bs t \<Longrightarrow> bs = enc_opt t \<and> valid_opt t"
  by (cases t) (auto simp: built_opt_def nfs_tcp_opts_build_mss_def nfs_tcp_opts_build_wscale_def
      nfs_wscale_build_option_def nfs_tcp_opts_build_sack_perm_def nfs_tcp_opts_build_timestamps_def
      opt_kinds NFS_WSCALE_OPT_KIND_def NFS_WSCALE_OPT_LEN_def NFS_SACK_MAX_BLOCKS_def
      split: if_splits intro: sack_built simp del: enc_opt.simps(5) valid_opt.simps(1))

lemma built_list: "list_all2 built_opt bss ts \<Longrightarrow> concat bss = concat (map enc_opt ts) \<and> list_all valid_opt ts"
  by (induction rule: list_all2_induct) (auto dest: built_enc)

lemma pad_stops: "\<exists>rest. nfs_tcp_opts_pad bs = bs @ rest \<and> (rest = [] \<or> hd rest = NFS_TCPOPT_EOL)"
  by (simp add: nfs_tcp_opts_pad_def Let_def)

lemma length_pad: "4 dvd length (nfs_tcp_opts_pad bs)" "length (nfs_tcp_opts_pad bs) < length bs + 4"
proof -
  define n where "n = push_bit 2 (drop_bit 2 (length bs + 3))"
  have n: "n = 4 * ((length bs + 3) div 4)" by (simp add: n_def push_bit_eq_mult drop_bit_eq_div)
  then have b: "length bs \<le> n" "n < length bs + 4" "4 dvd n" by presburger+
  have "length (nfs_tcp_opts_pad bs) = n"
    unfolding nfs_tcp_opts_pad_def Let_def n_def [symmetric] using b(1) by (cases "n - length bs = 0") auto
  with b show "4 dvd length (nfs_tcp_opts_pad bs)" "length (nfs_tcp_opts_pad bs) < length bs + 4"
    by simp_all
qed

text \<open>
  Options written one after the other by the builders (maximum segment size, window scale,
  SACK permitted, timestamps, and the SACK ranges of a scoreboard), padded to a multiple of
  four bytes and parsed: the parser returns exactly what was built, in order.
\<close>
theorem tcp_options_roundtrip:
  assumes "list_all2 built_opt bss ts" and "length ts \<le> max_opts"
  shows "nfs_tcp_opts_parse (nfs_tcp_opts_pad (concat bss)) max_opts = Some (map view_opt ts) \<and>
    4 dvd length (nfs_tcp_opts_pad (concat bss))"
proof -
  obtain rest where r: "nfs_tcp_opts_pad (concat bss) = concat bss @ rest"
    and s: "rest = [] \<or> hd rest = NFS_TCPOPT_EOL"
    using pad_stops by blast
  have "stops max_opts (length ts) rest" using s by (auto simp: stops_def)
  then have "opts_run (concat (map enc_opt ts) @ rest) max_opts 0 [] = Some (map view_opt ts)"
    using built_list [OF assms(1)] assms(2) opts_run_complete [of ts "[]" max_opts rest "[]"] by simp
  then have "nfs_tcp_opts_parse (nfs_tcp_opts_pad (concat bss)) max_opts = Some (map view_opt ts)"
    unfolding nfs_tcp_opts_parse_def r using built_list [OF assms(1)] by simp
  then show ?thesis using length_pad(1) by blast
qed

lemma tcp_options_roundtrip_witness:
  "nfs_tcp_opts_parse (nfs_tcp_opts_pad ([2, 4, 5, 0xB4] @ [3, 3, 7])) 4 =
     Some [\<lparr> opt_kind = 2, opt_length = 4, opt_data = MssData 1460 \<rparr>,
           \<lparr> opt_kind = 3, opt_length = 3, opt_data = WscaleData 7 \<rparr>]"
proof -
  have "built_opt [2, 4, 5, 0xB4] (Mss 1460)" "built_opt [3, 3, 7] (WScale 7)"
    by (auto simp: built_opt_def nfs_tcp_opts_build_mss_def nfs_tcp_opts_build_wscale_def opt_kinds
        put16_def hi8_def lo8_def intro: exI [of _ 40])
  then show ?thesis
    using tcp_options_roundtrip [of "[[2, 4, 5, 0xB4], [3, 3, 7]]" "[Mss 1460, WScale 7]" 4] by simp
qed

section \<open>The scaled window\<close>
lemma unat_half_power: "unat (drop_bit 1 (w :: u32)) = unat w div 2"
  unfolding unat_drop_bit_eq by (simp add: drop_bit_eq_div)

text \<open>The loop stops at the least shift that makes the window fit, or at the greatest one.\<close>

lemma wscale_run_spec:
  "shift \<le> 14 \<Longrightarrow> let s = wscale_run w shift in
     shift \<le> s \<and> s \<le> 14 \<and> (unat w div 2 ^ (unat s - unat shift) \<le> 65535 \<or> s = 14) \<and>
     (\<forall>k. unat shift + k < unat s \<longrightarrow> 65535 < unat w div 2 ^ k)"
proof (induction w shift rule: wscale_run.induct)
  case (1 w shift)
  show ?case
  proof (cases "w > 0xFFFF \<and> shift < NFS_WSCALE_MAX")
    case False
    then show ?thesis using 1(2)
      by (subst wscale_run.simps) (auto simp: NFS_WSCALE_MAX_def Let_def word_le_nat_alt word_less_nat_alt word_unat_eq_iff)
  next
    case True
    then have big: "65535 < unat w" and sh: "unat shift < 14"
      by (simp_all add: word_less_nat_alt NFS_WSCALE_MAX_def)
    then have u: "unat (shift + 1) = Suc (unat shift)" by (simp add: unat_word_ariths)
    define s where "s = wscale_run (drop_bit 1 w) (shift + 1)"
    have r: "wscale_run w shift = s" using True by (subst wscale_run.simps) (simp add: s_def)
    have "shift + 1 \<le> 14" using u sh by (simp add: word_le_nat_alt)
    then have ih: "shift + 1 \<le> s" "s \<le> 14"
      "unat w div 2 div 2 ^ (unat s - unat (shift + 1)) \<le> 65535 \<or> s = 14"
      "\<forall>k. unat (shift + 1) + k < unat s \<longrightarrow> 65535 < unat w div 2 div 2 ^ k"
      using 1(1) [OF True \<open>shift + 1 \<le> 14\<close>] unfolding Let_def s_def [symmetric] unat_half_power by blast+
    have le: "unat shift < unat s" using ih(1) u by (simp add: word_le_nat_alt)
    have "unat w div 2 ^ (unat s - unat shift) = unat w div 2 div 2 ^ (unat s - unat (shift + 1))"
      using le u by (simp add: div_mult2_eq [symmetric] power_Suc [symmetric] Suc_diff_Suc del: power_Suc)
    moreover have "65535 < unat w div 2 ^ k" if k: "unat shift + k < unat s" for k
    proof (cases k)
      case (Suc j)
      then show ?thesis using ih(4) k u by (simp add: div_mult2_eq)
    qed (use big in simp)
    ultimately show ?thesis using ih(2,3) le by (simp add: r Let_def word_le_nat_alt)
  qed
qed

lemma unat_drop32: "unat (drop_bit n (w :: u32)) = unat w div 2 ^ n"
  unfolding unat_drop_bit_eq by (simp add: drop_bit_eq_div)

lemma unat_apply: "s \<le> 14 \<Longrightarrow> unat (nfs_wscale_apply win s) = unat win * 2 ^ unat s"
proof -
  assume s: "s \<le> 14"
  then have "(2 :: nat) ^ unat s \<le> 2 ^ 14" by (intro power_increasing) (simp_all add: word_le_nat_alt)
  then have "unat win * 2 ^ unat s \<le> 65535 * 2 ^ 14"
    using unat_u16_less [of win] by (intro mult_le_mono) simp_all
  then have b: "unat win * 2 ^ unat s < 4294967296" by simp
  have "push_bit (unat s) (ucast win :: u32) = of_nat (unat win * 2 ^ unat s)"
    using unat_of_nat_u32 [of "unat win"] unat_u16_less [of win]
    by (simp add: push_bit_eq_mult word_unat_eq_iff)
  moreover have "\<not> 14 < s" using s by simp
  ultimately show ?thesis
    using unat_of_nat_u32 [OF b] by (simp add: nfs_wscale_apply_def NFS_WSCALE_MAX_def)
qed

lemma unat_compress: "s \<le> 14 \<Longrightarrow> unat (nfs_wscale_compress w s) = min 65535 (unat w div 2 ^ unat s)"
  by (auto simp: nfs_wscale_compress_def NFS_WSCALE_MAX_def Let_def not_less word_less_nat_alt
      word_le_nat_alt unat_drop32 unsigned_ucast_eq take_bit_nat_eq_self_iff)

text \<open>What the peer takes the window to be, after one side scaled it down.\<close>

definition wscale_peer :: "u32 \<Rightarrow> u32" where
  "wscale_peer w =
     nfs_wscale_apply (nfs_wscale_compress w (nfs_wscale_compute w)) (nfs_wscale_compute w)"

text \<open>
  The scale factor computed for a window, the 16-bit field it is compressed to and the window the
  peer makes of that field: the factor is at most 14 and the least one that fits, the peer
  never believes in more than the window, in less by less than one unit of the scale, and
  windows beyond what 14 bits can scale are cut to the greatest that can be said.
\<close>
theorem wscale_roundtrip:
  "nfs_wscale_valid (nfs_wscale_compute w) \<and> wscale_peer w \<le> w \<and>
   (if unat w < 65536 * 2 ^ 14 then unat w - unat (wscale_peer w) < 2 ^ unat (nfs_wscale_compute w)
    else unat (wscale_peer w) = 65535 * 2 ^ 14) \<and>
   (\<forall>k < unat (nfs_wscale_compute w). 65535 < unat w div 2 ^ k)"
proof -
  define s where "s = nfs_wscale_compute w"
  define peer where "peer = wscale_peer w"
  define q where "q = unat w div 2 ^ unat s"
  have s: "s \<le> 14" "q \<le> 65535 \<or> s = 14" "\<forall>k < unat s. 65535 < unat w div 2 ^ k"
  proof -
    have "s \<le> 14 \<and> (q \<le> 65535 \<or> s = 14) \<and> (\<forall>k < unat s. 65535 < unat w div 2 ^ k)"
      using wscale_run_spec [of 0 w]
      by (auto simp: s_def q_def nfs_wscale_compute_def Let_def word_le_nat_alt)
    then show "s \<le> 14" "q \<le> 65535 \<or> s = 14" "\<forall>k < unat s. 65535 < unat w div 2 ^ k" by auto
  qed
  have p: "unat peer = min 65535 q * 2 ^ unat s"
    unfolding peer_def wscale_peer_def s_def [symmetric] q_def using s(1) by (simp add: unat_apply unat_compress)
  have m: "unat w = q * 2 ^ unat s + unat w mod 2 ^ unat s" "unat w mod 2 ^ unat s < 2 ^ unat s"
    unfolding q_def by (simp_all only: div_mult_mod_eq) simp
  have le: "unat peer \<le> unat w" 
  proof -
    have "min 65535 q * 2 ^ unat s \<le> q * 2 ^ unat s" by (rule mult_le_mono1) simp
    with p m(1) show ?thesis by linarith
  qed
  have "unat w - unat peer < 2 ^ unat s" if "unat w < 65536 * 2 ^ 14"
  proof -
    have "q \<le> 65535"
    proof (cases "s = 14")
      case True
      then have "q < 65536" unfolding q_def using that by (intro less_mult_imp_div_less) simp
      then show ?thesis by simp
    qed (use s(2) in simp)
    then have "unat peer = q * 2 ^ unat s" using p by simp
    then show ?thesis using m by linarith
  qed
  moreover have "unat peer = 65535 * 2 ^ 14" if "\<not> unat w < 65536 * 2 ^ 14"
  proof -
    have "s = 14"
    proof (rule ccontr)
      assume "s \<noteq> 14"
      with s(1,2) have "q \<le> 65535" "unat s \<le> 13" by (auto simp: word_le_nat_alt word_unat_eq_iff)
      then have "(q + 1) * 2 ^ unat s \<le> 65536 * 2 ^ 13"
        by (intro mult_le_mono power_increasing) simp_all
      then have "2 ^ unat s + q * 2 ^ unat s \<le> 536870912" by simp
      moreover have "1073741824 \<le> unat w" using that by simp
      ultimately show False using m by linarith
    qed
    moreover have "65536 \<le> unat w div 2 ^ 14" using that by (simp add: less_eq_div_iff_mult_less_eq)
    ultimately show ?thesis using p by (simp add: q_def min_def)
  qed
  ultimately show ?thesis
    unfolding peer_def [symmetric] s_def [symmetric]
    using s le by (simp add: nfs_wscale_valid_def NFS_WSCALE_MAX_def word_le_nat_alt)
qed

lemma wscale_roundtrip_witness:
  "nfs_wscale_valid (nfs_wscale_compute 1000000) \<and> nfs_wscale_compute 1000000 = 4"
proof
  show "nfs_wscale_valid (nfs_wscale_compute 1000000)"
    using wscale_roundtrip [of 1000000] by blast
  show "nfs_wscale_compute 1000000 = 4"
    by (simp add: nfs_wscale_compute_def wscale_run.simps NFS_WSCALE_MAX_def)
qed

end
