(* ===== verification/DnsTransport.thy ===== *)
theory DnsTransport
  imports Dns
begin

text \<open>
  How DNS messages travel: the truncation of responses that are too large for a datagram and the
  framing of messages on a TCP stream
  (\<^verbatim>\<open>phases/06-application-protocols/04-dns-over-udp-then-tcp/dns_transport.c\<close>), and the OPT
  record of EDNS(0) (\<^verbatim>\<open>05-edns0-rfc-6891/edns.c\<close>). A pointer into the input with a length is
  the bytes it points at; an option is its code with the bytes of its data that are in
  use, so that its length field is the length of a list.
\<close>

section \<open>Truncation\<close>

definition NFS_DNS_UDP_MAX :: nat where "NFS_DNS_UDP_MAX = 512"
definition NFS_DNS_TCP_MAX :: nat where "NFS_DNS_TCP_MAX = 65535"
definition NFS_DNS_HDR_SIZE :: nat where "NFS_DNS_HDR_SIZE = 12"
definition NFS_DNS_TCP_PREFIX :: nat where "NFS_DNS_TCP_PREFIX = 2"

definition nfs_dns_is_truncated :: "u8 list \<Rightarrow> bool" where
  "nfs_dns_is_truncated msg \<longleftrightarrow>
     (if length msg < NFS_DNS_HDR_SIZE then False else get16 msg 2 AND 0x0200 \<noteq> 0)"

definition nfs_dns_set_truncated :: "u8 list \<Rightarrow> u8 list option" where
  "nfs_dns_set_truncated msg =
     (if length msg < NFS_DNS_HDR_SIZE then None else Some (set16 msg 2 (get16 msg 2 OR 0x0200)))"

definition nfs_dns_clear_truncated :: "u8 list \<Rightarrow> u8 list option" where
  "nfs_dns_clear_truncated msg =
     (if length msg < NFS_DNS_HDR_SIZE then None else Some (set16 msg 2 (get16 msg 2 AND NOT 0x0200)))"

definition nfs_dns_fits_udp :: "nat \<Rightarrow> bool" where
  "nfs_dns_fits_udp msg_len \<longleftrightarrow> msg_len \<le> NFS_DNS_UDP_MAX"

definition nfs_dns_fits_tcp :: "nat \<Rightarrow> bool" where
  "nfs_dns_fits_tcp msg_len \<longleftrightarrow> msg_len \<le> NFS_DNS_TCP_MAX"

function skip_name :: "u8 list \<Rightarrow> nat \<Rightarrow> nat" where
  "skip_name msg pos =
     (if pos < length msg then
        let label_len = msg ! pos in
        if label_len = 0 then pos + 1
        else if label_len AND 0xC0 = 0xC0 then pos + 2
        else skip_name msg (pos + (1 + unat label_len))
      else pos)"
  by pat_completeness auto
termination
  by (relation "measure (\<lambda>(msg, pos). length msg - pos)") auto

declare skip_name.simps [simp del]

fun skip_questions :: "u8 list \<Rightarrow> nat \<Rightarrow> nat \<Rightarrow> nat" where
  "skip_questions msg 0 pos = pos"
| "skip_questions msg (Suc n) pos = skip_questions msg n (skip_name msg pos + 4)"

definition nfs_dns_truncate_response :: "u8 list \<Rightarrow> nat \<Rightarrow> nat \<Rightarrow> u8 list option" where
  "nfs_dns_truncate_response msg max_size out_sz =
     (if length msg < NFS_DNS_HDR_SIZE then None
      else if max_size < NFS_DNS_HDR_SIZE then None
      else if length msg \<le> max_size then
        (if out_sz < length msg then None else Some msg)
      else
        let qdcount = unat (get16 msg 4);
            pos = skip_questions msg qdcount NFS_DNS_HDR_SIZE;
            trunc_len = (if pos \<le> max_size then pos else NFS_DNS_HDR_SIZE)
        in if out_sz < trunc_len then None
           else
             let out = take trunc_len msg;
                 out = set16 (set16 (set16 out 6 0) 8 0) 10 0;
                 out = set16 out 2 (get16 out 2 OR 0x0200)
             in Some (if pos > max_size then set16 out 4 0 else out))"

section \<open>Framing\<close>

definition nfs_dns_tcp_frame :: "u8 list \<Rightarrow> nat \<Rightarrow> u8 list option" where
  "nfs_dns_tcp_frame msg out_sz =
     (if length msg = 0 then None
      else if length msg + NFS_DNS_TCP_PREFIX > out_sz then None
      else Some (put16 (of_nat (length msg)) @ msg))"

definition nfs_dns_tcp_unframe :: "u8 list \<Rightarrow> (u8 list \<times> nat) option" where
  "nfs_dns_tcp_unframe data =
     (if length data < NFS_DNS_TCP_PREFIX then None
      else
        let len = unat (get16 data 0) in
        if len = 0 then None
        else if len + NFS_DNS_TCP_PREFIX > length data then None
        else if len < NFS_DNS_HDR_SIZE then None
        else Some (take len (drop NFS_DNS_TCP_PREFIX data), NFS_DNS_TCP_PREFIX + len))"

text \<open>The offsets and lengths found so far are accumulated.\<close>

function stream_run :: "u8 list \<Rightarrow> nat \<Rightarrow> nat \<Rightarrow> (nat \<times> nat) list \<Rightarrow> (nat \<times> nat) list" where
  "stream_run data max_msgs pos found =
     (if pos + NFS_DNS_TCP_PREFIX \<le> length data \<and> length found < max_msgs then
        let len = unat (get16 data pos) in
        if len = 0 then found
        else if pos + NFS_DNS_TCP_PREFIX + len > length data then found
        else stream_run data max_msgs (pos + (NFS_DNS_TCP_PREFIX + len))
               (found @ [(pos + NFS_DNS_TCP_PREFIX, len)])
      else found)"
  by pat_completeness auto
termination
  by (relation "measure (\<lambda>(data, max_msgs, pos, found). length data - pos)")
    (auto simp: NFS_DNS_TCP_PREFIX_def)

declare stream_run.simps [simp del]

definition nfs_dns_tcp_parse_stream :: "u8 list \<Rightarrow> int \<Rightarrow> (nat \<times> nat) list option" where
  "nfs_dns_tcp_parse_stream data max_msgs =
     (if max_msgs \<le> 0 then None else Some (stream_run data (nat max_msgs) 0 []))"

section \<open>EDNS(0)\<close>

definition NFS_EDNS_OPT_TYPE :: u16 where "NFS_EDNS_OPT_TYPE = 41"
definition NFS_EDNS_OPT_NSID :: u16 where "NFS_EDNS_OPT_NSID = 3"
definition NFS_EDNS_OPT_COOKIE :: u16 where "NFS_EDNS_OPT_COOKIE = 10"
definition NFS_EDNS_OPT_PADDING :: u16 where "NFS_EDNS_OPT_PADDING = 12"
definition NFS_EDNS_MAX_OPTIONS :: nat where "NFS_EDNS_MAX_OPTIONS = 16"

record nfs_edns_option =
  eo_code :: u16
  eo_data :: "u8 list"

record nfs_edns_ext_flags =
  ef_ext_rcode :: u8
  ef_version :: u8
  ef_do_bit :: bool
  ef_z :: u16

record nfs_edns_opt =
  eo_udp_payload_size :: u16
  eo_flags :: nfs_edns_ext_flags
  eo_options :: "nfs_edns_option list"

definition nfs_edns_encode_option :: "u16 \<Rightarrow> u8 list \<Rightarrow> nat \<Rightarrow> u8 list option" where
  "nfs_edns_encode_option code odata out_sz =
     (if 4 + length odata > out_sz then None
      else Some (put16 code @ put16 (of_nat (length odata)) @ odata))"

definition nfs_edns_decode_option :: "u8 list \<Rightarrow> (nfs_edns_option \<times> nat) option" where
  "nfs_edns_decode_option data =
     (if length data < 4 then None
      else
        let code = get16 data 0; len = unat (get16 data 2) in
        if 4 + len > length data then None
        else if len > 512 then None
        else Some (\<lparr> eo_code = code, eo_data = take len (drop 4 data) \<rparr>, 4 + len))"

text \<open>The loop over the options writes after what is written already.\<close>

fun encode_options :: "nfs_edns_option list \<Rightarrow> nat \<Rightarrow> u8 list \<Rightarrow> u8 list option" where
  "encode_options [] out_sz out = Some out"
| "encode_options (opt # opts) out_sz out =
     (case nfs_edns_encode_option (eo_code opt) (eo_data opt) (out_sz - length out) of
        None \<Rightarrow> None
      | Some w \<Rightarrow> encode_options opts out_sz (out @ w))"

definition nfs_edns_build_opt ::
  "u16 \<Rightarrow> u8 \<Rightarrow> u8 \<Rightarrow> bool \<Rightarrow> nfs_edns_option list \<Rightarrow> nat \<Rightarrow> u8 list option" where
  "nfs_edns_build_opt udp_payload_size ext_rcode version do_bit options out_sz =
     (if out_sz < 11 then None
      else
        let ttl_val = push_bit 24 (ucast ext_rcode) OR push_bit 16 (ucast version)
              OR (if do_bit then 0x8000 else 0);
            out = [0] @ put16 NFS_EDNS_OPT_TYPE @ put16 udp_payload_size @ put32 ttl_val @ [0, 0]
        in case encode_options options out_sz out of
             None \<Rightarrow> None
           | Some out' \<Rightarrow> Some (set16 out' 9 (of_nat (length out' - length out))))"

text \<open>The loop over the options of the record; \<open>rdata\<close> is what is left of its data.\<close>

function parse_options :: "u8 list \<Rightarrow> nfs_edns_option list \<Rightarrow> nfs_edns_option list option" where
  "parse_options rdata opts =
     (if 0 < length rdata then
        if length opts \<ge> NFS_EDNS_MAX_OPTIONS then None
        else
          (case nfs_edns_decode_option rdata of
             None \<Rightarrow> None
           | Some (opt, consumed) \<Rightarrow> parse_options (drop consumed rdata) (opts @ [opt]))
      else Some opts)"
  by pat_completeness auto
termination
  by (relation "measure (\<lambda>(rdata, opts). length rdata)")
    (auto simp: nfs_edns_decode_option_def Let_def split: if_splits)

declare parse_options.simps [simp del]

definition nfs_edns_parse_opt :: "u8 list \<Rightarrow> (nfs_edns_opt \<times> nat) option" where
  "nfs_edns_parse_opt data =
     (if length data < 1 then None
      else if data ! 0 \<noteq> 0 then None
      else if length data < 3 then None
      else if get16 data 1 \<noteq> NFS_EDNS_OPT_TYPE then None
      else if length data < 5 then None
      else if length data < 9 then None
      else
        let ttl_val = get32 data 5;
            flags = \<lparr> ef_ext_rcode = ucast (drop_bit 24 ttl_val),
                      ef_version = ucast (drop_bit 16 ttl_val AND 0xFF),
                      ef_do_bit = (ttl_val AND 0x8000 \<noteq> 0), ef_z = ucast (ttl_val AND 0x7FFF) \<rparr>
        in if length data < 11 then None
           else
             let rdlength = unat (get16 data 9) in
             if 11 + rdlength > length data then None
             else
               (case parse_options (take rdlength (drop 11 data)) [] of
                  None \<Rightarrow> None
                | Some opts \<Rightarrow>
                    Some (\<lparr> eo_udp_payload_size = get16 data 3, eo_flags = flags, eo_options = opts \<rparr>,
                          11 + rdlength)))"

definition nfs_edns_build_nsid :: "u8 list \<Rightarrow> nfs_edns_option option" where
  "nfs_edns_build_nsid nsid_str =
     (if length nsid_str > 512 then None else Some \<lparr> eo_code = NFS_EDNS_OPT_NSID, eo_data = nsid_str \<rparr>)"

text \<open>\<open>None\<close> for the server cookie is the null pointer.\<close>

definition nfs_edns_build_cookie :: "u8 list \<Rightarrow> u8 list option \<Rightarrow> nfs_edns_option option" where
  "nfs_edns_build_cookie client_cookie server_cookie =
     (case server_cookie of
        None \<Rightarrow> Some \<lparr> eo_code = NFS_EDNS_OPT_COOKIE, eo_data = take 8 client_cookie \<rparr>
      | Some s \<Rightarrow>
          if length s < 8 \<or> length s > 32 then None
          else Some \<lparr> eo_code = NFS_EDNS_OPT_COOKIE, eo_data = take 8 client_cookie @ s \<rparr>)"

definition nfs_edns_build_padding :: "nat \<Rightarrow> nfs_edns_option option" where
  "nfs_edns_build_padding padding_len =
     (if padding_len > 512 then None
      else Some \<lparr> eo_code = NFS_EDNS_OPT_PADDING, eo_data = replicate padding_len 0 \<rparr>)"

definition nfs_edns_option_str :: "u16 \<Rightarrow> string" where
  "nfs_edns_option_str code =
     (if code = NFS_EDNS_OPT_NSID then ''NSID'' else if code = NFS_EDNS_OPT_COOKIE then ''Cookie''
      else if code = NFS_EDNS_OPT_PADDING then ''Padding'' else ''UNKNOWN'')"

section \<open>Truncated responses\<close>

lemma set16_header:
  "set16 (put_header h @ rest) 2 x = put_header (h\<lparr>dh_flags := x\<rparr>) @ rest"
  "set16 (put_header h @ rest) 4 x = put_header (h\<lparr>dh_qdcount := x\<rparr>) @ rest"
  "set16 (put_header h @ rest) 6 x = put_header (h\<lparr>dh_ancount := x\<rparr>) @ rest"
  "set16 (put_header h @ rest) 8 x = put_header (h\<lparr>dh_nscount := x\<rparr>) @ rest"
  "set16 (put_header h @ rest) 10 x = put_header (h\<lparr>dh_arcount := x\<rparr>) @ rest"
  by (simp_all add: put_header_def set16_def put16_def numeral_eq_Suc)

lemma get16_header:
  "get16 (put_header h @ rest) 2 = dh_flags h" "get16 (put_header h @ rest) 4 = dh_qdcount h"
  by (simp_all add: put_header_def get_past)

text \<open>The mark can be set, cleared and tested, and the rest of the message stays as it is.\<close>

lemma truncation_mark:
  assumes "12 \<le> length msg"
  shows "\<exists>s c. nfs_dns_set_truncated msg = Some s \<and> nfs_dns_clear_truncated msg = Some c \<and>
    nfs_dns_is_truncated s \<and> \<not> nfs_dns_is_truncated c \<and>
    length s = length msg \<and> length c = length msg \<and>
    (\<forall>i. i \<noteq> 2 \<longrightarrow> s ! i = msg ! i \<and> c ! i = msg ! i)"
proof -
  have a: "(w AND NOT v) AND v = 0" for w v :: u16
    by (rule bit_word_eqI) (auto simp: bit_simps)
  have b: "(get16 msg 2 AND NOT 0x0200) AND 0x0200 = 0" "(get16 msg 2 OR 0x0200) AND 0x0200 \<noteq> 0"
  proof -
    show "(get16 msg 2 AND NOT 0x0200) AND 0x0200 = 0" by (rule a)
    have "(get16 msg 2 OR 0x0200) AND 0x0200 = 0x0200"
      by (rule bit_word_eqI) (auto simp: bit_simps)
    then show "(get16 msg 2 OR 0x0200) AND 0x0200 \<noteq> 0" by simp
  qed
  have x: "(0x0200 :: u16) = 2 ^ 9" by simp
  have "lo8 (w OR 0x0200) = lo8 w \<and> lo8 (w AND NOT 0x0200) = lo8 w" for w
    unfolding x lo8_def
    by (intro conjI; rule bit_word_eqI; simp only: bit_simps bit_exp_iff; auto)
  then have l: "lo8 (get16 msg 2 OR 0x0200) = msg ! 3" "lo8 (get16 msg 2 AND NOT 0x0200) = msg ! 3"
    by (simp_all add: get16_def)
  have n: "set16 msg 2 w ! i = msg ! i" if "lo8 w = msg ! 3" "i \<noteq> 2" for w i
    using that assms by (cases "i = 3") (auto simp: set16_def numeral_3_eq_3)
  show ?thesis
    using assms b n [OF l(1)] n [OF l(2)]
    by (simp add: nfs_dns_set_truncated_def nfs_dns_clear_truncated_def nfs_dns_is_truncated_def
        NFS_DNS_HDR_SIZE_def)
qed

lemma skip_name_wire:
  "list_all label_ok ls \<Longrightarrow>
     skip_name (pre @ wire ls @ 0 # rest) (length pre) = length pre + length (wire ls) + 1"
proof (induction ls arbitrary: pre)
  case Nil
  then show ?case by (subst skip_name.simps) simp
next
  case (Cons l ls)
  then have b: "(of_nat (length l) :: u8) \<noteq> 0" "(of_nat (length l) :: u8) AND 0xC0 = 0"
    "unat (of_nat (length l) :: u8) = length l"
    using length_byte [of l] by simp_all
  let ?m = "pre @ wire (l # ls) @ 0 # rest"
  have "skip_name ?m (length pre) = skip_name ?m (length (pre @ of_nat (length l) # l))"
    using b by (subst skip_name.simps) (simp add: nth_append Let_def)
  then show ?case using Cons.IH [of "pre @ of_nat (length l) # l"] Cons.prems by simp
qed

lemma skip_question:
  assumes "list_all label_ok (dns_labels (fst q))"
  shows "skip_questions (put_header h @ question_bytes q @ rest) 1 12 = 12 + length (question_bytes q)"
  using skip_name_wire [OF assms, of "put_header h" "put16 (fst (snd q)) @ put16 (snd (snd q)) @ rest"]
  by (simp add: question_bytes_def)

definition cut_header :: "nfs_dns_header \<Rightarrow> nfs_dns_header" where
  "cut_header h = h\<lparr> dh_flags := dh_flags h OR 0x0200, dh_ancount := 0, dh_nscount := 0, dh_arcount := 0 \<rparr>"

text \<open>A response with one question, cut: the header and the question, or the header alone.\<close>

lemma truncate_eq:
  assumes q: "list_all label_ok (dns_labels (fst q))" and h: "dh_qdcount h = 1"
    and "12 \<le> m" and "m \<le> out_sz" and big: "m < length (put_header h @ question_bytes q @ rest)"
  shows "nfs_dns_truncate_response (put_header h @ question_bytes q @ rest) m out_sz =
    Some (if 12 + length (question_bytes q) \<le> m then put_header (cut_header h) @ question_bytes q
          else put_header ((cut_header h)\<lparr> dh_qdcount := 0 \<rparr>))"
proof -
  let ?msg = "put_header h @ question_bytes q @ rest"
  have p: "skip_questions ?msg (unat (get16 ?msg 4)) 12 = 12 + length (question_bytes q)"
    using skip_question [OF q, of h rest] h by (simp add: get16_header)
  have t: "take (12 + length (question_bytes q)) ?msg = put_header h @ question_bytes q" "take 12 ?msg = put_header h"
    by simp_all
  have e: "set16 (set16 (set16 (put_header h @ r) 6 0) 8 0) 10 0 =
      put_header (h\<lparr> dh_ancount := 0, dh_nscount := 0, dh_arcount := 0 \<rparr>) @ r" for r
    by (simp add: set16_header)
  have c: "set16 (put_header (h\<lparr> dh_ancount := 0, dh_nscount := 0, dh_arcount := 0 \<rparr>) @ r) 2
      (get16 (put_header (h\<lparr> dh_ancount := 0, dh_nscount := 0, dh_arcount := 0 \<rparr>) @ r) 2 OR 0x0200) =
      put_header (cut_header h) @ r" for r
    unfolding set16_header get16_header by (simp add: cut_header_def put_header_def)
  note e0 = e [of "[]"] and c0 = c [of "[]"] and z = set16_header(2) [of "cut_header h" "[]" 0]
  show ?thesis
    unfolding nfs_dns_truncate_response_def NFS_DNS_HDR_SIZE_def Let_def p
    using assms(3,4) big t e c e0 c0 z by (simp add: not_le not_less)
qed

lemma bit9: "(x OR 0x0200) AND 0x0200 \<noteq> (0 :: u16)"
proof -
  have "(x OR 0x0200) AND 0x0200 = (0x0200 :: u16)" by (rule bit_word_eqI) (auto simp: bit_simps)
  then show ?thesis by simp
qed

lemma truncated_put_header: "nfs_dns_is_truncated (put_header h @ r) \<longleftrightarrow> dh_flags h AND 0x0200 \<noteq> 0"
  using get16_header(1) [of h r] by (simp add: nfs_dns_is_truncated_def NFS_DNS_HDR_SIZE_def)

lemma cut_is_response: "nfs_dns_is_response h \<Longrightarrow> nfs_dns_is_response (cut_header h)"
proof -
  have "drop_bit 15 (x OR 0x0200) = drop_bit 15 (x :: u16)" for x by (simp add: drop_bit_or)
  then show "nfs_dns_is_response h \<Longrightarrow> nfs_dns_is_response (cut_header h)"
    by (simp add: nfs_dns_is_response_def cut_header_def)
qed

lemma header_only_parse:
  assumes "nfs_dns_is_response h" and "dh_qdcount h = 0" and "dh_ancount h = 0"
  shows "nfs_dns_response_parse (put_header h) =
    Some \<lparr> rp_header = h, rp_qname = [], rp_qtype = 0, rp_qclass = 0, rp_answers = [] \<rparr>"
  using assms get_put_header [of h "[]"]
  by (simp add: nfs_dns_response_parse_def NFS_DNS_HEADER_SIZE_def)

section \<open>Frames\<close>

abbreviation framed :: "u8 list \<Rightarrow> u8 list" where
  "framed msg \<equiv> put16 (of_nat (length msg)) @ msg"

lemma unat_frame_length: "length msg \<le> 65535 \<Longrightarrow> unat (of_nat (length msg) :: u16) = length msg"
  by (simp add: unat_of_nat_u16)

interpretation tcp_frame: self_delimiting framed nfs_dns_tcp_unframe
  "\<lambda>msg. NFS_DNS_HDR_SIZE \<le> length msg \<and> length msg \<le> 65535"
  by unfold_locales
    (auto simp: nfs_dns_tcp_unframe_def NFS_DNS_TCP_PREFIX_def NFS_DNS_HDR_SIZE_def get_past
      unat_frame_length Let_def)

text \<open>The messages the offsets and lengths point at.\<close>

definition messages_at :: "u8 list \<Rightarrow> (nat \<times> nat) list \<Rightarrow> u8 list list" where
  "messages_at data ps = map (\<lambda>(offset, len). take len (drop offset data)) ps"

definition incomplete :: "u8 list \<Rightarrow> bool" where
  "incomplete tail \<longleftrightarrow> length tail < 2 \<or> length tail < 2 + unat (get16 tail 0)"

lemma stream_run_frames:
  assumes "list_all (\<lambda>m. m \<noteq> [] \<and> length m \<le> 65535) ms" and "incomplete tail"
    and "messages_at (pre @ concat (map framed ms) @ tail) found = got" and "length found \<le> n"
  shows "messages_at (pre @ concat (map framed ms) @ tail)
      (stream_run (pre @ concat (map framed ms) @ tail) n (length pre) found) = got @ take (n - length found) ms"
  using assms
proof (induction ms arbitrary: pre found got)
  case Nil
  then show ?case
    by (subst stream_run.simps) (auto simp: NFS_DNS_TCP_PREFIX_def incomplete_def get_past Let_def)
next
  case (Cons m ms)
  let ?d = "pre @ concat (map framed (m # ms)) @ tail"
  have m: "m \<noteq> []" "unat (of_nat (length m) :: u16) = length m"
    using Cons.prems(1) by (simp_all add: unat_frame_length)
  show ?case
  proof (cases "length found < n")
    case True
    let ?f = "found @ [(length pre + 2, length m)]"
    have "stream_run ?d n (length pre) found = stream_run ?d n (length (pre @ framed m)) ?f"
      using True m by (subst stream_run.simps) (simp add: NFS_DNS_TCP_PREFIX_def get_past Let_def)
    moreover have "messages_at ?d ?f = got @ [m]"
      using Cons.prems(3) by (simp add: messages_at_def)
    moreover have "n - length found = Suc (n - length ?f)" using True by simp
    ultimately show ?thesis
      using Cons.IH [of "pre @ framed m" ?f "got @ [m]"] Cons.prems(1,2) True by simp
  next
    case False
    then show ?thesis using Cons.prems(3,4) by (subst stream_run.simps) simp
  qed
qed

lemma take_incomplete:
  assumes "list_all (\<lambda>m. m \<noteq> [] \<and> length m \<le> 65535) ms"
  shows "\<exists>n tail. n \<le> length ms \<and> take k (concat (map framed ms)) = concat (map framed (take n ms)) @ tail \<and>
    incomplete tail \<and> length (concat (map framed (take n ms))) \<le> k \<and>
    (n < length ms \<longrightarrow> k < length (concat (map framed (take (Suc n) ms))))"
  using assms
proof (induction ms arbitrary: k)
  case Nil
  then show ?case by (intro exI [of _ 0] exI [of _ "[]"]) (simp add: incomplete_def)
next
  case (Cons m ms)
  show ?case
  proof (cases "length (framed m) \<le> k")
    case True
    then obtain n tail where "n \<le> length ms"
      "take (k - length (framed m)) (concat (map framed ms)) = concat (map framed (take n ms)) @ tail"
      "incomplete tail" "length (concat (map framed (take n ms))) \<le> k - length (framed m)"
      "n < length ms \<longrightarrow> k - length (framed m) < length (concat (map framed (take (Suc n) ms)))"
      using Cons.IH [of "k - length (framed m)"] Cons.prems by auto
    then show ?thesis using True
      by (intro exI [of _ "Suc n"] exI [of _ tail]) auto
  next
    case False
    have u: "unat (of_nat (length m) :: u16) = length m"
      using Cons.prems by (simp add: unat_frame_length)
    have t: "take k (concat (map framed (m # ms))) = take k (framed m)" using False by simp
    have "incomplete (take k (framed m))"
    proof (cases "k < 2")
      case False
      then have "take k (framed m) = put16 (of_nat (length m)) @ take (k - 2) m" by simp
      then show ?thesis
        using \<open>\<not> length (framed m) \<le> k\<close> u by (simp add: incomplete_def get_past)
    qed (simp add: incomplete_def)
    then show ?thesis using False t by (intro exI [of _ 0] exI [of _ "take k (framed m)"]) simp
  qed
qed

text \<open>
  Messages framed one after the other on a TCP stream, of which the first \<open>k\<close> bytes have arrived:
  the offsets and lengths the stream parser reports delimit exactly the messages that are
  complete by then, in order, up to the number asked for.
\<close>
theorem dns_tcp_stream:
  assumes "list_all (\<lambda>m. m \<noteq> [] \<and> length m \<le> 65535) ms" and "0 < max_msgs"
  shows "\<exists>ps n. nfs_dns_tcp_parse_stream (take k (concat (map framed ms))) max_msgs = Some ps \<and>
    messages_at (take k (concat (map framed ms))) ps = take (min (nat max_msgs) n) ms \<and>
    n \<le> length ms \<and> length (concat (map framed (take n ms))) \<le> k \<and>
    (n < length ms \<longrightarrow> k < length (concat (map framed (take (Suc n) ms))))"
proof -
  obtain n tail where n: "n \<le> length ms" "take k (concat (map framed ms)) = concat (map framed (take n ms)) @ tail"
    "incomplete tail" "length (concat (map framed (take n ms))) \<le> k"
    "n < length ms \<longrightarrow> k < length (concat (map framed (take (Suc n) ms)))"
    using take_incomplete [OF assms(1)] by blast
  have "list_all (\<lambda>m. m \<noteq> [] \<and> length m \<le> 65535) (take n ms)"
    using assms(1) by (auto simp: list_all_iff dest: in_set_takeD)
  from stream_run_frames [OF this n(3), of "[]" "[]" "[]" "nat max_msgs"]
  have "messages_at (take k (concat (map framed ms)))
      (stream_run (take k (concat (map framed ms))) (nat max_msgs) 0 []) = take (min (nat max_msgs) n) ms"
    unfolding n(2) by (simp add: messages_at_def)
  then show ?thesis using n assms(2) by (simp add: nfs_dns_tcp_parse_stream_def) blast
qed

lemma dns_tcp_stream_witness:
  "\<exists>ps n. nfs_dns_tcp_parse_stream (take 4 (concat (map framed [[7], [8, 9]]))) 5 = Some ps \<and>
    messages_at (take 4 (concat (map framed [[7], [8, 9]]))) ps = take (min 5 n) [[7], [8, 9]] \<and> n = 1"
proof -
  from dns_tcp_stream [of "[[7], [8, 9]]" 5 4]
  obtain ps n where "nfs_dns_tcp_parse_stream (take 4 (concat (map framed [[7], [8, 9]]))) 5 = Some ps"
    "messages_at (take 4 (concat (map framed [[7], [8, 9]]))) ps = take (min 5 n) [[7], [8, 9]]"
    "n \<le> 2" "length (concat (map framed (take n [[7], [8, 9]]))) \<le> 4"
    "n < 2 \<longrightarrow> 4 < length (concat (map framed (take (Suc n) [[7], [8, 9]])))"
    by auto
  moreover from this have "n = 1" by (auto simp: le_Suc_eq numeral_2_eq_2)
  ultimately show ?thesis by blast
qed

section \<open>From the datagram to the stream\<close>

text \<open>
  C27. A resolver and a server whose answer may be too large for a datagram: the server's response, cut
  to the size of a datagram, never exceeds it and is marked truncated exactly when something
  was cut; an answer that fits is passed on as it is; one that does not is still a response to
  the resolver's query, with no records (and without the question only if that does not fit
  either); and over TCP the whole response comes out of its frame.
\<close>
theorem dns_falls_back_to_tcp:
  assumes "nfs_dns_zone_init origin = Some z0" and "z = foldl zone_step z0 es"
    and "\<forall>rr \<in> set (zn_rrs z). list_all label_ok (dns_labels (rr_name rr))"
    and "nfs_dns_query_build name qtype qid m = Some q" and "length name < NFS_DNS_MAX_NAME"
    and "response_size z (canon name) qtype \<le> 65535"
    and "NFS_DNS_HDR_SIZE \<le> max_size" and "max_size \<le> out_sz"
  shows "\<exists>r u f. nfs_dns_zone_build_response z q 65535 = Some r \<and>
    nfs_dns_truncate_response r max_size out_sz = Some u \<and> length u \<le> max_size \<and>
    (nfs_dns_is_truncated u \<longleftrightarrow> max_size < length r) \<and>
    (if length r \<le> max_size then u = r
     else \<exists>resp. nfs_dns_response_parse u = Some resp \<and> dh_id (rp_header resp) = qid \<and> rp_answers resp = [] \<and>
       (12 + length (question_bytes (canon name, qtype, NFS_DNS_CLASS_IN)) \<le> max_size \<longrightarrow>
          rp_qname resp = canon name \<and> rp_qtype resp = qtype)) \<and>
    nfs_dns_tcp_frame r 65537 = Some f \<and> (\<forall>rest. nfs_dns_tcp_unframe (f @ rest) = Some (r, length f))"
proof -
  have inv: "zone_inv z" unfolding assms(2) by (rule zone.run_inv [OF zone_init_inv [OF assms(1)]]) simp
  let ?h = "response_header z (canon name) qtype qid"
  let ?q = "(canon name, qtype, NFS_DNS_CLASS_IN)"
  let ?rrs = "concat (map rr_bytes (zone_matches z (canon name) qtype @ zone_matches z (zn_origin z) NFS_DNS_TYPE_NS))"
  have ok: "list_all label_ok (dns_labels (canon name))" "length (canon name) < NFS_DNS_MAX_NAME"
    using query_build_eq [OF assms(4)] assms(5) length_canon [of name] by simp_all
  then have w: "writable (canon name)" unfolding writable_def ..
  have h: "nfs_dns_is_response ?h" "dh_qdcount ?h = 1" "dh_flags ?h AND 0x0200 = 0" "dh_id ?h = qid"
    by (simp_all add: response_header_def nfs_dns_is_response_def NFS_DNS_RCODE_NXDOMAIN_def NFS_DNS_RCODE_NOERROR_def)
  define r where "r = put_header ?h @ question_bytes ?q @ ?rrs"
  have b: "nfs_dns_zone_build_response z q 65535 = Some r"
    unfolding r_def by (rule zone_response [OF inv assms(3-6)])
  have len: "length r = response_size z (canon name) qtype"
    by (simp add: r_def response_size_def NFS_DNS_HEADER_SIZE_def)
  then have r12: "12 \<le> length r" by (simp add: response_size_def NFS_DNS_HEADER_SIZE_def)
  have f: "nfs_dns_tcp_frame r 65537 = Some (framed r)"
    using len assms(6) r12 by (simp add: nfs_dns_tcp_frame_def NFS_DNS_TCP_PREFIX_def)
  have u: "nfs_dns_tcp_unframe (framed r @ rest) = Some (r, length (framed r))" for rest
    using tcp_frame.dec_enc_rest [of r rest] len assms(6) r12 by (simp add: NFS_DNS_HDR_SIZE_def)
  show ?thesis
  proof (cases "length r \<le> max_size")
    case True
    then have "nfs_dns_truncate_response r max_size out_sz = Some r"
      using assms(7,8) r12 by (simp add: nfs_dns_truncate_response_def NFS_DNS_HDR_SIZE_def)
    moreover have "\<not> nfs_dns_is_truncated r"
      unfolding r_def using h(3) truncated_put_header [of ?h] by simp
    ultimately show ?thesis using True b f u by auto
  next
    case False
    let ?fits = "12 + length (question_bytes ?q) \<le> max_size"
    define v where "v = (if ?fits then put_header (cut_header ?h) @ question_bytes ?q
      else put_header ((cut_header ?h)\<lparr> dh_qdcount := 0 \<rparr>))"
    have "nfs_dns_truncate_response r max_size out_sz = Some v"
      unfolding r_def v_def
      by (rule truncate_eq) (use ok h(2) assms(7,8) False in \<open>simp_all add: NFS_DNS_HDR_SIZE_def r_def\<close>)
    moreover have "length v \<le> max_size" using assms(7) by (simp add: v_def NFS_DNS_HDR_SIZE_def)
    moreover have "nfs_dns_is_truncated v"
      using truncated_put_header [of "cut_header ?h" "question_bytes ?q"] bit9
        truncated_put_header [of "(cut_header ?h)\<lparr> dh_qdcount := 0 \<rparr>" "[]"]
      by (simp add: v_def cut_header_def)
    moreover have "\<exists>resp. nfs_dns_response_parse v = Some resp \<and> dh_id (rp_header resp) = qid \<and> rp_answers resp = [] \<and>
       (?fits \<longrightarrow> rp_qname resp = canon name \<and> rp_qtype resp = qtype)"
    proof (cases ?fits)
      case True
      then show ?thesis
        using response_parse [OF w, of "[]" "cut_header ?h" qtype NFS_DNS_CLASS_IN] cut_is_response [OF h(1)] h
        by (simp add: v_def) (simp add: cut_header_def)
    next
      case False
      have "nfs_dns_is_response ((cut_header ?h)\<lparr> dh_qdcount := 0 \<rparr>)"
        using cut_is_response [OF h(1)] by (simp add: nfs_dns_is_response_def)
      then show ?thesis
        using False header_only_parse [of "(cut_header ?h)\<lparr> dh_qdcount := 0 \<rparr>"] h(4)
        by (simp add: v_def cut_header_def)
    qed
    ultimately show ?thesis using False b f u by auto
  qed
qed

text \<open>The sample zone, asked with room for the header only.\<close>

lemma dns_falls_back_to_tcp_witness:
  "\<exists>q r u. nfs_dns_query_build [87, 46, 65, 46] 1 7 512 = Some q \<and>
     nfs_dns_zone_build_response sample_zone q 65535 = Some r \<and>
     nfs_dns_truncate_response r 20 20 = Some u \<and> nfs_dns_is_truncated u"
proof -
  have l: "dns_labels [87, 46, 65, 46] = [[87], [65]]" "dns_labels [119, 46, 97] = [[119], [97]]"
    by (simp_all add: dns_labels_def)
  have m: "zone_matches sample_zone [87, 46, 65] t = (if t \<in> {1, 255} then zn_rrs sample_zone else [])"
      "zone_matches sample_zone [97] t = []" "zn_origin sample_zone = [97]" for t
    by (auto simp: zone_matches_def sample_zone_rrs name_eq_def to_lower_def)
  have c: "canon [87, 46, 65, 46] = [87, 46, 65]" by (simp add: l add_label_def)
  obtain q where q: "nfs_dns_query_build [87, 46, 65, 46] 1 7 512 = Some q"
    by (simp add: nfs_dns_query_build_def name_encode_eq l label_ok_def NFS_DNS_HEADER_SIZE_def)
  have i: "nfs_dns_zone_init [97] = Some \<lparr> zn_origin = [97], zn_rrs = [] \<rparr>"
    by (simp add: nfs_dns_zone_init_def NFS_DNS_MAX_NAME_def)
  have z: "sample_zone = foldl zone_step \<lparr> zn_origin = [97], zn_rrs = [] \<rparr> [ZoneAddA [119, 46, 97] 60 10 0 0 1]"
    by (simp add: sample_zone_def)
  have ok: "\<forall>rr \<in> set (zn_rrs sample_zone). list_all label_ok (dns_labels (rr_name rr))"
    by (simp add: sample_zone_rrs l label_ok_def)
  have n: "length [87 :: u8, 46, 65, 46] < NFS_DNS_MAX_NAME" by (simp add: NFS_DNS_MAX_NAME_def)
  have s: "response_size sample_zone (canon [87, 46, 65, 46]) 1 \<le> 65535"
    unfolding c by (simp add: response_size_def m) (simp add: sample_zone_rrs rr_bytes_def question_bytes_def l dns_labels_def NFS_DNS_HEADER_SIZE_def)
  obtain r u where r: "nfs_dns_zone_build_response sample_zone q 65535 = Some r"
    and u: "nfs_dns_truncate_response r 20 20 = Some u"
    and t: "nfs_dns_is_truncated u \<longleftrightarrow> 20 < length r" and lu: "length u \<le> 20"
    using dns_falls_back_to_tcp [OF i z ok q n s, of 20 20] by (auto simp: NFS_DNS_HDR_SIZE_def)
  have "u \<noteq> r"
  proof
    assume "u = r"
    have "12 + length (question_bytes ([87, 46, 65], 1, NFS_DNS_CLASS_IN)) \<le> length r"
      using zone_response [OF _ ok q n, of 65535] s r zone.run_inv [OF zone_init_inv [OF i], of "[ZoneAddA [119, 46, 97] 60 10 0 0 1]"]
      unfolding c z [symmetric] by auto
    then have "20 < length r" by (simp add: question_bytes_def dns_labels_def)
    with lu \<open>u = r\<close> show False by simp
  qed
  then have "nfs_dns_is_truncated u"
    using u t by (auto simp: nfs_dns_truncate_response_def NFS_DNS_HDR_SIZE_def split: if_splits)
  with q r u show ?thesis by blast
qed

section \<open>Options of the OPT record\<close>

abbreviation option_bytes :: "nfs_edns_option \<Rightarrow> u8 list" where
  "option_bytes opt \<equiv> put16 (eo_code opt) @ put16 (of_nat (length (eo_data opt))) @ eo_data opt"

interpretation edns: self_delimiting option_bytes nfs_edns_decode_option "\<lambda>opt. length (eo_data opt) \<le> 512"
  by unfold_locales (simp add: nfs_edns_decode_option_def get_past unat_of_nat_u16 Let_def)

lemma encode_options_eq:
  "encode_options opts n out = Some w \<Longrightarrow> w = out @ concat (map option_bytes opts)"
  by (induction opts n out rule: encode_options.induct)
    (auto simp: nfs_edns_encode_option_def split: option.splits if_splits)

lemma encode_options_room:
  "length out + length (concat (map option_bytes opts)) \<le> n \<Longrightarrow> encode_options opts n out \<noteq> None"
  by (induction opts n out rule: encode_options.induct) (auto simp: nfs_edns_encode_option_def)

lemma parse_options_concat:
  "list_all (\<lambda>opt. length (eo_data opt) \<le> 512) opts \<Longrightarrow> length acc + length opts \<le> NFS_EDNS_MAX_OPTIONS \<Longrightarrow>
     parse_options (concat (map option_bytes opts)) acc = Some (acc @ opts)"
proof (induction opts arbitrary: acc)
  case (Cons opt opts)
  then show ?case
    using edns.dec_enc_rest [of opt "concat (map option_bytes opts)"]
    by (subst parse_options.simps) simp
qed (subst parse_options.simps, simp)

lemma parse_options_bounds:
  "parse_options rdata acc = Some opts \<Longrightarrow> length acc \<le> NFS_EDNS_MAX_OPTIONS \<Longrightarrow>
     list_all (\<lambda>opt. length (eo_data opt) \<le> 512) acc \<Longrightarrow>
     length opts \<le> NFS_EDNS_MAX_OPTIONS \<and> list_all (\<lambda>opt. length (eo_data opt) \<le> 512) opts"
proof (induction rdata acc rule: parse_options.induct)
  case (1 rdata acc)
  show ?case
  proof (cases "rdata = []")
    case False
    then obtain opt k where d: "nfs_edns_decode_option rdata = Some (opt, k)" and n: "length acc < NFS_EDNS_MAX_OPTIONS"
      and r: "parse_options (drop k rdata) (acc @ [opt]) = Some opts"
      using 1(2) by (subst (asm) parse_options.simps) (auto split: option.splits if_splits)
    have "length (eo_data opt) \<le> 512"
      using d by (auto simp: nfs_edns_decode_option_def Let_def split: if_splits)
    then show ?thesis using 1(1) [OF _ _ d refl r] 1(3,4) n False by simp
  qed (use 1 in \<open>simp add: parse_options.simps [of "[]"]\<close>)
qed

text \<open>The three builders make options that fit.\<close>

lemma built_options_fit:
  "nfs_edns_build_nsid s = Some opt \<Longrightarrow> length (eo_data opt) \<le> 512"
  "nfs_edns_build_cookie c sc = Some opt \<Longrightarrow> length (eo_data opt) \<le> 40"
  "nfs_edns_build_padding n = Some opt \<Longrightarrow> length (eo_data opt) \<le> 512"
  by (auto simp: nfs_edns_build_nsid_def nfs_edns_build_cookie_def nfs_edns_build_padding_def
      split: option.splits if_splits)

lemma edns_ttl_fields:
  fixes r v :: u8 and b :: bool
  defines "t \<equiv> push_bit 24 (ucast r) OR push_bit 16 (ucast v) OR (if b then 0x8000 else 0) :: u32"
  shows "ucast (drop_bit 24 t) = r" "ucast (drop_bit 16 t AND 0xFF) = v" "t AND 0x8000 \<noteq> 0 \<longleftrightarrow> b"
    "ucast (t AND 0x7FFF) = (0 :: u16)"
proof -
  have x: "(0x8000 :: u32) = 2 ^ 15" "(0xFF :: u32) = mask 8" "(0x7FFF :: u32) = mask 15"
    by (simp_all add: mask_eq_exp_minus_1)
  have bt: "bit t i \<longleftrightarrow> i < 32 \<and> (24 \<le> i \<and> bit r (i - 24) \<or> 16 \<le> i \<and> i < 24 \<and> bit v (i - 16) \<or> i = 15 \<and> b)" for i
    unfolding t_def x
    by (cases b; simp only: if_True if_False bit_or_iff bit_push_bit_iff bit_unsigned_iff bit_exp_iff bit_0_eq bot_apply bot_bool_def)
      (auto dest: bit_imp_le_length)
  show "ucast (drop_bit 24 t) = r"
    by (rule bit_word_eqI) (auto simp: bit_unsigned_iff bit_drop_bit_eq bt)
  show "ucast (drop_bit 16 t AND 0xFF) = v"
    unfolding x by (rule bit_word_eqI) (auto simp: bit_unsigned_iff bit_drop_bit_eq bit_and_iff bit_mask_iff bt)
  have "bit (t AND 0x8000) i \<longleftrightarrow> i = 15 \<and> b" for i
    unfolding x by (simp only: bit_and_iff bit_exp_iff bt) auto
  then show "t AND 0x8000 \<noteq> 0 \<longleftrightarrow> b" by (metis bit_0_eq bot_apply bot_bool_def bit_eqI)
  show "ucast (t AND 0x7FFF) = (0 :: u16)"
    unfolding x by (rule bit_word_eqI) (auto simp: bit_unsigned_iff bit_and_iff bit_mask_iff bt)
qed

lemma opt_fixed_part:
  fixes psize ty :: u16 and ttl :: u32
  defines "fixed \<equiv> [0] @ put16 ty @ put16 psize @ put32 ttl @ [0, 0]"
  shows "length fixed = 11" "set16 (fixed @ body) 9 n = [0] @ put16 ty @ put16 psize @ put32 ttl @ put16 n @ body"
  by (simp_all add: fixed_def set16_def put16_def put32_def numeral_eq_Suc)

text \<open>
  An OPT record built from at most 16 options of at most 512 bytes is read back, with its
  payload size, extended code, version and DNSSEC bit, wherever the message goes on after
  it; and whatever bytes are parsed, no more than 16 options come out, each within its 512 bytes.
\<close>
theorem edns_opt_roundtrip:
  assumes "nfs_edns_build_opt psize ext_rcode version do_bit opts out_sz = Some out"
    and "list_all (\<lambda>opt. length (eo_data opt) \<le> 512) opts" and "length opts \<le> NFS_EDNS_MAX_OPTIONS"
  shows "nfs_edns_parse_opt (out @ rest) =
      Some (\<lparr> eo_udp_payload_size = psize, eo_flags = \<lparr> ef_ext_rcode = ext_rcode, ef_version = version,
              ef_do_bit = do_bit, ef_z = 0 \<rparr>, eo_options = opts \<rparr>, length out) \<and>
    (\<forall>data opt n. nfs_edns_parse_opt data = Some (opt, n) \<longrightarrow>
       length (eo_options opt) \<le> NFS_EDNS_MAX_OPTIONS \<and>
       list_all (\<lambda>opt. length (eo_data opt) \<le> 512) (eo_options opt) \<and> n \<le> length data)"
proof -
  define ttl :: u32 where "ttl = push_bit 24 (ucast ext_rcode) OR push_bit 16 (ucast version) OR (if do_bit then 0x8000 else 0)"
  note ttl_fields = edns_ttl_fields [of ext_rcode version do_bit, folded ttl_def]
  let ?body = "concat (map option_bytes opts)"
  have sz: "length ?body \<le> 16 * 516"
  proof -
    have "length (concat (map option_bytes os)) \<le> length os * 516"
      if "list_all (\<lambda>opt. length (eo_data opt) \<le> 512) os" for os
      using that by (induction os) auto
    then have "length ?body \<le> length opts * 516" using assms(2) by blast
    also have "\<dots> \<le> 16 * 516" using assms(3) by (simp add: NFS_EDNS_MAX_OPTIONS_def)
    finally show ?thesis .
  qed
  then have n: "unat (of_nat (length ?body) :: u16) = length ?body" by (intro unat_of_nat_u16) simp
  let ?fixed = "[0] @ put16 NFS_EDNS_OPT_TYPE @ put16 psize @ put32 ttl @ [0, 0]"
  obtain w where w: "encode_options opts out_sz ?fixed = Some w"
    and o: "out = set16 w 9 (of_nat (length w - length ?fixed))"
    using assms(1) by (auto simp: nfs_edns_build_opt_def ttl_def Let_def split: if_splits option.splits)
  have out: "out = [0] @ put16 NFS_EDNS_OPT_TYPE @ put16 psize @ put32 ttl @ put16 (of_nat (length ?body)) @ ?body"
    unfolding o encode_options_eq [OF w] opt_fixed_part(2) by simp
  have g: "(out @ rest) ! 0 = 0" "get16 (out @ rest) 1 = NFS_EDNS_OPT_TYPE" "get16 (out @ rest) 3 = psize"
    "get32 (out @ rest) 5 = ttl" "get16 (out @ rest) 9 = of_nat (length ?body)"
    "take (length ?body) (drop 11 (out @ rest)) = ?body" "length out = 11 + length ?body"
    unfolding out by (simp_all add: get_past)
  have "parse_options ?body [] = Some opts"
    using parse_options_concat [OF assms(2), of "[]"] assms(3) by simp
  then have "nfs_edns_parse_opt (out @ rest) =
      Some (\<lparr> eo_udp_payload_size = psize, eo_flags = \<lparr> ef_ext_rcode = ext_rcode, ef_version = version,
              ef_do_bit = do_bit, ef_z = 0 \<rparr>, eo_options = opts \<rparr>, length out)"
    unfolding nfs_edns_parse_opt_def Let_def g n
    using g(7) ttl_fields by simp
  moreover have "length (eo_options opt) \<le> NFS_EDNS_MAX_OPTIONS \<and>
      list_all (\<lambda>opt. length (eo_data opt) \<le> 512) (eo_options opt) \<and> n \<le> length data"
    if "nfs_edns_parse_opt data = Some (opt, n)" for data opt n
    using that parse_options_bounds [of _ "[]"]
    by (auto simp: nfs_edns_parse_opt_def Let_def not_less split: if_splits option.splits)
  ultimately show ?thesis by blast
qed

lemma edns_opt_roundtrip_witness:
  "nfs_edns_parse_opt (the (nfs_edns_build_opt 1232 0 0 True [\<lparr> eo_code = 3, eo_data = [97] \<rparr>] 512)) =
     Some (\<lparr> eo_udp_payload_size = 1232, eo_flags = \<lparr> ef_ext_rcode = 0, ef_version = 0, ef_do_bit = True, ef_z = 0 \<rparr>,
             eo_options = [\<lparr> eo_code = 3, eo_data = [97] \<rparr>] \<rparr>, 16)"
proof -
  obtain out where o: "nfs_edns_build_opt 1232 0 0 True [\<lparr> eo_code = 3, eo_data = [97] \<rparr>] 512 = Some out" "length out = 16"
    by (simp add: nfs_edns_build_opt_def nfs_edns_encode_option_def)
  show ?thesis
    using edns_opt_roundtrip [OF o(1), of "[]"] o by (simp add: NFS_EDNS_MAX_OPTIONS_def)
qed

text \<open>
  The builder does not limit the number of options, and the length of the data is stored in 16 bits:
  with 128 options of 508 bytes it wraps to 0, and a reader finds no options at all.
\<close>

lemma edns_rdlen_wraps:
  assumes "opt = \<lparr> eo_code = 12, eo_data = replicate 508 0 \<rparr>"
  shows "\<exists>out. nfs_edns_build_opt 4096 0 0 False (replicate 128 opt) 70000 = Some out \<and> length out = 65547 \<and>
    get16 out 9 = 0 \<and> map_option (eo_options \<circ> fst) (nfs_edns_parse_opt out) = Some []"
proof -
  let ?fixed = "[0] @ put16 NFS_EDNS_OPT_TYPE @ put16 4096 @ put32 0 @ [0, 0]"
  let ?body = "concat (map option_bytes (replicate 128 opt))"
  have "length (concat (replicate n xs)) = n * length xs" for n and xs :: "u8 list"
    by (induction n) simp_all
  then have len: "length ?body = 65536" by (simp add: assms map_replicate del: replicate.simps)
  then obtain w where w: "encode_options (replicate 128 opt) 70000 ?fixed = Some w"
    using encode_options_room [of ?fixed "replicate 128 opt" 70000] by auto
  note we = encode_options_eq [OF w]
  define out where "out = set16 w 9 (of_nat (length w - length ?fixed))"
  have out: "out = [0] @ put16 NFS_EDNS_OPT_TYPE @ put16 4096 @ put32 0 @ put16 0 @ ?body"
  proof -
    have "(of_nat 65536 :: u16) = 0"
      by (simp add: word_of_nat_eq_0_iff)
    moreover have "length (?fixed @ ?body) - length ?fixed = 65536" by (simp only: length_append len)
    ultimately show ?thesis by (simp only: out_def we opt_fixed_part(2))
  qed
  have g: "get16 out 9 = 0" "out ! 0 = 0" "get16 out 1 = NFS_EDNS_OPT_TYPE" "length out = 65547"
  proof -
    have "get16 ([0] @ put16 NFS_EDNS_OPT_TYPE @ put16 4096 @ put32 0 @ put16 0 @ b) 9 = 0"
      "([0] @ put16 NFS_EDNS_OPT_TYPE @ put16 4096 @ put32 0 @ put16 0 @ b) ! 0 = 0"
      "get16 ([0] @ put16 NFS_EDNS_OPT_TYPE @ put16 4096 @ put32 0 @ put16 0 @ b) 1 = NFS_EDNS_OPT_TYPE"
      "length ([0] @ put16 NFS_EDNS_OPT_TYPE @ put16 4096 @ put32 0 @ put16 0 @ b) = 11 + length b" for b
      by (simp_all add: get_past)
    from this [of ?body] show "get16 out 9 = 0" "out ! 0 = 0" "get16 out 1 = NFS_EDNS_OPT_TYPE" "length out = 65547"
      unfolding out len by simp_all
  qed
  have "nfs_edns_build_opt 4096 0 0 False (replicate 128 opt) 70000 = Some out"
    using w by (simp add: nfs_edns_build_opt_def out_def Let_def)
  moreover have "map_option (eo_options \<circ> fst) (nfs_edns_parse_opt out) = Some []"
    using g by (simp add: nfs_edns_parse_opt_def Let_def parse_options.simps)
  ultimately show ?thesis using g by blast
qed

end
