(* ===== verification/Frames.thy ===== *)
theory Frames
  imports Interfaces
begin

text \<open>
  Frames with a length in their header: HTTP/2 frames and SETTINGS
  (\<^verbatim>\<open>phases/06-application-protocols/12-http2-binary-framing/h2frame.c\<close>), WebSocket frames with
  their masking (\<^verbatim>\<open>16-websocket-rfc-6455/websocket.c\<close>) and TLS records and alerts
  (\<^verbatim>\<open>phases/07-tls/07-the-tls-record-layer/tls_record.c\<close>). A payload that the code points at
  inside the input buffer is the list of its bytes.
\<close>

section \<open>Numbers of 24 and of 64 bits\<close>

definition get24 :: "u8 list \<Rightarrow> nat \<Rightarrow> u32" where
  "get24 bs i = push_bit 16 (ucast (bs ! i)) OR push_bit 8 (ucast (bs ! (i + 1))) OR ucast (bs ! (i + 2))"

definition put24 :: "u32 \<Rightarrow> u8 list" where
  "put24 v = [ucast (drop_bit 16 v AND 0xFF), ucast (drop_bit 8 v AND 0xFF), ucast (v AND 0xFF)]"

text \<open>The loops of \<^verbatim>\<open>read_be64\<close> and \<^verbatim>\<open>write_be64\<close>.\<close>

definition read_be64 :: "u8 list \<Rightarrow> u64" where
  "read_be64 p = foldl (\<lambda>v b. push_bit 8 v OR ucast b) 0 (take 8 p)"

fun be64_run :: "nat \<Rightarrow> u64 \<Rightarrow> u8 list" where
  "be64_run 0 v = []"
| "be64_run (Suc n) v = be64_run n (drop_bit 8 v) @ [ucast (v AND 0xFF)]"

definition write_be64 :: "u64 \<Rightarrow> u8 list" where
  "write_be64 v = be64_run 8 v"

lemma length_put24 [simp]: "length (put24 v) = 3"
  by (simp add: put24_def)

lemma length_be64_run [simp]: "length (be64_run n v) = n"
  by (induction n v rule: be64_run.induct) simp_all

lemma ucast_low_byte: "(ucast (v AND 0xFF) :: u8) = ucast (v :: 'a :: len word)"
proof -
  have m: "(0xFF :: 'a word) = mask 8" by (simp add: mask_eq_exp_minus_1)
  show ?thesis unfolding m by (rule bit_word_eqI) (auto simp: bit_simps dest: bit_imp_le_length)
qed

lemma get24_put24:
  assumes "unat v < 2 ^ 24"
  shows "get24 (pre @ put24 v @ post) (length pre) = v"
proof -
  have b: "bit v n \<Longrightarrow> n < 24" for n using assms by (rule bit_less_exp [rotated])
  have "push_bit 16 (ucast (ucast (drop_bit 16 v) :: u8) :: u32) OR
      push_bit 8 (ucast (ucast (drop_bit 8 v) :: u8)) OR ucast (ucast v :: u8) = v"
  proof (rule bit_word_eqI)
    fix n assume "n < LENGTH(32)"
    then consider "n < 8" | "8 \<le> n" "n < 16" | "16 \<le> n" "n < 24" | "24 \<le> n" "n < 32" by fastforce
    then show "bit (push_bit 16 (ucast (ucast (drop_bit 16 v) :: u8) :: u32) OR
      push_bit 8 (ucast (ucast (drop_bit 8 v) :: u8)) OR ucast (ucast v :: u8)) n = bit v n"
      by cases (use b in \<open>force simp: bit_simps\<close>)+
  qed
  then show ?thesis
    unfolding get24_def put24_def by (simp add: ucast_low_byte nth_append)
qed

lemma fold_be64_run:
  "n \<le> 8 \<Longrightarrow> foldl (\<lambda>v b. push_bit 8 v OR ucast b) 0 (be64_run n v) = take_bit (8 * n) v"
proof (induction n arbitrary: v)
  case (Suc n)
  have "push_bit 8 (take_bit (8 * n) (drop_bit 8 v)) OR ucast (ucast v :: u8) = take_bit (8 * Suc n) v"
    by (rule bit_word_eqI) (auto simp: bit_simps)
  then show ?case using Suc by (simp add: ucast_low_byte)
qed simp

lemma read_write_be64: "read_be64 (write_be64 v @ rest) = v"
proof -
  have "take_bit 64 v = v" by (rule bit_word_eqI) (simp add: bit_take_bit_iff)
  then show ?thesis
    using fold_be64_run [of 8 v] by (simp add: read_be64_def write_be64_def)
qed

section \<open>HTTP/2 frames\<close>

definition NFS_H2_FRAME_HEADER_SIZE :: nat where "NFS_H2_FRAME_HEADER_SIZE = 9"

record nfs_h2_frame =
  hf_length :: u32
  hf_type :: u8
  hf_flags :: u8
  hf_stream_id :: u32
  hf_payload :: "u8 list"

record nfs_h2_setting =
  hs_id :: u16
  hs_value :: u32

definition nfs_h2_frame_parse :: "u8 list \<Rightarrow> nfs_h2_frame option" where
  "nfs_h2_frame_parse buf =
     (if length buf < NFS_H2_FRAME_HEADER_SIZE then None
      else
        let len = get24 buf 0 in
        if length buf < NFS_H2_FRAME_HEADER_SIZE + unat len then None
        else Some \<lparr> hf_length = len, hf_type = buf ! 3, hf_flags = buf ! 4,
                    hf_stream_id = get32 buf 5 AND 0x7FFFFFFF,
                    hf_payload = take (unat len) (drop NFS_H2_FRAME_HEADER_SIZE buf) \<rparr>)"

definition nfs_h2_frame_build :: "nat \<Rightarrow> u8 \<Rightarrow> u8 \<Rightarrow> u32 \<Rightarrow> u8 list \<Rightarrow> u8 list option" where
  "nfs_h2_frame_build out_sz type flags stream_id payload =
     (if length payload > 0x00FFFFFF then None
      else if NFS_H2_FRAME_HEADER_SIZE + length payload > out_sz then None
      else Some (put24 (of_nat (length payload)) @ [type, flags]
                 @ put32 (stream_id AND 0x7FFFFFFF) @ payload))"

definition h2_names :: "string list" where
  "h2_names = [''DATA'', ''HEADERS'', ''PRIORITY'', ''RST_STREAM'', ''SETTINGS'', ''PUSH_PROMISE'',
     ''PING'', ''GOAWAY'', ''WINDOW_UPDATE'', ''CONTINUATION'']"

definition nfs_h2_frame_type_name :: "u8 \<Rightarrow> string" where
  "nfs_h2_frame_type_name type = (if type \<le> 9 then h2_names ! unat type else ''UNKNOWN'')"

definition nfs_h2_settings_parse :: "u8 list \<Rightarrow> nat \<Rightarrow> nfs_h2_setting list option" where
  "nfs_h2_settings_parse payload max_settings =
     (if length payload mod 6 \<noteq> 0 then None
      else
        let count = length payload div 6 in
        if count > max_settings then None
        else Some (map (\<lambda>i. \<lparr> hs_id = get16 payload (i * 6), hs_value = get32 payload (i * 6 + 2) \<rparr>)
                     [0..<count]))"

definition nfs_h2_settings_build :: "nat \<Rightarrow> nfs_h2_setting list \<Rightarrow> u8 list option" where
  "nfs_h2_settings_build out_sz settings =
     (if length settings * 6 > out_sz then None
      else Some (concat (map (\<lambda>s. put16 (hs_id s) @ put32 (hs_value s)) settings)))"

section \<open>WebSocket frames\<close>

record nfs_ws_frame =
  wf_fin :: bool
  wf_rsv :: u8
  wf_opcode :: u8
  wf_masked :: bool
  wf_payload_len :: u64
  wf_mask_key :: "u8 list"

text \<open>The results -1, 1 (more data needed) and 0 with the frame and the length of its header.\<close>

datatype ws_result = WsError | WsNeedMore | WsFrame nfs_ws_frame nat

definition nfs_ws_parse_frame :: "u8 list \<Rightarrow> ws_result" where
  "nfs_ws_parse_frame data =
     (if length data < 2 then WsNeedMore
      else
        let frame = \<lparr> wf_fin = (drop_bit 7 (data ! 0) AND 1 \<noteq> 0), wf_rsv = drop_bit 4 (data ! 0) AND 0x07,
                      wf_opcode = data ! 0 AND 0x0F, wf_masked = (drop_bit 7 (data ! 1) AND 1 \<noteq> 0),
                      wf_payload_len = 0, wf_mask_key = [0, 0, 0, 0] \<rparr>;
            len7 = data ! 1 AND 0x7F;
            with_key = (\<lambda>payload_len hdr_sz.
              let frame = frame\<lparr> wf_payload_len := payload_len \<rparr> in
              if wf_masked frame then
                (if length data < hdr_sz + 4 then WsNeedMore
                 else WsFrame (frame\<lparr> wf_mask_key := take 4 (drop hdr_sz data) \<rparr>) (hdr_sz + 4))
              else WsFrame frame hdr_sz)
        in if len7 \<le> 125 then with_key (ucast len7) 2
           else if len7 = 126 then
             (if length data < 4 then WsNeedMore else with_key (ucast (get16 data 2)) 4)
           else
             (if length data < 10 then WsNeedMore
              else
                let payload_len = read_be64 (drop 2 data) in
                if drop_bit 63 payload_len \<noteq> 0 then WsError else with_key payload_len 10))"

text \<open>The masking loop from index \<open>i\<close> on.\<close>

fun mask_run :: "u8 list \<Rightarrow> nat \<Rightarrow> u8 list \<Rightarrow> u8 list" where
  "mask_run key i [] = []"
| "mask_run key i (b # bs) = (b XOR key ! (i mod 4)) # mask_run key (i + 1) bs"

definition nfs_ws_mask_payload :: "u8 list \<Rightarrow> u8 list \<Rightarrow> u8 list" where
  "nfs_ws_mask_payload data key = mask_run key 0 data"

definition nfs_ws_build_frame :: "u8 \<Rightarrow> bool \<Rightarrow> bool \<Rightarrow> u8 list \<Rightarrow> u8 list \<Rightarrow> nat \<Rightarrow> u8 list option" where
  "nfs_ws_build_frame opcode fin masked mask_key payload out_sz =
     (let n = length payload;
          hdr_sz = 2 + (if n > 125 \<and> n \<le> 65535 then 2 else if n > 65535 then 8 else 0)
                   + (if masked then 4 else 0)
      in if hdr_sz + n > out_sz then None
         else
           let mask_bit = (if masked then 0x80 else 0x00);
               byte0 = (if fin then 0x80 else 0x00) OR (opcode AND 0x0F);
               len = (if n \<le> 125 then [mask_bit OR of_nat n]
                      else if n \<le> 65535 then (mask_bit OR 126) # put16 (of_nat n)
                      else (mask_bit OR 127) # write_be64 (of_nat n))
           in Some (byte0 # len @ (if masked then take 4 mask_key else [])
                    @ (if masked then nfs_ws_mask_payload payload mask_key else payload)))"

definition nfs_ws_is_control :: "u8 \<Rightarrow> bool" where
  "nfs_ws_is_control opcode \<longleftrightarrow> opcode AND 0x08 \<noteq> 0"

definition nfs_ws_opcode_str :: "u8 \<Rightarrow> string" where
  "nfs_ws_opcode_str opcode =
     (if opcode = 0 then ''continuation'' else if opcode = 1 then ''text'' else if opcode = 2 then ''binary''
      else if opcode = 8 then ''close'' else if opcode = 9 then ''ping'' else if opcode = 10 then ''pong''
      else ''unknown'')"

section \<open>TLS records\<close>

definition NFS_TLS_RECORD_HDR_SIZE :: nat where "NFS_TLS_RECORD_HDR_SIZE = 5"
definition NFS_TLS_MAX_CIPHERTEXT :: nat where "NFS_TLS_MAX_CIPHERTEXT = 16384 + 256"
definition NFS_TLS_CT_CHANGE_CIPHER :: u8 where "NFS_TLS_CT_CHANGE_CIPHER = 20"
definition NFS_TLS_CT_ALERT :: u8 where "NFS_TLS_CT_ALERT = 21"
definition NFS_TLS_CT_HANDSHAKE :: u8 where "NFS_TLS_CT_HANDSHAKE = 22"
definition NFS_TLS_CT_APPLICATION :: u8 where "NFS_TLS_CT_APPLICATION = 23"
definition NFS_TLS_ALERT_WARNING :: u8 where "NFS_TLS_ALERT_WARNING = 1"
definition NFS_TLS_ALERT_FATAL :: u8 where "NFS_TLS_ALERT_FATAL = 2"

record nfs_tls_record =
  tr_content_type :: u8
  tr_version :: u16
  tr_length :: u16
  tr_fragment :: "u8 list"

record nfs_tls_alert =
  ta_level :: u8
  ta_description :: u8

definition nfs_tls_record_parse :: "u8 list \<Rightarrow> (nfs_tls_record \<times> nat) option" where
  "nfs_tls_record_parse buf =
     (if length buf < NFS_TLS_RECORD_HDR_SIZE then None
      else
        let content_type = buf ! 0 in
        if content_type < NFS_TLS_CT_CHANGE_CIPHER \<or> content_type > NFS_TLS_CT_APPLICATION then None
        else
          let flen = get16 buf 3 in
          if unat flen > NFS_TLS_MAX_CIPHERTEXT then None
          else if NFS_TLS_RECORD_HDR_SIZE + unat flen > length buf then None
          else Some (\<lparr> tr_content_type = content_type, tr_version = get16 buf 1, tr_length = flen,
                       tr_fragment = take (unat flen) (drop NFS_TLS_RECORD_HDR_SIZE buf) \<rparr>,
                     NFS_TLS_RECORD_HDR_SIZE + unat flen))"

definition nfs_tls_record_build :: "nat \<Rightarrow> u8 \<Rightarrow> u16 \<Rightarrow> u8 list \<Rightarrow> u8 list option" where
  "nfs_tls_record_build buf_max content_type version fragment =
     (if length fragment > NFS_TLS_MAX_CIPHERTEXT then None
      else if NFS_TLS_RECORD_HDR_SIZE + length fragment > buf_max then None
      else Some ([content_type] @ put16 version @ put16 (of_nat (length fragment)) @ fragment))"

definition nfs_tls_alert_parse :: "u8 list \<Rightarrow> nfs_tls_alert option" where
  "nfs_tls_alert_parse fragment =
     (if length fragment < 2 then None
      else if fragment ! 0 \<noteq> NFS_TLS_ALERT_WARNING \<and> fragment ! 0 \<noteq> NFS_TLS_ALERT_FATAL then None
      else Some \<lparr> ta_level = fragment ! 0, ta_description = fragment ! 1 \<rparr>)"

definition nfs_tls_alert_build :: "nat \<Rightarrow> u8 \<Rightarrow> u8 \<Rightarrow> u8 list option" where
  "nfs_tls_alert_build buf_max level description =
     (if buf_max < 2 then None else Some [level, description])"

definition nfs_tls_content_type_name :: "u8 \<Rightarrow> string" where
  "nfs_tls_content_type_name ct =
     (if ct = NFS_TLS_CT_CHANGE_CIPHER then ''change_cipher_spec'' else if ct = NFS_TLS_CT_ALERT then ''alert''
      else if ct = NFS_TLS_CT_HANDSHAKE then ''handshake'' else if ct = NFS_TLS_CT_APPLICATION then ''application_data''
      else ''unknown'')"

definition nfs_tls_version_name :: "u16 \<Rightarrow> string" where
  "nfs_tls_version_name version =
     (if version = 0x0301 then ''TLS 1.0'' else if version = 0x0302 then ''TLS 1.1''
      else if version = 0x0303 then ''TLS 1.2'' else if version = 0x0304 then ''TLS 1.3'' else ''unknown'')"

definition nfs_tls_alert_desc_name :: "u8 \<Rightarrow> string" where
  "nfs_tls_alert_desc_name desc =
     (if desc = 0 then ''close_notify'' else if desc = 10 then ''unexpected_message''
      else if desc = 20 then ''bad_record_mac'' else if desc = 22 then ''record_overflow''
      else if desc = 40 then ''handshake_failure'' else if desc = 42 then ''bad_certificate''
      else if desc = 45 then ''certificate_expired'' else if desc = 48 then ''unknown_ca''
      else if desc = 50 then ''decode_error'' else if desc = 51 then ''decrypt_error''
      else if desc = 70 then ''protocol_version'' else if desc = 80 then ''internal_error''
      else ''unknown'')"

definition nfs_tls_alert_level_name :: "u8 \<Rightarrow> string" where
  "nfs_tls_alert_level_name level =
     (if level = NFS_TLS_ALERT_WARNING then ''warning'' else if level = NFS_TLS_ALERT_FATAL then ''fatal''
      else ''unknown'')"

section \<open>HTTP/2 frames read back\<close>

text \<open>A reader of a stream moves on by the header and the length it states.\<close>

definition h2_read :: "u8 list \<Rightarrow> (nfs_h2_frame \<times> nat) option" where
  "h2_read buf = map_option (\<lambda>f. (f, NFS_H2_FRAME_HEADER_SIZE + unat (hf_length f))) (nfs_h2_frame_parse buf)"

definition h2_bytes :: "nfs_h2_frame \<Rightarrow> u8 list" where
  "h2_bytes f = put24 (of_nat (length (hf_payload f))) @ [hf_type f, hf_flags f]
     @ put32 (hf_stream_id f AND 0x7FFFFFFF) @ hf_payload f"

text \<open>Frames whose length is the length of their payload; the reserved bit is not part of a frame.\<close>

definition h2_valid :: "nfs_h2_frame \<Rightarrow> bool" where
  "h2_valid f \<longleftrightarrow> length (hf_payload f) \<le> 0x00FFFFFF \<and> hf_length f = of_nat (length (hf_payload f)) \<and>
     unat (hf_stream_id f) < 2 ^ 31"

lemma h2_build_bytes:
  "nfs_h2_frame_build out_sz (hf_type f) (hf_flags f) (hf_stream_id f) (hf_payload f) = Some bs \<Longrightarrow> bs = h2_bytes f"
  by (simp add: nfs_h2_frame_build_def h2_bytes_def split: if_splits)

lemma low31: "unat (x :: u32) < 2 ^ 31 \<Longrightarrow> x AND 0x7FFFFFFF = x" "(x AND 0x7FFFFFFF) AND 0x7FFFFFFF = x AND 0x7FFFFFFF"
proof -
  have m: "(0x7FFFFFFF :: u32) = mask 31" by (simp add: mask_eq_exp_minus_1)
  show "x AND 0x7FFFFFFF = x" if "unat x < 2 ^ 31"
  proof -
    have "bit x n \<Longrightarrow> n < 31" for n using that by (rule bit_less_exp [rotated])
    then show ?thesis unfolding m by (intro bit_word_eqI) (auto simp: bit_and_iff bit_mask_iff)
  qed
  show "(x AND 0x7FFFFFFF) AND 0x7FFFFFFF = x AND 0x7FFFFFFF"
    by (simp add: and.assoc)
qed

interpretation h2: self_delimiting h2_bytes h2_read h2_valid
proof
  fix f :: nfs_h2_frame and rest
  assume v: "h2_valid f"
  let ?n = "length (hf_payload f)"
  have n: "unat (of_nat ?n :: u32) = ?n" "unat (hf_length f) = ?n"
    using v by (auto simp: h2_valid_def intro: unat_of_nat_u32)
  have l: "get24 (h2_bytes f @ rest) 0 = hf_length f"
    using get24_put24 [of "of_nat ?n" "[]"] n v by (simp add: h2_bytes_def h2_valid_def)
  have g: "(h2_bytes f @ rest) ! 3 = hf_type f" "(h2_bytes f @ rest) ! 4 = hf_flags f"
    "get32 (h2_bytes f @ rest) 5 = hf_stream_id f AND 0x7FFFFFFF"
    "drop 9 (h2_bytes f @ rest) = hf_payload f @ rest" "length (h2_bytes f) = 9 + ?n"
    by (simp_all add: h2_bytes_def nth_append get_past)
  have i: "hf_stream_id f AND 0x7FFFFFFF = hf_stream_id f" using v low31(1) by (simp add: h2_valid_def)
  show "h2_read (h2_bytes f @ rest) = Some (f, length (h2_bytes f))"
    unfolding h2_read_def nfs_h2_frame_parse_def Let_def NFS_H2_FRAME_HEADER_SIZE_def l g n
    by (simp add: g i n)
qed

text \<open>The SETTINGS payloads are exactly the lists of settings: six bytes each.\<close>

lemma settings_parse_Cons:
  assumes "length p mod 6 = 0" and "p \<noteq> []"
  shows "nfs_h2_settings_parse p (Suc n) =
    map_option (\<lambda>ss. \<lparr> hs_id = get16 p 0, hs_value = get32 p 2 \<rparr> # ss) (nfs_h2_settings_parse (drop 6 p) n)"
proof -
  obtain j where j: "length p = 6 * j" using assms(1) by (auto simp: mod_eq_0_iff_dvd)
  then obtain k where k: "length p = 6 * Suc k" using assms(2) by (cases j) auto
  have s: "get16 (drop 6 p) i = get16 p (6 + i)" "get32 (drop 6 p) i = get32 p (6 + i)" for i
    using k by (simp_all add: get16_def get32_def add.assoc)
  have u: "[0..<Suc k] = 0 # map Suc [0..<k]" by (simp add: upt_conv_Cons map_Suc_upt del: upt_Suc)
  show ?thesis
    unfolding nfs_h2_settings_parse_def Let_def using k
    by (simp add: u s numeral_2_eq_2 del: upt_Suc)
qed

lemma settings_build_parse:
  "nfs_h2_settings_parse (concat (map (\<lambda>s. put16 (hs_id s) @ put32 (hs_value s)) ss)) (length ss) = Some ss"
proof (induction ss)
  case (Cons s ss)
  have len: "length (concat (map (\<lambda>s. put16 (hs_id s) @ put32 (hs_value s)) xs)) = 6 * length xs" for xs
    by (induction xs) simp_all
  have "concat (map (\<lambda>s. put16 (hs_id s) @ put32 (hs_value s)) (s # ss)) \<noteq> []" by (simp add: put16_def)
  then show ?case
    using Cons.IH settings_parse_Cons
      [of "concat (map (\<lambda>s. put16 (hs_id s) @ put32 (hs_value s)) (s # ss))" "length ss"] len [of "s # ss"]
    by (simp add: get_past)
qed (simp add: nfs_h2_settings_parse_def)

lemma put_get_bytes:
  "i + 2 \<le> length bs \<Longrightarrow> put16 (get16 bs i) = take 2 (drop i bs)"
  "i + 4 \<le> length bs \<Longrightarrow> put32 (get32 bs i) = take 4 (drop i bs)"
  by (simp_all add: get16_def put16_def get32_def put32_def drop_nth_Cons numeral_eq_Suc)

lemma settings_parse_build:
  "nfs_h2_settings_parse p n = Some ss \<Longrightarrow>
     p = concat (map (\<lambda>s. put16 (hs_id s) @ put32 (hs_value s)) ss) \<and> length ss \<le> n"
proof (induction ss arbitrary: p n)
  case Nil
  then show ?case by (auto simp: nfs_h2_settings_parse_def Let_def split: if_splits)
next
  case (Cons s ss)
  have m: "length p mod 6 = 0" "length p div 6 \<le> n"
    and e: "map (\<lambda>i. \<lparr> hs_id = get16 p (i * 6), hs_value = get32 p (i * 6 + 2) \<rparr>) [0..<length p div 6] = s # ss"
    using Cons.prems by (simp_all add: nfs_h2_settings_parse_def Let_def split: if_splits)
  have "length p div 6 = Suc (length ss)" using arg_cong [OF e, of length] by simp
  note m = m this
  then obtain k where n: "n = Suc k" and p: "6 \<le> length p" by (cases n) auto
  then have "p \<noteq> []" by auto
  then have r: "nfs_h2_settings_parse (drop 6 p) k = Some ss" "s = \<lparr> hs_id = get16 p 0, hs_value = get32 p 2 \<rparr>"
    using Cons.prems settings_parse_Cons [OF m(1), of k] n by auto
  have t: "take 6 p = put16 (get16 p 0) @ put32 (get32 p 2)"
    using p put_get_bytes(1) [of 0 p] put_get_bytes(2) [of 2 p] take_add [of 2 4 p] by simp
  have "p = put16 (get16 p 0) @ put32 (get32 p 2) @ drop 6 p"
    using append_take_drop_id [of 6 p] unfolding t by simp
  then show ?case using Cons.IH [OF r(1)] r(2) n by auto
qed

text \<open>
  HTTP/2 frames built one after the other and read back from the stream, whatever follows: the
  reader finds them all, in order, and stops where the next one begins. And a payload is
  accepted as SETTINGS, with room for \<open>n\<close> of them, exactly if it is the payload some list of at
  most \<open>n\<close> settings is built to, which is the list returned.
\<close>
theorem h2_stream_roundtrip:
  assumes "list_all h2_valid fs"
    and "list_all2 (\<lambda>f bs. nfs_h2_frame_build (length bs) (hf_type f) (hf_flags f) (hf_stream_id f) (hf_payload f) = Some bs) fs wires"
  shows "read_items h2_read (length fs) (concat wires @ rest) = Some (fs, rest) \<and>
    (\<forall>p n ss. nfs_h2_settings_parse p n = Some ss \<longleftrightarrow>
       nfs_h2_settings_build (length p) ss = Some p \<and> length ss \<le> n)"
proof -
  have "concat wires = concat (map h2_bytes fs)"
    using assms(2) by (induction rule: list_all2_induct) (auto dest: h2_build_bytes)
  moreover have "nfs_h2_settings_parse p n = Some ss \<longleftrightarrow>
      nfs_h2_settings_build (length p) ss = Some p \<and> length ss \<le> n" for p n ss
  proof
    have len: "length (concat (map (\<lambda>s. put16 (hs_id s) @ put32 (hs_value s)) xs)) = 6 * length xs" for xs
      by (induction xs) simp_all
    show "nfs_h2_settings_build (length p) ss = Some p \<and> length ss \<le> n"
      if "nfs_h2_settings_parse p n = Some ss"
      using settings_parse_build [OF that] len [of ss] by (simp add: nfs_h2_settings_build_def)
    assume r: "nfs_h2_settings_build (length p) ss = Some p \<and> length ss \<le> n"
    then have p: "p = concat (map (\<lambda>s. put16 (hs_id s) @ put32 (hs_value s)) ss)"
      by (simp add: nfs_h2_settings_build_def split: if_splits)
    then show "nfs_h2_settings_parse p n = Some ss"
      using settings_build_parse [of ss] r len [of ss]
      by (simp add: nfs_h2_settings_parse_def Let_def)
  qed
  ultimately show ?thesis using h2.read_items_concat [OF assms(1)] by simp
qed

lemma h2_stream_roundtrip_witness:
  "read_items h2_read 1 ([0, 0, 2, 0, 1, 0, 0, 0, 5, 104, 105] @ [0, 0]) =
     Some ([\<lparr> hf_length = 2, hf_type = 0, hf_flags = 1, hf_stream_id = 5, hf_payload = [104, 105] \<rparr>], [0, 0])"
proof -
  let ?f = "\<lparr> hf_length = 2, hf_type = 0, hf_flags = 1, hf_stream_id = 5, hf_payload = [104, 105] \<rparr>"
  have "h2_valid ?f" by (simp add: h2_valid_def)
  moreover have "nfs_h2_frame_build (length [0, 0, 2, 0, 1, 0, 0, 0, 5, 104, 105 :: u8]) 0 1 5 [104, 105] = Some [0, 0, 2, 0, 1, 0, 0, 0, 5, 104, 105]"
    by (simp add: nfs_h2_frame_build_def NFS_H2_FRAME_HEADER_SIZE_def put24_def put32_def byte3_def
        byte2_def byte1_def byte0_def)
  ultimately show ?thesis
    using h2_stream_roundtrip [of "[?f]" "[[0, 0, 2, 0, 1, 0, 0, 0, 5, 104, 105]]" "[0, 0]"] by simp
qed

section \<open>WebSocket frames as they arrive\<close>
lemma length_mask_run [simp]: "length (mask_run key i bs) = length bs"
  by (induction key i bs rule: mask_run.induct) simp_all

lemma mask_run_twice: "mask_run key i (mask_run key i bs) = bs"
  by (induction key i bs rule: mask_run.induct) (simp_all add: xor.assoc)

lemma mask_twice: "nfs_ws_mask_payload (nfs_ws_mask_payload bs key) key = bs"
  by (simp add: nfs_ws_mask_payload_def mask_run_twice)

text \<open>A byte with a flag on top.\<close>

lemma flag_byte:
  fixes n :: u8
  assumes "unat n < 128"
  shows "((if b then 0x80 else 0) OR n) AND 0x7F = n"
    and "drop_bit 7 ((if b then 0x80 else 0) OR n) AND 1 \<noteq> 0 \<longleftrightarrow> b"
proof -
  have n: "bit n i \<Longrightarrow> i < 7" for i using assms bit_less_exp [of n i 7] by simp
  have x: "(0x80 :: u8) = 2 ^ 7" "(0x7F :: u8) = mask 7" "(1 :: u8) = mask 1"
    by (simp_all add: mask_eq_exp_minus_1)
  define w where "w = (if b then 0x80 else 0) OR n"
  have bt: "bit w i \<longleftrightarrow> i = 7 \<and> b \<or> bit n i" for i
    unfolding w_def x by (cases b; simp only: if_True if_False bit_or_iff bit_exp_iff bit_0_eq bot_apply bot_bool_def) auto
  show "((if b then 0x80 else 0) OR n) AND 0x7F = n"
    unfolding w_def [symmetric] x(2) by (rule bit_word_eqI) (use n in \<open>auto simp: bit_and_iff bit_mask_iff bt\<close>)
  have "bit (drop_bit 7 w AND 1) i \<longleftrightarrow> i = 0 \<and> b" for i
    unfolding x(3) by (simp only: bit_and_iff bit_mask_iff bit_drop_bit_eq bt o_apply) (auto dest: n)
  then show "drop_bit 7 ((if b then 0x80 else 0) OR n) AND 1 \<noteq> 0 \<longleftrightarrow> b"
    unfolding w_def [symmetric] by (metis bit_0_eq bot_apply bot_bool_def bit_eqI)
qed

lemma op_byte:
  fixes op :: u8
  shows "drop_bit 4 ((if b then 0x80 else 0) OR (op AND 0x0F)) AND 0x07 = 0"
    and "((if b then 0x80 else 0) OR (op AND 0x0F)) AND 0x0F = op AND 0x0F"
    and "unat (op AND 0x0F) < 128"
proof -
  have x: "(0x80 :: u8) = 2 ^ 7" "(0x0F :: u8) = mask 4" "(0x07 :: u8) = mask 3"
    by (simp_all add: mask_eq_exp_minus_1)
  define w where "w = (if b then 0x80 else 0) OR (op AND 0x0F)"
  have bt: "bit w i \<longleftrightarrow> i = 7 \<and> b \<or> i < 4 \<and> bit op i" for i
    unfolding w_def x by (cases b; simp only: if_True if_False bit_or_iff bit_exp_iff bit_0_eq bot_apply bot_bool_def)
      (auto simp: bit_and_iff bit_mask_iff)
  show "drop_bit 4 ((if b then 0x80 else 0) OR (op AND 0x0F)) AND 0x07 = 0"
    unfolding w_def [symmetric] x(3)
    by (rule bit_word_eqI) (auto simp: bit_and_iff bit_mask_iff bit_drop_bit_eq bt)
  show "((if b then 0x80 else 0) OR (op AND 0x0F)) AND 0x0F = op AND 0x0F"
    unfolding w_def [symmetric] unfolding x(2)
    by (rule bit_word_eqI) (auto simp: bit_and_iff bt bit_mask_iff)
  have "op AND 0x0F = take_bit 4 op" unfolding x(2) by (simp add: take_bit_eq_mask)
  then have "unat (op AND 0x0F) = take_bit 4 (unat op)" by (simp add: unsigned_take_bit_eq)
  then show "unat (op AND 0x0F) < 128"
    using take_bit_nat_less_exp [of 4 "unat op"] by simp
qed

text \<open>The length field and the header the builder writes.\<close>

definition ws_length :: "bool \<Rightarrow> nat \<Rightarrow> u8 list" where
  "ws_length masked n =
     (let mask_bit = (if masked then 0x80 else 0) in
      if n \<le> 125 then [mask_bit OR of_nat n]
      else if n \<le> 65535 then (mask_bit OR 126) # put16 (of_nat n)
      else (mask_bit OR 127) # write_be64 (of_nat n))"

definition ws_header :: "u8 \<Rightarrow> bool \<Rightarrow> bool \<Rightarrow> u8 list \<Rightarrow> nat \<Rightarrow> u8 list" where
  "ws_header opcode fin masked key n =
     ((if fin then 0x80 else 0) OR (opcode AND 0x0F)) # ws_length masked n @ (if masked then key else [])"

lemma ws_build_eq:
  assumes "length key = 4"
  shows "nfs_ws_build_frame opcode fin masked key payload out_sz =
    (if length (ws_header opcode fin masked key (length payload)) + length payload \<le> out_sz
     then Some (ws_header opcode fin masked key (length payload)
       @ (if masked then nfs_ws_mask_payload payload key else payload)) else None)"
  using assms by (auto simp: nfs_ws_build_frame_def ws_header_def ws_length_def Let_def write_be64_def)

lemma ws_parse_header:
  assumes "length key = 4" and "n < 2 ^ 63"
  shows "nfs_ws_parse_frame (ws_header opcode fin masked key n @ rest) =
    WsFrame \<lparr> wf_fin = fin, wf_rsv = 0, wf_opcode = opcode AND 0x0F, wf_masked = masked,
      wf_payload_len = of_nat n, wf_mask_key = (if masked then key else [0, 0, 0, 0]) \<rparr>
      (length (ws_header opcode fin masked key n))"
proof -
  let ?b0 = "(if fin then 0x80 else 0) OR (opcode AND 0x0F) :: u8"
  note b0 = flag_byte(2) [OF op_byte(3), of fin opcode] op_byte(1,2) [of fin opcode]
  have b1: "((if masked then 0x80 else 0) OR m) AND 0x7F = m"
    "drop_bit 7 ((if masked then 0x80 else 0) OR m) AND 1 \<noteq> 0 \<longleftrightarrow> masked" if "unat m < 128" for m :: u8
    using flag_byte [OF that, of masked] by blast+
  consider "n \<le> 125" | "125 < n" "n \<le> 65535" | "65535 < n" by linarith
  then show ?thesis
  proof cases
    case 1
    then have u: "unat (of_nat n :: u8) = n" by (simp add: unat_of_nat_u8)
    have c: "(ucast (of_nat n :: u8) :: u64) = of_nat n"
      using u 1 by (simp add: word_unat_eq_iff unsigned_ucast_eq take_bit_nat_eq_self_iff unat_of_nat)
    show ?thesis
      using 1 u b1 [of "of_nat n"] b0 assms(1) c
      by (simp add: ws_header_def ws_length_def nfs_ws_parse_frame_def Let_def word_le_nat_alt)
  next
    case 2
    then have u: "unat (of_nat n :: u16) = n" by (simp add: unat_of_nat_u16)
    have c: "(ucast (of_nat n :: u16) :: u64) = of_nat n"
      using u 2 by (simp add: word_unat_eq_iff unsigned_ucast_eq take_bit_nat_eq_self_iff unat_of_nat)
    show ?thesis
      using 2 u b1 [of 126] b0 assms(1) c
      by (simp add: ws_header_def ws_length_def nfs_ws_parse_frame_def Let_def word_le_nat_alt get_past)
  next
    case 3
    have u: "unat (of_nat n :: u64) = n" using assms(2) by (simp add: unat_of_nat)
    have "unat (drop_bit 63 (of_nat n :: u64)) = 0"
      unfolding unat_drop_bit_eq u using assms(2) by (simp add: drop_bit_eq_div)
    then have c: "drop_bit 63 (of_nat n :: u64) = 0" by (simp add: unat_eq_0)
    have l: "length (write_be64 v) = 8" for v by (simp add: write_be64_def)
    show ?thesis
      using 3 b1 [of 127] b0 assms(1) c read_write_be64 [of "of_nat n"]
      by (simp add: ws_header_def ws_length_def nfs_ws_parse_frame_def Let_def word_le_nat_alt l)
  qed
qed

text \<open>As long as the header is not complete, the parser asks for more.\<close>

lemma length_ws_header:
  "length key = 4 \<Longrightarrow> length (ws_header opcode fin masked key n) =
     (if n \<le> 125 then 2 else if n \<le> 65535 then 4 else 10) + (if masked then 4 else 0)"
  by (simp add: ws_header_def ws_length_def Let_def write_be64_def)

lemma ws_parse_partial:
  assumes "length key = 4" and "n < 2 ^ 63" and "k < length (ws_header opcode fin masked key n)"
  shows "nfs_ws_parse_frame (take k (ws_header opcode fin masked key n)) = WsNeedMore"
proof (cases "k < 2")
  case False
  let ?h = "ws_header opcode fin masked key n"
  have nth: "take k ?h ! 0 = ?h ! 0" "take k ?h ! 1 = ?h ! 1" "length (take k ?h) = k"
    using False assms(3) by simp_all
  have m: "drop_bit 7 (?h ! 1) AND 1 \<noteq> 0 \<longleftrightarrow> masked"
    and l7: "?h ! 1 AND 0x7F = (if n \<le> 125 then of_nat n else if n \<le> 65535 then 126 else 127)"
    using flag_byte [of "if n \<le> 125 then of_nat n else if n \<le> 65535 then 126 else 127" masked]
    by (auto simp: ws_header_def ws_length_def Let_def unat_of_nat_u8 split: if_splits)
  have big: "read_be64 (drop 2 (take k ?h)) = of_nat n" if "65535 < n" "10 \<le> k"
  proof -
    have d: "drop 2 ?h = write_be64 (of_nat n) @ (if masked then key else [])"
      using that(1) by (simp add: ws_header_def ws_length_def Let_def)
    have "drop 2 (take k ?h) = write_be64 (of_nat n) @ take (k - 10) (if masked then key else [])"
      unfolding drop_take d using that(2) by (simp add: write_be64_def)
    then show ?thesis using read_write_be64 by simp
  qed
  have "unat (of_nat n :: u64) = n" using assms(2) by (simp add: unat_of_nat)
  then have "unat (drop_bit 63 (of_nat n :: u64)) = 0"
    unfolding unat_drop_bit_eq using assms(2) by (simp add: drop_bit_eq_div)
  then have c: "drop_bit 63 (of_nat n :: u64) = 0" by (simp add: unat_eq_0)
  show ?thesis
    using assms(3) False big c unfolding nfs_ws_parse_frame_def Let_def nth m l7 length_ws_header [OF assms(1)]
    by (auto simp: word_le_nat_alt unat_of_nat_u8 split: if_splits)
next
  case True
  then have "length (take k (ws_header opcode fin masked key n)) < 2" by simp
  then show ?thesis unfolding nfs_ws_parse_frame_def by (simp only: if_True)
qed

text \<open>
  C29. A WebSocket frame as it arrives: the parser asks for more until the last byte of the header is
  there and from then on, however much has arrived, reports the frame that was built and where
  its payload begins; the payload is the one sent, once it is unmasked if it was masked.
\<close>
theorem ws_frame_arrives:
  assumes "nfs_ws_build_frame opcode fin masked key payload out_sz = Some wire"
    and "length key = 4" and "length payload < 2 ^ 63"
  shows "\<exists>hdr. length wire = hdr + length payload \<and>
    (\<forall>k < hdr. nfs_ws_parse_frame (take k wire) = WsNeedMore) \<and>
    (\<forall>k rest. hdr \<le> k \<longrightarrow> nfs_ws_parse_frame (take k (wire @ rest)) =
       WsFrame \<lparr> wf_fin = fin, wf_rsv = 0, wf_opcode = opcode AND 0x0F, wf_masked = masked,
         wf_payload_len = of_nat (length payload), wf_mask_key = (if masked then key else [0, 0, 0, 0]) \<rparr> hdr) \<and>
    (if masked then nfs_ws_mask_payload (drop hdr wire) key = payload else drop hdr wire = payload)"
proof -
  let ?h = "ws_header opcode fin masked key (length payload)"
  define body where "body = (if masked then nfs_ws_mask_payload payload key else payload)"
  have w: "wire = ?h @ body"
    using assms(1) unfolding ws_build_eq [OF assms(2)] body_def by (simp split: if_splits)
  have b: "length body = length payload" by (simp add: body_def nfs_ws_mask_payload_def)
  have "take k (wire @ rest) = ?h @ take (k - length ?h) (body @ rest)" if "length ?h \<le> k" for k rest
    using that by (simp add: w)
  then show ?thesis
    using ws_parse_header [OF assms(2,3), of opcode fin masked] ws_parse_partial [OF assms(2,3), of _ opcode fin masked] b mask_twice
    by (intro exI [of _ "length ?h"]) (auto simp: w body_def)
qed

lemma ws_frame_arrives_witness:
  "\<exists>wire hdr. nfs_ws_build_frame 1 True True [1, 2, 3, 4] [72, 105] 64 = Some wire \<and>
     nfs_ws_mask_payload (drop hdr wire) [1, 2, 3, 4] = [72, 105]"
proof -
  obtain wire where w: "nfs_ws_build_frame 1 True True [1, 2, 3, 4] [72, 105] 64 = Some wire"
    by (simp add: nfs_ws_build_frame_def Let_def)
  then show ?thesis using ws_frame_arrives [OF w] by auto
qed

section \<open>TLS records read back\<close>

definition tls_bytes :: "nfs_tls_record \<Rightarrow> u8 list" where
  "tls_bytes r = [tr_content_type r] @ put16 (tr_version r) @ put16 (of_nat (length (tr_fragment r))) @ tr_fragment r"

definition tls_valid :: "nfs_tls_record \<Rightarrow> bool" where
  "tls_valid r \<longleftrightarrow> 20 \<le> tr_content_type r \<and> tr_content_type r \<le> 23 \<and> length (tr_fragment r) \<le> 16640 \<and>
     tr_length r = of_nat (length (tr_fragment r))"

lemma tls_build_bytes:
  "nfs_tls_record_build n (tr_content_type r) (tr_version r) (tr_fragment r) = Some bs \<Longrightarrow> bs = tls_bytes r"
  by (simp add: nfs_tls_record_build_def tls_bytes_def split: if_splits)

interpretation tls: self_delimiting tls_bytes nfs_tls_record_parse tls_valid
proof
  fix r :: nfs_tls_record and rest
  assume v: "tls_valid r"
  let ?n = "length (tr_fragment r)"
  have n: "unat (of_nat ?n :: u16) = ?n" using v by (intro unat_of_nat_u16) (simp add: tls_valid_def)
  have g: "(tls_bytes r @ rest) ! 0 = tr_content_type r" "get16 (tls_bytes r @ rest) 1 = tr_version r"
    "get16 (tls_bytes r @ rest) 3 = of_nat ?n" "drop 5 (tls_bytes r @ rest) = tr_fragment r @ rest"
    "length (tls_bytes r) = 5 + ?n"
    by (simp_all add: tls_bytes_def get_past)
  show "nfs_tls_record_parse (tls_bytes r @ rest) = Some (r, length (tls_bytes r))"
    unfolding nfs_tls_record_parse_def Let_def NFS_TLS_RECORD_HDR_SIZE_def g n
    using v by (simp add: g tls_valid_def NFS_TLS_CT_CHANGE_CIPHER_def NFS_TLS_CT_APPLICATION_def
        NFS_TLS_MAX_CIPHERTEXT_def not_less)
qed

lemma alert_roundtrip:
  "nfs_tls_alert_build n level desc = Some bs \<Longrightarrow>
     nfs_tls_alert_parse (bs @ rest) =
       (if level = NFS_TLS_ALERT_WARNING \<or> level = NFS_TLS_ALERT_FATAL
        then Some \<lparr> ta_level = level, ta_description = desc \<rparr> else None)"
  by (auto simp: nfs_tls_alert_build_def nfs_tls_alert_parse_def split: if_splits)

end
