(* ===== verification/TlsHello.thy ===== *)
theory TlsHello
  imports Frames
begin

text \<open>
  The TLS 1.3 ClientHello of \<^verbatim>\<open>phases/07-tls/08-tls-13-clienthello-byte-by-byte/tls_clienthello.c\<close>:
  parser, builder and the iterator over extensions, and the message inside a TLS record. The
  arrays of the struct with their counts are lists; the data of an extension, which the
  parser points at inside the input and the builder takes from a separate array, is its list of bytes.
\<close>

section \<open>Definitions\<close>

definition NFS_TLS_HS_CLIENT_HELLO :: u8 where "NFS_TLS_HS_CLIENT_HELLO = 1"
definition NFS_TLS_CH_MAX_SESSION_ID :: nat where "NFS_TLS_CH_MAX_SESSION_ID = 32"
definition NFS_TLS_CH_MAX_CIPHER_SUITES :: nat where "NFS_TLS_CH_MAX_CIPHER_SUITES = 16"
definition NFS_TLS_CH_MAX_EXTENSIONS :: nat where "NFS_TLS_CH_MAX_EXTENSIONS = 16"

record nfs_tls_extension =
  te_type :: u16
  te_data :: "u8 list"

record nfs_tls_client_hello =
  ch_msg_type :: u8
  ch_hs_length :: u32
  ch_legacy_version :: u16
  ch_random :: "u8 list"
  ch_session_id :: "u8 list"
  ch_cipher_suites :: "u16 list"
  ch_compression :: "u8 list"
  ch_extensions :: "nfs_tls_extension list"

text \<open>The loop over the cipher suites, and the one over the extensions up to \<open>ext_end\<close>.\<close>

fun read_suites :: "u8 list \<Rightarrow> nat \<Rightarrow> nat \<Rightarrow> u16 list" where
  "read_suites buf pos 0 = []"
| "read_suites buf pos (Suc n) = get16 buf pos # read_suites buf (pos + 2) n"

function read_extensions ::
  "u8 list \<Rightarrow> nat \<Rightarrow> nat \<Rightarrow> nfs_tls_extension list \<Rightarrow> (nfs_tls_extension list \<times> nat) option" where
  "read_extensions buf ext_end pos exts =
     (if pos + 4 \<le> ext_end \<and> length exts < NFS_TLS_CH_MAX_EXTENSIONS then
        let ext_type = get16 buf pos; ext_len = unat (get16 buf (pos + 2)) in
        if pos + 4 + ext_len > ext_end then None
        else read_extensions buf ext_end (pos + 4 + ext_len)
               (exts @ [\<lparr> te_type = ext_type, te_data = take ext_len (drop (pos + 4) buf) \<rparr>])
      else Some (exts, pos))"
  by pat_completeness auto
termination
  by (relation "measure (\<lambda>(buf, ext_end, pos, exts). ext_end - pos)") auto

declare read_extensions.simps [simp del]

definition nfs_tls_ch_parse :: "u8 list \<Rightarrow> (nfs_tls_client_hello \<times> nat) option" where
  "nfs_tls_ch_parse buf =
     (if length buf < 4 then None
      else if buf ! 0 \<noteq> NFS_TLS_HS_CLIENT_HELLO then None
      else
        let hs_length = get24 buf 1 in
        if 4 + unat hs_length > length buf then None
        else
          let end_pos = 4 + unat hs_length in
          if 4 + 2 > end_pos then None
          else if 6 + 32 > end_pos then None
          else if 38 + 1 > end_pos then None
          else
            let sid_len = unat (buf ! 38); pos = 39 in
            if sid_len > NFS_TLS_CH_MAX_SESSION_ID then None
            else if pos + sid_len > end_pos then None
            else
              let sid = take sid_len (drop pos buf); pos = pos + sid_len in
              if pos + 2 > end_pos then None
              else
                let cs_bytes = unat (get16 buf pos); pos = pos + 2; cs_count = cs_bytes div 2 in
                if cs_bytes mod 2 \<noteq> 0 then None
                else if cs_count > NFS_TLS_CH_MAX_CIPHER_SUITES then None
                else if pos + cs_bytes > end_pos then None
                else
                  let suites = read_suites buf pos cs_count; pos = pos + 2 * cs_count in
                  if pos + 1 > end_pos then None
                  else
                    let comp_len = unat (buf ! pos); pos = pos + 1 in
                    if comp_len > 4 then None
                    else if pos + comp_len > end_pos then None
                    else
                      let comp = take comp_len (drop pos buf); pos = pos + comp_len in
                      if pos + 2 > end_pos then None
                      else
                        let ext_bytes = unat (get16 buf pos); pos = pos + 2 in
                        if pos + ext_bytes > end_pos then None
                        else
                          (case read_extensions buf (pos + ext_bytes) pos [] of
                             None \<Rightarrow> None
                           | Some (exts, pos) \<Rightarrow>
                               Some (\<lparr> ch_msg_type = buf ! 0, ch_hs_length = hs_length,
                                       ch_legacy_version = get16 buf 4, ch_random = take 32 (drop 6 buf),
                                       ch_session_id = sid, ch_cipher_suites = suites,
                                       ch_compression = comp, ch_extensions = exts \<rparr>, pos)))"

definition extension_bytes :: "nfs_tls_extension \<Rightarrow> u8 list" where
  "extension_bytes e = put16 (te_type e) @ put16 (of_nat (length (te_data e))) @ te_data e"

definition nfs_tls_ch_build :: "nat \<Rightarrow> nfs_tls_client_hello \<Rightarrow> u8 list option" where
  "nfs_tls_ch_build buf_max ch =
     (let ext_total = sum_list (map (\<lambda>e. 4 + length (te_data e)) (ch_extensions ch));
          body_size = 2 + 32 + 1 + length (ch_session_id ch) + 2 + length (ch_cipher_suites ch) * 2 + 1
                      + length (ch_compression ch) + 2 + ext_total
      in if 4 + body_size > buf_max then None
         else Some ([NFS_TLS_HS_CLIENT_HELLO] @ put24 (of_nat body_size)
                @ put16 (ch_legacy_version ch) @ take 32 (ch_random ch)
                @ [of_nat (length (ch_session_id ch))] @ ch_session_id ch
                @ put16 (of_nat (length (ch_cipher_suites ch) * 2)) @ concat (map put16 (ch_cipher_suites ch))
                @ [of_nat (length (ch_compression ch))] @ ch_compression ch
                @ put16 (of_nat ext_total) @ concat (map extension_bytes (ch_extensions ch))))"

record nfs_tls_ext_iter =
  it_data :: "u8 list"
  it_total :: nat
  it_offset :: nat

definition nfs_tls_ext_iter_init :: "u8 list \<Rightarrow> nfs_tls_ext_iter" where
  "nfs_tls_ext_iter_init data = \<lparr> it_data = data, it_total = length data, it_offset = 0 \<rparr>"

text \<open>The iterator after the call with the extension, or \<open>None\<close> for -1.\<close>

definition nfs_tls_ext_iter_next :: "nfs_tls_ext_iter \<Rightarrow> nfs_tls_ext_iter \<times> nfs_tls_extension option" where
  "nfs_tls_ext_iter_next it =
     (if it_offset it + 4 > it_total it then (it, None)
      else
        let ext_type = get16 (it_data it) (it_offset it);
            it = it\<lparr> it_offset := it_offset it + 2 \<rparr>;
            len = unat (get16 (it_data it) (it_offset it));
            it = it\<lparr> it_offset := it_offset it + 2 \<rparr>
        in if it_offset it + len > it_total it then (it, None)
           else (it\<lparr> it_offset := it_offset it + len \<rparr>,
                 Some \<lparr> te_type = ext_type, te_data = take len (drop (it_offset it) (it_data it)) \<rparr>))"

definition nfs_tls_cipher_suite_name :: "u16 \<Rightarrow> string" where
  "nfs_tls_cipher_suite_name cs =
     (if cs = 0x1301 then ''TLS_AES_128_GCM_SHA256'' else if cs = 0x1302 then ''TLS_AES_256_GCM_SHA384''
      else if cs = 0x1303 then ''TLS_CHACHA20_POLY1305_SHA256'' else ''UNKNOWN'')"

definition nfs_tls_extension_name :: "u16 \<Rightarrow> string" where
  "nfs_tls_extension_name type =
     (if type = 0 then ''server_name'' else if type = 13 then ''signature_algorithms''
      else if type = 43 then ''supported_versions'' else if type = 51 then ''key_share'' else ''UNKNOWN'')"

section \<open>Extensions\<close>

lemma unat_ext_length: "length (te_data e) \<le> 65535 \<Longrightarrow> unat (of_nat (length (te_data e)) :: u16) = length (te_data e)"
  by (simp add: unat_of_nat_u16)

lemma length_extensions: "length (concat (map extension_bytes es)) = sum_list (map (\<lambda>e. 4 + length (te_data e)) es)"
  by (induction es) (simp_all add: extension_bytes_def)

lemma read_extensions_concat:
  assumes "list_all (\<lambda>e. length (te_data e) \<le> 65535) es"
    and "length acc + length es \<le> NFS_TLS_CH_MAX_EXTENSIONS"
    and "p = length pre"
  shows "read_extensions (pre @ concat (map extension_bytes es) @ rest) (p + length (concat (map extension_bytes es))) p acc =
    Some (acc @ es, p + length (concat (map extension_bytes es)))"
  using assms
proof (induction es arbitrary: pre p acc)
  case Nil
  then show ?case by (subst read_extensions.simps) simp
next
  case (Cons e es)
  define buf where "buf = pre @ concat (map extension_bytes (e # es)) @ rest"
  define stop where "stop = p + length (concat (map extension_bytes (e # es)))"
  have u: "unat (of_nat (length (te_data e)) :: u16) = length (te_data e)"
    using Cons.prems(1) by (simp add: unat_ext_length)
  have l: "length (extension_bytes e) = 4 + length (te_data e)" by (simp add: extension_bytes_def)
  have f: "get16 buf p = te_type e" "unat (get16 buf (p + 2)) = length (te_data e)"
    "take (length (te_data e)) (drop (p + 4) buf) = te_data e"
    using u by (simp_all add: buf_def extension_bytes_def get_past Cons.prems(3))
  have e: "\<lparr> te_type = te_type e, te_data = te_data e \<rparr> = e" by (cases e) simp
  have s: "p + 4 + length (te_data e) \<le> stop" by (simp add: stop_def l)
  have "read_extensions buf stop p acc =
      read_extensions buf stop (p + 4 + length (te_data e)) (acc @ [e])"
    using Cons.prems(2) s by (subst read_extensions.simps) (simp add: Let_def f [unfolded add_2_eq_Suc'] f e)
  also have "\<dots> = Some (acc @ (e # es), stop)"
    using Cons.IH [of "acc @ [e]" "p + 4 + length (te_data e)" "pre @ extension_bytes e"] Cons.prems l
    by (simp add: add.assoc buf_def stop_def)
  finally show ?case by (simp only: buf_def stop_def)
qed

text \<open>One call of the iterator at an offset, with how far it moves on.\<close>

definition iter_at :: "u8 list \<Rightarrow> nat \<Rightarrow> (nfs_tls_extension \<times> nat) option" where
  "iter_at data pos =
     (case nfs_tls_ext_iter_next ((nfs_tls_ext_iter_init data)\<lparr> it_offset := pos \<rparr>) of
        (it, Some e) \<Rightarrow> Some (e, it_offset it - pos)
      | (it, None) \<Rightarrow> None)"

interpretation extension: located_codec extension_bytes iter_at id "\<lambda>e. length (te_data e) \<le> 65535"
  by unfold_locales
    (simp add: iter_at_def nfs_tls_ext_iter_next_def nfs_tls_ext_iter_init_def extension_bytes_def get_past
      unat_ext_length Let_def)

section \<open>The message\<close>

text \<open>A message that fits the arrays of the struct and the length fields.\<close>

definition ch_valid :: "nfs_tls_client_hello \<Rightarrow> bool" where
  "ch_valid ch \<longleftrightarrow> length (ch_random ch) = 32 \<and> length (ch_session_id ch) \<le> NFS_TLS_CH_MAX_SESSION_ID \<and>
     length (ch_cipher_suites ch) \<le> NFS_TLS_CH_MAX_CIPHER_SUITES \<and> length (ch_compression ch) \<le> 4 \<and>
     length (ch_extensions ch) \<le> NFS_TLS_CH_MAX_EXTENSIONS \<and>
     sum_list (map (\<lambda>e. 4 + length (te_data e)) (ch_extensions ch)) \<le> 65535"

lemma read_suites_put:
  "p = length pre \<Longrightarrow> read_suites (pre @ concat (map put16 ss) @ rest) p (length ss) = ss"
proof (induction ss arbitrary: pre p)
  case (Cons s ss)
  then show ?case using Cons.IH [of "p + 2" "pre @ put16 s"] by (simp add: get_past)
qed simp

lemma length_put16s: "length (concat (map put16 ss)) = 2 * length ss"
  by (induction ss) simp_all

lemma extension_lengths: "sum_list (map (\<lambda>e. 4 + length (te_data e)) es) \<le> n \<Longrightarrow> list_all (\<lambda>e. length (te_data e) \<le> n) es"
  by (induction es) auto

lemma ch_parse_built:
  assumes "nfs_tls_ch_build m ch = Some bs" and "ch_valid ch"
  shows "nfs_tls_ch_parse (bs @ rest) =
    Some (ch\<lparr> ch_msg_type := NFS_TLS_HS_CLIENT_HELLO, ch_hs_length := of_nat (length bs - 4) \<rparr>, length bs)"
proof -
  define sid where "sid = ch_session_id ch"
  define suites where "suites = ch_cipher_suites ch"
  define comp where "comp = ch_compression ch"
  define es where "es = ch_extensions ch"
  define ext_total where "ext_total = sum_list (map (\<lambda>e. 4 + length (te_data e)) es)"
  define body where "body = 2 + 32 + 1 + length sid + 2 + length suites * 2 + 1 + length comp + 2 + ext_total"
  have v: "length (ch_random ch) = 32" "length sid \<le> 32" "length suites \<le> 16" "length comp \<le> 4"
    "length es \<le> 16" "ext_total \<le> 65535"
    using assms(2)
    by (simp_all add: ch_valid_def sid_def suites_def comp_def es_def ext_total_def
        NFS_TLS_CH_MAX_SESSION_ID_def NFS_TLS_CH_MAX_CIPHER_SUITES_def NFS_TLS_CH_MAX_EXTENSIONS_def)
  have bs: "bs = [1] @ put24 (of_nat body) @ put16 (ch_legacy_version ch) @ ch_random ch
      @ [of_nat (length sid)] @ sid @ put16 (of_nat (length suites * 2)) @ concat (map put16 suites)
      @ [of_nat (length comp)] @ comp @ put16 (of_nat ext_total) @ concat (map extension_bytes es)"
    using assms(1) v(1)
    by (simp add: nfs_tls_ch_build_def Let_def sid_def suites_def comp_def es_def ext_total_def body_def
        NFS_TLS_HS_CLIENT_HELLO_def split: if_splits)
  let ?b = "bs @ rest"
  have lb: "length bs = 4 + body"
    unfolding bs by (simp add: length_put16s length_extensions v(1) body_def ext_total_def)
  have "body < 2 ^ 24" using v by (simp add: body_def)
  then have ub: "unat (of_nat body :: u32) = body" by (intro unat_of_nat_u32) simp
  then have g24: "get24 ?b 1 = of_nat body"
    using get24_put24 [of "of_nat body" "[1]"] \<open>body < 2 ^ 24\<close> by (simp add: bs)
  have u: "unat (of_nat (length sid) :: u8) = length sid" "unat (of_nat (length comp) :: u8) = length comp"
    "unat (of_nat (length suites * 2) :: u16) = length suites * 2" "unat (of_nat ext_total :: u16) = ext_total"
    using v by (simp_all only: unat_of_nat_u8 unat_of_nat_u16)
  have g1: "?b ! 0 = 1" "get16 ?b 4 = ch_legacy_version ch" "take 32 (drop 6 ?b) = ch_random ch"
    "?b ! 38 = of_nat (length sid)" "take (length sid) (drop 39 ?b) = sid"
    "get16 ?b (39 + length sid) = of_nat (length suites * 2)"
    unfolding bs using v(1) by (simp_all add: get_past nth_append)
  define p where "p = 41 + length sid"
  have g2: "read_suites ?b p (length suites) = suites"
    using read_suites_put [of p "[1] @ put24 (of_nat body) @ put16 (ch_legacy_version ch) @ ch_random ch
      @ [of_nat (length sid)] @ sid @ put16 (of_nat (length suites * 2))" suites] v(1)
    unfolding bs p_def by simp
  define q where "q = p + 2 * length suites"
  have g3: "?b ! q = of_nat (length comp)" "get16 ?b (q + 1 + length comp) = of_nat ext_total"
    unfolding bs q_def p_def using v(1) by (simp_all add: get_past nth_append length_put16s)
  define pre0 where "pre0 = [1] @ put24 (of_nat body) @ put16 (ch_legacy_version ch) @ ch_random ch
      @ [of_nat (length sid)] @ sid @ put16 (of_nat (length suites * 2)) @ concat (map put16 suites)
      @ [of_nat (length comp)]"
  have "?b = pre0 @ comp @ put16 (of_nat ext_total) @ concat (map extension_bytes es) @ rest" "q + 1 = length pre0"
    unfolding bs pre0_def q_def p_def using v(1) by (simp_all add: length_put16s)
  then have g3': "take (length comp) (drop (q + 1) ?b) = comp" by simp
  define r where "r = q + 1 + length comp + 2"
  define pre where "pre = [1] @ put24 (of_nat body) @ put16 (ch_legacy_version ch) @ ch_random ch
      @ [of_nat (length sid)] @ sid @ put16 (of_nat (length suites * 2)) @ concat (map put16 suites)
      @ [of_nat (length comp)] @ comp @ put16 (of_nat ext_total)"
  have pre: "?b = pre @ concat (map extension_bytes es) @ rest" "r = length pre"
    unfolding bs pre_def r_def q_def p_def using v(1) by (simp_all add: length_put16s)
  have g4: "read_extensions ?b (r + ext_total) r [] = Some (es, r + ext_total)"
    using read_extensions_concat [of es "[]" r pre rest] extension_lengths [of es 65535] v(5,6) pre
    by (simp add: length_extensions ext_total_def NFS_TLS_CH_MAX_EXTENSIONS_def)
  have end_eq: "4 + body = r + ext_total" by (simp add: body_def r_def q_def p_def)
  have c: "39 + length sid + 2 = p" "length suites * 2 div 2 = length suites" "p + 2 * length suites = q"
    "length suites * 2 mod 2 = 0" "q + 1 + length comp + 2 = r"
    by (simp_all add: p_def q_def r_def)
  show ?thesis
    unfolding nfs_tls_ch_parse_def Let_def g24 ub NFS_TLS_HS_CLIENT_HELLO_def g1
    unfolding u unfolding g1 unfolding u c g2
    unfolding c g3 unfolding u g3' unfolding c g3 unfolding u g4
    using v end_eq lb
    by (simp add: p_def q_def r_def body_def NFS_TLS_CH_MAX_SESSION_ID_def NFS_TLS_CH_MAX_CIPHER_SUITES_def)
       (simp add: sid_def suites_def comp_def es_def)
qed

section \<open>The message in a record\<close>

text \<open>
  C28. A ClientHello that fits the struct, built, sent as the fragment of a handshake record and received
  with whatever follows on the stream: the record parser delimits it, the message parser gives
  the message back (with its type and length filled in) and consumes all of it, and the iterator walks
  through the same extensions.
\<close>
theorem client_hello_arrives:
  assumes "ch_valid ch" and "nfs_tls_ch_build n ch = Some hello"
    and "nfs_tls_record_build m NFS_TLS_CT_HANDSHAKE version hello = Some wire"
  shows "\<exists>r. nfs_tls_record_parse (wire @ rest) = Some (r, length wire) \<and>
    tr_content_type r = NFS_TLS_CT_HANDSHAKE \<and> tr_version r = version \<and>
    nfs_tls_ch_parse (tr_fragment r) =
      Some (ch\<lparr> ch_msg_type := NFS_TLS_HS_CLIENT_HELLO, ch_hs_length := of_nat (length hello - 4) \<rparr>, length hello) \<and>
    read_at iter_at (length (ch_extensions ch)) (concat (map extension_bytes (ch_extensions ch))) 0 =
      Some (ch_extensions ch, length (concat (map extension_bytes (ch_extensions ch))))"
proof -
  let ?r = "\<lparr> tr_content_type = NFS_TLS_CT_HANDSHAKE, tr_version = version,
     tr_length = of_nat (length hello), tr_fragment = hello \<rparr>"
  have "tls_valid ?r" "wire = tls_bytes ?r"
    using assms(3) by (auto simp: tls_valid_def nfs_tls_record_build_def NFS_TLS_MAX_CIPHERTEXT_def
        NFS_TLS_CT_HANDSHAKE_def tls_bytes_def split: if_splits)
  moreover have "list_all (\<lambda>e. length (te_data e) \<le> 65535) (ch_extensions ch)"
    using assms(1) by (intro extension_lengths) (simp add: ch_valid_def)
  ultimately show ?thesis
    using ch_parse_built [OF assms(2,1), of "[]"] tls.dec_enc_rest [of ?r rest]
      extension.read_at_concat [of "ch_extensions ch" "[]" "[]"]
    by (intro exI [of _ ?r]) simp
qed

lemma client_hello_arrives_witness:
  "\<exists>ch hello wire r. nfs_tls_ch_build 512 ch = Some hello \<and>
     nfs_tls_record_build 512 NFS_TLS_CT_HANDSHAKE 0x0301 hello = Some wire \<and>
     nfs_tls_record_parse (wire @ [9]) = Some (r, length wire) \<and> nfs_tls_ch_parse (tr_fragment r) \<noteq> None"
proof -
  define ch where "ch = \<lparr> ch_msg_type = 0, ch_hs_length = 0, ch_legacy_version = 0x0303, ch_random = replicate 32 7,
    ch_session_id = [1], ch_cipher_suites = [0x1301], ch_compression = [0],
    ch_extensions = [\<lparr> te_type = 43, te_data = [2, 3, 4] \<rparr>] \<rparr>"
  have v: "ch_valid ch" by (simp add: ch_valid_def ch_def NFS_TLS_CH_MAX_SESSION_ID_def
        NFS_TLS_CH_MAX_CIPHER_SUITES_def NFS_TLS_CH_MAX_EXTENSIONS_def)
  obtain hello where h: "nfs_tls_ch_build 512 ch = Some hello" and l: "length hello = 55"
    by (simp add: nfs_tls_ch_build_def ch_def extension_bytes_def)
  obtain wire where w: "nfs_tls_record_build 512 NFS_TLS_CT_HANDSHAKE 0x0301 hello = Some wire"
    using l by (simp add: nfs_tls_record_build_def NFS_TLS_MAX_CIPHERTEXT_def NFS_TLS_RECORD_HDR_SIZE_def)
  from client_hello_arrives [OF v h w, of "[9]"] h w show ?thesis by blast
qed

section \<open>Defects\<close>

text \<open>
  A call of the iterator that fails at an extension which is cut off still moves the offset past
  its header: the next call reads an extension out of the middle of it.
\<close>

lemma iterator_moves_on_failure:
  defines "it \<equiv> nfs_tls_ext_iter_init [0, 0, 0, 9, 0, 13, 0, 0]"
  shows "snd (nfs_tls_ext_iter_next it) = None"
    and "snd (nfs_tls_ext_iter_next (fst (nfs_tls_ext_iter_next it))) = Some \<lparr> te_type = 13, te_data = [] \<rparr>"
  by (simp_all add: it_def nfs_tls_ext_iter_init_def nfs_tls_ext_iter_next_def Let_def get16_def be16_def)

text \<open>
  Extensions of more than 65535 bytes together are written with a length that has wrapped.
\<close>

lemma extensions_length_wraps:
  assumes "ch_extensions ch = [\<lparr> te_type = 0, te_data = replicate 65532 0 \<rparr>]" and "length (ch_random ch) = 32"
    and "ch_session_id ch = []" and "ch_cipher_suites ch = []" and "ch_compression ch = []"
  shows "\<exists>bs. nfs_tls_ch_build 70000 ch = Some bs \<and> length bs = 65580 \<and> get16 bs 42 = 0"
proof -
  have w: "(of_nat 65536 :: u16) = 0" by (simp add: word_of_nat_eq_0_iff)
  define body where "body = concat (map extension_bytes (ch_extensions ch))"
  have l: "length body = 65536" by (simp add: body_def extension_bytes_def assms(1))
  have s: "sum_list (map (\<lambda>e. 4 + length (te_data e)) (ch_extensions ch)) = 65536" by (simp add: assms(1))
  have t: "take 32 (ch_random ch) = ch_random ch" using assms(2) by simp
  have "nfs_tls_ch_build 70000 ch = Some ([1] @ put24 (of_nat 65576) @ put16 (ch_legacy_version ch) @ ch_random ch
      @ [0] @ put16 0 @ [0] @ put16 (of_nat 65536) @ body)"
    unfolding nfs_tls_ch_build_def Let_def s body_def [symmetric] t
    by (simp add: assms(3-5) NFS_TLS_HS_CLIENT_HELLO_def)
  then show ?thesis unfolding w using l assms(2) by (simp add: get_past)
qed

end
