(* ===== verification/RecvWindow.thy ===== *)
theory RecvWindow
  imports Interfaces SeqNum Complex_Main
begin

text \<open>
  The receive window and the zero-window probes
  (\<^verbatim>\<open>phases/04-transport/21-receive-window-and-zero-window-probes/recv_win.c\<close>): a flat buffer that
  takes the bytes in order, as many as it has room for, and hands them to the application
  from its front. It refines a bounded queue. With the probe timer, a transfer through a
  window that closes comes to its end. Results of type \<^verbatim>\<open>int\<close> are read from their low 32 bits;
  the time is real; \<open>None\<close> in place of the buffer is the null pointer left by
  \<^verbatim>\<open>nfs_recv_window_free\<close>.
\<close>

section \<open>Definitions\<close>

record nfs_recv_window =
  rw_buffer :: "u8 list option"
  rw_capacity :: nat
  rw_used :: nat
  rw_nxt :: u32

definition nfs_recv_window_init :: "nat \<Rightarrow> nfs_recv_window" where
  "nfs_recv_window_init capacity =
     \<lparr> rw_buffer = Some (replicate capacity 0), rw_capacity = capacity, rw_used = 0, rw_nxt = 0 \<rparr>"

definition nfs_recv_window_free :: "nfs_recv_window \<Rightarrow> nfs_recv_window" where
  "nfs_recv_window_free w = w\<lparr> rw_buffer := None, rw_capacity := 0, rw_used := 0 \<rparr>"

definition nfs_recv_window_advertised :: "nfs_recv_window \<Rightarrow> u32" where
  "nfs_recv_window_advertised w = of_nat (rw_capacity w - rw_used w)"

definition nfs_recv_window_receive :: "nfs_recv_window \<Rightarrow> u32 \<Rightarrow> u8 list \<Rightarrow> int \<times> nfs_recv_window" where
  "nfs_recv_window_receive w s data =
     (case rw_buffer w of
        None \<Rightarrow> (- 1, w)
      | Some buf \<Rightarrow>
          if s \<noteq> rw_nxt w then (- 1, w)
          else if length data = 0 then (0, w)
          else
            let space = rw_capacity w - rw_used w in
            if space = 0 then (0, w)
            else
              let accept = (if length data < space then length data else space) in
              (sint (of_nat accept :: u32),
               w\<lparr> rw_buffer := Some (take (rw_used w) buf @ take accept data @ drop (rw_used w + accept) buf),
                  rw_used := rw_used w + accept,
                  rw_nxt := rw_nxt w + of_nat accept \<rparr>))"

text \<open>The bytes copied to the caller, with the window after its compaction.\<close>

definition nfs_recv_window_read :: "nfs_recv_window \<Rightarrow> nat \<Rightarrow> u8 list \<times> nfs_recv_window" where
  "nfs_recv_window_read w room =
     (case rw_buffer w of
        None \<Rightarrow> ([], w)
      | Some buf \<Rightarrow>
          let to_read = (if rw_used w < room then rw_used w else room) in
          if to_read = 0 then ([], w)
          else
            let remaining = rw_used w - to_read in
            (take to_read buf,
             w\<lparr> rw_buffer := Some (take remaining (drop to_read buf) @ drop remaining buf),
                rw_used := remaining \<rparr>))"

definition nfs_recv_window_is_zero :: "nfs_recv_window \<Rightarrow> bool" where
  "nfs_recv_window_is_zero w \<longleftrightarrow> rw_capacity w - rw_used w = 0"

record nfs_zwp =
  zwp_active :: bool
  zwp_interval :: real
  last_probe_time :: real
  probe_count :: int

definition nfs_zwp_init :: "real \<Rightarrow> nfs_zwp" where
  "nfs_zwp_init d = \<lparr> zwp_active = False, zwp_interval = d, last_probe_time = 0, probe_count = 0 \<rparr>"

definition nfs_zwp_start :: "nfs_zwp \<Rightarrow> real \<Rightarrow> nfs_zwp" where
  "nfs_zwp_start z now = z\<lparr> zwp_active := True, last_probe_time := now, probe_count := 0 \<rparr>"

definition nfs_zwp_check :: "nfs_zwp \<Rightarrow> real \<Rightarrow> bool \<times> nfs_zwp" where
  "nfs_zwp_check z now =
     (if \<not> zwp_active z then (False, z)
      else if now - last_probe_time z \<ge> zwp_interval z then
        (True, z\<lparr> probe_count := probe_count z + 1, last_probe_time := now \<rparr>)
      else (False, z))"

definition nfs_zwp_stop :: "nfs_zwp \<Rightarrow> nfs_zwp" where
  "nfs_zwp_stop z = z\<lparr> zwp_active := False, probe_count := 0, last_probe_time := 0 \<rparr>"

section \<open>A bounded queue\<close>

definition rw_data :: "nfs_recv_window \<Rightarrow> u8 list" where
  "rw_data w = (case rw_buffer w of None \<Rightarrow> [] | Some buf \<Rightarrow> take (rw_used w) buf)"

definition rw_ok :: "nfs_recv_window \<Rightarrow> bool" where
  "rw_ok w \<longleftrightarrow> (case rw_buffer w of None \<Rightarrow> False
     | Some buf \<Rightarrow> length buf = rw_capacity w \<and> rw_used w \<le> rw_capacity w)"

datatype rw_event = RwReceive u32 "u8 list" | RwRead nat

text \<open>The state of a run: the window and the bytes the application has been given.\<close>

fun rw_step :: "nfs_recv_window \<times> u8 list \<Rightarrow> rw_event \<Rightarrow> nfs_recv_window \<times> u8 list" where
  "rw_step (w, got) (RwReceive s data) = (snd (nfs_recv_window_receive w s data), got)"
| "rw_step (w, got) (RwRead room) =
     (snd (nfs_recv_window_read w room), got @ fst (nfs_recv_window_read w room))"

text \<open>The queue: the bytes read, the bytes held, their bound and the next number.\<close>

record byte_queue =
  bq_read :: "u8 list"
  bq_held :: "u8 list"
  bq_bound :: nat
  bq_nxt :: u32

fun bq_step :: "byte_queue \<Rightarrow> rw_event \<Rightarrow> byte_queue" where
  "bq_step q (RwReceive s data) =
     (let new = (if s = bq_nxt q then take (bq_bound q - length (bq_held q)) data else [])
      in q\<lparr> bq_held := bq_held q @ new, bq_nxt := bq_nxt q + of_nat (length new) \<rparr>)"
| "bq_step q (RwRead n) = q\<lparr> bq_read := bq_read q @ take n (bq_held q), bq_held := drop n (bq_held q) \<rparr>"

definition rw_queue :: "nfs_recv_window \<times> u8 list \<Rightarrow> byte_queue" where
  "rw_queue s = \<lparr> bq_read = snd s, bq_held = rw_data (fst s), bq_bound = rw_capacity (fst s),
     bq_nxt = rw_nxt (fst s) \<rparr>"

lemma receive_cases:
  fixes s :: u32 and data :: "u8 list"
  assumes "rw_ok w"
  defines "new \<equiv> (if s = rw_nxt w then take (rw_capacity w - rw_used w) data else [])"
  defines "w' \<equiv> snd (nfs_recv_window_receive w s data)"
  shows "rw_ok w'" and "rw_data w' = rw_data w @ new" and "rw_used w' = rw_used w + length new"
    and "rw_nxt w' = rw_nxt w + of_nat (length new)" and "rw_capacity w' = rw_capacity w"
    and "fst (nfs_recv_window_receive w s data) =
      (if s = rw_nxt w then sint (of_nat (length new) :: u32) else - 1)"
proof -
  obtain buf where buf: "rw_buffer w = Some buf" "length buf = rw_capacity w" "rw_used w \<le> rw_capacity w"
    using assms(1) by (auto simp: rw_ok_def split: option.splits)
  have "rw_ok w' \<and> rw_data w' = rw_data w @ new \<and> rw_used w' = rw_used w + length new \<and>
      rw_nxt w' = rw_nxt w + of_nat (length new) \<and> rw_capacity w' = rw_capacity w \<and>
      fst (nfs_recv_window_receive w s data) = (if s = rw_nxt w then sint (of_nat (length new) :: u32) else - 1)"
    using buf unfolding w'_def new_def nfs_recv_window_receive_def
    by (auto simp: rw_ok_def rw_data_def Let_def)
  then show "rw_ok w'" and "rw_data w' = rw_data w @ new" and "rw_used w' = rw_used w + length new"
    and "rw_nxt w' = rw_nxt w + of_nat (length new)" and "rw_capacity w' = rw_capacity w"
    and "fst (nfs_recv_window_receive w s data) =
      (if s = rw_nxt w then sint (of_nat (length new) :: u32) else - 1)"
    by simp_all
qed

lemma read_cases:
  fixes n :: nat
  assumes "rw_ok w"
  defines "w' \<equiv> snd (nfs_recv_window_read w n)"
  shows "rw_ok w'" and "rw_data w' = drop n (rw_data w)" and "rw_used w' = rw_used w - n"
    and "rw_nxt w' = rw_nxt w" and "rw_capacity w' = rw_capacity w"
    and "fst (nfs_recv_window_read w n) = take n (rw_data w)"
proof -
  obtain buf where buf: "rw_buffer w = Some buf" "length buf = rw_capacity w" "rw_used w \<le> rw_capacity w"
    using assms(1) by (auto simp: rw_ok_def split: option.splits)
  have "rw_ok w' \<and> rw_data w' = drop n (rw_data w) \<and> rw_used w' = rw_used w - n \<and>
      rw_nxt w' = rw_nxt w \<and> rw_capacity w' = rw_capacity w \<and>
      fst (nfs_recv_window_read w n) = take n (rw_data w)"
    using buf unfolding w'_def nfs_recv_window_read_def
    by (auto simp: rw_ok_def rw_data_def Let_def drop_take min_def)
  then show "rw_ok w'" and "rw_data w' = drop n (rw_data w)" and "rw_used w' = rw_used w - n"
    and "rw_nxt w' = rw_nxt w" and "rw_capacity w' = rw_capacity w"
    and "fst (nfs_recv_window_read w n) = take n (rw_data w)"
    by simp_all
qed

lemma rw_length: "rw_ok w \<Longrightarrow> length (rw_data w) = rw_used w"
  by (auto simp: rw_ok_def rw_data_def split: option.splits)

lemma rw_used_le: "rw_ok w \<Longrightarrow> rw_used w \<le> rw_capacity w"
  by (auto simp: rw_ok_def split: option.splits)

interpretation recv: simulation rw_step "\<lambda>s e. True" "\<lambda>s. rw_ok (fst s)" rw_queue bq_step
proof
  fix s :: "nfs_recv_window \<times> u8 list" and e
  assume ok: "rw_ok (fst s)"
  obtain w got where s: "s = (w, got)" by (cases s)
  show "rw_ok (fst (rw_step s e))"
    using ok unfolding s by (cases e) (simp_all add: receive_cases read_cases)
  show "rw_queue (rw_step s e) = bq_step (rw_queue s) e"
    using ok unfolding s by (cases e) (simp_all add: rw_queue_def receive_cases read_cases rw_length Let_def)
qed

section \<open>The stream\<close>

text \<open>
  Segments of the stream \<open>S\<close> whose first byte has number \<open>iss\<close>, in any order, cut anywhere
  and repeated, and reads of the application.
\<close>

datatype net_event = NetSegment nat nat | AppRead nat

fun as_event :: "u32 \<Rightarrow> u8 list \<Rightarrow> net_event \<Rightarrow> rw_event" where
  "as_event iss S (NetSegment pos n) = RwReceive (iss + of_nat pos) (take n (drop pos S))"
| "as_event iss S (AppRead n) = RwRead n"

definition rw_start :: "u32 \<Rightarrow> nat \<Rightarrow> nfs_recv_window" where
  "rw_start iss cap = (nfs_recv_window_init cap)\<lparr> rw_nxt := iss \<rparr>"

lemma rw_start_fields [simp]:
  "rw_ok (rw_start iss cap)" "rw_data (rw_start iss cap) = []" "rw_used (rw_start iss cap) = 0"
  "rw_nxt (rw_start iss cap) = iss" "rw_capacity (rw_start iss cap) = cap"
  by (simp_all add: rw_start_def nfs_recv_window_init_def rw_ok_def rw_data_def)

definition bq_of :: "u32 \<Rightarrow> u8 list \<Rightarrow> byte_queue \<Rightarrow> bool" where
  "bq_of iss S q \<longleftrightarrow>
     (\<exists>k \<le> length S. bq_read q @ bq_held q = take k S \<and> bq_nxt q = iss + of_nat k)"

lemma same_position:
  assumes "(of_nat i :: u32) = of_nat j" and "i < 4294967296" and "j < 4294967296"
  shows "i = j"
  using assms by (metis unat_of_nat_u32)

lemma take_more: "take k S @ take n (drop k S) = take (k + length (take n (drop k S))) S"
  by (simp add: take_add min_def)

lemma bq_of_step:
  assumes "length S < 4294967296" and "bq_of iss S q"
  shows "bq_of iss S (bq_step q (as_event iss S e))"
proof (cases e)
  case (NetSegment pos n)
  obtain k where k: "k \<le> length S" "bq_read q @ bq_held q = take k S" "bq_nxt q = iss + of_nat k"
    using assms(2) by (auto simp: bq_of_def)
  show ?thesis
  proof (cases "iss + of_nat pos = bq_nxt q \<and> pos < length S")
    case True
    then have pos: "pos = k" using k assms(1) by (intro same_position) auto
    define new where "new = take (min (bq_bound q - length (bq_held q)) n) (drop k S)"
    have "bq_read q @ bq_held q @ new = take (k + length new) S"
      using k(2) take_more by (metis append_assoc new_def)
    moreover have "k + length new \<le> length S" using k(1) by (simp add: new_def)
    moreover have "bq_step q (as_event iss S e) =
        q\<lparr> bq_held := bq_held q @ new, bq_nxt := bq_nxt q + of_nat (length new) \<rparr>"
      using True by (simp add: NetSegment new_def pos Let_def)
    ultimately show ?thesis
      using k(3) unfolding bq_of_def by (intro exI [of _ "k + length new"]) simp
  next
    case False
    then have "bq_step q (as_event iss S e) = q" by (auto simp: NetSegment Let_def)
    then show ?thesis using assms(2) by simp
  qed
next
  case (AppRead n)
  then show ?thesis using assms(2) by (simp add: bq_of_def)
qed

lemma bq_of_run:
  assumes "length S < 4294967296"
  shows "bq_of iss S q \<Longrightarrow> bq_of iss S (foldl bq_step q (map (as_event iss S) es))"
  by (induction es arbitrary: q) (auto intro: bq_of_step [OF assms])

text \<open>
  C10. Whatever order the segments of a stream arrive in, cut and repeated in any way, and
  however the application reads, the bytes it has been given followed by those in the buffer
  are a prefix of the stream; \<^verbatim>\<open>rcv_nxt\<close> is the number of the byte after that prefix, and the
  buffer holds at most its capacity, the rest being what the window advertises.
\<close>
theorem recv_window_delivers_stream:
  assumes "length S < 4294967296"
    and "foldl rw_step (rw_start iss cap, []) (map (as_event iss S) es) = (w, got)"
  shows "got @ rw_data w = take (length got + rw_used w) S \<and> length got + rw_used w \<le> length S \<and>
    rw_nxt w = iss + of_nat (length got + rw_used w) \<and> rw_used w \<le> cap \<and>
    nfs_recv_window_advertised w = of_nat (cap - length (rw_data w))"
proof -
  let ?es = "map (as_event iss S) es"
  have ok: "rw_ok w" using recv.run_inv [of "(rw_start iss cap, [])" ?es] assms(2) by simp
  have run: "rw_queue (w, got) = foldl bq_step (rw_queue (rw_start iss cap, [])) ?es"
    using recv.run_abs [of "(rw_start iss cap, [])" ?es] assms(2) by simp
  have "bq_of iss S (rw_queue (w, got))"
    unfolding run by (rule bq_of_run [OF assms(1)]) (auto simp: rw_queue_def bq_of_def)
  then obtain k where "k \<le> length S" "got @ rw_data w = take k S" "rw_nxt w = iss + of_nat k"
    by (auto simp: rw_queue_def bq_of_def)
  moreover from this(1,2) have "k = length got + rw_used w"
    using rw_length [OF ok] by (metis length_append length_take min.absorb2)
  moreover have "bq_bound (foldl bq_step q rs) = bq_bound q" for q rs
  proof (induction rs arbitrary: q)
    case (Cons r rs) then show ?case by (cases r) (simp_all add: Let_def)
  qed simp
  then have "rw_capacity w = cap" using run by (metis byte_queue.select_convs(3) fst_conv rw_queue_def rw_start_fields(5))
  ultimately show ?thesis
    using rw_length [OF ok] rw_used_le [OF ok] by (simp add: nfs_recv_window_advertised_def)
qed

lemma recv_window_delivers_stream_witness:
  "let S = [10, 20, 30, 40, 50];
       es = map (as_event 7 S) [NetSegment 2 2, NetSegment 0 3, AppRead 1, NetSegment 2 3, NetSegment 1 1, AppRead 5];
       (w, got) = foldl rw_step (rw_start 7 2, []) es
   in got = [10, 20, 30] \<and> got @ rw_data w = take (length got + rw_used w) S"
proof -
  let ?S = "[10, 20, 30, 40, 50] :: u8 list"
  let ?es = "[NetSegment 2 2, NetSegment 0 3, AppRead 1, NetSegment 2 3, NetSegment 1 1, AppRead 5]"
  obtain w got where run: "foldl rw_step (rw_start 7 2, []) (map (as_event 7 ?S) ?es) = (w, got)"
    by (metis surj_pair)
  have "snd (foldl rw_step (rw_start 7 2, []) (map (as_event 7 ?S) ?es)) = [10, 20, 30]" by code_simp
  then have "got = [10, 20, 30]" by (simp only: run snd_conv)
  then show ?thesis
    using recv_window_delivers_stream [OF _ run] by (simp only: run Let_def split_conv) simp
qed

section \<open>A transfer through a window that closes\<close>

text \<open>
  The sender's side of a transfer: the receiver's window, the probe timer, the number of
  bytes acknowledged, the window last advertised, and the bytes the application has read.
  In a round the sender hears nothing unless it sends: with the window closed it probes with
  one byte when the timer says so, otherwise it sends what the window and \<open>mss\<close> allow; the
  receiver answers with its count and window, and the application reads up to \<open>room\<close> bytes.
\<close>

record transfer =
  tr_window :: nfs_recv_window
  tr_zwp :: nfs_zwp
  tr_pos :: nat
  tr_wnd :: u32
  tr_got :: "u8 list"

definition tr_send :: "nat \<Rightarrow> transfer \<Rightarrow> real \<Rightarrow> nat \<times> nfs_zwp" where
  "tr_send mss t now =
     (if tr_wnd t = 0 then
        (if zwp_active (tr_zwp t) then
           (let (probe, z) = nfs_zwp_check (tr_zwp t) now in (if probe then 1 else 0, z))
         else (0, nfs_zwp_start (tr_zwp t) now))
      else (min mss (unat (tr_wnd t)), nfs_zwp_stop (tr_zwp t)))"

definition tr_round :: "u32 \<Rightarrow> u8 list \<Rightarrow> nat \<Rightarrow> nat \<Rightarrow> transfer \<Rightarrow> real \<Rightarrow> transfer" where
  "tr_round iss S mss room t now =
     (let (n, z) = tr_send mss t now;
          data = take n (drop (tr_pos t) S);
          (r, w) = nfs_recv_window_receive (tr_window t) (iss + of_nat (tr_pos t)) data;
          (out, w') = nfs_recv_window_read w room
      in \<lparr> tr_window = w', tr_zwp = z,
           tr_pos = (if data \<noteq> [] \<and> 0 \<le> r then tr_pos t + nat r else tr_pos t),
           tr_wnd = (if data \<noteq> [] then nfs_recv_window_advertised w else tr_wnd t),
           tr_got = tr_got t @ out \<rparr>)"

definition tr_start :: "u32 \<Rightarrow> nat \<Rightarrow> real \<Rightarrow> transfer" where
  "tr_start iss cap d =
     \<lparr> tr_window = rw_start iss cap, tr_zwp = nfs_zwp_init d, tr_pos = 0,
       tr_wnd = nfs_recv_window_advertised (rw_start iss cap), tr_got = [] \<rparr>"

definition tr_ok :: "u32 \<Rightarrow> u8 list \<Rightarrow> real \<Rightarrow> real \<Rightarrow> transfer \<Rightarrow> bool" where
  "tr_ok iss S d now t \<longleftrightarrow>
     rw_ok (tr_window t) \<and> rw_used (tr_window t) < rw_capacity (tr_window t) \<and>
     rw_capacity (tr_window t) < 2147483648 \<and> tr_pos t \<le> length S \<and>
     tr_got t @ rw_data (tr_window t) = take (tr_pos t) S \<and>
     rw_nxt (tr_window t) = iss + of_nat (tr_pos t) \<and> zwp_interval (tr_zwp t) = d \<and>
     (zwp_active (tr_zwp t) \<longrightarrow> d \<le> now - last_probe_time (tr_zwp t))"

definition tr_left :: "u8 list \<Rightarrow> transfer \<Rightarrow> nat" where
  "tr_left S t = 3 * (length S - tr_pos t) + rw_used (tr_window t) +
     (if tr_wnd t = 0 \<and> \<not> zwp_active (tr_zwp t) then 1 else 0)"

definition tr_done :: "u8 list \<Rightarrow> transfer \<Rightarrow> bool" where
  "tr_done S t \<longleftrightarrow> tr_pos t = length S \<and> rw_used (tr_window t) = 0"

lemma sint_accepted: "n < 2147483648 \<Longrightarrow> sint (of_nat n :: u32) = int n"
  using sint_of_int_small [of "int n"] by simp

lemma tr_round_fields:
  fixes room :: nat
  assumes ok: "tr_ok iss S d now t" and send: "tr_send mss t now = (n, z)"
  defines "a \<equiv> length (take (rw_capacity (tr_window t) - rw_used (tr_window t)) (take n (drop (tr_pos t) S)))"
  defines "t' \<equiv> tr_round iss S mss room t now"
  shows "rw_ok (tr_window t')" and "rw_capacity (tr_window t') = rw_capacity (tr_window t)"
    and "rw_used (tr_window t') = rw_used (tr_window t) + a - room"
    and "rw_nxt (tr_window t') = rw_nxt (tr_window t) + of_nat a"
    and "tr_pos t' = tr_pos t + a" and "tr_pos t' \<le> length S"
    and "tr_got t' @ rw_data (tr_window t') = take (tr_pos t') S"
    and "tr_zwp t' = z" and "a = 0 \<Longrightarrow> tr_wnd t' = tr_wnd t"
proof -
  let ?w = "tr_window t" and ?data = "take n (drop (tr_pos t) S)"
  let ?new = "take (rw_capacity ?w - rw_used ?w) ?data"
  have w: "rw_ok ?w" and nxt: "rw_nxt ?w = iss + of_nat (tr_pos t)" and room: "rw_used ?w < rw_capacity ?w"
    and cap: "rw_capacity ?w < 2147483648" and pos: "tr_pos t \<le> length S"
    and got: "tr_got t @ rw_data ?w = take (tr_pos t) S"
    using ok by (simp_all add: tr_ok_def)
  define r w1 out w2 where "r = fst (nfs_recv_window_receive ?w (iss + of_nat (tr_pos t)) ?data)"
    and "w1 = snd (nfs_recv_window_receive ?w (iss + of_nat (tr_pos t)) ?data)"
    and "out = fst (nfs_recv_window_read w1 room)" and "w2 = snd (nfs_recv_window_read w1 room)"
  have t': "t' = \<lparr> tr_window = w2, tr_zwp = z,
      tr_pos = (if ?data \<noteq> [] \<and> 0 \<le> r then tr_pos t + nat r else tr_pos t),
      tr_wnd = (if ?data \<noteq> [] then nfs_recv_window_advertised w1 else tr_wnd t), tr_got = tr_got t @ out \<rparr>"
    unfolding t'_def tr_round_def send r_def w1_def out_def w2_def by (simp add: case_prod_beta Let_def)
  have a: "a = length ?new" by (simp add: a_def)
  have "a \<le> rw_capacity ?w" unfolding a by simp
  then have r: "r = int a"
    unfolding r_def receive_cases(6) [OF w] nxt using sint_accepted [of a] cap by (simp add: a)
  have w1: "rw_ok w1" "rw_data w1 = rw_data ?w @ ?new" "rw_used w1 = rw_used ?w + a"
      "rw_nxt w1 = rw_nxt ?w + of_nat a" "rw_capacity w1 = rw_capacity ?w"
    unfolding w1_def using receive_cases(1-5) [OF w, of "iss + of_nat (tr_pos t)" ?data] nxt
    by (simp_all add: a)
  have w2: "rw_ok w2" "out @ rw_data w2 = rw_data w1" "rw_used w2 = rw_used w1 - room"
      "rw_nxt w2 = rw_nxt w1" "rw_capacity w2 = rw_capacity w1"
    unfolding w2_def out_def using read_cases [OF w1(1), of room] by simp_all
  have zero: "?data = [] \<longleftrightarrow> a = 0" using room by (auto simp: a min_def)
  have pos': "tr_pos t' = tr_pos t + a" using zero by (simp add: t' r)
  have new: "?new = take (min (rw_capacity ?w - rw_used ?w) n) (drop (tr_pos t) S)" by simp
  show "rw_ok (tr_window t')" and "rw_capacity (tr_window t') = rw_capacity ?w"
    and "rw_used (tr_window t') = rw_used ?w + a - room"
    and "rw_nxt (tr_window t') = rw_nxt ?w + of_nat a" and "tr_pos t' = tr_pos t + a"
    and "tr_zwp t' = z" and "a = 0 \<Longrightarrow> tr_wnd t' = tr_wnd t"
    using w1 w2 pos' zero by (simp_all add: t' r)
  show "tr_pos t' \<le> length S" unfolding pos' using pos by (simp add: a)
  have "tr_got t' @ rw_data (tr_window t') = (tr_got t @ rw_data ?w) @ ?new"
    using w1(2) w2(2) by (simp add: t')
  also have "\<dots> = take (tr_pos t + a) S"
    unfolding got a new by (rule take_more)
  finally show "tr_got t' @ rw_data (tr_window t') = take (tr_pos t') S" by (simp add: pos')
qed

lemma tr_send_cases:
  assumes "tr_ok iss S d now t" and "tr_send mss t now = (n, z)" and "0 < mss"
  shows "zwp_interval z = d" and "zwp_active z \<longrightarrow> last_probe_time z = now"
    and "n = 0 \<longleftrightarrow> tr_wnd t = 0 \<and> \<not> zwp_active (tr_zwp t)"
    and "tr_wnd t = 0 \<Longrightarrow> zwp_active z"
  using assms
  by (auto simp: tr_send_def tr_ok_def nfs_zwp_check_def nfs_zwp_start_def nfs_zwp_stop_def
      unat_gt_0 unat_eq_0 min_def split: if_splits)

lemma tr_round_step:
  assumes ok: "tr_ok iss S d now t" and mss: "0 < mss" and room: "0 < room"
    and later: "d \<le> now' - now"
  defines "t' \<equiv> tr_round iss S mss room t now"
  shows "tr_ok iss S d now' t'" and "tr_done S t' \<or> tr_left S t' < tr_left S t"
proof -
  obtain n z where send: "tr_send mss t now = (n, z)" by (metis surj_pair)
  let ?w = "tr_window t"
  define a where "a = length (take (rw_capacity ?w - rw_used ?w) (take n (drop (tr_pos t) S)))"
  note f = tr_round_fields [OF ok send, of room, folded a_def t'_def]
  note s = tr_send_cases [OF ok send mss]
  have w: "rw_used ?w < rw_capacity ?w" "rw_capacity ?w < 2147483648" "tr_pos t \<le> length S"
    and nxt: "rw_nxt ?w = iss + of_nat (tr_pos t)"
    using ok by (simp_all add: tr_ok_def)
  have "a \<le> rw_capacity ?w - rw_used ?w" by (simp add: a_def)
  then have used: "rw_used (tr_window t') < rw_capacity ?w"
    using f(3) w(1) room by linarith
  show "tr_ok iss S d now' t'"
    using f used w nxt s(1,2) later by (simp add: tr_ok_def)
  show "tr_done S t' \<or> tr_left S t' < tr_left S t"
  proof (cases "a = 0")
    case True
    then have "n = 0 \<or> tr_pos t = length S" using w by (auto simp: a_def)
    then show ?thesis
      using True f(3,5,8,9) s(3,4) room unfolding tr_done_def tr_left_def by auto
  next
    case False
    then have "n \<noteq> 0" by (auto simp: a_def)
    then have "\<not> (tr_wnd t = 0 \<and> \<not> zwp_active (tr_zwp t))" using s(3) by simp
    then have "tr_left S t = 3 * (length S - tr_pos t) + rw_used ?w" by (simp add: tr_left_def)
    moreover have "tr_left S t' \<le> 3 * (length S - tr_pos t - a) + (rw_used ?w + a - room) + 1"
      using f(3,5) by (simp add: tr_left_def)
    moreover have "a \<le> length S - tr_pos t" by (simp add: a_def)
    ultimately show ?thesis using False room by auto
  qed
qed

lemma tr_done_round:
  assumes "tr_ok iss S d now t" and "tr_done S t"
  shows "tr_done S (tr_round iss S mss room t now)"
proof -
  obtain n z where send: "tr_send mss t now = (n, z)" by (metis surj_pair)
  show ?thesis
    using tr_round_fields(3,5) [OF assms(1) send, of room] assms(2) by (simp add: tr_done_def)
qed

lemma tr_done_got: "tr_ok iss S d now t \<Longrightarrow> tr_done S t \<Longrightarrow> tr_got t = S"
  using rw_length [of "tr_window t"] by (simp add: tr_ok_def tr_done_def)

lemma tr_rounds:
  assumes "0 < mss" and "0 < room"
  shows "successively (\<lambda>now now'. d \<le> now' - now) ts \<Longrightarrow> ts = [] \<or> tr_ok iss S d (hd ts) t \<Longrightarrow>
    tr_done S t \<or> tr_left S t \<le> length ts \<Longrightarrow> ts \<noteq> [] \<Longrightarrow>
    tr_got (foldl (tr_round iss S mss room) t ts) = S"
proof (induction ts arbitrary: t)
  case (Cons now ts)
  let ?t = "tr_round iss S mss room t now"
  have ok: "tr_ok iss S d now t" using Cons.prems by simp
  have next_ok: "d \<le> now' - now \<Longrightarrow> tr_ok iss S d now' ?t" for now'
    using tr_round_step(1) [OF ok assms] by simp
  have "tr_done S t \<or> tr_left S t \<le> Suc (length ts)" using Cons.prems by simp
  then have left: "tr_done S ?t \<or> tr_left S ?t \<le> length ts"
    using tr_done_round [OF ok] tr_round_step(2) [OF ok assms, of "now + d"] by fastforce
  show ?case
  proof (cases ts)
    case Nil
    have "tr_done S ?t"
      using left unfolding tr_done_def tr_left_def
      using tr_round_step(1) [OF ok assms, of "now + d"] by (auto simp: Nil tr_ok_def)
    then show ?thesis using tr_done_got [OF next_ok, of "now + d"] by (simp add: Nil)
  next
    case (Cons now' ts')
    then show ?thesis
      using Cons.IH [of ?t] left next_ok [of now'] Cons.prems(1) by simp
  qed
qed simp

text \<open>
  C11. The window may close as often as it likes: in rounds that follow each other by at least
  the probe interval, a sender that probes a closed window gets the whole stream to an
  application that reads at least a byte a round, within three rounds for each byte.
\<close>
theorem zero_window_transfer_completes:
  assumes "0 < cap" and "cap < 2147483648" and "0 < mss" and "0 < room"
    and "successively (\<lambda>now now'. d \<le> now' - now) ts" and "3 * length S \<le> length ts"
  shows "tr_got (foldl (tr_round iss S mss room) (tr_start iss cap d) ts) = S"
proof (cases ts)
  case Nil
  then show ?thesis using assms(6) by (simp add: tr_start_def)
next
  case (Cons now ts')
  let ?t = "tr_start iss cap d"
  have "tr_ok iss S d now ?t"
    using assms(1,2) by (simp add: tr_ok_def tr_start_def nfs_zwp_init_def)
  moreover have "tr_wnd ?t \<noteq> 0"
    using assms(1,2) same_position [of cap 0] by (auto simp: tr_start_def nfs_recv_window_advertised_def)
  then have "tr_left S ?t = 3 * length S" by (simp add: tr_left_def tr_start_def)
  ultimately show ?thesis
    using tr_rounds [OF assms(3-5), of iss S ?t] assms(6) by (simp add: Cons)
qed

lemma zero_window_transfer_completes_witness:
  "tr_got (foldl (tr_round 9 [1, 2, 3] 1460 1) (tr_start 9 2 5) [0, 5, 10, 15, 20, 25, 30, 35, 40]) = [1, 2, 3]"
  by (rule zero_window_transfer_completes) simp_all

text \<open>
  Without the probes the sender of this transfer would wait forever: nothing else tells it
  that the window has opened.
\<close>

lemma closed_window_is_silent:
  assumes "tr_ok iss S d now t" and "tr_wnd t = 0" and "zwp_active (tr_zwp t)"
    and "now' - last_probe_time (tr_zwp t) < d"
  shows "tr_pos (tr_round iss S mss room t now') = tr_pos t \<and> tr_wnd (tr_round iss S mss room t now') = 0"
  using assms by (simp add: tr_round_def tr_send_def nfs_zwp_check_def tr_ok_def case_prod_beta
      nfs_recv_window_receive_def rw_ok_def split: option.splits)

text \<open>A window of 2 to the power 32 bytes is advertised as none, though it is not zero.\<close>

lemma window_above_32_bits:
  "nfs_recv_window_advertised (nfs_recv_window_init 4294967296) = 0 \<and>
   \<not> nfs_recv_window_is_zero (nfs_recv_window_init 4294967296)"
  by (simp add: nfs_recv_window_advertised_def nfs_recv_window_is_zero_def nfs_recv_window_init_def
      word_of_nat_eq_0_iff)

end
