(* ===== verification/TcpTimers.thy ===== *)
theory TcpTimers
  imports Segment Complex_Main
begin

text \<open>
  When a TCP end speaks without being asked: Nagle's algorithm and the delayed acknowledgment
  (\<^verbatim>\<open>phases/04-transport/20-delayed-acks-and-nagles-algorithm/nagle.c\<close>) and the keepalive timer
  (\<^verbatim>\<open>32-tcp-keepalive/keepalive.c\<close>). Times are real numbers for C doubles.
\<close>

section \<open>Nagle's algorithm\<close>

record nfs_nagle =
  nagle_enabled :: bool
  nagle_una :: u32
  nagle_nxt :: u32
  nagle_mss :: u16

definition nfs_nagle_init :: "u16 \<Rightarrow> nfs_nagle" where
  "nfs_nagle_init mss = \<lparr> nagle_enabled = True, nagle_una = 0, nagle_nxt = 0, nagle_mss = mss \<rparr>"

definition nfs_nagle_can_send :: "nfs_nagle \<Rightarrow> nat \<Rightarrow> bool" where
  "nfs_nagle_can_send n data_len =
     (if \<not> nagle_enabled n then True
      else if data_len \<ge> unat (nagle_mss n) then True
      else if nagle_una n = nagle_nxt n then True
      else False)"

definition nfs_nagle_enable :: "nfs_nagle \<Rightarrow> nfs_nagle" where
  "nfs_nagle_enable n = n\<lparr> nagle_enabled := True \<rparr>"

definition nfs_nagle_disable :: "nfs_nagle \<Rightarrow> nfs_nagle" where
  "nfs_nagle_disable n = n\<lparr> nagle_enabled := False \<rparr>"

definition nfs_nagle_sent :: "nfs_nagle \<Rightarrow> u32 \<Rightarrow> nfs_nagle" where
  "nfs_nagle_sent n nbytes = n\<lparr> nagle_nxt := nagle_nxt n + nbytes \<rparr>"

definition nfs_nagle_acked :: "nfs_nagle \<Rightarrow> u32 \<Rightarrow> nfs_nagle" where
  "nfs_nagle_acked n ack = n\<lparr> nagle_una := ack \<rparr>"

text \<open>
  A sender that asks before it sends, with the lengths of the segments it has outstanding,
  and acknowledgments that cover the first \<open>k\<close> of them.
\<close>

datatype nagle_event = NagleWrite nat | NagleAck nat

fun nagle_step :: "nfs_nagle \<times> nat list \<Rightarrow> nagle_event \<Rightarrow> nfs_nagle \<times> nat list" where
  "nagle_step (n, out) (NagleWrite len) =
     (if nfs_nagle_can_send n len then (nfs_nagle_sent n (of_nat len), out @ [len]) else (n, out))"
| "nagle_step (n, out) (NagleAck k) =
     (nfs_nagle_acked n (nagle_una n + of_nat (sum_list (take k out))), drop k out)"

text \<open>Segments carry data, and less than the sequence space is outstanding.\<close>

fun nagle_fits :: "nfs_nagle \<times> nat list \<Rightarrow> nagle_event \<Rightarrow> bool" where
  "nagle_fits (n, out) (NagleWrite len) = (0 < len \<and> sum_list out + len < 4294967296)"
| "nagle_fits (n, out) (NagleAck k) = True"

fun nagle_inv :: "nfs_nagle \<times> nat list \<Rightarrow> bool" where
  "nagle_inv (n, out) \<longleftrightarrow>
     nagle_enabled n \<and> nagle_nxt n = nagle_una n + of_nat (sum_list out) \<and>
     sum_list out < 4294967296 \<and> list_all (\<lambda>len. 0 < len) out \<and>
     list_all (\<lambda>len. unat (nagle_mss n) \<le> len) (tl out)"

lemma list_all_drop: "list_all P xs \<Longrightarrow> list_all P (drop k xs)"
  by (auto simp: list_all_iff dest: in_set_dropD)

lemma sum_list_take_drop: "sum_list (take k xs) + sum_list (drop k xs) = sum_list (xs :: nat list)"
  by (metis append_take_drop_id sum_list_append)

lemma tl_drop_all: "list_all P (tl xs) \<Longrightarrow> list_all P (tl (drop k xs))"
  by (metis list_all_drop drop_tl)

interpretation nagle: machine nagle_step nagle_fits nagle_inv
proof
  fix s e assume inv: "nagle_inv s" and fits: "nagle_fits s e"
  obtain n out where s: "s = (n, out)" by (cases s)
  have i: "nagle_enabled n" "nagle_nxt n = nagle_una n + of_nat (sum_list out)"
      "sum_list out < 4294967296" "list_all (\<lambda>len. 0 < len) out"
      "list_all (\<lambda>len. unat (nagle_mss n) \<le> len) (tl out)"
    using inv by (simp_all add: s)
  show "nagle_inv (nagle_step s e)"
  proof (cases e)
    case (NagleWrite len)
    have "nagle_una n = nagle_nxt n \<longleftrightarrow> out = []"
    proof
      assume "nagle_una n = nagle_nxt n"
      then have "(of_nat (sum_list out) :: u32) = 0" using i(2) by simp
      then have "sum_list out = 0" using i(3) unat_of_nat_u32 [of "sum_list out"] by simp
      then show "out = []" using i(4) by (cases out) simp_all
    qed (use i(2) in simp)
    moreover have "tl (out @ [len]) = (if out = [] then [] else tl out @ [len])" by simp
    ultimately show ?thesis
      using i fits unfolding s NagleWrite
      by (auto simp: nfs_nagle_can_send_def nfs_nagle_sent_def)
  next
    case (NagleAck k)
    have "sum_list out = sum_list (take k out) + sum_list (drop k out)" by (simp add: sum_list_take_drop)
    then show ?thesis
      using i unfolding s NagleAck
      by (auto simp: nfs_nagle_acked_def list_all_drop tl_drop_all)
  qed
qed

text \<open>
  With the algorithm enabled, of the segments outstanding only the oldest may be smaller
  than the maximum segment size: a second small one is held back until all are acknowledged.
\<close>

lemma nagle_one_small_segment:
  assumes "guarded nagle_step nagle_fits (nfs_nagle_init mss, []) es"
    and "foldl nagle_step (nfs_nagle_init mss, []) es = (n, out)"
  shows "list_all (\<lambda>len. unat mss \<le> len) (tl out)"
proof -
  have "nagle_inv (nfs_nagle_init mss, [])" by (simp add: nfs_nagle_init_def)
  then have "nagle_inv (n, out)" using nagle.run_inv [OF _ assms(1)] assms(2) by simp
  moreover have "nagle_mss (fst (foldl nagle_step s es)) = nagle_mss (fst s)" for s
  proof (induction es arbitrary: s)
    case (Cons e es)
    then show ?case by (cases s; cases e) (simp_all add: nfs_nagle_sent_def nfs_nagle_acked_def)
  qed simp
  then have "nagle_mss n = mss" using assms(2) by (metis fst_conv nfs_nagle.select_convs(4) nfs_nagle_init_def)
  ultimately show ?thesis by simp
qed

section \<open>Delayed acknowledgments\<close>

record nfs_delayed_ack =
  da_pending :: bool
  da_deadline :: real
  da_delay :: real
  da_seg_count :: int

definition nfs_delayed_ack_init :: "real \<Rightarrow> nfs_delayed_ack" where
  "nfs_delayed_ack_init delay =
     \<lparr> da_pending = False, da_deadline = 0, da_delay = delay, da_seg_count = 0 \<rparr>"

definition nfs_delayed_ack_receive :: "nfs_delayed_ack \<Rightarrow> real \<Rightarrow> bool \<times> nfs_delayed_ack" where
  "nfs_delayed_ack_receive da now =
     (let da = da\<lparr> da_seg_count := da_seg_count da + 1 \<rparr> in
      if da_seg_count da \<ge> 2 then (True, da)
      else (False, da\<lparr> da_pending := True, da_deadline := now + da_delay da \<rparr>))"

definition nfs_delayed_ack_check :: "nfs_delayed_ack \<Rightarrow> real \<Rightarrow> bool" where
  "nfs_delayed_ack_check da now \<longleftrightarrow> da_pending da \<and> now \<ge> da_deadline da"

definition nfs_delayed_ack_sent :: "nfs_delayed_ack \<Rightarrow> nfs_delayed_ack" where
  "nfs_delayed_ack_sent da = da\<lparr> da_pending := False, da_deadline := 0, da_seg_count := 0 \<rparr>"

text \<open>
  A receiver that acknowledges when told to, on a segment or on a tick of its clock, with
  the arrival times of the segments it has not acknowledged.
\<close>

datatype da_event = DaSegment real | DaTick real

fun da_step :: "nfs_delayed_ack \<times> real list \<Rightarrow> da_event \<Rightarrow> nfs_delayed_ack \<times> real list" where
  "da_step (da, waiting) (DaSegment now) =
     (let (ack, da') = nfs_delayed_ack_receive da now
      in if ack then (nfs_delayed_ack_sent da', []) else (da', waiting @ [now]))"
| "da_step (da, waiting) (DaTick now) =
     (if nfs_delayed_ack_check da now then (nfs_delayed_ack_sent da, []) else (da, waiting))"

text \<open>
  At most one segment waits for its acknowledgment, and a tick as late as the delay after its
  arrival acknowledges it.
\<close>

fun da_inv :: "real \<Rightarrow> nfs_delayed_ack \<times> real list \<Rightarrow> bool" where
  "da_inv delay (da, waiting) \<longleftrightarrow>
     da_delay da = delay \<and> da_seg_count da = int (length waiting) \<and> length waiting \<le> 1 \<and>
     (da_pending da \<longleftrightarrow> waiting \<noteq> []) \<and> (waiting \<noteq> [] \<longrightarrow> da_deadline da = hd waiting + delay)"

interpretation da: machine da_step "\<lambda>s e. True" "da_inv delay" for delay
proof
  fix s e assume inv: "da_inv delay s"
  obtain da waiting where s: "s = (da, waiting)" by (cases s)
  show "da_inv delay (da_step s e)"
    using inv unfolding s
    by (cases e; cases waiting)
      (simp_all add: nfs_delayed_ack_receive_def nfs_delayed_ack_check_def nfs_delayed_ack_sent_def Let_def)
qed

lemma delayed_ack_bounds:
  assumes "foldl da_step (nfs_delayed_ack_init delay, []) es = (da, waiting)"
  shows "length waiting \<le> 1"
    and "waiting = [t] \<Longrightarrow> nfs_delayed_ack_check da now \<longleftrightarrow> t + delay \<le> now"
    and "snd (da_step (da, [t]) (DaSegment now)) = [] \<or> waiting \<noteq> [t]"
proof -
  have "da_inv delay (da, waiting)"
    using da.run_inv [of delay "(nfs_delayed_ack_init delay, [])" es] assms
    by (simp add: nfs_delayed_ack_init_def)
  then show "length waiting \<le> 1"
    and "waiting = [t] \<Longrightarrow> nfs_delayed_ack_check da now \<longleftrightarrow> t + delay \<le> now"
    and "snd (da_step (da, [t]) (DaSegment now)) = [] \<or> waiting \<noteq> [t]"
    by (auto simp: nfs_delayed_ack_check_def nfs_delayed_ack_receive_def Let_def)
qed

section \<open>Keepalive\<close>

record nfs_keepalive =
  ka_idle_timeout :: real
  ka_interval :: real
  ka_max_probes :: int
  ka_last_data_time :: real
  ka_probes_sent :: int
  ka_enabled :: bool

definition nfs_keepalive_init :: "real \<Rightarrow> real \<Rightarrow> int \<Rightarrow> nfs_keepalive" where
  "nfs_keepalive_init idle_timeout d max_probes =
     \<lparr> ka_idle_timeout = idle_timeout, ka_interval = d, ka_max_probes = max_probes,
       ka_last_data_time = 0, ka_probes_sent = 0, ka_enabled = False \<rparr>"

definition nfs_keepalive_enable :: "nfs_keepalive \<Rightarrow> nfs_keepalive" where
  "nfs_keepalive_enable ka = ka\<lparr> ka_enabled := True \<rparr>"

definition nfs_keepalive_disable :: "nfs_keepalive \<Rightarrow> nfs_keepalive" where
  "nfs_keepalive_disable ka = ka\<lparr> ka_enabled := False \<rparr>"

definition nfs_keepalive_data_received :: "nfs_keepalive \<Rightarrow> real \<Rightarrow> nfs_keepalive" where
  "nfs_keepalive_data_received ka now = ka\<lparr> ka_last_data_time := now, ka_probes_sent := 0 \<rparr>"

definition nfs_keepalive_check :: "nfs_keepalive \<Rightarrow> real \<Rightarrow> int \<times> nfs_keepalive" where
  "nfs_keepalive_check ka now =
     (if \<not> ka_enabled ka then (0, ka)
      else if ka_probes_sent ka \<ge> ka_max_probes ka then (- 1, ka)
      else
        let idle_duration = now - ka_last_data_time ka in
        if ka_probes_sent ka = 0 then
          (if idle_duration \<ge> ka_idle_timeout ka then (1, ka\<lparr> ka_probes_sent := ka_probes_sent ka + 1 \<rparr>)
           else (0, ka))
        else
          let probe_threshold = ka_idle_timeout ka + of_int (ka_probes_sent ka) * ka_interval ka in
          if idle_duration \<ge> probe_threshold then
            let ka = ka\<lparr> ka_probes_sent := ka_probes_sent ka + 1 \<rparr> in
            if ka_probes_sent ka \<ge> ka_max_probes ka then (- 1, ka) else (1, ka)
          else (0, ka))"

definition nfs_keepalive_is_dead :: "nfs_keepalive \<Rightarrow> bool" where
  "nfs_keepalive_is_dead ka \<longleftrightarrow> ka_probes_sent ka \<ge> ka_max_probes ka"

definition nfs_keepalive_build_probe :: "u32 \<Rightarrow> nat \<Rightarrow> u8 list option" where
  "nfs_keepalive_build_probe seq_minus_one out_sz =
     (if out_sz < 20 then None
      else
        let out = replicate 20 0;
            out = out[4 := byte3 seq_minus_one, 5 := byte2 seq_minus_one,
                      6 := byte1 seq_minus_one, 7 := byte0 seq_minus_one];
            out = out[12 := 0x50]
        in Some (out[13 := 0x10]))"

text \<open>The time the connection was last looked at, with the timer; the clock does not go back.\<close>

datatype ka_event = KaData real | KaCheck real

fun ka_time :: "ka_event \<Rightarrow> real" where
  "ka_time (KaData now) = now"
| "ka_time (KaCheck now) = now"

fun ka_step :: "nfs_keepalive \<times> real \<Rightarrow> ka_event \<Rightarrow> nfs_keepalive \<times> real" where
  "ka_step (ka, seen) (KaData now) = (nfs_keepalive_data_received ka now, now)"
| "ka_step (ka, seen) (KaCheck now) = (snd (nfs_keepalive_check ka now), now)"

fun ka_inv :: "real \<Rightarrow> real \<Rightarrow> int \<Rightarrow> nfs_keepalive \<times> real \<Rightarrow> bool" where
  "ka_inv idle d n (ka, seen) \<longleftrightarrow>
     ka_idle_timeout ka = idle \<and> ka_interval ka = d \<and> ka_max_probes ka = n \<and>
     0 \<le> ka_probes_sent ka \<and> ka_probes_sent ka \<le> n \<and>
     (0 < ka_probes_sent ka \<longrightarrow>
        idle + of_int (ka_probes_sent ka - 1) * d \<le> seen - ka_last_data_time ka)"

interpretation ka: machine ka_step "\<lambda>s e. snd s \<le> ka_time e" "ka_inv idle d n" for idle d n
proof
  fix s e assume inv: "ka_inv idle d n s" and later: "snd s \<le> ka_time e"
  obtain ka seen where s: "s = (ka, seen)" by (cases s)
  show "ka_inv idle d n (ka_step s e)"
    using inv later unfolding s
    by (cases e) (auto simp: nfs_keepalive_data_received_def nfs_keepalive_check_def Let_def)
qed

text \<open>
  A connection is not given up before \<open>n - 1\<close> intervals have passed since the idle time ran
  out, whatever the times of the checks.
\<close>

lemma keepalive_not_early:
  assumes "guarded ka_step (\<lambda>s e. snd s \<le> ka_time e) (nfs_keepalive_enable (nfs_keepalive_init idle d n), t) es"
    and "foldl ka_step (nfs_keepalive_enable (nfs_keepalive_init idle d n), t) es = (ka, seen)"
    and "0 < n" and "nfs_keepalive_is_dead ka"
  shows "idle + of_int (n - 1) * d \<le> seen - ka_last_data_time ka"
proof -
  have "ka_inv idle d n (ka, seen)"
    using ka.run_inv [OF _ assms(1), of idle d n] assms(2,3)
    by (simp add: nfs_keepalive_init_def nfs_keepalive_enable_def)
  then show ?thesis using assms(3,4) by (auto simp: nfs_keepalive_is_dead_def)
qed

text \<open>With the peer silent, as many late checks as there are probes find the connection dead.\<close>

lemma keepalive_detects_silence:
  assumes "ka_enabled ka" and "0 \<le> ka_interval ka" and "0 \<le> ka_probes_sent ka"
    and "\<forall>now \<in> set ts. ka_idle_timeout ka + of_int (ka_max_probes ka) * ka_interval ka
           \<le> now - ka_last_data_time ka"
    and "ka_max_probes ka \<le> ka_probes_sent ka + int (length ts)"
  shows "nfs_keepalive_is_dead (foldl (\<lambda>ka now. snd (nfs_keepalive_check ka now)) ka ts)"
  using assms
proof (induction ts arbitrary: ka)
  case Nil
  then show ?case by (simp add: nfs_keepalive_is_dead_def)
next
  case (Cons now ts)
  let ?ka = "snd (nfs_keepalive_check ka now)"
  have late: "ka_idle_timeout ka + of_int (ka_max_probes ka) * ka_interval ka \<le> now - ka_last_data_time ka"
    using Cons.prems(4) by simp
  have mono: "of_int k * ka_interval ka \<le> of_int (ka_max_probes ka) * ka_interval ka"
    if "k \<le> ka_max_probes ka" for k
    using that Cons.prems(2) by (intro mult_right_mono) simp_all
  have "?ka = (if ka_probes_sent ka \<ge> ka_max_probes ka then ka
      else ka\<lparr> ka_probes_sent := ka_probes_sent ka + 1 \<rparr>)"
    using late mono [of "ka_probes_sent ka"] mono [of 0] Cons.prems(1)
    by (auto simp: nfs_keepalive_check_def Let_def)
  then show ?case using Cons.IH [of ?ka] Cons.prems by (auto split: if_splits)
qed

text \<open>
  The last of the probes is counted and never sent: with the nine of the default, eight
  checks ask for a probe and the ninth gives the connection up; with a single one the check
  right after it does, without waiting for an answer.
\<close>

fun ka_answers :: "nfs_keepalive \<Rightarrow> real list \<Rightarrow> int list" where
  "ka_answers ka [] = []"
| "ka_answers ka (now # ts) =
     (let (r, ka') = nfs_keepalive_check ka now in r # ka_answers ka' ts)"

lemma last_probe_not_sent:
  "ka_answers (nfs_keepalive_enable (nfs_keepalive_init 7200 75 9))
     [7200, 7275, 7350, 7425, 7500, 7575, 7650, 7725, 7800] = [1, 1, 1, 1, 1, 1, 1, 1, - 1]"
  by (simp add: nfs_keepalive_init_def nfs_keepalive_enable_def nfs_keepalive_check_def)

lemma single_probe_not_awaited:
  "ka_answers (nfs_keepalive_enable (nfs_keepalive_init 7200 75 1)) [7200, 7200] = [1, - 1]"
  by (simp add: nfs_keepalive_init_def nfs_keepalive_enable_def nfs_keepalive_check_def)

text \<open>The probe is a bare ACK header with the number before the first unacknowledged byte.\<close>

lemma keepalive_probe_parses:
  assumes "nfs_keepalive_build_probe s out_sz = Some pkt"
  shows "nfs_tcp_parse pkt = Some \<lparr> th_src_port = 0, th_dst_port = 0, th_seq = s, th_ack = 0,
    th_data_off_flags = 0x5010, th_window = 0, th_checksum = 0, th_urgent = 0 \<rparr>"
proof -
  have bytes: "replicate 20 (0 :: u8) = [0, 0, 0, 0, 0, 0, 0, 0, 0, 0, 0, 0, 0, 0, 0, 0, 0, 0, 0, 0]"
    by (simp add: numeral_eq_Suc)
  have pkt: "pkt = [0, 0, 0, 0, byte3 s, byte2 s, byte1 s, byte0 s, 0, 0, 0, 0, 0x50, 0x10, 0, 0, 0, 0, 0, 0]"
    using assms unfolding nfs_keepalive_build_probe_def Let_def bytes by (auto split: if_splits)
  have words: "be16 0 0 = 0" "be16 0x50 0x10 = 0x5010" "be32 0 0 0 0 = 0" by code_simp+
  show ?thesis
    unfolding nfs_tcp_parse_def pkt get16_def get32_def
    by (simp add: words NFS_TCP_HDR_MIN_LEN_def nfs_tcp_data_offset_def Let_def)
qed

end
