(* ===== verification/Paths.thy ===== *)
theory Paths
  imports Tables Ipv4 Complex_Main
begin

text \<open>
  What a sender learns of the path to its peer: its hops, with the time to live
  (\<^verbatim>\<open>phases/03-network-layer/06-ttl-and-the-traceroute-trick/ttl.c\<close>), its MTU
  (\<^verbatim>\<open>03-network-layer/08-path-mtu-discovery-rfc-1191/pmtud.c\<close>) and its congestion
  (\<^verbatim>\<open>04-transport/31-explicit-congestion-notification-ecn/ecn.c\<close>). Flag words of TCP in network
  order are those of a little-endian host, whose \<^verbatim>\<open>ntohs\<close> swaps the bytes.
\<close>

section \<open>Time to live\<close>

definition nfs_ttl_decrement :: "nfs_ipv4_hdr \<Rightarrow> int \<times> nfs_ipv4_hdr" where
  "nfs_ttl_decrement hdr =
     (if ip_ttl hdr = 0 then (- 1, hdr)
      else
        let hdr = hdr\<lparr> ip_ttl := ip_ttl hdr - 1 \<rparr> in
        if ip_ttl hdr = 0 then (0, hdr) else (uint (ip_ttl hdr), hdr))"

definition nfs_ttl_set :: "nfs_ipv4_hdr \<Rightarrow> u8 \<Rightarrow> nfs_ipv4_hdr" where
  "nfs_ttl_set hdr ttl = hdr\<lparr> ip_ttl := ttl \<rparr>"

definition nfs_ttl_get :: "nfs_ipv4_hdr \<Rightarrow> u8" where
  "nfs_ttl_get hdr = ip_ttl hdr"

record nfs_traceroute_hop =
  hop_num :: nat
  responder_ip :: u32
  reached_dest :: bool

text \<open>The loop over the routers: \<open>Guarded\<close> is its exit with a time to live of zero.\<close>

datatype probe_result = Guarded | Expired u32 | Arrived

fun walk_hops :: "u8 \<Rightarrow> u32 list \<Rightarrow> probe_result" where
  "walk_hops ttl [] = Arrived"
| "walk_hops ttl (hop # hops) =
     (if ttl = 0 then Guarded
      else let ttl = ttl - 1 in if ttl = 0 then Expired hop else walk_hops ttl hops)"

lemma walk_hops_nonzero: "ttl \<noteq> 0 \<Longrightarrow> walk_hops ttl hops \<noteq> Guarded"
  by (induction ttl hops rule: walk_hops.induct) (auto simp: Let_def)

lemma u8_next_nonzero: "(of_nat n :: u8) = 0 \<Longrightarrow> (of_nat (Suc n) :: u8) \<noteq> 0"
  by simp

function traceroute_run ::
  "u32 \<Rightarrow> u32 list \<Rightarrow> nat \<Rightarrow> nfs_traceroute_hop list \<Rightarrow> nat \<Rightarrow> nfs_traceroute_hop list" where
  "traceroute_run dst hops max_results results probe_ttl =
     (if length results \<ge> max_results then results
      else case walk_hops (of_nat probe_ttl) hops of
        Guarded \<Rightarrow> traceroute_run dst hops max_results results (Suc probe_ttl)
      | Expired ip \<Rightarrow>
          traceroute_run dst hops max_results
            (results @ [\<lparr> hop_num = length results + 1, responder_ip = ip, reached_dest = False \<rparr>])
            (Suc probe_ttl)
      | Arrived \<Rightarrow>
          results @ [\<lparr> hop_num = length results + 1, responder_ip = dst, reached_dest = True \<rparr>])"
  by pat_completeness auto
termination
proof (relation "measure (\<lambda>(dst, hops, n, results, probe_ttl).
    2 * (n - length results) + (if (of_nat probe_ttl :: u8) = 0 then 1 else 0))")
  fix dst hops n probe_ttl and results :: "nfs_traceroute_hop list"
  assume "walk_hops (of_nat probe_ttl) hops = Guarded"
  then have "(of_nat probe_ttl :: u8) = 0" using walk_hops_nonzero by blast
  then show "((dst, hops, n, results, Suc probe_ttl), dst, hops, n, results, probe_ttl)
      \<in> measure (\<lambda>(dst, hops, n, results, probe_ttl).
          2 * (n - length results) + (if (of_nat probe_ttl :: u8) = 0 then 1 else 0))"
    using u8_next_nonzero [of probe_ttl] by simp
qed auto

declare traceroute_run.simps [simp del]

definition nfs_traceroute_sim :: "u32 \<Rightarrow> u32 \<Rightarrow> u32 list \<Rightarrow> nat \<Rightarrow> nfs_traceroute_hop list" where
  "nfs_traceroute_sim src dst hops max_results = traceroute_run dst hops max_results [] 1"

text \<open>The listing of a path: the routers in order, then the destination.\<close>

definition path_listing :: "u32 list \<Rightarrow> u32 \<Rightarrow> nfs_traceroute_hop list" where
  "path_listing hops dst =
     map (\<lambda>i. \<lparr> hop_num = i + 1, responder_ip = (hops @ [dst]) ! i, reached_dest = (i = length hops) \<rparr>)
       [0..<length hops + 1]"

lemma of_nat_u8_zero: "n < 256 \<Longrightarrow> (of_nat n :: u8) = 0 \<longleftrightarrow> n = 0"
  using unat_of_nat_u8 [of n] by auto

lemma walk_hops_eq:
  "0 < t \<Longrightarrow> t < 256 \<Longrightarrow>
   walk_hops (of_nat t) hops = (if t \<le> length hops then Expired (hops ! (t - 1)) else Arrived)"
proof (induction hops arbitrary: t)
  case (Cons hop hops)
  obtain s where t: "t = Suc s" using Cons.prems by (cases t) auto
  then have ttl: "(of_nat t :: u8) - 1 = of_nat s" "(of_nat t :: u8) \<noteq> 0"
    using Cons.prems of_nat_u8_zero [of t] by auto
  show ?case
  proof (cases s)
    case 0
    then show ?thesis using ttl by (simp add: t)
  next
    case (Suc r)
    have "walk_hops (of_nat s) hops = (if s \<le> length hops then Expired (hops ! (s - 1)) else Arrived)"
      using Cons.IH [of s] Cons.prems by (simp add: t Suc)
    then show ?thesis
      using ttl Cons.prems of_nat_u8_zero [of s] unfolding walk_hops.simps Let_def by (simp add: t Suc)
  qed
qed simp

lemma length_path_listing: "length (path_listing hops dst) = length hops + 1"
  by (simp add: path_listing_def)

lemma path_listing_nth:
  "i \<le> length hops \<Longrightarrow> path_listing hops dst ! i =
     \<lparr> hop_num = i + 1, responder_ip = (hops @ [dst]) ! i, reached_dest = (i = length hops) \<rparr>"
  unfolding path_listing_def by (subst nth_map) (simp_all del: upt_Suc)

lemma traceroute_run_listing:
  assumes "length hops < 255"
  shows "k \<le> length hops \<Longrightarrow>
    traceroute_run dst hops n (take k (path_listing hops dst)) (Suc k) =
      (if n \<le> k then take k (path_listing hops dst) else take n (path_listing hops dst))"
proof (induction "length hops - k" arbitrary: k)
  case 0
  then have k: "k = length hops" by simp
  have walk: "walk_hops (of_nat (Suc k)) hops = Arrived"
    using walk_hops_eq [of "Suc k" hops] assms by (simp add: k)
  have all: "take k (path_listing hops dst) @ [path_listing hops dst ! k] = path_listing hops dst"
    using length_path_listing [of hops dst] by (metis add.commute k lessI plus_1_eq_Suc take_Suc_conv_app_nth take_all order_refl)
  show ?case
    unfolding traceroute_run.simps [of dst hops n "take k (path_listing hops dst)" "Suc k"] walk
    using all path_listing_nth [of k hops dst] by (simp add: k length_path_listing)
next
  case (Suc m)
  then have k: "k < length hops" by simp
  have walk: "walk_hops (of_nat (Suc k)) hops = Expired (hops ! k)"
    using walk_hops_eq [of "Suc k" hops] assms k by simp
  have next_hop: "take k (path_listing hops dst) @
      [\<lparr> hop_num = k + 1, responder_ip = hops ! k, reached_dest = False \<rparr>] = take (Suc k) (path_listing hops dst)"
    using k path_listing_nth [of k hops dst] by (simp add: take_Suc_conv_app_nth length_path_listing nth_append)
  have IH: "traceroute_run dst hops n (take (Suc k) (path_listing hops dst)) (Suc (Suc k)) =
      (if n \<le> Suc k then take (Suc k) (path_listing hops dst) else take n (path_listing hops dst))"
    using Suc.hyps k by (intro Suc.hyps(1)) simp_all
  show ?case
    unfolding traceroute_run.simps [of dst hops n "take k (path_listing hops dst)" "Suc k"] walk
    using k next_hop IH by (auto simp: length_path_listing le_Suc_eq)
qed

text \<open>
  A traceroute over fewer than 255 routers lists them in order, then the destination, up
  to the room for its results, and returns for every path.
\<close>
theorem traceroute_lists_path:
  assumes "length hops < 255"
  shows "nfs_traceroute_sim src dst hops n = take n (path_listing hops dst)"
  using traceroute_run_listing [OF assms, of 0 dst n]
  by (simp add: nfs_traceroute_sim_def)

lemma traceroute_lists_path_witness:
  "nfs_traceroute_sim 1 9 [5, 6] 8 = take 8 (path_listing [5, 6] 9)"
  by (rule traceroute_lists_path) simp

text \<open>
  From 255 routers on, the 8-bit time to live starts over before the destination is reached:
  whatever the room, no result is the destination.
\<close>

lemma long_walk: "255 \<le> length hops \<Longrightarrow> walk_hops ttl hops \<noteq> Arrived"
  using walk_hops_eq [of "unat ttl" hops] unat_u8_less [of ttl]
  by (cases "ttl = 0"; cases hops) (auto simp: unat_gt_0)

lemma long_path_run:
  "255 \<le> length hops \<Longrightarrow> list_all (\<lambda>h. \<not> reached_dest h) results \<Longrightarrow>
    list_all (\<lambda>h. \<not> reached_dest h) (traceroute_run dst hops n results probe_ttl)"
proof (induction dst hops n results probe_ttl rule: traceroute_run.induct)
  case (1 dst hops n results probe_ttl)
  show ?case
    using 1 long_walk [of hops "of_nat probe_ttl"]
    by (subst traceroute_run.simps) (simp split: probe_result.split)
qed

lemma long_path_never_reached:
  assumes "255 \<le> length hops"
  shows "list_all (\<lambda>h. \<not> reached_dest h) (nfs_traceroute_sim src dst hops n)"
  unfolding nfs_traceroute_sim_def by (rule long_path_run [OF assms]) simp

section \<open>Path MTU\<close>

definition plateau_table :: "u32 list" where
  "plateau_table = [65535, 32000, 17914, 8166, 4352, 2002, 1492, 1006, 508, 296, 68]"

record nfs_pmtu_entry =
  pmtu_dest :: u32
  pmtu_mtu :: u32
  last_updated :: real

record nfs_pmtu_cache =
  pmtu_entries :: "nfs_pmtu_entry list"
  pmtu_capacity :: nat

definition nfs_pmtu_cache_init :: "nat \<Rightarrow> nfs_pmtu_cache" where
  "nfs_pmtu_cache_init capacity = \<lparr> pmtu_entries = [], pmtu_capacity = capacity \<rparr>"

definition nfs_pmtu_cache_free :: "nfs_pmtu_cache \<Rightarrow> nfs_pmtu_cache" where
  "nfs_pmtu_cache_free c = \<lparr> pmtu_entries = [], pmtu_capacity = 0 \<rparr>"

definition nfs_pmtu_cache_update :: "nfs_pmtu_cache \<Rightarrow> u32 \<Rightarrow> u32 \<Rightarrow> real \<Rightarrow> nfs_pmtu_cache option" where
  "nfs_pmtu_cache_update c dest new_mtu now =
     (case find_idx (\<lambda>e. pmtu_dest e = dest) (pmtu_entries c) of
        Some i \<Rightarrow>
          Some (c\<lparr> pmtu_entries := (pmtu_entries c)
            [i := (pmtu_entries c ! i)\<lparr> pmtu_mtu := new_mtu, last_updated := now \<rparr>] \<rparr>)
      | None \<Rightarrow>
          if length (pmtu_entries c) \<ge> pmtu_capacity c then None
          else Some (c\<lparr> pmtu_entries := pmtu_entries c @
            [\<lparr> pmtu_dest = dest, pmtu_mtu = new_mtu, last_updated = now \<rparr>] \<rparr>))"

definition nfs_pmtu_cache_lookup :: "nfs_pmtu_cache \<Rightarrow> u32 \<Rightarrow> u32" where
  "nfs_pmtu_cache_lookup c dest =
     (case find_idx (\<lambda>e. pmtu_dest e = dest) (pmtu_entries c) of
        Some i \<Rightarrow> pmtu_mtu (pmtu_entries c ! i)
      | None \<Rightarrow> 0)"

definition nfs_pmtu_next_lower :: "u32 \<Rightarrow> u32" where
  "nfs_pmtu_next_lower current_mtu =
     (case List.find (\<lambda>m. m < current_mtu) plateau_table of Some m \<Rightarrow> m | None \<Rightarrow> 68)"

definition nfs_pmtu_should_probe :: "nfs_pmtu_entry \<Rightarrow> real \<Rightarrow> real \<Rightarrow> bool" where
  "nfs_pmtu_should_probe e now probe_interval \<longleftrightarrow> now - last_updated e \<ge> probe_interval"

text \<open>What is known of a destination: its MTU with the time it was learned.\<close>

definition pmtu_inv :: "nfs_pmtu_cache \<Rightarrow> bool" where
  "pmtu_inv c \<longleftrightarrow> distinct (map pmtu_dest (pmtu_entries c)) \<and> length (pmtu_entries c) \<le> pmtu_capacity c"

definition pmtu_known :: "nfs_pmtu_cache \<Rightarrow> u32 \<Rightarrow> (u32 \<times> real) option" where
  "pmtu_known c dest =
     map_option (\<lambda>e. (pmtu_mtu e, last_updated e)) (find_key pmtu_dest dest (pmtu_entries c))"

fun pmtu_put :: "nfs_pmtu_cache \<Rightarrow> u32 \<Rightarrow> u32 \<times> real \<Rightarrow> nfs_pmtu_cache option" where
  "pmtu_put c dest (m, now) = nfs_pmtu_cache_update c dest m now"

lemma pmtu_lookup_known:
  "nfs_pmtu_cache_lookup c dest = (case pmtu_known c dest of Some (m, now) \<Rightarrow> m | None \<Rightarrow> 0)"
  by (simp add: nfs_pmtu_cache_lookup_def pmtu_known_def find_key_idx split: option.split)

lemma pmtu_update_upsert:
  "nfs_pmtu_cache_update c dest m now = map_option (\<lambda>es. c\<lparr> pmtu_entries := es \<rparr>)
     (upsert pmtu_dest (pmtu_capacity c) dest (\<lambda>e. e\<lparr> pmtu_mtu := m, last_updated := now \<rparr>)
       \<lparr> pmtu_dest = dest, pmtu_mtu = m, last_updated = now \<rparr> (pmtu_entries c))"
  by (simp add: nfs_pmtu_cache_update_def upsert_def split: option.splits)

interpretation pmtu: keyed_table pmtu_known pmtu_put "\<lambda>t. length (pmtu_entries t)" pmtu_capacity pmtu_inv
proof
  fix t k v t'
  assume inv: "pmtu_inv t" and put: "pmtu_put t k v = Some t'"
  obtain m now where v: "v = (m, now)" by (cases v)
  let ?upd = "\<lambda>e. e\<lparr> pmtu_mtu := m, last_updated := now \<rparr>"
    and ?new = "\<lparr> pmtu_dest = k, pmtu_mtu = m, last_updated = now \<rparr>"
  obtain es where es: "upsert pmtu_dest (pmtu_capacity t) k ?upd ?new (pmtu_entries t) = Some es"
      and t': "t' = t\<lparr> pmtu_entries := es \<rparr>"
    using put by (auto simp: v pmtu_update_upsert)
  have d: "distinct (map pmtu_dest (pmtu_entries t))" using inv by (simp add: pmtu_inv_def)
  note u = upsert_Some [OF d es]
  show "pmtu_known t' = (pmtu_known t)(k \<mapsto> v)"
    using u(2) by (intro ext) (auto simp: pmtu_known_def t' v split: option.splits)
  show "pmtu_inv t'" using u(1,4) inv by (simp add: pmtu_inv_def t')
  show "pmtu_capacity t' = pmtu_capacity t \<and>
      length (pmtu_entries t') = (if pmtu_known t k = None then Suc (length (pmtu_entries t)) else length (pmtu_entries t))"
    using u(3) by (simp add: t' pmtu_known_def)
next
  fix t k v
  assume "pmtu_inv t"
  then show "pmtu_put t k v = None \<longleftrightarrow> pmtu_known t k = None \<and> length (pmtu_entries t) = pmtu_capacity t"
    by (cases v) (auto simp: pmtu_update_upsert upsert_None_iff pmtu_known_def pmtu_inv_def)
qed (simp add: pmtu_inv_def)

text \<open>
  Discovery without hints: a packet larger than the path takes is answered with an ICMP error
  that names no MTU, and the sender records the next plateau. \<open>discover path n m\<close> is what the
  sender arrives at from \<open>m\<close> with at most \<open>n\<close> errors, and the number of errors it met.
\<close>

fun discover :: "u32 \<Rightarrow> nat \<Rightarrow> u32 \<Rightarrow> u32 \<times> nat" where
  "discover path 0 m = (m, 0)"
| "discover path (Suc n) m =
     (if path < m then let (m', k) = discover path n (nfs_pmtu_next_lower m) in (m', Suc k) else (m, 0))"

lemma find_first_below:
  "sorted_wrt (>) (xs :: u32 list) \<Longrightarrow> x \<in> set xs \<Longrightarrow> x < n \<Longrightarrow>
   \<exists>r. List.find (\<lambda>m. m < n) xs = Some r \<and> r \<in> set xs \<and> r < n \<and>
     (\<forall>p \<in> set xs. p < n \<longrightarrow> p \<le> r) \<and> length (filter (\<lambda>m. m < r) xs) < length (filter (\<lambda>m. m < n) xs)"
proof (induction xs)
  case (Cons y ys)
  show ?case
  proof (cases "y < n")
    case True
    have "filter (\<lambda>m. m < n) ys = ys" using Cons.prems(1) True by (intro filter_True) auto
    then show ?thesis
      using True Cons.prems(1) length_filter_le [of "\<lambda>m. m < y" ys] by (auto intro: less_imp_le)
  next
    case False
    then have "x \<in> set ys" using Cons.prems(2,3) by auto
    then obtain r where r: "List.find (\<lambda>m. m < n) ys = Some r" "r \<in> set ys" "r < n"
        "\<forall>p \<in> set ys. p < n \<longrightarrow> p \<le> r" "length (filter (\<lambda>m. m < r) ys) < length (filter (\<lambda>m. m < n) ys)"
      using Cons.IH Cons.prems by auto
    then show ?thesis using False by auto
  qed
qed simp

lemma plateaus_fall: "sorted_wrt (>) plateau_table"
  by (simp add: plateau_table_def)

lemma plateau_68: "68 \<in> set plateau_table"
  by (simp add: plateau_table_def)

lemma next_lower_below:
  assumes "68 < n"
  shows "nfs_pmtu_next_lower n \<in> set plateau_table" and "nfs_pmtu_next_lower n < n"
    and "m \<in> set plateau_table \<Longrightarrow> m < n \<Longrightarrow> m \<le> nfs_pmtu_next_lower n"
    and "length (filter (\<lambda>m. m < nfs_pmtu_next_lower n) plateau_table) < length (filter (\<lambda>m. m < n) plateau_table)"
  using find_first_below [OF plateaus_fall plateau_68 assms] by (auto simp: nfs_pmtu_next_lower_def)

lemma discover_correct:
  assumes "68 \<le> path" and "length (filter (\<lambda>p. p < m) plateau_table) \<le> n"
    and "discover path n m = (r, k)"
  shows "k \<le> length (filter (\<lambda>p. p < m) plateau_table) \<and> r \<le> path \<and> (m \<le> path \<longrightarrow> r = m) \<and>
    (path < m \<longrightarrow> r \<in> set plateau_table \<and> (\<forall>p \<in> set plateau_table. p \<le> path \<longrightarrow> p \<le> r))"
  using assms(2,3)
proof (induction n arbitrary: m r k)
  case 0
  then have "\<not> 68 < m" using plateau_68 by (auto simp: filter_empty_conv)
  then show ?case using 0 assms(1) by (auto simp: not_less)
next
  case (Suc n)
  show ?case
  proof (cases "path < m")
    case False
    then have "r = m" "k = 0" using Suc.prems(2) by simp_all
    then show ?thesis using False by auto
  next
    case True
    then have m: "68 < m" using assms(1) by simp
    let ?m = "nfs_pmtu_next_lower m"
    obtain k' where k': "discover path n ?m = (r, k')" "k = Suc k'"
      using Suc.prems(2) True by (auto split: prod.splits)
    have fewer: "length (filter (\<lambda>p. p < ?m) plateau_table) < length (filter (\<lambda>p. p < m) plateau_table)"
      by (rule next_lower_below(4) [OF m])
    then have IH: "k' \<le> length (filter (\<lambda>p. p < ?m) plateau_table) \<and> r \<le> path \<and> (?m \<le> path \<longrightarrow> r = ?m) \<and>
        (path < ?m \<longrightarrow> r \<in> set plateau_table \<and> (\<forall>p \<in> set plateau_table. p \<le> path \<longrightarrow> p \<le> r))"
      using Suc.prems(1) k'(1) by (intro Suc.IH) simp_all
    have "p \<le> ?m" if "p \<in> set plateau_table" "p \<le> path" for p
      using next_lower_below(3) [OF m that(1)] that(2) True by simp
    then show ?thesis
      using IH fewer k'(2) True next_lower_below(1) [OF m] by (cases "?m \<le> path") auto
  qed
qed

text \<open>
  A sender that lowers its estimate to the next plateau at each error settles within
  eleven errors, on any path that takes 68 bytes: on its first estimate if that fits, and
  otherwise on the largest plateau the path takes; and from then on the cache gives that MTU
  for the destination and what it gave before for the others.
\<close>
theorem pmtud_settles:
  assumes "pmtu_inv c" and "68 \<le> path" and "discover path 11 m = (r, k)"
    and "nfs_pmtu_cache_update c dest r now = Some c'"
  shows "k \<le> 11 \<and> r \<le> path \<and> (m \<le> path \<longrightarrow> r = m) \<and>
    (path < m \<longrightarrow> r \<in> set plateau_table \<and> (\<forall>p \<in> set plateau_table. p \<le> path \<longrightarrow> p \<le> r)) \<and>
    nfs_pmtu_cache_lookup c' = (nfs_pmtu_cache_lookup c)(dest := r)"
proof -
  have "length (filter (\<lambda>p. p < m) plateau_table) \<le> length plateau_table" by (rule length_filter_le)
  then have eleven: "length (filter (\<lambda>p. p < m) plateau_table) \<le> 11" by (simp add: plateau_table_def)
  have "pmtu_known c' = (pmtu_known c)(dest \<mapsto> (r, now))"
    using pmtu.ins_lookup [OF assms(1), of dest "(r, now)" c'] assms(4) by simp
  then have "nfs_pmtu_cache_lookup c' = (nfs_pmtu_cache_lookup c)(dest := r)"
    by (intro ext) (simp add: pmtu_lookup_known)
  then show ?thesis using discover_correct [OF assms(2) eleven assms(3)] eleven by simp
qed

lemma pmtud_settles_witness:
  "let c = nfs_pmtu_cache_init 1 in
   discover 1400 11 9000 = (1006, 5) \<and>
   (\<exists>c'. nfs_pmtu_cache_update c 7 1006 3 = Some c' \<and>
      nfs_pmtu_cache_lookup c' = (nfs_pmtu_cache_lookup c)(7 := 1006))"
proof -
  let ?c = "nfs_pmtu_cache_init 1"
  have d: "discover 1400 11 9000 = (1006, 5)" by code_simp
  have "pmtu_inv ?c" by (simp add: pmtu_inv_def nfs_pmtu_cache_init_def)
  moreover have "\<exists>c'. nfs_pmtu_cache_update ?c 7 1006 3 = Some c'"
    by (simp add: nfs_pmtu_cache_update_def nfs_pmtu_cache_init_def)
  ultimately show ?thesis
    using pmtud_settles [OF _ _ d, of ?c 7 3] d by (auto simp: Let_def)
qed

section \<open>Explicit congestion notification\<close>

datatype nfs_ecn_codepoint_t = NFS_ECN_NOT_ECT | NFS_ECN_ECT1 | NFS_ECN_ECT0 | NFS_ECN_CE

fun ecn_value :: "nfs_ecn_codepoint_t \<Rightarrow> u8" where
  "ecn_value NFS_ECN_NOT_ECT = 0x00"
| "ecn_value NFS_ECN_ECT1 = 0x01"
| "ecn_value NFS_ECN_ECT0 = 0x02"
| "ecn_value NFS_ECN_CE = 0x03"

definition ecn_of_value :: "u8 \<Rightarrow> nfs_ecn_codepoint_t" where
  "ecn_of_value v =
     (if v = 0x00 then NFS_ECN_NOT_ECT else if v = 0x01 then NFS_ECN_ECT1
      else if v = 0x02 then NFS_ECN_ECT0 else NFS_ECN_CE)"

definition nfs_ecn_get_ip :: "u8 \<Rightarrow> nfs_ecn_codepoint_t" where
  "nfs_ecn_get_ip tos = ecn_of_value (tos AND 0x03)"

definition nfs_ecn_set_ip :: "u8 \<Rightarrow> nfs_ecn_codepoint_t \<Rightarrow> u8" where
  "nfs_ecn_set_ip tos ecn = (tos AND 0xFC) OR (ecn_value ecn AND 0x03)"

definition nfs_ecn_is_ect :: "u8 \<Rightarrow> bool" where
  "nfs_ecn_is_ect tos \<longleftrightarrow>
     (let ecn = nfs_ecn_get_ip tos in ecn = NFS_ECN_ECT0 \<or> ecn = NFS_ECN_ECT1)"

definition nfs_ecn_is_ce :: "u8 \<Rightarrow> bool" where
  "nfs_ecn_is_ce tos \<longleftrightarrow> nfs_ecn_get_ip tos = NFS_ECN_CE"

definition nfs_ecn_mark_ce :: "u8 \<Rightarrow> u8 option" where
  "nfs_ecn_mark_ce tos =
     (if \<not> nfs_ecn_is_ect tos then None else Some (nfs_ecn_set_ip tos NFS_ECN_CE))"

definition NFS_TCP_FLAG_NS :: u16 where "NFS_TCP_FLAG_NS = 0x100"
definition NFS_TCP_FLAG_CWR :: u16 where "NFS_TCP_FLAG_CWR = 0x080"
definition NFS_TCP_FLAG_ECE :: u16 where "NFS_TCP_FLAG_ECE = 0x040"
definition NFS_TCP_FLAG_SYN :: u16 where "NFS_TCP_FLAG_SYN = 0x002"
definition NFS_TCP_FLAG_ACK :: u16 where "NFS_TCP_FLAG_ACK = 0x010"

lemmas ecn_flags = NFS_TCP_FLAG_NS_def NFS_TCP_FLAG_CWR_def NFS_TCP_FLAG_ECE_def
  NFS_TCP_FLAG_SYN_def NFS_TCP_FLAG_ACK_def

definition nfs_ecn_tcp_get_flags :: "u16 \<Rightarrow> u16" where
  "nfs_ecn_tcp_get_flags data_off_flags_net = ntohs data_off_flags_net AND 0x0FFF"

definition nfs_ecn_tcp_set_flags :: "u16 \<Rightarrow> u16 \<Rightarrow> u16" where
  "nfs_ecn_tcp_set_flags data_off_flags_net flags_to_set =
     ntohs (ntohs data_off_flags_net OR (flags_to_set AND 0x0FFF))"

definition nfs_ecn_tcp_clear_flags :: "u16 \<Rightarrow> u16 \<Rightarrow> u16" where
  "nfs_ecn_tcp_clear_flags data_off_flags_net flags_to_clear =
     ntohs (ntohs data_off_flags_net AND NOT (flags_to_clear AND 0x0FFF))"

definition nfs_ecn_tcp_has_flags :: "u16 \<Rightarrow> u16 \<Rightarrow> bool" where
  "nfs_ecn_tcp_has_flags data_off_flags_net flags \<longleftrightarrow>
     ntohs data_off_flags_net AND (flags AND 0x0FFF) = flags AND 0x0FFF"

datatype nfs_ecn_state_t = NFS_ECN_STATE_UNKNOWN | NFS_ECN_STATE_REQUESTED
  | NFS_ECN_STATE_ACCEPTED | NFS_ECN_STATE_REJECTED | NFS_ECN_STATE_ACTIVE

record nfs_ecn_negotiation =
  ecn_state :: nfs_ecn_state_t
  ecn_capable :: bool

definition nfs_ecn_nego_init :: nfs_ecn_negotiation where
  "nfs_ecn_nego_init = \<lparr> ecn_state = NFS_ECN_STATE_UNKNOWN, ecn_capable = False \<rparr>"

definition nfs_ecn_build_syn_flags :: u16 where
  "nfs_ecn_build_syn_flags = NFS_TCP_FLAG_SYN OR NFS_TCP_FLAG_ECE OR NFS_TCP_FLAG_CWR"

definition nfs_ecn_build_synack_accept_flags :: u16 where
  "nfs_ecn_build_synack_accept_flags = NFS_TCP_FLAG_SYN OR NFS_TCP_FLAG_ACK OR NFS_TCP_FLAG_ECE"

definition nfs_ecn_build_synack_reject_flags :: u16 where
  "nfs_ecn_build_synack_reject_flags = NFS_TCP_FLAG_SYN OR NFS_TCP_FLAG_ACK"

definition nfs_ecn_nego_process :: "nfs_ecn_negotiation \<Rightarrow> u16 \<Rightarrow> bool \<Rightarrow> nfs_ecn_state_t \<times> nfs_ecn_negotiation" where
  "nfs_ecn_nego_process nego tcp_flags is_syn_ack =
     (let nego' =
        (if \<not> is_syn_ack then
           (if tcp_flags AND NFS_TCP_FLAG_SYN \<noteq> 0 \<and> tcp_flags AND NFS_TCP_FLAG_ECE \<noteq> 0 \<and>
               tcp_flags AND NFS_TCP_FLAG_CWR \<noteq> 0
            then nego\<lparr> ecn_state := NFS_ECN_STATE_REQUESTED \<rparr> else nego)
         else
           (if tcp_flags AND NFS_TCP_FLAG_SYN \<noteq> 0 \<and> tcp_flags AND NFS_TCP_FLAG_ACK \<noteq> 0 then
              (if tcp_flags AND NFS_TCP_FLAG_ECE \<noteq> 0 \<and> \<not> tcp_flags AND NFS_TCP_FLAG_CWR \<noteq> 0
               then nego\<lparr> ecn_state := NFS_ECN_STATE_ACCEPTED, ecn_capable := True \<rparr>
               else nego\<lparr> ecn_state := NFS_ECN_STATE_REJECTED, ecn_capable := False \<rparr>)
            else nego))
      in (ecn_state nego', nego'))"

fun nfs_ecn_codepoint_name :: "nfs_ecn_codepoint_t \<Rightarrow> string" where
  "nfs_ecn_codepoint_name NFS_ECN_NOT_ECT = ''Not-ECT''"
| "nfs_ecn_codepoint_name NFS_ECN_ECT1 = ''ECT(1)''"
| "nfs_ecn_codepoint_name NFS_ECN_ECT0 = ''ECT(0)''"
| "nfs_ecn_codepoint_name NFS_ECN_CE = ''CE''"

fun nfs_ecn_state_name :: "nfs_ecn_state_t \<Rightarrow> string" where
  "nfs_ecn_state_name NFS_ECN_STATE_UNKNOWN = ''UNKNOWN''"
| "nfs_ecn_state_name NFS_ECN_STATE_REQUESTED = ''REQUESTED''"
| "nfs_ecn_state_name NFS_ECN_STATE_ACCEPTED = ''ACCEPTED''"
| "nfs_ecn_state_name NFS_ECN_STATE_REJECTED = ''REJECTED''"
| "nfs_ecn_state_name NFS_ECN_STATE_ACTIVE = ''ACTIVE''"

lemma ecn_value_masked: "ecn_value e AND 0x03 = ecn_value e"
  by (cases e) simp_all

lemma ecn_of_value_value [simp]: "ecn_of_value (ecn_value e) = e"
  by (cases e) (simp_all add: ecn_of_value_def)

lemma set_ip_fields:
  "nfs_ecn_get_ip (nfs_ecn_set_ip tos e) = e"
  "nfs_ecn_set_ip tos e AND 0xFC = tos AND 0xFC"
proof -
  have "((tos AND 0xFC) OR ecn_value e) AND 0x03 = ecn_value e"
    by (cases e) (simp_all add: bit.conj_disj_distrib2 and.assoc)
  then show "nfs_ecn_get_ip (nfs_ecn_set_ip tos e) = e"
    by (simp add: nfs_ecn_get_ip_def nfs_ecn_set_ip_def ecn_value_masked)
  show "nfs_ecn_set_ip tos e AND 0xFC = tos AND 0xFC"
    by (cases e) (simp_all add: nfs_ecn_set_ip_def bit.conj_disj_distrib2 and.assoc)
qed

text \<open>
  A path of routers, each congested or not. A congested router marks the packet if it may,
  and drops it otherwise, unless it carries the mark already.
\<close>

fun ecn_path :: "bool list \<Rightarrow> u8 \<Rightarrow> u8 option" where
  "ecn_path [] tos = Some tos"
| "ecn_path (congested # path) tos =
     (if congested \<and> \<not> nfs_ecn_is_ce tos
      then (case nfs_ecn_mark_ce tos of None \<Rightarrow> None | Some tos' \<Rightarrow> ecn_path path tos')
      else ecn_path path tos)"

lemma ecn_path_marked: "nfs_ecn_is_ce tos \<Longrightarrow> ecn_path path tos = Some tos"
  by (induction path) auto

lemma ecn_path_congestion:
  "nfs_ecn_is_ect tos \<Longrightarrow>
     ecn_path path tos = Some (if True \<in> set path then nfs_ecn_set_ip tos NFS_ECN_CE else tos)"
proof (induction path)
  case (Cons congested path)
  then show ?case
    using ecn_path_marked [of "nfs_ecn_set_ip tos NFS_ECN_CE" path]
    by (auto simp: nfs_ecn_mark_ce_def nfs_ecn_is_ce_def nfs_ecn_is_ect_def set_ip_fields Let_def)
qed simp

text \<open>
  The receiver of a packet sent with an ECT codepoint sees the mark exactly if a router was
  congested, and the other six bits as they were sent.
\<close>

lemma ecn_reports_congestion:
  assumes "e = NFS_ECN_ECT0 \<or> e = NFS_ECN_ECT1"
  shows "\<exists>tos'. ecn_path path (nfs_ecn_set_ip tos e) = Some tos' \<and>
    (nfs_ecn_is_ce tos' \<longleftrightarrow> True \<in> set path) \<and> tos' AND 0xFC = tos AND 0xFC"
proof -
  have "nfs_ecn_is_ect (nfs_ecn_set_ip tos e)"
    using assms by (auto simp: nfs_ecn_is_ect_def set_ip_fields Let_def)
  then have "ecn_path path (nfs_ecn_set_ip tos e) =
      Some (if True \<in> set path then nfs_ecn_set_ip (nfs_ecn_set_ip tos e) NFS_ECN_CE else nfs_ecn_set_ip tos e)"
    by (rule ecn_path_congestion)
  moreover have "nfs_ecn_set_ip (nfs_ecn_set_ip tos e) NFS_ECN_CE AND 0xFC = tos AND 0xFC"
    by (simp only: set_ip_fields(2))
  ultimately show ?thesis
    using assms set_ip_fields(2) [of tos e]
    by (cases "True \<in> set path") (auto simp: nfs_ecn_is_ce_def set_ip_fields(1))
qed

text \<open>
  The handshake: the responder accepts exactly what it took for a request, and the initiator
  is capable exactly if it asked and the answer was the accepting one.
\<close>

lemma ecn_negotiation:
  "ecn_capable (snd (nfs_ecn_nego_process nfs_ecn_nego_init
     (if fst (nfs_ecn_nego_process nfs_ecn_nego_init syn_flags False) = NFS_ECN_STATE_REQUESTED
      then nfs_ecn_build_synack_accept_flags else nfs_ecn_build_synack_reject_flags) True)) \<longleftrightarrow>
   syn_flags AND nfs_ecn_build_syn_flags = nfs_ecn_build_syn_flags"
proof -
  have one: "syn_flags AND 0x002 \<noteq> 0 \<longleftrightarrow> bit syn_flags 1" "syn_flags AND 0x040 \<noteq> 0 \<longleftrightarrow> bit syn_flags 6"
      "syn_flags AND 0x080 \<noteq> 0 \<longleftrightarrow> bit syn_flags 7"
    using and_exp_eq_0_iff_not_bit [of syn_flags 1] and_exp_eq_0_iff_not_bit [of syn_flags 6]
      and_exp_eq_0_iff_not_bit [of syn_flags 7] by simp_all
  have syn: "nfs_ecn_build_syn_flags = 2 ^ 1 OR 2 ^ 6 OR 2 ^ 7"
    by (simp add: nfs_ecn_build_syn_flags_def ecn_flags)
  have all: "syn_flags AND nfs_ecn_build_syn_flags = nfs_ecn_build_syn_flags \<longleftrightarrow>
      bit syn_flags 1 \<and> bit syn_flags 6 \<and> bit syn_flags 7"
  proof
    assume "syn_flags AND nfs_ecn_build_syn_flags = nfs_ecn_build_syn_flags"
    then have "bit (syn_flags AND nfs_ecn_build_syn_flags) n = bit nfs_ecn_build_syn_flags n" for n by simp
    from this [of 1] this [of 6] this [of 7] show "bit syn_flags 1 \<and> bit syn_flags 6 \<and> bit syn_flags 7"
      unfolding syn by (simp only: bit_and_iff bit_or_iff bit_exp_iff) simp
  next
    assume "bit syn_flags 1 \<and> bit syn_flags 6 \<and> bit syn_flags 7"
    then show "syn_flags AND nfs_ecn_build_syn_flags = nfs_ecn_build_syn_flags"
      unfolding syn by (intro bit_eqI) (simp only: bit_and_iff bit_or_iff bit_exp_iff, auto)
  qed
  show ?thesis
    unfolding all
    by (simp add: nfs_ecn_nego_process_def nfs_ecn_nego_init_def ecn_flags one
        nfs_ecn_build_synack_accept_flags_def nfs_ecn_build_synack_reject_flags_def)
qed

text \<open>The responder is never capable, whatever it accepted, and no end is ever ACTIVE.\<close>

lemma responder_never_capable:
  "ecn_capable (snd (nfs_ecn_nego_process nego tcp_flags False)) = ecn_capable nego \<and>
   (ecn_state nego \<noteq> NFS_ECN_STATE_ACTIVE \<longrightarrow>
      fst (nfs_ecn_nego_process nego tcp_flags is_syn_ack) \<noteq> NFS_ECN_STATE_ACTIVE)"
  by (simp add: nfs_ecn_nego_process_def Let_def)

lemma tcp_flags_set_clear:
  "nfs_ecn_tcp_get_flags (nfs_ecn_tcp_set_flags w f) = nfs_ecn_tcp_get_flags w OR (f AND 0x0FFF)"
  "nfs_ecn_tcp_get_flags (nfs_ecn_tcp_clear_flags w f) = nfs_ecn_tcp_get_flags w AND NOT (f AND 0x0FFF)"
  "nfs_ecn_tcp_has_flags w f \<longleftrightarrow> nfs_ecn_tcp_get_flags w AND (f AND 0x0FFF) = f AND 0x0FFF"
proof -
  show "nfs_ecn_tcp_get_flags (nfs_ecn_tcp_set_flags w f) = nfs_ecn_tcp_get_flags w OR (f AND 0x0FFF)"
    by (simp add: nfs_ecn_tcp_get_flags_def nfs_ecn_tcp_set_flags_def bit.conj_disj_distrib2 and.assoc
        del: word_bitwise_1_simps)
  show "nfs_ecn_tcp_get_flags (nfs_ecn_tcp_clear_flags w f) = nfs_ecn_tcp_get_flags w AND NOT (f AND 0x0FFF)"
    by (simp add: nfs_ecn_tcp_get_flags_def nfs_ecn_tcp_clear_flags_def ac_simps)
  show "nfs_ecn_tcp_has_flags w f \<longleftrightarrow> nfs_ecn_tcp_get_flags w AND (f AND 0x0FFF) = f AND 0x0FFF"
    by (simp add: nfs_ecn_tcp_get_flags_def nfs_ecn_tcp_has_flags_def ac_simps)
qed

end
