(* ===== verification/Ethernet.thy ===== *)
theory Ethernet
  imports ArpCache Chunked
begin

text \<open>
  Ethernet frames and what they carry on the link: \<^verbatim>\<open>phases/02-link-layer/\<close> lessons 01
  (\<^verbatim>\<open>ethernet.c\<close>), 02 (\<^verbatim>\<open>mac.c\<close>), 06 (the responder of \<^verbatim>\<open>arp.c\<close>), 08 (\<^verbatim>\<open>vlan.c\<close>), 13 (\<^verbatim>\<open>mtu.c\<close>) and 14
  (\<^verbatim>\<open>wol.c\<close>). A frame is the list of its bytes; what the code copies through a packed struct is
  read at the struct's offsets. A MAC address is a list of six bytes. The formatters that call
  \<^verbatim>\<open>snprintf\<close> and the parsers that call \<^verbatim>\<open>sscanf\<close> are not modelled, nor are the devices.
\<close>

section \<open>Frames\<close>

record nfs_eth_hdr =
  eth_dst :: "u8 list"
  eth_src :: "u8 list"
  eth_type :: u16

definition NFS_ETH_HDR_LEN :: nat where "NFS_ETH_HDR_LEN = 14"
definition NFS_ETH_MIN_PAYLOAD :: nat where "NFS_ETH_MIN_PAYLOAD = 46"

definition NFS_ETHERTYPE_IPV4 :: u16 where "NFS_ETHERTYPE_IPV4 = 0x0800"
definition NFS_ETHERTYPE_ARP :: u16 where "NFS_ETHERTYPE_ARP = 0x0806"
definition NFS_ETHERTYPE_IPV6 :: u16 where "NFS_ETHERTYPE_IPV6 = 0x86DD"
definition NFS_ETHERTYPE_VLAN :: u16 where "NFS_ETHERTYPE_VLAN = 0x8100"

definition nfs_eth_parse :: "u8 list \<Rightarrow> (nfs_eth_hdr \<times> u8 list) option" where
  "nfs_eth_parse frame =
     (if length frame < NFS_ETH_HDR_LEN then None
      else Some (\<lparr> eth_dst = take 6 frame, eth_src = take 6 (drop 6 frame),
                   eth_type = ntohs (read_mem16 frame 12) \<rparr>,
                 drop NFS_ETH_HDR_LEN frame))"

definition nfs_eth_build :: "u8 list \<Rightarrow> u8 list \<Rightarrow> u16 \<Rightarrow> u8 list \<Rightarrow> nat \<Rightarrow> u8 list option" where
  "nfs_eth_build dst src ethertype payload out_sz =
     (let eff_payload = (if length payload < NFS_ETH_MIN_PAYLOAD then NFS_ETH_MIN_PAYLOAD else length payload);
          total = NFS_ETH_HDR_LEN + eff_payload
      in if out_sz < total then None
         else Some (take 6 dst @ take 6 src @ mem16 (ntohs ethertype) @ payload
                    @ replicate (eff_payload - length payload) 0))"

definition nfs_ethertype_name :: "u16 \<Rightarrow> string" where
  "nfs_ethertype_name et =
     (if et = NFS_ETHERTYPE_IPV4 then ''IPv4'' else if et = NFS_ETHERTYPE_ARP then ''ARP''
      else if et = NFS_ETHERTYPE_IPV6 then ''IPv6'' else if et = NFS_ETHERTYPE_VLAN then ''802.1Q''
      else ''Unknown'')"

lemma eth_parse_header:
  assumes "length dst = 6" and "length src = 6"
  shows "nfs_eth_parse (dst @ src @ put16 t @ payload) =
    Some (\<lparr> eth_dst = dst, eth_src = src, eth_type = t \<rparr>, payload)"
  using assms by (simp add: nfs_eth_parse_def NFS_ETH_HDR_LEN_def get_past get16_append_put16)

lemma eth_build_parse:
  assumes "length dst = 6" and "length src = 6" and "nfs_eth_build dst src t payload out_sz = Some frame"
  shows "nfs_eth_parse frame = Some (\<lparr> eth_dst = dst, eth_src = src, eth_type = t \<rparr>,
      payload @ replicate (46 - length payload) 0)"
    and "60 \<le> length frame" and "length frame \<le> out_sz"
proof -
  have f: "frame = dst @ src @ put16 t @ (payload @ replicate (46 - length payload) 0)"
    and sz: "14 + max 46 (length payload) \<le> out_sz"
    using assms by (auto simp: nfs_eth_build_def Let_def NFS_ETH_MIN_PAYLOAD_def NFS_ETH_HDR_LEN_def
        split: if_splits)
  show "nfs_eth_parse frame = Some (\<lparr> eth_dst = dst, eth_src = src, eth_type = t \<rparr>,
      payload @ replicate (46 - length payload) 0)"
    unfolding f using assms(1,2) by (rule eth_parse_header)
  show "60 \<le> length frame" "length frame \<le> out_sz"
    using assms(1,2) sz by (auto simp: f)
qed

section \<open>Addresses\<close>

definition nfs_mac_is_broadcast :: "u8 list \<Rightarrow> bool" where
  "nfs_mac_is_broadcast m \<longleftrightarrow> list_all (\<lambda>i. m ! i = 0xFF) [0..<6]"

definition nfs_mac_is_multicast :: "u8 list \<Rightarrow> bool" where
  "nfs_mac_is_multicast m \<longleftrightarrow> m ! 0 AND 0x01 \<noteq> 0"

definition nfs_mac_is_unicast :: "u8 list \<Rightarrow> bool" where
  "nfs_mac_is_unicast m \<longleftrightarrow> m ! 0 AND 0x01 = 0"

definition nfs_mac_is_local :: "u8 list \<Rightarrow> bool" where
  "nfs_mac_is_local m \<longleftrightarrow> m ! 0 AND 0x02 \<noteq> 0"

definition nfs_mac_is_global :: "u8 list \<Rightarrow> bool" where
  "nfs_mac_is_global m \<longleftrightarrow> m ! 0 AND 0x02 = 0"

definition nfs_mac_get_oui :: "u8 list \<Rightarrow> u8 list" where
  "nfs_mac_get_oui m = [m ! 0, m ! 1, m ! 2]"

definition nfs_mac_type_str :: "u8 list \<Rightarrow> string" where
  "nfs_mac_type_str m =
     (if nfs_mac_is_broadcast m then ''broadcast''
      else if nfs_mac_is_multicast m then ''multicast''
      else if nfs_mac_is_local m then ''unicast/local''
      else ''unicast/global'')"

lemma mac_broadcast_multicast: "nfs_mac_is_broadcast m \<Longrightarrow> nfs_mac_is_multicast m \<and> nfs_mac_is_local m"
  by (simp add: nfs_mac_is_broadcast_def nfs_mac_is_multicast_def nfs_mac_is_local_def list_all_iff)

section \<open>VLAN tags\<close>

record nfs_vlan_tag =
  vlan_tpid :: u16
  vlan_tci :: u16

definition nfs_vlan_pcp :: "nfs_vlan_tag \<Rightarrow> u8" where
  "nfs_vlan_pcp t = (let tci = ntohs (vlan_tci t) in ucast (drop_bit 13 tci AND 0x07))"

definition nfs_vlan_dei :: "nfs_vlan_tag \<Rightarrow> u8" where
  "nfs_vlan_dei t = (let tci = ntohs (vlan_tci t) in ucast (drop_bit 12 tci AND 0x01))"

definition nfs_vlan_vid :: "nfs_vlan_tag \<Rightarrow> u16" where
  "nfs_vlan_vid t = (let tci = ntohs (vlan_tci t) in tci AND 0x0FFF)"

definition nfs_vlan_set :: "u8 \<Rightarrow> u8 \<Rightarrow> u16 \<Rightarrow> nfs_vlan_tag" where
  "nfs_vlan_set pcp dei vid =
     (let tci = push_bit 13 (ucast (pcp AND 0x07)) OR push_bit 12 (ucast (dei AND 0x01)) OR (vid AND 0x0FFF)
      in \<lparr> vlan_tpid = ntohs 0x8100, vlan_tci = ntohs tci \<rparr>)"

definition nfs_vlan_is_tagged :: "u8 list \<Rightarrow> bool" where
  "nfs_vlan_is_tagged frame \<longleftrightarrow>
     (if length frame < 14 then False else frame ! 12 = 0x81 \<and> frame ! 13 = 0x00)"

definition nfs_vlan_tag_insert :: "u8 list \<Rightarrow> u16 \<Rightarrow> u8 \<Rightarrow> nat \<Rightarrow> u8 list option" where
  "nfs_vlan_tag_insert frame vid pcp out_sz =
     (if length frame < NFS_ETH_HDR_LEN then None
      else if out_sz < length frame + 4 then None
      else
        let tag = nfs_vlan_set pcp 0 vid in
        Some (take 12 frame @ mem16 (vlan_tpid tag) @ mem16 (vlan_tci tag) @ drop 12 frame))"

definition nfs_vlan_tag_strip :: "u8 list \<Rightarrow> nat \<Rightarrow> (u8 list \<times> u16) option" where
  "nfs_vlan_tag_strip frame out_sz =
     (if length frame < 18 then None
      else if \<not> nfs_vlan_is_tagged frame then None
      else
        let tag = \<lparr> vlan_tpid = read_mem16 frame 12, vlan_tci = read_mem16 frame 14 \<rparr>;
            vid = nfs_vlan_vid tag
        in if out_sz < length frame - 4 then None
           else Some (take 12 frame @ drop 16 frame, vid))"

lemma vlan_set_fields:
  "nfs_vlan_vid (nfs_vlan_set pcp dei vid) = vid AND 0x0FFF"
  "nfs_vlan_pcp (nfs_vlan_set pcp dei vid) = pcp AND 0x07"
  "nfs_vlan_dei (nfs_vlan_set pcp dei vid) = dei AND 0x01"
proof -
  have m: "(0x0FFF :: u16) = mask 12" "(0x07 :: u8) = mask 3" "(0x01 :: u8) = mask 1"
      "(0x07 :: u16) = mask 3" "(0x01 :: u16) = mask 1" by (simp_all add: mask_eq_exp_minus_1)
  show "nfs_vlan_vid (nfs_vlan_set pcp dei vid) = vid AND 0x0FFF"
    unfolding nfs_vlan_vid_def nfs_vlan_set_def Let_def m
    by (rule bit_word_eqI) (auto simp: bit_simps)
  show "nfs_vlan_pcp (nfs_vlan_set pcp dei vid) = pcp AND 0x07"
    unfolding nfs_vlan_pcp_def nfs_vlan_set_def Let_def m
    by (rule bit_word_eqI) (auto simp: bit_simps)
  show "nfs_vlan_dei (nfs_vlan_set pcp dei vid) = dei AND 0x01"
    unfolding nfs_vlan_dei_def nfs_vlan_set_def Let_def m
    by (rule bit_word_eqI) (auto simp: bit_simps)
qed

text \<open>Across a trunk: the tag goes in at one end and out at the other, and leaves the frame.\<close>

lemma vlan_insert_strip:
  assumes "nfs_vlan_tag_insert frame vid pcp out_sz = Some tagged" and "length frame \<le> room"
  shows "nfs_vlan_is_tagged tagged" and "nfs_vlan_tag_strip tagged room = Some (frame, vid AND 0x0FFF)"
proof -
  let ?tag = "nfs_vlan_set pcp 0 vid"
  have tagged: "tagged = take 12 frame @ put16 0x8100 @ put16 (ntohs (vlan_tci ?tag)) @ drop 12 frame"
    and len: "14 \<le> length frame"
    using assms(1)
    by (auto simp: nfs_vlan_tag_insert_def Let_def NFS_ETH_HDR_LEN_def nfs_vlan_set_def split: if_splits)
  have "put16 0x8100 = [0x81, 0x00]" by (simp add: put16_def hi8_def lo8_def)
  then have bytes: "tagged ! 12 = 0x81" "tagged ! 13 = 0x00"
    using len by (simp_all add: tagged nth_append)
  then show t: "nfs_vlan_is_tagged tagged" using len by (simp add: nfs_vlan_is_tagged_def tagged)
  have "get16 tagged 14 = ntohs (vlan_tci ?tag)"
    using len by (simp add: tagged get_past get16_append_put16)
  then have "nfs_vlan_vid \<lparr> vlan_tpid = read_mem16 tagged 12, vlan_tci = read_mem16 tagged 14 \<rparr> = vid AND 0x0FFF"
    using vlan_set_fields(1) [of pcp 0 vid] by (simp add: nfs_vlan_vid_def)
  moreover have "take 12 tagged = take 12 frame" "drop 16 tagged = drop 12 frame" "length tagged = length frame + 4"
    using len by (simp_all add: tagged)
  ultimately show "nfs_vlan_tag_strip tagged room = Some (frame, vid AND 0x0FFF)"
    using t len assms(2) by (simp add: nfs_vlan_tag_strip_def Let_def)
qed

section \<open>The ARP responder\<close>

definition ETHERTYPE_ARP :: u16 where "ETHERTYPE_ARP = 0x0806"
definition ETHERTYPE_IPV4 :: u16 where "ETHERTYPE_IPV4 = 0x0800"
definition ARP_HW_ETHER :: u16 where "ARP_HW_ETHER = 1"
definition ARP_OP_REQUEST :: u16 where "ARP_OP_REQUEST = 1"
definition ARP_OP_REPLY :: u16 where "ARP_OP_REPLY = 2"

text \<open>The packed struct, with its 16-bit fields as the host reads them from memory.\<close>

record arp_packet =
  hw_type :: u16
  proto_type :: u16
  hw_addr_len :: u8
  proto_addr_len :: u8
  arp_opcode :: u16
  sender_hw :: "u8 list"
  sender_proto :: "u8 list"
  target_hw :: "u8 list"
  target_proto :: "u8 list"

definition arp_at :: "u8 list \<Rightarrow> arp_packet" where
  "arp_at b = \<lparr> hw_type = read_mem16 b 0, proto_type = read_mem16 b 2, hw_addr_len = b ! 4,
     proto_addr_len = b ! 5, arp_opcode = read_mem16 b 6, sender_hw = take 6 (drop 8 b),
     sender_proto = take 4 (drop 14 b), target_hw = take 6 (drop 18 b), target_proto = take 4 (drop 24 b) \<rparr>"

definition arp_image :: "arp_packet \<Rightarrow> u8 list" where
  "arp_image p = mem16 (hw_type p) @ mem16 (proto_type p) @ [hw_addr_len p, proto_addr_len p] @
     mem16 (arp_opcode p) @ sender_hw p @ sender_proto p @ target_hw p @ target_proto p"

definition send_arp_reply :: "u8 list \<Rightarrow> arp_packet \<Rightarrow> u8 list \<Rightarrow> u8 list \<Rightarrow> u8 list" where
  "send_arp_reply req_eth_src req_arp our_mac our_ip =
     req_eth_src @ our_mac @ mem16 (ntohs ETHERTYPE_ARP) @
     arp_image \<lparr> hw_type = ntohs ARP_HW_ETHER, proto_type = ntohs ETHERTYPE_IPV4, hw_addr_len = 6,
       proto_addr_len = 4, arp_opcode = ntohs ARP_OP_REPLY, sender_hw = our_mac, sender_proto = our_ip,
       target_hw = sender_hw req_arp, target_proto = sender_proto req_arp \<rparr>"

text \<open>One pass of the loop of \<^verbatim>\<open>main\<close>: the frame written for the frame read, if any.\<close>

definition arp_respond :: "u8 list \<Rightarrow> u8 list \<Rightarrow> u8 list \<Rightarrow> u8 list option" where
  "arp_respond our_mac our_ip frame =
     (if length frame < 14 + 28 then None
      else if ntohs (read_mem16 frame 12) \<noteq> ETHERTYPE_ARP then None
      else
        let arp = arp_at (drop 14 frame) in
        if ntohs (arp_opcode arp) \<noteq> ARP_OP_REQUEST then None
        else if target_proto arp \<noteq> our_ip then None
        else Some (send_arp_reply (take 6 (drop 6 frame)) arp our_mac our_ip))"

text \<open>
  What the one who asked does with the answer: parse the frame, and if it is an ARP reply
  put the sender's address into the cache.
\<close>

definition arp_learn_reply :: "nfs_arp_cache \<Rightarrow> u8 list \<Rightarrow> int \<Rightarrow> nfs_arp_cache option" where
  "arp_learn_reply c frame now =
     (case nfs_eth_parse frame of
        None \<Rightarrow> None
      | Some (eth, payload) \<Rightarrow>
          if eth_type eth = NFS_ETHERTYPE_ARP \<and> 28 \<le> length payload \<and>
             ntohs (arp_opcode (arp_at payload)) = ARP_OP_REPLY
          then nfs_arp_cache_insert c (get32 (sender_proto (arp_at payload)) 0)
                 (sender_hw (arp_at payload)) NFS_ARP_REACHABLE now
          else None)"

lemma arp_image_at:
  assumes "length (sender_hw p) = 6" and "length (sender_proto p) = 4"
    and "length (target_hw p) = 6" and "length (target_proto p) = 4"
  shows "arp_at (arp_image p @ pad) = p" and "length (arp_image p) = 28"
proof -
  show "length (arp_image p) = 28" using assms by (simp add: arp_image_def mem16_def)
  have mem: "read_mem16 (mem16 x @ bs) 0 = x" for x bs by (simp add: read_mem16_def mem16_def)
  have past: "read_mem16 (xs @ ys) i = read_mem16 ys (i - length xs)" if "length xs \<le> i" for xs ys i
    using that by (simp add: read_mem16_def nth_append Suc_diff_le)
  show "arp_at (arp_image p @ pad) = p"
    unfolding arp_at_def arp_image_def append.assoc
    using assms mem by (simp add: past mem16_def read_mem16_def)
qed

lemma arp_respond_cases:
  assumes "arp_respond our_mac our_ip frame = Some reply"
  shows "42 \<le> length frame" and "nfs_eth_parse frame \<noteq> None"
    and "target_proto (arp_at (drop 14 frame)) = our_ip"
    and "reply = send_arp_reply (take 6 (drop 6 frame)) (arp_at (drop 14 frame)) our_mac our_ip"
  using assms by (auto simp: arp_respond_def nfs_eth_parse_def NFS_ETH_HDR_LEN_def Let_def split: if_splits)

lemma arp_reply_parse:
  assumes "arp_respond our_mac our_ip frame = Some reply" and "length our_mac = 6"
  defines "arp \<equiv> arp_at (drop 14 frame)"
  shows "\<exists>payload. nfs_eth_parse reply = Some (\<lparr> eth_dst = take 6 (drop 6 frame), eth_src = our_mac,
      eth_type = NFS_ETHERTYPE_ARP \<rparr>, payload) \<and> length payload = 28 \<and>
    arp_at payload = \<lparr> hw_type = ntohs ARP_HW_ETHER, proto_type = ntohs ETHERTYPE_IPV4, hw_addr_len = 6,
       proto_addr_len = 4, arp_opcode = ntohs ARP_OP_REPLY, sender_hw = our_mac, sender_proto = our_ip,
       target_hw = sender_hw arp, target_proto = sender_proto arp \<rparr>"
    and "length reply = 42"
proof -
  note r = arp_respond_cases [OF assms(1)]
  let ?p = "\<lparr> hw_type = ntohs ARP_HW_ETHER, proto_type = ntohs ETHERTYPE_IPV4, hw_addr_len = 6,
       proto_addr_len = 4, arp_opcode = ntohs ARP_OP_REPLY, sender_hw = our_mac, sender_proto = our_ip,
       target_hw = sender_hw arp, target_proto = sender_proto arp \<rparr>"
  have len: "length (sender_hw arp) = 6" "length (sender_proto arp) = 4" "length (target_proto arp) = 4"
    using r(1) by (simp_all add: arp_def arp_at_def)
  then have ip: "length our_ip = 4" using r(3) by (simp add: arp_def)
  note image = arp_image_at(1) [of ?p "[]"] arp_image_at(2) [of ?p]
  have reply: "reply = take 6 (drop 6 frame) @ our_mac @ put16 NFS_ETHERTYPE_ARP @ arp_image ?p"
    using r(4) by (simp add: send_arp_reply_def arp_def ETHERTYPE_ARP_def NFS_ETHERTYPE_ARP_def)
  have six: "length (take 6 (drop 6 frame)) = 6" using r(1) by simp
  show "length reply = 42" using len ip assms(2) r(1) image by (simp add: reply)
  show "\<exists>payload. nfs_eth_parse reply = Some (\<lparr> eth_dst = take 6 (drop 6 frame), eth_src = our_mac,
      eth_type = NFS_ETHERTYPE_ARP \<rparr>, payload) \<and> length payload = 28 \<and> arp_at payload = ?p"
    unfolding reply eth_parse_header [OF six assms(2)] using len ip assms(2) image by simp
qed

text \<open>The bytes of a request for an address, and of the answer to it.\<close>

definition arp_request_bytes :: "u8 list \<Rightarrow> u8 list \<Rightarrow> bool" where
  "arp_request_bytes our_ip frame \<longleftrightarrow> 42 \<le> length frame \<and> take 2 (drop 12 frame) = [0x08, 0x06] \<and>
     take 2 (drop 20 frame) = [0x00, 0x01] \<and> take 4 (drop 38 frame) = our_ip"

definition arp_reply_bytes :: "u8 list \<Rightarrow> u8 list \<Rightarrow> u8 list \<Rightarrow> u8 list" where
  "arp_reply_bytes our_mac our_ip frame =
     take 6 (drop 6 frame) @ our_mac @ [0x08, 0x06, 0x00, 0x01, 0x08, 0x00, 6, 4, 0x00, 0x02] @ our_mac @ our_ip @
     take 6 (drop 22 frame) @ take 4 (drop 28 frame)"

lemma be16_eq: "be16 h l = be16 h' l' \<longleftrightarrow> h = h' \<and> l = l'"
  by (metis hi8_be16 lo8_be16)

lemma two_bytes: "n + 2 \<le> length xs \<Longrightarrow> take 2 (drop n xs) = [xs ! n, xs ! (n + 1)]"
  by (intro nth_equalityI) (auto simp: less_Suc_eq numeral_2_eq_2)

lemma arp_respond_bytes:
  "arp_respond our_mac our_ip frame =
     (if arp_request_bytes our_ip frame then Some (arp_reply_bytes our_mac our_ip frame) else None)"
proof (cases "42 \<le> length frame")
  case True
  have words: "ETHERTYPE_ARP = be16 8 6" "ARP_OP_REQUEST = be16 0 1" "ETHERTYPE_IPV4 = be16 8 0" "ARP_HW_ETHER = be16 0 1"
      "ARP_OP_REPLY = be16 0 2"
    by (simp_all add: ETHERTYPE_ARP_def ARP_OP_REQUEST_def ETHERTYPE_IPV4_def ARP_HW_ETHER_def ARP_OP_REPLY_def be16_def)
  have "ntohs (read_mem16 frame 12) = ETHERTYPE_ARP \<longleftrightarrow> take 2 (drop 12 frame) = [0x08, 0x06]"
    "ntohs (arp_opcode (arp_at (drop 14 frame))) = ARP_OP_REQUEST \<longleftrightarrow> take 2 (drop 20 frame) = [0x00, 0x01]"
    using True two_bytes [of 12 frame] two_bytes [of 20 frame]
    by (simp_all add: words arp_at_def get16_def be16_eq)
  moreover have "target_proto (arp_at (drop 14 frame)) = take 4 (drop 38 frame)" by (simp add: arp_at_def)
  moreover have "send_arp_reply (take 6 (drop 6 frame)) (arp_at (drop 14 frame)) our_mac our_ip = arp_reply_bytes our_mac our_ip frame"
    by (simp add: send_arp_reply_def arp_image_def arp_at_def arp_reply_bytes_def words put16_def)
  ultimately show ?thesis using True by (simp add: arp_respond_def arp_request_bytes_def Let_def)
qed (simp add: arp_respond_def arp_request_bytes_def)

text \<open>
  C12. Address resolution over a VLAN trunk: the responder answers exactly the ARP requests for its address, with
  the bytes of an ARP reply to the station that asked; its answer survives tagging and untagging; and
  with room in its cache that station, which gets the answer, afterwards finds the responder's hardware address under
  the address it asked for, everything else in the cache as it was.
\<close>
theorem arp_resolves_over_trunk:
  assumes "length our_mac = 6" and "arp_inv c" and "length (arp_entries c) < arp_capacity c"
  shows "case arp_respond our_mac our_ip frame of
      None \<Rightarrow> \<not> arp_request_bytes our_ip frame
    | Some reply \<Rightarrow>
        arp_request_bytes our_ip frame \<and> reply = arp_reply_bytes our_mac our_ip frame \<and>
        (\<exists>tagged c'. nfs_vlan_tag_insert reply vid pcp 46 = Some tagged \<and>
           nfs_vlan_tag_strip tagged 42 = Some (reply, vid AND 0x0FFF) \<and>
           arp_learn_reply c reply now = Some c' \<and>
           arp_known c' = (arp_known c)(get32 our_ip 0 \<mapsto> (our_mac, NFS_ARP_REACHABLE, now)))"
proof (cases "arp_respond our_mac our_ip frame")
  case None
  then show ?thesis by (simp add: arp_respond_bytes split: if_splits)
next
  case (Some reply)
  note r = arp_reply_parse [OF Some assms(1)]
  obtain payload where payload: "nfs_eth_parse reply = Some (\<lparr> eth_dst = take 6 (drop 6 frame),
      eth_src = our_mac, eth_type = NFS_ETHERTYPE_ARP \<rparr>, payload)" "length payload = 28"
      "ntohs (arp_opcode (arp_at payload)) = ARP_OP_REPLY" "sender_hw (arp_at payload) = our_mac"
      "sender_proto (arp_at payload) = our_ip"
    using r(1) by auto
  have learn: "arp_learn_reply c reply now = arp_put c (get32 our_ip 0) (our_mac, NFS_ARP_REACHABLE, now)"
    using payload by (simp add: arp_learn_reply_def)
  obtain c' where c': "arp_put c (get32 our_ip 0) (our_mac, NFS_ARP_REACHABLE, now) = Some c'"
    using arp.ins_full [OF assms(2)] assms(3) by (metis less_irrefl option.exhaust)
  obtain tagged where tagged: "nfs_vlan_tag_insert reply vid pcp 46 = Some tagged"
    using r(2) by (simp add: nfs_vlan_tag_insert_def NFS_ETH_HDR_LEN_def Let_def)
  show ?thesis
    using Some vlan_insert_strip(2) [OF tagged, of 42] r(2) learn c' tagged arp.ins_lookup [OF assms(2) c']
    by (simp add: arp_respond_bytes split: if_splits)
qed

lemma arp_resolves_over_trunk_witness:
  "let us = [2, 0, 0, 0, 0, 0x42]; ip = [10, 0, 0, 42];
       request = replicate 6 0xFF @ [2, 0, 0, 0, 0, 1] @ [8, 6, 0, 1, 8, 0, 6, 4, 0, 1, 2, 0, 0, 0, 0, 1, 10, 0, 0, 1]
         @ replicate 6 0 @ ip;
       c = nfs_arp_cache_init 4
   in \<exists>reply tagged c'. arp_respond us ip request = Some reply \<and>
        nfs_vlan_tag_insert reply 100 3 46 = Some tagged \<and> arp_learn_reply c reply 7 = Some c' \<and>
        arp_known c' (get32 ip 0) = Some (us, NFS_ARP_REACHABLE, 7)"
proof -
  let ?us = "[2, 0, 0, 0, 0, 0x42] :: u8 list" and ?ip = "[10, 0, 0, 42] :: u8 list"
  let ?req = "replicate 6 0xFF @ [2, 0, 0, 0, 0, 1] @ [8, 6, 0, 1, 8, 0, 6, 4, 0, 1, 2, 0, 0, 0, 0, 1, 10, 0, 0, 1]
         @ replicate 6 0 @ ?ip"
  have some: "arp_respond ?us ?ip ?req \<noteq> None" by code_simp
  then obtain reply where reply: "arp_respond ?us ?ip ?req = Some reply" by auto
  have us: "length ?us = 6" by simp
  have inv: "arp_inv (nfs_arp_cache_init 4)" "length (arp_entries (nfs_arp_cache_init 4)) < arp_capacity (nfs_arp_cache_init 4)"
    by (simp_all add: arp_inv_def nfs_arp_cache_init_def)
  show ?thesis
    using arp_resolves_over_trunk [OF us inv, of ?ip ?req 100 3 7] reply by (auto simp: Let_def)
qed

section \<open>Addresses as text\<close>

text \<open>\<^verbatim>\<open>%02x\<close> of a byte; the string is the list of its bytes, without the zero after it.\<close>

definition hex2 :: "u8 \<Rightarrow> u8 list" where
  "hex2 b = [hex_digit (unat b div 16), hex_digit (unat b mod 16)]"

abbreviation colon :: u8 where "colon \<equiv> 58"
abbreviation dash :: u8 where "dash \<equiv> 45"

definition nfs_mac_format :: "u8 list \<Rightarrow> nat \<Rightarrow> u8 list option" where
  "nfs_mac_format m sz =
     (if sz < 18 then None
      else Some (hex2 (m ! 0) @ [colon] @ hex2 (m ! 1) @ [colon] @ hex2 (m ! 2) @ [colon] @
                 hex2 (m ! 3) @ [colon] @ hex2 (m ! 4) @ [colon] @ hex2 (m ! 5)))"

text \<open>
  The parser of lesson 14; \<open>nth_or_0\<close> reads the zero at the end of the string. \<open>i\<close> is the
  counter of the loop, and what is returned the bytes of the address.
\<close>

fun nth_or_0 :: "u8 list \<Rightarrow> nat \<Rightarrow> u8" where
  "nth_or_0 s i = (if i < length s then s ! i else 0)"

function wol_mac_run :: "u8 list \<Rightarrow> nat \<Rightarrow> u8 list \<Rightarrow> u8 list option" where
  "wol_mac_run str i m =
     (if i < 6 then
        case (hex_value (nth_or_0 str 0), hex_value (nth_or_0 str 1)) of
          (Some hi, Some lo) \<Rightarrow>
            let m = m @ [of_nat (hi * 16 + lo)]; str = drop 2 str in
            if i < 5 then
              if nth_or_0 str 0 \<noteq> colon \<and> nth_or_0 str 0 \<noteq> dash then None
              else wol_mac_run (drop 1 str) (i + 1) m
            else wol_mac_run str (i + 1) m
        | _ \<Rightarrow> None
      else if nth_or_0 str 0 \<noteq> 0 then None else Some m)"
  by pat_completeness auto
termination
  by (relation "measure (\<lambda>(str, i, m). 6 - i)") auto

declare wol_mac_run.simps [simp del]

definition nfs_wol_mac_parse :: "u8 list \<Rightarrow> u8 list option" where
  "nfs_wol_mac_parse str = wol_mac_run str 0 []"

lemma mac_run_byte:
  "i < 5 \<Longrightarrow> c = colon \<or> c = dash \<Longrightarrow>
     wol_mac_run (hex2 b @ c # rest) i m = wol_mac_run rest (i + 1) (m @ [b])"
  "i = 5 \<Longrightarrow> wol_mac_run (hex2 b) i m = Some (m @ [b])"
proof -
  have d: "hex_value (hex_digit (unat b div 16)) = Some (unat b div 16)"
      "hex_value (hex_digit (unat b mod 16)) = Some (unat b mod 16)"
    using unat_u8_less [of b] by (simp_all add: hex_value_digit)
  have v: "of_nat (unat b div 16) * 16 + of_nat (unat b mod 16) = b"
  proof -
    have "of_nat (unat b div 16) * 16 + of_nat (unat b mod 16) = (of_nat (unat b div 16 * 16 + unat b mod 16) :: u8)"
      by (simp only: of_nat_add of_nat_mult of_nat_numeral)
    also have "unat b div 16 * 16 + unat b mod 16 = unat b" by simp
    finally show ?thesis by simp
  qed
  show "i < 5 \<Longrightarrow> c = colon \<or> c = dash \<Longrightarrow>
     wol_mac_run (hex2 b @ c # rest) i m = wol_mac_run rest (i + 1) (m @ [b])"
    by (subst wol_mac_run.simps) (auto simp: hex2_def d v)
  show "i = 5 \<Longrightarrow> wol_mac_run (hex2 b) i m = Some (m @ [b])"
    by (subst wol_mac_run.simps) (simp add: hex2_def d v, simp add: wol_mac_run.simps)
qed

lemma mac_text_roundtrip:
  assumes "length m = 6" and "nfs_mac_format m sz = Some str"
  shows "nfs_wol_mac_parse str = Some m" and "length str = 17"
proof -
  obtain a b c d e f where m: "m = [a, b, c, d, e, f]"
    using assms(1) by (auto simp: numeral_eq_Suc length_Suc_conv)
  have str: "str = hex2 a @ colon # hex2 b @ colon # hex2 c @ colon # hex2 d @ colon # hex2 e @ colon # hex2 f"
    using assms(2) by (auto simp: nfs_mac_format_def m split: if_splits)
  show "nfs_wol_mac_parse str = Some m"
    unfolding nfs_wol_mac_parse_def str by (simp add: mac_run_byte m)
  show "length str = 17" by (simp add: str hex2_def)
qed

section \<open>Wake on LAN\<close>

definition NFS_WOL_SYNC_LEN :: nat where "NFS_WOL_SYNC_LEN = 6"
definition NFS_WOL_MAC_REPEATS :: nat where "NFS_WOL_MAC_REPEATS = 16"
definition NFS_WOL_MAGIC_SIZE :: nat where "NFS_WOL_MAGIC_SIZE = 102"

definition nfs_wol_build :: "u8 list \<Rightarrow> nat \<Rightarrow> u8 list option" where
  "nfs_wol_build m out_sz =
     (if out_sz < NFS_WOL_MAGIC_SIZE then None
      else Some (replicate NFS_WOL_SYNC_LEN 0xFF @ concat (map (\<lambda>i. take 6 m) [0..<NFS_WOL_MAC_REPEATS])))"

definition nfs_wol_build_with_password :: "u8 list \<Rightarrow> u8 list \<Rightarrow> nat \<Rightarrow> u8 list option" where
  "nfs_wol_build_with_password m password out_sz =
     (if length password \<noteq> 0 \<and> length password \<noteq> 4 \<and> length password \<noteq> 6 then None
      else if out_sz < NFS_WOL_MAGIC_SIZE + length password then None
      else map_option (\<lambda>base. base @ password) (nfs_wol_build m out_sz))"

definition nfs_wol_validate :: "u8 list \<Rightarrow> u8 list option" where
  "nfs_wol_validate pkt =
     (if length pkt < NFS_WOL_MAGIC_SIZE then None
      else if \<exists>i \<in> set [0..<NFS_WOL_SYNC_LEN]. pkt ! i \<noteq> 0xFF then None
      else
        let first_mac = take 6 (drop NFS_WOL_SYNC_LEN pkt) in
        if \<exists>i \<in> set [1..<NFS_WOL_MAC_REPEATS]. first_mac \<noteq> take 6 (drop (NFS_WOL_SYNC_LEN + i * 6) pkt) then None
        else Some first_mac)"

lemma concat_copies: "length m = 6 \<Longrightarrow> i < n \<Longrightarrow>
    take 6 (drop (i * 6) (concat (map (\<lambda>i. m) [0..<n]) @ rest)) = m"
proof (induction n arbitrary: i)
  case (Suc n)
  have unroll: "concat (map (\<lambda>i. m) [0..<Suc n]) = m @ concat (map (\<lambda>i. m) [0..<n])"
    by (simp add: map_replicate_const del: upt_Suc)
  show ?case
    unfolding unroll using Suc by (cases i) simp_all
qed simp

text \<open>
  A packet built for a station wakes that station, with a password or without; and a packet
  is accepted for a station only if it starts with the packet built for it.
\<close>

lemma wol_validate_built:
  assumes "length m = 6" and "nfs_wol_build_with_password m password out_sz = Some pkt"
  shows "nfs_wol_validate pkt = Some m" and "length pkt = 102 + length password"
proof -
  let ?copies = "concat (map (\<lambda>i. m) [0..<16])"
  have pkt: "pkt = replicate 6 0xFF @ ?copies @ password"
    using assms by (auto simp: nfs_wol_build_with_password_def nfs_wol_build_def NFS_WOL_SYNC_LEN_def
        NFS_WOL_MAC_REPEATS_def split: if_splits)
  have len: "length ?copies = 96" using assms(1) by (simp add: length_concat comp_def sum_list_triv)
  have sync: "pkt ! i = 0xFF" if "i < 6" for i using that by (simp add: pkt nth_append)
  have copy: "take 6 (drop (6 + i * 6) pkt) = m" if "i < 16" for i
    using concat_copies [OF assms(1) that, of password] by (simp add: pkt)
  show "length pkt = 102 + length password" using len by (simp add: pkt)
  then show "nfs_wol_validate pkt = Some m"
    using sync copy copy [of 0]
    by (auto simp: nfs_wol_validate_def NFS_WOL_MAGIC_SIZE_def NFS_WOL_SYNC_LEN_def NFS_WOL_MAC_REPEATS_def Let_def)
qed

section \<open>MTU\<close>

definition NFS_ETH_FCS_LEN :: nat where "NFS_ETH_FCS_LEN = 4"
definition NFS_ETH_MAX_PAYLOAD :: nat where "NFS_ETH_MAX_PAYLOAD = 1500"
definition NFS_ETH_MIN_FRAME :: nat where "NFS_ETH_MIN_FRAME = 64"
definition NFS_ETH_MAX_FRAME :: nat where "NFS_ETH_MAX_FRAME = 1518"
definition NFS_JUMBO_MTU :: nat where "NFS_JUMBO_MTU = 9000"
definition NFS_JUMBO_MAX_FRAME :: nat where "NFS_JUMBO_MAX_FRAME = 9018"

record nfs_mtu_profile =
  mtu_name :: string
  mtu_mtu :: nat
  mtu_min_frame :: nat
  mtu_max_frame :: nat

definition nfs_mtu_frame_valid :: "nat \<Rightarrow> nat \<Rightarrow> bool" where
  "nfs_mtu_frame_valid frame_len mtu \<longleftrightarrow>
     (if frame_len < NFS_ETH_MIN_FRAME then False
      else if frame_len > NFS_ETH_HDR_LEN + mtu + NFS_ETH_FCS_LEN then False else True)"

definition nfs_mtu_payload_fits :: "nat \<Rightarrow> nat \<Rightarrow> bool" where
  "nfs_mtu_payload_fits payload_len mtu \<longleftrightarrow> payload_len \<le> mtu"

definition nfs_mtu_needs_fragmentation :: "nat \<Rightarrow> nat \<Rightarrow> bool" where
  "nfs_mtu_needs_fragmentation ip_packet_len mtu \<longleftrightarrow> ip_packet_len > mtu"

definition nfs_mtu_standard :: nfs_mtu_profile where
  "nfs_mtu_standard = \<lparr> mtu_name = ''standard'', mtu_mtu = NFS_ETH_MAX_PAYLOAD,
     mtu_min_frame = NFS_ETH_MIN_FRAME, mtu_max_frame = NFS_ETH_MAX_FRAME \<rparr>"

definition nfs_mtu_jumbo :: nfs_mtu_profile where
  "nfs_mtu_jumbo = \<lparr> mtu_name = ''jumbo'', mtu_mtu = NFS_JUMBO_MTU,
     mtu_min_frame = NFS_ETH_MIN_FRAME, mtu_max_frame = NFS_JUMBO_MAX_FRAME \<rparr>"

definition nfs_path_mtu :: "nat list \<Rightarrow> nat" where
  "nfs_path_mtu link_mtus =
     (if link_mtus = [] then 0
      else foldl (\<lambda>mn i. if link_mtus ! i < mn then link_mtus ! i else mn) (link_mtus ! 0)
             [1..<length link_mtus])"

definition nfs_mtu_clamp :: "nat \<Rightarrow> nat \<Rightarrow> nat \<Rightarrow> nat" where
  "nfs_mtu_clamp desired_mtu min_mtu max_mtu =
     (if desired_mtu < min_mtu then min_mtu
      else if desired_mtu > max_mtu then max_mtu else desired_mtu)"

lemma foldl_min_nth:
  "n \<le> length xs \<Longrightarrow> 0 < n \<Longrightarrow>
     foldl (\<lambda>mn i. if xs ! i < mn then xs ! i else mn) (xs ! 0) [1..<n] = Min (set (take n (xs :: nat list)))"
proof (induction n)
  case (Suc n)
  show ?case
  proof (cases "n = 0")
    case True
    then show ?thesis using Suc.prems by (cases xs) simp_all
  next
    case False
    then have "set (take n xs) \<noteq> {}" using Suc.prems by (cases xs; cases n) auto
    then have "Min (set (take (Suc n) xs)) = min (xs ! n) (Min (set (take n xs)))"
      using Suc.prems by (simp add: take_Suc_conv_app_nth)
    then show ?thesis using Suc False by (simp add: min_def)
  qed
qed simp

text \<open>The MTU of a path is the least of its links', and a packet that fits it fits every link.\<close>

lemma path_mtu_min: "link_mtus \<noteq> [] \<Longrightarrow> nfs_path_mtu link_mtus = Min (set link_mtus)"
  using foldl_min_nth [of "length link_mtus" link_mtus] by (simp add: nfs_path_mtu_def)

lemma path_mtu_no_fragmentation:
  "link_mtus \<noteq> [] \<Longrightarrow>
   \<not> nfs_mtu_needs_fragmentation n (nfs_path_mtu link_mtus) \<longleftrightarrow>
     list_all (\<lambda>m. \<not> nfs_mtu_needs_fragmentation n m) link_mtus"
  by (simp add: path_mtu_min nfs_mtu_needs_fragmentation_def list_all_iff not_less)

text \<open>The frames the builder makes, with their FCS, are valid exactly if the payload fits.\<close>

lemma built_frame_valid:
  assumes "length dst = 6" and "length src = 6" and "nfs_eth_build dst src t payload out_sz = Some frame"
    and "46 \<le> mtu"
  shows "nfs_mtu_frame_valid (length frame + NFS_ETH_FCS_LEN) mtu \<longleftrightarrow> nfs_mtu_payload_fits (length payload) mtu"
  using assms by (auto simp: nfs_eth_build_def nfs_mtu_frame_valid_def nfs_mtu_payload_fits_def Let_def
      NFS_ETH_MIN_PAYLOAD_def NFS_ETH_HDR_LEN_def NFS_ETH_FCS_LEN_def NFS_ETH_MIN_FRAME_def split: if_splits)

end
