(* ===== verification/Slip.thy ===== *)
theory Slip
  imports Interfaces Crc
begin

text \<open>
  SLIP and PPP framing (\<^verbatim>\<open>phases/02-link-layer/15-ppp-and-slip-briefly/slip_ppp.c\<close>): SLIP escapes
  its delimiter, PPP closes its frame with the FCS-16 of RFC 1662, computed from a table of 256
  literals. The table is shown to be the one of the reflected polynomial, so that the theory of
  shift registers applies to it.
\<close>

section \<open>SLIP\<close>

definition NFS_SLIP_END :: u8 where "NFS_SLIP_END = 0xC0"
definition NFS_SLIP_ESC :: u8 where "NFS_SLIP_ESC = 0xDB"
definition NFS_SLIP_ESC_END :: u8 where "NFS_SLIP_ESC_END = 0xDC"
definition NFS_SLIP_ESC_ESC :: u8 where "NFS_SLIP_ESC_ESC = 0xDD"

lemmas slip_codes = NFS_SLIP_END_def NFS_SLIP_ESC_def NFS_SLIP_ESC_END_def NFS_SLIP_ESC_ESC_def

fun slip_encode_run :: "nat \<Rightarrow> u8 list \<Rightarrow> u8 list \<Rightarrow> u8 list option" where
  "slip_encode_run out_sz [] out = Some out"
| "slip_encode_run out_sz (d # ds) out =
     (if d = NFS_SLIP_END then
        (if length out + 2 > out_sz then None
         else slip_encode_run out_sz ds (out @ [NFS_SLIP_ESC, NFS_SLIP_ESC_END]))
      else if d = NFS_SLIP_ESC then
        (if length out + 2 > out_sz then None
         else slip_encode_run out_sz ds (out @ [NFS_SLIP_ESC, NFS_SLIP_ESC_ESC]))
      else if length out \<ge> out_sz then None
      else slip_encode_run out_sz ds (out @ [d]))"

definition nfs_slip_encode :: "u8 list \<Rightarrow> nat \<Rightarrow> u8 list option" where
  "nfs_slip_encode data out_sz =
     (if 0 \<ge> out_sz then None
      else case slip_encode_run out_sz data [NFS_SLIP_END] of
             None \<Rightarrow> None
           | Some out \<Rightarrow> if length out \<ge> out_sz then None else Some (out @ [NFS_SLIP_END]))"

text \<open>The loop over what lies between the first and the last byte of the frame.\<close>

fun slip_decode_run :: "nat \<Rightarrow> u8 list \<Rightarrow> u8 list \<Rightarrow> u8 list option" where
  "slip_decode_run out_sz [] out = Some out"
| "slip_decode_run out_sz (f # fs) out =
     (if f = NFS_SLIP_ESC then
        (case fs of
           [] \<Rightarrow> None
         | g # gs \<Rightarrow>
             if g = NFS_SLIP_ESC_END then
               (if length out \<ge> out_sz then None else slip_decode_run out_sz gs (out @ [NFS_SLIP_END]))
             else if g = NFS_SLIP_ESC_ESC then
               (if length out \<ge> out_sz then None else slip_decode_run out_sz gs (out @ [NFS_SLIP_ESC]))
             else None)
      else if f = NFS_SLIP_END then Some out
      else if length out \<ge> out_sz then None
      else slip_decode_run out_sz fs (out @ [f]))"

definition nfs_slip_decode :: "u8 list \<Rightarrow> nat \<Rightarrow> u8 list option" where
  "nfs_slip_decode frame out_sz =
     (if length frame < 2 then None
      else if frame ! 0 \<noteq> NFS_SLIP_END \<or> frame ! (length frame - 1) \<noteq> NFS_SLIP_END then None
      else slip_decode_run out_sz (take (length frame - 2) (drop 1 frame)) [])"

text \<open>The escaped datagram, without a bound on the buffer.\<close>

fun slip_escaped :: "u8 list \<Rightarrow> u8 list" where
  "slip_escaped [] = []"
| "slip_escaped (d # ds) =
     (if d = NFS_SLIP_END then NFS_SLIP_ESC # NFS_SLIP_ESC_END # slip_escaped ds
      else if d = NFS_SLIP_ESC then NFS_SLIP_ESC # NFS_SLIP_ESC_ESC # slip_escaped ds
      else d # slip_escaped ds)"

lemma slip_encode_run_eq:
  "slip_encode_run n ds out =
     (if length out + length (slip_escaped ds) \<le> n \<or> ds = [] then Some (out @ slip_escaped ds) else None)"
proof (induction n ds out rule: slip_encode_run.induct)
  case (2 n d ds out)
  have "slip_escaped ds = [] \<longleftrightarrow> ds = []" by (cases ds) auto
  then show ?case using 2 by (auto simp: not_le)
qed simp

lemma slip_encode_eq:
  "nfs_slip_encode ds n =
     (if length (slip_escaped ds) + 2 \<le> n then Some (NFS_SLIP_END # slip_escaped ds @ [NFS_SLIP_END]) else None)"
  by (auto simp: nfs_slip_encode_def slip_encode_run_eq)

lemma slip_decode_run_escaped:
  "slip_decode_run n (slip_escaped ds) out = (if length out + length ds \<le> n \<or> ds = [] then Some (out @ ds) else None)"
  by (induction ds arbitrary: out) (auto simp: slip_codes)

lemma slip_escaped_no_end: "NFS_SLIP_END \<notin> set (slip_escaped ds)"
  by (induction ds) (auto simp: slip_codes)

lemma slip_decode_frame:
  "nfs_slip_decode (NFS_SLIP_END # slip_escaped ds @ [NFS_SLIP_END]) n =
     (if length ds \<le> n then Some ds else None)"
  by (auto simp: nfs_slip_decode_def slip_decode_run_escaped nth_append)

text \<open>
  A receiver that cuts its line at the END bytes: each piece, put back between two of them, is
  decoded to the datagram sent.
\<close>

interpretation slip: delimited_codec slip_escaped
  "\<lambda>f. nfs_slip_decode (NFS_SLIP_END # f @ [NFS_SLIP_END]) (length f)" "\<lambda>ds. True" NFS_SLIP_END
proof
  fix ds :: "u8 list"
  have "length ds \<le> length (slip_escaped ds)" by (induction ds) auto
  then show "nfs_slip_decode (NFS_SLIP_END # slip_escaped ds @ [NFS_SLIP_END]) (length (slip_escaped ds)) = Some ds"
    by (simp add: slip_decode_frame)
qed (rule slip_escaped_no_end)

section \<open>PPP\<close>

definition NFS_PPP_FLAG :: u8 where "NFS_PPP_FLAG = 0x7E"
definition NFS_PPP_ADDR :: u8 where "NFS_PPP_ADDR = 0xFF"
definition NFS_PPP_CTRL :: u8 where "NFS_PPP_CTRL = 0x03"
definition NFS_PPP_MAX_PAYLOAD :: nat where "NFS_PPP_MAX_PAYLOAD = 1500"

lemmas ppp_codes = NFS_PPP_FLAG_def NFS_PPP_ADDR_def NFS_PPP_CTRL_def NFS_PPP_MAX_PAYLOAD_def

record nfs_ppp_frame =
  ppp_address :: u8
  ppp_control :: u8
  ppp_protocol :: u16
  ppp_payload :: "u8 list"
  ppp_fcs :: u16

definition fcs16_table :: "u16 list" where
  "fcs16_table =
    [0x0000, 0x1189, 0x2312, 0x329B, 0x4624, 0x57AD, 0x6536, 0x74BF, 0x8C48, 0x9DC1, 0xAF5A, 0xBED3,
     0xCA6C, 0xDBE5, 0xE97E, 0xF8F7, 0x1081, 0x0108, 0x3393, 0x221A, 0x56A5, 0x472C, 0x75B7, 0x643E,
     0x9CC9, 0x8D40, 0xBFDB, 0xAE52, 0xDAED, 0xCB64, 0xF9FF, 0xE876, 0x2102, 0x308B, 0x0210, 0x1399,
     0x6726, 0x76AF, 0x4434, 0x55BD, 0xAD4A, 0xBCC3, 0x8E58, 0x9FD1, 0xEB6E, 0xFAE7, 0xC87C, 0xD9F5,
     0x3183, 0x200A, 0x1291, 0x0318, 0x77A7, 0x662E, 0x54B5, 0x453C, 0xBDCB, 0xAC42, 0x9ED9, 0x8F50,
     0xFBEF, 0xEA66, 0xD8FD, 0xC974, 0x4204, 0x538D, 0x6116, 0x709F, 0x0420, 0x15A9, 0x2732, 0x36BB,
     0xCE4C, 0xDFC5, 0xED5E, 0xFCD7, 0x8868, 0x99E1, 0xAB7A, 0xBAF3, 0x5285, 0x430C, 0x7197, 0x601E,
     0x14A1, 0x0528, 0x37B3, 0x263A, 0xDECD, 0xCF44, 0xFDDF, 0xEC56, 0x98E9, 0x8960, 0xBBFB, 0xAA72,
     0x6306, 0x728F, 0x4014, 0x519D, 0x2522, 0x34AB, 0x0630, 0x17B9, 0xEF4E, 0xFEC7, 0xCC5C, 0xDDD5,
     0xA96A, 0xB8E3, 0x8A78, 0x9BF1, 0x7387, 0x620E, 0x5095, 0x411C, 0x35A3, 0x242A, 0x16B1, 0x0738,
     0xFFCF, 0xEE46, 0xDCDD, 0xCD54, 0xB9EB, 0xA862, 0x9AF9, 0x8B70, 0x8408, 0x9581, 0xA71A, 0xB693,
     0xC22C, 0xD3A5, 0xE13E, 0xF0B7, 0x0840, 0x19C9, 0x2B52, 0x3ADB, 0x4E64, 0x5FED, 0x6D76, 0x7CFF,
     0x9489, 0x8500, 0xB79B, 0xA612, 0xD2AD, 0xC324, 0xF1BF, 0xE036, 0x18C1, 0x0948, 0x3BD3, 0x2A5A,
     0x5EE5, 0x4F6C, 0x7DF7, 0x6C7E, 0xA50A, 0xB483, 0x8618, 0x9791, 0xE32E, 0xF2A7, 0xC03C, 0xD1B5,
     0x2942, 0x38CB, 0x0A50, 0x1BD9, 0x6F66, 0x7EEF, 0x4C74, 0x5DFD, 0xB58B, 0xA402, 0x9699, 0x8710,
     0xF3AF, 0xE226, 0xD0BD, 0xC134, 0x39C3, 0x284A, 0x1AD1, 0x0B58, 0x7FE7, 0x6E6E, 0x5CF5, 0x4D7C,
     0xC60C, 0xD785, 0xE51E, 0xF497, 0x8028, 0x91A1, 0xA33A, 0xB2B3, 0x4A44, 0x5BCD, 0x6956, 0x78DF,
     0x0C60, 0x1DE9, 0x2F72, 0x3EFB, 0xD68D, 0xC704, 0xF59F, 0xE416, 0x90A9, 0x8120, 0xB3BB, 0xA232,
     0x5AC5, 0x4B4C, 0x79D7, 0x685E, 0x1CE1, 0x0D68, 0x3FF3, 0x2E7A, 0xE70E, 0xF687, 0xC41C, 0xD595,
     0xA12A, 0xB0A3, 0x8238, 0x93B1, 0x6B46, 0x7ACF, 0x4854, 0x59DD, 0x2D62, 0x3CEB, 0x0E70, 0x1FF9,
     0xF78F, 0xE606, 0xD49D, 0xC514, 0xB1AB, 0xA022, 0x92B9, 0x8330, 0x7BC7, 0x6A4E, 0x58D5, 0x495C,
     0x3DE3, 0x2C6A, 0x1EF1, 0x0F78]"

definition nfs_ppp_fcs16 :: "u8 list \<Rightarrow> u16" where
  "nfs_ppp_fcs16 data =
     foldl (\<lambda>fcs d. drop_bit 8 fcs XOR fcs16_table ! unat ((fcs XOR ucast d) AND 0xFF)) 0xFFFF data
     XOR 0xFFFF"

definition nfs_ppp_frame_build :: "u16 \<Rightarrow> u8 list \<Rightarrow> nat \<Rightarrow> u8 list option" where
  "nfs_ppp_frame_build protocol payload out_sz =
     (if length payload > NFS_PPP_MAX_PAYLOAD then None
      else
        let total = 1 + 1 + 1 + 2 + length payload + 2 + 1 in
        if total > out_sz then None
        else
          let out = [NFS_PPP_FLAG, NFS_PPP_ADDR, NFS_PPP_CTRL,
                     ucast (drop_bit 8 protocol), ucast (protocol AND 0xFF)] @ payload;
              fcs = nfs_ppp_fcs16 (drop 1 out)
          in Some (out @ [ucast (fcs AND 0xFF), ucast (drop_bit 8 fcs), NFS_PPP_FLAG]))"

definition nfs_ppp_frame_parse :: "u8 list \<Rightarrow> nfs_ppp_frame option" where
  "nfs_ppp_frame_parse data =
     (if length data < 8 then None
      else if data ! 0 \<noteq> NFS_PPP_FLAG \<or> data ! (length data - 1) \<noteq> NFS_PPP_FLAG then None
      else if data ! 1 \<noteq> NFS_PPP_ADDR \<or> data ! 2 \<noteq> NFS_PPP_CTRL then None
      else
        let protocol = push_bit 8 (ucast (data ! 3)) OR ucast (data ! 4);
            fcs_offset = length data - 3;
            fcs = ucast (data ! fcs_offset) OR push_bit 8 (ucast (data ! (fcs_offset + 1)));
            payload_start = 5;
            payload_len = fcs_offset - payload_start
        in if payload_len > NFS_PPP_MAX_PAYLOAD then None
           else
             let computed = nfs_ppp_fcs16 (take (fcs_offset - 1) (drop 1 data)) in
             if computed \<noteq> fcs then None
             else Some \<lparr> ppp_address = data ! 1, ppp_control = data ! 2, ppp_protocol = protocol,
                         ppp_payload = take payload_len (drop payload_start data), ppp_fcs = fcs \<rparr>)"

definition nfs_ppp_protocol_name :: "u16 \<Rightarrow> string" where
  "nfs_ppp_protocol_name protocol =
     (if protocol = 0x0021 then ''IPv4'' else if protocol = 0x0057 then ''IPv6''
      else if protocol = 0xC021 then ''LCP'' else if protocol = 0x8021 then ''IPCP''
      else ''Unknown'')"

section \<open>The table is that of the reflected polynomial\<close>

definition FCS16_POLY :: u16 where "FCS16_POLY = 0x8408"

definition fcs16_bit :: "u16 \<Rightarrow> u16" where
  "fcs16_bit fcs = (if bit fcs 0 then drop_bit 1 fcs XOR FCS16_POLY else drop_bit 1 fcs)"

definition fcs16_serial :: "u16 \<Rightarrow> bool \<Rightarrow> u16" where
  "fcs16_serial fcs c = (if bit fcs 0 \<noteq> c then drop_bit 1 fcs XOR FCS16_POLY else drop_bit 1 fcs)"

definition fcs16_byte :: "u16 \<Rightarrow> u8 \<Rightarrow> u16" where
  "fcs16_byte s b = (fcs16_bit ^^ 8) (s XOR ucast b)"

interpretation fcs16: lfsr fcs16_bit "\<lambda>s. bit s 0" "drop_bit 1" FCS16_POLY fcs16_serial
proof
  fix s :: u16
  show b: "fcs16_bit s = (if bit s 0 then drop_bit 1 s XOR FCS16_POLY else drop_bit 1 s)"
    by (rule fcs16_bit_def)
  have "bit FCS16_POLY 15" by (simp add: FCS16_POLY_def)
  then show "fcs16_bit s = 0 \<Longrightarrow> s = 0" unfolding b using right_no_loss [of s FCS16_POLY] by simp
qed (simp_all only: fcs16_serial_def bit_xor_iff drop_bit_xor)

text \<open>
  The entries of the powers of two are computed, and each row of doubled length is the one
  before it with the next of them added.
\<close>

fun doubled :: "u16 list \<Rightarrow> u16 list" where
  "doubled [] = [0]"
| "doubled (p # ps) = (let row = doubled ps in row @ map (\<lambda>x. x XOR p) row)"

lemma fcs16_powers:
  "map (\<lambda>k. (fcs16_bit ^^ 8) (2 ^ k)) [0..<8] = [0x1189, 0x2312, 0x4624, 0x8C48, 0x1081, 0x2102, 0x4204, 0x8408]"
  by code_simp

lemma fcs16_doubled: "fcs16_table = doubled [0x8408, 0x4204, 0x2102, 0x1081, 0x8C48, 0x4624, 0x2312, 0x1189]"
  by code_simp

lemma length_doubled: "length (doubled ps) = 2 ^ length ps"
  by (induction ps) (simp_all add: Let_def)

lemma of_nat_add_power:
  assumes "j < 2 ^ n" and "n < 16"
  shows "(of_nat (j + 2 ^ n) :: u16) = of_nat j XOR 2 ^ n"
proof -
  have "\<not> bit (of_nat j :: u16) n"
    unfolding bit_of_nat_iff using assms(1) by (simp add: bit_iff_odd)
  then have "(of_nat j :: u16) AND 2 ^ n = 0" by (simp add: and_exp_eq_0_iff_not_bit)
  then show ?thesis by (simp add: disjunctive_add_eq_xor)
qed

lemma doubled_nth:
  fixes F :: "u16 \<Rightarrow> u16"
  assumes "\<And>a b. F (a XOR b) = F a XOR F b"
  shows "length ps \<le> 16 \<Longrightarrow> ps = rev (map (\<lambda>k. F (2 ^ k)) [0..<length ps]) \<Longrightarrow> i < 2 ^ length ps \<Longrightarrow>
    doubled ps ! i = F (of_nat i)"
proof (induction ps arbitrary: i)
  case Nil
  have "F (0 XOR 0) = F 0 XOR F 0" by (rule assms)
  then show ?case using Nil by simp
next
  case (Cons p ps)
  have p: "p = F (2 ^ length ps)" "ps = rev (map (\<lambda>k. F (2 ^ k)) [0..<length ps])"
    using Cons.prems(2) by simp_all
  have IH: "j < 2 ^ length ps \<Longrightarrow> doubled ps ! j = F (of_nat j)" for j
    using Cons.IH p(2) Cons.prems(1) by simp
  show ?case
  proof (cases "i < 2 ^ length ps")
    case True
    then show ?thesis using IH by (simp add: Let_def nth_append length_doubled)
  next
    case False
    then obtain j where j: "i = j + 2 ^ length ps" by (metis add.commute le_Suc_ex not_less)
    have j': "j < 2 ^ length ps" using Cons.prems(3) by (simp add: j)
    have "doubled (p # ps) ! i = F (of_nat j) XOR F (2 ^ length ps)"
      using IH [OF j'] j' by (simp add: Let_def nth_append length_doubled j p(1))
    also have "\<dots> = F (of_nat i)"
      using of_nat_add_power [OF j'] Cons.prems(1) by (simp only: assms [symmetric] j) simp
    finally show ?thesis .
  qed
qed

lemma fcs16_table_nth: "fcs16_table ! unat (i :: u8) = (fcs16_bit ^^ 8) (ucast i)"
proof -
  have "[0x8408, 0x4204, 0x2102, 0x1081, 0x8C48, 0x4624, 0x2312, 0x1189] =
      rev (map (\<lambda>k. (fcs16_bit ^^ 8) (2 ^ k)) [0..<8])"
    unfolding fcs16_powers by simp
  then have "fcs16_table ! unat i = (fcs16_bit ^^ 8) (of_nat (unat i))"
    unfolding fcs16_doubled using unat_u8_less [of i]
    by (intro doubled_nth) (simp_all add: fcs16.steps_xor)
  then show ?thesis by (simp add: unsigned_def)
qed

lemma fcs16_shift: "(\<And>j. j < 8 \<Longrightarrow> \<not> bit x j) \<Longrightarrow> (fcs16_bit ^^ 8) x = drop_bit 8 (x :: u16)"
  by (rule fcs16.steps_shift [unfolded funpow_drop_bit]) (auto simp: bit_drop_bit_eq)

lemma bit_FF: "bit (0xFF :: u16) n \<longleftrightarrow> n < 8"
  using bit_mask_iff [of 8 n, where 'a = "16 word"] by (auto simp: mask_eq_exp_minus_1 possible_bit_word)

lemma and_FF: "x AND 0xFF = ucast (ucast x :: u8)" for x :: u16
  by (rule bit_word_eqI) (simp only: bit_and_iff bit_FF bit_ucast_iff, auto)

lemma fcs16_table_step:
  "drop_bit 8 s XOR fcs16_table ! unat ((s XOR ucast d) AND 0xFF) = fcs16_byte s d"
proof -
  define b where "b = (ucast (s XOR ucast d) :: u8)"
  let ?hi = "push_bit 8 (drop_bit 8 s)" and ?lo = "ucast b :: u16"
  have idx: "unat ((s XOR ucast d) AND 0xFF) = unat b"
    by (simp only: and_FF unat_ucast_up b_def)
  have split: "s XOR ucast d = ?hi XOR ?lo"
  proof (rule bit_word_eqI)
    fix n assume n: "n < LENGTH(16)"
    then show "bit (s XOR ucast d) n \<longleftrightarrow> bit (?hi XOR ?lo) n"
      by (cases "n < 8") (auto simp: b_def bit_xor_iff bit_ucast_iff bit_push_bit_iff bit_drop_bit_eq bit_u8_high)
  qed
  have "(fcs16_bit ^^ 8) ?hi = drop_bit 8 ?hi" by (rule fcs16_shift) (simp add: bit_push_bit_iff)
  also have "\<dots> = drop_bit 8 s"
    by (rule bit_word_eqI) (auto simp: bit_drop_bit_eq bit_push_bit_iff dest: bit_imp_le_length)
  finally have "fcs16_byte s d = drop_bit 8 s XOR (fcs16_bit ^^ 8) ?lo"
    unfolding fcs16_byte_def split fcs16.steps_xor by simp
  then show ?thesis unfolding idx by (simp only: fcs16_table_nth)
qed

lemma fcs16_eq: "nfs_ppp_fcs16 data = foldl fcs16_byte 0xFFFF data XOR 0xFFFF"
  by (simp add: nfs_ppp_fcs16_def fcs16_table_step)

section \<open>Bursts\<close>

abbreviation "load_le16 \<equiv> gather (\<lambda>b. ucast b :: u16) (push_bit 8)"

lemma bit_load_le16: "bit (load_le16 bs) n \<longleftrightarrow> n < 16 \<and> n div 8 < length bs \<and> bit (bs ! (n div 8)) (n mod 8)"
proof (induction bs arbitrary: n)
  case (Cons b bs)
  show ?case
  proof (cases "n < 8")
    case True
    then show ?thesis by (simp add: bit_xor_iff bit_push_bit_iff bit_ucast_iff)
  next
    case False
    then have "n div 8 = Suc ((n - 8) div 8)" "(n - 8) mod 8 = n mod 8"
      by (simp_all add: le_div_geq le_mod_geq)
    then show ?thesis
      using False by (auto simp: bit_xor_iff bit_push_bit_iff bit_ucast_iff bit_u8_high Cons.IH)
  qed
qed simp

lemma load_le16_carry: "length bs < 2 \<Longrightarrow> (fcs16_bit ^^ 8) (push_bit 8 (load_le16 bs)) = load_le16 bs"
proof -
  assume "length bs < 2"
  have "(fcs16_bit ^^ 8) (push_bit 8 (load_le16 bs)) = drop_bit 8 (push_bit 8 (load_le16 bs))"
    by (rule fcs16_shift) (simp add: bit_push_bit_iff)
  also have "\<dots> = load_le16 bs"
  proof (rule bit_word_eqI)
    fix n assume "n < LENGTH(16)"
    have "n div 8 < length bs \<Longrightarrow> n < 8" using \<open>length bs < 2\<close> by (simp add: div_less_iff_less_mult)
    then show "bit (drop_bit 8 (push_bit 8 (load_le16 bs))) n \<longleftrightarrow> bit (load_le16 bs) n"
      by (auto simp: bit_drop_bit_eq bit_push_bit_iff bit_load_le16)
  qed
  finally show ?thesis .
qed

lemma load_le16_inj:
  assumes "length bs = length cs" and "length bs \<le> 2" and "load_le16 bs = load_le16 cs"
  shows "bs = cs"
proof (rule nth_equalityI)
  fix i assume i: "i < length bs"
  show "bs ! i = cs ! i"
  proof (rule bit_word_eqI)
    fix j assume j: "j < LENGTH(8)"
    have "bit (load_le16 bs) (8 * i + j) \<longleftrightarrow> bit (load_le16 cs) (8 * i + j)" by (simp only: assms(3))
    moreover have "(8 * i + j) div 8 = i" "(8 * i + j) mod 8 = j" "8 * i + j < 16" using i j assms(2) by auto
    ultimately show "bit (bs ! i) j \<longleftrightarrow> bit (cs ! i) j" using i assms(1) by (simp add: bit_load_le16)
  qed
qed (rule assms(1))

interpretation fcs_bytes: byte_register fcs16_byte "fcs16_bit ^^ 8" "\<lambda>b. ucast b" "push_bit 8" load_le16 2
  by unfold_locales
    (simp_all add: fcs16_byte_def fcs16.steps_xor fcs16.steps_inj load_le16_carry load_le16_inj del: gather_simps, simp_all)

text \<open>
  The register after a message followed by its FCS, low byte first, is always the same; and
  the bytes that make it so are the FCS.
\<close>

lemma fcs_residue:
  "foldl fcs16_byte 0xFFFF (data @ [lo, hi]) = (fcs16_bit ^^ 16) 0xFFFF \<longleftrightarrow>
     nfs_ppp_fcs16 data = ucast lo OR push_bit 8 (ucast hi)"
proof -
  let ?s = "foldl fcs16_byte 0xFFFF data"
  have load: "load_le16 [lo, hi] = ucast lo OR push_bit 8 (ucast hi)"
  proof (rule bit_word_eqI)
    fix n assume "n < LENGTH(16)"
    then show "bit (load_le16 [lo, hi]) n \<longleftrightarrow> bit (ucast lo OR push_bit 8 (ucast hi) :: u16) n"
      by (cases "n < 8") (auto simp: bit_xor_iff bit_or_iff bit_ucast_iff bit_push_bit_iff bit_u8_high)
  qed
  have "foldl fcs16_byte 0xFFFF (data @ [lo, hi]) = (fcs16_bit ^^ 16) (?s XOR load_le16 [lo, hi])"
  proof -
    have "foldl fcs16_byte ?s [lo, hi] = ((fcs16_bit ^^ 8) ^^ 2) (?s XOR load_le16 [lo, hi])"
      using fcs_bytes.foldl_load [of "[lo, hi]" ?s] by (simp add: numeral_2_eq_2)
    also have "(fcs16_bit ^^ 8) ^^ 2 = fcs16_bit ^^ 16" by (simp add: funpow_mult)
    finally show ?thesis by simp
  qed
  moreover have "(fcs16_bit ^^ 16) (?s XOR load_le16 [lo, hi]) = (fcs16_bit ^^ 16) 0xFFFF \<longleftrightarrow>
      ?s XOR load_le16 [lo, hi] = 0xFFFF"
    by (auto dest: fcs16.steps_inj)
  moreover have "?s XOR load_le16 [lo, hi] = 0xFFFF \<longleftrightarrow> ?s XOR 0xFFFF = load_le16 [lo, hi]"
  proof -
    have cancel: "a XOR (a XOR b) = b" for a b :: u16 by (rule bit_word_eqI) (auto simp: bit_xor_iff)
    show ?thesis by (metis cancel)
  qed
  ultimately show ?thesis unfolding fcs16_eq load by simp
qed

lemma ppp_parse_Some:
  assumes "nfs_ppp_frame_parse data = Some f"
  shows "8 \<le> length data" and "data ! 0 = NFS_PPP_FLAG" and "data ! (length data - 1) = NFS_PPP_FLAG"
    and "foldl fcs16_byte 0xFFFF (take (length data - 2) (drop 1 data)) = (fcs16_bit ^^ 16) 0xFFFF"
proof -
  let ?n = "length data - 3"
  have len: "8 \<le> length data" and fl: "data ! 0 = NFS_PPP_FLAG" "data ! (length data - 1) = NFS_PPP_FLAG"
    and fcs: "nfs_ppp_fcs16 (take (?n - 1) (drop 1 data)) = ucast (data ! ?n) OR push_bit 8 (ucast (data ! (?n + 1)))"
    using assms by (auto simp: nfs_ppp_frame_parse_def Let_def split: if_splits)
  show "8 \<le> length data" "data ! 0 = NFS_PPP_FLAG" "data ! (length data - 1) = NFS_PPP_FLAG"
    by (fact len fl)+
  have "take (length data - 2) (drop 1 data) = take (?n - 1) (drop 1 data) @ [data ! ?n, data ! (?n + 1)]"
  proof -
    have l: "length data - 2 = Suc (Suc (?n - 1))" using len by simp
    have "take (Suc (Suc (?n - 1))) (drop 1 data) =
        take (?n - 1) (drop 1 data) @ [drop 1 data ! (?n - 1), drop 1 data ! Suc (?n - 1)]"
      using len by (subst take_Suc_conv_app_nth, simp, subst take_Suc_conv_app_nth, simp_all)
    moreover have "Suc (length data - 4) = length data - 3" using len by simp
    ultimately show ?thesis using l len by simp
  qed
  then show "foldl fcs16_byte 0xFFFF (take (length data - 2) (drop 1 data)) = (fcs16_bit ^^ 16) 0xFFFF"
    using fcs by (simp only: fcs_residue)
qed

lemma ppp_build_parse:
  assumes "nfs_ppp_frame_build protocol payload out_sz = Some frame"
  shows "nfs_ppp_frame_parse frame = Some \<lparr> ppp_address = 0xFF, ppp_control = 0x03,
      ppp_protocol = protocol, ppp_payload = payload,
      ppp_fcs = nfs_ppp_fcs16 ([0xFF, 0x03] @ put16 protocol @ payload) \<rparr>"
    and "length frame = length payload + 8"
proof -
  let ?body = "[NFS_PPP_ADDR, NFS_PPP_CTRL, hi8 protocol, lo8 protocol] @ payload"
  define fcs where "fcs = nfs_ppp_fcs16 ?body"
  have low: "ucast (x AND 0xFF) = lo8 x" "ucast (drop_bit 8 x) = hi8 x" for x :: u16
  proof -
    show "ucast (drop_bit 8 x) = hi8 x" by (simp add: hi8_def)
    show "ucast (x AND 0xFF) = lo8 x"
      unfolding lo8_def and_FF by (rule bit_word_eqI) (simp add: bit_ucast_iff)
  qed
  have frame: "frame = NFS_PPP_FLAG # ?body @ [lo8 fcs, hi8 fcs, NFS_PPP_FLAG]"
    and max: "length payload \<le> 1500"
    using assms by (auto simp: nfs_ppp_frame_build_def Let_def low fcs_def ppp_codes split: if_splits)
  show len: "length frame = length payload + 8" by (simp add: frame)
  have join: "ucast (lo8 x) OR push_bit 8 (ucast (hi8 x)) = x" "push_bit 8 (ucast (hi8 x)) OR ucast (lo8 x) = x" for x :: u16
    using be16_hi_lo [of x] by (simp_all add: be16_def or.commute)
  have at: "frame ! 0 = NFS_PPP_FLAG" "frame ! (length frame - 1) = NFS_PPP_FLAG" "frame ! 1 = NFS_PPP_ADDR"
      "frame ! 2 = NFS_PPP_CTRL" "frame ! 3 = hi8 protocol" "frame ! 4 = lo8 protocol"
      "frame ! (length frame - 3) = lo8 fcs" "frame ! (length frame - 3 + 1) = hi8 fcs"
      "take (length frame - 3 - 1) (drop 1 frame) = ?body" "take (length frame - 3 - 5) (drop 5 frame) = payload"
    by (simp_all add: frame nth_append numeral_eq_Suc)
  show "nfs_ppp_frame_parse frame = Some \<lparr> ppp_address = 0xFF, ppp_control = 0x03,
      ppp_protocol = protocol, ppp_payload = payload,
      ppp_fcs = nfs_ppp_fcs16 ([0xFF, 0x03] @ put16 protocol @ payload) \<rparr>"
    unfolding nfs_ppp_frame_parse_def Let_def at join
    using max by (simp add: len fcs_def ppp_codes put16_def)
qed

text \<open>Two lists that agree outside a window, cut at its ends.\<close>

lemma window_split:
  assumes "length xs = length ys" and "\<And>i. i < length xs \<Longrightarrow> i < s \<or> s + k \<le> i \<Longrightarrow> xs ! i = ys ! i"
  shows "xs = take s xs @ take k (drop s xs) @ drop (s + k) xs"
    and "ys = take s xs @ take k (drop s ys) @ drop (s + k) xs"
proof -
  have parts: "zs = take s zs @ take k (drop s zs) @ drop (s + k) zs" for zs :: "'a list"
    by (metis append_take_drop_id drop_drop add.commute)
  show "xs = take s xs @ take k (drop s xs) @ drop (s + k) xs" by (rule parts)
  have "take s ys = take s xs" using assms by (intro nth_equalityI) auto
  moreover have "drop (s + k) ys = drop (s + k) xs" using assms by (intro nth_equalityI) auto
  ultimately show "ys = take s xs @ take k (drop s ys) @ drop (s + k) xs" using parts [of ys] by simp
qed

lemma fcs_window_detected:
  assumes "length xs = length ys" and "\<And>i. i < length xs \<Longrightarrow> i < s \<or> s + 2 \<le> i \<Longrightarrow> xs ! i = ys ! i"
    and "foldl fcs16_byte a xs = foldl fcs16_byte a ys"
  shows "xs = ys"
proof -
  note w = window_split [OF assms(1), of s 2, OF assms(2)]
  let ?mid = "take 2 (drop s xs)" and ?mid' = "take 2 (drop s ys)"
  have "length ?mid = length ?mid'" "length ?mid \<le> 2" using assms(1) by simp_all
  then have "?mid = ?mid'"
    using fcs_bytes.burst_detected [of ?mid ?mid' a "take s xs" "drop (s + 2) xs"] w assms(3) by metis
  then show ?thesis using w by metis
qed

text \<open>
  C33. A PPP frame is parsed back to the protocol and payload it was built from; and a frame of the same
  length that differs from it, however much, within two neighbouring bytes anywhere (flags
  and check sequence included) is refused.
\<close>
theorem ppp_frame_detects_bursts:
  assumes "nfs_ppp_frame_build protocol payload out_sz = Some frame"
  shows "map_option (\<lambda>f. (ppp_protocol f, ppp_payload f)) (nfs_ppp_frame_parse frame) = Some (protocol, payload) \<and>
    (\<forall>frame' s. length frame' = length frame \<and> frame' \<noteq> frame \<and>
       (\<forall>i < length frame. i < s \<or> s + 2 \<le> i \<longrightarrow> frame' ! i = frame ! i)
       \<longrightarrow> nfs_ppp_frame_parse frame' = None)"
proof (intro conjI allI impI)
  note built = ppp_build_parse [OF assms]
  show "map_option (\<lambda>f. (ppp_protocol f, ppp_payload f)) (nfs_ppp_frame_parse frame) = Some (protocol, payload)"
    using built(1) by simp
  fix frame' s
  assume other: "length frame' = length frame \<and> frame' \<noteq> frame \<and>
    (\<forall>i < length frame. i < s \<or> s + 2 \<le> i \<longrightarrow> frame' ! i = frame ! i)"
  show "nfs_ppp_frame_parse frame' = None"
  proof (rule ccontr)
    assume "nfs_ppp_frame_parse frame' \<noteq> None"
    then obtain f' where f': "nfs_ppp_frame_parse frame' = Some f'" by auto
    note good = ppp_parse_Some [OF built(1)] and good' = ppp_parse_Some [OF f']
    define n where "n = length frame"
    have n: "8 \<le> n" "length frame' = n" "length frame = n" using good(1) other by (simp_all add: n_def)
    let ?body = "\<lambda>fr. take (n - 2) (drop 1 fr)"
    have at: "?body fr ! i = fr ! (i + 1)" if "i < n - 2" "length fr = n" for fr :: "u8 list" and i
      using that n(1) by simp
    have agree: "?body frame' ! i = ?body frame ! i" if "0 < s" "i < n - 2" "i < s - 1 \<or> s - 1 + 2 \<le> i" for i
    proof -
      have "i + 1 < s \<or> s + 2 \<le> i + 1" using that by auto
      then have "frame' ! (i + 1) = frame ! (i + 1)" using that(2) other n(1,3) by auto
      then show ?thesis using that(2) n by (simp add: at)
    qed
    have "?body frame' = ?body frame"
    proof (cases "s = 0")
      case True
      then have "?body frame' ! i = ?body frame ! i" if "i < n - 2" "1 \<le> i" for i
        using that other n by (simp add: at)
      then show ?thesis
        using n good(4) good'(4) by (intro fcs_window_detected [of _ _ 0 "0xFFFF"]) auto
    next
      case False
      then show ?thesis
        using n good(4) good'(4) agree by (intro fcs_window_detected [of _ _ "s - 1" "0xFFFF"]) auto
    qed
    moreover have "fr = fr ! 0 # ?body fr @ [fr ! (n - 1)]" if "length fr = n" for fr :: "u8 list"
    proof -
      have "fr = take 1 fr @ take (n - 2) (drop 1 fr) @ drop (n - 1) fr"
      proof -
        have "drop 1 fr = take (n - 2) (drop 1 fr) @ drop (n - 2) (drop 1 fr)"
          by (rule append_take_drop_id [symmetric])
        moreover have "drop (n - 2) (drop 1 fr) = drop (n - 2 + 1) fr" by (simp only: drop_drop)
        moreover have "n - 2 + 1 = n - 1" using n(1) by simp
        ultimately show ?thesis using append_take_drop_id [of 1 fr] by simp
      qed
      moreover have "take 1 fr = [fr ! 0]" using that n(1) by (cases fr) auto
      moreover have "drop (n - 1) fr = [fr ! (n - 1)]"
        using that n(1) by (simp add: Cons_nth_drop_Suc [symmetric])
      ultimately show ?thesis by simp
    qed
    ultimately have "frame' = frame" using n good(2,3) good'(2,3) by (metis n_def)
    then show False using other by simp
  qed
qed

lemma ppp_frame_detects_bursts_witness:
  "\<exists>frame. nfs_ppp_frame_build 0x0021 [1, 2, 3] 64 = Some frame \<and>
     nfs_ppp_frame_parse (frame[6 := frame ! 6 XOR 0x81, 7 := frame ! 7 XOR 0x42]) = None"
proof -
  obtain frame where frame: "nfs_ppp_frame_build 0x0021 [1, 2, 3] 64 = Some frame"
    by (simp add: nfs_ppp_frame_build_def Let_def ppp_codes)
  define frame' where "frame' = frame[6 := frame ! 6 XOR 0x81, 7 := frame ! 7 XOR 0x42]"
  have six: "frame ! 6 = 2"
    using frame by (auto simp: nfs_ppp_frame_build_def Let_def ppp_codes)
  have "length frame = 11" using ppp_build_parse(2) [OF frame] by simp
  then have "frame' ! 6 = 0x83" by (simp add: frame'_def six)
  then have "frame' \<noteq> frame" using six by auto
  moreover have "length frame' = length frame" "\<forall>i < length frame. i < 6 \<or> 6 + 2 \<le> i \<longrightarrow> frame' ! i = frame ! i"
    by (auto simp: frame'_def)
  ultimately have "nfs_ppp_frame_parse frame' = None"
    using ppp_frame_detects_bursts [OF frame] by blast
  then show ?thesis using frame by (auto simp: frame'_def)
qed

text \<open>
  The builder does not escape the flag: a payload that contains it gives a frame with a flag
  inside, which a receiver that looks for flags cuts in two.
\<close>

lemma ppp_flag_inside:
  assumes "nfs_ppp_frame_build protocol payload out_sz = Some frame" and "NFS_PPP_FLAG \<in> set payload"
  shows "NFS_PPP_FLAG \<in> set (butlast (tl frame))"
  using assms by (auto simp: nfs_ppp_frame_build_def Let_def butlast_append split: if_splits)

end
