(* ===== verification/Bridge.thy ===== *)
theory Bridge
  imports Tables
begin

text \<open>
  The Linux-style bridge (\<^verbatim>\<open>phases/02-link-layer/17-bridges-in-linux/bridge.c\<close>): 16 ports and a
  forwarding database of 256 slots with learned and static entries. Names are lists of bytes
  cut at the size of their field. The bridge is shown to refine a map from addresses to ports,
  and the two ways of forwarding to agree.
\<close>

section \<open>Definitions\<close>

definition NFS_BRIDGE_MAX_PORTS :: nat where "NFS_BRIDGE_MAX_PORTS = 16"
definition NFS_FDB_MAX_ENTRIES :: nat where "NFS_FDB_MAX_ENTRIES = 256"
definition NFS_FDB_DEFAULT_AGING :: u32 where "NFS_FDB_DEFAULT_AGING = 300"

record nfs_bridge_port =
  bp_port_id :: nat
  bp_active :: bool
  bp_name :: "u8 list"
  bp_mac :: "u8 list"
  bp_rx_frames :: u64
  bp_tx_frames :: u64
  bp_rx_bytes :: u64
  bp_tx_bytes :: u64

record nfs_fdb_entry =
  be_mac :: "u8 list"
  be_port_id :: int
  be_timestamp :: u32
  be_is_static :: bool
  be_valid :: bool

text \<open>The live prefix of the array of ports is a list; \<^verbatim>\<open>num_ports\<close> is its length.\<close>

record nfs_bridge =
  br_name :: "u8 list"
  br_ports :: "nfs_bridge_port list"
  br_fdb :: "nfs_fdb_entry list"
  br_aging_time :: u32
  br_clock :: u32
  br_forwarded :: u64
  br_flooded :: u64
  br_dropped :: u64
  br_learned :: u64

datatype bridge_action = NFS_BRIDGE_FORWARD | NFS_BRIDGE_FLOOD | NFS_BRIDGE_DROP

definition mac_eq :: "u8 list \<Rightarrow> u8 list \<Rightarrow> bool" where
  "mac_eq a b \<longleftrightarrow> a = b"

definition is_broadcast :: "u8 list \<Rightarrow> bool" where
  "is_broadcast m = mac_eq m [0xFF, 0xFF, 0xFF, 0xFF, 0xFF, 0xFF]"

definition free_slot :: nfs_fdb_entry where
  "free_slot = \<lparr> be_mac = replicate 6 0, be_port_id = 0, be_timestamp = 0, be_is_static = False, be_valid = False \<rparr>"

definition nfs_bridge_init :: "u8 list \<Rightarrow> nfs_bridge" where
  "nfs_bridge_init name =
     \<lparr> br_name = take 15 name, br_ports = [], br_fdb = replicate NFS_FDB_MAX_ENTRIES free_slot,
       br_aging_time = NFS_FDB_DEFAULT_AGING, br_clock = 0,
       br_forwarded = 0, br_flooded = 0, br_dropped = 0, br_learned = 0 \<rparr>"

definition nfs_bridge_add_port :: "nfs_bridge \<Rightarrow> u8 list \<Rightarrow> u8 list \<Rightarrow> (nat \<times> nfs_bridge) option" where
  "nfs_bridge_add_port br port_name m =
     (if length (br_ports br) \<ge> NFS_BRIDGE_MAX_PORTS then None
      else
        let id = length (br_ports br);
            p = \<lparr> bp_port_id = id, bp_active = True, bp_name = take 15 port_name, bp_mac = m,
                  bp_rx_frames = 0, bp_tx_frames = 0, bp_rx_bytes = 0, bp_tx_bytes = 0 \<rparr>
        in Some (id, br\<lparr> br_ports := br_ports br @ [p] \<rparr>))"

definition nfs_bridge_remove_port :: "nfs_bridge \<Rightarrow> int \<Rightarrow> nfs_bridge option" where
  "nfs_bridge_remove_port br port_id =
     (if port_id < 0 \<or> port_id \<ge> int (length (br_ports br)) then None
      else if \<not> bp_active (br_ports br ! nat port_id) then None
      else Some (br\<lparr>
        br_ports := (br_ports br)[nat port_id := (br_ports br ! nat port_id)\<lparr> bp_active := False \<rparr>],
        br_fdb := map (\<lambda>e. if be_valid e \<and> be_port_id e = port_id then e\<lparr> be_valid := False \<rparr> else e) (br_fdb br) \<rparr>))"

definition nfs_fdb_learn :: "nfs_bridge \<Rightarrow> u8 list \<Rightarrow> int \<Rightarrow> nfs_bridge option" where
  "nfs_fdb_learn br m port_id =
     (case find_idx (\<lambda>e. be_valid e \<and> mac_eq (be_mac e) m) (br_fdb br) of
        Some i \<Rightarrow>
          Some (br\<lparr> br_fdb := (br_fdb br)
            [i := (br_fdb br ! i)\<lparr> be_port_id := port_id, be_timestamp := br_clock br \<rparr>] \<rparr>)
      | None \<Rightarrow>
          (case find_idx (\<lambda>e. \<not> be_valid e) (br_fdb br) of
             Some i \<Rightarrow>
               Some (br\<lparr> br_fdb := (br_fdb br)
                 [i := (br_fdb br ! i)\<lparr> be_mac := m, be_port_id := port_id, be_timestamp := br_clock br,
                        be_is_static := False, be_valid := True \<rparr>],
                 br_learned := br_learned br + 1 \<rparr>)
           | None \<Rightarrow> None))"

definition nfs_fdb_lookup :: "nfs_bridge \<Rightarrow> u8 list \<Rightarrow> int" where
  "nfs_fdb_lookup br m =
     (case find_idx (\<lambda>e. be_valid e \<and> mac_eq (be_mac e) m) (br_fdb br) of
        Some i \<Rightarrow> be_port_id (br_fdb br ! i)
      | None \<Rightarrow> - 1)"

definition nfs_fdb_flush :: "nfs_bridge \<Rightarrow> nfs_bridge" where
  "nfs_fdb_flush br =
     br\<lparr> br_fdb := map (\<lambda>e. if be_valid e \<and> \<not> be_is_static e then e\<lparr> be_valid := False \<rparr> else e) (br_fdb br) \<rparr>"

definition nfs_fdb_age :: "nfs_bridge \<Rightarrow> u32 \<Rightarrow> nfs_bridge" where
  "nfs_fdb_age br now =
     br\<lparr> br_fdb := map (\<lambda>e.
       if be_valid e \<and> \<not> be_is_static e then
         (if now - be_timestamp e > br_aging_time br then e\<lparr> be_valid := False \<rparr> else e)
       else e) (br_fdb br) \<rparr>"

definition nfs_fdb_add_static :: "nfs_bridge \<Rightarrow> u8 list \<Rightarrow> int \<Rightarrow> nfs_bridge option" where
  "nfs_fdb_add_static br m port_id =
     (case find_idx (\<lambda>e. be_valid e \<and> mac_eq (be_mac e) m) (br_fdb br) of
        Some i \<Rightarrow>
          Some (br\<lparr> br_fdb := (br_fdb br)
            [i := (br_fdb br ! i)\<lparr> be_port_id := port_id, be_is_static := True \<rparr>] \<rparr>)
      | None \<Rightarrow>
          (case find_idx (\<lambda>e. \<not> be_valid e) (br_fdb br) of
             Some i \<Rightarrow>
               Some (br\<lparr> br_fdb := (br_fdb br)
                 [i := (br_fdb br ! i)\<lparr> be_mac := m, be_port_id := port_id, be_timestamp := br_clock br,
                        be_is_static := True, be_valid := True \<rparr>] \<rparr>)
           | None \<Rightarrow> None))"

definition nfs_fdb_count :: "nfs_bridge \<Rightarrow> nat" where
  "nfs_fdb_count br = length (filter be_valid (br_fdb br))"

text \<open>The result of \<^verbatim>\<open>nfs_fdb_learn\<close> is not looked at: a full database is left as it was.\<close>

definition learned :: "nfs_bridge \<Rightarrow> u8 list \<Rightarrow> int \<Rightarrow> nfs_bridge" where
  "learned br m port_id = (case nfs_fdb_learn br m port_id of None \<Rightarrow> br | Some br' \<Rightarrow> br')"

definition count_rx :: "nfs_bridge \<Rightarrow> int \<Rightarrow> nat \<Rightarrow> nfs_bridge" where
  "count_rx br port len =
     (if 0 \<le> port \<and> port < int (length (br_ports br)) then
        let p = br_ports br ! nat port in
        br\<lparr> br_ports := (br_ports br)[nat port := p\<lparr> bp_rx_frames := bp_rx_frames p + 1,
              bp_rx_bytes := bp_rx_bytes p + of_nat len \<rparr>] \<rparr>
      else br)"

definition count_tx :: "nfs_bridge \<Rightarrow> int \<Rightarrow> nat \<Rightarrow> nfs_bridge" where
  "count_tx br port len =
     (if 0 \<le> port \<and> port < int (length (br_ports br)) then
        let p = br_ports br ! nat port in
        br\<lparr> br_ports := (br_ports br)[nat port := p\<lparr> bp_tx_frames := bp_tx_frames p + 1,
              bp_tx_bytes := bp_tx_bytes p + of_nat len \<rparr>] \<rparr>
      else br)"

definition nfs_bridge_forward :: "nfs_bridge \<Rightarrow> int \<Rightarrow> u8 list \<Rightarrow> bridge_action \<times> nfs_bridge" where
  "nfs_bridge_forward br ingress_port frame =
     (if length frame < 14 then (NFS_BRIDGE_DROP, br\<lparr> br_dropped := br_dropped br + 1 \<rparr>)
      else
        let dst_mac = take 6 frame;
            src_mac = take 6 (drop 6 frame);
            br = learned br src_mac ingress_port;
            br = count_rx br ingress_port (length frame)
        in
        if is_broadcast dst_mac then (NFS_BRIDGE_FLOOD, br\<lparr> br_flooded := br_flooded br + 1 \<rparr>)
        else
          let dst_port = nfs_fdb_lookup br dst_mac in
          if dst_port < 0 then (NFS_BRIDGE_FLOOD, br\<lparr> br_flooded := br_flooded br + 1 \<rparr>)
          else if dst_port = ingress_port then (NFS_BRIDGE_DROP, br\<lparr> br_dropped := br_dropped br + 1 \<rparr>)
          else
            let br = count_tx br dst_port (length frame)
            in (NFS_BRIDGE_FORWARD, br\<lparr> br_forwarded := br_forwarded br + 1 \<rparr>))"

definition nfs_bridge_forward_port :: "nfs_bridge \<Rightarrow> int \<Rightarrow> u8 list \<Rightarrow> int \<times> nfs_bridge" where
  "nfs_bridge_forward_port br ingress_port frame =
     (if length frame < 14 then (- 2, br)
      else
        let dst_mac = take 6 frame;
            src_mac = take 6 (drop 6 frame);
            br = learned br src_mac ingress_port
        in
        if is_broadcast dst_mac then (- 1, br)
        else
          let dst_port = nfs_fdb_lookup br dst_mac in
          if dst_port < 0 then (- 1, br)
          else if dst_port = ingress_port then (- 2, br)
          else (dst_port, br))"

section \<open>The database is a bounded map\<close>

abbreviation fdb_slot :: "nfs_bridge \<Rightarrow> u8 list \<Rightarrow> nfs_fdb_entry option" where
  "fdb_slot br m \<equiv> find_slot be_valid be_mac m (br_fdb br)"

definition br_port_of :: "nfs_bridge \<Rightarrow> u8 list \<Rightarrow> int option" where
  "br_port_of br m = map_option be_port_id (fdb_slot br m)"

definition br_known :: "nfs_bridge \<Rightarrow> u8 list \<Rightarrow> (int \<times> u32 \<times> bool) option" where
  "br_known br m = map_option (\<lambda>e. (be_port_id e, be_timestamp e, be_is_static e)) (fdb_slot br m)"

definition br_inv :: "nfs_bridge \<Rightarrow> bool" where
  "br_inv br \<longleftrightarrow> distinct (map be_mac (filter be_valid (br_fdb br))) \<and> length (br_fdb br) = NFS_FDB_MAX_ENTRIES \<and>
     br_aging_time br = NFS_FDB_DEFAULT_AGING"

abbreviation br_refresh :: "nfs_bridge \<Rightarrow> int \<Rightarrow> nfs_fdb_entry \<Rightarrow> nfs_fdb_entry" where
  "br_refresh br port_id e \<equiv> e\<lparr> be_port_id := port_id, be_timestamp := br_clock br \<rparr>"

abbreviation br_fill :: "nfs_bridge \<Rightarrow> bool \<Rightarrow> u8 list \<Rightarrow> int \<Rightarrow> nfs_fdb_entry \<Rightarrow> nfs_fdb_entry" where
  "br_fill br static m port_id e \<equiv> e\<lparr> be_mac := m, be_port_id := port_id, be_timestamp := br_clock br,
     be_is_static := static, be_valid := True \<rparr>"

abbreviation br_pin :: "int \<Rightarrow> nfs_fdb_entry \<Rightarrow> nfs_fdb_entry" where
  "br_pin port_id e \<equiv> e\<lparr> be_port_id := port_id, be_is_static := True \<rparr>"

lemma learn_put:
  "nfs_fdb_learn br m port_id = map_option (\<lambda>t. br\<lparr> br_fdb := t,
       br_learned := br_learned br + (if fdb_slot br m = None then 1 else 0) \<rparr>)
     (slot_put be_valid be_mac m (br_refresh br port_id) (br_fill br False m port_id) (br_fdb br))"
  by (simp add: nfs_fdb_learn_def slot_put_def mac_eq_def find_slot_def find_conv_find_idx split: option.split)

lemma static_put:
  "nfs_fdb_add_static br m port_id = map_option (\<lambda>t. br\<lparr> br_fdb := t \<rparr>)
     (slot_put be_valid be_mac m (br_pin port_id) (br_fill br True m port_id) (br_fdb br))"
  by (simp add: nfs_fdb_add_static_def slot_put_def mac_eq_def split: option.split)

lemma br_lookup_known: "nfs_fdb_lookup br m = (case br_port_of br m of None \<Rightarrow> - 1 | Some p \<Rightarrow> p)"
  by (simp add: nfs_fdb_lookup_def br_port_of_def find_slot_def mac_eq_def find_conv_find_idx split: option.split)

lemma port_of_known: "br_port_of br m = map_option fst (br_known br m)"
  by (simp add: br_port_of_def br_known_def option.map_comp o_def)

lemma card_known: "br_inv br \<Longrightarrow> card (dom (br_known br)) = nfs_fdb_count br"
proof -
  assume inv: "br_inv br"
  let ?es = "filter be_valid (br_fdb br)"
  have "dom (br_known br) = be_mac ` set ?es"
    by (auto simp: br_known_def dom_def find_slot_filter find_key_None_iff dest: find_key_SomeD
        simp flip: not_None_eq)
  then have "card (dom (br_known br)) = length (map be_mac ?es)"
    using inv distinct_card [of "map be_mac ?es"] by (simp add: br_inv_def)
  then show ?thesis by (simp add: nfs_fdb_count_def)
qed

lemma learn_Some:
  assumes "br_inv br" and "nfs_fdb_learn br m p = Some br'"
  shows "br_inv br'"
    and "br_known br' = (br_known br)(m \<mapsto>
      (p, br_clock br, case br_known br m of None \<Rightarrow> False | Some (q, t, static) \<Rightarrow> static))"
    and "nfs_fdb_count br' = (if br_known br m = None then Suc (nfs_fdb_count br) else nfs_fdb_count br)"
    and "br_ports br' = br_ports br" and "br_clock br' = br_clock br"
proof -
  obtain es where es: "slot_put be_valid be_mac m (br_refresh br p) (br_fill br False m p) (br_fdb br) = Some es"
    and br': "br_fdb br' = es" "br_aging_time br' = br_aging_time br" "br_ports br' = br_ports br" "br_clock br' = br_clock br"
    using assms(2) by (auto simp: learn_put)
  have d: "distinct (map be_mac (filter be_valid (br_fdb br)))" using assms(1) by (simp add: br_inv_def)
  note p = slot_put_Some [OF d es]
  show "br_inv br'" using p(1,2) assms(1) by (simp add: br_inv_def br')
  have "br_known br' m = Some (p, br_clock br, case br_known br m of None \<Rightarrow> False | Some (q, t, static) \<Rightarrow> static)"
    using p(5) by (auto simp: br_known_def br' split: option.splits)
  moreover have "br_known br' j = br_known br j" if "j \<noteq> m" for j
    using p(4) that by (simp add: br_known_def br')
  ultimately show "br_known br' = (br_known br)(m \<mapsto>
      (p, br_clock br, case br_known br m of None \<Rightarrow> False | Some (q, t, static) \<Rightarrow> static))" by auto
  show "nfs_fdb_count br' = (if br_known br m = None then Suc (nfs_fdb_count br) else nfs_fdb_count br)"
    using p(3) by (simp add: nfs_fdb_count_def br' br_known_def)
qed (use assms(2) in \<open>auto simp: learn_put\<close>)

lemma learn_None:
  "br_inv br \<Longrightarrow> nfs_fdb_learn br m p = None \<longleftrightarrow> br_known br m = None \<and> nfs_fdb_count br = NFS_FDB_MAX_ENTRIES"
  by (simp add: learn_put slot_put_None_iff br_known_def nfs_fdb_count_def br_inv_def)

lemma static_Some:
  assumes "br_inv br" and "nfs_fdb_add_static br m p = Some br'"
  shows "br_inv br'"
    and "br_known br' = (br_known br)(m \<mapsto>
      (p, case br_known br m of None \<Rightarrow> br_clock br | Some (q, t, static) \<Rightarrow> t, True))"
    and "nfs_fdb_count br' = (if br_known br m = None then Suc (nfs_fdb_count br) else nfs_fdb_count br)"
    and "br_ports br' = br_ports br" and "br_clock br' = br_clock br"
proof -
  obtain es where es: "slot_put be_valid be_mac m (br_pin p) (br_fill br True m p) (br_fdb br) = Some es"
    and br': "br' = br\<lparr> br_fdb := es \<rparr>"
    using assms(2) by (auto simp: static_put)
  have d: "distinct (map be_mac (filter be_valid (br_fdb br)))" using assms(1) by (simp add: br_inv_def)
  note p = slot_put_Some [OF d es]
  show "br_inv br'" using p(1,2) assms(1) by (simp add: br_inv_def br')
  have "br_known br' m = Some (p, case br_known br m of None \<Rightarrow> br_clock br | Some (q, t, static) \<Rightarrow> t, True)"
    using p(5) by (auto simp: br_known_def br' split: option.splits)
  moreover have "br_known br' j = br_known br j" if "j \<noteq> m" for j
    using p(4) that by (simp add: br_known_def br')
  ultimately show "br_known br' = (br_known br)(m \<mapsto>
      (p, case br_known br m of None \<Rightarrow> br_clock br | Some (q, t, static) \<Rightarrow> t, True))" by auto
  show "nfs_fdb_count br' = (if br_known br m = None then Suc (nfs_fdb_count br) else nfs_fdb_count br)"
    using p(3) by (simp add: nfs_fdb_count_def br' br_known_def)
  show "br_ports br' = br_ports br" "br_clock br' = br_clock br" by (simp_all add: br')
qed

lemma static_None:
  "br_inv br \<Longrightarrow> nfs_fdb_add_static br m p = None \<longleftrightarrow> br_known br m = None \<and> nfs_fdb_count br = NFS_FDB_MAX_ENTRIES"
  by (simp add: static_put slot_put_None_iff br_known_def nfs_fdb_count_def br_inv_def)

lemma count_le: "br_inv br \<Longrightarrow> nfs_fdb_count br \<le> NFS_FDB_MAX_ENTRIES"
  by (auto simp: nfs_fdb_count_def br_inv_def intro: order_trans [OF length_filter_le])

text \<open>Learned and static entries share one table: both operations are its insertion.\<close>

interpretation br_learn: keyed_table br_port_of nfs_fdb_learn nfs_fdb_count "\<lambda>_. NFS_FDB_MAX_ENTRIES" br_inv
  by unfold_locales
    (auto simp: port_of_known fun_eq_iff learn_Some learn_None count_le)

interpretation br_static: keyed_table br_port_of nfs_fdb_add_static nfs_fdb_count "\<lambda>_. NFS_FDB_MAX_ENTRIES" br_inv
  by unfold_locales
    (auto simp: port_of_known fun_eq_iff static_Some static_None count_le)

section \<open>Runs of the bridge\<close>

datatype bridge_event =
    BrAddPort "u8 list" "u8 list"
  | BrRemovePort int
  | BrLearn "u8 list" int
  | BrStatic "u8 list" int
  | BrFlush
  | BrAge u32
  | BrClock u32
  | BrFrame int "u8 list"

fun bridge_step :: "nfs_bridge \<Rightarrow> bridge_event \<Rightarrow> nfs_bridge" where
  "bridge_step br (BrAddPort name m) = (case nfs_bridge_add_port br name m of None \<Rightarrow> br | Some (new_id, br') \<Rightarrow> br')"
| "bridge_step br (BrRemovePort p) = (case nfs_bridge_remove_port br p of None \<Rightarrow> br | Some br' \<Rightarrow> br')"
| "bridge_step br (BrLearn m p) = learned br m p"
| "bridge_step br (BrStatic m p) = (case nfs_fdb_add_static br m p of None \<Rightarrow> br | Some br' \<Rightarrow> br')"
| "bridge_step br BrFlush = nfs_fdb_flush br"
| "bridge_step br (BrAge now) = nfs_fdb_age br now"
| "bridge_step br (BrClock now) = br\<lparr> br_clock := now \<rparr>"
| "bridge_step br (BrFrame p frame) = snd (nfs_bridge_forward br p frame)"

text \<open>
  What a bridge is for: a map from addresses to a port, the time the address was last heard
  and whether the entry is static; which ports are up; the clock.
\<close>

record bridge_view =
  bv_map :: "u8 list \<Rightarrow> (int \<times> u32 \<times> bool) option"
  bv_ports :: "bool list"
  bv_clock :: u32

definition bv_forget :: "bridge_view \<Rightarrow> (int \<times> u32 \<times> bool \<Rightarrow> bool) \<Rightarrow> bridge_view" where
  "bv_forget v old = v\<lparr> bv_map := \<lambda>m. case bv_map v m of None \<Rightarrow> None | Some x \<Rightarrow> if old x then None else Some x \<rparr>"

definition bv_learn :: "bridge_view \<Rightarrow> u8 list \<Rightarrow> int \<Rightarrow> bridge_view" where
  "bv_learn v m p =
     (case bv_map v m of
        Some (q, t, static) \<Rightarrow> v\<lparr> bv_map := (bv_map v)(m \<mapsto> (p, bv_clock v, static)) \<rparr>
      | None \<Rightarrow> if card (dom (bv_map v)) < 256 then v\<lparr> bv_map := (bv_map v)(m \<mapsto> (p, bv_clock v, False)) \<rparr> else v)"

definition bv_static :: "bridge_view \<Rightarrow> u8 list \<Rightarrow> int \<Rightarrow> bridge_view" where
  "bv_static v m p =
     (case bv_map v m of
        Some (q, t, static) \<Rightarrow> v\<lparr> bv_map := (bv_map v)(m \<mapsto> (p, t, True)) \<rparr>
      | None \<Rightarrow> if card (dom (bv_map v)) < 256 then v\<lparr> bv_map := (bv_map v)(m \<mapsto> (p, bv_clock v, True)) \<rparr> else v)"

fun view_step :: "bridge_view \<Rightarrow> bridge_event \<Rightarrow> bridge_view" where
  "view_step v (BrAddPort name m) = (if length (bv_ports v) < 16 then v\<lparr> bv_ports := bv_ports v @ [True] \<rparr> else v)"
| "view_step v (BrRemovePort p) =
     (if 0 \<le> p \<and> p < int (length (bv_ports v)) \<and> bv_ports v ! nat p
      then (bv_forget v (\<lambda>(q, t, static). q = p))\<lparr> bv_ports := (bv_ports v)[nat p := False] \<rparr> else v)"
| "view_step v (BrLearn m p) = bv_learn v m p"
| "view_step v (BrStatic m p) = bv_static v m p"
| "view_step v BrFlush = bv_forget v (\<lambda>(q, t, static). \<not> static)"
| "view_step v (BrAge now) = bv_forget v (\<lambda>(q, t, static). \<not> static \<and> now - t > 300)"
| "view_step v (BrClock now) = v\<lparr> bv_clock := now \<rparr>"
| "view_step v (BrFrame p frame) = (if length frame < 14 then v else bv_learn v (take 6 (drop 6 frame)) p)"

text \<open>Where a frame goes: a port, \<open>- 1\<close> for everywhere, \<open>- 2\<close> for nowhere.\<close>

definition view_verdict :: "bridge_view \<Rightarrow> int \<Rightarrow> u8 list \<Rightarrow> int" where
  "view_verdict v p frame =
     (if length frame < 14 then - 2
      else if take 6 frame = replicate 6 0xFF then - 1
      else case bv_map (view_step v (BrFrame p frame)) (take 6 frame) of
             None \<Rightarrow> - 1
           | Some (q, t, static) \<Rightarrow> if q < 0 then - 1 else if q = p then - 2 else q)"

definition verdict_action :: "int \<Rightarrow> bridge_action" where
  "verdict_action r =
     (if r = - 2 then NFS_BRIDGE_DROP else if r = - 1 then NFS_BRIDGE_FLOOD else NFS_BRIDGE_FORWARD)"

definition bridge_abs :: "nfs_bridge \<Rightarrow> bridge_view" where
  "bridge_abs br = \<lparr> bv_map = br_known br, bv_ports = map bp_active (br_ports br), bv_clock = br_clock br \<rparr>"

lemma forget_known:
  assumes "br_inv br"
    and "\<And>e. be_valid (g e) \<longleftrightarrow> be_valid e \<and> \<not> old (be_port_id e, be_timestamp e, be_is_static e)"
    and "\<And>e. be_valid e \<Longrightarrow> \<not> old (be_port_id e, be_timestamp e, be_is_static e) \<Longrightarrow> g e = e"
    and "br_fdb br' = map g (br_fdb br)" and "br_aging_time br' = br_aging_time br"
  shows "br_inv br'"
    and "br_known br' = (\<lambda>m. case br_known br m of None \<Rightarrow> None | Some x \<Rightarrow> if old x then None else Some x)"
proof -
  have d: "distinct (map be_mac (filter be_valid (br_fdb br)))" using assms(1) by (simp add: br_inv_def)
  note iv = invalidate_slots [OF d, of g "\<lambda>e. old (be_port_id e, be_timestamp e, be_is_static e)", OF assms(2,3)]
  show "br_inv br'" using iv(2) assms(1) by (simp add: br_inv_def assms(4,5))
  show "br_known br' = (\<lambda>m. case br_known br m of None \<Rightarrow> None | Some x \<Rightarrow> if old x then None else Some x)"
    using iv(3) by (auto simp: fun_eq_iff br_known_def assms(4) split: option.splits)
qed

lemma learned_view:
  assumes "br_inv br"
  shows "br_inv (learned br m p)" and "bridge_abs (learned br m p) = bv_learn (bridge_abs br) m p"
proof -
  show "br_inv (learned br m p)"
    using assms learn_Some(1) [OF assms] by (auto simp: learned_def split: option.split)
  show "bridge_abs (learned br m p) = bv_learn (bridge_abs br) m p"
  proof (cases "nfs_fdb_learn br m p")
    case None
    then show ?thesis
      using learn_None [OF assms, of m p] card_known [OF assms]
      by (simp add: learned_def bv_learn_def bridge_abs_def NFS_FDB_MAX_ENTRIES_def)
  next
    case (Some br')
    then have "br_known br m = None \<Longrightarrow> card (dom (br_known br)) < 256"
      using learn_None [OF assms, of m p] count_le [OF assms] card_known [OF assms]
      by (simp add: NFS_FDB_MAX_ENTRIES_def)
    then show ?thesis
      using learn_Some [OF assms Some] Some
      by (auto simp: learned_def bv_learn_def bridge_abs_def split: option.split)
  qed
qed

lemma static_view:
  assumes "br_inv br"
  shows "br_inv (bridge_step br (BrStatic m p))"
    and "bridge_abs (bridge_step br (BrStatic m p)) = bv_static (bridge_abs br) m p"
proof -
  show "br_inv (bridge_step br (BrStatic m p))"
    using assms static_Some(1) [OF assms] by (auto split: option.split)
  show "bridge_abs (bridge_step br (BrStatic m p)) = bv_static (bridge_abs br) m p"
  proof (cases "nfs_fdb_add_static br m p")
    case None
    then show ?thesis
      using static_None [OF assms, of m p] card_known [OF assms]
      by (simp add: bv_static_def bridge_abs_def NFS_FDB_MAX_ENTRIES_def)
  next
    case (Some br')
    then have "br_known br m = None \<Longrightarrow> card (dom (br_known br)) < 256"
      using static_None [OF assms, of m p] count_le [OF assms] card_known [OF assms]
      by (simp add: NFS_FDB_MAX_ENTRIES_def)
    then show ?thesis
      using static_Some [OF assms Some] Some
      by (auto simp: bv_static_def bridge_abs_def split: option.split)
  qed
qed

text \<open>Counting frames and bytes touches neither the database nor which ports are up.\<close>

lemma same_fdb:
  assumes "br_fdb br' = br_fdb br"
  shows "br_known br' = br_known br" and "nfs_fdb_lookup br' m = nfs_fdb_lookup br m"
  using assms by (simp_all add: fun_eq_iff br_known_def nfs_fdb_lookup_def cong: option.case_cong)

lemma count_fields:
  "br_fdb (count_rx br p n) = br_fdb br" "br_fdb (count_tx br p n) = br_fdb br"
  "br_clock (count_rx br p n) = br_clock br" "br_clock (count_tx br p n) = br_clock br"
  "br_aging_time (count_rx br p n) = br_aging_time br" "br_aging_time (count_tx br p n) = br_aging_time br"
  by (simp_all add: count_rx_def count_tx_def Let_def)

lemma count_active:
  "map bp_active (br_ports (count_rx br p n)) = map bp_active (br_ports br)"
  "map bp_active (br_ports (count_tx br p n)) = map bp_active (br_ports br)"
  by (simp_all add: count_rx_def count_tx_def Let_def map_update list_update_same_conv nat_less_iff)

lemma count_only [simp]:
  "bridge_abs (count_rx br p n) = bridge_abs br" "bridge_abs (count_tx br p n) = bridge_abs br"
  "br_inv (count_rx br p n) = br_inv br" "br_inv (count_tx br p n) = br_inv br"
  "nfs_fdb_lookup (count_rx br p n) m = nfs_fdb_lookup br m"
  by (simp_all add: bridge_abs_def br_inv_def count_fields count_active
      same_fdb [of "count_rx br p n" br] same_fdb [of "count_tx br p n" br])

lemma stats_only [simp]:
  "bridge_abs (br\<lparr> br_dropped := x \<rparr>) = bridge_abs br" "bridge_abs (br\<lparr> br_flooded := x \<rparr>) = bridge_abs br"
  "bridge_abs (br\<lparr> br_forwarded := x \<rparr>) = bridge_abs br"
  "br_inv (br\<lparr> br_dropped := x \<rparr>) = br_inv br" "br_inv (br\<lparr> br_flooded := x \<rparr>) = br_inv br"
  "br_inv (br\<lparr> br_forwarded := x \<rparr>) = br_inv br"
  by (simp_all add: bridge_abs_def br_inv_def same_fdb [of "br\<lparr> br_dropped := x \<rparr>" br]
      same_fdb [of "br\<lparr> br_flooded := x \<rparr>" br] same_fdb [of "br\<lparr> br_forwarded := x \<rparr>" br])

lemma frame_view:
  assumes "br_inv br"
  shows "br_inv (snd (nfs_bridge_forward br p frame))"
    and "bridge_abs (snd (nfs_bridge_forward br p frame)) = view_step (bridge_abs br) (BrFrame p frame)"
  using learned_view [OF assms] assms by (simp_all add: nfs_bridge_forward_def Let_def)

interpretation bridge: simulation bridge_step "\<lambda>_ _. True" br_inv bridge_abs view_step
proof
  fix br e
  assume inv: "br_inv br"
  have "br_inv (bridge_step br e) \<and> bridge_abs (bridge_step br e) = view_step (bridge_abs br) e"
  proof (cases e)
    case (BrAddPort name m)
    have "length (br_ports br) \<ge> NFS_BRIDGE_MAX_PORTS \<longleftrightarrow> \<not> length (bv_ports (bridge_abs br)) < 16"
      by (auto simp: bridge_abs_def NFS_BRIDGE_MAX_PORTS_def)
    then show ?thesis
      using BrAddPort inv by (simp add: nfs_bridge_add_port_def Let_def bridge_abs_def br_inv_def br_known_def fun_eq_iff)
  next
    case (BrRemovePort p)
    show ?thesis
    proof (cases "0 \<le> p \<and> p < int (length (br_ports br)) \<and> bp_active (br_ports br ! nat p)")
      case True
      then obtain br' where br': "nfs_bridge_remove_port br p = Some br'"
        "br_fdb br' = map (\<lambda>e. if be_valid e \<and> be_port_id e = p then e\<lparr> be_valid := False \<rparr> else e) (br_fdb br)"
        "br_aging_time br' = br_aging_time br" "br_clock br' = br_clock br"
        "map bp_active (br_ports br') = (map bp_active (br_ports br))[nat p := False]"
        by (simp add: nfs_bridge_remove_port_def map_update)
      note k = forget_known [OF inv _ _ br'(2,3), of "\<lambda>(q, t, static). q = p"]
      have "br_inv br'" "br_known br' = (\<lambda>m. case br_known br m of None \<Rightarrow> None
          | Some x \<Rightarrow> if (\<lambda>(q, t, static). q = p) x then None else Some x)"
        by (rule k; auto split: if_splits)+
      then show ?thesis using True br' BrRemovePort by (simp add: bridge_abs_def bv_forget_def nat_less_iff)
    next
      case False
      then have "nfs_bridge_remove_port br p = None" by (auto simp: nfs_bridge_remove_port_def)
      then show ?thesis using False BrRemovePort inv by (auto simp: bridge_abs_def nat_less_iff)
    qed
  next
    case BrFlush
    note k = forget_known [OF inv, of _ "\<lambda>(q, t, static). \<not> static" "nfs_fdb_flush br"]
    have "br_inv (nfs_fdb_flush br)" "br_known (nfs_fdb_flush br) = (\<lambda>m. case br_known br m of None \<Rightarrow> None
          | Some x \<Rightarrow> if (\<lambda>(q, t, static). \<not> static) x then None else Some x)"
      by (rule k [where g = "\<lambda>e. if be_valid e \<and> \<not> be_is_static e then e\<lparr> be_valid := False \<rparr> else e"];
          auto simp: nfs_fdb_flush_def split: if_splits)+
    then show ?thesis using BrFlush by (simp add: bridge_abs_def bv_forget_def) (simp add: nfs_fdb_flush_def)
  next
    case (BrAge now)
    have aging: "br_aging_time br = 300" using inv by (simp add: br_inv_def NFS_FDB_DEFAULT_AGING_def)
    note k = forget_known [OF inv, of _ "\<lambda>(q, t, static). \<not> static \<and> now - t > 300" "nfs_fdb_age br now"]
    have "br_inv (nfs_fdb_age br now)" "br_known (nfs_fdb_age br now) = (\<lambda>m. case br_known br m of None \<Rightarrow> None
          | Some x \<Rightarrow> if (\<lambda>(q, t, static). \<not> static \<and> now - t > 300) x then None else Some x)"
      by (rule k [where g = "\<lambda>e. if be_valid e \<and> \<not> be_is_static e then
            (if now - be_timestamp e > 300 then e\<lparr> be_valid := False \<rparr> else e) else e"];
          auto simp: nfs_fdb_age_def aging split: if_splits)+
    then show ?thesis using BrAge by (simp add: bridge_abs_def bv_forget_def) (simp add: nfs_fdb_age_def)
  next
    case (BrClock now)
    then show ?thesis using inv by (simp add: bridge_abs_def br_inv_def br_known_def fun_eq_iff)
  next
    case (BrLearn m p)
    then show ?thesis using learned_view [OF inv] by simp
  next
    case (BrStatic m p)
    then show ?thesis using static_view [OF inv] by simp
  next
    case (BrFrame p frame)
    then show ?thesis using frame_view [OF inv] by simp
  qed
  then show "br_inv (bridge_step br e)" "bridge_abs (bridge_step br e) = view_step (bridge_abs br) e"
    by simp_all
qed

lemma bv_map_abs: "bv_map (bridge_abs br) = br_known br"
  by (simp add: bridge_abs_def)

lemma forward_port_verdict:
  assumes "br_inv br"
  shows "fst (nfs_bridge_forward_port br p frame) = view_verdict (bridge_abs br) p frame"
proof -
  have "bv_map (bv_learn (bridge_abs br) m p) = br_known (learned br m p)" for m
    using learned_view(2) [OF assms, of m p] by (metis bv_map_abs)
  then show ?thesis
    by (auto simp: nfs_bridge_forward_port_def view_verdict_def Let_def is_broadcast_def mac_eq_def br_lookup_known
        port_of_known numeral_eq_Suc split: option.split)
qed

lemma forward_ports_agree:
  "fst (nfs_bridge_forward br p frame) = verdict_action (fst (nfs_bridge_forward_port br p frame))"
  "br_fdb (snd (nfs_bridge_forward br p frame)) = br_fdb (snd (nfs_bridge_forward_port br p frame))"
  by (simp_all add: nfs_bridge_forward_def nfs_bridge_forward_port_def Let_def verdict_action_def count_fields)

lemma bridge_stats:
  "let br' = snd (nfs_bridge_forward br p frame)
   in br_forwarded br' + br_flooded br' + br_dropped br' = br_forwarded br + br_flooded br + br_dropped br + 1"
proof -
  have l: "br_forwarded (learned br m q) = br_forwarded br" "br_flooded (learned br m q) = br_flooded br"
    "br_dropped (learned br m q) = br_dropped br" for m q
    by (auto simp: learned_def learn_put split: option.split)
  have c: "br_forwarded (count_rx b q n) = br_forwarded b" "br_flooded (count_rx b q n) = br_flooded b"
    "br_dropped (count_rx b q n) = br_dropped b" "br_forwarded (count_tx b q n) = br_forwarded b"
    "br_flooded (count_tx b q n) = br_flooded b" "br_dropped (count_tx b q n) = br_dropped b" for b q n
    by (simp_all add: count_rx_def count_tx_def Let_def)
  show ?thesis by (simp add: nfs_bridge_forward_def Let_def l c)
qed

text \<open>
  C20. After any run of the bridge its database is the map that the run describes, of at most 256
  addresses; a frame goes where the map says, by both ways of forwarding; and the
  two leave the same database behind.
\<close>
theorem bridge_refines_map:
  "let br = foldl bridge_step (nfs_bridge_init name) es;
       v = foldl view_step \<lparr> bv_map = Map.empty, bv_ports = [], bv_clock = 0 \<rparr> es;
       (r, br1) = nfs_bridge_forward_port br p frame;
       (action, br2) = nfs_bridge_forward br p frame
   in br_known br = bv_map v \<and> map bp_active (br_ports br) = bv_ports v \<and>
      nfs_fdb_count br = card (dom (bv_map v)) \<and> nfs_fdb_count br \<le> 256 \<and>
      r = view_verdict v p frame \<and> action = verdict_action r \<and>
      br_fdb br1 = br_fdb br2 \<and>
      br_forwarded br2 + br_flooded br2 + br_dropped br2 = br_forwarded br + br_flooded br + br_dropped br + 1"
proof -
  define br where "br = foldl bridge_step (nfs_bridge_init name) es"
  define v where "v = foldl view_step \<lparr> bv_map = Map.empty, bv_ports = [], bv_clock = 0 \<rparr> es"
  have init: "br_inv (nfs_bridge_init name)"
    "bridge_abs (nfs_bridge_init name) = \<lparr> bv_map = Map.empty, bv_ports = [], bv_clock = 0 \<rparr>"
    by (auto simp: nfs_bridge_init_def br_inv_def bridge_abs_def br_known_def find_slot_def find_None_iff free_slot_def)
  have inv: "br_inv br" unfolding br_def by (rule bridge.run_inv) (simp_all add: init)
  have "bridge_abs br = v"
    unfolding br_def v_def by (simp add: bridge.run_abs init)
  then have v: "br_known br = bv_map v" "map bp_active (br_ports br) = bv_ports v" "bridge_abs br = v"
    by (auto simp: bridge_abs_def)
  show ?thesis
    unfolding br_def [symmetric] v_def [symmetric]
    using v card_known [OF inv] count_le [OF inv] forward_port_verdict [OF inv, of p frame]
      forward_ports_agree [of br p frame] bridge_stats [of br p frame]
    by (auto simp: NFS_FDB_MAX_ENTRIES_def Let_def split: prod.split)
qed

section \<open>Static entries and ports that are down\<close>

text \<open>
  Static entries are kept from aging and flushing but not from learning: a frame sent with
  the pinned address from another port moves the entry there, still marked static.
\<close>

lemma static_entry_moved:
  assumes "br_inv br" and "nfs_fdb_add_static br m p = Some br'"
  shows "\<exists>t br''. nfs_fdb_learn br' m q = Some br'' \<and> br_known br'' m = Some (q, t, True)"
proof -
  have m: "br_inv br'" "br_known br' m \<noteq> None" "\<exists>t. br_known br' m = Some (p, t, True)"
    using static_Some [OF assms] by auto
  then obtain br'' where "nfs_fdb_learn br' m q = Some br''" using learn_None [OF m(1), of m q] by auto
  then show ?thesis using learn_Some(2) [OF m(1)] m(3) by auto
qed

text \<open>
  The ingress port is not looked at: a frame handed in for a port that was removed teaches the bridge
  its source there again, and later frames are sent to the removed port.
\<close>

lemma removed_port_learns:
  assumes "br_inv br" and "br_known br (take 6 (drop 6 frame)) \<noteq> None" and "14 \<le> length frame"
  shows "br_port_of (snd (nfs_bridge_forward br p frame)) (take 6 (drop 6 frame)) = Some p"
proof -
  let ?src = "take 6 (drop 6 frame)"
  have "br_known (snd (nfs_bridge_forward br p frame)) ?src = bv_map (view_step (bridge_abs br) (BrFrame p frame)) ?src"
    using frame_view(2) [OF assms(1), of p frame] by (metis bv_map_abs)
  also have "\<dots> = Some (p, br_clock br, snd (snd (the (br_known br ?src))))"
    using assms(2,3) by (auto simp: bv_learn_def bridge_abs_def)
  finally show ?thesis by (simp add: port_of_known)
qed

end
