(* ===== verification/Tftp.thy ===== *)
theory Tftp
  imports Interfaces "HOL-Library.Sublist"
begin

text \<open>
  The TFTP-like protocol (\<^verbatim>\<open>phases/04-transport/05-a-udp-file-transfer-protocol/tftp.c\<close>): builders and
  parser of the five packets. A C string is the list of its bytes before the NUL.
  The parser is characterised: it accepts exactly what the builders write.
\<close>

section \<open>Definitions\<close>

definition NFS_TFTP_OP_RRQ :: u16 where "NFS_TFTP_OP_RRQ = 1"
definition NFS_TFTP_OP_WRQ :: u16 where "NFS_TFTP_OP_WRQ = 2"
definition NFS_TFTP_OP_DATA :: u16 where "NFS_TFTP_OP_DATA = 3"
definition NFS_TFTP_OP_ACK :: u16 where "NFS_TFTP_OP_ACK = 4"
definition NFS_TFTP_OP_ERROR :: u16 where "NFS_TFTP_OP_ERROR = 5"
definition NFS_TFTP_DATA_MAX :: nat where "NFS_TFTP_DATA_MAX = 512"
definition NFS_TFTP_FILENAME_MAX :: nat where "NFS_TFTP_FILENAME_MAX = 256"
definition NFS_TFTP_MODE_MAX :: nat where "NFS_TFTP_MODE_MAX = 16"
definition NFS_TFTP_ERRMSG_MAX :: nat where "NFS_TFTP_ERRMSG_MAX = 128"

lemmas tftp_ops = NFS_TFTP_OP_RRQ_def NFS_TFTP_OP_WRQ_def NFS_TFTP_OP_DATA_def NFS_TFTP_OP_ACK_def
  NFS_TFTP_OP_ERROR_def
lemmas tftp_bounds = NFS_TFTP_DATA_MAX_def NFS_TFTP_FILENAME_MAX_def NFS_TFTP_MODE_MAX_def NFS_TFTP_ERRMSG_MAX_def

text \<open>The members of the union, the request with its opcode.\<close>

datatype nfs_tftp_packet =
    TftpRq u16 "u8 list" "u8 list"
  | TftpData u16 "u8 list"
  | TftpAck u16
  | TftpError u16 "u8 list"

definition nfs_tftp_build_rrq :: "nat \<Rightarrow> u16 \<Rightarrow> u8 list \<Rightarrow> u8 list \<Rightarrow> u8 list option" where
  "nfs_tftp_build_rrq buf_max opcode filename mode =
     (if opcode \<noteq> NFS_TFTP_OP_RRQ \<and> opcode \<noteq> NFS_TFTP_OP_WRQ then None
      else
        let fn_len = length filename; mode_len = length mode in
        if fn_len = 0 \<or> fn_len \<ge> NFS_TFTP_FILENAME_MAX then None
        else if mode_len = 0 \<or> mode_len \<ge> NFS_TFTP_MODE_MAX then None
        else
          let total = 2 + fn_len + 1 + mode_len + 1 in
          if total > buf_max then None
          else Some (put16 opcode @ filename @ [0] @ mode @ [0]))"

definition nfs_tftp_build_data :: "nat \<Rightarrow> u16 \<Rightarrow> u8 list \<Rightarrow> u8 list option" where
  "nfs_tftp_build_data buf_max block d =
     (if length d > NFS_TFTP_DATA_MAX then None
      else if 2 + 2 + length d > buf_max then None
      else Some (put16 NFS_TFTP_OP_DATA @ put16 block @ d))"

definition nfs_tftp_build_ack :: "nat \<Rightarrow> u16 \<Rightarrow> u8 list option" where
  "nfs_tftp_build_ack buf_max block =
     (if buf_max < 4 then None else Some (put16 NFS_TFTP_OP_ACK @ put16 block))"

definition nfs_tftp_build_error :: "nat \<Rightarrow> u16 \<Rightarrow> u8 list \<Rightarrow> u8 list option" where
  "nfs_tftp_build_error buf_max code msg =
     (if length msg \<ge> NFS_TFTP_ERRMSG_MAX then None
      else if 2 + 2 + length msg + 1 > buf_max then None
      else Some (put16 NFS_TFTP_OP_ERROR @ put16 code @ msg @ [0]))"

definition find_nul :: "u8 list \<Rightarrow> nat \<Rightarrow> nat option" where
  "find_nul buf start = map_option ((+) start) (find_idx (\<lambda>b. b = 0) (drop start buf))"

definition nfs_tftp_parse :: "u8 list \<Rightarrow> nfs_tftp_packet option" where
  "nfs_tftp_parse buf =
     (if length buf < 2 then None
      else
        let opcode = get16 buf 0 in
        if opcode = NFS_TFTP_OP_RRQ \<or> opcode = NFS_TFTP_OP_WRQ then
          (case find_nul buf 2 of None \<Rightarrow> None
           | Some fn_end \<Rightarrow>
               let fn_len = fn_end - 2 in
               if fn_len = 0 \<or> fn_len \<ge> NFS_TFTP_FILENAME_MAX then None
               else
                 (case find_nul buf (fn_end + 1) of None \<Rightarrow> None
                  | Some mode_end \<Rightarrow>
                      let mode_len = mode_end - fn_end - 1 in
                      if mode_len = 0 \<or> mode_len \<ge> NFS_TFTP_MODE_MAX then None
                      else Some (TftpRq opcode (take fn_len (drop 2 buf)) (take mode_len (drop (fn_end + 1) buf)))))
        else if opcode = NFS_TFTP_OP_DATA then
          (if length buf < 4 then None
           else
             let dlen = length buf - 4 in
             if dlen > NFS_TFTP_DATA_MAX then None
             else Some (TftpData (get16 buf 2) (take dlen (drop 4 buf))))
        else if opcode = NFS_TFTP_OP_ACK then
          (if length buf < 4 then None else Some (TftpAck (get16 buf 2)))
        else if opcode = NFS_TFTP_OP_ERROR then
          (if length buf < 5 then None
           else
             (case find_nul buf 4 of None \<Rightarrow> None
              | Some msg_end \<Rightarrow>
                  let msg_len = msg_end - 4 in
                  if msg_len \<ge> NFS_TFTP_ERRMSG_MAX then None
                  else Some (TftpError (get16 buf 2) (take msg_len (drop 4 buf)))))
        else None)"

definition nfs_tftp_opcode_name :: "u16 \<Rightarrow> string" where
  "nfs_tftp_opcode_name opcode =
     (if opcode = NFS_TFTP_OP_RRQ then ''RRQ'' else if opcode = NFS_TFTP_OP_WRQ then ''WRQ''
      else if opcode = NFS_TFTP_OP_DATA then ''DATA'' else if opcode = NFS_TFTP_OP_ACK then ''ACK''
      else if opcode = NFS_TFTP_OP_ERROR then ''ERROR'' else ''UNKNOWN'')"

definition nfs_tftp_error_name :: "u16 \<Rightarrow> string" where
  "nfs_tftp_error_name code =
     (if code = 0 then ''Not defined'' else if code = 1 then ''File not found''
      else if code = 2 then ''Access violation'' else if code = 3 then ''Disk full''
      else if code = 4 then ''Illegal operation'' else if code = 5 then ''Unknown transfer ID''
      else if code = 6 then ''File already exists'' else if code = 7 then ''No such user''
      else ''UNKNOWN'')"

section \<open>What a packet looks like\<close>

text \<open>The builder of each member, called with the fields of a packet.\<close>

fun tftp_build :: "nat \<Rightarrow> nfs_tftp_packet \<Rightarrow> u8 list option" where
  "tftp_build buf_max (TftpRq opcode filename mode) = nfs_tftp_build_rrq buf_max opcode filename mode"
| "tftp_build buf_max (TftpData block d) = nfs_tftp_build_data buf_max block d"
| "tftp_build buf_max (TftpAck block) = nfs_tftp_build_ack buf_max block"
| "tftp_build buf_max (TftpError code msg) = nfs_tftp_build_error buf_max code msg"

fun tftp_wf :: "nfs_tftp_packet \<Rightarrow> bool" where
  "tftp_wf (TftpRq opcode filename mode) \<longleftrightarrow> opcode \<in> {1, 2} \<and> filename \<noteq> [] \<and> length filename < 256 \<and>
     mode \<noteq> [] \<and> length mode < 16 \<and> 0 \<notin> set filename \<and> 0 \<notin> set mode"
| "tftp_wf (TftpData block d) \<longleftrightarrow> length d \<le> 512"
| "tftp_wf (TftpAck block) \<longleftrightarrow> True"
| "tftp_wf (TftpError code msg) \<longleftrightarrow> length msg < 128 \<and> 0 \<notin> set msg"

fun tftp_bytes :: "nfs_tftp_packet \<Rightarrow> u8 list" where
  "tftp_bytes (TftpRq opcode filename mode) = put16 opcode @ filename @ [0] @ mode @ [0]"
| "tftp_bytes (TftpData block d) = put16 3 @ put16 block @ d"
| "tftp_bytes (TftpAck block) = put16 4 @ put16 block"
| "tftp_bytes (TftpError code msg) = put16 5 @ put16 code @ msg @ [0]"

lemma tftp_build_bytes:
  "tftp_wf p \<Longrightarrow> tftp_build n p = (if length (tftp_bytes p) \<le> n then Some (tftp_bytes p) else None)"
  by (cases p) (auto simp: nfs_tftp_build_rrq_def nfs_tftp_build_data_def nfs_tftp_build_ack_def
      nfs_tftp_build_error_def tftp_ops tftp_bounds Let_def)

lemma find_nul_Some:
  "find_nul buf start = Some i \<Longrightarrow> start \<le> i \<and> i < length buf \<and> buf ! i = 0 \<and> 0 \<notin> set (take (i - start) (drop start buf))"
  by (auto simp: find_nul_def in_set_conv_nth dest!: find_idx_SomeD)

lemma find_nul_at: "0 \<notin> set xs \<Longrightarrow> find_nul (pre @ xs @ 0 # post) (length pre) = Some (length pre + length xs)"
proof -
  assume "0 \<notin> set xs"
  then have "find_idx (\<lambda>b. b = 0) (xs @ 0 # post) = Some (length xs)" by (induction xs) auto
  then show ?thesis by (simp add: find_nul_def)
qed

text \<open>A NUL-terminated field that starts at an offset.\<close>

lemma find_nul_split:
  assumes "find_nul buf start = Some i"
  shows "drop start buf = take (i - start) (drop start buf) @ 0 # drop (i + 1) buf"
proof -
  have i: "start \<le> i" "i < length buf" "buf ! i = 0" using find_nul_Some [OF assms] by auto
  have "drop start buf = take (i - start) (drop start buf) @ drop (i - start) (drop start buf)"
    by (rule append_take_drop_id [symmetric])
  also have "drop (i - start) (drop start buf) = drop i buf" using i by simp
  also have "\<dots> = 0 # drop (i + 1) buf" using i by (simp add: Cons_nth_drop_Suc [symmetric])
  finally show ?thesis .
qed

lemma get16_bytes: "2 \<le> length buf \<Longrightarrow> buf = put16 (get16 buf 0) @ drop 2 buf"
  by (cases buf; cases "tl buf") (auto simp: get16_def put16_def)

lemma get16_bytes2: "4 \<le> length buf \<Longrightarrow> buf = put16 (get16 buf 0) @ put16 (get16 buf 2) @ drop 4 buf"
proof -
  assume l: "4 \<le> length buf"
  then have "drop 2 buf = put16 (get16 (drop 2 buf) 0) @ drop 2 (drop 2 buf)" by (intro get16_bytes) simp
  then show ?thesis using get16_bytes [of buf] l by (simp add: get16_def)
qed

lemma find_nul_put16: "0 \<notin> set xs \<Longrightarrow> find_nul (put16 a @ xs @ 0 # post) 2 = Some (2 + length xs)"
  using find_nul_at [of xs "put16 a" post] by simp

text \<open>The parser reads what the builders write, whatever follows a packet that tells where it ends.\<close>

lemma tftp_parse_bytes:
  assumes "tftp_wf p" and "case p of TftpData _ _ \<Rightarrow> rest = [] | _ \<Rightarrow> True"
  shows "nfs_tftp_parse (tftp_bytes p @ rest) = Some p"
proof (cases p)
  case (TftpRq opcode filename mode)
  let ?buf = "put16 opcode @ filename @ 0 # mode @ 0 # rest"
  have wf: "opcode \<in> {1, 2}" "filename \<noteq> []" "length filename < 256" "mode \<noteq> []" "length mode < 16"
    "0 \<notin> set filename" "0 \<notin> set mode"
    using assms(1) TftpRq by auto
  have fn: "find_nul ?buf 2 = Some (2 + length filename)" using wf(6) by (rule find_nul_put16)
  have md: "find_nul ?buf (2 + length filename + 1) = Some (2 + length filename + 1 + length mode)"
    using find_nul_at [of mode "put16 opcode @ filename @ [0]" rest] wf(7) by simp
  have cut: "take (length mode) (drop (2 + length filename + 1) ?buf) = mode"
    by (simp add: put16_def)
  have cut2: "take (length filename) (drop 2 ?buf) = filename" by (simp add: put16_def)
  have op: "get16 ?buf 0 = opcode" by (simp add: get_past)
  have "nfs_tftp_parse ?buf = Some p"
    unfolding nfs_tftp_parse_def Let_def op fn
    using wf md cut cut2 by (auto simp: tftp_ops tftp_bounds TftpRq)
  then show ?thesis by (simp add: TftpRq)
next
  case (TftpData block d)
  then show ?thesis
    using assms by (simp add: nfs_tftp_parse_def Let_def get_past tftp_ops tftp_bounds)
next
  case (TftpAck block)
  then show ?thesis by (simp add: nfs_tftp_parse_def Let_def get_past tftp_ops)
next
  case (TftpError code msg)
  then have wf: "length msg < 128" "0 \<notin> set msg" using assms(1) by auto
  let ?buf = "put16 5 @ put16 code @ msg @ 0 # rest"
  have nul: "find_nul ?buf 4 = Some (4 + length msg)"
    using find_nul_at [of msg "put16 5 @ put16 code" rest] wf(2) by simp
  have "take (length msg) (drop 4 ?buf) = msg" by (simp add: put16_def)
  then have "nfs_tftp_parse ?buf = Some p"
    unfolding nfs_tftp_parse_def Let_def nul
    using wf by (simp add: get_past tftp_ops tftp_bounds TftpError)
  then show ?thesis by (simp add: TftpError)
qed

lemma tftp_parse_Some:
  assumes "nfs_tftp_parse buf = Some p"
  shows "tftp_wf p \<and> (\<exists>rest. buf = tftp_bytes p @ rest \<and> (case p of TftpData _ _ \<Rightarrow> rest = [] | _ \<Rightarrow> True))"
proof -
  have len: "2 \<le> length buf" using assms by (auto simp: nfs_tftp_parse_def split: if_splits)
  let ?op = "get16 buf 0"
  consider (rq) "?op \<in> {1, 2}" | (data) "?op = 3" | (ack) "?op = 4" | (error) "?op = 5"
    using assms by (auto simp: nfs_tftp_parse_def Let_def tftp_ops split: if_splits)
  then show ?thesis
  proof cases
    case rq
    obtain i where i: "find_nul buf 2 = Some i" "i - 2 \<noteq> 0" "i - 2 < 256"
      using assms rq by (auto simp: nfs_tftp_parse_def Let_def tftp_ops tftp_bounds split: if_splits option.splits)
    obtain j where j: "find_nul buf (i + 1) = Some j" "j - i - 1 \<noteq> 0" "j - i - 1 < 16"
      "p = TftpRq ?op (take (i - 2) (drop 2 buf)) (take (j - i - 1) (drop (i + 1) buf))"
      using assms rq i len
      by (auto simp: nfs_tftp_parse_def Let_def tftp_ops tftp_bounds split: if_splits option.splits)
    note fi = find_nul_Some [OF i(1)] and fj = find_nul_Some [OF j(1)]
    have "buf = put16 ?op @ drop 2 buf" using len by (rule get16_bytes)
    also have "drop 2 buf = take (i - 2) (drop 2 buf) @ 0 # drop (i + 1) buf" using i(1) by (rule find_nul_split)
    also have "drop (i + 1) buf = take (j - (i + 1)) (drop (i + 1) buf) @ 0 # drop (j + 1) buf"
      using j(1) by (rule find_nul_split)
    finally have "buf = tftp_bytes p @ drop (j + 1) buf" by (simp add: j(4))
    moreover have "tftp_wf p" using fi fj i j rq by (auto simp: j(4))
    ultimately show ?thesis by (auto simp: j(4))
  next
    case data
    then have p: "4 \<le> length buf" "length buf - 4 \<le> 512" "p = TftpData (get16 buf 2) (drop 4 buf)"
      using assms by (auto simp: nfs_tftp_parse_def Let_def tftp_ops tftp_bounds split: if_splits)
    then show ?thesis using get16_bytes2 [OF p(1)] data by simp
  next
    case ack
    then have p: "4 \<le> length buf" "p = TftpAck (get16 buf 2)"
      using assms by (auto simp: nfs_tftp_parse_def Let_def tftp_ops split: if_splits)
    then show ?thesis using get16_bytes2 [OF p(1)] ack by auto
  next
    case error
    obtain i where i: "find_nul buf 4 = Some i" "i - 4 < 128" "p = TftpError (get16 buf 2) (take (i - 4) (drop 4 buf))"
      "5 \<le> length buf"
      using assms error by (auto simp: nfs_tftp_parse_def Let_def tftp_ops tftp_bounds split: if_splits option.splits)
    have "buf = put16 ?op @ put16 (get16 buf 2) @ drop 4 buf" using i(4) by (intro get16_bytes2) simp
    also have "drop 4 buf = take (i - 4) (drop 4 buf) @ 0 # drop (i + 1) buf" using i(1) by (rule find_nul_split)
    finally have "buf = tftp_bytes p @ drop (i + 1) buf" using error by (simp add: i(3))
    moreover have "tftp_wf p" using find_nul_Some [OF i(1)] i(2,3) by simp
    ultimately show ?thesis by (auto simp: i(3))
  qed
qed

text \<open>
  C31. The parser accepts exactly the datagrams that start with what a builder writes for legal fields,
  which fits 516 bytes, and returns those fields. A DATA packet is the whole datagram; behind a request,
  an ACK or an ERROR it lets any bytes follow and ignores them.
\<close>
theorem tftp_parse_exact:
  "nfs_tftp_parse buf = Some p \<longleftrightarrow>
     tftp_wf p \<and> (\<exists>packet. tftp_build 516 p = Some packet \<and>
       (case p of TftpData _ _ \<Rightarrow> buf = packet | _ \<Rightarrow> prefix packet buf))"
proof -
  have fits: "tftp_build 516 p = Some (tftp_bytes p)" if "tftp_wf p"
    using that tftp_build_bytes [OF that, of 516] by (cases p) auto
  show ?thesis
  proof
    assume "nfs_tftp_parse buf = Some p"
    then show "tftp_wf p \<and> (\<exists>packet. tftp_build 516 p = Some packet \<and>
       (case p of TftpData _ _ \<Rightarrow> buf = packet | _ \<Rightarrow> prefix packet buf))"
      using tftp_parse_Some fits by (fastforce split: nfs_tftp_packet.splits)
  next
    assume wf: "tftp_wf p \<and> (\<exists>packet. tftp_build 516 p = Some packet \<and>
       (case p of TftpData _ _ \<Rightarrow> buf = packet | _ \<Rightarrow> prefix packet buf))"
    then obtain rest where "buf = tftp_bytes p @ rest" "case p of TftpData _ _ \<Rightarrow> rest = [] | _ \<Rightarrow> True"
      using fits by (auto simp: prefix_def split: nfs_tftp_packet.splits)
    then show "nfs_tftp_parse buf = Some p" using tftp_parse_bytes wf by blast
  qed
qed

interpretation tftp: codec tftp_bytes nfs_tftp_parse tftp_wf
  by unfold_locales (use tftp_parse_bytes [where rest = "[]"] in \<open>auto split: nfs_tftp_packet.splits\<close>)

end
