(* ===== verification/Ndp.thy ===== *)
theory Ndp
  imports Interfaces
begin

text \<open>
  Neighbor discovery (\<^verbatim>\<open>phases/03-network-layer/14-ndp-neighbor-discovery/ndp.c\<close>): the messages 133 to 136
  with their link-layer address option, and the walk over the options of a message. A packed
  struct is a record; fields that the code leaves in network order are read as a little-endian
  host does. An option's data is the list of the \<^verbatim>\<open>data_len\<close> bytes its pointer shows.
\<close>

section \<open>Definitions\<close>

definition NFS_NDP_RS :: u8 where "NFS_NDP_RS = 133"
definition NFS_NDP_RA :: u8 where "NFS_NDP_RA = 134"
definition NFS_NDP_NS :: u8 where "NFS_NDP_NS = 135"
definition NFS_NDP_NA :: u8 where "NFS_NDP_NA = 136"
definition NFS_NDP_REDIRECT :: u8 where "NFS_NDP_REDIRECT = 137"
definition NFS_NDP_OPT_SRC_LLA :: u8 where "NFS_NDP_OPT_SRC_LLA = 1"
definition NFS_NDP_OPT_TGT_LLA :: u8 where "NFS_NDP_OPT_TGT_LLA = 2"

lemmas ndp_types = NFS_NDP_RS_def NFS_NDP_RA_def NFS_NDP_NS_def NFS_NDP_NA_def NFS_NDP_REDIRECT_def
  NFS_NDP_OPT_SRC_LLA_def NFS_NDP_OPT_TGT_LLA_def

record nfs_ndp_ns =
  ns_type :: u8
  ns_code :: u8
  ns_checksum :: u16
  ns_reserved :: u32
  ns_target :: "u8 list"

record nfs_ndp_na =
  na_type :: u8
  na_code :: u8
  na_checksum :: u16
  na_flags :: u32
  na_target :: "u8 list"

record nfs_ndp_rs =
  rs_type :: u8
  rs_code :: u8
  rs_checksum :: u16
  rs_reserved :: u32

record nfs_ndp_ra =
  ra_type :: u8
  ra_code :: u8
  ra_checksum :: u16
  ra_cur_hop_limit :: u8
  ra_flags :: u8
  ra_router_lifetime :: u16
  ra_reachable_time :: u32
  ra_retrans_timer :: u32

record nfs_ndp_parsed_option =
  po_type :: u8
  po_total_len :: u8
  po_data :: "u8 list"
  po_data_len :: u16

text \<open>A 32-bit field that is copied out of a packet and not converted.\<close>

definition read_mem32 :: "u8 list \<Rightarrow> nat \<Rightarrow> u32" where
  "read_mem32 bs i = be32 (bs ! (i + 3)) (bs ! (i + 2)) (bs ! (i + 1)) (bs ! i)"

definition build_lla_option :: "u8 \<Rightarrow> u8 list \<Rightarrow> nat \<Rightarrow> u8 list option" where
  "build_lla_option opt_type m out_sz = (if out_sz < 8 then None else Some ([opt_type, 1] @ m))"

text \<open>The tail the four builders share: the size test, and the option after the fixed part.\<close>

definition build_with_lla :: "u8 list \<Rightarrow> u8 \<Rightarrow> u8 list option \<Rightarrow> nat \<Rightarrow> u8 list option" where
  "build_with_lla fixed opt_type m out_sz =
     (let needed = length fixed + (if m \<noteq> None then 8 else 0) in
      if out_sz < needed then None
      else
        case m of
          None \<Rightarrow> Some fixed
        | Some a \<Rightarrow>
            (case build_lla_option opt_type a (out_sz - length fixed) of
               None \<Rightarrow> None
             | Some opt \<Rightarrow> Some (fixed @ opt)))"

definition nfs_ndp_build_ns :: "u8 list \<Rightarrow> u8 list option \<Rightarrow> nat \<Rightarrow> u8 list option" where
  "nfs_ndp_build_ns target src_mac out_sz =
     build_with_lla ([NFS_NDP_NS, 0] @ put16 0 @ put32 0 @ target) NFS_NDP_OPT_SRC_LLA src_mac out_sz"

definition nfs_ndp_build_na :: "u8 list \<Rightarrow> u32 \<Rightarrow> u8 list option \<Rightarrow> nat \<Rightarrow> u8 list option" where
  "nfs_ndp_build_na target flags tgt_mac out_sz =
     build_with_lla ([NFS_NDP_NA, 0] @ put16 0 @ put32 flags @ target) NFS_NDP_OPT_TGT_LLA tgt_mac out_sz"

definition nfs_ndp_build_rs :: "u8 list option \<Rightarrow> nat \<Rightarrow> u8 list option" where
  "nfs_ndp_build_rs src_mac out_sz =
     build_with_lla ([NFS_NDP_RS, 0] @ put16 0 @ put32 0) NFS_NDP_OPT_SRC_LLA src_mac out_sz"

definition nfs_ndp_build_ra ::
  "u8 \<Rightarrow> u8 \<Rightarrow> u16 \<Rightarrow> u32 \<Rightarrow> u32 \<Rightarrow> u8 list option \<Rightarrow> nat \<Rightarrow> u8 list option" where
  "nfs_ndp_build_ra cur_hop_limit flags router_lifetime reachable_time retrans_timer src_mac out_sz =
     build_with_lla ([NFS_NDP_RA, 0] @ put16 0 @ [cur_hop_limit, flags] @ put16 router_lifetime @
       put32 reachable_time @ put32 retrans_timer) NFS_NDP_OPT_SRC_LLA src_mac out_sz"

definition nfs_ndp_parse_type :: "u8 list \<Rightarrow> u8 option" where
  "nfs_ndp_parse_type data =
     (if length data < 4 then None
      else
        let t = data ! 0 in
        if t < NFS_NDP_RS \<or> t > NFS_NDP_REDIRECT then None
        else
          let min_len = (if t = NFS_NDP_RS then 8 else if t = NFS_NDP_RA then 16
                         else if t = NFS_NDP_NS then 24 else if t = NFS_NDP_NA then 24 else 40)
          in if length data < min_len then None
             else if data ! 1 \<noteq> 0 then None
             else Some t)"

definition nfs_ndp_parse_ns :: "u8 list \<Rightarrow> nfs_ndp_ns option" where
  "nfs_ndp_parse_ns data =
     (if length data < 24 then None
      else if data ! 0 \<noteq> NFS_NDP_NS \<or> data ! 1 \<noteq> 0 then None
      else Some \<lparr> ns_type = data ! 0, ns_code = data ! 1, ns_checksum = ntohs (read_mem16 data 2),
                  ns_reserved = read_mem32 data 4, ns_target = take 16 (drop 8 data) \<rparr>)"

definition nfs_ndp_parse_na :: "u8 list \<Rightarrow> nfs_ndp_na option" where
  "nfs_ndp_parse_na data =
     (if length data < 24 then None
      else if data ! 0 \<noteq> NFS_NDP_NA \<or> data ! 1 \<noteq> 0 then None
      else Some \<lparr> na_type = data ! 0, na_code = data ! 1, na_checksum = ntohs (read_mem16 data 2),
                  na_flags = get32 data 4, na_target = take 16 (drop 8 data) \<rparr>)"

definition nfs_ndp_parse_rs :: "u8 list \<Rightarrow> nfs_ndp_rs option" where
  "nfs_ndp_parse_rs data =
     (if length data < 8 then None
      else if data ! 0 \<noteq> NFS_NDP_RS \<or> data ! 1 \<noteq> 0 then None
      else Some \<lparr> rs_type = data ! 0, rs_code = data ! 1, rs_checksum = ntohs (read_mem16 data 2),
                  rs_reserved = read_mem32 data 4 \<rparr>)"

definition nfs_ndp_parse_ra :: "u8 list \<Rightarrow> nfs_ndp_ra option" where
  "nfs_ndp_parse_ra data =
     (if length data < 16 then None
      else if data ! 0 \<noteq> NFS_NDP_RA \<or> data ! 1 \<noteq> 0 then None
      else Some \<lparr> ra_type = data ! 0, ra_code = data ! 1, ra_checksum = ntohs (read_mem16 data 2),
                  ra_cur_hop_limit = data ! 4, ra_flags = data ! 5,
                  ra_router_lifetime = ntohs (read_mem16 data 6),
                  ra_reachable_time = get32 data 8, ra_retrans_timer = get32 data 12 \<rparr>)"

definition nfs_ndp_option_next :: "u8 list \<Rightarrow> nat \<Rightarrow> (nfs_ndp_parsed_option \<times> nat) option" where
  "nfs_ndp_option_next opt_data offset =
     (if offset + 2 > length opt_data then None
      else
        let t = opt_data ! offset; len = opt_data ! (offset + 1) in
        if len = 0 then None
        else
          let total = unat len * 8 in
          if offset + total > length opt_data then None
          else Some (\<lparr> po_type = t, po_total_len = of_nat total, po_data = take (total - 2) (drop (offset + 2) opt_data),
                       po_data_len = of_nat (total - 2) \<rparr>, offset + total))"

section \<open>The walk over the options\<close>

text \<open>A caller's loop: what the iterator returns until it returns -1, and the offset it stops at.\<close>

function ndp_options :: "u8 list \<Rightarrow> nat \<Rightarrow> nfs_ndp_parsed_option list \<times> nat" where
  "ndp_options opt_data offset =
     (case nfs_ndp_option_next opt_data offset of
        None \<Rightarrow> ([], offset)
      | Some (opt, offset') \<Rightarrow>
          if offset < offset' \<and> offset' \<le> length opt_data
          then (let (opts, stop) = ndp_options opt_data offset' in (opt # opts, stop))
          else ([], offset))"
  by pat_completeness auto
termination
  by (relation "measure (\<lambda>(opt_data, offset). length opt_data - offset)") auto

declare ndp_options.simps [simp del]

lemma option_next_moves:
  assumes "nfs_ndp_option_next opt_data offset = Some (opt, offset')"
  shows "offset < offset' \<and> offset' \<le> length opt_data"
    and "length (po_data opt) + 2 = offset' - offset" and "unat (po_data_len opt) = length (po_data opt)"
proof -
  define len where "len = opt_data ! (offset + 1)"
  have h: "len \<noteq> 0" "offset + unat len * 8 \<le> length opt_data" "offset' = offset + unat len * 8"
    "po_data opt = take (unat len * 8 - 2) (drop (offset + 2) opt_data)" "po_data_len opt = of_nat (unat len * 8 - 2)"
    using assms by (auto simp: nfs_ndp_option_next_def Let_def len_def split: if_splits)
  have u: "0 < unat len" "unat len < 256" using h(1) unat_u8_less [of len] by (simp_all add: unat_gt_0)
  show "offset < offset' \<and> offset' \<le> length opt_data" using h(2,3) u by simp
  have l: "length (po_data opt) = unat len * 8 - 2" using h(2) u by (simp add: h(4))
  then show "length (po_data opt) + 2 = offset' - offset" using h(3) u by simp
  show "unat (po_data_len opt) = length (po_data opt)" using u by (simp only: h(5) l) (rule unat_of_nat_u16, simp)
qed

text \<open>The test in the loop never fails: the iterator always moves on, within the options.\<close>

lemma ndp_options_step:
  "ndp_options opt_data offset =
     (case nfs_ndp_option_next opt_data offset of
        None \<Rightarrow> ([], offset)
      | Some (opt, offset') \<Rightarrow> (let (opts, stop) = ndp_options opt_data offset' in (opt # opts, stop)))"
  by (subst ndp_options.simps) (auto split: option.split dest: option_next_moves(1))

definition ndp_opt_ok :: "u8 \<times> u8 list \<Rightarrow> bool" where
  "ndp_opt_ok o' \<longleftrightarrow> (length (snd o') + 2) mod 8 = 0 \<and> length (snd o') + 2 < 2048"

definition ndp_opt_bytes :: "u8 \<times> u8 list \<Rightarrow> u8 list" where
  "ndp_opt_bytes o' = [fst o', of_nat ((length (snd o') + 2) div 8)] @ snd o'"

definition ndp_opt_view :: "u8 \<times> u8 list \<Rightarrow> nfs_ndp_parsed_option" where
  "ndp_opt_view o' = \<lparr> po_type = fst o', po_total_len = of_nat (length (snd o') + 2), po_data = snd o',
     po_data_len = of_nat (length (snd o')) \<rparr>"

lemma option_next_bytes:
  assumes "ndp_opt_ok o'"
  shows "nfs_ndp_option_next (pre @ ndp_opt_bytes o' @ rest) (length pre) =
    Some (ndp_opt_view o', length pre + length (ndp_opt_bytes o'))"
proof -
  obtain t d where o': "o' = (t, d)" by (cases o')
  obtain k where k: "length d + 2 = 8 * k" using assms by (auto simp: ndp_opt_ok_def o')
  then have k': "0 < k" "k < 256" using assms by (auto simp: ndp_opt_ok_def o')
  then have u: "unat (of_nat k :: u8) = k" by (simp add: unat_of_nat_u8)
  then have "(of_nat k :: u8) \<noteq> 0" using k' by (metis less_irrefl unat_0)
  moreover have "length d = 8 * k - 2" using k by simp
  ultimately show ?thesis
    using k k' u by (simp add: nfs_ndp_option_next_def ndp_opt_bytes_def ndp_opt_view_def o' Let_def nth_append)
qed

interpretation ndp_opt: located_codec ndp_opt_bytes
  "\<lambda>bs i. map_option (\<lambda>(opt, j). (opt, j - i)) (nfs_ndp_option_next bs i)" ndp_opt_view ndp_opt_ok
  by unfold_locales (simp add: option_next_bytes)

text \<open>Options laid one after the other are all met, in order, and the walk ends after the last.\<close>

lemma ndp_options_concat:
  "list_all ndp_opt_ok os \<Longrightarrow>
     ndp_options (pre @ concat (map ndp_opt_bytes os)) (length pre) =
       (map ndp_opt_view os, length pre + length (concat (map ndp_opt_bytes os)))"
proof (induction os arbitrary: pre)
  case Nil
  have "nfs_ndp_option_next pre (length pre) = None" by (simp add: nfs_ndp_option_next_def)
  then show ?case by (simp add: ndp_options_step)
next
  case (Cons o' os)
  have "ndp_options ((pre @ ndp_opt_bytes o') @ concat (map ndp_opt_bytes os)) (length (pre @ ndp_opt_bytes o')) =
      (map ndp_opt_view os, length (pre @ ndp_opt_bytes o') + length (concat (map ndp_opt_bytes os)))"
    using Cons by (intro Cons.IH) simp
  then show ?case
    using Cons.prems by (subst ndp_options_step) (simp add: option_next_bytes)
qed

section \<open>Messages\<close>

text \<open>
  What a node sends, and what a receiver reads: it asks for the type, parses the message of that
  type and walks the options after its fixed part.
\<close>

datatype ndp_msg =
    NdpNs "u8 list" "u8 list option"
  | NdpNa "u8 list" u32 "u8 list option"
  | NdpRs "u8 list option"
  | NdpRa u8 u8 u16 u32 u32 "u8 list option"

fun ndp_build :: "nat \<Rightarrow> ndp_msg \<Rightarrow> u8 list option" where
  "ndp_build out_sz (NdpNs target m) = nfs_ndp_build_ns target m out_sz"
| "ndp_build out_sz (NdpNa target flags m) = nfs_ndp_build_na target flags m out_sz"
| "ndp_build out_sz (NdpRs m) = nfs_ndp_build_rs m out_sz"
| "ndp_build out_sz (NdpRa hops flags lifetime reachable retrans m) =
     nfs_ndp_build_ra hops flags lifetime reachable retrans m out_sz"

definition lla_of :: "u8 \<Rightarrow> u8 list \<Rightarrow> u8 list option" where
  "lla_of t opt_data = map_option po_data (List.find (\<lambda>opt. po_type opt = t) (fst (ndp_options opt_data 0)))"

definition ndp_read :: "u8 list \<Rightarrow> ndp_msg option" where
  "ndp_read data =
     (case nfs_ndp_parse_type data of
        None \<Rightarrow> None
      | Some t \<Rightarrow>
          if t = NFS_NDP_NS then
            map_option (\<lambda>ns. NdpNs (ns_target ns) (lla_of NFS_NDP_OPT_SRC_LLA (drop 24 data))) (nfs_ndp_parse_ns data)
          else if t = NFS_NDP_NA then
            map_option (\<lambda>na. NdpNa (na_target na) (na_flags na) (lla_of NFS_NDP_OPT_TGT_LLA (drop 24 data)))
              (nfs_ndp_parse_na data)
          else if t = NFS_NDP_RS then
            map_option (\<lambda>rs. NdpRs (lla_of NFS_NDP_OPT_SRC_LLA (drop 8 data))) (nfs_ndp_parse_rs data)
          else if t = NFS_NDP_RA then
            map_option (\<lambda>ra. NdpRa (ra_cur_hop_limit ra) (ra_flags ra) (ra_router_lifetime ra) (ra_reachable_time ra)
              (ra_retrans_timer ra) (lla_of NFS_NDP_OPT_SRC_LLA (drop 16 data))) (nfs_ndp_parse_ra data)
          else None)"

fun ndp_mac :: "ndp_msg \<Rightarrow> u8 list option" where
  "ndp_mac (NdpNs target m) = m"
| "ndp_mac (NdpNa target flags m) = m"
| "ndp_mac (NdpRs m) = m"
| "ndp_mac (NdpRa hops flags lifetime reachable retrans m) = m"

fun ndp_target_ok :: "ndp_msg \<Rightarrow> bool" where
  "ndp_target_ok (NdpNs target m) \<longleftrightarrow> length target = 16"
| "ndp_target_ok (NdpNa target flags m) \<longleftrightarrow> length target = 16"
| "ndp_target_ok _ \<longleftrightarrow> True"

definition ndp_wf :: "ndp_msg \<Rightarrow> bool" where
  "ndp_wf msg \<longleftrightarrow> ndp_target_ok msg \<and> (case ndp_mac msg of None \<Rightarrow> True | Some m \<Rightarrow> length m = 6)"

fun ndp_fixed :: "ndp_msg \<Rightarrow> u8 list" where
  "ndp_fixed (NdpNs target m) = [135, 0] @ put16 0 @ put32 0 @ target"
| "ndp_fixed (NdpNa target flags m) = [136, 0] @ put16 0 @ put32 flags @ target"
| "ndp_fixed (NdpRs m) = [133, 0] @ put16 0 @ put32 0"
| "ndp_fixed (NdpRa hops flags lifetime reachable retrans m) =
     [134, 0] @ put16 0 @ [hops, flags] @ put16 lifetime @ put32 reachable @ put32 retrans"

definition lla_bytes :: "u8 \<Rightarrow> u8 list option \<Rightarrow> u8 list" where
  "lla_bytes t m = (case m of None \<Rightarrow> [] | Some a \<Rightarrow> [t, 1] @ a)"

fun lla_type :: "ndp_msg \<Rightarrow> u8" where
  "lla_type (NdpNa target flags m) = 2"
| "lla_type _ = 1"

lemma build_with_lla_bytes:
  "(case m of None \<Rightarrow> True | Some a \<Rightarrow> length a = 6) \<Longrightarrow>
     build_with_lla fixed t m n =
       (if length (fixed @ lla_bytes t m) \<le> n then Some (fixed @ lla_bytes t m) else None)"
  by (auto simp: build_with_lla_def build_lla_option_def lla_bytes_def Let_def split: option.splits)

lemma ndp_build_bytes:
  assumes "ndp_wf msg"
  shows "ndp_build n msg =
    (let bs = ndp_fixed msg @ lla_bytes (lla_type msg) (ndp_mac msg) in if length bs \<le> n then Some bs else None)"
  using assms
  by (cases msg) (simp_all add: ndp_wf_def nfs_ndp_build_ns_def nfs_ndp_build_na_def nfs_ndp_build_rs_def
      nfs_ndp_build_ra_def build_with_lla_bytes ndp_types Let_def)

lemma lla_of_bytes:
  assumes "case m of None \<Rightarrow> True | Some a \<Rightarrow> length a = 6"
  shows "lla_of t (lla_bytes t m) = m"
proof (cases m)
  case None
  have "ndp_options [] 0 = ([], 0)" using ndp_options_concat [of "[]" "[]"] by simp
  then show ?thesis by (simp add: None lla_of_def lla_bytes_def)
next
  case (Some a)
  then have "length a = 6" using assms by simp
  then have "ndp_opt_ok (t, a)" "ndp_opt_bytes (t, a) = [t, 1] @ a" "po_data (ndp_opt_view (t, a)) = a"
    by (simp_all add: ndp_opt_ok_def ndp_opt_bytes_def ndp_opt_view_def)
  moreover have "po_type (ndp_opt_view (t, a)) = t" by (simp add: ndp_opt_view_def)
  ultimately show ?thesis
    using ndp_options_concat [of "[(t, a)]" "[]"] by (simp add: Some lla_of_def lla_bytes_def)
qed

text \<open>
  C32. What is built for a node that sends a solicitation or an advertisement is what a receiver reads: type,
  fields, and the link-layer address in the option, present exactly when it was given.
\<close>
theorem ndp_message_arrives:
  assumes "ndp_wf msg" and "ndp_build out_sz msg = Some data"
  shows "ndp_read data = Some msg"
proof -
  let ?lla = "lla_bytes (lla_type msg) (ndp_mac msg)"
  have data: "data = ndp_fixed msg @ ?lla"
    using assms(2) ndp_build_bytes [OF assms(1), of out_sz] by (simp add: Let_def split: if_splits)
  have lla: "lla_of (lla_type msg) ?lla = ndp_mac msg"
    using assms(1) by (intro lla_of_bytes) (simp add: ndp_wf_def)
  show ?thesis
  proof (cases msg)
    case (NdpNs target m)
    then have "length target = 16" using assms(1) by (simp add: ndp_wf_def)
    then show ?thesis
      using lla by (simp add: ndp_read_def data NdpNs nfs_ndp_parse_type_def nfs_ndp_parse_ns_def ndp_types Let_def)
  next
    case (NdpNa target flags m)
    then have "length target = 16" using assms(1) by (simp add: ndp_wf_def)
    then show ?thesis
      using lla by (simp add: ndp_read_def data NdpNa nfs_ndp_parse_type_def nfs_ndp_parse_na_def ndp_types Let_def get_past)
  next
    case (NdpRs m)
    then show ?thesis
      using lla by (simp add: ndp_read_def data NdpRs nfs_ndp_parse_type_def nfs_ndp_parse_rs_def ndp_types Let_def)
  next
    case (NdpRa hops flags lifetime reachable retrans m)
    then show ?thesis
      using lla by (simp add: ndp_read_def data NdpRa nfs_ndp_parse_type_def nfs_ndp_parse_ra_def ndp_types Let_def get_past nth_append)
  qed
qed

lemma ndp_message_arrives_witness:
  "\<exists>data. ndp_build 64 (NdpNa (replicate 16 1) 0x60000000 (Some [2, 0, 0, 0, 0, 1])) = Some data \<and>
     ndp_read data = Some (NdpNa (replicate 16 1) 0x60000000 (Some [2, 0, 0, 0, 0, 1]))"
proof -
  let ?msg = "NdpNa (replicate 16 1) 0x60000000 (Some [2, 0, 0, 0, 0, 1])"
  have wf: "ndp_wf ?msg" by (simp add: ndp_wf_def)
  then obtain data where "ndp_build 64 ?msg = Some data"
    using ndp_build_bytes [OF wf, of 64] by (simp add: Let_def lla_bytes_def)
  then show ?thesis using ndp_message_arrives [OF wf] by blast
qed

text \<open>An option of 256 bytes or more reports a total length that has wrapped.\<close>

lemma option_total_len_wraps:
  "nfs_ndp_option_next ([14, 32] @ replicate 254 0) 0 =
     Some (\<lparr> po_type = 14, po_total_len = 0, po_data = replicate 254 0, po_data_len = 254 \<rparr>, 256)"
  by (simp add: nfs_ndp_option_next_def Let_def)

end
