(* ===== verification/Tunnel.thy ===== *)
theory Tunnel
  imports Ipv4 Fragment
begin

text \<open>
  IP-in-IP and GRE tunnels (\<^verbatim>\<open>phases/03-network-layer/19-tunneling-ip-in-ip-gre/tunnel.c\<close>). Addresses
  are handed over in network order and stored as they are; a pointer into a packet with its length is
  the list of the bytes it shows. The outer header is shown to be one that the IPv4 lesson parses.
\<close>

section \<open>Definitions\<close>

definition NFS_IPPROTO_IPIP :: u8 where "NFS_IPPROTO_IPIP = 4"
definition NFS_GRE_FLAG_C :: u16 where "NFS_GRE_FLAG_C = 0x8000"
definition NFS_GRE_FLAG_K :: u16 where "NFS_GRE_FLAG_K = 0x2000"
definition NFS_GRE_FLAG_S :: u16 where "NFS_GRE_FLAG_S = 0x1000"

record nfs_gre_hdr =
  gre_flags :: u16
  gre_protocol :: u16
  gre_has_checksum :: bool
  gre_checksum :: u16
  gre_has_key :: bool
  gre_key :: u32
  gre_has_seq :: bool
  gre_seq :: u32
  gre_hdr_len :: nat

text \<open>The bytes a little-endian host keeps of a 32-bit integer, and \<^verbatim>\<open>ntohl\<close>.\<close>

definition mem32 :: "u32 \<Rightarrow> u8 list" where
  "mem32 x = [byte0 x, byte1 x, byte2 x, byte3 x]"

definition ntohl :: "u32 \<Rightarrow> u32" where
  "ntohl x = be32 (byte0 x) (byte1 x) (byte2 x) (byte3 x)"

text \<open>The two checksum functions have the loops of the fragmentation lesson; the first returns network order.\<close>

definition nfs_ip_checksum :: "u8 list \<Rightarrow> u16" where
  "nfs_ip_checksum data = ntohs (ucast (NOT (fold_carries (ip_sum data 0))))"

definition nfs_gre_checksum :: "u8 list \<Rightarrow> u16" where
  "nfs_gre_checksum data = ucast (NOT (fold_carries (ip_sum data 0)))"

definition nfs_ipip_encapsulate :: "u32 \<Rightarrow> u32 \<Rightarrow> u8 \<Rightarrow> u8 list \<Rightarrow> nat \<Rightarrow> u8 list option" where
  "nfs_ipip_encapsulate outer_src outer_dst ttl inner out_sz =
     (let total = 20 + length inner in
      if total > out_sz \<or> total > 65535 then None
      else
        let hdr = [0x45, 0] @ put16 (of_nat total) @ [0, 0] @ put16 0x4000 @ [ttl, NFS_IPPROTO_IPIP] @ [0, 0] @
                  mem32 outer_src @ mem32 outer_dst;
            csum = mem16 (nfs_ip_checksum hdr)
        in Some (hdr[10 := csum ! 0, 11 := csum ! 1] @ inner))"

definition nfs_ipip_decapsulate :: "u8 list \<Rightarrow> u8 list option" where
  "nfs_ipip_decapsulate pkt =
     (if length pkt < 20 then None
      else if drop_bit 4 (pkt ! 0) \<noteq> 4 then None
      else
        let ihl = unat (pkt ! 0 AND 0x0F) * 4 in
        if ihl < 20 \<or> ihl > length pkt then None
        else if pkt ! 9 \<noteq> NFS_IPPROTO_IPIP then None
        else
          let total = unat (ntohs (read_mem16 pkt 2)) in
          if total > length pkt \<or> total < ihl then None
          else Some (take (total - ihl) (drop ihl pkt)))"

definition nfs_gre_encapsulate :: "u16 \<Rightarrow> u16 \<Rightarrow> u32 \<Rightarrow> u32 \<Rightarrow> u8 list \<Rightarrow> nat \<Rightarrow> u8 list option" where
  "nfs_gre_encapsulate flags protocol key seq payload out_sz =
     (let gre_len = 4 + (if flags AND NFS_GRE_FLAG_C \<noteq> 0 then 4 else 0)
                      + (if flags AND NFS_GRE_FLAG_K \<noteq> 0 then 4 else 0)
                      + (if flags AND NFS_GRE_FLAG_S \<noteq> 0 then 4 else 0);
          total = gre_len + length payload
      in
      if total > out_sz then None
      else
        let flags_ver = flags AND (NFS_GRE_FLAG_C OR NFS_GRE_FLAG_K OR NFS_GRE_FLAG_S);
            out = put16 flags_ver @ put16 protocol;
            csum_offset = (if flags AND NFS_GRE_FLAG_C \<noteq> 0 then length out else 0);
            out = (if flags AND NFS_GRE_FLAG_C \<noteq> 0 then out @ [0, 0, 0, 0] else out);
            out = (if flags AND NFS_GRE_FLAG_K \<noteq> 0 then out @ put32 key else out);
            out = (if flags AND NFS_GRE_FLAG_S \<noteq> 0 then out @ put32 seq else out);
            out = out @ payload
        in Some (if flags AND NFS_GRE_FLAG_C \<noteq> 0 then set16 out csum_offset (nfs_gre_checksum out) else out))"

definition nfs_gre_parse :: "u8 list \<Rightarrow> nfs_gre_hdr option" where
  "nfs_gre_parse data =
     (if length data < 4 then None
      else
        let flags = get16 data 0 in
        if flags AND 0x0007 \<noteq> 0 then None
        else
          let hdr = \<lparr> gre_flags = flags, gre_protocol = get16 data 2, gre_has_checksum = False, gre_checksum = 0,
                      gre_has_key = False, gre_key = 0, gre_has_seq = False, gre_seq = 0, gre_hdr_len = 0 \<rparr>;
              pos = 4
          in
          if flags AND NFS_GRE_FLAG_C \<noteq> 0 \<and> pos + 4 > length data then None
          else
            let hdr = (if flags AND NFS_GRE_FLAG_C \<noteq> 0
                       then hdr\<lparr> gre_has_checksum := True, gre_checksum := get16 data pos \<rparr> else hdr);
                pos = (if flags AND NFS_GRE_FLAG_C \<noteq> 0 then pos + 4 else pos)
            in
            if flags AND NFS_GRE_FLAG_K \<noteq> 0 \<and> pos + 4 > length data then None
            else
              let hdr = (if flags AND NFS_GRE_FLAG_K \<noteq> 0
                         then hdr\<lparr> gre_has_key := True, gre_key := get32 data pos \<rparr> else hdr);
                  pos = (if flags AND NFS_GRE_FLAG_K \<noteq> 0 then pos + 4 else pos)
              in
              if flags AND NFS_GRE_FLAG_S \<noteq> 0 \<and> pos + 4 > length data then None
              else
                let hdr = (if flags AND NFS_GRE_FLAG_S \<noteq> 0
                           then hdr\<lparr> gre_has_seq := True, gre_seq := get32 data pos \<rparr> else hdr);
                    pos = (if flags AND NFS_GRE_FLAG_S \<noteq> 0 then pos + 4 else pos)
                in Some (hdr\<lparr> gre_hdr_len := pos \<rparr>))"

definition nfs_gre_payload :: "u8 list \<Rightarrow> u8 list option" where
  "nfs_gre_payload data =
     (case nfs_gre_parse data of
        None \<Rightarrow> None
      | Some hdr \<Rightarrow> if gre_hdr_len hdr > length data then None else Some (drop (gre_hdr_len hdr) data))"

section \<open>The checksums are the Internet checksum\<close>

lemma gre_checksum_eq: "nfs_gre_checksum data = internet_checksum data"
  by (simp add: nfs_gre_checksum_def ip_sum_partial internet_checksum_def internet_checksum_fold_def)

lemma ip_checksum_mem: "mem16 (nfs_ip_checksum data) = put16 (internet_checksum data)"
  by (simp add: nfs_ip_checksum_def gre_checksum_eq [unfolded nfs_gre_checksum_def])

lemma put32_ntohl: "put32 (ntohl x) = mem32 x"
  by (simp add: put32_def ntohl_def mem32_def)

interpretation gre_sum: checksum_field nfs_gre_checksum 131072
  unfolding gre_checksum_eq [abs_def] by unfold_locales (rule rfc1071.stored_verifies)

section \<open>IP in IP\<close>

text \<open>The header record of the IPv4 lesson for the outer header.\<close>

definition ipip_outer :: "u32 \<Rightarrow> u32 \<Rightarrow> u8 \<Rightarrow> nat \<Rightarrow> nfs_ipv4_hdr" where
  "ipip_outer src dst ttl tot =
     \<lparr> ip_version = 4, ip_ihl = 5, ip_dscp = 0, ip_ecn = 0, ip_total_length = of_nat tot, ip_identification = 0,
       ip_flags = 2, ip_frag_offset = 0, ip_ttl = ttl, ip_protocol = 4, ip_checksum = 0,
       ip_src_addr = ntohl src, ip_dst_addr = ntohl dst \<rparr>"

lemma ipip_image:
  "ipv4_image (ipip_outer src dst ttl tot) =
     [0x45, 0] @ put16 (of_nat tot) @ [0, 0] @ put16 0x4000 @ [ttl, NFS_IPPROTO_IPIP] @ [0, 0] @ mem32 src @ mem32 dst"
proof -
  have "(push_bit 4 4 OR (5 AND 0x0F) :: u8) = 0x45" "(push_bit 2 0 OR (0 AND 0x03) :: u8) = 0"
    "(push_bit 13 (ucast (2 :: u8)) OR (0 AND 0x1FFF) :: u16) = 0x4000" "put16 0 = [0, 0]"
    by (simp_all add: put16_def hi8_def lo8_def)
  then show ?thesis
    by (simp add: ipv4_image_def ipip_outer_def put32_ntohl NFS_IPPROTO_IPIP_def)
qed

lemma ipip_encapsulate_eq:
  "nfs_ipip_encapsulate src dst ttl inner out_sz =
     (let tot = 20 + length inner in
      if tot > out_sz \<or> tot > 65535 then None
      else map_option (\<lambda>hdr. hdr @ inner) (nfs_ipv4_build (ipip_outer src dst ttl tot) 20))"
proof -
  have "unat (ip_ihl (ipip_outer src dst ttl tot)) = 5" for tot by (simp add: ipip_outer_def)
  then show ?thesis
    by (simp add: nfs_ipip_encapsulate_def Let_def build_image ip_checksum_mem ipip_image set16_def put16_def [of "internet_checksum x" for x])
qed

lemma ipip_decapsulates:
  assumes "nfs_ipip_encapsulate src dst ttl inner out_sz = Some pkt"
  shows "nfs_ipip_decapsulate (pkt @ padding) = Some inner"
    and "nfs_ipv4_parse pkt = Inr ((ipip_outer src dst ttl (length pkt))\<lparr> ip_checksum := get16 pkt 10 \<rparr>)"
    and "length pkt = 20 + length inner"
proof -
  let ?h = "ipip_outer src dst ttl (20 + length inner)"
  obtain hdr where hdr: "nfs_ipv4_build ?h 20 = Some hdr" "pkt = hdr @ inner" "20 + length inner \<le> 65535"
    using assms by (auto simp: ipip_encapsulate_eq Let_def split: if_splits)
  have valid: "ipv4_hdr_valid ?h" by (simp add: ipv4_hdr_valid_def ipip_outer_def)
  have len: "length hdr = 20" using built_verifies(2) [OF hdr(1)] by (simp add: ipip_outer_def)
  then show l: "length pkt = 20 + length inner" by (simp add: hdr(2))
  have "get16 hdr 10 = get16 pkt 10" using len by (simp add: hdr(2) get16_def nth_append)
  then show "nfs_ipv4_parse pkt = Inr ((ipip_outer src dst ttl (length pkt))\<lparr> ip_checksum := get16 pkt 10 \<rparr>)"
    using ipv4_parse_build [OF valid hdr(1), of inner] by (simp only: hdr(2) l [unfolded hdr(2)])
  have img: "hdr = set16 (ipv4_image ?h) 10 (internet_checksum (ipv4_image ?h))"
    using hdr(1) by (auto simp: build_image split: if_splits)
  have n: "(pkt @ padding) ! j = ipv4_image ?h ! j" if "j < 20" "j \<noteq> 10" "j \<noteq> 11" for j
    using nth_built [OF img, of j "inner @ padding"] that len img by (simp add: hdr(2))
  have f: "(pkt @ padding) ! 0 = 0x45" "(pkt @ padding) ! 9 = 4"
    by (simp_all add: n ipip_image NFS_IPPROTO_IPIP_def) (simp_all add: put16_def)
  have t: "get16 (pkt @ padding) 2 = of_nat (20 + length inner)"
    using ipv4_image_fields(1) [of ?h] by (simp add: get16_def n ipip_outer_def)
  have u: "unat (of_nat (20 + length inner) :: u16) = 20 + length inner"
    using hdr(3) by (intro unat_of_nat_u16) simp
  show "nfs_ipip_decapsulate (pkt @ padding) = Some inner"
    unfolding nfs_ipip_decapsulate_def Let_def ntohs_read_mem16 t f u
    using l len by (simp add: NFS_IPPROTO_IPIP_def hdr(2))
qed

text \<open>Tunnels one in the other: each layer is the two end points and the time to live of its outer header.\<close>

fun ipip_wrap :: "(u32 \<times> u32 \<times> u8) list \<Rightarrow> u8 list \<Rightarrow> u8 list option" where
  "ipip_wrap [] pkt = Some pkt"
| "ipip_wrap ((src, dst, ttl) # layers) pkt =
     (case ipip_wrap layers pkt of None \<Rightarrow> None | Some inner \<Rightarrow> nfs_ipip_encapsulate src dst ttl inner 65535)"

fun ipip_unwrap :: "nat \<Rightarrow> u8 list \<Rightarrow> u8 list option" where
  "ipip_unwrap 0 pkt = Some pkt"
| "ipip_unwrap (Suc n) pkt = Option.bind (nfs_ipip_decapsulate pkt) (ipip_unwrap n)"

lemma ipip_unwrap_wrap: "ipip_wrap layers inner = Some pkt \<Longrightarrow> ipip_unwrap (length layers) pkt = Some inner"
proof (induction layers arbitrary: pkt)
  case (Cons layer layers)
  obtain src dst ttl where "layer = (src, dst, ttl)" by (cases layer)
  then obtain mid where "ipip_wrap layers inner = Some mid" "nfs_ipip_encapsulate src dst ttl mid 65535 = Some pkt"
    using Cons.prems by (auto split: option.splits)
  then show ?case using Cons.IH ipip_decapsulates(1) [where padding = "[]"] by auto
qed simp

lemma ipip_wrap_fits:
  "20 * length layers + length inner \<le> 65535 \<Longrightarrow>
     \<exists>pkt. ipip_wrap layers inner = Some pkt \<and> length pkt = 20 * length layers + length inner"
proof (induction layers)
  case (Cons layer layers)
  obtain src dst ttl where l: "layer = (src, dst, ttl)" by (cases layer)
  obtain mid where mid: "ipip_wrap layers inner = Some mid" "length mid = 20 * length layers + length inner"
    using Cons by auto
  then have "\<exists>pkt. nfs_ipip_encapsulate src dst ttl mid 65535 = Some pkt"
    using Cons.prems by (simp add: ipip_encapsulate_eq Let_def build_image ipip_outer_def)
  then obtain pkt where "nfs_ipip_encapsulate src dst ttl mid 65535 = Some pkt" ..
  then show ?case using ipip_decapsulates(3) mid l by auto
qed simp

section \<open>GRE\<close>

lemma gre_masks: "NFS_GRE_FLAG_C = push_bit 15 1" "NFS_GRE_FLAG_K = push_bit 13 1" "NFS_GRE_FLAG_S = push_bit 12 1"
  by (simp_all add: NFS_GRE_FLAG_C_def NFS_GRE_FLAG_K_def NFS_GRE_FLAG_S_def)

lemma gre_bits:
  "x AND NFS_GRE_FLAG_C \<noteq> 0 \<longleftrightarrow> bit x 15" "x AND NFS_GRE_FLAG_K \<noteq> 0 \<longleftrightarrow> bit x 13"
  "x AND NFS_GRE_FLAG_S \<noteq> 0 \<longleftrightarrow> bit x 12"
  using and_exp_eq_0_iff_not_bit [of x 15] and_exp_eq_0_iff_not_bit [of x 13] and_exp_eq_0_iff_not_bit [of x 12]
  by (simp_all add: NFS_GRE_FLAG_C_def NFS_GRE_FLAG_K_def NFS_GRE_FLAG_S_def)

abbreviation gre_all :: u16 where "gre_all \<equiv> NFS_GRE_FLAG_C OR NFS_GRE_FLAG_K OR NFS_GRE_FLAG_S"

lemma bit_gre_all: "bit gre_all n \<longleftrightarrow> n = 15 \<or> n = 13 \<or> n = 12"
proof -
  have "bit gre_all n \<longleftrightarrow> (15 \<le> n \<and> n < 16 \<and> n - 15 = 0) \<or> (13 \<le> n \<and> n < 16 \<and> n - 13 = 0) \<or> (12 \<le> n \<and> n < 16 \<and> n - 12 = 0)"
    unfolding gre_masks bit_or_iff bit_push_bit_iff bit_1_iff possible_bit_word by (simp add: conj_ac)
  then show ?thesis by auto
qed

lemma gre_version: "(x AND gre_all) AND 0x0007 = 0"
proof -
  have "(0x0007 :: u16) = mask 3" by (simp add: mask_eq_exp_minus_1)
  then show ?thesis by (intro bit_word_eqI) (auto simp: bit_and_iff bit_gre_all bit_mask_iff)
qed

lemma gre_kept:
  "(x AND gre_all) AND NFS_GRE_FLAG_C \<noteq> 0 \<longleftrightarrow> bit x 15" "(x AND gre_all) AND NFS_GRE_FLAG_K \<noteq> 0 \<longleftrightarrow> bit x 13"
  "(x AND gre_all) AND NFS_GRE_FLAG_S \<noteq> 0 \<longleftrightarrow> bit x 12"
  by (simp_all only: gre_bits bit_and_iff bit_gre_all) simp_all

text \<open>The bytes between the protocol and the payload, with what the checksum field holds.\<close>

definition gre_options :: "u16 \<Rightarrow> u16 \<Rightarrow> u32 \<Rightarrow> u32 \<Rightarrow> u8 list" where
  "gre_options flags csum key seq =
     (if bit flags 15 then put16 csum @ [0, 0] else []) @ (if bit flags 13 then put32 key else []) @
     (if bit flags 12 then put32 seq else [])"

definition gre_packet :: "u16 \<Rightarrow> u16 \<Rightarrow> u16 \<Rightarrow> u32 \<Rightarrow> u32 \<Rightarrow> u8 list \<Rightarrow> u8 list" where
  "gre_packet flags protocol csum key seq payload =
     put16 (flags AND gre_all) @ put16 protocol @ gre_options flags csum key seq @ payload"

lemma gre_encapsulate_eq:
  "nfs_gre_encapsulate flags protocol key seq payload out_sz =
     (if length (gre_packet flags protocol 0 key seq payload) > out_sz then None
      else Some (gre_packet flags protocol (internet_checksum (gre_packet flags protocol 0 key seq payload)) key seq payload))"
proof -
  have "set16 (gre_packet flags protocol 0 key seq payload) 4 c = gre_packet flags protocol c key seq payload"
    if "bit flags 15" for c
    using that by (simp add: gre_packet_def gre_options_def set16_def put16_def numeral_eq_Suc)
  moreover have "gre_packet flags protocol c key seq payload = gre_packet flags protocol 0 key seq payload"
    if "\<not> bit flags 15" for c
    using that by (simp add: gre_packet_def gre_options_def)
  moreover have "put16 0 = [0, 0]" by (simp add: put16_def hi8_def lo8_def)
  ultimately show ?thesis
    by (auto simp: nfs_gre_encapsulate_def Let_def gre_bits gre_checksum_eq gre_packet_def gre_options_def)
qed

lemma gre_parse_packet:
  "nfs_gre_parse (gre_packet flags protocol csum key seq payload) =
     Some \<lparr> gre_flags = flags AND gre_all, gre_protocol = protocol,
       gre_has_checksum = bit flags 15, gre_checksum = (if bit flags 15 then csum else 0),
       gre_has_key = bit flags 13, gre_key = (if bit flags 13 then key else 0),
       gre_has_seq = bit flags 12, gre_seq = (if bit flags 12 then seq else 0),
       gre_hdr_len = 4 + length (gre_options flags csum key seq) \<rparr>"
proof -
  have f: "get16 (gre_packet flags protocol csum key seq payload) 0 = flags AND gre_all"
    by (simp add: gre_packet_def get_past)
  show ?thesis
    unfolding nfs_gre_parse_def Let_def f gre_version gre_kept
    by (simp add: gre_packet_def gre_options_def get_past)
qed

lemma gre_packet_verifies:
  assumes "bit flags 15" and "length (gre_packet flags protocol 0 key seq payload) \<le> 131072"
  shows "internet_checksum (gre_packet flags protocol (internet_checksum (gre_packet flags protocol 0 key seq payload)) key seq payload) = 0"
proof -
  let ?p = "gre_packet flags protocol 0 key seq payload"
  have s: "set16 ?p 4 c = gre_packet flags protocol c key seq payload" for c
    using assms(1) by (simp add: gre_packet_def gre_options_def set16_def put16_def numeral_eq_Suc)
  have z: "get16 ?p 4 = 0" using assms(1) by (simp add: gre_packet_def gre_options_def get_past)
  have "5 < length ?p" using assms(1) by (simp add: gre_packet_def gre_options_def)
  then have "internet_checksum (set16 ?p 4 (internet_checksum ?p)) = 0"
    using assms(2) z by (intro rfc1071.refresh_verifies) simp_all
  then show ?thesis by (simp add: s)
qed

text \<open>
  C30. A packet in GRE inside IP-in-IP tunnels, one in the other: the layers come off in turn and leave the
  packet; every outer header is one the IPv4 lesson parses; the GRE header parses to the flags
  the code knows, the protocol, and key and sequence number exactly when their flags
  are set; and with the checksum flag the checksum over the whole GRE packet is 0.
\<close>
theorem tunnels_roundtrip:
  assumes "nfs_gre_encapsulate flags protocol key seq payload 65535 = Some gre"
    and "ipip_wrap ((src, dst, ttl) # layers) gre = Some pkt"
  shows "ipip_unwrap (Suc (length layers)) pkt = Some gre \<and> nfs_gre_payload gre = Some payload \<and>
    nfs_ipv4_parse pkt = Inr ((ipip_outer src dst ttl (length pkt))\<lparr> ip_checksum := get16 pkt 10 \<rparr>) \<and>
    map_option (\<lambda>h. (gre_protocol h, if gre_has_key h then Some (gre_key h) else None,
        if gre_has_seq h then Some (gre_seq h) else None, gre_has_checksum h)) (nfs_gre_parse gre) =
      Some (protocol, if bit flags 13 then Some key else None, if bit flags 12 then Some seq else None, bit flags 15) \<and>
    (if bit flags 15 then nfs_gre_checksum gre = 0 else True)"
proof -
  obtain mid where mid: "ipip_wrap layers gre = Some mid" "nfs_ipip_encapsulate src dst ttl mid 65535 = Some pkt"
    using assms(2) by (auto split: option.splits)
  define csum where "csum = internet_checksum (gre_packet flags protocol 0 key seq payload)"
  have gre: "gre = gre_packet flags protocol csum key seq payload"
    and fits: "length (gre_packet flags protocol 0 key seq payload) \<le> 65535"
    using assms(1) by (auto simp: gre_encapsulate_eq csum_def split: if_splits)
  have p: "nfs_gre_parse gre = Some \<lparr> gre_flags = flags AND gre_all, gre_protocol = protocol,
       gre_has_checksum = bit flags 15, gre_checksum = (if bit flags 15 then csum else 0),
       gre_has_key = bit flags 13, gre_key = (if bit flags 13 then key else 0),
       gre_has_seq = bit flags 12, gre_seq = (if bit flags 12 then seq else 0),
       gre_hdr_len = 4 + length (gre_options flags csum key seq) \<rparr>"
    unfolding gre by (rule gre_parse_packet)
  have "nfs_gre_payload gre = Some payload"
    by (simp add: nfs_gre_payload_def p) (simp add: gre gre_packet_def)
  moreover have "bit flags 15 \<Longrightarrow> nfs_gre_checksum gre = 0"
    using gre_packet_verifies [of flags protocol key seq payload] fits
    by (simp add: gre gre_checksum_eq csum_def)
  moreover have "ipip_unwrap (Suc (length layers)) pkt = Some gre"
    using ipip_unwrap_wrap [OF assms(2)] by simp
  ultimately show ?thesis
    using p ipip_decapsulates(2) [OF mid(2)] by simp
qed

lemma tunnels_roundtrip_witness:
  "\<exists>gre pkt. nfs_gre_encapsulate 0xA000 0x0800 7 0 [1, 2, 3] 65535 = Some gre \<and>
     ipip_wrap [(1, 2, 64), (3, 4, 32)] gre = Some pkt \<and> ipip_unwrap 2 pkt = Some gre \<and> nfs_gre_payload gre = Some [1, 2, 3]"
proof -
  obtain gre where gre: "nfs_gre_encapsulate 0xA000 0x0800 7 0 [1, 2, 3] 65535 = Some gre" "length gre \<le> 20"
    by (simp add: gre_encapsulate_eq) (simp add: gre_packet_def gre_options_def)
  then obtain pkt where "ipip_wrap [(1, 2, 64), (3, 4, 32)] gre = Some pkt"
    using ipip_wrap_fits [of "[(1, 2, 64), (3, 4, 32)]" gre] by auto
  then show ?thesis using tunnels_roundtrip [OF gre(1), of 1 2 64 "[(3, 4, 32)]"] gre(1) by (auto simp: numeral_2_eq_2)
qed

text \<open>Neither receiver looks at the checksum it was sent: a corrupted GRE packet is taken.\<close>

lemma gre_corruption_accepted:
  assumes "nfs_gre_encapsulate flags protocol key seq payload out_sz = Some gre" and "length payload' = length payload"
  shows "nfs_gre_payload (take (length gre - length payload) gre @ payload') = Some payload'"
proof -
  obtain csum where gre: "gre = gre_packet flags protocol csum key seq payload"
    using assms(1) by (auto simp: gre_encapsulate_eq split: if_splits)
  then have "take (length gre - length payload) gre @ payload' = gre_packet flags protocol csum key seq payload'"
    by (simp add: gre_packet_def)
  then show ?thesis by (simp add: nfs_gre_payload_def gre_parse_packet) (simp add: gre_packet_def)
qed

end
