(* ===== verification/Cookie.thy ===== *)
theory Cookie
  imports Tables
begin

text \<open>
  Cookies (\<^verbatim>\<open>phases/06-application-protocols/28-cookies-and-session-management/cookie.c\<close>): the
  \<^verbatim>\<open>Set-Cookie\<close> parser, the jar and the \<^verbatim>\<open>Cookie\<close> header. A C string is the list of its bytes before
  the NUL, a pointer into one the list of what is left, a jar the live prefix of its array.
  A number that does not fit 64 bits is read as \<^verbatim>\<open>strtoll\<close> reads it.
\<close>

section \<open>Definitions\<close>

definition NFS_COOKIE_MAX_NAME :: nat where "NFS_COOKIE_MAX_NAME = 128"
definition NFS_COOKIE_MAX_VALUE :: nat where "NFS_COOKIE_MAX_VALUE = 4096"
definition NFS_COOKIE_MAX_DOMAIN :: nat where "NFS_COOKIE_MAX_DOMAIN = 255"
definition NFS_COOKIE_MAX_PATH :: nat where "NFS_COOKIE_MAX_PATH = 512"
definition NFS_COOKIE_SAMESITE_NONE :: u8 where "NFS_COOKIE_SAMESITE_NONE = 0"
definition NFS_COOKIE_SAMESITE_LAX :: u8 where "NFS_COOKIE_SAMESITE_LAX = 1"
definition NFS_COOKIE_SAMESITE_STRICT :: u8 where "NFS_COOKIE_SAMESITE_STRICT = 2"
definition NFS_COOKIE_JAR_MAX :: nat where "NFS_COOKIE_JAR_MAX = 64"

lemmas cookie_sizes = NFS_COOKIE_MAX_NAME_def NFS_COOKIE_MAX_VALUE_def NFS_COOKIE_MAX_DOMAIN_def NFS_COOKIE_MAX_PATH_def
lemmas samesite_codes = NFS_COOKIE_SAMESITE_NONE_def NFS_COOKIE_SAMESITE_LAX_def NFS_COOKIE_SAMESITE_STRICT_def

record nfs_cookie =
  ck_name :: "u8 list"
  ck_value :: "u8 list"
  ck_domain :: "u8 list"
  ck_path :: "u8 list"
  ck_max_age :: int
  ck_secure :: bool
  ck_http_only :: bool
  ck_samesite :: u8

type_synonym nfs_cookie_jar = "nfs_cookie list"

text \<open>Bytes of the texts, and the attribute names.\<close>

abbreviation eq_sign :: u8 where "eq_sign \<equiv> 61"
abbreviation semicolon :: u8 where "semicolon \<equiv> 59"
abbreviation dot :: u8 where "dot \<equiv> 46"
abbreviation slash :: u8 where "slash \<equiv> 47"

definition text_Domain :: "u8 list" where "text_Domain = [68, 111, 109, 97, 105, 110]"
definition text_Path :: "u8 list" where "text_Path = [80, 97, 116, 104]"
definition text_Max_Age :: "u8 list" where "text_Max_Age = [77, 97, 120, 45, 65, 103, 101]"
definition text_Secure :: "u8 list" where "text_Secure = [83, 101, 99, 117, 114, 101]"
definition text_HttpOnly :: "u8 list" where "text_HttpOnly = [72, 116, 116, 112, 79, 110, 108, 121]"
definition text_SameSite :: "u8 list" where "text_SameSite = [83, 97, 109, 101, 83, 105, 116, 101]"
definition text_Strict :: "u8 list" where "text_Strict = [83, 116, 114, 105, 99, 116]"
definition text_Lax :: "u8 list" where "text_Lax = [76, 97, 120]"

lemmas attr_texts = text_Domain_def text_Path_def text_Max_Age_def text_Secure_def text_HttpOnly_def
  text_SameSite_def text_Strict_def text_Lax_def

definition is_ws :: "u8 \<Rightarrow> bool" where
  "is_ws c \<longleftrightarrow> c = 32 \<or> c = 9"

definition skip_ws :: "u8 list \<Rightarrow> u8 list" where
  "skip_ws s = dropWhile is_ws s"

definition tolower :: "u8 \<Rightarrow> u8" where
  "tolower c = (if 65 \<le> c \<and> c \<le> 90 then c + 32 else c)"

fun str_casecmp :: "u8 list \<Rightarrow> u8 list \<Rightarrow> int" where
  "str_casecmp (a # as) (b # bs) =
     (if tolower a \<noteq> tolower b then uint (tolower a) - uint (tolower b) else str_casecmp as bs)"
| "str_casecmp (a # as) [] = uint (tolower a)"
| "str_casecmp [] (b # bs) = - uint (tolower b)"
| "str_casecmp [] [] = 0"

text \<open>The byte a pointer shows: at the end of the string the NUL.\<close>

definition head_or_0 :: "u8 list \<Rightarrow> u8" where
  "head_or_0 s = (case s of [] \<Rightarrow> 0 | c # cs \<Rightarrow> c)"

fun str_ncasecmp :: "u8 list \<Rightarrow> u8 list \<Rightarrow> nat \<Rightarrow> int" where
  "str_ncasecmp a b 0 = 0"
| "str_ncasecmp a b (Suc n) =
     (let ca = tolower (head_or_0 a); cb = tolower (head_or_0 b) in
      if ca \<noteq> cb then uint ca - uint cb
      else if ca = 0 then 0
      else str_ncasecmp (tl a) (tl b) n)"

definition copy_field :: "nat \<Rightarrow> u8 list \<Rightarrow> u8 list" where
  "copy_field max_len src = take (if length src \<ge> max_len then max_len - 1 else length src) src"

text \<open>
  \<^verbatim>\<open>atoll\<close>: white space, a sign, digits. It is \<^verbatim>\<open>strtoll\<close> in base 10, which on overflow returns the nearest
  value of 64 bits.
\<close>

definition clamp64 :: "int \<Rightarrow> int" where
  "clamp64 v = (if v > 2 ^ 63 - 1 then 2 ^ 63 - 1 else if v < - (2 ^ 63) then - (2 ^ 63) else v)"

fun digits_value :: "u8 list \<Rightarrow> int \<Rightarrow> int" where
  "digits_value [] v = v"
| "digits_value (c # cs) v = (if 48 \<le> c \<and> c \<le> 57 then digits_value cs (v * 10 + (uint c - 48)) else v)"

definition atoll :: "u8 list \<Rightarrow> int" where
  "atoll s =
     clamp64 (case dropWhile (\<lambda>c. c = 32 \<or> 9 \<le> c \<and> c \<le> 13) s of
        [] \<Rightarrow> 0
      | c # cs \<Rightarrow> if c = 45 then - digits_value cs 0 else if c = 43 then digits_value cs 0 else digits_value (c # cs) 0)"

text \<open>The value of an attribute that starts at \<open>p\<close>, its \<open>=\<close> at \<open>i\<close>: blanks on both sides are dropped.\<close>

definition attr_value :: "u8 list \<Rightarrow> nat \<Rightarrow> nat \<Rightarrow> u8 list" where
  "attr_value p attr_len i =
     (let v = skip_ws (drop (i + 1) p);
          vlen = attr_len - (length p - length v)
      in rev (dropWhile is_ws (rev (take vlen v))))"

text \<open>The body of the loop on one attribute.\<close>

definition set_attr :: "nfs_cookie \<Rightarrow> u8 list \<Rightarrow> nat \<Rightarrow> nfs_cookie" where
  "set_attr out p attr_len =
     (let attr_eq = find_idx (\<lambda>c. c = eq_sign) (take attr_len p) in
      if str_ncasecmp p text_Domain 6 = 0 \<and> attr_eq \<noteq> None then
        out\<lparr> ck_domain := copy_field NFS_COOKIE_MAX_DOMAIN (attr_value p attr_len (the attr_eq)) \<rparr>
      else if str_ncasecmp p text_Path 4 = 0 \<and> attr_eq \<noteq> None then
        out\<lparr> ck_path := copy_field NFS_COOKIE_MAX_PATH (attr_value p attr_len (the attr_eq)) \<rparr>
      else if str_ncasecmp p text_Max_Age 7 = 0 \<and> attr_eq \<noteq> None then
        out\<lparr> ck_max_age := atoll (drop (the attr_eq + 1) p) \<rparr>
      else if str_ncasecmp p text_Secure 6 = 0 then out\<lparr> ck_secure := True \<rparr>
      else if str_ncasecmp p text_HttpOnly 8 = 0 then out\<lparr> ck_http_only := True \<rparr>
      else if str_ncasecmp p text_SameSite 8 = 0 \<and> attr_eq \<noteq> None then
        let v = skip_ws (drop (the attr_eq + 1) p) in
        (if str_ncasecmp v text_Strict 6 = 0 then out\<lparr> ck_samesite := NFS_COOKIE_SAMESITE_STRICT \<rparr>
         else if str_ncasecmp v text_Lax 3 = 0 then out\<lparr> ck_samesite := NFS_COOKIE_SAMESITE_LAX \<rparr>
         else out\<lparr> ck_samesite := NFS_COOKIE_SAMESITE_NONE \<rparr>)
      else out)"

function parse_attrs :: "u8 list \<Rightarrow> nfs_cookie \<Rightarrow> nfs_cookie" where
  "parse_attrs s out =
     (if s = [] then out
      else
        let p = skip_ws s in
        if p = [] then out
        else
          let attr_len = length (takeWhile (\<lambda>c. c \<noteq> semicolon) p);
              out = set_attr out p attr_len;
              p = drop attr_len p
          in parse_attrs (if p \<noteq> [] \<and> hd p = semicolon then tl p else p) out)"
  by pat_completeness auto
termination
proof (relation "measure (\<lambda>(s, out). length s)")
  fix s and out :: nfs_cookie and p attr_len out' p'
  assume s: "s \<noteq> []" "p = skip_ws s" "p \<noteq> []" "attr_len = length (takeWhile (\<lambda>c. c \<noteq> semicolon) p)"
    "p' = drop attr_len p"
  have "length p \<le> length s" by (simp add: s(2) skip_ws_def length_dropWhile_le)
  moreover have "length (if p' \<noteq> [] \<and> hd p' = semicolon then tl p' else p') < length p"
  proof (cases "attr_len = 0")
    case True
    then have "hd p = semicolon" using s(3,4) by (cases p) (auto split: if_splits)
    then show ?thesis using True s(3,5) by (cases p) auto
  next
    case False
    then show ?thesis using s(3,5) by (cases p) auto
  qed
  ultimately show "((if p' \<noteq> [] \<and> hd p' = semicolon then tl p' else p', out'), (s, out)) \<in> measure (\<lambda>(s, out). length s)"
    by simp
qed simp

declare parse_attrs.simps [simp del]

definition nfs_cookie_parse_set_cookie :: "u8 list \<Rightarrow> nfs_cookie option" where
  "nfs_cookie_parse_set_cookie header =
     (let out = \<lparr> ck_name = [], ck_value = [], ck_domain = [], ck_path = [], ck_max_age = - 1,
                  ck_secure = False, ck_http_only = False, ck_samesite = 0 \<rparr>;
          p = skip_ws header
      in
      case find_idx (\<lambda>c. c = eq_sign) p of
        None \<Rightarrow> None
      | Some eq \<Rightarrow>
          if eq = 0 then None
          else
            let out = out\<lparr> ck_name := copy_field NFS_COOKIE_MAX_NAME (take eq p) \<rparr>;
                p = drop (eq + 1) p
            in
            case find_idx (\<lambda>c. c = semicolon) p of
              None \<Rightarrow> Some (out\<lparr> ck_value := copy_field NFS_COOKIE_MAX_VALUE p \<rparr>)
            | Some semi \<Rightarrow>
                Some (parse_attrs (drop (semi + 1) p)
                  (out\<lparr> ck_value := copy_field NFS_COOKIE_MAX_VALUE (take semi p) \<rparr>)))"

definition domain_matches :: "u8 list \<Rightarrow> u8 list \<Rightarrow> bool" where
  "domain_matches cookie_domain request_domain =
     (if cookie_domain = [] then True
      else if str_casecmp cookie_domain request_domain = 0 then True
      else
        let clen = length cookie_domain; rlen = length request_domain in
        if clen > rlen then False
        else
          let suffix = drop (rlen - clen) request_domain in
          if str_casecmp suffix cookie_domain = 0 then
            (if rlen = clen then True
             else request_domain ! (rlen - clen - 1) = dot \<or> cookie_domain ! 0 = dot)
          else False)"

definition path_matches :: "u8 list \<Rightarrow> u8 list \<Rightarrow> bool" where
  "path_matches cookie_path request_path =
     (if cookie_path = [] then True
      else
        let clen = length cookie_path in
        if take clen request_path = cookie_path then
          length request_path = clen \<or> request_path ! clen = slash \<or> cookie_path ! (clen - 1) = slash
        else False)"

text \<open>The loop over the jar; \<open>out\<close> is what was written.\<close>

fun header_run :: "nfs_cookie list \<Rightarrow> u8 list \<Rightarrow> u8 list \<Rightarrow> nat \<Rightarrow> bool \<Rightarrow> u8 list \<Rightarrow> u8 list option" where
  "header_run [] domain path out_sz first out = Some out"
| "header_run (c # cs) domain path out_sz first out =
     (if \<not> domain_matches (ck_domain c) domain then header_run cs domain path out_sz first out
      else if \<not> path_matches (ck_path c) path then header_run cs domain path out_sz first out
      else if ck_max_age c = 0 then header_run cs domain path out_sz first out
      else
        let need = (if first then 0 else 2) + length (ck_name c) + 1 + length (ck_value c) in
        if length out + need \<ge> out_sz then None
        else header_run cs domain path out_sz False
               ((if first then out else out @ [semicolon, 32]) @ ck_name c @ [eq_sign] @ ck_value c))"

definition nfs_cookie_build_header :: "nfs_cookie_jar \<Rightarrow> u8 list \<Rightarrow> u8 list \<Rightarrow> nat \<Rightarrow> u8 list option" where
  "nfs_cookie_build_header jar domain path out_sz =
     (if out_sz = 0 then None else header_run jar domain path out_sz True [])"

definition nfs_cookie_jar_init :: nfs_cookie_jar where
  "nfs_cookie_jar_init = []"

definition nfs_cookie_jar_add :: "nfs_cookie_jar \<Rightarrow> nfs_cookie \<Rightarrow> nfs_cookie_jar option" where
  "nfs_cookie_jar_add jar cookie =
     (case find_idx (\<lambda>c. ck_name c = ck_name cookie \<and> str_casecmp (ck_domain c) (ck_domain cookie) = 0 \<and>
                         ck_path c = ck_path cookie) jar of
        Some i \<Rightarrow> Some (jar[i := cookie])
      | None \<Rightarrow> if length jar \<ge> NFS_COOKIE_JAR_MAX then None else Some (jar @ [cookie]))"

definition nfs_cookie_jar_lookup :: "nfs_cookie_jar \<Rightarrow> u8 list \<Rightarrow> u8 list \<Rightarrow> u8 list \<Rightarrow> nfs_cookie option" where
  "nfs_cookie_jar_lookup jar name domain path =
     List.find (\<lambda>c. ck_name c = name \<and> str_casecmp (ck_domain c) domain = 0 \<and> ck_path c = path) jar"

definition nfs_cookie_jar_expire :: "nfs_cookie_jar \<Rightarrow> nat \<times> nfs_cookie_jar" where
  "nfs_cookie_jar_expire jar =
     (let (jar', removed) = sweep (\<lambda>c. if ck_max_age c = 0 then Drop else Keep) 0 jar 0 in (removed, jar'))"

section \<open>The jar is a bounded map\<close>

text \<open>Cookies are told apart by name, path and domain, the domain without regard to case.\<close>

definition ckey :: "nfs_cookie \<Rightarrow> u8 list \<times> u8 list \<times> u8 list" where
  "ckey c = (ck_name c, map tolower (ck_domain c), ck_path c)"

definition nul_free :: "nfs_cookie \<Rightarrow> bool" where
  "nul_free c \<longleftrightarrow> 0 \<notin> set (ck_domain c)"

lemma tolower_0: "tolower c = 0 \<longleftrightarrow> c = 0"
proof -
  have "c + 32 \<noteq> 0" if "65 \<le> c" "c \<le> 90"
  proof
    assume "c + 32 = 0"
    then have "unat (c + 32) = 0" by simp
    moreover have "unat (c + 32) = (unat c + 32) mod 256" by (simp add: unat_word_ariths)
    moreover have "65 \<le> unat c" "unat c \<le> 90" using that by (simp_all add: word_le_nat_alt)
    ultimately show False by simp
  qed
  then show ?thesis by (auto simp: tolower_def)
qed

lemma str_casecmp_0:
  "0 \<notin> set a \<Longrightarrow> 0 \<notin> set b \<Longrightarrow> str_casecmp a b = 0 \<longleftrightarrow> map tolower a = map tolower b"
  by (induction a b rule: str_casecmp.induct) (auto simp: tolower_0 uint_0_iff simp flip: word_uint_eq_iff)

lemma find_idx_cong: "(\<And>x. x \<in> set xs \<Longrightarrow> P x = Q x) \<Longrightarrow> find_idx P xs = find_idx Q xs"
  by (induction xs) auto

lemma jar_add_upsert:
  "list_all nul_free jar \<Longrightarrow> nul_free c \<Longrightarrow> nfs_cookie_jar_add jar c = upsert ckey 64 (ckey c) (\<lambda>_. c) c jar"
  unfolding nfs_cookie_jar_add_def upsert_def NFS_COOKIE_JAR_MAX_def
  by (subst find_idx_cong [where Q = "\<lambda>e. ckey e = ckey c"])
    (auto simp: ckey_def nul_free_def str_casecmp_0 list_all_iff)

lemma jar_lookup_key:
  "list_all nul_free jar \<Longrightarrow> 0 \<notin> set domain \<Longrightarrow>
     nfs_cookie_jar_lookup jar name domain path = find_key ckey (name, map tolower domain, path) jar"
  unfolding nfs_cookie_jar_lookup_def find_key_def find_conv_find_idx
  by (subst find_idx_cong [where Q = "\<lambda>e. ckey e = (name, map tolower domain, path)"])
    (auto simp: ckey_def nul_free_def str_casecmp_0 list_all_iff)

datatype jar_event = CkAdd nfs_cookie | CkExpire

fun jar_step :: "nfs_cookie_jar \<Rightarrow> jar_event \<Rightarrow> nfs_cookie_jar" where
  "jar_step jar (CkAdd c) = (case nfs_cookie_jar_add jar c of None \<Rightarrow> jar | Some jar' \<Rightarrow> jar')"
| "jar_step jar CkExpire = snd (nfs_cookie_jar_expire jar)"

fun jar_ok :: "nfs_cookie_jar \<Rightarrow> jar_event \<Rightarrow> bool" where
  "jar_ok jar (CkAdd c) = nul_free c"
| "jar_ok jar CkExpire = True"

text \<open>What a jar is for: a map from keys to cookies, of at most 64 keys.\<close>

type_synonym cookie_map = "u8 list \<times> u8 list \<times> u8 list \<Rightarrow> nfs_cookie option"

definition jar_map :: "nfs_cookie_jar \<Rightarrow> cookie_map" where
  "jar_map jar k = find_key ckey k jar"

fun map_step :: "cookie_map \<Rightarrow> jar_event \<Rightarrow> cookie_map" where
  "map_step m (CkAdd c) = (if m (ckey c) \<noteq> None \<or> card (dom m) < 64 then m(ckey c \<mapsto> c) else m)"
| "map_step m CkExpire = (\<lambda>k. case m k of None \<Rightarrow> None | Some c \<Rightarrow> if ck_max_age c = 0 then None else Some c)"

definition jar_inv :: "nfs_cookie_jar \<Rightarrow> bool" where
  "jar_inv jar \<longleftrightarrow> distinct (map ckey jar) \<and> length jar \<le> 64 \<and> list_all nul_free jar"

lemma card_jar: "jar_inv jar \<Longrightarrow> card (dom (jar_map jar)) = length jar"
proof -
  assume inv: "jar_inv jar"
  have "dom (jar_map jar) = ckey ` set jar"
    by (simp add: jar_map_def dom_def find_key_None_iff set_eq_iff image_iff) metis
  then show ?thesis using inv distinct_card [of "map ckey jar"] by (simp add: jar_inv_def)
qed

lemma jar_add_Some:
  assumes "jar_inv jar" and "nul_free c" and "nfs_cookie_jar_add jar c = Some jar'"
  shows "jar_inv jar'" and "jar_map jar' = (jar_map jar)(ckey c \<mapsto> c)" and "c \<in> set jar'"
proof -
  have inv: "distinct (map ckey jar)" "length jar \<le> 64" "list_all nul_free jar"
    using assms(1) by (simp_all add: jar_inv_def)
  have up: "upsert ckey 64 (ckey c) (\<lambda>_. c) c jar = Some jar'"
    using assms(2,3) inv(3) by (simp add: jar_add_upsert)
  note u = upsert_Some [OF inv(1) up]
  show m: "jar_map jar' = (jar_map jar)(ckey c \<mapsto> c)"
    using u(2) by (auto simp: fun_eq_iff jar_map_def split: option.splits)
  then have "jar_map jar' (ckey c) = Some c" by simp
  then have "find_key ckey (ckey c) jar' = Some c" by (simp add: jar_map_def)
  then show "c \<in> set jar'" using find_key_SomeD by fastforce
  have "set jar' \<subseteq> insert c (set jar)"
    using up set_update_subset_insert by (fastforce simp: upsert_def split: option.splits if_splits)
  then show "jar_inv jar'" using u(1,4) inv assms(2) by (auto simp: jar_inv_def list_all_iff)
qed

lemma jar_add_None:
  assumes "jar_inv jar" and "nul_free c"
  shows "nfs_cookie_jar_add jar c = None \<longleftrightarrow> jar_map jar (ckey c) = None \<and> length jar = 64"
  using assms by (auto simp: jar_inv_def jar_add_upsert upsert_None_iff jar_map_def)

interpretation jar: simulation jar_step jar_ok jar_inv jar_map map_step
proof
  fix jar e
  assume inv: "jar_inv jar" and ok: "jar_ok jar e"
  have "jar_inv (jar_step jar e) \<and> jar_map (jar_step jar e) = map_step (jar_map jar) e"
  proof (cases e)
    case (CkAdd c)
    then have c: "nul_free c" using ok by simp
    show ?thesis
    proof (cases "nfs_cookie_jar_add jar c")
      case None
      then show ?thesis using CkAdd inv jar_add_None [OF inv c] card_jar [OF inv] by simp
    next
      case (Some jar')
      then have "jar_map jar (ckey c) \<noteq> None \<or> length jar < 64"
        using jar_add_None [OF inv c] inv by (auto simp: jar_inv_def)
      then show ?thesis
        using Some CkAdd jar_add_Some [OF inv c Some] card_jar [OF inv] by simp
    qed
  next
    case CkExpire
    let ?f = "\<lambda>c. if ck_max_age c = 0 then Drop else Keep"
    have d: "distinct (map ckey jar)" using inv by (simp add: jar_inv_def)
    have k: "?f c = Change c' \<Longrightarrow> ckey c' = ckey c" for c c' by (simp split: if_splits)
    have step: "jar_step jar e = fst (sweep ?f 0 jar 0)"
      by (simp add: CkExpire nfs_cookie_jar_expire_def split: prod.split)
    note sw = sweep_keys [OF d, where f = ?f and n = 0, OF k]
    have "jar_inv (jar_step jar e)"
      using sw(1,2) inv sweep_drop_subset [of "\<lambda>c. ck_max_age c = 0" jar 0]
      unfolding step by (auto simp: jar_inv_def list_all_iff)
    moreover have "jar_map (jar_step jar e) k = map_step (jar_map jar) e k" for k
      using sw(3) [of k] unfolding step by (auto simp: CkExpire jar_map_def split: option.split)
    ultimately show ?thesis by auto
  qed
  then show "jar_inv (jar_step jar e)" "jar_map (jar_step jar e) = map_step (jar_map jar) e" by simp_all
qed

section \<open>The header\<close>

definition sendable :: "u8 list \<Rightarrow> u8 list \<Rightarrow> nfs_cookie \<Rightarrow> bool" where
  "sendable domain path c \<longleftrightarrow> domain_matches (ck_domain c) domain \<and> path_matches (ck_path c) path \<and> ck_max_age c \<noteq> 0"

definition pair_text :: "nfs_cookie \<Rightarrow> u8 list" where
  "pair_text c = ck_name c @ [eq_sign] @ ck_value c"

fun header_text :: "nfs_cookie list \<Rightarrow> u8 list" where
  "header_text [] = []"
| "header_text (c # cs) = pair_text c @ concat (map (\<lambda>c. [semicolon, 32] @ pair_text c) cs)"

lemma header_run_later:
  "header_run jar domain path n False out =
     (let t = out @ concat (map (\<lambda>c. [semicolon, 32] @ pair_text c) (filter (sendable domain path) jar))
      in if length t < n \<or> filter (sendable domain path) jar = [] then Some t else None)"
proof (induction jar arbitrary: out)
  case (Cons c jar)
  show ?case
  proof (cases "sendable domain path c")
    case True
    let ?out = "out @ [semicolon, 32] @ pair_text c"
    have "header_run (c # jar) domain path n False out =
        (if length ?out \<ge> n then None else header_run jar domain path n False ?out)"
      using True by (simp add: sendable_def pair_text_def Let_def)
    then show ?thesis using True Cons.IH [of ?out] by (auto simp: Let_def)
  next
    case False
    then have "header_run (c # jar) domain path n False out = header_run jar domain path n False out"
      by (auto simp: sendable_def)
    with False Cons.IH show ?thesis by simp
  qed
qed simp

lemma header_run_first:
  "0 < n \<Longrightarrow> header_run jar domain path n True [] =
     (let t = header_text (filter (sendable domain path) jar) in if length t < n then Some t else None)"
proof (induction jar)
  case (Cons c jar)
  show ?case
  proof (cases "sendable domain path c")
    case True
    have "header_run (c # jar) domain path n True [] =
        (if length (pair_text c) \<ge> n then None else header_run jar domain path n False (pair_text c))"
      using True by (simp add: sendable_def pair_text_def Let_def)
    then show ?thesis using True by (auto simp: Let_def header_run_later)
  next
    case False
    then have "header_run (c # jar) domain path n True [] = header_run jar domain path n True []"
      by (auto simp: sendable_def)
    with False Cons show ?thesis by simp
  qed
qed simp

lemma build_header_eq:
  "nfs_cookie_build_header jar domain path n =
     (let t = header_text (filter (sendable domain path) jar) in if length t < n then Some t else None)"
  by (cases "n = 0") (simp_all add: nfs_cookie_build_header_def header_run_first Let_def)

section \<open>The Set-Cookie line\<close>

text \<open>The attributes a server can send, their text, and what each does to the cookie.\<close>

datatype cookie_attr =
    ADomain "u8 list" | APath "u8 list" | AMaxAge int | ASecure | AHttpOnly | AStrict | ALax

function decimal :: "nat \<Rightarrow> u8 list" where
  "decimal n = (if n < 10 then [of_nat (48 + n)] else decimal (n div 10) @ [of_nat (48 + n mod 10)])"
  by pat_completeness auto
termination by (relation "measure id") auto

declare decimal.simps [simp del]

fun attr_text :: "cookie_attr \<Rightarrow> u8 list" where
  "attr_text (ADomain d) = text_Domain @ [eq_sign] @ d"
| "attr_text (APath p) = text_Path @ [eq_sign] @ p"
| "attr_text (AMaxAge n) = text_Max_Age @ [eq_sign] @ (if n < 0 then 45 # decimal (nat (- n)) else decimal (nat n))"
| "attr_text ASecure = text_Secure"
| "attr_text AHttpOnly = text_HttpOnly"
| "attr_text AStrict = text_SameSite @ [eq_sign] @ text_Strict"
| "attr_text ALax = text_SameSite @ [eq_sign] @ text_Lax"

fun attr_apply :: "cookie_attr \<Rightarrow> nfs_cookie \<Rightarrow> nfs_cookie" where
  "attr_apply (ADomain d) c = c\<lparr> ck_domain := d \<rparr>"
| "attr_apply (APath p) c = c\<lparr> ck_path := p \<rparr>"
| "attr_apply (AMaxAge n) c = c\<lparr> ck_max_age := n \<rparr>"
| "attr_apply ASecure c = c\<lparr> ck_secure := True \<rparr>"
| "attr_apply AHttpOnly c = c\<lparr> ck_http_only := True \<rparr>"
| "attr_apply AStrict c = c\<lparr> ck_samesite := 2 \<rparr>"
| "attr_apply ALax c = c\<lparr> ck_samesite := 1 \<rparr>"

definition plain_text :: "u8 list \<Rightarrow> bool" where
  "plain_text t \<longleftrightarrow> semicolon \<notin> set t \<and> 0 \<notin> set t \<and> (t \<noteq> [] \<longrightarrow> \<not> is_ws (hd t) \<and> \<not> is_ws (last t))"

fun attr_wf :: "cookie_attr \<Rightarrow> bool" where
  "attr_wf (ADomain d) \<longleftrightarrow> plain_text d \<and> length d < 255"
| "attr_wf (APath p) \<longleftrightarrow> plain_text p \<and> length p < 512"
| "attr_wf (AMaxAge n) \<longleftrightarrow> - (2 ^ 63) \<le> n \<and> n < 2 ^ 63"
| "attr_wf _ \<longleftrightarrow> True"

definition set_cookie_text :: "u8 list \<Rightarrow> u8 list \<Rightarrow> cookie_attr list \<Rightarrow> u8 list" where
  "set_cookie_text name val attrs = name @ [eq_sign] @ val @ concat (map (\<lambda>a. [semicolon, 32] @ attr_text a) attrs)"

abbreviation fresh_cookie :: "u8 list \<Rightarrow> u8 list \<Rightarrow> nfs_cookie" where
  "fresh_cookie name val \<equiv> \<lparr> ck_name = name, ck_value = val, ck_domain = [], ck_path = [], ck_max_age = - 1,
     ck_secure = False, ck_http_only = False, ck_samesite = 0 \<rparr>"

text \<open>What may follow an attribute: nothing, or the next one.\<close>

definition stops :: "u8 list \<Rightarrow> bool" where
  "stops t \<longleftrightarrow> t = [] \<or> hd t = semicolon"

lemma stops_cases: "stops t \<Longrightarrow> (t = [] \<Longrightarrow> P) \<Longrightarrow> (\<And>r. t = semicolon # r \<Longrightarrow> P) \<Longrightarrow> P"
  by (cases t) (auto simp: stops_def)

lemma digit_value: "d < 10 \<Longrightarrow> 48 \<le> (of_nat (48 + d) :: u8) \<and> (of_nat (48 + d) :: u8) \<le> 57 \<and> uint (of_nat (48 + d) :: u8) = 48 + int d"
proof -
  assume d: "d < 10"
  then have u: "unat (of_nat (48 + d) :: u8) = 48 + d" by (intro unat_of_nat_u8) simp
  then have "uint (of_nat (48 + d) :: u8) = 48 + int d" by (simp add: uint_nat del: of_nat_add)
  then show ?thesis using u d by (simp add: word_le_nat_alt del: of_nat_add)
qed

lemma digits_value_decimal:
  "digits_value (decimal n @ t) v = digits_value t (v * 10 ^ length (decimal n) + int n)"
proof (induction n arbitrary: v t rule: decimal.induct)
  case (1 n)
  show ?case
  proof (cases "n < 10")
    case True
    then show ?thesis using digit_value [OF True] by (subst (1 2) decimal.simps) (simp del: of_nat_add)
  next
    case False
    let ?d = "of_nat (48 + n mod 10) :: u8"
    have d: "48 \<le> ?d \<and> ?d \<le> 57 \<and> uint ?d = 48 + int (n mod 10)" by (rule digit_value) simp
    have dec: "decimal n = decimal (n div 10) @ [?d]" using False by (subst decimal.simps) simp
    have "digits_value (decimal n @ t) v = digits_value (?d # t) (v * 10 ^ length (decimal (n div 10)) + int (n div 10))"
      using 1 [OF False] by (simp add: dec)
    also have "\<dots> = digits_value t ((v * 10 ^ length (decimal (n div 10)) + int (n div 10)) * 10 + int (n mod 10))"
      using d by (simp del: of_nat_add)
    also have "(v * 10 ^ length (decimal (n div 10)) + int (n div 10)) * 10 + int (n mod 10) = v * 10 ^ length (decimal n) + int n"
      by (simp add: dec algebra_simps) presburger
    finally show ?thesis .
  qed
qed

lemma decimal_head: "\<exists>d r. decimal n = d # r \<and> 48 \<le> d \<and> d \<le> 57"
proof (induction n rule: decimal.induct)
  case (1 n)
  then show ?case using digit_value [of n] by (subst decimal.simps) (auto simp del: of_nat_add)
qed

lemma atoll_text:
  assumes "stops t" and "- (2 ^ 63) \<le> n" and "n < 2 ^ 63"
  shows "atoll ((if n < 0 then 45 # decimal (nat (- n)) else decimal (nat n)) @ t) = n"
proof -
  have stop: "digits_value t v = v" for v using assms(1) by (cases rule: stops_cases) auto
  have range: "clamp64 n = n" using assms(2,3) by (simp add: clamp64_def)
  have d: "digits_value (decimal m @ t) 0 = int m" for m by (simp add: digits_value_decimal stop)
  show ?thesis
  proof (cases "n < 0")
    case True
    then show ?thesis using d [of "nat (- n)"] range by (simp add: atoll_def)
  next
    case False
    obtain x r where x: "decimal (nat n) = x # r" "48 \<le> x" "x \<le> 57" using decimal_head by blast
    then have nws: "\<not> (x = 32 \<or> 9 \<le> x \<and> x \<le> 13)" "x \<noteq> 45" "x \<noteq> 43" by (auto simp: word_le_nat_alt word_unat_eq_iff)
    have "digits_value (x # r @ t) 0 = n" using d [of "nat n"] False x(1) by simp
    moreover have "dropWhile (\<lambda>c. c = 32 \<or> 9 \<le> c \<and> c \<le> 13) (x # r @ t) = x # r @ t"
      unfolding dropWhile.simps using nws(1) by (rule if_not_P)
    ultimately show ?thesis using False nws(2,3) range by (simp add: x(1) atoll_def del: digits_value.simps dropWhile.simps)
  qed
qed

lemma decimal_plain: "c \<in> set (decimal n) \<Longrightarrow> c \<noteq> semicolon \<and> c \<noteq> 0"
proof (induction n rule: decimal.induct)
  case (1 n)
  have "(of_nat (48 + d) :: u8) \<noteq> semicolon \<and> (of_nat (48 + d) :: u8) \<noteq> 0" if "d < 10" for d
    using digit_value [OF that] by (auto simp: word_le_nat_alt word_unat_eq_iff simp del: of_nat_add)
  moreover have "decimal n = (if n < 10 then [of_nat (48 + n)] else decimal (n div 10) @ [of_nat (48 + n mod 10)])"
    by (subst decimal.simps) simp
  ultimately show ?case using 1 by (auto split: if_splits simp del: of_nat_add)
qed

lemma attr_value_plain:
  assumes "plain_text v" and "stops t" and "length pre = i + 1"
  shows "attr_value (pre @ v @ t) (i + 1 + length v) i = v"
proof -
  have t: "skip_ws t = t" using assms(2) by (cases rule: stops_cases) (auto simp: skip_ws_def is_ws_def)
  have v: "skip_ws (v @ t) = v @ t"
    using assms(1) t by (cases v) (auto simp: plain_text_def skip_ws_def)
  have "rev (dropWhile is_ws (rev v)) = v"
    using assms(1) by (cases v rule: rev_cases) (auto simp: plain_text_def)
  then show ?thesis using assms(3) by (simp add: attr_value_def v Let_def)
qed

lemma copy_field_short: "length s < n \<Longrightarrow> copy_field n s = s"
  by (simp add: copy_field_def)

lemma ncase_same: "length xs = n \<Longrightarrow> str_ncasecmp (xs @ r) xs n = 0"
  by (induction xs arbitrary: n) (auto simp: head_or_0_def Let_def)

lemma ncase_differ: "tolower a \<noteq> tolower b \<Longrightarrow> str_ncasecmp (a # r) (b # s) (Suc n) \<noteq> 0"
  by (simp add: head_or_0_def word_uint_eq_iff)

lemma ncase_differ2:
  "a \<noteq> 0 \<Longrightarrow> tolower b \<noteq> tolower c \<Longrightarrow> str_ncasecmp (a # b # r) (a # c # s) (Suc (Suc n)) \<noteq> 0"
  using tolower_0 [of a] by (simp add: head_or_0_def) (simp add: word_uint_eq_iff)

text \<open>Which name an attribute starts with.\<close>

lemma attr_names:
  "str_ncasecmp (text_Domain @ r) text_Domain 6 = 0" "str_ncasecmp (text_Path @ r) text_Path 4 = 0"
  "str_ncasecmp (text_Max_Age @ r) text_Max_Age 7 = 0" "str_ncasecmp (text_Secure @ r) text_Secure 6 = 0"
  "str_ncasecmp (text_HttpOnly @ r) text_HttpOnly 8 = 0" "str_ncasecmp (text_SameSite @ r) text_SameSite 8 = 0"
  "str_ncasecmp (text_Strict @ r) text_Strict 6 = 0" "str_ncasecmp (text_Lax @ r) text_Lax 3 = 0"
  by (rule ncase_same, simp add: attr_texts)+

lemma attr_not_names:
  "str_ncasecmp (text_Path @ r) text_Domain 6 \<noteq> 0" "str_ncasecmp (text_Max_Age @ r) text_Domain 6 \<noteq> 0"
  "str_ncasecmp (text_Max_Age @ r) text_Path 4 \<noteq> 0" "str_ncasecmp (text_Secure @ r) text_Domain 6 \<noteq> 0"
  "str_ncasecmp (text_Secure @ r) text_Path 4 \<noteq> 0" "str_ncasecmp (text_Secure @ r) text_Max_Age 7 \<noteq> 0"
  "str_ncasecmp (text_HttpOnly @ r) text_Domain 6 \<noteq> 0" "str_ncasecmp (text_HttpOnly @ r) text_Path 4 \<noteq> 0"
  "str_ncasecmp (text_HttpOnly @ r) text_Max_Age 7 \<noteq> 0" "str_ncasecmp (text_HttpOnly @ r) text_Secure 6 \<noteq> 0"
  "str_ncasecmp (text_SameSite @ r) text_Domain 6 \<noteq> 0" "str_ncasecmp (text_SameSite @ r) text_Path 4 \<noteq> 0"
  "str_ncasecmp (text_SameSite @ r) text_Max_Age 7 \<noteq> 0" "str_ncasecmp (text_SameSite @ r) text_HttpOnly 8 \<noteq> 0"
  "str_ncasecmp (text_Lax @ r) text_Strict 6 \<noteq> 0"
  unfolding attr_texts append_Cons numeral_eq_Suc pred_numeral_simps
  by (rule ncase_differ, simp add: tolower_def)+

lemma secure_not_samesite: "str_ncasecmp (text_SameSite @ r) text_Secure 6 \<noteq> 0"
  unfolding attr_texts append_Cons numeral_eq_Suc pred_numeral_simps
  by (rule ncase_differ2) (simp_all add: tolower_def)

lemmas attr_selects = attr_names attr_not_names secure_not_samesite

lemma attr_eq_at:
  assumes "eq_sign \<notin> set k"
  shows "find_idx (\<lambda>c. c = eq_sign) (take (length k + 1 + length d) (k @ eq_sign # d @ t)) = Some (length k)"
proof -
  have "take (length k + 1 + length d) (k @ eq_sign # d @ t) = k @ eq_sign # d" by simp
  moreover have "find_idx (\<lambda>c. c = eq_sign) (k @ eq_sign # d) = Some (length k)" using assms by (induction k) auto
  ultimately show ?thesis by simp
qed

lemma attr_no_eq: "eq_sign \<notin> set k \<Longrightarrow> find_idx (\<lambda>c. c = eq_sign) (take (length k) (k @ t)) = None"
  by (auto simp: find_idx_None_iff)

lemma set_attr_text:
  assumes "attr_wf a" and "stops t"
  shows "set_attr out (attr_text a @ t) (length (attr_text a)) = attr_apply a out"
proof -
  have plain: "eq_sign \<notin> set text_Domain" "eq_sign \<notin> set text_Path" "eq_sign \<notin> set text_Max_Age"
    "eq_sign \<notin> set text_Secure" "eq_sign \<notin> set text_HttpOnly" "eq_sign \<notin> set text_SameSite"
    by (simp_all add: attr_texts)
  have samesite: "skip_ws (v @ t) = v @ t" if "v \<noteq> []" "\<not> is_ws (hd v)" for v
    using that by (cases v) (simp_all add: skip_ws_def)
  show ?thesis
  proof (cases a)
    case (ADomain d)
    have "attr_value ((text_Domain @ [eq_sign]) @ d @ t) (length text_Domain + 1 + length d) (length text_Domain) = d"
      using assms ADomain by (intro attr_value_plain) auto
    moreover have "copy_field NFS_COOKIE_MAX_DOMAIN d = d"
      using assms(1) ADomain by (simp add: copy_field_short cookie_sizes)
    ultimately show ?thesis
      using attr_eq_at [OF plain(1), of d t] by (simp add: ADomain set_attr_def Let_def attr_selects)
  next
    case (APath d)
    have "attr_value ((text_Path @ [eq_sign]) @ d @ t) (length text_Path + 1 + length d) (length text_Path) = d"
      using assms APath by (intro attr_value_plain) auto
    moreover have "copy_field NFS_COOKIE_MAX_PATH d = d"
      using assms(1) APath by (simp add: copy_field_short cookie_sizes)
    ultimately show ?thesis
      using attr_eq_at [OF plain(2), of d t] by (simp add: APath set_attr_def Let_def attr_selects)
  next
    case (AMaxAge n)
    then show ?thesis
      using atoll_text [OF assms(2), of n] assms(1)
        attr_eq_at [OF plain(3), of "if n < 0 then 45 # decimal (nat (- n)) else decimal (nat n)" t]
      by (simp add: set_attr_def Let_def attr_selects)
  next
    case ASecure
    then show ?thesis using attr_no_eq [OF plain(4), of t] by (simp add: set_attr_def Let_def attr_selects)
  next
    case AHttpOnly
    then show ?thesis using attr_no_eq [OF plain(5), of t] by (simp add: set_attr_def Let_def attr_selects)
  next
    case AStrict
    have "skip_ws (text_Strict @ t) = text_Strict @ t" by (rule samesite) (simp_all add: attr_texts is_ws_def)
    then show ?thesis
      using AStrict attr_eq_at [OF plain(6), of text_Strict t]
      by (simp add: set_attr_def Let_def attr_selects samesite_codes)
  next
    case ALax
    have "skip_ws (text_Lax @ t) = text_Lax @ t" by (rule samesite) (simp_all add: attr_texts is_ws_def)
    then show ?thesis
      using ALax attr_eq_at [OF plain(6), of text_Lax t]
      by (simp add: set_attr_def Let_def attr_selects samesite_codes)
  qed
qed

lemma attr_text_plain:
  assumes "attr_wf a"
  shows "semicolon \<notin> set (attr_text a)" and "attr_text a \<noteq> []" and "\<not> is_ws (hd (attr_text a))"
  using assms decimal_plain by (cases a; auto simp: attr_texts plain_text_def is_ws_def split: if_splits)+

lemma parse_attrs_step:
  assumes "attr_wf a" and "stops t"
  shows "parse_attrs (32 # attr_text a @ t) out = parse_attrs (tl t) (attr_apply a out)"
proof -
  note plain = attr_text_plain [OF assms(1)]
  have ws: "skip_ws (32 # attr_text a @ t) = attr_text a @ t"
    using plain(2,3) by (cases "attr_text a") (simp_all add: skip_ws_def is_ws_def)
  have "takeWhile (\<lambda>c. c \<noteq> semicolon) (attr_text a @ t) = attr_text a @ takeWhile (\<lambda>c. c \<noteq> semicolon) t"
    using plain(1) by (intro takeWhile_append2) auto
  moreover have "takeWhile (\<lambda>c. c \<noteq> semicolon) t = []" by (rule stops_cases [OF assms(2)]) simp_all
  ultimately have len: "length (takeWhile (\<lambda>c. c \<noteq> semicolon) (attr_text a @ t)) = length (attr_text a)" by simp
  have "t \<noteq> [] \<Longrightarrow> hd t = semicolon" using assms(2) by (simp add: stops_def)
  moreover have "parse_attrs (32 # attr_text a @ t) out =
      parse_attrs (if t \<noteq> [] \<and> hd t = semicolon then tl t else t) (attr_apply a out)"
    using plain(2) set_attr_text [OF assms] by (subst parse_attrs.simps) (simp add: ws len Let_def)
  ultimately show ?thesis by (cases "t = []") simp_all
qed

lemma parse_attrs_texts:
  "list_all attr_wf attrs \<Longrightarrow>
     parse_attrs (tl (concat (map (\<lambda>a. [semicolon, 32] @ attr_text a) attrs))) out = fold attr_apply attrs out"
proof (induction attrs arbitrary: out)
  case Nil
  show ?case by (simp add: parse_attrs.simps)
next
  case (Cons a attrs)
  have "stops (concat (map (\<lambda>a. [semicolon, 32] @ attr_text a) attrs))"
    by (cases attrs) (simp_all add: stops_def)
  with Cons show ?case by (simp add: parse_attrs_step)
qed

lemma parse_set_cookie_text:
  assumes "name \<noteq> []" and "eq_sign \<notin> set name" and "\<not> is_ws (hd name)" and "length name < 128"
    and "semicolon \<notin> set val" and "length val < 4096" and "list_all attr_wf attrs"
  shows "nfs_cookie_parse_set_cookie (set_cookie_text name val attrs) = Some (fold attr_apply attrs (fresh_cookie name val))"
proof -
  let ?t = "concat (map (\<lambda>a. [semicolon, 32] @ attr_text a) attrs)"
  have ws: "skip_ws (set_cookie_text name val attrs) = name @ eq_sign # val @ ?t"
    using assms(1,3) by (cases name) (simp_all add: set_cookie_text_def skip_ws_def)
  have eq: "find_idx (\<lambda>c. c = eq_sign) (name @ eq_sign # val @ ?t) = Some (length name)"
    using assms(2) by (induction name) auto
  show ?thesis
  proof (cases attrs)
    case Nil
    have "find_idx (\<lambda>c. c = semicolon) val = None" using assms(5) by (auto simp: find_idx_None_iff)
    then show ?thesis
      using assms eq ws by (simp add: nfs_cookie_parse_set_cookie_def Nil copy_field_short cookie_sizes)
  next
    case (Cons a as)
    then obtain r where r: "?t = semicolon # r" by simp
    have "find_idx (\<lambda>c. c = semicolon) (val @ ?t) = Some (length val)"
      unfolding r using assms(5) by (induction val) auto
    then show ?thesis
      using assms eq ws parse_attrs_texts [OF assms(7), of "fresh_cookie name val"]
      by (simp add: nfs_cookie_parse_set_cookie_def copy_field_short cookie_sizes r drop_Suc)
  qed
qed

section \<open>A session\<close>

text \<open>
  When a cookie is in force for a host and a path: the host ends, without regard to case, in its domain, at the start of a
  label; the path starts with its path, at the end of a segment; and it has not expired. A cookie without domain or
  path is not restricted by it.
\<close>

definition domain_in_scope :: "u8 list \<Rightarrow> u8 list \<Rightarrow> bool" where
  "domain_in_scope domain host \<longleftrightarrow> domain = [] \<or>
     (\<exists>front. map tolower host = front @ map tolower domain \<and> (front = [] \<or> last front = dot \<or> hd domain = dot))"

definition path_in_scope :: "u8 list \<Rightarrow> u8 list \<Rightarrow> bool" where
  "path_in_scope cpath path \<longleftrightarrow> cpath = [] \<or>
     (\<exists>rest. path = cpath @ rest \<and> (rest = [] \<or> hd rest = slash \<or> last cpath = slash))"

definition in_force :: "u8 list \<Rightarrow> u8 list \<Rightarrow> nfs_cookie \<Rightarrow> bool" where
  "in_force host path c \<longleftrightarrow> domain_in_scope (ck_domain c) host \<and> path_in_scope (ck_path c) path \<and> ck_max_age c \<noteq> 0"

lemma tolower_dot: "tolower c = dot \<longleftrightarrow> c = dot"
  by (auto simp: tolower_def simp flip: eq_diff_eq)

lemma domain_matches_scope:
  assumes "0 \<notin> set domain" and "0 \<notin> set host"
  shows "domain_matches domain host \<longleftrightarrow> domain_in_scope domain host"
proof (cases "domain = []")
  case False
  let ?k = "length host - length domain"
  have front: "(\<exists>front. map tolower host = front @ map tolower domain \<and> Q front) \<longleftrightarrow>
      length domain \<le> length host \<and> map tolower (drop ?k host) = map tolower domain \<and> Q (map tolower (take ?k host))" for Q
  proof
    assume "\<exists>front. map tolower host = front @ map tolower domain \<and> Q front"
    then obtain front where f: "map tolower host = front @ map tolower domain" "Q front" by blast
    have len: "length host = length front + length domain" using arg_cong [OF f(1), of length] by simp
    then have "map tolower (drop ?k host) = map tolower domain" "map tolower (take ?k host) = front"
      using arg_cong [OF f(1), of "drop ?k"] arg_cong [OF f(1), of "take ?k"] by (simp_all add: drop_map take_map)
    with f(2) len show "length domain \<le> length host \<and> map tolower (drop ?k host) = map tolower domain \<and> Q (map tolower (take ?k host))"
      by simp
  next
    assume a: "length domain \<le> length host \<and> map tolower (drop ?k host) = map tolower domain \<and> Q (map tolower (take ?k host))"
    then have "map tolower host = map tolower (take ?k host) @ map tolower domain"
      by (metis append_take_drop_id map_append)
    with a show "\<exists>front. map tolower host = front @ map tolower domain \<and> Q front" by blast
  qed
  have nul: "0 \<notin> set (drop ?k host)" using assms(2) set_drop_subset by fastforce
  have last: "last (map tolower (take ?k host)) = dot \<longleftrightarrow> host ! (?k - 1) = dot" if "0 < ?k"
  proof -
    have ne: "take ?k host \<noteq> []" using that by (cases host) auto
    have "length (take ?k host) = ?k" by simp
    then have "last (map tolower (take ?k host)) = tolower (take ?k host ! (?k - 1))"
      using last_conv_nth [OF ne] last_map [OF ne, of tolower] by (simp only:)
    also have "take ?k host ! (?k - 1) = host ! (?k - 1)" using that by (intro nth_take) simp
    finally show ?thesis by (simp add: tolower_dot)
  qed
  have same: "map tolower domain = map tolower host \<Longrightarrow> length domain = length host"
    by (drule arg_cong [where f = length]) simp
  have hd: "domain ! 0 = hd domain" using False by (simp add: hd_conv_nth)
  show ?thesis
    unfolding domain_matches_def domain_in_scope_def Let_def front str_casecmp_0 [OF assms] str_casecmp_0 [OF nul assms(1)] hd
    using False last same by (cases "length host = length domain") auto
qed (simp add: domain_matches_def domain_in_scope_def)

lemma path_matches_scope: "path_matches cpath path \<longleftrightarrow> path_in_scope cpath path"
proof (cases "cpath = []")
  case False
  let ?rest = "drop (length cpath) path"
  have rest: "(\<exists>rest. path = cpath @ rest \<and> Q rest) \<longleftrightarrow> take (length cpath) path = cpath \<and> Q ?rest" for Q
    by (metis append_eq_conv_conj append_take_drop_id)
  have slash: "hd ?rest = path ! length cpath" if "?rest \<noteq> []"
    using that by (simp add: hd_drop_conv_nth)
  have fin: "?rest = [] \<longleftrightarrow> length path = length cpath" if "take (length cpath) path = cpath"
  proof -
    have "length cpath \<le> length path" using arg_cong [OF that, of length] by simp
    then show ?thesis by auto
  qed
  have last: "last cpath = cpath ! (length cpath - 1)" using False by (rule last_conv_nth)
  show ?thesis
  proof (cases "take (length cpath) path = cpath")
    case True
    then show ?thesis
      unfolding path_matches_def path_in_scope_def Let_def rest last using False fin slash by (cases "?rest = []") simp_all
  next
    case no: False
    then show ?thesis unfolding path_matches_def path_in_scope_def Let_def rest using False by simp
  qed
qed (simp add: path_matches_def path_in_scope_def)

lemma sendable_in_force: "nul_free c \<Longrightarrow> 0 \<notin> set host \<Longrightarrow> sendable host path c \<longleftrightarrow> in_force host path c"
  by (simp add: sendable_def in_force_def domain_matches_scope path_matches_scope nul_free_def)

lemma attrs_keep_pair: "ck_name (fold attr_apply attrs c) = ck_name c \<and> ck_value (fold attr_apply attrs c) = ck_value c"
proof (induction attrs arbitrary: c)
  case (Cons a attrs)
  have "ck_name (attr_apply a c) = ck_name c" "ck_value (attr_apply a c) = ck_value c" by (cases a; simp)+
  with Cons show ?case by simp
qed simp

lemma attrs_nul_free: "list_all attr_wf attrs \<Longrightarrow> nul_free c \<Longrightarrow> nul_free (fold attr_apply attrs c)"
proof (induction attrs arbitrary: c)
  case (Cons a attrs)
  have "nul_free (attr_apply a c)" using Cons.prems by (cases a) (auto simp: nul_free_def plain_text_def)
  then show ?case using Cons by simp
qed simp

text \<open>
  C21. A server sends a cookie with any attributes, to a client whose jar has any history. The line is parsed to
  the cookie with these attributes, the later ones first; the jar takes it unless it is full, and then
  knows it under its name, path and domain, the other cookies as before; and
  the header for a request lists name and value of exactly the cookies in force for its host and path.
\<close>
theorem session_cookie_returned:
  assumes "guarded jar_step jar_ok nfs_cookie_jar_init es"
    and "name \<noteq> []" and "eq_sign \<notin> set name" and "\<not> is_ws (hd name)" and "length name < 128"
    and "semicolon \<notin> set val" and "length val < 4096" and "list_all attr_wf attrs" and "0 \<notin> set host"
  shows "let jar = foldl jar_step nfs_cookie_jar_init es; c = fold attr_apply attrs (fresh_cookie name val) in
    nfs_cookie_parse_set_cookie (set_cookie_text name val attrs) = Some c \<and>
    (case nfs_cookie_jar_add jar c of
       None \<Rightarrow> length jar = 64 \<and> nfs_cookie_jar_lookup jar name (ck_domain c) (ck_path c) = None
     | Some jar' \<Rightarrow>
         jar_map jar' = (jar_map jar)(ckey c \<mapsto> c) \<and> length jar' \<le> 64 \<and>
         nfs_cookie_jar_lookup jar' name (ck_domain c) (ck_path c) = Some c \<and>
         (let sent = filter (in_force host path) jar'; t = header_text sent in
            nfs_cookie_build_header jar' host path n = (if length t < n then Some t else None) \<and>
            (c \<in> set sent \<longleftrightarrow> in_force host path c)))"
proof -
  define jar where "jar = foldl jar_step nfs_cookie_jar_init es"
  define c where "c = fold attr_apply attrs (fresh_cookie name val)"
  have inv: "jar_inv jar"
    unfolding jar_def using assms(1) by (intro jar.run_inv) (simp_all add: jar_inv_def nfs_cookie_jar_init_def)
  have nf: "nul_free c" unfolding c_def using assms(8) by (rule attrs_nul_free) (simp add: nul_free_def)
  have name: "ck_name c = name" by (simp add: c_def attrs_keep_pair)
  have key: "(name, map tolower (ck_domain c), ck_path c) = ckey c" by (simp add: ckey_def name)
  have lookup: "nfs_cookie_jar_lookup j name (ck_domain c) (ck_path c) = jar_map j (ckey c)" if "jar_inv j" for j
    using that nf jar_lookup_key [of j "ck_domain c" name "ck_path c"] by (simp add: jar_inv_def nul_free_def jar_map_def key)
  have parsed: "nfs_cookie_parse_set_cookie (set_cookie_text name val attrs) = Some c"
    unfolding c_def using assms(2-8) by (rule parse_set_cookie_text)
  show ?thesis
  proof (cases "nfs_cookie_jar_add jar c")
    case None
    then show ?thesis
      unfolding jar_def [symmetric] c_def [symmetric] Let_def
      using parsed jar_add_None [OF inv nf] lookup [OF inv] by simp
  next
    case (Some jar')
    note added = jar_add_Some [OF inv nf Some]
    have "length jar' \<le> 64" "list_all nul_free jar'" using added(1) by (simp_all add: jar_inv_def)
    moreover have "filter (sendable host path) jar' = filter (in_force host path) jar'"
      using calculation(2) assms(9) by (intro filter_cong) (auto simp: list_all_iff sendable_in_force)
    ultimately show ?thesis
      unfolding jar_def [symmetric] c_def [symmetric] Let_def
      using Some parsed added lookup [OF added(1)] by (simp add: build_header_eq Let_def)
  qed
qed

lemma session_cookie_returned_witness:
  "\<exists>jar'. nfs_cookie_jar_add [] (fresh_cookie [97] [98]\<lparr> ck_path := [47], ck_max_age := 3600 \<rparr>) = Some jar' \<and>
     nfs_cookie_build_header jar' [104] [47, 120] 100 = Some [97, 61, 98]"
proof -
  let ?attrs = "[APath [47], AMaxAge 3600]" and ?c = "fresh_cookie [97] [98]\<lparr> ck_path := [47], ck_max_age := 3600 \<rparr>"
  have wf: "list_all attr_wf ?attrs" by (simp add: plain_text_def is_ws_def)
  have added: "nfs_cookie_jar_add [] ?c = Some [?c]" by (simp add: nfs_cookie_jar_add_def NFS_COOKIE_JAR_MAX_def)
  have sent: "in_force [104] [47, 120] ?c" by (simp add: in_force_def domain_in_scope_def path_in_scope_def)
  have "nfs_cookie_build_header [?c] [104] [47, 120] 100 = Some (header_text [?c])"
    using session_cookie_returned [of "[]" "[97]" "[98]" ?attrs "[104]" "[47, 120]" 100, OF _ _ _ _ _ _ _ wf] added sent
    by (simp add: nfs_cookie_jar_init_def is_ws_def Let_def pair_text_def)
  then show ?thesis using added by (simp add: pair_text_def)
qed

section \<open>What the parser takes for an attribute\<close>

text \<open>Attribute names are compared as prefixes: \<^verbatim>\<open>Securely\<close> sets the flag of \<^verbatim>\<open>Secure\<close>.\<close>

lemma attribute_prefix_taken: "set_attr out (text_Secure @ [108, 121] @ rest) 8 = out\<lparr> ck_secure := True \<rparr>"
  by (simp add: set_attr_def Let_def attr_selects)

text \<open>The \<^verbatim>\<open>=\<close> is looked for past the end of the first pair: a flag before it becomes part of the name.\<close>

lemma semicolon_in_name:
  "map_option ck_name (nfs_cookie_parse_set_cookie [97, 59, 32, 98, 61, 99]) = Some [97, 59, 32, 98]"
  by (simp add: nfs_cookie_parse_set_cookie_def skip_ws_def is_ws_def copy_field_def cookie_sizes)

end
