(* ===== verification/Wifi.thy ===== *)
theory Wifi
  imports Prelude "HOL-Library.Sublist"
begin

text \<open>
  The 802.11 header (\<^verbatim>\<open>phases/02-link-layer/16-80211-frame-types/wifi.c\<close>): the frame control field, the headers of
  control, management and data frames, and which address is which. A flag held in an \<^verbatim>\<open>int\<close> is a
  truth value; the array of an address the frame does not have is zero, as the parser leaves it.
\<close>

section \<open>Definitions\<close>

definition NFS_WIFI_TYPE_MGMT :: u8 where "NFS_WIFI_TYPE_MGMT = 0"
definition NFS_WIFI_TYPE_CTRL :: u8 where "NFS_WIFI_TYPE_CTRL = 1"
definition NFS_WIFI_TYPE_DATA :: u8 where "NFS_WIFI_TYPE_DATA = 2"
definition NFS_WIFI_CTRL_RTS :: u8 where "NFS_WIFI_CTRL_RTS = 11"
definition NFS_WIFI_CTRL_CTS :: u8 where "NFS_WIFI_CTRL_CTS = 12"
definition NFS_WIFI_CTRL_ACK :: u8 where "NFS_WIFI_CTRL_ACK = 13"

lemmas wifi_codes = NFS_WIFI_TYPE_MGMT_def NFS_WIFI_TYPE_CTRL_def NFS_WIFI_TYPE_DATA_def
  NFS_WIFI_CTRL_RTS_def NFS_WIFI_CTRL_CTS_def NFS_WIFI_CTRL_ACK_def

record nfs_wifi_fc =
  fc_version :: u8
  fc_type :: u8
  fc_subtype :: u8
  fc_to_ds :: bool
  fc_from_ds :: bool
  fc_more_frag :: bool
  fc_retry :: bool
  fc_power_mgmt :: bool
  fc_more_data :: bool
  fc_protected :: bool
  fc_htc_order :: bool

record nfs_wifi_hdr =
  wf_fc :: nfs_wifi_fc
  wf_duration :: u16
  wf_addr1 :: "u8 list"
  wf_addr2 :: "u8 list"
  wf_addr3 :: "u8 list"
  wf_seq_ctrl :: u16
  wf_addr4 :: "u8 list"
  wf_has_addr4 :: bool

definition flag_bit :: "bool \<Rightarrow> nat \<Rightarrow> u16" where
  "flag_bit b n = push_bit n (if b then 1 else 0)"

definition nfs_wifi_fc_pack :: "nfs_wifi_fc \<Rightarrow> u16" where
  "nfs_wifi_fc_pack fc =
     ucast (fc_version fc AND 0x03) OR
     push_bit 2 (ucast (fc_type fc AND 0x03)) OR
     push_bit 4 (ucast (fc_subtype fc AND 0x0F)) OR
     flag_bit (fc_to_ds fc) 8 OR flag_bit (fc_from_ds fc) 9 OR flag_bit (fc_more_frag fc) 10 OR
     flag_bit (fc_retry fc) 11 OR flag_bit (fc_power_mgmt fc) 12 OR flag_bit (fc_more_data fc) 13 OR
     flag_bit (fc_protected fc) 14 OR flag_bit (fc_htc_order fc) 15"

definition nfs_wifi_fc_unpack :: "u16 \<Rightarrow> nfs_wifi_fc" where
  "nfs_wifi_fc_unpack raw =
     \<lparr> fc_version = ucast (raw AND 0x03), fc_type = ucast (drop_bit 2 raw AND 0x03),
       fc_subtype = ucast (drop_bit 4 raw AND 0x0F),
       fc_to_ds = (drop_bit 8 raw AND 1 \<noteq> 0), fc_from_ds = (drop_bit 9 raw AND 1 \<noteq> 0),
       fc_more_frag = (drop_bit 10 raw AND 1 \<noteq> 0), fc_retry = (drop_bit 11 raw AND 1 \<noteq> 0),
       fc_power_mgmt = (drop_bit 12 raw AND 1 \<noteq> 0), fc_more_data = (drop_bit 13 raw AND 1 \<noteq> 0),
       fc_protected = (drop_bit 14 raw AND 1 \<noteq> 0), fc_htc_order = (drop_bit 15 raw AND 1 \<noteq> 0) \<rparr>"

definition nfs_wifi_hdr_size :: "nfs_wifi_fc \<Rightarrow> nat" where
  "nfs_wifi_hdr_size fc =
     (if fc_type fc = NFS_WIFI_TYPE_CTRL then
        (if fc_subtype fc = NFS_WIFI_CTRL_ACK \<or> fc_subtype fc = NFS_WIFI_CTRL_CTS then 10
         else if fc_subtype fc = NFS_WIFI_CTRL_RTS then 16
         else 16)
      else if fc_type fc = NFS_WIFI_TYPE_DATA \<and> fc_to_ds fc \<and> fc_from_ds fc then 30
      else 24)"

text \<open>A 16-bit field, low byte first.\<close>

definition le16 :: "u16 \<Rightarrow> u8 list" where
  "le16 x = [ucast (x AND 0xFF), ucast (drop_bit 8 x AND 0xFF)]"

definition get_le16 :: "u8 list \<Rightarrow> nat \<Rightarrow> u16" where
  "get_le16 data i = ucast (data ! i) OR push_bit 8 (ucast (data ! (i + 1)))"

definition nfs_wifi_hdr_build :: "nfs_wifi_hdr \<Rightarrow> nat \<Rightarrow> u8 list option" where
  "nfs_wifi_hdr_build hdr out_sz =
     (let size' = nfs_wifi_hdr_size (wf_fc hdr) in
      if out_sz < size' then None
      else
        let out = le16 (nfs_wifi_fc_pack (wf_fc hdr)) @ le16 (wf_duration hdr) @ wf_addr1 hdr in
        if size' \<le> 10 then Some out
        else
          let out = out @ wf_addr2 hdr in
          if size' \<le> 16 then Some out
          else
            let out = out @ wf_addr3 hdr @ le16 (wf_seq_ctrl hdr) in
            if size' \<le> 24 then Some out
            else Some (out @ wf_addr4 hdr))"

definition nfs_wifi_hdr_parse :: "u8 list \<Rightarrow> nfs_wifi_hdr option" where
  "nfs_wifi_hdr_parse data =
     (if length data < 10 then None
      else
        let fc = nfs_wifi_fc_unpack (get_le16 data 0);
            expected = nfs_wifi_hdr_size fc
        in
        if length data < expected then None
        else
          let hdr = \<lparr> wf_fc = fc, wf_duration = get_le16 data 2, wf_addr1 = take 6 (drop 4 data),
                      wf_addr2 = replicate 6 0, wf_addr3 = replicate 6 0, wf_seq_ctrl = 0,
                      wf_addr4 = replicate 6 0, wf_has_addr4 = False \<rparr>
          in
          if expected \<le> 10 then Some hdr
          else
            let hdr = hdr\<lparr> wf_addr2 := take 6 (drop 10 data) \<rparr> in
            if expected \<le> 16 then Some hdr
            else
              let hdr = hdr\<lparr> wf_addr3 := take 6 (drop 16 data), wf_seq_ctrl := get_le16 data 22 \<rparr> in
              if expected \<le> 24 then Some hdr
              else Some (hdr\<lparr> wf_addr4 := take 6 (drop 24 data), wf_has_addr4 := True \<rparr>))"

definition nfs_wifi_get_da :: "nfs_wifi_hdr \<Rightarrow> u8 list option" where
  "nfs_wifi_get_da hdr =
     (if \<not> fc_to_ds (wf_fc hdr) \<and> \<not> fc_from_ds (wf_fc hdr) then Some (wf_addr1 hdr)
      else if fc_to_ds (wf_fc hdr) \<and> \<not> fc_from_ds (wf_fc hdr) then Some (wf_addr3 hdr)
      else if \<not> fc_to_ds (wf_fc hdr) \<and> fc_from_ds (wf_fc hdr) then Some (wf_addr1 hdr)
      else Some (wf_addr3 hdr))"

definition nfs_wifi_get_sa :: "nfs_wifi_hdr \<Rightarrow> u8 list option" where
  "nfs_wifi_get_sa hdr =
     (if \<not> fc_to_ds (wf_fc hdr) \<and> \<not> fc_from_ds (wf_fc hdr) then Some (wf_addr2 hdr)
      else if fc_to_ds (wf_fc hdr) \<and> \<not> fc_from_ds (wf_fc hdr) then Some (wf_addr2 hdr)
      else if \<not> fc_to_ds (wf_fc hdr) \<and> fc_from_ds (wf_fc hdr) then Some (wf_addr3 hdr)
      else Some (wf_addr4 hdr))"

definition nfs_wifi_get_bssid :: "nfs_wifi_hdr \<Rightarrow> u8 list option" where
  "nfs_wifi_get_bssid hdr =
     (if \<not> fc_to_ds (wf_fc hdr) \<and> \<not> fc_from_ds (wf_fc hdr) then Some (wf_addr3 hdr)
      else if fc_to_ds (wf_fc hdr) \<and> \<not> fc_from_ds (wf_fc hdr) then Some (wf_addr1 hdr)
      else if \<not> fc_to_ds (wf_fc hdr) \<and> fc_from_ds (wf_fc hdr) then Some (wf_addr2 hdr)
      else None)"

definition nfs_wifi_seq_num :: "u16 \<Rightarrow> u16" where
  "nfs_wifi_seq_num seq_ctrl = drop_bit 4 seq_ctrl AND 0x0FFF"

definition nfs_wifi_frag_num :: "u16 \<Rightarrow> u8" where
  "nfs_wifi_frag_num seq_ctrl = ucast (seq_ctrl AND 0x0F)"

definition nfs_wifi_seq_ctrl :: "u16 \<Rightarrow> u8 \<Rightarrow> u16" where
  "nfs_wifi_seq_ctrl seq_num frag_num = push_bit 4 (seq_num AND 0x0FFF) OR ucast (frag_num AND 0x0F)"

definition nfs_wifi_type_name :: "u8 \<Rightarrow> string" where
  "nfs_wifi_type_name t =
     (if t = NFS_WIFI_TYPE_MGMT then ''Management'' else if t = NFS_WIFI_TYPE_CTRL then ''Control''
      else if t = NFS_WIFI_TYPE_DATA then ''Data'' else ''Unknown'')"

definition nfs_wifi_subtype_name :: "u8 \<Rightarrow> u8 \<Rightarrow> string" where
  "nfs_wifi_subtype_name t subtype =
     (if t = NFS_WIFI_TYPE_MGMT then
        (if subtype = 0 then ''Association Request'' else if subtype = 1 then ''Association Response''
         else if subtype = 2 then ''Reassociation Request'' else if subtype = 3 then ''Reassociation Response''
         else if subtype = 4 then ''Probe Request'' else if subtype = 5 then ''Probe Response''
         else if subtype = 8 then ''Beacon'' else if subtype = 9 then ''ATIM''
         else if subtype = 10 then ''Disassociation'' else if subtype = 11 then ''Authentication''
         else if subtype = 12 then ''Deauthentication'' else if subtype = 13 then ''Action''
         else ''Unknown Management'')
      else if t = NFS_WIFI_TYPE_CTRL then
        (if subtype = 10 then ''PS-Poll'' else if subtype = NFS_WIFI_CTRL_RTS then ''RTS''
         else if subtype = NFS_WIFI_CTRL_CTS then ''CTS'' else if subtype = NFS_WIFI_CTRL_ACK then ''ACK''
         else if subtype = 14 then ''CF-End'' else ''Unknown Control'')
      else if t = NFS_WIFI_TYPE_DATA then
        (if subtype = 0 then ''Data'' else if subtype = 4 then ''Null''
         else if subtype = 8 then ''QoS Data'' else if subtype = 12 then ''QoS Null''
         else ''Unknown Data'')
      else ''Unknown'')"

section \<open>The frame control field\<close>

lemma wifi_masks:
  "(0x03 :: u8) = mask 2" "(0x0F :: u8) = mask 4" "(0x03 :: u16) = mask 2" "(0x0F :: u16) = mask 4"
  "(0x0FFF :: u16) = mask 12" "(0xFF :: u16) = mask 8"
  by (simp_all add: mask_eq_exp_minus_1)

definition fc_wf :: "nfs_wifi_fc \<Rightarrow> bool" where
  "fc_wf fc \<longleftrightarrow> fc_version fc < 4 \<and> fc_type fc < 4 \<and> fc_subtype fc < 16"

lemma bit_flag_bit: "bit (flag_bit b k) n \<longleftrightarrow> n = k \<and> k < 16 \<and> b"
  by (auto simp: flag_bit_def bit_simps)

lemma bit_fc_pack:
  "bit (nfs_wifi_fc_pack fc) n \<longleftrightarrow>
     (if n < 2 then bit (fc_version fc) n else if n < 4 then bit (fc_type fc) (n - 2)
      else if n < 8 then bit (fc_subtype fc) (n - 4)
      else n = 8 \<and> fc_to_ds fc \<or> n = 9 \<and> fc_from_ds fc \<or> n = 10 \<and> fc_more_frag fc \<or> n = 11 \<and> fc_retry fc \<or>
        n = 12 \<and> fc_power_mgmt fc \<or> n = 13 \<and> fc_more_data fc \<or> n = 14 \<and> fc_protected fc \<or> n = 15 \<and> fc_htc_order fc)"
proof -
  have two: "bit (ucast (x AND 0x03) :: u16) n \<longleftrightarrow> n < 2 \<and> bit x n" for x :: u8 and n
    by (auto simp: bit_simps wifi_masks)
  have four: "bit (ucast (x AND 0x0F) :: u16) n \<longleftrightarrow> n < 4 \<and> bit x n" for x :: u8 and n
    by (auto simp: bit_simps wifi_masks)
  show ?thesis
    unfolding nfs_wifi_fc_pack_def bit_or_iff bit_flag_bit bit_push_bit_iff two four possible_bit_word
    by (cases "n < 2"; cases "n < 4"; cases "n < 8") (simp_all add: less_diff_conv2 not_less)
qed

lemma one_bit: "drop_bit n raw AND 1 \<noteq> 0 \<longleftrightarrow> bit raw n" for raw :: u16
  by (simp add: and_one_eq odd_iff_mod_2_eq_one bit_iff_odd_drop_bit)

lemma small_bits:
  fixes x :: u8
  shows "x < 4 \<Longrightarrow> bit x n \<Longrightarrow> n < 2" and "x < 16 \<Longrightarrow> bit x n \<Longrightarrow> n < 4"
  by (rule bit_less_exp [of x]; simp add: word_less_nat_alt)+

lemma fc_unpack_pack: "fc_wf fc \<Longrightarrow> nfs_wifi_fc_unpack (nfs_wifi_fc_pack fc) = fc"
proof -
  assume wf: "fc_wf fc"
  have "ucast (nfs_wifi_fc_pack fc AND 0x03) = fc_version fc"
    using wf small_bits(1) [of "fc_version fc"]
    by (intro bit_word_eqI) (auto simp: bit_simps bit_fc_pack wifi_masks fc_wf_def)
  moreover have "ucast (drop_bit 2 (nfs_wifi_fc_pack fc) AND 0x03) = fc_type fc"
    using wf small_bits(1) [of "fc_type fc"]
    by (intro bit_word_eqI) (auto simp: bit_simps bit_fc_pack wifi_masks fc_wf_def)
  moreover have "ucast (drop_bit 4 (nfs_wifi_fc_pack fc) AND 0x0F) = fc_subtype fc"
    using wf small_bits(2) [of "fc_subtype fc"]
    by (intro bit_word_eqI) (auto simp: bit_simps bit_fc_pack wifi_masks fc_wf_def)
  ultimately show ?thesis
    unfolding nfs_wifi_fc_unpack_def one_bit bit_fc_pack by simp
qed

lemma bit_masked:
  "bit (ucast (x AND 0x03) :: u8) n \<longleftrightarrow> n < 2 \<and> bit (x :: u16) n"
  "bit (ucast (x AND 0x0F) :: u8) n \<longleftrightarrow> n < 4 \<and> bit x n"
  by (auto simp: bit_simps wifi_masks)

lemma fc_pack_unpack: "nfs_wifi_fc_pack (nfs_wifi_fc_unpack raw) = raw"
proof (rule bit_word_eqI)
  fix n
  assume "n < LENGTH(16)"
  then have "n \<in> {15, 14, 13, 12, 11, 10, 9, 8, 7, 6, 5, 4, 3, 2} \<or> n < 2"
    by simp arith
  then show "bit (nfs_wifi_fc_pack (nfs_wifi_fc_unpack raw)) n = bit raw n"
    unfolding bit_fc_pack nfs_wifi_fc_unpack_def nfs_wifi_fc.simps one_bit bit_masked
    by (elim disjE insertE emptyE) (simp_all add: bit_drop_bit_eq)
qed

lemma fc_wf_unpack: "fc_wf (nfs_wifi_fc_unpack raw)"
proof -
  have "unat (take_bit 2 x :: u16) < 4" "unat (take_bit 4 x :: u16) < 16" for x :: u16
    using take_bit_nat_less_exp [of 2 "unat x"] take_bit_nat_less_exp [of 4 "unat x"]
    by (simp_all add: unsigned_take_bit_eq)
  then show ?thesis
    by (simp add: fc_wf_def nfs_wifi_fc_unpack_def wifi_masks word_less_nat_alt unsigned_ucast_eq flip: take_bit_eq_mask)
      (meson dual_order.strict_trans2 take_bit_nat_less_eq_self)
qed

lemma le16_get [simp]: "get_le16 (le16 x @ rest) 0 = x"
  unfolding get_le16_def le16_def wifi_masks
  by (rule bit_word_eqI) (auto simp: bit_simps)

lemma get_le16_bytes: "[a, b] = le16 (get_le16 (a # b # rest) 0)"
proof -
  have "\<not> bit (x :: u8) (8 + n)" "\<not> bit (x :: u8) (n + 8)" for x n by (auto dest: bit_imp_le_length)
  then show ?thesis
    unfolding get_le16_def le16_def wifi_masks
    by (auto intro!: bit_word_eqI simp: bit_simps dest: bit_imp_le_length)
qed

section \<open>Headers\<close>

text \<open>What a header has besides the first address depends on its size.\<close>

definition hdr_wf :: "nfs_wifi_hdr \<Rightarrow> bool" where
  "hdr_wf h \<longleftrightarrow> fc_wf (wf_fc h) \<and> length (wf_addr1 h) = 6 \<and> length (wf_addr2 h) = 6 \<and> length (wf_addr3 h) = 6 \<and>
     length (wf_addr4 h) = 6 \<and> (let n = nfs_wifi_hdr_size (wf_fc h) in
       (if n = 10 then wf_addr2 h = replicate 6 0 else True) \<and>
       (if n < 24 then wf_addr3 h = replicate 6 0 \<and> wf_seq_ctrl h = 0 else True) \<and>
       (if n < 30 then wf_addr4 h = replicate 6 0 else True) \<and> (wf_has_addr4 h \<longleftrightarrow> n = 30))"

definition hdr_bytes :: "nfs_wifi_hdr \<Rightarrow> u8 list" where
  "hdr_bytes h = take (nfs_wifi_hdr_size (wf_fc h))
     (le16 (nfs_wifi_fc_pack (wf_fc h)) @ le16 (wf_duration h) @ wf_addr1 h @ wf_addr2 h @ wf_addr3 h @
      le16 (wf_seq_ctrl h) @ wf_addr4 h)"

lemma hdr_sizes: "nfs_wifi_hdr_size fc \<in> {10, 16, 24, 30}"
  by (simp add: nfs_wifi_hdr_size_def)

lemma length_le16 [simp]: "length (le16 x) = 2"
  by (simp add: le16_def)

lemma hdr_build_bytes:
  assumes "hdr_wf h"
  shows "nfs_wifi_hdr_build h n = (if n < nfs_wifi_hdr_size (wf_fc h) then None else Some (hdr_bytes h))"
  using hdr_sizes [of "wf_fc h"] assms
  by (auto simp: nfs_wifi_hdr_build_def hdr_bytes_def hdr_wf_def Let_def)

text \<open>Positions of the fields.\<close>

lemma get_le16_past: "length xs \<le> i \<Longrightarrow> get_le16 (xs @ ys) i = get_le16 ys (i - length xs)"
  by (simp add: get_le16_def nth_append Suc_diff_le)

lemma hdr_parse_bytes:
  assumes "hdr_wf h"
  shows "nfs_wifi_hdr_parse (hdr_bytes h @ rest) = Some h"
proof -
  let ?fc = "wf_fc h"
  have wf: "fc_wf ?fc" "length (wf_addr1 h) = 6" "length (wf_addr2 h) = 6" "length (wf_addr3 h) = 6" "length (wf_addr4 h) = 6"
    using assms by (simp_all add: hdr_wf_def)
  have fc: "nfs_wifi_fc_unpack (nfs_wifi_fc_pack ?fc) = ?fc" using wf(1) by (rule fc_unpack_pack)
  obtain fc dur a1 a2 a3 sc a4 has where h: "h = \<lparr> wf_fc = fc, wf_duration = dur, wf_addr1 = a1, wf_addr2 = a2, wf_addr3 = a3,
      wf_seq_ctrl = sc, wf_addr4 = a4, wf_has_addr4 = has \<rparr>"
    by (cases h)
  consider "nfs_wifi_hdr_size ?fc = 10" | "nfs_wifi_hdr_size ?fc = 16" | "nfs_wifi_hdr_size ?fc = 24" | "nfs_wifi_hdr_size ?fc = 30"
    using hdr_sizes [of ?fc] by auto
  then show ?thesis
    by cases (use assms wf fc in \<open>auto simp: h hdr_bytes_def nfs_wifi_hdr_parse_def hdr_wf_def Let_def get_le16_past\<close>)
qed

lemma le16_at: "i + 2 \<le> length data \<Longrightarrow> le16 (get_le16 data i) = take 2 (drop i data)"
proof -
  assume i: "i + 2 \<le> length data"
  then have "drop i data = data ! i # data ! (i + 1) # drop (i + 2) data"
    by (metis Cons_nth_drop_Suc Suc_eq_plus1 add_2_eq_Suc' less_le_trans less_add_Suc1 add_Suc_right le_imp_less_Suc Suc_le_lessD add.commute Suc_leD)
  moreover have "[data ! i, data ! (i + 1)] = le16 (get_le16 [data ! i, data ! (i + 1)] 0)" by (rule get_le16_bytes)
  ultimately show ?thesis by (simp add: get_le16_def numeral_2_eq_2)
qed

lemma hdr_parse_Some:
  assumes "nfs_wifi_hdr_parse data = Some h"
  shows "hdr_wf h" and "prefix (hdr_bytes h) data"
proof -
  let ?n = "nfs_wifi_hdr_size (wf_fc h)"
  have fc: "wf_fc h = nfs_wifi_fc_unpack (get_le16 data 0)" and len: "?n \<le> length data" and ten: "10 \<le> length data"
    and dur: "wf_duration h = get_le16 data 2" and a1: "wf_addr1 h = take 6 (drop 4 data)"
    using assms by (auto simp: nfs_wifi_hdr_parse_def Let_def split: if_splits)
  have a2: "10 < ?n \<Longrightarrow> wf_addr2 h = take 6 (drop 10 data)"
    and a3: "16 < ?n \<Longrightarrow> wf_addr3 h = take 6 (drop 16 data)" "16 < ?n \<Longrightarrow> wf_seq_ctrl h = get_le16 data 22"
    and a4: "24 < ?n \<Longrightarrow> wf_addr4 h = take 6 (drop 24 data)"
    using assms by (auto simp: nfs_wifi_hdr_parse_def Let_def split: if_splits)
  have z2: "?n \<le> 10 \<Longrightarrow> wf_addr2 h = replicate 6 0"
    and z3: "?n \<le> 16 \<Longrightarrow> wf_addr3 h = replicate 6 0" "?n \<le> 16 \<Longrightarrow> wf_seq_ctrl h = 0"
    and z4: "?n \<le> 24 \<Longrightarrow> wf_addr4 h = replicate 6 0" "?n \<le> 24 \<Longrightarrow> \<not> wf_has_addr4 h" "24 < ?n \<Longrightarrow> wf_has_addr4 h"
    using assms by (auto simp: nfs_wifi_hdr_parse_def Let_def split: if_splits)
  have n: "?n = 10 \<or> ?n = 16 \<or> ?n = 24 \<or> ?n = 30" using hdr_sizes [of "wf_fc h"] by auto
  show "hdr_wf h"
    unfolding hdr_wf_def Let_def using n
    by (elim disjE) (use a1 a2 a3 a4 z2 z3 z4 len fc_wf_unpack [of "get_le16 data 0"] in \<open>simp_all add: fc\<close>)
  have raw: "le16 (nfs_wifi_fc_pack (wf_fc h)) = take 2 data"
    using ten le16_at [of 0 data] by (simp add: fc fc_pack_unpack)
  have joins: "take 2 data @ take 2 (drop 2 data) = take 4 data" "take 4 data @ take 6 (drop 4 data) = take 10 data"
    "take 10 data @ take 6 (drop 10 data) = take 16 data" "take 16 data @ take 6 (drop 16 data) = take 22 data"
    "take 22 data @ take 2 (drop 22 data) = take 24 data" "take 24 data @ take 6 (drop 24 data) = take 30 data"
    using take_add [of 2 2 data] take_add [of 4 6 data] take_add [of 10 6 data] take_add [of 16 6 data]
      take_add [of 22 2 data] take_add [of 24 6 data] by simp_all
  have "hdr_bytes h = take ?n data"
    using n
  proof (elim disjE)
    assume s: "?n = 10"
    have "hdr_bytes h = take 2 data @ take 2 (drop 2 data) @ take 6 (drop 4 data)"
      using ten by (simp add: hdr_bytes_def s raw dur a1 le16_at)
    then show ?thesis by (simp only: s joins append_assoc [symmetric])
  next
    assume s: "?n = 16"
    have "hdr_bytes h = take 2 data @ take 2 (drop 2 data) @ take 6 (drop 4 data) @ take 6 (drop 10 data)"
      using len by (simp add: hdr_bytes_def s raw dur a1 a2 le16_at)
    then show ?thesis by (simp only: s joins append_assoc [symmetric])
  next
    assume s: "?n = 24"
    have "hdr_bytes h = take 2 data @ take 2 (drop 2 data) @ take 6 (drop 4 data) @ take 6 (drop 10 data) @
        take 6 (drop 16 data) @ take 2 (drop 22 data)"
      using len by (simp add: hdr_bytes_def s raw dur a1 a2 a3 le16_at)
    then show ?thesis by (simp only: s joins append_assoc [symmetric])
  next
    assume s: "?n = 30"
    have "hdr_bytes h = take 2 data @ take 2 (drop 2 data) @ take 6 (drop 4 data) @ take 6 (drop 10 data) @
        take 6 (drop 16 data) @ take 2 (drop 22 data) @ take 6 (drop 24 data)"
      using len by (simp add: hdr_bytes_def s raw dur a1 a2 a3 a4 le16_at)
    then show ?thesis by (simp only: s joins append_assoc [symmetric])
  qed
  then show "prefix (hdr_bytes h) data" by (simp add: take_is_prefix)
qed

text \<open>
  C25. The parser accepts a frame exactly if it starts with a header that the builder writes for the result: frame
  control, duration, the addresses and sequence control the type calls for.
\<close>
theorem wifi_parse_exact:
  "nfs_wifi_hdr_parse data = Some h \<longleftrightarrow>
     hdr_wf h \<and> (\<exists>bs. nfs_wifi_hdr_build h 30 = Some bs \<and> prefix bs data)"
proof -
  have b: "nfs_wifi_hdr_build h 30 = Some (hdr_bytes h)" if "hdr_wf h"
    using hdr_build_bytes [OF that, of 30] hdr_sizes [of "wf_fc h"] by auto
  show ?thesis
  proof
    assume "nfs_wifi_hdr_parse data = Some h"
    then show "hdr_wf h \<and> (\<exists>bs. nfs_wifi_hdr_build h 30 = Some bs \<and> prefix bs data)"
      using hdr_parse_Some b by blast
  next
    assume "hdr_wf h \<and> (\<exists>bs. nfs_wifi_hdr_build h 30 = Some bs \<and> prefix bs data)"
    then obtain rest where "hdr_wf h" "data = hdr_bytes h @ rest" using b by (auto simp: prefix_def)
    then show "nfs_wifi_hdr_parse data = Some h" by (simp add: hdr_parse_bytes)
  qed
qed

section \<open>Sequence control and addresses\<close>

lemma seq_ctrl_fields:
  "nfs_wifi_seq_num (nfs_wifi_seq_ctrl n f) = n AND 0x0FFF" "nfs_wifi_frag_num (nfs_wifi_seq_ctrl n f) = f AND 0x0F"
  "nfs_wifi_seq_ctrl (nfs_wifi_seq_num c) (nfs_wifi_frag_num c) = c"
proof -
  show "nfs_wifi_seq_num (nfs_wifi_seq_ctrl n f) = n AND 0x0FFF" "nfs_wifi_frag_num (nfs_wifi_seq_ctrl n f) = f AND 0x0F"
    unfolding nfs_wifi_seq_num_def nfs_wifi_frag_num_def nfs_wifi_seq_ctrl_def wifi_masks
    by (rule bit_word_eqI, auto simp: bit_simps)+
  show "nfs_wifi_seq_ctrl (nfs_wifi_seq_num c) (nfs_wifi_frag_num c) = c"
  proof (rule bit_word_eqI)
    fix n
    assume "n < LENGTH(16)"
    then show "bit (nfs_wifi_seq_ctrl (nfs_wifi_seq_num c) (nfs_wifi_frag_num c)) n = bit c n"
      unfolding nfs_wifi_seq_num_def nfs_wifi_frag_num_def nfs_wifi_seq_ctrl_def wifi_masks
      by (cases "n < 4") (auto simp: bit_simps not_less)
  qed
qed

text \<open>
  A frame carried by an access point: sent by a station to the access point and sent on to the station it is for,
  it keeps its source, destination and network.
\<close>

definition to_ap :: "u8 list \<Rightarrow> u8 list \<Rightarrow> u8 list \<Rightarrow> nfs_wifi_hdr \<Rightarrow> nfs_wifi_hdr" where
  "to_ap bssid sa da h = h\<lparr> wf_fc := (wf_fc h)\<lparr> fc_to_ds := True, fc_from_ds := False \<rparr>, wf_addr1 := bssid, wf_addr2 := sa, wf_addr3 := da \<rparr>"

definition from_ap :: "u8 list \<Rightarrow> u8 list \<Rightarrow> u8 list \<Rightarrow> nfs_wifi_hdr \<Rightarrow> nfs_wifi_hdr" where
  "from_ap bssid sa da h = h\<lparr> wf_fc := (wf_fc h)\<lparr> fc_to_ds := False, fc_from_ds := True \<rparr>, wf_addr1 := da, wf_addr2 := bssid, wf_addr3 := sa \<rparr>"

lemma ap_keeps_addresses:
  "map (\<lambda>h. (nfs_wifi_get_da h, nfs_wifi_get_sa h, nfs_wifi_get_bssid h)) [to_ap b s d h, from_ap b s d h] =
     [(Some d, Some s, Some b), (Some d, Some s, Some b)]"
  by (simp add: to_ap_def from_ap_def nfs_wifi_get_da_def nfs_wifi_get_sa_def nfs_wifi_get_bssid_def)

text \<open>An acknowledgment has one address; its source is given all the same, as zero.\<close>

lemma source_of_acknowledgment:
  assumes "nfs_wifi_hdr_parse data = Some h" and "nfs_wifi_hdr_size (wf_fc h) = 10" and "\<not> fc_to_ds (wf_fc h)" and "\<not> fc_from_ds (wf_fc h)"
  shows "nfs_wifi_get_sa h = Some (replicate 6 0)"
  using hdr_parse_Some(1) [OF assms(1)] assms(2-4) by (simp add: hdr_wf_def nfs_wifi_get_sa_def)

end
