(* ===== verification/Http.thy ===== *)
theory Http
  imports Chunked Cookie
begin

text \<open>
  The toy HTTP server (\<^verbatim>\<open>phases/06-application-protocols/09-a-toy-http-server-in-c/http.c\<close>): request parser
  and response builder. What is left of the request is a list; a field of the request is the list of the bytes copied
  into it, read as a C string where the code does. \<^verbatim>\<open>strcasecmp\<close> is the comparison of the cookie lesson.
\<close>

section \<open>Definitions\<close>

definition NFS_HTTP_MAX_METHOD :: nat where "NFS_HTTP_MAX_METHOD = 16"
definition NFS_HTTP_MAX_URI :: nat where "NFS_HTTP_MAX_URI = 2048"
definition NFS_HTTP_MAX_VERSION :: nat where "NFS_HTTP_MAX_VERSION = 16"
definition NFS_HTTP_MAX_HEADERS :: nat where "NFS_HTTP_MAX_HEADERS = 64"
definition NFS_HTTP_MAX_HDR_NAME :: nat where "NFS_HTTP_MAX_HDR_NAME = 128"
definition NFS_HTTP_MAX_HDR_VALUE :: nat where "NFS_HTTP_MAX_HDR_VALUE = 4096"

lemmas http_sizes = NFS_HTTP_MAX_METHOD_def NFS_HTTP_MAX_URI_def NFS_HTTP_MAX_VERSION_def
  NFS_HTTP_MAX_HEADERS_def NFS_HTTP_MAX_HDR_NAME_def NFS_HTTP_MAX_HDR_VALUE_def

record nfs_http_header =
  hh_name :: "u8 list"
  hh_value :: "u8 list"

record nfs_http_request =
  rq_method :: "u8 list"
  rq_uri :: "u8 list"
  rq_version :: "u8 list"
  rq_headers :: "nfs_http_header list"
  rq_body :: "u8 list"

record nfs_http_response =
  rp_status_code :: u16
  rp_status_text :: "u8 list"
  rp_headers :: "nfs_http_header list"
  rp_body :: "u8 list"

abbreviation space :: u8 where "space \<equiv> 32"
abbreviation colon_sign :: u8 where "colon_sign \<equiv> 58"

text \<open>The C string in an array, and the bytes of a literal.\<close>

definition cstr :: "u8 list \<Rightarrow> u8 list" where
  "cstr s = takeWhile (\<lambda>c. c \<noteq> 0) s"

definition text_bytes :: "string \<Rightarrow> u8 list" where
  "text_bytes s = map of_char s"

text \<open>The loop over the header lines: the headers read, and what follows the empty line.\<close>

function header_loop :: "u8 list \<Rightarrow> nfs_http_header list \<Rightarrow> (nfs_http_header list \<times> u8 list) option" where
  "header_loop p hs =
     (if p = [] then Some (hs, [])
      else if 2 \<le> length p \<and> p ! 0 = CR \<and> p ! 1 = LF then Some (hs, drop 2 p)
      else
        case find_crlf p of None \<Rightarrow> None
        | Some line_end \<Rightarrow>
            (case find_idx (\<lambda>c. c = colon_sign) (take line_end p) of None \<Rightarrow> None
             | Some name_len \<Rightarrow>
                 if name_len = 0 \<or> name_len \<ge> NFS_HTTP_MAX_HDR_NAME then None
                 else
                   let val = dropWhile (\<lambda>c. c = space) (drop (name_len + 1) (take line_end p)) in
                   if length val \<ge> NFS_HTTP_MAX_HDR_VALUE then None
                   else if length hs \<ge> NFS_HTTP_MAX_HEADERS then None
                   else header_loop (drop (line_end + 2) p) (hs @ [\<lparr> hh_name = take name_len p, hh_value = val \<rparr>])))"
  by pat_completeness auto
termination
  by (relation "measure (\<lambda>(p, hs). length p)") auto

declare header_loop.simps [simp del]

definition nfs_http_request_parse :: "u8 list \<Rightarrow> nfs_http_request option" where
  "nfs_http_request_parse data =
     (if length data = 0 then None
      else
        case find_crlf data of None \<Rightarrow> None
        | Some line_end \<Rightarrow>
            (case find_idx (\<lambda>c. c = space) (take line_end data) of None \<Rightarrow> None
             | Some method_len \<Rightarrow>
                 if method_len = 0 \<or> method_len \<ge> NFS_HTTP_MAX_METHOD then None
                 else
                   let pos = method_len + 1 in
                   (case find_idx (\<lambda>c. c = space) (drop pos (take line_end data)) of None \<Rightarrow> None
                    | Some uri_len \<Rightarrow>
                        if uri_len = 0 \<or> uri_len \<ge> NFS_HTTP_MAX_URI then None
                        else
                          let uri = take uri_len (drop pos data);
                              pos = pos + uri_len + 1;
                              ver_len = line_end - pos
                          in
                          if ver_len = 0 \<or> ver_len \<ge> NFS_HTTP_MAX_VERSION then None
                          else
                            map_option (\<lambda>(hs, body). \<lparr> rq_method = take method_len data, rq_uri = uri,
                                rq_version = take ver_len (drop pos data), rq_headers = hs, rq_body = body \<rparr>)
                              (header_loop (drop (line_end + 2) data) []))))"

definition nfs_http_request_get_header :: "nfs_http_request \<Rightarrow> u8 list \<Rightarrow> u8 list option" where
  "nfs_http_request_get_header req name =
     map_option (\<lambda>h. cstr (hh_value h)) (List.find (\<lambda>h. str_casecmp (cstr (hh_name h)) name = 0) (rq_headers req))"

definition nfs_http_status_str :: "u16 \<Rightarrow> string" where
  "nfs_http_status_str code =
     (if code = 200 then ''OK'' else if code = 201 then ''Created'' else if code = 204 then ''No Content''
      else if code = 301 then ''Moved Permanently'' else if code = 302 then ''Found''
      else if code = 304 then ''Not Modified'' else if code = 400 then ''Bad Request''
      else if code = 403 then ''Forbidden'' else if code = 404 then ''Not Found''
      else if code = 405 then ''Method Not Allowed'' else if code = 500 then ''Internal Server Error''
      else if code = 502 then ''Bad Gateway'' else if code = 503 then ''Service Unavailable''
      else ''Unknown'')"

definition nfs_http_response_init :: "u16 \<Rightarrow> nfs_http_response" where
  "nfs_http_response_init status_code =
     (let text = text_bytes (nfs_http_status_str status_code);
          tlen = (if length text \<ge> 64 then 64 - 1 else length text)
      in \<lparr> rp_status_code = status_code, rp_status_text = take tlen text, rp_headers = [], rp_body = [] \<rparr>)"

definition nfs_http_response_add_header :: "nfs_http_response \<Rightarrow> u8 list \<Rightarrow> u8 list \<Rightarrow> nfs_http_response option" where
  "nfs_http_response_add_header resp name val =
     (if length (rp_headers resp) \<ge> NFS_HTTP_MAX_HEADERS then None
      else if length name \<ge> NFS_HTTP_MAX_HDR_NAME \<or> length val \<ge> NFS_HTTP_MAX_HDR_VALUE then None
      else Some (resp\<lparr> rp_headers := rp_headers resp @ [\<lparr> hh_name = name, hh_value = val \<rparr>] \<rparr>))"

definition nfs_http_response_set_body :: "nfs_http_response \<Rightarrow> u8 list \<Rightarrow> nfs_http_response" where
  "nfs_http_response_set_body resp body = resp\<lparr> rp_body := body \<rparr>"

definition header_line :: "nfs_http_header \<Rightarrow> u8 list" where
  "header_line h = hh_name h @ [colon_sign, space] @ hh_value h @ [CR, LF]"

fun put_headers :: "nfs_http_header list \<Rightarrow> nat \<Rightarrow> u8 list \<Rightarrow> u8 list option" where
  "put_headers [] out_sz out = Some out"
| "put_headers (h # hs) out_sz out =
     (if length (header_line h) \<ge> out_sz - length out then None
      else put_headers hs out_sz (out @ header_line h))"

definition nfs_http_response_build :: "nfs_http_response \<Rightarrow> nat \<Rightarrow> u8 list option" where
  "nfs_http_response_build resp out_sz =
     (if out_sz = 0 then None
      else
        let line = text_bytes ''HTTP/1.1 '' @ decimal (unat (rp_status_code resp)) @ [space] @ rp_status_text resp @ [CR, LF]
        in
        if length line \<ge> out_sz then None
        else
          case put_headers (rp_headers resp) out_sz line of None \<Rightarrow> None
          | Some out \<Rightarrow>
              if length out + 2 \<ge> out_sz then None
              else
                let out = out @ [CR, LF] in
                if rp_body resp \<noteq> [] then
                  (if length out + length (rp_body resp) > out_sz then None else Some (out @ rp_body resp))
                else Some out)"

section \<open>Requests\<close>

text \<open>A request as a client writes it.\<close>

definition request_text :: "nfs_http_request \<Rightarrow> u8 list" where
  "request_text req = rq_method req @ [space] @ rq_uri req @ [space] @ rq_version req @ [CR, LF] @
     concat (map header_line (rq_headers req)) @ [CR, LF] @ rq_body req"

definition header_wf :: "nfs_http_header \<Rightarrow> bool" where
  "header_wf h \<longleftrightarrow> hh_name h \<noteq> [] \<and> length (hh_name h) < 128 \<and> colon_sign \<notin> set (hh_name h) \<and> CR \<notin> set (hh_name h) \<and>
     0 \<notin> set (hh_name h) \<and> length (hh_value h) < 4096 \<and> CR \<notin> set (hh_value h) \<and> 0 \<notin> set (hh_value h) \<and>
     (hh_value h \<noteq> [] \<longrightarrow> hd (hh_value h) \<noteq> space)"

definition request_wf :: "nfs_http_request \<Rightarrow> bool" where
  "request_wf req \<longleftrightarrow> rq_method req \<noteq> [] \<and> length (rq_method req) < 16 \<and> space \<notin> set (rq_method req) \<and> CR \<notin> set (rq_method req) \<and>
     rq_uri req \<noteq> [] \<and> length (rq_uri req) < 2048 \<and> space \<notin> set (rq_uri req) \<and> CR \<notin> set (rq_uri req) \<and>
     rq_version req \<noteq> [] \<and> length (rq_version req) < 16 \<and> CR \<notin> set (rq_version req) \<and>
     length (rq_headers req) \<le> 64 \<and> list_all header_wf (rq_headers req)"

lemma find_char: "c \<notin> set xs \<Longrightarrow> find_idx (\<lambda>x. x = c) (xs @ c # ys) = Some (length xs)"
  by (induction xs) auto

lemma drop_line: "drop (length l + 2) (l @ CR # LF # r) = r"
  by (induction l) simp_all

lemma header_loop_line:
  assumes "header_wf h" and "length hs < 64"
  shows "header_loop (header_line h @ rest) hs = header_loop rest (hs @ [h])"
proof -
  let ?p = "header_line h @ rest" and ?line = "hh_name h @ [colon_sign, space] @ hh_value h"
  have wf: "hh_name h \<noteq> []" "length (hh_name h) < 128" "colon_sign \<notin> set (hh_name h)" "CR \<notin> set (hh_name h)"
    "length (hh_value h) < 4096" "CR \<notin> set (hh_value h)" "hh_value h \<noteq> [] \<longrightarrow> hd (hh_value h) \<noteq> space"
    using assms(1) by (auto simp: header_wf_def)
  have p: "?p = ?line @ CR # LF # rest" by (simp add: header_line_def)
  have "CR \<notin> set ?line" using wf by auto
  then have crlf: "find_crlf ?p = Some (length ?line)" unfolding p by (rule find_crlf_line)
  have line: "take (length ?line) ?p = ?line" unfolding p by simp
  have name: "find_idx (\<lambda>c. c = colon_sign) ?line = Some (length (hh_name h))"
    using wf(3) find_char [of colon_sign "hh_name h" "space # hh_value h"] by simp
  have first: "\<not> (2 \<le> length ?p \<and> ?p ! 0 = CR \<and> ?p ! 1 = LF)" "?p \<noteq> []"
    using wf(1,4) by (cases "hh_name h"; auto simp: header_line_def)+
  have val: "dropWhile (\<lambda>c. c = space) (drop (length (hh_name h) + 1) ?line) = hh_value h"
    using wf(7) by (cases "hh_value h") auto
  have "take (length (hh_name h)) ?p = hh_name h" by (simp add: header_line_def)
  moreover have "drop (length ?line + 2) ?p = rest" unfolding p by (rule drop_line)
  ultimately show ?thesis
    unfolding header_loop.simps [of ?p hs] if_not_P [OF first(1)] if_not_P [OF first(2)] crlf option.case line name Let_def val
    using wf(1,2,5) assms(2) by (cases h) (simp add: http_sizes del: take_append drop_append)
qed

lemma header_loop_lines:
  "list_all header_wf gs \<Longrightarrow> length hs + length gs \<le> 64 \<Longrightarrow>
     header_loop (concat (map header_line gs) @ CR # LF # rest) hs = Some (hs @ gs, rest)"
proof (induction gs arbitrary: hs)
  case Nil
  show ?case by (subst header_loop.simps) simp
next
  case (Cons g gs)
  then show ?case using header_loop_line [of g hs "concat (map header_line gs) @ CR # LF # rest"] by simp
qed

text \<open>The request line, whatever the loop over the headers makes of the rest.\<close>

lemma request_parse_line:
  assumes "request_wf req"
  shows "nfs_http_request_parse (rq_method req @ [space] @ rq_uri req @ [space] @ rq_version req @ [CR, LF] @ rest) =
    map_option (\<lambda>(hs, body). req\<lparr> rq_headers := hs, rq_body := body \<rparr>) (header_loop rest [])"
proof -
  let ?line = "rq_method req @ space # rq_uri req @ space # rq_version req"
  let ?data = "?line @ CR # LF # rest"
  have wf: "rq_method req \<noteq> []" "length (rq_method req) < 16" "space \<notin> set (rq_method req)" "CR \<notin> set (rq_method req)"
    "rq_uri req \<noteq> []" "length (rq_uri req) < 2048" "space \<notin> set (rq_uri req)" "CR \<notin> set (rq_uri req)"
    "rq_version req \<noteq> []" "length (rq_version req) < 16" "CR \<notin> set (rq_version req)"
    using assms by (auto simp: request_wf_def)
  have "CR \<notin> set ?line" using wf by auto
  then have crlf: "find_crlf ?data = Some (length ?line)" by (rule find_crlf_line)
  have line: "take (length ?line) ?data = ?line" by simp
  have m: "find_idx (\<lambda>c. c = space) ?line = Some (length (rq_method req))" using wf(3) by (rule find_char)
  have "drop (length (rq_method req) + 1) ?line = rq_uri req @ space # rq_version req" by simp
  then have u: "find_idx (\<lambda>c. c = space) (drop (length (rq_method req) + 1) ?line) = Some (length (rq_uri req))"
    using find_char [OF wf(7), of "rq_version req"] by simp
  have v: "length ?line - (length (rq_method req) + 1 + length (rq_uri req) + 1) = length (rq_version req)" by simp
  have fields: "take (length (rq_method req)) ?data = rq_method req"
    "take (length (rq_uri req)) (drop (length (rq_method req) + 1) ?data) = rq_uri req"
    "take (length (rq_version req)) (drop (length (rq_method req) + 1 + length (rq_uri req) + 1) ?data) = rq_version req"
    by simp_all
  have "nfs_http_request_parse ?data =
      map_option (\<lambda>(hs, body). req\<lparr> rq_headers := hs, rq_body := body \<rparr>) (header_loop rest [])"
    unfolding nfs_http_request_parse_def crlf option.case line m Let_def u v fields drop_line
    using wf by (cases req) (simp add: http_sizes)
  then show ?thesis by simp
qed

lemma request_parse_text:
  assumes "request_wf req"
  shows "nfs_http_request_parse (request_text req) = Some req"
proof -
  have "header_loop (concat (map header_line (rq_headers req)) @ CR # LF # rq_body req) [] = Some (rq_headers req, rq_body req)"
    using assms header_loop_lines [of "rq_headers req" "[]" "rq_body req"] by (simp add: request_wf_def)
  then show ?thesis
    using request_parse_line [OF assms, of "concat (map header_line (rq_headers req)) @ CR # LF # rq_body req"]
    by (simp add: request_text_def)
qed

text \<open>
  The loop over the headers also ends where the data does: a request cut before its empty line is
  taken for complete.
\<close>

lemma cut_request_accepted:
  assumes "request_wf req"
  shows "nfs_http_request_parse (rq_method req @ [space] @ rq_uri req @ [space] @ rq_version req @ [CR, LF]) =
    Some (req\<lparr> rq_headers := [], rq_body := [] \<rparr>)"
proof -
  have "header_loop [] [] = Some ([], [])" by (subst header_loop.simps) simp
  then show ?thesis using request_parse_line [OF assms, of "[]"] by simp
qed

section \<open>Responses\<close>

lemma put_headers_eq:
  "put_headers hs n out =
     (let t = out @ concat (map header_line hs) in if hs = [] \<or> length t < n then Some t else None)"
proof (induction hs arbitrary: out)
  case (Cons h hs)
  have "length (header_line h) \<noteq> 0" by (simp add: header_line_def)
  then show ?case using Cons.IH [of "out @ header_line h"] by (auto simp: Let_def)
qed simp

text \<open>A response is built whole or not at all, one byte of the buffer staying free when there is no body.\<close>

lemma response_build_eq:
  "nfs_http_response_build resp n =
     (let head = text_bytes ''HTTP/1.1 '' @ decimal (unat (rp_status_code resp)) @ [space] @ rp_status_text resp @ [CR, LF] @
            concat (map header_line (rp_headers resp)) @ [CR, LF]
      in if length head < n \<and> length head + length (rp_body resp) \<le> n then Some (head @ rp_body resp) else None)"
  by (auto simp: nfs_http_response_build_def put_headers_eq Let_def)

end
