(* ===== verification/HttpConn.thy ===== *)
theory HttpConn
  imports Http
begin

text \<open>
  Persistent connections and pipelining
  (\<^verbatim>\<open>phases/06-application-protocols/10-persistent-connections-and-pipelining/http_conn.c\<close>): the state of a connection and the
  ring of requests that wait for a response. The ring is shown to be a bounded queue, and the
  prediction of \<^verbatim>\<open>should_close\<close> to be what happens.
\<close>

section \<open>Definitions\<close>

datatype nfs_http_conn_state = NFS_HTTP_CONN_IDLE | NFS_HTTP_CONN_ACTIVE | NFS_HTTP_CONN_KEEP_ALIVE | NFS_HTTP_CONN_CLOSE
datatype nfs_http_version = NFS_HTTP_VER_10 | NFS_HTTP_VER_11

definition NFS_HTTP_MAX_PIPELINE :: nat where "NFS_HTTP_MAX_PIPELINE = 16"

record nfs_http_pipeline_entry =
  pe_method :: "u8 list"
  pe_uri :: "u8 list"
  pe_responded :: bool

record nfs_http_conn =
  hc_state :: nfs_http_conn_state
  hc_version :: nfs_http_version
  hc_keep_alive_explicit :: bool
  hc_close_explicit :: bool
  hc_request_count :: u32
  hc_max_requests :: u32
  hc_pipeline :: "nfs_http_pipeline_entry list"
  hc_head :: nat
  hc_tail :: nat
  hc_count :: nat

definition nfs_http_conn_init :: "nfs_http_version \<Rightarrow> u32 \<Rightarrow> nfs_http_conn" where
  "nfs_http_conn_init version max_requests =
     \<lparr> hc_state = NFS_HTTP_CONN_IDLE, hc_version = version, hc_keep_alive_explicit = False, hc_close_explicit = False,
       hc_request_count = 0, hc_max_requests = max_requests,
       hc_pipeline = replicate NFS_HTTP_MAX_PIPELINE \<lparr> pe_method = [], pe_uri = [], pe_responded = False \<rparr>,
       hc_head = 0, hc_tail = 0, hc_count = 0 \<rparr>"

definition nfs_http_conn_on_request :: "nfs_http_conn \<Rightarrow> u8 list option \<Rightarrow> nfs_http_conn" where
  "nfs_http_conn_on_request conn connection_header =
     (let conn = conn\<lparr> hc_state := NFS_HTTP_CONN_ACTIVE, hc_request_count := hc_request_count conn + 1,
                       hc_keep_alive_explicit := False, hc_close_explicit := False \<rparr>
      in case connection_header of
           None \<Rightarrow> conn
         | Some h \<Rightarrow>
             if str_casecmp h (text_bytes ''keep-alive'') = 0 then conn\<lparr> hc_keep_alive_explicit := True \<rparr>
             else if str_casecmp h (text_bytes ''close'') = 0 then conn\<lparr> hc_close_explicit := True \<rparr>
             else conn)"

definition nfs_http_conn_on_response :: "nfs_http_conn \<Rightarrow> nfs_http_conn" where
  "nfs_http_conn_on_response conn =
     (if hc_max_requests conn > 0 \<and> hc_request_count conn \<ge> hc_max_requests conn
      then conn\<lparr> hc_state := NFS_HTTP_CONN_CLOSE \<rparr>
      else if hc_close_explicit conn then conn\<lparr> hc_state := NFS_HTTP_CONN_CLOSE \<rparr>
      else if hc_version conn = NFS_HTTP_VER_11 then conn\<lparr> hc_state := NFS_HTTP_CONN_KEEP_ALIVE \<rparr>
      else if hc_version conn = NFS_HTTP_VER_10 then
        (if hc_keep_alive_explicit conn then conn\<lparr> hc_state := NFS_HTTP_CONN_KEEP_ALIVE \<rparr>
         else conn\<lparr> hc_state := NFS_HTTP_CONN_CLOSE \<rparr>)
      else conn\<lparr> hc_state := NFS_HTTP_CONN_CLOSE \<rparr>)"

definition nfs_http_conn_should_close :: "nfs_http_conn \<Rightarrow> bool" where
  "nfs_http_conn_should_close conn =
     (if hc_state conn = NFS_HTTP_CONN_CLOSE then True
      else if hc_max_requests conn > 0 \<and> hc_request_count conn \<ge> hc_max_requests conn then True
      else if hc_close_explicit conn then True
      else if hc_version conn = NFS_HTTP_VER_10 \<and> \<not> hc_keep_alive_explicit conn then True
      else False)"

definition nfs_http_conn_get_state :: "nfs_http_conn \<Rightarrow> nfs_http_conn_state" where
  "nfs_http_conn_get_state conn = hc_state conn"

definition nfs_http_conn_response_header :: "nfs_http_conn \<Rightarrow> string option" where
  "nfs_http_conn_response_header conn =
     (if hc_version conn = NFS_HTTP_VER_10 \<and> hc_keep_alive_explicit conn \<and> \<not> hc_close_explicit conn then Some ''keep-alive''
      else if hc_version conn = NFS_HTTP_VER_11 \<and> hc_close_explicit conn then Some ''close''
      else if hc_version conn = NFS_HTTP_VER_10 \<and> \<not> hc_keep_alive_explicit conn then Some ''close''
      else None)"

definition nfs_http_pipeline_enqueue :: "nfs_http_conn \<Rightarrow> u8 list \<Rightarrow> u8 list \<Rightarrow> nfs_http_conn option" where
  "nfs_http_pipeline_enqueue conn meth uri =
     (if hc_count conn \<ge> NFS_HTTP_MAX_PIPELINE then None
      else if length meth \<ge> NFS_HTTP_MAX_METHOD \<or> length uri \<ge> NFS_HTTP_MAX_URI then None
      else Some (conn\<lparr>
        hc_pipeline := (hc_pipeline conn)[hc_tail conn := \<lparr> pe_method = meth, pe_uri = uri, pe_responded = False \<rparr>],
        hc_tail := (hc_tail conn + 1) mod NFS_HTTP_MAX_PIPELINE, hc_count := hc_count conn + 1 \<rparr>))"

definition nfs_http_pipeline_dequeue :: "nfs_http_conn \<Rightarrow> nfs_http_conn option" where
  "nfs_http_pipeline_dequeue conn =
     (if hc_count conn = 0 then None
      else Some (conn\<lparr>
        hc_pipeline := (hc_pipeline conn)[hc_head conn := (hc_pipeline conn ! hc_head conn)\<lparr> pe_responded := True \<rparr>],
        hc_head := (hc_head conn + 1) mod NFS_HTTP_MAX_PIPELINE, hc_count := hc_count conn - 1 \<rparr>))"

definition nfs_http_pipeline_pending :: "nfs_http_conn \<Rightarrow> nat" where
  "nfs_http_pipeline_pending conn = hc_count conn"

definition nfs_http_pipeline_peek :: "nfs_http_conn \<Rightarrow> nfs_http_pipeline_entry option" where
  "nfs_http_pipeline_peek conn = (if hc_count conn = 0 then None else Some (hc_pipeline conn ! hc_head conn))"

definition nfs_http_pipeline_reset :: "nfs_http_conn \<Rightarrow> nfs_http_conn" where
  "nfs_http_pipeline_reset conn = conn\<lparr> hc_head := 0, hc_tail := 0, hc_count := 0 \<rparr>"

section \<open>The ring is a bounded queue\<close>

definition ring_queue :: "nfs_http_conn \<Rightarrow> (u8 list \<times> u8 list) list" where
  "ring_queue conn = map (\<lambda>i. let e = hc_pipeline conn ! ((hc_head conn + i) mod 16) in (pe_method e, pe_uri e)) [0..<hc_count conn]"

definition ring_inv :: "nfs_http_conn \<Rightarrow> bool" where
  "ring_inv conn \<longleftrightarrow> length (hc_pipeline conn) = 16 \<and> hc_head conn < 16 \<and> hc_tail conn = (hc_head conn + hc_count conn) mod 16 \<and>
     hc_count conn \<le> 16 \<and>
     (\<forall>i < hc_count conn. \<not> pe_responded (hc_pipeline conn ! ((hc_head conn + i) mod 16)))"

datatype conn_event =
    HcRequest "u8 list option"
  | HcResponse
  | HcEnqueue "u8 list" "u8 list"
  | HcDequeue
  | HcReset

fun conn_step :: "nfs_http_conn \<Rightarrow> conn_event \<Rightarrow> nfs_http_conn" where
  "conn_step conn (HcRequest h) = nfs_http_conn_on_request conn h"
| "conn_step conn HcResponse = nfs_http_conn_on_response conn"
| "conn_step conn (HcEnqueue m u) = (case nfs_http_pipeline_enqueue conn m u of None \<Rightarrow> conn | Some c \<Rightarrow> c)"
| "conn_step conn HcDequeue = (case nfs_http_pipeline_dequeue conn of None \<Rightarrow> conn | Some c \<Rightarrow> c)"
| "conn_step conn HcReset = nfs_http_pipeline_reset conn"

fun queue_step :: "(u8 list \<times> u8 list) list \<Rightarrow> conn_event \<Rightarrow> (u8 list \<times> u8 list) list" where
  "queue_step q (HcEnqueue m u) = (if length q < 16 \<and> length m < 16 \<and> length u < 2048 then q @ [(m, u)] else q)"
| "queue_step q HcDequeue = tl q"
| "queue_step q HcReset = []"
| "queue_step q _ = q"

lemma ring_slots: "i < n \<Longrightarrow> n < 16 \<Longrightarrow> (h + i) mod 16 \<noteq> (h + n) mod (16 :: nat)"
  using mod_eq_dvd_iff_nat [of "h + i" "h + n" 16] nat_dvd_not_less [of "n - i" 16] by auto

lemma enqueue_ring:
  assumes "ring_inv conn" and "nfs_http_pipeline_enqueue conn m u = Some conn'"
  shows "ring_inv conn'" and "ring_queue conn' = ring_queue conn @ [(m, u)]"
proof -
  let ?e = "\<lparr> pe_method = m, pe_uri = u, pe_responded = False \<rparr>"
  have c: "hc_count conn < 16" and conn': "conn' = conn\<lparr> hc_pipeline := (hc_pipeline conn)[hc_tail conn := ?e],
      hc_tail := (hc_tail conn + 1) mod 16, hc_count := hc_count conn + 1 \<rparr>"
    using assms(2) by (auto simp: nfs_http_pipeline_enqueue_def NFS_HTTP_MAX_PIPELINE_def split: if_splits)
  have r: "length (hc_pipeline conn) = 16" "hc_tail conn = (hc_head conn + hc_count conn) mod 16" "hc_tail conn < 16"
    using assms(1) by (simp_all add: ring_inv_def)
  have at: "hc_pipeline conn' ! ((hc_head conn + i) mod 16) =
      (if i = hc_count conn then ?e else hc_pipeline conn ! ((hc_head conn + i) mod 16))" if "i \<le> hc_count conn" for i
    using that r c ring_slots [of i "hc_count conn" "hc_head conn"] by (auto simp: conn')
  show "ring_inv conn'"
    using assms(1) c at by (auto simp: ring_inv_def conn' less_Suc_eq_le mod_Suc_eq)
  show "ring_queue conn' = ring_queue conn @ [(m, u)]"
    using at by (auto simp: ring_queue_def Let_def conn')
qed

lemma dequeue_ring:
  assumes "ring_inv conn" and "nfs_http_pipeline_dequeue conn = Some conn'"
  shows "ring_inv conn'" and "ring_queue conn' = tl (ring_queue conn)"
proof -
  let ?e = "(hc_pipeline conn ! hc_head conn)\<lparr> pe_responded := True \<rparr>"
  have fresh: "\<forall>i < hc_count conn. \<not> pe_responded (hc_pipeline conn ! ((hc_head conn + i) mod 16))"
    using assms(1) unfolding ring_inv_def by blast
  have c: "0 < hc_count conn" and conn': "conn' = conn\<lparr> hc_pipeline := (hc_pipeline conn)[hc_head conn := ?e],
      hc_head := (hc_head conn + 1) mod 16, hc_count := hc_count conn - 1 \<rparr>"
    using assms(2) by (auto simp: nfs_http_pipeline_dequeue_def NFS_HTTP_MAX_PIPELINE_def split: if_splits)
  have r: "length (hc_pipeline conn) = 16" "hc_head conn < 16" "hc_count conn \<le> 16"
    using assms(1) by (simp_all add: ring_inv_def)
  have pos: "((hc_head conn + 1) mod 16 + i) mod 16 = (hc_head conn + (i + 1)) mod 16" for i by presburger
  have other: "(hc_head conn + (i + 1)) mod 16 \<noteq> hc_head conn" if "i < hc_count conn - 1" for i
    using that r ring_slots [of 0 "i + 1" "hc_head conn"] less_diff_conv [of i "hc_count conn" 1] by simp
  have at: "hc_pipeline conn' ! (((hc_head conn + 1) mod 16 + i) mod 16) = hc_pipeline conn ! ((hc_head conn + (i + 1)) mod 16)"
    if "i < hc_count conn - 1" for i
    unfolding pos using other [OF that] by (simp add: conn')
  have "(hc_head conn + hc_count conn) mod 16 = ((hc_head conn + 1) mod 16 + (hc_count conn - 1)) mod 16"
    using c pos [of "hc_count conn - 1"] by simp
  moreover have "\<not> pe_responded (hc_pipeline conn ! ((hc_head conn + (i + 1)) mod 16))" if "i < hc_count conn - 1" for i
    using fresh [rule_format, of "i + 1"] that by linarith
  ultimately show "ring_inv conn'"
    using assms(1) at c by (auto simp: ring_inv_def conn')
  have up: "[0..<hc_count conn] = 0 # map Suc [0..<hc_count conn - 1]"
    using c by (metis Suc_diff_1 map_Suc_upt upt_conv_Cons)
  show "ring_queue conn' = tl (ring_queue conn)"
    unfolding ring_queue_def up using at by (simp add: Let_def conn')
qed

interpretation http_ring: simulation conn_step "\<lambda>_ _. True" ring_inv ring_queue queue_step
proof
  fix conn e
  assume inv: "ring_inv conn"
  have len: "length (ring_queue conn) = hc_count conn" by (simp add: ring_queue_def)
  have "ring_inv (conn_step conn e) \<and> ring_queue (conn_step conn e) = queue_step (ring_queue conn) e"
  proof (cases e)
    case (HcRequest h)
    have "hc_pipeline (nfs_http_conn_on_request conn h) = hc_pipeline conn" "hc_head (nfs_http_conn_on_request conn h) = hc_head conn"
      "hc_tail (nfs_http_conn_on_request conn h) = hc_tail conn" "hc_count (nfs_http_conn_on_request conn h) = hc_count conn"
      by (simp_all add: nfs_http_conn_on_request_def Let_def split: option.split)
    then show ?thesis using inv HcRequest by (simp add: ring_inv_def ring_queue_def)
  next
    case HcResponse
    have "hc_pipeline (nfs_http_conn_on_response conn) = hc_pipeline conn" "hc_head (nfs_http_conn_on_response conn) = hc_head conn"
      "hc_tail (nfs_http_conn_on_response conn) = hc_tail conn" "hc_count (nfs_http_conn_on_response conn) = hc_count conn"
      by (simp_all add: nfs_http_conn_on_response_def)
    then show ?thesis using inv HcResponse by (simp add: ring_inv_def ring_queue_def)
  next
    case (HcEnqueue m u)
    show ?thesis
    proof (cases "nfs_http_pipeline_enqueue conn m u")
      case None
      then have "\<not> (hc_count conn < 16 \<and> length m < 16 \<and> length u < 2048)"
        by (auto simp: nfs_http_pipeline_enqueue_def NFS_HTTP_MAX_PIPELINE_def http_sizes split: if_splits)
      then show ?thesis using None HcEnqueue inv by (auto simp: len)
    next
      case (Some conn')
      then have "hc_count conn < 16 \<and> length m < 16 \<and> length u < 2048"
        by (auto simp: nfs_http_pipeline_enqueue_def NFS_HTTP_MAX_PIPELINE_def http_sizes split: if_splits)
      then show ?thesis using Some HcEnqueue enqueue_ring [OF inv Some] by (simp add: len)
    qed
  next
    case HcDequeue
    show ?thesis
    proof (cases "nfs_http_pipeline_dequeue conn")
      case None
      then have "ring_queue conn = []" by (auto simp: nfs_http_pipeline_dequeue_def ring_queue_def split: if_splits)
      then show ?thesis using None HcDequeue inv by simp
    next
      case (Some conn')
      then show ?thesis using HcDequeue dequeue_ring [OF inv Some] by simp
    qed
  next
    case HcReset
    then show ?thesis using inv by (simp add: nfs_http_pipeline_reset_def ring_inv_def ring_queue_def)
  qed
  then show "ring_inv (conn_step conn e)" "ring_queue (conn_step conn e) = queue_step (ring_queue conn) e" by simp_all
qed

text \<open>
  C23. After any history the ring holds the requests not yet answered, in the order they came, at most 16 of them; the
  next one to answer is the oldest, unanswered; and when an exchange ends the connection is closed exactly if
  \<^verbatim>\<open>should_close\<close> said so.
\<close>
theorem http_pipeline_refines_queue:
  "let conn = foldl conn_step (nfs_http_conn_init version max_requests) es; q = foldl queue_step [] es in
     ring_queue conn = q \<and> nfs_http_pipeline_pending conn = length q \<and> length q \<le> 16 \<and>
     map_option (\<lambda>e. (pe_method e, pe_uri e, pe_responded e)) (nfs_http_pipeline_peek conn) =
       (case q of [] \<Rightarrow> None | (m, u) # rest \<Rightarrow> Some (m, u, False)) \<and>
     (let active = nfs_http_conn_on_request conn h in
        nfs_http_conn_get_state (nfs_http_conn_on_response active) =
          (if nfs_http_conn_should_close active then NFS_HTTP_CONN_CLOSE else NFS_HTTP_CONN_KEEP_ALIVE))"
proof -
  define conn where "conn = foldl conn_step (nfs_http_conn_init version max_requests) es"
  have init: "ring_inv (nfs_http_conn_init version max_requests)" "ring_queue (nfs_http_conn_init version max_requests) = []"
    by (simp_all add: nfs_http_conn_init_def ring_inv_def ring_queue_def NFS_HTTP_MAX_PIPELINE_def)
  have inv: "ring_inv conn" unfolding conn_def by (rule http_ring.run_inv) (simp_all add: init)
  have q: "ring_queue conn = foldl queue_step [] es" unfolding conn_def by (simp add: http_ring.run_abs init)
  have count: "hc_count conn = length (ring_queue conn)" by (simp add: ring_queue_def)
  have peek: "map_option (\<lambda>e. (pe_method e, pe_uri e, pe_responded e)) (nfs_http_pipeline_peek conn) =
       (case ring_queue conn of [] \<Rightarrow> None | (m, u) # rest \<Rightarrow> Some (m, u, False))"
  proof (cases "hc_count conn")
    case 0
    then show ?thesis by (simp add: nfs_http_pipeline_peek_def ring_queue_def)
  next
    case (Suc n)
    then have "\<not> pe_responded (hc_pipeline conn ! ((hc_head conn + 0) mod 16))" "hc_head conn < 16"
      using inv unfolding ring_inv_def by (metis zero_less_Suc, blast)
    then show ?thesis using Suc by (simp add: nfs_http_pipeline_peek_def ring_queue_def upt_conv_Cons Let_def del: upt_Suc)
  qed
  have close: "nfs_http_conn_get_state (nfs_http_conn_on_response (nfs_http_conn_on_request conn h)) =
      (if nfs_http_conn_should_close (nfs_http_conn_on_request conn h) then NFS_HTTP_CONN_CLOSE else NFS_HTTP_CONN_KEEP_ALIVE)"
    using nfs_http_version.exhaust [of "hc_version conn"]
    by (auto simp: nfs_http_conn_get_state_def nfs_http_conn_on_response_def nfs_http_conn_should_close_def
        nfs_http_conn_on_request_def Let_def split: option.split)
  have "hc_count conn \<le> 16" using inv by (simp add: ring_inv_def)
  then show ?thesis
    unfolding conn_def [symmetric] q [symmetric] Let_def
    using peek close count by (simp add: nfs_http_pipeline_pending_def)
qed

text \<open>A connection closed because its last request was served does not say so in the response.\<close>

lemma closed_without_notice:
  "let conn = nfs_http_conn_on_request (nfs_http_conn_init NFS_HTTP_VER_11 1) None in
     nfs_http_conn_should_close conn \<and> nfs_http_conn_response_header conn = None"
  by (simp add: nfs_http_conn_init_def nfs_http_conn_on_request_def nfs_http_conn_should_close_def
      nfs_http_conn_response_header_def Let_def)

end
