(* ===== verification/Vhost.thy ===== *)
theory Vhost
  imports Http
begin

text \<open>
  Virtual hosts (\<^verbatim>\<open>phases/06-application-protocols/25-http11-with-virtual-hosts/vhost.c\<close>): the table of sites and the
  routing of a raw request by its \<^verbatim>\<open>Host\<close> header. A pointer to a site is the site. Requests are those of the
  HTTP lesson: what the router takes from the bytes is what that parser finds in its header.
\<close>

section \<open>Definitions\<close>

definition NFS_VHOST_MAX_HOSTS :: nat where "NFS_VHOST_MAX_HOSTS = 32"
definition NFS_VHOST_MAX_HOSTNAME :: nat where "NFS_VHOST_MAX_HOSTNAME = 256"
definition NFS_VHOST_MAX_DOCROOT :: nat where "NFS_VHOST_MAX_DOCROOT = 512"
definition NFS_VHOST_MAX_ALIASES :: nat where "NFS_VHOST_MAX_ALIASES = 8"

lemmas vhost_sizes = NFS_VHOST_MAX_HOSTS_def NFS_VHOST_MAX_HOSTNAME_def NFS_VHOST_MAX_DOCROOT_def NFS_VHOST_MAX_ALIASES_def

record nfs_vhost =
  vh_hostname :: "u8 list"
  vh_docroot :: "u8 list"
  vh_aliases :: "u8 list list"
  vh_active :: bool

record nfs_vhost_table =
  vt_hosts :: "nfs_vhost list"
  vt_default_idx :: int

definition nfs_vhost_table_init :: nfs_vhost_table where
  "nfs_vhost_table_init = \<lparr> vt_hosts = [], vt_default_idx = -1 \<rparr>"

definition nfs_vhost_add :: "nfs_vhost_table \<Rightarrow> u8 list \<Rightarrow> u8 list \<Rightarrow> bool \<Rightarrow> (nfs_vhost_table \<times> nat) option" where
  "nfs_vhost_add table hostname docroot is_default =
     (if length (vt_hosts table) \<ge> NFS_VHOST_MAX_HOSTS then None
      else if length hostname \<ge> NFS_VHOST_MAX_HOSTNAME \<or> length docroot \<ge> NFS_VHOST_MAX_DOCROOT then None
      else
        let idx = length (vt_hosts table);
            vh = \<lparr> vh_hostname = hostname, vh_docroot = docroot, vh_aliases = [], vh_active = True \<rparr>
        in Some (table\<lparr> vt_hosts := vt_hosts table @ [vh],
                        vt_default_idx := (if is_default \<or> length (vt_hosts table) = 0 then int idx else vt_default_idx table) \<rparr>,
                 idx))"

definition nfs_vhost_add_alias :: "nfs_vhost_table \<Rightarrow> int \<Rightarrow> u8 list \<Rightarrow> nfs_vhost_table option" where
  "nfs_vhost_add_alias table host_idx alias =
     (if host_idx < 0 \<or> host_idx \<ge> int (length (vt_hosts table)) then None
      else
        let vh = vt_hosts table ! nat host_idx in
        if length (vh_aliases vh) \<ge> NFS_VHOST_MAX_ALIASES then None
        else if length alias \<ge> NFS_VHOST_MAX_HOSTNAME then None
        else Some (table\<lparr> vt_hosts := (vt_hosts table)[nat host_idx := vh\<lparr> vh_aliases := vh_aliases vh @ [alias] \<rparr>] \<rparr>))"

definition nfs_vhost_get_default :: "nfs_vhost_table \<Rightarrow> nfs_vhost option" where
  "nfs_vhost_get_default table =
     (if vt_default_idx table < 0 then None
      else if vt_default_idx table \<ge> int (length (vt_hosts table)) then None
      else Some (vt_hosts table ! nat (vt_default_idx table)))"

definition nfs_vhost_lookup :: "nfs_vhost_table \<Rightarrow> u8 list \<Rightarrow> nfs_vhost option" where
  "nfs_vhost_lookup table hostname =
     (case List.find (\<lambda>vh. vh_active vh \<and>
               (str_casecmp (vh_hostname vh) hostname = 0 \<or> list_ex (\<lambda>a. str_casecmp a hostname = 0) (vh_aliases vh)))
             (vt_hosts table) of
        Some vh \<Rightarrow> Some vh
      | None \<Rightarrow>
          if vt_default_idx table \<ge> 0 \<and> vt_default_idx table < int (length (vt_hosts table))
          then Some (vt_hosts table ! nat (vt_default_idx table))
          else None)"

definition nfs_vhost_count :: "nfs_vhost_table \<Rightarrow> nat" where
  "nfs_vhost_count table = length (vt_hosts table)"

text \<open>The digits of a port, in 16 bits.\<close>

definition parse_port :: "u8 list \<Rightarrow> u16" where
  "parse_port p = foldl (\<lambda>port c. port * 10 + (ucast c - 48)) 0 (takeWhile (\<lambda>c. 48 \<le> c \<and> c \<le> 57) p)"

definition nfs_vhost_parse_host_value :: "u8 list \<Rightarrow> nat \<Rightarrow> (u8 list \<times> u16) option" where
  "nfs_vhost_parse_host_value val hostname_sz =
     (if hostname_sz = 0 then None
      else if val \<noteq> [] \<and> hd val = 91 then
        (case find_idx (\<lambda>c. c = 93) val of None \<Rightarrow> None
         | Some bracket \<Rightarrow>
             let hlen = bracket - 1 in
             if hlen \<ge> hostname_sz then None
             else Some (take hlen (drop 1 val),
                    if bracket + 1 < length val \<and> val ! (bracket + 1) = colon_sign then parse_port (drop (bracket + 2) val)
                    else 80))
      else
        case find_idx (\<lambda>c. c = colon_sign) val of
          Some hlen \<Rightarrow>
            if hlen \<ge> hostname_sz then None else Some (take hlen val, parse_port (drop (hlen + 1) val))
        | None \<Rightarrow> if length val \<ge> hostname_sz then None else Some (val, 80))"

definition is_host_line :: "u8 list \<Rightarrow> nat \<Rightarrow> bool" where
  "is_host_line p line_len \<longleftrightarrow> line_len > 5 \<and> (p ! 0 = 72 \<or> p ! 0 = 104) \<and> (p ! 1 = 111 \<or> p ! 1 = 79) \<and>
     (p ! 2 = 115 \<or> p ! 2 = 83) \<and> (p ! 3 = 116 \<or> p ! 3 = 84) \<and> p ! 4 = colon_sign"

function host_search :: "u8 list \<Rightarrow> nat \<Rightarrow> u8 list option" where
  "host_search p host_out_sz =
     (if p = [] then None
      else if 2 \<le> length p \<and> p ! 0 = CR \<and> p ! 1 = LF then None
      else
        case find_crlf p of None \<Rightarrow> None
        | Some line_len \<Rightarrow>
            if is_host_line p line_len then
              let val = dropWhile (\<lambda>c. c = space) (drop 5 (take line_len p)) in
              if length val \<ge> NFS_VHOST_MAX_HOSTNAME then None
              else map_option fst (nfs_vhost_parse_host_value (cstr val) host_out_sz)
            else host_search (drop (line_len + 2) p) host_out_sz)"
  by pat_completeness auto
termination
  by (relation "measure (\<lambda>(p, n). length p)") auto

declare host_search.simps [simp del]

definition nfs_vhost_extract_host :: "u8 list \<Rightarrow> nat \<Rightarrow> u8 list option" where
  "nfs_vhost_extract_host request host_out_sz =
     (if host_out_sz = 0 then None
      else
        case find_crlf request of None \<Rightarrow> None
        | Some crlf \<Rightarrow> host_search (drop (crlf + 2) request) host_out_sz)"

definition nfs_vhost_route :: "nfs_vhost_table \<Rightarrow> u8 list \<Rightarrow> nfs_vhost option" where
  "nfs_vhost_route table request =
     (case nfs_vhost_extract_host request NFS_VHOST_MAX_HOSTNAME of
        None \<Rightarrow> nfs_vhost_get_default table
      | Some hostname \<Rightarrow> nfs_vhost_lookup table hostname)"

definition nfs_vhost_validate_request :: "u8 list \<Rightarrow> bool" where
  "nfs_vhost_validate_request request =
     (case find_crlf request of None \<Rightarrow> False
      | Some line_len \<Rightarrow>
          if line_len < 8 then False
          else if take 8 (drop (line_len - 8) request) \<noteq> text_bytes ''HTTP/1.1'' then True
          else nfs_vhost_extract_host request NFS_VHOST_MAX_HOSTNAME \<noteq> None)"

section \<open>The Host header\<close>

abbreviation host_key :: "u8 list" where "host_key \<equiv> map tolower (text_bytes ''Host'')"

text \<open>The name a header value stands for: without brackets and without port.\<close>

definition host_of :: "u8 list \<Rightarrow> u8 list option" where
  "host_of v =
     (if length v \<ge> 256 then None
      else if v \<noteq> [] \<and> hd v = 91 then (if 93 \<in> set v then Some (takeWhile (\<lambda>c. c \<noteq> 93) (tl v)) else None)
      else Some (takeWhile (\<lambda>c. c \<noteq> colon_sign) v))"

lemma tolower_letter:
  "tolower c = 104 \<longleftrightarrow> c = 72 \<or> c = 104" "tolower c = 111 \<longleftrightarrow> c = 111 \<or> c = 79"
  "tolower c = 115 \<longleftrightarrow> c = 115 \<or> c = 83" "tolower c = 116 \<longleftrightarrow> c = 116 \<or> c = 84"
  by (auto simp: tolower_def simp flip: eq_diff_eq)

lemma host_key_eq: "host_key = [104, 111, 115, 116]"
  by (simp add: text_bytes_def tolower_def)

lemma host_key_length: "map tolower name = host_key \<Longrightarrow> length name = 4"
  by (drule arg_cong [where f = length]) (simp add: host_key_eq)

lemma takeWhile_neq: "c \<notin> set xs \<Longrightarrow> takeWhile (\<lambda>x. x \<noteq> c) xs = xs"
  by (induction xs) auto

lemma is_host_line_iff:
  assumes "colon_sign \<notin> set name"
  shows "is_host_line (name @ colon_sign # space # v) (length name + 2 + n) \<longleftrightarrow> map tolower name = host_key"
proof (cases "length name = 4")
  case True
  then obtain a b c d where "name = [a, b, c, d]" by (auto simp: length_Suc_conv numeral_eq_Suc)
  then show ?thesis by (auto simp: is_host_line_def host_key_eq tolower_letter)
next
  case False
  have "\<not> is_host_line (name @ colon_sign # space # v) (length name + 2 + n)"
  proof (cases "4 < length name")
    case True
    then have "name ! 4 \<noteq> colon_sign" using assms nth_mem by metis
    then show ?thesis using True by (simp add: is_host_line_def nth_append)
  next
    case short: False
    then consider "name = []" | a where "name = [a]" | a b where "name = [a, b]" | a b c where "name = [a, b, c]"
      using False by (cases name; cases "tl name"; cases "tl (tl name)"; cases "tl (tl (tl name))") auto
    then show ?thesis by cases (auto simp: is_host_line_def)
  qed
  moreover have "map tolower name \<noteq> host_key" using False host_key_length by blast
  ultimately show ?thesis by simp
qed

lemma find_idx_takeWhile: "find_idx P xs = (if \<exists>x \<in> set xs. P x then Some (length (takeWhile (\<lambda>x. \<not> P x) xs)) else None)"
  by (induction xs) auto

lemma take_takeWhile: "take (length (takeWhile P xs)) xs = takeWhile P xs"
  by (metis append_eq_conv_conj takeWhile_dropWhile_id)

lemma parse_host_value_eq:
  "length v < 256 \<Longrightarrow> map_option fst (nfs_vhost_parse_host_value v 256) = host_of v"
  using length_takeWhile_le [of "\<lambda>c. c \<noteq> colon_sign" v] length_takeWhile_le [of "\<lambda>c. c \<noteq> 93" "tl v"]
  by (cases v) (auto simp: nfs_vhost_parse_host_value_def host_of_def find_idx_takeWhile take_takeWhile Let_def
        takeWhile_neq)


lemma host_search_line:
  assumes "header_wf h"
  shows "host_search (header_line h @ rest) 256 =
    (if map tolower (hh_name h) = host_key then host_of (hh_value h) else host_search rest 256)"
proof -
  let ?p = "header_line h @ rest" and ?line = "hh_name h @ colon_sign # space # hh_value h"
  have wf: "hh_name h \<noteq> []" "colon_sign \<notin> set (hh_name h)" "CR \<notin> set (hh_name h)"
    "CR \<notin> set (hh_value h)" "0 \<notin> set (hh_value h)" "hh_value h \<noteq> [] \<longrightarrow> hd (hh_value h) \<noteq> space"
    using assms by (auto simp: header_wf_def)
  have p: "?p = ?line @ CR # LF # rest" by (simp add: header_line_def)
  have "CR \<notin> set ?line" using wf by auto
  then have crlf: "find_crlf ?p = Some (length ?line)" unfolding p by (rule find_crlf_line)
  have line: "take (length ?line) ?p = ?line" unfolding p by simp
  have first: "\<not> (2 \<le> length ?p \<and> ?p ! 0 = CR \<and> ?p ! 1 = LF)" "?p \<noteq> []"
    using wf(1,3) by (cases "hh_name h"; auto simp: header_line_def)+
  have host: "is_host_line ?p (length ?line) \<longleftrightarrow> map tolower (hh_name h) = host_key"
    using is_host_line_iff [OF wf(2), of "hh_value h @ CR # LF # rest" "length (hh_value h)"] by (simp add: p)
  have val: "dropWhile (\<lambda>c. c = space) (drop 5 ?line) = hh_value h" if "map tolower (hh_name h) = host_key"
  proof -
    have "length (hh_name h) = 4" using that by (rule host_key_length)
    then show ?thesis using wf(6) by (cases "hh_value h") auto
  qed
  have cs: "cstr (hh_value h) = hh_value h" using wf(5) by (simp add: cstr_def takeWhile_neq)
  have dropl: "drop (length ?line + 2) ?p = rest" unfolding p by (rule drop_line)
  show ?thesis
    unfolding host_search.simps [of ?p 256] if_not_P [OF first(1)] if_not_P [OF first(2)] crlf option.case line host Let_def dropl
    using val cs parse_host_value_eq [of "hh_value h"]
    by (simp add: vhost_sizes host_of_def del: append.simps)
qed


lemma host_search_lines:
  "list_all header_wf gs \<Longrightarrow> host_search (concat (map header_line gs) @ CR # LF # rest) 256 =
     (case List.find (\<lambda>h. map tolower (hh_name h) = host_key) gs of None \<Rightarrow> None | Some h \<Rightarrow> host_of (hh_value h))"
proof (induction gs)
  case Nil
  show ?case by (subst host_search.simps) simp
next
  case (Cons g gs)
  then show ?case using host_search_line [of g "concat (map header_line gs) @ CR # LF # rest"] by simp
qed

lemma get_host_header:
  assumes "list_all header_wf (rq_headers req)"
  shows "nfs_http_request_get_header req (text_bytes ''Host'') =
    map_option hh_value (List.find (\<lambda>h. map tolower (hh_name h) = host_key) (rq_headers req))"
  unfolding nfs_http_request_get_header_def using assms
proof (induction "rq_headers req" arbitrary: req)
  case (Cons h hs)
  have nul: "0 \<notin> set (text_bytes ''Host'')" by (simp add: text_bytes_def)
  have h: "0 \<notin> set (hh_name h)" "0 \<notin> set (hh_value h)" using Cons by (auto simp: header_wf_def simp flip: Cons.hyps(2))
  show ?case
    using Cons.hyps(1) [of "req\<lparr> rq_headers := hs \<rparr>"] Cons.prems str_casecmp_0 [OF h(1) nul] h
    by (simp add: cstr_def takeWhile_neq flip: Cons.hyps(2))
qed simp

text \<open>The router takes the same header of the request as the HTTP parser.\<close>

lemma extract_host_request:
  assumes "request_wf req"
  shows "nfs_vhost_extract_host (request_text req) 256 =
    Option.bind (nfs_http_request_get_header req (text_bytes ''Host'')) host_of"
proof -
  let ?line = "rq_method req @ space # rq_uri req @ space # rq_version req"
  let ?rest = "concat (map header_line (rq_headers req)) @ CR # LF # rq_body req"
  have wf: "CR \<notin> set ?line" "list_all header_wf (rq_headers req)" using assms by (auto simp: request_wf_def)
  have t: "request_text req = ?line @ CR # LF # ?rest" by (simp add: request_text_def)
  show ?thesis
    unfolding nfs_vhost_extract_host_def t find_crlf_line [OF wf(1)] option.case drop_line host_search_lines [OF wf(2)]
      get_host_header [OF wf(2)]
    by (simp split: option.split)
qed

section \<open>The table of sites\<close>

datatype vhost_event = VhAdd "u8 list" "u8 list" bool | VhAlias int "u8 list"

fun vhost_step :: "nfs_vhost_table \<Rightarrow> vhost_event \<Rightarrow> nfs_vhost_table" where
  "vhost_step table (VhAdd hostname docroot is_default) =
     (case nfs_vhost_add table hostname docroot is_default of None \<Rightarrow> table | Some (t, idx) \<Rightarrow> t)"
| "vhost_step table (VhAlias host_idx alias) =
     (case nfs_vhost_add_alias table host_idx alias of None \<Rightarrow> table | Some t \<Rightarrow> t)"

fun vhost_ok :: "nfs_vhost_table \<Rightarrow> vhost_event \<Rightarrow> bool" where
  "vhost_ok table (VhAdd hostname docroot is_default) \<longleftrightarrow> 0 \<notin> set hostname"
| "vhost_ok table (VhAlias host_idx alias) \<longleftrightarrow> 0 \<notin> set alias"

text \<open>What the table stands for: the names of each site, in lower case, its document root, and the default.\<close>

type_synonym sites = "(u8 list list \<times> u8 list) list \<times> nat option"

fun site_step :: "sites \<Rightarrow> vhost_event \<Rightarrow> sites" where
  "site_step (ss, d) (VhAdd hostname docroot is_default) =
     (if length ss < 32 \<and> length hostname < 256 \<and> length docroot < 512
      then (ss @ [([map tolower hostname], docroot)], if is_default \<or> ss = [] then Some (length ss) else d)
      else (ss, d))"
| "site_step (ss, d) (VhAlias i alias) =
     (if 0 \<le> i \<and> nat i < length ss \<and> length (fst (ss ! nat i)) \<le> 8 \<and> length alias < 256
      then (ss[nat i := (fst (ss ! nat i) @ [map tolower alias], snd (ss ! nat i))], d)
      else (ss, d))"

definition site_of :: "nfs_vhost \<Rightarrow> u8 list list \<times> u8 list" where
  "site_of vh = (map (map tolower) (vh_hostname vh # vh_aliases vh), vh_docroot vh)"

definition table_sites :: "nfs_vhost_table \<Rightarrow> sites" where
  "table_sites table =
     (map site_of (vt_hosts table), if vt_default_idx table < 0 then None else Some (nat (vt_default_idx table)))"

definition site_ok :: "nfs_vhost \<Rightarrow> bool" where
  "site_ok vh \<longleftrightarrow> vh_active vh \<and> 0 \<notin> set (vh_hostname vh) \<and> list_all (\<lambda>a. 0 \<notin> set a) (vh_aliases vh)"

definition vhost_inv :: "nfs_vhost_table \<Rightarrow> bool" where
  "vhost_inv table \<longleftrightarrow> vt_default_idx table < int (length (vt_hosts table)) \<and> list_all site_ok (vt_hosts table)"

interpretation vhost_tab: simulation vhost_step vhost_ok vhost_inv table_sites site_step
proof
  fix t e
  assume inv: "vhost_inv t" and ok: "vhost_ok t e"
  have "vhost_inv (vhost_step t e) \<and> table_sites (vhost_step t e) = site_step (table_sites t) e"
  proof (cases e)
    case (VhAdd h d f)
    then show ?thesis using inv ok
      by (auto simp: nfs_vhost_add_def vhost_sizes vhost_inv_def site_ok_def table_sites_def site_of_def Let_def)
  next
    case (VhAlias i a)
    have at: "i < int (length (vt_hosts t)) \<Longrightarrow> 0 \<le> i \<Longrightarrow> nat i < length (vt_hosts t)" by linarith
    have upd: "list_all P xs \<Longrightarrow> P x \<Longrightarrow> list_all P (xs[n := x])" for P and xs :: "nfs_vhost list" and x n
      by (auto simp: list_all_iff dest: set_update_subset_insert [THEN subsetD])
    show ?thesis
    proof (cases "nfs_vhost_add_alias t i a")
      case None
      then have "\<not> (0 \<le> i \<and> nat i < length (vt_hosts t) \<and> length (vh_aliases (vt_hosts t ! nat i)) < 8 \<and> length a < 256)"
        by (auto simp: nfs_vhost_add_alias_def vhost_sizes Let_def split: if_splits)
      then show ?thesis using None VhAlias inv by (auto simp: table_sites_def site_of_def)
    next
      case (Some t')
      let ?vh = "vt_hosts t ! nat i"
      have c: "0 \<le> i" "nat i < length (vt_hosts t)" "length (vh_aliases ?vh) < 8" "length a < 256" and
        t': "t' = t\<lparr> vt_hosts := (vt_hosts t)[nat i := ?vh\<lparr> vh_aliases := vh_aliases ?vh @ [a] \<rparr>] \<rparr>"
        using Some by (auto simp: nfs_vhost_add_alias_def vhost_sizes Let_def split: if_splits)
      have "site_ok ?vh" using inv c(2) by (simp add: vhost_inv_def list_all_length)
      then have "site_ok (?vh\<lparr> vh_aliases := vh_aliases ?vh @ [a] \<rparr>)" using ok VhAlias by (simp add: site_ok_def)
      then have "vhost_inv t'" using inv upd by (simp add: vhost_inv_def t')
      moreover have "table_sites t' = site_step (table_sites t) e"
        using c VhAlias by (simp add: t' table_sites_def site_of_def map_update)
      ultimately show ?thesis using Some VhAlias by simp
    qed
  qed
  then show "vhost_inv (vhost_step t e)" "table_sites (vhost_step t e) = site_step (table_sites t) e" by simp_all
qed


text \<open>The document root of the site with the name, or else of the default site.\<close>

definition default_root :: "sites \<Rightarrow> u8 list option" where
  "default_root ss = map_option (\<lambda>d. snd (fst ss ! d)) (snd ss)"

definition root_for :: "sites \<Rightarrow> u8 list \<Rightarrow> u8 list option" where
  "root_for ss name =
     (case List.find (\<lambda>s. map tolower name \<in> set (fst s)) (fst ss) of
        Some s \<Rightarrow> Some (snd s) | None \<Rightarrow> default_root ss)"

lemma get_default_root: "vhost_inv t \<Longrightarrow> map_option vh_docroot (nfs_vhost_get_default t) = default_root (table_sites t)"
  by (auto simp: nfs_vhost_get_default_def default_root_def table_sites_def site_of_def vhost_inv_def)

lemma find_site:
  "list_all site_ok vhs \<Longrightarrow> 0 \<notin> set name \<Longrightarrow>
     List.find (\<lambda>s. map tolower name \<in> set (fst s)) (map site_of vhs) =
     map_option site_of (List.find (\<lambda>vh. vh_active vh \<and>
       (str_casecmp (vh_hostname vh) name = 0 \<or> list_ex (\<lambda>a. str_casecmp a name = 0) (vh_aliases vh))) vhs)"
proof (induction vhs)
  case (Cons vh vhs)
  have "map tolower name \<in> set (fst (site_of vh)) \<longleftrightarrow>
      str_casecmp (vh_hostname vh) name = 0 \<or> list_ex (\<lambda>a. str_casecmp a name = 0) (vh_aliases vh)"
    using Cons.prems by (auto simp: site_of_def site_ok_def str_casecmp_0 list_all_iff list_ex_iff image_iff eq_commute [of "map tolower name"])
  then show ?case using Cons by (simp add: site_ok_def)
qed simp

lemma lookup_root:
  assumes "vhost_inv t" and "0 \<notin> set name"
  shows "map_option vh_docroot (nfs_vhost_lookup t name) = root_for (table_sites t) name"
proof -
  have dflt: "(if vt_default_idx t \<ge> 0 \<and> vt_default_idx t < int (length (vt_hosts t)) then Some (vt_hosts t ! nat (vt_default_idx t))
      else None) = nfs_vhost_get_default t"
    by (auto simp: nfs_vhost_get_default_def)
  have "fst (table_sites t) = map site_of (vt_hosts t)" "list_all site_ok (vt_hosts t)"
    using assms(1) by (simp_all add: table_sites_def vhost_inv_def)
  then show ?thesis
    unfolding nfs_vhost_lookup_def root_for_def dflt get_default_root [OF assms(1), symmetric]
    using assms(2) by (auto simp: find_site site_of_def split: option.split)
qed

lemma host_of_nul: "host_of v = Some h \<Longrightarrow> 0 \<notin> set v \<Longrightarrow> 0 \<notin> set h"
  by (cases v) (auto simp: host_of_def split: if_splits dest: set_takeWhileD)

lemma get_header_nul:
  "list_all header_wf (rq_headers req) \<Longrightarrow> nfs_http_request_get_header req (text_bytes ''Host'') = Some v \<Longrightarrow> 0 \<notin> set v"
  by (auto simp: get_host_header list_all_iff header_wf_def dest!: find_SomeD)

lemma validate_request:
  assumes "request_wf req" and "rq_version req = text_bytes ''HTTP/1.1''"
  shows "nfs_vhost_validate_request (request_text req) \<longleftrightarrow> nfs_vhost_extract_host (request_text req) 256 \<noteq> None"
proof -
  let ?front = "rq_method req @ space # rq_uri req @ [space]"
  let ?rest = "concat (map header_line (rq_headers req)) @ CR # LF # rq_body req"
  have t: "request_text req = (?front @ rq_version req) @ CR # LF # ?rest" by (simp add: request_text_def)
  have "CR \<notin> set (?front @ rq_version req)" using assms(1) by (auto simp: request_wf_def)
  then have crlf: "find_crlf (request_text req) = Some (length (?front @ rq_version req))"
    unfolding t by (rule find_crlf_line)
  have len: "length (rq_version req) = 8" by (simp add: assms(2) text_bytes_def)
  have "take 8 (drop (length (?front @ rq_version req) - 8) (request_text req)) = rq_version req"
    unfolding t using len by simp
  then show ?thesis
    unfolding nfs_vhost_validate_request_def crlf option.case using len
    by (simp add: assms(2) NFS_VHOST_MAX_HOSTNAME_def)
qed

text \<open>
  C22. A well-formed request, as the HTTP lesson parses it, is routed by the table that any run of additions left: to
  the first site one of whose names, without regard to case, is the one that the value of the request's
  \<^verbatim>\<open>Host\<close> header gives without brackets and port, and to the default site if there is none or no usable
  header. An HTTP/1.1 request is valid exactly if it has a usable header.
\<close>
theorem vhost_routes_request:
  assumes "request_wf req" and "guarded vhost_step vhost_ok nfs_vhost_table_init es"
  shows "let host = Option.bind (nfs_http_request_get_header req (text_bytes ''Host'')) host_of;
             ss = foldl site_step ([], None) es in
    nfs_http_request_parse (request_text req) = Some req \<and>
    map_option vh_docroot (nfs_vhost_route (foldl vhost_step nfs_vhost_table_init es) (request_text req)) =
      (case host of None \<Rightarrow> default_root ss | Some name \<Rightarrow> root_for ss name) \<and>
    (rq_version req = text_bytes ''HTTP/1.1'' \<longrightarrow> nfs_vhost_validate_request (request_text req) = (host \<noteq> None))"
proof -
  let ?t = "foldl vhost_step nfs_vhost_table_init es"
  have init: "vhost_inv nfs_vhost_table_init" "table_sites nfs_vhost_table_init = ([], None)"
    by (simp_all add: vhost_inv_def nfs_vhost_table_init_def table_sites_def)
  have inv: "vhost_inv ?t" by (rule vhost_tab.run_inv [OF init(1) assms(2)])
  have ss: "table_sites ?t = foldl site_step ([], None) es"
    using vhost_tab.run_abs [OF init(1) assms(2)] by (simp add: init)
  have hs: "list_all header_wf (rq_headers req)" using assms(1) by (simp add: request_wf_def)
  have nul: "0 \<notin> set name"
    if "Option.bind (nfs_http_request_get_header req (text_bytes ''Host'')) host_of = Some name" for name
    using that get_header_nul [OF hs] host_of_nul by (auto simp: bind_eq_Some_conv)
  show ?thesis
    unfolding Let_def ss [symmetric]
    using request_parse_text [OF assms(1)] validate_request [OF assms(1)] extract_host_request [OF assms(1)]
      get_default_root [OF inv] lookup_root [OF inv] nul
    by (auto simp: nfs_vhost_route_def NFS_VHOST_MAX_HOSTNAME_def split: option.split)
qed

definition sample_get :: nfs_http_request where
  "sample_get = \<lparr> rq_method = text_bytes ''GET'', rq_uri = text_bytes ''/'', rq_version = text_bytes ''HTTP/1.1'',
     rq_headers = [\<lparr> hh_name = text_bytes ''HOST'', hh_value = text_bytes ''B.org:8080'' \<rparr>], rq_body = [] \<rparr>"

theorem vhost_routes_request_witness:
  "map_option vh_docroot (nfs_vhost_route (foldl vhost_step nfs_vhost_table_init
     [VhAdd (text_bytes ''a.org'') [65] False, VhAdd (text_bytes ''c.org'') [67] False, VhAlias 1 (text_bytes ''b.org'')])
     (request_text sample_get)) = Some [67]"
  using vhost_routes_request [of sample_get
      "[VhAdd (text_bytes ''a.org'') [65] False, VhAdd (text_bytes ''c.org'') [67] False, VhAlias 1 (text_bytes ''b.org'')]"]
  by (simp add: Let_def sample_get_def request_wf_def header_wf_def text_bytes_def vhost_step.simps nfs_vhost_add_def nfs_vhost_table_init_def
      vhost_sizes nfs_http_request_get_header_def cstr_def host_of_def root_for_def tolower_def)

text \<open>A \<^verbatim>\<open>Host\<close> line without a space and without a value is overlooked, and the request refused.\<close>

lemma empty_host_refused:
  "\<not> nfs_vhost_validate_request (text_bytes ''GET / HTTP/1.1'' @ [CR, LF] @ text_bytes ''Host:'' @ [CR, LF, CR, LF])"
  by (simp add: nfs_vhost_validate_request_def nfs_vhost_extract_host_def text_bytes_def host_search.simps is_host_line_def
      NFS_VHOST_MAX_HOSTNAME_def)

text \<open>A port is taken modulo \<open>2 ^ 16\<close>.\<close>

lemma host_port_wraps:
  "nfs_vhost_parse_host_value (text_bytes ''a:65616'') 256 = Some (text_bytes ''a'', 80)"
  by (simp add: nfs_vhost_parse_host_value_def text_bytes_def parse_port_def)

end
