(* ===== verification/Url.thy ===== *)
theory Url
  imports Http
begin

text \<open>
  Percent-encoding, form encoding and MIME types
  (\<^verbatim>\<open>phases/06-application-protocols/27-url-encoding-mime-types/urlenc.c\<close>). A C string is the list of its bytes before the
  NUL; the output is what is written before the final NUL, of the length that is returned.
\<close>

section \<open>Definitions\<close>

unbundle bit_operations_syntax

abbreviation percent_sign :: u8 where "percent_sign \<equiv> 37"
abbreviation plus_sign :: u8 where "plus_sign \<equiv> 43"

definition isalnum :: "u8 \<Rightarrow> bool" where
  "isalnum c \<longleftrightarrow> (48 \<le> c \<and> c \<le> 57) \<or> (65 \<le> c \<and> c \<le> 90) \<or> (97 \<le> c \<and> c \<le> 122)"

definition is_unreserved :: "u8 \<Rightarrow> bool" where
  "is_unreserved c \<longleftrightarrow> isalnum c \<or> c = 45 \<or> c = 95 \<or> c = 46 \<or> c = 126"

definition hex_chars :: "u8 list" where
  "hex_chars = text_bytes ''0123456789ABCDEF''"

definition hex_val :: "u8 \<Rightarrow> int" where
  "hex_val c = (if 48 \<le> c \<and> c \<le> 57 then uint c - 48 else if 97 \<le> c \<and> c \<le> 102 then uint c - 97 + 10
                else if 65 \<le> c \<and> c \<le> 70 then uint c - 65 + 10 else -1)"

definition put_percent :: "u8 \<Rightarrow> u8 list" where
  "put_percent c = [percent_sign, hex_chars ! unat (drop_bit 4 c AND 0x0F), hex_chars ! unat (c AND 0x0F)]"

fun url_encode_loop :: "u8 list \<Rightarrow> nat \<Rightarrow> u8 list \<Rightarrow> u8 list option" where
  "url_encode_loop [] out_sz out = Some out"
| "url_encode_loop (c # p) out_sz out =
     (if is_unreserved c then
        if length out + 1 \<ge> out_sz then None else url_encode_loop p out_sz (out @ [c])
      else
        if length out + 3 \<ge> out_sz then None else url_encode_loop p out_sz (out @ put_percent c))"

definition nfs_url_encode :: "u8 list \<Rightarrow> nat \<Rightarrow> u8 list option" where
  "nfs_url_encode input out_sz = (if out_sz = 0 then None else url_encode_loop input out_sz [])"

fun url_decode_loop :: "u8 list \<Rightarrow> nat \<Rightarrow> u8 list \<Rightarrow> u8 list option" where
  "url_decode_loop [] out_sz out = Some out"
| "url_decode_loop (c # p) out_sz out =
     (if length out + 1 \<ge> out_sz then None
      else if c = percent_sign then
        (case p of
           a # b # r \<Rightarrow>
             let hi = hex_val a; lo = hex_val b in
             if hi < 0 \<or> lo < 0 then None else url_decode_loop r out_sz (out @ [word_of_int (push_bit 4 hi OR lo)])
         | _ \<Rightarrow> None)
      else url_decode_loop p out_sz (out @ [c]))"

definition nfs_url_decode :: "u8 list \<Rightarrow> nat \<Rightarrow> u8 list option" where
  "nfs_url_decode input out_sz = (if out_sz = 0 then None else url_decode_loop input out_sz [])"

fun form_encode_loop :: "u8 list \<Rightarrow> nat \<Rightarrow> u8 list \<Rightarrow> u8 list option" where
  "form_encode_loop [] out_sz out = Some out"
| "form_encode_loop (c # p) out_sz out =
     (if c = space then
        if length out + 1 \<ge> out_sz then None else form_encode_loop p out_sz (out @ [plus_sign])
      else if is_unreserved c then
        if length out + 1 \<ge> out_sz then None else form_encode_loop p out_sz (out @ [c])
      else
        if length out + 3 \<ge> out_sz then None else form_encode_loop p out_sz (out @ put_percent c))"

definition nfs_form_encode :: "u8 list \<Rightarrow> nat \<Rightarrow> u8 list option" where
  "nfs_form_encode input out_sz = (if out_sz = 0 then None else form_encode_loop input out_sz [])"

fun form_decode_loop :: "u8 list \<Rightarrow> nat \<Rightarrow> u8 list \<Rightarrow> u8 list option" where
  "form_decode_loop [] out_sz out = Some out"
| "form_decode_loop (c # p) out_sz out =
     (if length out + 1 \<ge> out_sz then None
      else if c = plus_sign then form_decode_loop p out_sz (out @ [space])
      else if c = percent_sign then
        (case p of
           a # b # r \<Rightarrow>
             let hi = hex_val a; lo = hex_val b in
             if hi < 0 \<or> lo < 0 then None else form_decode_loop r out_sz (out @ [word_of_int (push_bit 4 hi OR lo)])
         | _ \<Rightarrow> None)
      else form_decode_loop p out_sz (out @ [c]))"

definition nfs_form_decode :: "u8 list \<Rightarrow> nat \<Rightarrow> u8 list option" where
  "nfs_form_decode input out_sz = (if out_sz = 0 then None else form_decode_loop input out_sz [])"

definition mime_table :: "(string \<times> string) list" where
  "mime_table =
    [(''html'', ''text/html''), (''htm'', ''text/html''), (''css'', ''text/css''), (''js'', ''application/javascript''),
     (''json'', ''application/json''), (''xml'', ''application/xml''), (''txt'', ''text/plain''), (''csv'', ''text/csv''),
     (''png'', ''image/png''), (''jpg'', ''image/jpeg''), (''jpeg'', ''image/jpeg''), (''gif'', ''image/gif''),
     (''svg'', ''image/svg+xml''), (''ico'', ''image/x-icon''), (''webp'', ''image/webp''), (''pdf'', ''application/pdf''),
     (''zip'', ''application/zip''), (''gz'', ''application/gzip''), (''tar'', ''application/x-tar''), (''mp3'', ''audio/mpeg''),
     (''mp4'', ''video/mp4''), (''wav'', ''audio/wav''), (''webm'', ''video/webm''), (''woff'', ''font/woff''),
     (''woff2'', ''font/woff2''), (''ttf'', ''font/ttf''), (''otf'', ''font/otf''), (''wasm'', ''application/wasm'')]"

definition nfs_mime_type_for_ext :: "u8 list \<Rightarrow> string" where
  "nfs_mime_type_for_ext ext =
     (case List.find (\<lambda>e. str_casecmp (text_bytes (fst e)) ext = 0) mime_table of
        Some e \<Rightarrow> snd e | None \<Rightarrow> ''application/octet-stream'')"

section \<open>Encoding\<close>

text \<open>What a byte becomes.\<close>

definition url_piece :: "u8 \<Rightarrow> u8 list" where
  "url_piece c = (if is_unreserved c then [c] else put_percent c)"

definition form_piece :: "u8 \<Rightarrow> u8 list" where
  "form_piece c = (if c = space then [plus_sign] else url_piece c)"

lemma space_reserved: "\<not> is_unreserved space" by (simp add: is_unreserved_def isalnum_def)

lemma url_encode_loop_eq:
  "url_encode_loop s n out =
     (if s = [] \<or> length out + length (concat (map url_piece s)) < n then Some (out @ concat (map url_piece s)) else None)"
  by (induction s arbitrary: out) (auto simp: url_piece_def put_percent_def)

lemma form_encode_loop_eq:
  "form_encode_loop s n out =
     (if s = [] \<or> length out + length (concat (map form_piece s)) < n then Some (out @ concat (map form_piece s)) else None)"
  by (induction s arbitrary: out) (auto simp: form_piece_def url_piece_def put_percent_def space_reserved)

lemma url_encode_eq:
  "nfs_url_encode s n =
     (if length (concat (map url_piece s)) < n then Some (concat (map url_piece s)) else None)"
  by (auto simp: nfs_url_encode_def url_encode_loop_eq)

lemma form_encode_eq:
  "nfs_form_encode s n =
     (if length (concat (map form_piece s)) < n then Some (concat (map form_piece s)) else None)"
  by (auto simp: nfs_form_encode_def form_encode_loop_eq)

section \<open>Decoding\<close>

lemma hex_val_char: "k < 16 \<Longrightarrow> hex_val (hex_chars ! k) = int k"
proof -
  have "\<forall>k \<in> set [0..<16]. hex_val (hex_chars ! k) = int k"
    by (simp add: hex_chars_def text_bytes_def hex_val_def upt_conv_Cons)
  then show "k < 16 \<Longrightarrow> ?thesis" by simp
qed

lemma nibbles_join: "push_bit 4 (drop_bit 4 c AND 0x0F) OR (c AND 0x0F) = (c :: u8)"
proof -
  have m: "(0x0F :: u8) = mask 4" by (simp add: mask_eq_exp_minus_1)
  show ?thesis unfolding m by (rule bit_word_eqI) (auto simp: bit_simps)
qed

lemma percent_decodes:
  "0 \<le> hex_val (hex_chars ! unat (drop_bit 4 c AND 0x0F)) \<and> 0 \<le> hex_val (hex_chars ! unat (c AND 0x0F)) \<and>
   word_of_int (push_bit 4 (hex_val (hex_chars ! unat (drop_bit 4 c AND 0x0F))) OR hex_val (hex_chars ! unat (c AND 0x0F))) = (c :: u8)"
proof -
  have low: "unat (x AND 0x0F) < 16" for x :: u8
    using word_and_le1 [of x "0x0F"] by (simp add: word_le_nat_alt)
  have "word_of_int (push_bit 4 (uint (drop_bit 4 c AND 0x0F)) OR uint (c AND 0x0F)) = c"
    unfolding of_int_or_eq push_bit_of_int [symmetric] word_of_int_uint by (rule nibbles_join)
  then show ?thesis by (simp add: hex_val_char [OF low])
qed

lemma url_decode_piece:
  "url_decode_loop (url_piece c @ r) n out = (if length out + 1 \<ge> n then None else url_decode_loop r n (out @ [c]))"
  using percent_decodes [of c]
  by (auto simp: url_piece_def put_percent_def Let_def is_unreserved_def isalnum_def)

lemma form_decode_piece:
  "form_decode_loop (form_piece c @ r) n out = (if length out + 1 \<ge> n then None else form_decode_loop r n (out @ [c]))"
  using percent_decodes [of c]
  by (auto simp: form_piece_def url_piece_def put_percent_def Let_def is_unreserved_def isalnum_def)

lemma form_decode_url_piece:
  "form_decode_loop (url_piece c @ r) n out = (if length out + 1 \<ge> n then None else form_decode_loop r n (out @ [c]))"
  using percent_decodes [of c]
  by (auto simp: url_piece_def put_percent_def Let_def is_unreserved_def isalnum_def)


lemma decode_pieces:
  "url_decode_loop (concat (map url_piece s)) n out =
     (if s = [] \<or> length out + length s < n then Some (out @ s) else None)"
  "form_decode_loop (concat (map form_piece s)) n out =
     (if s = [] \<or> length out + length s < n then Some (out @ s) else None)"
  "form_decode_loop (concat (map url_piece s)) n out =
     (if s = [] \<or> length out + length s < n then Some (out @ s) else None)"
  by (induction s arbitrary: out) (auto simp: url_decode_piece form_decode_piece form_decode_url_piece)

text \<open>The characters of encoded text need no encoding, but for the percent and the plus signs.\<close>

lemma hex_chars_alnum: "k < 16 \<Longrightarrow> isalnum (hex_chars ! k)"
proof -
  have "\<forall>k \<in> set [0..<16]. isalnum (hex_chars ! k)"
    by (simp add: hex_chars_def text_bytes_def isalnum_def upt_conv_Cons)
  then show "k < 16 \<Longrightarrow> ?thesis" by simp
qed

lemma piece_chars:
  "x \<in> set (url_piece c) \<Longrightarrow> is_unreserved x \<or> x = percent_sign"
  "x \<in> set (form_piece c) \<Longrightarrow> is_unreserved x \<or> x = percent_sign \<or> x = plus_sign"
proof -
  have low: "unat (x AND 0x0F) < 16" for x :: u8
    using word_and_le1 [of x "0x0F"] by (simp add: word_le_nat_alt)
  have "isalnum x \<or> x = percent_sign" if "x \<in> set (put_percent c)"
    using that hex_chars_alnum [OF low] by (auto simp: put_percent_def)
  then show "x \<in> set (url_piece c) \<Longrightarrow> is_unreserved x \<or> x = percent_sign"
    "x \<in> set (form_piece c) \<Longrightarrow> is_unreserved x \<or> x = percent_sign \<or> x = plus_sign"
    by (auto simp: url_piece_def form_piece_def is_unreserved_def split: if_splits)
qed

text \<open>
  C24. Both encoders write the whole encoding if it fits its buffer with the final NUL and fail otherwise; the encoding
  holds only unreserved characters and percent signs (and plus signs, in forms); and decoding it gives the text
  back, in every buffer that holds the text. A form decoder also reads percent-encoded text, so that a plus
  sign in the text is never taken for a space.
\<close>
theorem url_encoding_roundtrip:
  "(case nfs_url_encode s n of
     None \<Rightarrow> n \<le> length (concat (map url_piece s))
   | Some e \<Rightarrow> length e < n \<and> list_all (\<lambda>c. is_unreserved c \<or> c = percent_sign) e \<and>
       nfs_url_decode e m = (if length s < m then Some s else None) \<and>
       nfs_form_decode e m = (if length s < m then Some s else None)) \<and>
   (case nfs_form_encode s n of
     None \<Rightarrow> n \<le> length (concat (map form_piece s))
   | Some e \<Rightarrow> length e < n \<and> list_all (\<lambda>c. is_unreserved c \<or> c = percent_sign \<or> c = plus_sign) e \<and>
       nfs_form_decode e m = (if length s < m then Some s else None))"
  by (auto simp: url_encode_eq form_encode_eq nfs_url_decode_def nfs_form_decode_def decode_pieces list_all_iff
      split: option.split dest: piece_chars)

text \<open>A percent-encoded NUL is decoded, and ends the C string before its end.\<close>

lemma encoded_nul_accepted:
  "nfs_url_decode (text_bytes ''a%00b'') 8 = Some [97, 0, 98]"
  by (simp add: nfs_url_decode_def text_bytes_def hex_val_def Let_def)

text \<open>The table is searched without regard to case.\<close>

lemma mime_type_case:
  "0 \<notin> set ext \<Longrightarrow> nfs_mime_type_for_ext ext = nfs_mime_type_for_ext (map tolower ext)"
proof -
  assume ext: "0 \<notin> set ext"
  have "tolower (tolower c) = tolower c" for c
    unfolding tolower_def by (cases "65 \<le> c \<and> c \<le> 90") (auto simp: word_le_nat_alt unat_word_ariths)
  then have "map tolower (map tolower ext) = map tolower ext" by simp
  moreover have "0 \<notin> set (map tolower ext)" using ext by (auto simp: tolower_0)
  moreover have "0 \<notin> set (text_bytes (fst e))" if "e \<in> set mime_table" for e
    using that by (auto simp: mime_table_def text_bytes_def)
  ultimately show ?thesis
    unfolding nfs_mime_type_for_ext_def find_conv_find_idx
    by (subst find_idx_cong [where Q = "\<lambda>e. str_casecmp (text_bytes (fst e)) (map tolower ext) = 0"])
      (simp_all add: str_casecmp_0 ext del: map_map)
qed

end
