(* ===== verification/Ipv6.thy ===== *)
theory Ipv6
  imports Http
begin

text \<open>
  The IPv6 header (\<^verbatim>\<open>phases/03-network-layer/12-ipv6-header-rfc-8200/ipv6.c\<close>) and the text of its addresses, there
  with \<^verbatim>\<open>sscanf\<close> and in \<^verbatim>\<open>phases/03-network-layer/13-ipv6-addressing/ipv6_addr.c\<close> with a parser of its own,
  where they are also told apart by type and built from hardware addresses.
  The fields of the header are the values that the bytes have in network order. The functions of the
  first lesson that the second names alike have the suffix \<open>_12\<close>.
\<close>

section \<open>Definitions\<close>

record nfs_ipv6_hdr =
  v6_vtc_flow :: u32
  v6_payload_len :: u16
  v6_next_hdr :: u8
  v6_hop_limit :: u8
  v6_src :: "u8 list"
  v6_dst :: "u8 list"

definition nfs_ipv6_version :: "nfs_ipv6_hdr \<Rightarrow> u8" where
  "nfs_ipv6_version h = ucast (drop_bit 28 (v6_vtc_flow h) AND 0x0F)"

definition nfs_ipv6_traffic_class :: "nfs_ipv6_hdr \<Rightarrow> u8" where
  "nfs_ipv6_traffic_class h = ucast (drop_bit 20 (v6_vtc_flow h) AND 0xFF)"

definition nfs_ipv6_flow_label :: "nfs_ipv6_hdr \<Rightarrow> u32" where
  "nfs_ipv6_flow_label h = v6_vtc_flow h AND 0x000FFFFF"

definition nfs_ipv6_parse :: "u8 list \<Rightarrow> nfs_ipv6_hdr option" where
  "nfs_ipv6_parse data =
     (if length data < 40 then None
      else
        let hdr = \<lparr> v6_vtc_flow = get32 data 0, v6_payload_len = get16 data 4, v6_next_hdr = data ! 6,
                    v6_hop_limit = data ! 7, v6_src = take 16 (drop 8 data), v6_dst = take 16 (drop 24 data) \<rparr>
        in if nfs_ipv6_version hdr \<noteq> 6 then None else Some hdr)"

definition nfs_ipv6_build ::
  "u8 \<Rightarrow> u32 \<Rightarrow> u8 \<Rightarrow> u8 \<Rightarrow> u8 list \<Rightarrow> u8 list \<Rightarrow> u16 \<Rightarrow> nat \<Rightarrow> u8 list option" where
  "nfs_ipv6_build tc flow_label next_hdr hop_limit src dst payload_len out_sz =
     (if out_sz < 40 then None
      else
        let flow_label = flow_label AND 0x000FFFFF;
            vtc = push_bit 28 6 OR push_bit 20 (ucast tc) OR flow_label
        in Some (put32 vtc @ put16 payload_len @ [next_hdr, hop_limit] @ src @ dst))"

text \<open>The two digits that \<^verbatim>\<open>%02x\<close> prints.\<close>

definition hex_byte :: "u8 \<Rightarrow> u8 list" where
  "hex_byte b = [hex_digit (unat b div 16), hex_digit (unat b mod 16)]"

definition addr_text :: "u8 list \<Rightarrow> u8 list" where
  "addr_text a =
     hex_byte (a ! 0) @ hex_byte (a ! 1) @ colon_sign # hex_byte (a ! 2) @ hex_byte (a ! 3) @ colon_sign #
     hex_byte (a ! 4) @ hex_byte (a ! 5) @ colon_sign # hex_byte (a ! 6) @ hex_byte (a ! 7) @ colon_sign #
     hex_byte (a ! 8) @ hex_byte (a ! 9) @ colon_sign # hex_byte (a ! 10) @ hex_byte (a ! 11) @ colon_sign #
     hex_byte (a ! 12) @ hex_byte (a ! 13) @ colon_sign # hex_byte (a ! 14) @ hex_byte (a ! 15)"

definition nfs_ipv6_addr_format_12 :: "u8 list \<Rightarrow> nat \<Rightarrow> u8 list option" where
  "nfs_ipv6_addr_format_12 addr sz = (if sz < 40 then None else Some (addr_text addr))"

definition nfs_ipv6_addr_format :: "u8 list \<Rightarrow> nat \<Rightarrow> u8 list option" where
  "nfs_ipv6_addr_format addr sz = (if sz < 40 then None else Some (addr_text addr))"

text \<open>
  \<^verbatim>\<open>%4x\<close> of \<^verbatim>\<open>sscanf\<close>: white space, then what \<^verbatim>\<open>strtoul\<close> reads in base 16 from at most four
  characters, a sign and \<^verbatim>\<open>0x\<close> included; as the C standard has it, \<^verbatim>\<open>0x\<close> with no digit after it does
  not match.
\<close>

definition isspace :: "u8 \<Rightarrow> bool" where
  "isspace c \<longleftrightarrow> c = 32 \<or> (9 \<le> c \<and> c \<le> 13)"

definition is_hex :: "u8 \<Rightarrow> bool" where "is_hex c \<longleftrightarrow> hex_value c \<noteq> None"

definition hex_number :: "u8 list \<Rightarrow> nat" where
  "hex_number ds = foldl (\<lambda>v d. v * 16 + the (hex_value d)) 0 ds"

definition scan_4x :: "u8 list \<Rightarrow> (u32 \<times> u8 list) option" where
  "scan_4x str =
     (let s = dropWhile isspace str;
          signed = (s \<noteq> [] \<and> (hd s = 43 \<or> hd s = 45));
          neg = (s \<noteq> [] \<and> hd s = 45);
          w = (if signed then 3 else 4);
          s = (if signed then tl s else s);
          prefixed = (2 \<le> length s \<and> s ! 0 = 48 \<and> (s ! 1 = 120 \<or> s ! 1 = 88));
          w = (if prefixed then w - 2 else w);
          s = (if prefixed then drop 2 s else s);
          ds = takeWhile is_hex (take w s)
      in if ds = [] then None
         else Some (if neg then - of_nat (hex_number ds) else of_nat (hex_number ds), drop (length ds) s))"

fun scan_groups :: "nat \<Rightarrow> u8 list \<Rightarrow> u32 list \<Rightarrow> u32 list option" where
  "scan_groups 0 s groups = Some groups"
| "scan_groups (Suc k) s groups =
     (case scan_4x s of None \<Rightarrow> None
      | Some (g, r) \<Rightarrow>
          if k = 0 then Some (groups @ [g])
          else (case r of c # r' \<Rightarrow> if c = colon_sign then scan_groups k r' (groups @ [g]) else None | [] \<Rightarrow> None))"

definition nfs_ipv6_addr_parse_12 :: "u8 list \<Rightarrow> u8 list option" where
  "nfs_ipv6_addr_parse_12 str =
     (case scan_groups 8 str [] of None \<Rightarrow> None
      | Some groups \<Rightarrow>
          if length str \<noteq> 39 then None
          else if \<not> list_all (\<lambda>i. str ! (4 + i * 5) = colon_sign) [0..<7] then None
          else if \<not> list_all (\<lambda>g. g \<le> 0xFFFF) groups then None
          else Some (concat (map (\<lambda>g. [ucast (drop_bit 8 g AND 0xFF), ucast (g AND 0xFF)]) groups)))"

definition nfs_ipv6_next_hdr_name :: "u8 \<Rightarrow> string" where
  "nfs_ipv6_next_hdr_name nh =
     (if nh = 0 then ''Hop-by-Hop'' else if nh = 6 then ''TCP'' else if nh = 17 then ''UDP'' else if nh = 43 then ''Routing''
      else if nh = 44 then ''Fragment'' else if nh = 58 then ''ICMPv6'' else if nh = 59 then ''No Next Header'' else ''Unknown'')"

text \<open>The parser of the later lesson.\<close>

fun group_digits :: "u8 list \<Rightarrow> u32 \<Rightarrow> nat \<Rightarrow> (u32 \<times> nat \<times> u8 list) option" where
  "group_digits [] val digits = Some (val, digits, [])"
| "group_digits (c # p) val digits =
     (if c = colon_sign then Some (val, digits, c # p)
      else
        case hex_value c of None \<Rightarrow> None
        | Some d \<Rightarrow>
            let val = push_bit 4 val OR of_nat d; digits = digits + 1 in
            if digits > 4 then None else group_digits p val digits)"

fun parse_groups :: "nat \<Rightarrow> u8 list \<Rightarrow> u8 list \<Rightarrow> u8 list option" where
  "parse_groups 0 p addr = (if p = [] then Some addr else None)"
| "parse_groups (Suc k) p addr =
     (case group_digits p 0 0 of None \<Rightarrow> None
      | Some (val, digits, p) \<Rightarrow>
          if digits = 0 then None
          else if val > 0xFFFF then None
          else
            let addr = addr @ [ucast (drop_bit 8 val), ucast (val AND 0xFF)] in
            if k > 0 then (case p of c # r \<Rightarrow> if c = colon_sign then parse_groups k r addr else None | [] \<Rightarrow> None)
            else parse_groups k p addr)"

definition nfs_ipv6_addr_parse :: "u8 list \<Rightarrow> u8 list option" where
  "nfs_ipv6_addr_parse str = parse_groups 8 str []"

text \<open>Types of addresses; an address is the list of its sixteen bytes.\<close>

definition is_all_zero :: "u8 list \<Rightarrow> nat \<Rightarrow> bool" where
  "is_all_zero data n = list_all (\<lambda>b. b = 0) (take n data)"

definition nfs_ipv6_addr_is_loopback :: "u8 list \<Rightarrow> bool" where
  "nfs_ipv6_addr_is_loopback addr \<longleftrightarrow> is_all_zero addr 15 \<and> addr ! 15 = 0x01"

definition nfs_ipv6_addr_is_unspecified :: "u8 list \<Rightarrow> bool" where
  "nfs_ipv6_addr_is_unspecified addr \<longleftrightarrow> is_all_zero addr 16"

definition nfs_ipv6_addr_is_link_local :: "u8 list \<Rightarrow> bool" where
  "nfs_ipv6_addr_is_link_local addr \<longleftrightarrow> addr ! 0 = 0xFE \<and> addr ! 1 AND 0xC0 = 0x80"

definition nfs_ipv6_addr_is_multicast :: "u8 list \<Rightarrow> bool" where
  "nfs_ipv6_addr_is_multicast addr \<longleftrightarrow> addr ! 0 = 0xFF"

definition nfs_ipv6_addr_is_global_unicast :: "u8 list \<Rightarrow> bool" where
  "nfs_ipv6_addr_is_global_unicast addr \<longleftrightarrow> addr ! 0 AND 0xE0 = 0x20"

definition nfs_ipv6_addr_is_ula :: "u8 list \<Rightarrow> bool" where
  "nfs_ipv6_addr_is_ula addr \<longleftrightarrow> addr ! 0 AND 0xFE = 0xFC"

definition nfs_ipv6_addr_type_str :: "u8 list \<Rightarrow> string" where
  "nfs_ipv6_addr_type_str addr =
     (if nfs_ipv6_addr_is_loopback addr then ''loopback''
      else if nfs_ipv6_addr_is_unspecified addr then ''unspecified''
      else if nfs_ipv6_addr_is_multicast addr then ''multicast''
      else if nfs_ipv6_addr_is_link_local addr then ''link-local''
      else if nfs_ipv6_addr_is_ula addr then ''unique local''
      else if nfs_ipv6_addr_is_global_unicast addr then ''global unicast''
      else ''other'')"

definition nfs_ipv6_addr_from_eui64 :: "u8 list \<Rightarrow> u8 list \<Rightarrow> u8 list" where
  "nfs_ipv6_addr_from_eui64 mac prefix =
     take 8 prefix @ [mac ! 0 XOR 0x02, mac ! 1, mac ! 2, 0xFF, 0xFE, mac ! 3, mac ! 4, mac ! 5]"

definition nfs_ipv6_addr_solicited_node :: "u8 list \<Rightarrow> u8 list" where
  "nfs_ipv6_addr_solicited_node addr =
     [0xFF, 0x02] @ replicate 9 0 @ [0x01, 0xFF, addr ! 13, addr ! 14, addr ! 15]"

section \<open>Headers\<close>

lemma vtc_fields:
  fixes v :: u32
  shows "ucast (drop_bit 28 v AND 0x0F) = (6 :: u8) \<longleftrightarrow>
    push_bit 28 6 OR push_bit 20 (ucast (ucast (drop_bit 20 v AND 0xFF) :: u8)) OR (v AND 0x000FFFFF) = v"
proof -
  have m: "(0x0F :: u32) = mask 4" "(0xFF :: u32) = mask 8" "(0x000FFFFF :: u32) = mask 20"
    by (simp_all add: mask_eq_exp_minus_1)
  have "ucast (drop_bit 28 v AND 0x0F) = (6 :: u8) \<longleftrightarrow> drop_bit 28 v = 6"
  proof
    assume "ucast (drop_bit 28 v AND 0x0F) = (6 :: u8)"
    then have "ucast (ucast (drop_bit 28 v AND 0x0F) :: u8) = (6 :: u32)" by simp
    moreover have "ucast (ucast (drop_bit 28 v AND 0x0F) :: u8) = drop_bit 28 v"
      unfolding m by (rule bit_word_eqI) (auto simp: bit_simps dest: bit_imp_le_length)
    ultimately show "drop_bit 28 v = 6" by simp
  qed simp
  moreover have "drop_bit 28 v = 6 \<longleftrightarrow>
    push_bit 28 6 OR push_bit 20 (ucast (ucast (drop_bit 20 v AND 0xFF) :: u8)) OR (v AND 0x000FFFFF) = v" (is "_ \<longleftrightarrow> ?r = v")
  proof
    assume "drop_bit 28 v = 6"
    then have "?r = push_bit 28 (drop_bit 28 v) OR push_bit 20 (ucast (ucast (drop_bit 20 v AND 0xFF) :: u8)) OR (v AND 0x000FFFFF)"
      by simp
    also have "\<dots> = v"
    proof (rule bit_word_eqI)
      fix n
      show "bit (push_bit 28 (drop_bit 28 v) OR push_bit 20 (ucast (ucast (drop_bit 20 v AND 0xFF) :: u8)) OR (v AND 0x000FFFFF)) n = bit v n"
        unfolding m by (cases "28 \<le> n") (auto simp: bit_simps dest: bit_imp_le_length)
    qed
    finally show "?r = v" .
  next
    assume "?r = v"
    moreover have "drop_bit 28 ?r = 6" unfolding m by (rule bit_word_eqI) (auto simp: bit_simps)
    ultimately show "drop_bit 28 v = 6" by simp
  qed
  ultimately show ?thesis by simp
qed


lemma put_inj: "put32 a = put32 b \<longleftrightarrow> a = b" "put16 c = put16 d \<longleftrightarrow> c = d"
  by (metis be32_bytes list.inject put32_def) (metis be16_hi_lo list.inject put16_def)

text \<open>Bytes of a header, field by field.\<close>

lemma header_bytes:
  assumes "40 \<le> length data"
  shows "take 40 data = put32 (get32 data 0) @ put16 (get16 data 4) @ [data ! 6, data ! 7] @ take 16 (drop 8 data) @ take 16 (drop 24 data)"
proof -
  have t: "take (n + k) xs = take n xs @ take k (drop n xs)" for n k and xs :: "u8 list" by (simp add: take_add)
  have four: "take 4 xs = [xs ! 0, xs ! 1, xs ! 2, xs ! 3]" if "4 \<le> length xs" for xs :: "u8 list"
    using that by (intro nth_equalityI) (auto simp: less_Suc_eq numeral_eq_Suc)
  have two: "take 2 xs = [xs ! 0, xs ! 1]" if "2 \<le> length xs" for xs :: "u8 list"
    using that by (intro nth_equalityI) (auto simp: less_Suc_eq numeral_eq_Suc)
  have "take 40 data = take 4 data @ take 2 (drop 4 data) @ take 2 (drop 6 data) @ take 16 (drop 8 data) @ take 16 (drop 24 data)"
    using t [of 4 36 data] t [of 2 34 "drop 4 data"] t [of 2 32 "drop 6 data"] t [of 16 16 "drop 8 data"] by simp
  then show ?thesis using assms by (simp add: four two put32_def get32_def put16_def get16_def) (simp add: numeral_2_eq_2)
qed

definition v6_wf :: "nfs_ipv6_hdr \<Rightarrow> bool" where
  "v6_wf h \<longleftrightarrow> nfs_ipv6_version h = 6 \<and> length (v6_src h) = 16 \<and> length (v6_dst h) = 16"

lemma build_fields:
  "nfs_ipv6_version h = 6 \<Longrightarrow>
   nfs_ipv6_build (nfs_ipv6_traffic_class h) (nfs_ipv6_flow_label h) (v6_next_hdr h) (v6_hop_limit h) (v6_src h) (v6_dst h)
     (v6_payload_len h) 40 =
   Some (put32 (v6_vtc_flow h) @ put16 (v6_payload_len h) @ [v6_next_hdr h, v6_hop_limit h] @ v6_src h @ v6_dst h)"
  using vtc_fields [of "v6_vtc_flow h"]
  by (simp add: nfs_ipv6_build_def nfs_ipv6_version_def nfs_ipv6_traffic_class_def nfs_ipv6_flow_label_def Let_def and.assoc)

text \<open>
  The parser accepts exactly the bytes that start with the header that the builder writes for the fields it
  returns.
\<close>
theorem ipv6_header_exact:
  "(nfs_ipv6_parse data = Some h) =
     (v6_wf h \<and> 40 \<le> length data \<and>
      nfs_ipv6_build (nfs_ipv6_traffic_class h) (nfs_ipv6_flow_label h) (v6_next_hdr h) (v6_hop_limit h) (v6_src h) (v6_dst h)
        (v6_payload_len h) 40 = Some (take 40 data))"
proof
  assume "nfs_ipv6_parse data = Some h"
  then have len: "40 \<le> length data" and v: "nfs_ipv6_version h = 6" and
    h: "h = \<lparr> v6_vtc_flow = get32 data 0, v6_payload_len = get16 data 4, v6_next_hdr = data ! 6,
          v6_hop_limit = data ! 7, v6_src = take 16 (drop 8 data), v6_dst = take 16 (drop 24 data) \<rparr>"
    by (auto simp: nfs_ipv6_parse_def Let_def split: if_splits)
  have "v6_wf h" using v len by (simp add: v6_wf_def h)
  then show "v6_wf h \<and> 40 \<le> length data \<and> nfs_ipv6_build (nfs_ipv6_traffic_class h) (nfs_ipv6_flow_label h)
      (v6_next_hdr h) (v6_hop_limit h) (v6_src h) (v6_dst h) (v6_payload_len h) 40 = Some (take 40 data)"
    unfolding build_fields [OF v] header_bytes [OF len] using len by (simp add: h)
next
  assume a: "v6_wf h \<and> 40 \<le> length data \<and> nfs_ipv6_build (nfs_ipv6_traffic_class h) (nfs_ipv6_flow_label h)
      (v6_next_hdr h) (v6_hop_limit h) (v6_src h) (v6_dst h) (v6_payload_len h) 40 = Some (take 40 data)"
  then have wf: "nfs_ipv6_version h = 6" "length (v6_src h) = 16" "length (v6_dst h) = 16" by (auto simp: v6_wf_def)
  then have t: "take 40 data = put32 (v6_vtc_flow h) @ put16 (v6_payload_len h) @ [v6_next_hdr h, v6_hop_limit h] @ v6_src h @ v6_dst h"
    using a build_fields [OF wf(1)] by simp
  have "put32 (get32 data 0) @ put16 (get16 data 4) @ [data ! 6, data ! 7] @ take 16 (drop 8 data) @ take 16 (drop 24 data) =
      put32 (v6_vtc_flow h) @ put16 (v6_payload_len h) @ [v6_next_hdr h, v6_hop_limit h] @ v6_src h @ v6_dst h"
    using header_bytes [of data] a t by simp
  then have "get32 data 0 = v6_vtc_flow h" "get16 data 4 = v6_payload_len h" "data ! 6 = v6_next_hdr h" "data ! 7 = v6_hop_limit h"
    "take 16 (drop 8 data) = v6_src h" "take 16 (drop 24 data) = v6_dst h"
    using wf a by (auto simp: append_eq_append_conv put_inj)
  then show "nfs_ipv6_parse data = Some h"
    using a wf by (cases h) (simp add: nfs_ipv6_parse_def Let_def nfs_ipv6_version_def)
qed

section \<open>Addresses\<close>

lemma shift_or_digit: "d < 16 \<Longrightarrow> push_bit 4 v OR (of_nat d :: u32) = v * 16 + of_nat d"
proof -
  assume d: "d < 16"
  have "take_bit 4 (of_nat d :: u32) = of_nat (take_bit 4 d)" by (simp add: take_bit_of_nat)
  then have t: "of_nat d = take_bit 4 (of_nat d :: u32)" using d by (simp add: take_bit_eq_mod)
  have "push_bit 4 v AND take_bit 4 (of_nat d :: u32) = 0" by (rule bit_word_eqI) (auto simp: bit_simps)
  then have "push_bit 4 v OR of_nat d = push_bit 4 v + (of_nat d :: u32)"
    using t by (simp add: disjunctive_add_eq_or)
  then show ?thesis by (simp add: push_bit_eq_mult)
qed

lemma hex_value_less: "hex_value c = Some d \<Longrightarrow> d < 16"
  by (auto simp: hex_value_def word_le_nat_alt split: if_splits)

lemma hex_number_append: "hex_number (ds @ [c]) = hex_number ds * 16 + the (hex_value c)"
  by (simp add: hex_number_def)

lemma hex_number_less: "list_all is_hex ds \<Longrightarrow> hex_number ds < 16 ^ length ds"
proof (induction ds rule: rev_induct)
  case (snoc c ds)
  then obtain d where "hex_value c = Some d" by (auto simp: is_hex_def)
  with snoc hex_value_less [of c d] show ?case by (simp add: hex_number_append)
qed (simp add: hex_number_def)

lemma colon_not_hex: "\<not> is_hex colon_sign" by (simp add: is_hex_def hex_value_def)

text \<open>What one group of the later parser reads: all up to the colon, at most four digits.\<close>

lemma group_digits_eq:
  "n = length pre \<Longrightarrow> n \<le> 4 \<Longrightarrow> list_all is_hex pre \<Longrightarrow>
   group_digits p (of_nat (hex_number pre)) n =
     (let ds = takeWhile (\<lambda>c. c \<noteq> colon_sign) p in
      if list_all is_hex ds \<and> n + length ds \<le> 4
      then Some (of_nat (hex_number (pre @ ds)), n + length ds, dropWhile (\<lambda>c. c \<noteq> colon_sign) p) else None)"
proof (induction p arbitrary: pre n)
  case (Cons c p)
  show ?case
  proof (cases "c = colon_sign \<or> \<not> is_hex c")
    case True
    then show ?thesis using Cons.prems by (auto simp: is_hex_def)
  next
    case False
    then obtain d where d: "hex_value c = Some d" by (auto simp: is_hex_def)
    have "push_bit 4 (of_nat (hex_number pre)) OR of_nat d = (of_nat (hex_number (pre @ [c])) :: u32)"
      using shift_or_digit [OF hex_value_less [OF d], of "of_nat (hex_number pre)"] d by (simp add: hex_number_append)
    then show ?thesis
      using False d Cons.prems Cons.IH [of "n + 1" "pre @ [c]"] by (auto simp: Let_def is_hex_def)
  qed
qed (simp add: Let_def)

text \<open>The text of an address: eight groups of hexadecimal digits with colons between them.\<close>

definition group_ok :: "u8 list \<Rightarrow> bool" where
  "group_ok g \<longleftrightarrow> g \<noteq> [] \<and> length g \<le> 4 \<and> list_all is_hex g"

definition group_bytes :: "u8 list \<Rightarrow> u8 list" where
  "group_bytes g = [of_nat (hex_number g div 256), of_nat (hex_number g mod 256)]"

fun split_groups :: "u8 list \<Rightarrow> u8 list list" where
  "split_groups [] = [[]]"
| "split_groups (c # p) =
     (if c = colon_sign then [] # split_groups p else (c # hd (split_groups p)) # tl (split_groups p))"

lemma split_groups_eq:
  "split_groups p = takeWhile (\<lambda>c. c \<noteq> colon_sign) p #
     (case dropWhile (\<lambda>c. c \<noteq> colon_sign) p of [] \<Rightarrow> [] | c # r \<Rightarrow> split_groups r)"
  by (induction p) (auto split: list.split)

lemma split_groups_ne: "split_groups p \<noteq> []" by (subst split_groups_eq) simp

lemma dropWhile_colon: "dropWhile (\<lambda>c. c \<noteq> colon_sign) p = c # r \<Longrightarrow> c = colon_sign"
  by (induction p) (auto split: if_splits)

lemma group_word_bytes:
  "n < 65536 \<Longrightarrow> [ucast (drop_bit 8 (of_nat n :: u32)), ucast ((of_nat n :: u32) AND 0xFF)] = [of_nat (n div 256), of_nat (n mod 256) :: u8]"
  "n < 65536 \<Longrightarrow> [ucast (drop_bit 8 (of_nat n :: u32) AND 0xFF), ucast ((of_nat n :: u32) AND 0xFF)] = [of_nat (n div 256), of_nat (n mod 256) :: u8]"
proof -
  assume n: "n < 65536"
  have m: "(0xFF :: u32) = mask 8" by (simp add: mask_eq_exp_minus_1)
  have u: "unat (of_nat n :: u32) = n" using n by (simp add: unat_of_nat_u32)
  have a: "ucast (drop_bit 8 (of_nat n :: u32)) = (of_nat (n div 256) :: u8)"
    by (rule word_unat_eq_iff [THEN iffD2]) (use n in \<open>simp add: unsigned_ucast_eq take_bit_eq_mod drop_bit_eq_div unat_div u unat_of_nat\<close>)
  have b: "ucast ((of_nat n :: u32) AND 0xFF) = (of_nat (n mod 256) :: u8)"
    unfolding m take_bit_eq_mask [symmetric]
    by (rule word_unat_eq_iff [THEN iffD2]) (use n in \<open>simp add: unsigned_ucast_eq take_bit_eq_mod unat_mod u unat_of_nat\<close>)
  have c: "ucast (x AND 0xFF) = (ucast x :: u8)" for x :: u32
    unfolding m by (rule bit_word_eqI) (auto simp: bit_simps)
  show "[ucast (drop_bit 8 (of_nat n :: u32)), ucast ((of_nat n :: u32) AND 0xFF)] = [of_nat (n div 256), of_nat (n mod 256) :: u8]"
    "[ucast (drop_bit 8 (of_nat n :: u32) AND 0xFF), ucast ((of_nat n :: u32) AND 0xFF)] = [of_nat (n div 256), of_nat (n mod 256) :: u8]"
    unfolding c [of "drop_bit 8 (of_nat n)"] a b by simp_all
qed


lemma group_number: "group_ok g \<Longrightarrow> hex_number g < 65536"
  using hex_number_less [of g] power_increasing [of "length g" 4 "16 :: nat"] by (auto simp: group_ok_def)

lemma parse_group_step:
  "parse_groups (Suc k) p addr =
     (let g = takeWhile (\<lambda>c. c \<noteq> colon_sign) p in
      if group_ok g then
        (case dropWhile (\<lambda>c. c \<noteq> colon_sign) p of
           [] \<Rightarrow> if k = 0 then Some (addr @ group_bytes g) else None
         | c # r \<Rightarrow> if k = 0 then None else parse_groups k r (addr @ group_bytes g))
      else None)"
proof -
  let ?g = "takeWhile (\<lambda>c. c \<noteq> colon_sign) p" and ?r = "dropWhile (\<lambda>c. c \<noteq> colon_sign) p"
  show ?thesis
  proof (cases "group_ok ?g")
    case True
    then have gd: "group_digits p 0 0 = Some (of_nat (hex_number ?g), length ?g, ?r)" and ne: "length ?g \<noteq> 0"
      using group_digits_eq [of 0 "[]" p] by (auto simp: Let_def group_ok_def hex_number_def)
    have nb: "\<not> (of_nat (hex_number ?g) :: u32) > 0xFFFF"
      using group_number [OF True] by (simp add: word_less_nat_alt unat_of_nat_u32)
    have wb: "[ucast (drop_bit 8 (of_nat (hex_number ?g) :: u32)), ucast ((of_nat (hex_number ?g) :: u32) AND 0xFF)] = group_bytes ?g"
      unfolding group_bytes_def by (rule group_word_bytes(1) [OF group_number [OF True]])
    have "parse_groups (Suc k) p addr =
        (if k > 0 then (case ?r of c # r \<Rightarrow> if c = colon_sign then parse_groups k r (addr @ group_bytes ?g) else None | [] \<Rightarrow> None)
         else parse_groups k ?r (addr @ group_bytes ?g))"
      unfolding parse_groups.simps(2) gd option.case prod.case if_not_P [OF ne] if_not_P [OF nb] wb Let_def by (rule refl)
    also have "\<dots> =
        (case ?r of [] \<Rightarrow> if k = 0 then Some (addr @ group_bytes ?g) else None
         | c # r \<Rightarrow> if k = 0 then None else parse_groups k r (addr @ group_bytes ?g))"
    proof (cases ?r)
      case Nil
      then show ?thesis by (cases "k = 0") (simp_all del: dropWhile_eq_Nil_conv)
    next
      case (Cons c r)
      then have "c = colon_sign" by (rule dropWhile_colon)
      then show ?thesis using Cons by (cases "k = 0") (simp_all del: dropWhile_eq_Nil_conv)
    qed
    finally show ?thesis using True by (simp only: Let_def if_True)
  next
    case False
    then have "group_digits p 0 0 = None \<or> (\<exists>v r. group_digits p 0 0 = Some (v, 0, r))"
      using group_digits_eq [of 0 "[]" p] by (auto simp: Let_def group_ok_def hex_number_def)
    then show ?thesis using False by (auto simp: Let_def)
  qed
qed

lemma parse_groups_eq:
  "parse_groups (Suc k) p addr =
     (let gs = split_groups p in
      if length gs = Suc k \<and> list_all group_ok gs then Some (addr @ concat (map group_bytes gs)) else None)"
proof (induction k arbitrary: p addr)
  case (0 p addr)
  show ?case
    unfolding parse_group_step [of 0 p addr] split_groups_eq [of p]
    by (auto simp: Let_def split_groups_ne simp del: dropWhile_eq_Nil_conv split: list.split)
next
  case (Suc k p addr)
  show ?case
    unfolding parse_group_step [of "Suc k" p addr] split_groups_eq [of p] Suc.IH
    by (simp add: Let_def del: dropWhile_eq_Nil_conv split: list.split)
qed

text \<open>The text of an address has eight groups of four digits, and stands for the address.\<close>

lemma hex_byte_digits:
  "hex_digit (unat b div 16) \<noteq> colon_sign" "hex_digit (unat b mod 16) \<noteq> colon_sign"
  "hex_value (hex_digit (unat b div 16)) = Some (unat b div 16)" "hex_value (hex_digit (unat (b :: u8) mod 16)) = Some (unat b mod 16)"
proof -
  have d: "unat b div 16 < 16" "unat b mod 16 < 16" using unat_u8_less [of b] by simp_all
  then show v: "hex_value (hex_digit (unat b div 16)) = Some (unat b div 16)" "hex_value (hex_digit (unat b mod 16)) = Some (unat b mod 16)"
    by (simp_all add: hex_value_digit)
  show "hex_digit (unat b div 16) \<noteq> colon_sign" "hex_digit (unat b mod 16) \<noteq> colon_sign"
    using v colon_not_hex by (auto simp: is_hex_def)
qed

lemma group_of_bytes:
  "group_ok (hex_byte x @ hex_byte y)" "group_bytes (hex_byte x @ hex_byte y) = [x, y]"
proof -
  show "group_ok (hex_byte x @ hex_byte y)" by (simp add: group_ok_def hex_byte_def is_hex_def hex_byte_digits)
  have "hex_number (hex_byte x @ hex_byte y) =
      ((unat x div 16 * 16 + unat x mod 16) * 16 + unat y div 16) * 16 + unat y mod 16"
    by (simp add: hex_number_def hex_byte_def hex_byte_digits)
  also have "\<dots> = unat x * 256 + unat y" by presburger
  finally show "group_bytes (hex_byte x @ hex_byte y) = [x, y]"
    using unat_u8_less [of y] by (simp add: group_bytes_def)
qed

lemma split_bytes:
  "split_groups (hex_byte x @ hex_byte y @ colon_sign # r) = (hex_byte x @ hex_byte y) # split_groups r"
  "split_groups (hex_byte x @ hex_byte y) = [hex_byte x @ hex_byte y]"
  by (simp_all add: hex_byte_def hex_byte_digits)

lemma split_addr_text:
  "split_groups (addr_text a) = map (\<lambda>i. hex_byte (a ! (2 * i)) @ hex_byte (a ! (2 * i + 1))) [0..<8]"
  by (simp add: addr_text_def split_bytes upt_conv_Cons)

lemma pairs_of: "2 * n \<le> length a \<Longrightarrow> concat (map (\<lambda>i. [a ! (2 * i), a ! (2 * i + 1)]) [0..<n]) = take (2 * n) a"
proof (induction n)
  case (Suc n)
  then have "take (2 * Suc n) a = take (2 * n) a @ [a ! (2 * n), a ! (2 * n + 1)]"
    using take_Suc_conv_app_nth [of "2 * n" a] take_Suc_conv_app_nth [of "2 * n + 1" a] by simp
  with Suc show ?case by simp
qed simp

lemma parse_format: "length a = 16 \<Longrightarrow> nfs_ipv6_addr_parse (addr_text a) = Some a"
proof -
  assume a: "length a = 16"
  have "map group_bytes (split_groups (addr_text a)) = map (\<lambda>i. [a ! (2 * i), a ! (2 * i + 1)]) [0..<8]"
    unfolding split_addr_text by (simp add: group_of_bytes)
  moreover have "list_all group_ok (split_groups (addr_text a))" "length (split_groups (addr_text a)) = 8"
    unfolding split_addr_text by (simp_all add: list_all_iff group_of_bytes)
  ultimately show ?thesis
    using pairs_of [of 8 a] a parse_groups_eq [of 7 "addr_text a" "[]"] by (simp add: nfs_ipv6_addr_parse_def Let_def)
qed

section \<open>The two parsers\<close>

fun join_groups :: "u8 list list \<Rightarrow> u8 list" where
  "join_groups [] = []"
| "join_groups [g] = g"
| "join_groups (g # h # gs) = g @ colon_sign # join_groups (h # gs)"

lemma join_split: "join_groups (split_groups p) = p"
proof (induction p)
  case (Cons c p)
  obtain g gs where "split_groups p = g # gs" using split_groups_ne [of p] by (cases "split_groups p") auto
  with Cons show ?case by (cases gs) auto
qed simp

lemma length_join: "gs \<noteq> [] \<Longrightarrow> length (join_groups gs) + 1 = sum_list (map length gs) + length gs"
  by (induction gs rule: join_groups.induct) auto

lemma full_groups:
  "list_all group_ok gs \<Longrightarrow> sum_list (map length gs) = 4 * length gs \<Longrightarrow> \<forall>g \<in> set gs. length g = 4"
proof (induction gs)
  case (Cons g gs)
  have "sum_list (map length gs) \<le> 4 * length gs"
    using Cons.prems(1) by (induction gs) (auto simp: group_ok_def)
  moreover have "length g \<le> 4" using Cons.prems(1) by (simp add: group_ok_def)
  ultimately have "length g = 4" "sum_list (map length gs) = 4 * length gs" using Cons.prems(2) by simp_all
  then show ?case using Cons by simp
qed simp

lemma hex_plain: "is_hex c \<Longrightarrow> \<not> isspace c \<and> c \<noteq> 43 \<and> c \<noteq> 45 \<and> c \<noteq> 120 \<and> c \<noteq> 88"
  by (auto simp: is_hex_def hex_value_def isspace_def word_le_nat_alt)

lemma scan_full_group:
  assumes "list_all is_hex g" and "length g = 4"
  shows "scan_4x (g @ r) = Some (of_nat (hex_number g), r)"
proof -
  obtain a b c d where g: "g = [a, b, c, d]" using assms(2) by (auto simp: length_Suc_conv numeral_eq_Suc)
  have h: "is_hex a" "is_hex b" "is_hex c" "is_hex d" using assms(1) by (simp_all add: g)
  have skip: "dropWhile isspace (g @ r) = g @ r" using hex_plain [OF h(1)] by (simp add: g)
  have plain: "a \<noteq> 43" "a \<noteq> 45" "b \<noteq> 120" "b \<noteq> 88" using hex_plain [OF h(1)] hex_plain [OF h(2)] by blast+
  have "takeWhile is_hex (take 4 (g @ r)) = g" using h by (simp add: g)
  then show ?thesis using skip plain by (simp add: scan_4x_def Let_def g)
qed

lemma scan_join:
  "gs \<noteq> [] \<Longrightarrow> list_all group_ok gs \<Longrightarrow> \<forall>g \<in> set gs. length g = 4 \<Longrightarrow>
   scan_groups (length gs) (join_groups gs) acc = Some (acc @ map (\<lambda>g. of_nat (hex_number g)) gs)"
proof (induction gs arbitrary: acc rule: join_groups.induct)
  case (2 g)
  then show ?case using scan_full_group [of g "[]"] by (simp add: group_ok_def)
next
  case (3 g h gs)
  then show ?case using scan_full_group [of g "colon_sign # join_groups (h # gs)"] by (simp add: group_ok_def)
qed simp

lemma join_colons: "\<forall>g \<in> set gs. length g = 4 \<Longrightarrow> i + 1 < length gs \<Longrightarrow> join_groups gs ! (4 + i * 5) = colon_sign"
proof (induction gs arbitrary: i rule: join_groups.induct)
  case (3 g h gs)
  then show ?case by (cases i) (simp_all add: nth_append)
qed simp_all

lemma parse_12_full:
  assumes "nfs_ipv6_addr_parse s = Some a" and "length s = 39"
  shows "nfs_ipv6_addr_parse_12 s = Some a"
proof -
  let ?gs = "split_groups s"
  have gs: "length ?gs = 8" "list_all group_ok ?gs" and a: "a = concat (map group_bytes ?gs)"
    using assms(1) parse_groups_eq [of 7 s "[]"] by (auto simp: nfs_ipv6_addr_parse_def Let_def split: if_splits)
  have full: "\<forall>g \<in> set ?gs. length g = 4"
    using full_groups [OF gs(2)] length_join [of ?gs] assms(2) gs(1) split_groups_ne by (simp add: join_split)
  have scan: "scan_groups 8 s [] = Some (map (\<lambda>g. of_nat (hex_number g)) ?gs)"
    using scan_join [OF split_groups_ne gs(2) full, of "[]"] gs(1) by (simp add: join_split)
  have colons: "list_all (\<lambda>i. s ! (4 + i * 5) = colon_sign) [0..<7]"
    using join_colons [OF full] gs(1) by (simp add: list_all_iff join_split)
  have small: "list_all (\<lambda>g. g \<le> 0xFFFF) (map (\<lambda>g. of_nat (hex_number g) :: u32) ?gs)"
    using gs(2) group_number by (fastforce simp: list_all_iff word_le_nat_alt unat_of_nat_u32)
  have "concat (map (\<lambda>g. [ucast (drop_bit 8 g AND 0xFF), ucast (g AND 0xFF)]) (map (\<lambda>g. of_nat (hex_number g) :: u32) ?gs)) = a"
    unfolding a map_map using gs(2) group_number
    by (intro arg_cong [where f = concat] map_cong) (auto simp: list_all_iff group_bytes_def group_word_bytes(2))
  then show ?thesis
    unfolding nfs_ipv6_addr_parse_12_def scan option.case using assms(2) colons small by simp
qed

lemma length_addr_text: "length (addr_text a) = 39"
  by (simp add: addr_text_def hex_byte_def)

text \<open>Every address is the one its text is parsed to, by both lessons; on texts of full length they agree.\<close>

lemma parsers_agree:
  "length a = 16 \<Longrightarrow> 40 \<le> n \<Longrightarrow> Option.bind (nfs_ipv6_addr_format_12 a n) nfs_ipv6_addr_parse_12 = Some a"
  "length s = 39 \<Longrightarrow> nfs_ipv6_addr_parse s = Some a \<Longrightarrow> nfs_ipv6_addr_parse_12 s = Some a"
  using parse_format [of a] parse_12_full [OF _ length_addr_text] parse_12_full
  by (auto simp: nfs_ipv6_addr_format_12_def)

lemma addr_parse_eq:
  "nfs_ipv6_addr_parse s =
     (let gs = split_groups s in
      if length gs = 8 \<and> list_all group_ok gs then Some (concat (map group_bytes gs)) else None)"
  using parse_groups_eq [of 7 s "[]"] by (simp add: nfs_ipv6_addr_parse_def Let_def)

text \<open>
  C7. The parser of the addressing lesson accepts exactly the texts that the colons cut into eight groups of one
  to four hexadecimal digits, and returns the two bytes of the number in each group, in order; and the text
  written for any address, into a buffer of at least 40 bytes, is parsed to that address.
\<close>
theorem ipv6_addr_text_exact:
  "nfs_ipv6_addr_parse s =
     (let gs = split_groups s in
      if length gs = 8 \<and> list_all group_ok gs then Some (concat (map group_bytes gs)) else None) \<and>
   (length a = 16 \<longrightarrow>
      Option.bind (nfs_ipv6_addr_format a n) nfs_ipv6_addr_parse = (if 40 \<le> n then Some a else None))"
  using parse_format [of a] addr_parse_eq [of s] by (auto simp: nfs_ipv6_addr_format_def)

definition sample_v6 :: "u8 list" where
  "sample_v6 = [0x20, 0x01, 0x0d, 0xb8, 0, 0, 0, 0, 0, 0, 0, 0, 0, 0, 0, 1]"

lemma ipv6_addr_text_exact_witness:
  "Option.bind (nfs_ipv6_addr_format sample_v6 40) nfs_ipv6_addr_parse = Some sample_v6"
  using ipv6_addr_text_exact [of "[]" sample_v6 40] by (simp add: sample_v6_def)

text \<open>
  The other parser looks for colons only where a text of full length has them: nine groups pass, the
  first two short, and the last is ignored.
\<close>

lemma nine_groups_accepted:
  "nfs_ipv6_addr_parse_12 (49 # colon_sign # 50 # 51 # colon_sign # join_groups (replicate 7 [97, 98, 99, 100])) =
     Some ([0, 1, 0, 0x23] @ concat (replicate 6 [0xab, 0xcd]))"
proof -
  let ?g = "[97, 98, 99, 100] :: u8 list"
  have hex: "list_all is_hex ?g" by (simp add: is_hex_def hex_value_def)
  have num: "hex_number ?g = 0xabcd" by (simp add: hex_number_def hex_value_def)
  have scan: "scan_4x (?g @ r) = Some (0xabcd, r)" for r using scan_full_group [OF hex, of r] by (simp add: num)
  have short: "scan_4x (49 # colon_sign # r) = Some (1, colon_sign # r)"
    "scan_4x (50 # 51 # colon_sign # r) = Some (0x23, colon_sign # r)" for r
    by (simp_all add: scan_4x_def isspace_def is_hex_def hex_value_def hex_number_def Let_def)
  let ?s = "49 # colon_sign # 50 # 51 # colon_sign # join_groups (replicate 7 ?g)"
  have "scan_groups 8 ?s [] = Some ([1, 0x23] @ replicate 6 0xabcd)"
    using scan by (simp add: numeral_eq_Suc short)
  moreover have "length ?s = 39" "list_all (\<lambda>i. ?s ! (4 + i * 5) = colon_sign) [0..<7]"
    by (simp_all add: numeral_eq_Suc)
  moreover have "list_all (\<lambda>g :: u32. g \<le> 0xFFFF) ([1, 0x23] @ replicate 6 0xabcd)"
    by (simp add: list_all_iff)
  moreover have "[ucast (drop_bit 8 g AND 0xFF), ucast (g AND 0xFF)] =
      (if g = 1 then [0, 1] else if g = 0x23 then [0, 0x23] else [0xab, 0xcd :: u8])"
    if "g \<in> {1, 0x23, 0xabcd}" for g :: u32 using that by auto
  then have "concat (map (\<lambda>g. [ucast (drop_bit 8 g AND 0xFF), ucast (g AND 0xFF)]) ([1, 0x23 :: u32] @ replicate 6 0xabcd)) =
      [0, 1, 0, 0x23] @ concat (replicate 6 [0xab, 0xcd :: u8])" by simp
  ultimately show ?thesis unfolding nfs_ipv6_addr_parse_12_def by (simp only: option.case simp_thms if_False if_True)
qed

text \<open>The other lesson's parser takes groups shorter than the four digits its header announces.\<close>

lemma short_groups_accepted:
  "nfs_ipv6_addr_parse (text_bytes ''1:2:3:4:5:6:7:8'') = Some [0, 1, 0, 2, 0, 3, 0, 4, 0, 5, 0, 6, 0, 7, 0, 8]"
  by code_simp

section \<open>Types of addresses\<close>

text \<open>The six types exclude each other, so the order of the tests in the naming function does not matter.\<close>

lemma addr_types_exclusive:
  assumes "length a = 16"
  shows "length (filter id [nfs_ipv6_addr_is_loopback a, nfs_ipv6_addr_is_unspecified a, nfs_ipv6_addr_is_multicast a,
      nfs_ipv6_addr_is_link_local a, nfs_ipv6_addr_is_ula a, nfs_ipv6_addr_is_global_unicast a]) \<le> 1"
proof -
  have zero: "a ! i = 0" if "is_all_zero a n" "i < n" "i < 16" for i n
    using that assms by (auto simp: is_all_zero_def list_all_length)
  have "a ! 15 = 0" if "nfs_ipv6_addr_is_unspecified a"
    using that zero [of 16 15] by (simp add: nfs_ipv6_addr_is_unspecified_def)
  then have z: "\<not> (nfs_ipv6_addr_is_loopback a \<and> nfs_ipv6_addr_is_unspecified a)"
    by (auto simp: nfs_ipv6_addr_is_loopback_def)
  have first: "a ! 0 = 0" if "nfs_ipv6_addr_is_loopback a \<or> nfs_ipv6_addr_is_unspecified a"
    using that zero [of 15 0] zero [of 16 0] by (auto simp: nfs_ipv6_addr_is_loopback_def nfs_ipv6_addr_is_unspecified_def)
  have "(a ! 0 AND 0xFE) AND 0xE0 = a ! 0 AND 0xE0" by (simp add: and.assoc)
  then have u: "\<not> (nfs_ipv6_addr_is_ula a \<and> nfs_ipv6_addr_is_global_unicast a)"
    by (auto simp: nfs_ipv6_addr_is_ula_def nfs_ipv6_addr_is_global_unicast_def)
  have "a ! 0 = 0 \<Longrightarrow> \<not> nfs_ipv6_addr_is_multicast a \<and> \<not> nfs_ipv6_addr_is_link_local a \<and>
      \<not> nfs_ipv6_addr_is_ula a \<and> \<not> nfs_ipv6_addr_is_global_unicast a"
    by (simp add: nfs_ipv6_addr_is_multicast_def nfs_ipv6_addr_is_link_local_def nfs_ipv6_addr_is_ula_def
        nfs_ipv6_addr_is_global_unicast_def)
  moreover have "nfs_ipv6_addr_is_multicast a \<Longrightarrow>
      \<not> nfs_ipv6_addr_is_link_local a \<and> \<not> nfs_ipv6_addr_is_ula a \<and> \<not> nfs_ipv6_addr_is_global_unicast a"
    "nfs_ipv6_addr_is_link_local a \<Longrightarrow> \<not> nfs_ipv6_addr_is_ula a \<and> \<not> nfs_ipv6_addr_is_global_unicast a"
    by (simp_all add: nfs_ipv6_addr_is_multicast_def nfs_ipv6_addr_is_link_local_def nfs_ipv6_addr_is_ula_def
        nfs_ipv6_addr_is_global_unicast_def)
  ultimately show ?thesis using z first u by auto
qed

text \<open>
  An address built from a hardware address has the prefix it was given and lets the hardware address be read
  back; the group its neighbours ask it at is a multicast address that keeps the last three bytes.
\<close>

lemma eui64_fields:
  assumes "length mac = 6" and "length prefix = 8" and "a = nfs_ipv6_addr_from_eui64 mac prefix"
  shows "length a = 16" and "take 8 a = prefix"
    and "[a ! 8 XOR 0x02, a ! 9, a ! 10, a ! 13, a ! 14, a ! 15] = mac"
proof -
  obtain m0 m1 m2 m3 m4 m5 where m: "mac = [m0, m1, m2, m3, m4, m5]"
    using assms(1) by (auto simp: length_Suc_conv numeral_eq_Suc)
  have "(m0 XOR 2) XOR 2 = m0" by (rule bit_word_eqI) (auto simp: bit_xor_iff)
  then show "length a = 16" "take 8 a = prefix" "[a ! 8 XOR 0x02, a ! 9, a ! 10, a ! 13, a ! 14, a ! 15] = mac"
    using assms(2) by (simp_all add: assms(3) nfs_ipv6_addr_from_eui64_def m nth_append)
qed

lemma solicited_multicast:
  "nfs_ipv6_addr_is_multicast (nfs_ipv6_addr_solicited_node a) \<and> length (nfs_ipv6_addr_solicited_node a) = 16 \<and>
   (length a = 16 \<longrightarrow> drop 13 (nfs_ipv6_addr_solicited_node a) = drop 13 a)"
proof -
  have "drop 13 a = [a ! 13, a ! 14, a ! 15]" if "length a = 16"
    using that by (simp add: Cons_nth_drop_Suc [symmetric])
  then show ?thesis by (simp add: nfs_ipv6_addr_is_multicast_def nfs_ipv6_addr_solicited_node_def numeral_eq_Suc)
qed

end
