(* ===== verification/Spec2Isabelle.thy ===== *)
theory Spec2Isabelle
  imports Ipv4 Tcb SlidingWindow Sack Rdt RetxQueue Teardown Congestion Lpm Rtable MacTable ArpCache
    L2Switch NatTable Conntrack Framing Crc Stp Fragment Quic Coding Dns Hpack Chunked
    Segment Handshake TcpOpts DnsTransport Frames TlsHello RecvWindow TcpTimers Paths
    Ethernet Slip Bridge Tftp Ndp Tunnel Cookie Wifi Http HttpConn Vhost Url Ipv6
begin

text \<open>
  A verification library for the C code of networking-from-scratch, a course that builds the
  protocols of a network stack lesson by lesson. Each lesson under \<^verbatim>\<open>src/phases\<close> is a small
  library of its own (a \<^verbatim>\<open>.c\<close> and a \<^verbatim>\<open>.h\<close> file) with a demonstration program and tests; the lessons
  share \<^verbatim>\<open>src/common/c/checksum.c\<close> and otherwise only ideas: the checksum, tables keyed by an
  address or a flow, encoders with their decoders, state machines driven by packets. This
  library has one theory per lesson or pair of lessons, and the shared contracts are locales.

  \<^bold>\<open>How the code is modelled.\<close> A buffer with its length is a \<open>u8 list\<close>, so that writing a
  prefix of an output buffer is returning the list of the bytes written; the size of the output
  buffer remains an argument, because the code fails when it is too small. Words keep their
  width and wrap; \<^verbatim>\<open>size_t\<close> and loop counters are \<open>nat\<close>, with wrap-around written out where
  it can happen (Chunked). A \<^verbatim>\<open>struct\<close> is a \<open>record\<close>, an array with a count a list, -1
  is \<open>None\<close> or an error value, a pointer stored through by the callee part of the result. Loops
  are recursive functions on what is left to do; two loops that need not end are partial functions.
  Tests for null pointers are left out: a model has none. Times given as \<^verbatim>\<open>double\<close> are reals.

  \<^bold>\<open>Shared ground.\<close> Prelude has the big-endian fields, the scan and sweep loops of tables and
  their lemmas. Interfaces has the contracts: \<open>machine\<close> (an invariant kept by every event),
  \<open>simulation\<close> (a machine that computes an abstract one), \<open>keyed_table\<close>, \<open>codec\<close> and its
  extensions \<open>delimited_codec\<close>, \<open>self_delimiting\<close> and \<open>located_codec\<close> (values that can be laid one after the
  other in a stream), \<open>checksum_field\<close>, \<open>best_match\<close>. Every component that has one of these
  contracts interprets it on its own definitions. Tables has the lemmas about keyed tables.

  \<^bold>\<open>Bits and wires\<close> (phase 01). Coding: Hamming(7,4) corrects one flipped bit per codeword;
  Manchester, NRZI and 4B/5B are transparent and keep the clock. Crc: the table-driven CRCs equal
  a bit-serial shift register, and bursts of bits up to the width are detected. Framing: byte stuffing, bit
  stuffing and COBS give the payload back, and the delimiter never occurs inside. Slip: SLIP, and PPP
  frames whose check sequence, computed from a table of literals, detects bursts.

  \<^bold>\<open>Link layer\<close> (phase 02). Ethernet: frames, VLAN tags, the ARP responder with the cache it fills,
  magic packets and MTU checks. MacTable and ArpCache: after any history the tables behave
  as bounded maps with aging. Bridge: the database with static entries, refined to a map. L2Switch: over every run the switch keeps its tables well-formed, never sends a
  frame back out of its port, counts exactly what it did with every frame, and reaches stations it has heard. Stp: a
  bridge knows the best root it has heard of, and bridges that keep exchanging BPDUs elect one root. Wifi:
  the 802.11 header, whose parser accepts exactly what the builder writes.

  \<^bold>\<open>Network layer\<close> (phase 03). Checksum: RFC 1071 sums and the incremental updates of RFC 1624
  agree with recomputation. Ipv4: headers are read back as built and one-byte corruption is detected.
  Cidr, Lpm, Rtable: masks are intervals, lookups find the longest matching prefix (and the least
  metric). Fragment: fragments in any order reassemble to the packet. Paths: traceroute, path MTU discovery and ECN. Ndp: neighbor
  discovery messages and the walk over their options, which always moves on and stays inside. Ipv6: the parser of
  headers accepts exactly what starts with a built one; the texts of addresses, and their types.   Tunnel: GRE in IP in IP, layer by layer. NatTable: replies reach the sender of the flow.

  \<^bold>\<open>Transport\<close> (phase 04). SeqNum: the comparisons modulo \<open>2 ^ 32\<close> are those of the stream.
  Segment: TCP and UDP headers with the checksum over the pseudo-header, from builder to receiver.
  Handshake: the three segments, and what two contexts agree on over an unreliable network.
  TcpOpts: what the option parser accepts, exactly, with the builders of three lessons, and window scaling.
  Tcb, SlidingWindow, Sack, RetxQueue: the bookkeeping of a connection, with bounds over every run.
  RecvWindow: the receive buffer as a bounded queue, and a transfer through a window that closes.
  TcpTimers: Nagle's algorithm, delayed acknowledgments and keepalive.
  Tftp: the parser accepts exactly what starts with what the builders write.
  Rdt: Go-Back-N over a channel that loses, duplicates and reorders, as a step relation, delivers a
  prefix of what was sent and can always complete. TcpFsm, Teardown: the state table, two
  endpoints that close cleanly in every interleaving, and the close operations as its refinement.
  Congestion: slow start, fast recovery and Reno. Conntrack: a firewall's table as a set of
  independent automata. Quic: variable-length integers and packet headers.

  \<^bold>\<open>Applications and TLS\<close> (phases 06 and 07). DnsName: names with compression pointers, with an inductive
  relation that says what a name in a message is, a bound on the decoder's loop, and that it reads nothing behind the message. Dns: a
  resolver's query answered by an authoritative server from its zone and parsed back. DnsTransport:
  truncated responses, TCP framing and the OPT record of EDNS(0). Hpack: integers, the static
  table and the ring buffer of the dynamic table. Chunked: encoder, decoder and trailers. Frames: HTTP/2 frames,
  WebSocket frames as they arrive, TLS records. Cookie: from the line of the server over the jar to the
  header of the next request. Http: a request as a client writes it is parsed to its fields. HttpConn: pipelined
  requests are answered in order, from a ring that refines a queue. Vhost: the site a request is routed to is the one its
  parsed header names. Url: percent- and form-encoding are undone by their decoders. TlsHello: the ClientHello, inside its record.

  \<^bold>\<open>Bounds and fuel.\<close> No definition has fuel. \<open>evict_until\<close> (Hpack) and
  \<open>decode_chunks\<close> (Chunked) are partial functions: they are shown to return for all headers that fit their
  slots and all inputs below \<open>2 ^ 31\<close> bytes, beyond which the second need not (\<open>huge_chunk_never_returns\<close>). Other loops are recursive functions with termination proofs.
  Theorems about whole runs that need counters not to wrap (NAT ports, congestion windows) say so.

  \<^bold>\<open>Defects\<close> of the code that came to light are lemmas where they can be computed, each beside its
  component: \<open>wrapped_ack_refused\<close>, \<open>partly_acked_segment_removed\<close>, \<open>tcb_ack_beyond_nxt\<close>,
  \<open>nat_expire_all_or_none\<close>, \<open>originator_alone_establishes\<close>, \<open>reassembles_without_last\<close>,
  \<open>tiny_mtu_not_refused\<close>, \<open>notification_taken_for_root\<close>, \<open>nearer_bridge_blocks_its_port\<close>,
  \<open>long_names_hang\<close>, \<open>unterminated_name_accepted\<close>, \<open>huge_chunk_overreads\<close>, \<open>huge_chunk_never_returns\<close>,
  \<open>partial_loses_carries\<close>, \<open>synack_to_synack\<close>, \<open>established_without_syn\<close>, \<open>established_overwritten\<close>, \<open>edns_rdlen_wraps\<close>,
  \<open>iterator_moves_on_failure\<close>, \<open>extensions_length_wraps\<close>, \<open>long_path_never_reached\<close>,
  \<open>responder_never_capable\<close>, \<open>last_probe_not_sent\<close>, \<open>single_probe_not_awaited\<close>, \<open>window_above_32_bits\<close>,
  \<open>ppp_flag_inside\<close>,
  \<open>static_entry_moved\<close>,
  \<open>removed_port_learns\<close>,
  \<open>option_total_len_wraps\<close>,
  \<open>gre_corruption_accepted\<close>,
  \<open>attribute_prefix_taken\<close>,
  \<open>semicolon_in_name\<close>,
  \<open>source_of_acknowledgment\<close>,
  \<open>cut_request_accepted\<close>,
  \<open>closed_without_notice\<close>,
  \<open>empty_host_refused\<close>,
  \<open>host_port_wraps\<close>,
  \<open>encoded_nul_accepted\<close>,
  \<open>nine_groups_accepted\<close>,
  \<open>short_groups_accepted\<close>,
  \<open>full_buffer_acknowledges\<close>.

  \<^bold>\<open>Not modelled.\<close> Raw sockets, TUN and TAP devices, sockets and multiplexing (system
  calls); modulation, channel capacity, CUBIC, BBR, the retransmission timer and NTP (floating point
  whose rounding the properties would be about); formatting and text parsing with \<^verbatim>\<open>snprintf\<close>,
  \<^verbatim>\<open>sscanf\<close> and the address functions of the C library; the demonstration programs, the tests and
  the Python helpers. The manifest lists the remaining lessons with their status.
\<close>

end
